(* ===== verification/Prelude.thy ===== *)
theory Prelude
  imports Main
begin

text \<open>
  Shared vocabulary of the development: the outcomes a C++ operation can have beside
  returning (a memory fault that the language leaves undefined), the sequencing of such
  operations, the loops over a directory or a file, and the width of the C \<open>int\<close>.
\<close>

section \<open>Faults and sequencing\<close>

text \<open>
  The program writes into fixed buffers with \<open>sprintf\<close>, indexes and dereferences
  unchecked pointers. Where the language gives such an access no meaning the model returns
  \<open>Inl\<close> of the kind of fault; a result \<open>Inr x\<close> says that the code ran to its end
  without any of them.
\<close>

datatype fault =
    BufferOverflow  \<comment> \<open>\<open>sprintf\<close> or \<open>fscanf\<close> past the end of its buffer\<close>
  | NullDeref       \<comment> \<open>a null \<open>char*\<close> or \<open>FILE*\<close> is used\<close>
  | OutOfBounds     \<comment> \<open>an index, length or position outside its object\<close>
  | Uninitialised   \<comment> \<open>an indeterminate buffer or value is read\<close>
  | UseAfterFree    \<comment> \<open>a pointer to a deleted object is used\<close>
  | IntOverflow     \<comment> \<open>signed arithmetic leaves the range of \<open>int\<close>\<close>
  | CheckFailed     \<comment> \<open>a \<open>GOOGLE_CHECK\<close> or \<open>GOOGLE_DCHECK\<close> aborts (\<open>NDEBUG\<close> is not set)\<close>

type_synonym 'a run = "fault + 'a"

named_theorems run_simps
  \<comment> \<open>rules that evaluate a run of code step by step\<close>

definition bnd :: "'a run \<Rightarrow> ('a \<Rightarrow> 'b run) \<Rightarrow> 'b run" where
  "bnd m f = (case m of Inl e \<Rightarrow> Inl e | Inr x \<Rightarrow> f x)"

lemma bnd_Inr [simp, run_simps]: "bnd (Inr x) f = f x"
  by (simp add: bnd_def)

lemma bnd_Inl [simp, run_simps]: "bnd (Inl e) f = Inl e"
  by (simp add: bnd_def)

lemma bnd_eq_Inr: "bnd m f = Inr y \<longleftrightarrow> (\<exists>x. m = Inr x \<and> f x = Inr y)"
  by (cases m) auto

lemma bnd_eq_Inl: "bnd m f = Inl e \<longleftrightarrow> m = Inl e \<or> (\<exists>x. m = Inr x \<and> f x = Inl e)"
  by (cases m) auto

lemma bnd_InrE [elim]:
  assumes "bnd m f = Inr y"
  obtains x where "m = Inr x" and "f x = Inr y"
  using assms by (auto simp: bnd_eq_Inr)

lemma bnd_cong [fundef_cong]:
  "m = m' \<Longrightarrow> (\<And>x. m' = Inr x \<Longrightarrow> f x = f' x) \<Longrightarrow> bnd m f = bnd m' f'"
  by (cases m') auto

lemma bnd_assoc: "bnd (bnd m f) g = bnd m (\<lambda>x. bnd (f x) g)"
  by (cases m) auto

definition safe :: "'a run \<Rightarrow> bool" where
  "safe m \<longleftrightarrow> (case m of Inl _ \<Rightarrow> False | Inr _ \<Rightarrow> True)"

lemma safe_Inr [simp]: "safe (Inr x)"
  by (simp add: safe_def)

lemma safe_Inl [simp]: "\<not> safe (Inl e)"
  by (simp add: safe_def)

lemma safe_iff: "safe m \<longleftrightarrow> (\<exists>x. m = Inr x)"
  by (cases m) auto

lemma safe_bnd: "safe (bnd m f) \<longleftrightarrow> (\<exists>x. m = Inr x \<and> safe (f x))"
  by (cases m) auto

section \<open>Loops over a list of items\<close>

text \<open>
  \<open>for_each body xs s\<close> is the loop that runs \<open>body\<close> on each item in turn, with the
  state \<open>s\<close> that the body changes; the first fault ends it.
\<close>

fun for_each :: "('a \<Rightarrow> 's \<Rightarrow> 's run) \<Rightarrow> 'a list \<Rightarrow> 's \<Rightarrow> 's run" where
  "for_each body [] s = Inr s"
| "for_each body (x # xs) s = bnd (body x s) (for_each body xs)"

lemma for_each_append:
  "for_each body (xs @ ys) s = bnd (for_each body xs s) (for_each body ys)"
  by (induction xs arbitrary: s) (auto simp: bnd_def split: sum.splits)

lemma for_each_cong [fundef_cong]:
  assumes "xs = ys" and "s = t"
    and "\<And>x u. x \<in> set ys \<Longrightarrow> f x u = g x u"
  shows "for_each f xs s = for_each g ys t"
  unfolding assms(1,2) using assms(3)
  by (induction ys arbitrary: t) (auto intro!: bnd_cong)

text \<open>An invariant that the body keeps, together with what the body computes under it.\<close>

lemma for_each_fold:
  assumes "I s"
    and "\<And>x t. x \<in> set xs \<Longrightarrow> I t \<Longrightarrow> body x t = Inr (g x t) \<and> I (g x t)"
  shows "for_each body xs s = Inr (fold g xs s)" and "I (fold g xs s)"
proof -
  have "for_each body xs s = Inr (fold g xs s) \<and> I (fold g xs s)"
    using assms by (induction xs arbitrary: s) auto
  then show "for_each body xs s = Inr (fold g xs s)" and "I (fold g xs s)"
    by simp_all
qed

lemma for_each_inv:
  assumes "for_each body xs s = Inr t" and "I s"
    and "\<And>x u v. x \<in> set xs \<Longrightarrow> I u \<Longrightarrow> body x u = Inr v \<Longrightarrow> I v"
  shows "I t"
  using assms
proof (induction xs arbitrary: s)
  case Nil
  then show ?case by simp
next
  case (Cons x xs)
  from Cons.prems(1) obtain u where u: "body x s = Inr u" and rest: "for_each body xs u = Inr t"
    by auto
  have "I u" using Cons.prems(3) Cons.prems(2) u by (meson list.set_intros(1))
  with rest show ?case using Cons.IH Cons.prems(3) by (meson list.set_intros(2))
qed

lemma for_each_safe:
  assumes "I s"
    and "\<And>x u. x \<in> set xs \<Longrightarrow> I u \<Longrightarrow> \<exists>v. body x u = Inr v \<and> I v"
  shows "\<exists>t. for_each body xs s = Inr t \<and> I t"
  using assms
proof (induction xs arbitrary: s)
  case Nil
  then show ?case by simp
next
  case (Cons x xs)
  from Cons.prems obtain v where "body x s = Inr v" and "I v"
    by (meson list.set_intros(1))
  with Cons.IH[of v] Cons.prems(2) show ?case by auto
qed

text \<open>The loop as a plain fold, when no item faults.\<close>

lemma for_each_total:
  assumes "\<And>x t. x \<in> set xs \<Longrightarrow> body x t = Inr (g x t)"
  shows "for_each body xs s = Inr (fold g xs s)"
  using assms by (induction xs arbitrary: s) auto

section \<open>Checks and array accesses\<close>

text \<open>\<open>GOOGLE_CHECK\<close> and, as the build does not set \<open>NDEBUG\<close>, \<open>GOOGLE_DCHECK\<close>.\<close>

definition check :: "bool \<Rightarrow> 'b run \<Rightarrow> 'b run" where
  "check b m = (if b then m else Inl CheckFailed)"

definition read_at :: "'a list \<Rightarrow> int \<Rightarrow> 'a run" where
  "read_at xs i = (if 0 \<le> i \<and> i < int (length xs) then Inr (xs ! nat i) else Inl OutOfBounds)"

definition write_at :: "'a list \<Rightarrow> int \<Rightarrow> 'a \<Rightarrow> 'a list run" where
  "write_at xs i x =
    (if 0 \<le> i \<and> i < int (length xs) then Inr (xs[nat i := x]) else Inl OutOfBounds)"

section \<open>The C \<open>int\<close>\<close>

text \<open>
  A C \<open>int\<close> is kept as an \<open>int\<close> in the range of 32 signed bits; \<open>wrap32\<close> is the
  conversion into that range (what the hardware does when an addition leaves it), and
  \<open>to_u32\<close> the conversion to \<open>unsigned int\<close> that C applies to the signed operand of a
  comparison with an unsigned one.
\<close>

definition wrap32 :: "int \<Rightarrow> int" where
  "wrap32 x = (x + 2 ^ 31) mod 2 ^ 32 - 2 ^ 31"

definition int32 :: "int \<Rightarrow> bool" where
  "int32 x \<longleftrightarrow> - (2 ^ 31) \<le> x \<and> x < 2 ^ 31"

definition to_u32 :: "int \<Rightarrow> int" where
  "to_u32 x = x mod 2 ^ 32"

lemma wrap32_int32 [simp]: "int32 (wrap32 x)"
  by (simp add: wrap32_def int32_def)

lemma wrap32_id: "int32 x \<Longrightarrow> wrap32 x = x"
  by (simp add: wrap32_def int32_def)

lemma to_u32_range: "0 \<le> to_u32 x \<and> to_u32 x < 2 ^ 32"
  by (simp add: to_u32_def)

lemma to_u32_id: "0 \<le> x \<Longrightarrow> x < 2 ^ 32 \<Longrightarrow> to_u32 x = x"
  by (simp add: to_u32_def)

lemma to_u32_negative: "x < 0 \<Longrightarrow> int32 x \<Longrightarrow> to_u32 x = x + 2 ^ 32"
proof -
  assume "x < 0" and "int32 x"
  then have "0 \<le> x + 2 ^ 32" and "x + 2 ^ 32 < 2 ^ 32" by (simp_all add: int32_def)
  then have "(x + 2 ^ 32) mod 2 ^ 32 = x + 2 ^ 32" by (rule mod_pos_pos_trivial)
  then show ?thesis by (simp only: to_u32_def mod_add_self2)
qed

section \<open>Lists\<close>

lemma takeWhile_stop:
  "(\<And>x. x \<in> set xs \<Longrightarrow> P x) \<Longrightarrow> ys = [] \<or> \<not> P (hd ys) \<Longrightarrow> takeWhile P (xs @ ys) = xs"
  by (induction xs) (auto simp: takeWhile_eq_Nil_iff)

lemma dropWhile_stop:
  "(\<And>x. x \<in> set xs \<Longrightarrow> P x) \<Longrightarrow> ys = [] \<or> \<not> P (hd ys) \<Longrightarrow> dropWhile P (xs @ ys) = ys"
  by (induction xs) (auto simp: dropWhile_eq_self_iff)

lemma map_of_filter_key:
  "map_of (filter (\<lambda>e. fst e \<noteq> k) xs) = (map_of xs)(k := None)"
  by (induction xs) (auto simp: fun_eq_iff)

lemma distinct_fst_filter: "distinct (map fst xs) \<Longrightarrow> distinct (map fst (filter P xs))"
  by (induction xs) auto

end
