(* ===== verification/CString.thy ===== *)
theory CString
  imports Prelude "HOL-Library.List_Lexorder" "HOL-Library.Char_ord"
begin

text \<open>
  The part of the C and C++ string library that the program is written with: strings that
  end at the first zero byte, \<open>strcmp\<close>, \<open>atoi\<close>, the \<open>%d\<close> conversion, \<open>sprintf\<close> into a
  buffer, \<open>fgets\<close>, \<open>fscanf\<close> with \<open>%s\<close>, \<open>strtok\<close>, and \<open>find\<close> and \<open>substr\<close> of
  \<open>std::string\<close>. A file's content and a buffer are lists of bytes.
\<close>

section \<open>Bytes and C strings\<close>

abbreviation NUL :: char where "NUL \<equiv> CHR 0x00"
abbreviation newline :: char where "newline \<equiv> CHR 0x0A"

definition cstr :: "string \<Rightarrow> string" where
  "cstr s = takeWhile (\<lambda>c. c \<noteq> NUL) s"

definition nul_free :: "string \<Rightarrow> bool" where
  "nul_free s \<longleftrightarrow> NUL \<notin> set s"

lemma cstr_nul_free [simp]: "nul_free s \<Longrightarrow> cstr s = s"
  by (auto simp: cstr_def nul_free_def takeWhile_eq_all_conv)

lemma nul_free_cstr [simp]: "nul_free (cstr s)"
  by (auto simp: cstr_def nul_free_def dest: set_takeWhileD)

lemma length_cstr: "length (cstr s) \<le> length s"
  by (simp add: cstr_def length_takeWhile_le)

lemma set_cstr: "set (cstr s) \<subseteq> set s"
  by (auto simp: cstr_def dest: set_takeWhileD)

lemma nul_free_simps [simp]:
  "nul_free []"
  "nul_free (c # s) \<longleftrightarrow> c \<noteq> NUL \<and> nul_free s"
  "nul_free (s @ t) \<longleftrightarrow> nul_free s \<and> nul_free t"
  by (auto simp: nul_free_def)

text \<open>Reading one byte of a buffer that holds a C string: its terminator is a zero byte.\<close>

definition byte_at :: "string \<Rightarrow> nat \<Rightarrow> char" where
  "byte_at s i = (if i < length s then s ! i else NUL)"

text \<open>\<open>strcmp\<close> compares unsigned bytes up to the first difference.\<close>

fun strcmp :: "string \<Rightarrow> string \<Rightarrow> int" where
  "strcmp [] [] = 0"
| "strcmp [] (y # ys) = - of_char y"
| "strcmp (x # xs) [] = of_char x"
| "strcmp (x # xs) (y # ys) = (if x = y then strcmp xs ys else of_char x - of_char y)"

lemma of_char_int_pos: "0 \<le> (of_char c :: int)"
  by (metis of_nat_0_le_iff of_nat_of_char)

lemma of_char_int_eq [simp]: "(of_char x :: int) = of_char y \<longleftrightarrow> x = y"
  by (metis of_char_eq_iff)

lemma char_less_int: "x < y \<longleftrightarrow> (of_char x :: int) < of_char y"
  by (metis less_char_def of_nat_less_iff of_nat_of_char)

lemma of_char_int_zero [simp]: "(of_char c :: int) = 0 \<longleftrightarrow> c = NUL"
proof -
  have "(of_char NUL :: int) = 0" by simp
  then show ?thesis by (metis of_char_eq_iff)
qed

lemma strcmp_eq_0: "nul_free s \<Longrightarrow> nul_free t \<Longrightarrow> strcmp s t = 0 \<longleftrightarrow> s = t"
  by (induction s t rule: strcmp.induct) auto

text \<open>On zero-free strings \<open>strcmp\<close> is the lexicographic order of the byte strings.\<close>

lemma strcmp_less: "nul_free s \<Longrightarrow> nul_free t \<Longrightarrow> strcmp s t < 0 \<longleftrightarrow> s < t"
proof (induction s t rule: strcmp.induct)
  case (2 y ys)
  then have "0 < (of_char y :: int)"
    by (metis of_char_int_pos of_char_int_zero nul_free_simps(2) order_le_less)
  then show ?case by simp
next
  case (3 x xs)
  then show ?case using of_char_int_pos[of x] by (simp add: not_less)
next
  case (4 x xs y ys)
  then show ?case by (auto simp: Cons_less_Cons char_less_int)
qed simp

section \<open>Decimal numbers\<close>

definition is_digit :: "char \<Rightarrow> bool" where
  "is_digit c \<longleftrightarrow> CHR ''0'' \<le> c \<and> c \<le> CHR ''9''"

definition digit_val :: "char \<Rightarrow> int" where
  "digit_val c = of_char c - 48"

definition isspace :: "char \<Rightarrow> bool" where
  "isspace c \<longleftrightarrow> c = CHR '' '' \<or> (CHR 0x09 \<le> c \<and> c \<le> CHR 0x0D)"

definition digits_val :: "string \<Rightarrow> int" where
  "digits_val ds = foldl (\<lambda>a c. 10 * a + digit_val c) 0 ds"

text \<open>
  \<open>atoi(s)\<close> is \<open>(int) strtol(s, NULL, 10)\<close>: leading white space, an optional sign, the
  longest run of digits; \<open>strtol\<close> saturates at the limits of a 64-bit \<open>long\<close> and the
  conversion to \<open>int\<close> keeps the low 32 bits.
\<close>

definition clamp64 :: "int \<Rightarrow> int" where
  "clamp64 x = max (- (2 ^ 63)) (min (2 ^ 63 - 1) x)"

definition strtol10 :: "string \<Rightarrow> int" where
  "strtol10 s =
     (case dropWhile isspace s of
        [] \<Rightarrow> 0
      | c # r \<Rightarrow>
          if c = CHR ''-'' then clamp64 (- digits_val (takeWhile is_digit r))
          else if c = CHR ''+'' then clamp64 (digits_val (takeWhile is_digit r))
          else clamp64 (digits_val (takeWhile is_digit (c # r))))"

definition atoi :: "string \<Rightarrow> int" where
  "atoi s = wrap32 (strtol10 s)"

lemma atoi_int32 [simp]: "int32 (atoi s)"
  by (simp add: atoi_def)

text \<open>The \<open>%d\<close> conversion.\<close>

definition digit_char :: "nat \<Rightarrow> char" where
  "digit_char d = char_of (48 + d)"

fun nat_str :: "nat \<Rightarrow> string" where
  "nat_str n = (if n < 10 then [digit_char n] else nat_str (n div 10) @ [digit_char (n mod 10)])"

declare nat_str.simps [simp del]

definition int_str :: "int \<Rightarrow> string" where
  "int_str x = (if x < 0 then CHR ''-'' # nat_str (nat (- x)) else nat_str (nat x))"

lemma digit_char_val: "d < 10 \<Longrightarrow> digit_val (digit_char d) = int d"
proof -
  assume "d < 10"
  then have "(of_char (char_of (48 + d)) :: nat) = 48 + d" by simp
  then have "(of_char (char_of (48 + d)) :: int) = 48 + int d"
    by (metis of_nat_of_char of_nat_add of_nat_numeral)
  then show ?thesis by (simp add: digit_val_def digit_char_def)
qed

lemma digit_char_digit: "d < 10 \<Longrightarrow> is_digit (digit_char d)"
  by (auto simp: is_digit_def digit_char_def less_eq_char_def)

lemma digits_val_snoc: "digits_val (ds @ [c]) = 10 * digits_val ds + digit_val c"
  by (simp add: digits_val_def)

lemma nat_str_val: "digits_val (nat_str n) = int n"
proof (induction n rule: nat_str.induct)
  case (1 n)
  show ?case
  proof (cases "n < 10")
    case True
    then show ?thesis by (simp add: nat_str.simps digits_val_def digit_char_val)
  next
    case False
    have "10 * int (n div 10) + int (n mod 10) = int n" by presburger
    with False 1 show ?thesis
      by (subst nat_str.simps) (simp add: digits_val_snoc digit_char_val)
  qed
qed

lemma nat_str_digits: "c \<in> set (nat_str n) \<Longrightarrow> is_digit c"
proof (induction n rule: nat_str.induct)
  case (1 n)
  show ?case
  proof (cases "n < 10")
    case True
    with 1 show ?thesis by (simp add: nat_str.simps digit_char_digit)
  next
    case False
    with 1 show ?thesis by (subst (asm) (2) nat_str.simps) (auto simp: digit_char_digit)
  qed
qed

lemma nat_str_nonempty [simp]: "nat_str n \<noteq> []"
  by (subst nat_str.simps) simp


lemma is_digit_not_space: "is_digit c \<Longrightarrow> \<not> isspace c"
  by (auto simp: is_digit_def isspace_def less_eq_char_def)

lemma is_digit_not_sign: "is_digit c \<Longrightarrow> c \<noteq> CHR ''-'' \<and> c \<noteq> CHR ''+''"
  by (auto simp: is_digit_def less_eq_char_def)

lemma nat_str_hd: "is_digit (hd (nat_str n))"
  using nat_str_digits[of "hd (nat_str n)" n] by simp

lemma dropWhile_isspace_digits:
  assumes "ds \<noteq> []" and "is_digit (hd ds)"
  shows "dropWhile isspace (ds @ r) = ds @ r"
  using assms by (cases ds) (auto dest: is_digit_not_space)

lemma strtol10_digits:
  assumes "ds \<noteq> []" and "\<And>c. c \<in> set ds \<Longrightarrow> is_digit c" and "r = [] \<or> \<not> is_digit (hd r)"
  shows "strtol10 (ds @ r) = clamp64 (digits_val ds)"
proof -
  obtain c cs where ds: "ds = c # cs" using assms(1) by (cases ds) auto
  have "is_digit (hd ds)" using assms(1,2) by simp
  then have "dropWhile isspace (ds @ r) = ds @ r"
    by (rule dropWhile_isspace_digits[OF assms(1)])
  moreover have "takeWhile is_digit (ds @ r) = ds"
    using assms(2,3) by (intro takeWhile_stop) auto
  moreover have "c \<noteq> CHR ''-''" and "c \<noteq> CHR ''+''"
    using assms(2)[of c] is_digit_not_sign[of c] ds by auto
  ultimately show ?thesis by (simp add: strtol10_def ds)
qed

lemma int32_clamp64: "int32 x \<Longrightarrow> clamp64 x = x"
  by (simp add: clamp64_def int32_def)

text \<open>\<open>atoi\<close> reads back what \<open>%d\<close> wrote, whatever non-digit follows it.\<close>

lemma atoi_int_str:
  assumes "int32 x" and "r = [] \<or> \<not> is_digit (hd r)"
  shows "atoi (int_str x @ r) = x"
proof (cases "x < 0")
  case True
  have "takeWhile is_digit (nat_str (nat (- x)) @ r) = nat_str (nat (- x))"
    using assms(2) nat_str_digits by (intro takeWhile_stop) auto
  moreover have "\<not> isspace (CHR ''-'')" by (simp add: isspace_def less_eq_char_def)
  ultimately have "strtol10 (int_str x @ r) = x"
    using True assms(1) by (simp add: strtol10_def int_str_def nat_str_val int32_clamp64)
  then show ?thesis using assms(1) by (simp add: atoi_def wrap32_id)
next
  case False
  then have "strtol10 (int_str x @ r) = x"
    using strtol10_digits[of "nat_str (nat x)" r] assms nat_str_digits
    by (simp add: int_str_def nat_str_val int32_clamp64)
  then show ?thesis using assms(1) by (simp add: atoi_def wrap32_id)
qed

lemma length_nat_str: "0 < k \<Longrightarrow> n < 10 ^ k \<Longrightarrow> length (nat_str n) \<le> k"
proof (induction k arbitrary: n)
  case 0
  then show ?case by simp
next
  case (Suc k)
  show ?case
  proof (cases "n < 10")
    case True
    then show ?thesis by (simp add: nat_str.simps)
  next
    case False
    with Suc.prems(2) have "n div 10 < 10 ^ k" and "k \<noteq> 0"
      by (auto simp: less_mult_imp_div_less intro!: gr0I)
    with Suc.IH[of "n div 10"] False show ?thesis by (subst nat_str.simps) simp
  qed
qed

lemma length_int_str: "int32 x \<Longrightarrow> length (int_str x) \<le> 11"
proof -
  assume "int32 x"
  then have "nat x < 10 ^ 10" and "nat (- x) < 10 ^ 10" by (auto simp: int32_def)
  then have "length (nat_str (nat x)) \<le> 10" and "length (nat_str (nat (- x))) \<le> 10"
    by (auto intro: length_nat_str)
  then show ?thesis by (simp add: int_str_def)
qed

lemma int_str_set: "c \<in> set (int_str x) \<Longrightarrow> is_digit c \<or> c = CHR ''-''"
  by (auto simp: int_str_def dest: nat_str_digits split: if_splits)

section \<open>Writing into a buffer\<close>

text \<open>
  \<open>sprintf\<close> into a buffer of \<open>n\<close> bytes: the text and its terminating zero must fit.
\<close>

definition sprintf :: "nat \<Rightarrow> string \<Rightarrow> string run" where
  "sprintf n text = (if length text < n then Inr text else Inl BufferOverflow)"

definition MAX_NAME_LEN :: nat where "MAX_NAME_LEN = 256"
definition MAX_LINE_LEN :: nat where "MAX_LINE_LEN = 1024"

definition path_of :: "string \<Rightarrow> string \<Rightarrow> string" where
  "path_of dir name = dir @ ''/'' @ name"

text \<open>\<open>sprintf(fname, "%s/%s", dir, name)\<close> with \<open>char fname[MAX_NAME_LEN]\<close>.\<close>

definition sprintf_path :: "string \<Rightarrow> string \<Rightarrow> string run" where
  "sprintf_path dir name = sprintf MAX_NAME_LEN (path_of dir name)"

lemma sprintf_ok [simp]: "length t < n \<Longrightarrow> sprintf n t = Inr t"
  by (simp add: sprintf_def)

lemma sprintf_Inr [simp]: "sprintf n t = Inr x \<longleftrightarrow> length t < n \<and> x = t"
  by (auto simp: sprintf_def)

lemma sprintf_Inl: "sprintf n t = Inl e \<longleftrightarrow> n \<le> length t \<and> e = BufferOverflow"
  by (auto simp: sprintf_def)

definition fits_path :: "string \<Rightarrow> string \<Rightarrow> bool" where
  "fits_path dir name \<longleftrightarrow> length dir + length name + 1 < MAX_NAME_LEN"

lemma length_path_of [simp]: "length (path_of d n) = Suc (length d + length n)"
  by (simp add: path_of_def)

lemma sprintf_path_ok [simp]: "fits_path d n \<Longrightarrow> sprintf_path d n = Inr (path_of d n)"
  by (simp add: sprintf_path_def fits_path_def)

lemma sprintf_path_Inr: "sprintf_path d n = Inr p \<longleftrightarrow> fits_path d n \<and> p = path_of d n"
  by (auto simp: sprintf_path_def fits_path_def)

lemma sprintf_path_overflow: "\<not> fits_path d n \<Longrightarrow> sprintf_path d n = Inl BufferOverflow"
  by (simp add: sprintf_path_def fits_path_def sprintf_def)

section \<open>Reading lines: fgets\<close>

text \<open>
  \<open>fgets(line, n, fp)\<close> reads up to \<open>n - 1\<close> bytes and stops after a newline; it returns
  null at the end of the file. \<open>read_line\<close> splits off the bytes one call reads;
  \<open>fgets_lines\<close> is what the successive iterations of
  \<open>while (fgets(line, MAX_LINE_LEN, fp))\<close> find in \<open>line\<close>.
\<close>

fun read_line :: "nat \<Rightarrow> string \<Rightarrow> string \<times> string" where
  "read_line 0 s = ([], s)"
| "read_line (Suc k) [] = ([], [])"
| "read_line (Suc k) (c # s) =
     (if c = newline then ([c], s) else (let (l, r) = read_line k s in (c # l, r)))"

lemma read_line_numeral [simp]:
  "read_line (numeral v) [] = ([], [])"
  "read_line (numeral v) (c # s) =
     (if c = newline then ([c], s)
      else (let (l, r) = read_line (pred_numeral v) s in (c # l, r)))"
  by (simp_all add: numeral_eq_Suc)

lemma read_line_append: "read_line k s = (l, r) \<Longrightarrow> l @ r = s"
  by (induction k s arbitrary: l r rule: read_line.induct)
    (auto split: if_splits prod.splits)

lemma read_line_rest: "length (snd (read_line (Suc k) (c # s))) \<le> length s"
  using read_line_append[of k s "fst (read_line k s)" "snd (read_line k s)"]
  by (auto split: prod.splits dest: arg_cong[where f = length])

function fgets_chunks :: "nat \<Rightarrow> string \<Rightarrow> string list" where
  "fgets_chunks k s =
     (if s = [] \<or> k = 0 then []
      else fst (read_line k s) # fgets_chunks k (snd (read_line k s)))"
  by pat_completeness auto
termination
proof (relation "measure (\<lambda>(k, s). length s)")
  show "wf (measure (\<lambda>(k::nat, s::string). length s))" by simp
next
  fix k :: nat and s :: string
  assume "\<not> (s = [] \<or> k = 0)"
  then obtain j c t where "k = Suc j" and "s = c # t" by (metis list.exhaust not0_implies_Suc)
  then show "((k, snd (read_line k s)), k, s) \<in> measure (\<lambda>(k, s). length s)"
    using read_line_rest[of j c t] by (simp add: le_imp_less_Suc)
qed

declare fgets_chunks.simps [simp del]

definition fgets_lines :: "string \<Rightarrow> string list" where
  "fgets_lines s = fgets_chunks (MAX_LINE_LEN - 1) s"

lemma fgets_chunks_Nil [simp]: "fgets_chunks k [] = []"
  by (simp add: fgets_chunks.simps)

lemma fgets_lines_Nil [simp]: "fgets_lines [] = []"
  by (simp add: fgets_lines_def)

lemma fgets_chunks_concat: "0 < k \<Longrightarrow> concat (fgets_chunks k s) = s"
proof (induction k s rule: fgets_chunks.induct)
  case (1 k s)
  have "fst (read_line k s) @ snd (read_line k s) = s"
    by (rule read_line_append) simp
  with 1 show ?case by (cases "s = []") (auto simp: fgets_chunks.simps[of k s])
qed

lemma fgets_lines_concat [simp]: "concat (fgets_lines s) = s"
  by (simp add: fgets_lines_def fgets_chunks_concat MAX_LINE_LEN_def)

text \<open>The shape of one chunk: never empty, never longer than the buffer, at most one newline
  and that at its end.\<close>

lemma read_line_shape:
  "read_line k s = (l, r) \<Longrightarrow> length l \<le> k \<and> newline \<notin> set (butlast l) \<and> (l = [] \<longrightarrow> s = [] \<or> k = 0)"
  by (induction k s arbitrary: l r rule: read_line.induct)
    (auto split: if_splits prod.splits)

lemma fgets_chunks_shape:
  assumes "l \<in> set (fgets_chunks k s)"
  shows "length l \<le> k" and "l \<noteq> []" and "newline \<notin> set (butlast l)"
proof -
  have "length l \<le> k \<and> l \<noteq> [] \<and> newline \<notin> set (butlast l)"
    using assms
  proof (induction k s rule: fgets_chunks.induct)
    case (1 k s)
    then have "\<not> (s = [] \<or> k = 0)"
      by (auto simp: fgets_chunks.simps[of k s] split: if_splits)
    with 1 show ?case
      using read_line_shape[of k s "fst (read_line k s)" "snd (read_line k s)"]
      by (auto simp: fgets_chunks.simps[of k s])
  qed
  then show "length l \<le> k" and "l \<noteq> []" and "newline \<notin> set (butlast l)" by auto
qed

lemma fgets_lines_shape:
  assumes "l \<in> set (fgets_lines s)"
  shows "length l < MAX_LINE_LEN" and "l \<noteq> []" and "newline \<notin> set (butlast l)"
  using fgets_chunks_shape[of l "MAX_LINE_LEN - 1" s] assms
  by (auto simp: fgets_lines_def MAX_LINE_LEN_def)

lemma fgets_lines_subset: "l \<in> set (fgets_lines s) \<Longrightarrow> set l \<subseteq> set s"
  using fgets_lines_concat[of s] by (metis UN_upper set_concat)

text \<open>Whole lines that fit the buffer come back one by one.\<close>

definition is_line :: "string \<Rightarrow> bool" where
  "is_line l \<longleftrightarrow> (\<exists>b. l = b @ [newline] \<and> newline \<notin> set b \<and> nul_free b) \<and> length l < MAX_LINE_LEN"

lemma read_line_line:
  assumes "newline \<notin> set b" and "length b < k"
  shows "read_line k (b @ newline # r) = (b @ [newline], r)"
  using assms
proof (induction b arbitrary: k)
  case Nil
  then show ?case by (cases k) auto
next
  case (Cons c b)
  then show ?case by (cases k) auto
qed

lemma fgets_lines_Cons:
  assumes "is_line l"
  shows "fgets_lines (l @ s) = l # fgets_lines s"
proof -
  obtain b where b: "l = b @ [newline]" "newline \<notin> set b" "length b < MAX_LINE_LEN - 1"
    using assms by (auto simp: is_line_def MAX_LINE_LEN_def)
  then have "read_line (MAX_LINE_LEN - 1) (l @ s) = (l, s)"
    using read_line_line[of b "MAX_LINE_LEN - 1" s] by simp
  moreover have "l @ s \<noteq> []" and "MAX_LINE_LEN - 1 \<noteq> 0"
    using b by (simp_all add: MAX_LINE_LEN_def)
  ultimately show ?thesis
    by (subst (1) fgets_lines_def) (simp add: fgets_chunks.simps[of _ "l @ s"] fgets_lines_def)
qed

lemma fgets_lines_concat_lines:
  "(\<And>l. l \<in> set ls \<Longrightarrow> is_line l) \<Longrightarrow> fgets_lines (concat ls) = ls"
  by (induction ls) (auto simp: fgets_lines_Cons)

text \<open>A copy through \<open>fgets\<close> and \<open>fputs\<close> loses nothing of a content without zero bytes.\<close>

definition fputs_lines :: "string list \<Rightarrow> string" where
  "fputs_lines ls = concat (map cstr ls)"

lemma fputs_lines_simps [simp]:
  "fputs_lines [] = []"
  "fputs_lines (l # ls) = cstr l @ fputs_lines ls"
  by (simp_all add: fputs_lines_def)

lemma fputs_fgets_copy:
  assumes "nul_free s"
  shows "fputs_lines (fgets_lines s) = s"
proof -
  have "\<forall>l \<in> set (fgets_lines s). cstr l = l"
    using assms fgets_lines_subset by (fastforce simp: nul_free_def intro!: cstr_nul_free)
  then have "map cstr (fgets_lines s) = fgets_lines s" by (simp add: map_idI)
  then show ?thesis by (simp add: fputs_lines_def)
qed

section \<open>Splitting: strtok, find, substr, fscanf\<close>

text \<open>
  One call of \<open>strtok\<close> with the one delimiter \<open>d\<close> on the text that is left: the token (or
  null) and the text left for the next call.
\<close>

definition strtok :: "char \<Rightarrow> string \<Rightarrow> string option \<times> string" where
  "strtok d s =
     (let t = dropWhile (\<lambda>c. c = d) s
      in if t = [] then (None, [])
         else (Some (takeWhile (\<lambda>c. c \<noteq> d) t), drop 1 (dropWhile (\<lambda>c. c \<noteq> d) t)))"

text \<open>\<open>s.find(c, pos)\<close> stored in an \<open>int\<close>: the position, or \<open>-1\<close> for \<open>npos\<close>.\<close>

definition find_from :: "char \<Rightarrow> string \<Rightarrow> int \<Rightarrow> int" where
  "find_from c s pos =
     (if pos < 0 then -1
      else let i = nat pos + length (takeWhile (\<lambda>x. x \<noteq> c) (drop (nat pos) s))
           in if i < length s then int i else -1)"

text \<open>
  \<open>s.substr(pos, n)\<close> with \<open>int\<close> arguments converted to \<open>size_t\<close>: a negative length is a
  huge one; a position past the end (or negative) throws, which ends the process.
\<close>

definition substr :: "string \<Rightarrow> int \<Rightarrow> int \<Rightarrow> string run" where
  "substr s pos n =
     (if pos < 0 \<or> int (length s) < pos then Inl OutOfBounds
      else if n < 0 then Inr (drop (nat pos) s)
      else Inr (take (nat n) (drop (nat pos) s)))"

text \<open>The tokens that successive \<open>%s\<close> conversions of \<open>fscanf\<close> read.\<close>

function scan_tokens :: "string \<Rightarrow> string list" where
  "scan_tokens s =
     (let t = dropWhile isspace s
      in if t = [] then []
         else takeWhile (\<lambda>c. \<not> isspace c) t # scan_tokens (dropWhile (\<lambda>c. \<not> isspace c) t))"
  by pat_completeness auto
termination
proof (relation "measure length")
  show "wf (measure (length :: string \<Rightarrow> nat))" by simp
next
  fix s t :: string
  assume t: "t = dropWhile isspace s" and "t \<noteq> []"
  then obtain c u where c: "t = c # u" and "\<not> isspace c"
    by (metis hd_dropWhile list.collapse)
  then have "length (dropWhile (\<lambda>c. \<not> isspace c) t) \<le> length u"
    by (simp add: length_dropWhile_le)
  moreover have "length t \<le> length s" unfolding t by (rule length_dropWhile_le)
  ultimately show "(dropWhile (\<lambda>c. \<not> isspace c) t, s) \<in> measure length" using c by simp
qed

declare scan_tokens.simps [simp del]

lemma strtok_first:
  assumes "d \<notin> set t" and "t \<noteq> []"
  shows "strtok d (t @ d # r) = (Some t, r)"
proof -
  have "dropWhile (\<lambda>c. c = d) (t @ d # r) = t @ d # r"
    using assms by (cases t) auto
  moreover have "takeWhile (\<lambda>c. c \<noteq> d) (t @ d # r) = t"
    using assms by (intro takeWhile_stop) auto
  moreover have "dropWhile (\<lambda>c. c \<noteq> d) (t @ d # r) = d # r"
    using assms by (intro dropWhile_stop) auto
  ultimately show ?thesis by (simp add: strtok_def)
qed

lemma strtok_last:
  assumes "d \<notin> set t" and "t \<noteq> []"
  shows "strtok d t = (Some t, [])"
proof -
  have "dropWhile (\<lambda>c. c = d) t = t"
    using assms by (cases t) auto
  moreover have "takeWhile (\<lambda>c. c \<noteq> d) t = t" and "dropWhile (\<lambda>c. c \<noteq> d) t = []"
    using assms(1) by auto
  ultimately show ?thesis
    using assms(2) by (simp add: strtok_def del: takeWhile_eq_all_conv dropWhile_eq_Nil_conv)
qed

lemma find_from_0:
  assumes "c \<notin> set t"
  shows "find_from c (t @ c # r) 0 = int (length t)"
proof -
  have "takeWhile (\<lambda>x. x \<noteq> c) (t @ c # r) = t"
    using assms by (intro takeWhile_stop) auto
  then show ?thesis by (simp add: find_from_def)
qed

lemma find_from_none: "c \<notin> set s \<Longrightarrow> find_from c s 0 = -1"
proof -
  assume "c \<notin> set s"
  then have "takeWhile (\<lambda>x. x \<noteq> c) s = s" by (auto simp: takeWhile_eq_all_conv)
  then show "find_from c s 0 = -1" by (simp add: find_from_def del: takeWhile_eq_all_conv)
qed

lemma find_from_range: "find_from c s p \<noteq> -1 \<Longrightarrow> 0 \<le> find_from c s p \<and> find_from c s p < int (length s)"
  by (auto simp: find_from_def Let_def split: if_splits)

lemma find_from_ge: "0 \<le> p \<Longrightarrow> find_from c s p \<noteq> -1 \<Longrightarrow> p \<le> find_from c s p"
  by (auto simp: find_from_def Let_def split: if_splits)

end
