(* ===== verification/CTime.thy ===== *)
theory CTime
  imports CString
begin

text \<open>
  The part of \<open><time.h>\<close> the program uses: \<open>gmtime\<close> on the seconds since 1970, and
  \<open>strftime\<close> with the format \<open>%Y-%m-%d_%H-%M-%S.log\<close> that names rotated logs. The last
  section proves that such names sort, byte by byte, as the times they stand for, which is
  what the comparison with \<open>strcmp\<close> in \<open>CProDeal::movLogFile\<close> relies on.
\<close>

section \<open>Broken-down time\<close>

record tm =
  tm_year :: int   \<comment> \<open>the full year\<close>
  tm_mon :: int    \<comment> \<open>1 to 12\<close>
  tm_mday :: int
  tm_hour :: int
  tm_min :: int
  tm_sec :: int

definition leap_year :: "int \<Rightarrow> bool" where
  "leap_year y \<longleftrightarrow> y mod 4 = 0 \<and> (y mod 100 \<noteq> 0 \<or> y mod 400 = 0)"

definition year_days :: "int \<Rightarrow> int" where
  "year_days y = (if leap_year y then 366 else 365)"

definition month_days :: "int \<Rightarrow> int \<Rightarrow> int" where
  "month_days y m =
    (if m = 2 then (if leap_year y then 29 else 28)
     else if m = 4 \<or> m = 6 \<or> m = 9 \<or> m = 11 then 30 else 31)"

lemma year_days_bounds: "365 \<le> year_days y \<and> year_days y \<le> 366"
  by (simp add: year_days_def)

lemma month_days_bounds: "28 \<le> month_days y m \<and> month_days y m \<le> 31"
  by (simp add: month_days_def)

text \<open>The year that holds the day \<open>d\<close> counted from the first of January of year \<open>y\<close>.\<close>

function civil_year :: "int \<Rightarrow> int \<Rightarrow> int \<times> int" where
  "civil_year y d =
     (if d < 0 then civil_year (y - 1) (d + year_days (y - 1))
      else if d < year_days y then (y, d)
      else civil_year (y + 1) (d - year_days y))"
  by pat_completeness auto
termination
proof (relation "measure (\<lambda>(y, d). if d < 0 then nat (- d) + 400 else nat d)")
  fix y d :: int
  assume "d < 0"
  then show "((y - 1, d + year_days (y - 1)), y, d)
      \<in> measure (\<lambda>(y, d). if d < 0 then nat (- d) + 400 else nat d)"
    using year_days_bounds[of "y - 1"] by auto
next
  fix y d :: int
  assume "\<not> d < 0" and "\<not> d < year_days y"
  then show "((y + 1, d - year_days y), y, d)
      \<in> measure (\<lambda>(y, d). if d < 0 then nat (- d) + 400 else nat d)"
    using year_days_bounds[of y] by auto
qed simp

declare civil_year.simps [simp del]

function civil_month :: "int \<Rightarrow> int \<Rightarrow> int \<Rightarrow> int \<times> int" where
  "civil_month y m d =
     (if 12 \<le> m \<or> d < month_days y m then (m, d + 1)
      else civil_month y (m + 1) (d - month_days y m))"
  by pat_completeness auto
termination by (relation "measure (\<lambda>(y, m, d). nat (12 - m))") auto

declare civil_month.simps [simp del]

definition gmtime :: "int \<Rightarrow> tm" where
  "gmtime t =
     (let (y, yd) = civil_year 1970 (t div 86400);
          (mo, md) = civil_month y 1 yd;
          s = t mod 86400
      in \<lparr>tm_year = y, tm_mon = mo, tm_mday = md,
          tm_hour = s div 3600, tm_min = s mod 3600 div 60, tm_sec = s mod 60\<rparr>)"

section \<open>Formatting\<close>

definition pad2 :: "int \<Rightarrow> string" where
  "pad2 n = [digit_char (nat (n div 10)), digit_char (nat (n mod 10))]"

definition strftime_log :: "tm \<Rightarrow> string" where
  "strftime_log p =
     int_str (tm_year p) @ ''-'' @ pad2 (tm_mon p) @ ''-'' @ pad2 (tm_mday p) @ ''_'' @
     pad2 (tm_hour p) @ ''-'' @ pad2 (tm_min p) @ ''-'' @ pad2 (tm_sec p) @ ''.log''"

section \<open>Time order and name order\<close>

lemma civil_year_range:
  assumes "0 \<le> d"
  shows "y \<le> fst (civil_year y d)" and "0 \<le> snd (civil_year y d)"
    and "snd (civil_year y d) < year_days (fst (civil_year y d))"
proof -
  have "y \<le> fst (civil_year y d) \<and> 0 \<le> snd (civil_year y d) \<and>
    snd (civil_year y d) < year_days (fst (civil_year y d))"
    using assms
  proof (induction y d rule: civil_year.induct)
    case (1 y d)
    show ?case
    proof (cases "d < year_days y")
      case True
      with 1 show ?thesis by (simp add: civil_year.simps[of y d])
    next
      case False
      with 1 show ?thesis by (force simp: civil_year.simps[of y d])
    qed
  qed
  then show "y \<le> fst (civil_year y d)" and "0 \<le> snd (civil_year y d)"
    and "snd (civil_year y d) < year_days (fst (civil_year y d))" by simp_all
qed

definition lex2 :: "int \<times> int \<Rightarrow> int \<times> int \<Rightarrow> bool" where
  "lex2 p q \<longleftrightarrow> fst p < fst q \<or> fst p = fst q \<and> snd p < snd q"

lemma civil_year_mono:
  assumes "0 \<le> d" and "d < e"
  shows "lex2 (civil_year y d) (civil_year y e)"
  using assms
proof (induction y d arbitrary: e rule: civil_year.induct)
  case (1 y d)
  show ?case
  proof (cases "d < year_days y")
    case True
    have "e < year_days y \<or> y < fst (civil_year y e)"
      using 1 civil_year_range(1)[of "e - year_days y" "y + 1"]
      by (auto simp: civil_year.simps[of y e])
    with True 1 show ?thesis
      by (auto simp: civil_year.simps[of y d] civil_year.simps[of y e] lex2_def)
  next
    case False
    with 1 show ?thesis
      by (auto simp: civil_year.simps[of y d] civil_year.simps[of y e])
  qed
qed

lemma civil_month_range:
  assumes "m \<le> 12" and "0 \<le> d"
  shows "m \<le> fst (civil_month y m d)" and "fst (civil_month y m d) \<le> 12"
    and "1 \<le> snd (civil_month y m d)" and "snd (civil_month y m d) \<le> d + 1"
proof -
  have "m \<le> fst (civil_month y m d) \<and> fst (civil_month y m d) \<le> 12 \<and>
    1 \<le> snd (civil_month y m d) \<and> snd (civil_month y m d) \<le> d + 1"
    using assms
  proof (induction y m d rule: civil_month.induct)
    case (1 y m d)
    show ?case
      using 1 month_days_bounds[of y m]
      by (cases "12 \<le> m \<or> d < month_days y m") (force simp: civil_month.simps[of y m d])+
  qed
  then show "m \<le> fst (civil_month y m d)" and "fst (civil_month y m d) \<le> 12"
    and "1 \<le> snd (civil_month y m d)" and "snd (civil_month y m d) \<le> d + 1" by simp_all
qed

lemma civil_month_mono:
  assumes "m \<le> 12" and "0 \<le> d" and "d < e"
  shows "lex2 (civil_month y m d) (civil_month y m e)"
  using assms
proof (induction y m d arbitrary: e rule: civil_month.induct)
  case (1 y m d)
  show ?case
  proof (cases "12 \<le> m \<or> d < month_days y m")
    case True
    have "12 \<le> m \<or> e < month_days y m \<or> m < fst (civil_month y m e)"
      using 1 civil_month_range(1)[of "m + 1" "e - month_days y m" y]
      by (auto simp: civil_month.simps[of y m e])
    with True 1 show ?thesis
      by (auto simp: civil_month.simps[of y m d] civil_month.simps[of y m e] lex2_def)
  next
    case False
    with 1 show ?thesis
      by (auto simp: civil_month.simps[of y m d] civil_month.simps[of y m e])
  qed
qed

lemma civil_month_mday:
  assumes "0 \<le> d" and "d < year_days y"
  shows "snd (civil_month y 1 d) \<le> 31"
proof -
  have "leap_year y \<Longrightarrow> d < 366" and "\<not> leap_year y \<Longrightarrow> d < 365"
    using assms(2) by (simp_all add: year_days_def)
  then show ?thesis
    using assms(1)
    by (cases "leap_year y") (simp_all add: civil_month.simps month_days_def)
qed

text \<open>Fixed-width decimal fields compare as their numbers.\<close>

lemma digit_char_less: "i < 10 \<Longrightarrow> j < 10 \<Longrightarrow> digit_char i < digit_char j \<longleftrightarrow> i < j"
  by (simp add: digit_char_def less_char_def)

lemma digit_char_eq: "i < 10 \<Longrightarrow> j < 10 \<Longrightarrow> digit_char i = digit_char j \<longleftrightarrow> i = j"
  by (metis digit_char_val of_nat_eq_iff)

text \<open>Two-digit positional comparison, in any base: quotient first, then remainder.\<close>

lemma div_mod_less:
  fixes a b k :: int
  assumes "0 < k"
  shows "a < b \<longleftrightarrow> a div k < b div k \<or> a div k = b div k \<and> a mod k < b mod k"
proof
  assume "a < b"
  then have "a div k \<le> b div k" using assms by (intro zdiv_mono1) simp_all
  moreover have "a div k = b div k \<Longrightarrow> a mod k < b mod k"
    using \<open>a < b\<close> by (simp add: minus_mult_div_eq_mod[symmetric])
  ultimately show "a div k < b div k \<or> a div k = b div k \<and> a mod k < b mod k" by linarith
next
  assume r: "a div k < b div k \<or> a div k = b div k \<and> a mod k < b mod k"
  show "a < b"
  proof (rule ccontr)
    assume "\<not> a < b"
    then have "b div k \<le> a div k" using assms by (intro zdiv_mono1) simp_all
    with r have "a div k = b div k" and "a mod k < b mod k" by auto
    with \<open>\<not> a < b\<close> show False by (simp add: minus_mult_div_eq_mod[symmetric])
  qed
qed

lemma div_mod_eq: "(a::int) = b \<longleftrightarrow> a div k = b div k \<and> a mod k = b mod k"
  by (metis mult_div_mod_eq)

lemma digit_pair_less:
  assumes "i < 10" "j < 10" "k < 10" "l < 10"
  shows "[digit_char i, digit_char k] @ r < [digit_char j, digit_char l] @ s \<longleftrightarrow>
    i < j \<or> i = j \<and> (k < l \<or> k = l \<and> r < s)"
  by (simp add: Cons_less_Cons digit_char_less digit_char_eq assms)

lemma two_digits:
  fixes a :: int
  assumes "0 \<le> a" and "a < 100"
  obtains i k where "i < 10" and "k < 10" and "a div 10 = int i" and "a mod 10 = int k"
proof -
  have "a div 10 \<le> 99 div 10" using assms(2) by (intro zdiv_mono1) simp_all
  moreover have "0 \<le> a div 10" using assms(1) by (simp add: pos_imp_zdiv_nonneg_iff)
  moreover have "0 \<le> a mod 10" and "a mod 10 < 10" by simp_all
  ultimately show ?thesis
    using that[of "nat (a div 10)" "nat (a mod 10)"] by (simp add: nat_less_iff)
qed

lemma pad2_less:
  assumes "0 \<le> a" "a < 100" "0 \<le> b" "b < 100"
  shows "pad2 a @ r < pad2 b @ s \<longleftrightarrow> a < b \<or> a = b \<and> r < s"
proof -
  obtain i k where a: "i < 10" "k < 10" "a div 10 = int i" "a mod 10 = int k"
    using two_digits[OF assms(1,2)] .
  obtain j l where b: "j < 10" "l < 10" "b div 10 = int j" "b mod 10 = int l"
    using two_digits[OF assms(3,4)] .
  have "pad2 a @ r < pad2 b @ s \<longleftrightarrow> i < j \<or> i = j \<and> (k < l \<or> k = l \<and> r < s)"
    unfolding pad2_def a(3,4) b(3,4) nat_int
    by (rule digit_pair_less[OF a(1) b(1) a(2) b(2)])
  then show ?thesis
    unfolding div_mod_less[where k = 10 and a = a and b = b, OF zero_less_numeral]
      div_mod_eq[of a b 10] a(3,4) b(3,4) of_nat_less_iff of_nat_eq_iff
    by blast
qed

lemma pad2_int: "pad2 (int k) = [digit_char (k div 10), digit_char (k mod 10)]"
  by (simp add: pad2_def nat_div_distrib nat_mod_distrib)

lemma year_str:
  assumes "1000 \<le> y" and "y \<le> 9999"
  shows "int_str y = pad2 (y div 100) @ pad2 (y mod 100)"
proof -
  define n where "n = nat y"
  have y: "y = int n" and n: "1000 \<le> n" "n < 10000" using assms by (auto simp: n_def)
  have guards: "\<not> n < 10" "\<not> n div 10 < 10" "\<not> n div 10 div 10 < 10" "n div 10 div 10 div 10 < 10"
    using n by (simp_all add: div_less_iff_less_mult)
  have "nat_str n = [digit_char (n div 10 div 10 div 10), digit_char (n div 10 div 10 mod 10),
      digit_char (n div 10 mod 10), digit_char (n mod 10)]"
    by (subst nat_str.simps, subst nat_str.simps, subst nat_str.simps, subst nat_str.simps)
      (simp only: guards if_False if_True append.simps)
  moreover have "y div 100 = int (n div 100)" and "y mod 100 = int (n mod 100)"
    by (simp_all add: y zdiv_int zmod_int)
  moreover have "n div 100 = n div 10 div 10" by (simp add: div_mult2_eq[symmetric])
  moreover have "n mod 100 = 10 * (n div 10 mod 10) + n mod 10"
    using mod_mult2_eq[of n 10 10] by simp
  then have "n mod 100 div 10 = n div 10 mod 10" and "n mod 100 mod 10 = n mod 10"
    by (simp_all only: div_mult_self4 mod_mult_self4) simp_all
  ultimately show ?thesis using assms(1) by (simp add: int_str_def pad2_int n_def)
qed

lemma year_str_less:
  assumes "1000 \<le> a" "a \<le> 9999" "1000 \<le> b" "b \<le> 9999"
  shows "int_str a @ r < int_str b @ s \<longleftrightarrow> a < b \<or> a = b \<and> r < s"
proof -
  have "int_str a @ r < int_str b @ s \<longleftrightarrow>
      a div 100 < b div 100 \<or> a div 100 = b div 100 \<and>
        (a mod 100 < b mod 100 \<or> a mod 100 = b mod 100 \<and> r < s)"
    using assms by (simp add: year_str pad2_less)
  also have "\<dots> \<longleftrightarrow> a < b \<or> a = b \<and> r < s"
    unfolding div_mod_less[where k = 100 and a = a and b = b, OF zero_less_numeral]
      div_mod_eq[of a b 100] by blast
  finally show ?thesis .
qed

definition tm_ok :: "tm \<Rightarrow> bool" where
  "tm_ok p \<longleftrightarrow> 1000 \<le> tm_year p \<and> tm_year p \<le> 9999 \<and>
     0 \<le> tm_mon p \<and> tm_mon p < 100 \<and> 0 \<le> tm_mday p \<and> tm_mday p < 100 \<and>
     0 \<le> tm_hour p \<and> tm_hour p < 100 \<and> 0 \<le> tm_min p \<and> tm_min p < 100 \<and>
     0 \<le> tm_sec p \<and> tm_sec p < 100"

definition tm_less :: "tm \<Rightarrow> tm \<Rightarrow> bool" where
  "tm_less p q \<longleftrightarrow> tm_year p < tm_year q \<or> tm_year p = tm_year q \<and>
     (tm_mon p < tm_mon q \<or> tm_mon p = tm_mon q \<and>
     (tm_mday p < tm_mday q \<or> tm_mday p = tm_mday q \<and>
     (tm_hour p < tm_hour q \<or> tm_hour p = tm_hour q \<and>
     (tm_min p < tm_min q \<or> tm_min p = tm_min q \<and> tm_sec p < tm_sec q))))"

lemma strftime_log_less:
  assumes "tm_ok p" and "tm_ok q"
  shows "strftime_log p < strftime_log q \<longleftrightarrow> tm_less p q"
  using assms
  by (simp add: strftime_log_def tm_ok_def tm_less_def year_str_less pad2_less Cons_less_Cons)

lemma seconds_range:
  fixes s :: int
  assumes "0 \<le> s" and "s < 86400"
  shows "0 \<le> s div 3600" "s div 3600 < 100" "0 \<le> s mod 3600 div 60" "s mod 3600 div 60 < 100"
    "0 \<le> s mod 60" "s mod 60 < 100"
proof -
  have "s div 3600 \<le> 86400 div 3600" using assms(2) by (intro zdiv_mono1) simp_all
  then show "s div 3600 < 100" by simp
  have "s mod 3600 \<le> 3600" by (simp add: less_imp_le)
  then have "s mod 3600 div 60 \<le> 3600 div 60" by (rule zdiv_mono1) simp
  then show "s mod 3600 div 60 < 100" by simp
  have "s mod 60 < 60" by simp
  then show "s mod 60 < 100" by linarith
qed (simp_all add: assms pos_imp_zdiv_nonneg_iff)

lemma seconds_less:
  fixes a b :: int
  assumes "a < b"
  shows "a div 3600 < b div 3600 \<or> a div 3600 = b div 3600 \<and>
    (a mod 3600 div 60 < b mod 3600 div 60 \<or> a mod 3600 div 60 = b mod 3600 div 60 \<and>
      a mod 60 < b mod 60)"
proof -
  have m: "a mod 3600 mod 60 = a mod 60" "b mod 3600 mod 60 = b mod 60"
    by (simp_all add: mod_mod_cancel)
  show ?thesis
    using assms
    unfolding div_mod_less[where k = 3600 and a = a and b = b, OF zero_less_numeral]
      div_mod_less[where k = 60 and a = "a mod 3600" and b = "b mod 3600", OF zero_less_numeral] m .
qed

lemma gmtime_ok:
  assumes "0 \<le> t" and "tm_year (gmtime t) \<le> 9999"
  shows "tm_ok (gmtime t)"
proof -
  obtain y yd where y: "civil_year 1970 (t div 86400) = (y, yd)" by (cases "civil_year 1970 (t div 86400)")
  obtain mo md where m: "civil_month y 1 yd = (mo, md)" by (cases "civil_month y 1 yd")
  have yd: "1970 \<le> y" "0 \<le> yd" "yd < year_days y"
    using civil_year_range[of "t div 86400" 1970] assms(1) y by (simp_all add: pos_imp_zdiv_nonneg_iff)
  have mo: "1 \<le> mo" "mo \<le> 12" "1 \<le> md"
    using civil_month_range[of 1 yd y] yd m by simp_all
  have md: "md \<le> 31" using civil_month_mday[OF yd(2,3)] m by simp
  define s where "s = t mod 86400"
  have "0 \<le> s" "s < 86400" by (simp_all add: s_def)
  note s = seconds_range[OF this]
  have "gmtime t = \<lparr>tm_year = y, tm_mon = mo, tm_mday = md,
      tm_hour = s div 3600, tm_min = s mod 3600 div 60, tm_sec = s mod 60\<rparr>"
    by (simp only: gmtime_def y m s_def Let_def prod.case)
  then have "tm_year (gmtime t) = y" "tm_mon (gmtime t) = mo" "tm_mday (gmtime t) = md"
    "tm_hour (gmtime t) = s div 3600" "tm_min (gmtime t) = s mod 3600 div 60"
    "tm_sec (gmtime t) = s mod 60"
    by (simp_all only: tm.simps)
  moreover have "0 \<le> mo" "mo < 100" "0 \<le> md" "md < 100" "1000 \<le> y" using mo md yd(1) by simp_all
  ultimately show ?thesis
    using assms(2) s unfolding tm_ok_def by (simp only: simp_thms)
qed

lemma gmtime_mono:
  assumes "0 \<le> t" and "t < u"
  shows "tm_less (gmtime t) (gmtime u)"
proof -
  obtain y yd where y: "civil_year 1970 (t div 86400) = (y, yd)" by (cases "civil_year 1970 (t div 86400)")
  obtain z zd where z: "civil_year 1970 (u div 86400) = (z, zd)" by (cases "civil_year 1970 (u div 86400)")
  obtain mo md where m: "civil_month y 1 yd = (mo, md)" by (cases "civil_month y 1 yd")
  obtain no nd where n: "civil_month z 1 zd = (no, nd)" by (cases "civil_month z 1 zd")
  have t0: "0 \<le> t div 86400" using assms(1) by (simp add: pos_imp_zdiv_nonneg_iff)
  have yd: "0 \<le> yd" using civil_year_range(2)[OF t0, of 1970] y by simp
  have gt: "tm_year (gmtime t) = y" "tm_mon (gmtime t) = mo" "tm_mday (gmtime t) = md"
    by (simp_all add: gmtime_def y m Let_def)
  have gu: "tm_year (gmtime u) = z" "tm_mon (gmtime u) = no" "tm_mday (gmtime u) = nd"
    by (simp_all add: gmtime_def z n Let_def)
  show ?thesis
  proof (cases "t div 86400 < u div 86400")
    case True
    then have "lex2 (y, yd) (z, zd)" using civil_year_mono[OF t0, of _ 1970] y z by metis
    then consider "y < z" | "y = z" "yd < zd" by (auto simp: lex2_def)
    then show ?thesis
    proof cases
      case 1
      then show ?thesis by (simp add: tm_less_def gt gu)
    next
      case 2
      have "lex2 (mo, md) (no, nd)"
        using civil_month_mono[of 1 yd zd y] yd m n 2 by simp
      then show ?thesis using 2(1) by (auto simp: tm_less_def gt gu lex2_def)
    qed
  next
    case False
    moreover have "t div 86400 < u div 86400 \<or>
        t div 86400 = u div 86400 \<and> t mod 86400 < u mod 86400"
      by (rule div_mod_less[THEN iffD1, OF _ assms(2)]) simp
    ultimately have day: "t div 86400 = u div 86400" and sec: "t mod 86400 < u mod 86400"
      by blast+
    from seconds_less[OF sec] show ?thesis
      using y m by (simp add: gmtime_def tm_less_def day[symmetric] Let_def)
  qed
qed

lemma tm_less_irrefl: "tm_less p q \<Longrightarrow> \<not> tm_less q p \<and> p \<noteq> q"
  by (auto simp: tm_less_def)

lemma digit_char_nul: "d < 10 \<Longrightarrow> digit_char d \<noteq> NUL"
  using digit_char_digit[of d] by (auto simp: is_digit_def less_eq_char_def)

lemma nul_free_pad2: "0 \<le> n \<Longrightarrow> n < 100 \<Longrightarrow> nul_free (pad2 n)"
proof -
  assume "0 \<le> n" and "n < 100"
  then have "nat (n div 10) < 10" and "nat (n mod 10) < 10" by auto
  then show ?thesis by (simp add: pad2_def digit_char_nul)
qed

lemma nul_free_int_str: "nul_free (int_str x)"
  using int_str_set[of NUL x] by (auto simp: nul_free_def is_digit_def less_eq_char_def)

lemma nul_free_strftime: "tm_ok p \<Longrightarrow> nul_free (strftime_log p)"
  by (simp add: strftime_log_def tm_ok_def nul_free_pad2 nul_free_int_str)

text \<open>Among times from 1970 to the year 9999, the name that \<open>strftime\<close> gives an earlier time
  compares below, with \<open>strcmp\<close>, the name it gives a later one, and only then: deleting the
  names below the formatted limit deletes exactly the logs that are older than the limit.\<close>

theorem log_name_order:
  assumes "0 \<le> t" and "0 \<le> u" and "tm_year (gmtime t) \<le> 9999" and "tm_year (gmtime u) \<le> 9999"
  shows "strcmp (strftime_log (gmtime t)) (strftime_log (gmtime u)) < 0 \<longleftrightarrow> t < u"
proof -
  have "tm_ok (gmtime t)" and "tm_ok (gmtime u)" using assms by (simp_all add: gmtime_ok)
  then have "strcmp (strftime_log (gmtime t)) (strftime_log (gmtime u)) < 0 \<longleftrightarrow>
      tm_less (gmtime t) (gmtime u)"
    by (simp add: strcmp_less nul_free_strftime strftime_log_less)
  also have "\<dots> \<longleftrightarrow> t < u"
    using gmtime_mono[of t u] gmtime_mono[of u t] tm_less_irrefl assms(1,2)
    by (metis linorder_less_linear)
  finally show ?thesis .
qed

theorem log_name_order_witness:
  "strcmp (strftime_log (gmtime 1448000000)) (strftime_log (gmtime 1448582400)) < 0"
proof -
  have "tm_year (gmtime 1448000000) \<le> 9999" and "tm_year (gmtime 1448582400) \<le> 9999"
    by code_simp+
  then show ?thesis
    using log_name_order[of 1448000000 1448582400] by simp
qed

end
