(* ===== verification/FileSys.thy ===== *)
theory FileSys
  imports CString
begin

text \<open>
  The file system the program works on through \<open>opendir\<close>/\<open>readdir\<close>, \<open>fopen\<close>, \<open>fgets\<close>,
  \<open>fputs\<close>, \<open>fread\<close>, \<open>fwrite\<close>, \<open>remove\<close> and \<open>rename\<close>: a table of directories, each
  under the path the program spells it with, and in each directory its plain files in the
  order in which \<open>readdir\<close> returns them. Permissions decide which calls fail. A directory
  stream is the listing at the time of \<open>opendir\<close>. Not modelled: sub-directories as entries,
  links, two spellings of one directory, a full disk, and other processes that work in the
  directories at the same time.
\<close>

section \<open>Files and directories\<close>

record fnode =
  fdata :: string      \<comment> \<open>the content\<close>
  freadable :: bool    \<comment> \<open>\<open>fopen(., "rb")\<close> is permitted\<close>
  fwritable :: bool    \<comment> \<open>\<open>fopen(., "wb")\<close> on the existing file is permitted\<close>

record dnode =
  dents :: "(string \<times> fnode) list"
  dreadable :: bool    \<comment> \<open>\<open>opendir\<close> is permitted\<close>
  dwritable :: bool    \<comment> \<open>entries can be created and removed\<close>

type_synonym fsys = "string \<rightharpoonup> dnode"

definition new_file :: "string \<Rightarrow> fnode" where
  "new_file s = \<lparr>fdata = s, freadable = True, fwritable = True\<rparr>"

text \<open>A path is resolved by its last component; a path without a slash is an entry of the
  working directory.\<close>

definition split_path :: "string \<Rightarrow> string \<times> string" where
  "split_path p =
     (let r = rev p;
          name = rev (takeWhile (\<lambda>c. c \<noteq> CHR ''/'') r);
          dir = rev (drop 1 (dropWhile (\<lambda>c. c \<noteq> CHR ''/'') r))
      in (if CHR ''/'' \<in> set p then dir else ''.'', name))"

text \<open>Replacing the content of an entry keeps its place in the listing; a new entry goes to
  the end.\<close>

fun put_entry :: "string \<Rightarrow> fnode \<Rightarrow> (string \<times> fnode) list \<Rightarrow> (string \<times> fnode) list" where
  "put_entry n f [] = [(n, f)]"
| "put_entry n f (e # es) = (if fst e = n then (n, f) # es else e # put_entry n f es)"

definition del_entry :: "string \<Rightarrow> (string \<times> fnode) list \<Rightarrow> (string \<times> fnode) list" where
  "del_entry n es = filter (\<lambda>e. fst e \<noteq> n) es"

text \<open>The store behind the calls: the file \<open>n\<close> of the directory \<open>d\<close>, storing one, dropping
  one.\<close>

definition file_of :: "fsys \<Rightarrow> string \<Rightarrow> string \<Rightarrow> fnode option" where
  "file_of fs d n = (case fs d of None \<Rightarrow> None | Some dn \<Rightarrow> map_of (dents dn) n)"

definition put_in :: "string \<Rightarrow> string \<Rightarrow> fnode \<Rightarrow> fsys \<Rightarrow> fsys" where
  "put_in d n f fs =
     (case fs d of None \<Rightarrow> fs
      | Some dn \<Rightarrow> fs(d \<mapsto> dn\<lparr>dents := put_entry n f (dents dn)\<rparr>))"

definition del_in :: "string \<Rightarrow> string \<Rightarrow> fsys \<Rightarrow> fsys" where
  "del_in d n fs =
     (case fs d of None \<Rightarrow> fs
      | Some dn \<Rightarrow> fs(d \<mapsto> dn\<lparr>dents := del_entry n (dents dn)\<rparr>))"

definition has_dir :: "fsys \<Rightarrow> string \<Rightarrow> bool" where
  "has_dir fs d \<longleftrightarrow> fs d \<noteq> None"

definition writable_dir :: "fsys \<Rightarrow> string \<Rightarrow> bool" where
  "writable_dir fs d \<longleftrightarrow> (case fs d of None \<Rightarrow> False | Some dn \<Rightarrow> dwritable dn)"

definition readable_dir :: "fsys \<Rightarrow> string \<Rightarrow> bool" where
  "readable_dir fs d \<longleftrightarrow> (case fs d of None \<Rightarrow> False | Some dn \<Rightarrow> dreadable dn)"

section \<open>The calls\<close>

text \<open>\<open>readdir\<close> also returns the entries \<open>.\<close> and \<open>..\<close>.\<close>

definition dir_names :: "dnode \<Rightarrow> string list" where
  "dir_names dn = ''.'' # ''..'' # map fst (dents dn)"

definition opendir :: "fsys \<Rightarrow> string \<Rightarrow> string list option" where
  "opendir fs d =
     (case fs d of None \<Rightarrow> None
      | Some dn \<Rightarrow> if dreadable dn then Some (dir_names dn) else None)"

definition is_dot :: "string \<Rightarrow> bool" where
  "is_dot n \<longleftrightarrow> n = ''.'' \<or> n = ''..''"

definition lookup :: "fsys \<Rightarrow> string \<Rightarrow> fnode option" where
  "lookup fs p = (case split_path p of (d, n) \<Rightarrow> file_of fs d n)"

text \<open>\<open>fopen(p, "rb")\<close> succeeds when the file is there and readable; what is then read is the
  content at the time of reading, \<open>content\<close>.\<close>

definition fopen_r :: "fsys \<Rightarrow> string \<Rightarrow> bool" where
  "fopen_r fs p = (case lookup fs p of None \<Rightarrow> False | Some f \<Rightarrow> freadable f)"

definition content :: "fsys \<Rightarrow> string \<Rightarrow> string" where
  "content fs p = (case lookup fs p of None \<Rightarrow> [] | Some f \<Rightarrow> fdata f)"

text \<open>\<open>fopen(p, "wb")\<close> truncates the file or creates it.\<close>

definition valid_name :: "string \<Rightarrow> bool" where
  "valid_name n \<longleftrightarrow> n \<noteq> [] \<and> \<not> is_dot n \<and> CHR ''/'' \<notin> set n \<and> nul_free n \<and> length n \<le> 255"

definition fopen_w :: "fsys \<Rightarrow> string \<Rightarrow> fsys option" where
  "fopen_w fs p =
     (case split_path p of (d, n) \<Rightarrow>
        (case file_of fs d n of
           Some f \<Rightarrow> if fwritable f then Some (put_in d n (f\<lparr>fdata := []\<rparr>) fs) else None
         | None \<Rightarrow> if writable_dir fs d \<and> valid_name n then Some (put_in d n (new_file []) fs)
                   else None))"

text \<open>The bytes written to an open file, appended to its content.\<close>

definition fwrite :: "string \<Rightarrow> string \<Rightarrow> fsys \<Rightarrow> fsys" where
  "fwrite p s fs =
     (case split_path p of (d, n) \<Rightarrow>
        (case file_of fs d n of None \<Rightarrow> fs
         | Some f \<Rightarrow> put_in d n (f\<lparr>fdata := fdata f @ s\<rparr>) fs))"

text \<open>\<open>remove\<close>: the file system afterwards, or \<open>None\<close> when the call fails.\<close>

definition remove :: "fsys \<Rightarrow> string \<Rightarrow> fsys option" where
  "remove fs p =
     (case split_path p of (d, n) \<Rightarrow>
        if writable_dir fs d \<and> file_of fs d n \<noteq> None then Some (del_in d n fs) else None)"

text \<open>\<open>rename\<close> replaces the target; renaming a file to itself changes nothing.\<close>

definition rename :: "fsys \<Rightarrow> string \<Rightarrow> string \<Rightarrow> fsys option" where
  "rename fs p q =
     (case (split_path p, split_path q) of ((d, n), (e, m)) \<Rightarrow>
        (case file_of fs d n of
           None \<Rightarrow> None
         | Some f \<Rightarrow>
             if \<not> writable_dir fs d \<or> \<not> writable_dir fs e \<or> \<not> valid_name m then None
             else if d = e \<and> n = m then Some fs
             else Some (put_in e m f (del_in d n fs))))"

text \<open>A call whose result the code ignores.\<close>

definition ignoring :: "fsys option \<Rightarrow> fsys \<Rightarrow> fsys" where
  "ignoring r fs = (case r of None \<Rightarrow> fs | Some fs' \<Rightarrow> fs')"

section \<open>Paths and entries\<close>

lemma split_path_of [simp]:
  assumes "CHR ''/'' \<notin> set n"
  shows "split_path (path_of d n) = (d, n)"
proof -
  have r: "rev (path_of d n) = rev n @ CHR ''/'' # rev d" by (simp add: path_of_def)
  have "takeWhile (\<lambda>c. c \<noteq> CHR ''/'') (rev (path_of d n)) = rev n"
    unfolding r using assms by (intro takeWhile_stop) auto
  moreover have "dropWhile (\<lambda>c. c \<noteq> CHR ''/'') (rev (path_of d n)) = CHR ''/'' # rev d"
    unfolding r using assms by (intro dropWhile_stop) auto
  ultimately show ?thesis by (simp add: split_path_def path_of_def)
qed

lemma valid_nameD:
  "valid_name n \<Longrightarrow> CHR ''/'' \<notin> set n"
  "valid_name n \<Longrightarrow> nul_free n"
  "valid_name n \<Longrightarrow> \<not> is_dot n"
  "valid_name n \<Longrightarrow> length n \<le> 255"
  by (auto simp: valid_name_def)

lemma map_of_put_entry: "map_of (put_entry n f es) = (map_of es)(n \<mapsto> f)"
  by (induction es) (auto simp: fun_eq_iff)

lemma map_of_del_entry: "map_of (del_entry n es) = (map_of es)(n := None)"
  by (simp add: del_entry_def map_of_filter_key)

lemma names_put_entry:
  "map fst (put_entry n f es) = (if n \<in> fst ` set es then map fst es else map fst es @ [n])"
  by (induction es) auto

lemma set_put_entry: "fst ` set (put_entry n f es) = insert n (fst ` set es)"
  by (induction es) auto

lemma names_del_entry: "map fst (del_entry n es) = filter (\<lambda>m. m \<noteq> n) (map fst es)"
  by (induction es) (auto simp: del_entry_def)

section \<open>The store laws\<close>

text \<open>
  What the program relies on: a file stored is found, a file dropped is gone, nothing else
  changes, and no call creates, removes or re-permits a directory. The loops that empty a
  directory and that move a list of files are proved once, for any store with these laws.
\<close>

locale file_store =
  fixes look :: "'s \<Rightarrow> 'd \<Rightarrow> 'n \<Rightarrow> 'f option"
    and put :: "'d \<Rightarrow> 'n \<Rightarrow> 'f \<Rightarrow> 's \<Rightarrow> 's"
    and del :: "'d \<Rightarrow> 'n \<Rightarrow> 's \<Rightarrow> 's"
    and dir :: "'s \<Rightarrow> 'd \<Rightarrow> bool"
  assumes look_put: "dir s d \<Longrightarrow>
      look (put d n f s) e m = (if e = d \<and> m = n then Some f else look s e m)"
    and look_del: "look (del d n s) e m = (if e = d \<and> m = n then None else look s e m)"
    and dir_put: "dir (put d n f s) e = dir s e"
    and dir_del: "dir (del d n s) e = dir s e"
begin

lemma look_fold_del:
  "look (fold (del d) ns s) e m = (if e = d \<and> m \<in> set ns then None else look s e m)"
  by (induction ns arbitrary: s) (auto simp: look_del)

lemma dir_fold_del: "dir (fold (del d) ns s) e = dir s e"
  by (induction ns arbitrary: s) (auto simp: dir_del)

text \<open>Moving the files \<open>ns\<close> from \<open>d\<close> to another directory \<open>e\<close>: each name that is there when
  its turn comes arrives with its content, and is gone from \<open>d\<close>; the others stay.\<close>

lemma look_fold_move:
  assumes "d \<noteq> e" and "dir s e"
  defines "move \<equiv> (\<lambda>n t. case look t d n of None \<Rightarrow> t | Some f \<Rightarrow> put e n f (del d n t))"
  shows "look (fold move ns s) c m =
     (if c = e \<and> m \<in> set ns \<and> look s d m \<noteq> None then look s d m
      else if c = d \<and> m \<in> set ns then None
      else look s c m)"
    and "dir (fold move ns s) c = dir s c"
proof -
  have "dir (fold move ns s) c = dir s c" for c
    by (induction ns arbitrary: s) (auto simp: move_def dir_put dir_del split: option.splits)
  then show "dir (fold move ns s) c = dir s c" .
  show "look (fold move ns s) c m =
     (if c = e \<and> m \<in> set ns \<and> look s d m \<noteq> None then look s d m
      else if c = d \<and> m \<in> set ns then None
      else look s c m)"
    using assms(2)
  proof (induction ns arbitrary: s)
    case Nil
    then show ?case by simp
  next
    case (Cons n ns)
    have dir_n: "dir (move n s) e"
      using Cons.prems by (auto simp: move_def dir_put dir_del split: option.splits)
    have step: "look (move n s) c' m' =
       (if c' = e \<and> m' = n \<and> look s d n \<noteq> None then look s d n
        else if c' = d \<and> m' = n then None else look s c' m')" for c' m'
      using assms(1) Cons.prems
      by (auto simp: move_def look_put look_del dir_del split: option.splits)
    show ?case using assms(1) by (auto simp: Cons.IH[OF dir_n] step)
  qed
qed

end

lemma file_of_put_in:
  "has_dir fs d \<Longrightarrow>
   file_of (put_in d n f fs) e m = (if e = d \<and> m = n then Some f else file_of fs e m)"
  by (auto simp: file_of_def put_in_def has_dir_def map_of_put_entry)

lemma file_of_del_in:
  "file_of (del_in d n fs) e m = (if e = d \<and> m = n then None else file_of fs e m)"
  by (auto simp: file_of_def del_in_def map_of_del_entry split: option.splits)

interpretation files: file_store file_of put_in del_in has_dir
proof unfold_locales
  fix s :: fsys and d n e m :: string and f :: fnode
  show "has_dir s d \<Longrightarrow>
      file_of (put_in d n f s) e m = (if e = d \<and> m = n then Some f else file_of s e m)"
    by (rule file_of_put_in)
  show "file_of (del_in d n s) e m = (if e = d \<and> m = n then None else file_of s e m)"
    by (rule file_of_del_in)
  show "has_dir (put_in d n f s) e = has_dir s e"
    by (auto simp: put_in_def has_dir_def split: option.splits)
  show "has_dir (del_in d n s) e = has_dir s e"
    by (auto simp: del_in_def has_dir_def split: option.splits)
qed

lemma dir_access_put_in [simp]:
  "writable_dir (put_in d n f fs) = writable_dir fs"
  "readable_dir (put_in d n f fs) = readable_dir fs"
  by (auto simp: put_in_def writable_dir_def readable_dir_def fun_eq_iff split: option.splits)

lemma dir_access_del_in [simp]:
  "writable_dir (del_in d n fs) = writable_dir fs"
  "readable_dir (del_in d n fs) = readable_dir fs"
  by (auto simp: del_in_def writable_dir_def readable_dir_def fun_eq_iff split: option.splits)

lemma writable_has_dir: "writable_dir fs d \<Longrightarrow> has_dir fs d"
  by (auto simp: writable_dir_def has_dir_def split: option.splits)

lemma file_of_has_dir: "file_of fs d n = Some f \<Longrightarrow> has_dir fs d"
  by (auto simp: file_of_def has_dir_def split: option.splits)

section \<open>Legal directory tables\<close>

text \<open>An invariant of the table: directories with distinct, legal entry names.\<close>

definition wf_dnode :: "dnode \<Rightarrow> bool" where
  "wf_dnode dn \<longleftrightarrow> distinct (map fst (dents dn)) \<and> (\<forall>n \<in> fst ` set (dents dn). valid_name n)"

definition wf_fs :: "fsys \<Rightarrow> bool" where
  "wf_fs fs \<longleftrightarrow> (\<forall>d dn. fs d = Some dn \<longrightarrow> wf_dnode dn)"

lemma wf_fsD: "wf_fs fs \<Longrightarrow> fs d = Some dn \<Longrightarrow> wf_dnode dn"
  by (auto simp: wf_fs_def)

lemma wf_dnode_del: "wf_dnode dn \<Longrightarrow> wf_dnode (dn\<lparr>dents := del_entry n (dents dn)\<rparr>)"
  by (auto simp: wf_dnode_def del_entry_def distinct_fst_filter)

lemma distinct_put_entry: "distinct (map fst es) \<Longrightarrow> distinct (map fst (put_entry n f es))"
  by (simp only: names_put_entry split: if_split) simp

lemma wf_dnode_put:
  "wf_dnode dn \<Longrightarrow> valid_name n \<Longrightarrow> wf_dnode (dn\<lparr>dents := put_entry n f (dents dn)\<rparr>)"
  by (simp add: wf_dnode_def distinct_put_entry set_put_entry)

lemma wf_put_in: "wf_fs fs \<Longrightarrow> valid_name n \<Longrightarrow> wf_fs (put_in d n f fs)"
  by (auto simp: put_in_def wf_fs_def wf_dnode_put split: option.splits)

lemma wf_del_in: "wf_fs fs \<Longrightarrow> wf_fs (del_in d n fs)"
  by (auto simp: del_in_def wf_fs_def wf_dnode_del split: option.splits)

lemma file_of_valid: "wf_fs fs \<Longrightarrow> file_of fs d n = Some f \<Longrightarrow> valid_name n"
  by (force simp: file_of_def wf_dnode_def split: option.splits dest!: wf_fsD map_of_SomeD)

lemma wf_fopen_w: "wf_fs fs \<Longrightarrow> fopen_w fs p = Some fs' \<Longrightarrow> wf_fs fs'"
  by (auto simp: fopen_w_def intro!: wf_put_in intro: file_of_valid
      split: prod.splits option.splits if_splits)

lemma wf_fwrite: "wf_fs fs \<Longrightarrow> wf_fs (fwrite p s fs)"
  by (auto simp: fwrite_def intro!: wf_put_in intro: file_of_valid
      split: prod.splits option.splits)

lemma wf_remove: "wf_fs fs \<Longrightarrow> remove fs p = Some fs' \<Longrightarrow> wf_fs fs'"
  by (auto simp: remove_def wf_del_in split: prod.splits if_splits)

lemma wf_rename: "wf_fs fs \<Longrightarrow> rename fs p q = Some fs' \<Longrightarrow> wf_fs fs'"
  by (auto simp: rename_def wf_put_in wf_del_in split: prod.splits option.splits if_splits)

lemma wf_ignoring_remove: "wf_fs fs \<Longrightarrow> wf_fs (ignoring (remove fs p) fs)"
  by (auto simp: ignoring_def wf_remove split: option.splits)

lemma wf_ignoring_rename: "wf_fs fs \<Longrightarrow> wf_fs (ignoring (rename fs p q) fs)"
  by (auto simp: ignoring_def wf_rename split: option.splits)

section \<open>Directory listings\<close>

lemma opendir_Some: "opendir fs d = Some ns \<longleftrightarrow>
    (\<exists>dn. fs d = Some dn \<and> dreadable dn \<and> ns = dir_names dn)"
  by (auto simp: opendir_def split: option.splits if_splits)

definition names_of :: "fsys \<Rightarrow> string \<Rightarrow> string list" where
  "names_of fs d = (case fs d of None \<Rightarrow> [] | Some dn \<Rightarrow> map fst (dents dn))"

lemma opendir_names: "readable_dir fs d \<Longrightarrow> opendir fs d = Some (''.'' # ''..'' # names_of fs d)"
  by (auto simp: readable_dir_def opendir_def names_of_def dir_names_def split: option.splits)

lemma opendir_None: "opendir fs d = None \<longleftrightarrow> \<not> readable_dir fs d"
  by (auto simp: readable_dir_def opendir_def split: option.splits if_splits)

lemma names_of_file: "n \<in> set (names_of fs d) \<longleftrightarrow> file_of fs d n \<noteq> None"
  by (auto simp: names_of_def file_of_def map_of_eq_None_iff simp del: not_None_eq
      split: option.splits)

lemma names_of_valid: "wf_fs fs \<Longrightarrow> n \<in> set (names_of fs d) \<Longrightarrow> valid_name n"
  by (auto simp: names_of_file dest: file_of_valid)

lemma names_of_distinct: "wf_fs fs \<Longrightarrow> distinct (names_of fs d)"
  by (auto simp: names_of_def wf_dnode_def split: option.splits dest: wf_fsD)

lemma is_dot_simps [simp]: "is_dot ''.''" "is_dot ''..''"
  by (simp_all add: is_dot_def)

section \<open>The calls on a path built from a directory and a name\<close>

lemma lookup_path: "CHR ''/'' \<notin> set n \<Longrightarrow> lookup fs (path_of d n) = file_of fs d n"
  by (simp add: lookup_def)

lemma remove_path:
  "CHR ''/'' \<notin> set n \<Longrightarrow> writable_dir fs d \<Longrightarrow>
   ignoring (remove fs (path_of d n)) fs = (if file_of fs d n = None then fs else del_in d n fs)"
  by (auto simp: remove_def ignoring_def)

lemma rename_path:
  assumes "valid_name n" and "writable_dir fs d" and "writable_dir fs e" and "d \<noteq> e"
  shows "ignoring (rename fs (path_of d n) (path_of e n)) fs =
    (case file_of fs d n of None \<Rightarrow> fs | Some f \<Rightarrow> put_in e n f (del_in d n fs))"
  using assms by (auto simp: rename_def ignoring_def valid_nameD split: option.splits)

text \<open>Opening for writing, then writing \<open>s\<close>: the file holds exactly \<open>s\<close>.\<close>

definition can_write :: "fsys \<Rightarrow> string \<Rightarrow> string \<Rightarrow> bool" where
  "can_write fs d n \<longleftrightarrow>
     (case file_of fs d n of Some f \<Rightarrow> fwritable f | None \<Rightarrow> writable_dir fs d \<and> valid_name n)"

lemma fopen_w_None: "CHR ''/'' \<notin> set n \<Longrightarrow> fopen_w fs (path_of d n) = None \<longleftrightarrow> \<not> can_write fs d n"
  by (auto simp: fopen_w_def can_write_def split: option.splits)

lemma can_write_has_dir: "can_write fs d n \<Longrightarrow> has_dir fs d"
  by (auto simp: can_write_def writable_has_dir file_of_has_dir split: option.splits)

text \<open>
  The effect of one \<open>fopen(., "wb")\<close>, \<open>fputs\<close>, \<open>fclose\<close> as a relation on file systems: the
  file \<open>n\<close> of \<open>d\<close> holds exactly \<open>s\<close>, nothing else changes.
\<close>

definition wrote :: "string \<Rightarrow> string \<Rightarrow> string \<Rightarrow> fsys \<Rightarrow> fsys \<Rightarrow> bool" where
  "wrote d n s fs fs' \<longleftrightarrow>
     (\<exists>f. file_of fs' d n = Some f \<and> fdata f = s \<and> fwritable f \<and>
        (freadable f \<longleftrightarrow> (case file_of fs d n of None \<Rightarrow> True | Some g \<Rightarrow> freadable g))) \<and>
     (\<forall>e m. (e, m) \<noteq> (d, n) \<longrightarrow> file_of fs' e m = file_of fs e m) \<and>
     (\<forall>e. e \<noteq> d \<longrightarrow> fs' e = fs e) \<and>
     writable_dir fs' = writable_dir fs \<and> readable_dir fs' = readable_dir fs \<and>
     (wf_fs fs \<longrightarrow> wf_fs fs')"

lemma put_in_other_dir: "e \<noteq> d \<Longrightarrow> put_in d n f fs e = fs e"
  by (auto simp: put_in_def split: option.splits)

lemma del_in_other_dir: "e \<noteq> d \<Longrightarrow> del_in d n fs e = fs e"
  by (auto simp: del_in_def split: option.splits)

lemma put_in_put_in: "put_in d n f (put_in d n g fs) = put_in d n f fs"
proof -
  have "put_entry n f (put_entry n g es) = put_entry n f es" for es
    by (induction es) auto
  then show ?thesis by (auto simp: put_in_def split: option.splits)
qed

lemma write_file:
  assumes "CHR ''/'' \<notin> set n" and "can_write fs d n"
  obtains fs1 where "fopen_w fs (path_of d n) = Some fs1"
    and "wrote d n [] fs fs1"
    and "\<And>s. wrote d n s fs (fwrite (path_of d n) s fs1)"
proof -
  obtain fs1 where op: "fopen_w fs (path_of d n) = Some fs1"
    using assms fopen_w_None[of n fs d] by (cases "fopen_w fs (path_of d n)") auto
  define g where "g = (case file_of fs d n of Some f \<Rightarrow> f\<lparr>fdata := []\<rparr> | None \<Rightarrow> new_file [])"
  have dir: "has_dir fs d" using assms(2) by (rule can_write_has_dir)
  have fs1: "fs1 = put_in d n g fs" and g: "fdata g = []" "fwritable g"
    "freadable g \<longleftrightarrow> (case file_of fs d n of None \<Rightarrow> True | Some h \<Rightarrow> freadable h)"
    using op assms(1)
    by (auto simp: fopen_w_def g_def new_file_def split: option.splits if_splits)
  have w: "fwrite (path_of d n) s fs1 = put_in d n (g\<lparr>fdata := s\<rparr>) fs" for s
    using assms(1) dir by (simp add: fwrite_def fs1 file_of_put_in g(1) put_in_put_in)
  have "wf_fs fs \<Longrightarrow> valid_name n"
    using assms(2) by (auto simp: can_write_def dest: file_of_valid split: option.splits)
  then have wrote: "wrote d n (fdata h) fs (put_in d n h fs)"
    if "fwritable h" "freadable h \<longleftrightarrow> freadable g" for h
    using that g dir by (auto simp: wrote_def file_of_put_in put_in_other_dir wf_put_in)
  show ?thesis
    by (rule that[OF op]) (use wrote[of g] wrote[of "g\<lparr>fdata := s\<rparr>" for s] g w fs1 in auto)
qed

lemma wroteD:
  assumes "wrote d n s fs fs'"
  shows "(e, m) \<noteq> (d, n) \<Longrightarrow> file_of fs' e m = file_of fs e m"
    and "e \<noteq> d \<Longrightarrow> fs' e = fs e"
    and "writable_dir fs' = writable_dir fs" and "readable_dir fs' = readable_dir fs"
    and "wf_fs fs \<Longrightarrow> wf_fs fs'"
  using assms by (auto simp: wrote_def)

lemma wrote_content:
  assumes "wrote d n s fs fs'" and "CHR ''/'' \<notin> set n"
  shows "content fs' (path_of d n) = s"
  using assms by (auto simp: wrote_def content_def lookup_path)

definition can_read :: "fsys \<Rightarrow> string \<Rightarrow> string \<Rightarrow> bool" where
  "can_read fs d n \<longleftrightarrow> (case file_of fs d n of None \<Rightarrow> False | Some f \<Rightarrow> freadable f)"

definition data_of :: "fsys \<Rightarrow> string \<Rightarrow> string \<Rightarrow> string" where
  "data_of fs d n = (case file_of fs d n of None \<Rightarrow> [] | Some f \<Rightarrow> fdata f)"

lemma fopen_r_path: "CHR ''/'' \<notin> set n \<Longrightarrow> fopen_r fs (path_of d n) = can_read fs d n"
  by (simp add: fopen_r_def can_read_def lookup_path)

lemma content_path: "CHR ''/'' \<notin> set n \<Longrightarrow> content fs (path_of d n) = data_of fs d n"
  by (simp add: content_def data_of_def lookup_path)

lemma wrote_data: "wrote d n s fs fs' \<Longrightarrow> data_of fs' d n = s"
  by (auto simp: wrote_def data_of_def)

lemma wrote_can_read:
  "wrote d n s fs fs' \<Longrightarrow> file_of fs d n = None \<or> can_read fs d n \<Longrightarrow> can_read fs' d n"
  by (auto simp: wrote_def can_read_def split: option.splits)

lemma wrote_can_write: "wrote d n s fs fs' \<Longrightarrow> can_write fs d n \<Longrightarrow> can_write fs' d n"
  by (auto simp: wrote_def can_write_def split: option.splits)

lemma wrote_other:
  assumes "wrote d n s fs fs'" and "(e, m) \<noteq> (d, n)"
  shows "can_read fs' e m = can_read fs e m" and "data_of fs' e m = data_of fs e m"
    and "can_write fs' e m = can_write fs e m"
proof -
  have "file_of fs' e m = file_of fs e m" and "writable_dir fs' = writable_dir fs"
    using wroteD[OF assms(1)] assms(2) by blast+
  then show "can_read fs' e m = can_read fs e m" and "data_of fs' e m = data_of fs e m"
    and "can_write fs' e m = can_write fs e m"
    by (cases "file_of fs e m"; simp add: can_read_def data_of_def can_write_def)+
qed

lemma wrote_names: "wrote d n s fs fs' \<Longrightarrow> e \<noteq> d \<Longrightarrow> names_of fs' e = names_of fs e"
  by (auto simp: wrote_def names_of_def)


section \<open>Concrete directory tables\<close>

text \<open>Tables given entry by entry, for the concrete runs that accompany the properties.\<close>

definition plain_dir :: "(string \<times> string) list \<Rightarrow> dnode" where
  "plain_dir es = \<lparr>dents = map (\<lambda>(n, s). (n, new_file s)) es, dreadable = True, dwritable = True\<rparr>"

named_theorems fs_eval
  \<comment> \<open>evaluation of the predicates on concrete tables\<close>

lemma file_of_upd [fs_eval]:
  "file_of (fs(d \<mapsto> dn)) e n = (if e = d then map_of (dents dn) n else file_of fs e n)"
  "file_of Map.empty e n = None"
  by (simp_all add: file_of_def)

lemma names_of_upd [fs_eval]:
  "names_of (fs(d \<mapsto> dn)) e = (if e = d then map fst (dents dn) else names_of fs e)"
  "names_of Map.empty e = []"
  by (simp_all add: names_of_def)

lemma dir_access_upd [fs_eval]:
  "readable_dir (fs(d \<mapsto> dn)) e = (if e = d then dreadable dn else readable_dir fs e)"
  "writable_dir (fs(d \<mapsto> dn)) e = (if e = d then dwritable dn else writable_dir fs e)"
  by (simp_all add: readable_dir_def writable_dir_def)

lemma wf_fs_upd [fs_eval]:
  "wf_fs Map.empty"
  "wf_fs fs \<Longrightarrow> wf_dnode dn \<Longrightarrow> wf_fs (fs(d \<mapsto> dn))"
  by (auto simp: wf_fs_def)

lemma plain_dir_simps [fs_eval]:
  "dents (plain_dir es) = map (\<lambda>(n, s). (n, new_file s)) es"
  "dreadable (plain_dir es)" "dwritable (plain_dir es)"
  by (simp_all add: plain_dir_def)

lemma wf_plain_dir [fs_eval]:
  "wf_dnode (plain_dir es) \<longleftrightarrow> distinct (map fst es) \<and> (\<forall>n \<in> set (map fst es). valid_name n)"
proof -
  have "map fst (map (\<lambda>(n, s). (n, new_file s)) es) = map fst es" by (induction es) auto
  moreover from this have "fst ` set (map (\<lambda>(n, s). (n, new_file s)) es) = set (map fst es)"
    by (metis set_map)
  ultimately show ?thesis by (simp only: wf_dnode_def plain_dir_simps)
qed

lemma new_file_simps [fs_eval]:
  "fdata (new_file s) = s" "freadable (new_file s)" "fwritable (new_file s)"
  by (simp_all add: new_file_def)

lemmas fs_eval_defs = can_read_def can_write_def data_of_def valid_name_def is_dot_def
  fits_path_def MAX_NAME_LEN_def

end
