(* ===== verification/ProDealCollect.thy ===== *)
theory ProDealCollect
  imports CTime FileSys
begin

text \<open>
  The first two steps of both daily jobs (\<open>src/prodeal.cc\<close>): \<open>CProDeal::getAfpName\<close> lists the
  fingerprint files, \<open>CProDeal::movLogFile\<close> drops run logs older than six days and collects
  the new ones. The text written to a \<open>FILE*\<close> is gathered while the loop runs and stored
  when the file is closed, as the buffer of the stream is.
\<close>

section \<open>Names of the work files\<close>

definition afpNameFile :: string where "afpNameFile = ''afpNameFile.tmp''"
definition logNumCount :: string where "logNumCount = ''logNumCount.tmp''"
definition fltLogsFile :: string where "fltLogsFile = ''fltLogsFile.tmp''"
definition topAfpsFile :: string where "topAfpsFile = ''topAfpsFile.tmp''"
definition botAfpsFile :: string where "botAfpsFile = ''botAfpsFile.tmp''"

lemmas work_file_defs = afpNameFile_def logNumCount_def fltLogsFile_def topAfpsFile_def
  botAfpsFile_def

lemma work_file_valid [simp]:
  "valid_name afpNameFile" "valid_name logNumCount" "valid_name fltLogsFile"
  "valid_name topAfpsFile" "valid_name botAfpsFile"
  by (simp_all add: work_file_defs valid_name_def is_dot_def)

lemma work_file_distinct [simp]:
  "afpNameFile \<noteq> logNumCount" "afpNameFile \<noteq> fltLogsFile" "afpNameFile \<noteq> topAfpsFile"
  "afpNameFile \<noteq> botAfpsFile" "logNumCount \<noteq> fltLogsFile" "logNumCount \<noteq> topAfpsFile"
  "logNumCount \<noteq> botAfpsFile" "fltLogsFile \<noteq> topAfpsFile" "fltLogsFile \<noteq> botAfpsFile"
  "topAfpsFile \<noteq> botAfpsFile"
  by (simp_all add: work_file_defs)

lemmas work_file_distinct_sym [simp] = work_file_distinct [symmetric]

lemma length_work_file [simp]:
  "length afpNameFile = 15" "length logNumCount = 15" "length fltLogsFile = 15"
  "length topAfpsFile = 15" "length botAfpsFile = 15"
  by (simp_all add: work_file_defs)

section \<open>Calls the steps share\<close>

text \<open>A loop over a directory stream leaves out \<open>.\<close> and \<open>..\<close>.\<close>

definition each_entry :: "(string \<Rightarrow> 's \<Rightarrow> 's run) \<Rightarrow> string list \<Rightarrow> 's \<Rightarrow> 's run" where
  "each_entry body = for_each (\<lambda>n s. if is_dot n then Inr s else body n s)"

lemma each_entry_simps:
  "each_entry body [] s = Inr s"
  "each_entry body (n # ns) s = (if is_dot n then each_entry body ns s
     else bnd (body n s) (each_entry body ns))"
  by (simp_all add: each_entry_def)

lemma each_entry_valid:
  assumes "\<And>n. n \<in> set ns \<Longrightarrow> \<not> is_dot n"
  shows "each_entry body (''.'' # ''..'' # ns) s = for_each body ns s"
  using assms by (simp add: each_entry_def cong: for_each_cong)

lemma each_entry_names:
  "wf_fs fs \<Longrightarrow> each_entry body (''.'' # ''..'' # names_of fs d) s = for_each body (names_of fs d) s"
  by (rule each_entry_valid) (blast dest: names_of_valid valid_nameD)

section \<open>CProDeal::getAfpName\<close>

definition getAfpName :: "string \<Rightarrow> string \<Rightarrow> fsys \<Rightarrow> (int \<times> fsys) run" where
  "getAfpName org dst fs =
    (case opendir fs org of
       None \<Rightarrow> Inr (-1, fs)
     | Some names \<Rightarrow>
         bnd (sprintf_path dst afpNameFile) (\<lambda>fname.
           case fopen_w fs fname of
             None \<Rightarrow> Inr (-1, fs)
           | Some fs1 \<Rightarrow>
               bnd (each_entry (\<lambda>n out.
                      bnd (sprintf MAX_LINE_LEN (n @ [newline])) (\<lambda>buff. Inr (out @ cstr buff)))
                    names [])
                 (\<lambda>out. Inr (0, fwrite fname out fs1))))"

section \<open>CProDeal::movLogFile\<close>

definition SERVER_LOG :: string where "SERVER_LOG = ''server.log''"

definition KEEP_SECONDS :: int where "KEEP_SECONDS = 3600 * 24 * 6"

text \<open>The name below which a log is old: \<open>strftime\<close> of \<open>gmtime\<close> six days before \<open>now\<close>.\<close>

definition expiry_name :: "int \<Rightarrow> string" where
  "expiry_name now = strftime_log (gmtime (now - KEEP_SECONDS))"

text \<open>First loop: an entry of \<open>dst\<close> whose name compares below the limit is removed; a failing
  \<open>remove\<close> is only reported.\<close>

definition expire_entry :: "string \<Rightarrow> string \<Rightarrow> string \<Rightarrow> fsys \<Rightarrow> fsys run" where
  "expire_entry s dst n fs =
    (if strcmp n s < 0
     then bnd (sprintf_path dst n) (\<lambda>dstname. Inr (ignoring (remove fs dstname) fs))
     else Inr fs)"

text \<open>Second loop: every entry of \<open>org\<close> is renamed into \<open>dst\<close>, except \<open>server.log\<close>, which the
  searcher still writes and which is copied line by line. The result of \<open>fopen(dstname)\<close> is
  not tested: \<open>fputs\<close> and \<open>fclose\<close> on a null stream fault.\<close>

definition collect_entry :: "string \<Rightarrow> string \<Rightarrow> string \<Rightarrow> fsys \<Rightarrow> fsys run" where
  "collect_entry org dst n fs =
    bnd (sprintf_path org n) (\<lambda>orgname.
      bnd (sprintf_path dst n) (\<lambda>dstname.
        if strcmp SERVER_LOG n \<noteq> 0 then Inr (ignoring (rename fs orgname dstname) fs)
        else if \<not> fopen_r fs orgname then Inr fs
        else (case fopen_w fs dstname of
                None \<Rightarrow> Inl NullDeref
              | Some fs1 \<Rightarrow>
                  Inr (fwrite dstname (fputs_lines (fgets_lines (content fs1 orgname))) fs1))))"

definition movLogFile :: "int \<Rightarrow> string \<Rightarrow> string \<Rightarrow> fsys \<Rightarrow> (int \<times> fsys) run" where
  "movLogFile now org dst fs =
    (case opendir fs dst of
       None \<Rightarrow> Inr (-1, fs)
     | Some old \<Rightarrow>
         bnd (each_entry (expire_entry (expiry_name now) dst) old fs) (\<lambda>fs1.
           case opendir fs1 org of
             None \<Rightarrow> Inr (-1, fs1)
           | Some new \<Rightarrow>
               bnd (each_entry (collect_entry org dst) new fs1) (\<lambda>fs2. Inr (0, fs2))))"

section \<open>What getAfpName writes\<close>

lemma afp_names_text:
  assumes "\<And>n. n \<in> set ns \<Longrightarrow> valid_name n"
  shows "for_each (\<lambda>n out. bnd (sprintf MAX_LINE_LEN (n @ [newline])) (\<lambda>buff. Inr (out @ cstr buff)))
     ns out = Inr (out @ concat (map (\<lambda>n. n @ [newline]) ns))"
  using assms
proof (induction ns arbitrary: out)
  case Nil
  then show ?case by simp
next
  case (Cons n ns)
  then have "length n \<le> 255" and "nul_free n" by (auto simp: valid_name_def)
  with Cons show ?case by (simp add: MAX_LINE_LEN_def)
qed

definition name_lines :: "string list \<Rightarrow> string" where
  "name_lines ns = concat (map (\<lambda>n. n @ [newline]) ns)"

lemma getAfpName_lists_directory_run:
  assumes "wf_fs fs" and "readable_dir fs org" and "can_write fs dst afpNameFile"
    and "fits_path dst afpNameFile"
  shows "\<exists>fs'. getAfpName org dst fs = Inr (0, fs') \<and>
    wrote dst afpNameFile (name_lines (names_of fs org)) fs fs'"
proof -
  have ns: "CHR ''/'' \<notin> set afpNameFile" by (simp add: valid_nameD)
  obtain fs1 where "fopen_w fs (path_of dst afpNameFile) = Some fs1"
    and "wrote dst afpNameFile s fs (fwrite (path_of dst afpNameFile) s fs1)" for s
    using write_file[OF ns assms(3)] by metis
  with assms show ?thesis
    by (simp add: getAfpName_def opendir_names each_entry_names afp_names_text names_of_valid
        name_lines_def)
qed

text \<open>\<open>getAfpName\<close> on a readable fingerprint directory and a writable work file never leaves
  its buffers, returns 0, and writes exactly the names of the files of the directory, one per
  line and in the order of \<open>readdir\<close>, replacing the former content of the work file; no other
  file changes.\<close>

theorem getAfpName_lists_directory:
  assumes "wf_fs fs" and "readable_dir fs org" and "can_write fs dst afpNameFile"
    and "fits_path dst afpNameFile"
  shows "\<exists>fs'. getAfpName org dst fs = Inr (0, fs') \<and>
    wrote dst afpNameFile (name_lines (names_of fs org)) fs fs'"
  by (rule getAfpName_lists_directory_run[OF assms])


theorem getAfpName_lists_directory_witness:
  "\<exists>fs'. getAfpName ''afp'' ''wrk''
      [''afp'' \<mapsto> plain_dir [(''7.afp'', ''A''), (''8.afp'', ''B'')], ''wrk'' \<mapsto> plain_dir []] = Inr (0, fs') \<and>
    data_of fs' ''wrk'' afpNameFile = name_lines [''7.afp'', ''8.afp'']"
  (is "\<exists>fs'. getAfpName _ _ ?fs = _ \<and> _")
proof -
  have "wf_fs ?fs" and "readable_dir ?fs ''afp''" and "can_write ?fs ''wrk'' afpNameFile"
    and "fits_path ''wrk'' afpNameFile"
    by (simp_all add: fs_eval fs_eval_defs work_file_defs)
  from getAfpName_lists_directory [OF this] show ?thesis
    by (auto simp: fs_eval dest: wrote_data)
qed

section \<open>What movLogFile leaves behind\<close>

lemma del_in_absent: "file_of fs d n = None \<Longrightarrow> del_in d n fs = fs"
proof -
  assume a: "file_of fs d n = None"
  show ?thesis
  proof (cases "fs d")
    case None
    then show ?thesis by (simp add: del_in_def)
  next
    case (Some dn)
    with a have "del_entry n (dents dn) = dents dn"
      by (auto simp: file_of_def del_entry_def map_of_eq_None_iff filter_id_conv)
    with Some show ?thesis by (auto simp: del_in_def fun_eq_iff)
  qed
qed

lemma remove_path_del:
  "CHR ''/'' \<notin> set n \<Longrightarrow> writable_dir fs d \<Longrightarrow> ignoring (remove fs (path_of d n)) fs = del_in d n fs"
  by (simp add: remove_path del_in_absent)

lemma expire_fold:
  assumes "writable_dir fs dst"
    and "\<And>n. n \<in> set ns \<Longrightarrow> valid_name n \<and> fits_path dst n"
  shows "for_each (expire_entry s dst) ns fs =
    Inr (fold (del_in dst) (filter (\<lambda>n. strcmp n s < 0) ns) fs)"
  using assms
  by (induction ns arbitrary: fs)
    (auto simp: expire_entry_def remove_path_del valid_nameD)

lemma fold_del_in_dirs [simp]:
  "writable_dir (fold (del_in d) ns fs) = writable_dir fs"
  "readable_dir (fold (del_in d) ns fs) = readable_dir fs"
  by (induction ns arbitrary: fs) simp_all

lemma fold_del_in_other: "e \<noteq> d \<Longrightarrow> fold (del_in d) ns fs e = fs e"
  by (induction ns arbitrary: fs) (simp_all add: del_in_other_dir)

lemma wf_fold_del_in: "wf_fs fs \<Longrightarrow> wf_fs (fold (del_in d) ns fs)"
  by (induction ns arbitrary: fs) (simp_all add: wf_del_in)

text \<open>The effect of \<open>collect_entry\<close> on the two directories, for a list of entries.\<close>

definition collected :: "string \<Rightarrow> string \<Rightarrow> string set \<Rightarrow> fsys \<Rightarrow> fsys \<Rightarrow> bool" where
  "collected org dst N t t' \<longleftrightarrow>
     (\<forall>m. file_of t' org m = (if m \<in> N \<and> m \<noteq> SERVER_LOG then None else file_of t org m)) \<and>
     (\<forall>m. m \<noteq> SERVER_LOG \<longrightarrow> file_of t' dst m =
        (if m \<in> N \<and> file_of t org m \<noteq> None then file_of t org m else file_of t dst m)) \<and>
     (if SERVER_LOG \<in> N \<and> can_read t org SERVER_LOG
      then data_of t' dst SERVER_LOG = data_of t org SERVER_LOG
      else file_of t' dst SERVER_LOG = file_of t dst SERVER_LOG) \<and>
     (\<forall>e. e \<noteq> org \<and> e \<noteq> dst \<longrightarrow> t' e = t e) \<and>
     writable_dir t' = writable_dir t \<and> readable_dir t' = readable_dir t \<and>
     (can_write t dst SERVER_LOG \<longrightarrow> can_write t' dst SERVER_LOG) \<and>
     (wf_fs t \<longrightarrow> wf_fs t')"

lemma server_log_valid [simp]: "valid_name SERVER_LOG"
  by (simp add: SERVER_LOG_def valid_name_def is_dot_def)

lemma strcmp_server_log: "valid_name n \<Longrightarrow> strcmp SERVER_LOG n = 0 \<longleftrightarrow> n = SERVER_LOG"
  using strcmp_eq_0[of SERVER_LOG n] valid_nameD(2)[of n] valid_nameD(2)[of SERVER_LOG] by auto

lemma collect_move:
  assumes "valid_name n" and "n \<noteq> SERVER_LOG" and "org \<noteq> dst"
    and "writable_dir t org" and "writable_dir t dst"
    and "fits_path org n" and "fits_path dst n"
  shows "\<exists>t'. collect_entry org dst n t = Inr t' \<and> collected org dst {n} t t'"
proof -
  let ?t = "case file_of t org n of None \<Rightarrow> t | Some f \<Rightarrow> put_in dst n f (del_in org n t)"
  have "collect_entry org dst n t = Inr ?t"
    using assms by (simp add: collect_entry_def strcmp_server_log rename_path)
  moreover have "collected org dst {n} t ?t"
    using assms writable_has_dir[OF assms(5)]
    by (auto simp: collected_def file_of_put_in file_of_del_in files.dir_del can_write_def
        put_in_other_dir del_in_other_dir wf_put_in wf_del_in split: option.split)
  ultimately show ?thesis by blast
qed

lemma collect_copy:
  assumes "org \<noteq> dst" and "can_write t dst SERVER_LOG"
    and "fits_path org SERVER_LOG" and "fits_path dst SERVER_LOG"
    and "nul_free (data_of t org SERVER_LOG)"
  shows "\<exists>t'. collect_entry org dst SERVER_LOG t = Inr t' \<and> collected org dst {SERVER_LOG} t t'"
proof -
  have ns: "CHR ''/'' \<notin> set SERVER_LOG" by (simp add: valid_nameD)
  have s0: "strcmp SERVER_LOG SERVER_LOG = 0" by (simp add: strcmp_server_log)
  show ?thesis
  proof (cases "can_read t org SERVER_LOG")
    case False
    then have "collect_entry org dst SERVER_LOG t = Inr t"
      using assms s0 by (simp add: collect_entry_def fopen_r_path ns)
    moreover have "collected org dst {SERVER_LOG} t t" using False by (auto simp: collected_def)
    ultimately show ?thesis by blast
  next
    case True
    obtain t1 where op: "fopen_w t (path_of dst SERVER_LOG) = Some t1"
      and w1: "wrote dst SERVER_LOG [] t t1"
      and w: "wrote dst SERVER_LOG s t (fwrite (path_of dst SERVER_LOG) s t1)" for s
      using write_file[OF ns assms(2)] by metis
    let ?s = "data_of t org SERVER_LOG"
    let ?t = "fwrite (path_of dst SERVER_LOG) ?s t1"
    have "data_of t1 org SERVER_LOG = ?s" using w1 assms(1) by (simp add: wrote_other)
    then have "collect_entry org dst SERVER_LOG t = Inr ?t"
      using assms s0 True op by (simp add: collect_entry_def fopen_r_path content_path ns fputs_fgets_copy)
    moreover have "collected org dst {SERVER_LOG} t ?t"
      using w[of ?s] wroteD[OF w[of ?s]] wrote_data[OF w[of ?s]] wrote_can_write[OF w[of ?s]]
        assms(1) True
      by (auto simp: collected_def)
    ultimately show ?thesis by blast
  qed
qed

lemma collected_trans:
  assumes "collected org dst {n} t u" and "collected org dst N u v" and "n \<notin> N" and "org \<noteq> dst"
  shows "collected org dst (insert n N) t v"
proof -
  note u = assms(1)[unfolded collected_def] and v = assms(2)[unfolded collected_def]
  have log: "can_read u org SERVER_LOG = can_read t org SERVER_LOG"
    "data_of u org SERVER_LOG = data_of t org SERVER_LOG"
    using u by (simp_all add: can_read_def data_of_def)
  have ulog: "if SERVER_LOG \<in> {n} \<and> can_read t org SERVER_LOG
      then data_of u dst SERVER_LOG = data_of t org SERVER_LOG
      else file_of u dst SERVER_LOG = file_of t dst SERVER_LOG" using u by blast
  have vlog: "if SERVER_LOG \<in> N \<and> can_read u org SERVER_LOG
      then data_of v dst SERVER_LOG = data_of u org SERVER_LOG
      else file_of v dst SERVER_LOG = file_of u dst SERVER_LOG" using v by blast
  have copied: "file_of v dst SERVER_LOG = file_of u dst SERVER_LOG \<Longrightarrow>
      data_of v dst SERVER_LOG = data_of u dst SERVER_LOG"
    by (simp add: data_of_def)
  show ?thesis
    unfolding collected_def
  proof (intro conjI allI impI)
    fix m
    show "file_of v org m = (if m \<in> insert n N \<and> m \<noteq> SERVER_LOG then None else file_of t org m)"
      using u v by simp
    show "m \<noteq> SERVER_LOG \<Longrightarrow> file_of v dst m =
        (if m \<in> insert n N \<and> file_of t org m \<noteq> None then file_of t org m else file_of t dst m)"
      using u v assms(3) by (cases "m = n"; cases "file_of t org m"; simp)
    show "if SERVER_LOG \<in> insert n N \<and> can_read t org SERVER_LOG
      then data_of v dst SERVER_LOG = data_of t org SERVER_LOG
      else file_of v dst SERVER_LOG = file_of t dst SERVER_LOG"
      using ulog vlog assms(3) log copied
      by (cases "SERVER_LOG = n"; cases "SERVER_LOG \<in> N"; cases "can_read t org SERVER_LOG"; simp)
  next
    fix e
    show "e \<noteq> org \<and> e \<noteq> dst \<Longrightarrow> v e = t e" using u v by simp
  qed (use u v in simp_all)
qed

lemma collect_all:
  assumes "distinct ns" and "org \<noteq> dst"
    and "writable_dir t org" and "writable_dir t dst" and "can_write t dst SERVER_LOG"
    and "nul_free (data_of t org SERVER_LOG)"
    and "\<And>n. n \<in> set ns \<Longrightarrow> valid_name n \<and> fits_path org n \<and> fits_path dst n"
  shows "\<exists>t'. for_each (collect_entry org dst) ns t = Inr t' \<and> collected org dst (set ns) t t'"
  using assms
proof (induction ns arbitrary: t)
  case Nil
  then show ?case by (auto simp: collected_def)
next
  case (Cons n ns)
  obtain u where u: "collect_entry org dst n t = Inr u" "collected org dst {n} t u"
    using collect_move[of n org dst t] collect_copy[of org dst t] Cons.prems
    by (cases "n = SERVER_LOG") auto
  have "data_of u org SERVER_LOG = data_of t org SERVER_LOG"
    and "writable_dir u = writable_dir t"
    and "can_write t dst SERVER_LOG \<longrightarrow> can_write u dst SERVER_LOG"
    using u(2) by (auto simp: collected_def data_of_def)
  then obtain v where v: "for_each (collect_entry org dst) ns u = Inr v" "collected org dst (set ns) u v"
    using Cons.IH[of u] Cons.prems by auto
  have "collected org dst (insert n (set ns)) t v"
    using collected_trans[OF u(2) v(2)] Cons.prems(1,2) by simp
  with u(1) v(1) show ?case by simp
qed

text \<open>What one collection does, as a relation on file systems: the log directory \<open>dst\<close> loses the
  files whose names compare below the name of six days before, and gains every file of the run
  log directory \<open>org\<close>, which keeps only \<open>server.log\<close>; that file's content is copied. Nothing else
  changes.\<close>

definition logs_collected :: "int \<Rightarrow> string \<Rightarrow> string \<Rightarrow> fsys \<Rightarrow> fsys \<Rightarrow> bool" where
  "logs_collected now org dst fs fs' \<longleftrightarrow> wf_fs fs' \<and>
    (\<forall>n. file_of fs' org n = (if n = SERVER_LOG then file_of fs org n else None)) \<and>
    (\<forall>n. n \<noteq> SERVER_LOG \<longrightarrow> file_of fs' dst n =
       (case file_of fs org n of Some f \<Rightarrow> Some f
        | None \<Rightarrow> if strcmp n (expiry_name now) < 0 then None else file_of fs dst n)) \<and>
    (if can_read fs org SERVER_LOG then data_of fs' dst SERVER_LOG = data_of fs org SERVER_LOG
     else file_of fs' dst SERVER_LOG =
       (if strcmp SERVER_LOG (expiry_name now) < 0 then None else file_of fs dst SERVER_LOG)) \<and>
    (\<forall>e. e \<noteq> org \<and> e \<noteq> dst \<longrightarrow> fs' e = fs e) \<and>
    readable_dir fs' = readable_dir fs \<and> writable_dir fs' = writable_dir fs"

lemma movLogFile_collects_run:
  assumes "wf_fs fs" and "org \<noteq> dst"
    and "readable_dir fs org" and "writable_dir fs org"
    and "readable_dir fs dst" and "writable_dir fs dst" and "can_write fs dst SERVER_LOG"
    and "\<forall>n. file_of fs org n \<noteq> None \<longrightarrow> fits_path org n \<and> fits_path dst n"
    and "\<forall>n. file_of fs dst n \<noteq> None \<longrightarrow> fits_path dst n"
    and "nul_free (data_of fs org SERVER_LOG)"
  shows "\<exists>fs'. movLogFile now org dst fs = Inr (0, fs') \<and> logs_collected now org dst fs fs'"
proof -
  let ?old = "filter (\<lambda>n. strcmp n (expiry_name now) < 0) (names_of fs dst)"
  define fs1 where "fs1 = fold (del_in dst) ?old fs"
  have "for_each (expire_entry (expiry_name now) dst) (names_of fs dst) fs = Inr fs1"
    unfolding fs1_def using assms(1,6,9)
    by (intro expire_fold) (auto simp: names_of_file dest: file_of_valid)
  then have loop1: "each_entry (expire_entry (expiry_name now) dst)
      (''.'' # ''..'' # names_of fs dst) fs = Inr fs1"
    by (simp add: each_entry_names assms(1))
  have f1: "file_of fs1 e m = (if e = dst \<and> m \<in> set ?old then None else file_of fs e m)" for e m
    unfolding fs1_def by (rule files.look_fold_del)
  have org1: "fs1 org = fs org" and wf1: "wf_fs fs1" and dirs1: "writable_dir fs1 = writable_dir fs"
    "readable_dir fs1 = readable_dir fs"
    using assms(1,2) by (simp_all add: fs1_def fold_del_in_other wf_fold_del_in)
  have names1: "names_of fs1 org = names_of fs org" by (simp add: names_of_def org1)
  have data1: "data_of fs1 org SERVER_LOG = data_of fs org SERVER_LOG"
    "can_read fs1 org SERVER_LOG = can_read fs org SERVER_LOG"
    using assms(2) by (simp_all add: data_of_def can_read_def f1)
  have "can_write fs1 dst SERVER_LOG"
    using assms(6,7) by (simp add: can_write_def f1 dirs1 split: option.splits)
  then obtain fs2 where fs2: "for_each (collect_entry org dst) (names_of fs org) fs1 = Inr fs2"
    "collected org dst (set (names_of fs org)) fs1 fs2"
    using collect_all[of "names_of fs org" org dst fs1] names_of_distinct[OF assms(1)]
      assms dirs1 data1 by (auto simp: names_of_file dest: file_of_valid)
  have "movLogFile now org dst fs = Inr (0, fs2)"
    using assms(3,5) dirs1 fs2(1) loop1
    by (simp add: movLogFile_def opendir_names names1 each_entry_names assms(1) each_entry_names[OF wf1, of _ org, unfolded names1])
  moreover have "file_of fs2 org n = (if n = SERVER_LOG then file_of fs org n else None)" for n
    using fs2(2) names_of_file[of n fs org] assms(2) by (auto simp: collected_def f1)
  moreover have "n \<noteq> SERVER_LOG \<Longrightarrow> file_of fs2 dst n =
       (case file_of fs org n of Some f \<Rightarrow> Some f
        | None \<Rightarrow> if strcmp n (expiry_name now) < 0 then None else file_of fs dst n)" for n
    using fs2(2) names_of_file[of n fs org] names_of_file[of n fs dst] assms(2)
    by (auto simp: collected_def f1 split: option.splits)
  moreover have "if can_read fs org SERVER_LOG then data_of fs2 dst SERVER_LOG = data_of fs org SERVER_LOG
     else file_of fs2 dst SERVER_LOG =
       (if strcmp SERVER_LOG (expiry_name now) < 0 then None else file_of fs dst SERVER_LOG)"
  proof (cases "can_read fs org SERVER_LOG")
    case True
    then have "SERVER_LOG \<in> set (names_of fs org)"
      using names_of_file[of SERVER_LOG fs org] by (auto simp: can_read_def split: option.splits)
    then show ?thesis using True fs2(2) data1 by (simp add: collected_def)
  next
    case False
    then have "file_of fs2 dst SERVER_LOG = file_of fs1 dst SERVER_LOG"
      using fs2(2) data1(2) by (simp add: collected_def split: if_splits)
    then show ?thesis using False names_of_file[of SERVER_LOG fs dst] by (auto simp: f1)
  qed
  moreover have "\<forall>e. e \<noteq> org \<and> e \<noteq> dst \<longrightarrow> fs2 e = fs e"
    using fs2(2) by (simp add: collected_def fs1_def fold_del_in_other)
  moreover have "wf_fs fs2" "readable_dir fs2 = readable_dir fs" "writable_dir fs2 = writable_dir fs"
    using fs2(2) wf1 dirs1 by (simp_all add: collected_def)
  ultimately show ?thesis unfolding logs_collected_def by blast
qed

text \<open>Given two different directories with permission to change them, legal file names that
  fit the path buffers and a \<open>server.log\<close> without zero bytes, \<open>movLogFile\<close> never leaves its
  buffers and returns 0; afterwards the log directory has lost exactly the files whose names
  compare below the name of six days ago, has gained every file of the run log directory, and
  the run log directory has kept only \<open>server.log\<close>, whose content is copied unchanged.\<close>

theorem movLogFile_collects:
  assumes "wf_fs fs" and "org \<noteq> dst"
    and "readable_dir fs org" and "writable_dir fs org"
    and "readable_dir fs dst" and "writable_dir fs dst" and "can_write fs dst SERVER_LOG"
    and "\<forall>n. file_of fs org n \<noteq> None \<longrightarrow> fits_path org n \<and> fits_path dst n"
    and "\<forall>n. file_of fs dst n \<noteq> None \<longrightarrow> fits_path dst n"
    and "nul_free (data_of fs org SERVER_LOG)"
  shows "\<exists>fs'. movLogFile now org dst fs = Inr (0, fs') \<and> logs_collected now org dst fs fs'"
  by (rule movLogFile_collects_run[OF assms])


theorem movLogFile_collects_witness:
  "\<exists>fs'. movLogFile 1448582400 ''dat'' ''log''
      [''dat'' \<mapsto> plain_dir [(''2015-11-26_08-00-00.log'', ''a''), (SERVER_LOG, ''b'')],
       ''log'' \<mapsto> plain_dir [(''2015-11-01_08-00-00.log'', ''c'')]] = Inr (0, fs') \<and>
    file_of fs' ''log'' ''2015-11-01_08-00-00.log'' = None \<and>
    file_of fs' ''log'' ''2015-11-26_08-00-00.log'' = Some (new_file ''a'') \<and>
    data_of fs' ''log'' SERVER_LOG = ''b''"
  (is "\<exists>fs'. movLogFile _ _ _ ?fs = _ \<and> _")
proof -
  have "expiry_name 1448582400 = ''2015-11-21_00-00-00.log''" by code_simp
  then have old: "strcmp ''2015-11-01_08-00-00.log'' (expiry_name 1448582400) < 0" by simp
  have "wf_fs ?fs" and "''dat'' \<noteq> ''log''"
    and "readable_dir ?fs ''dat''" and "writable_dir ?fs ''dat''"
    and "readable_dir ?fs ''log''" and "writable_dir ?fs ''log''" and "can_write ?fs ''log'' SERVER_LOG"
    and "\<forall>n. file_of ?fs ''dat'' n \<noteq> None \<longrightarrow> fits_path ''dat'' n \<and> fits_path ''log'' n"
    and "\<forall>n. file_of ?fs ''log'' n \<noteq> None \<longrightarrow> fits_path ''log'' n"
    and "nul_free (data_of ?fs ''dat'' SERVER_LOG)"
    by (simp_all add: fs_eval fs_eval_defs SERVER_LOG_def)
  from movLogFile_collects [OF this, of 1448582400] old show ?thesis
    unfolding logs_collected_def by (fastforce simp: fs_eval fs_eval_defs SERVER_LOG_def)
qed

end
