(* ===== verification/ProDealCount.thy ===== *)
theory ProDealCount
  imports ProDealCollect "HOL-Library.Multiset"
begin

text \<open>
  \<open>CProDeal::cntSrhNums\<close> of \<open>src/prodeal.cc\<close>: every line of the collected logs that starts
  with \<open>$$\<close> names a song between its first two bars; the searches are counted per song in a
  \<open>std::map\<close>, sorted by count with \<open>std::sort\<close> and written as \<open>song|count\<close> lines. Which
  order \<open>std::sort\<close> gives songs with equal counts is not specified by C++; it is the
  parameter \<open>srt\<close> of the model.
\<close>

section \<open>The order of std::sort\<close>

text \<open>A comparison \<open>std::sort\<close> may be called with, and what it then promises.\<close>

definition strict_weak :: "('a \<Rightarrow> 'a \<Rightarrow> bool) \<Rightarrow> bool" where
  "strict_weak lt \<longleftrightarrow> (\<forall>x. \<not> lt x x) \<and> (\<forall>x y z. lt x y \<longrightarrow> lt y z \<longrightarrow> lt x z) \<and>
     (\<forall>x y z. \<not> lt x y \<longrightarrow> \<not> lt y z \<longrightarrow> \<not> lt x z)"

locale std_sort =
  fixes srt :: "('a \<Rightarrow> 'a \<Rightarrow> bool) \<Rightarrow> 'a list \<Rightarrow> 'a list"
  assumes srt_mset: "strict_weak lt \<Longrightarrow> mset (srt lt xs) = mset xs"
    and srt_sorted: "strict_weak lt \<Longrightarrow> sorted_wrt (\<lambda>x y. \<not> lt y x) (srt lt xs)"
begin

lemma srt_set: "strict_weak lt \<Longrightarrow> set (srt lt xs) = set xs"
  using srt_mset[of lt xs] by (metis set_mset_mset)

lemma srt_length: "strict_weak lt \<Longrightarrow> length (srt lt xs) = length xs"
  using srt_mset[of lt xs] by (metis size_mset)

lemma srt_distinct_map:
  assumes "strict_weak lt"
  shows "distinct (map f (srt lt xs)) = distinct (map f xs)"
proof -
  have "mset (map f (srt lt xs)) = mset (map f xs)" using srt_mset[OF assms] by simp
  then show ?thesis by (metis mset_eq_imp_distinct_iff)
qed

end

text \<open>Insertion sort, what \<open>std::sort\<close> runs on short ranges, keeps the promise.\<close>

fun ins_by :: "('a \<Rightarrow> 'a \<Rightarrow> bool) \<Rightarrow> 'a \<Rightarrow> 'a list \<Rightarrow> 'a list" where
  "ins_by lt x [] = [x]"
| "ins_by lt x (y # ys) = (if lt y x then y # ins_by lt x ys else x # y # ys)"

fun ins_sort :: "('a \<Rightarrow> 'a \<Rightarrow> bool) \<Rightarrow> 'a list \<Rightarrow> 'a list" where
  "ins_sort lt [] = []"
| "ins_sort lt (x # xs) = ins_by lt x (ins_sort lt xs)"

lemma mset_ins_by: "mset (ins_by lt x xs) = add_mset x (mset xs)"
  by (induction xs) auto

lemma set_ins_by: "set (ins_by lt x xs) = insert x (set xs)"
  by (induction xs) auto

lemma sorted_ins_by:
  assumes "strict_weak lt" and "sorted_wrt (\<lambda>x y. \<not> lt y x) xs"
  shows "sorted_wrt (\<lambda>x y. \<not> lt y x) (ins_by lt x xs)"
  using assms(2)
proof (induction xs)
  case Nil
  then show ?case by simp
next
  case (Cons y ys)
  have "\<not> lt z x" if "\<not> lt y x" and "z \<in> set ys" for z
    using assms(1) Cons.prems that unfolding strict_weak_def by (metis list.set_intros(1) sorted_wrt.simps(2))
  moreover have "lt y x \<Longrightarrow> \<not> lt x y" using assms(1) unfolding strict_weak_def by metis
  ultimately show ?case using Cons by (auto simp: set_ins_by)
qed

interpretation ins_sort: std_sort ins_sort
proof
  fix lt :: "'a \<Rightarrow> 'a \<Rightarrow> bool" and xs :: "'a list"
  assume lt: "strict_weak lt"
  show "mset (ins_sort lt xs) = mset xs" by (induction xs) (auto simp: mset_ins_by)
  show "sorted_wrt (\<lambda>x y. \<not> lt y x) (ins_sort lt xs)"
    by (induction xs) (auto simp: sorted_ins_by[OF lt])
qed

section \<open>One log line\<close>

text \<open>The body of the \<open>fgets\<close> loop: the song of a line, or \<open>None\<close> where the code continues.\<close>

definition sid_of_line :: "string \<Rightarrow> string option run" where
  "sid_of_line line =
    (if byte_at line 0 \<noteq> CHR ''$'' \<or> byte_at line 1 \<noteq> CHR ''$'' then Inr None
     else let tmp = cstr line; pos1 = find_from (CHR ''|'') tmp 0
          in if pos1 = -1 then Inr None
             else let pos2 = find_from (CHR ''|'') tmp (pos1 + 1)
                  in if pos2 = -1 then Inr None
                     else bnd (substr tmp (pos1 + 1) (pos2 - pos1 - 1)) (\<lambda>sid.
                            Inr (if sid = ''-1'' then None else Some sid)))"

text \<open>\<open>cntmap[sid]++\<close> on the \<open>std::map\<close>: its pairs in the order of the keys.\<close>

fun cnt_inc :: "string \<Rightarrow> (string \<times> int) list \<Rightarrow> (string \<times> int) list" where
  "cnt_inc k [] = [(k, 1)]"
| "cnt_inc k ((j, v) # m) =
     (if k = j then (j, wrap32 (v + 1)) # m
      else if k < j then (k, 1) # (j, v) # m
      else (j, v) # cnt_inc k m)"

definition count_file :: "string \<Rightarrow> (string \<times> int) list \<Rightarrow> (string \<times> int) list run" where
  "count_file text m =
    for_each (\<lambda>line m. bnd (sid_of_line line) (\<lambda>r.
        Inr (case r of None \<Rightarrow> m | Some sid \<Rightarrow> cnt_inc sid m)))
      (fgets_lines text) m"

section \<open>CProDeal::cntSrhNums\<close>

definition cmp :: "string \<times> int \<Rightarrow> string \<times> int \<Rightarrow> bool" where
  "cmp x y \<longleftrightarrow> snd x > snd y"

definition lmp :: "string \<times> int \<Rightarrow> string \<times> int \<Rightarrow> bool" where
  "lmp x y \<longleftrightarrow> snd x < snd y"

definition count_line :: "string \<times> int \<Rightarrow> string" where
  "count_line e = fst e @ ''|'' @ int_str (snd e) @ [newline]"

type_synonym sorter =
  "(string \<times> int \<Rightarrow> string \<times> int \<Rightarrow> bool) \<Rightarrow> (string \<times> int) list \<Rightarrow> (string \<times> int) list"

definition cntSrhNums :: "sorter \<Rightarrow> string \<Rightarrow> string \<Rightarrow> int \<Rightarrow> fsys \<Rightarrow> (int \<times> fsys) run" where
  "cntSrhNums srt org dst flg fs =
    (case opendir fs org of
       None \<Rightarrow> Inr (-1, fs)
     | Some names \<Rightarrow>
         bnd (sprintf_path dst logNumCount) (\<lambda>oname.
           case fopen_w fs oname of
             None \<Rightarrow> Inr (-1, fs)
           | Some fs1 \<Rightarrow>
               bnd (each_entry (\<lambda>n m.
                      bnd (sprintf_path org n) (\<lambda>fname.
                        if \<not> fopen_r fs1 fname then Inr m else count_file (content fs1 fname) m))
                    names []) (\<lambda>cntmap.
               bnd (for_each (\<lambda>e out. bnd (sprintf MAX_LINE_LEN (count_line e)) (\<lambda>buf.
                        Inr (out @ cstr buf)))
                    (if flg = 0 then srt cmp cntmap else srt lmp cntmap) [])
                 (\<lambda>out. Inr (0, fwrite oname out fs1)))))"

section \<open>The song of a line\<close>

text \<open>What the position arithmetic computes: the text between the first two bars.\<close>

definition log_sid :: "string \<Rightarrow> string option" where
  "log_sid line =
    (if take 2 line = ''$$''
     then (case dropWhile (\<lambda>c. c \<noteq> CHR ''|'') (cstr line) of
             [] \<Rightarrow> None
           | b # rest \<Rightarrow>
               if CHR ''|'' \<notin> set rest \<or> takeWhile (\<lambda>c. c \<noteq> CHR ''|'') rest = ''-1'' then None
               else Some (takeWhile (\<lambda>c. c \<noteq> CHR ''|'') rest))
     else None)"

lemma take2_bytes:
  "take 2 line = ''$$'' \<longleftrightarrow> byte_at line 0 = CHR ''$'' \<and> byte_at line 1 = CHR ''$''"
  by (cases line; cases "tl line") (auto simp: byte_at_def)

lemma split_at_char:
  assumes "c \<in> set s"
  obtains a b where "s = a @ c # b" and "c \<notin> set a"
  using assms by (metis split_list_first)

lemma dropWhile_split: "c \<notin> set a \<Longrightarrow> dropWhile (\<lambda>x. x \<noteq> c) (a @ c # b) = c # b"
  by (rule dropWhile_stop) auto

lemma takeWhile_split: "c \<notin> set a \<Longrightarrow> takeWhile (\<lambda>x. x \<noteq> c) (a @ c # b) = a"
  by (rule takeWhile_stop) auto

lemma find_from_Suc:
  "c \<notin> set b \<Longrightarrow> find_from c (a @ d # b @ c # r) (int (length a) + 1) = int (length a + length b) + 1"
proof -
  assume "c \<notin> set b"
  moreover have "nat (int (length a) + 1) = Suc (length a)" by simp
  ultimately show ?thesis by (simp add: find_from_def takeWhile_split)
qed

lemma find_from_Suc_none:
  assumes "c \<notin> set b"
  shows "find_from c (a @ d # b) (int (length a) + 1) = -1"
proof -
  have "nat (int (length a) + 1) = Suc (length a)" by simp
  moreover have "takeWhile (\<lambda>x. x \<noteq> c) b = b" using assms by auto
  ultimately show ?thesis by (simp add: find_from_def del: takeWhile_eq_all_conv)
qed

text \<open>The search with \<open>find\<close> and \<open>substr\<close> never leaves the string and computes the text
  between the first two bars of a line that starts with two dollar signs, with the song
  \<open>-1\<close> left out.\<close>

theorem sid_of_line_spec: "sid_of_line line = Inr (log_sid line)"
proof (cases "take 2 line = ''$$''")
  case False
  then show ?thesis by (auto simp: sid_of_line_def log_sid_def take2_bytes)
next
  case dollars: True
  let ?bar = "CHR ''|''"
  show ?thesis
  proof (cases "?bar \<in> set (cstr line)")
    case False
    then have "dropWhile (\<lambda>c. c \<noteq> ?bar) (cstr line) = []" by auto
    with dollars False show ?thesis
      by (simp add: sid_of_line_def log_sid_def take2_bytes find_from_none del: dropWhile_eq_Nil_conv)
  next
    case True
    then obtain a r where a: "cstr line = a @ ?bar # r" "?bar \<notin> set a" by (rule split_at_char)
    have pos1: "find_from ?bar (a @ ?bar # r) 0 = int (length a)" using a(2) by (rule find_from_0)
    show ?thesis
    proof (cases "?bar \<in> set r")
      case False
      with dollars a pos1 show ?thesis
        by (simp add: sid_of_line_def log_sid_def take2_bytes dropWhile_split find_from_Suc_none)
    next
      case True
      then obtain b t where r: "r = b @ ?bar # t" "?bar \<notin> set b" by (rule split_at_char)
      have "substr (a @ ?bar # b @ ?bar # t) (int (length a) + 1) (int (length b)) = Inr b"
        by (simp add: substr_def nat_add_distrib)
      with dollars a pos1 r show ?thesis
        by (simp add: sid_of_line_def log_sid_def take2_bytes dropWhile_split takeWhile_split
            find_from_Suc)
    qed
  qed
qed


section \<open>The counts\<close>

text \<open>The map of the songs \<open>sids\<close>: keys in strictly ascending order, each with the number of its
  occurrences, wrapped to 32 bits.\<close>

definition key_sorted :: "(string \<times> int) list \<Rightarrow> bool" where
  "key_sorted m \<longleftrightarrow> sorted_wrt (<) (map fst m)"

lemma cnt_inc_keys: "fst ` set (cnt_inc k m) = insert k (fst ` set m)"
  by (induction k m rule: cnt_inc.induct) auto

lemma key_sorted_cnt_inc: "key_sorted m \<Longrightarrow> key_sorted (cnt_inc k m)"
  unfolding key_sorted_def
proof (induction k m rule: cnt_inc.induct)
  case (2 k j v m)
  have keys: "set (map fst (cnt_inc k m)) = insert k (set (map fst m))"
    using cnt_inc_keys[of k m] by simp
  show ?case
  proof (cases "k = j \<or> k < j")
    case True
    with 2 show ?thesis by (auto dest: less_trans)
  next
    case False
    then have "j < k" by auto
    with 2 keys False show ?thesis by simp
  qed
qed simp

lemma map_of_cnt_inc:
  "key_sorted m \<Longrightarrow> map_of (cnt_inc k m) =
     (map_of m)(k \<mapsto> (case map_of m k of None \<Rightarrow> 1 | Some v \<Rightarrow> wrap32 (v + 1)))"
  unfolding key_sorted_def
proof (induction k m rule: cnt_inc.induct)
  case (1 k)
  show ?case by simp
next
  case (2 k j v m)
  have "k < j \<Longrightarrow> map_of m k = None"
    using 2 by (auto simp: map_of_eq_None_iff dest: less_trans)
  with 2 show ?case by (auto simp: fun_eq_iff split: option.splits)
qed

lemma wrap32_step: "wrap32 (wrap32 x + 1) = wrap32 (x + 1)"
proof -
  have "((x + 2 ^ 31) mod 2 ^ 32 - 2 ^ 31 + 1 + 2 ^ 31) mod 2 ^ 32 = (x + 1 + 2 ^ 31) mod (2 ^ 32 :: int)"
    by (simp add: mod_simps algebra_simps)
  then show ?thesis by (simp add: wrap32_def)
qed

definition count_map :: "string list \<Rightarrow> (string \<times> int) list \<Rightarrow> bool" where
  "count_map sids m \<longleftrightarrow> key_sorted m \<and>
     (\<forall>k. map_of m k = (if k \<in> set sids then Some (wrap32 (int (count_list sids k))) else None))"

lemma wrap32_1 [simp]: "wrap32 1 = 1"
  by (simp add: wrap32_id int32_def)

lemma count_map_Nil: "count_map [] []"
  by (simp add: count_map_def key_sorted_def)

lemma count_map_snoc: "count_map sids m \<Longrightarrow> count_map (sids @ [s]) (cnt_inc s m)"
  by (auto simp: count_map_def key_sorted_cnt_inc map_of_cnt_inc wrap32_step count_list_0_iff
      add.commute[of 1] split: option.splits)

text \<open>The songs of a text and of a directory.\<close>

definition sids_of_text :: "string \<Rightarrow> string list" where
  "sids_of_text text = List.map_filter log_sid (fgets_lines text)"

definition sids_of_dir :: "fsys \<Rightarrow> string \<Rightarrow> string list" where
  "sids_of_dir fs d =
     concat (map (\<lambda>n. if can_read fs d n then sids_of_text (data_of fs d n) else []) (names_of fs d))"

lemma count_lines:
  "count_map sids m \<Longrightarrow>
   \<exists>m'. for_each (\<lambda>line m. bnd (sid_of_line line) (\<lambda>r.
        Inr (case r of None \<Rightarrow> m | Some sid \<Rightarrow> cnt_inc sid m))) ls m = Inr m' \<and>
     count_map (sids @ List.map_filter log_sid ls) m'"
proof (induction ls arbitrary: sids m)
  case Nil
  then show ?case by (simp add: List.map_filter_simps)
next
  case (Cons l ls)
  show ?case
  proof (cases "log_sid l")
    case None
    with Cons show ?thesis by (simp add: sid_of_line_spec List.map_filter_simps)
  next
    case (Some s)
    with Cons.IH[OF count_map_snoc[OF Cons.prems, of s]] show ?thesis
      by (simp add: sid_of_line_spec List.map_filter_simps)
  qed
qed

lemma count_file_counts:
  "count_map sids m \<Longrightarrow> \<exists>m'. count_file text m = Inr m' \<and> count_map (sids @ sids_of_text text) m'"
  unfolding count_file_def sids_of_text_def by (rule count_lines)

lemma count_dir:
  assumes "count_map sids m" and "\<And>n. n \<in> set ns \<Longrightarrow> valid_name n \<and> fits_path org n"
  shows "\<exists>m'. for_each (\<lambda>n m. bnd (sprintf_path org n) (\<lambda>fname.
        if \<not> fopen_r fs fname then Inr m else count_file (content fs fname) m)) ns m = Inr m' \<and>
     count_map (sids @ concat (map (\<lambda>n. if can_read fs org n then sids_of_text (data_of fs org n)
        else []) ns)) m'"
  using assms
proof (induction ns arbitrary: sids m)
  case Nil
  then show ?case by simp
next
  case (Cons n ns)
  let ?s = "if can_read fs org n then sids_of_text (data_of fs org n) else []"
  have n: "CHR ''/'' \<notin> set n" "fits_path org n" using Cons.prems(2) by (auto simp: valid_nameD)
  obtain m1 where m1: "(if \<not> fopen_r fs (path_of org n) then Inr m
      else count_file (content fs (path_of org n)) m) = Inr m1" "count_map (sids @ ?s) m1"
    using Cons.prems(1) count_file_counts[OF Cons.prems(1), of "data_of fs org n"]
    by (cases "can_read fs org n") (auto simp: fopen_r_path content_path n)
  from Cons.IH[OF m1(2)] Cons.prems(2) m1(1) n show ?case by simp
qed

lemma count_map_set:
  assumes "count_map sids m" and "length sids < 2 ^ 31"
  shows "set m = (\<lambda>s. (s, int (count_list sids s))) ` set sids" and "distinct (map fst m)"
proof -
  have m: "key_sorted m" using assms(1) by (simp add: count_map_def)
  then show d: "distinct (map fst m)"
    by (simp add: key_sorted_def strict_sorted_iff)
  have "int32 (int (count_list sids k))" for k
    using assms(2) count_le_length[of sids k] by (simp add: int32_def)
  then have "map_of m k = (if k \<in> set sids then Some (int (count_list sids k)) else None)" for k
    using assms(1) by (simp add: count_map_def wrap32_id)
  then have "(k, v) \<in> set m \<longleftrightarrow> k \<in> set sids \<and> v = int (count_list sids k)" for k v
    using map_of_eq_Some_iff[OF d, of k v] by (auto split: if_splits)
  then show "set m = (\<lambda>s. (s, int (count_list sids s))) ` set sids" by auto
qed

section \<open>The file of counts\<close>

definition count_text :: "(string \<times> int) list \<Rightarrow> string" where
  "count_text vec = concat (map count_line vec)"

lemma count_text_loop:
  assumes "\<And>e. e \<in> set vec \<Longrightarrow> length (count_line e) < MAX_LINE_LEN \<and> nul_free (fst e)"
  shows "for_each (\<lambda>e out. bnd (sprintf MAX_LINE_LEN (count_line e)) (\<lambda>buf. Inr (out @ cstr buf)))
     vec out = Inr (out @ count_text vec)"
  using assms
proof (induction vec arbitrary: out)
  case Nil
  then show ?case by (simp add: count_text_def)
next
  case (Cons e vec)
  then have "nul_free (count_line e)" by (simp add: count_line_def nul_free_int_str)
  with Cons show ?case by (simp add: count_text_def)
qed

lemma strict_weak_cmp [simp]: "strict_weak cmp" and strict_weak_lmp [simp]: "strict_weak lmp"
  by (auto simp: strict_weak_def cmp_def lmp_def)

lemma log_sid_shape:
  assumes "log_sid line = Some s"
  shows "nul_free s" and "CHR ''|'' \<notin> set s" and "set s \<subseteq> set line" and "s \<noteq> ''-1''"
proof -
  obtain b r where r: "dropWhile (\<lambda>c. c \<noteq> CHR ''|'') (cstr line) = b # r"
      "s = takeWhile (\<lambda>c. c \<noteq> CHR ''|'') r" "s \<noteq> ''-1''"
    using assms by (auto simp: log_sid_def split: list.splits if_splits)
  have "set s \<subseteq> set (cstr line)"
    using r(1,2) set_dropWhileD[of _ "\<lambda>c. c \<noteq> CHR ''|''" "cstr line"]
    by (auto dest!: set_takeWhileD)
  then show "set s \<subseteq> set line" and "nul_free s"
    using set_cstr[of line] nul_free_cstr[of line] by (auto simp: nul_free_def)
  show "CHR ''|'' \<notin> set s" using r(2) by (auto dest: set_takeWhileD)
  show "s \<noteq> ''-1''" by (rule r(3))
qed

lemma sids_of_text_shape: "s \<in> set (sids_of_text text) \<Longrightarrow> nul_free s \<and> CHR ''|'' \<notin> set s"
  by (auto simp: sids_of_text_def List.map_filter_def dest: log_sid_shape)

lemma sids_of_dir_shape: "s \<in> set (sids_of_dir fs d) \<Longrightarrow> nul_free s \<and> CHR ''|'' \<notin> set s"
  by (auto simp: sids_of_dir_def dest: sids_of_text_shape split: if_splits)

lemma cntSrhNums_counts_run:
  assumes "std_sort srt" and "wf_fs fs" and "org \<noteq> dst"
    and "readable_dir fs org" and "can_write fs dst logNumCount" and "fits_path dst logNumCount"
    and "\<forall>n. file_of fs org n \<noteq> None \<longrightarrow> fits_path org n"
    and "length (sids_of_dir fs org) < 2 ^ 31" and "\<forall>s \<in> set (sids_of_dir fs org). length s \<le> 1000"
  shows "\<exists>fs' vec. cntSrhNums srt org dst flg fs = Inr (0, fs') \<and>
    wrote dst logNumCount (count_text vec) fs fs' \<and>
    distinct (map fst vec) \<and>
    set vec = (\<lambda>s. (s, int (count_list (sids_of_dir fs org) s))) ` set (sids_of_dir fs org) \<and>
    sorted_wrt (\<lambda>x y. if flg = 0 then snd y \<le> snd x else snd x \<le> snd y) vec"
proof -
  let ?sids = "sids_of_dir fs org"
  have ns: "CHR ''/'' \<notin> set logNumCount" by (simp add: valid_nameD)
  obtain fs1 where op: "fopen_w fs (path_of dst logNumCount) = Some fs1"
    and w1: "wrote dst logNumCount [] fs fs1"
    and w: "\<And>s. wrote dst logNumCount s fs (fwrite (path_of dst logNumCount) s fs1)"
    using write_file[OF ns assms(5)] by metis
  have rd: "can_read fs1 org n = can_read fs org n" "data_of fs1 org n = data_of fs org n" for n
    using wrote_other[OF w1, of org n] assms(3) by simp_all
  obtain m where m: "for_each (\<lambda>n m. bnd (sprintf_path org n) (\<lambda>fname.
        if \<not> fopen_r fs1 fname then Inr m else count_file (content fs1 fname) m))
        (names_of fs org) [] = Inr m" "count_map ?sids m"
    using count_dir[OF count_map_Nil, of "names_of fs org" org fs1] assms(2,7)
    unfolding sids_of_dir_def rd
    by (auto simp: names_of_file dest: file_of_valid)
  note ms = count_map_set[OF m(2) assms(8)]
  define vec where "vec = (if flg = 0 then srt cmp m else srt lmp m)"
  let ?lt = "if flg = 0 then cmp else lmp"
  have vec_srt: "vec = srt ?lt m" and lt: "strict_weak ?lt" by (simp_all add: vec_def)
  have set_vec: "set vec = set m" and dist: "distinct (map fst vec)"
    using std_sort.srt_set[OF assms(1) lt, of m]
      std_sort.srt_distinct_map[OF assms(1) lt, of fst m] ms(2)
    by (simp_all only: vec_srt)
  have "sorted_wrt (\<lambda>x y. \<not> ?lt y x) vec"
    unfolding vec_srt by (rule std_sort.srt_sorted[OF assms(1) lt])
  then have sorted: "sorted_wrt (\<lambda>x y. if flg = 0 then snd y \<le> snd x else snd x \<le> snd y) vec"
    by (rule sorted_wrt_mono_rel[rotated]) (auto simp: cmp_def lmp_def split: if_splits)
  have fits: "length (count_line e) < MAX_LINE_LEN \<and> nul_free (fst e)" if e: "e \<in> set vec" for e
  proof -
    obtain s where s: "s \<in> set ?sids" "e = (s, int (count_list ?sids s))"
      using e ms(1) set_vec by auto
    moreover have "int32 (int (count_list ?sids s))"
      using assms(8) count_le_length[of ?sids s] by (simp add: int32_def)
    ultimately show ?thesis
      using assms(9) length_int_str[of "int (count_list ?sids s)"] sids_of_dir_shape[OF s(1)]
      by (fastforce simp: count_line_def MAX_LINE_LEN_def)
  qed
  have "cntSrhNums srt org dst flg fs =
      Inr (0, fwrite (path_of dst logNumCount) (count_text vec) fs1)"
    using assms(2,4,6) op m(1) count_text_loop[OF fits, of vec "[]"]
    by (simp add: cntSrhNums_def opendir_names each_entry_names vec_def[symmetric])
  with w[of "count_text vec"] dist set_vec ms(1) sorted show ?thesis by blast
qed

text \<open>C19: whatever order \<open>std::sort\<close> gives equal counts, \<open>cntSrhNums\<close> returns 0 and writes one line
  for each song that some readable log of the directory was searched for, with the exact number
  of its searches, by falling counts for \<open>flg = 0\<close> and by rising counts otherwise. It leaves no
  buffer as long as song names have at most 1000 bytes and paths fit theirs.\<close>

theorem cntSrhNums_counts:
  assumes "std_sort srt" and "wf_fs fs" and "org \<noteq> dst"
    and "readable_dir fs org" and "can_write fs dst logNumCount" and "fits_path dst logNumCount"
    and "\<forall>n. file_of fs org n \<noteq> None \<longrightarrow> fits_path org n"
    and "length (sids_of_dir fs org) < 2 ^ 31" and "\<forall>s \<in> set (sids_of_dir fs org). length s \<le> 1000"
  shows "\<exists>fs' vec. cntSrhNums srt org dst flg fs = Inr (0, fs') \<and>
    wrote dst logNumCount (count_text vec) fs fs' \<and>
    distinct (map fst vec) \<and>
    set vec = (\<lambda>s. (s, int (count_list (sids_of_dir fs org) s))) ` set (sids_of_dir fs org) \<and>
    sorted_wrt (\<lambda>x y. if flg = 0 then snd y \<le> snd x else snd x \<le> snd y) vec"
  by (rule cntSrhNums_counts_run[OF assms])


theorem cntSrhNums_counts_witness:
  "\<exists>fs' vec. cntSrhNums ins_sort ''log'' ''wrk'' 0
      [''log'' \<mapsto> plain_dir [(''x.log'', ''$$a|7|b'' @ [newline] @ ''$$|9|'' @ [newline] @ ''$$|7|'')],
       ''wrk'' \<mapsto> plain_dir []] = Inr (0, fs') \<and>
    data_of fs' ''wrk'' logNumCount = count_text vec \<and> set vec = {(''7'', 2), (''9'', 1)}"
  (is "\<exists>fs' vec. cntSrhNums _ _ _ _ ?fs = _ \<and> _")
proof -
  have sids: "sids_of_dir ?fs ''log'' = [''7'', ''9'', ''7'']"
    by (simp add: sids_of_dir_def sids_of_text_def fs_eval fs_eval_defs fgets_lines_def
        fgets_chunks.simps MAX_LINE_LEN_def List.map_filter_simps log_sid_def cstr_def)
  have "std_sort ins_sort" by (rule ins_sort.std_sort_axioms)
  moreover have "wf_fs ?fs" and "''log'' \<noteq> ''wrk''" and "readable_dir ?fs ''log''"
    and "can_write ?fs ''wrk'' logNumCount" and "fits_path ''wrk'' logNumCount"
    and "\<forall>n. file_of ?fs ''log'' n \<noteq> None \<longrightarrow> fits_path ''log'' n"
    by (simp_all add: fs_eval fs_eval_defs work_file_defs)
  moreover have "length (sids_of_dir ?fs ''log'') < 2 ^ 31"
    and "\<forall>s \<in> set (sids_of_dir ?fs ''log''). length s \<le> 1000"
    unfolding sids by simp_all
  ultimately have "\<exists>fs' vec. cntSrhNums ins_sort ''log'' ''wrk'' 0 ?fs = Inr (0, fs') \<and>
    wrote ''wrk'' logNumCount (count_text vec) ?fs fs' \<and> distinct (map fst vec) \<and>
    set vec = (\<lambda>s. (s, int (count_list (sids_of_dir ?fs ''log'') s))) ` set (sids_of_dir ?fs ''log'') \<and>
    sorted_wrt (\<lambda>x y. if (0::int) = 0 then snd y \<le> snd x else snd x \<le> snd y) vec"
    by (rule cntSrhNums_counts)
  then show ?thesis unfolding sids by (auto dest!: wrote_data)
qed

end
