(* ===== verification/AutoConf.thy ===== *)
theory AutoConf
  imports FileSys
begin

text \<open>
  Configuration (\<open>src/autoconf.h\<close>, \<open>src/autoconf.cc\<close>): the static fields of \<open>Config\<close>, the
  table \<open>m_ref\<close> from option names to tags, \<open>Inspect::dispath\<close> that stores one option, the
  loop that reads the file \<open>../conf\<close>, and the polling thread of \<open>Inspect\<close>.
\<close>

section \<open>Config\<close>

record config =
  SERVER_ADDR :: string
  CLIENT_ADDR :: string
  AFP_DIR :: string
  DAT_DIR :: string
  WRK_DIR :: string
  ORG_DIR :: string
  DST_DIR :: string
  LOG_DIR :: string
  SER_MOVE_ADDR :: string
  SER_CONF_ADDR :: string
  SER_SYNC_ADDR :: string
  CLT_MOVE_ADDR :: string
  CLT_CONF_ADDR :: string
  CLT_SYNC_ADDR :: string
  GROUP_LIST :: string
  SUB_LIST :: string
  GROUP_LIMIT :: int  \<comment> \<open>\<open>unsigned int\<close>: always in the range of \<open>to_u32\<close>\<close>
  CACHE_LIMIT :: int

definition config_init :: config where
  "config_init =
     \<lparr>SERVER_ADDR = ''0.0.0.0:50059'', CLIENT_ADDR = ''localhost:50059'',
      AFP_DIR = [], DAT_DIR = [], WRK_DIR = [], ORG_DIR = [], DST_DIR = [], LOG_DIR = [],
      SER_MOVE_ADDR = [], SER_CONF_ADDR = [], SER_SYNC_ADDR = [],
      CLT_MOVE_ADDR = [], CLT_CONF_ADDR = [], CLT_SYNC_ADDR = [],
      GROUP_LIST = ''group_list'', SUB_LIST = ''sub_list'',
      GROUP_LIMIT = 100, CACHE_LIMIT = 1800\<rparr>"

text \<open>The tags of \<open>autoconf.h\<close> and the table that \<open>Config::Config()\<close> fills.\<close>

definition TAG_SERVER_ADDR :: int where "TAG_SERVER_ADDR = 10"
definition TAG_CLIENT_ADDR :: int where "TAG_CLIENT_ADDR = 11"
definition TAG_AFP_DIR :: int where "TAG_AFP_DIR = 12"
definition TAG_DAT_DIR :: int where "TAG_DAT_DIR = 13"
definition TAG_WRK_DIR :: int where "TAG_WRK_DIR = 14"
definition TAG_ORG_DIR :: int where "TAG_ORG_DIR = 15"
definition TAG_DST_DIR :: int where "TAG_DST_DIR = 16"
definition TAG_LOG_DIR :: int where "TAG_LOG_DIR = 17"
definition TAG_SER_MOVE_ADDR :: int where "TAG_SER_MOVE_ADDR = 18"
definition TAG_SER_CONF_ADDR :: int where "TAG_SER_CONF_ADDR = 19"
definition TAG_SER_SYNC_ADDR :: int where "TAG_SER_SYNC_ADDR = 20"
definition TAG_CLT_MOVE_ADDR :: int where "TAG_CLT_MOVE_ADDR = 21"
definition TAG_CLT_CONF_ADDR :: int where "TAG_CLT_CONF_ADDR = 22"
definition TAG_CLT_SYNC_ADDR :: int where "TAG_CLT_SYNC_ADDR = 23"
definition TAG_GROUP_LIMIT :: int where "TAG_GROUP_LIMIT = 24"
definition TAG_CACHE_LIMIT :: int where "TAG_CACHE_LIMIT = 25"
definition TAG_GROUP_LIST :: int where "TAG_GROUP_LIST = 26"
definition TAG_SUB_LIST :: int where "TAG_SUB_LIST = 27"

lemmas tag_defs = TAG_SERVER_ADDR_def TAG_CLIENT_ADDR_def TAG_AFP_DIR_def TAG_DAT_DIR_def
  TAG_WRK_DIR_def TAG_ORG_DIR_def TAG_DST_DIR_def TAG_LOG_DIR_def TAG_SER_MOVE_ADDR_def
  TAG_SER_CONF_ADDR_def TAG_SER_SYNC_ADDR_def TAG_CLT_MOVE_ADDR_def TAG_CLT_CONF_ADDR_def
  TAG_CLT_SYNC_ADDR_def TAG_GROUP_LIMIT_def TAG_CACHE_LIMIT_def TAG_GROUP_LIST_def
  TAG_SUB_LIST_def

definition m_ref :: "(string \<times> int) list" where
  "m_ref =
    [(''SERVER_ADDR'', TAG_SERVER_ADDR), (''CLIENT_ADDR'', TAG_CLIENT_ADDR),
     (''AFP_DIR'', TAG_AFP_DIR), (''DAT_DIR'', TAG_DAT_DIR), (''WRK_DIR'', TAG_WRK_DIR),
     (''ORG_DIR'', TAG_ORG_DIR), (''DST_DIR'', TAG_DST_DIR), (''LOG_DIR'', TAG_LOG_DIR),
     (''SER_MOVE_ADDR'', TAG_SER_MOVE_ADDR), (''SER_CONF_ADDR'', TAG_SER_CONF_ADDR),
     (''SER_SYNC_ADDR'', TAG_SER_SYNC_ADDR), (''CLT_MOVE_ADDR'', TAG_CLT_MOVE_ADDR),
     (''CLT_CONF_ADDR'', TAG_CLT_CONF_ADDR), (''CLT_SYNC_ADDR'', TAG_CLT_SYNC_ADDR),
     (''GROUP_LIMIT'', TAG_GROUP_LIMIT), (''CACHE_LIMIT'', TAG_CACHE_LIMIT),
     (''GROUP_LIST'', TAG_GROUP_LIST), (''SUB_LIST'', TAG_SUB_LIST)]"

section \<open>Inspect::dispath\<close>

text \<open>The \<open>switch\<close> on the tag, in the order of its cases; any other tag stores nothing.\<close>

definition store_tag :: "int \<Rightarrow> string \<Rightarrow> config \<Rightarrow> config" where
  "store_tag tag val c =
    (if tag = TAG_SERVER_ADDR then c\<lparr>SERVER_ADDR := val\<rparr>
     else if tag = TAG_CLIENT_ADDR then c\<lparr>CLIENT_ADDR := val\<rparr>
     else if tag = TAG_AFP_DIR then c\<lparr>AFP_DIR := val\<rparr>
     else if tag = TAG_DAT_DIR then c\<lparr>DAT_DIR := val\<rparr>
     else if tag = TAG_WRK_DIR then c\<lparr>WRK_DIR := val\<rparr>
     else if tag = TAG_ORG_DIR then c\<lparr>ORG_DIR := val\<rparr>
     else if tag = TAG_DST_DIR then c\<lparr>DST_DIR := val\<rparr>
     else if tag = TAG_LOG_DIR then c\<lparr>LOG_DIR := val\<rparr>
     else if tag = TAG_SER_MOVE_ADDR then c\<lparr>SER_MOVE_ADDR := val\<rparr>
     else if tag = TAG_SER_CONF_ADDR then c\<lparr>SER_CONF_ADDR := val\<rparr>
     else if tag = TAG_SER_SYNC_ADDR then c\<lparr>SER_SYNC_ADDR := val\<rparr>
     else if tag = TAG_CLT_MOVE_ADDR then c\<lparr>CLT_MOVE_ADDR := val\<rparr>
     else if tag = TAG_CLT_CONF_ADDR then c\<lparr>CLT_CONF_ADDR := val\<rparr>
     else if tag = TAG_CLT_SYNC_ADDR then c\<lparr>CLT_SYNC_ADDR := val\<rparr>
     else if tag = TAG_GROUP_LIMIT then c\<lparr>GROUP_LIMIT := to_u32 (atoi val)\<rparr>
     else if tag = TAG_CACHE_LIMIT then c\<lparr>CACHE_LIMIT := to_u32 (atoi val)\<rparr>
     else if tag = TAG_GROUP_LIST then c\<lparr>GROUP_LIST := val\<rparr>
     else if tag = TAG_SUB_LIST then c\<lparr>SUB_LIST := val\<rparr>
     else c)"

definition dispath :: "string \<Rightarrow> string \<Rightarrow> config \<Rightarrow> config" where
  "dispath name val c =
    (case map_of m_ref name of None \<Rightarrow> c | Some tag \<Rightarrow> store_tag tag val c)"

section \<open>Reading the configuration file\<close>

text \<open>
  \<open>while (-1 != fscanf(fp, "%s%s", name, value)) dispath(name, value);\<close> Both buffers hold
  256 bytes and are not initialised. A pair of tokens is stored; when a last token stands
  alone, \<open>fscanf\<close> returns 1, which is not \<open>-1\<close>, and \<open>value\<close> still holds the text of the
  previous pair (or nothing, when there was none). \<open>prev\<close> is the content of \<open>value\<close>.
\<close>

definition MAX_VAL_LEN :: nat where "MAX_VAL_LEN = 256"

definition scan_word :: "nat \<Rightarrow> string \<Rightarrow> string run" where
  "scan_word n tok = bnd (sprintf n tok) (\<lambda>t. Inr (cstr t))"

fun conf_loop :: "string list \<Rightarrow> string option \<Rightarrow> config \<Rightarrow> config run" where
  "conf_loop [] prev c = Inr c"
| "conf_loop [n] prev c =
     bnd (scan_word MAX_NAME_LEN n) (\<lambda>name.
       case prev of None \<Rightarrow> Inl Uninitialised | Some v \<Rightarrow> Inr (dispath name v c))"
| "conf_loop (n # v # ts) prev c =
     bnd (scan_word MAX_NAME_LEN n) (\<lambda>name.
       bnd (scan_word MAX_VAL_LEN v) (\<lambda>val. conf_loop ts (Some val) (dispath name val c)))"

definition load_conf :: "string \<Rightarrow> config \<Rightarrow> config run" where
  "load_conf text c = conf_loop (scan_tokens text) None c"

section \<open>The Inspect thread\<close>

text \<open>
  The state of \<open>Inspect\<close>: the flag that stops the thread and whether the thread runs. One
  turn of \<open>routing_fn\<close> tests the flag and reads the file when it opens; \<open>startInspect\<close> reads
  it once and starts the thread only when the file opened; \<open>resetInspect\<close> sleeps for
  \<open>INSPECT_INTERVAL\<close> seconds, long enough for a turn to see the flag, and clears it.
\<close>

definition CONF_NAME :: string where "CONF_NAME = ''../conf''"
definition INSPECT_INTERVAL :: int where "INSPECT_INTERVAL = 60"

record inspect =
  overflag :: int
  running :: bool

definition inspect_init :: inspect where
  "inspect_init = \<lparr>overflag = 0, running = False\<rparr>"

definition startInspect :: "fsys \<Rightarrow> inspect \<times> config \<Rightarrow> (inspect \<times> config) run" where
  "startInspect fs st =
    (case st of (i, c) \<Rightarrow>
       if \<not> fopen_r fs CONF_NAME then Inr (i, c)
       else bnd (load_conf (content fs CONF_NAME) c) (\<lambda>c'. Inr (i\<lparr>running := True\<rparr>, c')))"

definition closeInspect :: "inspect \<Rightarrow> inspect" where
  "closeInspect i = i\<lparr>overflag := 1\<rparr>"

definition resetInspect :: "inspect \<Rightarrow> inspect" where
  "resetInspect i = i\<lparr>overflag := 0\<rparr>"

definition getOverflag :: "inspect \<Rightarrow> int" where
  "getOverflag i = overflag i"

definition routing_turn :: "fsys \<Rightarrow> inspect \<times> config \<Rightarrow> (inspect \<times> config) run" where
  "routing_turn fs st =
    (case st of (i, c) \<Rightarrow>
       if \<not> running i then Inr (i, c)
       else if getOverflag i \<noteq> 0 then Inr (i\<lparr>running := False\<rparr>, c)
       else if \<not> fopen_r fs CONF_NAME then Inr (i, c)
       else bnd (load_conf (content fs CONF_NAME) c) (\<lambda>c'. Inr (i, c')))"

text \<open>The turns of the thread while the file system goes through the states \<open>fss\<close>.\<close>

fun routing_fn :: "fsys list \<Rightarrow> inspect \<times> config \<Rightarrow> (inspect \<times> config) run" where
  "routing_fn [] st = Inr st"
| "routing_fn (fs # fss) st = bnd (routing_turn fs st) (routing_fn fss)"

section \<open>Properties\<close>

text \<open>The options by name: the text of an option as \<open>dispath\<close> would have stored it.\<close>

definition string_options :: "string list" where
  "string_options =
    [''SERVER_ADDR'', ''CLIENT_ADDR'', ''AFP_DIR'', ''DAT_DIR'', ''WRK_DIR'', ''ORG_DIR'',
     ''DST_DIR'', ''LOG_DIR'', ''SER_MOVE_ADDR'', ''SER_CONF_ADDR'', ''SER_SYNC_ADDR'',
     ''CLT_MOVE_ADDR'', ''CLT_CONF_ADDR'', ''CLT_SYNC_ADDR'', ''GROUP_LIST'', ''SUB_LIST'']"

definition limit_options :: "string list" where
  "limit_options = [''GROUP_LIMIT'', ''CACHE_LIMIT'']"

datatype opt_value = Text string | Limit int

definition get_option :: "string \<Rightarrow> config \<Rightarrow> opt_value option" where
  "get_option n c =
    (if n = ''SERVER_ADDR'' then Some (Text (SERVER_ADDR c))
     else if n = ''CLIENT_ADDR'' then Some (Text (CLIENT_ADDR c))
     else if n = ''AFP_DIR'' then Some (Text (AFP_DIR c))
     else if n = ''DAT_DIR'' then Some (Text (DAT_DIR c))
     else if n = ''WRK_DIR'' then Some (Text (WRK_DIR c))
     else if n = ''ORG_DIR'' then Some (Text (ORG_DIR c))
     else if n = ''DST_DIR'' then Some (Text (DST_DIR c))
     else if n = ''LOG_DIR'' then Some (Text (LOG_DIR c))
     else if n = ''SER_MOVE_ADDR'' then Some (Text (SER_MOVE_ADDR c))
     else if n = ''SER_CONF_ADDR'' then Some (Text (SER_CONF_ADDR c))
     else if n = ''SER_SYNC_ADDR'' then Some (Text (SER_SYNC_ADDR c))
     else if n = ''CLT_MOVE_ADDR'' then Some (Text (CLT_MOVE_ADDR c))
     else if n = ''CLT_CONF_ADDR'' then Some (Text (CLT_CONF_ADDR c))
     else if n = ''CLT_SYNC_ADDR'' then Some (Text (CLT_SYNC_ADDR c))
     else if n = ''GROUP_LIST'' then Some (Text (GROUP_LIST c))
     else if n = ''SUB_LIST'' then Some (Text (SUB_LIST c))
     else if n = ''GROUP_LIMIT'' then Some (Limit (GROUP_LIMIT c))
     else if n = ''CACHE_LIMIT'' then Some (Limit (CACHE_LIMIT c))
     else None)"

definition opt_of_text :: "string \<Rightarrow> string \<Rightarrow> opt_value" where
  "opt_of_text n v = (if n \<in> set limit_options then Limit (to_u32 (atoi v)) else Text v)"

definition known_option :: "string \<Rightarrow> bool" where
  "known_option n \<longleftrightarrow> n \<in> set string_options \<or> n \<in> set limit_options"

lemma m_ref_known: "map_of m_ref n \<noteq> None \<longleftrightarrow> known_option n"
  by (auto simp: m_ref_def known_option_def string_options_def limit_options_def)

lemma dispath_unknown: "\<not> known_option n \<Longrightarrow> dispath n v c = c"
  using m_ref_known[of n] by (auto simp: dispath_def split: option.splits)

lemma dispath_get:
  assumes "known_option n"
  shows "get_option m (dispath n v c) = (if m = n then Some (opt_of_text n v) else get_option m c)"
proof -
  have "n \<in> set (string_options @ limit_options)"
    using assms by (simp add: known_option_def)
  then show ?thesis
    unfolding string_options_def limit_options_def
    by (simp only: append.simps list.set insert_iff empty_iff)
      (elim disjE; simp add: dispath_def m_ref_def store_tag_def tag_defs get_option_def
         opt_of_text_def limit_options_def)
qed


lemma config_eqI:
  assumes "\<And>n. known_option n \<Longrightarrow> get_option n c = get_option n d"
  shows "c = (d :: config)"
proof -
  have "\<forall>n \<in> set (string_options @ limit_options). get_option n c = get_option n d"
    using assms by (auto simp: known_option_def)
  then show ?thesis
    unfolding string_options_def limit_options_def by (simp add: get_option_def)
qed

subsection \<open>The pairs a file gives\<close>

text \<open>The words two by two, each up to its first NUL. A last word that stands alone is a name
  that gets the value of the pair before it, \<open>prev\<close>.\<close>

fun conf_pairs :: "string option \<Rightarrow> string list \<Rightarrow> (string \<times> string) list" where
  "conf_pairs prev [] = []"
| "conf_pairs prev [n] = (case prev of None \<Rightarrow> [] | Some v \<Rightarrow> [(cstr n, v)])"
| "conf_pairs prev (n # v # ts) = (cstr n, cstr v) # conf_pairs (Some (cstr v)) ts"

lemma scan_word_256: "scan_word 256 t = (if 256 \<le> length t then Inl BufferOverflow else Inr (cstr t))"
  by (simp add: scan_word_def sprintf_def)

lemma conf_loop_pairs:
  "conf_loop ts prev c =
    (if \<exists>t \<in> set ts. 256 \<le> length t then Inl BufferOverflow
     else if length ts = 1 \<and> prev = None then Inl Uninitialised
     else Inr (fold (\<lambda>(n, v). dispath n v) (conf_pairs prev ts) c))"
  by (induction ts prev c rule: conf_loop.induct)
    (auto simp: scan_word_256 MAX_NAME_LEN_def MAX_VAL_LEN_def split: option.splits)

text \<open>What the pairs leave in each option: the last value given for it.\<close>

lemma get_option_fold:
  "get_option m (fold (\<lambda>(n, v). dispath n v) ps c) =
     (case map_of (rev ps) m of
        Some v \<Rightarrow> if known_option m then Some (opt_of_text m v) else get_option m c
      | None \<Rightarrow> get_option m c)"
proof (induction ps arbitrary: c)
  case Nil
  then show ?case by simp
next
  case (Cons p ps)
  obtain n v where p: "p = (n, v)" by (cases p)
  show ?case
    using Cons.IH[of "dispath n v c"] dispath_get[of n m v c] dispath_unknown[of n v c]
    by (cases "known_option n") (auto simp: p map_add_def split: option.splits)
qed


text \<open>The options as the file \<open>conf\<close> of the repository lays them out, then a limit, a repeated
  option and a name without a value.\<close>

definition sample_conf :: string where
  "sample_conf = concat (map (\<lambda>l. l @ [newline])
    [''SERVER_ADDR     0.0.0.0:50059'', ''CLIENT_ADDR     10.101.72.165:50059'', ''AFP_DIR         afp'',
     ''DAT_DIR         runlog'', ''WRK_DIR         wrk'', ''ORG_DIR         org'', ''DST_DIR         dst'',
     ''LOG_DIR         log'', ''SER_MOVE_ADDR   0.0.0.0:51112'', ''SER_CONF_ADDR   0.0.0.0:51113'',
     ''SER_SYNC_ADDR   0.0.0.0:51114'', ''SUB_LIST'' @ [CHR 0x09, CHR 0x09] @ ''/home/sub_list'',
     ''GROUP_LIMIT 7'', ''AFP_DIR b'', ''X''])"

lemma sample_conf_tokens:
  "scan_tokens sample_conf =
    [''SERVER_ADDR'', ''0.0.0.0:50059'', ''CLIENT_ADDR'', ''10.101.72.165:50059'', ''AFP_DIR'', ''afp'',
     ''DAT_DIR'', ''runlog'', ''WRK_DIR'', ''wrk'', ''ORG_DIR'', ''org'', ''DST_DIR'', ''dst'',
     ''LOG_DIR'', ''log'', ''SER_MOVE_ADDR'', ''0.0.0.0:51112'', ''SER_CONF_ADDR'', ''0.0.0.0:51113'',
     ''SER_SYNC_ADDR'', ''0.0.0.0:51114'', ''SUB_LIST'', ''/home/sub_list'', ''GROUP_LIMIT'', ''7'',
     ''AFP_DIR'', ''b'', ''X'']"
  by code_simp


text \<open>Reading an unchanged file again changes nothing.\<close>

lemma fold_dispath_again:
  fixes ps :: "(string \<times> string) list"
  defines "d \<equiv> fold (\<lambda>(n, v). dispath n v) ps"
  shows "d (d c) = d c"
  by (rule config_eqI) (auto simp: d_def get_option_fold split: option.splits)

lemma routing_fn_stable:
  assumes "\<And>fs. fs \<in> set fss \<Longrightarrow> fopen_r fs CONF_NAME \<longrightarrow> load_conf (content fs CONF_NAME) c = Inr c"
    and "overflag i = 0"
  shows "routing_fn fss (i, c) = Inr (i, c)"
  using assms
  by (induction fss) (auto simp: routing_turn_def getOverflag_def)

end
