(* ===== verification/ProDealSelect.thy ===== *)
theory ProDealSelect
  imports ProDealCount AutoConf
begin

text \<open>
  The selection steps of \<open>src/prodeal.cc\<close>: \<open>CProDeal::fltLogFile\<close> keeps the counts of songs
  with the number of some fingerprint file, \<open>CProDeal::topAfpFile\<close> picks the most searched songs above a
  threshold (on a group server), \<open>CProDeal::botAfpFile\<close> the files never searched and then the
  least searched ones (on the main cache) and returns the count of the last song it took.
\<close>

section \<open>CProDeal::fltLogFile\<close>

definition fltLogFile :: "string \<Rightarrow> string \<Rightarrow> fsys \<Rightarrow> (int \<times> fsys) run" where
  "fltLogFile org dst fs =
    bnd (sprintf_path org afpNameFile) (\<lambda>afp.
      if \<not> fopen_r fs afp then Inr (-1, fs)
      else bnd (sprintf_path org logNumCount) (\<lambda>log.
        if \<not> fopen_r fs log then Inr (-1, fs)
        else bnd (sprintf_path dst fltLogsFile) (\<lambda>out.
          case fopen_w fs out of
            None \<Rightarrow> Inr (-1, fs)
          | Some fs1 \<Rightarrow>
              let flt = set (map (\<lambda>line. atoi (cstr line)) (fgets_lines (content fs1 afp)));
                  kept = filter (\<lambda>line. atoi (cstr line) \<in> flt) (fgets_lines (content fs1 log))
              in Inr (0, fwrite out (fputs_lines kept) fs1))))"

section \<open>CProDeal::topAfpFile\<close>

text \<open>
  The loop over the counts: \<open>count\<close> (\<open>taken\<close> here) is compared with the unsigned \<open>Config::GROUP_LIMIT\<close>, the
  line is split by two calls of \<open>strtok\<close>, \<open>atoi(val)\<close> faults when the second finds no token,
  and a song at or below the threshold \<open>cnt\<close> ends the loop. \<open>sprintf(line, "%s.afp\n", songid)\<close> reads \<open>songid\<close>
  inside the buffer it writes (\<open>prodeal.cc:285\<close>), which C leaves undefined; here, and at line 344 in
  \<open>bot_songs\<close>, it writes the text it is meant to, as a forward copy does.
\<close>

definition entry_fields :: "string \<Rightarrow> string option \<times> string option" where
  "entry_fields line =
    (let (songid, rest) = strtok (CHR ''|'') (cstr line); (val, _) = strtok (CHR ''|'') rest
     in (songid, val))"

fun top_loop :: "int \<Rightarrow> int \<Rightarrow> string list \<Rightarrow> int \<Rightarrow> string \<Rightarrow> (int \<times> string) run" where
  "top_loop limit cnt [] taken out = Inr (taken, out)"
| "top_loop limit cnt (line # lines) taken out =
     (if to_u32 taken \<ge> limit then Inr (taken, out)
      else case entry_fields line of
        (Some songid, Some val) \<Rightarrow>
          if atoi val \<le> cnt then Inr (taken, out)
          else bnd (sprintf MAX_LINE_LEN (songid @ ''.afp'' @ [newline])) (\<lambda>text.
                 top_loop limit cnt lines (wrap32 (taken + 1)) (out @ text))
      | _ \<Rightarrow> Inl NullDeref)"

definition topAfpFile :: "config \<Rightarrow> string \<Rightarrow> string \<Rightarrow> int \<Rightarrow> fsys \<Rightarrow> (int \<times> fsys) run" where
  "topAfpFile cfg org dst cnt fs =
    bnd (sprintf_path org fltLogsFile) (\<lambda>src.
      if \<not> fopen_r fs src then Inr (-1, fs)
      else bnd (sprintf_path dst topAfpsFile) (\<lambda>out.
        case fopen_w fs out of
          None \<Rightarrow> Inr (-1, fs)
        | Some fs1 \<Rightarrow>
            bnd (top_loop (GROUP_LIMIT cfg) cnt (fgets_lines (content fs1 src)) 0 [])
              (\<lambda>(taken, text). Inr (taken, fwrite out text fs1))))"

section \<open>CProDeal::botAfpFile\<close>

text \<open>First loop: names that are in no count, as they stand. Second loop: songs of the counts,
  written without a suffix; \<open>thr\<close> is the count of the last one.\<close>

fun bot_names :: "int \<Rightarrow> int set \<Rightarrow> string list \<Rightarrow> int \<Rightarrow> string \<Rightarrow> int \<times> string" where
  "bot_names limit flt [] taken out = (taken, out)"
| "bot_names limit flt (line # lines) taken out =
     (if to_u32 taken \<ge> limit then (taken, out)
      else if atoi (cstr line) \<in> flt then bot_names limit flt lines taken out
      else bot_names limit flt lines (wrap32 (taken + 1)) (out @ cstr line))"

fun bot_songs :: "int \<Rightarrow> string list \<Rightarrow> int \<Rightarrow> int \<Rightarrow> string \<Rightarrow> (int \<times> string) run" where
  "bot_songs limit [] taken thr out = Inr (thr, out)"
| "bot_songs limit (line # lines) taken thr out =
     (if to_u32 taken \<ge> limit then Inr (thr, out)
      else case entry_fields line of
        (Some songid, Some val) \<Rightarrow>
          bnd (sprintf MAX_LINE_LEN (songid @ [newline])) (\<lambda>text.
            bot_songs limit lines (wrap32 (taken + 1)) (atoi val) (out @ text))
      | _ \<Rightarrow> Inl NullDeref)"

definition botAfpFile :: "config \<Rightarrow> string \<Rightarrow> string \<Rightarrow> fsys \<Rightarrow> (int \<times> fsys) run" where
  "botAfpFile cfg org dst fs =
    bnd (sprintf_path org afpNameFile) (\<lambda>afp.
      if \<not> fopen_r fs afp then Inr (-1, fs)
      else bnd (sprintf_path org fltLogsFile) (\<lambda>src.
        if \<not> fopen_r fs src then Inr (-1, fs)
        else bnd (sprintf_path dst botAfpsFile) (\<lambda>out.
          case fopen_w fs out of
            None \<Rightarrow> Inr (-1, fs)
          | Some fs1 \<Rightarrow>
              let songs = fgets_lines (content fs1 src);
                  flt = set (map (\<lambda>line. atoi (cstr line)) songs);
                  (taken, text) =
                    bot_names (CACHE_LIMIT cfg) flt (fgets_lines (content fs1 afp)) 0 []
              in bnd (bot_songs (CACHE_LIMIT cfg) songs taken 0 text)
                   (\<lambda>(thr, text). Inr (thr, fwrite out text fs1)))))"

section \<open>Lines of counts and of names\<close>

text \<open>A count as \<open>cntSrhNums\<close> writes it for a song with a name the later steps can split.\<close>

definition is_entry :: "string \<times> int \<Rightarrow> bool" where
  "is_entry e \<longleftrightarrow> fst e \<noteq> [] \<and> CHR ''|'' \<notin> set (fst e) \<and> newline \<notin> set (fst e) \<and>
     nul_free (fst e) \<and> length (fst e) \<le> 1000 \<and> int32 (snd e)"

lemma int_str_not: "CHR ''|'' \<notin> set (int_str x)" "newline \<notin> set (int_str x)"
  using int_str_set[of "CHR ''|''" x] int_str_set[of newline x]
  by (auto simp: is_digit_def less_eq_char_def)

lemma int_str_nonempty [simp]: "int_str x \<noteq> []"
  by (simp add: int_str_def)

lemma entry_is_line: "is_entry e \<Longrightarrow> is_line (count_line e)"
proof -
  assume e: "is_entry e"
  then have "length (int_str (snd e)) \<le> 11" by (simp add: is_entry_def length_int_str)
  with e show ?thesis
    unfolding is_line_def
    by (intro conjI exI[of _ "fst e @ ''|'' @ int_str (snd e)"])
      (auto simp: is_entry_def count_line_def int_str_not nul_free_int_str MAX_LINE_LEN_def)
qed

lemma nul_free_count_line: "is_entry e \<Longrightarrow> nul_free (count_line e)"
  by (simp add: is_entry_def count_line_def nul_free_int_str)

lemma fgets_count_text:
  "(\<And>e. e \<in> set es \<Longrightarrow> is_entry e) \<Longrightarrow> fgets_lines (count_text es) = map count_line es"
  unfolding count_text_def by (rule fgets_lines_concat_lines) (auto dest: entry_is_line)

lemma entry_fields_count_line:
  assumes "is_entry e"
  shows "entry_fields (count_line e) = (Some (fst e), Some (int_str (snd e) @ [newline]))"
    and "atoi (int_str (snd e) @ [newline]) = snd e"
proof -
  have s1: "strtok (CHR ''|'') (count_line e) = (Some (fst e), int_str (snd e) @ [newline])"
    using assms strtok_first[of "CHR ''|''" "fst e"] by (simp add: is_entry_def count_line_def)
  have s2: "strtok (CHR ''|'') (int_str (snd e) @ [newline]) = (Some (int_str (snd e) @ [newline]), [])"
    by (rule strtok_last) (simp_all add: int_str_not)
  show "entry_fields (count_line e) = (Some (fst e), Some (int_str (snd e) @ [newline]))"
    using nul_free_count_line[OF assms] by (simp add: entry_fields_def s1 s2)
  show "atoi (int_str (snd e) @ [newline]) = snd e"
    using assms by (intro atoi_int_str) (auto simp: is_entry_def is_digit_def less_eq_char_def)
qed

text \<open>\<open>atoi\<close> on a line looks at its leading number only.\<close>

lemma takeWhile_digit_stop: "\<not> is_digit c \<Longrightarrow> takeWhile is_digit (s @ c # r) = takeWhile is_digit s"
  by (induction s) auto

lemma atoi_stop:
  assumes "\<not> is_digit c" and "c \<noteq> CHR ''-''" and "c \<noteq> CHR ''+''" and "\<not> isspace c \<or> r = []"
  shows "atoi (s @ c # r) = atoi s"
proof -
  have "strtol10 (s @ c # r) = strtol10 s"
  proof (cases "dropWhile isspace s")
    case Nil
    then have "dropWhile isspace (s @ c # r) = dropWhile isspace (c # r)" by (simp add: dropWhile_append)
    with Nil assms show ?thesis
      by (cases "isspace c")
        (simp_all add: strtol10_def digits_val_def clamp64_def del: dropWhile_eq_Nil_conv)
  next
    case (Cons d t)
    then have "\<not> (\<forall>x \<in> set s. isspace x)" by (metis dropWhile_eq_Nil_conv list.distinct(1))
    with Cons have "dropWhile isspace (s @ c # r) = (d # t) @ c # r" by (simp only: dropWhile_append if_False)
    with Cons assms(1) show ?thesis
      by (simp add: strtol10_def takeWhile_digit_stop takeWhile_digit_stop[of c "d # t" r, simplified])
  qed
  then show ?thesis by (simp add: atoi_def)
qed

lemma atoi_count_line: "is_entry e \<Longrightarrow> atoi (cstr (count_line e)) = atoi (fst e)"
  using nul_free_count_line[of e]
  by (simp add: count_line_def atoi_stop is_digit_def isspace_def less_eq_char_def)

definition name_ok :: "string \<Rightarrow> bool" where
  "name_ok n \<longleftrightarrow> nul_free n \<and> newline \<notin> set n \<and> length n \<le> 255"

lemma fgets_name_lines:
  "(\<And>n. n \<in> set ns \<Longrightarrow> name_ok n) \<Longrightarrow> fgets_lines (name_lines ns) = map (\<lambda>n. n @ [newline]) ns"
  unfolding name_lines_def
  by (rule fgets_lines_concat_lines) (fastforce simp: is_line_def name_ok_def MAX_LINE_LEN_def)

lemma atoi_name_line: "name_ok n \<Longrightarrow> atoi (cstr (n @ [newline])) = atoi n"
  by (simp add: name_ok_def atoi_stop is_digit_def less_eq_char_def)


section \<open>Filtering\<close>

lemma work_file_slash [simp]:
  "CHR ''/'' \<notin> set afpNameFile" "CHR ''/'' \<notin> set logNumCount" "CHR ''/'' \<notin> set fltLogsFile"
  "CHR ''/'' \<notin> set topAfpsFile" "CHR ''/'' \<notin> set botAfpsFile"
  by (simp_all add: valid_nameD)

text \<open>A directory for work files: paths into it fit their buffers.\<close>

definition work_dir :: "string \<Rightarrow> bool" where
  "work_dir d \<longleftrightarrow> length d < 240"

lemma work_dir_fits [simp]:
  assumes "work_dir d"
  shows "fits_path d afpNameFile" "fits_path d logNumCount" "fits_path d fltLogsFile"
    "fits_path d topAfpsFile" "fits_path d botAfpsFile"
  using assms by (simp_all add: work_dir_def fits_path_def MAX_NAME_LEN_def)

lemma fputs_count_lines:
  "(\<And>e. e \<in> set es \<Longrightarrow> is_entry e) \<Longrightarrow> fputs_lines (map count_line es) = count_text es"
  by (induction es) (auto simp: count_text_def nul_free_count_line)

lemma fltLogFile_filters_run:
  assumes "work_dir org" and "work_dir dst"
    and "can_read fs org afpNameFile" and "can_read fs org logNumCount"
    and "can_write fs dst fltLogsFile"
    and "data_of fs org afpNameFile = name_lines ns" and "\<forall>n \<in> set ns. name_ok n"
    and "data_of fs org logNumCount = count_text es" and "\<forall>e \<in> set es. is_entry e"
  shows "\<exists>fs'. fltLogFile org dst fs = Inr (0, fs') \<and>
    wrote dst fltLogsFile (count_text (filter (\<lambda>e. atoi (fst e) \<in> atoi ` set ns) es)) fs fs'"
proof -
  obtain fs1 where op: "fopen_w fs (path_of dst fltLogsFile) = Some fs1"
    and w1: "wrote dst fltLogsFile [] fs fs1"
    and w: "\<And>s. wrote dst fltLogsFile s fs (fwrite (path_of dst fltLogsFile) s fs1)"
    using write_file[OF work_file_slash(3) assms(5)] by metis
  have data: "data_of fs1 org afpNameFile = name_lines ns" "data_of fs1 org logNumCount = count_text es"
    using wrote_other[OF w1] assms(6,8) by simp_all
  let ?flt = "set (map (\<lambda>line. atoi (cstr line)) (fgets_lines (name_lines ns)))"
  have flt: "?flt = atoi ` set ns"
    using assms(7) by (simp add: fgets_name_lines atoi_name_line image_image cong: image_cong)
  have "filter (\<lambda>line. atoi (cstr line) \<in> ?flt) (fgets_lines (count_text es)) =
      map count_line (filter (\<lambda>e. atoi (fst e) \<in> atoi ` set ns) es)"
    unfolding flt using assms(9)
    by (simp add: fgets_count_text filter_map comp_def atoi_count_line cong: filter_cong)
  then have "fltLogFile org dst fs = Inr (0, fwrite (path_of dst fltLogsFile)
      (count_text (filter (\<lambda>e. atoi (fst e) \<in> atoi ` set ns) es)) fs1)"
    using assms(1-4) op
      fputs_count_lines[of "filter (\<lambda>e. atoi (fst e) \<in> atoi ` set ns) es"] assms(9)
    by (simp add: fltLogFile_def fopen_r_path content_path data)
  with w show ?thesis by blast
qed

text \<open>C20: \<open>fltLogFile\<close> writes, in their order, exactly the counts of the songs whose number is
  the number of some fingerprint file of the listing; it returns 0 and changes nothing else.\<close>

theorem fltLogFile_filters:
  assumes "work_dir org" and "work_dir dst"
    and "can_read fs org afpNameFile" and "can_read fs org logNumCount"
    and "can_write fs dst fltLogsFile"
    and "data_of fs org afpNameFile = name_lines ns" and "\<forall>n \<in> set ns. name_ok n"
    and "data_of fs org logNumCount = count_text es" and "\<forall>e \<in> set es. is_entry e"
  shows "\<exists>fs'. fltLogFile org dst fs = Inr (0, fs') \<and>
    wrote dst fltLogsFile (count_text (filter (\<lambda>e. atoi (fst e) \<in> atoi ` set ns) es)) fs fs'"
  by (rule fltLogFile_filters_run[OF assms])

section \<open>The top songs\<close>

definition afp_line :: "string \<times> int \<Rightarrow> string" where
  "afp_line e = fst e @ ''.afp'' @ [newline]"

lemma top_loop_selects:
  assumes "\<And>e. e \<in> set es \<Longrightarrow> is_entry e" and "0 \<le> taken" and "taken + int (length es) < 2 ^ 31"
    and "0 \<le> limit"
  shows "top_loop limit cnt (map count_line es) taken out =
    (let sel = takeWhile (\<lambda>e. cnt < snd e) (take (nat (limit - taken)) es)
     in Inr (taken + int (length sel), out @ concat (map afp_line sel)))"
  using assms
proof (induction es arbitrary: taken out)
  case Nil
  then show ?case by simp
next
  case (Cons e es)
  have e: "is_entry e" using Cons.prems(1) by simp
  have u: "to_u32 taken = taken" using Cons.prems(2,3) by (intro to_u32_id) simp_all
  have w: "wrap32 (taken + 1) = taken + 1" using Cons.prems(2,3) by (intro wrap32_id) (simp add: int32_def)
  show ?case
  proof (cases "limit \<le> taken")
    case True
    then show ?thesis by (simp add: u)
  next
    case below: False
    then have "nat (limit - taken) = Suc (nat (limit - (taken + 1)))" by simp
    then have take: "take (nat (limit - taken)) (e # es) = e # take (nat (limit - (taken + 1))) es"
      by (simp only: take_Suc_Cons)
    show ?thesis
    proof (cases "snd e \<le> cnt")
      case True
      with below show ?thesis
        unfolding take by (simp add: u entry_fields_count_line[OF e])
    next
      case False
      have "length (fst e @ ''.afp'' @ [newline]) < MAX_LINE_LEN"
        using e by (simp add: is_entry_def MAX_LINE_LEN_def)
      with below False Cons.IH[of "taken + 1"] Cons.prems show ?thesis
        unfolding take by (simp add: u w entry_fields_count_line[OF e] afp_line_def Let_def)
    qed
  qed
qed

lemma topAfpFile_selects_run:
  assumes "work_dir org" and "work_dir dst"
    and "can_read fs org fltLogsFile" and "can_write fs dst topAfpsFile"
    and "data_of fs org fltLogsFile = count_text es" and "\<forall>e \<in> set es. is_entry e"
    and "length es < 2 ^ 31" and "0 \<le> GROUP_LIMIT cfg"
    and "sel = takeWhile (\<lambda>e. cnt < snd e) (take (nat (GROUP_LIMIT cfg)) es)"
  shows "\<exists>fs'. topAfpFile cfg org dst cnt fs = Inr (int (length sel), fs') \<and>
    wrote dst topAfpsFile (concat (map afp_line sel)) fs fs'"
proof -
  obtain fs1 where op: "fopen_w fs (path_of dst topAfpsFile) = Some fs1"
    and w1: "wrote dst topAfpsFile [] fs fs1"
    and w: "\<And>s. wrote dst topAfpsFile s fs (fwrite (path_of dst topAfpsFile) s fs1)"
    using write_file[OF work_file_slash(4) assms(4)] by metis
  have data: "data_of fs1 org fltLogsFile = count_text es"
    using wrote_other[OF w1] assms(5) by simp
  have lines: "fgets_lines (count_text es) = map count_line es"
    using assms(6) by (simp add: fgets_count_text)
  have "top_loop (GROUP_LIMIT cfg) cnt (map count_line es) 0 [] =
      Inr (int (length sel), concat (map afp_line sel))"
    using top_loop_selects[of es 0 "GROUP_LIMIT cfg" cnt "[]"] assms(6-9) by (simp add: Let_def)
  then have "topAfpFile cfg org dst cnt fs =
      Inr (int (length sel), fwrite (path_of dst topAfpsFile) (concat (map afp_line sel)) fs1)"
    using assms(1-3) op by (simp add: topAfpFile_def fopen_r_path content_path data lines)
  with w show ?thesis by blast
qed

text \<open>C18: \<open>topAfpFile\<close> takes from the front of the filtered counts at most \<open>GROUP_LIMIT\<close> songs,
  stopping at the first one searched no more often than the threshold; it writes their file
  names with the suffix \<open>.afp\<close>, one per line, and returns how many it took.\<close>

theorem topAfpFile_selects:
  assumes "work_dir org" and "work_dir dst"
    and "can_read fs org fltLogsFile" and "can_write fs dst topAfpsFile"
    and "data_of fs org fltLogsFile = count_text es" and "\<forall>e \<in> set es. is_entry e"
    and "length es < 2 ^ 31" and "0 \<le> GROUP_LIMIT cfg"
    and "sel = takeWhile (\<lambda>e. cnt < snd e) (take (nat (GROUP_LIMIT cfg)) es)"
  shows "\<exists>fs'. topAfpFile cfg org dst cnt fs = Inr (int (length sel), fs') \<and>
    wrote dst topAfpsFile (concat (map afp_line sel)) fs fs'"
  by (rule topAfpFile_selects_run[OF assms])

text \<open>A count whose song name is empty, which \<open>cntSrhNums\<close> writes for a log line such as
  \<open>$$||\<close>, makes \<open>topAfpFile\<close> fault: the second \<open>strtok\<close> finds no token and \<open>atoi\<close> gets a null
  pointer.\<close>

theorem topAfpFile_empty_song_faults:
  assumes "work_dir org" and "work_dir dst"
    and "can_read fs org fltLogsFile" and "can_write fs dst topAfpsFile"
    and "data_of fs org fltLogsFile = count_text (([], k) # es)" and "int32 k"
    and "0 < GROUP_LIMIT cfg"
  shows "log_sid ''$$||'' = Some [] \<and> topAfpFile cfg org dst cnt fs = Inl NullDeref"
proof -
  have sid: "log_sid ''$$||'' = Some []" by (simp add: log_sid_def cstr_def)
  obtain fs1 where op: "fopen_w fs (path_of dst topAfpsFile) = Some fs1"
    and w1: "wrote dst topAfpsFile [] fs fs1"
    using write_file[OF work_file_slash(4) assms(4)] by metis
  have "is_line (count_line ([], k))"
    using length_int_str[OF assms(6)] unfolding is_line_def
    by (intro conjI exI[of _ "''|'' @ int_str k"])
      (auto simp: count_line_def int_str_not nul_free_int_str MAX_LINE_LEN_def)
  then have lines: "fgets_lines (data_of fs1 org fltLogsFile) =
      count_line ([], k) # fgets_lines (count_text es)"
    using wrote_other[OF w1] assms(5) by (simp add: count_text_def fgets_lines_Cons)
  have "strtok (CHR ''|'') (CHR ''|'' # int_str k @ [newline]) = (Some (int_str k @ [newline]), [])"
    using strtok_last[of "CHR ''|''" "int_str k @ [newline]"]
    by (simp add: strtok_def int_str_not)
  then have "entry_fields (count_line ([], k)) = (Some (int_str k @ [newline]), None)"
    by (simp add: entry_fields_def count_line_def nul_free_int_str strtok_def)
  then have "top_loop (GROUP_LIMIT cfg) cnt
      (fgets_lines (content fs1 (path_of org fltLogsFile))) 0 [] = Inl NullDeref"
    using assms(7) by (simp add: content_path lines to_u32_def)
  then show ?thesis using assms(1-3) op sid by (simp add: topAfpFile_def fopen_r_path)
qed


section \<open>The files never or least searched\<close>

lemma bot_names_selects:
  assumes "\<And>n. n \<in> set ns \<Longrightarrow> name_ok n" and "0 \<le> taken" and "taken + int (length ns) < 2 ^ 31"
    and "0 \<le> limit"
  shows "bot_names limit flt (map (\<lambda>n. n @ [newline]) ns) taken out =
    (let sel = take (nat (limit - taken)) (filter (\<lambda>n. atoi n \<notin> flt) ns)
     in (taken + int (length sel), out @ name_lines sel))"
  using assms
proof (induction ns arbitrary: taken out)
  case Nil
  then show ?case by (simp add: name_lines_def)
next
  case (Cons n ns)
  have n: "name_ok n" using Cons.prems(1) by simp
  then have nn: "cstr (n @ [newline]) = n @ [newline]" by (simp add: name_ok_def)
  have an: "atoi (n @ [newline]) = atoi n" using atoi_name_line[OF n] nn by simp
  have u: "to_u32 taken = taken" using Cons.prems(2,3) by (intro to_u32_id) simp_all
  have w: "wrap32 (taken + 1) = taken + 1" using Cons.prems(2,3) by (intro wrap32_id) (simp add: int32_def)
  show ?case
  proof (cases "limit \<le> taken")
    case True
    then show ?thesis by (simp add: u name_lines_def)
  next
    case below: False
    then have "nat (limit - taken) = Suc (nat (limit - (taken + 1)))" by simp
    then have take: "take (nat (limit - taken)) (n # ms) = n # take (nat (limit - (taken + 1))) ms" for ms
      by (simp only: take_Suc_Cons)
    show ?thesis
      using below Cons.IH[of taken out] Cons.IH[of "taken + 1" "out @ n @ [newline]"] Cons.prems
      by (cases "atoi n \<in> flt")
        (simp_all add: u w nn an take name_lines_def Let_def del: take_Cons' cstr_nul_free)
  qed
qed

definition song_line :: "string \<times> int \<Rightarrow> string" where
  "song_line e = fst e @ [newline]"

lemma bot_songs_selects:
  assumes "\<And>e. e \<in> set es \<Longrightarrow> is_entry e" and "0 \<le> taken" and "taken + int (length es) < 2 ^ 31"
    and "0 \<le> limit"
  shows "bot_songs limit (map count_line es) taken thr out =
    (let sel = take (nat (limit - taken)) es
     in Inr (if sel = [] then thr else snd (last sel), out @ concat (map song_line sel)))"
  using assms
proof (induction es arbitrary: taken thr out)
  case Nil
  then show ?case by simp
next
  case (Cons e es)
  have e: "is_entry e" using Cons.prems(1) by simp
  have u: "to_u32 taken = taken" using Cons.prems(2,3) by (intro to_u32_id) simp_all
  have w: "wrap32 (taken + 1) = taken + 1" using Cons.prems(2,3) by (intro wrap32_id) (simp add: int32_def)
  show ?case
  proof (cases "limit \<le> taken")
    case True
    then show ?thesis by (simp add: u)
  next
    case below: False
    then have "nat (limit - taken) = Suc (nat (limit - (taken + 1)))" by simp
    then have take: "take (nat (limit - taken)) (e # es) = e # take (nat (limit - (taken + 1))) es"
      by (simp only: take_Suc_Cons)
    have "length (fst e @ [newline]) < MAX_LINE_LEN"
      using e by (simp add: is_entry_def MAX_LINE_LEN_def)
    with below Cons.IH[of "taken + 1"] Cons.prems show ?thesis
      unfolding take by (simp add: u w entry_fields_count_line[OF e] song_line_def Let_def)
  qed
qed

lemma botAfpFile_selects_run:
  assumes "work_dir org" and "work_dir dst"
    and "can_read fs org afpNameFile" and "can_read fs org fltLogsFile"
    and "can_write fs dst botAfpsFile"
    and "data_of fs org afpNameFile = name_lines ns" and "\<forall>n \<in> set ns. name_ok n"
    and "data_of fs org fltLogsFile = count_text es" and "\<forall>e \<in> set es. is_entry e"
    and "length ns + length es < 2 ^ 31" and "0 \<le> CACHE_LIMIT cfg"
    and "unsearched = take (nat (CACHE_LIMIT cfg)) (filter (\<lambda>n. atoi n \<notin> (\<lambda>e. atoi (fst e)) ` set es) ns)"
    and "searched = take (nat (CACHE_LIMIT cfg) - length unsearched) es"
  shows "\<exists>fs'. botAfpFile cfg org dst fs =
      Inr (if searched = [] then 0 else snd (last searched), fs') \<and>
    wrote dst botAfpsFile (name_lines unsearched @ concat (map song_line searched)) fs fs'"
proof -
  obtain fs1 where op: "fopen_w fs (path_of dst botAfpsFile) = Some fs1"
    and w1: "wrote dst botAfpsFile [] fs fs1"
    and w: "\<And>s. wrote dst botAfpsFile s fs (fwrite (path_of dst botAfpsFile) s fs1)"
    using write_file[OF work_file_slash(5) assms(5)] by metis
  have data: "data_of fs1 org afpNameFile = name_lines ns" "data_of fs1 org fltLogsFile = count_text es"
    using wrote_other[OF w1] assms(6,8) by simp_all
  have lines: "fgets_lines (count_text es) = map count_line es"
    "fgets_lines (name_lines ns) = map (\<lambda>n. n @ [newline]) ns"
    using assms(7,9) by (simp_all add: fgets_count_text fgets_name_lines)
  have flt: "(\<lambda>x. atoi (cstr (count_line x))) ` set es = (\<lambda>e. atoi (fst e)) ` set es"
    using assms(9) by (intro image_cong) (auto simp: atoi_count_line)
  let ?lim = "CACHE_LIMIT cfg"
  have names: "bot_names ?lim ((\<lambda>e. atoi (fst e)) ` set es) (map (\<lambda>n. n @ [newline]) ns) 0 [] =
      (int (length unsearched), name_lines unsearched)"
    using bot_names_selects[of ns 0 ?lim "(\<lambda>e. atoi (fst e)) ` set es" "[]"] assms(7,10,11)
    by (simp add: assms(12) Let_def)
  have "length unsearched \<le> length ns"
    unfolding assms(12) by (metis length_filter_le le_trans length_take min.cobounded1 min.commute)
  moreover have "nat (?lim - int (length unsearched)) = nat ?lim - length unsearched" by simp
  ultimately have songs: "bot_songs ?lim (map count_line es) (int (length unsearched)) 0 (name_lines unsearched) =
      Inr (if searched = [] then 0 else snd (last searched),
        name_lines unsearched @ concat (map song_line searched))"
    using bot_songs_selects[of es "int (length unsearched)" ?lim 0 "name_lines unsearched"] assms(9,10,11)
    by (simp add: assms(13) Let_def)
  have "botAfpFile cfg org dst fs = Inr (if searched = [] then 0 else snd (last searched),
      fwrite (path_of dst botAfpsFile) (name_lines unsearched @ concat (map song_line searched)) fs1)"
    using assms(1-4) op
    by (simp add: botAfpFile_def fopen_r_path content_path data lines image_image flt names songs)
  with w show ?thesis by blast
qed

text \<open>\<open>botAfpFile\<close> writes first the fingerprint files whose number is in no count, as they
  are listed, then songs from the front of the filtered counts, \<open>CACHE_LIMIT\<close> lines at most in
  all; it returns the count of the last song taken, or 0 when no song was taken.\<close>

theorem botAfpFile_selects:
  assumes "work_dir org" and "work_dir dst"
    and "can_read fs org afpNameFile" and "can_read fs org fltLogsFile"
    and "can_write fs dst botAfpsFile"
    and "data_of fs org afpNameFile = name_lines ns" and "\<forall>n \<in> set ns. name_ok n"
    and "data_of fs org fltLogsFile = count_text es" and "\<forall>e \<in> set es. is_entry e"
    and "length ns + length es < 2 ^ 31" and "0 \<le> CACHE_LIMIT cfg"
    and "unsearched = take (nat (CACHE_LIMIT cfg)) (filter (\<lambda>n. atoi n \<notin> (\<lambda>e. atoi (fst e)) ` set es) ns)"
    and "searched = take (nat (CACHE_LIMIT cfg) - length unsearched) es"
  shows "\<exists>fs'. botAfpFile cfg org dst fs =
      Inr (if searched = [] then 0 else snd (last searched), fs') \<and>
    wrote dst botAfpsFile (name_lines unsearched @ concat (map song_line searched)) fs fs'"
  by (rule botAfpFile_selects_run[OF assms])


section \<open>Concrete runs\<close>

definition sample_wrk :: fsys where
  "sample_wrk = [''wrk'' \<mapsto> plain_dir
     [(afpNameFile, name_lines [''7.afp'', ''8.afp'']),
      (logNumCount, count_text [(''7'', 4), (''9'', 3)]),
      (fltLogsFile, count_text [(''7'', 4), (''9'', 3), (''6'', 1)])]]"

lemma sample_wrk_access:
  "can_read sample_wrk ''wrk'' afpNameFile" "can_read sample_wrk ''wrk'' logNumCount"
  "can_read sample_wrk ''wrk'' fltLogsFile"
  "data_of sample_wrk ''wrk'' afpNameFile = name_lines [''7.afp'', ''8.afp'']"
  "data_of sample_wrk ''wrk'' logNumCount = count_text [(''7'', 4), (''9'', 3)]"
  "data_of sample_wrk ''wrk'' fltLogsFile = count_text [(''7'', 4), (''9'', 3), (''6'', 1)]"
  "can_write sample_wrk ''wrk'' fltLogsFile" "can_write sample_wrk ''wrk'' topAfpsFile"
  "can_write sample_wrk ''wrk'' botAfpsFile" "work_dir ''wrk''"
  by (simp_all add: sample_wrk_def fs_eval fs_eval_defs work_dir_def work_file_defs)

lemma sample_atoi:
  "atoi ''6'' = 6" "atoi ''7'' = 7" "atoi ''9'' = 9" "atoi ''7.afp'' = 7" "atoi ''8.afp'' = 8"
  by code_simp+

lemma sample_shapes:
  "name_ok ''7.afp''" "name_ok ''8.afp''" "is_entry (''6'', 1)" "is_entry (''7'', 4)" "is_entry (''9'', 3)"
  by (simp_all add: name_ok_def is_entry_def int32_def)

theorem fltLogFile_filters_witness:
  "\<exists>fs'. fltLogFile ''wrk'' ''wrk'' sample_wrk = Inr (0, fs') \<and>
    data_of fs' ''wrk'' fltLogsFile = count_text [(''7'', 4)]"
  using fltLogFile_filters[of "''wrk''" "''wrk''" sample_wrk "[''7.afp'', ''8.afp'']"
      "[(''7'', 4), (''9'', 3)]"]
  by (auto simp: sample_wrk_access sample_shapes sample_atoi dest!: wrote_data)

theorem topAfpFile_selects_witness:
  "\<exists>fs'. topAfpFile (config_init\<lparr>GROUP_LIMIT := 5\<rparr>) ''wrk'' ''wrk'' 2 sample_wrk = Inr (2, fs') \<and>
    data_of fs' ''wrk'' topAfpsFile = name_lines [''7.afp'', ''9.afp'']"
  using topAfpFile_selects[of "''wrk''" "''wrk''" sample_wrk "[(''7'', 4), (''9'', 3), (''6'', 1)]"
      "config_init\<lparr>GROUP_LIMIT := 5\<rparr>" "[(''7'', 4), (''9'', 3)]" 2]
  by (auto simp: sample_wrk_access sample_shapes afp_line_def name_lines_def dest!: wrote_data)

theorem topAfpFile_empty_song_faults_witness:
  "topAfpFile config_init ''wrk'' ''wrk'' 0
     [''wrk'' \<mapsto> plain_dir [(fltLogsFile, count_text [([], 2), (''7'', 1)])]] = Inl NullDeref"
proof -
  let ?fs = "[''wrk'' \<mapsto> plain_dir [(fltLogsFile, count_text [([], 2), (''7'', 1)])]]"
  have "work_dir ''wrk''" by (rule sample_wrk_access)
  moreover have "can_read ?fs ''wrk'' fltLogsFile" and "can_write ?fs ''wrk'' topAfpsFile"
    and "data_of ?fs ''wrk'' fltLogsFile = count_text [([], 2), (''7'', 1)]"
    and "int32 2" and "0 < GROUP_LIMIT config_init"
    by (simp_all add: fs_eval fs_eval_defs int32_def config_init_def work_file_defs)
  ultimately show ?thesis using topAfpFile_empty_song_faults by blast
qed

theorem botAfpFile_selects_witness:
  "\<exists>fs'. botAfpFile (config_init\<lparr>CACHE_LIMIT := 3\<rparr>) ''wrk'' ''wrk'' sample_wrk = Inr (3, fs') \<and>
    data_of fs' ''wrk'' botAfpsFile = name_lines [''8.afp'', ''7'', ''9'']"
  using botAfpFile_selects[of "''wrk''" "''wrk''" sample_wrk "[''7.afp'', ''8.afp'']"
      "[(''7'', 4), (''9'', 3), (''6'', 1)]" "config_init\<lparr>CACHE_LIMIT := 3\<rparr>" "[''8.afp'']"
      "[(''7'', 4), (''9'', 3)]"]
  by (auto simp: sample_wrk_access sample_shapes sample_atoi song_line_def name_lines_def
      dest!: wrote_data)

end
