(* ===== verification/ProDealMove.thy ===== *)
theory ProDealMove
  imports ProDealSelect
begin

text \<open>
  The moving steps of \<open>src/prodeal.cc\<close>: \<open>CProDeal::movAfpFile\<close> (group server) and
  \<open>CProDeal::movCntFile\<close> (main cache) empty the transfer directory and rename into it the
  fingerprint files that the selection step listed, all of them or the \<open>cnt\<close> from position
  \<open>pos\<close> on. The results of \<open>remove\<close> and \<open>rename\<close> are ignored.
\<close>

section \<open>The two steps\<close>

definition clear_entry :: "string \<Rightarrow> string \<Rightarrow> fsys \<Rightarrow> fsys run" where
  "clear_entry dst n fs =
    bnd (sprintf_path dst n) (\<lambda>name. Inr (ignoring (remove fs name) fs))"

text \<open>\<open>int len = strlen(line); line[len-1] = 0;\<close>\<close>

definition chop_line :: "string \<Rightarrow> string run" where
  "chop_line line = (if cstr line = [] then Inl OutOfBounds else Inr (butlast (cstr line)))"

definition move_line :: "string \<Rightarrow> string \<Rightarrow> string \<Rightarrow> fsys \<Rightarrow> fsys run" where
  "move_line org dst line fs =
    bnd (chop_line line) (\<lambda>name.
      bnd (sprintf_path org name) (\<lambda>oname.
        bnd (sprintf_path dst name) (\<lambda>dname. Inr (ignoring (rename fs oname dname) fs))))"

definition movAfpFile :: "string \<Rightarrow> string \<Rightarrow> string \<Rightarrow> fsys \<Rightarrow> (int \<times> fsys) run" where
  "movAfpFile org dst wrk fs =
    (case opendir fs dst of
       None \<Rightarrow> Inr (-1, fs)
     | Some names \<Rightarrow>
         bnd (each_entry (clear_entry dst) names fs) (\<lambda>fs1.
           bnd (sprintf_path wrk topAfpsFile) (\<lambda>src.
             if \<not> fopen_r fs1 src then Inr (-1, fs1)
             else bnd (for_each (move_line org dst) (fgets_lines (content fs1 src)) fs1)
                    (\<lambda>fs2. Inr (0, fs2)))))"

fun cnt_loop :: "string \<Rightarrow> string \<Rightarrow> int \<Rightarrow> int \<Rightarrow> string list \<Rightarrow> int \<Rightarrow> fsys \<Rightarrow> fsys run" where
  "cnt_loop org dst pos cnt [] i fs = Inr fs"
| "cnt_loop org dst pos cnt (line # lines) i fs =
     (if i < pos then cnt_loop org dst pos cnt lines (wrap32 (i + 1)) fs
      else if i \<ge> wrap32 (pos + cnt) then Inr fs
      else bnd (move_line org dst line fs) (cnt_loop org dst pos cnt lines (wrap32 (i + 1))))"

definition movCntFile :: "string \<Rightarrow> string \<Rightarrow> string \<Rightarrow> int \<Rightarrow> int \<Rightarrow> fsys \<Rightarrow> (int \<times> fsys) run" where
  "movCntFile org dst wrk pos cnt fs =
    (case opendir fs dst of
       None \<Rightarrow> Inr (-1, fs)
     | Some names \<Rightarrow>
         bnd (each_entry (clear_entry dst) names fs) (\<lambda>fs1.
           bnd (sprintf_path wrk botAfpsFile) (\<lambda>src.
             if \<not> fopen_r fs1 src then Inr (-1, fs1)
             else bnd (cnt_loop org dst pos cnt (fgets_lines (content fs1 src)) 0 fs1)
                    (\<lambda>fs2. Inr (0, fs2)))))"

section \<open>Emptying a directory and moving files into it\<close>

lemma clear_fold:
  assumes "writable_dir fs dst" and "\<And>n. n \<in> set ns \<Longrightarrow> valid_name n \<and> fits_path dst n"
  shows "for_each (clear_entry dst) ns fs = Inr (fold (del_in dst) ns fs)"
  using assms
  by (induction ns arbitrary: fs) (auto simp: clear_entry_def remove_path_del valid_nameD)

text \<open>The directory \<open>dst\<close> emptied.\<close>

definition emptied :: "string \<Rightarrow> fsys \<Rightarrow> fsys" where
  "emptied dst fs = fold (del_in dst) (names_of fs dst) fs"

lemma file_of_emptied: "file_of (emptied dst fs) d n = (if d = dst then None else file_of fs d n)"
  using names_of_file[of n fs dst] by (auto simp: emptied_def files.look_fold_del)

lemma emptied_dirs [simp]:
  "writable_dir (emptied dst fs) = writable_dir fs" "readable_dir (emptied dst fs) = readable_dir fs"
  "d \<noteq> dst \<Longrightarrow> emptied dst fs d = fs d"
  by (simp_all add: emptied_def fold_del_in_other)

lemma emptied_access:
  assumes "d \<noteq> dst"
  shows "can_read (emptied dst fs) d n = can_read fs d n"
    and "data_of (emptied dst fs) d n = data_of fs d n"
  using assms by (simp_all add: can_read_def data_of_def file_of_emptied)

lemma clear_loop:
  assumes "wf_fs fs" and "readable_dir fs dst" and "writable_dir fs dst"
    and "\<forall>n. file_of fs dst n \<noteq> None \<longrightarrow> fits_path dst n"
  shows "opendir fs dst = Some (''.'' # ''..'' # names_of fs dst)"
    and "each_entry (clear_entry dst) (''.'' # ''..'' # names_of fs dst) fs = Inr (emptied dst fs)"
  using assms
  by (auto simp: opendir_names each_entry_names emptied_def names_of_file dest: file_of_valid
      intro!: clear_fold)

text \<open>Moving the listed names, as a fold over the store operations.\<close>

definition move_name :: "string \<Rightarrow> string \<Rightarrow> string \<Rightarrow> fsys \<Rightarrow> fsys" where
  "move_name org dst n fs =
    (case file_of fs org n of None \<Rightarrow> fs | Some f \<Rightarrow> put_in dst n f (del_in org n fs))"

lemma chop_name: "name_ok n \<Longrightarrow> chop_line (n @ [newline]) = Inr n"
  by (simp add: chop_line_def name_ok_def)

lemma move_line_name:
  assumes "name_ok n" and "valid_name n" and "org \<noteq> dst"
    and "writable_dir fs org" and "writable_dir fs dst" and "fits_path org n" and "fits_path dst n"
  shows "move_line org dst (n @ [newline]) fs = Inr (move_name org dst n fs)"
  using assms by (simp add: move_line_def chop_name rename_path move_name_def)

lemma move_name_dirs [simp]:
  "writable_dir (move_name org dst n fs) = writable_dir fs"
  "readable_dir (move_name org dst n fs) = readable_dir fs"
  by (auto simp: move_name_def split: option.split)

definition movable :: "string \<Rightarrow> string \<Rightarrow> string \<Rightarrow> bool" where
  "movable org dst n \<longleftrightarrow> name_ok n \<and> valid_name n \<and> fits_path org n \<and> fits_path dst n"

lemma move_lines:
  assumes "org \<noteq> dst" and "writable_dir fs org" and "writable_dir fs dst"
    and "\<And>n. n \<in> set ns \<Longrightarrow> movable org dst n"
  shows "for_each (move_line org dst) (map (\<lambda>n. n @ [newline]) ns) fs =
    Inr (fold (move_name org dst) ns fs)"
  using assms
  by (induction ns arbitrary: fs) (auto simp: move_line_name movable_def)

text \<open>Where the files are after the moves: the store lemma, on the model's directories.\<close>

lemma file_of_fold_move:
  assumes "org \<noteq> dst" and "has_dir fs dst"
  shows "file_of (fold (move_name org dst) ns fs) d m =
     (if d = dst \<and> m \<in> set ns \<and> file_of fs org m \<noteq> None then file_of fs org m
      else if d = org \<and> m \<in> set ns then None
      else file_of fs d m)"
  using files.look_fold_move(1)[OF assms, of ns d m] unfolding move_name_def by simp

definition moved :: "string \<Rightarrow> string \<Rightarrow> string list \<Rightarrow> fsys \<Rightarrow> fsys \<Rightarrow> bool" where
  "moved org dst ns fs fs' \<longleftrightarrow>
     (\<forall>m. file_of fs' dst m = (if m \<in> set ns then file_of fs org m else None)) \<and>
     (\<forall>m. file_of fs' org m = (if m \<in> set ns then None else file_of fs org m)) \<and>
     (\<forall>d m. d \<noteq> org \<longrightarrow> d \<noteq> dst \<longrightarrow> file_of fs' d m = file_of fs d m)"

lemma moved_fold:
  assumes "org \<noteq> dst" and "writable_dir fs dst"
  shows "moved org dst ns fs (fold (move_name org dst) ns (emptied dst fs))"
proof -
  have "has_dir (emptied dst fs) dst" using assms(2) by (simp add: writable_has_dir)
  then show ?thesis
    using assms(1) by (simp add: moved_def file_of_fold_move file_of_emptied)
qed

lemma afp_lines_names:
  "concat (map afp_line es) = name_lines (map (\<lambda>e. fst e @ ''.afp'') es)"
  by (induction es) (simp_all add: afp_line_def name_lines_def)

lemma movAfpFile_moves_run:
  assumes "wf_fs fs" and "work_dir wrk" and "org \<noteq> dst" and "wrk \<noteq> dst"
    and "writable_dir fs org" and "readable_dir fs dst" and "writable_dir fs dst"
    and "\<forall>n. file_of fs dst n \<noteq> None \<longrightarrow> fits_path dst n"
    and "can_read fs wrk topAfpsFile" and "data_of fs wrk topAfpsFile = name_lines ns"
    and "\<forall>n \<in> set ns. movable org dst n"
  shows "\<exists>fs'. movAfpFile org dst wrk fs = Inr (0, fs') \<and> moved org dst ns fs fs'"
proof -
  have lines: "fgets_lines (name_lines ns) = map (\<lambda>n. n @ [newline]) ns"
    using assms(11) by (simp add: fgets_name_lines movable_def)
  have "movAfpFile org dst wrk fs = Inr (0, fold (move_name org dst) ns (emptied dst fs))"
    using assms move_lines[of org dst "emptied dst fs" ns]
    by (simp add: movAfpFile_def clear_loop fopen_r_path content_path emptied_access lines)
  then show ?thesis using moved_fold[OF assms(3,7)] by blast
qed

text \<open>\<open>movAfpFile\<close> leaves in the transfer directory exactly the fingerprint files named by
  \<open>topAfpsFile\<close> that exist, with their content, and takes them out of the fingerprint
  directory; whatever the transfer directory held before is gone, and nothing else changes.\<close>

theorem movAfpFile_moves:
  assumes "wf_fs fs" and "work_dir wrk" and "org \<noteq> dst" and "wrk \<noteq> dst"
    and "writable_dir fs org" and "readable_dir fs dst" and "writable_dir fs dst"
    and "\<forall>n. file_of fs dst n \<noteq> None \<longrightarrow> fits_path dst n"
    and "can_read fs wrk topAfpsFile" and "data_of fs wrk topAfpsFile = name_lines ns"
    and "\<forall>n \<in> set ns. movable org dst n"
  shows "\<exists>fs'. movAfpFile org dst wrk fs = Inr (0, fs') \<and> moved org dst ns fs fs'"
  by (rule movAfpFile_moves_run[OF assms])

section \<open>A slice of the list\<close>

lemma cnt_loop_slice:
  assumes "0 \<le> i" and "0 \<le> pos" and "0 \<le> cnt" and "pos + cnt < 2 ^ 31"
    and "i + int (length lines) < 2 ^ 31"
  shows "cnt_loop org dst pos cnt lines i fs =
    for_each (move_line org dst) (take (nat (pos + cnt - max pos i)) (drop (nat (pos - i)) lines)) fs"
  using assms
proof (induction lines arbitrary: i fs)
  case Nil
  then show ?case by simp
next
  case (Cons l lines)
  have w: "wrap32 (i + 1) = i + 1" "wrap32 (pos + cnt) = pos + cnt"
    using Cons.prems by (simp_all add: wrap32_id int32_def)
  consider "i < pos" | "pos + cnt \<le> i" "pos \<le> i" | "pos \<le> i" "i < pos + cnt" by linarith
  then show ?case
  proof cases
    case 1
    then have "nat (pos - i) = Suc (nat (pos - (i + 1)))" by simp
    then have "drop (nat (pos - i)) (l # lines) = drop (nat (pos - (i + 1))) lines" by simp
    moreover have "max pos i = max pos (i + 1)" using 1 by simp
    ultimately show ?thesis using 1 Cons.IH[of "i + 1" fs] Cons.prems w by simp
  next
    case 2
    then show ?thesis using w by simp
  next
    case 3
    then have "nat (pos - i) = 0" "nat (pos - (i + 1)) = 0"
      "nat (pos + cnt - max pos i) = Suc (nat (pos + cnt - max pos (i + 1)))" by simp_all
    then show ?thesis using 3 Cons.IH[of "i + 1"] Cons.prems w by (simp cong: bnd_cong)
  qed
qed

lemma movCntFile_fold:
  assumes "wf_fs fs" and "work_dir wrk" and "org \<noteq> dst" and "wrk \<noteq> dst"
    and "writable_dir fs org" and "readable_dir fs dst" and "writable_dir fs dst"
    and "\<forall>n. file_of fs dst n \<noteq> None \<longrightarrow> fits_path dst n"
    and "can_read fs wrk botAfpsFile" and "data_of fs wrk botAfpsFile = name_lines ns"
    and "\<forall>n \<in> set ns. movable org dst n"
    and "0 \<le> pos" and "0 \<le> cnt" and "pos + cnt < 2 ^ 31" and "length ns < 2 ^ 31"
  shows "movCntFile org dst wrk pos cnt fs =
    Inr (0, fold (move_name org dst) (take (nat cnt) (drop (nat pos) ns)) (emptied dst fs))"
proof -
  let ?ns = "take (nat cnt) (drop (nat pos) ns)"
  have lines: "fgets_lines (name_lines ns) = map (\<lambda>n. n @ [newline]) ns"
    using assms(11) by (simp add: fgets_name_lines movable_def)
  have sub: "set ?ns \<subseteq> set ns" by (meson order_trans set_drop_subset set_take_subset)
  have "cnt_loop org dst pos cnt (map (\<lambda>n. n @ [newline]) ns) 0 (emptied dst fs) =
      for_each (move_line org dst) (map (\<lambda>n. n @ [newline]) ?ns) (emptied dst fs)"
    using assms(12-15) by (simp add: cnt_loop_slice take_map drop_map)
  also have "\<dots> = Inr (fold (move_name org dst) ?ns (emptied dst fs))"
    using assms(3,5,7,11) sub by (intro move_lines) auto
  finally show ?thesis
    using assms by (simp add: movCntFile_def clear_loop fopen_r_path content_path emptied_access lines)
qed

text \<open>C17: \<open>movCntFile\<close> moves the files named by the lines \<open>pos\<close> to \<open>pos + cnt - 1\<close> of
  \<open>botAfpsFile\<close> and no others: after it the transfer directory holds exactly those of them that
  existed in the fingerprint directory, which has lost them.\<close>

theorem movCntFile_moves_slice:
  assumes "wf_fs fs" and "work_dir wrk" and "org \<noteq> dst" and "wrk \<noteq> dst"
    and "writable_dir fs org" and "readable_dir fs dst" and "writable_dir fs dst"
    and "\<forall>n. file_of fs dst n \<noteq> None \<longrightarrow> fits_path dst n"
    and "can_read fs wrk botAfpsFile" and "data_of fs wrk botAfpsFile = name_lines ns"
    and "\<forall>n \<in> set ns. movable org dst n"
    and "0 \<le> pos" and "0 \<le> cnt" and "pos + cnt < 2 ^ 31" and "length ns < 2 ^ 31"
  shows "\<exists>fs'. movCntFile org dst wrk pos cnt fs = Inr (0, fs') \<and>
    moved org dst (take (nat cnt) (drop (nat pos) ns)) fs fs'"
  using movCntFile_fold[OF assms] moved_fold[OF assms(3,7)] by blast

text \<open>The songs that \<open>botAfpFile\<close> takes from the counts are written without the suffix
  \<open>.afp\<close> that \<open>topAfpFile\<close> writes, so when the fingerprint files are named \<open>song.afp\<close>,
  \<open>movCntFile\<close> reports success but moves none of these songs.\<close>

theorem movCntFile_misses_counted_songs:
  assumes "wf_fs fs" and "work_dir wrk" and "org \<noteq> dst" and "wrk \<noteq> dst"
    and "writable_dir fs org" and "readable_dir fs dst" and "writable_dir fs dst"
    and "\<forall>n. file_of fs dst n \<noteq> None \<longrightarrow> fits_path dst n"
    and "can_read fs wrk botAfpsFile"
    and "data_of fs wrk botAfpsFile = concat (map song_line es)"
    and "\<forall>e \<in> set es. movable org dst (fst e) \<and> CHR ''.'' \<notin> set (fst e)"
    and "\<forall>n. file_of fs org n \<noteq> None \<longrightarrow> (\<exists>s. n = s @ ''.afp'')"
    and "0 \<le> pos" and "0 \<le> cnt" and "pos + cnt < 2 ^ 31" and "length es < 2 ^ 31"
  shows "\<exists>fs'. movCntFile org dst wrk pos cnt fs = Inr (0, fs') \<and>
    (\<forall>n. file_of fs' dst n = None) \<and> (\<forall>n. file_of fs' org n = file_of fs org n)"
proof -
  let ?ns = "map fst es"
  let ?fs = "fold (move_name org dst) (take (nat cnt) (drop (nat pos) ?ns)) (emptied dst fs)"
  have lines: "data_of fs wrk botAfpsFile = name_lines ?ns"
    unfolding assms(10) by (induction es) (simp_all add: song_line_def name_lines_def)
  have run: "movCntFile org dst wrk pos cnt fs = Inr (0, ?fs)"
    using assms by (intro movCntFile_fold lines) auto
  have absent: "file_of fs org n = None" if "n \<in> set (take (nat cnt) (drop (nat pos) ?ns))" for n
  proof -
    have "n \<in> set ?ns" using that by (meson in_set_dropD in_set_takeD)
    then have "CHR ''.'' \<notin> set n" using assms(11) by auto
    then show ?thesis using assms(12) by fastforce
  qed
  have "moved org dst (take (nat cnt) (drop (nat pos) ?ns)) fs ?fs"
    using moved_fold[OF assms(3,7)] .
  with run absent show ?thesis by (auto simp: moved_def)
qed


section \<open>Concrete runs\<close>

definition sample_cache :: "string \<Rightarrow> string \<Rightarrow> fsys" where
  "sample_cache tmp list =
     [''afp'' \<mapsto> plain_dir [(''7.afp'', ''A''), (''8.afp'', ''B''), (''9.afp'', ''C'')],
      ''dst'' \<mapsto> plain_dir [(''1.afp'', ''old'')], ''wrk'' \<mapsto> plain_dir [(tmp, list)]]"

lemma sample_cache_access:
  assumes "valid_name tmp"
  shows "wf_fs (sample_cache tmp list)" "writable_dir (sample_cache tmp list) ''afp''"
    "readable_dir (sample_cache tmp list) ''dst''" "writable_dir (sample_cache tmp list) ''dst''"
    "\<forall>n. file_of (sample_cache tmp list) ''dst'' n \<noteq> None \<longrightarrow> fits_path ''dst'' n"
    "can_read (sample_cache tmp list) ''wrk'' tmp" "data_of (sample_cache tmp list) ''wrk'' tmp = list"
    "\<forall>n. file_of (sample_cache tmp list) ''afp'' n \<noteq> None \<longrightarrow> (\<exists>s. n = s @ ''.afp'')"
    "file_of (sample_cache tmp list) ''afp'' ''7.afp'' = Some (new_file ''A'')"
    "file_of (sample_cache tmp list) ''afp'' ''8.afp'' = Some (new_file ''B'')"
    "file_of (sample_cache tmp list) ''afp'' ''9.afp'' = Some (new_file ''C'')"
  using assms by (auto simp: sample_cache_def fs_eval fs_eval_defs)

lemma sample_movable:
  "work_dir ''wrk''" "movable ''afp'' ''dst'' ''7.afp''" "movable ''afp'' ''dst'' ''8.afp''"
  "movable ''afp'' ''dst'' ''9.afp''" "movable ''afp'' ''dst'' ''7''"
  by (simp_all add: work_dir_def movable_def name_ok_def fs_eval_defs)

theorem movAfpFile_moves_witness:
  "\<exists>fs'. movAfpFile ''afp'' ''dst'' ''wrk'' (sample_cache topAfpsFile (name_lines [''9.afp'', ''7.afp''])) =
      Inr (0, fs') \<and>
    file_of fs' ''dst'' ''9.afp'' = Some (new_file ''C'') \<and> file_of fs' ''dst'' ''1.afp'' = None \<and>
    file_of fs' ''afp'' ''7.afp'' = None \<and> file_of fs' ''afp'' ''8.afp'' = Some (new_file ''B'')"
proof -
  let ?l = "name_lines [''9.afp'', ''7.afp'']"
  note acc = sample_cache_access[OF work_file_valid(4), of ?l]
  have "\<exists>fs'. movAfpFile ''afp'' ''dst'' ''wrk'' (sample_cache topAfpsFile ?l) = Inr (0, fs') \<and>
      moved ''afp'' ''dst'' [''9.afp'', ''7.afp''] (sample_cache topAfpsFile ?l) fs'"
    by (rule movAfpFile_moves[OF acc(1) sample_movable(1) _ _ acc(2-7)]) (simp_all add: sample_movable)
  then show ?thesis by (auto simp: moved_def acc)
qed

theorem movCntFile_moves_slice_witness:
  "\<exists>fs'. movCntFile ''afp'' ''dst'' ''wrk'' 1 1
      (sample_cache botAfpsFile (name_lines [''9.afp'', ''7.afp'', ''8.afp''])) = Inr (0, fs') \<and>
    file_of fs' ''dst'' ''7.afp'' = Some (new_file ''A'') \<and> file_of fs' ''dst'' ''8.afp'' = None \<and>
    file_of fs' ''afp'' ''7.afp'' = None \<and> file_of fs' ''afp'' ''9.afp'' = Some (new_file ''C'')"
proof -
  let ?ns = "[''9.afp'', ''7.afp'', ''8.afp'']"
  note acc = sample_cache_access[OF work_file_valid(5), of "name_lines ?ns"]
  have "\<exists>fs'. movCntFile ''afp'' ''dst'' ''wrk'' 1 1 (sample_cache botAfpsFile (name_lines ?ns)) = Inr (0, fs') \<and>
      moved ''afp'' ''dst'' (take (nat 1) (drop (nat 1) ?ns)) (sample_cache botAfpsFile (name_lines ?ns)) fs'"
    by (rule movCntFile_moves_slice[OF acc(1) sample_movable(1) _ _ acc(2-7)])
      (simp_all add: sample_movable)
  then show ?thesis by (auto simp: moved_def acc)
qed

theorem movCntFile_misses_counted_songs_witness:
  "\<exists>fs'. movCntFile ''afp'' ''dst'' ''wrk'' 0 1 (sample_cache botAfpsFile (concat (map song_line [(''7'', 2)]))) =
      Inr (0, fs') \<and> file_of fs' ''afp'' ''7.afp'' = Some (new_file ''A'')"
proof -
  let ?l = "concat (map song_line [(''7'', 2::int)])"
  note acc = sample_cache_access[OF work_file_valid(5), of ?l]
  have "\<exists>fs'. movCntFile ''afp'' ''dst'' ''wrk'' 0 1 (sample_cache botAfpsFile ?l) = Inr (0, fs') \<and>
      (\<forall>n. file_of fs' ''dst'' n = None) \<and>
      (\<forall>n. file_of fs' ''afp'' n = file_of (sample_cache botAfpsFile ?l) ''afp'' n)"
    by (rule movCntFile_misses_counted_songs[OF acc(1) sample_movable(1) _ _ acc(2-7) _ acc(8)])
      (simp_all add: sample_movable)
  then show ?thesis unfolding acc(9)[symmetric] by metis
qed

end
