(* ===== verification/TpQueue.thy ===== *)
theory TpQueue
  imports Prelude "HOL-Library.Finite_Map"
begin

text \<open>
  The bounded queue of \<open>src/tpqueue.h\<close>: a singly linked list of nodes with a pointer to the
  \<open>m_next\<close> field (or the head) where the next node is stored. The nodes live in an explicit
  heap, because the queue hands out the nodes themselves and \<open>resetqueue\<close> deletes them.
  This theory models what a thread does between taking \<open>m_lock\<close> and giving it up, by
  \<open>pthread_mutex_unlock\<close> or by \<open>pthread_cond_wait\<close>; the threads are in \<open>QueueThreads\<close>.
\<close>

section \<open>The queue\<close>

record 'a node =
  m_data :: 'a
  m_next :: "nat option"  \<comment> \<open>an address, or null\<close>

type_synonym 'a heap = "(nat, 'a node) fmap"

text \<open>The values of \<open>node<T> **m_tail\<close>: \<open>&m_head\<close> or \<open>&(val->m_next)\<close>.\<close>

datatype tail_ptr = AtHead | AtNext nat

record 'a pqueue =
  store :: "'a heap"
  m_head :: "nat option"
  m_tail :: tail_ptr
  m_cursize :: int
  m_maxsize :: int
  m_overflag :: int
  m_fullwait :: int
  m_freewait :: int

definition DEFAULT_SIZE :: int where "DEFAULT_SIZE = 100"

definition pqueue_init :: "'a heap \<Rightarrow> 'a pqueue" where
  "pqueue_init h =
     \<lparr>store = h, m_head = None, m_tail = AtHead, m_cursize = 0, m_maxsize = DEFAULT_SIZE,
      m_overflag = 0, m_fullwait = 0, m_freewait = 0\<rparr>"

text \<open>The loop \<open>for (p = m_head; p; p = q) { q = p->m_next; delete p; }\<close>. It ends on any heap:
  each turn deletes a node, and a pointer to a deleted one is a fault.\<close>

lemma fmdrop_less:
  assumes "fmlookup h a = Some nd"
  shows "fcard (fmdom (fmdrop a h)) < fcard (fmdom h)"
proof -
  have "a |\<in>| fmdom h" using assms by (rule fmdomI)
  then have "fmdom h - {|a|} |\<subset>| fmdom h" by blast
  then show ?thesis by (simp add: pfsubset_fcard_mono)
qed

function free_chain :: "'a heap \<Rightarrow> nat option \<Rightarrow> 'a heap run" where
  "free_chain h p =
     (case p of None \<Rightarrow> Inr h
      | Some a \<Rightarrow> (case fmlookup h a of
            None \<Rightarrow> Inl UseAfterFree
          | Some nd \<Rightarrow> free_chain (fmdrop a h) (m_next nd)))"
  by pat_completeness auto
termination
  by (relation "measure (\<lambda>(h, p). fcard (fmdom h))") (simp_all add: fmdrop_less del: fmdom_drop)

declare free_chain.simps [simp del]

definition resetqueue :: "'a pqueue \<Rightarrow> 'a pqueue run" where
  "resetqueue q =
    bnd (free_chain (store q) (m_head q)) (\<lambda>h.
      Inr \<lparr>store = h, m_head = None, m_tail = AtHead, m_cursize = 0, m_maxsize = DEFAULT_SIZE,
           m_overflag = 0, m_fullwait = 0, m_freewait = 0\<rparr>)"

text \<open>The destructor deletes the nodes and leaves the pointers as they were.\<close>

definition destroy :: "'a pqueue \<Rightarrow> 'a pqueue run" where
  "destroy q = bnd (free_chain (store q) (m_head q)) (\<lambda>h. Inr (q\<lparr>store := h\<rparr>))"

definition setsize :: "int \<Rightarrow> 'a pqueue \<Rightarrow> 'a pqueue" where
  "setsize sz q = (if sz > m_cursize q then q\<lparr>m_maxsize := sz\<rparr> else q)"

definition setflag :: "int \<Rightarrow> 'a pqueue \<Rightarrow> 'a pqueue" where
  "setflag flag q = q\<lparr>m_overflag := flag\<rparr>"

section \<open>Turns of get and put\<close>

text \<open>
  How a turn ends: the call returns, or the thread waits on the condition variable and the
  same turn is run again when it wakes up (both loops test their condition again). The last
  component says whether the other condition variable is signalled.
\<close>

datatype get_result = GetWaiting | GotNull | Got nat
datatype put_result = PutWaiting | PutDone
datatype signal = NoSignal | SignalFull | SignalFree

definition get_turn :: "'a pqueue \<Rightarrow> (get_result \<times> 'a pqueue \<times> signal) run" where
  "get_turn q =
    (if m_cursize q = 0 then
       (if m_overflag q \<noteq> 0 then Inr (GotNull, q, NoSignal)
        else Inr (GetWaiting, q\<lparr>m_freewait := wrap32 (m_freewait q + 1)\<rparr>, NoSignal))
     else if m_overflag q \<noteq> 0 then Inr (GotNull, q, NoSignal)
     else case m_head q of
       None \<Rightarrow> Inl NullDeref
     | Some a \<Rightarrow> (case fmlookup (store q) a of
         None \<Rightarrow> Inl UseAfterFree
       | Some nd \<Rightarrow>
           let q1 = q\<lparr>m_head := m_next nd\<rparr>;
               q2 = (if m_head q1 = None then q1\<lparr>m_tail := AtHead\<rparr> else q1);
               q3 = q2\<lparr>m_cursize := wrap32 (m_cursize q2 - 1)\<rparr>
           in if m_fullwait q3 > 0
              then Inr (Got a, q3\<lparr>m_fullwait := m_fullwait q3 - 1\<rparr>, SignalFull)
              else Inr (Got a, q3, NoSignal)))"

text \<open>\<open>if (!val) return; val->m_next = 0;\<close> before the lock is taken.\<close>

definition put_begin :: "nat \<Rightarrow> 'a pqueue \<Rightarrow> 'a pqueue run" where
  "put_begin a q =
    (case fmlookup (store q) a of
       None \<Rightarrow> Inl UseAfterFree
     | Some nd \<Rightarrow> Inr (q\<lparr>store := fmupd a (nd\<lparr>m_next := None\<rparr>) (store q)\<rparr>))"

text \<open>\<open>*m_tail = val;\<close>\<close>

definition store_tail :: "nat \<Rightarrow> 'a pqueue \<Rightarrow> 'a pqueue run" where
  "store_tail a q =
    (case m_tail q of
       AtHead \<Rightarrow> Inr (q\<lparr>m_head := Some a\<rparr>)
     | AtNext l \<Rightarrow> (case fmlookup (store q) l of
         None \<Rightarrow> Inl UseAfterFree
       | Some nd \<Rightarrow> Inr (q\<lparr>store := fmupd l (nd\<lparr>m_next := Some a\<rparr>) (store q)\<rparr>)))"

definition put_turn :: "nat \<Rightarrow> 'a pqueue \<Rightarrow> (put_result \<times> 'a pqueue \<times> signal) run" where
  "put_turn a q =
    (if m_cursize q \<ge> m_maxsize q
     then Inr (PutWaiting, q\<lparr>m_fullwait := wrap32 (m_fullwait q + 1)\<rparr>, NoSignal)
     else bnd (store_tail a (q\<lparr>m_cursize := wrap32 (m_cursize q + 1)\<rparr>)) (\<lambda>q1.
            let q2 = q1\<lparr>m_tail := AtNext a\<rparr>
            in if m_freewait q2 > 0
               then Inr (PutDone, q2\<lparr>m_freewait := m_freewait q2 - 1\<rparr>, SignalFree)
               else Inr (PutDone, q2, NoSignal)))"

text \<open>The callers' side: \<open>new node<T>()\<close> at a free address, and \<open>delete p\<close>.\<close>

definition new_node :: "nat \<Rightarrow> 'a \<Rightarrow> 'a pqueue \<Rightarrow> 'a pqueue" where
  "new_node a d q = q\<lparr>store := fmupd a \<lparr>m_data = d, m_next = None\<rparr> (store q)\<rparr>"

definition delete_node :: "nat \<Rightarrow> 'a pqueue \<Rightarrow> 'a pqueue run" where
  "delete_node a q =
    (if fmlookup (store q) a = None then Inl UseAfterFree
     else Inr (q\<lparr>store := fmdrop a (store q)\<rparr>))"

section \<open>The list a queue holds\<close>

fun path :: "'a heap \<Rightarrow> nat option \<Rightarrow> nat list \<Rightarrow> bool" where
  "path h p [] \<longleftrightarrow> p = None"
| "path h p (a # as) \<longleftrightarrow> p = Some a \<and>
     (case fmlookup h a of None \<Rightarrow> False | Some nd \<Rightarrow> path h (m_next nd) as)"

function chain :: "'a heap \<Rightarrow> nat option \<Rightarrow> nat list" where
  "chain h p =
     (case p of None \<Rightarrow> []
      | Some a \<Rightarrow> (case fmlookup h a of
            None \<Rightarrow> []
          | Some nd \<Rightarrow> a # chain (fmdrop a h) (m_next nd)))"
  by pat_completeness auto
termination
  by (relation "measure (\<lambda>(h, p). fcard (fmdom h))") (simp_all add: fmdrop_less del: fmdom_drop)

declare chain.simps [simp del]

definition items :: "'a pqueue \<Rightarrow> nat list" where
  "items q = chain (store q) (m_head q)"

definition data_at :: "'a pqueue \<Rightarrow> nat \<Rightarrow> 'a" where
  "data_at q a = m_data (the (fmlookup (store q) a))"

definition contents :: "'a pqueue \<Rightarrow> 'a list" where
  "contents q = map (data_at q) (items q)"

text \<open>The representation invariant: the links from the head visit the items, the tail pointer
  is the link after the last one, the size is right and within its bound, and the counts of
  waiters are not negative.\<close>

definition wf_queue :: "'a pqueue \<Rightarrow> bool" where
  "wf_queue q \<longleftrightarrow>
     path (store q) (m_head q) (items q) \<and> distinct (items q) \<and>
     m_tail q = (if items q = [] then AtHead else AtNext (last (items q))) \<and>
     m_cursize q = int (length (items q)) \<and> m_cursize q \<le> m_maxsize q \<and> 0 < m_maxsize q \<and>
     m_maxsize q < 2 ^ 31"

lemma path_cong:
  "(\<And>a. a \<in> set as \<Longrightarrow> fmlookup h a = fmlookup k a) \<Longrightarrow> path h p as = path k p as"
  by (induction as arbitrary: p) (auto split: option.splits)

lemma path_dom: "path h p as \<Longrightarrow> a \<in> set as \<Longrightarrow> fmlookup h a \<noteq> None"
  by (induction as arbitrary: p) (auto split: option.splits)

lemma path_chain: "path h p as \<Longrightarrow> distinct as \<Longrightarrow> chain h p = as"
proof (induction as arbitrary: h p)
  case Nil
  then show ?case by (simp add: chain.simps)
next
  case (Cons a as)
  then obtain nd where nd: "p = Some a" "fmlookup h a = Some nd" "path h (m_next nd) as"
    by (auto split: option.splits)
  have "path (fmdrop a h) (m_next nd) as"
    using nd(3) Cons.prems(2) by (subst path_cong[of as _ h]) auto
  then show ?case using Cons nd(1,2) by (simp add: chain.simps[of h])
qed

lemma path_None: "path h None as \<longleftrightarrow> as = []"
  by (cases as) auto

lemma items_path: "path (store q) (m_head q) as \<Longrightarrow> distinct as \<Longrightarrow> items q = as"
  by (simp add: items_def path_chain)

lemma path_snoc:
  assumes "path h p (as @ [l])" and "distinct (as @ [l])" and "a \<notin> set (as @ [l])"
    and "fmlookup h l = Some nd" and "fmlookup h a = Some na" and "m_next na = None"
  shows "path (fmupd l (nd\<lparr>m_next := Some a\<rparr>) h) p (as @ [l, a])"
  using assms by (induction as arbitrary: p) (auto split: option.splits)

lemma free_chain_path:
  assumes "path h p as" and "distinct as"
  shows "free_chain h p = Inr (fmdrop_set (set as) h)"
  using assms
proof (induction as arbitrary: h p)
  case Nil
  then show ?case by (simp add: free_chain.simps)
next
  case (Cons a as)
  then obtain nd where nd: "p = Some a" "fmlookup h a = Some nd" "path h (m_next nd) as"
    by (auto split: option.splits)
  have "path (fmdrop a h) (m_next nd) as"
    using nd(3) Cons.prems(2) by (subst path_cong[of as _ h]) auto
  then show ?case using Cons nd(1,2) by (simp add: free_chain.simps[of h])
qed

lemma wf_queueD:
  assumes "wf_queue q"
  shows "path (store q) (m_head q) (items q)" and "distinct (items q)"
    and "m_tail q = (if items q = [] then AtHead else AtNext (last (items q)))"
    and "m_cursize q = int (length (items q))" and "int (length (items q)) \<le> m_maxsize q"
    and "0 < m_maxsize q" and "m_maxsize q < 2 ^ 31"
    and "a \<in> set (items q) \<Longrightarrow> fmlookup (store q) a \<noteq> None"
  using assms path_dom by (auto simp: wf_queue_def)

lemma wf_queueI:
  assumes "path (store q) (m_head q) as" and "distinct as"
    and "m_tail q = (if as = [] then AtHead else AtNext (last as))"
    and "m_cursize q = int (length as)" and "int (length as) \<le> m_maxsize q" and "0 < m_maxsize q"
    and "m_maxsize q < 2 ^ 31"
  shows "wf_queue q" and "items q = as"
  using items_path[OF assms(1,2)] assms by (auto simp: wf_queue_def)


section \<open>What the operations do to the list\<close>

text \<open>The frame of an operation: the nodes outside \<open>as\<close> keep their contents, no node
  appears or disappears and no node's data changes.\<close>

definition same_data :: "'a pqueue \<Rightarrow> 'a pqueue \<Rightarrow> bool" where
  "same_data q q' \<longleftrightarrow> (\<forall>a. map_option m_data (fmlookup (store q') a) = map_option m_data (fmlookup (store q) a))"

lemma same_dataD:
  "same_data q q' \<Longrightarrow> fmlookup (store q') a = None \<longleftrightarrow> fmlookup (store q) a = None"
  "same_data q q' \<Longrightarrow> fmlookup (store q) a \<noteq> None \<Longrightarrow> data_at q' a = data_at q a"
  unfolding same_data_def data_at_def by (metis map_option_is_None option.map_sel)+

lemma same_data_refl [simp]: "store q' = store q \<Longrightarrow> same_data q q'"
  by (simp add: same_data_def)

lemma wf_init: "wf_queue (pqueue_init h)" "items (pqueue_init h) = []"
  by (rule wf_queueI[of _ "[]"]; simp add: pqueue_init_def DEFAULT_SIZE_def)+

lemma contents_cong:
  assumes "items q' = items q" and "\<And>a. a \<in> set (items q) \<Longrightarrow> data_at q' a = data_at q a"
  shows "contents q' = contents q"
  using assms by (simp add: contents_def)

lemma wf_frame:
  assumes "wf_queue q" and "\<And>a. a \<in> set (items q) \<Longrightarrow> fmlookup (store q') a = fmlookup (store q) a"
    and "m_head q' = m_head q" and "m_tail q' = m_tail q" and "m_cursize q' = m_cursize q"
    and "m_cursize q \<le> m_maxsize q'" and "0 < m_maxsize q'" and "m_maxsize q' < 2 ^ 31"
  shows "wf_queue q'" and "items q' = items q" and "contents q' = contents q"
proof -
  have "path (store q') (m_head q') (items q)"
    using wf_queueD(1)[OF assms(1)] assms(2,3) by (subst path_cong[of _ _ "store q"]) auto
  then have *: "wf_queue q'" "items q' = items q"
    using wf_queueD[OF assms(1)] assms(4-8) by (auto intro!: wf_queueI[of q' "items q"])
  then show "wf_queue q'" and "items q' = items q" by simp_all
  show "contents q' = contents q" using * assms(2) by (auto intro!: contents_cong simp: data_at_def)
qed

lemma wf_setsize:
  assumes "wf_queue q" and "sz < 2 ^ 31"
  shows "wf_queue (setsize sz q)" "items (setsize sz q) = items q" "contents (setsize sz q) = contents q"
    "same_data q (setsize sz q)"
  using assms wf_queueD(4-7)[OF assms(1)] by (auto simp: setsize_def intro!: wf_frame[OF assms(1)])

lemma wf_setflag:
  assumes "wf_queue q"
  shows "wf_queue (setflag f q)" "items (setflag f q) = items q" "contents (setflag f q) = contents q"
    "same_data q (setflag f q)"
  using wf_queueD(4-7)[OF assms(1)] by (auto simp: setflag_def intro!: wf_frame[OF assms(1)])

lemma wf_resetqueue:
  assumes "wf_queue q"
  shows "resetqueue q = Inr (pqueue_init (fmdrop_set (set (items q)) (store q)))"
  using free_chain_path[OF wf_queueD(1,2)[OF assms]] by (simp add: resetqueue_def pqueue_init_def)

lemma wf_destroy:
  "wf_queue q \<Longrightarrow> destroy q = Inr (q\<lparr>store := fmdrop_set (set (items q)) (store q)\<rparr>)"
  by (simp add: destroy_def free_chain_path[OF wf_queueD(1) wf_queueD(2)])

lemma wf_new_node:
  assumes "wf_queue q" and "fmlookup (store q) a = None"
  shows "wf_queue (new_node a d q)" "items (new_node a d q) = items q"
    "contents (new_node a d q) = contents q"
proof -
  have "a \<notin> set (items q)" using assms wf_queueD(8) by metis
  then show "wf_queue (new_node a d q)" "items (new_node a d q) = items q"
    "contents (new_node a d q) = contents q"
    using wf_queueD(4-7)[OF assms(1)] by (auto simp: new_node_def intro!: wf_frame[OF assms(1)])
qed

lemma wf_put_begin:
  assumes "wf_queue q" and "fmlookup (store q) a = Some nd" and "a \<notin> set (items q)"
  obtains q' where "put_begin a q = Inr q'" and "wf_queue q'" and "items q' = items q"
    and "contents q' = contents q" and "same_data q q'"
    and "fmlookup (store q') a = Some (nd\<lparr>m_next := None\<rparr>)"
    and "m_cursize q' = m_cursize q" and "m_maxsize q' = m_maxsize q" and "m_overflag q' = m_overflag q"
    and "m_fullwait q' = m_fullwait q" and "m_freewait q' = m_freewait q"
proof -
  let ?q = "q\<lparr>store := fmupd a (nd\<lparr>m_next := None\<rparr>) (store q)\<rparr>"
  have "wf_queue ?q" "items ?q = items q" "contents ?q = contents q"
    using assms wf_queueD(4-7)[OF assms(1)] by (auto intro!: wf_frame[OF assms(1)])
  moreover have "same_data q ?q" using assms(2) by (simp add: same_data_def)
  ultimately show ?thesis using assms(2) by (intro that[of ?q]) (simp_all add: put_begin_def)
qed

lemma wf_delete_node:
  assumes "wf_queue q" and "fmlookup (store q) a \<noteq> None" and "a \<notin> set (items q)"
  obtains q' where "delete_node a q = Inr q'" and "wf_queue q'" and "items q' = items q"
    and "contents q' = contents q" and "store q' = fmdrop a (store q)"
    and "m_cursize q' = m_cursize q" and "m_maxsize q' = m_maxsize q" and "m_overflag q' = m_overflag q"
    and "m_fullwait q' = m_fullwait q" and "m_freewait q' = m_freewait q"
proof -
  let ?q = "q\<lparr>store := fmdrop a (store q)\<rparr>"
  have "wf_queue ?q" "items ?q = items q" "contents ?q = contents q"
    using assms(3) wf_queueD(4-7)[OF assms(1)] by (auto intro!: wf_frame[OF assms(1)])
  then show ?thesis using assms(2) by (intro that[of ?q]) (simp_all add: delete_node_def)
qed

text \<open>A turn of \<open>put\<close> that finds room appends the node; one that finds none only counts.\<close>

lemma put_turn_waits:
  assumes "m_maxsize q \<le> m_cursize q"
  shows "put_turn a q = Inr (PutWaiting, q\<lparr>m_fullwait := wrap32 (m_fullwait q + 1)\<rparr>, NoSignal)"
  using assms by (simp add: put_turn_def)

lemma put_turn_appends:
  assumes "wf_queue q" and "m_cursize q < m_maxsize q"
    and "fmlookup (store q) a = Some na" and "m_next na = None" and "a \<notin> set (items q)"
  obtains q' where
      "put_turn a q = Inr (PutDone, q', if m_freewait q > 0 then SignalFree else NoSignal)"
    and "wf_queue q'" and "items q' = items q @ [a]" and "same_data q q'"
    and "\<forall>b. b \<notin> set (items q) \<longrightarrow> fmlookup (store q') b = fmlookup (store q) b"
    and "m_cursize q' = m_cursize q + 1" and "m_maxsize q' = m_maxsize q"
    and "m_overflag q' = m_overflag q" and "m_fullwait q' = m_fullwait q"
    and "m_freewait q' = (if m_freewait q > 0 then m_freewait q - 1 else m_freewait q)"
proof -
  note wf = wf_queueD[OF assms(1)]
  have w: "wrap32 (m_cursize q + 1) = m_cursize q + 1"
    using wf(4,7) assms(2) by (intro wrap32_id) (simp add: int32_def)
  let ?f = "if m_freewait q > 0 then m_freewait q - 1 else m_freewait q"
  define h where "h = (if items q = [] then store q
     else fmupd (last (items q)) (the (fmlookup (store q) (last (items q)))\<lparr>m_next := Some a\<rparr>) (store q))"
  define q' where "q' = \<lparr>store = h, m_head = (if items q = [] then Some a else m_head q),
     m_tail = AtNext a, m_cursize = m_cursize q + 1, m_maxsize = m_maxsize q,
     m_overflag = m_overflag q, m_fullwait = m_fullwait q, m_freewait = ?f\<rparr>"
  have last: "items q \<noteq> [] \<Longrightarrow> \<exists>nd. fmlookup (store q) (last (items q)) = Some nd"
    using wf(8)[of "last (items q)"] by auto
  have turn: "put_turn a q = Inr (PutDone, q', if m_freewait q > 0 then SignalFree else NoSignal)"
    using last assms(2) by (cases "items q = []")
      (auto simp: put_turn_def store_tail_def wf(3) w q'_def h_def Let_def)
  have "path h (m_head q') (items q @ [a])"
  proof (cases "items q" rule: rev_cases)
    case Nil
    then show ?thesis using assms(3,4) by (simp add: h_def q'_def path_None)
  next
    case (snoc as l)
    then obtain nd where "fmlookup (store q) l = Some nd" using last by auto
    then show ?thesis
      using path_snoc[of "store q" "m_head q" as l a nd na] wf(1,2) assms(3-5)
      by (simp add: snoc h_def q'_def)
  qed
  then have "path (store q') (m_head q') (items q @ [a])" by (simp add: q'_def)
  then have "wf_queue q'" "items q' = items q @ [a]"
    using wf_queueI[of q' "items q @ [a]"] wf(2,4-7) assms(2,5) by (simp_all add: q'_def)
  moreover have "same_data q q'" using last by (auto simp: same_data_def q'_def h_def)
  moreover have "\<forall>b. b \<notin> set (items q) \<longrightarrow> fmlookup (store q') b = fmlookup (store q) b"
    by (auto simp: q'_def h_def)
  ultimately show ?thesis using turn by (intro that[of q']) (simp_all add: q'_def)
qed

text \<open>A turn of \<open>get\<close> takes the first item, unless the queue is empty or the flag is set.\<close>

lemma get_turn_null:
  "m_overflag q \<noteq> 0 \<Longrightarrow> get_turn q = Inr (GotNull, q, NoSignal)"
  by (simp add: get_turn_def)

lemma get_turn_waits:
  "m_overflag q = 0 \<Longrightarrow> m_cursize q = 0 \<Longrightarrow>
   get_turn q = Inr (GetWaiting, q\<lparr>m_freewait := wrap32 (m_freewait q + 1)\<rparr>, NoSignal)"
  by (simp add: get_turn_def)

lemma get_turn_takes:
  assumes "wf_queue q" and "m_overflag q = 0" and "items q = a # as"
  obtains q' where "get_turn q = Inr (Got a, q', if m_fullwait q > 0 then SignalFull else NoSignal)"
    and "wf_queue q'" and "items q' = as" and "store q' = store q"
    and "m_cursize q' = m_cursize q - 1" and "m_maxsize q' = m_maxsize q"
    and "m_overflag q' = m_overflag q" and "m_freewait q' = m_freewait q"
    and "m_fullwait q' = (if m_fullwait q > 0 then m_fullwait q - 1 else m_fullwait q)"
proof -
  note wf = wf_queueD[OF assms(1)]
  have w: "wrap32 (int (length as)) = int (length as)" "wrap32 0 = 0"
    using wf(5,7) assms(3) by (simp_all add: wrap32_id int32_def)
  obtain nd where nd: "m_head q = Some a" "fmlookup (store q) a = Some nd" "path (store q) (m_next nd) as"
    using wf(1) assms(3) by (auto split: option.splits)
  then have emp: "m_next nd = None \<longleftrightarrow> as = []" by (cases as) auto
  define q' where "q' = q\<lparr>m_head := m_next nd, m_tail := (if as = [] then AtHead else m_tail q),
     m_cursize := m_cursize q - 1,
     m_fullwait := (if m_fullwait q > 0 then m_fullwait q - 1 else m_fullwait q)\<rparr>"
  have turn: "get_turn q = Inr (Got a, q', if m_fullwait q > 0 then SignalFull else NoSignal)"
    using wf(4) assms(2,3) nd(1,2) emp
    by (cases "as = []") (auto simp: get_turn_def w q'_def Let_def)
  have "wf_queue q'" "items q' = as"
  proof -
    have "path (store q') (m_head q') as" "distinct as"
      "m_tail q' = (if as = [] then AtHead else AtNext (last as))"
      "m_cursize q' = int (length as)" "int (length as) \<le> m_maxsize q'" "0 < m_maxsize q'"
      "m_maxsize q' < 2 ^ 31"
      using wf(2-7) assms(3) nd(3) by (simp_all add: q'_def)
    then show "wf_queue q'" "items q' = as" by (rule wf_queueI)+
  qed
  then show ?thesis using turn by (intro that[of q']) (simp_all add: q'_def)
qed


section \<open>The queue as a bounded list\<close>

text \<open>
  The contract of the two operations over the list of the queued data: \<open>get\<close> gives back the
  first element, waits on an empty queue, and returns null, whatever is queued, once the flag
  is set; \<open>put\<close> appends unless the bound is reached.
\<close>

datatype 'a taken = TakeWait | TakeNull | Take 'a

fun take_spec :: "bool \<Rightarrow> 'a list \<Rightarrow> 'a taken \<times> 'a list" where
  "take_spec True xs = (TakeNull, xs)"
| "take_spec False [] = (TakeWait, [])"
| "take_spec False (x # xs) = (Take x, xs)"

definition add_spec :: "int \<Rightarrow> 'a \<Rightarrow> 'a list \<Rightarrow> bool \<times> 'a list" where
  "add_spec cap x xs = (if int (length xs) < cap then (True, xs @ [x]) else (False, xs))"

fun taken_of :: "'a pqueue \<Rightarrow> get_result \<Rightarrow> 'a taken" where
  "taken_of q GetWaiting = TakeWait"
| "taken_of q GotNull = TakeNull"
| "taken_of q (Got a) = Take (data_at q a)"

lemma length_contents: "wf_queue q \<Longrightarrow> int (length (contents q)) = m_cursize q"
  by (simp add: contents_def wf_queueD(4))

lemma contents_append:
  assumes "wf_queue q" and "items q' = items q @ [a]" and "same_data q q'"
    and "fmlookup (store q) a \<noteq> None"
  shows "contents q' = contents q @ [data_at q a]"
proof -
  have "data_at q' b = data_at q b" if "b \<in> set (items q @ [a])" for b
    using that assms(4) wf_queueD(8)[OF assms(1)] same_dataD(2)[OF assms(3)] by auto
  then show ?thesis by (simp add: contents_def assms(2))
qed

lemma contents_Cons: "items q = a # as \<Longrightarrow> items q' = as \<Longrightarrow> store q' = store q \<Longrightarrow>
    contents q = data_at q a # contents q'"
  by (simp add: contents_def data_at_def)

lemma contents_Nil: "items q = [] \<Longrightarrow> contents q = []"
  by (simp add: contents_def)

text \<open>C8: on a well-formed queue a turn of \<open>get\<close> dereferences no bad pointer, keeps the queue well
  formed, and has the result and the effect of the list contract: first in, first out, null
  exactly when the flag is set, waiting exactly when the queue is empty and the flag is clear.\<close>

theorem get_turn_refines:
  assumes "wf_queue q"
  shows "\<exists>r q' sg. get_turn q = Inr (r, q', sg) \<and> wf_queue q' \<and>
    (taken_of q r, contents q') = take_spec (m_overflag q \<noteq> 0) (contents q)"
proof (cases "m_overflag q \<noteq> 0")
  case True
  then show ?thesis using assms by (simp add: get_turn_null)
next
  case flag: False
  show ?thesis
  proof (cases "items q")
    case Nil
    let ?q = "q\<lparr>m_freewait := wrap32 (m_freewait q + 1)\<rparr>"
    have "wf_queue ?q" "contents ?q = contents q"
      using wf_queueD(4-7)[OF assms] by (auto intro!: wf_frame[OF assms])
    then show ?thesis
      using flag wf_queueD(4)[OF assms] Nil by (simp add: get_turn_waits contents_Nil)
  next
    case (Cons a as)
    obtain q' where "get_turn q = Inr (Got a, q', if m_fullwait q > 0 then SignalFull else NoSignal)"
      and "wf_queue q'" and "items q' = as" and "store q' = store q"
      using get_turn_takes[OF assms _ Cons] flag by blast
    with flag show ?thesis by (simp add: contents_Cons[OF Cons])
  qed
qed

lemma put_turn_node:
  assumes "wf_queue q" and "fmlookup (store q) a = Some na" and "m_next na = None"
    and "a \<notin> set (items q)"
  shows "\<exists>r q' sg. put_turn a q = Inr (r, q', sg) \<and> wf_queue q' \<and>
    (r = PutDone, contents q') = add_spec (m_maxsize q) (data_at q a) (contents q) \<and>
    fmlookup (store q') a = Some na \<and> (r = PutDone \<longleftrightarrow> a \<in> set (items q'))"
proof (cases "m_cursize q < m_maxsize q")
  case True
  obtain q' where turn: "put_turn a q = Inr (PutDone, q', if m_freewait q > 0 then SignalFree else NoSignal)"
    and q': "wf_queue q'" "items q' = items q @ [a]" "same_data q q'"
    and keep: "\<forall>b. b \<notin> set (items q) \<longrightarrow> fmlookup (store q') b = fmlookup (store q) b"
    using put_turn_appends[OF assms(1) True assms(2-4)] by blast
  have "contents q' = contents q @ [data_at q a]"
    using assms(2) by (intro contents_append[OF assms(1) q'(2,3)]) simp
  with turn q'(1,2) keep assms(2,4) True show ?thesis
    by (simp add: add_spec_def length_contents[OF assms(1)])
next
  case False
  let ?q = "q\<lparr>m_fullwait := wrap32 (m_fullwait q + 1)\<rparr>"
  have "wf_queue ?q" "contents ?q = contents q" "items ?q = items q"
    using wf_queueD(4-7)[OF assms(1)] by (auto intro!: wf_frame[OF assms(1)])
  then show ?thesis
    using False length_contents[OF assms(1)] assms(2,4) by (simp add: put_turn_waits add_spec_def)
qed

text \<open>C9: on a well-formed queue a turn of \<open>put\<close> with a fresh, unlinked node dereferences no bad
  pointer, keeps the queue well formed, appends the node's data at the end when fewer than
  \<open>m_maxsize\<close> elements are queued, and otherwise waits and leaves the queue as it was.\<close>

theorem put_turn_refines:
  assumes "wf_queue q" and "fmlookup (store q) a = Some na" and "m_next na = None"
    and "a \<notin> set (items q)"
  shows "\<exists>r q' sg. put_turn a q = Inr (r, q', sg) \<and> wf_queue q' \<and>
    (r = PutDone, contents q') = add_spec (m_maxsize q) (data_at q a) (contents q)"
  using put_turn_node[OF assms] by blast

text \<open>\<open>resetqueue\<close> on a well-formed queue ends, frees exactly the queued nodes and leaves the
  empty queue with its default bound, its flag clear and both counts of waiters at zero.\<close>

theorem resetqueue_empties:
  assumes "wf_queue q"
  shows "\<exists>q'. resetqueue q = Inr q' \<and> wf_queue q' \<and> contents q' = [] \<and> m_maxsize q' = DEFAULT_SIZE \<and>
    m_overflag q' = 0 \<and> m_fullwait q' = 0 \<and> m_freewait q' = 0 \<and>
    (\<forall>a. fmlookup (store q') a = (if a \<in> set (items q) then None else fmlookup (store q) a))"
  unfolding wf_resetqueue[OF assms]
  by (intro exI conjI refl) (auto simp: wf_init contents_def, auto simp: pqueue_init_def)

section \<open>Concrete queues\<close>

text \<open>Two nodes queued, a third allocated.\<close>

definition sample_queue :: "string pqueue" where
  "sample_queue =
    \<lparr>store = fmupd 3 \<lparr>m_data = ''c'', m_next = None\<rparr>
       (fmupd 2 \<lparr>m_data = ''b'', m_next = None\<rparr> (fmupd 1 \<lparr>m_data = ''a'', m_next = Some 2\<rparr> fmempty)),
     m_head = Some 1, m_tail = AtNext 2, m_cursize = 2, m_maxsize = 3, m_overflag = 0,
     m_fullwait = 0, m_freewait = 0\<rparr>"

lemma sample_queue_wf: "wf_queue sample_queue" "items sample_queue = [1, 2]"
  by (rule wf_queueI[of _ "[1, 2]"]; simp add: sample_queue_def)+

theorem get_turn_refines_witness:
  "\<exists>r q' sg. get_turn sample_queue = Inr (r, q', sg) \<and> taken_of sample_queue r = Take ''a'' \<and>
     contents q' = [''b'']"
  using get_turn_refines[OF sample_queue_wf(1)]
  by (auto simp: contents_def sample_queue_wf(2)) (auto simp: sample_queue_def data_at_def)

theorem put_turn_refines_witness:
  "\<exists>q' sg. put_turn 3 sample_queue = Inr (PutDone, q', sg) \<and> contents q' = [''a'', ''b'', ''c'']"
proof -
  have "contents sample_queue = [''a'', ''b'']" "data_at sample_queue 3 = ''c''"
    "m_maxsize sample_queue = 3"
    by (simp_all add: contents_def sample_queue_wf(2)) (simp_all add: sample_queue_def data_at_def)
  moreover have "fmlookup (store sample_queue) 3 = Some \<lparr>m_data = ''c'', m_next = None\<rparr>"
    by (simp add: sample_queue_def)
  ultimately show ?thesis
    using put_turn_refines[OF sample_queue_wf(1), of 3 "\<lparr>m_data = ''c'', m_next = None\<rparr>"]
    by (auto simp: sample_queue_wf(2) add_spec_def)
qed

theorem resetqueue_empties_witness:
  "\<exists>q'. resetqueue sample_queue = Inr q' \<and> contents q' = [] \<and> fmlookup (store q') 1 = None"
  using resetqueue_empties[OF sample_queue_wf(1)] by (auto simp: sample_queue_wf(2))

end
