(* ===== verification/QueueThreads.thy ===== *)
theory QueueThreads
  imports TpQueue
begin

text \<open>
  The threads that use the queue of \<open>src/tpqueue.h\<close>: a step relation in which a step is what
  one thread does while it holds \<open>m_lock\<close> (a turn of \<open>put\<close> or \<open>get\<close>, one of the short calls),
  or a wake-up. \<open>pthread_cond_signal\<close> wakes one waiting thread when there is one;
  \<open>pthread_cond_wait\<close> may also return without a signal. The theorems: the queue is first in
  first out and loses nothing, no reachable step touches a bad pointer, no wake-up is lost
  while only \<open>put\<close> and \<open>get\<close> are used, and what goes wrong around \<open>resetqueue\<close>.
\<close>

section \<open>Threads\<close>

text \<open>Where a thread stands. \<open>PutReady a\<close> and \<open>GetReady\<close> stand before the test of the loop
  condition, at the start of the call or after a wake-up; \<open>Holding a\<close> has a node from \<open>get\<close>;
  \<open>Finished\<close> got null.\<close>

datatype tstate =
    Idle | PutReady nat | PutWaits nat | GetReady | GetWaits | Holding nat | Finished

record 'a sys =
  que :: "'a pqueue"
  thr :: "tstate list"

definition sys_init :: "nat \<Rightarrow> 'a sys" where
  "sys_init n = \<lparr>que = pqueue_init fmempty, thr = replicate n Idle\<rparr>"

fun rouse :: "tstate \<Rightarrow> tstate" where
  "rouse (PutWaits a) = PutReady a"
| "rouse GetWaits = GetReady"
| "rouse s = s"

fun waits_put :: "tstate \<Rightarrow> bool" where
  "waits_put (PutWaits a) = True"
| "waits_put s = False"

fun ready_put :: "tstate \<Rightarrow> bool" where
  "ready_put (PutReady a) = True"
| "ready_put s = False"

fun waiter :: "signal \<Rightarrow> tstate \<Rightarrow> bool" where
  "waiter NoSignal s = False"
| "waiter SignalFull s = waits_put s"
| "waiter SignalFree s = (s = GetWaits)"

text \<open>The thread a signal wakes: one of the waiting ones, none only when none waits.\<close>

fun wakes :: "signal \<Rightarrow> nat option \<Rightarrow> tstate list \<Rightarrow> tstate list \<Rightarrow> bool" where
  "wakes sg None ts ts' \<longleftrightarrow> (\<forall>s \<in> set ts. \<not> waiter sg s) \<and> ts' = ts"
| "wakes sg (Some u) ts ts' \<longleftrightarrow>
     u < length ts \<and> waiter sg (ts ! u) \<and> ts' = ts[u := rouse (ts ! u)]"

text \<open>\<open>releaseFree\<close> wakes all threads that wait in \<open>get\<close>.\<close>

definition releaseFree :: "tstate list \<Rightarrow> tstate list" where
  "releaseFree ts = map (\<lambda>s. if s = GetWaits then rouse s else s) ts"

section \<open>Steps\<close>

datatype 'a event =
    New nat nat 'a            \<comment> \<open>thread, address, data: \<open>new\<close>, then the call of \<open>put\<close>\<close>
  | Enter nat 'a "nat option" \<comment> \<open>a turn of \<open>put\<close> that stores, and the thread it wakes\<close>
  | PutBlocks nat
  | Call nat                  \<comment> \<open>the call of \<open>get\<close>\<close>
  | Leave nat 'a "nat option" \<comment> \<open>a turn of \<open>get\<close> that takes, and the thread it wakes\<close>
  | GetBlocks nat
  | GetNull nat
  | Free nat                  \<comment> \<open>\<open>delete\<close> of the node held\<close>
  | Spurious nat
  | SetSize int
  | SetFlag int
  | ReleaseFree
  | Reset "'a list"           \<comment> \<open>the contents that \<open>resetqueue\<close> throws away\<close>

inductive step :: "'a event \<Rightarrow> 'a sys \<Rightarrow> 'a sys \<Rightarrow> bool" where
  New: "t < length (thr s) \<Longrightarrow> thr s ! t = Idle \<Longrightarrow> fmlookup (store (que s)) a = None \<Longrightarrow>
    put_begin a (new_node a d (que s)) = Inr q \<Longrightarrow>
    step (New t a d) s \<lparr>que = q, thr = (thr s)[t := PutReady a]\<rparr>"
| Enter: "t < length (thr s) \<Longrightarrow> thr s ! t = PutReady a \<Longrightarrow>
    put_turn a (que s) = Inr (PutDone, q, sg) \<Longrightarrow> wakes sg w ((thr s)[t := Idle]) ts \<Longrightarrow>
    step (Enter t (data_at (que s) a) w) s \<lparr>que = q, thr = ts\<rparr>"
| PutBlocks: "t < length (thr s) \<Longrightarrow> thr s ! t = PutReady a \<Longrightarrow>
    put_turn a (que s) = Inr (PutWaiting, q, sg) \<Longrightarrow>
    step (PutBlocks t) s \<lparr>que = q, thr = (thr s)[t := PutWaits a]\<rparr>"
| Call: "t < length (thr s) \<Longrightarrow> thr s ! t = Idle \<Longrightarrow>
    step (Call t) s \<lparr>que = que s, thr = (thr s)[t := GetReady]\<rparr>"
| Leave: "t < length (thr s) \<Longrightarrow> thr s ! t = GetReady \<Longrightarrow>
    get_turn (que s) = Inr (Got a, q, sg) \<Longrightarrow> wakes sg w ((thr s)[t := Holding a]) ts \<Longrightarrow>
    step (Leave t (data_at (que s) a) w) s \<lparr>que = q, thr = ts\<rparr>"
| GetBlocks: "t < length (thr s) \<Longrightarrow> thr s ! t = GetReady \<Longrightarrow>
    get_turn (que s) = Inr (GetWaiting, q, sg) \<Longrightarrow>
    step (GetBlocks t) s \<lparr>que = q, thr = (thr s)[t := GetWaits]\<rparr>"
| GetNull: "t < length (thr s) \<Longrightarrow> thr s ! t = GetReady \<Longrightarrow>
    get_turn (que s) = Inr (GotNull, q, sg) \<Longrightarrow>
    step (GetNull t) s \<lparr>que = q, thr = (thr s)[t := Finished]\<rparr>"
| Free: "t < length (thr s) \<Longrightarrow> thr s ! t = Holding a \<Longrightarrow> delete_node a (que s) = Inr q \<Longrightarrow>
    step (Free t) s \<lparr>que = q, thr = (thr s)[t := Idle]\<rparr>"
| Spurious: "t < length (thr s) \<Longrightarrow> waits_put (thr s ! t) \<or> thr s ! t = GetWaits \<Longrightarrow>
    step (Spurious t) s \<lparr>que = que s, thr = (thr s)[t := rouse (thr s ! t)]\<rparr>"
| SetSize: "k < 2 ^ 31 \<Longrightarrow> step (SetSize k) s \<lparr>que = setsize k (que s), thr = thr s\<rparr>"
| SetFlag: "step (SetFlag f) s \<lparr>que = setflag f (que s), thr = thr s\<rparr>"
| ReleaseFree: "step ReleaseFree s \<lparr>que = que s, thr = releaseFree (thr s)\<rparr>"
| Reset: "resetqueue (que s) = Inr q \<Longrightarrow> step (Reset (contents (que s))) s \<lparr>que = q, thr = thr s\<rparr>"

inductive_cases stepE: "step e s s'"
inductive_simps step_Reset: "step (Reset xs) s s'"
inductive_simps step_SetFlag: "step (SetFlag f) s s'"
inductive_simps step_ReleaseFree: "step ReleaseFree s s'"
inductive_simps step_GetBlocks: "step (GetBlocks t) s s'"
inductive_simps step_GetNull: "step (GetNull t) s s'"
inductive_simps step_SetSize: "step (SetSize k) s s'"
inductive_simps step_New: "step (New t a d) s s'"
inductive_simps step_Enter: "step (Enter t d w) s s'"
inductive_simps step_PutBlocks: "step (PutBlocks t) s s'"

fun run :: "('e \<Rightarrow> 's \<Rightarrow> 's \<Rightarrow> bool) \<Rightarrow> 'e list \<Rightarrow> 's \<Rightarrow> 's \<Rightarrow> bool" where
  "run stp [] s s' \<longleftrightarrow> s' = s"
| "run stp (e # es) s s' \<longleftrightarrow> (\<exists>u. stp e s u \<and> run stp es u s')"

lemma run_append: "run stp (es @ fs) s s' \<longleftrightarrow> (\<exists>u. run stp es s u \<and> run stp fs u s')"
  by (induction es arbitrary: s) auto

section \<open>First in, first out\<close>

text \<open>The interface of a queue seen from its event log: what enters, what leaves (or is thrown
  away), and what is inside.\<close>

locale fifo =
  fixes stp :: "'e \<Rightarrow> 's \<Rightarrow> 's \<Rightarrow> bool"
    and inv :: "'s \<Rightarrow> bool" and inside :: "'s \<Rightarrow> 'v list"
    and entered :: "'e \<Rightarrow> 'v list" and left :: "'e \<Rightarrow> 'v list"
  assumes stp_inv: "inv s \<Longrightarrow> stp e s s' \<Longrightarrow> inv s'"
    and stp_inside: "inv s \<Longrightarrow> stp e s s' \<Longrightarrow> left e @ inside s' = inside s @ entered e"
begin

lemma run_inv: "inv s \<Longrightarrow> run stp es s s' \<Longrightarrow> inv s'"
  by (induction es arbitrary: s) (auto dest: stp_inv)

lemma run_inside:
  "inv s \<Longrightarrow> run stp es s s' \<Longrightarrow>
   concat (map left es) @ inside s' = inside s @ concat (map entered es)"
proof (induction es arbitrary: s)
  case Nil
  then show ?case by simp
next
  case (Cons e es)
  then obtain u where u: "stp e s u" "run stp es u s'" by auto
  have "left e @ concat (map left es) @ inside s' = left e @ inside u @ concat (map entered es)"
    using Cons.IH[OF stp_inv[OF Cons.prems(1) u(1)] u(2)] by simp
  also have "\<dots> = inside s @ entered e @ concat (map entered es)"
    using stp_inside[OF Cons.prems(1) u(1)] by (simp only: append_assoc[symmetric])
  finally show ?case by simp
qed

text \<open>Nothing leaves that did not enter, and in the order in which it entered.\<close>

lemma left_prefix:
  assumes "inv s" and "run stp es s s'" and "inside s = []"
  shows "concat (map left es) = take (length (concat (map left es))) (concat (map entered es))"
  using run_inside[OF assms(1,2)] assms(3) by (metis append_Nil append_eq_conv_conj)

end

fun entered :: "'a event \<Rightarrow> 'a list" where
  "entered (Enter t d w) = [d]"
| "entered e = []"

fun left :: "'a event \<Rightarrow> 'a list" where
  "left (Leave t d w) = [d]"
| "left (Reset xs) = xs"
| "left e = []"

section \<open>Who owns a node\<close>

fun owns :: "tstate \<Rightarrow> nat option" where
  "owns (PutReady a) = Some a"
| "owns (PutWaits a) = Some a"
| "owns (Holding a) = Some a"
| "owns s = None"

definition sole_owners :: "tstate list \<Rightarrow> bool" where
  "sole_owners ts \<longleftrightarrow> (\<forall>t u a. t < length ts \<longrightarrow> u < length ts \<longrightarrow>
     owns (ts ! t) = Some a \<longrightarrow> owns (ts ! u) = Some a \<longrightarrow> t = u)"

text \<open>A node a thread works on is allocated and not queued; a node about to be queued has no
  successor.\<close>

definition node_ok :: "'a pqueue \<Rightarrow> tstate \<Rightarrow> bool" where
  "node_ok q s \<longleftrightarrow> (case owns s of None \<Rightarrow> True
     | Some a \<Rightarrow> a \<notin> set (items q) \<and> (case fmlookup (store q) a of None \<Rightarrow> False
         | Some nd \<Rightarrow> s = Holding a \<or> m_next nd = None))"

definition sys_inv :: "'a sys \<Rightarrow> bool" where
  "sys_inv s \<longleftrightarrow> wf_queue (que s) \<and> sole_owners (thr s) \<and>
     (\<forall>t < length (thr s). node_ok (que s) (thr s ! t))"

lemma owns_rouse [simp]: "owns (rouse s) = owns s"
  by (cases s) auto

lemma rouse_Holding [simp]: "rouse s = Holding a \<longleftrightarrow> s = Holding a"
  by (cases s) auto

lemma node_ok_rouse [simp]: "node_ok q (rouse s) = node_ok q s"
  by (cases s) (auto simp: node_ok_def split: option.splits)

lemma sole_owners_upd:
  assumes "sole_owners ts" and "t < length ts" and "owns x = owns (ts ! t) \<or> owns x = None"
  shows "sole_owners (ts[t := x])"
proof -
  have "owns (ts[t := x] ! k) = Some a \<Longrightarrow> owns (ts ! k) = Some a" for k a
    using assms(2,3) by (cases "k = t") auto
  then show ?thesis using assms(1) unfolding sole_owners_def length_list_update by blast
qed

lemma sole_owners_new:
  assumes "sole_owners ts" and "t < length ts" and "owns x = Some a" and "\<And>u. u < length ts \<Longrightarrow> owns (ts ! u) \<noteq> Some a"
  shows "sole_owners (ts[t := x])"
proof -
  have old: "k \<noteq> t \<Longrightarrow> owns (ts[t := x] ! k) = owns (ts ! k)" for k by simp
  have new: "owns (ts[t := x] ! t) = Some a" using assms(2,3) by simp
  show ?thesis
    using assms(1,4) old new unfolding sole_owners_def length_list_update by (metis option.inject)
qed

lemma wakes_owners:
  assumes "wakes sg w ts ts'"
  shows "length ts' = length ts" and "sole_owners ts \<Longrightarrow> sole_owners ts'"
    and "(\<forall>t < length ts. node_ok q (ts ! t)) \<Longrightarrow> \<forall>t < length ts'. node_ok q (ts' ! t)"
  using assms by (cases w; auto simp: sole_owners_upd nth_list_update)+

lemma releaseFree_nth: "t < length ts \<Longrightarrow> owns (releaseFree ts ! t) = owns (ts ! t)"
  and releaseFree_node_ok: "t < length ts \<Longrightarrow> node_ok q (releaseFree ts ! t) = node_ok q (ts ! t)"
  by (auto simp: releaseFree_def node_ok_def)

lemma length_releaseFree [simp]: "length (releaseFree ts) = length ts"
  by (simp add: releaseFree_def)

lemma sole_owners_releaseFree: "sole_owners ts \<Longrightarrow> sole_owners (releaseFree ts)"
  by (simp add: sole_owners_def releaseFree_nth)


lemma sys_invD:
  assumes "sys_inv s"
  shows "wf_queue (que s)" and "sole_owners (thr s)"
    and "t < length (thr s) \<Longrightarrow> node_ok (que s) (thr s ! t)"
  using assms by (simp_all add: sys_inv_def)

lemma node_ok_mono:
  assumes "node_ok q s"
    and "\<And>a. owns s = Some a \<Longrightarrow> a \<notin> set (items q) \<Longrightarrow> fmlookup (store q) a \<noteq> None \<Longrightarrow>
      a \<notin> set (items q') \<and> fmlookup (store q') a = fmlookup (store q) a"
  shows "node_ok q' s"
  using assms by (auto simp: node_ok_def split: option.splits)

lemma node_ok_free [simp]: "owns s = None \<Longrightarrow> node_ok q s"
  by (simp add: node_ok_def)

lemma owned_node:
  assumes "sys_inv s" and "t < length (thr s)" and "owns (thr s ! t) = Some a"
  obtains nd where "fmlookup (store (que s)) a = Some nd" and "a \<notin> set (items (que s))"
    and "thr s ! t \<noteq> Holding a \<Longrightarrow> m_next nd = None"
    and "\<And>u. u < length (thr s) \<Longrightarrow> owns (thr s ! u) = Some a \<Longrightarrow> u = t"
proof -
  have "node_ok (que s) (thr s ! t)" and sole: "sole_owners (thr s)"
    using sys_invD[OF assms(1)] assms(2) by auto
  then obtain nd where "fmlookup (store (que s)) a = Some nd" and "a \<notin> set (items (que s))"
    and "thr s ! t \<noteq> Holding a \<Longrightarrow> m_next nd = None"
    using assms(3) by (auto simp: node_ok_def split: option.splits)
  then show ?thesis using sole assms(2,3) by (intro that) (auto simp: sole_owners_def)
qed

text \<open>A step of a thread that keeps the queue's nodes: the invariant for the new state from
  the old one, the thread's own node and the other threads' nodes.\<close>

lemma sys_inv_thread:
  assumes "sys_inv s" and "t < length (thr s)" and "wf_queue q"
    and "owns x = owns (thr s ! t) \<or> owns x = None" and "node_ok q x"
    and "\<And>u. u < length (thr s) \<Longrightarrow> u \<noteq> t \<Longrightarrow> node_ok (que s) (thr s ! u) \<Longrightarrow> node_ok q (thr s ! u)"
  shows "sys_inv \<lparr>que = q, thr = (thr s)[t := x]\<rparr>"
  using assms sys_invD[OF assms(1)] by (auto simp: sys_inv_def nth_list_update sole_owners_upd)

lemma sys_inv_wakes:
  assumes "sys_inv \<lparr>que = q, thr = ts\<rparr>" and "wakes sg w ts ts'"
  shows "sys_inv \<lparr>que = q, thr = ts'\<rparr>"
  using assms(1) wakes_owners(2)[OF assms(2)] wakes_owners(3)[OF assms(2), of q]
  by (simp add: sys_inv_def)

lemma inv_New:
  assumes "sys_inv s" and "t < length (thr s)" and "thr s ! t = Idle"
    and "fmlookup (store (que s)) a = None" and "put_begin a (new_node a d (que s)) = Inr q"
  shows "sys_inv \<lparr>que = q, thr = (thr s)[t := PutReady a]\<rparr>" and "contents q = contents (que s)"
proof -
  let ?q1 = "new_node a d (que s)"
  note wf = sys_invD(1)[OF assms(1)]
  note w1 = wf_new_node[OF wf assms(4), of d]
  have a: "a \<notin> set (items (que s))" using wf_queueD(8)[OF wf] assms(4) by metis
  have lookup: "fmlookup (store ?q1) a = Some \<lparr>m_data = d, m_next = None\<rparr>"
    by (simp add: new_node_def)
  obtain q' where q': "put_begin a ?q1 = Inr q'" "wf_queue q'" "items q' = items ?q1"
      "contents q' = contents ?q1"
    using wf_put_begin[OF w1(1) lookup] a w1(2) by metis
  have q: "q = q'" using q'(1) assms(5) by simp
  have store: "store q = fmupd a \<lparr>m_data = d, m_next = None\<rparr> (store ?q1)"
    using assms(5) lookup by (auto simp: put_begin_def)
  have unowned: "owns (thr s ! u) \<noteq> Some a" if "u < length (thr s)" for u
    using owned_node[OF assms(1) that] assms(4) by (metis option.distinct(1))
  have "node_ok q (PutReady a)" using a store q q'(3) w1(2) by (simp add: node_ok_def)
  moreover have "node_ok q (thr s ! u)" if "u < length (thr s)" for u
    using sys_invD(3)[OF assms(1) that]
  proof (rule node_ok_mono)
    fix b assume "owns (thr s ! u) = Some b" and "b \<notin> set (items (que s))"
    with unowned[OF that] show "b \<notin> set (items q) \<and> fmlookup (store q) b = fmlookup (store (que s)) b"
      using q q'(3) w1(2) store by (auto simp: new_node_def)
  qed
  moreover have "sole_owners ((thr s)[t := PutReady a])"
    using sys_invD(2)[OF assms(1)] assms(2) unowned by (intro sole_owners_new) auto
  ultimately show "sys_inv \<lparr>que = q, thr = (thr s)[t := PutReady a]\<rparr>"
    using q q'(2) assms(2) by (simp add: sys_inv_def nth_list_update)
  show "contents q = contents (que s)" using q q'(4) w1(3) by simp
qed

lemma put_enabled:
  assumes "sys_inv s" and "t < length (thr s)" and "thr s ! t = PutReady a"
  obtains na where "fmlookup (store (que s)) a = Some na" and "m_next na = None"
    and "a \<notin> set (items (que s))"
    and "\<And>u. u < length (thr s) \<Longrightarrow> owns (thr s ! u) = Some a \<Longrightarrow> u = t"
  using owned_node[OF assms(1,2), of a] assms(3) by auto

lemma inv_Enter:
  assumes "sys_inv s" and "t < length (thr s)" and "thr s ! t = PutReady a"
    and "put_turn a (que s) = Inr (PutDone, q, sg)"
  shows "sys_inv \<lparr>que = q, thr = (thr s)[t := Idle]\<rparr>"
    and "contents q = contents (que s) @ [data_at (que s) a]"
proof -
  note wf = sys_invD(1)[OF assms(1)]
  obtain na where na: "fmlookup (store (que s)) a = Some na" "m_next na = None" "a \<notin> set (items (que s))"
    and sole: "\<And>u. u < length (thr s) \<Longrightarrow> owns (thr s ! u) = Some a \<Longrightarrow> u = t"
    using put_enabled[OF assms(1-3)] by metis
  have room: "m_cursize (que s) < m_maxsize (que s)"
    using assms(4) put_turn_waits[of "que s" a] by (cases "m_maxsize (que s) \<le> m_cursize (que s)") auto
  obtain q' where q': "put_turn a (que s) = Inr (PutDone, q', if m_freewait (que s) > 0 then SignalFree else NoSignal)"
      "wf_queue q'" "items q' = items (que s) @ [a]" "same_data (que s) q'"
      "\<forall>b. b \<notin> set (items (que s)) \<longrightarrow> fmlookup (store q') b = fmlookup (store (que s)) b"
    using put_turn_appends[OF wf room na] by metis
  have q: "q = q'" using assms(4) q'(1) by simp
  have "node_ok q (thr s ! u)" if "u < length (thr s)" "u \<noteq> t" "node_ok (que s) (thr s ! u)" for u
    using that(3)
  proof (rule node_ok_mono)
    fix b assume b: "owns (thr s ! u) = Some b" "b \<notin> set (items (que s))"
    then have "b \<noteq> a" using sole that(1,2) by blast
    with b show "b \<notin> set (items q) \<and> fmlookup (store q) b = fmlookup (store (que s)) b"
      using q q'(3,5) by simp
  qed
  then show "sys_inv \<lparr>que = q, thr = (thr s)[t := Idle]\<rparr>"
    using q q'(2) assms(1,2) by (intro sys_inv_thread) auto
  show "contents q = contents (que s) @ [data_at (que s) a]"
    unfolding q using na(1) by (intro contents_append[OF wf q'(3,4)]) simp
qed

lemma inv_counts:
  assumes "sys_inv s" and "t < length (thr s)" and "owns x = owns (thr s ! t)" "\<And>a. x \<noteq> Holding a"
    and "\<And>a. thr s ! t \<noteq> Holding a"
    and "store q = store (que s)" "m_head q = m_head (que s)" "m_tail q = m_tail (que s)"
      "m_cursize q = m_cursize (que s)" "m_maxsize q = m_maxsize (que s)"
  shows "sys_inv \<lparr>que = q, thr = (thr s)[t := x]\<rparr>" and "contents q = contents (que s)"
proof -
  note wf = sys_invD(1)[OF assms(1)]
  have q: "wf_queue q" "items q = items (que s)" "contents q = contents (que s)"
    using wf_queueD(4-7)[OF wf] assms(6-10) by (auto intro!: wf_frame[OF wf])
  then show "contents q = contents (que s)" by simp
  have same: "node_ok q y = node_ok (que s) y" for y
    by (simp only: node_ok_def q(2) assms(6))
  have "node_ok (que s) (thr s ! t)" using sys_invD(3)[OF assms(1,2)] .
  then have "node_ok (que s) x"
    using assms(3-5) by (auto simp: node_ok_def split: option.splits)
  then show "sys_inv \<lparr>que = q, thr = (thr s)[t := x]\<rparr>"
    using assms(1-3) q(1) same by (intro sys_inv_thread) auto
qed


lemma inv_Leave:
  assumes "sys_inv s" and "t < length (thr s)" and "thr s ! t = GetReady"
    and "get_turn (que s) = Inr (Got a, q, sg)"
  shows "sys_inv \<lparr>que = q, thr = (thr s)[t := Holding a]\<rparr>"
    and "contents (que s) = data_at (que s) a # contents q"
proof -
  note wf = sys_invD(1)[OF assms(1)]
  have flag: "m_overflag (que s) = 0"
    using assms(4) get_turn_null[of "que s"] by (cases "m_overflag (que s) = 0") auto
  have "items (que s) \<noteq> []"
    using assms(4) get_turn_waits[OF flag] wf_queueD(4)[OF wf] by auto
  then obtain b as where items: "items (que s) = b # as" by (cases "items (que s)") auto
  obtain q' where q': "get_turn (que s) = Inr (Got b, q', if m_fullwait (que s) > 0 then SignalFull else NoSignal)"
      "wf_queue q'" "items q' = as" "store q' = store (que s)"
    using get_turn_takes[OF wf flag items] by metis
  have q: "q = q'" and b: "b = a" using assms(4) q'(1) by simp_all
  obtain nd where nd: "fmlookup (store (que s)) a = Some nd"
    using wf_queueD(8)[OF wf, of a] items b by auto
  have unowned: "owns (thr s ! u) \<noteq> Some a" if "u < length (thr s)" for u
    using owned_node[OF assms(1) that] items b by (metis list.set_intros(1))
  have "a \<notin> set as" using wf_queueD(2)[OF wf] items b by simp
  then have "node_ok q (Holding a)" using nd q q'(3,4) by (simp add: node_ok_def)
  moreover have "node_ok q (thr s ! u)" if "u < length (thr s)" for u
    using sys_invD(3)[OF assms(1) that] by (rule node_ok_mono) (simp add: q q'(3,4) items)
  moreover have "sole_owners ((thr s)[t := Holding a])"
    using sys_invD(2)[OF assms(1)] assms(2) unowned by (intro sole_owners_new) auto
  ultimately show "sys_inv \<lparr>que = q, thr = (thr s)[t := Holding a]\<rparr>"
    using q q'(2) assms(2) by (simp add: sys_inv_def nth_list_update)
  show "contents (que s) = data_at (que s) a # contents q"
    using contents_Cons[OF items q'(3,4)] q b by simp
qed

lemma inv_Free:
  assumes "sys_inv s" and "t < length (thr s)" and "thr s ! t = Holding a"
    and "delete_node a (que s) = Inr q"
  shows "sys_inv \<lparr>que = q, thr = (thr s)[t := Idle]\<rparr>" and "contents q = contents (que s)"
proof -
  note wf = sys_invD(1)[OF assms(1)]
  obtain nd where nd: "fmlookup (store (que s)) a = Some nd" "a \<notin> set (items (que s))"
    and sole: "\<And>u. u < length (thr s) \<Longrightarrow> owns (thr s ! u) = Some a \<Longrightarrow> u = t"
    using owned_node[OF assms(1,2), of a] assms(3) by auto
  then have "fmlookup (store (que s)) a \<noteq> None" by simp
  then obtain q' where q': "delete_node a (que s) = Inr q'" "wf_queue q'" "items q' = items (que s)"
      "contents q' = contents (que s)" "store q' = fmdrop a (store (que s))"
    using wf_delete_node[OF wf _ nd(2)] by metis
  have q: "q = q'" using assms(4) q'(1) by simp
  have "node_ok q (thr s ! u)" if "u < length (thr s)" "u \<noteq> t" "node_ok (que s) (thr s ! u)" for u
    using that(3)
  proof (rule node_ok_mono)
    fix b assume b: "owns (thr s ! u) = Some b" "b \<notin> set (items (que s))"
    then have "b \<noteq> a" using sole that(1,2) by blast
    with b show "b \<notin> set (items q) \<and> fmlookup (store q) b = fmlookup (store (que s)) b"
      using q q'(3,5) by simp
  qed
  then show "sys_inv \<lparr>que = q, thr = (thr s)[t := Idle]\<rparr>"
    using q q'(2) assms(1,2) by (intro sys_inv_thread) auto
  show "contents q = contents (que s)" using q q'(4) by simp
qed

lemma inv_Reset:
  assumes "sys_inv s" and "resetqueue (que s) = Inr q"
  shows "sys_inv \<lparr>que = q, thr = thr s\<rparr>" and "contents q = []"
proof -
  note wf = sys_invD(1)[OF assms(1)]
  have q: "q = pqueue_init (fmdrop_set (set (items (que s))) (store (que s)))"
    using wf_resetqueue[OF wf] assms(2) by simp
  have items: "items q = []" and wf': "wf_queue q" unfolding q by (rule wf_init)+
  have "node_ok q (thr s ! u)" if "u < length (thr s)" for u
    using sys_invD(3)[OF assms(1) that] by (rule node_ok_mono) (simp add: items, simp add: q pqueue_init_def)
  then show "sys_inv \<lparr>que = q, thr = thr s\<rparr>"
    using wf' sys_invD(2)[OF assms(1)] by (simp add: sys_inv_def)
  show "contents q = []" using items by (simp add: contents_def)
qed

lemma inv_flags:
  assumes "sys_inv s" and "wf_queue q" and "items q = items (que s)" and "store q = store (que s)"
  shows "sys_inv \<lparr>que = q, thr = thr s\<rparr>"
proof -
  have "node_ok q y = node_ok (que s) y" for y by (simp only: node_ok_def assms(3,4))
  then show ?thesis using assms(1,2) by (simp add: sys_inv_def)
qed

lemma put_waiting_frame:
  "put_turn a q = Inr (PutWaiting, q', sg) \<Longrightarrow>
   q' = q\<lparr>m_fullwait := wrap32 (m_fullwait q + 1)\<rparr> \<and> m_maxsize q \<le> m_cursize q"
  by (auto simp: put_turn_def Let_def split: if_splits)

lemma get_waiting_frame:
  "get_turn q = Inr (GetWaiting, q', sg) \<Longrightarrow>
   q' = q\<lparr>m_freewait := wrap32 (m_freewait q + 1)\<rparr> \<and> m_cursize q = 0 \<and> m_overflag q = 0"
  by (auto simp: get_turn_def Let_def split: if_splits option.splits)

lemma get_null_frame: "get_turn q = Inr (GotNull, q', sg) \<Longrightarrow> q' = q \<and> m_overflag q \<noteq> 0"
  by (auto simp: get_turn_def Let_def split: if_splits option.splits)

text \<open>The invariant and the queue's law for every step.\<close>

lemma step_inv_inside:
  assumes "step e s s'" and "sys_inv s"
  shows "sys_inv s' \<and> left e @ contents (que s') = contents (que s) @ entered e"
  using assms
proof (induction rule: step.induct)
  case (New t s a d q)
  then show ?case using inv_New[OF New(5) New(1-4)] by simp
next
  case (Enter t s a q sg w ts)
  then show ?case using inv_Enter[of s t a q sg] sys_inv_wakes[of q _ sg w ts] by simp
next
  case (PutBlocks t s a q sg)
  then show ?case using put_waiting_frame[of a "que s" q sg] inv_counts[of s t "PutWaits a" q] by simp
next
  case (Call t s)
  then show ?case using inv_counts[of s t GetReady "que s"] by simp
next
  case (Leave t s a q sg w ts)
  then show ?case using inv_Leave[of s t a q sg] sys_inv_wakes[of q _ sg w ts] by simp
next
  case (GetBlocks t s q sg)
  then show ?case using get_waiting_frame[of "que s" q sg] inv_counts[of s t GetWaits q] by simp
next
  case (GetNull t s q sg)
  then show ?case using get_null_frame[of "que s" q sg] inv_counts[of s t Finished q] by simp
next
  case (Free t s a q)
  then show ?case using inv_Free[of s t a q] by simp
next
  case (Spurious t s)
  have "rouse (thr s ! t) \<noteq> Holding a" "thr s ! t \<noteq> Holding a" for a using Spurious(2) by auto
  then show ?case using Spurious inv_counts[of s t "rouse (thr s ! t)" "que s"] by simp
next
  case (SetSize k s)
  have "store (setsize k (que s)) = store (que s)" by (simp add: setsize_def)
  then show ?case
    using wf_setsize[OF sys_invD(1)[OF SetSize(2)] SetSize(1)] inv_flags[OF SetSize(2)] by simp
next
  case (SetFlag f s)
  have "store (setflag f (que s)) = store (que s)" by (simp add: setflag_def)
  then show ?case
    using wf_setflag[OF sys_invD(1)[OF SetFlag], of f] inv_flags[OF SetFlag, of "setflag f (que s)"]
    by simp
next
  case (ReleaseFree s)
  then show ?case
    using sys_invD(1,2)[OF ReleaseFree] sys_invD(3)[OF ReleaseFree]
    by (simp add: sys_inv_def[of "\<lparr>que = que s, thr = releaseFree (thr s)\<rparr>"]
        sole_owners_releaseFree releaseFree_node_ok)
next
  case (Reset s q)
  then show ?case using inv_Reset[of s q] by simp
qed

interpretation queue: fifo step sys_inv "\<lambda>s. contents (que s)" entered left
  by unfold_locales (auto dest: step_inv_inside)

lemma sys_inv_init: "sys_inv (sys_init n)"
  by (simp add: sys_init_def sys_inv_def wf_init sole_owners_def)

lemma contents_init: "contents (que (sys_init n)) = []"
  by (simp add: sys_init_def contents_def wf_init)

text \<open>C4: in every execution, with any number of threads and any interleaving, the lines that
  have left the queue (taken by \<open>get\<close>, or thrown away by \<open>resetqueue\<close>) followed by the lines
  still in it are the lines that entered, in the order in which they entered: none is lost,
  duplicated or reordered.\<close>

theorem queue_fifo:
  assumes "run step es (sys_init n) s"
  shows "concat (map left es) @ contents (que s) = concat (map entered es)"
  using queue.run_inside[OF sys_inv_init assms] by (simp add: contents_init)

text \<open>C5: no execution makes the queue touch a bad pointer: whatever the threads do next (a turn of
  \<open>put\<close> or \<open>get\<close>, deleting the node taken, \<open>resetqueue\<close>) is free of null dereferences and of
  uses of deleted nodes.\<close>

theorem queue_memory_safe:
  assumes "run step es (sys_init n) s"
  shows "safe (resetqueue (que s)) \<and> safe (get_turn (que s)) \<and>
    (\<forall>t < length (thr s). case thr s ! t of
        PutReady a \<Rightarrow> safe (put_turn a (que s))
      | Holding a \<Rightarrow> safe (delete_node a (que s))
      | _ \<Rightarrow> True)"
proof -
  have inv: "sys_inv s" using queue.run_inv[OF sys_inv_init assms] .
  note wf = sys_invD(1)[OF inv]
  have get: "safe (get_turn (que s))"
  proof (cases "m_overflag (que s) = 0 \<and> items (que s) \<noteq> []")
    case True
    then obtain a as where "items (que s) = a # as" by (cases "items (que s)") auto
    from get_turn_takes[OF wf _ this] True show ?thesis by (metis safe_Inr)
  next
    case False
    then show ?thesis using wf_queueD(4)[OF wf] by (auto simp: get_turn_def)
  qed
  have put: "safe (put_turn a (que s))" if ready: "t < length (thr s)" "thr s ! t = PutReady a" for t a
  proof -
    obtain na where na: "fmlookup (store (que s)) a = Some na" "m_next na = None" "a \<notin> set (items (que s))"
      using put_enabled[OF inv ready] by metis
    show ?thesis
    proof (cases "m_maxsize (que s) \<le> m_cursize (que s)")
      case True
      then show ?thesis by (simp add: put_turn_waits)
    next
      case False
      then show ?thesis using put_turn_appends[OF wf _ na] by (metis not_le safe_Inr)
    qed
  qed
  have del: "safe (delete_node a (que s))" if "t < length (thr s)" "thr s ! t = Holding a" for t a
    using owned_node[OF inv that(1), of a] that(2) by (auto simp: delete_node_def)
  show ?thesis
    using get put del wf_resetqueue[OF wf] by (auto split: tstate.splits)
qed


section \<open>No wake-up is lost\<close>

text \<open>How many threads stand where, and how one thread's move changes that.\<close>

definition cnt :: "(tstate \<Rightarrow> bool) \<Rightarrow> tstate list \<Rightarrow> int" where
  "cnt P ts = int (length (filter P ts))"

lemma cnt_nonneg [simp]: "0 \<le> cnt P ts"
  by (simp add: cnt_def)

lemma cnt_Cons: "cnt P (z # zs) = (if P z then 1 else 0) + cnt P zs"
  by (simp add: cnt_def)

lemma cnt_upd:
  "t < length ts \<Longrightarrow> cnt P (ts[t := x]) = cnt P ts - (if P (ts ! t) then 1 else 0) + (if P x then 1 else 0)"
proof (induction ts arbitrary: t)
  case Nil
  then show ?case by simp
next
  case (Cons y ys)
  then show ?case by (cases t) (simp_all add: cnt_Cons)
qed

lemma cnt_pos: "0 < cnt P ts \<longleftrightarrow> (\<exists>s \<in> set ts. P s)"
  by (auto simp: cnt_def filter_empty_conv)

abbreviation "get_waiters \<equiv> cnt (\<lambda>s. s = GetWaits)"
abbreviation "get_readies \<equiv> cnt (\<lambda>s. s = GetReady)"
abbreviation "put_waiters \<equiv> cnt waits_put"
abbreviation "put_readies \<equiv> cnt ready_put"

lemma waits_put_iff: "waits_put s \<longleftrightarrow> (\<exists>a. s = PutWaits a)"
  by (cases s) auto

lemma put_waiters_pos: "0 < put_waiters ts \<longleftrightarrow> (\<exists>a. PutWaits a \<in> set ts)"
  by (auto simp: cnt_pos waits_put_iff)

lemma get_waiters_pos: "0 < get_waiters ts \<longleftrightarrow> GetWaits \<in> set ts"
  by (auto simp: cnt_pos)

text \<open>
  The invariant: the counters cover the waiting threads; as long as a thread waits in \<open>get\<close>
  there are at least as many threads on their way through \<open>get\<close> as elements; as long as one
  waits in \<open>put\<close> there are at least as many on their way through \<open>put\<close> as free places. The
  number \<open>n\<close> of steps so far bounds the counters, which never wrap.
\<close>

definition live :: "nat \<Rightarrow> 'a sys \<Rightarrow> bool" where
  "live n s \<longleftrightarrow> m_overflag (que s) = 0 \<and>
     get_waiters (thr s) \<le> m_freewait (que s) \<and> m_freewait (que s) \<le> int n \<and>
     put_waiters (thr s) \<le> m_fullwait (que s) \<and> m_fullwait (que s) \<le> int n \<and>
     (0 < get_waiters (thr s) \<longrightarrow> m_cursize (que s) \<le> get_readies (thr s)) \<and>
     (0 < put_waiters (thr s) \<longrightarrow> m_maxsize (que s) - m_cursize (que s) \<le> put_readies (thr s))"

lemmas liveD = live_def[THEN iffD1]

text \<open>What a wake-up by a signal does to the counts.\<close>

lemma wakes_counts:
  assumes "wakes sg w ts ts'"
  shows "get_waiters ts' = get_waiters ts - (if sg = SignalFree \<and> 0 < get_waiters ts then 1 else 0)"
    and "get_readies ts' = get_readies ts + (if sg = SignalFree \<and> 0 < get_waiters ts then 1 else 0)"
    and "put_waiters ts' = put_waiters ts - (if sg = SignalFull \<and> 0 < put_waiters ts then 1 else 0)"
    and "put_readies ts' = put_readies ts + (if sg = SignalFull \<and> 0 < put_waiters ts then 1 else 0)"
proof -
  have *: "get_waiters ts' = get_waiters ts - (if sg = SignalFree \<and> 0 < get_waiters ts then 1 else 0) \<and>
    get_readies ts' = get_readies ts + (if sg = SignalFree \<and> 0 < get_waiters ts then 1 else 0) \<and>
    put_waiters ts' = put_waiters ts - (if sg = SignalFull \<and> 0 < put_waiters ts then 1 else 0) \<and>
    put_readies ts' = put_readies ts + (if sg = SignalFull \<and> 0 < put_waiters ts then 1 else 0)"
  proof (cases w)
    case None
    then show ?thesis using assms by (cases sg) (auto simp: cnt_pos)
  next
    case (Some u)
    then have u: "u < length ts" "waiter sg (ts ! u)" "ts' = ts[u := rouse (ts ! u)]"
      using assms by simp_all
    then have "0 < cnt (waiter sg) ts" by (auto simp: cnt_pos)
    moreover have "waiter SignalFull = waits_put" "waiter SignalFree = (\<lambda>s. s = GetWaits)"
      by (rule ext, simp)+
    ultimately show ?thesis using u by (cases sg; cases "ts ! u") (auto simp: cnt_upd)
  qed
  then show "get_waiters ts' = get_waiters ts - (if sg = SignalFree \<and> 0 < get_waiters ts then 1 else 0)"
    and "get_readies ts' = get_readies ts + (if sg = SignalFree \<and> 0 < get_waiters ts then 1 else 0)"
    and "put_waiters ts' = put_waiters ts - (if sg = SignalFull \<and> 0 < put_waiters ts then 1 else 0)"
    and "put_readies ts' = put_readies ts + (if sg = SignalFull \<and> 0 < put_waiters ts then 1 else 0)"
    by blast+
qed


text \<open>The steps of threads that only put and get.\<close>

fun calm :: "'a event \<Rightarrow> bool" where
  "calm (SetSize k) = False"
| "calm (SetFlag f) = False"
| "calm (Reset xs) = False"
| "calm e = True"

lemma put_done_frame:
  assumes "sys_inv s" and "t < length (thr s)" and "thr s ! t = PutReady a"
    and "put_turn a (que s) = Inr (PutDone, q, sg)"
  shows "sg = (if m_freewait (que s) > 0 then SignalFree else NoSignal)"
    and "m_cursize q = m_cursize (que s) + 1" and "m_maxsize q = m_maxsize (que s)"
    and "m_overflag q = m_overflag (que s)" and "m_fullwait q = m_fullwait (que s)"
    and "m_freewait q = (if m_freewait (que s) > 0 then m_freewait (que s) - 1 else m_freewait (que s))"
proof -
  obtain na where na: "fmlookup (store (que s)) a = Some na" "m_next na = None" "a \<notin> set (items (que s))"
    using put_enabled[OF assms(1-3)] by metis
  have room: "m_cursize (que s) < m_maxsize (que s)"
    using assms(4) put_turn_waits[of "que s" a] by (cases "m_maxsize (que s) \<le> m_cursize (que s)") auto
  obtain q' where "put_turn a (que s) = Inr (PutDone, q', if m_freewait (que s) > 0 then SignalFree else NoSignal)"
    and q': "m_cursize q' = m_cursize (que s) + 1" "m_maxsize q' = m_maxsize (que s)"
      "m_overflag q' = m_overflag (que s)" "m_fullwait q' = m_fullwait (que s)"
      "m_freewait q' = (if m_freewait (que s) > 0 then m_freewait (que s) - 1 else m_freewait (que s))"
    using put_turn_appends[OF sys_invD(1)[OF assms(1)] room na] by metis
  then have "q = q'" and "sg = (if m_freewait (que s) > 0 then SignalFree else NoSignal)"
    using assms(4) by simp_all
  with q' show "sg = (if m_freewait (que s) > 0 then SignalFree else NoSignal)"
    and "m_cursize q = m_cursize (que s) + 1" and "m_maxsize q = m_maxsize (que s)"
    and "m_overflag q = m_overflag (que s)" and "m_fullwait q = m_fullwait (que s)"
    and "m_freewait q = (if m_freewait (que s) > 0 then m_freewait (que s) - 1 else m_freewait (que s))"
    by simp_all
qed

lemma get_got_frame:
  assumes "sys_inv s" and "get_turn (que s) = Inr (Got a, q, sg)"
  shows "sg = (if m_fullwait (que s) > 0 then SignalFull else NoSignal)"
    and "m_cursize q = m_cursize (que s) - 1" and "m_maxsize q = m_maxsize (que s)"
    and "m_overflag q = m_overflag (que s)" and "m_freewait q = m_freewait (que s)"
    and "m_fullwait q = (if m_fullwait (que s) > 0 then m_fullwait (que s) - 1 else m_fullwait (que s))"
proof -
  note wf = sys_invD(1)[OF assms(1)]
  have flag: "m_overflag (que s) = 0"
    using assms(2) get_turn_null[of "que s"] by (cases "m_overflag (que s) = 0") auto
  have "items (que s) \<noteq> []"
    using assms(2) get_turn_waits[OF flag] wf_queueD(4)[OF wf] by auto
  then obtain b as where items: "items (que s) = b # as" by (cases "items (que s)") auto
  obtain q' where "get_turn (que s) = Inr (Got b, q', if m_fullwait (que s) > 0 then SignalFull else NoSignal)"
    and q': "m_cursize q' = m_cursize (que s) - 1" "m_maxsize q' = m_maxsize (que s)"
      "m_overflag q' = m_overflag (que s)" "m_freewait q' = m_freewait (que s)"
      "m_fullwait q' = (if m_fullwait (que s) > 0 then m_fullwait (que s) - 1 else m_fullwait (que s))"
    using get_turn_takes[OF wf flag items] by metis
  then have "q = q'" and "sg = (if m_fullwait (que s) > 0 then SignalFull else NoSignal)"
    using assms(2) by simp_all
  with q' show "sg = (if m_fullwait (que s) > 0 then SignalFull else NoSignal)"
    and "m_cursize q = m_cursize (que s) - 1" and "m_maxsize q = m_maxsize (que s)"
    and "m_overflag q = m_overflag (que s)" and "m_freewait q = m_freewait (que s)"
    and "m_fullwait q = (if m_fullwait (que s) > 0 then m_fullwait (que s) - 1 else m_fullwait (que s))"
    by simp_all
qed

lemma put_begin_frame:
  "put_begin a q = Inr q' \<Longrightarrow> m_cursize q' = m_cursize q \<and> m_maxsize q' = m_maxsize q \<and>
     m_overflag q' = m_overflag q \<and> m_freewait q' = m_freewait q \<and> m_fullwait q' = m_fullwait q"
  by (auto simp: put_begin_def split: option.splits)

lemma delete_node_frame:
  "delete_node a q = Inr q' \<Longrightarrow> m_cursize q' = m_cursize q \<and> m_maxsize q' = m_maxsize q \<and>
     m_overflag q' = m_overflag q \<and> m_freewait q' = m_freewait q \<and> m_fullwait q' = m_fullwait q"
  by (auto simp: delete_node_def split: if_splits)

lemma new_node_frame [simp]:
  "m_cursize (new_node a d q) = m_cursize q" "m_maxsize (new_node a d q) = m_maxsize q"
  "m_overflag (new_node a d q) = m_overflag q" "m_freewait (new_node a d q) = m_freewait q"
  "m_fullwait (new_node a d q) = m_fullwait q"
  by (simp_all add: new_node_def)

lemma cnt_releaseFree:
  "get_waiters (releaseFree ts) = 0" "get_readies (releaseFree ts) = get_readies ts + get_waiters ts"
  "put_waiters (releaseFree ts) = put_waiters ts" "put_readies (releaseFree ts) = put_readies ts"
  unfolding releaseFree_def
  by (induction ts) (auto simp: cnt_Cons, auto simp: cnt_def)

lemma wrap_succ: "0 \<le> x \<Longrightarrow> x \<le> int n \<Longrightarrow> Suc n < 2 ^ 31 \<Longrightarrow> wrap32 (x + 1) = x + 1"
  by (simp add: wrap32_id int32_def)


lemma liveE:
  assumes "live n s"
  shows "m_overflag (que s) = 0" and "get_waiters (thr s) \<le> m_freewait (que s)"
    and "m_freewait (que s) \<le> int n" and "put_waiters (thr s) \<le> m_fullwait (que s)"
    and "m_fullwait (que s) \<le> int n"
    and "0 < get_waiters (thr s) \<Longrightarrow> m_cursize (que s) \<le> get_readies (thr s)"
    and "0 < put_waiters (thr s) \<Longrightarrow> m_maxsize (que s) - m_cursize (que s) \<le> put_readies (thr s)"
    and "0 \<le> m_freewait (que s)" and "0 \<le> m_fullwait (que s)"
  using assms by (auto simp: live_def intro: order_trans[OF cnt_nonneg])

text \<open>A step that leaves the queue's counts alone and moves one thread.\<close>

lemma live_move:
  assumes "live n s" and "t < length (thr s)"
    and "m_cursize q = m_cursize (que s)" "m_maxsize q = m_maxsize (que s)"
      "m_overflag q = m_overflag (que s)" "m_freewait q = m_freewait (que s)"
      "m_fullwait q = m_fullwait (que s)"
    and "x = GetWaits \<Longrightarrow> thr s ! t = GetWaits" and "waits_put x \<Longrightarrow> waits_put (thr s ! t)"
    and "thr s ! t = GetReady \<Longrightarrow> x = GetReady" and "ready_put (thr s ! t) \<Longrightarrow> ready_put x"
  shows "live (Suc n) \<lparr>que = q, thr = (thr s)[t := x]\<rparr>"
  unfolding live_def using liveE[OF assms(1)] assms(2-11) by (auto simp: cnt_upd)

lemma live_step:
  assumes "step e s s'" and "sys_inv s" and "live n s" and "calm e" and "Suc n < 2 ^ 31"
  shows "live (Suc n) s'"
  using assms
proof (induction rule: step.induct)
  case (New t s a d q)
  then show ?case using put_begin_frame[OF New(4)] by (intro live_move) auto
next
  case (Enter t s a q sg w ts)
  note f = put_done_frame[OF Enter(5,1,2,3)] and l = liveE[OF Enter(6)]
  note c = wakes_counts[OF Enter(4)]
  show ?case
    unfolding live_def using l f c Enter(1,2) cnt_nonneg[of _ "thr s"]
    by (auto simp: cnt_upd split: if_splits)
next
  case (PutBlocks t s a q sg)
  note l = liveE[OF PutBlocks(5)]
  have "q = que s\<lparr>m_fullwait := m_fullwait (que s) + 1\<rparr>" "m_maxsize (que s) \<le> m_cursize (que s)"
    using put_waiting_frame[OF PutBlocks(3)] wrap_succ[OF l(9,5) PutBlocks(7)] by simp_all
  moreover have "0 < put_readies (thr s)"
    unfolding cnt_pos using PutBlocks(1,2) by (metis nth_mem ready_put.simps(1))
  ultimately show ?case
    unfolding live_def using l PutBlocks(1,2) by (auto simp: cnt_upd)
next
  case (Call t s)
  then show ?case by (intro live_move) auto
next
  case (Leave t s a q sg w ts)
  note f = get_got_frame[OF Leave(5,3)] and l = liveE[OF Leave(6)]
  note c = wakes_counts[OF Leave(4)]
  show ?case
    unfolding live_def using l f c Leave(1,2) cnt_nonneg[of _ "thr s"]
    by (auto simp: cnt_upd split: if_splits)
next
  case (GetBlocks t s q sg)
  note l = liveE[OF GetBlocks(5)]
  have "q = que s\<lparr>m_freewait := m_freewait (que s) + 1\<rparr>" "m_cursize (que s) = 0"
    using get_waiting_frame[OF GetBlocks(3)] wrap_succ[OF l(8,3) GetBlocks(7)] by simp_all
  moreover have "0 < get_readies (thr s)"
    unfolding cnt_pos using GetBlocks(1,2) by (metis nth_mem)
  ultimately show ?case
    unfolding live_def using l GetBlocks(1,2) by (auto simp: cnt_upd)
next
  case (GetNull t s q sg)
  then show ?case using get_null_frame[OF GetNull(3)] liveE(1)[OF GetNull(5)] by simp
next
  case (Free t s a q)
  then show ?case using delete_node_frame[OF Free(3)] by (intro live_move) auto
next
  case (Spurious t s)
  show ?case
    unfolding live_def using liveE[OF Spurious(4)] Spurious(1,2)
    by (cases "thr s ! t") (auto simp: cnt_upd)
next
  case (ReleaseFree s)
  then show ?case
    unfolding live_def using liveE[OF ReleaseFree(2)] by (auto simp: cnt_releaseFree)
qed simp_all

lemma live_init: "live 0 (sys_init n)"
  by (simp add: live_def sys_init_def pqueue_init_def cnt_def)

lemma live_run:
  assumes "run step es s s'" and "sys_inv s" and "live n s" and "\<forall>e \<in> set es. calm e"
    and "n + length es < 2 ^ 31"
  shows "live (n + length es) s'"
  using assms
proof (induction es arbitrary: s n)
  case Nil
  then show ?case by simp
next
  case (Cons e es)
  then obtain u where u: "step e s u" "run step es u s'" by auto
  have "live (Suc n) u" using live_step[OF u(1) Cons.prems(2,3)] Cons.prems(4,5) by simp
  moreover have "sys_inv u" using queue.stp_inv[OF Cons.prems(2) u(1)] .
  ultimately show ?case using Cons.IH[OF u(2), of "Suc n"] Cons.prems(4,5) by simp
qed

text \<open>C6: as long as threads only put, get, wake each other with \<open>releaseFree\<close> and wake up
  spuriously, no wake-up is lost, whatever the interleaving: when some thread waits in \<open>get\<close>
  there are at least as many threads on their way through \<open>get\<close> as elements in the queue, and
  when some thread waits in \<open>put\<close> there are at least as many on their way through \<open>put\<close> as
  free places. (Up to 2^31 steps, after which the counters of waiters could wrap.)\<close>

theorem no_lost_wakeup:
  assumes "run step es (sys_init n) s" and "\<forall>e \<in> set es. calm e" and "length es < 2 ^ 31"
  shows "(GetWaits \<in> set (thr s) \<longrightarrow> int (length (contents (que s))) \<le> get_readies (thr s)) \<and>
    ((\<exists>a. PutWaits a \<in> set (thr s)) \<longrightarrow>
       m_maxsize (que s) - int (length (contents (que s))) \<le> put_readies (thr s))"
proof -
  have inv: "sys_inv s" using queue.run_inv[OF sys_inv_init assms(1)] .
  have "live (length es) s" using live_run[OF assms(1) sys_inv_init live_init assms(2)] assms(3) by simp
  from liveE(6,7)[OF this] show ?thesis
    using length_contents[OF sys_invD(1)[OF inv]] by (auto simp: put_waiters_pos get_waiters_pos)
qed

text \<open>C7: therefore the threads cannot block each other: in a reachable state in which every thread is
  idle, holds a node or waits, a thread waits in \<open>get\<close> only on an empty queue and in \<open>put\<close> only
  on a full one, and never two threads wait in the two calls at once.\<close>

theorem no_deadlock:
  assumes "run step es (sys_init n) s" and "\<forall>e \<in> set es. calm e" and "length es < 2 ^ 31"
    and "\<forall>x \<in> set (thr s). x \<noteq> GetReady \<and> \<not> ready_put x"
  shows "(GetWaits \<in> set (thr s) \<longrightarrow> contents (que s) = []) \<and>
    ((\<exists>a. PutWaits a \<in> set (thr s)) \<longrightarrow> int (length (contents (que s))) = m_maxsize (que s)) \<and>
    \<not> (GetWaits \<in> set (thr s) \<and> (\<exists>a. PutWaits a \<in> set (thr s)))"
proof -
  have inv: "sys_inv s" using queue.run_inv[OF sys_inv_init assms(1)] .
  have "live (length es) s" using live_run[OF assms(1) sys_inv_init live_init assms(2)] assms(3) by simp
  moreover have "get_readies (thr s) = 0" "put_readies (thr s) = 0"
    using assms(4) by (auto simp: cnt_def filter_empty_conv)
  ultimately have get: "GetWaits \<in> set (thr s) \<Longrightarrow> m_cursize (que s) \<le> 0"
    and put: "PutWaits a \<in> set (thr s) \<Longrightarrow> m_maxsize (que s) \<le> m_cursize (que s)" for a
    using liveE(6,7)[of "length es" s] by (auto simp: put_waiters_pos get_waiters_pos)
  show ?thesis
    using get put length_contents[OF sys_invD(1)[OF inv]] wf_queueD(4-6)[OF sys_invD(1)[OF inv]]
    by fastforce
qed


section \<open>Around resetqueue\<close>

lemma reset_state:
  assumes "sys_inv s" and "step (Reset xs) s s'"
  shows "thr s' = thr s" and "contents (que s') = []" and "m_cursize (que s') = 0"
    and "m_overflag (que s') = 0" and "m_fullwait (que s') = 0" and "m_freewait (que s') = 0"
  using assms(2) inv_Reset(2)[OF assms(1)] wf_resetqueue[OF sys_invD(1)[OF assms(1)]]
  by (auto simp: step_Reset pqueue_init_def)

text \<open>\<open>logmt::logover\<close> sets the flag, wakes the waiting writer and resets the queue, which
  clears the flag again: when the writer has not run in between, it finds the flag clear and an
  empty queue and waits for good; it never gets the null that ends it. Had it run before the
  reset, it would have got null.\<close>

theorem logover_may_miss_writer:
  assumes "run step es (sys_init n) s" and "t < length (thr s)" and "thr s ! t = GetWaits"
    and "run step [SetFlag 1, ReleaseFree, Reset xs] s s'"
  shows "(\<exists>s''. step (GetBlocks t) s' s'' \<and> thr s'' ! t = GetWaits) \<and>
    \<not> (\<exists>s''. step (GetNull t) s' s'') \<and>
    (\<exists>s1 s2. run step [SetFlag 1, ReleaseFree] s s1 \<and> step (GetNull t) s1 s2 \<and> thr s2 ! t = Finished)"
proof -
  have inv: "sys_inv s" using queue.run_inv[OF sys_inv_init assms(1)] .
  obtain s1 where s1: "run step [SetFlag 1, ReleaseFree] s s1" and reset: "step (Reset xs) s1 s'"
    using assms(4) by auto
  have s1_eq: "s1 = \<lparr>que = setflag 1 (que s), thr = releaseFree (thr s)\<rparr>"
    using s1 by (auto simp: step_SetFlag step_ReleaseFree)
  have ready: "t < length (thr s1)" "thr s1 ! t = GetReady"
    using assms(2,3) by (simp_all add: s1_eq releaseFree_def)
  have null: "get_turn (que s1) = Inr (GotNull, que s1, NoSignal)"
    by (rule get_turn_null) (simp add: s1_eq setflag_def)
  have "sys_inv s1" using queue.run_inv[OF inv s1] .
  note r = reset_state[OF this reset]
  have "get_turn (que s') = Inr (GetWaiting, que s'\<lparr>m_freewait := wrap32 (m_freewait (que s') + 1)\<rparr>, NoSignal)"
    using r(3,4) by (simp add: get_turn_waits)
  moreover have "t < length (thr s')" "thr s' ! t = GetReady" using ready r(1) by simp_all
  ultimately have "\<exists>s''. step (GetBlocks t) s' s'' \<and> thr s'' ! t = GetWaits"
    "\<not> (\<exists>s''. step (GetNull t) s' s'')"
    by (auto simp: step_GetBlocks step_GetNull)
  moreover have "\<exists>s2. step (GetNull t) s1 s2 \<and> thr s2 ! t = Finished"
    using ready null by (auto simp: step_GetNull)
  ultimately show ?thesis using s1 by blast
qed

text \<open>A thread that waits in \<open>put\<close> while the counter of such threads is zero is never signalled.\<close>

fun may_rouse :: "nat \<Rightarrow> 'a event \<Rightarrow> bool" where
  "may_rouse u (PutBlocks t) = True"
| "may_rouse u (Spurious t) = (t = u)"
| "may_rouse u e = False"

lemma wakes_other:
  "wakes sg w ts ts' \<Longrightarrow> u < length ts \<Longrightarrow> \<not> waiter sg (ts ! u) \<Longrightarrow> ts' ! u = ts ! u"
  by (cases w) (auto simp: nth_list_update)

lemma stranded_step:
  assumes "step e s s'" and "sys_inv s" and "\<not> may_rouse u e" and "u < length (thr s)"
    and "thr s ! u = PutWaits a" and "m_fullwait (que s) = 0"
  shows "thr s' ! u = PutWaits a \<and> m_fullwait (que s') = 0 \<and> u < length (thr s')"
  using assms
proof (induction rule: step.induct)
  case (New t s b d q)
  then show ?case using put_begin_frame[OF New(4)] by (cases "t = u") auto
next
  case (Enter t s b q sg w ts)
  then have "t \<noteq> u" by auto
  then have "((thr s)[t := Idle]) ! u = PutWaits a" using Enter(8) by simp
  moreover have "\<not> waiter sg (PutWaits a)" using put_done_frame(1)[OF Enter(5,1,2,3)] by simp
  ultimately show ?case
    using put_done_frame(5)[OF Enter(5,1,2,3)] wakes_other[OF Enter(4), of u]
      wakes_owners(1)[OF Enter(4)] Enter(7,9) by simp
next
  case (Leave t s b q sg w ts)
  then have "t \<noteq> u" by auto
  then have "((thr s)[t := Holding b]) ! u = PutWaits a" using Leave(8) by simp
  moreover have "\<not> waiter sg (PutWaits a)" using get_got_frame(1)[OF Leave(5,3)] Leave(9) by simp
  ultimately show ?case
    using get_got_frame(6)[OF Leave(5,3)] wakes_other[OF Leave(4), of u]
      wakes_owners(1)[OF Leave(4)] Leave(7,9) by simp
next
  case (GetBlocks t s q sg)
  then show ?case using get_waiting_frame[OF GetBlocks(3)] by (cases "t = u") auto
next
  case (GetNull t s q sg)
  then show ?case using get_null_frame[OF GetNull(3)] by (cases "t = u") auto
next
  case (Free t s b q)
  then show ?case using delete_node_frame[OF Free(3)] by (cases "t = u") auto
next
  case (Spurious t s)
  then show ?case by (cases "t = u") auto
next
  case (Call t s)
  then show ?case by (cases "t = u") auto
next
  case (SetSize k s)
  then show ?case by (simp add: setsize_def)
next
  case (SetFlag f s)
  then show ?case by (simp add: setflag_def)
next
  case (ReleaseFree s)
  then show ?case by (simp add: releaseFree_def)
next
  case (Reset s q)
  then show ?case using wf_resetqueue[OF sys_invD(1)[OF Reset(2)]] by (auto simp: pqueue_init_def)
qed simp

lemma stranded_run:
  assumes "run step es s s'" and "sys_inv s" and "\<forall>e \<in> set es. \<not> may_rouse u e"
    and "u < length (thr s)" and "thr s ! u = PutWaits a" and "m_fullwait (que s) = 0"
  shows "thr s' ! u = PutWaits a"
  using assms
proof (induction es arbitrary: s)
  case Nil
  then show ?case by simp
next
  case (Cons e es)
  then obtain v where v: "step e s v" "run step es v s'" by auto
  have "thr v ! u = PutWaits a \<and> m_fullwait (que v) = 0 \<and> u < length (thr v)"
    using stranded_step[OF v(1) Cons.prems(2) _ Cons.prems(4-6)] Cons.prems(3) by simp
  then show ?case using Cons.IH[OF v(2) queue.stp_inv[OF Cons.prems(2) v(1)]] Cons.prems(3) by simp
qed

text \<open>\<open>resetqueue\<close> empties the queue but wakes nobody and zeroes the count of threads that wait in
  \<open>put\<close>: such a thread goes on waiting beside an empty queue, however much is put and taken
  afterwards, until another thread blocks in \<open>put\<close> or the wait ends without a signal.\<close>

theorem resetqueue_strands_putters:
  assumes "run step es (sys_init n) s" and "u < length (thr s)" and "thr s ! u = PutWaits a"
    and "step (Reset xs) s s1" and "run step fs s1 s'" and "\<forall>e \<in> set fs. \<not> may_rouse u e"
  shows "contents (que s1) = [] \<and> thr s' ! u = PutWaits a"
proof -
  have inv: "sys_inv s" using queue.run_inv[OF sys_inv_init assms(1)] .
  note r = reset_state[OF inv assms(4)]
  show ?thesis
    using r stranded_run[OF assms(5) queue.stp_inv[OF inv assms(4)] assms(6), of a] assms(2,3) by simp
qed


section \<open>Concrete runs\<close>

text \<open>Two threads: thread 1 waits in \<open>get\<close>, thread 0 puts a line and wakes it.\<close>

definition waiting_sys :: "string sys" where
  "waiting_sys = \<lparr>que = (pqueue_init fmempty)\<lparr>m_freewait := 1\<rparr>, thr = [Idle, GetWaits]\<rparr>"

lemma waiting_run: "run step [Call 1, GetBlocks 1] (sys_init 2) waiting_sys"
proof -
  let ?s = "\<lparr>que = pqueue_init fmempty, thr = [Idle, GetReady]\<rparr> :: string sys"
  have "step (Call 1) (sys_init 2) ?s"
    using step.Call[of 1 "sys_init 2 :: string sys"]
    by (simp add: sys_init_def numeral_2_eq_2)
  moreover have "step (GetBlocks 1) ?s waiting_sys"
    by (simp add: step_GetBlocks waiting_sys_def get_turn_def pqueue_init_def wrap32_id int32_def)
  ultimately show ?thesis by auto
qed

definition filled_sys :: "string sys" where
  "filled_sys = \<lparr>que = \<lparr>store = fmupd 7 \<lparr>m_data = ''a'', m_next = None\<rparr> fmempty, m_head = Some 7,
     m_tail = AtNext 7, m_cursize = 1, m_maxsize = 100, m_overflag = 0, m_fullwait = 0,
     m_freewait = 0\<rparr>, thr = [Idle, GetReady]\<rparr>"

lemma filled_run: "run step [New 0 7 ''a'', Enter 0 ''a'' (Some 1)] waiting_sys filled_sys"
proof -
  let ?q = "(pqueue_init fmempty)\<lparr>m_freewait := 1, store := fmupd 7 \<lparr>m_data = ''a'', m_next = None\<rparr> fmempty\<rparr>"
  let ?s = "\<lparr>que = ?q, thr = [PutReady 7, GetWaits]\<rparr> :: string sys"
  have "step (New 0 7 ''a'') waiting_sys ?s"
    using step.New[of 0 waiting_sys 7 "''a''" ?q]
    by (simp add: waiting_sys_def new_node_def put_begin_def pqueue_init_def)
  moreover have "step (Enter 0 ''a'' (Some 1)) ?s filled_sys"
    using step.Enter[of 0 ?s 7 "que filled_sys" SignalFree "Some 1" "[Idle, GetReady]"]
    by (simp add: filled_sys_def put_turn_def store_tail_def pqueue_init_def data_at_def
        wrap32_id int32_def DEFAULT_SIZE_def)
  ultimately show ?thesis by auto
qed

lemma sample_run:
  "run step [Call 1, GetBlocks 1, New 0 7 ''a'', Enter 0 ''a'' (Some 1)] (sys_init 2) filled_sys"
  using run_append[of step "[Call 1, GetBlocks 1]" "[New 0 7 ''a'', Enter 0 ''a'' (Some 1)]"]
    waiting_run filled_run by auto

theorem queue_fifo_witness: "contents (que filled_sys) = [''a'']"
  using queue_fifo[OF sample_run] by simp

theorem queue_memory_safe_witness: "safe (get_turn (que filled_sys))"
  using queue_memory_safe[OF sample_run] by blast

theorem no_lost_wakeup_witness:
  "GetWaits \<in> set (thr waiting_sys) \<and> contents (que waiting_sys) = []"
proof -
  have "GetWaits \<in> set (thr waiting_sys)" "get_readies (thr waiting_sys) = 0"
    by (simp_all add: waiting_sys_def cnt_def)
  then show ?thesis using no_lost_wakeup[OF waiting_run] by simp
qed

theorem no_deadlock_witness:
  "contents (que waiting_sys) = [] \<and> \<not> (\<exists>a. PutWaits a \<in> set (thr waiting_sys))"
proof -
  have "\<forall>x \<in> set (thr waiting_sys). x \<noteq> GetReady \<and> \<not> ready_put x" "GetWaits \<in> set (thr waiting_sys)"
    by (simp_all add: waiting_sys_def)
  with no_deadlock[OF waiting_run] show ?thesis by simp
qed

lemma reset_enabled: "sys_inv s \<Longrightarrow> \<exists>s'. step (Reset (contents (que s))) s s'"
  using wf_resetqueue[OF sys_invD(1)] by (auto simp: step_Reset)

theorem logover_may_miss_writer_witness:
  "\<exists>xs s' s''. run step [SetFlag 1, ReleaseFree, Reset xs] waiting_sys s' \<and>
     step (GetBlocks 1) s' s'' \<and> thr s'' ! 1 = GetWaits"
proof -
  let ?s1 = "\<lparr>que = setflag 1 (que waiting_sys), thr = releaseFree (thr waiting_sys)\<rparr>"
  have s1: "run step [SetFlag 1, ReleaseFree] waiting_sys ?s1"
    by (simp add: step_SetFlag step_ReleaseFree)
  have "sys_inv ?s1" using queue.run_inv[OF queue.run_inv[OF sys_inv_init waiting_run] s1] .
  then obtain s' where "step (Reset (contents (que ?s1))) ?s1 s'" using reset_enabled by blast
  with s1 have run: "run step [SetFlag 1, ReleaseFree, Reset (contents (que ?s1))] waiting_sys s'"
    by auto
  have "1 < length (thr waiting_sys)" "thr waiting_sys ! 1 = GetWaits" by (simp_all add: waiting_sys_def)
  from logover_may_miss_writer[OF waiting_run this run] run show ?thesis by blast
qed


text \<open>With a bound of one, a second \<open>put\<close> blocks.\<close>

definition full_sys :: "string sys" where
  "full_sys = \<lparr>que = \<lparr>store = fmupd 8 \<lparr>m_data = ''b'', m_next = None\<rparr>
       (fmupd 7 \<lparr>m_data = ''a'', m_next = None\<rparr> fmempty), m_head = Some 7,
     m_tail = AtNext 7, m_cursize = 1, m_maxsize = 1, m_overflag = 0, m_fullwait = 1,
     m_freewait = 0\<rparr>, thr = [Idle, PutWaits 8]\<rparr>"

lemma full_run:
  "run step [SetSize 1, New 0 7 ''a'', Enter 0 ''a'' None, New 1 8 ''b'', PutBlocks 1] (sys_init 2) full_sys"
  by (simp add: step_SetSize step_New step_Enter step_PutBlocks sys_init_def full_sys_def
      pqueue_init_def setsize_def new_node_def put_begin_def put_turn_def store_tail_def
      data_at_def wrap32_id int32_def DEFAULT_SIZE_def numeral_2_eq_2)

theorem resetqueue_strands_putters_witness:
  "\<exists>xs s1. step (Reset xs) full_sys s1 \<and> contents (que s1) = [] \<and> thr s1 ! 1 = PutWaits 8"
proof -
  have "sys_inv full_sys" using queue.run_inv[OF sys_inv_init full_run] .
  then obtain s1 where s1: "step (Reset (contents (que full_sys))) full_sys s1"
    using reset_enabled by blast
  have "1 < length (thr full_sys)" "thr full_sys ! 1 = PutWaits 8" by (simp_all add: full_sys_def)
  with resetqueue_strands_putters[OF full_run this s1, of "[]" s1] s1 show ?thesis by auto
qed

end
