(* ===== verification/LogMt.thy ===== *)
theory LogMt
  imports QueueThreads CTime FileSys
begin

text \<open>
  The logger of \<open>src/logmt.cc\<close>: \<open>logstring\<close> copies a line into a node of 1024 bytes and puts it
  into the queue; the thread \<open>mtlogthr\<close> takes lines out, appends them to
  \<open>../runlog/server.log\<close> and, before every 50000th line, renames that file to one named by the
  local time. The time zone is the parameter \<open>off\<close>: the seconds between local time and UTC at
  an instant. The theorems: which lines fit, what the thread leaves on disk after any number
  of rotations, and that it needs the directory to be writable.
\<close>

section \<open>Putting a line into the queue\<close>

text \<open>\<open>sprintf(p->m_data.m_buf, "%s\n", str)\<close> with \<open>char m_buf[MAX_LINE_LEN]\<close>, then
  \<open>put(p)\<close> up to the end of its first turn; \<open>a\<close> is the address that \<open>new\<close> returns. When that
  turn waits, \<open>put\<close> goes on with \<open>put_turn a\<close> each time it is woken.\<close>

definition log_line :: "string \<Rightarrow> string run" where
  "log_line str = sprintf MAX_LINE_LEN (cstr str @ [newline])"

definition logstring ::
    "nat \<Rightarrow> string \<Rightarrow> string pqueue \<Rightarrow> (put_result \<times> string pqueue \<times> signal) run" where
  "logstring a str q =
    bnd (log_line str) (\<lambda>text. bnd (put_begin a (new_node a text q)) (put_turn a))"

definition logstart :: "string pqueue \<Rightarrow> string pqueue" where
  "logstart q = setflag 0 (setsize 100 q)"

text \<open>The three calls of \<open>logover\<close>, with no other thread between them.\<close>

definition logover :: "string sys \<Rightarrow> string sys run" where
  "logover s =
    bnd (resetqueue (setflag 1 (que s))) (\<lambda>q. Inr \<lparr>que = q, thr = releaseFree (thr s)\<rparr>)"

section \<open>The writer thread\<close>

definition MAX_LOG_CUNT :: int where "MAX_LOG_CUNT = 50000"
definition LOG_NAME :: string where "LOG_NAME = ''../runlog/server.log''"

definition localtime :: "(int \<Rightarrow> int) \<Rightarrow> int \<Rightarrow> tm" where
  "localtime off t = gmtime (t + off t)"

text \<open>\<open>strftime(fname, 79, "../runlog/%Y-%m-%d_%H-%M-%S.log", at)\<close>; a text that does not fit leaves
  the array indeterminate.\<close>

definition log_file_name :: "tm \<Rightarrow> string run" where
  "log_file_name p =
    (let s = ''../runlog/'' @ strftime_log p
     in if length s < 79 then Inr s else Inl Uninitialised)"

record writer =
  w_count :: int   \<comment> \<open>\<open>count\<close>\<close>
  w_open :: bool   \<comment> \<open>\<open>fp\<close> is not null\<close>
  w_done :: bool   \<comment> \<open>the loop was left\<close>

definition writer_init :: writer where
  "writer_init = \<lparr>w_count = 0, w_open = False, w_done = False\<rparr>"

text \<open>\<open>if (!count) { ... rename(LOG_NAME, fname); fp = fopen(LOG_NAME, "wb"); }\<close>\<close>

definition rotate_log :: "(int \<Rightarrow> int) \<Rightarrow> int \<Rightarrow> writer \<times> fsys \<Rightarrow> (writer \<times> fsys) run" where
  "rotate_log off now st =
    (case st of (w, fs) \<Rightarrow>
      if w_count w \<noteq> 0 then Inr (w, fs)
      else bnd (log_file_name (localtime off now)) (\<lambda>fname.
        let fs1 = ignoring (rename fs LOG_NAME fname) fs
        in case fopen_w fs1 LOG_NAME of
             None \<Rightarrow> Inr (w\<lparr>w_open := False\<rparr>, fs1)
           | Some fs2 \<Rightarrow> Inr (w\<lparr>w_open := True\<rparr>, fs2)))"

text \<open>The body of the loop for what \<open>get\<close> returned at the time \<open>now\<close>: null closes the file and
  ends the thread; a line is written (\<open>fputs\<close> on a null stream faults).\<close>

definition mtlogthr_turn ::
    "(int \<Rightarrow> int) \<Rightarrow> int \<times> string option \<Rightarrow> writer \<times> fsys \<Rightarrow> (writer \<times> fsys) run" where
  "mtlogthr_turn off got st =
    (if w_done (fst st) then Inr st
     else case got of
       (now, None) \<Rightarrow> Inr ((fst st)\<lparr>w_open := False, w_done := True\<rparr>, snd st)
     | (now, Some buf) \<Rightarrow>
         bnd (rotate_log off now st) (\<lambda>(w, fs).
           if \<not> w_open w then Inl NullDeref
           else let n = wrap32 (w_count w + 1)
                in Inr (w\<lparr>w_count := (if n \<ge> MAX_LOG_CUNT then 0 else n)\<rparr>,
                        fwrite LOG_NAME (cstr buf) fs)))"

definition mtlogthr ::
    "(int \<Rightarrow> int) \<Rightarrow> (int \<times> string option) list \<Rightarrow> writer \<times> fsys \<Rightarrow> (writer \<times> fsys) run" where
  "mtlogthr off = for_each (mtlogthr_turn off)"

section \<open>Which lines fit\<close>

text \<open>C22: a log line of at most 1022 bytes is copied with a newline into its node and appended to
  the queue when the queue holds fewer than \<open>m_maxsize\<close> lines; on a full queue the call waits,
  nothing is queued, the node keeps the line, and the first turn of the waiting call that finds
  room appends exactly that line. A longer line is written past the end of the node's buffer.\<close>

theorem logstring_bound:
  assumes "wf_queue q" and "fmlookup (store q) a = None"
  shows "if length (cstr str) \<le> 1022
    then (\<exists>r q' sg. logstring a str q = Inr (r, q', sg) \<and> wf_queue q' \<and>
        (r = PutDone, contents q') = add_spec (m_maxsize q) (cstr str @ [newline]) (contents q) \<and>
        fmlookup (store q') a = Some \<lparr>m_data = cstr str @ [newline], m_next = None\<rparr> \<and>
        (r = PutDone \<longleftrightarrow> a \<in> set (items q'))) \<and>
      (\<forall>q2. wf_queue q2 \<and> fmlookup (store q2) a = Some \<lparr>m_data = cstr str @ [newline], m_next = None\<rparr> \<and>
         a \<notin> set (items q2) \<and> int (length (contents q2)) < m_maxsize q2 \<longrightarrow>
         (\<exists>q3 sg. put_turn a q2 = Inr (PutDone, q3, sg) \<and> wf_queue q3 \<and>
            contents q3 = contents q2 @ [cstr str @ [newline]]))
    else logstring a str q = Inl BufferOverflow"
proof (cases "length (cstr str) \<le> 1022")
  case True
  let ?nd = "\<lparr>m_data = cstr str @ [newline], m_next = None\<rparr>" and ?q1 = "new_node a (cstr str @ [newline]) q"
  have fresh: "a \<notin> set (items q)" using wf_queueD(8)[OF assms(1)] assms(2) by metis
  note w1 = wf_new_node[OF assms, of "cstr str @ [newline]"]
  have nd1: "fmlookup (store ?q1) a = Some ?nd" and "m_maxsize ?q1 = m_maxsize q" by (simp_all add: new_node_def)
  then obtain q' where begin': "put_begin a ?q1 = Inr q'" and w': "wf_queue q'" "items q' = items q"
      "contents q' = contents q" "fmlookup (store q') a = Some ?nd" "m_maxsize q' = m_maxsize q"
    using wf_put_begin[OF w1(1) nd1] w1(2,3) fresh
    by (metis node.select_convs(1) node.simps(4) node.update_convs(2))
  have data: "data_at q' a = cstr str @ [newline]" using w'(4) by (simp add: data_at_def)
  have call: "logstring a str q = put_turn a q'"
    using True begin' by (simp add: logstring_def log_line_def MAX_LINE_LEN_def)
  have first: "\<exists>r q2 sg. put_turn a q' = Inr (r, q2, sg) \<and> wf_queue q2 \<and>
      (r = PutDone, contents q2) = add_spec (m_maxsize q) (cstr str @ [newline]) (contents q) \<and>
      fmlookup (store q2) a = Some ?nd \<and> (r = PutDone \<longleftrightarrow> a \<in> set (items q2))"
    using put_turn_node[OF w'(1,4)] fresh w'(2,3,5) data by auto
  have later: "\<exists>q3 sg. put_turn a q2 = Inr (PutDone, q3, sg) \<and> wf_queue q3 \<and>
      contents q3 = contents q2 @ [cstr str @ [newline]]"
    if "wf_queue q2" "fmlookup (store q2) a = Some ?nd" "a \<notin> set (items q2)"
      "int (length (contents q2)) < m_maxsize q2" for q2
    using put_turn_node[OF that(1,2)] that(2-4) by (auto simp: add_spec_def data_at_def)
  show ?thesis using True first later call by auto
next
  case False
  then show ?thesis by (simp add: logstring_def log_line_def sprintf_def MAX_LINE_LEN_def)
qed

text \<open>The three calls in a row are three steps of the thread relation.\<close>

lemma logover_steps:
  "logover s = Inr s' \<longleftrightarrow> (\<exists>xs. run step [SetFlag 1, ReleaseFree, Reset xs] s s')"
  by (cases "resetqueue (setflag 1 (que s))")
    (auto simp: logover_def step_SetFlag step_ReleaseFree step_Reset)

section \<open>What the thread leaves on disk\<close>

definition runlog :: string where "runlog = ''../runlog''"
definition server_log :: string where "server_log = ''server.log''"

lemma LOG_NAME_path: "LOG_NAME = path_of runlog server_log"
  by (simp add: LOG_NAME_def path_of_def runlog_def server_log_def)

lemma live_log_valid [simp]: "valid_name server_log" "CHR ''/'' \<notin> set server_log"
  by (simp_all add: server_log_def valid_name_def is_dot_def)

text \<open>The name that the rotation at \<open>now\<close> gives the old file, for the times that have one.\<close>

definition rot_name :: "(int \<Rightarrow> int) \<Rightarrow> int \<Rightarrow> string" where
  "rot_name off now = strftime_log (localtime off now)"

definition good_time :: "(int \<Rightarrow> int) \<Rightarrow> int \<Rightarrow> bool" where
  "good_time off now \<longleftrightarrow> 0 \<le> now + off now \<and> tm_year (localtime off now) \<le> 9999"

lemma digits_not: "d < 10 \<Longrightarrow> CHR ''/'' \<noteq> digit_char d"
proof -
  have "\<not> is_digit (CHR ''/'')" by (simp add: is_digit_def less_eq_char_def)
  then show "d < 10 \<Longrightarrow> CHR ''/'' \<noteq> digit_char d" using digit_char_digit by metis
qed

lemma pad2_not: "0 \<le> n \<Longrightarrow> n < 100 \<Longrightarrow> CHR ''/'' \<notin> set (pad2 n)"
proof -
  assume "0 \<le> n" and "n < 100"
  then have "nat (n div 10) < 10" and "nat (n mod 10) < 10" by auto
  then show ?thesis using digits_not by (auto simp: pad2_def)
qed

lemma length_pad2 [simp]: "length (pad2 n) = 2"
  by (simp add: pad2_def)

lemma rot_name_shape:
  assumes "good_time off now"
  shows "valid_name (rot_name off now)" and "length (rot_name off now) = 23"
    and "rot_name off now \<noteq> server_log"
proof -
  have ok: "tm_ok (localtime off now)"
    using assms unfolding good_time_def localtime_def by (intro gmtime_ok) auto
  then have year: "length (int_str (tm_year (localtime off now))) = 4"
    by (simp add: tm_ok_def year_str)
  have slash: "CHR ''/'' \<notin> set (int_str (tm_year (localtime off now)))"
    using int_str_set[of "CHR ''/''"] by (auto simp: is_digit_def less_eq_char_def)
  show len: "length (rot_name off now) = 23"
    by (simp add: rot_name_def strftime_log_def year)
  have "nul_free (rot_name off now)" using ok by (simp add: rot_name_def nul_free_strftime)
  moreover have "CHR ''/'' \<notin> set (rot_name off now)"
    using ok slash pad2_not by (auto simp: rot_name_def strftime_log_def tm_ok_def)
  ultimately show "valid_name (rot_name off now)"
    using len by (auto simp: valid_name_def is_dot_def)
  show "rot_name off now \<noteq> server_log" using len by (auto simp: server_log_def)
qed

lemma log_file_name_path:
  "good_time off now \<Longrightarrow> log_file_name (localtime off now) = Inr (path_of runlog (rot_name off now))"
  using rot_name_shape(2)[of off now]
  by (simp add: log_file_name_def rot_name_def path_of_def runlog_def Let_def)

text \<open>One rotation: the former \<open>server.log\<close>, if there was one, has the new name, and an empty
  \<open>server.log\<close> is open.\<close>

lemma rotate_effect:
  assumes "writable_dir fs runlog" and "good_time off now" and "w_count w = 0"
  obtains fs' where "rotate_log off now (w, fs) = Inr (w\<lparr>w_open := True\<rparr>, fs')"
    and "writable_dir fs' runlog" and "file_of fs' runlog server_log = Some (new_file [])"
    and "file_of fs' runlog (rot_name off now) =
      (case file_of fs runlog server_log of None \<Rightarrow> file_of fs runlog (rot_name off now) | Some f \<Rightarrow> Some f)"
    and "\<And>n. n \<noteq> server_log \<Longrightarrow> n \<noteq> rot_name off now \<Longrightarrow> file_of fs' runlog n = file_of fs runlog n"
    and "\<And>d. d \<noteq> runlog \<Longrightarrow> fs' d = fs d"
proof -
  let ?n = "rot_name off now"
  note shape = rot_name_shape[OF assms(2)]
  define fs1 where "fs1 = ignoring (rename fs LOG_NAME (path_of runlog ?n)) fs"
  have fs1: "fs1 = (case file_of fs runlog server_log of None \<Rightarrow> fs
      | Some f \<Rightarrow> put_in runlog ?n f (del_in runlog server_log fs))"
    using assms(1) shape(1,3)
    by (auto simp: fs1_def rename_def ignoring_def LOG_NAME_path valid_nameD split: option.splits)
  have dir: "has_dir fs runlog" using assms(1) by (rule writable_has_dir)
  then have dir': "has_dir (del_in runlog server_log fs) runlog" by (simp add: files.dir_del)
  have gone: "file_of fs1 runlog server_log = None"
    and look: "\<And>n. n \<noteq> server_log \<Longrightarrow> file_of fs1 runlog n =
      (if n = ?n then (case file_of fs runlog server_log of None \<Rightarrow> file_of fs runlog ?n | Some f \<Rightarrow> Some f)
       else file_of fs runlog n)"
    and w1: "writable_dir fs1 runlog"
    using assms(1) shape(3) dir'
    by (auto simp: fs1 file_of_put_in file_of_del_in split: option.splits)
  have op: "fopen_w fs1 LOG_NAME = Some (put_in runlog server_log (new_file []) fs1)"
    using gone w1 by (simp add: fopen_w_def LOG_NAME_path)
  show ?thesis
  proof (rule that[of "put_in runlog server_log (new_file []) fs1"])
    show "rotate_log off now (w, fs) =
        Inr (w\<lparr>w_open := True\<rparr>, put_in runlog server_log (new_file []) fs1)"
      using assms(2,3) op by (simp add: rotate_log_def log_file_name_path fs1_def[symmetric] Let_def)
    show "put_in runlog server_log (new_file []) fs1 d = fs d" if "d \<noteq> runlog" for d
      using that by (simp add: fs1 put_in_other_dir del_in_other_dir split: option.splits)
  qed (use w1 writable_has_dir[OF w1] look shape(3) in \<open>auto simp: file_of_put_in\<close>)
qed


text \<open>The lines after a rotation: they are appended, and the count comes back to 0 after the last
  of 50000.\<close>

lemma turn_append:
  assumes "w_open w" and "\<not> w_done w" and "0 < w_count w" and "w_count w < MAX_LOG_CUNT"
    and "file_of fs runlog server_log = Some f"
  shows "mtlogthr_turn off (now, Some buf) (w, fs) =
    Inr (w\<lparr>w_count := (if w_count w + 1 = MAX_LOG_CUNT then 0 else w_count w + 1)\<rparr>,
      put_in runlog server_log (f\<lparr>fdata := fdata f @ cstr buf\<rparr>) fs)"
proof -
  have "wrap32 (w_count w + 1) = w_count w + 1"
    using assms(3,4) by (intro wrap32_id) (simp add: int32_def MAX_LOG_CUNT_def)
  then show ?thesis
    using assms by (simp add: mtlogthr_turn_def rotate_log_def fwrite_def LOG_NAME_path)
qed

definition lines_of :: "(int \<times> string) list \<Rightarrow> (int \<times> string option) list" where
  "lines_of ls = map (\<lambda>(t, s). (t, Some s)) ls"

definition text_of :: "(int \<times> string) list \<Rightarrow> string" where
  "text_of ls = concat (map (\<lambda>(t, s). cstr s) ls)"

lemma lines_of_simps [simp]: "lines_of [] = []" "lines_of ((t, s) # ls) = (t, Some s) # lines_of ls"
  "lines_of (ls @ ms) = lines_of ls @ lines_of ms"
  by (simp_all add: lines_of_def)

lemma text_of_simps [simp]: "text_of [] = []" "text_of ((t, s) # ls) = cstr s @ text_of ls"
  by (simp_all add: text_of_def)

definition after_line :: "writer \<Rightarrow> int \<Rightarrow> writer" where
  "after_line w n = w\<lparr>w_count := (if n = MAX_LOG_CUNT then 0 else n)\<rparr>"

lemma append_lines:
  assumes "w_open w" and "\<not> w_done w" and "0 < w_count w"
    and "w_count w + int (length ls) \<le> MAX_LOG_CUNT" and "ls \<noteq> []"
    and "file_of fs runlog server_log = Some f"
  shows "mtlogthr off (lines_of ls) (w, fs) =
    Inr (after_line w (w_count w + int (length ls)),
      put_in runlog server_log (f\<lparr>fdata := fdata f @ text_of ls\<rparr>) fs)"
  using assms
proof (induction ls arbitrary: w fs f)
  case Nil
  then show ?case by simp
next
  case (Cons l ls)
  obtain t s where l: "l = (t, s)" by (cases l)
  let ?fs = "put_in runlog server_log (f\<lparr>fdata := fdata f @ cstr s\<rparr>) fs"
  let ?w = "after_line w (w_count w + 1)"
  have turn: "mtlogthr_turn off (t, Some s) (w, fs) = Inr (?w, ?fs)"
    using Cons.prems turn_append[of w fs f off t s] by (simp add: after_line_def)
  show ?case
  proof (cases "ls = []")
    case True
    with turn l show ?thesis by (simp add: mtlogthr_def)
  next
    case False
    then have "1 \<le> int (length ls)" by (cases ls) simp_all
    with Cons.prems(4) have "w_count w + 1 < MAX_LOG_CUNT" by simp
    then have w: "?w = w\<lparr>w_count := w_count w + 1\<rparr>" by (simp add: after_line_def)
    have f: "file_of ?fs runlog server_log = Some (f\<lparr>fdata := fdata f @ cstr s\<rparr>)"
      using file_of_has_dir[OF Cons.prems(6)] by (simp add: file_of_put_in)
    have "mtlogthr off (lines_of ls) (?w, ?fs) =
      Inr (after_line ?w (w_count ?w + int (length ls)),
        put_in runlog server_log (f\<lparr>fdata := fdata f @ cstr s, fdata := (fdata f @ cstr s) @ text_of ls\<rparr>) ?fs)"
      using Cons.IH[of ?w ?fs "f\<lparr>fdata := fdata f @ cstr s\<rparr>"] Cons.prems(1-4) False f w by simp
    moreover have "after_line ?w (w_count ?w + int (length ls)) =
        after_line w (w_count w + int (length (l # ls)))"
      by (simp add: w) (simp add: after_line_def add.assoc)
    ultimately show ?thesis using turn l by (simp add: mtlogthr_def put_in_put_in)
  qed
qed

text \<open>A whole run of 1 to 50000 lines that starts with a rotation.\<close>

lemma chunk_effect:
  assumes "writable_dir fs runlog" and "good_time off t" and "w_count w = 0" and "\<not> w_done w"
    and "Suc (length ls) \<le> 50000"
  obtains fs' where "mtlogthr off (lines_of ((t, s) # ls)) (w, fs) =
      Inr (after_line (w\<lparr>w_open := True\<rparr>) (int (Suc (length ls))), fs')"
    and "writable_dir fs' runlog"
    and "file_of fs' runlog server_log = Some (new_file (text_of ((t, s) # ls)))"
    and "file_of fs' runlog (rot_name off t) =
      (case file_of fs runlog server_log of None \<Rightarrow> file_of fs runlog (rot_name off t) | Some f \<Rightarrow> Some f)"
    and "\<And>n. n \<noteq> server_log \<Longrightarrow> n \<noteq> rot_name off t \<Longrightarrow> file_of fs' runlog n = file_of fs runlog n"
    and "\<And>d. d \<noteq> runlog \<Longrightarrow> fs' d = fs d"
proof -
  obtain fs1 where rot: "rotate_log off t (w, fs) = Inr (w\<lparr>w_open := True\<rparr>, fs1)"
    and w1: "writable_dir fs1 runlog" and sl: "file_of fs1 runlog server_log = Some (new_file [])"
    and old: "file_of fs1 runlog (rot_name off t) =
      (case file_of fs runlog server_log of None \<Rightarrow> file_of fs runlog (rot_name off t) | Some f \<Rightarrow> Some f)"
    and other: "\<And>n. n \<noteq> server_log \<Longrightarrow> n \<noteq> rot_name off t \<Longrightarrow> file_of fs1 runlog n = file_of fs runlog n"
    and dirs: "\<And>d. d \<noteq> runlog \<Longrightarrow> fs1 d = fs d"
    using rotate_effect[OF assms(1-3)] by metis
  let ?w = "w\<lparr>w_open := True, w_count := 1\<rparr>"
  let ?fs2 = "put_in runlog server_log (new_file (cstr s)) fs1"
  let ?fs = "put_in runlog server_log (new_file (text_of ((t, s) # ls))) fs1"
  have "wrap32 (0 + 1) = 1" by (simp add: wrap32_id int32_def)
  then have turn: "mtlogthr_turn off (t, Some s) (w, fs) = Inr (?w, ?fs2)"
    using assms(3,4) rot sl
    by (simp add: mtlogthr_turn_def fwrite_def LOG_NAME_path new_file_def MAX_LOG_CUNT_def)
  have dir: "has_dir fs1 runlog" using w1 by (rule writable_has_dir)
  have "mtlogthr off (lines_of ((t, s) # ls)) (w, fs) =
      Inr (after_line (w\<lparr>w_open := True\<rparr>) (int (Suc (length ls))), ?fs)"
  proof (cases "ls = []")
    case True
    with turn show ?thesis by (simp add: mtlogthr_def after_line_def MAX_LOG_CUNT_def)
  next
    case False
    have "mtlogthr off (lines_of ls) (?w, ?fs2) =
        Inr (after_line ?w (1 + int (length ls)), put_in runlog server_log
          ((new_file (cstr s))\<lparr>fdata := cstr s @ text_of ls\<rparr>) ?fs2)"
      using append_lines[of ?w ls ?fs2 "new_file (cstr s)" off] False assms(4,5) dir
      by (simp add: file_of_put_in fs_eval MAX_LOG_CUNT_def)
    moreover have "(new_file (cstr s))\<lparr>fdata := cstr s @ text_of ls\<rparr> = new_file (text_of ((t, s) # ls))"
      by (simp add: new_file_def)
    moreover have "after_line ?w (1 + int (length ls)) =
        after_line (w\<lparr>w_open := True\<rparr>) (int (Suc (length ls)))" by (simp add: after_line_def)
    ultimately show ?thesis using turn by (simp add: mtlogthr_def put_in_put_in)
  qed
  then show ?thesis
    using w1 dir old other dirs rot_name_shape(3)[OF assms(2)]
    by (intro that[of ?fs]) (auto simp: file_of_put_in put_in_other_dir)
qed


text \<open>Any number of full runs and a last one: by induction on the runs.\<close>

definition run_name :: "(int \<Rightarrow> int) \<Rightarrow> (int \<times> string) list \<Rightarrow> string" where
  "run_name off c = rot_name off (fst (hd c))"

definition rotated_to :: "(int \<Rightarrow> int) \<Rightarrow> (int \<times> string) list list \<Rightarrow> fsys \<Rightarrow> fsys \<Rightarrow> bool" where
  "rotated_to off cs fs fs' \<longleftrightarrow>
     data_of fs' runlog server_log = text_of (last cs) \<and>
     (\<forall>i. Suc i < length cs \<longrightarrow> data_of fs' runlog (run_name off (cs ! Suc i)) = text_of (cs ! i)) \<and>
     (file_of fs runlog server_log \<noteq> None \<longrightarrow>
        file_of fs' runlog (run_name off (hd cs)) = file_of fs runlog server_log) \<and>
     (\<forall>n. n \<noteq> server_log \<longrightarrow> n \<notin> run_name off ` set cs \<longrightarrow> file_of fs' runlog n = file_of fs runlog n) \<and>
     (\<forall>d. d \<noteq> runlog \<longrightarrow> fs' d = fs d)"

lemma rotated_to_snoc:
  assumes "rotated_to off cs fs fs1" and "cs \<noteq> []" and "file_of fs1 runlog server_log = Some g"
    and "run_name off c \<notin> run_name off ` set cs"
    and "\<And>c'. c' \<in> set (c # cs) \<Longrightarrow> run_name off c' \<noteq> server_log"
    and "file_of fs2 runlog server_log = Some (new_file (text_of c))"
    and "file_of fs2 runlog (run_name off c) = Some g"
    and "\<And>n. n \<noteq> server_log \<Longrightarrow> n \<noteq> run_name off c \<Longrightarrow> file_of fs2 runlog n = file_of fs1 runlog n"
    and "\<And>d. d \<noteq> runlog \<Longrightarrow> fs2 d = fs1 d"
  shows "rotated_to off (cs @ [c]) fs fs2"
proof -
  have name: "run_name off c' \<noteq> server_log \<and> run_name off c' \<noteq> run_name off c" if "c' \<in> set cs" for c'
    using assms(4,5) that by (metis image_eqI list.set_intros(2))
  have g: "fdata g = text_of (last cs)"
    using assms(1,3) by (simp add: rotated_to_def data_of_def)
  have old: "data_of fs2 runlog (run_name off (cs ! Suc i)) = text_of (cs ! i)" if "Suc i < length cs" for i
    using assms(1,8) that name[of "cs ! Suc i"] by (simp add: rotated_to_def data_of_def)
  have "data_of fs2 runlog (run_name off ((cs @ [c]) ! Suc i)) = text_of ((cs @ [c]) ! i)"
    if "Suc i < length (cs @ [c])" for i
  proof (cases "Suc i = length cs")
    case True
    moreover from this have "cs ! i = last cs" by (metis assms(2) diff_Suc_1 last_conv_nth)
    ultimately show ?thesis using g assms(7) by (simp add: nth_append data_of_def)
  next
    case False
    with that have "Suc i < length cs" by simp
    then show ?thesis using old[of i] by (simp add: nth_append)
  qed
  moreover have "file_of fs2 runlog (run_name off (hd cs)) = file_of fs1 runlog (run_name off (hd cs))"
    using name[of "hd cs"] assms(2,8) by simp
  ultimately show ?thesis
    using assms(1,2,6,8,9) unfolding rotated_to_def by (auto simp: data_of_def fs_eval)
qed

lemma mtlogthr_append:
  "mtlogthr off (as @ bs) st = bnd (mtlogthr off as st) (mtlogthr off bs)"
  by (simp add: mtlogthr_def for_each_append)

lemma runs_effect:
  assumes "writable_dir fs runlog" and "cs \<noteq> []"
    and "\<forall>c \<in> set cs. c \<noteq> [] \<and> length c \<le> 50000 \<and> good_time off (fst (hd c))"
    and "\<forall>c \<in> set (butlast cs). length c = 50000" and "distinct (map (run_name off) cs)"
  shows "\<exists>w fs'. mtlogthr off (lines_of (concat cs)) (writer_init, fs) = Inr (w, fs') \<and>
    \<not> w_done w \<and> (length (last cs) = 50000 \<longrightarrow> w_count w = 0) \<and> writable_dir fs' runlog \<and>
    file_of fs' runlog server_log \<noteq> None \<and> rotated_to off cs fs fs'"
  using assms
proof (induction cs rule: rev_induct)
  case Nil
  then show ?case by simp
next
  case (snoc c cs)
  obtain t s ls where c: "c = (t, s) # ls" using snoc.prems(3) by (cases c) auto
  have len: "Suc (length ls) \<le> 50000" and good: "good_time off t" using snoc.prems(3) c by auto
  have final: "\<not> w_done (after_line w n)" "n = 50000 \<Longrightarrow> w_count (after_line w n) = 0"
    if "\<not> w_done w" for w n
    using that by (simp_all add: after_line_def MAX_LOG_CUNT_def)
  show ?case
  proof (cases "cs = []")
    case True
    obtain fs' where "mtlogthr off (lines_of c) (writer_init, fs) =
        Inr (after_line (writer_init\<lparr>w_open := True\<rparr>) (int (Suc (length ls))), fs')"
      and "writable_dir fs' runlog" and "file_of fs' runlog server_log = Some (new_file (text_of c))"
      and "file_of fs' runlog (rot_name off t) =
        (case file_of fs runlog server_log of None \<Rightarrow> file_of fs runlog (rot_name off t) | Some f \<Rightarrow> Some f)"
      and "\<And>n. n \<noteq> server_log \<Longrightarrow> n \<noteq> rot_name off t \<Longrightarrow> file_of fs' runlog n = file_of fs runlog n"
      and "\<And>d. d \<noteq> runlog \<Longrightarrow> fs' d = fs d"
      using chunk_effect[OF snoc.prems(1) good, of writer_init ls s] len c
      by (auto simp: writer_init_def)
    moreover from this have "rotated_to off [c] fs fs'"
      by (auto simp: rotated_to_def run_name_def c data_of_def fs_eval)
    ultimately show ?thesis
      using True final[of "writer_init\<lparr>w_open := True\<rparr>" "int (Suc (length ls))"] c
      by (auto simp: writer_init_def)
  next
    case False
    have full: "length (last cs) = 50000" using snoc.prems(4) False by simp
    have sub: "\<forall>c \<in> set cs. c \<noteq> [] \<and> length c \<le> 50000 \<and> good_time off (fst (hd c))"
      "\<forall>c \<in> set (butlast cs). length c = 50000" "distinct (map (run_name off) cs)"
      using snoc.prems(3-5) by (auto dest: in_set_butlastD)
    then obtain w fs1 where run: "mtlogthr off (lines_of (concat cs)) (writer_init, fs) = Inr (w, fs1)"
      and w: "\<not> w_done w" "w_count w = 0" "writable_dir fs1 runlog"
      and rot: "file_of fs1 runlog server_log \<noteq> None" "rotated_to off cs fs fs1"
      using snoc.IH[OF snoc.prems(1) False] full by blast
    obtain g where g: "file_of fs1 runlog server_log = Some g" using rot(1) by auto
    obtain fs' where step: "mtlogthr off (lines_of c) (w, fs1) =
        Inr (after_line (w\<lparr>w_open := True\<rparr>) (int (Suc (length ls))), fs')"
      and w': "writable_dir fs' runlog" and sl: "file_of fs' runlog server_log = Some (new_file (text_of c))"
      and old0: "file_of fs' runlog (rot_name off t) =
        (case file_of fs1 runlog server_log of None \<Rightarrow> file_of fs1 runlog (rot_name off t) | Some f \<Rightarrow> Some f)"
      and other: "\<And>n. n \<noteq> server_log \<Longrightarrow> n \<noteq> rot_name off t \<Longrightarrow> file_of fs' runlog n = file_of fs1 runlog n"
      and dirs: "\<And>d. d \<noteq> runlog \<Longrightarrow> fs' d = fs1 d"
      using chunk_effect[OF w(3) good w(2,1) len, of s] unfolding c by metis
    have old: "file_of fs' runlog (rot_name off t) = Some g" using old0 g by simp
    have "run_name off c' \<noteq> server_log" if "c' \<in> set (c # cs)" for c'
      using snoc.prems(3) that rot_name_shape(3) unfolding run_name_def by auto
    moreover have "run_name off c \<notin> run_name off ` set cs" using snoc.prems(5) by simp
    moreover have "run_name off c = rot_name off t" by (simp add: run_name_def c)
    ultimately have "rotated_to off (cs @ [c]) fs fs'"
      using rotated_to_snoc[OF rot(2) False g, of c fs'] sl old other dirs by simp
    moreover have "mtlogthr off (lines_of (concat (cs @ [c]))) (writer_init, fs) =
        Inr (after_line (w\<lparr>w_open := True\<rparr>) (int (Suc (length ls))), fs')"
      using run step by (simp add: mtlogthr_append)
    ultimately show ?thesis
      using w' sl final[of "w\<lparr>w_open := True\<rparr>" "int (Suc (length ls))"] w(1) c by auto
  qed
qed

text \<open>C16: in a writable \<open>../runlog\<close> the writer thread never faults, and whatever the number of lines
  the logs are complete: the file it renames at a rotation holds exactly the 50000 lines before
  it, under a name made from the time of the line that follows, \<open>server.log\<close> holds the lines
  since the last rotation, the \<open>server.log\<close> of an earlier run is kept under the first name, and
  no other file of \<open>../runlog\<close> and no other directory changes. The condition is that the times of the rotations have different names.\<close>

theorem mtlogthr_rotates:
  assumes "writable_dir fs runlog" and "cs \<noteq> []"
    and "\<forall>c \<in> set cs. c \<noteq> [] \<and> length c \<le> 50000 \<and> good_time off (fst (hd c))"
    and "\<forall>c \<in> set (butlast cs). length c = 50000" and "distinct (map (run_name off) cs)"
  shows "\<exists>w fs'. mtlogthr off (lines_of (concat cs)) (writer_init, fs) = Inr (w, fs') \<and>
    rotated_to off cs fs fs'"
  using runs_effect[OF assms] by blast

text \<open>When \<open>../runlog\<close> is missing or not writable and \<open>server.log\<close> is not there, the first line
  logged makes the writer thread fault: the result of \<open>fopen\<close> is not tested.\<close>

theorem mtlogthr_needs_directory:
  assumes "\<not> writable_dir fs runlog" and "file_of fs runlog server_log = None" and "good_time off now"
  shows "mtlogthr off [(now, Some buf)] (writer_init, fs) = Inl NullDeref"
proof -
  have "ignoring (rename fs LOG_NAME (path_of runlog (rot_name off now))) fs = fs"
    using assms(2) rot_name_shape(1)[OF assms(3)]
    by (simp add: rename_def ignoring_def LOG_NAME_path valid_nameD)
  moreover have "fopen_w fs LOG_NAME = None" using assms(1,2) by (simp add: fopen_w_def LOG_NAME_path)
  ultimately show ?thesis
    using assms(3) by (simp add: mtlogthr_def mtlogthr_turn_def rotate_log_def writer_init_def log_file_name_path)
qed


section \<open>Concrete runs\<close>

theorem logstring_bound_witness:
  "\<exists>q' sg. logstring 7 ''hello'' (pqueue_init fmempty) = Inr (PutDone, q', sg) \<and>
     contents q' = [''hello'' @ [newline]]"
proof -
  let ?q = "pqueue_init fmempty :: string pqueue"
  have "fmlookup (store ?q) 7 = None" by (simp add: pqueue_init_def)
  moreover have "contents ?q = []" "m_maxsize ?q = 100"
    by (simp_all add: contents_def wf_init(2)) (simp add: pqueue_init_def DEFAULT_SIZE_def)
  ultimately show ?thesis
    using logstring_bound[OF wf_init(1), of fmempty 7 "''hello''"] by (auto simp: add_spec_def)
qed

definition china :: "int \<Rightarrow> int" where
  "china t = 8 * 3600"

lemma china_names:
  "rot_name china 1448000000 = ''2015-11-20_14-13-20.log''"
  "rot_name china 1448582400 = ''2015-11-27_08-00-00.log''"
  "tm_year (localtime china 1448000000) = 2015" "tm_year (localtime china 1448582400) = 2015"
  by code_simp+

definition full_run_lines :: "(int \<times> string) list" where
  "full_run_lines = replicate 50000 (1448000000, ''a'')"

lemma full_run_lines_shape:
  "length full_run_lines = 50000" "full_run_lines \<noteq> []" "hd full_run_lines = (1448000000, ''a'')"
proof -
  show l: "length full_run_lines = 50000" by (simp only: full_run_lines_def length_replicate)
  show ne: "full_run_lines \<noteq> []" using l by (metis list.size(3) zero_neq_numeral)
  show "hd full_run_lines = (1448000000, ''a'')"
    using hd_in_set[OF ne] unfolding full_run_lines_def by (simp only: set_replicate_conv_if) auto
qed

theorem mtlogthr_rotates_witness:
  "\<exists>w fs'. mtlogthr china (lines_of (full_run_lines @ [(1448582400, ''b'')]))
      (writer_init, [runlog \<mapsto> plain_dir []]) = Inr (w, fs') \<and>
    data_of fs' runlog ''2015-11-27_08-00-00.log'' = text_of full_run_lines \<and>
    data_of fs' runlog server_log = ''b''"
proof -
  let ?cs = "[full_run_lines, [(1448582400, ''b'')]]"
  have "writable_dir [runlog \<mapsto> plain_dir []] runlog" by (simp add: fs_eval)
  moreover have "\<forall>c \<in> set ?cs. c \<noteq> [] \<and> length c \<le> 50000 \<and> good_time china (fst (hd c))"
    by (simp add: full_run_lines_shape good_time_def china_names) (simp add: china_def)
  moreover have "\<forall>c \<in> set (butlast ?cs). length c = 50000" by (simp add: full_run_lines_shape)
  moreover have "distinct (map (run_name china) ?cs)"
    by (simp add: run_name_def full_run_lines_shape china_names)
  ultimately obtain w fs' where
      run: "mtlogthr china (lines_of (concat ?cs)) (writer_init, [runlog \<mapsto> plain_dir []]) = Inr (w, fs')"
    and rot: "rotated_to china ?cs [runlog \<mapsto> plain_dir []] fs'"
    using mtlogthr_rotates[of "[runlog \<mapsto> plain_dir []]" ?cs china] by blast
  have "Suc 0 < length ?cs" by simp
  with rot have "data_of fs' runlog (run_name china (?cs ! Suc 0)) = text_of (?cs ! 0)"
    unfolding rotated_to_def by blast
  moreover have "data_of fs' runlog server_log = text_of (last ?cs)"
    using rot unfolding rotated_to_def by blast
  ultimately show ?thesis using run by (simp add: run_name_def china_names)
qed

theorem mtlogthr_needs_directory_witness:
  "mtlogthr china [(1448000000, Some ''a'')] (writer_init, Map.empty) = Inl NullDeref"
proof -
  have "\<not> writable_dir Map.empty runlog" "file_of Map.empty runlog server_log = None"
    "good_time china 1448000000"
    by (simp_all add: writable_dir_def file_of_def good_time_def china_names) (simp add: china_def)
  then show ?thesis by (rule mtlogthr_needs_directory)
qed

end
