(* ===== verification/GrpcStatus.thy ===== *)
theory GrpcStatus
  imports Main
begin

text \<open>
  The outcome of a remote call: \<open>grpc::StatusCode\<close> and \<open>grpc::Status\<close> of \<open>include/grpc++/support\<close>.
\<close>

section \<open>Status\<close>

text \<open>\<open>grpc::StatusCode\<close>, in the order of the enumeration, and the numbers of its members.\<close>

datatype StatusCode =
    OK | CANCELLED | UNKNOWN | INVALID_ARGUMENT | DEADLINE_EXCEEDED | NOT_FOUND
  | ALREADY_EXISTS | PERMISSION_DENIED | UNAUTHENTICATED | RESOURCE_EXHAUSTED
  | FAILED_PRECONDITION | ABORTED | OUT_OF_RANGE | UNIMPLEMENTED | INTERNAL
  | UNAVAILABLE | DATA_LOSS | DO_NOT_USE

fun code_number :: "StatusCode \<Rightarrow> int" where
  "code_number OK = 0"
| "code_number CANCELLED = 1"
| "code_number UNKNOWN = 2"
| "code_number INVALID_ARGUMENT = 3"
| "code_number DEADLINE_EXCEEDED = 4"
| "code_number NOT_FOUND = 5"
| "code_number ALREADY_EXISTS = 6"
| "code_number PERMISSION_DENIED = 7"
| "code_number UNAUTHENTICATED = 16"
| "code_number RESOURCE_EXHAUSTED = 8"
| "code_number FAILED_PRECONDITION = 9"
| "code_number ABORTED = 10"
| "code_number OUT_OF_RANGE = 11"
| "code_number UNIMPLEMENTED = 12"
| "code_number INTERNAL = 13"
| "code_number UNAVAILABLE = 14"
| "code_number DATA_LOSS = 15"
| "code_number DO_NOT_USE = -1"

lemma code_number_inject: "code_number c = code_number d \<longleftrightarrow> c = d"
  by (cases c; cases d) simp_all

record Status =
  s_code :: StatusCode
  s_details :: string

definition Status_OK :: Status where
  "Status_OK = \<lparr>s_code = OK, s_details = []\<rparr>"

definition Status_CANCELLED :: Status where
  "Status_CANCELLED = \<lparr>s_code = CANCELLED, s_details = []\<rparr>"

definition error_code :: "Status \<Rightarrow> StatusCode" where
  "error_code s = s_code s"

definition error_message :: "Status \<Rightarrow> string" where
  "error_message s = s_details s"

definition status_ok :: "Status \<Rightarrow> bool" where
  "status_ok s \<longleftrightarrow> s_code s = OK"

lemma status_ok_simps [simp]: "status_ok Status_OK" "\<not> status_ok Status_CANCELLED"
  by (simp_all add: status_ok_def Status_OK_def Status_CANCELLED_def)

end
