(* ===== verification/GrpcWrap.thy ===== *)
theory GrpcWrap
  imports GrpcStatus LogMt AutoConf ProDealMove
begin

text \<open>
  What the servers and clients share (\<open>src/grpcwrap.h\<close>, \<open>src/grpcwrap.cc\<close>, the message types
  of \<open>proto/dynamicFingerMove.proto\<close>): the messages, the remote side as a parameter, and the state
  of one process.
\<close>

section \<open>Messages\<close>

record FingerValue =
  fv_name :: string
  fv_val :: string
  fv_len :: int   \<comment> \<open>\<open>int32\<close>\<close>

record ConfigValue =
  cv_len :: int

record AfpDelName =
  dn_name :: string

section \<open>The remote side\<close>

text \<open>
  What is behind the stubs that the wrappers call, with a state \<open>'w\<close> of the rest of the system
  that a call may change: for each of the four calls and each address, the status returned, the
  response message (left as it was on an error) and the new state. gRPC and the generated stubs
  are not part of the sources; every statement about the clients holds for any such \<open>net\<close>.
\<close>

record 'w net =
  net_afpmove :: "string \<Rightarrow> FingerValue \<Rightarrow> 'w \<Rightarrow> Status \<times> FingerValue \<times> 'w"
  net_preconf :: "string \<Rightarrow> ConfigValue \<Rightarrow> 'w \<Rightarrow> Status \<times> ConfigValue \<times> 'w"
  net_delafps :: "string \<Rightarrow> AfpDelName \<Rightarrow> 'w \<Rightarrow> Status \<times> 'w"
  net_addafps :: "string \<Rightarrow> FingerValue \<Rightarrow> 'w \<Rightarrow> Status \<times> 'w"

text \<open>The wrappers: a stub made for a channel to \<open>addr\<close>, called with a fresh context.\<close>

definition CMoveCltWrap_Afpmove ::
    "'w net \<Rightarrow> string \<Rightarrow> FingerValue \<Rightarrow> 'w \<Rightarrow> Status \<times> FingerValue \<times> 'w" where
  "CMoveCltWrap_Afpmove net addr req w = net_afpmove net addr req w"

definition CConfCltWrap_Preconf ::
    "'w net \<Rightarrow> string \<Rightarrow> ConfigValue \<Rightarrow> 'w \<Rightarrow> Status \<times> ConfigValue \<times> 'w" where
  "CConfCltWrap_Preconf net addr req w = net_preconf net addr req w"

definition CSyncCltWrap_Delafps :: "'w net \<Rightarrow> string \<Rightarrow> AfpDelName \<Rightarrow> 'w \<Rightarrow> Status \<times> 'w" where
  "CSyncCltWrap_Delafps net addr req w = net_delafps net addr req w"

definition CSyncCltWrap_Addafps :: "'w net \<Rightarrow> string \<Rightarrow> FingerValue \<Rightarrow> 'w \<Rightarrow> Status \<times> 'w" where
  "CSyncCltWrap_Addafps net addr req w = net_addafps net addr req w"

section \<open>The state of a process\<close>

text \<open>The configuration, the files, the lines given to the logger so far, \<open>g_sublist\<close>, and how
  many transfer threads \<open>GrMoveClient::startClient\<close> has started.\<close>

record host =
  cfg :: config
  files :: fsys
  logs :: "string list"
  g_sublist :: "string list"
  transfers :: nat

text \<open>\<open>g_logmt.logstring(str)\<close>: the line as the queue gets it.\<close>

definition g_logstring :: "string \<Rightarrow> host \<Rightarrow> host run" where
  "g_logstring str h = bnd (log_line str) (\<lambda>text. Inr (h\<lparr>logs := logs h @ [text]\<rparr>))"

text \<open>\<open>sprintf(outputbuf, ...)\<close> into 1024 bytes, then \<open>logstring(outputbuf)\<close>.\<close>

definition log_buffer :: "string \<Rightarrow> host \<Rightarrow> host run" where
  "log_buffer text h = bnd (sprintf MAX_LINE_LEN text) (\<lambda>buf. g_logstring buf h)"

text \<open>A call of \<open>CProDeal\<close> on the files of the process.\<close>

definition on_files :: "(fsys \<Rightarrow> (int \<times> fsys) run) \<Rightarrow> host \<Rightarrow> (int \<times> host) run" where
  "on_files f h = bnd (f (files h)) (\<lambda>(r, fs). Inr (r, h\<lparr>files := fs\<rparr>))"

text \<open>\<open>fwrite(data, 1, len, fp)\<close> where \<open>data\<close> is the \<open>data()\<close> of a string: its bytes, and one
  zero byte behind them; a negative \<open>len\<close> is a huge \<open>size_t\<close>.\<close>

definition data_bytes :: "string \<Rightarrow> int \<Rightarrow> string run" where
  "data_bytes val len =
    (if 0 \<le> len \<and> nat len \<le> length val + 1 then Inr (take (nat len) (val @ [NUL]))
     else Inl OutOfBounds)"

lemma data_bytes_all [simp]: "data_bytes val (int (length val)) = Inr val"
  by (simp add: data_bytes_def)

lemma g_logstring_safe: "length (cstr str) \<le> 1022 \<Longrightarrow>
    g_logstring str h = Inr (h\<lparr>logs := logs h @ [cstr str @ [newline]]\<rparr>)"
  by (simp add: g_logstring_def log_line_def MAX_LINE_LEN_def)

lemma log_buffer_safe: "length buf \<le> 1022 \<Longrightarrow>
    log_buffer buf h = Inr (h\<lparr>logs := logs h @ [cstr buf @ [newline]]\<rparr>)"
  using length_cstr[of buf] by (simp add: log_buffer_def g_logstring_safe MAX_LINE_LEN_def)

lemma on_files_Inr: "f (files h) = Inr (r, fs) \<Longrightarrow> on_files f h = Inr (r, h\<lparr>files := fs\<rparr>)"
  by (simp add: on_files_def)

end
