(* ===== verification/Server.thy ===== *)
theory Server
  imports GrpcWrap
begin

text \<open>
  The handlers of \<open>src/server.cc\<close>: \<open>GMServer::Afpmove\<close> and \<open>ScServer::Addafps\<close> store a file
  they receive, \<open>ScServer::Delafps\<close> removes one, \<open>McServer::Afpmove\<close> passes a file on to every
  sub cache and stores it, \<open>GCServer::Preconf\<close> runs the daily job of a group server.
\<close>

section \<open>GMServer::Afpmove\<close>

definition GMServer_Afpmove :: "FingerValue \<Rightarrow> host \<Rightarrow> (Status \<times> host) run" where
  "GMServer_Afpmove req h =
    bnd (sprintf_path (DST_DIR (cfg h)) (cstr (fv_name req))) (\<lambda>fname.
      case fopen_w (files h) fname of
        None \<Rightarrow>
          bnd (log_buffer (''open '' @ fname @ '' error!'') h) (\<lambda>h'. Inr (Status_CANCELLED, h'))
      | Some fs \<Rightarrow>
          bnd (data_bytes (fv_val req) (fv_len req)) (\<lambda>s.
            Inr (Status_OK, h\<lparr>files := fwrite fname s fs\<rparr>)))"

section \<open>ScServer\<close>

definition ScServer_Delafps :: "AfpDelName \<Rightarrow> host \<Rightarrow> (Status \<times> host) run" where
  "ScServer_Delafps req h =
    bnd (sprintf_path (AFP_DIR (cfg h)) (cstr (dn_name req))) (\<lambda>name.
      case remove (files h) name of
        None \<Rightarrow> Inr (Status_CANCELLED, h)
      | Some fs \<Rightarrow> Inr (Status_OK, h\<lparr>files := fs\<rparr>))"

definition ScServer_Addafps :: "FingerValue \<Rightarrow> host \<Rightarrow> (Status \<times> host) run" where
  "ScServer_Addafps req h =
    bnd (sprintf_path (DST_DIR (cfg h)) (cstr (fv_name req))) (\<lambda>fname.
      case fopen_w (files h) fname of
        None \<Rightarrow> Inr (Status_CANCELLED, h)
      | Some fs \<Rightarrow>
          bnd (data_bytes (fv_val req) (fv_len req)) (\<lambda>s.
            Inr (Status_OK, h\<lparr>files := fwrite fname s fs\<rparr>)))"

section \<open>McServer::Afpmove\<close>

text \<open>\<open>addr.substr(0, addr.find(":"))\<close>, and the part of \<open>cxt->peer()\<close> between its first two
  colons, with the conversions of \<open>npos\<close> to \<open>int\<close> and back.\<close>

definition host_part :: "string \<Rightarrow> string run" where
  "host_part addr = substr addr 0 (find_from (CHR '':'') addr 0)"

definition peer_part :: "string \<Rightarrow> string run" where
  "peer_part url =
    (let pos1 = find_from (CHR '':'') url 0; pos2 = find_from (CHR '':'') url (pos1 + 1)
     in substr url (pos1 + 1) (pos2 - pos1 - 1))"

definition tab :: string where "tab = [CHR 0x09]"

text \<open>The log lines of the handler.\<close>

definition sync_text :: "string \<Rightarrow> string \<Rightarrow> string \<Rightarrow> string" where
  "sync_text name addr result =
     cstr name @ tab @ '':'' @ tab @ tab @ ''main'' @ tab @ tab @ ''++>'' @ tab @ tab @
     addr @ tab @ tab @ result"

definition recv_text :: "string \<Rightarrow> string \<Rightarrow> string \<Rightarrow> string" where
  "recv_text name peer result =
     cstr name @ tab @ '':'' @ tab @ tab @ ''main'' @ tab @ tab @ ''<=='' @ tab @ tab @
     peer @ tab @ tab @ result"

text \<open>One turn of the loop over \<open>g_sublist\<close>: \<open>None\<close> means that the loop goes on, \<open>Some\<close> the
  status it returns. \<open>set_val(data, len)\<close> copies \<open>len\<close> bytes before the loop.\<close>

definition McServer_turn ::
    "'w net \<Rightarrow> string \<Rightarrow> FingerValue \<Rightarrow> FingerValue \<Rightarrow> string \<Rightarrow> host \<times> 'w \<Rightarrow>
      (Status option \<times> host \<times> 'w) run" where
  "McServer_turn net url req request addr st =
    (case st of (h, w) \<Rightarrow>
      (case CSyncCltWrap_Addafps net addr request w of (status, w1) \<Rightarrow>
        bnd (host_part (CLT_SYNC_ADDR (cfg h))) (\<lambda>tmp.
          if \<not> status_ok status
          then bnd (log_buffer (sync_text (fv_name req) tmp ''Error!'') h) (\<lambda>h1.
                 Inr (Some Status_CANCELLED, h1, w1))
          else bnd (log_buffer (sync_text (fv_name req) tmp ''Success!'') h) (\<lambda>h1.
            bnd (sprintf_path (DST_DIR (cfg h1)) (cstr (fv_name req))) (\<lambda>fname.
              case fopen_w (files h1) fname of
                None \<Rightarrow>
                  bnd (peer_part url) (\<lambda>tmp.
                    bnd (log_buffer (recv_text (fv_name req) tmp ''Error!'') h1) (\<lambda>h2.
                      Inr (Some Status_CANCELLED, h2, w1)))
              | Some fs \<Rightarrow>
                  bnd (data_bytes (fv_val req) (fv_len req)) (\<lambda>s.
                    bnd (peer_part url) (\<lambda>tmp.
                      bnd (log_buffer (recv_text (fv_name req) tmp ''Success!'')
                            (h1\<lparr>files := fwrite fname s fs\<rparr>)) (\<lambda>h2.
                        Inr (None, h2, w1)))))))))"

fun McServer_loop ::
    "'w net \<Rightarrow> string \<Rightarrow> FingerValue \<Rightarrow> FingerValue \<Rightarrow> string list \<Rightarrow> host \<times> 'w \<Rightarrow>
      (Status \<times> host \<times> 'w) run" where
  "McServer_loop net url req request [] (h, w) = Inr (Status_OK, h, w)"
| "McServer_loop net url req request (addr # addrs) st =
    bnd (McServer_turn net url req request addr st) (\<lambda>(r, st').
      case r of
        Some status \<Rightarrow> Inr (status, st')
      | None \<Rightarrow> McServer_loop net url req request addrs st')"

definition McServer_Afpmove ::
    "'w net \<Rightarrow> string \<Rightarrow> FingerValue \<Rightarrow> host \<times> 'w \<Rightarrow> (Status \<times> host \<times> 'w) run" where
  "McServer_Afpmove net url req st =
    bnd (data_bytes (fv_val req) (fv_len req)) (\<lambda>val.
      McServer_loop net url req
        \<lparr>fv_name = fv_name req, fv_val = val, fv_len = fv_len req\<rparr> (g_sublist (fst st)) st)"

section \<open>GCServer::Preconf\<close>

text \<open>The results of the first four steps and of \<open>movAfpFile\<close> are ignored; \<open>startClient\<close> starts a
  thread and returns. The response keeps its former length on an error.\<close>

definition GCServer_Preconf ::
    "int \<Rightarrow> sorter \<Rightarrow> ConfigValue \<Rightarrow> ConfigValue \<Rightarrow> host \<Rightarrow> (Status \<times> ConfigValue \<times> host) run" where
  "GCServer_Preconf now srt req res h =
    (let num = cv_len req; c = cfg h in
     bnd (on_files (getAfpName (AFP_DIR c) (WRK_DIR c)) h) (\<lambda>(_, h1).
     bnd (on_files (movLogFile now (DAT_DIR c) (LOG_DIR c)) h1) (\<lambda>(_, h2).
     bnd (on_files (cntSrhNums srt (LOG_DIR c) (WRK_DIR c) 0) h2) (\<lambda>(_, h3).
     bnd (on_files (fltLogFile (WRK_DIR c) (WRK_DIR c)) h3) (\<lambda>(_, h4).
     bnd (on_files (topAfpFile c (WRK_DIR c) (WRK_DIR c) num) h4) (\<lambda>(num_songs, h5).
       if num_songs \<le> 0
       then bnd (g_logstring ''preconf error!'' h5) (\<lambda>h6. Inr (Status_CANCELLED, res, h6))
       else bnd (on_files (movAfpFile (AFP_DIR c) (ORG_DIR c) (WRK_DIR c)) h5) (\<lambda>(_, h6).
              Inr (Status_OK, res\<lparr>cv_len := num_songs\<rparr>, h6\<lparr>transfers := Suc (transfers h6)\<rparr>))))))))"


section \<open>Storing a received file\<close>

text \<open>What the handlers that store a file share: \<open>fopen\<close>, \<open>fwrite\<close>, \<open>fclose\<close> of \<open>len\<close> bytes.\<close>

definition stores :: "string \<Rightarrow> FingerValue \<Rightarrow> fsys \<Rightarrow> bool" where
  "stores d req fs \<longleftrightarrow> valid_name (fv_name req) \<and> fits_path d (fv_name req) \<and>
     fv_len req = int (length (fv_val req)) \<and> can_write fs d (fv_name req)"

lemma storesD:
  assumes "stores d req fs"
  shows "cstr (fv_name req) = fv_name req" "CHR ''/'' \<notin> set (fv_name req)"
    "sprintf_path d (fv_name req) = Inr (path_of d (fv_name req))"
    "data_bytes (fv_val req) (fv_len req) = Inr (fv_val req)" "length (fv_name req) \<le> 255"
    "can_write fs d (fv_name req)" "valid_name (fv_name req)"
  using assms by (simp_all add: stores_def valid_nameD)

lemma stores_file:
  assumes "stores d req fs"
  obtains fs1 where "fopen_w fs (path_of d (fv_name req)) = Some fs1"
    and "wrote d (fv_name req) (fv_val req) fs (fwrite (path_of d (fv_name req)) (fv_val req) fs1)"
  using write_file[OF storesD(2,6)[OF assms]] by metis

lemma Afpmove_stores:
  assumes "stores (DST_DIR (cfg h)) req (files h)"
  shows "\<exists>fs'. GMServer_Afpmove req h = Inr (Status_OK, h\<lparr>files := fs'\<rparr>) \<and>
    wrote (DST_DIR (cfg h)) (fv_name req) (fv_val req) (files h) fs'"
proof -
  let ?p = "path_of (DST_DIR (cfg h)) (fv_name req)"
  obtain fs1 where op: "fopen_w (files h) ?p = Some fs1"
    and w: "wrote (DST_DIR (cfg h)) (fv_name req) (fv_val req) (files h) (fwrite ?p (fv_val req) fs1)"
    using stores_file[OF assms] by metis
  have "GMServer_Afpmove req h = Inr (Status_OK, h\<lparr>files := fwrite ?p (fv_val req) fs1\<rparr>)"
    using op by (simp add: GMServer_Afpmove_def storesD[OF assms])
  with w show ?thesis by blast
qed

text \<open>C10: the group server stores exactly the bytes of a request whose length field is right under
  the name it carries in \<open>DST_DIR\<close>, replacing a former file of that name, changes nothing else
  and answers OK.\<close>

theorem GMServer_Afpmove_stores:
  assumes "stores (DST_DIR (cfg h)) req (files h)"
  shows "\<exists>fs'. GMServer_Afpmove req h = Inr (Status_OK, h\<lparr>files := fs'\<rparr>) \<and>
    wrote (DST_DIR (cfg h)) (fv_name req) (fv_val req) (files h) fs'"
  by (rule Afpmove_stores[OF assms])

lemma sprintf_path_cases:
  "sprintf_path d n = (if fits_path d n then Inr (path_of d n) else Inl BufferOverflow)"
  by (simp add: sprintf_path_def sprintf_def fits_path_def path_of_def)

text \<open>C11: which requests the group server survives, for names without a slash: those whose path fits
  256 bytes and, if the file can be opened, whose length field is not negative and at most one
  more than the number of bytes carried. The handler checks neither: any other request makes
  it write past a buffer or read past the message.\<close>

theorem GMServer_Afpmove_safe_iff:
  assumes "n = cstr (fv_name req)" and "CHR ''/'' \<notin> set n"
  shows "safe (GMServer_Afpmove req h) \<longleftrightarrow> fits_path (DST_DIR (cfg h)) n \<and>
    (can_write (files h) (DST_DIR (cfg h)) n \<longrightarrow>
       0 \<le> fv_len req \<and> fv_len req \<le> int (length (fv_val req)) + 1)"
proof (cases "fits_path (DST_DIR (cfg h)) n")
  case True
  let ?p = "path_of (DST_DIR (cfg h)) n"
  have "length ?p < 256" using True by (simp add: fits_path_def path_of_def MAX_NAME_LEN_def)
  then obtain h' where log: "log_buffer (''open '' @ ?p @ '' error!'') h = Inr h'"
    by (simp add: log_buffer_safe)
  show ?thesis
    using True log fopen_w_None[OF assms(2), of "files h" "DST_DIR (cfg h)"]
    by (cases "fopen_w (files h) ?p")
      (auto simp: GMServer_Afpmove_def assms(1)[symmetric] sprintf_path_cases safe_bnd data_bytes_def
        split: if_splits)
next
  case False
  then show ?thesis by (simp add: GMServer_Afpmove_def assms(1)[symmetric] sprintf_path_cases)
qed

text \<open>On a sub cache whose \<open>AFP_DIR\<close> and \<open>DST_DIR\<close> differ (as in the configuration file of the
  repository) a file added by the main cache cannot be deleted by it: \<open>Addafps\<close> stores it in
  \<open>DST_DIR\<close>, \<open>Delafps\<close> looks for it in \<open>AFP_DIR\<close>, fails and leaves it where it is. Were the two
  directories one, the deletion would take it away again.\<close>

theorem ScServer_delete_after_add:
  assumes "stores (DST_DIR (cfg h)) req (files h)" and "fits_path (AFP_DIR (cfg h)) (fv_name req)"
    and "writable_dir (files h) (AFP_DIR (cfg h))"
    and "file_of (files h) (AFP_DIR (cfg h)) (fv_name req) = None"
  shows "\<exists>h1 s h2. ScServer_Addafps req h = Inr (Status_OK, h1) \<and>
    ScServer_Delafps \<lparr>dn_name = fv_name req\<rparr> h1 = Inr (s, h2) \<and>
    (if AFP_DIR (cfg h) = DST_DIR (cfg h)
     then s = Status_OK \<and> file_of (files h2) (DST_DIR (cfg h)) (fv_name req) = None
     else s = Status_CANCELLED \<and> data_of (files h2) (DST_DIR (cfg h)) (fv_name req) = fv_val req)"
proof -
  let ?d = "DST_DIR (cfg h)" and ?a = "AFP_DIR (cfg h)" and ?n = "fv_name req"
  obtain fs1 where op: "fopen_w (files h) (path_of ?d ?n) = Some fs1"
    and w: "wrote ?d ?n (fv_val req) (files h) (fwrite (path_of ?d ?n) (fv_val req) fs1)"
    using stores_file[OF assms(1)] by metis
  let ?fs = "fwrite (path_of ?d ?n) (fv_val req) fs1"
  have add: "ScServer_Addafps req h = Inr (Status_OK, h\<lparr>files := ?fs\<rparr>)"
    using op by (simp add: ScServer_Addafps_def storesD[OF assms(1)])
  have wr: "writable_dir ?fs ?a" using wroteD(3)[OF w] assms(3) by simp
  show ?thesis
  proof (cases "?a = ?d")
    case True
    obtain f where "file_of ?fs ?d ?n = Some f" using w by (auto simp: wrote_def)
    then have "remove ?fs (path_of ?a ?n) = Some (del_in ?a ?n ?fs)"
      using wr storesD(2)[OF assms(1)] True by (simp add: remove_def)
    then show ?thesis
      using add True assms(2) storesD(1)[OF assms(1)]
      by (simp add: ScServer_Delafps_def sprintf_path_cases file_of_del_in)
  next
    case False
    then have "file_of ?fs ?a ?n = None" using wroteD(1)[OF w] assms(4) by simp
    then have "remove ?fs (path_of ?a ?n) = None"
      using storesD(2)[OF assms(1)] by (simp add: remove_def)
    then show ?thesis
      using add False assms(2) storesD(1)[OF assms(1)] wrote_data[OF w]
      by (simp add: ScServer_Delafps_def sprintf_path_cases)
  qed
qed

section \<open>Passing a file on to the sub caches\<close>

text \<open>The calls to the sub caches \<open>as\<close> in turn, and whether all of them succeed.\<close>

fun send_all :: "'w net \<Rightarrow> FingerValue \<Rightarrow> string list \<Rightarrow> 'w \<Rightarrow> 'w" where
  "send_all net request [] w = w"
| "send_all net request (a # as) w = send_all net request as (snd (net_addafps net a request w))"

fun all_accept :: "'w net \<Rightarrow> FingerValue \<Rightarrow> string list \<Rightarrow> 'w \<Rightarrow> bool" where
  "all_accept net request [] w \<longleftrightarrow> True"
| "all_accept net request (a # as) w \<longleftrightarrow> status_ok (fst (net_addafps net a request w)) \<and>
     all_accept net request as (snd (net_addafps net a request w))"

lemma send_all_append: "send_all net r (as @ bs) w = send_all net r bs (send_all net r as w)"
  by (induction as arbitrary: w) auto

text \<open>The addresses in the log lines are short enough.\<close>

definition short_addrs :: "config \<Rightarrow> string \<Rightarrow> bool" where
  "short_addrs c url \<longleftrightarrow> length (CLT_SYNC_ADDR c) \<le> 300 \<and> length url \<le> 300"

lemma find_from_bounds: "0 \<le> pos \<Longrightarrow> find_from c s pos = -1 \<or> pos \<le> find_from c s pos \<and> find_from c s pos < int (length s)"
  by (auto simp: find_from_def Let_def)

lemma host_part_ok: "\<exists>t. host_part addr = Inr t \<and> length t \<le> length addr"
  by (auto simp: host_part_def substr_def)

lemma peer_part_ok: "\<exists>t. peer_part url = Inr t \<and> length t \<le> length url"
  using find_from_bounds[of 0 "CHR '':''" url] by (auto simp: peer_part_def substr_def Let_def)

text \<open>A process that differs from another only in its log and in one file of \<open>DST_DIR\<close>.\<close>

definition stored_in :: "host \<Rightarrow> FingerValue \<Rightarrow> host \<Rightarrow> bool" where
  "stored_in h req h' \<longleftrightarrow> (\<exists>fs ls. h' = h\<lparr>files := fs, logs := ls\<rparr> \<and>
     wrote (DST_DIR (cfg h)) (fv_name req) (fv_val req) (files h) fs)"

lemma stored_in_again:
  assumes "stored_in h req h1" and "stored_in h1 req h2"
  shows "stored_in h req h2"
proof -
  obtain fs1 ls1 fs2 ls2 where h1: "h1 = h\<lparr>files := fs1, logs := ls1\<rparr>"
    and w1: "wrote (DST_DIR (cfg h)) (fv_name req) (fv_val req) (files h) fs1"
    and h2: "h2 = h1\<lparr>files := fs2, logs := ls2\<rparr>"
    and w2: "wrote (DST_DIR (cfg h)) (fv_name req) (fv_val req) fs1 fs2"
    using assms by (auto simp: stored_in_def)
  have "wrote (DST_DIR (cfg h)) (fv_name req) (fv_val req) (files h) fs2"
    using w1 w2 by (auto simp: wrote_def split: option.splits)
  then show ?thesis using h1 h2 by (auto simp: stored_in_def)
qed


lemma log_text_ok:
  assumes "valid_name n" and "length t \<le> 300" and "length r \<le> 10"
  shows "\<exists>ls. log_buffer (sync_text n t r) h = Inr (h\<lparr>logs := ls\<rparr>)"
    and "\<exists>ls. log_buffer (recv_text n t r) h = Inr (h\<lparr>logs := ls\<rparr>)"
proof -
  have n: "length (cstr n) \<le> 255" using length_cstr[of n] valid_nameD(4)[OF assms(1)] by simp
  have "length (sync_text n t r) \<le> 1022" "length (recv_text n t r) \<le> 1022"
    using n assms(2,3) by (simp_all add: sync_text_def recv_text_def tab_def)
  then show "\<exists>ls. log_buffer (sync_text n t r) h = Inr (h\<lparr>logs := ls\<rparr>)"
    and "\<exists>ls. log_buffer (recv_text n t r) h = Inr (h\<lparr>logs := ls\<rparr>)"
    by (auto simp: log_buffer_safe)
qed

text \<open>A turn of the loop when the sub cache accepts, and when it does not.\<close>

lemma McServer_turn_accepts:
  assumes "stores (DST_DIR (cfg h)) req (files h)" and "short_addrs (cfg h) url"
    and "net_addafps net addr request w = (s, w1)" and "status_ok s"
  shows "\<exists>h1. McServer_turn net url req request addr (h, w) = Inr (None, h1, w1) \<and> stored_in h req h1"
proof -
  let ?d = "DST_DIR (cfg h)" and ?n = "fv_name req"
  obtain fs1 where op: "fopen_w (files h) (path_of ?d ?n) = Some fs1"
    and wr: "wrote ?d ?n (fv_val req) (files h) (fwrite (path_of ?d ?n) (fv_val req) fs1)"
    using stores_file[OF assms(1)] by metis
  obtain t1 where t1: "host_part (CLT_SYNC_ADDR (cfg h)) = Inr t1" "length t1 \<le> 300"
    using host_part_ok[of "CLT_SYNC_ADDR (cfg h)"] assms(2) by (auto simp: short_addrs_def)
  obtain t2 where t2: "peer_part url = Inr t2" "length t2 \<le> 300"
    using peer_part_ok[of url] assms(2) by (auto simp: short_addrs_def)
  have v: "valid_name ?n" using storesD(7)[OF assms(1)] .
  have r: "length ''Success!'' \<le> 10" by simp
  obtain l1 where l1: "log_buffer (sync_text ?n t1 ''Success!'') h = Inr (h\<lparr>logs := l1\<rparr>)"
    using log_text_ok(1)[OF v t1(2) r] by blast
  let ?h = "h\<lparr>logs := l1, files := fwrite (path_of ?d ?n) (fv_val req) fs1\<rparr>"
  obtain l2 where l2: "log_buffer (recv_text ?n t2 ''Success!'') ?h = Inr (?h\<lparr>logs := l2\<rparr>)"
    using log_text_ok(2)[OF v t2(2) r] by blast
  have "McServer_turn net url req request addr (h, w) = Inr (None, ?h\<lparr>logs := l2\<rparr>, w1)"
    using assms(3,4) op t1(1) t2(1) l1 l2
    by (simp add: McServer_turn_def CSyncCltWrap_Addafps_def storesD[OF assms(1)])
  moreover have "stored_in h req (?h\<lparr>logs := l2\<rparr>)"
    unfolding stored_in_def using wr by (intro exI[of _ "fwrite (path_of ?d ?n) (fv_val req) fs1"] exI[of _ l2]) simp
  ultimately show ?thesis by blast
qed

lemma McServer_turn_refuses:
  assumes "valid_name (fv_name req)" and "short_addrs (cfg h) url"
    and "net_addafps net addr request w = (s, w1)" and "\<not> status_ok s"
  shows "\<exists>ls. McServer_turn net url req request addr (h, w) = Inr (Some Status_CANCELLED, h\<lparr>logs := ls\<rparr>, w1)"
proof -
  obtain t1 where t1: "host_part (CLT_SYNC_ADDR (cfg h)) = Inr t1" "length t1 \<le> 300"
    using host_part_ok[of "CLT_SYNC_ADDR (cfg h)"] assms(2) by (auto simp: short_addrs_def)
  have "length ''Error!'' \<le> 10" by simp
  then obtain l1 where "log_buffer (sync_text (fv_name req) t1 ''Error!'') h = Inr (h\<lparr>logs := l1\<rparr>)"
    using log_text_ok(1)[OF assms(1) t1(2)] by blast
  then have "McServer_turn net url req request addr (h, w) = Inr (Some Status_CANCELLED, h\<lparr>logs := l1\<rparr>, w1)"
    using assms(3,4) t1(1) by (simp add: McServer_turn_def CSyncCltWrap_Addafps_def)
  then show ?thesis by blast
qed

lemma stored_in_stores:
  assumes "stored_in h req h1" and "stores (DST_DIR (cfg h)) req (files h)"
  shows "stores (DST_DIR (cfg h1)) req (files h1)" and "cfg h1 = cfg h"
  using assms wrote_can_write by (auto simp: stored_in_def stores_def)

lemma McServer_loop_prefix:
  assumes "stores (DST_DIR (cfg h)) req (files h)" and "short_addrs (cfg h) url"
    and "all_accept net request as w"
  shows "\<exists>h1. McServer_loop net url req request (as @ bs) (h, w) =
      McServer_loop net url req request bs (h1, send_all net request as w) \<and>
    (if as = [] then h1 = h else stored_in h req h1)"
  using assms
proof (induction as arbitrary: h w)
  case Nil
  then show ?case by simp
next
  case (Cons a as)
  obtain s w1 where call: "net_addafps net a request w = (s, w1)" by (cases "net_addafps net a request w")
  then have ok: "status_ok s" "all_accept net request as w1" using Cons.prems(3) by simp_all
  obtain h1 where turn: "McServer_turn net url req request a (h, w) = Inr (None, h1, w1)"
    and st: "stored_in h req h1"
    using McServer_turn_accepts[OF Cons.prems(1,2) call ok(1)] by blast
  note h1 = stored_in_stores[OF st Cons.prems(1)]
  have "short_addrs (cfg h1) url" using Cons.prems(2) h1(2) by simp
  from Cons.IH[OF h1(1) this ok(2)] obtain h2 where
      rest: "McServer_loop net url req request (as @ bs) (h1, w1) =
        McServer_loop net url req request bs (h2, send_all net request as w1)"
    and h2: "if as = [] then h2 = h1 else stored_in h1 req h2" by blast
  have "stored_in h req h2" using h2 st stored_in_again[OF st] by (auto split: if_splits)
  then show ?case using turn rest call by auto
qed

text \<open>C12: when every sub cache accepts the file, the main cache has sent it to each of them in the
  order of the list, has stored it in its own \<open>DST_DIR\<close> and answers OK; with an empty list it
  answers OK and stores nothing, and the file is nowhere.\<close>

theorem McServer_Afpmove_distributes:
  assumes "stores (DST_DIR (cfg h)) req (files h)" and "short_addrs (cfg h) url"
    and "all_accept net req (g_sublist h) w"
  shows "\<exists>h'. McServer_Afpmove net url req (h, w) =
      Inr (Status_OK, h', send_all net req (g_sublist h) w) \<and>
    (if g_sublist h = [] then h' = h else stored_in h req h')"
proof -
  have req: "\<lparr>fv_name = fv_name req, fv_val = fv_val req, fv_len = fv_len req\<rparr> = req" by simp
  have run: "McServer_Afpmove net url req (h, w) = McServer_loop net url req req (g_sublist h) (h, w)"
    by (simp add: McServer_Afpmove_def storesD[OF assms(1)] req)
  show ?thesis
    using McServer_loop_prefix[OF assms, of "[]"] unfolding run by auto
qed

text \<open>C13: when a sub cache refuses the file, the main cache stops there and answers CANCELLED, but
  the sub caches before it keep the file, and so does the main cache itself unless the refusing
  one is the first of the list; those after it never hear of the file.\<close>

theorem McServer_Afpmove_partial:
  assumes "stores (DST_DIR (cfg h)) req (files h)" and "short_addrs (cfg h) url"
    and "g_sublist h = as @ b # bs" and "all_accept net req as w"
    and "net_addafps net b req (send_all net req as w) = (s, w1)" and "\<not> status_ok s"
  shows "\<exists>h'. McServer_Afpmove net url req (h, w) = Inr (Status_CANCELLED, h', w1) \<and>
    (if as = [] then files h' = files h
     else wrote (DST_DIR (cfg h)) (fv_name req) (fv_val req) (files h) (files h'))"
proof -
  have req: "\<lparr>fv_name = fv_name req, fv_val = fv_val req, fv_len = fv_len req\<rparr> = req" by simp
  have run: "McServer_Afpmove net url req (h, w) = McServer_loop net url req req (as @ b # bs) (h, w)"
    by (simp add: McServer_Afpmove_def storesD[OF assms(1)] req assms(3))
  obtain h1 where loop: "McServer_loop net url req req (as @ b # bs) (h, w) =
      McServer_loop net url req req (b # bs) (h1, send_all net req as w)"
    and h1: "if as = [] then h1 = h else stored_in h req h1"
    using McServer_loop_prefix[OF assms(1,2,4), of "b # bs"] by blast
  have cfg: "cfg h1 = cfg h" using h1 by (auto simp: stored_in_def split: if_splits)
  obtain ls where "McServer_turn net url req req b (h1, send_all net req as w) =
      Inr (Some Status_CANCELLED, h1\<lparr>logs := ls\<rparr>, w1)"
    using McServer_turn_refuses[OF storesD(7)[OF assms(1)] _ assms(5,6), of h1 url] assms(2) cfg
    by (auto simp: short_addrs_def)
  then have "McServer_Afpmove net url req (h, w) = Inr (Status_CANCELLED, h1\<lparr>logs := ls\<rparr>, w1)"
    using run loop by simp
  moreover have "if as = [] then files (h1\<lparr>logs := ls\<rparr>) = files h
      else wrote (DST_DIR (cfg h)) (fv_name req) (fv_val req) (files h) (files (h1\<lparr>logs := ls\<rparr>))"
    using h1 by (auto simp: stored_in_def split: if_splits)
  ultimately show ?thesis by blast
qed


section \<open>Concrete runs\<close>

definition sample_host :: host where
  "sample_host = \<lparr>cfg = config_init\<lparr>AFP_DIR := ''afp'', DST_DIR := ''dst''\<rparr>,
     files = [''afp'' \<mapsto> plain_dir [], ''dst'' \<mapsto> plain_dir [(''1.afp'', ''old'')]], logs = [],
     g_sublist = [''s1:1'', ''s2:1''], transfers = 0\<rparr>"

definition sample_req :: FingerValue where
  "sample_req = \<lparr>fv_name = ''7.afp'', fv_val = ''data'', fv_len = 4\<rparr>"

lemma sample_stores: "stores (DST_DIR (cfg sample_host)) sample_req (files sample_host)"
  by (simp add: stores_def sample_host_def sample_req_def fs_eval fs_eval_defs)

lemma sample_short: "short_addrs (cfg sample_host) ''ipv4:10.0.0.1:4000''"
  by (simp add: short_addrs_def sample_host_def config_init_def)

text \<open>A rest of the system that records the addresses a file was sent to; the address \<open>s2:1\<close>
  refuses it in the second version.\<close>

definition recording_net :: "string \<Rightarrow> string list net" where
  "recording_net bad = \<lparr>net_afpmove = (\<lambda>a r w. (Status_OK, r, w @ [a])),
     net_preconf = (\<lambda>a r w. (Status_OK, r, w)),
     net_delafps = (\<lambda>a r w. (if a = bad then Status_CANCELLED else Status_OK, w @ [a])),
     net_addafps = (\<lambda>a r w. (if a = bad then Status_CANCELLED else Status_OK, w @ [a]))\<rparr>"

theorem GMServer_Afpmove_stores_witness:
  "\<exists>fs'. GMServer_Afpmove sample_req sample_host = Inr (Status_OK, sample_host\<lparr>files := fs'\<rparr>) \<and>
    data_of fs' ''dst'' ''7.afp'' = ''data''"
  using GMServer_Afpmove_stores[OF sample_stores]
  by (auto simp: sample_host_def sample_req_def dest: wrote_data)

theorem GMServer_Afpmove_safe_iff_witness:
  "\<not> safe (GMServer_Afpmove (sample_req\<lparr>fv_len := 1000\<rparr>) sample_host)"
proof -
  have "''7.afp'' = cstr (fv_name (sample_req\<lparr>fv_len := 1000\<rparr>))" by (simp add: sample_req_def)
  from GMServer_Afpmove_safe_iff[OF this, of sample_host] show ?thesis
    by (simp add: sample_host_def sample_req_def fs_eval fs_eval_defs)
qed

theorem ScServer_delete_after_add_witness:
  "\<exists>h1 h2. ScServer_Addafps sample_req sample_host = Inr (Status_OK, h1) \<and>
    ScServer_Delafps \<lparr>dn_name = ''7.afp''\<rparr> h1 = Inr (Status_CANCELLED, h2) \<and>
    data_of (files h2) ''dst'' ''7.afp'' = ''data''"
proof -
  have "fits_path (AFP_DIR (cfg sample_host)) (fv_name sample_req)"
    and "writable_dir (files sample_host) (AFP_DIR (cfg sample_host))"
    and "file_of (files sample_host) (AFP_DIR (cfg sample_host)) (fv_name sample_req) = None"
    by (simp_all add: sample_host_def sample_req_def fs_eval fs_eval_defs)
  from ScServer_delete_after_add[OF sample_stores this] show ?thesis
    by (auto simp: sample_host_def sample_req_def)
qed

theorem McServer_Afpmove_distributes_witness:
  "\<exists>h'. McServer_Afpmove (recording_net []) ''ipv4:10.0.0.1:4000'' sample_req (sample_host, []) =
     Inr (Status_OK, h', [''s1:1'', ''s2:1'']) \<and> stored_in sample_host sample_req h'"
proof -
  have "all_accept (recording_net []) sample_req (g_sublist sample_host) []"
    and "send_all (recording_net []) sample_req (g_sublist sample_host) [] = [''s1:1'', ''s2:1'']"
    and "g_sublist sample_host \<noteq> []"
    by (simp_all add: recording_net_def sample_host_def)
  with McServer_Afpmove_distributes[OF sample_stores sample_short this(1)] show ?thesis by simp
qed

theorem McServer_Afpmove_partial_witness:
  "\<exists>h'. McServer_Afpmove (recording_net ''s2:1'') ''ipv4:10.0.0.1:4000'' sample_req (sample_host, []) =
     Inr (Status_CANCELLED, h', [''s1:1'', ''s2:1'']) \<and>
    wrote ''dst'' ''7.afp'' ''data'' (files sample_host) (files h')"
proof -
  let ?net = "recording_net ''s2:1''"
  have "g_sublist sample_host = [''s1:1''] @ ''s2:1'' # []"
    and "all_accept ?net sample_req [''s1:1''] []"
    and "net_addafps ?net ''s2:1'' sample_req (send_all ?net sample_req [''s1:1''] []) =
      (Status_CANCELLED, [''s1:1'', ''s2:1''])"
    and "\<not> status_ok Status_CANCELLED"
    by (simp_all add: recording_net_def sample_host_def)
  from McServer_Afpmove_partial[OF sample_stores sample_short this] show ?thesis
    by (simp add: sample_host_def sample_req_def)
qed

end
