(* ===== verification/Client.thy ===== *)
theory Client
  imports Server
begin

text \<open>
  The clients of \<open>src/client.cc\<close>: \<open>GrMoveClient::afpMove\<close> and \<open>McMoveClient::afpMove\<close> send
  every file of the transfer directory, the latter also telling each sub cache to delete it;
  \<open>McSyncClient\<close> and \<open>McConfClient\<close> are single calls.
\<close>

section \<open>Reading a file to send\<close>

text \<open>\<open>ftell\<close> at the end, \<open>new char[flen]\<close> (a negative size throws), \<open>fread\<close>, and the request
  that carries the bytes.\<close>

definition file_request :: "string \<Rightarrow> string \<Rightarrow> FingerValue run" where
  "file_request n bytes =
    (let flen = wrap32 (int (length bytes))
     in if flen < 0 then Inl OutOfBounds
        else Inr \<lparr>fv_name = n, fv_val = take (nat flen) bytes, fv_len = flen\<rparr>)"

section \<open>GrMoveClient\<close>

text \<open>One entry of the directory; the status of the call is only printed.\<close>

definition GrMoveClient_entry ::
    "'w net \<Rightarrow> string \<Rightarrow> fsys \<Rightarrow> string \<Rightarrow> string \<Rightarrow> 'w \<Rightarrow> 'w run" where
  "GrMoveClient_entry net addr fs org n w =
    bnd (sprintf_path org n) (\<lambda>fname.
      if \<not> fopen_r fs fname then Inr w
      else bnd (file_request n (content fs fname)) (\<lambda>request.
        case CMoveCltWrap_Afpmove net addr request w of (status, response, w1) \<Rightarrow> Inr w1))"

definition GrMoveClient_afpMove ::
    "'w net \<Rightarrow> string \<Rightarrow> string \<Rightarrow> fsys \<Rightarrow> 'w \<Rightarrow> (int \<times> 'w) run" where
  "GrMoveClient_afpMove net addr org fs w =
    (case opendir fs org of
       None \<Rightarrow> Inr (-1, w)
     | Some names \<Rightarrow>
         bnd (each_entry (GrMoveClient_entry net addr fs org) names w) (\<lambda>w1. Inr (0, w1)))"

text \<open>The thread: a channel to \<open>CLT_MOVE_ADDR\<close>, all of \<open>ORG_DIR\<close>.\<close>

definition runClient :: "'w net \<Rightarrow> host \<Rightarrow> 'w \<Rightarrow> (int \<times> 'w) run" where
  "runClient net h w =
    GrMoveClient_afpMove net (CLT_MOVE_ADDR (cfg h)) (ORG_DIR (cfg h)) (files h) w"

definition startClient :: "host \<Rightarrow> host" where
  "startClient h = h\<lparr>transfers := Suc (transfers h)\<rparr>"

section \<open>McSyncClient and McConfClient\<close>

definition appAdd :: "'w net \<Rightarrow> string \<Rightarrow> FingerValue \<Rightarrow> 'w \<Rightarrow> Status \<times> 'w" where
  "appAdd net addr req w = CSyncCltWrap_Addafps net addr req w"

definition appDel :: "'w net \<Rightarrow> string \<Rightarrow> AfpDelName \<Rightarrow> 'w \<Rightarrow> Status \<times> 'w" where
  "appDel net addr req w = CSyncCltWrap_Delafps net addr req w"

text \<open>\<open>output\<close> is the length of the response, which starts at 0.\<close>

definition preConf :: "'w net \<Rightarrow> string \<Rightarrow> int \<Rightarrow> 'w \<Rightarrow> Status \<times> int \<times> 'w" where
  "preConf net addr threShold w =
    (case CConfCltWrap_Preconf net addr \<lparr>cv_len = threShold\<rparr> w of
       (status, res, w1) \<Rightarrow> (status, cv_len res, w1))"

section \<open>McMoveClient\<close>

text \<open>\<open>strtok(hostaddr, ":")\<close>: the token, and what the array holds afterwards as a C string
  (the colon after the token becomes a zero byte).\<close>

definition strtok_buffer :: "char \<Rightarrow> string \<Rightarrow> string" where
  "strtok_buffer d s =
    (let lead = takeWhile (\<lambda>c. c = d) s; t = dropWhile (\<lambda>c. c = d) s
     in if t = [] then s else lead @ takeWhile (\<lambda>c. c \<noteq> d) t)"

definition move_text :: "string \<Rightarrow> string \<Rightarrow> string \<Rightarrow> string" where
  "move_text n hostname result =
     n @ tab @ '':'' @ tab @ tab @ ''main'' @ tab @ tab @ ''==>'' @ tab @ tab @ hostname @
     tab @ tab @ result"

definition del_text :: "string \<Rightarrow> string \<Rightarrow> string \<Rightarrow> string" where
  "del_text n addr result =
     n @ tab @ '':'' @ tab @ tab @ ''main'' @ tab @ tab @ ''-->'' @ tab @ tab @ addr @ result"

text \<open>One sub cache told to delete the file \<open>n\<close>.\<close>

definition del_one :: "'w net \<Rightarrow> string \<Rightarrow> string \<Rightarrow> host \<times> 'w \<Rightarrow> (host \<times> 'w) run" where
  "del_one net n addr st =
    (case st of (h, w) \<Rightarrow>
      (case appDel net addr \<lparr>dn_name = n\<rparr> w of (status, w1) \<Rightarrow>
        bnd (host_part addr) (\<lambda>tmp.
          bnd (log_buffer (del_text n tmp
                (if status_ok status then tab @ tab @ ''Success!'' else ''Error!'')) h) (\<lambda>h1.
            Inr (h1, w1)))))"

text \<open>One entry: the state is the process, the array \<open>hostaddr\<close> and the rest of the system. The
  array is written into by \<open>strtok\<close>; a null token goes into \<open>%s\<close>, a fault.\<close>

definition McMoveClient_entry ::
    "'w net \<Rightarrow> string \<Rightarrow> string \<Rightarrow> string \<Rightarrow> host \<times> string \<times> 'w \<Rightarrow> (host \<times> string \<times> 'w) run" where
  "McMoveClient_entry net addr org n st =
    (case st of (h, hostaddr, w) \<Rightarrow>
      bnd (sprintf_path org n) (\<lambda>fname.
        if \<not> fopen_r (files h) fname
        then bnd (log_buffer (''open file : '' @ fname @ '' Error'') h) (\<lambda>h1. Inr (h1, hostaddr, w))
        else bnd (file_request n (content (files h) fname)) (\<lambda>request.
          case CMoveCltWrap_Afpmove net addr request w of (status, response, w1) \<Rightarrow>
            (case fst (strtok (CHR '':'') hostaddr) of
               None \<Rightarrow> Inl NullDeref
             | Some hostname \<Rightarrow>
                 bnd (log_buffer (move_text n hostname
                       (if status_ok status then ''Success!'' else ''Error!'')) h) (\<lambda>h1.
                   bnd (for_each (del_one net n) (g_sublist h1) (h1, w1)) (\<lambda>(h2, w2).
                     Inr (h2, strtok_buffer (CHR '':'') hostaddr, w2)))))))"

definition McMoveClient_afpMove ::
    "'w net \<Rightarrow> string \<Rightarrow> string \<Rightarrow> host \<times> string \<times> 'w \<Rightarrow> (int \<times> host \<times> string \<times> 'w) run" where
  "McMoveClient_afpMove net addr org st =
    (case opendir (files (fst st)) org of
       None \<Rightarrow>
         bnd (log_buffer (''open dir : '' @ org @ '' Error!'') (fst st)) (\<lambda>h1.
           Inr (-1, h1, snd st))
     | Some names \<Rightarrow>
         bnd (each_entry (McMoveClient_entry net addr org) names st) (\<lambda>st1. Inr (0, st1)))"


section \<open>What the clients send\<close>

text \<open>A directory whose files can be sent: legal entries whose paths fit and whose sizes are
  \<open>int\<close>s.\<close>

definition sendable :: "string \<Rightarrow> fsys \<Rightarrow> bool" where
  "sendable org fs \<longleftrightarrow> wf_fs fs \<and> readable_dir fs org \<and>
     (\<forall>n. file_of fs org n \<noteq> None \<longrightarrow> fits_path org n \<and> length (data_of fs org n) < 2 ^ 31)"

definition request_of :: "fsys \<Rightarrow> string \<Rightarrow> string \<Rightarrow> FingerValue" where
  "request_of fs org n =
    \<lparr>fv_name = n, fv_val = data_of fs org n, fv_len = int (length (data_of fs org n))\<rparr>"

lemma file_request_of:
  assumes "length (data_of fs org n) < 2 ^ 31" and "CHR ''/'' \<notin> set n"
  shows "file_request n (content fs (path_of org n)) = Inr (request_of fs org n)"
proof -
  have "wrap32 (int (length (data_of fs org n))) = int (length (data_of fs org n))"
    using assms(1) by (intro wrap32_id) (simp add: int32_def)
  then show ?thesis using assms(2) by (simp add: file_request_def request_of_def content_path)
qed

lemma sendableD:
  assumes "sendable org fs" and "n \<in> set (names_of fs org)"
  shows "valid_name n" "CHR ''/'' \<notin> set n" "sprintf_path org n = Inr (path_of org n)"
    "file_request n (content fs (path_of org n)) = Inr (request_of fs org n)"
    "fopen_r fs (path_of org n) = can_read fs org n"
proof -
  have wf: "wf_fs fs" and fl: "file_of fs org n \<noteq> None"
    using assms by (simp_all add: sendable_def names_of_file)
  have fits: "fits_path org n" and len: "length (data_of fs org n) < 2 ^ 31"
    using assms(1) fl by (simp_all add: sendable_def)
  show v: "valid_name n" using names_of_valid[OF wf assms(2)] .
  then show slash: "CHR ''/'' \<notin> set n" by (simp add: valid_nameD)
  show "sprintf_path org n = Inr (path_of org n)" using fits by (simp add: sprintf_path_cases)
  show "file_request n (content fs (path_of org n)) = Inr (request_of fs org n)"
    using file_request_of[OF len slash] .
  show "fopen_r fs (path_of org n) = can_read fs org n" using slash by (simp add: fopen_r_path)
qed

text \<open>The files of a directory that are sent, and sending them to one address.\<close>

definition sent_names :: "fsys \<Rightarrow> string \<Rightarrow> string list" where
  "sent_names fs org = filter (can_read fs org) (names_of fs org)"

definition send_file :: "'w net \<Rightarrow> string \<Rightarrow> fsys \<Rightarrow> string \<Rightarrow> string \<Rightarrow> 'w \<Rightarrow> 'w" where
  "send_file net addr fs org n w = snd (snd (net_afpmove net addr (request_of fs org n) w))"

lemma fold_filter_skip: "fold (\<lambda>n w. if P n then f n w else w) ns w = fold f (filter P ns) w"
  by (induction ns arbitrary: w) auto

text \<open>C14: the transfer of a group server sends every readable file of the transfer directory, in
  the order of the directory, with its name, its complete content and its size, each exactly
  once and whatever the answers to the earlier ones, and returns 0.\<close>

theorem GrMoveClient_sends_all:
  assumes "sendable org fs"
  shows "GrMoveClient_afpMove net addr org fs w =
    Inr (0, fold (send_file net addr fs org) (sent_names fs org) w)"
proof -
  have wf: "wf_fs fs" and rd: "readable_dir fs org" using assms by (simp_all add: sendable_def)
  have "GrMoveClient_entry net addr fs org n v =
      Inr (if can_read fs org n then send_file net addr fs org n v else v)"
    if "n \<in> set (names_of fs org)" for n v
    using sendableD[OF assms that]
    by (cases "net_afpmove net addr (request_of fs org n) v")
      (auto simp: GrMoveClient_entry_def CMoveCltWrap_Afpmove_def send_file_def)
  then have "for_each (GrMoveClient_entry net addr fs org) (names_of fs org) w =
      Inr (fold (\<lambda>n v. if can_read fs org n then send_file net addr fs org n v else v) (names_of fs org) w)"
    by (rule for_each_total)
  then show ?thesis
    by (simp add: GrMoveClient_afpMove_def opendir_names[OF rd] each_entry_names[OF wf]
        fold_filter_skip sent_names_def)
qed

section \<open>The main cache's transfer\<close>

text \<open>The deletions of a name at the sub caches.\<close>

definition delete_at :: "'w net \<Rightarrow> string \<Rightarrow> string \<Rightarrow> 'w \<Rightarrow> 'w" where
  "delete_at net n addr w = snd (net_delafps net addr \<lparr>dn_name = n\<rparr> w)"

definition move_and_delete ::
    "'w net \<Rightarrow> string \<Rightarrow> string list \<Rightarrow> fsys \<Rightarrow> string \<Rightarrow> string \<Rightarrow> 'w \<Rightarrow> 'w" where
  "move_and_delete net addr subs fs org n w = fold (delete_at net n) subs (send_file net addr fs org n w)"

definition short_subs :: "string list \<Rightarrow> bool" where
  "short_subs subs \<longleftrightarrow> (\<forall>a \<in> set subs. length a \<le> 300)"

definition only_logs :: "host \<Rightarrow> host \<Rightarrow> bool" where
  "only_logs h h' \<longleftrightarrow> (\<exists>ls. h' = h\<lparr>logs := ls\<rparr>)"

lemma only_logsD:
  "only_logs h h' \<Longrightarrow> files h' = files h" "only_logs h h' \<Longrightarrow> cfg h' = cfg h"
  "only_logs h h' \<Longrightarrow> g_sublist h' = g_sublist h"
  by (auto simp: only_logs_def)

lemma only_logs_trans: "only_logs h h1 \<Longrightarrow> only_logs h1 h2 \<Longrightarrow> only_logs h h2"
  by (auto simp: only_logs_def)

lemma only_logs_refl [simp]: "only_logs h h"
  unfolding only_logs_def by (rule exI[of _ "logs h"]) simp

lemma log_buffer_only: "length buf \<le> 1022 \<Longrightarrow> \<exists>h'. log_buffer buf h = Inr h' \<and> only_logs h h'"
  by (auto simp: log_buffer_safe only_logs_def)

lemma del_one_effect:
  assumes "valid_name n" and "length a \<le> 300"
  shows "\<exists>h1. del_one net n a (h, w) = Inr (h1, delete_at net n a w) \<and> only_logs h h1"
proof -
  obtain s w1 where call: "net_delafps net a \<lparr>dn_name = n\<rparr> w = (s, w1)"
    by (cases "net_delafps net a \<lparr>dn_name = n\<rparr> w")
  obtain t where t: "host_part a = Inr t" "length t \<le> 300"
    using host_part_ok[of a] assms(2) by auto
  have "length (del_text n t (if status_ok s then tab @ tab @ ''Success!'' else ''Error!'')) \<le> 1022"
    using valid_nameD(4)[OF assms(1)] t(2) by (simp add: del_text_def tab_def)
  then obtain h1 where
      "log_buffer (del_text n t (if status_ok s then tab @ tab @ ''Success!'' else ''Error!'')) h = Inr h1"
      "only_logs h h1"
    using log_buffer_only by blast
  then show ?thesis
    using call t(1) by (auto simp: del_one_def appDel_def CSyncCltWrap_Delafps_def delete_at_def)
qed

lemma del_all_effect:
  assumes "valid_name n" and "short_subs subs"
  shows "\<exists>h1. for_each (del_one net n) subs (h, w) = Inr (h1, fold (delete_at net n) subs w) \<and> only_logs h h1"
  using assms(2)
proof (induction subs arbitrary: h w)
  case Nil
  then show ?case by simp
next
  case (Cons a as)
  then have "length a \<le> 300" and short: "short_subs as" by (simp_all add: short_subs_def)
  from del_one_effect[OF assms(1) this(1), where net = net and h = h and w = w] obtain h1 where
      h1: "del_one net n a (h, w) = Inr (h1, delete_at net n a w)" "only_logs h h1" by blast
  from Cons.IH[OF short, of h1 "delete_at net n a w"] h1(1) only_logs_trans[OF h1(2)]
  show ?case by auto
qed

text \<open>The array with the address of the group: cut once at its first colon, then stable.\<close>

definition host_name :: "string \<Rightarrow> string" where
  "host_name a = takeWhile (\<lambda>c. c \<noteq> CHR '':'') a"

definition good_addr :: "string \<Rightarrow> bool" where
  "good_addr a \<longleftrightarrow> a \<noteq> [] \<and> hd a \<noteq> CHR '':'' \<and> length a \<le> 300"

lemma strtok_addr:
  assumes "good_addr a"
  shows "fst (strtok (CHR '':'') a) = Some (host_name a)"
    and "strtok_buffer (CHR '':'') a = host_name a" and "good_addr (host_name a)"
    and "host_name (host_name a) = host_name a"
proof -
  obtain c r where a: "a = c # r" "c \<noteq> CHR '':''" using assms by (cases a) (auto simp: good_addr_def)
  then show "fst (strtok (CHR '':'') a) = Some (host_name a)" by (simp add: strtok_def host_name_def)
  show "strtok_buffer (CHR '':'') a = host_name a"
    using a by (simp add: strtok_buffer_def host_name_def)
  have "length (host_name a) \<le> length a" by (simp add: host_name_def length_takeWhile_le)
  then show "good_addr (host_name a)" using a assms by (simp add: good_addr_def host_name_def)
  show "host_name (host_name a) = host_name a" by (simp add: host_name_def)
qed

lemma McMoveClient_entry_effect:
  assumes "sendable org (files h)" and "n \<in> set (names_of (files h) org)" and "length org \<le> 200"
    and "short_subs (g_sublist h)" and "good_addr a"
  shows "\<exists>h1. McMoveClient_entry net addr org n (h, a, w) =
      Inr (h1, if can_read (files h) org n then host_name a else a,
        if can_read (files h) org n then move_and_delete net addr (g_sublist h) (files h) org n w else w) \<and>
    only_logs h h1"
proof (cases "can_read (files h) org n")
  case False
  have "length n \<le> 255" using sendableD(1)[OF assms(1,2)] by (rule valid_nameD(4))
  then have "length (''open file : '' @ path_of org n @ '' Error'') \<le> 1022"
    using assms(3) by (simp add: path_of_def)
  then obtain h1 where "log_buffer (''open file : '' @ path_of org n @ '' Error'') h = Inr h1" "only_logs h h1"
    using log_buffer_only by blast
  then show ?thesis using False sendableD[OF assms(1,2)] by (simp add: McMoveClient_entry_def)
next
  case True
  obtain s r w1 where call: "net_afpmove net addr (request_of (files h) org n) w = (s, r, w1)"
    by (cases "net_afpmove net addr (request_of (files h) org n) w")
  note addr = strtok_addr[OF assms(5)]
  have "length n \<le> 255" using sendableD(1)[OF assms(1,2)] by (rule valid_nameD(4))
  moreover have "length (host_name a) \<le> 300" using addr(3) by (simp add: good_addr_def)
  ultimately have
    "length (move_text n (host_name a) (if status_ok s then ''Success!'' else ''Error!'')) \<le> 1022"
    by (simp add: move_text_def tab_def)
  then obtain h1 where h1:
      "log_buffer (move_text n (host_name a) (if status_ok s then ''Success!'' else ''Error!'')) h = Inr h1"
      "only_logs h h1"
    using log_buffer_only by blast
  obtain h2 where h2: "for_each (del_one net n) (g_sublist h) (h1, w1) =
      Inr (h2, fold (delete_at net n) (g_sublist h) w1)" "only_logs h1 h2"
    using del_all_effect[OF sendableD(1)[OF assms(1,2)] assms(4), where net = net and h = h1 and w = w1]
    by blast
  have "McMoveClient_entry net addr org n (h, a, w) =
      Inr (h2, host_name a, fold (delete_at net n) (g_sublist h) w1)"
    using True sendableD[OF assms(1,2)] call h1 h2(1) addr(1,2) only_logsD(3)[OF h1(2)]
    by (simp add: McMoveClient_entry_def CMoveCltWrap_Afpmove_def)
  moreover have "fold (delete_at net n) (g_sublist h) w1 =
      move_and_delete net addr (g_sublist h) (files h) org n w"
    using call by (simp add: move_and_delete_def send_file_def)
  ultimately show ?thesis using True only_logs_trans[OF h1(2) h2(2)] by simp
qed

lemma McMoveClient_entries:
  assumes "sendable org (files h)" and "set ns \<subseteq> set (names_of (files h) org)" and "length org \<le> 200"
    and "short_subs (g_sublist h)" and "good_addr a"
  shows "\<exists>h1 a1. for_each (McMoveClient_entry net addr org) ns (h, a, w) =
      Inr (h1, a1, fold (move_and_delete net addr (g_sublist h) (files h) org)
        (filter (can_read (files h) org) ns) w) \<and> only_logs h h1 \<and> a1 \<in> {a, host_name a}"
  using assms
proof (induction ns arbitrary: h a w)
  case Nil
  then show ?case by simp
next
  case (Cons n ns)
  have n: "n \<in> set (names_of (files h) org)" and ns: "set ns \<subseteq> set (names_of (files h) org)"
    using Cons.prems(2) by simp_all
  let ?rd = "can_read (files h) org n"
  let ?a = "if ?rd then host_name a else a"
  let ?w = "if ?rd then move_and_delete net addr (g_sublist h) (files h) org n w else w"
  obtain h1 where h1: "McMoveClient_entry net addr org n (h, a, w) = Inr (h1, ?a, ?w)" "only_logs h h1"
    using McMoveClient_entry_effect[OF Cons.prems(1) n Cons.prems(3-5),
        where net = net and addr = addr and w = w] by blast
  note same = only_logsD[OF h1(2)]
  have "good_addr ?a" using strtok_addr(3)[OF Cons.prems(5)] Cons.prems(5) by simp
  then obtain h2 a2 where h2: "for_each (McMoveClient_entry net addr org) ns (h1, ?a, ?w) =
      Inr (h2, a2, fold (move_and_delete net addr (g_sublist h) (files h) org)
        (filter (can_read (files h) org) ns) ?w)" "only_logs h1 h2" "a2 \<in> {?a, host_name ?a}"
    using Cons.IH[of h1 ?a ?w] Cons.prems(1,3,4) ns unfolding same by blast
  have "a2 \<in> {a, host_name a}" using h2(3) strtok_addr(4)[OF Cons.prems(5)] by (auto split: if_splits)
  then show ?case
    using h1(1) h2(1) only_logs_trans[OF h1(2) h2(2)] by (cases ?rd) auto
qed

lemma McMoveClient_transfer:
  assumes "sendable org (files h)" and "length org \<le> 200" and "short_subs (g_sublist h)" and "good_addr a"
  shows "\<exists>h1 a1. McMoveClient_afpMove net addr org (h, a, w) =
      Inr (0, h1, a1, fold (move_and_delete net addr (g_sublist h) (files h) org)
        (sent_names (files h) org) w) \<and> only_logs h h1 \<and> a1 \<in> {a, host_name a}"
proof -
  have wf: "wf_fs (files h)" and rd: "readable_dir (files h) org"
    using assms(1) by (simp_all add: sendable_def)
  from McMoveClient_entries[OF assms(1) subset_refl assms(2-4), of net addr w]
  show ?thesis
    by (auto simp: McMoveClient_afpMove_def opendir_names[OF rd] each_entry_names[OF wf] sent_names_def)
qed

text \<open>C15: the transfer of the main cache sends every readable file of the transfer directory to the
  group and, after each, tells every sub cache to delete the file of that name, whether or not
  the group has taken it; it changes nothing of its own but the log.\<close>

theorem McMoveClient_sends_and_deletes:
  assumes "sendable org (files h)" and "length org \<le> 200" and "short_subs (g_sublist h)" and "good_addr a"
  shows "\<exists>h1 a1. McMoveClient_afpMove net addr org (h, a, w) =
      Inr (0, h1, a1, fold (move_and_delete net addr (g_sublist h) (files h) org)
        (sent_names (files h) org) w) \<and> only_logs h h1 \<and> a1 \<in> {a, host_name a}"
  by (rule McMoveClient_transfer[OF assms])


section \<open>Concrete runs\<close>

definition outbox :: fsys where
  "outbox = [''org'' \<mapsto> plain_dir [(''7.afp'', ''A''), (''8.afp'', ''BB'')]]"

lemma outbox_sendable: "sendable ''org'' outbox"
  by (auto simp: sendable_def outbox_def fs_eval fs_eval_defs)

lemma outbox_sent: "sent_names outbox ''org'' = [''7.afp'', ''8.afp'']"
  by (simp add: sent_names_def outbox_def fs_eval fs_eval_defs)

text \<open>A rest of the system that records every call with its content.\<close>

definition trace_net :: "string list net" where
  "trace_net = \<lparr>net_afpmove = (\<lambda>a r w. (Status_CANCELLED, r, w @ [a @ '' '' @ fv_name r @ '' '' @ fv_val r])),
     net_preconf = (\<lambda>a r w. (Status_OK, r, w)),
     net_delafps = (\<lambda>a r w. (Status_OK, w @ [a @ '' '' @ dn_name r])),
     net_addafps = (\<lambda>a r w. (Status_OK, w))\<rparr>"

theorem GrMoveClient_sends_all_witness:
  "GrMoveClient_afpMove trace_net ''g1:2'' ''org'' outbox [] =
    Inr (0, [''g1:2 7.afp A'', ''g1:2 8.afp BB''])"
  using GrMoveClient_sends_all[OF outbox_sendable, of trace_net "''g1:2''" "[]"]
  by (simp add: outbox_sent send_file_def request_of_def trace_net_def data_of_def)
    (simp add: outbox_def fs_eval)

theorem McMoveClient_sends_and_deletes_witness:
  "\<exists>h1 a1. McMoveClient_afpMove trace_net ''g1:2'' ''org'' (sample_host\<lparr>files := outbox\<rparr>, ''g1:2'', []) =
    Inr (0, h1, a1, [''g1:2 7.afp A'', ''s1:1 7.afp'', ''s2:1 7.afp'',
                     ''g1:2 8.afp BB'', ''s1:1 8.afp'', ''s2:1 8.afp'']) \<and> a1 \<in> {''g1:2'', ''g1''}"
proof -
  let ?h = "sample_host\<lparr>files := outbox\<rparr>"
  have "sendable ''org'' (files ?h)" and "length ''org'' \<le> (200::nat)" and "short_subs (g_sublist ?h)"
    and "good_addr ''g1:2''"
    by (simp_all add: outbox_sendable short_subs_def good_addr_def sample_host_def)
  note main = McMoveClient_sends_and_deletes[OF this, of trace_net "''g1:2''" "[]"]
  have h: "g_sublist ?h = [''s1:1'', ''s2:1'']" "files ?h = outbox" by (simp_all add: sample_host_def)
  have data: "data_of outbox ''org'' ''7.afp'' = ''A''" "data_of outbox ''org'' ''8.afp'' = ''BB''"
    by (simp_all add: outbox_def fs_eval fs_eval_defs)
  have "fold (move_and_delete trace_net ''g1:2'' [''s1:1'', ''s2:1''] outbox ''org'') (sent_names outbox ''org'') [] =
      [''g1:2 7.afp A'', ''s1:1 7.afp'', ''s2:1 7.afp'', ''g1:2 8.afp BB'', ''s1:1 8.afp'', ''s2:1 8.afp'']"
    by (simp add: outbox_sent move_and_delete_def send_file_def delete_at_def request_of_def trace_net_def data)
  moreover have "host_name ''g1:2'' = ''g1''" by (simp add: host_name_def)
  ultimately show ?thesis using main unfolding h by auto
qed

end
