(* ===== verification/Service.thy ===== *)
theory Service
  imports Client
begin

text \<open>
  \<open>src/service.cc\<close>: the start of a node (\<open>main\<close>: options, configuration, the list of sub
  caches, the mode) and the daily loop of the main cache (\<open>McService::runLoop\<close>), which asks each
  group in turn how many files it frees and sends it the next slice of the chosen files.
\<close>

section \<open>McService::runLoop\<close>

text \<open>One pair of addresses of the group list: \<open>lineCount\<close> is the position of the next slice.
  The state after it, and the content of \<open>move_addr\<close>, which \<open>strtok\<close> may have cut.\<close>

record 'w loop_state =
  l_host :: host
  l_count :: int
  l_world :: 'w

definition group_turn ::
    "'w net \<Rightarrow> int \<Rightarrow> string \<Rightarrow> string \<Rightarrow> 'w loop_state \<Rightarrow> ('w loop_state \<times> string) run" where
  "group_turn net thold conf_addr move_addr st =
    (let h = l_host st; c = cfg h in
     case preConf net conf_addr thold (l_world st) of (status, result, w1) \<Rightarrow>
       if \<not> status_ok status
       then bnd (g_logstring ''preconf Error!'' h) (\<lambda>h1.
              Inr (st\<lparr>l_host := h1, l_world := w1\<rparr>, move_addr))
       else bnd (on_files (movCntFile (AFP_DIR c) (ORG_DIR c) (WRK_DIR c) (l_count st) result) h)
             (\<lambda>(_, h1).
          bnd (McMoveClient_afpMove net move_addr (ORG_DIR c) (h1, move_addr, w1))
             (\<lambda>(r, h2, move_addr', w2).
            bnd (if r = -1 then log_buffer (move_addr' @ '' move finger file Error!'') h2 else Inr h2)
               (\<lambda>h3.
              Inr (st\<lparr>l_host := h3, l_count := wrap32 (l_count st + result), l_world := w2\<rparr>,
                   move_addr')))))"

text \<open>\<open>while (-1 != fscanf(fp, "%s%s", conf_addr, move_addr))\<close>: the arrays hold 1024 bytes; after
  a last token that stands alone, \<open>move_addr\<close> still holds what the previous turn left in it.\<close>

fun group_loop ::
    "'w net \<Rightarrow> int \<Rightarrow> string list \<Rightarrow> string option \<Rightarrow> 'w loop_state \<Rightarrow> 'w loop_state run" where
  "group_loop net thold [] prev st = Inr st"
| "group_loop net thold [c] prev st =
     bnd (scan_word MAX_LINE_LEN c) (\<lambda>conf_addr.
       case prev of None \<Rightarrow> Inl Uninitialised
       | Some move_addr \<Rightarrow>
           bnd (group_turn net thold conf_addr move_addr st) (\<lambda>(st', _). Inr st'))"
| "group_loop net thold (c # m # ts) prev st =
     bnd (scan_word MAX_LINE_LEN c) (\<lambda>conf_addr.
       bnd (scan_word MAX_LINE_LEN m) (\<lambda>move_addr.
         bnd (group_turn net thold conf_addr move_addr st) (\<lambda>(st', move_addr').
           group_loop net thold ts (Some move_addr') st')))"

text \<open>One day of the loop. The stream of the group list is opened first and read after the jobs.\<close>

definition runLoop_day ::
    "'w net \<Rightarrow> int \<Rightarrow> sorter \<Rightarrow> host \<times> 'w \<Rightarrow> (host \<times> 'w) run" where
  "runLoop_day net now srt st =
    (case st of (h, w) \<Rightarrow>
     let c = cfg h in
     if \<not> fopen_r (files h) (GROUP_LIST c)
     then bnd (log_buffer ''open the group list file error!'' h) (\<lambda>h1. Inr (h1, w))
     else
      bnd (on_files (getAfpName (AFP_DIR c) (WRK_DIR c)) h) (\<lambda>(_, h1).
      bnd (on_files (movLogFile now (DAT_DIR c) (LOG_DIR c)) h1) (\<lambda>(_, h2).
      bnd (on_files (cntSrhNums srt (LOG_DIR c) (WRK_DIR c) 1) h2) (\<lambda>(_, h3).
      bnd (on_files (fltLogFile (WRK_DIR c) (WRK_DIR c)) h3) (\<lambda>(_, h4).
      bnd (on_files (botAfpFile c (WRK_DIR c) (WRK_DIR c)) h4) (\<lambda>(thold, h5).
        if thold = -1 then bnd (g_logstring ''preconf Error!'' h5) (\<lambda>h6. Inr (h6, w))
        else bnd (group_loop net thold (scan_tokens (content (files h5) (GROUP_LIST c))) None
                   \<lparr>l_host = h5, l_count = 0, l_world = w\<rparr>)
               (\<lambda>st'. Inr (l_host st', l_world st'))))))))"

text \<open>The thread: a day for each pair of a time and what the rest of the world did to the files
  and the configuration since the day before.\<close>

fun runLoop ::
    "'w net \<Rightarrow> sorter \<Rightarrow> (int \<times> (host \<times> 'w \<Rightarrow> host \<times> 'w)) list \<Rightarrow> host \<times> 'w \<Rightarrow> (host \<times> 'w) run" where
  "runLoop net srt [] st = Inr st"
| "runLoop net srt ((now, night) # days) st =
     bnd (runLoop_day net now srt st) (\<lambda>st'. runLoop net srt days (night st'))"

section \<open>main\<close>

datatype mode = GROUP_MODE | MAINCACHE_MODE | SUBCACHE_MODE

text \<open>\<open>getopt(argc, argv, "gms")\<close>: the letters of the arguments that start with a hyphen, up to
  \<open>--\<close>; the last of \<open>g\<close>, \<open>m\<close> and \<open>s\<close> decides.\<close>

fun getopt_letters :: "string list \<Rightarrow> string" where
  "getopt_letters [] = []"
| "getopt_letters (a # as) =
     (if a = ''--'' then []
      else if a \<noteq> ''-'' \<and> a \<noteq> [] \<and> hd a = CHR ''-'' then tl a @ getopt_letters as
      else getopt_letters as)"

definition mode_step :: "char \<Rightarrow> mode \<Rightarrow> mode" where
  "mode_step ch flag =
    (if ch = CHR ''g'' then GROUP_MODE
     else if ch = CHR ''m'' then MAINCACHE_MODE
     else if ch = CHR ''s'' then SUBCACHE_MODE
     else flag)"

definition main_mode :: "string list \<Rightarrow> mode" where
  "main_mode args = fold mode_step (getopt_letters args) GROUP_MODE"

text \<open>The list of sub caches: one address per line; the last byte of each line is cut off.\<close>

definition load_sublist :: "string \<Rightarrow> string list \<Rightarrow> string list run" where
  "load_sublist s subs =
    for_each (\<lambda>line subs. bnd (chop_line line) (\<lambda>addr. Inr (subs @ [addr]))) (fgets_lines s) subs"

text \<open>The servers a mode starts, each in a thread of its own that listens at an address; the main
  cache also starts the daily loop. \<open>main\<close> starts the logger and then waits for the first
  thread.\<close>

datatype service = Listen string string | Loop

definition GrService_startServer :: "config \<Rightarrow> service list" where
  "GrService_startServer c = [Listen ''GMServer'' (SER_MOVE_ADDR c), Listen ''GCServer'' (SER_CONF_ADDR c)]"

definition McService_startServer :: "config \<Rightarrow> service list" where
  "McService_startServer c = [Loop, Listen ''McServer'' (SER_MOVE_ADDR c)]"

definition ScService_startServer :: "config \<Rightarrow> service list" where
  "ScService_startServer c = [Listen ''ScServer'' (SER_SYNC_ADDR c)]"

definition start_mode :: "mode \<Rightarrow> config \<Rightarrow> service list" where
  "start_mode flag c =
    (case flag of
       GROUP_MODE \<Rightarrow> GrService_startServer c
     | MAINCACHE_MODE \<Rightarrow> McService_startServer c
     | SUBCACHE_MODE \<Rightarrow> ScService_startServer c)"

text \<open>\<open>main\<close>: \<open>Inl\<close> of a fault, or \<open>None\<close> for the return value \<open>-1\<close>, or the services started with
  the state of the process when they start.\<close>

definition main :: "string list \<Rightarrow> fsys \<Rightarrow> (service list \<times> host \<times> inspect) option run" where
  "main args fs =
    bnd (startInspect fs (inspect_init, config_init)) (\<lambda>(i, c).
      if \<not> fopen_r fs (SUB_LIST c) then Inr None
      else bnd (load_sublist (content fs (SUB_LIST c)) []) (\<lambda>subs.
        Inr (Some (start_mode (main_mode args) c,
          \<lparr>cfg = c, files = fs, logs = [], g_sublist = subs, transfers = 0\<rparr>, i))))"


section \<open>The transfer directory after a move\<close>

lemma names_emptied: "names_of (emptied d fs) d = []"
proof -
  have "n \<notin> set (names_of (emptied d fs) d)" for n by (simp add: names_of_file file_of_emptied)
  then show ?thesis by (cases "names_of (emptied d fs) d") auto
qed

lemma names_put_in:
  "has_dir fs d \<Longrightarrow> names_of (put_in d n f fs) d =
    (if n \<in> set (names_of fs d) then names_of fs d else names_of fs d @ [n])"
  by (cases "fs d") (simp_all add: names_of_def put_in_def has_dir_def names_put_entry)

lemma names_of_cong: "fs d = gs d \<Longrightarrow> names_of fs d = names_of gs d"
  by (simp add: names_of_def)

lemma names_fold_move:
  assumes "org \<noteq> dst" and "has_dir fs dst" and "distinct ns" and "set ns \<inter> set (names_of fs dst) = {}"
  shows "names_of (fold (move_name org dst) ns fs) dst =
    names_of fs dst @ filter (\<lambda>n. file_of fs org n \<noteq> None) ns"
  using assms(2-4)
proof (induction ns arbitrary: fs)
  case Nil
  then show ?case by simp
next
  case (Cons n ns)
  show ?case
  proof (cases "file_of fs org n")
    case None
    then show ?thesis using Cons by (simp add: move_name_def)
  next
    case (Some f)
    let ?fs = "put_in dst n f (del_in org n fs)"
    have dir: "has_dir (del_in org n fs) dst" using Cons.prems(1) by (simp add: files.dir_del)
    have "names_of (del_in org n fs) dst = names_of fs dst"
      using assms(1) by (intro names_of_cong) (simp add: del_in_other_dir)
    then have names: "names_of ?fs dst = names_of fs dst @ [n]"
      using Cons.prems(3) names_put_in[OF dir, of n f] by simp
    have files: "file_of ?fs org m = (if m = n then None else file_of fs org m)" for m
      using assms(1) dir by (simp add: file_of_put_in file_of_del_in)
    have "has_dir ?fs dst" using dir by (simp add: files.dir_put)
    moreover have "distinct ns" "set ns \<inter> set (names_of ?fs dst) = {}"
      using Cons.prems(2,3) names by auto
    ultimately have "names_of (fold (move_name org dst) ns ?fs) dst =
        (names_of fs dst @ [n]) @ filter (\<lambda>m. file_of ?fs org m \<noteq> None) ns"
      using Cons.IH[of ?fs] names by simp
    moreover have "filter (\<lambda>m. file_of ?fs org m \<noteq> None) ns = filter (\<lambda>m. file_of fs org m \<noteq> None) ns"
      using Cons.prems(2) files by (intro filter_cong) auto
    moreover have "move_name org dst n fs = ?fs" using Some by (simp add: move_name_def)
    ultimately show ?thesis using Some by simp
  qed
qed

lemma wf_move_name: "wf_fs fs \<Longrightarrow> valid_name n \<Longrightarrow> wf_fs (move_name org dst n fs)"
  by (auto simp: move_name_def wf_put_in wf_del_in split: option.splits)

lemma wf_fold_move:
  "wf_fs fs \<Longrightarrow> \<forall>n \<in> set ns. valid_name n \<Longrightarrow> wf_fs (fold (move_name org dst) ns fs)"
  by (induction ns arbitrary: fs) (auto simp: wf_move_name)

lemma wf_emptied: "wf_fs fs \<Longrightarrow> wf_fs (emptied d fs)"
proof -
  have "wf_fs fs \<Longrightarrow> wf_fs (fold (del_in d) ns fs)" for ns by (induction ns arbitrary: fs) (auto simp: wf_del_in)
  then show "wf_fs fs \<Longrightarrow> wf_fs (emptied d fs)" by (simp add: emptied_def)
qed

lemma dirs_fold_move:
  "writable_dir (fold (move_name org dst) ns fs) = writable_dir fs"
  "readable_dir (fold (move_name org dst) ns fs) = readable_dir fs"
  by (induction ns arbitrary: fs) auto

section \<open>The slices of the groups\<close>

text \<open>
  The abstract specification of the daily loop over the groups: a position in the list \<open>ns\<close> of
  the chosen files and the rest of the system. A group that answers the configuration call with
  a number gets that many files from the position on, one call each with the content the
  fingerprint file had at the start, and after each the sub caches are told to delete it; a group
  whose call fails gets nothing.
\<close>

definition give_file :: "'w net \<Rightarrow> string \<Rightarrow> string list \<Rightarrow> fsys \<Rightarrow> string \<Rightarrow> string \<Rightarrow> 'w \<Rightarrow> 'w" where
  "give_file net addr subs fs afp n w =
    fold (delete_at net n) subs (snd (snd (net_afpmove net addr (request_of fs afp n) w)))"

fun group_spec ::
    "'w net \<Rightarrow> int \<Rightarrow> string list \<Rightarrow> fsys \<Rightarrow> string \<Rightarrow> string list \<Rightarrow> (string \<times> string) list \<Rightarrow>
      int \<Rightarrow> 'w \<Rightarrow> int \<times> 'w" where
  "group_spec net limit subs fs afp ns [] pos w = (pos, w)"
| "group_spec net limit subs fs afp ns ((conf_addr, move_addr) # ps) pos w =
    (case net_preconf net conf_addr \<lparr>cv_len = limit\<rparr> w of (status, res, w1) \<Rightarrow>
      if \<not> status_ok status then group_spec net limit subs fs afp ns ps pos w1
      else group_spec net limit subs fs afp ns ps (pos + cv_len res)
        (fold (give_file net move_addr subs fs afp)
          (filter (can_read fs afp) (take (nat (cv_len res)) (drop (nat pos) ns))) w1))"

text \<open>The files of the main cache when the position is \<open>pos\<close>, \<open>fs0\<close> being those at the start.\<close>

definition cache_at :: "config \<Rightarrow> string list \<Rightarrow> fsys \<Rightarrow> int \<Rightarrow> fsys \<Rightarrow> bool" where
  "cache_at c ns fs0 pos fs \<longleftrightarrow> 0 \<le> pos \<and> wf_fs fs \<and>
     writable_dir fs (AFP_DIR c) \<and> readable_dir fs (ORG_DIR c) \<and> writable_dir fs (ORG_DIR c) \<and>
     (\<forall>n. file_of fs (ORG_DIR c) n \<noteq> None \<longrightarrow> fits_path (ORG_DIR c) n) \<and>
     can_read fs (WRK_DIR c) botAfpsFile \<and> data_of fs (WRK_DIR c) botAfpsFile = name_lines ns \<and>
     (\<forall>n. file_of fs (AFP_DIR c) n =
        (if n \<in> set (take (nat pos) ns) then None else file_of fs0 (AFP_DIR c) n))"

definition cache_ok :: "config \<Rightarrow> string list \<Rightarrow> fsys \<Rightarrow> bool" where
  "cache_ok c ns fs0 \<longleftrightarrow> work_dir (WRK_DIR c) \<and> AFP_DIR c \<noteq> ORG_DIR c \<and> WRK_DIR c \<noteq> ORG_DIR c \<and>
     WRK_DIR c \<noteq> AFP_DIR c \<and> length (ORG_DIR c) \<le> 200 \<and> distinct ns \<and> length ns < 2 ^ 31 \<and>
     (\<forall>n \<in> set ns. movable (AFP_DIR c) (ORG_DIR c) n \<and> length (data_of fs0 (AFP_DIR c) n) < 2 ^ 31)"

lemma drop_take_disjoint:
  assumes "distinct ns" and "n \<in> set (take k (drop p ns))"
  shows "n \<notin> set (take p ns)"
proof -
  have "n \<in> set (drop p ns)" using assms(2) by (rule in_set_takeD)
  then show ?thesis using assms(1) set_take_disj_set_drop_if_distinct[of ns p p] by blast
qed

lemma take_add_set: "set (take (i + j) xs) = set (take i xs) \<union> set (take j (drop i xs))"
  by (simp add: take_add)

text \<open>One group with a positive answer: the files after \<open>movCntFile\<close>.\<close>

lemma slice_moved:
  assumes ok: "cache_ok c ns fs0" and at: "cache_at c ns fs0 pos fs"
    and "0 \<le> r" and "pos + r < 2 ^ 31"
  obtains fs1 where "movCntFile (AFP_DIR c) (ORG_DIR c) (WRK_DIR c) pos r fs = Inr (0, fs1)"
    and "cache_at c ns fs0 (pos + r) fs1" and "sendable (ORG_DIR c) fs1"
    and "sent_names fs1 (ORG_DIR c) =
      filter (can_read fs0 (AFP_DIR c)) (take (nat r) (drop (nat pos) ns))"
    and "\<And>n. n \<in> set (take (nat r) (drop (nat pos) ns)) \<Longrightarrow>
      request_of fs1 (ORG_DIR c) n = request_of fs0 (AFP_DIR c) n"
proof -
  let ?a = "AFP_DIR c" and ?o = "ORG_DIR c" and ?w = "WRK_DIR c"
  let ?s = "take (nat r) (drop (nat pos) ns)"
  let ?fs = "fold (move_name ?a ?o) ?s (emptied ?o fs)"
  have d: "work_dir ?w" "?a \<noteq> ?o" "?w \<noteq> ?o" "?w \<noteq> ?a" "distinct ns" "length ns < 2 ^ 31"
    and mv: "\<forall>n \<in> set ns. movable ?a ?o n"
    and sz: "\<forall>n \<in> set ns. length (data_of fs0 ?a n) < 2 ^ 31"
    using ok by (auto simp: cache_ok_def)
  have a: "0 \<le> pos" "wf_fs fs" "writable_dir fs ?a" "readable_dir fs ?o" "writable_dir fs ?o"
    "\<forall>n. file_of fs ?o n \<noteq> None \<longrightarrow> fits_path ?o n" "can_read fs ?w botAfpsFile"
    "data_of fs ?w botAfpsFile = name_lines ns"
    and afp: "\<And>n. file_of fs ?a n = (if n \<in> set (take (nat pos) ns) then None else file_of fs0 ?a n)"
    using at by (auto simp: cache_at_def)
  have run: "movCntFile ?a ?o ?w pos r fs = Inr (0, ?fs)"
    using movCntFile_fold[OF a(2) d(1,2,3) a(3-8) mv a(1) assms(3,4) d(6)] .
  have moved: "moved ?a ?o ?s fs ?fs" using moved_fold[OF d(2) a(5)] .
  have sub: "set ?s \<subseteq> set ns" by (meson order_trans set_drop_subset set_take_subset)
  have fresh: "n \<notin> set (take (nat pos) ns)" if "n \<in> set ?s" for n
    using drop_take_disjoint[OF d(5) that] .
  have org: "file_of ?fs ?o n = (if n \<in> set ?s then file_of fs0 ?a n else None)" for n
    using moved afp fresh by (simp add: moved_def)
  have afp': "file_of ?fs ?a n = (if n \<in> set (take (nat (pos + r)) ns) then None else file_of fs0 ?a n)" for n
    using moved afp a(1) assms(3) by (auto simp: moved_def nat_add_distrib take_add_set)
  have wrk: "file_of ?fs ?w n = file_of fs ?w n" for n using moved d(3,4) by (simp add: moved_def)
  have "\<forall>n \<in> set ?s. valid_name n" using mv sub by (auto simp: movable_def)
  then have wf: "wf_fs ?fs" using a(2) by (intro wf_fold_move wf_emptied)
  have dirs: "writable_dir ?fs = writable_dir fs" "readable_dir ?fs = readable_dir fs"
    by (simp_all add: dirs_fold_move)
  have fits: "\<forall>n. file_of ?fs ?o n \<noteq> None \<longrightarrow> fits_path ?o n"
    using org mv sub by (auto simp: movable_def split: if_splits)
  have "cache_at c ns fs0 (pos + r) ?fs"
    using a assms(3) wf dirs fits afp' wrk by (simp add: cache_at_def can_read_def data_of_def)
  moreover have data: "data_of ?fs ?o n = data_of fs0 ?a n" if "n \<in> set ?s" for n
    using org that by (simp add: data_of_def)
  moreover have "sendable ?o ?fs"
    using wf dirs a(4) fits data sz sub org by (auto simp: sendable_def split: if_splits)
  moreover have "sent_names ?fs ?o = filter (can_read fs0 ?a) ?s"
  proof -
    have dir: "has_dir (emptied ?o fs) ?o" using a(5) by (simp add: writable_has_dir)
    have "names_of ?fs ?o = filter (\<lambda>n. file_of (emptied ?o fs) ?a n \<noteq> None) ?s"
      using names_fold_move[OF d(2) dir, of ?s] d(5) by (simp add: names_emptied)
    moreover have "(file_of (emptied ?o fs) ?a n \<noteq> None \<and> can_read ?fs ?o n) = can_read fs0 ?a n"
      if "n \<in> set ?s" for n
      using that org d(2) afp fresh by (auto simp: can_read_def file_of_emptied split: option.splits)
    then have "filter (\<lambda>n. file_of (emptied ?o fs) ?a n \<noteq> None \<and> can_read ?fs ?o n) ?s =
        filter (can_read fs0 ?a) ?s"
      by (intro filter_cong refl) blast
    ultimately show ?thesis by (simp only: sent_names_def filter_filter)
  qed
  ultimately show ?thesis using run by (intro that[of ?fs]) (simp_all add: request_of_def)
qed


lemma give_file_fold:
  assumes "\<And>n. n \<in> set ns \<Longrightarrow> request_of fs1 org n = request_of fs0 afp n"
  shows "fold (move_and_delete net addr subs fs1 org) ns w = fold (give_file net addr subs fs0 afp) ns w"
  using assms
  by (induction ns arbitrary: w) (simp_all add: move_and_delete_def give_file_def send_file_def)

lemma preconf_error_logged:
  "\<exists>h1. g_logstring ''preconf Error!'' h = Inr h1 \<and> only_logs h h1"
proof -
  have "length (cstr ''preconf Error!'') \<le> 1022" by simp
  then show ?thesis unfolding only_logs_def by (auto simp: g_logstring_safe simp del: cstr_nul_free)
qed

text \<open>The turn of a group, against its specification.\<close>

lemma group_turn_refines:
  assumes ok: "cache_ok (cfg (l_host st)) ns fs0"
    and at: "cache_at (cfg (l_host st)) ns fs0 (l_count st) (files (l_host st))"
    and "short_subs (g_sublist (l_host st))" and "good_addr move_addr"
    and "net_preconf net conf_addr \<lparr>cv_len = limit\<rparr> (l_world st) = (status, res, w1)"
    and "0 \<le> cv_len res" and "l_count st + cv_len res < 2 ^ 31"
  obtains st' a where "group_turn net limit conf_addr move_addr st = Inr (st', a)"
    and "cfg (l_host st') = cfg (l_host st)" and "g_sublist (l_host st') = g_sublist (l_host st)"
    and "cache_at (cfg (l_host st)) ns fs0 (l_count st') (files (l_host st'))"
    and "a \<in> {move_addr, host_name move_addr}"
    and "group_spec net limit (g_sublist (l_host st)) fs0 (AFP_DIR (cfg (l_host st))) ns
      [(conf_addr, move_addr)] (l_count st) (l_world st) = (l_count st', l_world st')"
proof -
  let ?h = "l_host st" and ?c = "cfg (l_host st)" and ?r = "cv_len res"
  have conf: "preConf net conf_addr limit (l_world st) = (status, ?r, w1)"
    using assms(5) by (simp add: preConf_def CConfCltWrap_Preconf_def)
  show ?thesis
  proof (cases "status_ok status")
    case False
    obtain h1 where h1: "g_logstring ''preconf Error!'' ?h = Inr h1" "only_logs ?h h1"
      using preconf_error_logged by blast
    have "group_turn net limit conf_addr move_addr st = Inr (st\<lparr>l_host := h1, l_world := w1\<rparr>, move_addr)"
      using conf False h1(1) by (simp add: group_turn_def Let_def)
    then show ?thesis
      using only_logsD[OF h1(2)] at assms(5) False
      by (intro that[of "st\<lparr>l_host := h1, l_world := w1\<rparr>" move_addr]) simp_all
  next
    case True
    obtain fs1 where mv: "movCntFile (AFP_DIR ?c) (ORG_DIR ?c) (WRK_DIR ?c) (l_count st) ?r (files ?h) = Inr (0, fs1)"
      and at1: "cache_at ?c ns fs0 (l_count st + ?r) fs1" and send: "sendable (ORG_DIR ?c) fs1"
      and names: "sent_names fs1 (ORG_DIR ?c) =
        filter (can_read fs0 (AFP_DIR ?c)) (take (nat ?r) (drop (nat (l_count st)) ns))"
      and req: "\<And>n. n \<in> set (take (nat ?r) (drop (nat (l_count st)) ns)) \<Longrightarrow>
        request_of fs1 (ORG_DIR ?c) n = request_of fs0 (AFP_DIR ?c) n"
      using slice_moved[OF ok at assms(6,7)] by metis
    let ?h1 = "?h\<lparr>files := fs1\<rparr>"
    have org: "length (ORG_DIR ?c) \<le> 200" using ok by (simp add: cache_ok_def)
    obtain h2 a where tr: "McMoveClient_afpMove net move_addr (ORG_DIR ?c) (?h1, move_addr, w1) =
        Inr (0, h2, a, fold (move_and_delete net move_addr (g_sublist ?h1) (files ?h1) (ORG_DIR ?c))
          (sent_names (files ?h1) (ORG_DIR ?c)) w1)"
      and h2: "only_logs ?h1 h2" and a: "a \<in> {move_addr, host_name move_addr}"
      using McMoveClient_transfer[of "ORG_DIR ?c" ?h1 move_addr net move_addr w1] send org assms(3,4) by auto
    have w: "fold (move_and_delete net move_addr (g_sublist ?h1) (files ?h1) (ORG_DIR ?c))
          (sent_names (files ?h1) (ORG_DIR ?c)) w1 =
        fold (give_file net move_addr (g_sublist ?h) fs0 (AFP_DIR ?c))
          (filter (can_read fs0 (AFP_DIR ?c)) (take (nat ?r) (drop (nat (l_count st)) ns))) w1" (is "_ = ?w2")
      using names give_file_fold[of "filter (can_read fs0 (AFP_DIR ?c)) (take (nat ?r) (drop (nat (l_count st)) ns))"
        fs1 "ORG_DIR ?c" fs0 "AFP_DIR ?c" net move_addr "g_sublist ?h" w1] req by simp
    have wr: "wrap32 (l_count st + ?r) = l_count st + ?r"
      using at assms(6,7) by (intro wrap32_id) (simp add: cache_at_def int32_def)
    let ?st = "st\<lparr>l_host := h2, l_count := l_count st + ?r, l_world := ?w2\<rparr>"
    have "group_turn net limit conf_addr move_addr st = Inr (?st, a)"
      using conf True mv tr w wr by (simp add: group_turn_def Let_def on_files_def)
    then show ?thesis
      using only_logsD[OF h2] at1 a assms(5) True by (intro that[of ?st a]) simp_all
  qed
qed

definition conf_addr_ok :: "string \<Rightarrow> bool" where
  "conf_addr_ok a \<longleftrightarrow> a \<noteq> [] \<and> nul_free a \<and> length a < 1024"

lemma scan_word_ok: "nul_free a \<Longrightarrow> length a < 1024 \<Longrightarrow> scan_word MAX_LINE_LEN a = Inr a"
  by (simp add: scan_word_def MAX_LINE_LEN_def)

lemma group_spec_Cons:
  "group_spec net limit subs fs afp ns (p # ps) pos w =
    (case group_spec net limit subs fs afp ns [p] pos w of (pos1, w1) \<Rightarrow>
       group_spec net limit subs fs afp ns ps pos1 w1)"
  by (cases p) (simp split: prod.splits)

lemma group_spec_bound:
  assumes "\<And>a w. 0 \<le> cv_len (fst (snd (net_preconf net a \<lparr>cv_len = limit\<rparr> w))) \<and>
      cv_len (fst (snd (net_preconf net a \<lparr>cv_len = limit\<rparr> w))) \<le> K"
    and "group_spec net limit subs fs afp ns [p] pos w = (pos1, w1)" and "0 \<le> K"
  shows "pos \<le> pos1" "pos1 \<le> pos + K"
proof -
  obtain a m where p: "p = (a, m)" by (cases p)
  obtain s r w2 where call: "net_preconf net a \<lparr>cv_len = limit\<rparr> w = (s, r, w2)"
    by (cases "net_preconf net a \<lparr>cv_len = limit\<rparr> w")
  with assms(1)[of a w] have "0 \<le> cv_len r" "cv_len r \<le> K" by simp_all
  then show "pos \<le> pos1" "pos1 \<le> pos + K" using assms(2,3) call by (auto simp: p split: if_splits)
qed

lemma group_loop_refines:
  assumes answers: "\<And>a w. 0 \<le> cv_len (fst (snd (net_preconf net a \<lparr>cv_len = limit\<rparr> w))) \<and>
      cv_len (fst (snd (net_preconf net a \<lparr>cv_len = limit\<rparr> w))) \<le> K"
    and "l_count st + int (length ps) * K < 2 ^ 31" and "0 \<le> K"
    and ok: "cache_ok (cfg (l_host st)) ns fs0"
    and at: "cache_at (cfg (l_host st)) ns fs0 (l_count st) (files (l_host st))"
    and "short_subs (g_sublist (l_host st))"
    and "\<forall>(a, m) \<in> set ps. conf_addr_ok a \<and> good_addr m \<and> nul_free m"
  shows "\<exists>st'. group_loop net limit (concat (map (\<lambda>(a, m). [a, m]) ps)) prev st = Inr st' \<and>
    cfg (l_host st') = cfg (l_host st) \<and>
    cache_at (cfg (l_host st)) ns fs0 (l_count st') (files (l_host st')) \<and>
    group_spec net limit (g_sublist (l_host st)) fs0 (AFP_DIR (cfg (l_host st))) ns ps
      (l_count st) (l_world st) = (l_count st', l_world st')"
  using assms(2-)
proof (induction ps arbitrary: prev st)
  case Nil
  then show ?case by simp
next
  case (Cons p ps)
  obtain a m where p: "p = (a, m)" by (cases p)
  have am: "conf_addr_ok a" "good_addr m" "nul_free m"
    and rest: "\<forall>(a, m) \<in> set ps. conf_addr_ok a \<and> good_addr m \<and> nul_free m"
    using Cons.prems(6) p by auto
  obtain s r w1 where call: "net_preconf net a \<lparr>cv_len = limit\<rparr> (l_world st) = (s, r, w1)"
    by (cases "net_preconf net a \<lparr>cv_len = limit\<rparr> (l_world st)")
  have r: "0 \<le> cv_len r" "cv_len r \<le> K" using answers[of a "l_world st"] call by simp_all
  have total: "l_count st + K + int (length ps) * K < 2 ^ 31" using Cons.prems(1) by (simp add: algebra_simps)
  moreover have "0 \<le> int (length ps) * K" using Cons.prems(2) by simp
  ultimately have "l_count st + cv_len r < 2 ^ 31" using r by linarith
  then obtain st1 a1 where turn: "group_turn net limit a m st = Inr (st1, a1)"
    and same: "cfg (l_host st1) = cfg (l_host st)" "g_sublist (l_host st1) = g_sublist (l_host st)"
    and at1: "cache_at (cfg (l_host st)) ns fs0 (l_count st1) (files (l_host st1))"
    and spec: "group_spec net limit (g_sublist (l_host st)) fs0 (AFP_DIR (cfg (l_host st))) ns
      [(a, m)] (l_count st) (l_world st) = (l_count st1, l_world st1)"
    using group_turn_refines[OF Cons.prems(3,4,5) am(2) call r(1)] by metis
  have "l_count st1 \<le> l_count st + K" using group_spec_bound(2)[OF answers spec Cons.prems(2)] .
  then have total1: "l_count st1 + int (length ps) * K < 2 ^ 31" using total by linarith
  have nxt: "cache_ok (cfg (l_host st1)) ns fs0"
    "cache_at (cfg (l_host st1)) ns fs0 (l_count st1) (files (l_host st1))"
    "short_subs (g_sublist (l_host st1))"
    using Cons.prems(3,5) at1 same by simp_all
  obtain st' where st': "group_loop net limit (concat (map (\<lambda>(a, m). [a, m]) ps)) (Some a1) st1 = Inr st'"
    and fin: "cfg (l_host st') = cfg (l_host st1)"
      "cache_at (cfg (l_host st1)) ns fs0 (l_count st') (files (l_host st'))"
      "group_spec net limit (g_sublist (l_host st1)) fs0 (AFP_DIR (cfg (l_host st1))) ns ps
        (l_count st1) (l_world st1) = (l_count st', l_world st')"
    using Cons.IH[OF total1 Cons.prems(2) nxt rest, of "Some a1"] by blast
  have words: "scan_word MAX_LINE_LEN a = Inr a" "scan_word MAX_LINE_LEN m = Inr m"
    using am by (simp_all add: scan_word_ok conf_addr_ok_def good_addr_def)
  have "group_loop net limit (concat (map (\<lambda>(a, m). [a, m]) (p # ps))) prev st = Inr st'"
    using words turn st' by (simp add: p)
  moreover have "group_spec net limit (g_sublist (l_host st)) fs0 (AFP_DIR (cfg (l_host st))) ns (p # ps)
      (l_count st) (l_world st) = (l_count st', l_world st')"
    using spec fin(3) same group_spec_Cons[of net limit "g_sublist (l_host st)" fs0 "AFP_DIR (cfg (l_host st))" ns p ps]
    by (simp add: p)
  ultimately show ?case using fin(1,2) same(1) by simp
qed


section \<open>Starting a node\<close>

lemma fgets_part: "b \<noteq> [] \<Longrightarrow> newline \<notin> set b \<Longrightarrow> length b < MAX_LINE_LEN \<Longrightarrow> fgets_lines b = [b]"
proof -
  have "read_line k b = (b, [])" if "newline \<notin> set b" "length b \<le> k" for k b
    using that
  proof (induction b arbitrary: k)
    case Nil
    then show ?case by (cases k) simp_all
  next
    case (Cons a b)
    then show ?case by (cases k) auto
  qed
  then show "b \<noteq> [] \<Longrightarrow> newline \<notin> set b \<Longrightarrow> length b < MAX_LINE_LEN \<Longrightarrow> fgets_lines b = [b]"
    by (simp add: fgets_lines_def fgets_chunks.simps[of _ b] MAX_LINE_LEN_def)
qed

lemma fgets_name_lines_part:
  assumes "\<forall>a \<in> set as. name_ok a" and "name_ok b"
  shows "fgets_lines (name_lines as @ b) = map (\<lambda>a. a @ [newline]) as @ (if b = [] then [] else [b])"
  using assms(1)
proof (induction as)
  case Nil
  then show ?case using assms(2) fgets_part[of b] by (simp add: name_lines_def name_ok_def MAX_LINE_LEN_def)
next
  case (Cons a as)
  then have "is_line (a @ [newline])" by (auto simp: is_line_def name_ok_def MAX_LINE_LEN_def)
  from fgets_lines_Cons[OF this, of "name_lines as @ b"] Cons show ?case by (simp add: name_lines_def)
qed

lemma load_sublist_lines:
  assumes "\<forall>a \<in> set as. name_ok a" and "name_ok b"
  shows "load_sublist (name_lines as @ b) subs = Inr (subs @ as @ (if b = [] then [] else [butlast b]))"
proof -
  have "for_each (\<lambda>line subs. bnd (chop_line line) (\<lambda>addr. Inr (subs @ [addr])))
      (map (\<lambda>a. a @ [newline]) as @ ls) subs =
    for_each (\<lambda>line subs. bnd (chop_line line) (\<lambda>addr. Inr (subs @ [addr]))) ls (subs @ as)" for ls
    using assms(1) by (induction as arbitrary: subs) (auto simp: chop_name)
  then show ?thesis
    using assms(2) fgets_name_lines_part[OF assms]
    by (auto simp: load_sublist_def chop_line_def name_ok_def)
qed

text \<open>A node that can read its configuration and its list of sub caches starts the servers of
  the mode the last of its option letters names, at the configured addresses; the main cache also
  starts its loop. Every line of the list gives one sub cache, but the last one loses its last
  character when no newline ends it.\<close>

theorem main_starts:
  assumes "startInspect fs (inspect_init, config_init) = Inr (i, c)"
    and "fopen_r fs (SUB_LIST c)" and "content fs (SUB_LIST c) = name_lines as @ b"
    and "\<forall>a \<in> set as. name_ok a" and "name_ok b"
  shows "main args fs = Inr (Some (start_mode (main_mode args) c,
    \<lparr>cfg = c, files = fs, logs = [], g_sublist = as @ (if b = [] then [] else [butlast b]), transfers = 0\<rparr>, i))"
  using assms load_sublist_lines[OF assms(4,5), of "[]"] by (simp add: main_def)

theorem main_starts_witness:
  "\<exists>h. main [''-g'', ''-s'', ''x''] [''.'' \<mapsto> plain_dir [(''sub_list'', ''a:1'' @ [newline] @ ''b:22'')]] =
    Inr (Some ([Listen ''ScServer'' []], h, inspect_init)) \<and> g_sublist h = [''a:1'', ''b:2'']"
proof -
  let ?fs = "[''.'' \<mapsto> plain_dir [(''sub_list'', ''a:1'' @ [newline] @ ''b:22'')]]"
  have list: "SUB_LIST config_init = ''sub_list''" and addr: "SER_SYNC_ADDR config_init = []"
    by (simp_all add: config_init_def)
  have "startInspect ?fs (inspect_init, config_init) = Inr (inspect_init, config_init)"
    by (simp add: startInspect_def CONF_NAME_def fopen_r_def lookup_def file_of_def split_path_def)
  moreover have "fopen_r ?fs (SUB_LIST config_init)"
    and "content ?fs (SUB_LIST config_init) = name_lines [''a:1''] @ ''b:22''"
    unfolding list
    by (simp_all add: fopen_r_def content_def lookup_def split_path_def fs_eval fs_eval_defs name_lines_def new_file_def)
  moreover have "\<forall>a \<in> set [''a:1'']. name_ok a" and "name_ok ''b:22''" by (simp_all add: name_ok_def)
  ultimately have "main [''-g'', ''-s'', ''x''] ?fs = Inr (Some (start_mode (main_mode [''-g'', ''-s'', ''x'']) config_init,
      \<lparr>cfg = config_init, files = ?fs, logs = [], g_sublist = [''a:1''] @ (if ''b:22'' = [] then [] else [butlast ''b:22'']),
       transfers = 0\<rparr>, inspect_init))"
    by (rule main_starts)
  moreover have "main_mode [''-g'', ''-s'', ''x''] = SUBCACHE_MODE" by (simp add: main_mode_def mode_step_def)
  ultimately show ?thesis by (simp add: start_mode_def ScService_startServer_def addr)
qed

end
