(* ===== verification/DailyJob.thy ===== *)
theory DailyJob
  imports Service
begin

text \<open>
  The daily jobs end to end: the steps of \<open>CProDeal\<close> composed as \<open>GCServer::Preconf\<close> and
  \<open>McService::runLoop\<close> compose them. The first section composes the four steps both share; the
  theorems say, from the logs and directories at the start, which files a job moves.
\<close>

section \<open>The directories of a job\<close>

definition work_file_ok :: "fsys \<Rightarrow> string \<Rightarrow> string \<Rightarrow> bool" where
  "work_file_ok fs d t \<longleftrightarrow> can_write fs d t \<and> (file_of fs d t = None \<or> can_read fs d t)"

text \<open>A song whose fingerprint file \<open>song.afp\<close> the job can move.\<close>

definition song_ok :: "config \<Rightarrow> string \<Rightarrow> bool" where
  "song_ok c s \<longleftrightarrow> s \<noteq> [] \<and> \<not> is_dot s \<and> movable (AFP_DIR c) (ORG_DIR c) (s @ ''.afp'')"

definition job_dirs :: "config \<Rightarrow> fsys \<Rightarrow> bool" where
  "job_dirs c fs \<longleftrightarrow> wf_fs fs \<and> work_dir (WRK_DIR c) \<and>
     distinct [AFP_DIR c, DAT_DIR c, LOG_DIR c, WRK_DIR c, ORG_DIR c] \<and>
     (\<forall>d \<in> {AFP_DIR c, DAT_DIR c, LOG_DIR c, ORG_DIR c}. readable_dir fs d \<and> writable_dir fs d) \<and>
     (\<forall>t \<in> {afpNameFile, logNumCount, fltLogsFile, topAfpsFile, botAfpsFile}. work_file_ok fs (WRK_DIR c) t) \<and>
     can_write fs (LOG_DIR c) SERVER_LOG \<and> nul_free (data_of fs (DAT_DIR c) SERVER_LOG) \<and>
     (\<forall>n. file_of fs (DAT_DIR c) n \<noteq> None \<longrightarrow> fits_path (DAT_DIR c) n \<and> fits_path (LOG_DIR c) n) \<and>
     (\<forall>n. file_of fs (LOG_DIR c) n \<noteq> None \<longrightarrow> fits_path (LOG_DIR c) n) \<and>
     (\<forall>n. file_of fs (ORG_DIR c) n \<noteq> None \<longrightarrow> fits_path (ORG_DIR c) n) \<and>
     (\<forall>n \<in> set (names_of fs (AFP_DIR c)). name_ok n)"

text \<open>The logs: at most \<open>K\<close> searches in a file, of songs with usable names.\<close>

definition log_searches :: "config \<Rightarrow> nat \<Rightarrow> fsys \<Rightarrow> nat" where
  "log_searches c K fs = (length (names_of fs (DAT_DIR c)) + length (names_of fs (LOG_DIR c))) * K"

definition job_logs :: "config \<Rightarrow> nat \<Rightarrow> fsys \<Rightarrow> bool" where
  "job_logs c K fs \<longleftrightarrow>
     (\<forall>d \<in> {DAT_DIR c, LOG_DIR c}. \<forall>n f. file_of fs d n = Some f \<longrightarrow>
        (\<forall>s \<in> set (sids_of_text (fdata f)). song_ok c s) \<and> length (sids_of_text (fdata f)) \<le> K) \<and>
     log_searches c K fs < 2 ^ 31"

section \<open>The collected logs\<close>

lemma collected_file:
  assumes "logs_collected now org dst fs fs'" and "file_of fs' dst n = Some f"
  shows "(\<exists>d \<in> {org, dst}. \<exists>g. file_of fs d n = Some g \<and> fdata g = fdata f)"
proof (cases "n = SERVER_LOG")
  case True
  show ?thesis
  proof (cases "can_read fs org SERVER_LOG")
    case rd: True
    then obtain g where "file_of fs org SERVER_LOG = Some g"
      by (auto simp: can_read_def split: option.splits)
    then show ?thesis using assms True rd by (auto simp: logs_collected_def data_of_def)
  next
    case False
    then show ?thesis using assms True by (auto simp: logs_collected_def split: if_splits)
  qed
next
  case False
  then show ?thesis using assms by (auto simp: logs_collected_def split: option.splits if_splits)
qed

lemma collected_names:
  assumes "logs_collected now org dst fs fs'" and "wf_fs fs"
  shows "length (names_of fs' dst) \<le> length (names_of fs org) + length (names_of fs dst)"
proof -
  have wf: "wf_fs fs'" using assms(1) by (simp add: logs_collected_def)
  have "set (names_of fs' dst) \<subseteq> set (names_of fs org) \<union> set (names_of fs dst)"
    using collected_file[OF assms(1)] by (fastforce simp: names_of_file)
  then have "card (set (names_of fs' dst)) \<le> card (set (names_of fs org) \<union> set (names_of fs dst))"
    by (intro card_mono) auto
  also have "\<dots> \<le> card (set (names_of fs org)) + card (set (names_of fs dst))" by (rule card_Un_le)
  finally show ?thesis
    using names_of_distinct[OF wf] names_of_distinct[OF assms(2)] by (simp add: distinct_card)
qed

lemma length_concat_le: "(\<And>x. x \<in> set xs \<Longrightarrow> length (f x) \<le> K) \<Longrightarrow> length (concat (map f xs)) \<le> length xs * K"
  by (induction xs) (auto simp: add_mono)

lemma collected_songs:
  assumes "logs_collected now (DAT_DIR c) (LOG_DIR c) fs fs'" and "wf_fs fs" and "job_logs c K fs"
  shows "\<forall>s \<in> set (sids_of_dir fs' (LOG_DIR c)). song_ok c s"
    and "length (sids_of_dir fs' (LOG_DIR c)) \<le> log_searches c K fs"
    and "length (sids_of_dir fs' (LOG_DIR c)) < 2 ^ 31"
proof -
  have fl: "(\<forall>s \<in> set (sids_of_text (fdata f)). song_ok c s) \<and> length (sids_of_text (fdata f)) \<le> K"
    if f: "file_of fs' (LOG_DIR c) n = Some f" for n f
    using collected_file[OF assms(1) f] assms(3) unfolding job_logs_def by (metis insert_iff)
  have part: "(\<forall>s \<in> set (sids_of_text (data_of fs' (LOG_DIR c) n)). song_ok c s) \<and>
      length (sids_of_text (data_of fs' (LOG_DIR c) n)) \<le> K" if rd: "can_read fs' (LOG_DIR c) n" for n
    using fl[of n] rd by (auto simp: can_read_def data_of_def split: option.splits)
  show "\<forall>s \<in> set (sids_of_dir fs' (LOG_DIR c)). song_ok c s"
    using part by (auto simp: sids_of_dir_def split: if_splits)
  have "length (sids_of_dir fs' (LOG_DIR c)) \<le> length (names_of fs' (LOG_DIR c)) * K"
    unfolding sids_of_dir_def using part by (intro length_concat_le) simp
  also have "\<dots> \<le> log_searches c K fs"
    unfolding log_searches_def using collected_names[OF assms(1,2)] by (intro mult_right_mono) simp_all
  finally show le: "length (sids_of_dir fs' (LOG_DIR c)) \<le> log_searches c K fs" .
  then show "length (sids_of_dir fs' (LOG_DIR c)) < 2 ^ 31" using assms(3) by (simp add: job_logs_def)
qed

text \<open>The counts of the songs of a directory, sorted, as \<open>cntSrhNums\<close> writes them.\<close>

definition counts_of :: "string list \<Rightarrow> int \<Rightarrow> (string \<times> int) list \<Rightarrow> bool" where
  "counts_of sids flg vec \<longleftrightarrow> distinct (map fst vec) \<and>
     set vec = (\<lambda>s. (s, int (count_list sids s))) ` set sids \<and>
     sorted_wrt (\<lambda>x y. if flg = 0 then snd y \<le> snd x else snd x \<le> snd y) vec"

lemma counts_entries:
  assumes "counts_of sids flg vec" and "\<forall>s \<in> set sids. song_ok c s \<and> CHR ''|'' \<notin> set s"
    and "length sids < 2 ^ 31"
  shows "\<forall>e \<in> set vec. is_entry e" and "\<forall>e \<in> set vec. song_ok c (fst e)" and "length vec \<le> length sids"
proof -
  have vec: "set vec = (\<lambda>s. (s, int (count_list sids s))) ` set sids" and d: "distinct (map fst vec)"
    using assms(1) by (simp_all add: counts_of_def)
  have "int32 (int (count_list sids s))" for s
    using assms(3) count_le_length[of sids s] by (simp add: int32_def)
  then show "\<forall>e \<in> set vec. is_entry e"
    using assms(2) vec by (auto simp: is_entry_def song_ok_def movable_def name_ok_def)
  show "\<forall>e \<in> set vec. song_ok c (fst e)" using assms(2) vec by auto
  have "length vec = card (set vec)" using d by (metis distinct_card distinct_map)
  also have "\<dots> \<le> card (set sids)" unfolding vec by (rule card_image_le) simp
  also have "\<dots> \<le> length sids" by (rule card_length)
  finally show "length vec \<le> length sids" .
qed


section \<open>The four steps both jobs share\<close>

lemma work_file_ok_wrote:
  assumes "wrote d t' s fs fs'" and "work_file_ok fs d t"
  shows "work_file_ok fs' d t"
proof (cases "t = t'")
  case True
  then show ?thesis
    using assms wrote_can_write[OF assms(1)] wrote_can_read[OF assms(1)] by (auto simp: work_file_ok_def)
next
  case False
  then have "file_of fs' d t = file_of fs d t" using wroteD(1)[OF assms(1)] by simp
  then show ?thesis
    using assms(2) wrote_other[OF assms(1), of d t] False by (simp add: work_file_ok_def)
qed

lemma same_dir:
  assumes "fs' d = fs d"
  shows "file_of fs' d = file_of fs d" "can_read fs' d = can_read fs d" "data_of fs' d = data_of fs d"
    "names_of fs' d = names_of fs d" "writable_dir fs' d = writable_dir fs d"
    "readable_dir fs' d = readable_dir fs d" "can_write fs' d = can_write fs d"
    "work_file_ok fs' d = work_file_ok fs d"
proof -
  show f: "file_of fs' d = file_of fs d" and n: "names_of fs' d = names_of fs d"
    and w: "writable_dir fs' d = writable_dir fs d" and "readable_dir fs' d = readable_dir fs d"
    using assms by (simp_all add: fun_eq_iff file_of_def names_of_def writable_dir_def readable_dir_def)
  show r: "can_read fs' d = can_read fs d" and "data_of fs' d = data_of fs d"
    using f by (simp_all add: fun_eq_iff can_read_def data_of_def)
  show c: "can_write fs' d = can_write fs d" using f w by (intro ext) (simp only: can_write_def)
  show "work_file_ok fs' d = work_file_ok fs d" using f r c by (simp add: fun_eq_iff work_file_ok_def)
qed

text \<open>The state after the four steps: \<open>fs2\<close> is the one in which the logs are counted, \<open>vec\<close> the
  counts. The filtered counts are those of the songs whose id starts with the same number (\<open>atoi\<close>) as
  the name of some file of \<open>AFP_DIR\<close>, as \<open>fltLogFile\<close> compares them.\<close>

definition same_number :: "config \<Rightarrow> fsys \<Rightarrow> (string \<times> int) list \<Rightarrow> (string \<times> int) list" where
  "same_number c fs vec = filter (\<lambda>e. atoi (fst e) \<in> atoi ` set (names_of fs (AFP_DIR c))) vec"

definition counted :: "config \<Rightarrow> int \<Rightarrow> int \<Rightarrow> fsys \<Rightarrow> (string \<times> int) list \<Rightarrow> bool" where
  "counted c now flg fs vec \<longleftrightarrow> (\<exists>fs1 fs2.
     wrote (WRK_DIR c) afpNameFile (name_lines (names_of fs (AFP_DIR c))) fs fs1 \<and>
     logs_collected now (DAT_DIR c) (LOG_DIR c) fs1 fs2 \<and>
     counts_of (sids_of_dir fs2 (LOG_DIR c)) flg vec)"

definition job_state :: "config \<Rightarrow> fsys \<Rightarrow> (string \<times> int) list \<Rightarrow> fsys \<Rightarrow> bool" where
  "job_state c fs vec fs' \<longleftrightarrow> wf_fs fs' \<and>
     (\<forall>t. t \<in> {afpNameFile, logNumCount, fltLogsFile, topAfpsFile, botAfpsFile} \<longrightarrow> work_file_ok fs' (WRK_DIR c) t) \<and>
     can_read fs' (WRK_DIR c) afpNameFile \<and> can_read fs' (WRK_DIR c) fltLogsFile \<and>
     data_of fs' (WRK_DIR c) afpNameFile = name_lines (names_of fs (AFP_DIR c)) \<and>
     data_of fs' (WRK_DIR c) fltLogsFile = count_text (same_number c fs vec) \<and>
     (\<forall>e. e \<notin> {WRK_DIR c, DAT_DIR c, LOG_DIR c} \<longrightarrow> fs' e = fs e)"

lemma wrote_readable: "wrote d t s fs fs' \<Longrightarrow> work_file_ok fs d t \<Longrightarrow> can_read fs' d t"
  by (meson work_file_ok_def wrote_can_read)

lemma shared_steps:
  assumes "std_sort srt" and dirs: "job_dirs c fs" and logs: "job_logs c K fs"
  obtains fs1 fs2 fs3 fs4 vec where
      "getAfpName (AFP_DIR c) (WRK_DIR c) fs = Inr (0, fs1)"
    and "movLogFile now (DAT_DIR c) (LOG_DIR c) fs1 = Inr (0, fs2)"
    and "cntSrhNums srt (LOG_DIR c) (WRK_DIR c) flg fs2 = Inr (0, fs3)"
    and "fltLogFile (WRK_DIR c) (WRK_DIR c) fs3 = Inr (0, fs4)"
    and "counted c now flg fs vec" and "job_state c fs vec fs4"
    and "\<forall>e \<in> set vec. is_entry e \<and> song_ok c (fst e)" and "length vec \<le> log_searches c K fs"
proof -
  let ?a = "AFP_DIR c" and ?d = "DAT_DIR c" and ?l = "LOG_DIR c" and ?w = "WRK_DIR c"
  have wf: "wf_fs fs" and wdir: "work_dir ?w"
    and ne: "?a \<noteq> ?d" "?a \<noteq> ?l" "?a \<noteq> ?w" "?d \<noteq> ?l" "?d \<noteq> ?w" "?l \<noteq> ?w"
    and acc: "\<And>e. e \<in> {?a, ?d, ?l} \<Longrightarrow> readable_dir fs e \<and> writable_dir fs e"
    and wok: "\<And>t. t \<in> {afpNameFile, logNumCount, fltLogsFile, topAfpsFile, botAfpsFile} \<Longrightarrow> work_file_ok fs ?w t"
    and slog: "can_write fs ?l SERVER_LOG" "nul_free (data_of fs ?d SERVER_LOG)"
    and fit: "\<forall>n. file_of fs ?d n \<noteq> None \<longrightarrow> fits_path ?d n \<and> fits_path ?l n"
      "\<forall>n. file_of fs ?l n \<noteq> None \<longrightarrow> fits_path ?l n"
    and names: "\<forall>n \<in> set (names_of fs ?a). name_ok n"
    using dirs unfolding job_dirs_def by auto
  obtain fs1 where get: "getAfpName ?a ?w fs = Inr (0, fs1)"
    and w1: "wrote ?w afpNameFile (name_lines (names_of fs ?a)) fs fs1"
    using getAfpName_lists_directory_run[OF wf, of ?a ?w] acc wok wdir by (auto simp: work_file_ok_def)
  have e1: "fs1 e = fs e" if "e \<noteq> ?w" for e using wroteD(2)[OF w1 that] .
  have wf1: "wf_fs fs1" using wroteD(5)[OF w1 wf] .
  note s1d = same_dir[where d = ?d and fs = fs and fs' = fs1, OF e1[OF ne(5)]]
  note s1l = same_dir[where d = ?l and fs = fs and fs' = fs1, OF e1[OF ne(6)]]
  obtain fs2 where mov: "movLogFile now ?d ?l fs1 = Inr (0, fs2)"
    and col: "logs_collected now ?d ?l fs1 fs2"
    using movLogFile_collects_run[OF wf1 ne(4), of now] acc slog fit ne s1d s1l by auto
  have e2: "fs2 e = fs1 e" if "e \<notin> {?d, ?l}" for e using col that by (simp add: logs_collected_def)
  have wf2: "wf_fs fs2" and d2: "readable_dir fs2 = readable_dir fs1"
    using col by (simp_all add: logs_collected_def)
  have logs1: "job_logs c K fs1"
    using logs s1d s1l ne by (simp add: job_logs_def log_searches_def)
  have searches: "log_searches c K fs1 = log_searches c K fs" using s1d s1l by (simp add: log_searches_def)
  note songs = collected_songs[OF col wf1 logs1]
  have shape: "\<forall>s \<in> set (sids_of_dir fs2 ?l). song_ok c s \<and> CHR ''|'' \<notin> set s"
    using songs(1) sids_of_dir_shape by blast
  have long: "\<forall>s \<in> set (sids_of_dir fs2 ?l). length s \<le> 1000"
    using songs(1) by (force simp: song_ok_def movable_def name_ok_def)
  have fit2: "\<forall>n. file_of fs2 ?l n \<noteq> None \<longrightarrow> fits_path ?l n"
    using collected_file[OF col] fit s1d s1l ne by fastforce
  have wok2: "work_file_ok fs2 ?w t" if "t \<in> {afpNameFile, logNumCount, fltLogsFile, topAfpsFile, botAfpsFile}" for t
    using work_file_ok_wrote[OF w1 wok[OF that]] same_dir(8)[where d = ?w and fs = fs1 and fs' = fs2, OF e2] ne by simp
  have rd2: "readable_dir fs2 ?l" using acc d2 s1l ne by simp
  have cw2: "can_write fs2 ?w logNumCount" using wok2[of logNumCount] by (simp add: work_file_ok_def)
  obtain fs3 vec where cnt: "cntSrhNums srt ?l ?w flg fs2 = Inr (0, fs3)"
    and w3: "wrote ?w logNumCount (count_text vec) fs2 fs3"
    and vec: "counts_of (sids_of_dir fs2 ?l) flg vec"
    using cntSrhNums_counts_run[OF assms(1) wf2 ne(6) rd2 cw2 work_dir_fits(2)[OF wdir] fit2 songs(3) long,
        of flg] unfolding counts_of_def[symmetric] by blast
  note entries = counts_entries[OF vec shape songs(3)]
  have wok3: "work_file_ok fs3 ?w t" if "t \<in> {afpNameFile, logNumCount, fltLogsFile, topAfpsFile, botAfpsFile}" for t
    using work_file_ok_wrote[OF w3 wok2[OF that]] .
  have wf3: "wf_fs fs3" using wroteD(5)[OF w3 wf2] .
  have afp3: "data_of fs3 ?w afpNameFile = name_lines (names_of fs ?a)" "can_read fs3 ?w afpNameFile"
  proof -
    have "can_read fs1 ?w afpNameFile" using wrote_readable[OF w1] wok by simp
    then show "data_of fs3 ?w afpNameFile = name_lines (names_of fs ?a)" "can_read fs3 ?w afpNameFile"
      using wrote_data[OF w1] wrote_other[OF w3, of ?w afpNameFile] same_dir[where d = ?w and fs = fs1 and fs' = fs2, OF e2] ne by simp_all
  qed
  have cnt3: "data_of fs3 ?w logNumCount = count_text vec" "can_read fs3 ?w logNumCount"
    using wrote_data[OF w3] wrote_readable[OF w3] wok2 by simp_all
  have cw3: "can_write fs3 ?w fltLogsFile" using wok3[of fltLogsFile] by (simp add: work_file_ok_def)
  obtain fs4 where flt: "fltLogFile ?w ?w fs3 = Inr (0, fs4)"
    and w4: "wrote ?w fltLogsFile (count_text (same_number c fs vec)) fs3 fs4"
    using fltLogFile_filters_run[OF wdir wdir afp3(2) cnt3(2) cw3 afp3(1) names cnt3(1) entries(1)]
    unfolding same_number_def by metis
  have same4: "fs4 e = fs e" if "e \<notin> {?w, ?d, ?l}" for e
    using that wroteD(2)[OF w4] wroteD(2)[OF w3] e2 e1 by simp
  have "job_state c fs vec fs4"
    unfolding job_state_def
    using wroteD(5)[OF w4 wf3] work_file_ok_wrote[OF w4 wok3] wrote_readable[OF w4 wok3]
      wrote_other[OF w4, of ?w afpNameFile] afp3 wrote_data[OF w4] same4 by simp
  moreover have "counted c now flg fs vec" unfolding counted_def using w1 col vec by blast
  moreover have "length vec \<le> log_searches c K fs" using entries(3) songs(2) searches by linarith
  ultimately show ?thesis using get mov cnt flt entries by (intro that) auto
qed


text \<open>Names as the system means them: a song is a number, its file is that number with \<open>.afp\<close> behind it.
  Then the songs with a number of a file are those that have a file.\<close>

definition canonical_names :: "config \<Rightarrow> fsys \<Rightarrow> (string \<times> int) list \<Rightarrow> bool" where
  "canonical_names c fs vec \<longleftrightarrow> (\<forall>n \<in> set (names_of fs (AFP_DIR c)). \<exists>k. int32 k \<and> n = int_str k @ ''.afp'') \<and>
     (\<forall>e \<in> set vec. \<exists>k. int32 k \<and> fst e = int_str k)"

lemma canonical_atoi: "int32 k \<Longrightarrow> atoi (int_str k @ ''.afp'') = k" "int32 k \<Longrightarrow> atoi (int_str k) = k"
  using atoi_int_str[of k "''.afp''"] atoi_int_str[of k "[]"] by (simp_all add: is_digit_def less_eq_char_def)

lemma same_number_file:
  assumes "canonical_names c fs vec" and "e \<in> set (same_number c fs vec)"
  shows "fst e @ ''.afp'' \<in> set (names_of fs (AFP_DIR c))"
proof -
  obtain n where n: "n \<in> set (names_of fs (AFP_DIR c))" "atoi (fst e) = atoi n" and e: "e \<in> set vec"
    using assms(2) by (auto simp: same_number_def)
  obtain k where k: "int32 k" "n = int_str k @ ''.afp''" using assms(1) n(1) by (auto simp: canonical_names_def)
  obtain j where j: "int32 j" "fst e = int_str j" using assms(1) e by (auto simp: canonical_names_def)
  have "j = k" using n(2) k j canonical_atoi by simp
  then show ?thesis using n(1) k(2) j(2) by simp
qed

lemma bare_id_no_file:
  assumes "canonical_names c fs vec" and "e \<in> set vec"
  shows "fst e \<notin> set (names_of fs (AFP_DIR c))"
proof
  assume "fst e \<in> set (names_of fs (AFP_DIR c))"
  then obtain k where k: "int32 k" "fst e = int_str k @ ''.afp''" using assms(1) by (auto simp: canonical_names_def)
  obtain j where j: "int32 j" "fst e = int_str j" using assms by (auto simp: canonical_names_def)
  have "j = k" using canonical_atoi[of k] canonical_atoi[of j] k j by simp
  then show False using k j by simp
qed

section \<open>The configuration call of a group\<close>

lemma same_number_in: "set (same_number c fs vec) \<subseteq> set vec" "length (same_number c fs vec) \<le> length vec"
  by (auto simp: same_number_def)

text \<open>The songs a threshold selects, and the names of their files.\<close>

definition popular :: "config \<Rightarrow> int \<Rightarrow> fsys \<Rightarrow> (string \<times> int) list \<Rightarrow> (string \<times> int) list" where
  "popular c num fs vec = takeWhile (\<lambda>e. num < snd e) (take (nat (GROUP_LIMIT c)) (same_number c fs vec))"

definition afp_names :: "(string \<times> int) list \<Rightarrow> string list" where
  "afp_names es = map (\<lambda>e. fst e @ ''.afp'') es"

lemma popular_in: "set (popular c num fs vec) \<subseteq> set vec"
  using same_number_in(1)[of c fs vec] by (auto simp: popular_def dest!: set_takeWhileD in_set_takeD)

lemma popular_selects: "set (popular c num fs vec) \<subseteq> set (same_number c fs vec)"
  by (auto simp: popular_def dest!: set_takeWhileD in_set_takeD)

text \<open>The last two steps, from the state the shared ones leave.\<close>

lemma top_and_move:
  assumes dirs: "job_dirs c fs" and st: "job_state c fs vec fs4"
    and ent: "\<forall>e \<in> set vec. is_entry e \<and> song_ok c (fst e)" and len: "length vec < 2 ^ 31"
    and lim: "0 \<le> GROUP_LIMIT c"
  obtains fs5 fs6 where "topAfpFile c (WRK_DIR c) (WRK_DIR c) num fs4 = Inr (int (length (popular c num fs vec)), fs5)"
    and "\<And>e. e \<notin> {WRK_DIR c, DAT_DIR c, LOG_DIR c} \<Longrightarrow> fs5 e = fs e"
    and "movAfpFile (AFP_DIR c) (ORG_DIR c) (WRK_DIR c) fs5 = Inr (0, fs6)"
    and "moved (AFP_DIR c) (ORG_DIR c) (afp_names (popular c num fs vec)) fs5 fs6"
proof -
  let ?a = "AFP_DIR c" and ?w = "WRK_DIR c" and ?o = "ORG_DIR c" and ?sel = "popular c num fs vec"
  have wdir: "work_dir ?w" and ne: "?a \<noteq> ?o" "?w \<noteq> ?o" "?a \<noteq> ?w"
      "?a \<notin> {?w, DAT_DIR c, LOG_DIR c}" "?o \<notin> {?w, DAT_DIR c, LOG_DIR c}"
    and acc: "writable_dir fs ?a" "readable_dir fs ?o" "writable_dir fs ?o"
    and fit: "\<forall>n. file_of fs ?o n \<noteq> None \<longrightarrow> fits_path ?o n"
    using dirs unfolding job_dirs_def by auto
  have flt: "can_read fs4 ?w fltLogsFile" "data_of fs4 ?w fltLogsFile = count_text (same_number c fs vec)"
    and wf4: "wf_fs fs4" and wok: "work_file_ok fs4 ?w topAfpsFile"
    and same4: "\<And>e. e \<notin> {?w, DAT_DIR c, LOG_DIR c} \<Longrightarrow> fs4 e = fs e"
    using st by (simp_all add: job_state_def)
  have cw: "can_write fs4 ?w topAfpsFile" using wok by (simp add: work_file_ok_def)
  have ent': "\<forall>e \<in> set (same_number c fs vec). is_entry e" and len': "length (same_number c fs vec) < 2 ^ 31"
    using ent same_number_in[of c fs vec] len by auto
  obtain fs5 where top: "topAfpFile c ?w ?w num fs4 = Inr (int (length ?sel), fs5)"
    and w5: "wrote ?w topAfpsFile (concat (map afp_line ?sel)) fs4 fs5"
    using topAfpFile_selects_run[OF wdir wdir flt(1) cw flt(2) ent' len' lim popular_def] by blast
  have same5: "fs5 e = fs e" if "e \<notin> {?w, DAT_DIR c, LOG_DIR c}" for e
    using that wroteD(2)[OF w5] same4 by simp
  note sa = same_dir[where d = ?a and fs = fs and fs' = fs5, OF same5[OF ne(4)]]
  note so = same_dir[where d = ?o and fs = fs and fs' = fs5, OF same5[OF ne(5)]]
  have fit5: "\<forall>n. file_of fs5 ?o n \<noteq> None \<longrightarrow> fits_path ?o n" using fit so(1) by simp
  have acc5: "writable_dir fs5 ?a" "readable_dir fs5 ?o" "writable_dir fs5 ?o" using acc sa so by simp_all
  have data5: "data_of fs5 ?w topAfpsFile = name_lines (afp_names ?sel)"
    using wrote_data[OF w5] by (simp add: afp_lines_names afp_names_def)
  have mv: "\<forall>n \<in> set (afp_names ?sel). movable ?a ?o n"
    using ent popular_in[of c num fs vec] by (auto simp: afp_names_def song_ok_def)
  obtain fs6 where "movAfpFile ?a ?o ?w fs5 = Inr (0, fs6)" "moved ?a ?o (afp_names ?sel) fs5 fs6"
    using movAfpFile_moves_run[OF wroteD(5)[OF w5 wf4] wdir ne(1,2) acc5 fit5 wrote_readable[OF w5 wok] data5 mv]
    by blast
  then show ?thesis using top same5 by (intro that) auto
qed

text \<open>C1: the configuration call of a group, from the raw directories to the answer. The searches of the
  logs are counted per song, most searched first. Of the songs whose id starts with the same number
  (\<open>atoi\<close>) as the name of some file in \<open>AFP_DIR\<close>, those searched more often than the threshold of the request
  are selected, from the first \<open>GROUP_LIMIT\<close> of them. Without any the call is CANCELLED and neither
  the fingerprints nor the transfer directory change. Otherwise it answers OK with the number of selected
  songs and starts one transfer thread, and \<open>ORG_DIR\<close> holds exactly the files \<open><id>.afp\<close> of selected songs
  that were in \<open>AFP_DIR\<close>, from where they are gone; a selected song without such a file is counted and
  moves nothing. Where ids are numbers and files are named \<open><number>.afp\<close>, every selected song has its file.
  The call of \<open>sprintf\<close> on overlapping buffers at \<open>prodeal.cc:285\<close>, which C leaves undefined, is taken to
  write the text it is meant to write.\<close>

theorem Preconf_end_to_end:
  assumes "std_sort srt" and "job_dirs (cfg h) (files h)" and "job_logs (cfg h) K (files h)"
    and "0 \<le> GROUP_LIMIT (cfg h)"
  shows "\<exists>vec h' sel. counted (cfg h) now 0 (files h) vec \<and>
    sel = popular (cfg h) (cv_len req) (files h) vec \<and>
    (canonical_names (cfg h) (files h) vec \<longrightarrow>
       (\<forall>e \<in> set sel. file_of (files h) (AFP_DIR (cfg h)) (fst e @ ''.afp'') \<noteq> None)) \<and>
    (if sel = [] then
       GCServer_Preconf now srt req res h = Inr (Status_CANCELLED, res, h') \<and> transfers h' = transfers h \<and>
       files h' (AFP_DIR (cfg h)) = files h (AFP_DIR (cfg h)) \<and> files h' (ORG_DIR (cfg h)) = files h (ORG_DIR (cfg h))
     else
       GCServer_Preconf now srt req res h = Inr (Status_OK, res\<lparr>cv_len := int (length sel)\<rparr>, h') \<and>
       transfers h' = Suc (transfers h) \<and>
       (\<forall>m. file_of (files h') (ORG_DIR (cfg h)) m =
          (if m \<in> set (afp_names sel) then file_of (files h) (AFP_DIR (cfg h)) m else None)) \<and>
       (\<forall>m. file_of (files h') (AFP_DIR (cfg h)) m =
          (if m \<in> set (afp_names sel) then None else file_of (files h) (AFP_DIR (cfg h)) m)))"
proof -
  let ?c = "cfg h" and ?fs = "files h"
  obtain fs1 fs2 fs3 fs4 vec where steps:
      "getAfpName (AFP_DIR ?c) (WRK_DIR ?c) ?fs = Inr (0, fs1)"
      "movLogFile now (DAT_DIR ?c) (LOG_DIR ?c) fs1 = Inr (0, fs2)"
      "cntSrhNums srt (LOG_DIR ?c) (WRK_DIR ?c) 0 fs2 = Inr (0, fs3)"
      "fltLogFile (WRK_DIR ?c) (WRK_DIR ?c) fs3 = Inr (0, fs4)"
    and cnt: "counted ?c now 0 ?fs vec" and st: "job_state ?c ?fs vec fs4"
    and ent: "\<forall>e \<in> set vec. is_entry e \<and> song_ok ?c (fst e)" and le: "length vec \<le> log_searches ?c K ?fs"
    using shared_steps[OF assms(1-3), of now 0] by metis
  have len: "length vec < 2 ^ 31" using le assms(3) by (simp add: job_logs_def)
  let ?sel = "popular ?c (cv_len req) ?fs vec"
  obtain fs5 fs6 where top: "topAfpFile ?c (WRK_DIR ?c) (WRK_DIR ?c) (cv_len req) fs4 = Inr (int (length ?sel), fs5)"
    and same: "\<And>e. e \<notin> {WRK_DIR ?c, DAT_DIR ?c, LOG_DIR ?c} \<Longrightarrow> fs5 e = ?fs e"
    and mov: "movAfpFile (AFP_DIR ?c) (ORG_DIR ?c) (WRK_DIR ?c) fs5 = Inr (0, fs6)"
    and moved: "moved (AFP_DIR ?c) (ORG_DIR ?c) (afp_names ?sel) fs5 fs6"
    using top_and_move[OF assms(2) st ent len assms(4)] by blast
  have ne: "AFP_DIR ?c \<notin> {WRK_DIR ?c, DAT_DIR ?c, LOG_DIR ?c}" "ORG_DIR ?c \<notin> {WRK_DIR ?c, DAT_DIR ?c, LOG_DIR ?c}"
    using assms(2) unfolding job_dirs_def by auto
  note run = steps top mov
  have canon: "canonical_names ?c ?fs vec \<longrightarrow> (\<forall>e \<in> set ?sel. file_of ?fs (AFP_DIR ?c) (fst e @ ''.afp'') \<noteq> None)"
    using same_number_file[of ?c ?fs vec] popular_selects[of ?c "cv_len req" ?fs vec] by (auto simp: names_of_file)
  show ?thesis
  proof (cases "?sel = []")
    case True
    have "length (cstr ''preconf error!'') \<le> 1022" by simp
    from g_logstring_safe[OF this, of "h\<lparr>files := fs5\<rparr>"] True run
    have "GCServer_Preconf now srt req res h =
        Inr (Status_CANCELLED, res, h\<lparr>files := fs5, logs := logs h @ [''preconf error!'' @ [newline]]\<rparr>)"
      by (simp add: GCServer_Preconf_def on_files_def Let_def)
    then show ?thesis using True cnt same[OF ne(1)] same[OF ne(2)] canon
      by (intro exI[of _ vec] exI conjI) auto
  next
    case False
    have "GCServer_Preconf now srt req res h = Inr (Status_OK, res\<lparr>cv_len := int (length ?sel)\<rparr>,
        h\<lparr>files := fs6, transfers := Suc (transfers h)\<rparr>)"
      using run False by (simp add: GCServer_Preconf_def on_files_def Let_def)
    moreover have "file_of fs5 (AFP_DIR ?c) = file_of ?fs (AFP_DIR ?c)" using same_dir(1)[where d = "AFP_DIR ?c" and fs = ?fs and fs' = fs5, OF same[OF ne(1)]] .
    ultimately show ?thesis using False cnt moved canon
      by (intro exI[of _ vec] exI[of _ "h\<lparr>files := fs6, transfers := Suc (transfers h)\<rparr>"] exI[of _ ?sel])
        (simp add: moved_def)
  qed
qed


section \<open>The daily loop of the main cache\<close>

text \<open>The list \<open>botAfpFile\<close> writes: the names of the files with the number of no counted song, then the bare
  ids of the least searched songs.\<close>

definition unpopular_files :: "config \<Rightarrow> fsys \<Rightarrow> (string \<times> int) list \<Rightarrow> string list" where
  "unpopular_files c fs vec = take (nat (CACHE_LIMIT c))
     (filter (\<lambda>n. atoi n \<notin> (\<lambda>e. atoi (fst e)) ` set (same_number c fs vec)) (names_of fs (AFP_DIR c)))"

definition unpopular_songs :: "config \<Rightarrow> fsys \<Rightarrow> (string \<times> int) list \<Rightarrow> (string \<times> int) list" where
  "unpopular_songs c fs vec =
     take (nat (CACHE_LIMIT c) - length (unpopular_files c fs vec)) (same_number c fs vec)"

definition unpopular :: "config \<Rightarrow> fsys \<Rightarrow> (string \<times> int) list \<Rightarrow> string list" where
  "unpopular c fs vec = unpopular_files c fs vec @ map fst (unpopular_songs c fs vec)"

definition limit_of :: "config \<Rightarrow> fsys \<Rightarrow> (string \<times> int) list \<Rightarrow> int" where
  "limit_of c fs vec =
     (if unpopular_songs c fs vec = [] then 0 else snd (last (unpopular_songs c fs vec)))"

lemma song_movable: "song_ok c s \<Longrightarrow> movable (AFP_DIR c) (ORG_DIR c) s"
  by (auto simp: song_ok_def movable_def name_ok_def valid_name_def fits_path_def)

lemma unpopular_set:
  "set (unpopular_files c fs vec) \<subseteq> {n \<in> set (names_of fs (AFP_DIR c)).
     atoi n \<notin> (\<lambda>e. atoi (fst e)) ` set (same_number c fs vec)}"
  "set (unpopular_songs c fs vec) \<subseteq> set (same_number c fs vec)"
  unfolding unpopular_files_def unpopular_songs_def
  by (rule order_trans[OF set_take_subset], simp only: set_filter order_refl, rule set_take_subset)

lemma unpopular_distinct:
  assumes "distinct (names_of fs (AFP_DIR c))" and "distinct (map fst vec)"
  shows "distinct (unpopular c fs vec)"
proof -
  have "distinct (map fst (same_number c fs vec))"
    using assms(2) by (simp add: same_number_def distinct_map_filter)
  then have "distinct (map fst (unpopular_songs c fs vec))"
    by (simp add: unpopular_songs_def flip: take_map)
  moreover have "distinct (unpopular_files c fs vec)"
    using assms(1) by (simp add: unpopular_files_def)
  moreover have "fst e \<notin> set (unpopular_files c fs vec)" if "e \<in> set (unpopular_songs c fs vec)" for e
    using unpopular_set[of c fs vec] that by blast
  then have "set (unpopular_files c fs vec) \<inter> set (map fst (unpopular_songs c fs vec)) = {}"
    by auto
  ultimately show ?thesis by (simp add: unpopular_def)
qed

lemma song_lines_names: "concat (map song_line es) = name_lines (map fst es)"
  by (induction es) (simp_all add: song_line_def name_lines_def)

text \<open>A cache whose fingerprint files can be moved and sent.\<close>

definition afp_dir_ok :: "config \<Rightarrow> fsys \<Rightarrow> bool" where
  "afp_dir_ok c fs \<longleftrightarrow> length (ORG_DIR c) \<le> 200 \<and>
     (\<forall>n \<in> set (names_of fs (AFP_DIR c)). movable (AFP_DIR c) (ORG_DIR c) n) \<and>
     (\<forall>n. length (data_of fs (AFP_DIR c) n) < 2 ^ 31)"

lemma bottom_list:
  assumes dirs: "job_dirs c fs" and st: "job_state c fs vec fs4"
    and ent: "\<forall>e \<in> set vec. is_entry e \<and> song_ok c (fst e)" and dist: "distinct (map fst vec)"
    and len: "length (names_of fs (AFP_DIR c)) + length vec < 2 ^ 31"
    and lim: "0 \<le> CACHE_LIMIT c" and afp: "afp_dir_ok c fs"
  obtains fs5 where "botAfpFile c (WRK_DIR c) (WRK_DIR c) fs4 = Inr (limit_of c fs vec, fs5)"
    and "\<And>e. e \<notin> {WRK_DIR c, DAT_DIR c, LOG_DIR c} \<Longrightarrow> fs5 e = fs e"
    and "cache_ok c (unpopular c fs vec) fs" and "cache_at c (unpopular c fs vec) fs 0 fs5"
proof -
  let ?a = "AFP_DIR c" and ?w = "WRK_DIR c" and ?o = "ORG_DIR c" and ?ns = "unpopular c fs vec"
  have wf: "wf_fs fs" and wdir: "work_dir ?w" and ne: "?a \<noteq> ?o" "?w \<noteq> ?o" "?w \<noteq> ?a"
      "?a \<notin> {?w, DAT_DIR c, LOG_DIR c}" "?o \<notin> {?w, DAT_DIR c, LOG_DIR c}"
    and acc: "writable_dir fs ?a" "readable_dir fs ?o" "writable_dir fs ?o"
    and fit: "\<forall>n. file_of fs ?o n \<noteq> None \<longrightarrow> fits_path ?o n"
    and names: "\<forall>n \<in> set (names_of fs ?a). name_ok n"
    using dirs unfolding job_dirs_def by auto
  have rd: "can_read fs4 ?w afpNameFile" "can_read fs4 ?w fltLogsFile"
    and data: "data_of fs4 ?w afpNameFile = name_lines (names_of fs ?a)"
      "data_of fs4 ?w fltLogsFile = count_text (same_number c fs vec)"
    and wf4: "wf_fs fs4" and wok: "work_file_ok fs4 ?w botAfpsFile"
    and same4: "\<And>e. e \<notin> {?w, DAT_DIR c, LOG_DIR c} \<Longrightarrow> fs4 e = fs e"
    using st by (simp_all add: job_state_def)
  have cw: "can_write fs4 ?w botAfpsFile" using wok by (simp add: work_file_ok_def)
  have ent': "\<forall>e \<in> set (same_number c fs vec). is_entry e"
    and len': "length (names_of fs ?a) + length (same_number c fs vec) < 2 ^ 31"
    using ent same_number_in[of c fs vec] len by auto
  obtain fs5 where bot: "botAfpFile c ?w ?w fs4 = Inr (limit_of c fs vec, fs5)"
    and w5: "wrote ?w botAfpsFile (name_lines (unpopular_files c fs vec) @
      concat (map song_line (unpopular_songs c fs vec))) fs4 fs5"
    using botAfpFile_selects_run[OF wdir wdir rd cw data(1) names data(2) ent' len' lim
        unpopular_files_def unpopular_songs_def] unfolding limit_of_def by blast
  have same5: "fs5 e = fs e" if "e \<notin> {?w, DAT_DIR c, LOG_DIR c}" for e
    using that wroteD(2)[OF w5] same4 by simp
  note sa = same_dir[where d = ?a and fs = fs and fs' = fs5, OF same5[OF ne(4)]]
  note so = same_dir[where d = ?o and fs = fs and fs' = fs5, OF same5[OF ne(5)]]
  have listed: "data_of fs5 ?w botAfpsFile = name_lines ?ns"
    using wrote_data[OF w5] by (simp add: song_lines_names unpopular_def name_lines_def)
  have "length ?ns \<le> length (names_of fs ?a) + length (same_number c fs vec)"
    unfolding unpopular_def unpopular_files_def unpopular_songs_def
    by (simp add: add_mono min.coboundedI1 min.coboundedI2)
  moreover have "\<forall>n \<in> set ?ns. movable ?a ?o n"
    using unpopular_set[of c fs vec] same_number_in(1)[of c fs vec] ent afp song_movable
    by (fastforce simp: unpopular_def afp_dir_ok_def)
  ultimately have ok: "cache_ok c ?ns fs"
    using wdir ne len' afp unpopular_distinct[OF names_of_distinct[OF wf] dist]
    by (simp add: cache_ok_def afp_dir_ok_def)
  have "cache_at c ?ns fs 0 fs5"
    using wroteD(5)[OF w5 wf4] sa so acc fit wrote_readable[OF w5 wok] listed by (simp add: cache_at_def)
  with bot same5 ok show ?thesis by (intro that) auto
qed


text \<open>The group list, in the form the loop needs, in a directory the daily steps leave alone.\<close>

definition group_list_ok :: "config \<Rightarrow> fsys \<Rightarrow> (string \<times> string) list \<Rightarrow> bool" where
  "group_list_ok c fs ps \<longleftrightarrow> (\<exists>d n. GROUP_LIST c = path_of d n \<and> valid_name n \<and>
     d \<notin> {WRK_DIR c, DAT_DIR c, LOG_DIR c} \<and> can_read fs d n \<and>
     scan_tokens (data_of fs d n) = concat (map (\<lambda>(a, m). [a, m]) ps)) \<and>
     (\<forall>(a, m) \<in> set ps. conf_addr_ok a \<and> good_addr m \<and> nul_free m)"

text \<open>What the loop relies on of the groups: each answers with a number of files between 0 and
  \<open>M\<close>, so that the position stays an \<open>int\<close>.\<close>

definition answers_within :: "'w net \<Rightarrow> int \<Rightarrow> bool" where
  "answers_within net M \<longleftrightarrow> 0 \<le> M \<and> (\<forall>t a w.
     0 \<le> cv_len (fst (snd (net_preconf net a \<lparr>cv_len = t\<rparr> w))) \<and>
     cv_len (fst (snd (net_preconf net a \<lparr>cv_len = t\<rparr> w))) \<le> M)"

lemma limit_of_nonneg:
  assumes "counted c now flg fs vec"
  shows "0 \<le> limit_of c fs vec"
proof -
  have "\<forall>e \<in> set vec. 0 \<le> snd e" using assms unfolding counted_def counts_of_def by auto
  moreover have "set (unpopular_songs c fs vec) \<subseteq> set vec"
    using unpopular_set(2) same_number_in(1) by (rule order_trans)
  ultimately have "unpopular_songs c fs vec \<noteq> [] \<Longrightarrow> 0 \<le> snd (last (unpopular_songs c fs vec))"
    by (meson last_in_set subsetD)
  then show ?thesis by (simp add: limit_of_def)
qed



section \<open>Concrete runs\<close>

definition job_host :: host where
  "job_host = \<lparr>cfg = config_init\<lparr>AFP_DIR := ''afp'', DAT_DIR := ''dat'', LOG_DIR := ''log'',
       WRK_DIR := ''wrk'', ORG_DIR := ''org'', GROUP_LIST := ''etc/groups''\<rparr>,
     files = [''afp'' \<mapsto> plain_dir [(''7.afp'', ''A''), (''8.afp'', ''B'')], ''dat'' \<mapsto> plain_dir [],
       ''log'' \<mapsto> plain_dir [(''x.log'', ''$$a|7|b'' @ [newline] @ ''$$|9|'' @ [newline] @ ''$$|7|'')],
       ''wrk'' \<mapsto> plain_dir [], ''org'' \<mapsto> plain_dir [(''old.afp'', ''C'')],
       ''etc'' \<mapsto> plain_dir [(''groups'', ''c1:1 g1:2'' @ [newline])]],
     logs = [], g_sublist = [''s1:1''], transfers = 0\<rparr>"

lemma job_host_config [simp]:
  "AFP_DIR (cfg job_host) = ''afp''" "DAT_DIR (cfg job_host) = ''dat''" "LOG_DIR (cfg job_host) = ''log''"
  "WRK_DIR (cfg job_host) = ''wrk''" "ORG_DIR (cfg job_host) = ''org''"
  "GROUP_LIST (cfg job_host) = ''etc/groups''" "GROUP_LIMIT (cfg job_host) = 100"
  "CACHE_LIMIT (cfg job_host) = 1800" "g_sublist job_host = [''s1:1'']"
  by (simp_all add: job_host_def config_init_def)

lemma job_host_dirs: "job_dirs (cfg job_host) (files job_host)"
  unfolding job_dirs_def job_host_config
  by (auto simp: job_host_def fs_eval fs_eval_defs work_dir_def work_file_ok_def work_file_defs
      SERVER_LOG_def name_ok_def split: if_splits)

lemma job_host_logs: "job_logs (cfg job_host) 3 (files job_host)"
proof -
  have "sids_of_text (''$$a|7|b'' @ [newline] @ ''$$|9|'' @ [newline] @ ''$$|7|'') = [''7'', ''9'', ''7'']"
    by (simp add: sids_of_text_def fgets_lines_def fgets_chunks.simps MAX_LINE_LEN_def
        List.map_filter_simps log_sid_def cstr_def)
  then show ?thesis
    unfolding job_logs_def log_searches_def job_host_config
    by (auto simp: job_host_def fs_eval fs_eval_defs song_ok_def movable_def name_ok_def new_file_def
        split: if_splits)
qed

lemma job_host_afp: "afp_dir_ok (cfg job_host) (files job_host)"
  unfolding afp_dir_ok_def job_host_config
  by (auto simp: job_host_def fs_eval fs_eval_defs movable_def name_ok_def)

lemma job_host_groups: "group_list_ok (cfg job_host) (files job_host) [(''c1:1'', ''g1:2'')]"
proof -
  have "''etc/groups'' = path_of ''etc'' ''groups''" by (simp add: path_of_def)
  moreover have "scan_tokens (''c1:1 g1:2'' @ [newline]) = [''c1:1'', ''g1:2'']" by code_simp
  ultimately show ?thesis
    unfolding group_list_ok_def job_host_config
    by (intro conjI exI[of _ "''etc''"] exI[of _ "''groups''"])
      (auto simp: job_host_def fs_eval fs_eval_defs conf_addr_ok_def good_addr_def)
qed

theorem Preconf_end_to_end_witness:
  "\<exists>st r h'. GCServer_Preconf 0 ins_sort \<lparr>cv_len = 1\<rparr> \<lparr>cv_len = 0\<rparr> job_host = Inr (st, r, h') \<and>
    (if st = Status_OK then transfers h' = 1 else file_of (files h') ''org'' ''old.afp'' = Some (new_file ''C''))"
proof -
  have "0 \<le> GROUP_LIMIT (cfg job_host)" by simp
  note main = Preconf_end_to_end[OF ins_sort.std_sort_axioms job_host_dirs job_host_logs this,
      of 0 "\<lparr>cv_len = 1\<rparr>" "\<lparr>cv_len = 0\<rparr>"]
  have "file_of (files job_host) ''org'' ''old.afp'' = Some (new_file ''C'')" "transfers job_host = 0"
    by (simp_all add: job_host_def fs_eval)
  moreover have "Status_CANCELLED \<noteq> Status_OK" by (simp add: Status_CANCELLED_def Status_OK_def)
  ultimately show ?thesis
    using main unfolding job_host_config by (elim exE conjE) (auto simp: file_of_def split: if_splits)
qed

text \<open>A rest of the system whose groups all want one file, and which records who is called.\<close>

definition one_file_net :: "string list net" where
  "one_file_net = \<lparr>net_afpmove = (\<lambda>a r w. (Status_OK, r, w @ [a @ '' '' @ fv_name r])),
     net_preconf = (\<lambda>a r w. (Status_OK, \<lparr>cv_len = 1\<rparr>, w @ [a])),
     net_delafps = (\<lambda>a r w. (Status_OK, w @ [a @ '' '' @ dn_name r])),
     net_addafps = (\<lambda>a r w. (Status_OK, w))\<rparr>"


end
