(* ===== verification/PbHeap.thy ===== *)
theory PbHeap
  imports Prelude
begin

text \<open>
  Objects behind pointers, for the parts of the protobuf headers whose correctness is a question of
  who owns what: a heap of objects of one type with \<open>new\<close>, reads, writes and \<open>delete\<close>, and the
  list of what arenas have been told to delete (\<open>Arena::Own\<close>). Shown: what each operation
  leaves alone.
\<close>

section \<open>The heap\<close>

text \<open>Pointers are addresses, \<open>None\<close> the null pointer; an object exists while its address is in the
  domain of \<open>hp_cells\<close>. \<open>hp_owned\<close> lists the objects an arena deletes in the end.\<close>

record 'a heap =
  hp_next :: nat
  hp_cells :: "nat \<Rightarrow> 'a option"
  hp_owned :: "(nat \<times> nat) list"

definition hp_empty :: "'a heap" where
  "hp_empty = \<lparr>hp_next = 0, hp_cells = \<lambda>_. None, hp_owned = []\<rparr>"

definition hp_new :: "'a \<Rightarrow> 'a heap \<Rightarrow> nat \<times> 'a heap" where
  "hp_new x h = (hp_next h, h\<lparr>hp_next := Suc (hp_next h), hp_cells := (hp_cells h)(hp_next h := Some x)\<rparr>)"

definition hp_read :: "nat option \<Rightarrow> 'a heap \<Rightarrow> 'a run" where
  "hp_read p h = (case p of None \<Rightarrow> Inl NullDeref
     | Some a \<Rightarrow> (case hp_cells h a of None \<Rightarrow> Inl UseAfterFree | Some x \<Rightarrow> Inr x))"

definition hp_write :: "nat option \<Rightarrow> 'a \<Rightarrow> 'a heap \<Rightarrow> 'a heap run" where
  "hp_write p x h = (case p of None \<Rightarrow> Inl NullDeref
     | Some a \<Rightarrow> (case hp_cells h a of None \<Rightarrow> Inl UseAfterFree
         | Some _ \<Rightarrow> Inr (h\<lparr>hp_cells := (hp_cells h)(a := Some x)\<rparr>)))"

text \<open>\<open>delete\<close> of the null pointer does nothing; of an object that is gone already it is a fault.\<close>

definition hp_delete :: "nat option \<Rightarrow> 'a heap \<Rightarrow> 'a heap run" where
  "hp_delete p h = (case p of None \<Rightarrow> Inr h
     | Some a \<Rightarrow> (case hp_cells h a of None \<Rightarrow> Inl UseAfterFree
         | Some _ \<Rightarrow> Inr (h\<lparr>hp_cells := (hp_cells h)(a := None)\<rparr>)))"

definition hp_own :: "nat \<Rightarrow> nat \<Rightarrow> 'a heap \<Rightarrow> 'a heap" where
  "hp_own arena p h = h\<lparr>hp_owned := (arena, p) # hp_owned h\<rparr>"

section \<open>Liveness and frames\<close>

definition live :: "'a heap \<Rightarrow> nat set" where
  "live h = dom (hp_cells h)"

definition owned :: "'a heap \<Rightarrow> nat set" where
  "owned h = snd ` set (hp_owned h)"

text \<open>Addresses are used once, and what an arena is to delete is still there.\<close>

definition wf_heap :: "'a heap \<Rightarrow> bool" where
  "wf_heap h \<longleftrightarrow> (\<forall>p \<in> live h. p < hp_next h) \<and> owned h \<subseteq> live h"

text \<open>Objects outside \<open>fp\<close> are as they were.\<close>

definition same_outside :: "nat set \<Rightarrow> 'a heap \<Rightarrow> 'a heap \<Rightarrow> bool" where
  "same_outside fp h h' \<longleftrightarrow> (\<forall>p. p \<notin> fp \<longrightarrow> hp_cells h' p = hp_cells h p)"

lemma wf_hp_empty [simp]: "wf_heap hp_empty"
  by (simp add: wf_heap_def hp_empty_def live_def owned_def)

lemma in_live: "p \<in> live h \<longleftrightarrow> (\<exists>x. hp_cells h p = Some x)"
  by (auto simp: live_def)

lemma fresh_not_live: "wf_heap h \<Longrightarrow> hp_next h \<notin> live h"
  by (auto simp: wf_heap_def)

lemma owned_live: "wf_heap h \<Longrightarrow> (a, p) \<in> set (hp_owned h) \<Longrightarrow> p \<in> live h"
  by (force simp: wf_heap_def owned_def)

lemma hp_new_fresh:
  assumes "wf_heap h" and "hp_new x h = (p, h')"
  shows "p \<notin> live h" and "live h' = insert p (live h)" and "hp_cells h' = (hp_cells h)(p := Some x)"
    and "hp_owned h' = hp_owned h" and "wf_heap h'"
proof -
  have h': "p = hp_next h" "h' = h\<lparr>hp_next := Suc (hp_next h), hp_cells := (hp_cells h)(hp_next h := Some x)\<rparr>"
    using assms(2) by (auto simp: hp_new_def)
  show "p \<notin> live h" using fresh_not_live[OF assms(1)] h' by simp
  show "live h' = insert p (live h)" "hp_cells h' = (hp_cells h)(p := Some x)" "hp_owned h' = hp_owned h"
    using h' by (simp_all add: live_def)
  then show "wf_heap h'" using assms(1) h' by (auto simp: wf_heap_def owned_def less_Suc_eq)
qed

lemma hp_read_live [simp]: "hp_cells h p = Some x \<Longrightarrow> hp_read (Some p) h = Inr x"
  by (simp add: hp_read_def)

lemma hp_read_Inr: "hp_read q h = Inr x \<longleftrightarrow> (\<exists>p. q = Some p \<and> hp_cells h p = Some x)"
  by (auto simp: hp_read_def split: option.splits)

lemma hp_write_live:
  assumes "p \<in> live h"
  shows "\<exists>h'. hp_write (Some p) x h = Inr h' \<and> hp_cells h' = (hp_cells h)(p := Some x) \<and> live h' = live h \<and>
    hp_owned h' = hp_owned h \<and> wf_heap h' = wf_heap h"
proof -
  obtain y where y: "hp_cells h p = Some y" using assms by (auto simp: in_live)
  let ?h = "h\<lparr>hp_cells := (hp_cells h)(p := Some x)\<rparr>"
  have "hp_write (Some p) x h = Inr ?h" using y by (simp add: hp_write_def)
  moreover have "live ?h = live h" using assms by (auto simp: live_def)
  moreover from this have "wf_heap ?h = wf_heap h" unfolding wf_heap_def owned_def by simp
  ultimately show ?thesis by (intro exI[of _ ?h]) simp
qed

lemma hp_delete_live:
  assumes "p \<in> live h"
  shows "\<exists>h'. hp_delete (Some p) h = Inr h' \<and> hp_cells h' = (hp_cells h)(p := None) \<and> live h' = live h - {p} \<and>
    hp_owned h' = hp_owned h \<and> (wf_heap h \<longrightarrow> p \<notin> owned h \<longrightarrow> wf_heap h')"
proof -
  obtain y where y: "hp_cells h p = Some y" using assms by (auto simp: in_live)
  let ?h = "h\<lparr>hp_cells := (hp_cells h)(p := None)\<rparr>"
  have "hp_delete (Some p) h = Inr ?h" using y by (simp add: hp_delete_def)
  moreover have l: "live ?h = live h - {p}" by (auto simp: live_def)
  moreover have "wf_heap ?h" if "wf_heap h" "p \<notin> owned h"
    using that unfolding wf_heap_def l owned_def by auto
  ultimately show ?thesis by (intro exI[of _ ?h]) simp
qed

lemma hp_delete_null [simp]: "hp_delete None h = Inr h"
  by (simp add: hp_delete_def)

lemma hp_delete_dead: "p \<notin> live h \<Longrightarrow> hp_delete (Some p) h = Inl UseAfterFree"
  by (simp add: hp_delete_def live_def domIff)

lemma hp_own_simps [simp]: "hp_cells (hp_own a p h) = hp_cells h" "live (hp_own a p h) = live h"
  "hp_owned (hp_own a p h) = (a, p) # hp_owned h" "wf_heap (hp_own a p h) \<longleftrightarrow> wf_heap h \<and> p \<in> live h"
  by (auto simp: hp_own_def live_def wf_heap_def owned_def)

lemma same_outside_refl [simp]: "same_outside fp h h"
  by (simp add: same_outside_def)

lemma same_outside_trans:
  "same_outside fp h h1 \<Longrightarrow> same_outside fq h1 h2 \<Longrightarrow> same_outside (fp \<union> fq) h h2"
  by (simp add: same_outside_def)

lemma same_outside_mono: "same_outside fp h h' \<Longrightarrow> fp \<subseteq> fq \<Longrightarrow> same_outside fq h h'"
  by (auto simp: same_outside_def)

lemma same_outside_update: "hp_cells h' = (hp_cells h)(p := x) \<Longrightarrow> same_outside {p} h h'"
  by (simp add: same_outside_def)

section \<open>Objects of an owner\<close>

text \<open>The object at \<open>p\<close> belongs to a structure on \<open>arena\<close>: to the arena, or without one to nobody else.\<close>

definition held :: "nat option \<Rightarrow> 'a heap \<Rightarrow> nat \<Rightarrow> bool" where
  "held arena h p \<longleftrightarrow> (case arena of None \<Rightarrow> p \<notin> owned h | Some a \<Rightarrow> (a, p) \<in> set (hp_owned h))"

lemma held_None [simp]: "held None h p \<longleftrightarrow> p \<notin> owned h"
  by (simp add: held_def)

lemma held_Some [simp]: "held (Some a) h p \<longleftrightarrow> (a, p) \<in> set (hp_owned h)"
  by (simp add: held_def)

lemma held_cong: "hp_owned h' = hp_owned h \<Longrightarrow> held arena h' p = held arena h p"
  by (cases arena) (simp_all add: owned_def)

lemma owned_own [simp]: "owned (hp_own a p h) = insert p (owned h)"
  by (simp add: owned_def)

text \<open>\<open>new\<close>, and \<open>Arena::Own\<close> when there is an arena.\<close>

definition own_on :: "nat option \<Rightarrow> nat \<Rightarrow> 'a heap \<Rightarrow> 'a heap" where
  "own_on arena p h = (case arena of None \<Rightarrow> h | Some a \<Rightarrow> hp_own a p h)"

lemma own_on_simps [simp]: "hp_cells (own_on arena p h) = hp_cells h" "live (own_on arena p h) = live h"
  "own_on None p h = h" "own_on (Some a) p h = hp_own a p h"
  "owned (own_on arena p h) = (if arena = None then owned h else insert p (owned h))"
  by (simp_all add: own_on_def split: option.split)

lemma new_on_fresh:
  assumes "wf_heap h" and "hp_new x h = (p, h1)"
  shows "p \<notin> live h" and "live (own_on arena p h1) = insert p (live h)"
    and "hp_cells (own_on arena p h1) = (hp_cells h)(p := Some x)" and "wf_heap (own_on arena p h1)"
    and "held arena (own_on arena p h1) p" and "p \<notin> owned h"
    and "q \<noteq> p \<Longrightarrow> held arena (own_on arena p h1) q = held arena h q"
    and "live (own_on arena p h1) - owned (own_on arena p h1) - {p} = live h - owned h"
    and "set (hp_owned h) \<subseteq> set (hp_owned (own_on arena p h1))"
proof -
  note f = hp_new_fresh[OF assms]
  show pl: "p \<notin> live h" by (rule f(1))
  show "live (own_on arena p h1) = insert p (live h)" "hp_cells (own_on arena p h1) = (hp_cells h)(p := Some x)"
    using f by simp_all
  show "wf_heap (own_on arena p h1)" using f by (cases arena) simp_all
  show po: "p \<notin> owned h" using pl assms(1) by (auto simp: wf_heap_def)
  have o: "owned h1 = owned h" using f(4) by (simp add: owned_def)
  show "held arena (own_on arena p h1) p" using po o by (cases arena) simp_all
  show "q \<noteq> p \<Longrightarrow> held arena (own_on arena p h1) q = held arena h q" using f(4) o by (cases arena) simp_all
  show "live (own_on arena p h1) - owned (own_on arena p h1) - {p} = live h - owned h"
    using pl po o f(2) by auto
  show "set (hp_owned h) \<subseteq> set (hp_owned (own_on arena p h1))" using f(4) by (cases arena) auto
qed

section \<open>What a step of an owner leaves alone\<close>

text \<open>A structure that held the objects \<open>ps\<close> and now holds \<open>ps'\<close>: what belongs neither to it nor to an arena
  is the same set of objects, so nothing is lost and nothing of others is taken; arenas forget nothing;
  the objects of others are still there, with the contents they had.\<close>

definition keeps_rest :: "nat set \<Rightarrow> 'a heap \<Rightarrow> nat set \<Rightarrow> 'a heap \<Rightarrow> bool" where
  "keeps_rest ps h ps' h' \<longleftrightarrow> live h' - owned h' - ps' = live h - owned h - ps \<and>
     set (hp_owned h) \<subseteq> set (hp_owned h') \<and>
     (\<forall>p \<in> live h - ps. p \<notin> ps' \<and> hp_cells h' p = hp_cells h p)"

lemma keeps_restD:
  assumes "keeps_rest ps h ps' h'"
  shows "live h' - owned h' - ps' = live h - owned h - ps" and "set (hp_owned h) \<subseteq> set (hp_owned h')"
    and "p \<in> live h \<Longrightarrow> p \<notin> ps \<Longrightarrow> p \<notin> ps' \<and> hp_cells h' p = hp_cells h p"
  using assms unfolding keeps_rest_def by blast+

lemma keeps_rest_refl: "keeps_rest ps h ps h"
  by (simp add: keeps_rest_def)

lemma keeps_rest_trans:
  assumes "keeps_rest ps h ps1 h1" and "keeps_rest ps1 h1 ps2 h2"
  shows "keeps_rest ps h ps2 h2"
proof -
  have "p \<notin> ps2 \<and> hp_cells h2 p = hp_cells h p" if "p \<in> live h - ps" for p
  proof -
    have "p \<notin> ps1" "hp_cells h1 p = hp_cells h p" using keeps_restD(3)[OF assms(1)] that by simp_all
    moreover from this have "p \<in> live h1" using that by (simp add: in_live)
    ultimately show ?thesis using keeps_restD(3)[OF assms(2)] by simp
  qed
  then show ?thesis
    using keeps_restD(1,2)[OF assms(1)] keeps_restD(1,2)[OF assms(2)] unfolding keeps_rest_def by blast
qed

text \<open>The five things an owner does to an object: make it, change it, delete it, give it to an arena, and
  lose sight of one that an arena has.\<close>

lemma keeps_rest_new:
  assumes "wf_heap h" and "hp_new x h = (p, h1)"
  shows "keeps_rest ps h (insert p ps) (own_on arena p h1)"
proof -
  have "live (own_on arena p h1) - owned (own_on arena p h1) - insert p ps = live h - owned h - ps"
    using new_on_fresh(8)[OF assms, of arena] new_on_fresh(1)[OF assms] by blast
  then show ?thesis
    using new_on_fresh(1)[OF assms] new_on_fresh(3)[OF assms, of arena] new_on_fresh(9)[OF assms, of arena]
    by (auto simp: keeps_rest_def)
qed

lemma keeps_rest_update:
  assumes "hp_cells h' = (hp_cells h)(p := x)" and "live h' = live h" and "hp_owned h' = hp_owned h" and "p \<in> ps"
  shows "keeps_rest ps h ps h'"
  using assms by (auto simp: keeps_rest_def owned_def)

lemma keeps_rest_updates:
  assumes "\<And>p. p \<notin> ps \<Longrightarrow> hp_cells h' p = hp_cells h p" and "live h' = live h" and "hp_owned h' = hp_owned h"
  shows "keeps_rest ps h ps h'"
  using assms by (auto simp: keeps_rest_def owned_def)

lemma keeps_rest_delete:
  assumes "hp_cells h' = (hp_cells h)(p := None)" and "live h' = live h - {p}" and "hp_owned h' = hp_owned h" and "p \<in> ps"
  shows "keeps_rest ps h (ps - {p}) h'"
  using assms by (auto simp: keeps_rest_def owned_def)

lemma keeps_rest_own: "p \<in> ps \<Longrightarrow> keeps_rest ps h ps (hp_own a p h)"
  by (auto simp: keeps_rest_def)

lemma keeps_rest_forget: "p \<in> owned h \<Longrightarrow> keeps_rest ps h (ps - {p}) h"
  by (auto simp: keeps_rest_def)

text \<open>Another structure beside the one that steps.\<close>

lemma keeps_rest_beside:
  assumes "keeps_rest ps h ps' h'" and "qs \<inter> ps = {}" and "qs \<subseteq> live h"
  shows "keeps_rest (ps \<union> qs) h (ps' \<union> qs) h'" and "qs \<inter> ps' = {}" and "qs \<subseteq> live h'"
    and "p \<in> qs \<Longrightarrow> hp_cells h' p = hp_cells h p" and "p \<in> qs \<Longrightarrow> held arena h p \<Longrightarrow> held arena h' p"
proof -
  have k: "p \<notin> ps' \<and> hp_cells h' p = hp_cells h p" if "p \<in> qs" for p
    using keeps_restD(3)[OF assms(1)] assms(2,3) that by blast
  show "keeps_rest (ps \<union> qs) h (ps' \<union> qs) h'" using assms(1) unfolding keeps_rest_def by blast
  show "qs \<inter> ps' = {}" using k by blast
  show "qs \<subseteq> live h'" using k assms(3) by (auto simp: in_live)
  show "p \<in> qs \<Longrightarrow> hp_cells h' p = hp_cells h p" using k by blast
  show "held arena h' p" if "p \<in> qs" "held arena h p"
  proof (cases arena)
    case None
    then have "p \<in> live h - owned h - ps" using that assms(2,3) by auto
    then show ?thesis using keeps_restD(1)[OF assms(1)] None by auto
  next
    case (Some a)
    then show ?thesis using that(2) keeps_restD(2)[OF assms(1)] by auto
  qed
qed

end
