(* ===== verification/PbArenaString.thy ===== *)
theory PbArenaString
  imports PbHeap "HOL-Library.Word"
begin

text \<open>
  \<open>ArenaStringPtr\<close> of \<open>include/google/protobuf/arenastring.h\<close>, the pointer behind a string field: it
  points to a default string that it does not own, to a string of its own, or to one that an arena
  owns. Shown: the operations keep that ownership and have the effect on the text that their comments
  name, without freeing, leaking or changing another string. \<open>AssignWithDefault\<close> is only declared in the
  header; its body is in a library that is not part of the repository.
\<close>

section \<open>Operations\<close>

type_synonym bytes = "8 word list"

record ArenaStringPtr =
  as_ptr :: "nat option"

type_synonym string_state = "ArenaStringPtr \<times> bytes heap"

text \<open>\<open>initial\<close> is the string the pointer \<open>initial_value\<close> points to, \<open>None\<close> when that is null.\<close>

definition CreateInstance :: "nat option \<Rightarrow> bytes option \<Rightarrow> string_state \<Rightarrow> string_state" where
  "CreateInstance arena initial = (\<lambda>(s, h).
     case hp_new (case initial of Some v \<Rightarrow> v | None \<Rightarrow> []) h of (p, h) \<Rightarrow>
       (s\<lparr>as_ptr := Some p\<rparr>, case arena of None \<Rightarrow> h | Some a \<Rightarrow> hp_own a p h))"

definition CreateInstanceNoArena :: "bytes option \<Rightarrow> string_state \<Rightarrow> string_state" where
  "CreateInstanceNoArena initial = (\<lambda>(s, h).
     case hp_new (case initial of Some v \<Rightarrow> v | None \<Rightarrow> []) h of (p, h) \<Rightarrow> (s\<lparr>as_ptr := Some p\<rparr>, h))"

text \<open>The string behind a pointer that may be null.\<close>

definition pointee :: "nat option \<Rightarrow> bytes heap \<Rightarrow> bytes option run" where
  "pointee p h = (if p = None then Inr None else bnd (hp_read p h) (\<lambda>v. Inr (Some v)))"

definition as_Set :: "nat option \<Rightarrow> bytes \<Rightarrow> nat option \<Rightarrow> string_state \<Rightarrow> string_state run" where
  "as_Set default_value v arena = (\<lambda>(s, h).
     if as_ptr s = default_value then Inr (CreateInstance arena (Some v) (s, h))
     else bnd (hp_write (as_ptr s) v h) (\<lambda>h. Inr (s, h)))"

definition as_Get :: "nat option \<Rightarrow> string_state \<Rightarrow> bytes run" where
  "as_Get default_value = (\<lambda>(s, h). hp_read (as_ptr s) h)"

definition as_Mutable :: "nat option \<Rightarrow> nat option \<Rightarrow> string_state \<Rightarrow> (nat option \<times> string_state) run" where
  "as_Mutable default_value arena = (\<lambda>(s, h).
     bnd (if as_ptr s = default_value
          then bnd (pointee default_value h) (\<lambda>v. Inr (CreateInstance arena v (s, h))) else Inr (s, h))
       (\<lambda>(s, h). Inr (as_ptr s, s, h)))"

definition as_Release :: "nat option \<Rightarrow> nat option \<Rightarrow> string_state \<Rightarrow> (nat option \<times> string_state) run" where
  "as_Release default_value arena = (\<lambda>(s, h).
     if as_ptr s = default_value then Inr (None, s, h)
     else if arena \<noteq> None
     then bnd (hp_read (as_ptr s) h) (\<lambda>v. case hp_new v h of (released, h) \<Rightarrow>
            Inr (Some released, s\<lparr>as_ptr := default_value\<rparr>, h))
     else Inr (as_ptr s, s\<lparr>as_ptr := default_value\<rparr>, h))"

definition as_UnsafeArenaRelease :: "nat option \<Rightarrow> nat option \<Rightarrow> string_state \<Rightarrow> nat option \<times> string_state" where
  "as_UnsafeArenaRelease default_value arena = (\<lambda>(s, h).
     if as_ptr s = default_value then (None, s, h) else (as_ptr s, s\<lparr>as_ptr := default_value\<rparr>, h))"

definition as_Destroy :: "nat option \<Rightarrow> nat option \<Rightarrow> string_state \<Rightarrow> string_state run" where
  "as_Destroy default_value arena = (\<lambda>(s, h).
     bnd (if arena = None \<and> as_ptr s \<noteq> default_value then hp_delete (as_ptr s) h else Inr h)
       (\<lambda>h. Inr (s\<lparr>as_ptr := default_value\<rparr>, h)))"

definition as_SetAllocated :: "nat option \<Rightarrow> nat option \<Rightarrow> nat option \<Rightarrow> string_state \<Rightarrow> string_state run" where
  "as_SetAllocated default_value v arena = (\<lambda>(s, h).
     bnd (if arena = None \<and> as_ptr s \<noteq> default_value then as_Destroy default_value arena (s, h) else Inr (s, h))
       (\<lambda>(s, h). case v of
          Some p \<Rightarrow> Inr (s\<lparr>as_ptr := Some p\<rparr>, case arena of None \<Rightarrow> h | Some a \<Rightarrow> hp_own a p h)
        | None \<Rightarrow> Inr (s\<lparr>as_ptr := default_value\<rparr>, h)))"

definition as_UnsafeArenaSetAllocated :: "nat option \<Rightarrow> nat option \<Rightarrow> nat option \<Rightarrow> string_state \<Rightarrow> string_state" where
  "as_UnsafeArenaSetAllocated default_value v arena = (\<lambda>(s, h).
     (s\<lparr>as_ptr := (if v \<noteq> None then v else default_value)\<rparr>, h))"

definition as_Swap :: "ArenaStringPtr \<Rightarrow> ArenaStringPtr \<Rightarrow> ArenaStringPtr \<times> ArenaStringPtr" where
  "as_Swap s other = (s\<lparr>as_ptr := as_ptr other\<rparr>, other\<lparr>as_ptr := as_ptr s\<rparr>)"

definition as_ClearToEmpty :: "nat option \<Rightarrow> nat option \<Rightarrow> string_state \<Rightarrow> string_state run" where
  "as_ClearToEmpty default_value arena = (\<lambda>(s, h).
     if as_ptr s = default_value then Inr (s, h) else bnd (hp_write (as_ptr s) [] h) (\<lambda>h. Inr (s, h)))"

definition as_ClearToDefault :: "nat option \<Rightarrow> nat option \<Rightarrow> string_state \<Rightarrow> string_state run" where
  "as_ClearToDefault default_value arena = (\<lambda>(s, h).
     if as_ptr s = default_value then Inr (s, h)
     else bnd (hp_read default_value h) (\<lambda>v. bnd (hp_write (as_ptr s) v h) (\<lambda>h. Inr (s, h))))"

definition as_UnsafeSetDefault :: "nat option \<Rightarrow> ArenaStringPtr \<Rightarrow> ArenaStringPtr" where
  "as_UnsafeSetDefault default_value s = s\<lparr>as_ptr := default_value\<rparr>"

section \<open>The variants without an arena\<close>

definition as_SetNoArena :: "nat option \<Rightarrow> bytes \<Rightarrow> string_state \<Rightarrow> string_state run" where
  "as_SetNoArena default_value v = (\<lambda>(s, h).
     if as_ptr s = default_value then Inr (CreateInstanceNoArena (Some v) (s, h))
     else bnd (hp_write (as_ptr s) v h) (\<lambda>h. Inr (s, h)))"

definition as_GetNoArena :: "nat option \<Rightarrow> string_state \<Rightarrow> bytes run" where
  "as_GetNoArena default_value = (\<lambda>(s, h). hp_read (as_ptr s) h)"

definition as_MutableNoArena :: "nat option \<Rightarrow> string_state \<Rightarrow> (nat option \<times> string_state) run" where
  "as_MutableNoArena default_value = (\<lambda>(s, h).
     bnd (if as_ptr s = default_value
          then bnd (pointee default_value h) (\<lambda>v. Inr (CreateInstanceNoArena v (s, h))) else Inr (s, h))
       (\<lambda>(s, h). Inr (as_ptr s, s, h)))"

definition as_ReleaseNoArena :: "nat option \<Rightarrow> string_state \<Rightarrow> nat option \<times> string_state" where
  "as_ReleaseNoArena default_value = (\<lambda>(s, h).
     if as_ptr s = default_value then (None, s, h) else (as_ptr s, s\<lparr>as_ptr := default_value\<rparr>, h))"

definition as_SetAllocatedNoArena :: "nat option \<Rightarrow> nat option \<Rightarrow> string_state \<Rightarrow> string_state run" where
  "as_SetAllocatedNoArena default_value v = (\<lambda>(s, h).
     bnd (if as_ptr s \<noteq> default_value then hp_delete (as_ptr s) h else Inr h)
       (\<lambda>h. Inr (s\<lparr>as_ptr := (if v \<noteq> None then v else default_value)\<rparr>, h)))"

text \<open>Unlike \<open>Destroy\<close>, this leaves the null pointer behind.\<close>

definition as_DestroyNoArena :: "nat option \<Rightarrow> string_state \<Rightarrow> string_state run" where
  "as_DestroyNoArena default_value = (\<lambda>(s, h).
     bnd (if as_ptr s \<noteq> default_value then hp_delete (as_ptr s) h else Inr h)
       (\<lambda>h. Inr (s\<lparr>as_ptr := None\<rparr>, h)))"

definition as_ClearToEmptyNoArena :: "nat option \<Rightarrow> string_state \<Rightarrow> string_state run" where
  "as_ClearToEmptyNoArena default_value = (\<lambda>(s, h).
     if as_ptr s = default_value then Inr (s, h) else bnd (hp_write (as_ptr s) [] h) (\<lambda>h. Inr (s, h)))"

definition as_ClearToDefaultNoArena :: "nat option \<Rightarrow> string_state \<Rightarrow> string_state run" where
  "as_ClearToDefaultNoArena default_value = (\<lambda>(s, h).
     if as_ptr s = default_value then Inr (s, h)
     else bnd (hp_read default_value h) (\<lambda>v. bnd (hp_write (as_ptr s) v h) (\<lambda>h. Inr (s, h))))"

text \<open>\<open>UnsafeRawStringPointer\<close> gives the parser the pointer itself; it is the field \<open>as_ptr\<close>.\<close>

named_theorems string_defs
declare as_Set_def [string_defs] as_Get_def [string_defs] as_Mutable_def [string_defs]
  as_Release_def [string_defs] as_UnsafeArenaRelease_def [string_defs] as_Destroy_def [string_defs]
  as_SetAllocated_def [string_defs] as_ClearToEmpty_def [string_defs] as_ClearToDefault_def [string_defs]
  as_UnsafeSetDefault_def [string_defs] pointee_def [string_defs]

section \<open>Who owns the string\<close>

text \<open>The string behind the field is the default (which belongs to nobody here), or one that only the
  field knows, or, with an arena, one of the arena's.\<close>

definition string_field :: "nat \<Rightarrow> nat option \<Rightarrow> string_state \<Rightarrow> bool" where
  "string_field d arena = (\<lambda>(s, h). wf_heap h \<and> d \<in> live h \<and> d \<notin> owned h \<and>
     (\<exists>p \<in> live h. as_ptr s = Some p \<and>
        (p = d \<or> (case arena of None \<Rightarrow> p \<notin> owned h | Some a \<Rightarrow> (a, p) \<in> set (hp_owned h)))))"

definition field_text :: "string_state \<Rightarrow> bytes" where
  "field_text = (\<lambda>(s, h). case hp_read (as_ptr s) h of Inl _ \<Rightarrow> [] | Inr v \<Rightarrow> v)"

definition default_text :: "nat \<Rightarrow> bytes heap \<Rightarrow> bytes" where
  "default_text d h = (case hp_cells h d of None \<Rightarrow> [] | Some v \<Rightarrow> v)"

text \<open>The string that the field itself has to delete.\<close>

definition field_owns :: "nat \<Rightarrow> nat option \<Rightarrow> ArenaStringPtr \<Rightarrow> nat set" where
  "field_owns d arena s = (if arena = None then set_option (as_ptr s) - {d} else {})"

text \<open>What belongs neither to the field nor to an arena: the rest of the program has to delete it.\<close>

definition loose :: "nat \<Rightarrow> nat option \<Rightarrow> string_state \<Rightarrow> nat set" where
  "loose d arena = (\<lambda>(s, h). live h - owned h - field_owns d arena s)"

text \<open>A step of the field: it is well owned again, holds \<open>v\<close>, took the strings \<open>takes\<close> over from the
  rest of the program and gave it \<open>gives\<close>, and left every other string as it was.\<close>

definition string_step ::
    "nat \<Rightarrow> nat option \<Rightarrow> string_state \<Rightarrow> string_state \<Rightarrow> nat set \<Rightarrow> nat set \<Rightarrow> bytes \<Rightarrow> bool" where
  "string_step d arena st st' takes gives v \<longleftrightarrow>
     string_field d arena st' \<and> field_text st' = v \<and>
     loose d arena st' = loose d arena st - takes \<union> gives \<and>
     (\<forall>p \<in> live (snd st). p = d \<or> Some p \<noteq> as_ptr (fst st) \<longrightarrow> hp_cells (snd st') p = hp_cells (snd st) p)"

lemma string_fieldE:
  assumes "string_field d arena (s, h)"
  obtains p where "as_ptr s = Some p" and "p \<in> live h" and "wf_heap h" and "d \<in> live h" and "d \<notin> owned h"
    and "p \<noteq> d \<Longrightarrow> arena = None \<Longrightarrow> p \<notin> owned h"
    and "\<And>a. p \<noteq> d \<Longrightarrow> arena = Some a \<Longrightarrow> (a, p) \<in> set (hp_owned h)"
  using assms by (auto simp: string_field_def split: option.splits)

lemma field_text_default: "as_ptr s = Some d \<Longrightarrow> d \<in> live h \<Longrightarrow> field_text (s, h) = default_text d h"
  by (auto simp: field_text_def default_text_def in_live)

lemma create_step:
  assumes "string_field d arena (s, h)" and "as_ptr s = Some d"
    and "CreateInstance arena v (s, h) = (s', h')"
  shows "string_step d arena (s, h) (s', h') {} {} (case v of Some v \<Rightarrow> v | None \<Rightarrow> [])"
    and "as_ptr s' \<noteq> Some d"
proof -
  let ?v = "case v of Some v \<Rightarrow> v | None \<Rightarrow> []"
  obtain p h1 where n: "hp_new ?v h = (p, h1)" by (cases "hp_new ?v h")
  have h: "wf_heap h" "d \<in> live h" "d \<notin> owned h" using assms(1) by (auto simp: string_field_def)
  note f = hp_new_fresh[OF h(1) n]
  have pd: "p \<noteq> d" and own: "owned h1 = owned h" "p \<notin> owned h"
    using f h by (auto simp: owned_def wf_heap_def)
  have r: "s' = s\<lparr>as_ptr := Some p\<rparr>" "h' = (case arena of None \<Rightarrow> h1 | Some a \<Rightarrow> hp_own a p h1)"
    using assms(3) n by (simp_all add: CreateInstance_def)
  have cells: "hp_cells h' = (hp_cells h)(p := Some ?v)" "live h' = insert p (live h)"
    using f r by (simp_all split: option.splits)
  have "string_field d arena (s', h')"
    using f h pd own r by (auto simp: string_field_def split: option.splits)
  moreover have "field_text (s', h') = ?v" using r cells by (simp add: field_text_def)
  moreover have "loose d arena (s', h') = loose d arena (s, h)"
    using r f own pd assms(2) by (auto simp: loose_def field_owns_def split: option.splits)
  moreover have "hp_cells h' q = hp_cells h q" if "q \<in> live h" for q
    using cells f(1) that by auto
  ultimately show "string_step d arena (s, h) (s', h') {} {} ?v" by (simp add: string_step_def)
  show "as_ptr s' \<noteq> Some d" using r pd by simp
qed

lemma write_step:
  assumes "string_field d arena (s, h)" and "as_ptr s \<noteq> Some d"
  shows "\<exists>h'. hp_write (as_ptr s) v h = Inr h' \<and> string_step d arena (s, h) (s, h') {} {} v"
proof -
  obtain p where p: "as_ptr s = Some p" "p \<in> live h" using assms(1) by (rule string_fieldE)
  obtain h' where h': "hp_write (Some p) v h = Inr h'" "hp_cells h' = (hp_cells h)(p := Some v)" "live h' = live h"
      "hp_owned h' = hp_owned h" "wf_heap h' = wf_heap h"
    using hp_write_live[OF p(2)] by blast
  have own: "owned h' = owned h" using h'(4) by (simp add: owned_def)
  have "string_field d arena (s, h')"
    using assms(1) unfolding string_field_def prod.case h'(3-5) own .
  moreover have "loose d arena (s, h') = loose d arena (s, h)" using h' own by (simp add: loose_def)
  moreover have "field_text (s, h') = v" using p h' by (simp add: field_text_def)
  ultimately have "string_step d arena (s, h) (s, h') {} {} v"
    using p h' assms(2) by (auto simp: string_step_def)
  then show ?thesis using h'(1) p(1) by auto
qed

lemma same_step:
  "string_field d arena (s, h) \<Longrightarrow> string_step d arena (s, h) (s, h) {} {} (field_text (s, h))"
  by (simp add: string_step_def)

text \<open>Back to the default: the field's own string is given away, or stays with the arena.\<close>

lemma default_step:
  assumes "string_field d arena (s, h)"
  shows "string_step d arena (s, h) (s\<lparr>as_ptr := Some d\<rparr>, h) {} (field_owns d arena s) (default_text d h)"
proof (rule string_fieldE[OF assms])
  fix p
  assume p: "as_ptr s = Some p" "p \<in> live h" "wf_heap h" "d \<in> live h" "d \<notin> owned h"
    "p \<noteq> d \<Longrightarrow> arena = None \<Longrightarrow> p \<notin> owned h"
  have "field_owns d arena s \<subseteq> live h - owned h" using p by (auto simp: field_owns_def)
  then have "loose d arena (s\<lparr>as_ptr := Some d\<rparr>, h) = loose d arena (s, h) \<union> field_owns d arena s"
    by (auto simp: loose_def field_owns_def)
  then show ?thesis
    using p field_text_default[of "s\<lparr>as_ptr := Some d\<rparr>" d h] by (simp add: string_step_def string_field_def)
qed

section \<open>The operations keep it\<close>

lemma Set_step:
  assumes "string_field d arena (s, h)"
  shows "\<exists>st'. as_Set (Some d) v arena (s, h) = Inr st' \<and> string_step d arena (s, h) st' {} {} v"
proof (cases "as_ptr s = Some d")
  case True
  obtain s' h' where c: "CreateInstance arena (Some v) (s, h) = (s', h')" by (cases "CreateInstance arena (Some v) (s, h)")
  then show ?thesis using create_step(1)[OF assms True c] True by (simp add: as_Set_def)
next
  case False
  then show ?thesis using write_step[OF assms False, of v] by (auto simp: as_Set_def)
qed

lemma Get_text: "string_field d arena (s, h) \<Longrightarrow> as_Get (Some d) (s, h) = Inr (field_text (s, h))"
  by (elim string_fieldE) (auto simp: as_Get_def field_text_def in_live)

lemma pointee_default: "d \<in> live h \<Longrightarrow> pointee (Some d) h = Inr (Some (default_text d h))"
  by (auto simp: pointee_def default_text_def in_live)

lemma Mutable_step:
  assumes "string_field d arena (s, h)"
  shows "\<exists>q st'. as_Mutable (Some d) arena (s, h) = Inr (Some q, st') \<and> as_ptr (fst st') = Some q \<and> q \<noteq> d \<and>
    string_step d arena (s, h) st' {} {} (field_text (s, h))"
proof (cases "as_ptr s = Some d")
  case True
  let ?v = "default_text d h"
  obtain s' h' where c: "CreateInstance arena (Some ?v) (s, h) = (s', h')" by (cases "CreateInstance arena (Some ?v) (s, h)")
  have d: "d \<in> live h" using assms by (simp add: string_field_def)
  have t: "field_text (s, h) = ?v" using field_text_default[OF True d] .
  note st = create_step[OF assms True c]
  then obtain q where "as_ptr s' = Some q" by (auto simp: string_step_def string_field_def)
  then show ?thesis using st True c t pointee_default[OF d] by (simp add: as_Mutable_def)
next
  case False
  obtain p where "as_ptr s = Some p" using assms by (rule string_fieldE)
  then show ?thesis using same_step[OF assms] False by (simp add: as_Mutable_def)
qed

lemma read_field: "string_field d arena (s, h) \<Longrightarrow> hp_read (as_ptr s) h = Inr (field_text (s, h))"
  using Get_text by (simp add: as_Get_def)

lemma Release_step:
  assumes "string_field d arena (s, h)"
  shows "\<exists>r st'. as_Release (Some d) arena (s, h) = Inr (r, st') \<and> (r = None \<longleftrightarrow> as_ptr s = Some d) \<and>
    (\<forall>q \<in> set_option r. hp_cells (snd st') q = Some (field_text (s, h))) \<and>
    string_step d arena (s, h) st' {} (set_option r) (default_text d h)"
proof (cases "as_ptr s = Some d")
  case True
  then show ?thesis using same_step[OF assms] field_text_default[OF True] assms
    by (simp add: as_Release_def string_field_def)
next
  case False
  obtain p where p: "as_ptr s = Some p" "p \<in> live h" "wf_heap h" "d \<in> live h" "d \<notin> owned h"
    using assms by (rule string_fieldE)
  note def = default_step[OF assms]
  have t: "hp_cells h p = Some (field_text (s, h))" using read_field[OF assms] p(1) by (simp add: hp_read_Inr)
  show ?thesis
  proof (cases arena)
    case None
    then show ?thesis using def False p(1) t by (simp add: as_Release_def field_owns_def)
  next
    case (Some a)
    obtain q h1 where n: "hp_new (field_text (s, h)) h = (q, h1)" by (cases "hp_new (field_text (s, h)) h")
    note f = hp_new_fresh[OF p(3) n]
    have own: "owned h1 = owned h" "q \<notin> owned h" using f p(3) by (auto simp: owned_def wf_heap_def)
    let ?s = "s\<lparr>as_ptr := Some d\<rparr>"
    have "d \<noteq> q" using f(1) p(4) by blast
    then have "string_field d arena (?s, h1)" "field_text (?s, h1) = default_text d h"
      using f p(4,5) own field_text_default[of ?s d h1] by (auto simp: string_field_def default_text_def)
    moreover have "loose d arena (?s, h1) = loose d arena (s, h) \<union> {q}"
      using Some f(2) own by (auto simp: loose_def field_owns_def)
    moreover have "\<forall>x \<in> live h. hp_cells h1 x = hp_cells h x" using f(1,3) by auto
    ultimately have "string_step d arena (s, h) (?s, h1) {} {q} (default_text d h)" by (simp add: string_step_def)
    then show ?thesis using Some False n f(3) read_field[OF assms] by (simp add: as_Release_def)
  qed
qed

lemma Destroy_step:
  assumes "string_field d arena (s, h)"
  shows "\<exists>st'. as_Destroy (Some d) arena (s, h) = Inr st' \<and> as_ptr (fst st') = Some d \<and>
    string_step d arena (s, h) st' {} {} (default_text d h)"
proof (cases "arena = None \<and> as_ptr s \<noteq> Some d")
  case True
  obtain p where p: "as_ptr s = Some p" "p \<in> live h" "wf_heap h" "d \<in> live h" "d \<notin> owned h" "p \<notin> owned h"
    using True assms by (auto elim: string_fieldE)
  obtain h' where h': "hp_delete (Some p) h = Inr h'" "hp_cells h' = (hp_cells h)(p := None)" "live h' = live h - {p}"
      "hp_owned h' = hp_owned h" "wf_heap h'"
    using hp_delete_live[OF p(2)] p(3,6) by blast
  have own: "owned h' = owned h" using h'(4) by (simp add: owned_def)
  let ?s = "s\<lparr>as_ptr := Some d\<rparr>"
  have pd: "p \<noteq> d" using True p(1) by simp
  have "string_field d arena (?s, h')" "field_text (?s, h') = default_text d h"
    using h' p pd own field_text_default[of ?s d h'] by (auto simp: string_field_def default_text_def)
  moreover have "loose d arena (?s, h') = loose d arena (s, h)"
    using True h'(3) own p by (auto simp: loose_def field_owns_def)
  ultimately have "string_step d arena (s, h) (?s, h') {} {} (default_text d h)"
    using h'(2) p(1) pd by (auto simp: string_step_def)
  then show ?thesis using True h'(1) p(1) by (simp add: as_Destroy_def)
next
  case False
  then have "field_owns d arena s = {}" using assms by (auto simp: field_owns_def elim: string_fieldE)
  then show ?thesis using default_step[OF assms] False by (auto simp: as_Destroy_def)
qed

lemma ClearToEmpty_step:
  assumes "string_field d arena (s, h)" and "default_text d h = []"
  shows "\<exists>st'. as_ClearToEmpty (Some d) arena (s, h) = Inr st' \<and> string_step d arena (s, h) st' {} {} []"
proof (cases "as_ptr s = Some d")
  case True
  then show ?thesis using same_step[OF assms(1)] field_text_default[OF True] assms
    by (simp add: as_ClearToEmpty_def string_field_def)
next
  case False
  then show ?thesis using write_step[OF assms(1) False, of "[]"] by (auto simp: as_ClearToEmpty_def)
qed

lemma ClearToDefault_step:
  assumes "string_field d arena (s, h)"
  shows "\<exists>st'. as_ClearToDefault (Some d) arena (s, h) = Inr st' \<and>
    string_step d arena (s, h) st' {} {} (default_text d h)"
proof (cases "as_ptr s = Some d")
  case True
  then show ?thesis using same_step[OF assms] field_text_default[OF True] assms
    by (simp add: as_ClearToDefault_def string_field_def)
next
  case False
  have "hp_read (Some d) h = Inr (default_text d h)"
    using assms by (auto simp: string_field_def default_text_def in_live)
  then show ?thesis using write_step[OF assms False, of "default_text d h"] False by (auto simp: as_ClearToDefault_def)
qed

text \<open>Taking over a string when there is none of the field's own.\<close>

lemma take_step:
  assumes "string_field d arena (s, h)" and "field_owns d arena s = {}" and "q \<in> loose d arena (s, h)" and "q \<noteq> d"
  shows "\<exists>h'. (case arena of None \<Rightarrow> h | Some a \<Rightarrow> hp_own a q h) = h' \<and> hp_cells h' = hp_cells h \<and>
    string_step d arena (s, h) (s\<lparr>as_ptr := Some q\<rparr>, h') {q} {} (default_text q h)"
proof -
  have q: "q \<in> live h" "q \<notin> owned h" using assms(3) by (simp_all add: loose_def)
  let ?h = "case arena of None \<Rightarrow> h | Some a \<Rightarrow> hp_own a q h" and ?s = "s\<lparr>as_ptr := Some q\<rparr>"
  have cells: "hp_cells ?h = hp_cells h" by (simp split: option.split)
  have "string_field d arena (?s, ?h)"
    using assms(1,4) q by (auto simp: string_field_def split: option.splits)
  moreover have "loose d arena (?s, ?h) = loose d arena (s, h) - {q}"
    using assms(2,4) q by (auto simp: loose_def field_owns_def split: option.splits)
  moreover have "field_text (?s, ?h) = default_text q h"
    using q(1) cells by (auto simp: field_text_def default_text_def hp_read_def in_live split: option.splits)
  ultimately have "string_step d arena (s, h) (?s, ?h) {q} {} (default_text q h)" using cells by (simp add: string_step_def)
  then show ?thesis using cells by blast
qed

lemma SetAllocated_step:
  assumes "string_field d arena (s, h)" and "q \<in> loose d arena (s, h)" and "q \<noteq> d"
  shows "\<exists>st'. as_SetAllocated (Some d) (Some q) arena (s, h) = Inr st' \<and>
    string_step d arena (s, h) st' {q} {} (default_text q h)"
proof (cases "arena = None \<and> as_ptr s \<noteq> Some d")
  case True
  obtain s1 h1 where st1: "as_Destroy (Some d) arena (s, h) = Inr (s1, h1)" "as_ptr s1 = Some d"
      "string_step d arena (s, h) (s1, h1) {} {} (default_text d h)"
    using Destroy_step[OF assms(1)] by auto
  have f1: "string_field d arena (s1, h1)" "field_owns d arena s1 = {}" "q \<in> loose d arena (s1, h1)"
    using st1 assms(2) by (auto simp: string_step_def field_owns_def)
  have "Some q \<noteq> as_ptr s" using assms(2,3) True by (auto simp: loose_def field_owns_def)
  then have q: "default_text q h1 = default_text q h"
    using st1(3) assms(2) by (auto simp: string_step_def default_text_def loose_def)
  have "string_step d arena (s1, h1) (s1\<lparr>as_ptr := Some q\<rparr>, h1) {q} {} (default_text q h1)"
    using take_step[OF f1 assms(3)] True by auto
  then have "string_step d arena (s, h) (s1\<lparr>as_ptr := Some q\<rparr>, h1) {q} {} (default_text q h)"
    using st1(3) q by (simp add: string_step_def)
  then show ?thesis using True st1(1) by (simp add: as_SetAllocated_def)
next
  case False
  then have "field_owns d arena s = {}" using assms by (auto simp: field_owns_def elim: string_fieldE)
  then show ?thesis using take_step[OF assms(1) _ assms(2,3)] False by (auto simp: as_SetAllocated_def)
qed

lemma SetAllocated_null:
  "string_field d arena (s, h) \<Longrightarrow> \<exists>st'. as_SetAllocated (Some d) None arena (s, h) = Inr st' \<and>
    string_step d arena (s, h) st' {} {} (default_text d h)"
proof -
  assume f: "string_field d arena (s, h)"
  have "as_SetAllocated (Some d) None arena (s, h) = as_Destroy (Some d) arena (s, h)"
    by (cases "hp_delete (as_ptr s) h") (auto simp: as_SetAllocated_def as_Destroy_def)
  then show ?thesis using Destroy_step[OF f] by auto
qed

text \<open>The unsafe operations neither copy nor register: the released string keeps its owner.\<close>

lemma UnsafeArenaRelease_step:
  assumes "string_field d arena (s, h)"
  shows "as_UnsafeArenaRelease (Some d) arena (s, h) =
      (if as_ptr s = Some d then None else as_ptr s, s\<lparr>as_ptr := Some d\<rparr>, h)"
    and "as_ptr s = Some q \<Longrightarrow> hp_cells h q = Some (field_text (s, h))"
proof -
  have "s\<lparr>as_ptr := Some d\<rparr> = s" if "as_ptr s = Some d" using that by (cases s) simp
  then show "as_UnsafeArenaRelease (Some d) arena (s, h) =
      (if as_ptr s = Some d then None else as_ptr s, s\<lparr>as_ptr := Some d\<rparr>, h)"
    by (simp add: as_UnsafeArenaRelease_def)
  show "as_ptr s = Some q \<Longrightarrow> hp_cells h q = Some (field_text (s, h))"
    using read_field[OF assms] by (simp add: hp_read_Inr)
qed

lemma UnsafeArenaSetAllocated_step:
  assumes "string_field d (Some a) (s, h)" and "(a, q) \<in> set (hp_owned h)" and "q \<in> live h"
  shows "string_step d (Some a) (s, h) (as_UnsafeArenaSetAllocated (Some d) (Some q) (Some a) (s, h)) {} {} (default_text q h)"
  using assms by (auto simp: as_UnsafeArenaSetAllocated_def string_step_def string_field_def loose_def field_owns_def
      field_text_def default_text_def in_live)

lemma Swap_step:
  assumes "string_field d arena (s, h)" and "string_field d arena (oth, h)"
    and "field_owns d arena s \<inter> field_owns d arena oth = {}" and "as_Swap s oth = (s', oth')"
  shows "string_step d arena (s, h) (s', h) (field_owns d arena oth) (field_owns d arena s) (field_text (oth, h))"
proof -
  have owns: "field_owns d arena s \<subseteq> live h - owned h" using assms(1) by (auto simp: field_owns_def elim: string_fieldE)
  have ptr: "as_ptr s' = as_ptr oth" using assms(4) by (auto simp: as_Swap_def)
  then have "string_field d arena (s', h)" "field_text (s', h) = field_text (oth, h)" "field_owns d arena s' = field_owns d arena oth"
    using assms(2) by (simp_all add: string_field_def field_text_def field_owns_def)
  then show ?thesis using owns assms(3) by (auto simp: string_step_def loose_def)
qed

lemma Swap_swap: "as_Swap s oth = (s', oth') \<Longrightarrow> as_Swap oth s = (oth', s')"
  by (auto simp: as_Swap_def)

lemma UnsafeSetDefault_field:
  assumes "string_field d arena (s, h)"
  shows "string_field d arena (as_UnsafeSetDefault (Some d) t, h)"
    and "field_text (as_UnsafeSetDefault (Some d) t, h) = default_text d h"
  using assms field_text_default[of "as_UnsafeSetDefault (Some d) t" d h]
  by (simp_all add: string_field_def as_UnsafeSetDefault_def)

lemmas string_steps = Set_step Mutable_step Release_step Destroy_step ClearToEmpty_step ClearToDefault_step
  SetAllocated_step SetAllocated_null

text \<open>The variants without an arena are the others with the arena \<open>None\<close>; only \<open>DestroyNoArena\<close> leaves
  a field that may not be used any more.\<close>

lemma NoArena_variants:
  "as_SetNoArena d v st = as_Set d v None st"
  "as_GetNoArena d st = as_Get d st"
  "as_MutableNoArena d st = as_Mutable d None st"
  "as_Release d None st = Inr (as_ReleaseNoArena d st)"
  "as_SetAllocatedNoArena d q st = as_SetAllocated d q None st"
  "as_ClearToEmptyNoArena d st = as_ClearToEmpty d None st"
  "as_ClearToDefaultNoArena d st = as_ClearToDefault d None st"
  "as_DestroyNoArena d st = bnd (as_Destroy d None st) (\<lambda>(s, h). Inr (s\<lparr>as_ptr := None\<rparr>, h))"
proof -
  obtain s h where st: "st = (s, h)" by (cases st)
  show "as_SetNoArena d v st = as_Set d v None st" "as_GetNoArena d st = as_Get d st"
    "as_Release d None st = Inr (as_ReleaseNoArena d st)"
    "as_ClearToEmptyNoArena d st = as_ClearToEmpty d None st"
    "as_ClearToDefaultNoArena d st = as_ClearToDefault d None st"
    by (simp_all add: st string_defs as_SetNoArena_def as_GetNoArena_def as_ReleaseNoArena_def
        as_ClearToEmptyNoArena_def as_ClearToDefaultNoArena_def CreateInstance_def CreateInstanceNoArena_def)
  have "CreateInstanceNoArena v = CreateInstance None v" for v
    by (simp add: fun_eq_iff CreateInstance_def CreateInstanceNoArena_def split: prod.split)
  then show "as_MutableNoArena d st = as_Mutable d None st"
    by (simp add: st as_Mutable_def as_MutableNoArena_def)
  show "as_SetAllocatedNoArena d q st = as_SetAllocated d q None st"
    "as_DestroyNoArena d st = bnd (as_Destroy d None st) (\<lambda>(s, h). Inr (s\<lparr>as_ptr := None\<rparr>, h))"
    by (cases "hp_delete (as_ptr s) h"; auto simp: st as_SetAllocated_def as_SetAllocatedNoArena_def
        as_Destroy_def as_DestroyNoArena_def split: option.splits)+
qed

section \<open>The contract of a string field\<close>

text \<open>C37: a string field, on an arena or not. \<open>Set\<close>, \<open>Get\<close>, \<open>Mutable\<close>, \<open>Release\<close>, \<open>SetAllocated\<close>, \<open>Destroy\<close>,
  \<open>ClearToEmpty\<close>, \<open>ClearToDefault\<close>, \<open>UnsafeArenaRelease\<close>, \<open>UnsafeArenaSetAllocated\<close>, \<open>Swap\<close> and
  \<open>UnsafeSetDefault\<close> run without touching freed memory, have the effect on the text that their comments name,
  keep the ownership of the string, and neither leak nor free nor change a string of the rest of the program,
  with these exceptions: \<open>ClearToEmpty\<close> assumes an empty default; \<open>SetAllocated\<close> takes its argument over; \<open>Release\<close> gives the released string away;
  \<open>UnsafeArenaRelease\<close> resets the field and returns its own string, which is the caller's without an arena and
  stays the arena's with one; \<open>UnsafeArenaSetAllocated\<close> points the field to such a string, or with null to the
  default, and then without an arena forgets the field's own; \<open>Swap\<close> exchanges texts and strings of two
  fields; \<open>UnsafeSetDefault\<close> works on a field in any state and forgets what it held.\<close>

theorem ArenaStringPtr_ownership:
  assumes "string_field d arena (s, h)"
  shows "(\<exists>st'. as_Set (Some d) v arena (s, h) = Inr st' \<and> string_step d arena (s, h) st' {} {} v) \<and>
    as_Get (Some d) (s, h) = Inr (field_text (s, h)) \<and>
    (\<exists>q st'. as_Mutable (Some d) arena (s, h) = Inr (Some q, st') \<and> as_ptr (fst st') = Some q \<and> q \<noteq> d \<and>
       string_step d arena (s, h) st' {} {} (field_text (s, h))) \<and>
    (\<exists>r st'. as_Release (Some d) arena (s, h) = Inr (r, st') \<and> (r = None \<longleftrightarrow> as_ptr s = Some d) \<and>
       (\<forall>q \<in> set_option r. hp_cells (snd st') q = Some (field_text (s, h))) \<and>
       string_step d arena (s, h) st' {} (set_option r) (default_text d h)) \<and>
    (\<exists>st'. as_SetAllocated (Some d) None arena (s, h) = Inr st' \<and>
       string_step d arena (s, h) st' {} {} (default_text d h)) \<and>
    (\<forall>q \<in> loose d arena (s, h) - {d}. \<exists>st'. as_SetAllocated (Some d) (Some q) arena (s, h) = Inr st' \<and>
       string_step d arena (s, h) st' {q} {} (default_text q h)) \<and>
    (\<exists>st'. as_Destroy (Some d) arena (s, h) = Inr st' \<and> as_ptr (fst st') = Some d \<and>
       string_step d arena (s, h) st' {} {} (default_text d h)) \<and>
    (default_text d h = [] \<longrightarrow> (\<exists>st'. as_ClearToEmpty (Some d) arena (s, h) = Inr st' \<and>
       string_step d arena (s, h) st' {} {} [])) \<and>
    (\<exists>st'. as_ClearToDefault (Some d) arena (s, h) = Inr st' \<and>
       string_step d arena (s, h) st' {} {} (default_text d h)) \<and>
    (\<exists>r s'. as_UnsafeArenaRelease (Some d) arena (s, h) = (r, s', h) \<and> as_ptr s' = Some d \<and>
       r = (if as_ptr s = Some d then None else as_ptr s) \<and>
       (\<forall>q \<in> set_option r. hp_cells h q = Some (field_text (s, h))) \<and>
       string_step d arena (s, h) (s', h) {} (field_owns d arena s) (default_text d h)) \<and>
    (\<forall>a q. arena = Some a \<and> (a, q) \<in> set (hp_owned h) \<and> q \<in> live h \<longrightarrow>
       string_step d arena (s, h) (as_UnsafeArenaSetAllocated (Some d) (Some q) arena (s, h)) {} {} (default_text q h)) \<and>
    string_step d arena (s, h) (as_UnsafeArenaSetAllocated (Some d) None arena (s, h)) {} (field_owns d arena s)
      (default_text d h) \<and>
    (\<forall>oth. string_field d arena (oth, h) \<and> field_owns d arena s \<inter> field_owns d arena oth = {} \<longrightarrow>
       (case as_Swap s oth of (s', oth') \<Rightarrow>
          string_step d arena (s, h) (s', h) (field_owns d arena oth) (field_owns d arena s) (field_text (oth, h)) \<and>
          string_step d arena (oth, h) (oth', h) (field_owns d arena s) (field_owns d arena oth) (field_text (s, h)))) \<and>
    (\<forall>t. string_field d arena (as_UnsafeSetDefault (Some d) t, h) \<and>
       field_text (as_UnsafeSetDefault (Some d) t, h) = default_text d h)"
proof -
  have release: "\<exists>r s'. as_UnsafeArenaRelease (Some d) arena (s, h) = (r, s', h) \<and> as_ptr s' = Some d \<and>
       r = (if as_ptr s = Some d then None else as_ptr s) \<and>
       (\<forall>q \<in> set_option r. hp_cells h q = Some (field_text (s, h))) \<and>
       string_step d arena (s, h) (s', h) {} (field_owns d arena s) (default_text d h)"
    using UnsafeArenaRelease_step[OF assms] default_step[OF assms] by (auto split: if_splits)
  have set: "string_step d arena (s, h) (as_UnsafeArenaSetAllocated (Some d) None arena (s, h)) {} (field_owns d arena s)
      (default_text d h)"
    using default_step[OF assms] by (simp add: as_UnsafeArenaSetAllocated_def)
  have swap: "case as_Swap s oth of (s', oth') \<Rightarrow>
        string_step d arena (s, h) (s', h) (field_owns d arena oth) (field_owns d arena s) (field_text (oth, h)) \<and>
        string_step d arena (oth, h) (oth', h) (field_owns d arena s) (field_owns d arena oth) (field_text (s, h))"
    if "string_field d arena (oth, h)" "field_owns d arena s \<inter> field_owns d arena oth = {}" for oth
    using Swap_step[OF assms that] Swap_step[OF that(1) assms] that(2) Swap_swap[of s oth]
    by (cases "as_Swap s oth") (auto simp: Int_commute)
  show ?thesis
    using string_steps(4-)[OF assms] Set_step[OF assms] Mutable_step[OF assms] Release_step[OF assms] Get_text[OF assms]
      UnsafeArenaSetAllocated_step[of d _ s h] assms UnsafeSetDefault_field[OF assms] swap
    by (intro conjI release set) auto
qed

text \<open>The heap with the empty default string alone, and a field that points to it.\<close>

definition default_heap :: "bytes heap" where
  "default_heap = snd (hp_new [] hp_empty)"

definition default_field :: ArenaStringPtr where
  "default_field = \<lparr>as_ptr = Some 0\<rparr>"

lemma default_heap_ok: "string_field 0 arena (default_field, default_heap)"
  by (simp add: string_field_def default_heap_def default_field_def hp_new_def hp_empty_def wf_heap_def live_def owned_def)

text \<open>And a field with a text of its own.\<close>

definition own_heap :: "bytes heap" where
  "own_heap = snd (hp_new [65] default_heap)"

lemma own_heap_ok: "string_field 0 None (\<lparr>as_ptr = Some 1\<rparr>, own_heap)"
  by (simp add: string_field_def own_heap_def default_heap_def hp_new_def hp_empty_def wf_heap_def live_def owned_def)

theorem ArenaStringPtr_ownership_witness:
  "(\<exists>st'. as_Set (Some 0) [1] None (default_field, default_heap) = Inr st' \<and>
     string_step 0 None (default_field, default_heap) st' {} {} [1]) \<and>
   (\<exists>s'. as_UnsafeArenaRelease (Some 0) None (\<lparr>as_ptr = Some 1\<rparr>, own_heap) = (Some 1, s', own_heap) \<and> as_ptr s' = Some 0 \<and>
     string_step 0 None (\<lparr>as_ptr = Some 1\<rparr>, own_heap) (s', own_heap) {} {1} [])"
proof (intro conjI)
  show "\<exists>st'. as_Set (Some 0) [1] None (default_field, default_heap) = Inr st' \<and>
     string_step 0 None (default_field, default_heap) st' {} {} [1]"
    using ArenaStringPtr_ownership[OF default_heap_ok, of "[1]" None, THEN conjunct1] .
  have "field_owns 0 None \<lparr>as_ptr = Some 1\<rparr> = {1}" "default_text 0 own_heap = []"
    by (simp_all add: field_owns_def default_text_def own_heap_def default_heap_def hp_new_def hp_empty_def)
  then show "\<exists>s'. as_UnsafeArenaRelease (Some 0) None (\<lparr>as_ptr = Some 1\<rparr>, own_heap) = (Some 1, s', own_heap) \<and> as_ptr s' = Some 0 \<and>
     string_step 0 None (\<lparr>as_ptr = Some 1\<rparr>, own_heap) (s', own_heap) {} {1} []"
    using ArenaStringPtr_ownership[OF own_heap_ok, of "[]", THEN conjunct2, THEN conjunct2, THEN conjunct2, THEN conjunct2,
      THEN conjunct2, THEN conjunct2, THEN conjunct2, THEN conjunct2, THEN conjunct2, THEN conjunct1] by auto
qed

end
