(* ===== verification/PbBytes.thy ===== *)
theory PbBytes
  imports Prelude "HOL-Library.Word"
begin

unbundle bit_operations_syntax

text \<open>
  The encodings of the protobuf wire format as functions on numbers and byte lists, and what it
  means that a routine writes given bytes at a target in memory. Everything here is the
  specification side: the varint and the little-endian code that the routines of
  \<open>include/google/protobuf/io/coded_stream.h\<close> are measured against.
\<close>

section \<open>Base 128 varints\<close>

text \<open>Seven bits a byte, the low ones first; all bytes but the last one have the high bit set.\<close>

fun varint :: "nat \<Rightarrow> 8 word list" where
  "varint n = (if n < 128 then [of_nat n] else of_nat (n mod 128 + 128) # varint (n div 128))"

declare varint.simps [simp del]

text \<open>The decoder, of at most \<open>k\<close> bytes: the number and the bytes behind it.\<close>

fun decode_varint :: "nat \<Rightarrow> 8 word list \<Rightarrow> (nat \<times> 8 word list) option" where
  "decode_varint 0 bs = None"
| "decode_varint (Suc k) [] = None"
| "decode_varint (Suc k) (b # bs) =
    (if unat b < 128 then Some (unat b, bs)
     else case decode_varint k bs of None \<Rightarrow> None
          | Some (n, r) \<Rightarrow> Some (unat b - 128 + 128 * n, r))"

definition kMaxVarintBytes :: nat where "kMaxVarintBytes = 10"

lemma unat_byte [simp]: "n < 256 \<Longrightarrow> unat (of_nat n :: 8 word) = n"
  by (simp add: unat_of_nat take_bit_nat_eq_self)

lemma decode_varint_encoded:
  "n < 128 ^ k \<Longrightarrow> 0 < k \<Longrightarrow> decode_varint k (varint n @ r) = Some (n, r)"
proof (induction k arbitrary: n)
  case 0
  then show ?case by simp
next
  case (Suc k)
  show ?case
  proof (cases "n < 128")
    case True
    then show ?thesis by (simp add: varint.simps[of n])
  next
    case False
    then have "0 < k" using Suc.prems(1) by (cases k) simp_all
    have "n div 128 < 128 ^ k" using Suc.prems by (simp add: less_mult_imp_div_less mult.commute)
    then have "decode_varint k (varint (n div 128) @ r) = Some (n div 128, r)"
      using \<open>0 < k\<close> by (rule Suc.IH)
    moreover have "unat (of_nat (n mod 128 + 128) :: 8 word) = n mod 128 + 128"
      using mod_less_divisor[of 128 n] by (intro unat_byte) simp
    ultimately show ?thesis using False by (simp add: varint.simps[of n] del: of_nat_add)
  qed
qed

lemma decode_varint_64: "n < 2 ^ 64 \<Longrightarrow> decode_varint kMaxVarintBytes (varint n @ r) = Some (n, r)"
proof -
  assume "n < 2 ^ 64"
  then have "n < 128 ^ 10" by simp
  then show ?thesis unfolding kMaxVarintBytes_def by (rule decode_varint_encoded) simp
qed

lemma varint_length_le: "n < 128 ^ k \<Longrightarrow> 0 < k \<Longrightarrow> length (varint n) \<le> k"
proof (induction k arbitrary: n)
  case 0
  then show ?case by simp
next
  case (Suc k)
  show ?case
  proof (cases "n < 128")
    case True
    then show ?thesis by (simp add: varint.simps[of n])
  next
    case False
    then have "0 < k" using Suc.prems(1) by (cases k) simp_all
    have "n div 128 < 128 ^ k" using Suc.prems by (simp add: less_mult_imp_div_less mult.commute)
    then have "length (varint (n div 128)) \<le> k" using Suc.IH \<open>0 < k\<close> by blast
    then show ?thesis using False by (simp add: varint.simps[of n])
  qed
qed

lemma varint_length_gt: "128 ^ k \<le> n \<Longrightarrow> k < length (varint n)"
proof (induction k arbitrary: n)
  case 0
  then show ?case by (simp add: varint.simps[of n])
next
  case (Suc k)
  have "128 * 128 ^ k \<le> n" using Suc.prems by simp
  then have "128 ^ k \<le> n div 128" by (simp add: less_eq_div_iff_mult_less_eq mult.commute)
  moreover have "128 * 1 \<le> n" using \<open>128 * 128 ^ k \<le> n\<close> by (meson le_trans mult_le_mono2 one_le_numeral one_le_power)
  ultimately show ?case using Suc.IH[of "n div 128"] by (simp add: varint.simps[of n])
qed

lemma varint_not_Nil [simp]: "varint n \<noteq> []"
  by (simp add: varint.simps[of n])

lemma varint_byte: "n < 128 \<Longrightarrow> varint n = [of_nat n]"
  by (simp add: varint.simps)

lemma varint_bytes2: "128 \<le> n \<Longrightarrow> n < 16384 \<Longrightarrow> varint n = [of_nat (n mod 128 + 128), of_nat (n div 128)]"
proof -
  assume "128 \<le> n" and "n < 16384"
  then have "n div 128 < 128" by (simp add: less_mult_imp_div_less)
  then show ?thesis using \<open>128 \<le> n\<close> by (simp add: varint.simps)
qed

section \<open>Varints of words\<close>

lemma unat_drop_bit7: "unat (drop_bit 7 v) = unat v div 128"
  unfolding unat_drop_bit_eq by (simp add: drop_bit_eq_div)

lemma varint_last: "\<not> 0x80 \<le> v \<Longrightarrow> varint (unat (v :: 32 word)) = [ucast v]"
proof -
  assume "\<not> 0x80 \<le> v"
  then have "unat v < 128" by (simp add: word_le_nat_alt not_le)
  then show ?thesis by (simp add: varint_byte)
qed

lemma high_bit_set: "(take_bit 7 b + 0x80 :: 8 word) = b OR 0x80"
proof -
  have e: "(0x80 :: 8 word) = 2 ^ 7" by simp
  have "take_bit 7 b + 2 ^ 7 = take_bit 7 b OR (2 ^ 7 :: 8 word)"
    by (rule disjunctive_add) (auto simp only: bit_take_bit_iff bit_exp_iff)
  also have "\<dots> = b OR 2 ^ 7"
    by (rule bit_word_eqI, unfold bit_or_iff bit_take_bit_iff bit_exp_iff possible_bit_word)
      (simp, linarith)
  finally show ?thesis unfolding e .
qed

lemma cont_byte: "(of_nat (unat v mod 128 + 128) :: 8 word) = ucast (v OR 0x80)" for v :: "32 word"
proof -
  have "(of_nat (unat v mod 128) :: 8 word) = take_bit 7 (ucast v)"
    using take_bit_of_nat[of 7 "unat v", where 'a = "8 word"] by (simp add: take_bit_eq_mod)
  then show ?thesis using high_bit_set[of "ucast v"] by (simp add: unsigned_or_eq)
qed

lemma varint_cont:
  "0x80 \<le> v \<Longrightarrow> varint (unat (v :: 32 word)) = ucast (v OR 0x80) # varint (unat (drop_bit 7 v))"
  using cont_byte[of v] unfolding unat_drop_bit7
  by (simp add: varint.simps[of "unat v"] word_le_nat_alt del: of_nat_add)

lemma unat_less32: "unat (v :: 32 word) < 2 ^ 32"
proof -
  have "unat v < 2 ^ LENGTH(32)" by (rule unsigned_less)
  then show ?thesis by simp
qed

lemma unat_less64: "unat (w :: 64 word) < 2 ^ 64"
proof -
  have "unat w < 2 ^ LENGTH(64)" by (rule unsigned_less)
  then show ?thesis by simp
qed

lemma varint_length_32: "length (varint (unat (v :: 32 word))) \<le> 5"
proof -
  have "unat v < 128 ^ 5" using unat_less32[of v] by simp
  then show ?thesis by (rule varint_length_le) simp
qed

section \<open>Little-endian integers\<close>

fun le_bytes :: "nat \<Rightarrow> nat \<Rightarrow> 8 word list" where
  "le_bytes 0 n = []"
| "le_bytes (Suc k) n = of_nat n # le_bytes k (n div 256)"

fun from_le :: "8 word list \<Rightarrow> nat" where
  "from_le [] = 0"
| "from_le (b # bs) = unat b + 256 * from_le bs"

lemma length_le_bytes [simp]: "length (le_bytes k n) = k"
  by (induction k arbitrary: n) auto

lemma le_bytes_Nil [simp]: "le_bytes k n = [] \<longleftrightarrow> k = 0"
  by (cases k) simp_all

lemma from_le_bytes: "n < 256 ^ k \<Longrightarrow> from_le (le_bytes k n) = n"
proof (induction k arbitrary: n)
  case 0
  then show ?case by simp
next
  case (Suc k)
  have "n div 256 < 256 ^ k" using Suc.prems by (simp add: less_mult_imp_div_less mult.commute)
  moreover have "unat (of_nat n :: 8 word) = n mod 256" by (simp add: unat_of_nat take_bit_eq_mod)
  ultimately show ?case using Suc.IH by simp
qed

section \<open>Writing at a target\<close>

text \<open>A \<open>uint8*\<close> into memory that the caller provides: the memory and the position.\<close>

type_synonym target = "8 word list \<times> int"

definition overwrite :: "8 word list \<Rightarrow> int \<Rightarrow> 8 word list \<Rightarrow> 8 word list" where
  "overwrite mem p bs = take (nat p) mem @ bs @ drop (nat p + length bs) mem"

text \<open>A routine that writes exactly the bytes \<open>bs\<close>: given room for them it does not fault, changes
  no other byte and returns the position behind them.\<close>

definition writes :: "(target \<Rightarrow> target run) \<Rightarrow> 8 word list \<Rightarrow> bool" where
  "writes f bs \<longleftrightarrow> (\<forall>mem p. 0 \<le> p \<and> p + int (length bs) \<le> int (length mem) \<longrightarrow>
     f (mem, p) = Inr (overwrite mem p bs, p + int (length bs)))"

lemma writesD:
  "writes f bs \<Longrightarrow> 0 \<le> p \<Longrightarrow> p + int (length bs) \<le> int (length mem) \<Longrightarrow>
   f (mem, p) = Inr (overwrite mem p bs, p + int (length bs))"
  by (simp add: writes_def)

lemma length_overwrite [simp]:
  "0 \<le> p \<Longrightarrow> p + int (length bs) \<le> int (length mem) \<Longrightarrow> length (overwrite mem p bs) = length mem"
  by (simp add: overwrite_def)

lemma overwrite_append:
  assumes "0 \<le> p" and "p + int (length bs) + int (length cs) \<le> int (length mem)"
  shows "overwrite (overwrite mem p bs) (p + int (length bs)) cs = overwrite mem p (bs @ cs)"
proof -
  have "nat (p + int (length bs)) = nat p + length bs" using assms(1) by (simp add: nat_add_distrib)
  moreover have "length (take (nat p) mem) = nat p" using assms by simp
  ultimately show ?thesis unfolding overwrite_def by (simp add: add.commute add.left_commute)
qed

lemma writes_seq:
  assumes "writes f bs" and "writes g cs"
  shows "writes (\<lambda>t. bnd (f t) g) (bs @ cs)"
  unfolding writes_def
proof (intro allI impI)
  fix mem :: "8 word list" and p :: int
  assume "0 \<le> p \<and> p + int (length (bs @ cs)) \<le> int (length mem)"
  then have p: "0 \<le> p" "p + int (length bs) + int (length cs) \<le> int (length mem)" by auto
  then have f: "f (mem, p) = Inr (overwrite mem p bs, p + int (length bs))"
    using writesD[OF assms(1)] by simp
  have "g (overwrite mem p bs, p + int (length bs)) =
      Inr (overwrite (overwrite mem p bs) (p + int (length bs)) cs, p + int (length bs) + int (length cs))"
    using p by (intro writesD[OF assms(2)]) auto
  then show "bnd (f (mem, p)) g = Inr (overwrite mem p (bs @ cs), p + int (length (bs @ cs)))"
    using f overwrite_append[OF p] by (simp add: add.assoc)
qed

definition write_byte :: "8 word \<Rightarrow> target \<Rightarrow> target run" where
  "write_byte b t = (case t of (mem, p) \<Rightarrow> bnd (write_at mem p b) (\<lambda>mem'. Inr (mem', p + 1)))"

lemma writes_byte: "writes (write_byte b) [b]"
  unfolding writes_def
proof (intro allI impI)
  fix mem :: "8 word list" and p :: int
  assume "0 \<le> p \<and> p + int (length [b]) \<le> int (length mem)"
  then have p: "0 \<le> p" "nat p < length mem" by auto
  then show "write_byte b (mem, p) = Inr (overwrite mem p [b], p + int (length [b]))"
    by (simp add: write_byte_def write_at_def overwrite_def upd_conv_take_nth_drop)
qed

lemma writes_cong: "writes f bs \<Longrightarrow> (\<And>t. g t = f t) \<Longrightarrow> bs = cs \<Longrightarrow> writes g cs"
  by (simp add: writes_def)

lemma writes_Cons: "writes g cs \<Longrightarrow> writes (\<lambda>t. bnd (write_byte b t) g) (b # cs)"
  using writes_seq[OF writes_byte] by fastforce

lemma writes_Nil: "writes Inr []"
  by (simp add: writes_def overwrite_def)

end
