(* ===== verification/PbInput.thy ===== *)
theory PbInput
  imports PbBytes
begin

text \<open>
  \<open>CodedInputStream\<close> of \<open>include/google/protobuf/io/coded_stream.h\<close>: its state and every inline
  operation. Pointers into the current buffer are positions in its memory, and reading outside
  that memory is a fault. The functions of the library (\<open>coded_stream.cc\<close>, not in this
  repository) are the fields of \<open>in_ops\<close>; what the header documents of them is \<open>in_ok\<close>.
\<close>

section \<open>State\<close>

record 'z CodedInputStream =
  ci_memory :: "8 word list"
  ci_buffer :: int
  ci_buffer_end :: int
  ci_input :: "'z option"
  ci_total_bytes_read :: int
  ci_overflow_bytes :: int
  ci_last_tag :: "32 word"
  ci_legitimate_message_end :: bool
  ci_aliasing_enabled :: bool
  ci_current_limit :: int
  ci_buffer_size_after_limit :: int
  ci_total_bytes_limit :: int
  ci_total_bytes_warning_threshold :: int
  ci_recursion_budget :: int
  ci_recursion_limit :: int
  ci_extension_pool :: "nat option"
  ci_extension_factory :: "nat option"

record 'z in_ops =
  io_Refresh :: "'z CodedInputStream \<Rightarrow> bool \<times> 'z CodedInputStream"
  io_ReadVarint32Fallback :: "32 word \<Rightarrow> 'z CodedInputStream \<Rightarrow> int \<times> 'z CodedInputStream"
  io_ReadVarint64Fallback :: "'z CodedInputStream \<Rightarrow> (64 word \<times> bool) \<times> 'z CodedInputStream"
  io_ReadLittleEndian32Fallback :: "'z CodedInputStream \<Rightarrow> (bool \<times> 32 word) \<times> 'z CodedInputStream"
  io_ReadLittleEndian64Fallback :: "'z CodedInputStream \<Rightarrow> (bool \<times> 64 word) \<times> 'z CodedInputStream"
  io_ReadTagFallback :: "32 word \<Rightarrow> 'z CodedInputStream \<Rightarrow> 32 word \<times> 'z CodedInputStream"
  io_PushLimit :: "int \<Rightarrow> 'z CodedInputStream \<Rightarrow> int \<times> 'z CodedInputStream"
  io_PopLimit :: "int \<Rightarrow> 'z CodedInputStream \<Rightarrow> 'z CodedInputStream"
  io_BytesUntilLimit :: "'z CodedInputStream \<Rightarrow> int"
  io_BytesUntilTotalBytesLimit :: "'z CodedInputStream \<Rightarrow> int"
  io_Skip :: "int \<Rightarrow> 'z CodedInputStream \<Rightarrow> bool \<times> 'z CodedInputStream"
  io_ReadRaw :: "int \<Rightarrow> 'z CodedInputStream \<Rightarrow> (bool \<times> 8 word list) \<times> 'z CodedInputStream"
  io_IncrementRecursionDepthAndPushLimit ::
    "int \<Rightarrow> 'z CodedInputStream \<Rightarrow> (int \<times> int) \<times> 'z CodedInputStream"
  io_ReadLengthAndPushLimit :: "'z CodedInputStream \<Rightarrow> int \<times> 'z CodedInputStream"
  io_DecrementRecursionDepthAndPopLimit :: "int \<Rightarrow> 'z CodedInputStream \<Rightarrow> bool \<times> 'z CodedInputStream"
  io_CheckEntireMessageConsumedAndPopLimit :: "int \<Rightarrow> 'z CodedInputStream \<Rightarrow> bool \<times> 'z CodedInputStream"
  io_default_recursion_limit :: int

definition kDefaultTotalBytesLimit :: int where
  "kDefaultTotalBytesLimit = 64 * 2 ^ 20"

definition kDefaultTotalBytesWarningThreshold :: int where
  "kDefaultTotalBytesWarningThreshold = 32 * 2 ^ 20"

section \<open>Constructors\<close>

definition ci_new :: "'z in_ops \<Rightarrow> 'z \<Rightarrow> 'z CodedInputStream" where
  "ci_new F input =
    (let st = \<lparr>ci_memory = [], ci_buffer = 0, ci_buffer_end = 0, ci_input = Some input,
               ci_total_bytes_read = 0, ci_overflow_bytes = 0, ci_last_tag = 0,
               ci_legitimate_message_end = False, ci_aliasing_enabled = False,
               ci_current_limit = 2 ^ 31 - 1, ci_buffer_size_after_limit = 0,
               ci_total_bytes_limit = kDefaultTotalBytesLimit,
               ci_total_bytes_warning_threshold = kDefaultTotalBytesWarningThreshold,
               ci_recursion_budget = io_default_recursion_limit F,
               ci_recursion_limit = io_default_recursion_limit F,
               ci_extension_pool = None, ci_extension_factory = None\<rparr>
     in snd (io_Refresh F st))"

definition ci_new_array :: "'z in_ops \<Rightarrow> 8 word list \<Rightarrow> int \<Rightarrow> 'z CodedInputStream" where
  "ci_new_array F buffer n =
    \<lparr>ci_memory = buffer, ci_buffer = 0, ci_buffer_end = n, ci_input = None,
     ci_total_bytes_read = n, ci_overflow_bytes = 0, ci_last_tag = 0,
     ci_legitimate_message_end = False, ci_aliasing_enabled = False,
     ci_current_limit = n, ci_buffer_size_after_limit = 0,
     ci_total_bytes_limit = kDefaultTotalBytesLimit,
     ci_total_bytes_warning_threshold = kDefaultTotalBytesWarningThreshold,
     ci_recursion_budget = io_default_recursion_limit F,
     ci_recursion_limit = io_default_recursion_limit F,
     ci_extension_pool = None, ci_extension_factory = None\<rparr>"

definition IsFlat :: "'z CodedInputStream \<Rightarrow> bool" where
  "IsFlat st \<longleftrightarrow> ci_input st = None"

section \<open>The current buffer\<close>

definition BufferSize :: "'z CodedInputStream \<Rightarrow> int" where
  "BufferSize st = ci_buffer_end st - ci_buffer st"

definition ci_Advance :: "int \<Rightarrow> 'z CodedInputStream \<Rightarrow> 'z CodedInputStream" where
  "ci_Advance amount st = st\<lparr>ci_buffer := ci_buffer st + amount\<rparr>"

definition GetDirectBufferPointerInline :: "'z CodedInputStream \<Rightarrow> int \<times> int" where
  "GetDirectBufferPointerInline st = (ci_buffer st, ci_buffer_end st - ci_buffer st)"

definition CurrentPosition :: "'z CodedInputStream \<Rightarrow> int" where
  "CurrentPosition st = ci_total_bytes_read st - (BufferSize st + ci_buffer_size_after_limit st)"

text \<open>\<open>buffer_[i]\<close>\<close>

definition byte_at :: "int \<Rightarrow> 'z CodedInputStream \<Rightarrow> 8 word run" where
  "byte_at i st = read_at (ci_memory st) (ci_buffer st + i)"

section \<open>Varints and tags\<close>

text \<open>The results are what the function returns with the value it stores.\<close>

definition ReadVarint32 :: "'z in_ops \<Rightarrow> 'z CodedInputStream \<Rightarrow> ((bool \<times> 32 word) \<times> 'z CodedInputStream) run" where
  "ReadVarint32 F st =
    (let fallback = (\<lambda>v. case io_ReadVarint32Fallback F v st of (result, st') \<Rightarrow>
           Inr ((result \<ge> 0, word_of_int result), st'))
     in if ci_buffer st < ci_buffer_end st
        then bnd (byte_at 0 st) (\<lambda>b. let v = ucast b in
          if v < 0x80 then Inr ((True, v), ci_Advance 1 st) else fallback v)
        else fallback 0)"

definition ReadVarint64 :: "'z in_ops \<Rightarrow> 'z CodedInputStream \<Rightarrow> ((bool \<times> 64 word) \<times> 'z CodedInputStream) run" where
  "ReadVarint64 F st =
    (let fallback = (case io_ReadVarint64Fallback F st of ((value, ok), st') \<Rightarrow> Inr ((ok, value), st'))
     in if ci_buffer st < ci_buffer_end st
        then bnd (byte_at 0 st) (\<lambda>b.
          if b < 0x80 then Inr ((True, ucast b), ci_Advance 1 st) else fallback)
        else fallback)"

definition ReadTag :: "'z in_ops \<Rightarrow> 'z CodedInputStream \<Rightarrow> (32 word \<times> 'z CodedInputStream) run" where
  "ReadTag F st =
    (let fallback = (\<lambda>v. case io_ReadTagFallback F v st of (tag, st') \<Rightarrow>
           Inr (tag, st'\<lparr>ci_last_tag := tag\<rparr>))
     in if ci_buffer st < ci_buffer_end st
        then bnd (byte_at 0 st) (\<lambda>b. let v = ucast b in
          if v < 0x80 then Inr (v, ci_Advance 1 (st\<lparr>ci_last_tag := v\<rparr>)) else fallback v)
        else fallback 0)"

definition kMax1ByteVarint :: "32 word" where "kMax1ByteVarint = 0x7f"

definition kMax2ByteVarint :: "32 word" where "kMax2ByteVarint = push_bit 7 0x7f + 0x7f"

text \<open>\<open>ReadTagWithCutoff\<close>: the one-byte case, the two-byte case when the cutoff can need it, and the
  slow path.\<close>

definition tag_slow_path ::
    "'z in_ops \<Rightarrow> 32 word \<Rightarrow> 32 word \<Rightarrow> 'z CodedInputStream \<Rightarrow> ((32 word \<times> bool) \<times> 'z CodedInputStream) run" where
  "tag_slow_path F first_byte_or_zero cutoff st =
    (case io_ReadTagFallback F first_byte_or_zero st of (tag, st') \<Rightarrow>
       Inr ((tag, tag - 1 < cutoff), st'\<lparr>ci_last_tag := tag\<rparr>))"

definition ReadTagWithCutoff ::
    "'z in_ops \<Rightarrow> 32 word \<Rightarrow> 'z CodedInputStream \<Rightarrow> ((32 word \<times> bool) \<times> 'z CodedInputStream) run" where
  "ReadTagWithCutoff F cutoff st =
    (if ci_buffer st < ci_buffer_end st
     then bnd (byte_at 0 st) (\<lambda>b0. let first_byte_or_zero = ucast b0 in
       if sint b0 > 0
       then let tag = ucast b0 in
         Inr ((tag, cutoff \<ge> kMax1ByteVarint \<or> tag \<le> cutoff), ci_Advance 1 (st\<lparr>ci_last_tag := tag\<rparr>))
       else if cutoff \<ge> 0x80 \<and> ci_buffer st + 1 < ci_buffer_end st
       then bnd (byte_at 1 st) (\<lambda>b1.
         if (b0 AND NOT b1) \<ge> 0x80
         then let tag = push_bit 7 1 * ucast b1 + (ucast b0 - 0x80) in
           Inr ((tag, cutoff \<ge> kMax2ByteVarint \<or> tag \<le> cutoff), ci_Advance 2 (st\<lparr>ci_last_tag := tag\<rparr>))
         else tag_slow_path F first_byte_or_zero cutoff st)
       else tag_slow_path F first_byte_or_zero cutoff st)
     else tag_slow_path F 0 cutoff st)"

definition LastTagWas :: "32 word \<Rightarrow> 'z CodedInputStream \<Rightarrow> bool" where
  "LastTagWas expected st \<longleftrightarrow> ci_last_tag st = expected"

definition ConsumedEntireMessage :: "'z CodedInputStream \<Rightarrow> bool" where
  "ConsumedEntireMessage st \<longleftrightarrow> ci_legitimate_message_end st"

definition ExpectTag :: "32 word \<Rightarrow> 'z CodedInputStream \<Rightarrow> (bool \<times> 'z CodedInputStream) run" where
  "ExpectTag expected st =
    (if expected < 2 ^ 7
     then if ci_buffer st < ci_buffer_end st
          then bnd (byte_at 0 st) (\<lambda>b.
            if ucast b = expected then Inr (True, ci_Advance 1 st) else Inr (False, st))
          else Inr (False, st)
     else if expected < 2 ^ 14
     then if BufferSize st \<ge> 2
          then bnd (byte_at 0 st) (\<lambda>b0.
            if b0 = ucast (expected OR 0x80)
            then bnd (byte_at 1 st) (\<lambda>b1.
              if b1 = ucast (drop_bit 7 expected) then Inr (True, ci_Advance 2 st) else Inr (False, st))
            else Inr (False, st))
          else Inr (False, st)
     else Inr (False, st))"

text \<open>The same on a pointer into an array; \<open>None\<close> is \<open>NULL\<close>.\<close>

definition ExpectTagFromArray :: "8 word list \<Rightarrow> int \<Rightarrow> 32 word \<Rightarrow> int option run" where
  "ExpectTagFromArray mem buffer expected =
    (if expected < 2 ^ 7
     then bnd (read_at mem buffer) (\<lambda>b. if ucast b = expected then Inr (Some (buffer + 1)) else Inr None)
     else if expected < 2 ^ 14
     then bnd (read_at mem buffer) (\<lambda>b0.
       if b0 = ucast (expected OR 0x80)
       then bnd (read_at mem (buffer + 1)) (\<lambda>b1.
         if b1 = ucast (drop_bit 7 expected) then Inr (Some (buffer + 2)) else Inr None)
       else Inr None)
     else Inr None)"

definition ExpectAtEnd :: "'z CodedInputStream \<Rightarrow> bool \<times> 'z CodedInputStream" where
  "ExpectAtEnd st =
    (if ci_buffer st = ci_buffer_end st \<and>
        (ci_buffer_size_after_limit st \<noteq> 0 \<or> ci_total_bytes_read st = ci_current_limit st)
     then (True, st\<lparr>ci_last_tag := 0, ci_legitimate_message_end := True\<rparr>)
     else (False, st))"

section \<open>Fixed-width integers\<close>

text \<open>\<open>memcpy\<close> into an integer object on a little-endian machine (\<open>PROTOBUF_LITTLE_ENDIAN\<close>), or the
  bytes shifted into place.\<close>

definition from_object :: "8 word list \<Rightarrow> 'a::len word" where
  "from_object bs = of_nat (from_le bs)"

fun read_bytes :: "8 word list \<Rightarrow> int \<Rightarrow> nat \<Rightarrow> 8 word list run" where
  "read_bytes mem p 0 = Inr []"
| "read_bytes mem p (Suc k) = bnd (read_at mem p) (\<lambda>b. bnd (read_bytes mem (p + 1) k) (\<lambda>bs. Inr (b # bs)))"

definition shifted4 :: "8 word \<Rightarrow> 8 word \<Rightarrow> 8 word \<Rightarrow> 8 word \<Rightarrow> 32 word" where
  "shifted4 b0 b1 b2 b3 =
    ucast b0 OR push_bit 8 (ucast b1) OR push_bit 16 (ucast b2) OR push_bit 24 (ucast b3)"

definition ReadLittleEndian32FromArray :: "bool \<Rightarrow> 8 word list \<Rightarrow> int \<Rightarrow> (32 word \<times> int) run" where
  "ReadLittleEndian32FromArray little mem p =
    (if little then bnd (read_bytes mem p 4) (\<lambda>bs. Inr (from_object bs, p + 4))
     else bnd (read_at mem p) (\<lambda>b0. bnd (read_at mem (p + 1)) (\<lambda>b1.
          bnd (read_at mem (p + 2)) (\<lambda>b2. bnd (read_at mem (p + 3)) (\<lambda>b3.
            Inr (shifted4 b0 b1 b2 b3, p + 4))))))"

definition ReadLittleEndian64FromArray :: "bool \<Rightarrow> 8 word list \<Rightarrow> int \<Rightarrow> (64 word \<times> int) run" where
  "ReadLittleEndian64FromArray little mem p =
    (if little then bnd (read_bytes mem p 8) (\<lambda>bs. Inr (from_object bs, p + 8))
     else bnd (read_at mem p) (\<lambda>b0. bnd (read_at mem (p + 1)) (\<lambda>b1.
          bnd (read_at mem (p + 2)) (\<lambda>b2. bnd (read_at mem (p + 3)) (\<lambda>b3.
          bnd (read_at mem (p + 4)) (\<lambda>b4. bnd (read_at mem (p + 5)) (\<lambda>b5.
          bnd (read_at mem (p + 6)) (\<lambda>b6. bnd (read_at mem (p + 7)) (\<lambda>b7.
            let part0 = shifted4 b0 b1 b2 b3; part1 = shifted4 b4 b5 b6 b7 in
            Inr (ucast part0 OR push_bit 32 (ucast part1), p + 8))))))))))"

definition ReadLittleEndian32 ::
    "bool \<Rightarrow> 'z in_ops \<Rightarrow> 'z CodedInputStream \<Rightarrow> ((bool \<times> 32 word) \<times> 'z CodedInputStream) run" where
  "ReadLittleEndian32 little F st =
    (if little \<and> BufferSize st \<ge> 4
     then bnd (read_bytes (ci_memory st) (ci_buffer st) 4) (\<lambda>bs.
       Inr ((True, from_object bs), ci_Advance 4 st))
     else Inr (io_ReadLittleEndian32Fallback F st))"

definition ReadLittleEndian64 ::
    "bool \<Rightarrow> 'z in_ops \<Rightarrow> 'z CodedInputStream \<Rightarrow> ((bool \<times> 64 word) \<times> 'z CodedInputStream) run" where
  "ReadLittleEndian64 little F st =
    (if little \<and> BufferSize st \<ge> 8
     then bnd (read_bytes (ci_memory st) (ci_buffer st) 8) (\<lambda>bs.
       Inr ((True, from_object bs), ci_Advance 8 st))
     else Inr (io_ReadLittleEndian64Fallback F st))"

section \<open>Recursion and the extension registry\<close>

definition SetRecursionLimit :: "int \<Rightarrow> 'z CodedInputStream \<Rightarrow> 'z CodedInputStream" where
  "SetRecursionLimit limit st =
    st\<lparr>ci_recursion_budget := ci_recursion_budget st + (limit - ci_recursion_limit st),
       ci_recursion_limit := limit\<rparr>"

definition IncrementRecursionDepth :: "'z CodedInputStream \<Rightarrow> bool \<times> 'z CodedInputStream" where
  "IncrementRecursionDepth st =
    (let st' = st\<lparr>ci_recursion_budget := ci_recursion_budget st - 1\<rparr>
     in (ci_recursion_budget st' \<ge> 0, st'))"

definition DecrementRecursionDepth :: "'z CodedInputStream \<Rightarrow> 'z CodedInputStream" where
  "DecrementRecursionDepth st =
    (if ci_recursion_budget st < ci_recursion_limit st
     then st\<lparr>ci_recursion_budget := ci_recursion_budget st + 1\<rparr> else st)"

definition UnsafeDecrementRecursionDepth :: "'z CodedInputStream \<Rightarrow> 'z CodedInputStream run" where
  "UnsafeDecrementRecursionDepth st =
    check (ci_recursion_budget st < ci_recursion_limit st)
      (Inr (st\<lparr>ci_recursion_budget := ci_recursion_budget st + 1\<rparr>))"

definition SetExtensionRegistry :: "nat option \<Rightarrow> nat option \<Rightarrow> 'z CodedInputStream \<Rightarrow> 'z CodedInputStream" where
  "SetExtensionRegistry pool factory st = st\<lparr>ci_extension_pool := pool, ci_extension_factory := factory\<rparr>"

definition GetExtensionPool :: "'z CodedInputStream \<Rightarrow> nat option" where
  "GetExtensionPool st = ci_extension_pool st"

definition GetExtensionFactory :: "'z CodedInputStream \<Rightarrow> nat option" where
  "GetExtensionFactory st = ci_extension_factory st"

section \<open>What the library documents\<close>

text \<open>What can be read before the limit: the rest of the current buffer and then \<open>vw_tail\<close>.
  \<open>vw_hidden lim\<close> is what becomes readable again when the limit \<open>lim\<close> is popped, and
  \<open>vw_limited\<close> says that the nearest limit lies within the input.\<close>

record 'z in_view =
  vw_tail :: "'z CodedInputStream \<Rightarrow> 8 word list"
  vw_hidden :: "'z CodedInputStream \<Rightarrow> int \<Rightarrow> 8 word list"
  vw_limited :: "'z CodedInputStream \<Rightarrow> bool"

definition window :: "'z CodedInputStream \<Rightarrow> 8 word list" where
  "window st = take (nat (BufferSize st)) (drop (nat (ci_buffer st)) (ci_memory st))"

definition readable :: "'z in_view \<Rightarrow> 'z CodedInputStream \<Rightarrow> 8 word list" where
  "readable V st = window st @ vw_tail V st"

definition wf_in :: "'z CodedInputStream \<Rightarrow> bool" where
  "wf_in st \<longleftrightarrow> 0 \<le> ci_buffer st \<and> ci_buffer st \<le> ci_buffer_end st \<and>
     ci_buffer_end st \<le> int (length (ci_memory st))"

text \<open>A step of the stream that leaves the readable bytes \<open>r\<close>.\<close>

definition leaves :: "'z in_view \<Rightarrow> 'z CodedInputStream \<Rightarrow> 'z CodedInputStream \<Rightarrow> 8 word list \<Rightarrow> bool" where
  "leaves V st st' r \<longleftrightarrow> wf_in st' \<and> readable V st' = r \<and>
     vw_hidden V st' = vw_hidden V st \<and> vw_limited V st' = vw_limited V st"

definition first_byte :: "'z CodedInputStream \<Rightarrow> 32 word" where
  "first_byte st = (if window st = [] then 0 else ucast (hd (window st)))"

definition view_frame :: "'z in_view \<Rightarrow> bool" where
  "view_frame V \<longleftrightarrow> (\<forall>st p t m. let st' = st\<lparr>ci_buffer := p, ci_last_tag := t, ci_legitimate_message_end := m\<rparr> in
     vw_tail V st' = vw_tail V st \<and> vw_hidden V st' = vw_hidden V st \<and> vw_limited V st' = vw_limited V st)"

definition varints_ok :: "'z in_view \<Rightarrow> 'z in_ops \<Rightarrow> bool" where
  "varints_ok V F \<longleftrightarrow> (\<forall>st. wf_in st \<longrightarrow>
     (case decode_varint kMaxVarintBytes (readable V st) of
        Some (n, r) \<Rightarrow>
          (\<exists>st'. io_ReadVarint32Fallback F (first_byte st) st = (int (n mod 2 ^ 32), st') \<and> leaves V st st' r) \<and>
          (\<exists>st'. io_ReadVarint64Fallback F st = ((of_nat n, True), st') \<and> leaves V st st' r) \<and>
          (\<exists>st'. io_ReadTagFallback F (first_byte st) st = (of_nat n, st') \<and> leaves V st st' r)
      | None \<Rightarrow> fst (io_ReadVarint32Fallback F (first_byte st) st) < 0 \<and>
          \<not> snd (fst (io_ReadVarint64Fallback F st)) \<and>
          fst (io_ReadTagFallback F (first_byte st) st) = 0))"

definition fixed_ok :: "'z in_view \<Rightarrow> 'z in_ops \<Rightarrow> bool" where
  "fixed_ok V F \<longleftrightarrow> (\<forall>st. wf_in st \<longrightarrow>
     (if 4 \<le> length (readable V st)
      then \<exists>st'. io_ReadLittleEndian32Fallback F st = ((True, of_nat (from_le (take 4 (readable V st)))), st') \<and>
             leaves V st st' (drop 4 (readable V st))
      else \<not> fst (fst (io_ReadLittleEndian32Fallback F st))) \<and>
     (if 8 \<le> length (readable V st)
      then \<exists>st'. io_ReadLittleEndian64Fallback F st = ((True, of_nat (from_le (take 8 (readable V st)))), st') \<and>
             leaves V st st' (drop 8 (readable V st))
      else \<not> fst (fst (io_ReadLittleEndian64Fallback F st))))"

text \<open>Limits: pushing one hides what lies behind it, popping it brings that back.\<close>

definition limits_ok :: "'z in_view \<Rightarrow> 'z in_ops \<Rightarrow> bool" where
  "limits_ok V F \<longleftrightarrow> (\<forall>st. wf_in st \<longrightarrow>
     (\<forall>n \<le> length (readable V st). \<exists>lim st'. io_PushLimit F (int n) st = (lim, st') \<and> wf_in st' \<and>
        readable V st' = take n (readable V st) \<and> vw_hidden V st' lim = drop n (readable V st) \<and>
        vw_limited V st') \<and>
     (\<forall>lim. wf_in (io_PopLimit F lim st) \<and>
        readable V (io_PopLimit F lim st) = readable V st @ vw_hidden V st lim) \<and>
     (vw_limited V st \<longrightarrow> io_BytesUntilLimit F st = int (length (readable V st))))"

definition raw_ok :: "'z in_view \<Rightarrow> 'z in_ops \<Rightarrow> bool" where
  "raw_ok V F \<longleftrightarrow> (\<forall>st. wf_in st \<longrightarrow>
     (\<forall>n \<le> length (readable V st).
        (\<exists>st'. io_Skip F (int n) st = (True, st') \<and> leaves V st st' (drop n (readable V st))) \<and>
        (\<exists>st'. io_ReadRaw F (int n) st = ((True, take n (readable V st)), st') \<and>
           leaves V st st' (drop n (readable V st)))))"

definition in_ok :: "'z in_view \<Rightarrow> 'z in_ops \<Rightarrow> bool" where
  "in_ok V F \<longleftrightarrow> view_frame V \<and> varints_ok V F \<and> fixed_ok V F \<and> limits_ok V F \<and> raw_ok V F"

lemma in_okD:
  assumes "in_ok V F"
  shows "view_frame V" and "varints_ok V F" and "fixed_ok V F" and "limits_ok V F" and "raw_ok V F"
  using assms by (simp_all add: in_ok_def)

lemma view_frameD:
  assumes "view_frame V"
  shows "vw_tail V (st\<lparr>ci_buffer := p\<rparr>) = vw_tail V st" "vw_hidden V (st\<lparr>ci_buffer := p\<rparr>) = vw_hidden V st"
    "vw_limited V (st\<lparr>ci_buffer := p\<rparr>) = vw_limited V st"
    "vw_tail V (st\<lparr>ci_last_tag := t\<rparr>) = vw_tail V st" "vw_hidden V (st\<lparr>ci_last_tag := t\<rparr>) = vw_hidden V st"
    "vw_limited V (st\<lparr>ci_last_tag := t\<rparr>) = vw_limited V st"
proof -
  have fr: "vw_tail V (st\<lparr>ci_buffer := p, ci_last_tag := t, ci_legitimate_message_end := m\<rparr>) = vw_tail V st \<and>
      vw_hidden V (st\<lparr>ci_buffer := p, ci_last_tag := t, ci_legitimate_message_end := m\<rparr>) = vw_hidden V st \<and>
      vw_limited V (st\<lparr>ci_buffer := p, ci_last_tag := t, ci_legitimate_message_end := m\<rparr>) = vw_limited V st"
    for p t m
    using assms unfolding view_frame_def Let_def by blast
  show "vw_tail V (st\<lparr>ci_buffer := p\<rparr>) = vw_tail V st" "vw_hidden V (st\<lparr>ci_buffer := p\<rparr>) = vw_hidden V st"
    "vw_limited V (st\<lparr>ci_buffer := p\<rparr>) = vw_limited V st"
    using fr[where p = p and t = "ci_last_tag st" and m = "ci_legitimate_message_end st"] by simp_all
  show "vw_tail V (st\<lparr>ci_last_tag := t\<rparr>) = vw_tail V st" "vw_hidden V (st\<lparr>ci_last_tag := t\<rparr>) = vw_hidden V st"
    "vw_limited V (st\<lparr>ci_last_tag := t\<rparr>) = vw_limited V st"
    using fr[where p = "ci_buffer st" and t = t and m = "ci_legitimate_message_end st"] by simp_all
qed

section \<open>The current buffer and what can be read\<close>

lemma length_window: "wf_in st \<Longrightarrow> int (length (window st)) = BufferSize st"
  by (auto simp: wf_in_def window_def BufferSize_def min_def)

lemma window_empty: "wf_in st \<Longrightarrow> window st = [] \<longleftrightarrow> \<not> ci_buffer st < ci_buffer_end st"
  using length_window[of st] unfolding BufferSize_def
  by (metis diff_gt_0_iff_gt length_greater_0_conv of_nat_0_less_iff)

lemma read_window:
  assumes "wf_in st" and "i < length (window st)"
  shows "read_at (ci_memory st) (ci_buffer st + int i) = Inr (window st ! i)"
proof -
  have len: "int i < ci_buffer_end st - ci_buffer st"
    using assms length_window[OF assms(1)] by (simp add: BufferSize_def)
  then have "nat (ci_buffer st + int i) = nat (ci_buffer st) + i"
    using assms(1) by (simp add: wf_in_def nat_add_distrib)
  moreover have "nat (ci_buffer st) + i < length (ci_memory st)" "i < nat (ci_buffer_end st - ci_buffer st)"
    using assms(1) len by (auto simp: wf_in_def)
  ultimately show ?thesis using assms(1) len
    by (simp add: read_at_def window_def BufferSize_def wf_in_def nth_drop)
qed

lemma byte_window: "wf_in st \<Longrightarrow> i < length (window st) \<Longrightarrow> byte_at (int i) st = Inr (window st ! i)"
  unfolding byte_at_def by (rule read_window)

lemma advance_leaves:
  assumes "view_frame V" and "wf_in st" and "k \<le> length (window st)"
  shows "leaves V st (ci_Advance (int k) st) (drop k (readable V st))"
    and "leaves V st (ci_Advance (int k) (st\<lparr>ci_last_tag := t\<rparr>)) (drop k (readable V st))"
proof -
  have k: "int k \<le> BufferSize st" using assms(3) length_window[OF assms(2)] by simp
  have "nat (ci_buffer_end st - (ci_buffer st + int k)) = nat (ci_buffer_end st - ci_buffer st) - k"
    and "nat (ci_buffer st + int k) = k + nat (ci_buffer st)"
    using assms(2) unfolding wf_in_def by arith+
  then have w: "window (ci_Advance (int k) st) = drop k (window st)"
    by (simp add: window_def ci_Advance_def BufferSize_def drop_take)
  have t: "window (ci_Advance (int k) (st\<lparr>ci_last_tag := t\<rparr>)) = window (ci_Advance (int k) st)"
    by (simp add: window_def ci_Advance_def BufferSize_def)
  have wf: "wf_in (ci_Advance (int k) st)" "wf_in (ci_Advance (int k) (st\<lparr>ci_last_tag := t\<rparr>))"
    using assms(2) k by (simp_all add: wf_in_def ci_Advance_def BufferSize_def)
  note fr = view_frameD[OF assms(1)]
  show "leaves V st (ci_Advance (int k) st) (drop k (readable V st))"
    using wf w assms(3) by (simp add: leaves_def readable_def) (simp add: ci_Advance_def fr)
  show "leaves V st (ci_Advance (int k) (st\<lparr>ci_last_tag := t\<rparr>)) (drop k (readable V st))"
    using wf w t assms(3) by (simp add: leaves_def readable_def) (simp add: ci_Advance_def fr)
qed

lemma leaves_last_tag: "view_frame V \<Longrightarrow> leaves V st st' r \<Longrightarrow> leaves V st (st'\<lparr>ci_last_tag := t\<rparr>) r"
  by (simp add: leaves_def readable_def wf_in_def window_def BufferSize_def view_frameD)

lemma leaves_message_end:
  assumes "view_frame V" and "leaves V st st' r"
  shows "leaves V st (st'\<lparr>ci_legitimate_message_end := m\<rparr>) r"
proof -
  let ?st = "st'\<lparr>ci_buffer := ci_buffer st', ci_last_tag := ci_last_tag st', ci_legitimate_message_end := m\<rparr>"
  have "vw_tail V ?st = vw_tail V st' \<and> vw_hidden V ?st = vw_hidden V st' \<and> vw_limited V ?st = vw_limited V st'"
    using assms(1) unfolding view_frame_def Let_def by blast
  then show ?thesis using assms(2) by (simp add: leaves_def readable_def wf_in_def window_def BufferSize_def)
qed

lemma leaves_trans: "leaves V st st1 r1 \<Longrightarrow> leaves V st1 st2 r2 \<Longrightarrow> leaves V st st2 r2"
  by (simp add: leaves_def)

lemma readable_window:
  "window st = b # w \<Longrightarrow> readable V st = b # w @ vw_tail V st"
  by (simp add: readable_def)

section \<open>Reading varints and tags\<close>

lemma decode_short: "unat b < 128 \<Longrightarrow> decode_varint kMaxVarintBytes (b # bs) = Some (unat b, bs)"
  by (simp add: kMaxVarintBytes_def numeral_eq_Suc)

lemma decode_two: "\<not> unat b0 < 128 \<Longrightarrow> unat b1 < 128 \<Longrightarrow>
  decode_varint kMaxVarintBytes (b0 # b1 # bs) = Some (unat b0 - 128 + 128 * unat b1, bs)"
  by (simp add: kMaxVarintBytes_def numeral_eq_Suc)

lemma small_byte: "(ucast (b :: 8 word) :: 32 word) < 0x80 \<longleftrightarrow> unat b < 128" "b < 0x80 \<longleftrightarrow> unat b < 128"
proof -
  have "unat b < 2 ^ LENGTH(8)" by (rule unsigned_less)
  then have "unat (ucast b :: 32 word) = unat b"
    by (simp add: unsigned_ucast_eq take_bit_nat_eq_self_iff)
  then show "(ucast (b :: 8 word) :: 32 word) < 0x80 \<longleftrightarrow> unat b < 128" by (simp add: word_less_nat_alt)
  show "b < 0x80 \<longleftrightarrow> unat b < 128" by (simp add: word_less_nat_alt)
qed

text \<open>The first byte of the buffer decides between the fast path and the library.\<close>

lemma window_cases:
  assumes "wf_in st"
  obtains "\<not> ci_buffer st < ci_buffer_end st" and "first_byte st = 0"
  | b w where "ci_buffer st < ci_buffer_end st" and "window st = b # w" and "byte_at 0 st = Inr b"
      and "first_byte st = ucast b" and "\<And>V. readable V st = b # w @ vw_tail V st"
proof (cases "window st")
  case Nil
  then show ?thesis using that(1) window_empty[OF assms] by (simp add: first_byte_def)
next
  case (Cons b w)
  have "byte_at 0 st = Inr b" using byte_window[OF assms, of 0] Cons by simp
  then show ?thesis using that(2)[of b w] window_empty[OF assms] Cons readable_window[OF Cons]
    by (simp add: first_byte_def)
qed

lemma advance_one:
  assumes "view_frame V" and "wf_in st" and "window st = b # w"
  shows "leaves V st (ci_Advance 1 st) (w @ vw_tail V st)"
    and "leaves V st (ci_Advance 1 (st\<lparr>ci_last_tag := t\<rparr>)) (w @ vw_tail V st)"
  using advance_leaves[OF assms(1,2), of 1] assms(3) by (simp_all add: readable_def)

lemma varints_okD:
  assumes "varints_ok V F" and "wf_in st"
  shows "decode_varint kMaxVarintBytes (readable V st) = Some (n, r) \<Longrightarrow>
      \<exists>st'. io_ReadVarint32Fallback F (first_byte st) st = (int (n mod 2 ^ 32), st') \<and> leaves V st st' r"
    and "decode_varint kMaxVarintBytes (readable V st) = Some (n, r) \<Longrightarrow>
      \<exists>st'. io_ReadVarint64Fallback F st = ((of_nat n, True), st') \<and> leaves V st st' r"
    and "decode_varint kMaxVarintBytes (readable V st) = Some (n, r) \<Longrightarrow>
      \<exists>st'. io_ReadTagFallback F (first_byte st) st = (of_nat n, st') \<and> leaves V st st' r"
    and "decode_varint kMaxVarintBytes (readable V st) = None \<Longrightarrow>
      fst (io_ReadVarint32Fallback F (first_byte st) st) < 0 \<and>
      \<not> snd (fst (io_ReadVarint64Fallback F st)) \<and> fst (io_ReadTagFallback F (first_byte st) st) = 0"
  using assms(1)[unfolded varints_ok_def, rule_format, OF assms(2)] by auto

text \<open>What a read of a varint must do with the bytes \<open>bs\<close>.\<close>

definition reads_varint ::
    "'z in_view \<Rightarrow> 'z CodedInputStream \<Rightarrow> ((bool \<times> 'a::len word) \<times> 'z CodedInputStream) run \<Rightarrow> bool" where
  "reads_varint V st m \<longleftrightarrow>
    (case decode_varint kMaxVarintBytes (readable V st) of
       Some (n, r) \<Rightarrow> \<exists>st'. m = Inr ((True, of_nat n), st') \<and> leaves V st st' r
     | None \<Rightarrow> \<exists>v st'. m = Inr ((False, v), st'))"

lemma of_int_mod32: "word_of_int (int (n mod 2 ^ 32)) = (of_nat n :: 32 word)"
proof -
  have "(of_nat (n mod 2 ^ 32) :: 32 word) = of_nat n" unfolding word_of_nat_eq_iff by (simp add: take_bit_eq_mod)
  then show ?thesis by (simp only: of_int_of_nat_eq)
qed

lemma fallback32_decodes:
  assumes "varints_ok V F" and "wf_in st"
  shows "reads_varint V st (case io_ReadVarint32Fallback F (first_byte st) st of (result, st') \<Rightarrow>
    Inr ((result \<ge> 0, word_of_int result :: 32 word), st'))"
proof (cases "decode_varint kMaxVarintBytes (readable V st)")
  case None
  then show ?thesis using varints_okD(4)[OF assms None]
    by (auto simp: reads_varint_def split: prod.splits)
next
  case (Some nr)
  obtain n r where nr: "nr = (n, r)" by (cases nr)
  obtain st' where "io_ReadVarint32Fallback F (first_byte st) st = (int (n mod 2 ^ 32), st')" "leaves V st st' r"
    using varints_okD(1)[OF assms Some[unfolded nr]] by blast
  then show ?thesis unfolding reads_varint_def Some nr option.case prod.case
    using of_int_mod32[of n] by simp
qed

lemma ReadVarint32_decodes:
  assumes "in_ok V F" and "wf_in st"
  shows "reads_varint V st (ReadVarint32 F st)"
  using assms(2)
proof (cases rule: window_cases)
  case 1
  then show ?thesis using fallback32_decodes[OF in_okD(2)[OF assms(1)] assms(2)]
    by (simp add: ReadVarint32_def)
next
  case (2 b w)
  show ?thesis
  proof (cases "unat b < 128")
    case True
    then show ?thesis using 2 advance_one(1)[OF in_okD(1)[OF assms(1)] assms(2) 2(2)]
      by (simp add: ReadVarint32_def reads_varint_def decode_short small_byte)
  next
    case False
    then show ?thesis using 2 fallback32_decodes[OF in_okD(2)[OF assms(1)] assms(2)]
      by (simp add: ReadVarint32_def small_byte)
  qed
qed

lemma fallback64_decodes:
  assumes "varints_ok V F" and "wf_in st"
  shows "reads_varint V st (case io_ReadVarint64Fallback F st of ((value, ok), st') \<Rightarrow> Inr ((ok, value), st'))"
proof (cases "decode_varint kMaxVarintBytes (readable V st)")
  case None
  then show ?thesis using varints_okD(4)[OF assms None]
    by (auto simp: reads_varint_def split: prod.splits)
next
  case (Some nr)
  then show ?thesis using varints_okD(2)[OF assms, of "fst nr" "snd nr"]
    by (auto simp: reads_varint_def split: prod.splits)
qed

lemma ReadVarint64_decodes:
  assumes "in_ok V F" and "wf_in st"
  shows "reads_varint V st (ReadVarint64 F st)"
  using assms(2)
proof (cases rule: window_cases)
  case 1
  then show ?thesis using fallback64_decodes[OF in_okD(2)[OF assms(1)] assms(2)]
    by (simp add: ReadVarint64_def)
next
  case (2 b w)
  show ?thesis
  proof (cases "unat b < 128")
    case True
    then show ?thesis using 2 advance_one(1)[OF in_okD(1)[OF assms(1)] assms(2) 2(2)]
      by (simp add: ReadVarint64_def reads_varint_def decode_short small_byte)
  next
    case False
    then show ?thesis using 2 fallback64_decodes[OF in_okD(2)[OF assms(1)] assms(2)]
      by (simp add: ReadVarint64_def small_byte)
  qed
qed

text \<open>A tag, or zero when there is none; it is remembered for \<open>LastTagWas\<close>.\<close>

definition reads_tag ::
    "'z in_view \<Rightarrow> 'z CodedInputStream \<Rightarrow> 32 word \<Rightarrow> 'z CodedInputStream \<Rightarrow> bool" where
  "reads_tag V st tag st' \<longleftrightarrow> LastTagWas tag st' \<and>
    (case decode_varint kMaxVarintBytes (readable V st) of
       Some (n, r) \<Rightarrow> tag = of_nat n \<and> leaves V st st' r
     | None \<Rightarrow> tag = 0)"

lemma tag_fallback_reads:
  assumes "in_ok V F" and "wf_in st" and "io_ReadTagFallback F (first_byte st) st = (tag, st')"
  shows "reads_tag V st tag (st'\<lparr>ci_last_tag := tag\<rparr>)"
proof (cases "decode_varint kMaxVarintBytes (readable V st)")
  case None
  then show ?thesis using varints_okD(4)[OF in_okD(2)[OF assms(1)] assms(2) None] assms(3)
    by (simp add: reads_tag_def LastTagWas_def)
next
  case (Some nr)
  then show ?thesis
    using varints_okD(3)[OF in_okD(2)[OF assms(1)] assms(2), of "fst nr" "snd nr"] assms(3)
      leaves_last_tag[OF in_okD(1)[OF assms(1)]]
    by (auto simp: reads_tag_def LastTagWas_def split: prod.splits)
qed

lemma ReadTag_reads:
  assumes "in_ok V F" and "wf_in st"
  shows "\<exists>tag st'. ReadTag F st = Inr (tag, st') \<and> reads_tag V st tag st'"
  using assms(2)
proof (cases rule: window_cases)
  case 1
  then show ?thesis using tag_fallback_reads[OF assms] by (auto simp: ReadTag_def split: prod.splits)
next
  case (2 b w)
  show ?thesis
  proof (cases "unat b < 128")
    case True
    then show ?thesis using 2 advance_one(2)[OF in_okD(1)[OF assms(1)] assms(2) 2(2)]
      by (simp add: ReadTag_def reads_tag_def LastTagWas_def decode_short small_byte) (simp add: ci_Advance_def Let_def)
  next
    case False
    then show ?thesis using 2 tag_fallback_reads[OF assms]
      by (auto simp: ReadTag_def small_byte split: prod.splits)
  qed
qed

section \<open>Tags with a cutoff\<close>

lemma unat_byte_less: "unat (b :: 8 word) < 256"
proof -
  have "unat b < 2 ^ LENGTH(8)" by (rule unsigned_less)
  then show ?thesis by simp
qed

lemma sint_byte_pos: "0 < sint (b :: 8 word) \<longleftrightarrow> 0 < unat b \<and> unat b < 128"
proof -
  have s: "sint b = (uint b + 128) mod 256 - 128"
    by (simp add: sint_uint signed_take_bit_eq_take_bit_shift take_bit_eq_mod)
  have r: "0 \<le> uint b" "uint b < 256" using unat_byte_less[of b] by (simp_all add: unat_eq_nat_uint del: nat_uint_eq)
  show ?thesis
  proof (cases "uint b < 128")
    case True
    then have "sint b = uint b" using s r by (simp add: mod_pos_pos_trivial)
    then show ?thesis using True r by (simp add: unat_eq_nat_uint del: nat_uint_eq) linarith
  next
    case False
    then have "(uint b + 128) mod 256 = uint b - 128"
      using r minus_mod_self2[of "uint b + 128" 256] by (simp add: mod_pos_pos_trivial)
    then show ?thesis using s False r by (simp add: unat_eq_nat_uint del: nat_uint_eq)
  qed
qed

lemma bit_byte7: "0x80 \<le> (x :: 8 word) \<longleftrightarrow> bit x 7"
proof -
  have "bit (unat x) 7 = bit x 7" by (simp add: bit_unsigned_iff)
  then have "bit x 7 \<longleftrightarrow> odd (unat x div 128)" by (simp add: bit_iff_odd)
  moreover have "unat x div 128 = (if 128 \<le> unat x then 1 else 0)"
    using unat_byte_less[of x] by (simp add: div_nat_eqI)
  ultimately show ?thesis by (simp add: word_le_nat_alt)
qed

lemma two_byte_test: "0x80 \<le> (b0 AND NOT b1 :: 8 word) \<longleftrightarrow> 128 \<le> unat b0 \<and> unat b1 < 128"
proof -
  have "0x80 \<le> b \<longleftrightarrow> 128 \<le> unat b" for b :: "8 word" by (simp add: word_le_nat_alt)
  then have "bit b 7 \<longleftrightarrow> 128 \<le> unat b" for b :: "8 word" by (simp only: bit_byte7)
  moreover have "bit (b0 AND NOT b1) 7 \<longleftrightarrow> bit b0 7 \<and> \<not> bit b1 7" by (simp add: bit_and_iff bit_not_iff)
  ultimately show ?thesis by (simp only: bit_byte7 not_le)
qed

lemma tag_below_cutoff: "tag \<noteq> 0 \<Longrightarrow> (tag - 1 < cutoff) = (tag \<le> cutoff)" for tag :: "32 word"
proof -
  assume "tag \<noteq> 0"
  then have pos: "unat tag \<noteq> 0" by (simp add: unat_eq_zero)
  then have "1 \<le> tag" by (simp add: word_le_nat_alt)
  then have "unat (tag - 1) = unat tag - 1" by (simp add: unat_sub)
  then show ?thesis using pos by (simp add: word_less_nat_alt word_le_nat_alt less_eq_Suc_le)
qed

text \<open>What the pair of \<open>ReadTagWithCutoff\<close> promises.\<close>

definition cutoff_answer :: "32 word \<Rightarrow> 32 word \<Rightarrow> bool \<Rightarrow> bool" where
  "cutoff_answer cutoff tag ok \<longleftrightarrow> (ok \<longrightarrow> tag \<le> cutoff) \<and> (tag \<noteq> 0 \<longrightarrow> ok = (tag \<le> cutoff))"

lemma tag_slow_path_reads:
  assumes "in_ok V F" and "wf_in st"
  shows "\<exists>tag ok st'. tag_slow_path F (first_byte st) cutoff st = Inr ((tag, ok), st') \<and>
    reads_tag V st tag st' \<and> cutoff_answer cutoff tag ok"
proof -
  obtain tag st' where fb: "io_ReadTagFallback F (first_byte st) st = (tag, st')" by fastforce
  have "\<not> (0 - 1 :: 32 word) < cutoff" by (simp add: not_less)
  then have "cutoff_answer cutoff tag (tag - 1 < cutoff)"
    by (cases "tag = 0") (simp_all add: cutoff_answer_def tag_below_cutoff)
  then show ?thesis using tag_fallback_reads[OF assms fb] fb by (simp add: tag_slow_path_def)
qed

lemma unat_ucast_byte: "unat (ucast (b :: 8 word) :: 32 word) = unat b"
  using unat_byte_less[of b] by (simp add: unsigned_ucast_eq take_bit_nat_eq_self_iff)

lemma two_byte_tag:
  assumes "128 \<le> unat (b0 :: 8 word)" and "unat (b1 :: 8 word) < 128"
  shows "push_bit 7 1 * ucast b1 + (ucast b0 - 0x80) = (of_nat (unat b0 - 128 + 128 * unat b1) :: 32 word)"
    and "(of_nat (unat b0 - 128 + 128 * unat b1) :: 32 word) \<le> kMax2ByteVarint"
proof -
  show "push_bit 7 1 * ucast b1 + (ucast b0 - 0x80) = (of_nat (unat b0 - 128 + 128 * unat b1) :: 32 word)"
    using assms(1) by (simp add: of_nat_diff)
  have small: "unat b0 - 128 + 128 * unat b1 \<le> 16383" using assms unat_byte_less[of b0] by simp
  then have "unat (of_nat (unat b0 - 128 + 128 * unat b1) :: 32 word) = unat b0 - 128 + 128 * unat b1"
    by (simp add: unat_of_nat take_bit_nat_eq_self_iff del: of_nat_add of_nat_mult)
  then show "(of_nat (unat b0 - 128 + 128 * unat b1) :: 32 word) \<le> kMax2ByteVarint"
    using small by (simp add: word_le_nat_alt kMax2ByteVarint_def del: of_nat_add of_nat_mult)
qed

lemma ReadTagWithCutoff_reads:
  assumes "in_ok V F" and "wf_in st"
  shows "\<exists>tag ok st'. ReadTagWithCutoff F cutoff st = Inr ((tag, ok), st') \<and>
    reads_tag V st tag st' \<and> cutoff_answer cutoff tag ok"
  using assms(2)
proof (cases rule: window_cases)
  case 1
  then show ?thesis using tag_slow_path_reads[OF assms, of cutoff] by (simp add: ReadTagWithCutoff_def)
next
  case (2 b0 w)
  note slow = tag_slow_path_reads[OF assms, of cutoff, unfolded 2(4)]
  show ?thesis
  proof (cases "0 < sint b0")
    case True
    then have short: "unat b0 < 128" by (simp add: sint_byte_pos)
    let ?st = "ci_Advance 1 (st\<lparr>ci_last_tag := ucast b0\<rparr>)"
    have tag: "reads_tag V st (ucast b0) ?st"
      using 2 short advance_one(2)[OF in_okD(1)[OF assms(1)] assms(2) 2(2), of "ucast b0"]
      by (simp add: reads_tag_def LastTagWas_def decode_short) (simp add: ci_Advance_def)
    have "(ucast b0 :: 32 word) \<le> kMax1ByteVarint"
      using short by (simp add: word_le_nat_alt kMax1ByteVarint_def unat_ucast_byte)
    then have "cutoff_answer cutoff (ucast b0) (cutoff \<ge> kMax1ByteVarint \<or> ucast b0 \<le> cutoff)"
      unfolding cutoff_answer_def using order_trans by blast
    then show ?thesis using 2 True tag by (simp add: ReadTagWithCutoff_def Let_def)
  next
    case False
    show ?thesis
    proof (cases "cutoff \<ge> 0x80 \<and> ci_buffer st + 1 < ci_buffer_end st")
      case no: False
      then show ?thesis using 2 False slow by (auto simp: ReadTagWithCutoff_def Let_def)
    next
      case two: True
      then have "1 < length (window st)" using length_window[OF assms(2)] by (simp add: BufferSize_def)
      then obtain b1 w' where w: "w = b1 # w'" using 2(2) by (cases w) simp_all
      have b1: "byte_at 1 st = Inr b1"
        using byte_window[OF assms(2), of 1] 2(2) w by simp
      show ?thesis
      proof (cases "(b0 AND NOT b1) \<ge> 0x80")
        case test: False
        then show ?thesis using 2 False two b1 slow by (simp add: ReadTagWithCutoff_def Let_def)
      next
        case test: True
        then have bytes: "128 \<le> unat b0" "unat b1 < 128" by (simp_all only: two_byte_test)
        define tag where "tag = push_bit 7 1 * ucast b1 + (ucast b0 - 0x80 :: 32 word)"
        note t = two_byte_tag[OF bytes, folded tag_def]
        have "leaves V st (ci_Advance 2 (st\<lparr>ci_last_tag := tag\<rparr>)) (drop 2 (readable V st))"
          using advance_leaves(2)[OF in_okD(1)[OF assms(1)] assms(2), of 2 tag] 2(2) w by simp
        moreover have "LastTagWas tag (ci_Advance 2 (st\<lparr>ci_last_tag := tag\<rparr>))"
          by (simp add: LastTagWas_def ci_Advance_def)
        moreover have "decode_varint kMaxVarintBytes (readable V st) =
            Some (unat b0 - 128 + 128 * unat b1, drop 2 (readable V st))"
          using decode_two[of b0 b1] bytes 2(5)[of V] w by simp
        ultimately have "reads_tag V st tag (ci_Advance 2 (st\<lparr>ci_last_tag := tag\<rparr>))"
          using t(1) by (simp only: reads_tag_def option.case prod.case simp_thms)
        moreover have "cutoff_answer cutoff tag (cutoff \<ge> kMax2ByteVarint \<or> tag \<le> cutoff)"
          unfolding cutoff_answer_def using t order_trans by metis
        moreover have "ReadTagWithCutoff F cutoff st =
            Inr ((tag, cutoff \<ge> kMax2ByteVarint \<or> tag \<le> cutoff), ci_Advance 2 (st\<lparr>ci_last_tag := tag\<rparr>))"
          using 2(1,3) False two b1 test by (simp add: ReadTagWithCutoff_def Let_def tag_def)
        ultimately show ?thesis by blast
      qed
    qed
  qed
qed

section \<open>Expecting a tag\<close>

lemma below_power: "e < 128 \<longleftrightarrow> unat e < 128" "e < 16384 \<longleftrightarrow> unat e < 16384" for e :: "32 word"
  by (simp_all add: word_less_nat_alt)

lemma tag_bytes:
  fixes e :: "32 word" and b :: "8 word"
  shows "ucast b = e \<longleftrightarrow> unat b = unat e"
    and "b = ucast (e OR 0x80) \<longleftrightarrow> unat b = unat e mod 128 + 128"
    and "unat e < 16384 \<Longrightarrow> b = ucast (drop_bit 7 e) \<longleftrightarrow> unat b = unat e div 128"
proof -
  show "ucast b = e \<longleftrightarrow> unat b = unat e" by (metis unat_ucast_byte word_unat_eq_iff)
  have "unat (of_nat (unat e mod 128 + 128) :: 8 word) = unat e mod 128 + 128"
    using mod_less_divisor[of 128 "unat e"] by (intro unat_byte) simp
  then show "b = ucast (e OR 0x80) \<longleftrightarrow> unat b = unat e mod 128 + 128"
    by (metis cont_byte word_unat_eq_iff)
  assume "unat e < 16384"
  then have "unat e div 128 < 128" by (simp add: less_mult_imp_div_less)
  then have "unat (ucast (drop_bit 7 e) :: 8 word) = unat e div 128"
    by (simp add: unsigned_ucast_eq take_bit_nat_eq_self_iff unat_drop_bit7)
  then show "b = ucast (drop_bit 7 e) \<longleftrightarrow> unat b = unat e div 128" by (metis word_unat_eq_iff)
qed

text \<open>A tag that is found is the one \<open>ReadTag\<close> would return, and it is consumed; one that is not
  found leaves the stream as it was. A tag below \<open>2 ^ 14\<close> that lies in the buffer is found.\<close>

definition expect_answer ::
    "'z in_view \<Rightarrow> 32 word \<Rightarrow> 'z CodedInputStream \<Rightarrow> bool \<Rightarrow> 'z CodedInputStream \<Rightarrow> bool" where
  "expect_answer V e st ok st' \<longleftrightarrow>
    (if ok then \<exists>r. decode_varint kMaxVarintBytes (readable V st) = Some (unat e, r) \<and> leaves V st st' r
     else st' = st \<and> \<not> (unat e < 2 ^ 14 \<and> (\<exists>w. window st = varint (unat e) @ w)))"

lemma ExpectTag_answers:
  assumes "view_frame V" and "wf_in st"
  shows "\<exists>ok st'. ExpectTag e st = Inr (ok, st') \<and> expect_answer V e st ok st'"
  using assms(2)
proof (cases rule: window_cases)
  case 1
  have "window st = []" using 1(1) window_empty[OF assms(2)] by simp
  moreover have "\<not> BufferSize st \<ge> 2" using 1(1) by (simp add: BufferSize_def)
  ultimately have "ExpectTag e st = Inr (False, st)" and "expect_answer V e st False st"
    using 1(1) by (simp_all add: ExpectTag_def expect_answer_def)
  then show ?thesis by blast
next
  case (2 b0 w)
  note adv = advance_leaves(1)[OF assms]
  consider (one) "unat e < 128" | (two) "128 \<le> unat e" "unat e < 16384" | (big) "16384 \<le> unat e" by linarith
  then show ?thesis
  proof cases
    case one
    have u: "unat (of_nat (unat e) :: 8 word) = unat e" using one by (intro unat_byte) simp
    have "b0 = of_nat (unat e) \<longleftrightarrow> unat b0 = unat e" by (subst word_unat_eq_iff) (simp only: u)
    then have miss: "unat b0 \<noteq> unat e \<Longrightarrow> \<not> (\<exists>v. window st = varint (unat e) @ v)"
      unfolding 2(2) varint_byte[OF one] by auto
    show ?thesis
    proof (cases "unat b0 = unat e")
      case True
      then have "ExpectTag e st = Inr (True, ci_Advance 1 st)" using one 2(1,3)
        by (simp add: ExpectTag_def below_power tag_bytes(1))
      moreover have "expect_answer V e st True (ci_Advance 1 st)"
        using adv[of 1] 2(2,5) one True decode_short[of b0 "w @ vw_tail V st"] by (simp add: expect_answer_def)
      ultimately show ?thesis by blast
    next
      case False
      then have "ExpectTag e st = Inr (False, st)" using one 2(1,3)
        by (simp add: ExpectTag_def below_power tag_bytes(1))
      moreover have "expect_answer V e st False st" using miss[OF False] by (simp add: expect_answer_def)
      ultimately show ?thesis by blast
    qed
  next
    case two
    have sz: "2 \<le> BufferSize st \<longleftrightarrow> w \<noteq> []" using length_window[OF assms(2)] 2(2) by (cases w) auto
    have v: "varint (unat e) = [of_nat (unat e mod 128 + 128), of_nat (unat e div 128)]"
      using varint_bytes2[OF two] .
    show ?thesis
    proof (cases w)
      case Nil
      then have "ExpectTag e st = Inr (False, st)" using two sz by (simp add: ExpectTag_def below_power)
      moreover have "expect_answer V e st False st" using Nil 2(2) v by (simp add: expect_answer_def)
      ultimately show ?thesis by blast
    next
      case (Cons b1 w')
      have b1: "byte_at 1 st = Inr b1" using byte_window[OF assms(2), of 1] 2(2) Cons by simp
      have lt: "unat e div 128 < 128" using two by (simp add: less_mult_imp_div_less)
      show ?thesis
      proof (cases "unat b0 = unat e mod 128 + 128 \<and> unat b1 = unat e div 128")
        case True
        have "unat b0 - 128 + 128 * unat b1 = unat e" using True by simp
        then have "decode_varint kMaxVarintBytes (readable V st) = Some (unat e, drop 2 (readable V st))"
          using decode_two[of b0 b1 "w' @ vw_tail V st"] 2(5)[of V] Cons True lt by simp
        then have "expect_answer V e st True (ci_Advance 2 st)"
          using adv[of 2] 2(2) Cons by (simp add: expect_answer_def)
        moreover have "ExpectTag e st = Inr (True, ci_Advance 2 st)"
          using two True 2(3) b1 sz Cons by (simp add: ExpectTag_def below_power tag_bytes(2,3))
        ultimately show ?thesis by blast
      next
        case False
        have "\<not> (\<exists>v. window st = varint (unat e) @ v)"
          using False 2(2) Cons lt mod_less_divisor[of 128 "unat e"]
          unfolding v by (auto simp del: of_nat_add)
        then have "expect_answer V e st False st" by (simp add: expect_answer_def)
        moreover have "ExpectTag e st = Inr (False, st)"
          using two False 2(3) b1 sz Cons by (auto simp: ExpectTag_def below_power tag_bytes(2,3))
        ultimately show ?thesis by blast
      qed
    qed
  next
    case big
    then have "ExpectTag e st = Inr (False, st)" and "expect_answer V e st False st"
      by (simp_all add: ExpectTag_def expect_answer_def below_power)
    then show ?thesis by blast
  qed
qed

section \<open>Reading fixed-width integers\<close>

lemma read_bytes_take:
  "0 \<le> p \<Longrightarrow> p + int k \<le> int (length mem) \<Longrightarrow> read_bytes mem p k = Inr (take k (drop (nat p) mem))"
proof (induction k arbitrary: p)
  case 0
  then show ?case by simp
next
  case (Suc k)
  then have "nat p < length mem" by linarith
  moreover have "nat (p + 1) = Suc (nat p)" using Suc.prems(1) by (simp add: nat_add_distrib)
  ultimately show ?case using Suc.IH[of "p + 1"] Suc.prems
    by (simp add: read_at_def take_Suc_conv_app_nth flip: Cons_nth_drop_Suc)
qed

lemma or_shift: "ucast (b :: 8 word) OR push_bit 8 (x :: 'a::len word) = ucast b + 256 * x"
proof -
  have "ucast b OR push_bit 8 x = ucast b + push_bit 8 x"
    by (rule disjunctive_add [symmetric]) (auto simp: bit_simps dest: bit_imp_le_length)
  then show ?thesis by (simp add: push_bit_eq_mult mult.commute)
qed

lemma shifted4_value: "shifted4 b0 b1 b2 b3 = of_nat (from_le [b0, b1, b2, b3])"
proof -
  have "shifted4 b0 b1 b2 b3 =
      ucast b0 OR push_bit 8 (ucast b1 OR push_bit 8 (ucast b2 OR push_bit 8 (ucast b3 OR push_bit 8 0)))"
    by (simp add: shifted4_def push_bit_or or.assoc)
  then show ?thesis unfolding or_shift by simp
qed

lemma shifted8_value:
  "ucast (shifted4 b0 b1 b2 b3) OR push_bit 32 (ucast (shifted4 b4 b5 b6 b7)) =
   (of_nat (from_le [b0, b1, b2, b3, b4, b5, b6, b7]) :: 64 word)"
proof -
  have up: "ucast (ucast b :: 32 word) = (ucast b :: 64 word)" for b :: "8 word"
    by (rule bit_word_eqI) (auto simp: bit_simps dest: bit_imp_le_length)
  have shift: "ucast (push_bit n (ucast b :: 32 word)) = (push_bit n (ucast b) :: 64 word)"
    if "n \<le> 24" for n and b :: "8 word"
    using that by (intro bit_word_eqI) (auto simp: bit_simps dest: bit_imp_le_length)
  have "ucast (shifted4 a0 a1 a2 a3) = (ucast a0 OR push_bit 8 (ucast a1) OR push_bit 16 (ucast a2) OR
      push_bit 24 (ucast a3) :: 64 word)" for a0 a1 a2 a3
    by (simp add: shifted4_def unsigned_or_eq up shift)
  then have "ucast (shifted4 b0 b1 b2 b3) OR push_bit 32 (ucast (shifted4 b4 b5 b6 b7)) =
      (ucast b0 OR push_bit 8 (ucast b1 OR push_bit 8 (ucast b2 OR push_bit 8 (ucast b3 OR push_bit 8
      (ucast b4 OR push_bit 8 (ucast b5 OR push_bit 8 (ucast b6 OR push_bit 8 (ucast b7 OR push_bit 8 0))))))) :: 64 word)"
    by (simp add: push_bit_or or.assoc)
  then show ?thesis unfolding or_shift by simp
qed

text \<open>Both branches of the \<open>#if\<close> read the same number.\<close>

lemma ReadLittleEndian32FromArray_value:
  assumes "0 \<le> p" and "p + 4 \<le> int (length mem)"
  shows "ReadLittleEndian32FromArray little mem p = Inr (of_nat (from_le (take 4 (drop (nat p) mem))), p + 4)"
proof -
  have bs: "read_bytes mem p 4 = Inr (take 4 (drop (nat p) mem))"
    using read_bytes_take[of p 4 mem] assms by simp
  show ?thesis
  proof (cases little)
    case True
    then show ?thesis using bs by (simp add: ReadLittleEndian32FromArray_def from_object_def)
  next
    case False
    obtain b0 b1 b2 b3 where r: "read_at mem p = Inr b0" "read_at mem (p + 1) = Inr b1"
        "read_at mem (p + 2) = Inr b2" "read_at mem (p + 3) = Inr b3"
      using assms by (simp add: read_at_def)
    then have "take 4 (drop (nat p) mem) = [b0, b1, b2, b3]"
      using bs by (simp add: numeral_eq_Suc add.commute add.left_commute)
    then show ?thesis using False r by (simp add: ReadLittleEndian32FromArray_def shifted4_value del: from_le.simps)
  qed
qed

lemma ReadLittleEndian64FromArray_value:
  assumes "0 \<le> p" and "p + 8 \<le> int (length mem)"
  shows "ReadLittleEndian64FromArray little mem p = Inr (of_nat (from_le (take 8 (drop (nat p) mem))), p + 8)"
proof -
  have bs: "read_bytes mem p 8 = Inr (take 8 (drop (nat p) mem))"
    using read_bytes_take[of p 8 mem] assms by simp
  show ?thesis
  proof (cases little)
    case True
    then show ?thesis using bs by (simp add: ReadLittleEndian64FromArray_def from_object_def)
  next
    case False
    obtain b0 b1 b2 b3 where r: "read_at mem p = Inr b0" "read_at mem (p + 1) = Inr b1"
        "read_at mem (p + 2) = Inr b2" "read_at mem (p + 3) = Inr b3"
      using assms by (simp add: read_at_def)
    obtain b4 b5 b6 b7 where r': "read_at mem (p + 4) = Inr b4" "read_at mem (p + 5) = Inr b5"
        "read_at mem (p + 6) = Inr b6" "read_at mem (p + 7) = Inr b7"
      using assms by (simp add: read_at_def)
    from r r' have "take 8 (drop (nat p) mem) = [b0, b1, b2, b3, b4, b5, b6, b7]"
      using bs by (simp add: numeral_eq_Suc add.commute add.left_commute)
    then show ?thesis using False r r'
      by (simp add: ReadLittleEndian64FromArray_def Let_def shifted8_value del: from_le.simps)
  qed
qed

text \<open>What a fixed-width read of \<open>k\<close> bytes must do.\<close>

definition reads_fixed ::
    "nat \<Rightarrow> 'z in_view \<Rightarrow> 'z CodedInputStream \<Rightarrow> ((bool \<times> 'a::len word) \<times> 'z CodedInputStream) run \<Rightarrow> bool" where
  "reads_fixed k V st m \<longleftrightarrow>
    (if k \<le> length (readable V st)
     then \<exists>st'. m = Inr ((True, of_nat (from_le (take k (readable V st)))), st') \<and>
            leaves V st st' (drop k (readable V st))
     else \<exists>v st'. m = Inr ((False, v), st'))"

lemma fixed_direct:
  assumes "view_frame V" and "wf_in st" and "int k \<le> BufferSize st"
  shows "read_bytes (ci_memory st) (ci_buffer st) k = Inr (take k (readable V st))"
    and "k \<le> length (readable V st)" and "leaves V st (ci_Advance (int k) st) (drop k (readable V st))"
proof -
  have k: "k \<le> length (window st)" using assms(3) length_window[OF assms(2)] by simp
  have "take k (drop (nat (ci_buffer st)) (ci_memory st)) = take k (window st)"
    using assms(3) unfolding window_def take_take by (simp add: min_absorb1 nat_le_iff le_nat_iff)
  moreover have "ci_buffer st + int k \<le> int (length (ci_memory st))" "0 \<le> ci_buffer st"
    using assms(2,3) by (simp_all add: wf_in_def BufferSize_def)
  ultimately show "read_bytes (ci_memory st) (ci_buffer st) k = Inr (take k (readable V st))"
    using k read_bytes_take by (simp add: readable_def)
  show "k \<le> length (readable V st)" using k by (simp add: readable_def)
  show "leaves V st (ci_Advance (int k) st) (drop k (readable V st))" using advance_leaves(1)[OF assms(1,2) k] .
qed

lemma ReadLittleEndian32_reads:
  assumes "in_ok V F" and "wf_in st"
  shows "reads_fixed 4 V st (ReadLittleEndian32 little F st)"
proof (cases "little \<and> BufferSize st \<ge> 4")
  case True
  then show ?thesis using fixed_direct[OF in_okD(1)[OF assms(1)] assms(2), of 4]
    by (simp add: reads_fixed_def ReadLittleEndian32_def from_object_def)
next
  case False
  obtain ok v st' where e: "io_ReadLittleEndian32Fallback F st = ((ok, v), st')" by (metis surj_pair)
  from False show ?thesis using in_okD(3)[OF assms(1), unfolded fixed_ok_def, rule_format, OF assms(2)] e
    by (auto simp: reads_fixed_def ReadLittleEndian32_def split: if_splits)
qed

lemma ReadLittleEndian64_reads:
  assumes "in_ok V F" and "wf_in st"
  shows "reads_fixed 8 V st (ReadLittleEndian64 little F st)"
proof (cases "little \<and> BufferSize st \<ge> 8")
  case True
  then show ?thesis using fixed_direct[OF in_okD(1)[OF assms(1)] assms(2), of 8]
    by (simp add: reads_fixed_def ReadLittleEndian64_def from_object_def)
next
  case False
  obtain ok v st' where e: "io_ReadLittleEndian64Fallback F st = ((ok, v), st')" by (metis surj_pair)
  from False show ?thesis using in_okD(3)[OF assms(1), unfolded fixed_ok_def, rule_format, OF assms(2)] e
    by (auto simp: reads_fixed_def ReadLittleEndian64_def split: if_splits)
qed

section \<open>Recursion depth\<close>

lemma recursion_balanced:
  assumes "IncrementRecursionDepth st = (ok, st1)" and "ci_recursion_budget st \<le> ci_recursion_limit st"
  shows "DecrementRecursionDepth st1 = st" and "UnsafeDecrementRecursionDepth st1 = Inr st"
    and "ok \<longleftrightarrow> 0 < ci_recursion_budget st"
proof -
  have st1: "st1 = st\<lparr>ci_recursion_budget := ci_recursion_budget st - 1\<rparr>" and "ok \<longleftrightarrow> 0 < ci_recursion_budget st"
    using assms(1) by (auto simp: IncrementRecursionDepth_def Let_def)
  then show "ok \<longleftrightarrow> 0 < ci_recursion_budget st" by simp
  have "ci_recursion_budget st - 1 < ci_recursion_limit st" using assms(2) by simp
  then show "DecrementRecursionDepth st1 = st" "UnsafeDecrementRecursionDepth st1 = Inr st"
    by (simp_all add: st1 DecrementRecursionDepth_def UnsafeDecrementRecursionDepth_def check_def)
qed

lemma ExpectAtEnd_answers:
  "ExpectAtEnd st = (ok, st') \<Longrightarrow> ok \<Longrightarrow> LastTagWas 0 st' \<and> ConsumedEntireMessage st'"
  by (auto simp: ExpectAtEnd_def LastTagWas_def ConsumedEntireMessage_def split: if_splits)

end
