(* ===== verification/PbOutput.thy ===== *)
theory PbOutput
  imports PbBytes
begin

text \<open>
  \<open>CodedOutputStream\<close> of \<open>include/google/protobuf/io/coded_stream.h\<close>: the static routines that
  write at a \<open>uint8*\<close>, and the stream with its buffer. The functions that live in the library
  (\<open>coded_stream.cc\<close>, not in this repository) are the fields of \<open>out_ops\<close>; what the header
  documents of them is \<open>out_ok\<close>.
\<close>

section \<open>State\<close>

text \<open>\<open>co_memory\<close> is the current buffer from its start, \<open>co_buffer\<close> the position in it and
  \<open>co_buffer_size\<close> what is left of it.\<close>

record 'o CodedOutputStream =
  co_output :: 'o
  co_memory :: "8 word list"
  co_buffer :: int
  co_buffer_size :: int
  co_total_bytes :: int
  co_had_error :: bool
  co_aliasing_enabled :: bool

record 'o out_ops =
  oo_WriteVarint32SlowPath :: "32 word \<Rightarrow> 'o CodedOutputStream \<Rightarrow> 'o CodedOutputStream"
  oo_WriteVarint64 :: "64 word \<Rightarrow> 'o CodedOutputStream \<Rightarrow> 'o CodedOutputStream"
  oo_WriteLittleEndian32 :: "32 word \<Rightarrow> 'o CodedOutputStream \<Rightarrow> 'o CodedOutputStream"
  oo_WriteLittleEndian64 :: "64 word \<Rightarrow> 'o CodedOutputStream \<Rightarrow> 'o CodedOutputStream"
  oo_WriteRaw :: "8 word list \<Rightarrow> 'o CodedOutputStream \<Rightarrow> 'o CodedOutputStream"
  oo_WriteAliasedRaw :: "8 word list \<Rightarrow> 'o CodedOutputStream \<Rightarrow> 'o CodedOutputStream"
  oo_WriteVarint64ToArray :: "64 word \<Rightarrow> target \<Rightarrow> target run"
  oo_WriteRawToArray :: "8 word list \<Rightarrow> target \<Rightarrow> target run"
  oo_WriteStringWithSizeToArray :: "8 word list \<Rightarrow> target \<Rightarrow> target run"
  oo_VarintSize32Fallback :: "32 word \<Rightarrow> int"
  oo_VarintSize64 :: "64 word \<Rightarrow> int"

section \<open>Writing at a target\<close>

function WriteVarint32ToArray :: "32 word \<Rightarrow> target \<Rightarrow> target run" where
  "WriteVarint32ToArray value t =
    (if value \<ge> 0x80
     then bnd (write_byte (ucast (value OR 0x80)) t) (\<lambda>t'. WriteVarint32ToArray (drop_bit 7 value) t')
     else write_byte (ucast value) t)"
  by auto

termination
proof (relation "measure (\<lambda>(v, t). unat v)", simp, clarsimp)
  fix v :: "32 word"
  assume "0x80 \<le> v"
  then have "128 \<le> unat v" by (simp add: word_le_nat_alt)
  then show "unat (drop_bit 7 v) < unat v" by (simp add: unat_drop_bit7)
qed

declare WriteVarint32ToArray.simps [simp del]

definition WriteVarint32SignExtendedToArray :: "'o out_ops \<Rightarrow> 32 word \<Rightarrow> target \<Rightarrow> target run" where
  "WriteVarint32SignExtendedToArray F value t =
    (if sint value < 0 then oo_WriteVarint64ToArray F (scast value) t
     else WriteVarint32ToArray value t)"

text \<open>\<open>memcpy\<close> from an integer object: its representation on a little-endian machine. The other
  branch of the \<open>#if\<close> writes the bytes one by one; \<open>little\<close> says which one is compiled.\<close>

definition object_bytes :: "nat \<Rightarrow> 'a::len word \<Rightarrow> 8 word list" where
  "object_bytes k w = map (\<lambda>i. ucast (drop_bit (8 * i) w)) [0..<k]"

definition memcpy_to :: "8 word list \<Rightarrow> target \<Rightarrow> target run" where
  "memcpy_to bs t = for_each write_byte bs t"

definition WriteLittleEndian32ToArray :: "bool \<Rightarrow> 32 word \<Rightarrow> target \<Rightarrow> target run" where
  "WriteLittleEndian32ToArray little value t =
    (if little then memcpy_to (object_bytes 4 value) t
     else bnd (write_byte (ucast value) t) (\<lambda>t.
          bnd (write_byte (ucast (drop_bit 8 value)) t) (\<lambda>t.
          bnd (write_byte (ucast (drop_bit 16 value)) t) (\<lambda>t.
          write_byte (ucast (drop_bit 24 value)) t))))"

definition WriteLittleEndian64ToArray :: "bool \<Rightarrow> 64 word \<Rightarrow> target \<Rightarrow> target run" where
  "WriteLittleEndian64ToArray little value t =
    (if little then memcpy_to (object_bytes 8 value) t
     else let part0 = ucast value :: 32 word; part1 = ucast (drop_bit 32 value) :: 32 word in
          bnd (write_byte (ucast part0) t) (\<lambda>t.
          bnd (write_byte (ucast (drop_bit 8 part0)) t) (\<lambda>t.
          bnd (write_byte (ucast (drop_bit 16 part0)) t) (\<lambda>t.
          bnd (write_byte (ucast (drop_bit 24 part0)) t) (\<lambda>t.
          bnd (write_byte (ucast part1) t) (\<lambda>t.
          bnd (write_byte (ucast (drop_bit 8 part1)) t) (\<lambda>t.
          bnd (write_byte (ucast (drop_bit 16 part1)) t) (\<lambda>t.
          write_byte (ucast (drop_bit 24 part1)) t))))))))"

definition co_WriteTagToArray :: "32 word \<Rightarrow> target \<Rightarrow> target run" where
  "co_WriteTagToArray value t = WriteVarint32ToArray value t"

definition co_WriteStringToArray :: "'o out_ops \<Rightarrow> 8 word list \<Rightarrow> target \<Rightarrow> target run" where
  "co_WriteStringToArray F str t = oo_WriteRawToArray F str t"

section \<open>Sizes\<close>

definition VarintSize32 :: "'o out_ops \<Rightarrow> 32 word \<Rightarrow> int" where
  "VarintSize32 F value = (if value < 0x80 then 1 else oo_VarintSize32Fallback F value)"

definition VarintSize32SignExtended :: "'o out_ops \<Rightarrow> 32 word \<Rightarrow> int" where
  "VarintSize32SignExtended F value = (if sint value < 0 then 10 else VarintSize32 F value)"

definition StaticVarintSize32 :: "32 word \<Rightarrow> int" where
  "StaticVarintSize32 Value =
    (if Value < 2 ^ 7 then 1
     else if Value < 2 ^ 14 then 2
     else if Value < 2 ^ 21 then 3
     else if Value < 2 ^ 28 then 4
     else 5)"

section \<open>The stream\<close>

definition co_Advance :: "int \<Rightarrow> 'o CodedOutputStream \<Rightarrow> 'o CodedOutputStream" where
  "co_Advance amount st =
    st\<lparr>co_buffer := co_buffer st + amount, co_buffer_size := co_buffer_size st - amount\<rparr>"

definition GetDirectBufferForNBytesAndAdvance ::
    "int \<Rightarrow> 'o CodedOutputStream \<Rightarrow> int option \<times> 'o CodedOutputStream" where
  "GetDirectBufferForNBytesAndAdvance n st =
    (if co_buffer_size st < n then (None, st) else (Some (co_buffer st), co_Advance n st))"

definition WriteVarint32 ::
    "'o out_ops \<Rightarrow> 32 word \<Rightarrow> 'o CodedOutputStream \<Rightarrow> 'o CodedOutputStream run" where
  "WriteVarint32 F value st =
    (if co_buffer_size st \<ge> 5
     then bnd (WriteVarint32ToArray value (co_memory st, co_buffer st)) (\<lambda>(mem, stop).
            Inr (co_Advance (stop - co_buffer st) (st\<lparr>co_memory := mem\<rparr>)))
     else Inr (oo_WriteVarint32SlowPath F value st))"

definition WriteVarint32SignExtended ::
    "'o out_ops \<Rightarrow> 32 word \<Rightarrow> 'o CodedOutputStream \<Rightarrow> 'o CodedOutputStream run" where
  "WriteVarint32SignExtended F value st =
    (if sint value < 0 then Inr (oo_WriteVarint64 F (scast value) st) else WriteVarint32 F value st)"

definition co_WriteTag ::
    "'o out_ops \<Rightarrow> 32 word \<Rightarrow> 'o CodedOutputStream \<Rightarrow> 'o CodedOutputStream run" where
  "co_WriteTag F value st = WriteVarint32 F value st"

definition co_WriteString ::
    "'o out_ops \<Rightarrow> 8 word list \<Rightarrow> 'o CodedOutputStream \<Rightarrow> 'o CodedOutputStream" where
  "co_WriteString F str st = oo_WriteRaw F str st"

definition WriteRawMaybeAliased ::
    "'o out_ops \<Rightarrow> 8 word list \<Rightarrow> 'o CodedOutputStream \<Rightarrow> 'o CodedOutputStream" where
  "WriteRawMaybeAliased F data st =
    (if co_aliasing_enabled st then oo_WriteAliasedRaw F data st else oo_WriteRaw F data st)"

definition ByteCount :: "'o CodedOutputStream \<Rightarrow> int" where
  "ByteCount st = co_total_bytes st - co_buffer_size st"

definition HadError :: "'o CodedOutputStream \<Rightarrow> bool" where
  "HadError st = co_had_error st"

section \<open>The bytes written\<close>

lemma writes_varint32: "writes (WriteVarint32ToArray v) (varint (unat v))"
proof (induction "unat v" arbitrary: v rule: less_induct)
  case less
  show ?case
  proof (cases "0x80 \<le> v")
    case True
    then have "128 \<le> unat v" by (simp add: word_le_nat_alt)
    then have "unat (drop_bit 7 v) < unat v" by (simp add: unat_drop_bit7)
    then have "writes (WriteVarint32ToArray (drop_bit 7 v)) (varint (unat (drop_bit 7 v)))" by (rule less)
    from writes_Cons[OF this] show ?thesis
      by (rule writes_cong) (simp_all add: WriteVarint32ToArray.simps[of v] True varint_cont)
  next
    case False
    from writes_byte[of "ucast v"] show ?thesis
      by (rule writes_cong) (simp_all add: WriteVarint32ToArray.simps[of v] False varint_last)
  qed
qed

lemma writes_memcpy: "writes (memcpy_to bs) bs"
proof (induction bs)
  case Nil
  from writes_Nil show ?case by (rule writes_cong) (simp_all add: memcpy_to_def)
next
  case (Cons b bs)
  from writes_Cons[OF Cons.IH, of b] show ?case by (rule writes_cong) (simp_all add: memcpy_to_def)
qed

text \<open>Both branches of the little-endian routines write the same bytes.\<close>

lemma le_bytes_object: "le_bytes k (unat (w :: 'a::len word)) = object_bytes k w"
proof -
  have "le_bytes k (unat w) = map (\<lambda>i. of_nat (unat w div 256 ^ i)) [0..<k]" for k
  proof -
    have "le_bytes k n = map (\<lambda>i. of_nat (n div 256 ^ i)) [0..<k]" for n
    proof (induction k arbitrary: n)
      case 0
      then show ?case by simp
    next
      case (Suc k)
      have "[0..<Suc k] = 0 # map Suc [0..<k]" by (simp add: map_Suc_upt upt_conv_Cons del: upt_Suc)
      then show ?case by (simp add: Suc.IH div_mult2_eq del: upt_Suc)
    qed
    then show ?thesis .
  qed
  moreover have "(of_nat (unat w div 256 ^ i) :: 8 word) = ucast (drop_bit (8 * i) w)" for i
  proof -
    have "unat (drop_bit (8 * i) w) = unat w div 256 ^ i"
      unfolding unat_drop_bit_eq by (simp add: drop_bit_eq_div power_mult)
    from this[symmetric] show ?thesis by simp
  qed
  ultimately show ?thesis by (simp add: object_bytes_def)
qed

lemma writes_four: "writes (\<lambda>t. bnd (write_byte a t) (\<lambda>t. bnd (write_byte b t) (\<lambda>t.
    bnd (write_byte c t) (\<lambda>t. write_byte d t)))) [a, b, c, d]"
  by (intro writes_Cons writes_byte)

lemma writes_eight: "writes (\<lambda>t. bnd (write_byte a t) (\<lambda>t. bnd (write_byte b t) (\<lambda>t.
    bnd (write_byte c t) (\<lambda>t. bnd (write_byte d t) (\<lambda>t. bnd (write_byte e t) (\<lambda>t.
    bnd (write_byte f t) (\<lambda>t. bnd (write_byte g t) (\<lambda>t. write_byte h t)))))))) [a, b, c, d, e, f, g, h]"
  by (intro writes_Cons writes_byte)

lemma writes_le32: "writes (WriteLittleEndian32ToArray little v) (le_bytes 4 (unat v))"
proof (cases little)
  case True
  then show ?thesis using writes_memcpy[of "object_bytes 4 v"]
    by (simp add: le_bytes_object WriteLittleEndian32ToArray_def[abs_def])
next
  case False
  have "object_bytes 4 v = [ucast v, ucast (drop_bit 8 v), ucast (drop_bit 16 v), ucast (drop_bit 24 v)]"
    by (simp add: object_bytes_def numeral_eq_Suc)
  then show ?thesis using False writes_four
    by (simp add: le_bytes_object WriteLittleEndian32ToArray_def[abs_def])
qed

lemma writes_le64: "writes (WriteLittleEndian64ToArray little v) (le_bytes 8 (unat v))"
proof (cases little)
  case True
  then show ?thesis using writes_memcpy[of "object_bytes 8 v"]
    by (simp add: le_bytes_object WriteLittleEndian64ToArray_def[abs_def])
next
  case False
  have part: "ucast (drop_bit n (ucast w :: 32 word)) = (ucast (drop_bit n w) :: 8 word)"
    if "n \<le> 24" for n and w :: "64 word"
    using that by (intro bit_word_eqI) (auto simp: bit_simps)
  have "object_bytes 8 v = map (\<lambda>n. ucast (drop_bit n v)) [0, 8, 16, 24, 32, 40, 48, 56]"
    by (simp add: object_bytes_def numeral_eq_Suc)
  moreover have "map (\<lambda>n. ucast (drop_bit n v)) [0, 8, 16, 24, 32, 40, 48, 56] =
      [ucast p0, ucast (drop_bit 8 p0), ucast (drop_bit 16 p0), ucast (drop_bit 24 p0),
       ucast p1, ucast (drop_bit 8 p1), ucast (drop_bit 16 p1), ucast (drop_bit 24 p1) :: 8 word]"
    if "p0 = (ucast v :: 32 word)" and "p1 = (ucast (drop_bit 32 v) :: 32 word)" for p0 p1
    unfolding that part[of 8, simplified] part[of 16, simplified] part[of 24, simplified]
    using part[of 0 v, simplified] part[of 0 "drop_bit 32 v", simplified] by simp
  ultimately have "object_bytes 8 v =
      (let p0 = ucast v :: 32 word; p1 = ucast (drop_bit 32 v) :: 32 word in
       [ucast p0, ucast (drop_bit 8 p0), ucast (drop_bit 16 p0), ucast (drop_bit 24 p0),
        ucast p1, ucast (drop_bit 8 p1), ucast (drop_bit 16 p1), ucast (drop_bit 24 p1)])"
    by (simp only: Let_def)
  then show ?thesis using False writes_eight
    by (simp only: le_bytes_object WriteLittleEndian64ToArray_def[abs_def] Let_def if_False)
qed

section \<open>What the library documents\<close>

text \<open>The bytes a stream has taken so far, given the bytes \<open>fl\<close> of the buffers before the current
  one; and a routine that appends exactly \<open>bs\<close> unless the stream reports an error.\<close>

definition emitted :: "('o \<Rightarrow> 8 word list) \<Rightarrow> 'o CodedOutputStream \<Rightarrow> 8 word list" where
  "emitted fl st = fl (co_output st) @ take (nat (co_buffer st)) (co_memory st)"

definition wf_out :: "('o \<Rightarrow> 8 word list) \<Rightarrow> 'o CodedOutputStream \<Rightarrow> bool" where
  "wf_out fl st \<longleftrightarrow> 0 \<le> co_buffer st \<and> 0 \<le> co_buffer_size st \<and>
     co_buffer st + co_buffer_size st = int (length (co_memory st)) \<and>
     (\<not> co_had_error st \<longrightarrow>
        co_total_bytes st = int (length (fl (co_output st))) + int (length (co_memory st)))"

definition appends ::
    "('o \<Rightarrow> 8 word list) \<Rightarrow> ('o CodedOutputStream \<Rightarrow> 'o CodedOutputStream run) \<Rightarrow> 8 word list \<Rightarrow> bool" where
  "appends fl f bs \<longleftrightarrow> (\<forall>st. wf_out fl st \<longrightarrow>
     (\<exists>st'. f st = Inr st' \<and> wf_out fl st' \<and>
        (\<not> co_had_error st' \<longrightarrow> \<not> co_had_error st \<and> emitted fl st' = emitted fl st @ bs)))"

definition out_ok :: "('o \<Rightarrow> 8 word list) \<Rightarrow> 'o out_ops \<Rightarrow> bool" where
  "out_ok fl F \<longleftrightarrow>
     (\<forall>v. appends fl (\<lambda>st. Inr (oo_WriteVarint32SlowPath F v st)) (varint (unat v))) \<and>
     (\<forall>v. appends fl (\<lambda>st. Inr (oo_WriteVarint64 F v st)) (varint (unat v))) \<and>
     (\<forall>v. appends fl (\<lambda>st. Inr (oo_WriteLittleEndian32 F v st)) (le_bytes 4 (unat v))) \<and>
     (\<forall>v. appends fl (\<lambda>st. Inr (oo_WriteLittleEndian64 F v st)) (le_bytes 8 (unat v))) \<and>
     (\<forall>s. length s < 2 ^ 31 \<longrightarrow> appends fl (\<lambda>st. Inr (oo_WriteRaw F s st)) s) \<and>
     (\<forall>s. length s < 2 ^ 31 \<longrightarrow> appends fl (\<lambda>st. Inr (oo_WriteAliasedRaw F s st)) s) \<and>
     (\<forall>v. writes (oo_WriteVarint64ToArray F v) (varint (unat v))) \<and>
     (\<forall>s. length s < 2 ^ 31 \<longrightarrow> writes (oo_WriteRawToArray F s) s) \<and>
     (\<forall>s. length s < 2 ^ 31 \<longrightarrow> writes (oo_WriteStringWithSizeToArray F s) (varint (length s) @ s)) \<and>
     (\<forall>v. 0x80 \<le> v \<longrightarrow> oo_VarintSize32Fallback F v = int (length (varint (unat v)))) \<and>
     (\<forall>v. oo_VarintSize64 F v = int (length (varint (unat v))))"

lemma out_okD:
  assumes "out_ok fl F"
  shows "appends fl (\<lambda>st. Inr (oo_WriteVarint32SlowPath F v st)) (varint (unat v))"
    and "appends fl (\<lambda>st. Inr (oo_WriteVarint64 F w st)) (varint (unat w))"
    and "appends fl (\<lambda>st. Inr (oo_WriteLittleEndian32 F v st)) (le_bytes 4 (unat v))"
    and "appends fl (\<lambda>st. Inr (oo_WriteLittleEndian64 F w st)) (le_bytes 8 (unat w))"
    and "length s < 2 ^ 31 \<Longrightarrow> appends fl (\<lambda>st. Inr (oo_WriteRaw F s st)) s"
    and "length s < 2 ^ 31 \<Longrightarrow> appends fl (\<lambda>st. Inr (oo_WriteAliasedRaw F s st)) s"
    and "writes (oo_WriteVarint64ToArray F w) (varint (unat w))"
    and "length s < 2 ^ 31 \<Longrightarrow> writes (oo_WriteRawToArray F s) s"
    and "length s < 2 ^ 31 \<Longrightarrow> writes (oo_WriteStringWithSizeToArray F s) (varint (length s) @ s)"
    and "0x80 \<le> v \<Longrightarrow> oo_VarintSize32Fallback F v = int (length (varint (unat v)))"
    and "oo_VarintSize64 F w = int (length (varint (unat w)))"
  using assms unfolding out_ok_def by blast+

lemma appendsE:
  assumes "appends fl f bs" and "wf_out fl st"
  obtains st' where "f st = Inr st'" and "wf_out fl st'"
    and "\<not> co_had_error st' \<longrightarrow> \<not> co_had_error st \<and> emitted fl st' = emitted fl st @ bs"
  using assms unfolding appends_def by blast

lemma appends_seq:
  assumes "appends fl f bs" and "appends fl g cs"
  shows "appends fl (\<lambda>st. bnd (f st) g) (bs @ cs)"
  unfolding appends_def
proof (intro allI impI)
  fix st
  assume "wf_out fl st"
  with assms(1) obtain st1 where st1: "f st = Inr st1" "wf_out fl st1"
      "\<not> co_had_error st1 \<longrightarrow> \<not> co_had_error st \<and> emitted fl st1 = emitted fl st @ bs"
    by (rule appendsE)
  from assms(2) st1(2) obtain st2 where "g st1 = Inr st2" "wf_out fl st2"
      "\<not> co_had_error st2 \<longrightarrow> \<not> co_had_error st1 \<and> emitted fl st2 = emitted fl st1 @ cs"
    by (rule appendsE)
  with st1 show "\<exists>st'. bnd (f st) g = Inr st' \<and> wf_out fl st' \<and>
      (\<not> co_had_error st' \<longrightarrow> \<not> co_had_error st \<and> emitted fl st' = emitted fl st @ (bs @ cs))"
    by auto
qed

section \<open>The stream appends its encodings\<close>

text \<open>Writing into the current buffer.\<close>

lemma emitted_direct:
  assumes "wf_out fl st" and "int (length bs) \<le> co_buffer_size st"
  defines "st' \<equiv> co_Advance (int (length bs)) (st\<lparr>co_memory := overwrite (co_memory st) (co_buffer st) bs\<rparr>)"
  shows "wf_out fl st'" and "emitted fl st' = emitted fl st @ bs" and "co_had_error st' = co_had_error st"
proof -
  have wf: "0 \<le> co_buffer st" "co_buffer st + int (length bs) \<le> int (length (co_memory st))"
    using assms(1,2) by (simp_all add: wf_out_def)
  show "wf_out fl st'" using assms(1,2) wf by (simp add: st'_def co_Advance_def wf_out_def)
  have "nat (co_buffer st + int (length bs)) = nat (co_buffer st) + length bs"
    using wf(1) by (simp add: nat_add_distrib)
  moreover have "length (take (nat (co_buffer st)) (co_memory st)) = nat (co_buffer st)" using wf by simp
  ultimately show "emitted fl st' = emitted fl st @ bs"
    by (simp add: st'_def co_Advance_def emitted_def overwrite_def)
  show "co_had_error st' = co_had_error st" by (simp add: st'_def co_Advance_def)
qed

lemma appends_varint32:
  assumes "out_ok fl F"
  shows "appends fl (WriteVarint32 F v) (varint (unat v))"
  unfolding appends_def
proof (intro allI impI)
  fix st
  assume wf: "wf_out fl st"
  show "\<exists>st'. WriteVarint32 F v st = Inr st' \<and> wf_out fl st' \<and>
      (\<not> co_had_error st' \<longrightarrow> \<not> co_had_error st \<and> emitted fl st' = emitted fl st @ varint (unat v))"
  proof (cases "co_buffer_size st \<ge> 5")
    case True
    have len: "int (length (varint (unat v))) \<le> co_buffer_size st" using True varint_length_32[of v] by simp
    have "WriteVarint32ToArray v (co_memory st, co_buffer st) =
        Inr (overwrite (co_memory st) (co_buffer st) (varint (unat v)), co_buffer st + int (length (varint (unat v))))"
      using wf len by (intro writesD[OF writes_varint32]) (simp_all add: wf_out_def)
    then show ?thesis using True emitted_direct[OF wf len] by (simp add: WriteVarint32_def)
  next
    case False
    then show ?thesis using out_okD(1)[OF assms, of v] wf
      by (simp add: WriteVarint32_def appends_def)
  qed
qed

lemma sint_range32: "- (2 ^ 31) \<le> sint (v :: 32 word)" "sint v < 2 ^ 31"
  using sint_ge[of v] sint_less[of v] by simp_all

lemma uint_sext: "uint (scast (v :: 32 word) :: 64 word) = sint v mod 2 ^ 64"
proof -
  have "LENGTH(64) = 64" by simp
  then show ?thesis unfolding scast_eq uint_word_of_int by (simp only:)
qed

lemma uint_of_sint: "uint (v :: 32 word) = sint v mod 2 ^ 32"
proof -
  have "uint (word_of_int (sint v) :: 32 word) = sint v mod 2 ^ 32" unfolding uint_word_of_int by simp
  then show ?thesis by simp
qed

lemma small_mod:
  assumes "0 \<le> (x :: int)" and "x < 2 ^ 31"
  shows "x mod 2 ^ 64 = x" and "x mod 2 ^ 32 = x"
proof -
  have "x < 2 ^ 64" and "x < 2 ^ 32" using assms(2) by simp_all
  then show "x mod 2 ^ 64 = x" and "x mod 2 ^ 32 = x" using assms(1) by (blast intro: mod_pos_pos_trivial)+
qed

lemma negative_mod:
  assumes "(x :: int) < 0" and "- (2 ^ 31) \<le> x"
  shows "x mod 2 ^ 64 = x + 2 ^ 64" and "2 ^ 63 \<le> x + 2 ^ 64"
proof -
  have "0 \<le> x + 2 ^ 64" and "x + 2 ^ 64 < 2 ^ 64" using assms by simp_all
  then have "(x + 2 ^ 64) mod 2 ^ 64 = x + 2 ^ 64" by (rule mod_pos_pos_trivial)
  then show "x mod 2 ^ 64 = x + 2 ^ 64" by (simp only: mod_add_self2)
  show "2 ^ 63 \<le> x + 2 ^ 64" using assms by simp
qed

lemma sext_nonneg: "\<not> sint (v :: 32 word) < 0 \<Longrightarrow> unat (scast v :: 64 word) = unat v"
proof -
  assume "\<not> sint v < 0"
  then have pos: "0 \<le> sint v" by (simp only: not_less)
  have "uint (scast v :: 64 word) = uint v"
    by (simp only: uint_sext uint_of_sint small_mod[OF pos sint_range32(2)])
  then show ?thesis by (simp only: unat_eq_nat_uint)
qed

lemma sext_negative: "sint (v :: 32 word) < 0 \<Longrightarrow> length (varint (unat (scast v :: 64 word))) = 10"
proof -
  assume neg: "sint v < 0"
  note range = negative_mod[OF neg sint_range32(1)]
  have "uint (scast v :: 64 word) = sint v + 2 ^ 64" by (simp only: uint_sext range(1))
  then have "2 ^ 63 \<le> uint (scast v :: 64 word)" using range(2) by (simp only:)
  then have "nat (2 ^ 63) \<le> nat (uint (scast v :: 64 word))" by (rule nat_mono)
  then have lo: "128 ^ 9 \<le> unat (scast v :: 64 word)" by (simp add: unat_eq_nat_uint del: nat_uint_eq)
  have "unat (scast v :: 64 word) < 128 ^ 10" using unat_less64[of "scast v :: 64 word"] by simp
  then have "length (varint (unat (scast v :: 64 word))) \<le> 10" by (rule varint_length_le) simp
  then show ?thesis using varint_length_gt[OF lo] by simp
qed

lemma unat_sext: "(of_nat (unat (scast v :: 64 word)) :: 32 word) = v"
  by (rule bit_word_eqI) (simp add: bit_simps)

text \<open>A signed 32-bit integer is written as its 64-bit extension.\<close>

lemma writes_sext:
  assumes "out_ok fl F"
  shows "writes (WriteVarint32SignExtendedToArray F v) (varint (unat (scast v :: 64 word)))"
  using writes_varint32[of v] out_okD(7)[OF assms, of "scast v"]
  by (cases "sint v < 0") (simp_all add: WriteVarint32SignExtendedToArray_def[abs_def] sext_nonneg)

lemma appends_sext:
  assumes "out_ok fl F"
  shows "appends fl (WriteVarint32SignExtended F v) (varint (unat (scast v :: 64 word)))"
  using appends_varint32[OF assms, of v] out_okD(2)[OF assms, of "scast v"]
  by (cases "sint v < 0") (simp_all add: WriteVarint32SignExtended_def[abs_def] sext_nonneg)

lemma VarintSize32_length:
  assumes "out_ok fl F"
  shows "VarintSize32 F v = int (length (varint (unat v)))"
proof (cases "v < 0x80")
  case True
  then show ?thesis using varint_last[of v] by (simp add: VarintSize32_def not_le)
next
  case False
  then show ?thesis using out_okD(10)[OF assms, of v] unfolding VarintSize32_def not_less by auto
qed

lemma VarintSize32SignExtended_length:
  assumes "out_ok fl F"
  shows "VarintSize32SignExtended F v = int (length (varint (unat (scast v :: 64 word))))"
  using VarintSize32_length[OF assms, of v]
  by (cases "sint v < 0") (simp_all add: VarintSize32SignExtended_def sext_negative sext_nonneg)

lemma varint_length_eq: "128 ^ k \<le> n \<Longrightarrow> n < 128 ^ Suc k \<Longrightarrow> length (varint n) = Suc k"
  using varint_length_gt[of k n] varint_length_le[of n "Suc k"] by simp

lemma StaticVarintSize32_length: "StaticVarintSize32 v = int (length (varint (unat v)))"
proof -
  have top: "unat v < 34359738368" using unat_less32[of v] by simp
  consider "unat v < 128" | "128 \<le> unat v" "unat v < 16384" | "16384 \<le> unat v" "unat v < 2097152"
    | "2097152 \<le> unat v" "unat v < 268435456" | "268435456 \<le> unat v" by linarith
  then show ?thesis
  proof cases
    case 1
    then show ?thesis by (simp add: StaticVarintSize32_def varint_byte word_less_nat_alt)
  next
    case 2
    then have "length (varint (unat v)) = Suc 1" by (intro varint_length_eq) simp_all
    then show ?thesis using 2 by (simp add: StaticVarintSize32_def word_less_nat_alt)
  next
    case 3
    then have "length (varint (unat v)) = Suc 2" by (intro varint_length_eq) simp_all
    then show ?thesis using 3 by (simp add: StaticVarintSize32_def word_less_nat_alt)
  next
    case 4
    then have "length (varint (unat v)) = Suc 3" by (intro varint_length_eq) simp_all
    then show ?thesis using 4 by (simp add: StaticVarintSize32_def word_less_nat_alt)
  next
    case 5
    then have "length (varint (unat v)) = Suc 4" using top by (intro varint_length_eq) simp_all
    then show ?thesis using 5 by (simp add: StaticVarintSize32_def word_less_nat_alt)
  qed
qed

lemma ByteCount_emitted: "wf_out fl st \<Longrightarrow> \<not> co_had_error st \<Longrightarrow> ByteCount st = int (length (emitted fl st))"
  by (auto simp: wf_out_def ByteCount_def emitted_def min_def)

lemma appends_raw:
  assumes "out_ok fl F" and "length s < 2 ^ 31"
  shows "appends fl (\<lambda>st. Inr (co_WriteString F s st)) s"
    and "appends fl (\<lambda>st. Inr (WriteRawMaybeAliased F s st)) s"
proof -
  note ok = out_okD(5,6)[OF assms]
  show "appends fl (\<lambda>st. Inr (co_WriteString F s st)) s" unfolding co_WriteString_def by (rule ok(1))
  show "appends fl (\<lambda>st. Inr (WriteRawMaybeAliased F s st)) s"
    unfolding appends_def
  proof (intro allI impI)
    fix st assume wf: "wf_out fl st"
    show "\<exists>st'. Inr (WriteRawMaybeAliased F s st) = (Inr st' :: 'a CodedOutputStream run) \<and> wf_out fl st' \<and>
        (\<not> co_had_error st' \<longrightarrow> \<not> co_had_error st \<and> emitted fl st' = emitted fl st @ s)"
      by (cases "co_aliasing_enabled st")
        (use ok(1)[THEN appendsE, OF wf] ok(2)[THEN appendsE, OF wf] in \<open>auto simp: WriteRawMaybeAliased_def\<close>)
  qed
qed

lemma GetDirectBuffer_room:
  assumes "wf_out fl st" and "0 \<le> n" and "GetDirectBufferForNBytesAndAdvance n st = (Some p, st')"
  shows "p + n \<le> int (length (co_memory st))" and "wf_out fl st'"
  using assms by (auto simp: GetDirectBufferForNBytesAndAdvance_def wf_out_def co_Advance_def split: if_splits)

end
