(* ===== verification/PbWire.thy ===== *)
theory PbWire
  imports PbInput PbOutput
begin

text \<open>
  The wire format of \<open>include/google/protobuf/wire_format_lite.h\<close>: tags, the ZigZag transform, the
  values a field type can have, their sizes, and the \<open>ReadPrimitive\<close> specialisations of
  \<open>wire_format_lite_inl.h\<close>. A \<open>float\<close> or \<open>double\<close> is its bit pattern, which is all that
  \<open>EncodeFloat\<close> and the like look at.
\<close>

section \<open>Tags\<close>

datatype WireType =
    WIRETYPE_VARINT | WIRETYPE_FIXED64 | WIRETYPE_LENGTH_DELIMITED
  | WIRETYPE_START_GROUP | WIRETYPE_END_GROUP | WIRETYPE_FIXED32

fun wire_number :: "WireType \<Rightarrow> 32 word" where
  "wire_number WIRETYPE_VARINT = 0"
| "wire_number WIRETYPE_FIXED64 = 1"
| "wire_number WIRETYPE_LENGTH_DELIMITED = 2"
| "wire_number WIRETYPE_START_GROUP = 3"
| "wire_number WIRETYPE_END_GROUP = 4"
| "wire_number WIRETYPE_FIXED32 = 5"

datatype FieldType =
    TYPE_DOUBLE | TYPE_FLOAT | TYPE_INT64 | TYPE_UINT64 | TYPE_INT32 | TYPE_FIXED64 | TYPE_FIXED32
  | TYPE_BOOL | TYPE_STRING | TYPE_GROUP | TYPE_MESSAGE | TYPE_BYTES | TYPE_UINT32 | TYPE_ENUM
  | TYPE_SFIXED32 | TYPE_SFIXED64 | TYPE_SINT32 | TYPE_SINT64

datatype CppType =
    CPPTYPE_INT32 | CPPTYPE_INT64 | CPPTYPE_UINT32 | CPPTYPE_UINT64 | CPPTYPE_DOUBLE
  | CPPTYPE_FLOAT | CPPTYPE_BOOL | CPPTYPE_ENUM | CPPTYPE_STRING | CPPTYPE_MESSAGE

definition kTagTypeBits :: nat where "kTagTypeBits = 3"

definition kTagTypeMask :: "32 word" where "kTagTypeMask = push_bit kTagTypeBits 1 - 1"

definition MakeTag :: "32 word \<Rightarrow> WireType \<Rightarrow> 32 word" where
  "MakeTag field_number type = push_bit kTagTypeBits field_number OR wire_number type"

definition GetTagWireType :: "32 word \<Rightarrow> 32 word" where
  "GetTagWireType tag = tag AND kTagTypeMask"

definition GetTagFieldNumber :: "32 word \<Rightarrow> 32 word" where
  "GetTagFieldNumber tag = drop_bit kTagTypeBits tag"

definition TagSize :: "'o out_ops \<Rightarrow> 32 word \<Rightarrow> FieldType \<Rightarrow> int" where
  "TagSize F field_number type =
    (let result = VarintSize32 F (push_bit kTagTypeBits field_number) in
     if type = TYPE_GROUP then result * 2 else result)"

definition kMessageSetItemNumber :: "32 word" where "kMessageSetItemNumber = 1"
definition kMessageSetTypeIdNumber :: "32 word" where "kMessageSetTypeIdNumber = 2"
definition kMessageSetMessageNumber :: "32 word" where "kMessageSetMessageNumber = 3"

definition kMessageSetItemStartTag :: "32 word" where
  "kMessageSetItemStartTag = MakeTag kMessageSetItemNumber WIRETYPE_START_GROUP"

definition kMessageSetItemEndTag :: "32 word" where
  "kMessageSetItemEndTag = MakeTag kMessageSetItemNumber WIRETYPE_END_GROUP"

definition kMessageSetTypeIdTag :: "32 word" where
  "kMessageSetTypeIdTag = MakeTag kMessageSetTypeIdNumber WIRETYPE_VARINT"

definition kMessageSetMessageTag :: "32 word" where
  "kMessageSetMessageTag = MakeTag kMessageSetMessageNumber WIRETYPE_LENGTH_DELIMITED"

section \<open>Transforms of values\<close>

definition ZigZagEncode32 :: "32 word \<Rightarrow> 32 word" where
  "ZigZagEncode32 n = push_bit 1 n XOR signed_drop_bit 31 n"

definition ZigZagDecode32 :: "32 word \<Rightarrow> 32 word" where
  "ZigZagDecode32 n = drop_bit 1 n XOR - (n AND 1)"

definition ZigZagEncode64 :: "64 word \<Rightarrow> 64 word" where
  "ZigZagEncode64 n = push_bit 1 n XOR signed_drop_bit 63 n"

definition ZigZagDecode64 :: "64 word \<Rightarrow> 64 word" where
  "ZigZagDecode64 n = drop_bit 1 n XOR - (n AND 1)"

definition EncodeFloat :: "32 word \<Rightarrow> 32 word" where "EncodeFloat value = value"
definition DecodeFloat :: "32 word \<Rightarrow> 32 word" where "DecodeFloat value = value"
definition EncodeDouble :: "64 word \<Rightarrow> 64 word" where "EncodeDouble value = value"
definition DecodeDouble :: "64 word \<Rightarrow> 64 word" where "DecodeDouble value = value"

section \<open>Sizes\<close>

definition Int32Size :: "'o out_ops \<Rightarrow> 32 word \<Rightarrow> int" where
  "Int32Size F value = VarintSize32SignExtended F value"
definition Int64Size :: "'o out_ops \<Rightarrow> 64 word \<Rightarrow> int" where
  "Int64Size F value = oo_VarintSize64 F value"
definition UInt32Size :: "'o out_ops \<Rightarrow> 32 word \<Rightarrow> int" where
  "UInt32Size F value = VarintSize32 F value"
definition UInt64Size :: "'o out_ops \<Rightarrow> 64 word \<Rightarrow> int" where
  "UInt64Size F value = oo_VarintSize64 F value"
definition SInt32Size :: "'o out_ops \<Rightarrow> 32 word \<Rightarrow> int" where
  "SInt32Size F value = VarintSize32 F (ZigZagEncode32 value)"
definition SInt64Size :: "'o out_ops \<Rightarrow> 64 word \<Rightarrow> int" where
  "SInt64Size F value = oo_VarintSize64 F (ZigZagEncode64 value)"
definition EnumSize :: "'o out_ops \<Rightarrow> 32 word \<Rightarrow> int" where
  "EnumSize F value = VarintSize32SignExtended F value"

definition kFixed32Size :: int where "kFixed32Size = 4"
definition kFixed64Size :: int where "kFixed64Size = 8"
definition kSFixed32Size :: int where "kSFixed32Size = 4"
definition kSFixed64Size :: int where "kSFixed64Size = 8"
definition kFloatSize :: int where "kFloatSize = 4"
definition kDoubleSize :: int where "kDoubleSize = 8"
definition kBoolSize :: int where "kBoolSize = 1"

definition LengthDelimitedSize :: "'o out_ops \<Rightarrow> int \<Rightarrow> int" where
  "LengthDelimitedSize F n = VarintSize32 F (word_of_int n) + n"

definition StringSize :: "'o out_ops \<Rightarrow> 8 word list \<Rightarrow> int" where
  "StringSize F value = VarintSize32 F (of_nat (length value)) + int (length value)"

definition BytesSize :: "'o out_ops \<Rightarrow> 8 word list \<Rightarrow> int" where
  "BytesSize F value = VarintSize32 F (of_nat (length value)) + int (length value)"

section \<open>Reading one value\<close>

text \<open>A value by its C++ type; \<open>P_int\<close> is the \<open>int\<close> of an enum.\<close>

datatype prim =
    P_int32 "32 word" | P_int64 "64 word" | P_uint32 "32 word" | P_uint64 "64 word"
  | P_float "32 word" | P_double "64 word" | P_bool bool | P_int "32 word"

text \<open>One equation for each specialisation; the other field types have none and a use of them
  does not link.\<close>

fun ReadPrimitive ::
    "bool \<Rightarrow> 'z in_ops \<Rightarrow> FieldType \<Rightarrow> 'z CodedInputStream \<Rightarrow> ((bool \<times> prim) \<times> 'z CodedInputStream) run" where
  "ReadPrimitive little F TYPE_INT32 input =
    bnd (ReadVarint32 F input) (\<lambda>((ok, temp), input). Inr ((ok, P_int32 temp), input))"
| "ReadPrimitive little F TYPE_INT64 input =
    bnd (ReadVarint64 F input) (\<lambda>((ok, temp), input). Inr ((ok, P_int64 temp), input))"
| "ReadPrimitive little F TYPE_UINT32 input =
    bnd (ReadVarint32 F input) (\<lambda>((ok, value), input). Inr ((ok, P_uint32 value), input))"
| "ReadPrimitive little F TYPE_UINT64 input =
    bnd (ReadVarint64 F input) (\<lambda>((ok, value), input). Inr ((ok, P_uint64 value), input))"
| "ReadPrimitive little F TYPE_SINT32 input =
    bnd (ReadVarint32 F input) (\<lambda>((ok, temp), input). Inr ((ok, P_int32 (ZigZagDecode32 temp)), input))"
| "ReadPrimitive little F TYPE_SINT64 input =
    bnd (ReadVarint64 F input) (\<lambda>((ok, temp), input). Inr ((ok, P_int64 (ZigZagDecode64 temp)), input))"
| "ReadPrimitive little F TYPE_FIXED32 input =
    bnd (ReadLittleEndian32 little F input) (\<lambda>((ok, value), input). Inr ((ok, P_uint32 value), input))"
| "ReadPrimitive little F TYPE_FIXED64 input =
    bnd (ReadLittleEndian64 little F input) (\<lambda>((ok, value), input). Inr ((ok, P_uint64 value), input))"
| "ReadPrimitive little F TYPE_SFIXED32 input =
    bnd (ReadLittleEndian32 little F input) (\<lambda>((ok, temp), input). Inr ((ok, P_int32 temp), input))"
| "ReadPrimitive little F TYPE_SFIXED64 input =
    bnd (ReadLittleEndian64 little F input) (\<lambda>((ok, temp), input). Inr ((ok, P_int64 temp), input))"
| "ReadPrimitive little F TYPE_FLOAT input =
    bnd (ReadLittleEndian32 little F input) (\<lambda>((ok, temp), input). Inr ((ok, P_float (DecodeFloat temp)), input))"
| "ReadPrimitive little F TYPE_DOUBLE input =
    bnd (ReadLittleEndian64 little F input) (\<lambda>((ok, temp), input). Inr ((ok, P_double (DecodeDouble temp)), input))"
| "ReadPrimitive little F TYPE_BOOL input =
    bnd (ReadVarint64 F input) (\<lambda>((ok, temp), input). Inr ((ok, P_bool (temp \<noteq> 0)), input))"
| "ReadPrimitive little F TYPE_ENUM input =
    bnd (ReadVarint32 F input) (\<lambda>((ok, temp), input). Inr ((ok, P_int temp), input))"
| "ReadPrimitive little F _ input = Inl CheckFailed"

fun ReadPrimitiveFromArray :: "bool \<Rightarrow> FieldType \<Rightarrow> 8 word list \<Rightarrow> int \<Rightarrow> (prim \<times> int) run" where
  "ReadPrimitiveFromArray little TYPE_FIXED32 mem buffer =
    bnd (ReadLittleEndian32FromArray little mem buffer) (\<lambda>(value, buffer). Inr (P_uint32 value, buffer))"
| "ReadPrimitiveFromArray little TYPE_FIXED64 mem buffer =
    bnd (ReadLittleEndian64FromArray little mem buffer) (\<lambda>(value, buffer). Inr (P_uint64 value, buffer))"
| "ReadPrimitiveFromArray little TYPE_SFIXED32 mem buffer =
    bnd (ReadLittleEndian32FromArray little mem buffer) (\<lambda>(temp, buffer). Inr (P_int32 temp, buffer))"
| "ReadPrimitiveFromArray little TYPE_SFIXED64 mem buffer =
    bnd (ReadLittleEndian64FromArray little mem buffer) (\<lambda>(temp, buffer). Inr (P_int64 temp, buffer))"
| "ReadPrimitiveFromArray little TYPE_FLOAT mem buffer =
    bnd (ReadLittleEndian32FromArray little mem buffer) (\<lambda>(temp, buffer). Inr (P_float (DecodeFloat temp), buffer))"
| "ReadPrimitiveFromArray little TYPE_DOUBLE mem buffer =
    bnd (ReadLittleEndian64FromArray little mem buffer) (\<lambda>(temp, buffer). Inr (P_double (DecodeDouble temp), buffer))"
| "ReadPrimitiveFromArray little _ mem buffer = Inl CheckFailed"

section \<open>The format of a value\<close>

text \<open>Which values a field type has, the wire type of its fields, the number that stands for a
  value on the wire and the value a number stands for.\<close>

fun cpp_type :: "FieldType \<Rightarrow> CppType" where
  "cpp_type TYPE_INT32 = CPPTYPE_INT32"
| "cpp_type TYPE_SINT32 = CPPTYPE_INT32"
| "cpp_type TYPE_SFIXED32 = CPPTYPE_INT32"
| "cpp_type TYPE_INT64 = CPPTYPE_INT64"
| "cpp_type TYPE_SINT64 = CPPTYPE_INT64"
| "cpp_type TYPE_SFIXED64 = CPPTYPE_INT64"
| "cpp_type TYPE_UINT32 = CPPTYPE_UINT32"
| "cpp_type TYPE_FIXED32 = CPPTYPE_UINT32"
| "cpp_type TYPE_UINT64 = CPPTYPE_UINT64"
| "cpp_type TYPE_FIXED64 = CPPTYPE_UINT64"
| "cpp_type TYPE_DOUBLE = CPPTYPE_DOUBLE"
| "cpp_type TYPE_FLOAT = CPPTYPE_FLOAT"
| "cpp_type TYPE_BOOL = CPPTYPE_BOOL"
| "cpp_type TYPE_ENUM = CPPTYPE_ENUM"
| "cpp_type TYPE_STRING = CPPTYPE_STRING"
| "cpp_type TYPE_BYTES = CPPTYPE_STRING"
| "cpp_type TYPE_GROUP = CPPTYPE_MESSAGE"
| "cpp_type TYPE_MESSAGE = CPPTYPE_MESSAGE"

fun prim_type :: "prim \<Rightarrow> CppType" where
  "prim_type (P_int32 v) = CPPTYPE_INT32"
| "prim_type (P_int64 v) = CPPTYPE_INT64"
| "prim_type (P_uint32 v) = CPPTYPE_UINT32"
| "prim_type (P_uint64 v) = CPPTYPE_UINT64"
| "prim_type (P_float v) = CPPTYPE_FLOAT"
| "prim_type (P_double v) = CPPTYPE_DOUBLE"
| "prim_type (P_bool v) = CPPTYPE_BOOL"
| "prim_type (P_int v) = CPPTYPE_ENUM"

definition has_type :: "FieldType \<Rightarrow> prim \<Rightarrow> bool" where
  "has_type ft v \<longleftrightarrow> cpp_type ft = prim_type v"

fun wire_type :: "FieldType \<Rightarrow> WireType" where
  "wire_type TYPE_FIXED32 = WIRETYPE_FIXED32"
| "wire_type TYPE_SFIXED32 = WIRETYPE_FIXED32"
| "wire_type TYPE_FLOAT = WIRETYPE_FIXED32"
| "wire_type TYPE_FIXED64 = WIRETYPE_FIXED64"
| "wire_type TYPE_SFIXED64 = WIRETYPE_FIXED64"
| "wire_type TYPE_DOUBLE = WIRETYPE_FIXED64"
| "wire_type TYPE_STRING = WIRETYPE_LENGTH_DELIMITED"
| "wire_type TYPE_BYTES = WIRETYPE_LENGTH_DELIMITED"
| "wire_type TYPE_MESSAGE = WIRETYPE_LENGTH_DELIMITED"
| "wire_type TYPE_GROUP = WIRETYPE_START_GROUP"
| "wire_type _ = WIRETYPE_VARINT"

fun number_of :: "FieldType \<Rightarrow> prim \<Rightarrow> nat" where
  "number_of ft (P_int32 v) =
    (if ft = TYPE_SINT32 then unat (ZigZagEncode32 v)
     else if ft = TYPE_SFIXED32 then unat v
     else unat (scast v :: 64 word))"
| "number_of ft (P_int64 v) = (if ft = TYPE_SINT64 then unat (ZigZagEncode64 v) else unat v)"
| "number_of ft (P_uint32 v) = unat v"
| "number_of ft (P_uint64 v) = unat v"
| "number_of ft (P_float v) = unat v"
| "number_of ft (P_double v) = unat v"
| "number_of ft (P_bool b) = (if b then 1 else 0)"
| "number_of ft (P_int v) = unat (scast v :: 64 word)"

fun value_of :: "FieldType \<Rightarrow> nat \<Rightarrow> prim" where
  "value_of TYPE_INT32 n = P_int32 (of_nat n)"
| "value_of TYPE_INT64 n = P_int64 (of_nat n)"
| "value_of TYPE_UINT32 n = P_uint32 (of_nat n)"
| "value_of TYPE_UINT64 n = P_uint64 (of_nat n)"
| "value_of TYPE_SINT32 n = P_int32 (ZigZagDecode32 (of_nat n))"
| "value_of TYPE_SINT64 n = P_int64 (ZigZagDecode64 (of_nat n))"
| "value_of TYPE_FIXED32 n = P_uint32 (of_nat n)"
| "value_of TYPE_FIXED64 n = P_uint64 (of_nat n)"
| "value_of TYPE_SFIXED32 n = P_int32 (of_nat n)"
| "value_of TYPE_SFIXED64 n = P_int64 (of_nat n)"
| "value_of TYPE_FLOAT n = P_float (of_nat n)"
| "value_of TYPE_DOUBLE n = P_double (of_nat n)"
| "value_of TYPE_BOOL n = P_bool ((of_nat n :: 64 word) \<noteq> 0)"
| "value_of _ n = P_int (of_nat n)"

definition primitive :: "FieldType \<Rightarrow> bool" where
  "primitive ft \<longleftrightarrow> ft \<notin> {TYPE_STRING, TYPE_GROUP, TYPE_MESSAGE, TYPE_BYTES}"

definition encode_prim :: "FieldType \<Rightarrow> prim \<Rightarrow> 8 word list" where
  "encode_prim ft v =
    (case wire_type ft of
       WIRETYPE_FIXED32 \<Rightarrow> le_bytes 4 (number_of ft v)
     | WIRETYPE_FIXED64 \<Rightarrow> le_bytes 8 (number_of ft v)
     | _ \<Rightarrow> varint (number_of ft v))"

definition decode_fixed :: "nat \<Rightarrow> 8 word list \<Rightarrow> (nat \<times> 8 word list) option" where
  "decode_fixed k bs = (if k \<le> length bs then Some (from_le (take k bs), drop k bs) else None)"

definition decode_prim :: "FieldType \<Rightarrow> 8 word list \<Rightarrow> (prim \<times> 8 word list) option" where
  "decode_prim ft bs =
    map_option (\<lambda>(n, r). (value_of ft n, r))
      (case wire_type ft of
         WIRETYPE_FIXED32 \<Rightarrow> decode_fixed 4 bs
       | WIRETYPE_FIXED64 \<Rightarrow> decode_fixed 8 bs
       | _ \<Rightarrow> decode_varint kMaxVarintBytes bs)"

section \<open>Tags and ZigZag are inverses\<close>

lemma wire_number_less: "wire_number t = take_bit 3 (wire_number t)"
  by (cases t) simp_all

lemma tag_fields:
  "GetTagWireType (MakeTag n t) = wire_number t"
  "unat n < 2 ^ 29 \<Longrightarrow> GetTagFieldNumber (MakeTag n t) = n"
proof -
  have mask: "kTagTypeMask = mask 3" by (simp add: kTagTypeMask_def kTagTypeBits_def mask_eq_exp_minus_1)
  have low: "take_bit 3 (push_bit 3 n) = 0"
    by (rule bit_word_eqI) (auto simp: bit_simps)
  show "GetTagWireType (MakeTag n t) = wire_number t"
    unfolding GetTagWireType_def mask MakeTag_def kTagTypeBits_def take_bit_eq_mask [symmetric] take_bit_or low
    by (simp flip: wire_number_less)
  have high: "drop_bit 3 (wire_number t) = 0"
    by (subst wire_number_less) (simp add: drop_bit_take_bit)
  assume "unat n < 2 ^ 29"
  then have n: "take_bit 29 n = n"
    by (simp add: word_unat_eq_iff unsigned_take_bit_eq take_bit_nat_eq_self_iff)
  have "drop_bit 3 (push_bit 3 n) = take_bit 29 n"
    by (rule bit_word_eqI) (auto simp: bit_simps)
  then show "GetTagFieldNumber (MakeTag n t) = n"
    unfolding GetTagFieldNumber_def MakeTag_def kTagTypeBits_def drop_bit_or high n by simp
qed

lemma neg_parity: "- (n AND 1 :: 'a::len word) = (if bit n 0 then - 1 else 0)"
  by (simp add: and_one_eq bit_0 odd_iff_mod_2_eq_one)

lemma bit_zigzag32: "i < 32 \<Longrightarrow> bit (ZigZagEncode32 n) i \<longleftrightarrow> (0 < i \<and> bit n (i - 1)) \<noteq> bit n 31"
proof -
  assume i: "i < 32"
  have "bit (push_bit 1 n) i \<longleftrightarrow> 0 < i \<and> bit n (i - 1)"
    using i by (cases i) (simp_all add: bit_push_bit_iff del: push_bit_Suc One_nat_def)
  moreover have "bit (signed_drop_bit 31 n) i \<longleftrightarrow> bit n 31"
    using i by (cases "i = 0") (auto simp: bit_signed_drop_bit_iff)
  ultimately show ?thesis by (simp only: ZigZagEncode32_def bit_xor_iff)
qed

lemma zigzag_decode32: "ZigZagDecode32 (ZigZagEncode32 n) = n"
proof (rule bit_word_eqI)
  fix i
  assume "i < LENGTH(32)"
  then show "bit (ZigZagDecode32 (ZigZagEncode32 n)) i = bit n i"
    unfolding ZigZagDecode32_def neg_parity
    by (cases "i = 31")
      (auto simp: bit_xor_iff bit_drop_bit_eq bit_zigzag32 bit_minus_1_iff dest: bit_imp_le_length)
qed

lemma bit_zigzag64: "i < 64 \<Longrightarrow> bit (ZigZagEncode64 n) i \<longleftrightarrow> (0 < i \<and> bit n (i - 1)) \<noteq> bit n 63"
proof -
  assume i: "i < 64"
  have "bit (push_bit 1 n) i \<longleftrightarrow> 0 < i \<and> bit n (i - 1)"
    using i by (cases i) (simp_all add: bit_push_bit_iff del: push_bit_Suc One_nat_def)
  moreover have "bit (signed_drop_bit 63 n) i \<longleftrightarrow> bit n 63"
    using i by (cases "i = 0") (auto simp: bit_signed_drop_bit_iff)
  ultimately show ?thesis by (simp only: ZigZagEncode64_def bit_xor_iff)
qed

lemma zigzag_decode64: "ZigZagDecode64 (ZigZagEncode64 n) = n"
proof (rule bit_word_eqI)
  fix i
  assume "i < LENGTH(64)"
  then show "bit (ZigZagDecode64 (ZigZagEncode64 n)) i = bit n i"
    unfolding ZigZagDecode64_def neg_parity
    by (cases "i = 63")
      (auto simp: bit_xor_iff bit_drop_bit_eq bit_zigzag64 bit_minus_1_iff dest: bit_imp_le_length)
qed

text \<open>An injection of a finite type into itself: every number is the code of one value.\<close>

lemma zigzag_encode32: "ZigZagEncode32 (ZigZagDecode32 m) = m"
proof -
  have "inj ZigZagEncode32" by (rule inj_on_inverseI) (rule zigzag_decode32)
  then have "surj ZigZagEncode32" by (simp add: finite_UNIV_inj_surj)
  then obtain n where "m = ZigZagEncode32 n" by (rule surjE)
  then show ?thesis by (simp add: zigzag_decode32)
qed

lemma zigzag_encode64: "ZigZagEncode64 (ZigZagDecode64 m) = m"
proof -
  have "inj ZigZagEncode64" by (rule inj_on_inverseI) (rule zigzag_decode64)
  then have "surj ZigZagEncode64" by (simp add: finite_UNIV_inj_surj)
  then obtain n where "m = ZigZagEncode64 n" by (rule surjE)
  then show ?thesis by (simp add: zigzag_decode64)
qed

section \<open>Reading what was encoded\<close>

lemma has_type_cases:
  assumes "has_type ft v"
  obtains (i32) x where "v = P_int32 x" "ft = TYPE_INT32 \<or> ft = TYPE_SINT32 \<or> ft = TYPE_SFIXED32"
  | (i64) y where "v = P_int64 y" "ft = TYPE_INT64 \<or> ft = TYPE_SINT64 \<or> ft = TYPE_SFIXED64"
  | (u32) x where "v = P_uint32 x" "ft = TYPE_UINT32 \<or> ft = TYPE_FIXED32"
  | (u64) y where "v = P_uint64 y" "ft = TYPE_UINT64 \<or> ft = TYPE_FIXED64"
  | (flt) x where "v = P_float x" "ft = TYPE_FLOAT"
  | (dbl) y where "v = P_double y" "ft = TYPE_DOUBLE"
  | (boo) b where "v = P_bool b" "ft = TYPE_BOOL"
  | (enm) x where "v = P_int x" "ft = TYPE_ENUM"
  using assms unfolding has_type_def by (cases v; cases ft) simp_all

lemma has_type_primitive: "has_type ft v \<Longrightarrow> primitive ft"
  by (cases ft; cases v) (simp_all add: has_type_def primitive_def)

lemma value_of_number: "has_type ft v \<Longrightarrow> value_of ft (number_of ft v) = v"
  by (erule has_type_cases)
    (auto simp: zigzag_decode32 zigzag_decode64 unat_sext simp del: of_nat_unat,
     auto simp: zigzag_decode32 zigzag_decode64)

lemma number_less: "has_type ft v \<Longrightarrow> wire_type ft \<noteq> WIRETYPE_FIXED32 \<Longrightarrow> number_of ft v < 2 ^ 64"
  "has_type ft v \<Longrightarrow> wire_type ft = WIRETYPE_FIXED32 \<Longrightarrow> number_of ft v < 2 ^ 32"
proof -
  have up: "unat (w :: 32 word) < 2 ^ 64" for w using unat_less32[of w] by simp
  have one: "Suc 0 < 2 ^ 64" by simp
  show "has_type ft v \<Longrightarrow> wire_type ft \<noteq> WIRETYPE_FIXED32 \<Longrightarrow> number_of ft v < 2 ^ 64"
    by (erule has_type_cases) (use unat_less64 up one in \<open>auto simp del: power_numeral\<close>)
  show "has_type ft v \<Longrightarrow> wire_type ft = WIRETYPE_FIXED32 \<Longrightarrow> number_of ft v < 2 ^ 32"
    by (erule has_type_cases) (use unat_less32 in \<open>auto simp del: power_numeral\<close>)
qed

lemma decode_encode_prim:
  assumes "has_type ft v"
  shows "decode_prim ft (encode_prim ft v @ r) = Some (v, r)"
proof -
  note val = value_of_number[OF assms]
  have "primitive ft" using assms by (rule has_type_primitive)
  then consider "wire_type ft = WIRETYPE_FIXED32" | "wire_type ft = WIRETYPE_FIXED64" | "wire_type ft = WIRETYPE_VARINT"
    by (cases ft) (simp_all add: primitive_def)
  then show ?thesis
  proof cases
    case 1
    have "from_le (le_bytes 4 (number_of ft v)) = number_of ft v"
      using number_less(2)[OF assms 1] by (intro from_le_bytes) simp
    then show ?thesis using 1 val by (simp add: decode_prim_def encode_prim_def decode_fixed_def)
  next
    case 2
    have "from_le (le_bytes 8 (number_of ft v)) = number_of ft v"
      using number_less(1)[OF assms] 2 by (intro from_le_bytes) simp
    then show ?thesis using 2 val by (simp add: decode_prim_def encode_prim_def decode_fixed_def)
  next
    case 3
    have "decode_varint kMaxVarintBytes (varint (number_of ft v) @ r) = Some (number_of ft v, r)"
      using number_less(1)[OF assms] 3 by (intro decode_varint_64) simp
    then show ?thesis using 3 val by (simp add: decode_prim_def encode_prim_def)
  qed
qed

text \<open>What a read of a value must do.\<close>

definition reads_prim ::
    "'z in_view \<Rightarrow> FieldType \<Rightarrow> 'z CodedInputStream \<Rightarrow> ((bool \<times> prim) \<times> 'z CodedInputStream) run \<Rightarrow> bool" where
  "reads_prim V ft st m \<longleftrightarrow>
    (case decode_prim ft (readable V st) of
       Some (v, r) \<Rightarrow> \<exists>st'. m = Inr ((True, v), st') \<and> leaves V st st' r
     | None \<Rightarrow> \<exists>v st'. m = Inr ((False, v), st'))"

lemma reads_prim_varint:
  assumes "reads_varint V st m" and "wire_type ft = WIRETYPE_VARINT"
    and "\<And>n. value_of ft n = f (of_nat n)"
  shows "reads_prim V ft st (bnd m (\<lambda>((ok, x), input). Inr ((ok, f x), input)))"
  using assms(1) by (auto simp: reads_varint_def reads_prim_def decode_prim_def assms(2,3) split: option.splits)

lemma reads_prim_fixed:
  assumes "reads_fixed k V st m"
    and "wire_type ft = WIRETYPE_FIXED32 \<and> k = 4 \<or> wire_type ft = WIRETYPE_FIXED64 \<and> k = 8"
    and "\<And>n. value_of ft n = f (of_nat n)"
  shows "reads_prim V ft st (bnd m (\<lambda>((ok, x), input). Inr ((ok, f x), input)))"
  using assms(1,2)
  by (auto simp: reads_fixed_def reads_prim_def decode_prim_def decode_fixed_def assms(3) split: if_splits)

lemma ReadPrimitive_reads:
  assumes "in_ok V F" and "wf_in st" and "primitive ft"
  shows "reads_prim V ft st (ReadPrimitive little F ft st)"
proof -
  note r32 = reads_prim_varint[OF ReadVarint32_decodes[OF assms(1,2)]]
  note r64 = reads_prim_varint[OF ReadVarint64_decodes[OF assms(1,2)]]
  note f32 = reads_prim_fixed[OF ReadLittleEndian32_reads[where little = little, OF assms(1,2)]]
  note f64 = reads_prim_fixed[OF ReadLittleEndian64_reads[where little = little, OF assms(1,2)]]
  show ?thesis
    by (cases ft; (use assms(3) in \<open>simp add: primitive_def\<close>)?)
      (unfold ReadPrimitive.simps DecodeFloat_def DecodeDouble_def, (rule r32 r64 f32 f64; simp)+)
qed

definition wire_width :: "FieldType \<Rightarrow> nat" where
  "wire_width ft = (case wire_type ft of WIRETYPE_FIXED32 \<Rightarrow> 4 | WIRETYPE_FIXED64 \<Rightarrow> 8 | _ \<Rightarrow> 0)"

definition fixed_type :: "FieldType \<Rightarrow> bool" where
  "fixed_type ft \<longleftrightarrow> wire_type ft = WIRETYPE_FIXED32 \<or> wire_type ft = WIRETYPE_FIXED64"

text \<open>Reading a value from an array, when it lies within.\<close>

lemma ReadPrimitiveFromArray_value:
  assumes "fixed_type ft" and "0 \<le> p" and "p + int (wire_width ft) \<le> int (length mem)"
  shows "ReadPrimitiveFromArray little ft mem p =
    Inr (value_of ft (from_le (take (wire_width ft) (drop (nat p) mem))), p + int (wire_width ft))"
  using assms(1) assms(3) ReadLittleEndian32FromArray_value[OF assms(2), of mem little]
    ReadLittleEndian64FromArray_value[OF assms(2), of mem little]
  by (cases ft) (simp_all add: fixed_type_def wire_width_def DecodeFloat_def DecodeDouble_def)

lemma decode_prim_fixed:
  "fixed_type ft \<Longrightarrow> decode_prim ft bs =
    (if wire_width ft \<le> length bs
     then Some (value_of ft (from_le (take (wire_width ft) bs)), drop (wire_width ft) bs) else None)"
  by (auto simp: fixed_type_def wire_width_def decode_prim_def decode_fixed_def)

end
