(* ===== verification/PbFlat.thy ===== *)
theory PbFlat
  imports PbInput PbOutput
begin

text \<open>
  Streams over memory alone: an input of one flat buffer (the constructor
  \<open>CodedInputStream(buffer, size)\<close>) whose library functions work on that buffer, and an output that
  collects what it is given. They show that the hypotheses \<open>in_ok\<close> and \<open>out_ok\<close> about the library
  can be met, and are what the concrete runs of the development use.
\<close>

section \<open>A flat input\<close>

definition flat_hidden :: "'z CodedInputStream \<Rightarrow> int \<Rightarrow> 8 word list" where
  "flat_hidden st lim =
    (if 0 \<le> ci_buffer_end st \<and> ci_buffer_end st \<le> lim \<and> lim \<le> int (length (ci_memory st))
     then take (nat (lim - ci_buffer_end st)) (drop (nat (ci_buffer_end st)) (ci_memory st)) else [])"

definition flat_view :: "'z in_view" where
  "flat_view = \<lparr>vw_tail = \<lambda>_. [], vw_hidden = flat_hidden, vw_limited = \<lambda>_. True\<rparr>"

definition flat_varint :: "'z CodedInputStream \<Rightarrow> (nat \<times> 'z CodedInputStream) option" where
  "flat_varint st = (case decode_varint kMaxVarintBytes (window st) of
     None \<Rightarrow> None
   | Some (n, r) \<Rightarrow> Some (n, ci_Advance (int (length (window st)) - int (length r)) st))"

definition flat_fixed :: "nat \<Rightarrow> 'z CodedInputStream \<Rightarrow> (bool \<times> 'a::len word) \<times> 'z CodedInputStream" where
  "flat_fixed k st =
    (if k \<le> length (window st) then ((True, of_nat (from_le (take k (window st)))), ci_Advance (int k) st)
     else ((False, 0), st))"

definition flat_push :: "int \<Rightarrow> 'z CodedInputStream \<Rightarrow> int \<times> 'z CodedInputStream" where
  "flat_push n st = (ci_buffer_end st, st\<lparr>ci_buffer_end := ci_buffer st + n\<rparr>)"

definition flat_pop :: "int \<Rightarrow> 'z CodedInputStream \<Rightarrow> 'z CodedInputStream" where
  "flat_pop lim st =
    (if ci_buffer_end st \<le> lim \<and> lim \<le> int (length (ci_memory st)) then st\<lparr>ci_buffer_end := lim\<rparr> else st)"

definition flat_ops :: "'z in_ops" where
  "flat_ops = \<lparr>
     io_Refresh = \<lambda>st. (False, st),
     io_ReadVarint32Fallback = \<lambda>_ st.
       (case flat_varint st of None \<Rightarrow> (- 1, st) | Some (n, st') \<Rightarrow> (int (n mod 2 ^ 32), st')),
     io_ReadVarint64Fallback = \<lambda>st.
       (case flat_varint st of None \<Rightarrow> ((0, False), st) | Some (n, st') \<Rightarrow> ((of_nat n, True), st')),
     io_ReadLittleEndian32Fallback = flat_fixed 4,
     io_ReadLittleEndian64Fallback = flat_fixed 8,
     io_ReadTagFallback = \<lambda>_ st.
       (case flat_varint st of None \<Rightarrow> (0, st\<lparr>ci_legitimate_message_end := window st = []\<rparr>)
        | Some (n, st') \<Rightarrow> (of_nat n, st')),
     io_PushLimit = flat_push,
     io_PopLimit = flat_pop,
     io_BytesUntilLimit = BufferSize,
     io_BytesUntilTotalBytesLimit = BufferSize,
     io_Skip = \<lambda>n st. (True, ci_Advance n st),
     io_ReadRaw = \<lambda>n st. ((True, take (nat n) (window st)), ci_Advance n st),
     io_IncrementRecursionDepthAndPushLimit = \<lambda>n st. (case flat_push n st of (lim, st') \<Rightarrow>
       ((lim, ci_recursion_budget st' - 1), st'\<lparr>ci_recursion_budget := ci_recursion_budget st' - 1\<rparr>)),
     io_ReadLengthAndPushLimit = \<lambda>st. (case flat_varint st of
         None \<Rightarrow> flat_push 0 st | Some (n, st') \<Rightarrow> flat_push (int n) st'),
     io_DecrementRecursionDepthAndPopLimit = \<lambda>lim st.
       (ConsumedEntireMessage st, (flat_pop lim st)\<lparr>ci_recursion_budget := ci_recursion_budget st + 1\<rparr>),
     io_CheckEntireMessageConsumedAndPopLimit = \<lambda>lim st. (ConsumedEntireMessage st, flat_pop lim st),
     io_default_recursion_limit = 100\<rparr>"

lemma flat_frame: "view_frame flat_view"
  by (simp add: view_frame_def flat_view_def flat_hidden_def Let_def fun_eq_iff)

lemma flat_readable [simp]: "readable flat_view st = window st"
  by (simp add: readable_def flat_view_def)

lemma flat_limited [simp]: "vw_limited flat_view st"
  by (simp add: flat_view_def)

lemma decode_varint_suffix: "decode_varint k bs = Some (n, r) \<Longrightarrow> r = drop (length bs - length r) bs \<and> length r \<le> length bs"
proof (induction k bs arbitrary: n rule: decode_varint.induct)
  case (3 k b bs)
  show ?case
  proof (cases "unat b < 128")
    case True
    then show ?thesis using "3.prems" by (simp add: Suc_diff_le)
  next
    case False
    then obtain n' where "decode_varint k bs = Some (n', r)"
      using "3.prems" by (auto split: option.splits)
    then show ?thesis using "3.IH"[OF False] by (simp add: Suc_diff_le)
  qed
qed simp_all

lemma flat_advance:
  assumes "wf_in st" and "k \<le> length (window st)"
  shows "leaves flat_view st (ci_Advance (int k) st) (drop k (window st))"
  using advance_leaves(1)[OF flat_frame assms] by simp

lemma flat_varint_reads:
  assumes "wf_in st" and "decode_varint kMaxVarintBytes (window st) = Some (n, r)"
  shows "\<exists>st'. flat_varint st = Some (n, st') \<and> leaves flat_view st st' r"
proof -
  have r: "r = drop (length (window st) - length r) (window st)" "length r \<le> length (window st)"
    using decode_varint_suffix[OF assms(2)] by simp_all
  have "int (length (window st)) - int (length r) = int (length (window st) - length r)" using r(2) by simp
  then have "flat_varint st = Some (n, ci_Advance (int (length (window st) - length r)) st)"
    using assms(2) by (simp only: flat_varint_def option.case prod.case)
  moreover have "leaves flat_view st (ci_Advance (int (length (window st) - length r)) st) r"
    using flat_advance[OF assms(1), of "length (window st) - length r"] unfolding r(1)[symmetric] by simp
  ultimately show ?thesis by blast
qed

lemma flat_varints_ok: "varints_ok flat_view flat_ops"
  unfolding varints_ok_def
proof (intro allI impI)
  fix st :: "'z CodedInputStream"
  assume wf: "wf_in st"
  show "case decode_varint kMaxVarintBytes (readable flat_view st) of
      Some (n, r) \<Rightarrow>
        (\<exists>st'. io_ReadVarint32Fallback flat_ops (first_byte st) st = (int (n mod 2 ^ 32), st') \<and> leaves flat_view st st' r) \<and>
        (\<exists>st'. io_ReadVarint64Fallback flat_ops st = ((of_nat n, True), st') \<and> leaves flat_view st st' r) \<and>
        (\<exists>st'. io_ReadTagFallback flat_ops (first_byte st) st = (of_nat n, st') \<and> leaves flat_view st st' r)
    | None \<Rightarrow> fst (io_ReadVarint32Fallback flat_ops (first_byte st) st) < 0 \<and>
        \<not> snd (fst (io_ReadVarint64Fallback flat_ops st)) \<and>
        fst (io_ReadTagFallback flat_ops (first_byte st) st) = 0"
  proof (cases "decode_varint kMaxVarintBytes (window st)")
    case None
    then have "flat_varint st = None" by (simp add: flat_varint_def)
    then show ?thesis using None by (simp add: flat_ops_def)
  next
    case (Some nr)
    obtain n r where nr: "nr = (n, r)" by (cases nr)
    obtain st' where "flat_varint st = Some (n, st')" "leaves flat_view st st' r"
      using flat_varint_reads[OF wf Some[unfolded nr]] by blast
    then show ?thesis using Some nr by (simp add: flat_ops_def)
  qed
qed

lemma flat_fixed_ok: "fixed_ok flat_view flat_ops"
  unfolding fixed_ok_def
proof (intro allI impI)
  fix st :: "'z CodedInputStream"
  assume "wf_in st"
  from flat_advance[OF this, of 4] flat_advance[OF this, of 8]
  show "(if 4 \<le> length (readable flat_view st)
      then \<exists>st'. io_ReadLittleEndian32Fallback flat_ops st =
              ((True, of_nat (from_le (take 4 (readable flat_view st)))), st') \<and>
             leaves flat_view st st' (drop 4 (readable flat_view st))
      else \<not> fst (fst (io_ReadLittleEndian32Fallback flat_ops st))) \<and>
     (if 8 \<le> length (readable flat_view st)
      then \<exists>st'. io_ReadLittleEndian64Fallback flat_ops st =
              ((True, of_nat (from_le (take 8 (readable flat_view st)))), st') \<and>
             leaves flat_view st st' (drop 8 (readable flat_view st))
      else \<not> fst (fst (io_ReadLittleEndian64Fallback flat_ops st)))"
    by (simp add: flat_ops_def flat_fixed_def)
qed

lemma window_split:
  assumes "wf_in st" and "n \<le> length (window st)"
  shows "window (st\<lparr>ci_buffer_end := ci_buffer st + int n\<rparr>) = take n (window st)"
    and "take (nat (BufferSize st - int n)) (drop (nat (ci_buffer st + int n)) (ci_memory st)) = drop n (window st)"
proof -
  have n: "int n \<le> BufferSize st" using assms length_window[OF assms(1)] by simp
  then show "window (st\<lparr>ci_buffer_end := ci_buffer st + int n\<rparr>) = take n (window st)"
    by (simp add: window_def BufferSize_def min_absorb1 nat_le_iff le_nat_iff)
  have "nat (ci_buffer st + int n) = n + nat (ci_buffer st)" "nat (BufferSize st - int n) = nat (BufferSize st) - n"
    using assms(1) n by (simp_all add: wf_in_def nat_add_distrib nat_diff_distrib')
  then show "take (nat (BufferSize st - int n)) (drop (nat (ci_buffer st + int n)) (ci_memory st)) = drop n (window st)"
    by (simp add: window_def drop_take)
qed

lemma flat_push_limits:
  assumes "wf_in st" and "n \<le> length (window st)"
  shows "\<exists>lim st'. flat_push (int n) st = (lim, st') \<and> wf_in st' \<and> window st' = take n (window st) \<and>
    flat_hidden st' lim = drop n (window st)"
proof -
  let ?st = "st\<lparr>ci_buffer_end := ci_buffer st + int n\<rparr>"
  have n: "ci_buffer st + int n \<le> ci_buffer_end st"
    using assms(2) length_window[OF assms(1)] by (simp add: BufferSize_def)
  have "wf_in ?st" using assms(1) n by (simp add: wf_in_def)
  moreover have "flat_hidden ?st (ci_buffer_end st) = drop n (window st)"
    using assms(1) n window_split(2)[OF assms] by (simp add: flat_hidden_def wf_in_def BufferSize_def diff_diff_eq)
  ultimately show ?thesis using window_split(1)[OF assms] by (simp add: flat_push_def)
qed

lemma flat_pop_limits:
  assumes "wf_in st"
  shows "wf_in (flat_pop lim st)" and "window (flat_pop lim st) = window st @ flat_hidden st lim"
proof -
  show "wf_in (flat_pop lim st)" using assms by (simp add: flat_pop_def wf_in_def)
  show "window (flat_pop lim st) = window st @ flat_hidden st lim"
  proof (cases "ci_buffer_end st \<le> lim \<and> lim \<le> int (length (ci_memory st))")
    case True
    have "nat (lim - ci_buffer st) = nat (BufferSize st) + nat (lim - ci_buffer_end st)"
      "nat (ci_buffer_end st) = nat (BufferSize st) + nat (ci_buffer st)"
      using assms True by (simp_all add: wf_in_def BufferSize_def nat_add_distrib [symmetric])
    then show ?thesis using True assms
      by (simp add: flat_pop_def window_def flat_hidden_def wf_in_def BufferSize_def take_add)
  next
    case False
    then show ?thesis using assms by (auto simp: flat_pop_def flat_hidden_def wf_in_def)
  qed
qed

lemma flat_limits_ok: "limits_ok flat_view flat_ops"
  unfolding limits_ok_def
proof (intro allI impI conjI)
  fix st :: "'z CodedInputStream" and n lim
  assume wf: "wf_in st"
  show "wf_in (io_PopLimit flat_ops lim st)"
    and "readable flat_view (io_PopLimit flat_ops lim st) = readable flat_view st @ vw_hidden flat_view st lim"
    using flat_pop_limits[OF wf] by (simp_all add: flat_ops_def) (simp add: flat_view_def)
  show "io_BytesUntilLimit flat_ops st = int (length (readable flat_view st))"
    using length_window[OF wf] by (simp add: flat_ops_def)
  assume "n \<le> length (readable flat_view st)"
  then show "\<exists>lim st'. io_PushLimit flat_ops (int n) st = (lim, st') \<and> wf_in st' \<and>
      readable flat_view st' = take n (readable flat_view st) \<and>
      vw_hidden flat_view st' lim = drop n (readable flat_view st) \<and> vw_limited flat_view st'"
    using flat_push_limits[OF wf, of n] by (auto simp: flat_ops_def) (auto simp: flat_view_def)
qed

lemma flat_raw_ok: "raw_ok flat_view flat_ops"
  by (auto simp: raw_ok_def flat_ops_def intro: flat_advance)

lemma flat_in_ok: "in_ok flat_view flat_ops"
  by (simp add: in_ok_def flat_frame flat_varints_ok flat_fixed_ok flat_limits_ok flat_raw_ok)

definition flat_stream :: "8 word list \<Rightarrow> unit CodedInputStream" where
  "flat_stream bs = ci_new_array flat_ops bs (int (length bs))"

lemma flat_stream_ok [simp]: "wf_in (flat_stream bs)" "window (flat_stream bs) = bs"
  by (simp_all add: flat_stream_def ci_new_array_def wf_in_def window_def BufferSize_def)

section \<open>An output that collects\<close>

definition sink_put :: "8 word list \<Rightarrow> 8 word list CodedOutputStream \<Rightarrow> 8 word list CodedOutputStream" where
  "sink_put bs st = (let out = co_output st @ take (nat (co_buffer st)) (co_memory st) @ bs in
     st\<lparr>co_output := out, co_memory := [], co_buffer := 0, co_buffer_size := 0,
        co_total_bytes := int (length out)\<rparr>)"

definition sink_ops :: "8 word list out_ops" where
  "sink_ops = \<lparr>
     oo_WriteVarint32SlowPath = \<lambda>v. sink_put (varint (unat v)),
     oo_WriteVarint64 = \<lambda>v. sink_put (varint (unat v)),
     oo_WriteLittleEndian32 = \<lambda>v. sink_put (le_bytes 4 (unat v)),
     oo_WriteLittleEndian64 = \<lambda>v. sink_put (le_bytes 8 (unat v)),
     oo_WriteRaw = sink_put,
     oo_WriteAliasedRaw = sink_put,
     oo_WriteVarint64ToArray = \<lambda>v. memcpy_to (varint (unat v)),
     oo_WriteRawToArray = memcpy_to,
     oo_WriteStringWithSizeToArray = \<lambda>s. memcpy_to (varint (length s) @ s),
     oo_VarintSize32Fallback = \<lambda>v. int (length (varint (unat v))),
     oo_VarintSize64 = \<lambda>v. int (length (varint (unat v)))\<rparr>"

definition sink_bytes :: "8 word list \<Rightarrow> 8 word list" where
  "sink_bytes out = out"

lemma sink_put_appends: "appends sink_bytes (\<lambda>st. Inr (sink_put bs st)) bs"
  by (simp add: appends_def sink_put_def sink_bytes_def wf_out_def emitted_def Let_def)

lemma sink_out_ok: "out_ok sink_bytes sink_ops"
  using sink_put_appends writes_memcpy by (simp add: out_ok_def sink_ops_def)

end
