(* ===== verification/PbWireWrite.thy ===== *)
theory PbWireWrite
  imports PbWire PbFlat
begin

text \<open>
  The writers of \<open>include/google/protobuf/wire_format_lite_inl.h\<close>, one definition for each: a value
  to a stream, a value at a target, and a field (tag and value) at a target; strings, groups and
  messages. Shown: both ways write the same bytes, exactly as many as the size functions say, and
  \<open>ReadPrimitive\<close> reads the value back.
\<close>

section \<open>Tags\<close>

definition WriteTag ::
    "'o out_ops \<Rightarrow> 32 word \<Rightarrow> WireType \<Rightarrow> 'o CodedOutputStream \<Rightarrow> 'o CodedOutputStream run" where
  "WriteTag F field_number type st = co_WriteTag F (MakeTag field_number type) st"

definition WriteTagToArray :: "32 word \<Rightarrow> WireType \<Rightarrow> target \<Rightarrow> target run" where
  "WriteTagToArray field_number type t = co_WriteTagToArray (MakeTag field_number type) t"

section \<open>Writing to a stream\<close>

definition WriteInt32NoTag ::
    "'o out_ops \<Rightarrow> 32 word \<Rightarrow> 'o CodedOutputStream \<Rightarrow> 'o CodedOutputStream run" where
  "WriteInt32NoTag F value st = WriteVarint32SignExtended F value st"

definition WriteInt64NoTag ::
    "'o out_ops \<Rightarrow> 64 word \<Rightarrow> 'o CodedOutputStream \<Rightarrow> 'o CodedOutputStream run" where
  "WriteInt64NoTag F value st = Inr (oo_WriteVarint64 F value st)"

definition WriteUInt32NoTag ::
    "'o out_ops \<Rightarrow> 32 word \<Rightarrow> 'o CodedOutputStream \<Rightarrow> 'o CodedOutputStream run" where
  "WriteUInt32NoTag F value st = WriteVarint32 F value st"

definition WriteUInt64NoTag ::
    "'o out_ops \<Rightarrow> 64 word \<Rightarrow> 'o CodedOutputStream \<Rightarrow> 'o CodedOutputStream run" where
  "WriteUInt64NoTag F value st = Inr (oo_WriteVarint64 F value st)"

definition WriteSInt32NoTag ::
    "'o out_ops \<Rightarrow> 32 word \<Rightarrow> 'o CodedOutputStream \<Rightarrow> 'o CodedOutputStream run" where
  "WriteSInt32NoTag F value st = WriteVarint32 F (ZigZagEncode32 value) st"

definition WriteSInt64NoTag ::
    "'o out_ops \<Rightarrow> 64 word \<Rightarrow> 'o CodedOutputStream \<Rightarrow> 'o CodedOutputStream run" where
  "WriteSInt64NoTag F value st = Inr (oo_WriteVarint64 F (ZigZagEncode64 value) st)"

definition WriteFixed32NoTag ::
    "'o out_ops \<Rightarrow> 32 word \<Rightarrow> 'o CodedOutputStream \<Rightarrow> 'o CodedOutputStream run" where
  "WriteFixed32NoTag F value st = Inr (oo_WriteLittleEndian32 F value st)"

definition WriteFixed64NoTag ::
    "'o out_ops \<Rightarrow> 64 word \<Rightarrow> 'o CodedOutputStream \<Rightarrow> 'o CodedOutputStream run" where
  "WriteFixed64NoTag F value st = Inr (oo_WriteLittleEndian64 F value st)"

definition WriteSFixed32NoTag ::
    "'o out_ops \<Rightarrow> 32 word \<Rightarrow> 'o CodedOutputStream \<Rightarrow> 'o CodedOutputStream run" where
  "WriteSFixed32NoTag F value st = Inr (oo_WriteLittleEndian32 F value st)"

definition WriteSFixed64NoTag ::
    "'o out_ops \<Rightarrow> 64 word \<Rightarrow> 'o CodedOutputStream \<Rightarrow> 'o CodedOutputStream run" where
  "WriteSFixed64NoTag F value st = Inr (oo_WriteLittleEndian64 F value st)"

definition WriteFloatNoTag ::
    "'o out_ops \<Rightarrow> 32 word \<Rightarrow> 'o CodedOutputStream \<Rightarrow> 'o CodedOutputStream run" where
  "WriteFloatNoTag F value st = Inr (oo_WriteLittleEndian32 F (EncodeFloat value) st)"

definition WriteDoubleNoTag ::
    "'o out_ops \<Rightarrow> 64 word \<Rightarrow> 'o CodedOutputStream \<Rightarrow> 'o CodedOutputStream run" where
  "WriteDoubleNoTag F value st = Inr (oo_WriteLittleEndian64 F (EncodeDouble value) st)"

definition WriteBoolNoTag ::
    "'o out_ops \<Rightarrow> bool \<Rightarrow> 'o CodedOutputStream \<Rightarrow> 'o CodedOutputStream run" where
  "WriteBoolNoTag F value st = WriteVarint32 F (if value then 1 else 0) st"

definition WriteEnumNoTag ::
    "'o out_ops \<Rightarrow> 32 word \<Rightarrow> 'o CodedOutputStream \<Rightarrow> 'o CodedOutputStream run" where
  "WriteEnumNoTag F value st = WriteVarint32SignExtended F value st"

section \<open>Writing at a target\<close>

definition WriteInt32NoTagToArray :: "bool \<Rightarrow> 'o out_ops \<Rightarrow> 32 word \<Rightarrow> target \<Rightarrow> target run" where
  "WriteInt32NoTagToArray little F value t = WriteVarint32SignExtendedToArray F value t"

definition WriteInt64NoTagToArray :: "bool \<Rightarrow> 'o out_ops \<Rightarrow> 64 word \<Rightarrow> target \<Rightarrow> target run" where
  "WriteInt64NoTagToArray little F value t = oo_WriteVarint64ToArray F value t"

definition WriteUInt32NoTagToArray :: "bool \<Rightarrow> 'o out_ops \<Rightarrow> 32 word \<Rightarrow> target \<Rightarrow> target run" where
  "WriteUInt32NoTagToArray little F value t = WriteVarint32ToArray value t"

definition WriteUInt64NoTagToArray :: "bool \<Rightarrow> 'o out_ops \<Rightarrow> 64 word \<Rightarrow> target \<Rightarrow> target run" where
  "WriteUInt64NoTagToArray little F value t = oo_WriteVarint64ToArray F value t"

definition WriteSInt32NoTagToArray :: "bool \<Rightarrow> 'o out_ops \<Rightarrow> 32 word \<Rightarrow> target \<Rightarrow> target run" where
  "WriteSInt32NoTagToArray little F value t = WriteVarint32ToArray (ZigZagEncode32 value) t"

definition WriteSInt64NoTagToArray :: "bool \<Rightarrow> 'o out_ops \<Rightarrow> 64 word \<Rightarrow> target \<Rightarrow> target run" where
  "WriteSInt64NoTagToArray little F value t = oo_WriteVarint64ToArray F (ZigZagEncode64 value) t"

definition WriteFixed32NoTagToArray :: "bool \<Rightarrow> 'o out_ops \<Rightarrow> 32 word \<Rightarrow> target \<Rightarrow> target run" where
  "WriteFixed32NoTagToArray little F value t = WriteLittleEndian32ToArray little value t"

definition WriteFixed64NoTagToArray :: "bool \<Rightarrow> 'o out_ops \<Rightarrow> 64 word \<Rightarrow> target \<Rightarrow> target run" where
  "WriteFixed64NoTagToArray little F value t = WriteLittleEndian64ToArray little value t"

definition WriteSFixed32NoTagToArray :: "bool \<Rightarrow> 'o out_ops \<Rightarrow> 32 word \<Rightarrow> target \<Rightarrow> target run" where
  "WriteSFixed32NoTagToArray little F value t = WriteLittleEndian32ToArray little value t"

definition WriteSFixed64NoTagToArray :: "bool \<Rightarrow> 'o out_ops \<Rightarrow> 64 word \<Rightarrow> target \<Rightarrow> target run" where
  "WriteSFixed64NoTagToArray little F value t = WriteLittleEndian64ToArray little value t"

definition WriteFloatNoTagToArray :: "bool \<Rightarrow> 'o out_ops \<Rightarrow> 32 word \<Rightarrow> target \<Rightarrow> target run" where
  "WriteFloatNoTagToArray little F value t = WriteLittleEndian32ToArray little (EncodeFloat value) t"

definition WriteDoubleNoTagToArray :: "bool \<Rightarrow> 'o out_ops \<Rightarrow> 64 word \<Rightarrow> target \<Rightarrow> target run" where
  "WriteDoubleNoTagToArray little F value t = WriteLittleEndian64ToArray little (EncodeDouble value) t"

definition WriteBoolNoTagToArray :: "bool \<Rightarrow> 'o out_ops \<Rightarrow> bool \<Rightarrow> target \<Rightarrow> target run" where
  "WriteBoolNoTagToArray little F value t = WriteVarint32ToArray (if value then 1 else 0) t"

definition WriteEnumNoTagToArray :: "bool \<Rightarrow> 'o out_ops \<Rightarrow> 32 word \<Rightarrow> target \<Rightarrow> target run" where
  "WriteEnumNoTagToArray little F value t = WriteVarint32SignExtendedToArray F value t"

definition WriteInt32ToArray ::
    "bool \<Rightarrow> 'o out_ops \<Rightarrow> 32 word \<Rightarrow> 32 word \<Rightarrow> target \<Rightarrow> target run" where
  "WriteInt32ToArray little F field_number value t =
    bnd (WriteTagToArray field_number WIRETYPE_VARINT t) (WriteInt32NoTagToArray little F value)"

definition WriteInt64ToArray ::
    "bool \<Rightarrow> 'o out_ops \<Rightarrow> 32 word \<Rightarrow> 64 word \<Rightarrow> target \<Rightarrow> target run" where
  "WriteInt64ToArray little F field_number value t =
    bnd (WriteTagToArray field_number WIRETYPE_VARINT t) (WriteInt64NoTagToArray little F value)"

definition WriteUInt32ToArray ::
    "bool \<Rightarrow> 'o out_ops \<Rightarrow> 32 word \<Rightarrow> 32 word \<Rightarrow> target \<Rightarrow> target run" where
  "WriteUInt32ToArray little F field_number value t =
    bnd (WriteTagToArray field_number WIRETYPE_VARINT t) (WriteUInt32NoTagToArray little F value)"

definition WriteUInt64ToArray ::
    "bool \<Rightarrow> 'o out_ops \<Rightarrow> 32 word \<Rightarrow> 64 word \<Rightarrow> target \<Rightarrow> target run" where
  "WriteUInt64ToArray little F field_number value t =
    bnd (WriteTagToArray field_number WIRETYPE_VARINT t) (WriteUInt64NoTagToArray little F value)"

definition WriteSInt32ToArray ::
    "bool \<Rightarrow> 'o out_ops \<Rightarrow> 32 word \<Rightarrow> 32 word \<Rightarrow> target \<Rightarrow> target run" where
  "WriteSInt32ToArray little F field_number value t =
    bnd (WriteTagToArray field_number WIRETYPE_VARINT t) (WriteSInt32NoTagToArray little F value)"

definition WriteSInt64ToArray ::
    "bool \<Rightarrow> 'o out_ops \<Rightarrow> 32 word \<Rightarrow> 64 word \<Rightarrow> target \<Rightarrow> target run" where
  "WriteSInt64ToArray little F field_number value t =
    bnd (WriteTagToArray field_number WIRETYPE_VARINT t) (WriteSInt64NoTagToArray little F value)"

definition WriteFixed32ToArray ::
    "bool \<Rightarrow> 'o out_ops \<Rightarrow> 32 word \<Rightarrow> 32 word \<Rightarrow> target \<Rightarrow> target run" where
  "WriteFixed32ToArray little F field_number value t =
    bnd (WriteTagToArray field_number WIRETYPE_FIXED32 t) (WriteFixed32NoTagToArray little F value)"

definition WriteFixed64ToArray ::
    "bool \<Rightarrow> 'o out_ops \<Rightarrow> 32 word \<Rightarrow> 64 word \<Rightarrow> target \<Rightarrow> target run" where
  "WriteFixed64ToArray little F field_number value t =
    bnd (WriteTagToArray field_number WIRETYPE_FIXED64 t) (WriteFixed64NoTagToArray little F value)"

definition WriteSFixed32ToArray ::
    "bool \<Rightarrow> 'o out_ops \<Rightarrow> 32 word \<Rightarrow> 32 word \<Rightarrow> target \<Rightarrow> target run" where
  "WriteSFixed32ToArray little F field_number value t =
    bnd (WriteTagToArray field_number WIRETYPE_FIXED32 t) (WriteSFixed32NoTagToArray little F value)"

definition WriteSFixed64ToArray ::
    "bool \<Rightarrow> 'o out_ops \<Rightarrow> 32 word \<Rightarrow> 64 word \<Rightarrow> target \<Rightarrow> target run" where
  "WriteSFixed64ToArray little F field_number value t =
    bnd (WriteTagToArray field_number WIRETYPE_FIXED64 t) (WriteSFixed64NoTagToArray little F value)"

definition WriteFloatToArray ::
    "bool \<Rightarrow> 'o out_ops \<Rightarrow> 32 word \<Rightarrow> 32 word \<Rightarrow> target \<Rightarrow> target run" where
  "WriteFloatToArray little F field_number value t =
    bnd (WriteTagToArray field_number WIRETYPE_FIXED32 t) (WriteFloatNoTagToArray little F value)"

definition WriteDoubleToArray ::
    "bool \<Rightarrow> 'o out_ops \<Rightarrow> 32 word \<Rightarrow> 64 word \<Rightarrow> target \<Rightarrow> target run" where
  "WriteDoubleToArray little F field_number value t =
    bnd (WriteTagToArray field_number WIRETYPE_FIXED64 t) (WriteDoubleNoTagToArray little F value)"

definition WriteBoolToArray ::
    "bool \<Rightarrow> 'o out_ops \<Rightarrow> 32 word \<Rightarrow> bool \<Rightarrow> target \<Rightarrow> target run" where
  "WriteBoolToArray little F field_number value t =
    bnd (WriteTagToArray field_number WIRETYPE_VARINT t) (WriteBoolNoTagToArray little F value)"

definition WriteEnumToArray ::
    "bool \<Rightarrow> 'o out_ops \<Rightarrow> 32 word \<Rightarrow> 32 word \<Rightarrow> target \<Rightarrow> target run" where
  "WriteEnumToArray little F field_number value t =
    bnd (WriteTagToArray field_number WIRETYPE_VARINT t) (WriteEnumNoTagToArray little F value)"

section \<open>Strings, groups and messages\<close>

definition WriteStringToArray :: "'o out_ops \<Rightarrow> 32 word \<Rightarrow> 8 word list \<Rightarrow> target \<Rightarrow> target run" where
  "WriteStringToArray F field_number value t =
    bnd (WriteTagToArray field_number WIRETYPE_LENGTH_DELIMITED t) (oo_WriteStringWithSizeToArray F value)"

definition WriteBytesToArray :: "'o out_ops \<Rightarrow> 32 word \<Rightarrow> 8 word list \<Rightarrow> target \<Rightarrow> target run" where
  "WriteBytesToArray F field_number value t =
    bnd (WriteTagToArray field_number WIRETYPE_LENGTH_DELIMITED t) (oo_WriteStringWithSizeToArray F value)"

text \<open>What the generated class of a message offers; the \<open>NoVirtual\<close> variants call the same
  methods without dispatch.\<close>

record ('m, 'o) message_out =
  mo_ByteSize :: "'m \<Rightarrow> int"
  mo_GetCachedSize :: "'m \<Rightarrow> int"
  mo_SerializeWithCachedSizes :: "'m \<Rightarrow> 'o CodedOutputStream \<Rightarrow> 'o CodedOutputStream run"
  mo_SerializeWithCachedSizesToArray :: "'m \<Rightarrow> target \<Rightarrow> target run"

definition WriteGroupNoVirtual ::
    "'o out_ops \<Rightarrow> ('m, 'o) message_out \<Rightarrow> 32 word \<Rightarrow> 'm \<Rightarrow> 'o CodedOutputStream \<Rightarrow> 'o CodedOutputStream run" where
  "WriteGroupNoVirtual F M field_number value st =
    bnd (WriteTag F field_number WIRETYPE_START_GROUP st) (\<lambda>st.
    bnd (mo_SerializeWithCachedSizes M value st) (WriteTag F field_number WIRETYPE_END_GROUP))"

definition WriteMessageNoVirtual ::
    "'o out_ops \<Rightarrow> ('m, 'o) message_out \<Rightarrow> 32 word \<Rightarrow> 'm \<Rightarrow> 'o CodedOutputStream \<Rightarrow> 'o CodedOutputStream run" where
  "WriteMessageNoVirtual F M field_number value st =
    bnd (WriteTag F field_number WIRETYPE_LENGTH_DELIMITED st) (\<lambda>st.
    bnd (WriteVarint32 F (word_of_int (mo_GetCachedSize M value)) st) (mo_SerializeWithCachedSizes M value))"

definition WriteGroupToArray :: "('m, 'o) message_out \<Rightarrow> 32 word \<Rightarrow> 'm \<Rightarrow> target \<Rightarrow> target run" where
  "WriteGroupToArray M field_number value t =
    bnd (WriteTagToArray field_number WIRETYPE_START_GROUP t) (\<lambda>t.
    bnd (mo_SerializeWithCachedSizesToArray M value t) (WriteTagToArray field_number WIRETYPE_END_GROUP))"

definition WriteMessageToArray :: "('m, 'o) message_out \<Rightarrow> 32 word \<Rightarrow> 'm \<Rightarrow> target \<Rightarrow> target run" where
  "WriteMessageToArray M field_number value t =
    bnd (WriteTagToArray field_number WIRETYPE_LENGTH_DELIMITED t) (\<lambda>t.
    bnd (WriteVarint32ToArray (word_of_int (mo_GetCachedSize M value)) t)
      (mo_SerializeWithCachedSizesToArray M value))"

definition WriteGroupNoVirtualToArray :: "('m, 'o) message_out \<Rightarrow> 32 word \<Rightarrow> 'm \<Rightarrow> target \<Rightarrow> target run" where
  "WriteGroupNoVirtualToArray M field_number value t =
    bnd (WriteTagToArray field_number WIRETYPE_START_GROUP t) (\<lambda>t.
    bnd (mo_SerializeWithCachedSizesToArray M value t) (WriteTagToArray field_number WIRETYPE_END_GROUP))"

definition WriteMessageNoVirtualToArray :: "('m, 'o) message_out \<Rightarrow> 32 word \<Rightarrow> 'm \<Rightarrow> target \<Rightarrow> target run" where
  "WriteMessageNoVirtualToArray M field_number value t =
    bnd (WriteTagToArray field_number WIRETYPE_LENGTH_DELIMITED t) (\<lambda>t.
    bnd (WriteVarint32ToArray (word_of_int (mo_GetCachedSize M value)) t)
      (mo_SerializeWithCachedSizesToArray M value))"

definition GroupSize :: "('m, 'o) message_out \<Rightarrow> 'm \<Rightarrow> int" where
  "GroupSize M value = mo_ByteSize M value"

definition MessageSize :: "'o out_ops \<Rightarrow> ('m, 'o) message_out \<Rightarrow> 'm \<Rightarrow> int" where
  "MessageSize F M value = LengthDelimitedSize F (mo_ByteSize M value)"

definition GroupSizeNoVirtual :: "('m, 'o) message_out \<Rightarrow> 'm \<Rightarrow> int" where
  "GroupSizeNoVirtual M value = mo_ByteSize M value"

definition MessageSizeNoVirtual :: "'o out_ops \<Rightarrow> ('m, 'o) message_out \<Rightarrow> 'm \<Rightarrow> int" where
  "MessageSizeNoVirtual F M value = LengthDelimitedSize F (mo_ByteSize M value)"

section \<open>The writers by field type\<close>

text \<open>Which writer a field type uses; a value of another type does not compile.\<close>

fun stream_value ::
    "'o out_ops \<Rightarrow> FieldType \<Rightarrow> prim \<Rightarrow> 'o CodedOutputStream \<Rightarrow> 'o CodedOutputStream run" where
  "stream_value F ft (P_int32 v) =
    (case ft of TYPE_INT32 \<Rightarrow> WriteInt32NoTag F v
     | TYPE_SINT32 \<Rightarrow> WriteSInt32NoTag F v
     | TYPE_SFIXED32 \<Rightarrow> WriteSFixed32NoTag F v
     | _ \<Rightarrow> (\<lambda>_. Inl CheckFailed))"
| "stream_value F ft (P_int64 v) =
    (case ft of TYPE_INT64 \<Rightarrow> WriteInt64NoTag F v
     | TYPE_SINT64 \<Rightarrow> WriteSInt64NoTag F v
     | TYPE_SFIXED64 \<Rightarrow> WriteSFixed64NoTag F v
     | _ \<Rightarrow> (\<lambda>_. Inl CheckFailed))"
| "stream_value F ft (P_uint32 v) =
    (case ft of TYPE_UINT32 \<Rightarrow> WriteUInt32NoTag F v
     | TYPE_FIXED32 \<Rightarrow> WriteFixed32NoTag F v
     | _ \<Rightarrow> (\<lambda>_. Inl CheckFailed))"
| "stream_value F ft (P_uint64 v) =
    (case ft of TYPE_UINT64 \<Rightarrow> WriteUInt64NoTag F v
     | TYPE_FIXED64 \<Rightarrow> WriteFixed64NoTag F v
     | _ \<Rightarrow> (\<lambda>_. Inl CheckFailed))"
| "stream_value F ft (P_float v) =
    (case ft of TYPE_FLOAT \<Rightarrow> WriteFloatNoTag F v
     | _ \<Rightarrow> (\<lambda>_. Inl CheckFailed))"
| "stream_value F ft (P_double v) =
    (case ft of TYPE_DOUBLE \<Rightarrow> WriteDoubleNoTag F v
     | _ \<Rightarrow> (\<lambda>_. Inl CheckFailed))"
| "stream_value F ft (P_bool v) =
    (case ft of TYPE_BOOL \<Rightarrow> WriteBoolNoTag F v
     | _ \<Rightarrow> (\<lambda>_. Inl CheckFailed))"
| "stream_value F ft (P_int v) =
    (case ft of TYPE_ENUM \<Rightarrow> WriteEnumNoTag F v
     | _ \<Rightarrow> (\<lambda>_. Inl CheckFailed))"

fun array_value ::
    "bool \<Rightarrow> 'o out_ops \<Rightarrow> FieldType \<Rightarrow> prim \<Rightarrow> target \<Rightarrow> target run" where
  "array_value little F ft (P_int32 v) =
    (case ft of TYPE_INT32 \<Rightarrow> WriteInt32NoTagToArray little F v
     | TYPE_SINT32 \<Rightarrow> WriteSInt32NoTagToArray little F v
     | TYPE_SFIXED32 \<Rightarrow> WriteSFixed32NoTagToArray little F v
     | _ \<Rightarrow> (\<lambda>_. Inl CheckFailed))"
| "array_value little F ft (P_int64 v) =
    (case ft of TYPE_INT64 \<Rightarrow> WriteInt64NoTagToArray little F v
     | TYPE_SINT64 \<Rightarrow> WriteSInt64NoTagToArray little F v
     | TYPE_SFIXED64 \<Rightarrow> WriteSFixed64NoTagToArray little F v
     | _ \<Rightarrow> (\<lambda>_. Inl CheckFailed))"
| "array_value little F ft (P_uint32 v) =
    (case ft of TYPE_UINT32 \<Rightarrow> WriteUInt32NoTagToArray little F v
     | TYPE_FIXED32 \<Rightarrow> WriteFixed32NoTagToArray little F v
     | _ \<Rightarrow> (\<lambda>_. Inl CheckFailed))"
| "array_value little F ft (P_uint64 v) =
    (case ft of TYPE_UINT64 \<Rightarrow> WriteUInt64NoTagToArray little F v
     | TYPE_FIXED64 \<Rightarrow> WriteFixed64NoTagToArray little F v
     | _ \<Rightarrow> (\<lambda>_. Inl CheckFailed))"
| "array_value little F ft (P_float v) =
    (case ft of TYPE_FLOAT \<Rightarrow> WriteFloatNoTagToArray little F v
     | _ \<Rightarrow> (\<lambda>_. Inl CheckFailed))"
| "array_value little F ft (P_double v) =
    (case ft of TYPE_DOUBLE \<Rightarrow> WriteDoubleNoTagToArray little F v
     | _ \<Rightarrow> (\<lambda>_. Inl CheckFailed))"
| "array_value little F ft (P_bool v) =
    (case ft of TYPE_BOOL \<Rightarrow> WriteBoolNoTagToArray little F v
     | _ \<Rightarrow> (\<lambda>_. Inl CheckFailed))"
| "array_value little F ft (P_int v) =
    (case ft of TYPE_ENUM \<Rightarrow> WriteEnumNoTagToArray little F v
     | _ \<Rightarrow> (\<lambda>_. Inl CheckFailed))"

fun array_field ::
    "bool \<Rightarrow> 'o out_ops \<Rightarrow> 32 word \<Rightarrow> FieldType \<Rightarrow> prim \<Rightarrow> target \<Rightarrow> target run" where
  "array_field little F k ft (P_int32 v) =
    (case ft of TYPE_INT32 \<Rightarrow> WriteInt32ToArray little F k v
     | TYPE_SINT32 \<Rightarrow> WriteSInt32ToArray little F k v
     | TYPE_SFIXED32 \<Rightarrow> WriteSFixed32ToArray little F k v
     | _ \<Rightarrow> (\<lambda>_. Inl CheckFailed))"
| "array_field little F k ft (P_int64 v) =
    (case ft of TYPE_INT64 \<Rightarrow> WriteInt64ToArray little F k v
     | TYPE_SINT64 \<Rightarrow> WriteSInt64ToArray little F k v
     | TYPE_SFIXED64 \<Rightarrow> WriteSFixed64ToArray little F k v
     | _ \<Rightarrow> (\<lambda>_. Inl CheckFailed))"
| "array_field little F k ft (P_uint32 v) =
    (case ft of TYPE_UINT32 \<Rightarrow> WriteUInt32ToArray little F k v
     | TYPE_FIXED32 \<Rightarrow> WriteFixed32ToArray little F k v
     | _ \<Rightarrow> (\<lambda>_. Inl CheckFailed))"
| "array_field little F k ft (P_uint64 v) =
    (case ft of TYPE_UINT64 \<Rightarrow> WriteUInt64ToArray little F k v
     | TYPE_FIXED64 \<Rightarrow> WriteFixed64ToArray little F k v
     | _ \<Rightarrow> (\<lambda>_. Inl CheckFailed))"
| "array_field little F k ft (P_float v) =
    (case ft of TYPE_FLOAT \<Rightarrow> WriteFloatToArray little F k v
     | _ \<Rightarrow> (\<lambda>_. Inl CheckFailed))"
| "array_field little F k ft (P_double v) =
    (case ft of TYPE_DOUBLE \<Rightarrow> WriteDoubleToArray little F k v
     | _ \<Rightarrow> (\<lambda>_. Inl CheckFailed))"
| "array_field little F k ft (P_bool v) =
    (case ft of TYPE_BOOL \<Rightarrow> WriteBoolToArray little F k v
     | _ \<Rightarrow> (\<lambda>_. Inl CheckFailed))"
| "array_field little F k ft (P_int v) =
    (case ft of TYPE_ENUM \<Rightarrow> WriteEnumToArray little F k v
     | _ \<Rightarrow> (\<lambda>_. Inl CheckFailed))"

fun value_size ::
    "'o out_ops \<Rightarrow> FieldType \<Rightarrow> prim \<Rightarrow> int" where
  "value_size F ft (P_int32 v) =
    (case ft of TYPE_INT32 \<Rightarrow> Int32Size F v
     | TYPE_SINT32 \<Rightarrow> SInt32Size F v
     | TYPE_SFIXED32 \<Rightarrow> kSFixed32Size
     | _ \<Rightarrow> 0)"
| "value_size F ft (P_int64 v) =
    (case ft of TYPE_INT64 \<Rightarrow> Int64Size F v
     | TYPE_SINT64 \<Rightarrow> SInt64Size F v
     | TYPE_SFIXED64 \<Rightarrow> kSFixed64Size
     | _ \<Rightarrow> 0)"
| "value_size F ft (P_uint32 v) =
    (case ft of TYPE_UINT32 \<Rightarrow> UInt32Size F v
     | TYPE_FIXED32 \<Rightarrow> kFixed32Size
     | _ \<Rightarrow> 0)"
| "value_size F ft (P_uint64 v) =
    (case ft of TYPE_UINT64 \<Rightarrow> UInt64Size F v
     | TYPE_FIXED64 \<Rightarrow> kFixed64Size
     | _ \<Rightarrow> 0)"
| "value_size F ft (P_float v) =
    (case ft of TYPE_FLOAT \<Rightarrow> kFloatSize
     | _ \<Rightarrow> 0)"
| "value_size F ft (P_double v) =
    (case ft of TYPE_DOUBLE \<Rightarrow> kDoubleSize
     | _ \<Rightarrow> 0)"
| "value_size F ft (P_bool v) =
    (case ft of TYPE_BOOL \<Rightarrow> kBoolSize
     | _ \<Rightarrow> 0)"
| "value_size F ft (P_int v) =
    (case ft of TYPE_ENUM \<Rightarrow> EnumSize F v
     | _ \<Rightarrow> 0)"

section \<open>What the writers write\<close>

lemmas stream_writer_defs =
  WriteInt32NoTag_def WriteInt64NoTag_def WriteUInt32NoTag_def WriteUInt64NoTag_def
  WriteSInt32NoTag_def WriteSInt64NoTag_def WriteFixed32NoTag_def WriteFixed64NoTag_def
  WriteSFixed32NoTag_def WriteSFixed64NoTag_def WriteFloatNoTag_def WriteDoubleNoTag_def
  WriteBoolNoTag_def WriteEnumNoTag_def

lemmas array_writer_defs =
  WriteInt32NoTagToArray_def WriteInt64NoTagToArray_def WriteUInt32NoTagToArray_def WriteUInt64NoTagToArray_def
  WriteSInt32NoTagToArray_def WriteSInt64NoTagToArray_def WriteFixed32NoTagToArray_def WriteFixed64NoTagToArray_def
  WriteSFixed32NoTagToArray_def WriteSFixed64NoTagToArray_def WriteFloatNoTagToArray_def WriteDoubleNoTagToArray_def
  WriteBoolNoTagToArray_def WriteEnumNoTagToArray_def

lemmas field_writer_defs =
  WriteInt32ToArray_def WriteInt64ToArray_def WriteUInt32ToArray_def WriteUInt64ToArray_def
  WriteSInt32ToArray_def WriteSInt64ToArray_def WriteFixed32ToArray_def WriteFixed64ToArray_def
  WriteSFixed32ToArray_def WriteSFixed64ToArray_def WriteFloatToArray_def WriteDoubleToArray_def
  WriteBoolToArray_def WriteEnumToArray_def

lemmas size_defs = Int32Size_def Int64Size_def UInt32Size_def UInt64Size_def SInt32Size_def SInt64Size_def
  EnumSize_def kFixed32Size_def kFixed64Size_def kSFixed32Size_def kSFixed64Size_def kFloatSize_def
  kDoubleSize_def kBoolSize_def EncodeFloat_def EncodeDouble_def

lemma varint_bool: "varint (unat (if b then 1 else 0 :: 32 word)) = varint (if b then 1 else 0)"
  by simp

lemma array_value_writes:
  assumes "out_ok fl F" and "has_type ft v"
  shows "writes (array_value little F ft v) (encode_prim ft v)"
proof -
  note w = writes_sext[OF assms(1)] out_okD(7)[OF assms(1)] writes_varint32 writes_le32 writes_le64
  note b = writes_varint32[of "if b then 1 else 0" for b, unfolded varint_bool]
  from assms(2) show ?thesis
    by (cases rule: has_type_cases)
      (use w b in \<open>auto simp: encode_prim_def array_writer_defs[abs_def] EncodeFloat_def EncodeDouble_def\<close>)
qed

lemma stream_value_appends:
  assumes "out_ok fl F" and "has_type ft v"
  shows "appends fl (stream_value F ft v) (encode_prim ft v)"
proof -
  note w = appends_sext[OF assms(1)] out_okD(2,3,4)[OF assms(1)] appends_varint32[OF assms(1)]
  note b = appends_varint32[OF assms(1), of "if b then 1 else 0" for b, unfolded varint_bool]
  from assms(2) show ?thesis
    by (cases rule: has_type_cases)
      (use w b in \<open>auto simp: encode_prim_def stream_writer_defs[abs_def] EncodeFloat_def EncodeDouble_def\<close>)
qed

lemma value_size_length:
  assumes "out_ok fl F" and "has_type ft v"
  shows "value_size F ft v = int (length (encode_prim ft v))"
proof -
  note sizes = VarintSize32SignExtended_length[OF assms(1)] VarintSize32_length[OF assms(1)] out_okD(11)[OF assms(1)]
  from assms(2) show ?thesis
    by (cases rule: has_type_cases) (auto simp: encode_prim_def size_defs sizes varint_byte)
qed

text \<open>A field: the tag and then the value.\<close>

definition encode_field :: "32 word \<Rightarrow> FieldType \<Rightarrow> prim \<Rightarrow> 8 word list" where
  "encode_field k ft v = varint (unat (MakeTag k (wire_type ft))) @ encode_prim ft v"

lemma writes_tag: "writes (WriteTagToArray k type) (varint (unat (MakeTag k type)))"
  using writes_varint32 by (simp add: WriteTagToArray_def[abs_def] co_WriteTagToArray_def)

lemma appends_tag: "out_ok fl F \<Longrightarrow> appends fl (WriteTag F k type) (varint (unat (MakeTag k type)))"
  using appends_varint32 by (simp add: WriteTag_def[abs_def] co_WriteTag_def)

lemma array_field_is: "has_type ft v \<Longrightarrow>
  array_field little F k ft v t = bnd (WriteTagToArray k (wire_type ft) t) (array_value little F ft v)"
  by (erule has_type_cases) (auto simp: field_writer_defs)

lemma array_field_writes:
  assumes "out_ok fl F" and "has_type ft v"
  shows "writes (array_field little F k ft v) (encode_field k ft v)"
  unfolding encode_field_def
  by (rule writes_cong[OF writes_seq[OF writes_tag array_value_writes[OF assms]]])
    (simp_all add: array_field_is[OF assms(2)])

text \<open>The wire type does not change the length of a tag.\<close>

lemma varint_length_div8: "n div 8 = m div 8 \<Longrightarrow> length (varint n) = length (varint m)"
proof (induction n arbitrary: m rule: less_induct)
  case (less n)
  have "x < 128 \<longleftrightarrow> x div 8 < 16" for x :: nat by (simp add: div_less_iff_less_mult)
  then have lt: "n < 128 \<longleftrightarrow> m < 128" using less.prems by simp
  have div: "n div 128 = m div 128"
    using less.prems div_mult2_eq[of n 8 16] div_mult2_eq[of m 8 16] by simp
  show ?case
  proof (cases "n < 128")
    case True
    then show ?thesis using lt by (simp add: varint_byte)
  next
    case False
    then show ?thesis using lt div by (simp add: varint.simps[of n] varint.simps[of m])
  qed
qed

lemma TagSize_length:
  assumes "out_ok fl F" and "primitive ft"
  shows "TagSize F k ft = int (length (varint (unat (MakeTag k (wire_type ft)))))"
proof -
  have "drop_bit 3 (wire_number t) = 0" for t by (cases t) simp_all
  then have "drop_bit 3 (MakeTag k (wire_type ft)) = drop_bit 3 (push_bit kTagTypeBits k)"
    by (simp add: MakeTag_def kTagTypeBits_def drop_bit_or)
  then have "unat (drop_bit 3 (MakeTag k (wire_type ft))) = unat (drop_bit 3 (push_bit kTagTypeBits k))"
    by (rule arg_cong)
  then have "unat (MakeTag k (wire_type ft)) div 8 = unat (push_bit kTagTypeBits k) div 8"
    unfolding unat_drop_bit_eq by (simp add: drop_bit_eq_div)
  then have "length (varint (unat (MakeTag k (wire_type ft)))) = length (varint (unat (push_bit kTagTypeBits k)))"
    by (rule varint_length_div8)
  moreover have "ft \<noteq> TYPE_GROUP" using assms(2) by (auto simp: primitive_def)
  ultimately show ?thesis by (simp add: TagSize_def VarintSize32_length[OF assms(1)])
qed

lemma wire_type_value:
  "wire_type ft = WIRETYPE_VARINT \<Longrightarrow> has_type ft v \<Longrightarrow> encode_prim ft v = varint (number_of ft v)"
  by (simp add: encode_prim_def)

text \<open>C28: for every primitive field type, writing a field at a target and writing it to a stream
  produce the same bytes, tag and value, without touching any other byte of the target; there are
  exactly as many as \<open>TagSize\<close> and the size function of the type say.\<close>

theorem field_writers_agree:
  assumes "out_ok fl F" and "has_type ft v"
  shows "writes (array_field little F k ft v) (encode_field k ft v) \<and>
    appends fl (\<lambda>st. bnd (WriteTag F k (wire_type ft) st) (stream_value F ft v)) (encode_field k ft v) \<and>
    TagSize F k ft + value_size F ft v = int (length (encode_field k ft v))"
  using array_field_writes[OF assms]
    appends_seq[OF appends_tag[OF assms(1)] stream_value_appends[OF assms]]
    TagSize_length[OF assms(1) has_type_primitive[OF assms(2)]] value_size_length[OF assms]
  by (simp add: encode_field_def)

lemma has_type_ok: "has_type TYPE_INT32 (P_int32 x)" "has_type TYPE_SINT64 (P_int64 y)"
  "has_type TYPE_FIXED32 (P_uint32 x)" "has_type TYPE_BOOL (P_bool b)"
  by (simp_all add: has_type_def)

theorem field_writers_agree_witness:
  "writes (array_field True sink_ops 1 TYPE_INT32 (P_int32 (- 1))) (encode_field 1 TYPE_INT32 (P_int32 (- 1))) \<and>
   TagSize sink_ops 1 TYPE_INT32 + value_size sink_ops TYPE_INT32 (P_int32 (- 1)) =
     int (length (encode_field 1 TYPE_INT32 (P_int32 (- 1))))"
  using field_writers_agree[OF sink_out_ok has_type_ok(1), of True 1 "- 1"] by blast

section \<open>Reading back\<close>

lemma of_nat_unat_tag: "(of_nat (unat t) :: 32 word) = t"
  by simp

text \<open>C27: a field that was written is read back from any stream that holds its bytes: \<open>ReadTag\<close>
  returns a tag with the field's number and wire type, \<open>ReadPrimitive\<close> then the value, negative and
  boundary values included, and the stream stands behind the field.\<close>

theorem field_round_trip:
  assumes "in_ok V F" and "wf_in st" and "has_type ft v" and "unat k < 2 ^ 29"
    and "readable V st = encode_field k ft v @ r"
  shows "\<exists>tag st1 st2. ReadTag F st = Inr (tag, st1) \<and> GetTagFieldNumber tag = k \<and>
    GetTagWireType tag = wire_number (wire_type ft) \<and>
    ReadPrimitive little F ft st1 = Inr ((True, v), st2) \<and> leaves V st st2 r"
proof -
  let ?tag = "MakeTag k (wire_type ft)"
  have "unat ?tag < 2 ^ 64" using unat_less32[of ?tag] by simp
  then have dec: "decode_varint kMaxVarintBytes (readable V st) = Some (unat ?tag, encode_prim ft v @ r)"
    unfolding assms(5) encode_field_def append_assoc by (rule decode_varint_64)
  obtain tag st1 where tag: "ReadTag F st = Inr (tag, st1)" "reads_tag V st tag st1"
    using ReadTag_reads[OF assms(1,2)] by blast
  then have st1: "tag = ?tag" "leaves V st st1 (encode_prim ft v @ r)"
    unfolding reads_tag_def dec by simp_all
  then have wf1: "wf_in st1" "readable V st1 = encode_prim ft v @ r" by (simp_all add: leaves_def)
  have "reads_prim V ft st1 (ReadPrimitive little F ft st1)"
    by (rule ReadPrimitive_reads[OF assms(1) wf1(1) has_type_primitive[OF assms(3)]])
  then obtain st2 where "ReadPrimitive little F ft st1 = Inr ((True, v), st2)" "leaves V st1 st2 r"
    unfolding reads_prim_def wf1(2) decode_encode_prim[OF assms(3)] by auto
  then show ?thesis using tag(1) st1 tag_fields[of k] assms(4) leaves_trans by blast
qed

theorem field_round_trip_witness:
  "\<exists>tag st1 st2. ReadTag flat_ops (flat_stream (encode_field 3 TYPE_SINT64 (P_int64 (- 5)) @ [7])) = Inr (tag, st1) \<and>
    GetTagFieldNumber tag = 3 \<and> ReadPrimitive True flat_ops TYPE_SINT64 st1 = Inr ((True, P_int64 (- 5)), st2) \<and>
    window st2 = [7]"
  using field_round_trip[OF flat_in_ok flat_stream_ok(1) has_type_ok(2), of 3 "encode_field 3 TYPE_SINT64 (P_int64 (- 5)) @ [7]" "- 5" "[7]" True]
  by (auto simp: leaves_def)

text \<open>The three ways to read a tag agree: \<open>ReadTagWithCutoff\<close> returns the tag \<open>ReadTag\<close> returns
  and says whether it is at most the cutoff (unless there is no tag and it is zero), and \<open>ExpectTag\<close>
   accepts only that tag, consuming exactly the same bytes, or leaves the stream alone.\<close>

theorem tag_readers_agree:
  assumes "in_ok V F" and "wf_in st"
  shows "\<exists>tag st1 ok st2 found st3.
    ReadTag F st = Inr (tag, st1) \<and> LastTagWas tag st1 \<and>
    ReadTagWithCutoff F cutoff st = Inr ((tag, ok), st2) \<and> LastTagWas tag st2 \<and>
    (ok \<longrightarrow> tag \<le> cutoff) \<and> (tag \<noteq> 0 \<longrightarrow> ok = (tag \<le> cutoff) \<and> readable V st2 = readable V st1) \<and>
    ExpectTag e st = Inr (found, st3) \<and>
    (if found then tag = e \<and> readable V st3 = readable V st1 else st3 = st)"
proof -
  obtain tag st1 where t1: "ReadTag F st = Inr (tag, st1)" "reads_tag V st tag st1"
    using ReadTag_reads[OF assms] by blast
  obtain tag' ok st2 where t2: "ReadTagWithCutoff F cutoff st = Inr ((tag', ok), st2)" "reads_tag V st tag' st2"
      "cutoff_answer cutoff tag' ok"
    using ReadTagWithCutoff_reads[OF assms] by blast
  obtain found st3 where t3: "ExpectTag e st = Inr (found, st3)" "expect_answer V e st found st3"
    using ExpectTag_answers[OF in_okD(1)[OF assms(1)] assms(2)] by blast
  have same: "tag' = tag" "tag \<noteq> 0 \<Longrightarrow> readable V st2 = readable V st1"
    using t1(2) t2(2) by (auto simp: reads_tag_def leaves_def split: option.splits)
  have "found \<Longrightarrow> tag = e \<and> readable V st3 = readable V st1"
    using t1(2) t3(2) by (auto simp: reads_tag_def expect_answer_def leaves_def)
  moreover have "\<not> found \<Longrightarrow> st3 = st" using t3(2) by (simp add: expect_answer_def)
  ultimately show ?thesis using t1 t2 t3(1) same by (auto simp: reads_tag_def cutoff_answer_def)
qed

theorem tag_readers_agree_witness:
  "\<exists>tag st1 ok st2 found st3. ReadTag flat_ops (flat_stream [0x88, 0x01, 9]) = Inr (tag, st1) \<and>
    ReadTagWithCutoff flat_ops 200 (flat_stream [0x88, 0x01, 9]) = Inr ((tag, ok), st2) \<and>
    ExpectTag 136 (flat_stream [0x88, 0x01, 9]) = Inr (found, st3)"
  using tag_readers_agree[OF flat_in_ok flat_stream_ok(1), of "[0x88, 0x01, 9]" 200 136] by blast

end
