(* ===== verification/PbRepeated.thy ===== *)
theory PbRepeated
  imports Prelude
begin

text \<open>
  \<open>RepeatedField\<close> of \<open>include/google/protobuf/repeated_field.h\<close>, the growable array behind the
  repeated fields of primitive type: its representation, every operation, and its refinement of
  a list. Pointers into the array (iterators, the results of \<open>Mutable\<close> and \<open>Add\<close>) are offsets
  from its start, \<open>other = None\<close> stands for an argument that is the field itself, and the two fields
  of a swap are different ones. The destructor, which only frees the array, is left out.
\<close>

section \<open>Representation\<close>

text \<open>What the template knows of its element type: the value \<open>Element()\<close> makes, its size and the
  size of the header before the elements (\<open>kRepHeaderSize\<close>).\<close>

record 'a element =
  e_zero :: 'a
  e_size :: int
  e_header :: int

text \<open>\<open>struct Rep\<close>: the arena that owns the array (\<open>None\<close> for the heap) and the elements.\<close>

record 'a Rep =
  rep_arena :: "nat option"
  rep_elements :: "'a list"

record 'a RepeatedField =
  current_size :: int
  total_size :: int
  rf_rep :: "'a Rep option"

definition kMinRepeatedFieldAllocationSize :: int where
  "kMinRepeatedFieldAllocationSize = 4"

definition SIZE_T_MAX :: int where "SIZE_T_MAX = 2 ^ 64 - 1"

section \<open>Accesses\<close>

text \<open>\<open>memcpy(to + off, from, n)\<close>, and \<open>std::copy\<close> within one array: \<open>[s, e)\<close> to \<open>d\<close>, which may
  not lie inside the range; the position behind the copy is returned.\<close>

definition CopyArray :: "'a list \<Rightarrow> int \<Rightarrow> 'a list \<Rightarrow> int \<Rightarrow> 'a list run" where
  "CopyArray to off from n =
    (if 0 \<le> n \<and> 0 \<le> off \<and> off + n \<le> int (length to) \<and> n \<le> int (length from)
     then Inr (take (nat off) to @ take (nat n) from @ drop (nat (off + n)) to)
     else Inl OutOfBounds)"

definition MoveArray :: "'a list \<Rightarrow> 'a list \<Rightarrow> int \<Rightarrow> 'a list run" where
  "MoveArray to from n = CopyArray to 0 from n"

definition std_copy :: "'a list \<Rightarrow> int \<Rightarrow> int \<Rightarrow> int \<Rightarrow> ('a list \<times> int) run" where
  "std_copy xs s e d =
    (if 0 \<le> s \<and> s \<le> e \<and> e \<le> int (length xs) \<and> 0 \<le> d \<and> d + (e - s) \<le> int (length xs) \<and>
        \<not> (s \<le> d \<and> d < e)
     then Inr (take (nat d) xs @ take (nat (e - s)) (drop (nat s) xs) @ drop (nat (d + (e - s))) xs,
               d + (e - s))
     else Inl OutOfBounds)"

definition rf_elements :: "'a RepeatedField \<Rightarrow> 'a list run" where
  "rf_elements rf = (case rf_rep rf of None \<Rightarrow> Inl NullDeref | Some r \<Rightarrow> Inr (rep_elements r))"

definition rf_set_elements :: "'a list \<Rightarrow> 'a RepeatedField \<Rightarrow> 'a RepeatedField" where
  "rf_set_elements xs rf = rf\<lparr>rf_rep := map_option (\<lambda>r. r\<lparr>rep_elements := xs\<rparr>) (rf_rep rf)\<rparr>"

definition RF_GetArenaNoVirtual :: "'a RepeatedField \<Rightarrow> nat option" where
  "RF_GetArenaNoVirtual rf = (case rf_rep rf of None \<Rightarrow> None | Some r \<Rightarrow> rep_arena r)"

section \<open>Operations\<close>

definition RF_new :: "'a RepeatedField" where
  "RF_new = \<lparr>current_size = 0, total_size = 0, rf_rep = None\<rparr>"

text \<open>On an arena, the header alone is allocated.\<close>

definition RF_new_arena :: "nat option \<Rightarrow> 'a RepeatedField" where
  "RF_new_arena arena = \<lparr>current_size = 0, total_size = 0,
     rf_rep = (if arena \<noteq> None then Some \<lparr>rep_arena = arena, rep_elements = []\<rparr> else None)\<rparr>"

definition RF_empty :: "'a RepeatedField \<Rightarrow> bool" where
  "RF_empty rf \<longleftrightarrow> current_size rf = 0"

definition RF_size :: "'a RepeatedField \<Rightarrow> int" where
  "RF_size rf = current_size rf"

definition RF_Capacity :: "'a RepeatedField \<Rightarrow> int" where
  "RF_Capacity rf = total_size rf"

text \<open>\<open>Reserve\<close>: nothing when there is room; otherwise a new array of at least twice the size, all
  elements made by \<open>Element()\<close>, into which the current ones move.\<close>

definition RF_Reserve :: "'a element \<Rightarrow> int \<Rightarrow> 'a RepeatedField \<Rightarrow> 'a RepeatedField run" where
  "RF_Reserve el new_size rf =
    (if total_size rf \<ge> new_size then Inr rf
     else if \<not> int32 (total_size rf * 2) then Inl IntOverflow
     else let n = max kMinRepeatedFieldAllocationSize (max (total_size rf * 2) new_size);
              arena = RF_GetArenaNoVirtual rf;
              fresh = replicate (nat n) (e_zero el)
          in check (n \<le> (SIZE_T_MAX - e_header el) div e_size el)
               (bnd (if current_size rf > 0
                     then bnd (rf_elements rf) (\<lambda>old. MoveArray fresh old (current_size rf))
                     else Inr fresh) (\<lambda>xs.
                  Inr (rf\<lparr>total_size := n, rf_rep := Some \<lparr>rep_arena = arena, rep_elements = xs\<rparr>\<rparr>))))"

definition int_succ :: "int \<Rightarrow> int run" where
  "int_succ x = (if int32 (x + 1) then Inr (x + 1) else Inl IntOverflow)"

definition RF_Get :: "int \<Rightarrow> 'a RepeatedField \<Rightarrow> 'a run" where
  "RF_Get index rf =
    check (0 \<le> index) (check (index < current_size rf)
      (bnd (rf_elements rf) (\<lambda>xs. read_at xs index)))"

definition RF_Mutable :: "int \<Rightarrow> 'a RepeatedField \<Rightarrow> int run" where
  "RF_Mutable index rf =
    check (0 \<le> index) (check (index < current_size rf)
      (bnd (rf_elements rf) (\<lambda>xs. Inr index)))"

definition RF_Set :: "int \<Rightarrow> 'a \<Rightarrow> 'a RepeatedField \<Rightarrow> 'a RepeatedField run" where
  "RF_Set index value rf =
    check (0 \<le> index) (check (index < current_size rf)
      (bnd (rf_elements rf) (\<lambda>xs. bnd (write_at xs index value) (\<lambda>ys. Inr (rf_set_elements ys rf)))))"

text \<open>\<open>elements[current_size_++] = value\<close>\<close>

definition rf_push :: "'a \<Rightarrow> 'a RepeatedField \<Rightarrow> 'a RepeatedField run" where
  "rf_push value rf =
    bnd (rf_elements rf) (\<lambda>xs. bnd (write_at xs (current_size rf) value) (\<lambda>ys.
      bnd (int_succ (current_size rf)) (\<lambda>n. Inr ((rf_set_elements ys rf)\<lparr>current_size := n\<rparr>))))"

text \<open>\<open>&elements[current_size_++]\<close>: the element keeps what the slot held.\<close>

definition rf_claim :: "'a RepeatedField \<Rightarrow> (int \<times> 'a RepeatedField) run" where
  "rf_claim rf =
    bnd (rf_elements rf) (\<lambda>xs. bnd (int_succ (current_size rf)) (\<lambda>n.
      Inr (current_size rf, rf\<lparr>current_size := n\<rparr>)))"

definition rf_room :: "'a element \<Rightarrow> 'a RepeatedField \<Rightarrow> 'a RepeatedField run" where
  "rf_room el rf =
    (if current_size rf = total_size rf
     then bnd (int_succ (total_size rf)) (\<lambda>n. RF_Reserve el n rf) else Inr rf)"

text \<open>\<open>Add\<close> and \<open>Resize\<close> take the value as \<open>const Element&\<close> and read it when they have made room: it is an
  object elsewhere, or the slot \<open>i\<close> of this field's own array at the call (\<open>Get(i)\<close>, \<open>*Mutable(i)\<close>), which
  \<open>Reserve\<close> has deleted when it made a new one, unless an arena keeps it.\<close>

datatype 'a elem_ref = Elsewhere 'a | Own int

definition load_ref :: "'a elem_ref \<Rightarrow> 'a RepeatedField \<Rightarrow> 'a RepeatedField \<Rightarrow> 'a run" where
  "load_ref value called now = (case value of
     Elsewhere x \<Rightarrow> Inr x
   | Own i \<Rightarrow> if total_size now \<noteq> total_size called \<and> RF_GetArenaNoVirtual called = None then Inl UseAfterFree
       else bnd (rf_elements called) (\<lambda>xs. read_at xs i))"

definition RF_Add :: "'a element \<Rightarrow> 'a elem_ref \<Rightarrow> 'a RepeatedField \<Rightarrow> 'a RepeatedField run" where
  "RF_Add el value rf = bnd (rf_room el rf) (\<lambda>rf1. bnd (load_ref value rf rf1) (\<lambda>x. rf_push x rf1))"

text \<open>The callers in this development pass a variable of their own.\<close>

abbreviation Add_value :: "'a element \<Rightarrow> 'a \<Rightarrow> 'a RepeatedField \<Rightarrow> 'a RepeatedField run" where
  "Add_value el x \<equiv> RF_Add el (Elsewhere x)"

definition RF_AddPtr :: "'a element \<Rightarrow> 'a RepeatedField \<Rightarrow> (int \<times> 'a RepeatedField) run" where
  "RF_AddPtr el rf = bnd (rf_room el rf) rf_claim"

definition RF_AddAlreadyReserved :: "'a \<Rightarrow> 'a RepeatedField \<Rightarrow> 'a RepeatedField run" where
  "RF_AddAlreadyReserved value rf = check (current_size rf < total_size rf) (rf_push value rf)"

definition RF_AddPtrAlreadyReserved :: "'a RepeatedField \<Rightarrow> (int \<times> 'a RepeatedField) run" where
  "RF_AddPtrAlreadyReserved rf = check (current_size rf < total_size rf) (rf_claim rf)"

definition RF_RemoveLast :: "'a RepeatedField \<Rightarrow> 'a RepeatedField run" where
  "RF_RemoveLast rf = check (current_size rf > 0) (Inr (rf\<lparr>current_size := current_size rf - 1\<rparr>))"

definition RF_Truncate :: "int \<Rightarrow> 'a RepeatedField \<Rightarrow> 'a RepeatedField run" where
  "RF_Truncate new_size rf =
    check (new_size \<le> current_size rf)
      (Inr (if current_size rf > 0 then rf\<lparr>current_size := new_size\<rparr> else rf))"

definition RF_Resize :: "'a element \<Rightarrow> int \<Rightarrow> 'a elem_ref \<Rightarrow> 'a RepeatedField \<Rightarrow> 'a RepeatedField run" where
  "RF_Resize el new_size value rf =
    check (0 \<le> new_size)
      (bnd (if new_size > current_size rf
            then bnd (RF_Reserve el new_size rf) (\<lambda>rf1.
                 bnd (rf_elements rf1) (\<lambda>xs. bnd (load_ref value rf rf1) (\<lambda>x.
                   bnd (CopyArray xs (current_size rf1)
                          (replicate (nat (new_size - current_size rf1)) x)
                          (new_size - current_size rf1)) (\<lambda>ys.
                     Inr (rf_set_elements ys rf1)))))
            else Inr rf) (\<lambda>rf2. Inr (rf2\<lparr>current_size := new_size\<rparr>)))"

definition RF_Clear :: "'a RepeatedField \<Rightarrow> 'a RepeatedField" where
  "RF_Clear rf = rf\<lparr>current_size := 0\<rparr>"

definition RF_MergeFrom ::
    "'a element \<Rightarrow> 'a RepeatedField option \<Rightarrow> 'a RepeatedField \<Rightarrow> 'a RepeatedField run" where
  "RF_MergeFrom el other rf =
    (case other of None \<Rightarrow> Inl CheckFailed
     | Some oth \<Rightarrow>
        if current_size oth \<noteq> 0 then
          (if \<not> int32 (current_size rf + current_size oth) then Inl IntOverflow
           else bnd (RF_Reserve el (current_size rf + current_size oth) rf) (\<lambda>rf1.
             bnd (rf_elements rf1) (\<lambda>to. bnd (rf_elements oth) (\<lambda>from.
               bnd (CopyArray to (current_size rf1) from (current_size oth)) (\<lambda>ys.
                 Inr ((rf_set_elements ys rf1)\<lparr>current_size := current_size rf1 + current_size oth\<rparr>))))))
        else Inr rf)"

definition RF_CopyFrom ::
    "'a element \<Rightarrow> 'a RepeatedField option \<Rightarrow> 'a RepeatedField \<Rightarrow> 'a RepeatedField run" where
  "RF_CopyFrom el other rf =
    (if other = None then Inr rf else RF_MergeFrom el other (RF_Clear rf))"

definition RF_assign ::
    "'a element \<Rightarrow> 'a RepeatedField option \<Rightarrow> 'a RepeatedField \<Rightarrow> 'a RepeatedField run" where
  "RF_assign el other rf = (if other \<noteq> None then RF_CopyFrom el other rf else Inr rf)"

definition RF_copy :: "'a element \<Rightarrow> 'a RepeatedField \<Rightarrow> 'a RepeatedField run" where
  "RF_copy el other = RF_CopyFrom el (Some other) RF_new"

text \<open>\<open>CalculateReserve\<close>: the length for forward iterators, \<open>-1\<close> for input iterators; and the
  constructor from a range.\<close>

definition CalculateReserve :: "bool \<Rightarrow> 'a list \<Rightarrow> int" where
  "CalculateReserve forward vals = (if forward then int (length vals) else -1)"

definition RF_from_range :: "'a element \<Rightarrow> bool \<Rightarrow> 'a list \<Rightarrow> 'a RepeatedField run" where
  "RF_from_range el forward vals =
    (let reserve = CalculateReserve forward vals in
     if reserve \<noteq> -1
     then bnd (RF_Reserve el reserve RF_new) (for_each RF_AddAlreadyReserved vals)
     else for_each (Add_value el) vals RF_new)"

text \<open>\<open>ExtractSubrange(start, num, elements)\<close>: the removed elements, when wanted.\<close>

definition RF_ExtractSubrange ::
    "int \<Rightarrow> int \<Rightarrow> bool \<Rightarrow> 'a RepeatedField \<Rightarrow> ('a list \<times> 'a RepeatedField) run" where
  "RF_ExtractSubrange start num want rf =
    check (0 \<le> start) (check (0 \<le> num) (check (start + num \<le> current_size rf)
      (bnd (if want
            then for_each (\<lambda>i out. bnd (RF_Get (i + start) rf) (\<lambda>x. Inr (out @ [x]))) [0..num - 1] []
            else Inr []) (\<lambda>out.
       bnd (if num > 0
            then bnd (for_each (\<lambda>i rf. bnd (RF_Get i rf) (\<lambda>x. RF_Set (i - num) x rf))
                        [start + num..current_size rf - 1] rf) (\<lambda>rf1.
                   RF_Truncate (current_size rf1 - num) rf1)
            else Inr rf) (\<lambda>rf2. Inr (out, rf2))))))"

definition RF_erase_range :: "int \<Rightarrow> int \<Rightarrow> 'a RepeatedField \<Rightarrow> (int \<times> 'a RepeatedField) run" where
  "RF_erase_range fst_it lst_it rf =
    (if fst_it \<noteq> lst_it
     then bnd (rf_elements rf) (\<lambda>xs. bnd (std_copy xs lst_it (current_size rf) fst_it) (\<lambda>(ys, stop).
            bnd (RF_Truncate stop (rf_set_elements ys rf)) (\<lambda>rf1. Inr (fst_it, rf1))))
     else Inr (fst_it, rf))"

definition RF_erase :: "int \<Rightarrow> 'a RepeatedField \<Rightarrow> (int \<times> 'a RepeatedField) run" where
  "RF_erase position rf = RF_erase_range position (position + 1) rf"

definition RF_SwapElements :: "int \<Rightarrow> int \<Rightarrow> 'a RepeatedField \<Rightarrow> 'a RepeatedField run" where
  "RF_SwapElements index1 index2 rf =
    bnd (rf_elements rf) (\<lambda>xs. bnd (read_at xs index1) (\<lambda>x. bnd (read_at xs index2) (\<lambda>y.
      bnd (write_at xs index1 y) (\<lambda>ys. bnd (write_at ys index2 x) (\<lambda>zs.
        Inr (rf_set_elements zs rf))))))"

definition RF_InternalSwap ::
    "'a RepeatedField \<Rightarrow> 'a RepeatedField \<Rightarrow> 'a RepeatedField \<times> 'a RepeatedField" where
  "RF_InternalSwap rf other = (other, rf)"

definition RF_UnsafeArenaSwap ::
    "'a RepeatedField \<Rightarrow> 'a RepeatedField \<Rightarrow> ('a RepeatedField \<times> 'a RepeatedField) run" where
  "RF_UnsafeArenaSwap rf other =
    check (RF_GetArenaNoVirtual rf = RF_GetArenaNoVirtual other) (Inr (RF_InternalSwap rf other))"

definition RF_Swap ::
    "'a element \<Rightarrow> 'a RepeatedField \<Rightarrow> 'a RepeatedField \<Rightarrow> ('a RepeatedField \<times> 'a RepeatedField) run" where
  "RF_Swap el rf other =
    (if RF_GetArenaNoVirtual rf = RF_GetArenaNoVirtual other then Inr (RF_InternalSwap rf other)
     else bnd (RF_MergeFrom el (Some rf) (RF_new_arena (RF_GetArenaNoVirtual other))) (\<lambda>temp.
          bnd (RF_CopyFrom el (Some other) rf) (\<lambda>rf1.
          bnd (RF_UnsafeArenaSwap other temp) (\<lambda>(other1, temp1). Inr (rf1, other1)))))"

text \<open>The iterators: null without an array.\<close>

definition RF_data :: "'a RepeatedField \<Rightarrow> int option" where
  "RF_data rf = (if rf_rep rf = None then None else Some 0)"

definition RF_begin :: "'a RepeatedField \<Rightarrow> int option" where
  "RF_begin rf = (if rf_rep rf = None then None else Some 0)"

definition RF_end :: "'a RepeatedField \<Rightarrow> int option" where
  "RF_end rf = (if rf_rep rf = None then None else Some (current_size rf))"

definition RF_SpaceUsedExcludingSelf :: "'a element \<Rightarrow> 'a RepeatedField \<Rightarrow> int" where
  "RF_SpaceUsedExcludingSelf el rf =
    (if rf_rep rf = None then 0 else wrap32 (total_size rf * e_size el + e_header el))"


section \<open>The invariant and the list a field stands for\<close>

definition element_ok :: "'a element \<Rightarrow> bool" where
  "element_ok el \<longleftrightarrow> 0 < e_size el \<and> e_size el \<le> 2 ^ 16 \<and> 0 \<le> e_header el \<and> e_header el \<le> 2 ^ 16"

definition rf_slots :: "'a RepeatedField \<Rightarrow> 'a list" where
  "rf_slots rf = (case rf_rep rf of None \<Rightarrow> [] | Some r \<Rightarrow> rep_elements r)"

definition rf_list :: "'a RepeatedField \<Rightarrow> 'a list" where
  "rf_list rf = take (nat (current_size rf)) (rf_slots rf)"

definition wf_rf :: "'a RepeatedField \<Rightarrow> bool" where
  "wf_rf rf \<longleftrightarrow> 0 \<le> current_size rf \<and> current_size rf \<le> total_size rf \<and> total_size rf < 2 ^ 31 \<and>
     int (length (rf_slots rf)) = total_size rf"

text \<open>Room for \<open>n\<close> elements: they fit, or the array can be doubled.\<close>

definition rf_fits :: "int \<Rightarrow> 'a RepeatedField \<Rightarrow> bool" where
  "rf_fits n rf \<longleftrightarrow> n \<le> total_size rf \<or> total_size rf < 2 ^ 30 \<and> n < 2 ^ 31"

named_theorems rf_simps
declare check_def [rf_simps] read_at_def [rf_simps] write_at_def [rf_simps] rf_set_elements_def [rf_simps]
  int_succ_def [rf_simps] int32_def [rf_simps]

lemma wf_rfD:
  assumes "wf_rf rf"
  shows "0 \<le> current_size rf" "current_size rf \<le> total_size rf" "total_size rf < 2 ^ 31"
    "int (length (rf_slots rf)) = total_size rf" "length (rf_list rf) = nat (current_size rf)"
    "current_size rf \<le> int (length (rf_slots rf))"
  using assms unfolding wf_rf_def rf_list_def by auto

lemma rf_elements_slots: "0 < total_size rf \<Longrightarrow> wf_rf rf \<Longrightarrow> rf_elements rf = Inr (rf_slots rf)"
  by (auto simp: rf_elements_def rf_slots_def wf_rf_def split: option.splits)

lemma rf_slots_set: "0 < total_size rf \<Longrightarrow> wf_rf rf \<Longrightarrow> rf_slots (rf_set_elements xs rf) = xs"
  by (auto simp: rf_set_elements_def rf_slots_def wf_rf_def split: option.splits)

lemma rf_set_sizes [simp]:
  "current_size (rf_set_elements xs rf) = current_size rf"
  "total_size (rf_set_elements xs rf) = total_size rf"
  "rf_slots (rf\<lparr>current_size := n\<rparr>) = rf_slots rf"
  by (simp_all add: rf_set_elements_def rf_slots_def)

text \<open>Changing the elements of an array, or how many of them count.\<close>

lemma rf_updated:
  assumes "wf_rf rf" and "0 < total_size rf" and "length xs = length (rf_slots rf)"
    and "0 \<le> n" and "n \<le> total_size rf"
  shows "wf_rf ((rf_set_elements xs rf)\<lparr>current_size := n\<rparr>)"
    and "rf_list ((rf_set_elements xs rf)\<lparr>current_size := n\<rparr>) = take (nat n) xs"
  using assms rf_slots_set[OF assms(2,1), of xs] by (simp_all add: wf_rf_def rf_list_def)

lemma rf_resized:
  assumes "wf_rf rf" and "0 \<le> n" and "n \<le> total_size rf"
  shows "wf_rf (rf\<lparr>current_size := n\<rparr>)" and "rf_list (rf\<lparr>current_size := n\<rparr>) = take (nat n) (rf_slots rf)"
  using assms by (simp_all add: wf_rf_def rf_list_def)

lemma rf_written:
  assumes "wf_rf rf" and "0 < total_size rf" and "length xs = length (rf_slots rf)"
  shows "wf_rf (rf_set_elements xs rf)"
    and "rf_list (rf_set_elements xs rf) = take (nat (current_size rf)) xs"
  using assms rf_slots_set[OF assms(2,1), of xs] by (simp_all add: wf_rf_def rf_list_def)

section \<open>Growing\<close>

lemma size_check:
  assumes "element_ok el" and "n < 2 ^ 31"
  shows "n \<le> (SIZE_T_MAX - e_header el) div e_size el"
proof -
  have el: "0 < e_size el" "e_size el \<le> 2 ^ 16" "e_header el \<le> 2 ^ 16"
    using assms(1) by (simp_all add: element_ok_def)
  have "n * e_size el \<le> 2 ^ 31 * 2 ^ 16"
  proof (cases "0 \<le> n")
    case True
    then show ?thesis using assms(2) el by (intro mult_mono) simp_all
  next
    case False
    then have "n * e_size el \<le> 0" using el by (intro mult_nonpos_nonneg) simp_all
    then show ?thesis by simp
  qed
  then have "n * e_size el \<le> SIZE_T_MAX - e_header el" using el(3) unfolding SIZE_T_MAX_def by simp
  then have "n * e_size el div e_size el \<le> (SIZE_T_MAX - e_header el) div e_size el"
    using el(1) by (rule zdiv_mono1)
  then show ?thesis using el(1) by simp
qed

lemma CopyArray_ok:
  "0 \<le> n \<Longrightarrow> 0 \<le> off \<Longrightarrow> off + n \<le> int (length to) \<Longrightarrow> n \<le> int (length from) \<Longrightarrow>
   CopyArray to off from n = Inr (take (nat off) to @ take (nat n) from @ drop (nat (off + n)) to)"
  by (simp add: CopyArray_def)

lemma RF_Reserve_keeps:
  assumes "element_ok el" and "wf_rf rf" and "rf_fits n rf"
  shows "\<exists>rf'. RF_Reserve el n rf = Inr rf' \<and> wf_rf rf' \<and> rf_list rf' = rf_list rf \<and>
    current_size rf' = current_size rf \<and> n \<le> total_size rf' \<and> total_size rf \<le> total_size rf' \<and>
    (total_size rf < n \<longrightarrow> total_size rf' = max 4 (max (total_size rf * 2) n)) \<and>
    (n \<le> total_size rf \<longrightarrow> rf' = rf) \<and> RF_GetArenaNoVirtual rf' = RF_GetArenaNoVirtual rf"
proof (cases "n \<le> total_size rf")
  case True
  then show ?thesis using assms(2) by (simp add: RF_Reserve_def)
next
  case False
  note wf = wf_rfD[OF assms(2)]
  let ?m = "max 4 (max (total_size rf * 2) n)"
  let ?fresh = "replicate (nat ?m) (e_zero el)"
  have fits: "total_size rf < 2 ^ 30" "n < 2 ^ 31" using assms(3) False by (simp_all add: rf_fits_def)
  have i: "int32 (total_size rf * 2)" using fits wf(1,2) by (simp add: int32_def)
  have m: "?m < 2 ^ 31" using fits by simp
  note chk = size_check[OF assms(1) m]
  have room: "current_size rf \<le> ?m" "0 \<le> ?m" using wf(1,2) by simp_all
  let ?xs = "take (nat (current_size rf)) (rf_slots rf) @ drop (nat (current_size rf)) ?fresh"
  have copy: "(if current_size rf > 0 then bnd (rf_elements rf) (\<lambda>old. MoveArray ?fresh old (current_size rf))
      else Inr ?fresh) = Inr ?xs"
  proof (cases "current_size rf > 0")
    case True
    then have "rf_elements rf = Inr (rf_slots rf)" using rf_elements_slots[OF _ assms(2)] wf(2) by simp
    then show ?thesis using True room wf(1,6)
      by (simp add: MoveArray_def CopyArray_ok del: drop_replicate)
  qed (use wf(1) in simp)
  let ?rf = "rf\<lparr>total_size := ?m, rf_rep := Some \<lparr>rep_arena = RF_GetArenaNoVirtual rf, rep_elements = ?xs\<rparr>\<rparr>"
  have run: "RF_Reserve el n rf = Inr ?rf"
    using False i chk copy
    by (simp add: RF_Reserve_def Let_def check_def kMinRepeatedFieldAllocationSize_def del: drop_replicate)
  have len: "int (length ?xs) = ?m" using room wf(1,6) by simp
  have slots: "rf_slots ?rf = ?xs" by (simp add: rf_slots_def)
  have "wf_rf ?rf" using len slots wf(1) room m unfolding wf_rf_def by simp
  moreover have "rf_list ?rf = rf_list rf"
    using wf(1,6) unfolding rf_list_def slots by simp
  moreover have "n \<le> ?m" "total_size rf \<le> ?m" using wf(1,2) by simp_all
  moreover have "RF_GetArenaNoVirtual ?rf = RF_GetArenaNoVirtual rf" by (simp add: RF_GetArenaNoVirtual_def)
  moreover have "total_size ?rf = ?m" "current_size ?rf = current_size rf" by simp_all
  ultimately show ?thesis using run False by metis
qed

lemma rf_push_appends:
  assumes "wf_rf rf" and "current_size rf < total_size rf"
  shows "\<exists>rf'. rf_push x rf = Inr rf' \<and> wf_rf rf' \<and> rf_list rf' = rf_list rf @ [x] \<and>
    total_size rf' = total_size rf"
proof -
  note wf = wf_rfD[OF assms(1)]
  let ?i = "nat (current_size rf)" and ?ys = "(rf_slots rf)[nat (current_size rf) := x]"
  let ?rf = "(rf_set_elements ?ys rf)\<lparr>current_size := current_size rf + 1\<rparr>"
  have pos: "0 < total_size rf" using assms(2) wf(1) by simp
  have i: "?i < length (rf_slots rf)" using wf assms(2) by simp
  have "rf_push x rf = Inr ?rf"
    using rf_elements_slots[OF pos assms(1)] wf assms(2)
    by (simp add: rf_push_def write_at_def int_succ_def int32_def)
  moreover have n: "nat (current_size rf + 1) = Suc ?i" using wf(1) by simp
  have "rf_list ?rf = take (Suc ?i) ?ys" "wf_rf ?rf"
    using rf_updated[OF assms(1) pos, of ?ys "current_size rf + 1"] wf(1) assms(2) by (simp_all add: n)
  moreover have "take (Suc ?i) ?ys = rf_list rf @ [x]"
    using i by (simp add: take_Suc_conv_app_nth rf_list_def)
  ultimately show ?thesis by auto
qed

text \<open>A reference that is still good once there is room for \<open>n\<close> elements, and what it refers to.\<close>

fun ref_ok :: "'a elem_ref \<Rightarrow> int \<Rightarrow> 'a RepeatedField \<Rightarrow> bool" where
  "ref_ok (Elsewhere x) n rf \<longleftrightarrow> True"
| "ref_ok (Own i) n rf \<longleftrightarrow> 0 \<le> i \<and> i < current_size rf \<and> (n \<le> total_size rf \<or> RF_GetArenaNoVirtual rf \<noteq> None)"

fun ref_value :: "'a elem_ref \<Rightarrow> 'a list \<Rightarrow> 'a" where
  "ref_value (Elsewhere x) xs = x"
| "ref_value (Own i) xs = xs ! nat i"

lemma load_ref_Elsewhere [simp]: "load_ref (Elsewhere x) called now = Inr x"
  by (simp add: load_ref_def)

lemma load_ref_ok:
  assumes "wf_rf rf" and "ref_ok r n rf" and "n \<le> total_size rf \<longrightarrow> total_size now = total_size rf"
  shows "load_ref r rf now = Inr (ref_value r (rf_list rf))"
proof (cases r)
  case (Own i)
  then have i: "0 \<le> i" "i < current_size rf" using assms(2) by simp_all
  note wf = wf_rfD[OF assms(1)]
  have "0 < total_size rf" "i < int (length (rf_slots rf))" using i wf(2,6) by simp_all
  then show ?thesis using Own i assms rf_elements_slots[OF _ assms(1)]
    by (auto simp: load_ref_def read_at_def rf_list_def)
qed simp

lemma load_ref_freed:
  "total_size called < total_size now \<Longrightarrow> RF_GetArenaNoVirtual called = None \<Longrightarrow> load_ref (Own i) called now = Inl UseAfterFree"
  by (simp add: load_ref_def)

text \<open>Making room for one more.\<close>

lemma rf_room_step:
  assumes "element_ok el" and "wf_rf rf" and "rf_fits (current_size rf + 1) rf"
  shows "\<exists>rf1. rf_room el rf = Inr rf1 \<and> wf_rf rf1 \<and> rf_list rf1 = rf_list rf \<and> current_size rf1 = current_size rf \<and>
    current_size rf1 < total_size rf1 \<and> (current_size rf + 1 \<le> total_size rf \<longrightarrow> rf1 = rf) \<and>
    total_size rf1 = (if current_size rf = total_size rf then max 4 (max (total_size rf * 2) (total_size rf + 1))
                      else total_size rf)"
proof (cases "current_size rf = total_size rf")
  case True
  note wf = wf_rfD[OF assms(2)]
  have small: "int32 (total_size rf + 1)" using assms(3) True wf(1) by (auto simp: rf_fits_def int32_def)
  have fits: "rf_fits (total_size rf + 1) rf" using assms(3) True by simp
  show ?thesis using RF_Reserve_keeps[OF assms(1,2) fits] small True by (auto simp: rf_room_def int_succ_def)
next
  case False
  then show ?thesis using wf_rfD(2)[OF assms(2)] assms(2) by (simp add: rf_room_def)
qed

lemma RF_Add_appends:
  assumes "element_ok el" and "wf_rf rf" and "rf_fits (current_size rf + 1) rf" and "ref_ok x (current_size rf + 1) rf"
  shows "\<exists>rf'. RF_Add el x rf = Inr rf' \<and> wf_rf rf' \<and> rf_list rf' = rf_list rf @ [ref_value x (rf_list rf)] \<and>
    total_size rf' = (if current_size rf = total_size rf then max 4 (max (total_size rf * 2) (total_size rf + 1))
                      else total_size rf)"
proof -
  obtain rf1 where rf1: "rf_room el rf = Inr rf1" "wf_rf rf1" "rf_list rf1 = rf_list rf"
      "current_size rf1 < total_size rf1" "current_size rf + 1 \<le> total_size rf \<longrightarrow> rf1 = rf"
      "total_size rf1 = (if current_size rf = total_size rf then max 4 (max (total_size rf * 2) (total_size rf + 1))
        else total_size rf)"
    using rf_room_step[OF assms(1-3)] by blast
  have "current_size rf + 1 \<le> total_size rf \<longrightarrow> total_size rf1 = total_size rf" using rf1(5) by blast
  note load = load_ref_ok[OF assms(2,4) this]
  from rf_push_appends[OF rf1(2,4), of "ref_value x (rf_list rf)"] show ?thesis
    using rf1(1,3,6) load by (auto simp: RF_Add_def)
qed

text \<open>A full array without an arena is deleted before the reference into it is read.\<close>

lemma RF_Add_own_freed:
  assumes "element_ok el" and "wf_rf rf" and "rf_fits (current_size rf + 1) rf"
    and "current_size rf = total_size rf" and "RF_GetArenaNoVirtual rf = None"
  shows "RF_Add el (Own i) rf = Inl UseAfterFree"
proof -
  obtain rf1 where "rf_room el rf = Inr rf1" "current_size rf1 = current_size rf" "current_size rf1 < total_size rf1"
    using rf_room_step[OF assms(1-3)] by blast
  then show ?thesis using load_ref_freed[of rf rf1 i] assms(4,5) by (simp add: RF_Add_def)
qed

text \<open>The forms of \<open>Add\<close> that return the place: the element is what the slot held.\<close>

lemma rf_claim_appends:
  assumes "wf_rf rf" and "current_size rf < total_size rf"
  shows "\<exists>rf' y. rf_claim rf = Inr (current_size rf, rf') \<and> wf_rf rf' \<and> rf_list rf' = rf_list rf @ [y] \<and>
    total_size rf' = total_size rf"
proof -
  note wf = wf_rfD[OF assms(1)]
  let ?rf = "rf\<lparr>current_size := current_size rf + 1\<rparr>" and ?i = "nat (current_size rf)"
  have "0 < total_size rf" "?i < length (rf_slots rf)" using assms(2) wf by simp_all
  then have "rf_claim rf = Inr (current_size rf, ?rf)"
    using rf_elements_slots[OF _ assms(1)] wf(1,3) assms(2) by (simp add: rf_claim_def int_succ_def int32_def)
  moreover have "wf_rf ?rf" "rf_list ?rf = take (Suc ?i) (rf_slots rf)"
    using rf_resized[OF assms(1), of "current_size rf + 1"] wf(1) assms(2) by (simp_all add: nat_add_distrib)
  moreover have "take (Suc ?i) (rf_slots rf) = rf_list rf @ [rf_slots rf ! ?i]"
    using \<open>?i < length (rf_slots rf)\<close> by (simp add: take_Suc_conv_app_nth rf_list_def)
  ultimately show ?thesis by auto
qed

lemma RF_AddPtr_appends:
  assumes "element_ok el" and "wf_rf rf" and "rf_fits (current_size rf + 1) rf"
  shows "\<exists>rf' y. RF_AddPtr el rf = Inr (current_size rf, rf') \<and> wf_rf rf' \<and> rf_list rf' = rf_list rf @ [y]"
proof -
  obtain rf1 where rf1: "rf_room el rf = Inr rf1" "wf_rf rf1" "rf_list rf1 = rf_list rf" "current_size rf1 = current_size rf"
      "current_size rf1 < total_size rf1"
    using rf_room_step[OF assms] by blast
  from rf_claim_appends[OF rf1(2,5)] show ?thesis using rf1 by (auto simp: RF_AddPtr_def)
qed

lemma AddAlreadyReserved_appends:
  assumes "wf_rf rf" and "current_size rf < total_size rf"
  shows "\<exists>rf'. RF_AddAlreadyReserved x rf = Inr rf' \<and> wf_rf rf' \<and> rf_list rf' = rf_list rf @ [x] \<and>
      total_size rf' = total_size rf"
    and "\<exists>rf' y. RF_AddPtrAlreadyReserved rf = Inr (current_size rf, rf') \<and> wf_rf rf' \<and> rf_list rf' = rf_list rf @ [y]"
  using rf_push_appends[OF assms] rf_claim_appends[OF assms] assms(2)
  by (auto simp: RF_AddAlreadyReserved_def RF_AddPtrAlreadyReserved_def check_def)

section \<open>The other operations on the list\<close>

lemma nth_rf_list: "wf_rf rf \<Longrightarrow> 0 \<le> i \<Longrightarrow> i < current_size rf \<Longrightarrow> rf_slots rf ! nat i = rf_list rf ! nat i"
  by (simp add: rf_list_def)

lemma RF_Get_nth:
  assumes "wf_rf rf" and "0 \<le> i" and "i < current_size rf"
  shows "RF_Get i rf = Inr (rf_list rf ! nat i)"
proof -
  note wf = wf_rfD[OF assms(1)]
  have pos: "0 < total_size rf" using assms wf(2) by simp
  have "i < int (length (rf_slots rf))" using assms(3) wf(6) by simp
  then show ?thesis
    using assms nth_rf_list[OF assms] rf_elements_slots[OF pos assms(1)]
    by (simp add: RF_Get_def rf_simps)
qed

lemma RF_Set_updates:
  assumes "wf_rf rf" and "0 \<le> i" and "i < current_size rf"
  shows "\<exists>rf'. RF_Set i x rf = Inr rf' \<and> wf_rf rf' \<and> rf_list rf' = (rf_list rf)[nat i := x] \<and>
    current_size rf' = current_size rf \<and> total_size rf' = total_size rf"
proof -
  note wf = wf_rfD[OF assms(1)]
  have pos: "0 < total_size rf" using assms wf(2) by simp
  have i: "i < int (length (rf_slots rf))" using assms(3) wf(6) by simp
  let ?rf = "rf_set_elements ((rf_slots rf)[nat i := x]) rf"
  have "RF_Set i x rf = Inr ?rf"
    using assms i rf_elements_slots[OF pos assms(1)] by (simp add: RF_Set_def check_def write_at_def)
  moreover have "wf_rf ?rf" "rf_list ?rf = (rf_list rf)[nat i := x]"
    using rf_written[OF assms(1) pos, of "(rf_slots rf)[nat i := x]"]
    by (simp_all add: rf_list_def take_update_swap)
  ultimately show ?thesis by simp
qed

lemma RF_shrink:
  assumes "wf_rf rf" and "0 \<le> n" and "n \<le> current_size rf"
  shows "wf_rf (rf\<lparr>current_size := n\<rparr>)" and "rf_list (rf\<lparr>current_size := n\<rparr>) = take (nat n) (rf_list rf)"
proof -
  have "n \<le> total_size rf" using assms(3) wf_rfD(2)[OF assms(1)] by simp
  note r = rf_resized[OF assms(1,2) this]
  show "wf_rf (rf\<lparr>current_size := n\<rparr>)" by (rule r(1))
  show "rf_list (rf\<lparr>current_size := n\<rparr>) = take (nat n) (rf_list rf)"
    using r(2) assms(2,3) by (simp add: rf_list_def min_def)
qed

lemma RF_Truncate_takes:
  assumes "wf_rf rf" and "0 \<le> n" and "n \<le> current_size rf"
  shows "\<exists>rf'. RF_Truncate n rf = Inr rf' \<and> wf_rf rf' \<and> rf_list rf' = take (nat n) (rf_list rf)"
  using assms RF_shrink[OF assms] by (auto simp: RF_Truncate_def check_def rf_list_def)

lemma RF_RemoveLast_butlast:
  assumes "wf_rf rf" and "0 < current_size rf"
  shows "\<exists>rf'. RF_RemoveLast rf = Inr rf' \<and> wf_rf rf' \<and> rf_list rf' = butlast (rf_list rf)"
proof -
  have n: "0 \<le> current_size rf - 1" "current_size rf - 1 \<le> current_size rf" using assms(2) by simp_all
  have "take (nat (current_size rf - 1)) (rf_list rf) = butlast (rf_list rf)"
    using wf_rfD(5)[OF assms(1)] assms(2) by (simp add: butlast_conv_take nat_diff_distrib)
  then show ?thesis using RF_shrink[OF assms(1) n] assms(2) by (simp add: RF_RemoveLast_def check_def)
qed

text \<open>Appending a block of elements after making room, the core of \<open>Resize\<close> and \<open>MergeFrom\<close>.\<close>

lemma append_block:
  assumes "wf_rf rf" and "0 < total_size rf" and "current_size rf + int (length ys) \<le> total_size rf"
  shows "\<exists>zs. CopyArray (rf_slots rf) (current_size rf) ys (int (length ys)) = Inr zs \<and>
    wf_rf ((rf_set_elements zs rf)\<lparr>current_size := current_size rf + int (length ys)\<rparr>) \<and>
    rf_list ((rf_set_elements zs rf)\<lparr>current_size := current_size rf + int (length ys)\<rparr>) = rf_list rf @ ys"
proof -
  note wf = wf_rfD[OF assms(1)]
  let ?zs = "rf_list rf @ ys @ drop (nat (current_size rf + int (length ys))) (rf_slots rf)"
  have "CopyArray (rf_slots rf) (current_size rf) ys (int (length ys)) = Inr ?zs"
    using wf(1,4) assms(3) by (simp add: CopyArray_ok rf_list_def)
  moreover have "length ?zs = length (rf_slots rf)" using wf assms(3) by (simp add: nat_add_distrib)
  moreover have "take (nat (current_size rf + int (length ys))) ?zs = rf_list rf @ ys"
    using wf(1,5) by (simp add: nat_add_distrib)
  ultimately show ?thesis
    using rf_updated[OF assms(1,2), of ?zs "current_size rf + int (length ys)"] wf(1) assms(3) by auto
qed

lemma RF_Resize_pads:
  assumes "element_ok el" and "wf_rf rf" and "0 \<le> n" and "rf_fits n rf" and "ref_ok v n rf"
  shows "\<exists>rf'. RF_Resize el n v rf = Inr rf' \<and> wf_rf rf' \<and>
    rf_list rf' = take (nat n) (rf_list rf) @ replicate (nat (n - current_size rf)) (ref_value v (rf_list rf))"
proof (cases "current_size rf < n")
  case False
  then show ?thesis using RF_shrink[OF assms(2,3)] assms(3) by (simp add: RF_Resize_def check_def)
next
  case True
  obtain rf1 where rf1: "RF_Reserve el n rf = Inr rf1" "wf_rf rf1" "rf_list rf1 = rf_list rf"
      "current_size rf1 = current_size rf" "n \<le> total_size rf1" "n \<le> total_size rf \<longrightarrow> total_size rf1 = total_size rf"
    using RF_Reserve_keeps[OF assms(1,2,4)] by auto
  note wf = wf_rfD[OF assms(2)] and load = load_ref_ok[OF assms(2,5) rf1(6)]
  let ?ys = "replicate (nat (n - current_size rf)) (ref_value v (rf_list rf))"
  have len: "int (length ?ys) = n - current_size rf" using True by simp
  have pos: "0 < total_size rf1" using rf1(5) True wf(1) by simp
  obtain zs where zs: "CopyArray (rf_slots rf1) (current_size rf) ?ys (n - current_size rf) = Inr zs"
      "wf_rf ((rf_set_elements zs rf1)\<lparr>current_size := n\<rparr>)"
      "rf_list ((rf_set_elements zs rf1)\<lparr>current_size := n\<rparr>) = rf_list rf @ ?ys"
    using append_block[OF rf1(2) pos, of ?ys] rf1(3-5) len by auto
  have "take (nat n) (rf_list rf) = rf_list rf" using wf(5) True by simp
  then show ?thesis
    using assms(3) True rf1 zs load rf_elements_slots[OF pos rf1(2)] by (simp add: RF_Resize_def check_def)
qed

lemma RF_Resize_own_freed:
  assumes "element_ok el" and "wf_rf rf" and "rf_fits n rf" and "total_size rf < n" and "RF_GetArenaNoVirtual rf = None"
  shows "RF_Resize el n (Own i) rf = Inl UseAfterFree"
proof -
  note wf = wf_rfD[OF assms(2)]
  obtain rf1 where rf1: "RF_Reserve el n rf = Inr rf1" "wf_rf rf1" "n \<le> total_size rf1"
    using RF_Reserve_keeps[OF assms(1-3)] by blast
  then have "0 < total_size rf1" using assms(4) wf(1,2) by simp
  then show ?thesis using rf1 load_ref_freed[of rf rf1 i] rf_elements_slots[OF _ rf1(2)] assms(4,5) wf(1,2)
    by (simp add: RF_Resize_def check_def)
qed

lemma RF_MergeFrom_appends:
  assumes "element_ok el" and "wf_rf rf" and "wf_rf oth" and "rf_fits (current_size rf + current_size oth) rf"
  shows "\<exists>rf'. RF_MergeFrom el (Some oth) rf = Inr rf' \<and> wf_rf rf' \<and> rf_list rf' = rf_list rf @ rf_list oth"
proof (cases "current_size oth = 0")
  case True
  then show ?thesis using assms(2) by (simp add: RF_MergeFrom_def rf_list_def)
next
  case False
  note wf = wf_rfD[OF assms(2)] and wo = wf_rfD[OF assms(3)]
  let ?n = "current_size rf + current_size oth"
  obtain rf1 where rf1: "RF_Reserve el ?n rf = Inr rf1" "wf_rf rf1" "rf_list rf1 = rf_list rf"
      "current_size rf1 = current_size rf" "?n \<le> total_size rf1"
    using RF_Reserve_keeps[OF assms(1,2,4)] by auto
  have i: "int32 ?n" using rf1(5) wf_rfD(3)[OF rf1(2)] wf(1) wo(1) by (simp add: int32_def)
  have pos: "0 < total_size rf1" "0 < total_size oth" using rf1(5) False wf(1) wo(1,2) by simp_all
  have len: "int (length (rf_list oth)) = current_size oth" using wo(1,5) by simp
  obtain zs where zs: "CopyArray (rf_slots rf1) (current_size rf) (rf_list oth) (current_size oth) = Inr zs"
      "wf_rf ((rf_set_elements zs rf1)\<lparr>current_size := ?n\<rparr>)"
      "rf_list ((rf_set_elements zs rf1)\<lparr>current_size := ?n\<rparr>) = rf_list rf @ rf_list oth"
    using append_block[OF rf1(2) pos(1), of "rf_list oth"] rf1(3-5) len by auto
  have "CopyArray (rf_slots rf1) (current_size rf) (rf_slots oth) (current_size oth) = Inr zs"
    using zs(1) wo(1,5,6) by (auto simp: CopyArray_def rf_list_def split: if_splits)
  then show ?thesis
    using False i rf1 zs rf_elements_slots[OF pos(1) rf1(2)] rf_elements_slots[OF pos(2) assms(3)]
    by (simp add: RF_MergeFrom_def)
qed


text \<open>The loop of \<open>ExtractSubrange\<close> that slides the tail down over the gap.\<close>

lemma upto_last: "i \<le> j \<Longrightarrow> [i..j] = [i..j - 1] @ [j]"
  by (rule upto_rec2)

definition slid :: "'a list \<Rightarrow> nat \<Rightarrow> nat \<Rightarrow> nat \<Rightarrow> 'a list" where
  "slid xs s n k = take s xs @ take k (drop (s + n) xs) @ drop (s + k) xs"

lemma slid_step:
  assumes "s + n + k < length xs" and "0 < n"
  shows "(slid xs s n k)[s + k := xs ! (s + n + k)] = slid xs s n (Suc k)"
    and "slid xs s n k ! (s + n + k) = xs ! (s + n + k)"
proof -
  have len: "length (take s xs) = s" "length (take k (drop (s + n) xs)) = k" using assms(1) by simp_all
  have d: "drop (s + k) xs = xs ! (s + k) # drop (Suc (s + k)) xs" using assms by (simp add: Cons_nth_drop_Suc)
  have t: "take (Suc k) (drop (s + n) xs) = take k (drop (s + n) xs) @ [xs ! (s + n + k)]"
    using assms(1) by (simp add: take_Suc_conv_app_nth)
  show "(slid xs s n k)[s + k := xs ! (s + n + k)] = slid xs s n (Suc k)"
    unfolding slid_def t d using len by (simp add: list_update_append)
  show "slid xs s n k ! (s + n + k) = xs ! (s + n + k)"
    unfolding slid_def using assms len by (simp add: nth_append) (simp add: add.commute add.left_commute)
qed

lemma slide_loop:
  assumes "wf_rf rf" and "0 \<le> start" and "0 < num" and "0 \<le> k" and "start + num + k \<le> current_size rf"
  shows "\<exists>rf'. for_each (\<lambda>i rf. bnd (RF_Get i rf) (\<lambda>x. RF_Set (i - num) x rf)) [start + num..start + num + k - 1] rf =
      Inr rf' \<and> wf_rf rf' \<and> current_size rf' = current_size rf \<and>
    rf_list rf' = slid (rf_list rf) (nat start) (nat num) (nat k)"
  using assms(4,5)
proof (induction k rule: int_ge_induct)
  case base
  then show ?case using assms(1) by (simp add: slid_def)
next
  case (step k)
  then obtain rf1 where rf1:
      "for_each (\<lambda>i rf. bnd (RF_Get i rf) (\<lambda>x. RF_Set (i - num) x rf)) [start + num..start + num + k - 1] rf = Inr rf1"
      "wf_rf rf1" "current_size rf1 = current_size rf"
      "rf_list rf1 = slid (rf_list rf) (nat start) (nat num) (nat k)"
    by auto
  let ?i = "start + num + k"
  have i: "0 \<le> ?i" "?i < current_size rf1" "0 \<le> start + k" "start + k < current_size rf1"
    using step assms rf1(3) by simp_all
  have ni: "nat ?i = nat start + nat num + nat k" "nat (start + k) = nat start + nat k" "nat (k + 1) = Suc (nat k)"
    using assms step(1) by (simp_all add: nat_add_distrib)
  have len: "nat start + nat num + nat k < length (rf_list rf)" "0 < nat num"
    using i rf1(3) wf_rfD(5)[OF assms(1)] assms(3) by (simp_all flip: ni(1))
  note st = slid_step[OF len]
  have get: "RF_Get ?i rf1 = Inr (rf_list rf ! nat ?i)"
    using RF_Get_nth[OF rf1(2) i(1,2)] by (simp only: rf1(4) ni st(2))
  obtain rf2 where rf2: "RF_Set (start + k) (rf_list rf ! nat ?i) rf1 = Inr rf2" "wf_rf rf2"
      "rf_list rf2 = slid (rf_list rf) (nat start) (nat num) (nat (k + 1))" "current_size rf2 = current_size rf1"
    using RF_Set_updates[OF rf1(2) i(3,4), of "rf_list rf ! nat ?i"] by (auto simp only: rf1(4) ni st(1))
  have "?i - num = start + k" by simp
  moreover have "start + num + (k + 1) - 1 = ?i" by simp
  then have "[start + num..start + num + (k + 1) - 1] = [start + num..start + num + k - 1] @ [?i]"
    using step(1) by (simp only:) (rule upto_last, simp)
  ultimately show ?case using rf1 rf2 get by (simp add: for_each_append)
qed

lemma RF_ExtractSubrange_cuts:
  assumes "wf_rf rf" and "0 \<le> start" and "0 \<le> num" and "start + num \<le> current_size rf"
  shows "\<exists>rf'. RF_ExtractSubrange start num want rf =
      Inr (if want then take (nat num) (drop (nat start) (rf_list rf)) else [], rf') \<and> wf_rf rf' \<and>
    rf_list rf' = take (nat start) (rf_list rf) @ drop (nat (start + num)) (rf_list rf)"
proof -
  let ?xs = "rf_list rf"
  have len: "length ?xs = nat (current_size rf)" using wf_rfD(5)[OF assms(1)] .
  have get: "for_each (\<lambda>i out. bnd (RF_Get (i + start) rf) (\<lambda>x. Inr (out @ [x]))) [0..k - 1] [] =
      Inr (take (nat k) (drop (nat start) ?xs))" if "0 \<le> k" "k \<le> num" for k
    using that
  proof (induction k rule: int_ge_induct)
    case (step k)
    have "RF_Get (k + start) rf = Inr (?xs ! nat (k + start))"
      using RF_Get_nth[OF assms(1), of "k + start"] assms step by simp
    moreover have "nat (k + start) = nat start + nat k" "nat (k + 1) = Suc (nat k)"
      using assms(2) step(1) by simp_all
    moreover have "take (Suc (nat k)) (drop (nat start) ?xs) = take (nat k) (drop (nat start) ?xs) @ [?xs ! (nat start + nat k)]"
      using len assms step by (simp add: take_Suc_conv_app_nth)
    moreover have "[0..k] = [0..k - 1] @ [k]" using step(1) by (rule upto_last)
    ultimately show ?case using step by (simp add: for_each_append)
  qed simp
  have out: "(if want then for_each (\<lambda>i out. bnd (RF_Get (i + start) rf) (\<lambda>x. Inr (out @ [x]))) [0..num - 1] []
      else Inr []) = Inr (if want then take (nat num) (drop (nat start) ?xs) else [])"
    using get[of num] assms(3) by simp
  show ?thesis
  proof (cases "num = 0")
    case True
    then show ?thesis using assms out by (simp add: RF_ExtractSubrange_def check_def)
  next
    case False
    let ?k = "current_size rf - (start + num)"
    obtain rf1 where rf1: "for_each (\<lambda>i rf. bnd (RF_Get i rf) (\<lambda>x. RF_Set (i - num) x rf))
          [start + num..current_size rf - 1] rf = Inr rf1" "wf_rf rf1" "current_size rf1 = current_size rf"
        "rf_list rf1 = slid ?xs (nat start) (nat num) (nat ?k)"
      using slide_loop[OF assms(1,2), of num ?k] assms(3,4) False by auto
    have n: "0 \<le> current_size rf - num" "current_size rf - num \<le> current_size rf1"
      using assms rf1(3) by simp_all
    obtain rf2 where rf2: "RF_Truncate (current_size rf - num) rf1 = Inr rf2" "wf_rf rf2"
        "rf_list rf2 = take (nat (current_size rf - num)) (rf_list rf1)"
      using RF_Truncate_takes[OF rf1(2) n] by blast
    have nats: "nat (current_size rf - num) = nat start + nat ?k" "nat (start + num) = nat start + nat num"
      using assms by simp_all
    have lens: "length (take (nat start) ?xs) = nat start" "length (drop (nat start + nat num) ?xs) = nat ?k"
      "take (nat ?k) (drop (nat start + nat num) ?xs) = drop (nat start + nat num) ?xs"
      using len assms by simp_all
    have "take (nat start + nat ?k) (take (nat start) ?xs @ drop (nat start + nat num) ?xs @ zs) =
        take (nat start) ?xs @ drop (nat start + nat num) ?xs" for zs
      by (simp only: take_append lens) (simp add: lens(2)[simplified])
    then have "rf_list rf2 = take (nat start) ?xs @ drop (nat (start + num)) ?xs"
      unfolding rf2(3) rf1(4) slid_def nats lens(3) .
    then show ?thesis using assms False out rf1 rf2 by (simp add: RF_ExtractSubrange_def check_def)
  qed
qed


lemma RF_erase_range_cuts:
  assumes "wf_rf rf" and "0 \<le> i" and "i \<le> j" and "j \<le> current_size rf"
  shows "\<exists>rf'. RF_erase_range i j rf = Inr (i, rf') \<and> wf_rf rf' \<and>
    rf_list rf' = take (nat i) (rf_list rf) @ drop (nat j) (rf_list rf)"
proof (cases "i = j")
  case True
  then show ?thesis using assms(1) by (simp add: RF_erase_range_def)
next
  case False
  note wf = wf_rfD[OF assms(1)]
  let ?xs = "rf_slots rf" and ?c = "current_size rf"
  have pos: "0 < total_size rf" using False assms wf(2) by simp
  let ?ys = "take (nat i) ?xs @ take (nat (?c - j)) (drop (nat j) ?xs) @ drop (nat (i + (?c - j))) ?xs"
  have copy: "std_copy ?xs j ?c i = Inr (?ys, i + (?c - j))"
    using assms False wf(6) by (simp add: std_copy_def)
  have lens: "length (take (nat i) ?xs) = nat i" "length (take (nat (?c - j)) (drop (nat j) ?xs)) = nat (?c - j)"
    using assms wf(6) by simp_all
  have "int (length ?ys) = int (length ?xs)" using lens assms wf(6) by simp
  then have same: "length ?ys = length ?xs" by (simp only: of_nat_eq_iff)
  let ?rf1 = "rf_set_elements ?ys rf"
  have wf1: "wf_rf ?rf1" and l1: "rf_list ?rf1 = take (nat ?c) ?ys" using rf_written[OF assms(1) pos same] .
  have n: "0 \<le> i + (?c - j)" "i + (?c - j) \<le> current_size ?rf1" using assms by simp_all
  obtain rf2 where rf2: "RF_Truncate (i + (?c - j)) ?rf1 = Inr rf2" "wf_rf rf2"
      "rf_list rf2 = take (nat (i + (?c - j))) (rf_list ?rf1)"
    using RF_Truncate_takes[OF wf1 n] by blast
  have nats: "nat (i + (?c - j)) = nat i + nat (?c - j)" using assms by simp
  have "nat i + nat (?c - j) \<le> nat ?c" using assms by simp
  then have "rf_list rf2 = take (nat i + nat (?c - j)) ?ys"
    unfolding rf2(3) nats l1[unfolded nats] by (simp only: take_take min_absorb1)
  also have "\<dots> = take (nat i) ?xs @ take (nat (?c - j)) (drop (nat j) ?xs)"
    by (simp only: take_append lens) simp
  also have "\<dots> = take (nat i) (rf_list rf) @ drop (nat j) (rf_list rf)"
    using assms unfolding rf_list_def by (simp add: drop_take min_def nat_diff_distrib)
  finally show ?thesis using False copy rf2 rf_elements_slots[OF pos assms(1)] by (simp add: RF_erase_range_def)
qed

lemma RF_SwapElements_swaps:
  assumes "wf_rf rf" and "0 \<le> i" and "i < current_size rf" and "0 \<le> j" and "j < current_size rf"
  shows "\<exists>rf'. RF_SwapElements i j rf = Inr rf' \<and> wf_rf rf' \<and>
    rf_list rf' = (rf_list rf)[nat i := rf_list rf ! nat j, nat j := rf_list rf ! nat i]"
proof -
  note wf = wf_rfD[OF assms(1)]
  have pos: "0 < total_size rf" using assms wf(2) by simp
  have b: "i < int (length (rf_slots rf))" "j < int (length (rf_slots rf))" using assms wf(6) by simp_all
  let ?zs = "(rf_slots rf)[nat i := rf_list rf ! nat j, nat j := rf_list rf ! nat i]"
  have "RF_SwapElements i j rf = Inr (rf_set_elements ?zs rf)"
    using assms b nth_rf_list[OF assms(1)] rf_elements_slots[OF pos assms(1)]
    by (simp add: RF_SwapElements_def read_at_def write_at_def)
  moreover have "wf_rf (rf_set_elements ?zs rf)" "rf_list (rf_set_elements ?zs rf) = take (nat (current_size rf)) ?zs"
    using rf_written[OF assms(1) pos, of ?zs] by simp_all
  moreover have "take (nat (current_size rf)) ?zs =
      (rf_list rf)[nat i := rf_list rf ! nat j, nat j := rf_list rf ! nat i]"
    by (simp only: take_update_swap rf_list_def)
  ultimately show ?thesis by simp
qed

section \<open>Refinement of a list\<close>

text \<open>\<open>Add()\<close> and \<open>AddAlreadyReserved()\<close> return the place of an element that is not assigned yet; \<open>None\<close> in
  \<open>OCopyFrom\<close> and \<open>OAssign\<close> is the field itself.\<close>

datatype 'a rf_op =
    OAdd "'a elem_ref" | OAddPtr | OAddReserved 'a | OAddPtrReserved
  | OSet int 'a | ORemoveLast | OTruncate int | OResize int "'a elem_ref" | OReserve int | OClear
  | OMergeFrom "'a RepeatedField" | OCopyFrom "'a RepeatedField option" | OAssign "'a RepeatedField option"
  | OErase int int | OExtract int int | OSwapElements int int

fun rf_exec :: "'a element \<Rightarrow> 'a rf_op \<Rightarrow> 'a RepeatedField \<Rightarrow> 'a RepeatedField run" where
  "rf_exec el (OAdd x) rf = RF_Add el x rf"
| "rf_exec el OAddPtr rf = bnd (RF_AddPtr el rf) (\<lambda>(_, rf'). Inr rf')"
| "rf_exec el (OAddReserved x) rf = RF_AddAlreadyReserved x rf"
| "rf_exec el OAddPtrReserved rf = bnd (RF_AddPtrAlreadyReserved rf) (\<lambda>(_, rf'). Inr rf')"
| "rf_exec el (OSet i x) rf = RF_Set i x rf"
| "rf_exec el ORemoveLast rf = RF_RemoveLast rf"
| "rf_exec el (OTruncate n) rf = RF_Truncate n rf"
| "rf_exec el (OResize n x) rf = RF_Resize el n x rf"
| "rf_exec el (OReserve n) rf = RF_Reserve el n rf"
| "rf_exec el OClear rf = Inr (RF_Clear rf)"
| "rf_exec el (OMergeFrom oth) rf = RF_MergeFrom el (Some oth) rf"
| "rf_exec el (OCopyFrom other) rf = RF_CopyFrom el other rf"
| "rf_exec el (OAssign other) rf = RF_assign el other rf"
| "rf_exec el (OErase i j) rf = bnd (RF_erase_range i j rf) (\<lambda>(_, rf'). Inr rf')"
| "rf_exec el (OExtract s n) rf = bnd (RF_ExtractSubrange s n True rf) (\<lambda>(_, rf'). Inr rf')"
| "rf_exec el (OSwapElements i j) rf = RF_SwapElements i j rf"

fun list_exec :: "'a rf_op \<Rightarrow> 'a list \<Rightarrow> 'a list \<Rightarrow> bool" where
  "list_exec (OAdd x) xs ys \<longleftrightarrow> ys = xs @ [ref_value x xs]"
| "list_exec OAddPtr xs ys \<longleftrightarrow> (\<exists>y. ys = xs @ [y])"
| "list_exec (OAddReserved x) xs ys \<longleftrightarrow> ys = xs @ [x]"
| "list_exec OAddPtrReserved xs ys \<longleftrightarrow> (\<exists>y. ys = xs @ [y])"
| "list_exec (OSet i x) xs ys \<longleftrightarrow> ys = xs[nat i := x]"
| "list_exec ORemoveLast xs ys \<longleftrightarrow> ys = butlast xs"
| "list_exec (OTruncate n) xs ys \<longleftrightarrow> ys = take (nat n) xs"
| "list_exec (OResize n x) xs ys \<longleftrightarrow> ys = take (nat n) xs @ replicate (nat n - length xs) (ref_value x xs)"
| "list_exec (OReserve n) xs ys \<longleftrightarrow> ys = xs"
| "list_exec OClear xs ys \<longleftrightarrow> ys = []"
| "list_exec (OMergeFrom oth) xs ys \<longleftrightarrow> ys = xs @ rf_list oth"
| "list_exec (OCopyFrom other) xs ys \<longleftrightarrow> ys = (case other of None \<Rightarrow> xs | Some oth \<Rightarrow> rf_list oth)"
| "list_exec (OAssign other) xs ys \<longleftrightarrow> ys = (case other of None \<Rightarrow> xs | Some oth \<Rightarrow> rf_list oth)"
| "list_exec (OErase i j) xs ys \<longleftrightarrow> ys = take (nat i) xs @ drop (nat j) xs"
| "list_exec (OExtract s n) xs ys \<longleftrightarrow> ys = take (nat s) xs @ drop (nat (s + n)) xs"
| "list_exec (OSwapElements i j) xs ys \<longleftrightarrow> ys = xs[nat i := xs ! nat j, nat j := xs ! nat i]"

text \<open>What the caller has to see to: indices in range, room that can be had, and no reference into an array
  that the operation itself deletes.\<close>

fun rf_op_ok :: "'a rf_op \<Rightarrow> 'a RepeatedField \<Rightarrow> bool" where
  "rf_op_ok (OAdd x) rf \<longleftrightarrow> rf_fits (current_size rf + 1) rf \<and> ref_ok x (current_size rf + 1) rf"
| "rf_op_ok OAddPtr rf \<longleftrightarrow> rf_fits (current_size rf + 1) rf"
| "rf_op_ok (OAddReserved x) rf \<longleftrightarrow> current_size rf < total_size rf"
| "rf_op_ok OAddPtrReserved rf \<longleftrightarrow> current_size rf < total_size rf"
| "rf_op_ok (OSet i x) rf \<longleftrightarrow> 0 \<le> i \<and> i < current_size rf"
| "rf_op_ok ORemoveLast rf \<longleftrightarrow> 0 < current_size rf"
| "rf_op_ok (OTruncate n) rf \<longleftrightarrow> 0 \<le> n \<and> n \<le> current_size rf"
| "rf_op_ok (OResize n x) rf \<longleftrightarrow> 0 \<le> n \<and> rf_fits n rf \<and> ref_ok x n rf"
| "rf_op_ok (OReserve n) rf \<longleftrightarrow> rf_fits n rf"
| "rf_op_ok OClear rf \<longleftrightarrow> True"
| "rf_op_ok (OMergeFrom oth) rf \<longleftrightarrow> wf_rf oth \<and> rf_fits (current_size rf + current_size oth) rf"
| "rf_op_ok (OCopyFrom other) rf \<longleftrightarrow> (\<forall>oth \<in> set_option other. wf_rf oth \<and> rf_fits (current_size oth) rf)"
| "rf_op_ok (OAssign other) rf \<longleftrightarrow> (\<forall>oth \<in> set_option other. wf_rf oth \<and> rf_fits (current_size oth) rf)"
| "rf_op_ok (OErase i j) rf \<longleftrightarrow> 0 \<le> i \<and> i \<le> j \<and> j \<le> current_size rf"
| "rf_op_ok (OExtract s n) rf \<longleftrightarrow> 0 \<le> s \<and> 0 \<le> n \<and> s + n \<le> current_size rf"
| "rf_op_ok (OSwapElements i j) rf \<longleftrightarrow> 0 \<le> i \<and> i < current_size rf \<and> 0 \<le> j \<and> j < current_size rf"

lemma RF_CopyFrom_copies:
  assumes "element_ok el" and "wf_rf rf" and "wf_rf oth" and "rf_fits (current_size oth) rf"
  shows "\<exists>rf'. RF_CopyFrom el (Some oth) rf = Inr rf' \<and> wf_rf rf' \<and> rf_list rf' = rf_list oth"
proof -
  have c: "wf_rf (RF_Clear rf)" "rf_list (RF_Clear rf) = []"
    using RF_shrink[OF assms(2), of 0] wf_rfD(1)[OF assms(2)] by (simp_all add: RF_Clear_def)
  have "rf_fits (current_size (RF_Clear rf) + current_size oth) (RF_Clear rf)"
    using assms(4) by (simp add: RF_Clear_def rf_fits_def)
  from RF_MergeFrom_appends[OF assms(1) c(1) assms(3) this] show ?thesis using c(2) by (simp add: RF_CopyFrom_def)
qed

lemma rf_op_refines:
  assumes "element_ok el" and "wf_rf rf" and "rf_op_ok op rf"
  shows "\<exists>rf'. rf_exec el op rf = Inr rf' \<and> wf_rf rf' \<and> list_exec op (rf_list rf) (rf_list rf')"
proof (cases op)
  case (OAdd x)
  then show ?thesis using RF_Add_appends[OF assms(1,2)] assms(3) by fastforce
next
  case OAddPtr
  then show ?thesis using RF_AddPtr_appends[OF assms(1,2)] assms(3) by fastforce
next
  case (OAddReserved x)
  then show ?thesis using AddAlreadyReserved_appends(1)[OF assms(2), of x] assms(3) by auto
next
  case OAddPtrReserved
  then show ?thesis using AddAlreadyReserved_appends(2)[OF assms(2)] assms(3) by auto
next
  case (OSet i x)
  then show ?thesis using RF_Set_updates[OF assms(2)] assms(3) by fastforce
next
  case ORemoveLast
  then show ?thesis using RF_RemoveLast_butlast[OF assms(2)] assms(3) by simp
next
  case (OTruncate n)
  then show ?thesis using RF_Truncate_takes[OF assms(2)] assms(3) by simp
next
  case (OResize n x)
  then show ?thesis
    using RF_Resize_pads[OF assms(1,2)] assms(3) wf_rfD(1,5)[OF assms(2)] by (simp add: nat_diff_distrib')
next
  case (OReserve n)
  then show ?thesis using RF_Reserve_keeps[OF assms(1,2)] assms(3) by fastforce
next
  case OClear
  then show ?thesis using RF_shrink[OF assms(2), of 0] wf_rfD(1)[OF assms(2)] by (simp add: RF_Clear_def)
next
  case (OMergeFrom oth)
  then show ?thesis using RF_MergeFrom_appends[OF assms(1,2)] assms(3) by simp
next
  case (OCopyFrom other)
  then show ?thesis using RF_CopyFrom_copies[OF assms(1,2)] assms(2,3) by (cases other) (auto simp: RF_CopyFrom_def)
next
  case (OAssign other)
  then show ?thesis using RF_CopyFrom_copies[OF assms(1,2)] assms(2,3) by (cases other) (auto simp: RF_assign_def)
next
  case (OErase i j)
  then show ?thesis using RF_erase_range_cuts[OF assms(2), of i j] assms(3) by auto
next
  case (OExtract s n)
  then show ?thesis using RF_ExtractSubrange_cuts[OF assms(2), of s n True] assms(3) by auto
next
  case (OSwapElements i j)
  then show ?thesis using RF_SwapElements_swaps[OF assms(2)] assms(3) by simp
qed

lemma wf_RF_new [simp]: "wf_rf RF_new" "rf_list RF_new = []" "total_size RF_new = 0" "current_size RF_new = 0"
  by (simp_all add: wf_rf_def RF_new_def rf_slots_def rf_list_def)

lemma wf_RF_new_arena [simp]: "wf_rf (RF_new_arena arena)" "rf_list (RF_new_arena arena) = []"
  by (simp_all add: RF_new_arena_def wf_rf_def rf_list_def rf_slots_def)

lemma RF_copy_copies:
  assumes "element_ok el" and "wf_rf oth"
  shows "\<exists>rf'. RF_copy el oth = Inr rf' \<and> wf_rf rf' \<and> rf_list rf' = rf_list oth"
proof -
  have "rf_fits (current_size oth) RF_new" using wf_rfD(2,3)[OF assms(2)] by (simp add: rf_fits_def)
  from RF_CopyFrom_copies[OF assms(1) wf_RF_new(1) assms(2) this] show ?thesis by (simp add: RF_copy_def)
qed

text \<open>\<open>Swap\<close> exchanges the elements of two fields, on the same arena or not.\<close>

lemma RF_Swap_exchanges:
  fixes rf other :: "'a RepeatedField"
  assumes "element_ok el" and "wf_rf rf" and "wf_rf other"
    and "rf_fits (current_size other) rf" and "current_size rf < 2 ^ 30"
  shows "\<exists>rf' other'. RF_Swap el rf other = Inr (rf', other') \<and> wf_rf rf' \<and> wf_rf other' \<and>
    rf_list rf' = rf_list other \<and> rf_list other' = rf_list rf"
proof (cases "RF_GetArenaNoVirtual rf = RF_GetArenaNoVirtual other")
  case True
  then show ?thesis using assms(2,3) by (simp add: RF_Swap_def RF_InternalSwap_def)
next
  case False
  let ?t = "RF_new_arena (RF_GetArenaNoVirtual other) :: 'a RepeatedField"
  have t: "wf_rf ?t" "rf_list ?t = []" "current_size ?t = 0" "total_size ?t = 0"
    "RF_GetArenaNoVirtual ?t = RF_GetArenaNoVirtual other"
    by (simp_all add: RF_new_arena_def wf_rf_def rf_list_def rf_slots_def RF_GetArenaNoVirtual_def)
  have "rf_fits (current_size ?t + current_size rf) ?t" using assms(5) unfolding rf_fits_def t(3,4) by simp
  then obtain temp where temp: "RF_MergeFrom el (Some rf) ?t = Inr temp" "wf_rf temp" "rf_list temp = rf_list rf"
    using RF_MergeFrom_appends[OF assms(1) t(1) assms(2)] t(2) by auto
  have arena: "RF_GetArenaNoVirtual temp = RF_GetArenaNoVirtual other"
  proof -
    have keep: "RF_GetArenaNoVirtual ((rf_set_elements xs g)\<lparr>current_size := n\<rparr>) = RF_GetArenaNoVirtual g" for xs n g
      by (simp add: RF_GetArenaNoVirtual_def rf_set_elements_def split: option.splits)
    have res: "RF_GetArenaNoVirtual g' = RF_GetArenaNoVirtual g" if "RF_Reserve el n g = Inr g'" for n g g'
      using that by (auto simp: RF_Reserve_def Let_def check_def RF_GetArenaNoVirtual_def split: if_splits)
    show ?thesis using temp(1) t(5)
      by (auto simp: RF_MergeFrom_def bnd_eq_Inr keep dest!: res split: if_splits)
  qed
  obtain rf1 where "RF_CopyFrom el (Some other) rf = Inr rf1" "wf_rf rf1" "rf_list rf1 = rf_list other"
    using RF_CopyFrom_copies[OF assms(1-4)] by blast
  then show ?thesis using False temp arena
    by (simp add: RF_Swap_def RF_UnsafeArenaSwap_def RF_InternalSwap_def check_def)
qed

lemma RF_UnsafeArenaSwap_exchanges:
  "RF_GetArenaNoVirtual rf = RF_GetArenaNoVirtual other \<Longrightarrow> RF_UnsafeArenaSwap rf other = Inr (other, rf)"
  by (simp add: RF_UnsafeArenaSwap_def RF_InternalSwap_def check_def)

text \<open>C38: \<open>Add\<close>, \<open>AddAlreadyReserved\<close>, \<open>Set\<close>, \<open>RemoveLast\<close>, \<open>Truncate\<close>, \<open>Resize\<close>, \<open>Reserve\<close>, \<open>Clear\<close>,
  \<open>MergeFrom\<close>, \<open>CopyFrom\<close>, assignment, \<open>erase\<close>, \<open>ExtractSubrange\<close> and \<open>SwapElements\<close> of a well-formed
  \<open>RepeatedField\<close> that can grow when it must, with arguments in range, end without a fault or a failed
  check, keep the field well formed and do to the list of its elements what they are for (the forms of
  \<open>Add\<close> that return a place append an element of any value); so do the constructors without a range, \<open>Swap\<close>
  and \<open>UnsafeArenaSwap\<close>, and \<open>Get\<close>, \<open>Mutable\<close>, \<open>size\<close> and \<open>empty\<close> answer from the list. \<open>Add\<close> and \<open>Resize\<close>
  take a reference: one to an element of the same field is in range only while the array is not replaced,
  or with an arena; otherwise, as in \<open>f.Add(f.Get(0))\<close> on a full field, they read freed memory.\<close>

theorem RepeatedField_refines_list:
  fixes rf oth :: "'a RepeatedField"
  assumes "element_ok el" and "wf_rf rf"
  shows "(rf_op_ok op rf \<longrightarrow>
      (\<exists>rf'. rf_exec el op rf = Inr rf' \<and> wf_rf rf' \<and> list_exec op (rf_list rf) (rf_list rf'))) \<and>
    (rf_fits (current_size rf + 1) rf \<and> current_size rf = total_size rf \<and> RF_GetArenaNoVirtual rf = None \<longrightarrow>
      RF_Add el (Own i) rf = Inl UseAfterFree) \<and>
    (rf_fits n rf \<and> total_size rf < n \<and> RF_GetArenaNoVirtual rf = None \<longrightarrow> RF_Resize el n (Own i) rf = Inl UseAfterFree) \<and>
    (wf_rf oth \<and> rf_fits (current_size oth) rf \<and> current_size rf < 2 ^ 30 \<longrightarrow>
      (\<exists>rf' oth'. RF_Swap el rf oth = Inr (rf', oth') \<and> wf_rf rf' \<and> wf_rf oth' \<and>
         rf_list rf' = rf_list oth \<and> rf_list oth' = rf_list rf)) \<and>
    (RF_GetArenaNoVirtual rf = RF_GetArenaNoVirtual oth \<longrightarrow> RF_UnsafeArenaSwap rf oth = Inr (oth, rf)) \<and>
    (\<exists>rf'. RF_copy el rf = Inr rf' \<and> wf_rf rf' \<and> rf_list rf' = rf_list rf) \<and>
    wf_rf (RF_new :: 'a RepeatedField) \<and> rf_list (RF_new :: 'a RepeatedField) = [] \<and>
    wf_rf (RF_new_arena arena :: 'a RepeatedField) \<and> rf_list (RF_new_arena arena :: 'a RepeatedField) = [] \<and>
    (0 \<le> i \<and> i < current_size rf \<longrightarrow> RF_Get i rf = Inr (rf_list rf ! nat i) \<and> RF_Mutable i rf = Inr i) \<and>
    RF_size rf = int (length (rf_list rf)) \<and> (RF_empty rf \<longleftrightarrow> rf_list rf = [])"
proof -
  have swap: "wf_rf oth \<and> rf_fits (current_size oth) rf \<and> current_size rf < 2 ^ 30 \<longrightarrow>
      (\<exists>rf' oth'. RF_Swap el rf oth = Inr (rf', oth') \<and> wf_rf rf' \<and> wf_rf oth' \<and>
         rf_list rf' = rf_list oth \<and> rf_list oth' = rf_list rf)"
    using RF_Swap_exchanges[OF assms] by blast
  note wf = wf_rfD[OF assms(2)]
  have get: "RF_Get i rf = Inr (rf_list rf ! nat i) \<and> RF_Mutable i rf = Inr i" if "0 \<le> i" "i < current_size rf"
    using RF_Get_nth[OF assms(2) that] rf_elements_slots[OF _ assms(2)] that wf(2) by (simp add: RF_Mutable_def check_def)
  have size: "RF_size rf = int (length (rf_list rf))" "RF_empty rf \<longleftrightarrow> rf_list rf = []"
    using wf(1,5) by (auto simp: RF_size_def RF_empty_def simp flip: length_0_conv)
  have freed: "rf_fits (current_size rf + 1) rf \<and> current_size rf = total_size rf \<and> RF_GetArenaNoVirtual rf = None \<longrightarrow>
      RF_Add el (Own i) rf = Inl UseAfterFree"
    "rf_fits n rf \<and> total_size rf < n \<and> RF_GetArenaNoVirtual rf = None \<longrightarrow> RF_Resize el n (Own i) rf = Inl UseAfterFree"
    using RF_Add_own_freed[OF assms] RF_Resize_own_freed[OF assms] by blast+
  show ?thesis
    using rf_op_refines[OF assms] get
    by (intro conjI freed swap size RF_copy_copies[OF assms] wf_RF_new wf_RF_new_arena impI RF_UnsafeArenaSwap_exchanges) auto
qed

section \<open>Appending many elements\<close>

text \<open>What \<open>Add\<close> promises of a container: the item goes to the end, and the capacity stays within
  twice the number of items.\<close>

locale growable =
  fixes inv :: "'s \<Rightarrow> bool" and items :: "'s \<Rightarrow> 'a list" and cap :: "'s \<Rightarrow> int"
    and add :: "'a \<Rightarrow> 's \<Rightarrow> 's run"
  assumes add_item: "inv s \<Longrightarrow> length (items s) < 2 ^ 30 \<Longrightarrow>
    \<exists>s'. add x s = Inr s' \<and> inv s' \<and> items s' = items s @ [x] \<and>
      cap s' \<le> max (cap s) (max 4 (2 * (int (length (items s)) + 1)))"
begin

lemma add_all:
  assumes "inv s" and "length (items s) + length xs \<le> 2 ^ 30"
  shows "\<exists>s'. for_each add xs s = Inr s' \<and> inv s' \<and> items s' = items s @ xs \<and>
    cap s' \<le> max (cap s) (max 4 (2 * (int (length (items s)) + int (length xs))))"
  using assms
proof (induction xs arbitrary: s)
  case Nil
  then show ?case by simp
next
  case (Cons x xs)
  obtain s1 where s1: "add x s = Inr s1" "inv s1" "items s1 = items s @ [x]"
      "cap s1 \<le> max (cap s) (max 4 (2 * (int (length (items s)) + 1)))"
    using add_item[OF Cons.prems(1), of x] Cons.prems(2) by auto
  obtain s2 where s2: "for_each add xs s1 = Inr s2" "inv s2" "items s2 = items s1 @ xs"
      "cap s2 \<le> max (cap s1) (max 4 (2 * (int (length (items s1)) + int (length xs))))"
    using Cons.IH[OF s1(2)] Cons.prems(2) s1(3) by auto
  have "cap s2 \<le> max (cap s) (max 4 (2 * (int (length (items s)) + int (length (x # xs)))))"
    using s1(3,4) s2(4) by (simp add: max_def split: if_splits)
  then show ?case using s1 s2 by auto
qed

end

interpretation rf: growable "\<lambda>rf. wf_rf rf \<and> element_ok el" rf_list total_size "Add_value el"
proof
  fix rf :: "'a RepeatedField" and x :: 'a
  assume inv: "wf_rf rf \<and> element_ok el" and small: "length (rf_list rf) < 2 ^ 30"
  then have wf: "wf_rf rf" and el: "element_ok el" by simp_all
  have len: "int (length (rf_list rf)) = current_size rf" using wf_rfD(1,5)[OF wf] by simp
  have "current_size rf < 2 ^ 30" using small unfolding len[symmetric] by simp
  then have "rf_fits (current_size rf + 1) rf" using wf_rfD(2)[OF wf] by (auto simp: rf_fits_def)
  then obtain rf' where rf': "Add_value el x rf = Inr rf'" "wf_rf rf'" "rf_list rf' = rf_list rf @ [x]"
      "total_size rf' = (if current_size rf = total_size rf then max 4 (max (total_size rf * 2) (total_size rf + 1))
        else total_size rf)"
    using RF_Add_appends[OF el wf, of "Elsewhere x"] by auto
  have "total_size rf' \<le> max (total_size rf) (max 4 (2 * (int (length (rf_list rf)) + 1)))"
    using rf'(4) wf_rfD(1)[OF wf] unfolding len by (simp add: max_def)
  then show "\<exists>rf'. Add_value el x rf = Inr rf' \<and> (wf_rf rf' \<and> element_ok el) \<and> rf_list rf' = rf_list rf @ [x] \<and>
      total_size rf' \<le> max (total_size rf) (max 4 (2 * (int (length (rf_list rf)) + 1)))"
    using rf' el by blast
qed

lemma push_reserved:
  assumes "wf_rf rf" and "current_size rf + int (length xs) \<le> total_size rf"
  shows "\<exists>rf'. for_each RF_AddAlreadyReserved xs rf = Inr rf' \<and> wf_rf rf' \<and>
    rf_list rf' = rf_list rf @ xs \<and> total_size rf' = total_size rf"
  using assms
proof (induction xs arbitrary: rf)
  case Nil
  then show ?case by simp
next
  case (Cons x xs)
  have room: "current_size rf < total_size rf" using Cons.prems(2) by simp
  obtain rf1 where rf1: "rf_push x rf = Inr rf1" "wf_rf rf1" "rf_list rf1 = rf_list rf @ [x]"
      "total_size rf1 = total_size rf"
    using rf_push_appends[OF Cons.prems(1) room] by blast
  have "nat (current_size rf1) = Suc (nat (current_size rf))"
    using rf1(3) wf_rfD(5)[OF rf1(2)] wf_rfD(5)[OF Cons.prems(1)] by simp
  then have "current_size rf1 = current_size rf + 1" using wf_rfD(1)[OF Cons.prems(1)] by linarith
  then obtain rf2 where "for_each RF_AddAlreadyReserved xs rf1 = Inr rf2" "wf_rf rf2"
      "rf_list rf2 = rf_list rf1 @ xs" "total_size rf2 = total_size rf1"
    using Cons.IH[OF rf1(2)] Cons.prems(2) rf1(4) by auto
  moreover have "RF_AddAlreadyReserved x rf = Inr rf1" using rf1(1) room by (simp add: RF_AddAlreadyReserved_def check_def)
  ultimately show ?case using rf1 by simp
qed

text \<open>The constructor from a range builds the list of the range both ways, in one allocation
  when the iterators can tell the length and by repeated \<open>Add\<close> when they cannot; the second way
  never allocates more than twice what is needed (and 4 at least).\<close>

theorem RepeatedField_from_range:
  assumes "element_ok el" and "length vals \<le> 2 ^ 30"
  shows "\<exists>rf1 rf2. RF_from_range el True vals = Inr rf1 \<and> RF_from_range el False vals = Inr rf2 \<and>
    wf_rf rf1 \<and> wf_rf rf2 \<and> rf_list rf1 = vals \<and> rf_list rf2 = vals \<and>
    total_size rf1 = (if vals = [] then 0 else max 4 (int (length vals))) \<and>
    total_size rf2 \<le> max 4 (2 * int (length vals))"
proof -
  have "rf_fits (int (length vals)) RF_new" using assms(2) by (simp add: rf_fits_def)
  from RF_Reserve_keeps[OF assms(1) wf_RF_new(1) this] obtain rf0 where
      rf0: "RF_Reserve el (int (length vals)) RF_new = Inr rf0" "wf_rf rf0" "rf_list rf0 = []"
      "current_size rf0 = 0" "int (length vals) \<le> total_size rf0"
      "total_size rf0 = (if vals = [] then 0 else max 4 (int (length vals)))"
    by auto
  then obtain rf1 where rf1: "for_each RF_AddAlreadyReserved vals rf0 = Inr rf1" "wf_rf rf1"
      "rf_list rf1 = vals" "total_size rf1 = total_size rf0"
    using push_reserved[OF rf0(2), of vals] by auto
  obtain rf2 where rf2: "for_each (Add_value el) vals RF_new = Inr rf2" "wf_rf rf2" "rf_list rf2 = vals"
      "total_size rf2 \<le> max 4 (2 * int (length vals))"
    using rf.add_all[of RF_new el vals] assms by auto
  have "int (length vals) \<noteq> -1" by simp
  then show ?thesis using rf0 rf1 rf2 by (simp add: RF_from_range_def CalculateReserve_def)
qed

section \<open>Concrete runs\<close>

definition int32_element :: "int element" where
  "int32_element = \<lparr>e_zero = 0, e_size = 4, e_header = 8\<rparr>"

definition sample_field :: "int RepeatedField" where
  "sample_field = \<lparr>current_size = 3, total_size = 4,
     rf_rep = Some \<lparr>rep_arena = None, rep_elements = [10, 20, 30, 0]\<rparr>\<rparr>"

lemma sample_field_ok: "element_ok int32_element" "wf_rf sample_field" "rf_list sample_field = [10, 20, 30]"
  by (simp_all add: element_ok_def int32_element_def wf_rf_def sample_field_def rf_slots_def rf_list_def)

definition full_field :: "int RepeatedField" where
  "full_field = \<lparr>current_size = 1, total_size = 1, rf_rep = Some \<lparr>rep_arena = None, rep_elements = [5]\<rparr>\<rparr>"

lemma full_field_ok: "wf_rf full_field" "rf_fits (current_size full_field + 1) full_field"
  "current_size full_field = total_size full_field" "RF_GetArenaNoVirtual full_field = None"
  by (simp_all add: wf_rf_def full_field_def rf_slots_def rf_fits_def RF_GetArenaNoVirtual_def)

theorem RepeatedField_refines_list_witness:
  "(\<exists>rf'. RF_MergeFrom int32_element (Some sample_field) sample_field = Inr rf' \<and>
      rf_list rf' = [10, 20, 30, 10, 20, 30]) \<and>
   (\<exists>rf'. RF_Add int32_element (Own 1) sample_field = Inr rf' \<and> rf_list rf' = [10, 20, 30, 20]) \<and>
   RF_Add int32_element (Own 0) full_field = Inl UseAfterFree"
proof (intro conjI)
  have "rf_op_ok (OMergeFrom sample_field) sample_field"
    using sample_field_ok(2) by (simp add: rf_fits_def sample_field_def)
  with RepeatedField_refines_list[OF sample_field_ok(1,2), of "OMergeFrom sample_field", THEN conjunct1]
  show "\<exists>rf'. RF_MergeFrom int32_element (Some sample_field) sample_field = Inr rf' \<and>
      rf_list rf' = [10, 20, 30, 10, 20, 30]"
    by (auto simp: sample_field_ok(3))
  have "rf_op_ok (OAdd (Own 1)) sample_field" by (simp add: rf_fits_def sample_field_def)
  with RepeatedField_refines_list[OF sample_field_ok(1,2), of "OAdd (Own 1)", THEN conjunct1]
  show "\<exists>rf'. RF_Add int32_element (Own 1) sample_field = Inr rf' \<and> rf_list rf' = [10, 20, 30, 20]"
    by (auto simp: sample_field_ok(3))
  show "RF_Add int32_element (Own 0) full_field = Inl UseAfterFree"
    using RepeatedField_refines_list[OF sample_field_ok(1) full_field_ok(1), THEN conjunct2, THEN conjunct1] full_field_ok(2-)
    by blast
qed

theorem RepeatedField_from_range_witness:
  "\<exists>rf1 rf2. RF_from_range int32_element True [7, 8, 9, 10, 11] = Inr rf1 \<and> total_size rf1 = 5 \<and>
    RF_from_range int32_element False [7, 8, 9, 10, 11] = Inr rf2 \<and> rf_list rf1 = rf_list rf2"
proof -
  have "length [7, 8, 9, 10, 11 :: int] \<le> 2 ^ 30" by simp
  from RepeatedField_from_range[OF sample_field_ok(1) this] show ?thesis by force
qed

end
