(* ===== verification/PbParse.thy ===== *)
theory PbParse
  imports PbWireWrite PbRepeated
begin

text \<open>
  The readers of \<open>include/google/protobuf/wire_format_lite_inl.h\<close> for repeated fields, in their
  general and their optimised forms, and for groups and messages. Shown: a packed field is read back
  on every path, and the readers of embedded messages keep the recursion budget.
\<close>

section \<open>Repeated fields\<close>

type_synonym 'z parse = "((bool \<times> prim RepeatedField) \<times> 'z CodedInputStream) run"

text \<open>The loop of \<open>ReadRepeatedPrimitive\<close>, over what is left of \<open>elements_already_reserved\<close>.\<close>

fun repeated_loop ::
    "bool \<Rightarrow> 'z in_ops \<Rightarrow> FieldType \<Rightarrow> 32 word \<Rightarrow> nat \<Rightarrow> 'z CodedInputStream \<Rightarrow> prim RepeatedField \<Rightarrow> 'z parse" where
  "repeated_loop little F ft tag 0 input values = Inr ((True, values), input)"
| "repeated_loop little F ft tag (Suc elements_already_reserved) input values =
    bnd (ExpectTag tag input) (\<lambda>(found, input).
      if \<not> found then Inr ((True, values), input)
      else bnd (ReadPrimitive little F ft input) (\<lambda>((ok, value), input).
        if \<not> ok then Inr ((False, values), input)
        else bnd (RF_AddAlreadyReserved value values) (\<lambda>values.
          repeated_loop little F ft tag elements_already_reserved input values)))"

definition ReadRepeatedVarint ::
    "bool \<Rightarrow> 'z in_ops \<Rightarrow> prim element \<Rightarrow> FieldType \<Rightarrow> 32 word \<Rightarrow> 'z CodedInputStream \<Rightarrow>
     prim RepeatedField \<Rightarrow> 'z parse" where
  "ReadRepeatedVarint little F el ft tag input values =
    bnd (ReadPrimitive little F ft input) (\<lambda>((ok, value), input).
      if \<not> ok then Inr ((False, values), input)
      else bnd (Add_value el value values) (\<lambda>values.
        repeated_loop little F ft tag (nat (RF_Capacity values - RF_size values)) input values))"

text \<open>The optimised form for fixed-size types reads from the buffer directly; the loop returns
  \<open>num_read\<close>.\<close>

fun direct_loop ::
    "bool \<Rightarrow> FieldType \<Rightarrow> 8 word list \<Rightarrow> 32 word \<Rightarrow> nat \<Rightarrow> int \<Rightarrow> int \<Rightarrow> prim RepeatedField \<Rightarrow>
     (int \<times> prim RepeatedField) run" where
  "direct_loop little ft mem tag 0 buffer num_read values = Inr (num_read, values)"
| "direct_loop little ft mem tag (Suc elements_left) buffer num_read values =
    bnd (ExpectTagFromArray mem buffer tag) (\<lambda>found.
      case found of None \<Rightarrow> Inr (num_read, values)
      | Some buffer \<Rightarrow> bnd (ReadPrimitiveFromArray little ft mem buffer) (\<lambda>(value, buffer).
          bnd (RF_AddAlreadyReserved value values) (\<lambda>values.
            direct_loop little ft mem tag elements_left buffer (num_read + 1) values)))"

definition ReadRepeatedFixedSizePrimitive ::
    "bool \<Rightarrow> 'z in_ops \<Rightarrow> 'o out_ops \<Rightarrow> prim element \<Rightarrow> FieldType \<Rightarrow> int \<Rightarrow> 32 word \<Rightarrow> 'z CodedInputStream \<Rightarrow>
     prim RepeatedField \<Rightarrow> 'z parse" where
  "ReadRepeatedFixedSizePrimitive little F W el ft tag_size tag input values =
    check (UInt32Size W tag = tag_size)
    (bnd (ReadPrimitive little F ft input) (\<lambda>((ok, value), input).
      if \<not> ok then Inr ((False, values), input)
      else bnd (Add_value el value values) (\<lambda>values.
        case GetDirectBufferPointerInline input of (buffer, n) \<Rightarrow>
        if n > 0
        then let per_value_size = tag_size + int (wire_width ft);
                 elements_available = min (RF_Capacity values - RF_size values) (n div per_value_size)
             in bnd (direct_loop little ft (ci_memory input) tag (nat elements_available) buffer 0 values)
                  (\<lambda>(num_read, values).
                let read_bytes = num_read * per_value_size in
                if read_bytes > 0 then Inr ((True, values), snd (io_Skip F read_bytes input))
                else Inr ((True, values), input))
        else Inr ((True, values), input))))"

text \<open>The specialisations send the fixed-size types to the optimised form.\<close>

definition ReadRepeatedPrimitive ::
    "bool \<Rightarrow> 'z in_ops \<Rightarrow> 'o out_ops \<Rightarrow> prim element \<Rightarrow> FieldType \<Rightarrow> int \<Rightarrow> 32 word \<Rightarrow> 'z CodedInputStream \<Rightarrow>
     prim RepeatedField \<Rightarrow> 'z parse" where
  "ReadRepeatedPrimitive little F W el ft tag_size tag input values =
    (if fixed_type ft then ReadRepeatedFixedSizePrimitive little F W el ft tag_size tag input values
     else ReadRepeatedVarint little F el ft tag input values)"

definition ReadRepeatedPrimitiveNoInline ::
    "bool \<Rightarrow> 'z in_ops \<Rightarrow> 'o out_ops \<Rightarrow> prim element \<Rightarrow> FieldType \<Rightarrow> int \<Rightarrow> 32 word \<Rightarrow> 'z CodedInputStream \<Rightarrow>
     prim RepeatedField \<Rightarrow> 'z parse" where
  "ReadRepeatedPrimitiveNoInline little F W el ft tag_size tag input values =
    ReadRepeatedPrimitive little F W el ft tag_size tag input values"

section \<open>Packed fields\<close>

text \<open>\<open>while (input->BytesUntilLimit() > 0)\<close>, for at most \<open>fuel\<close> rounds: \<open>None\<close> says that the loop
  still runs then.\<close>

fun packed_loop ::
    "bool \<Rightarrow> 'z in_ops \<Rightarrow> prim element \<Rightarrow> FieldType \<Rightarrow> nat \<Rightarrow> 'z CodedInputStream \<Rightarrow> prim RepeatedField \<Rightarrow>
     'z parse option" where
  "packed_loop little F el ft 0 input values = None"
| "packed_loop little F el ft (Suc fuel) input values =
    (if io_BytesUntilLimit F input > 0
     then case ReadPrimitive little F ft input of
         Inl e \<Rightarrow> Some (Inl e)
       | Inr ((ok, value), input) \<Rightarrow>
           if \<not> ok then Some (Inr ((False, values), input))
           else case Add_value el value values of
               Inl e \<Rightarrow> Some (Inl e)
             | Inr values \<Rightarrow> packed_loop little F el ft fuel input values
     else Some (Inr ((True, values), input)))"

definition ReadPackedVarint ::
    "bool \<Rightarrow> 'z in_ops \<Rightarrow> prim element \<Rightarrow> FieldType \<Rightarrow> nat \<Rightarrow> 'z CodedInputStream \<Rightarrow> prim RepeatedField \<Rightarrow>
     'z parse option" where
  "ReadPackedVarint little F el ft fuel input values =
    (case ReadVarint32 F input of
       Inl e \<Rightarrow> Some (Inl e)
     | Inr ((ok, n), input) \<Rightarrow>
         if \<not> ok then Some (Inr ((False, values), input))
         else case io_PushLimit F (sint n) input of (limit, input) \<Rightarrow>
           (case packed_loop little F el ft fuel input values of
              None \<Rightarrow> None
            | Some (Inl e) \<Rightarrow> Some (Inl e)
            | Some (Inr ((ok, values), input)) \<Rightarrow>
                Some (Inr ((ok, values), if ok then io_PopLimit F limit input else input))))"

text \<open>The bytes of an array of fixed-size values, as \<open>ReadRaw\<close> stores them into the elements.\<close>

fun values_of :: "FieldType \<Rightarrow> nat \<Rightarrow> 8 word list \<Rightarrow> prim list" where
  "values_of ft 0 bs = []"
| "values_of ft (Suc n) bs =
    value_of ft (from_le (take (wire_width ft) bs)) # values_of ft n (drop (wire_width ft) bs)"

text \<open>\<open>for (i = 0; i < new_entries; ++i)\<close> with \<open>Add\<close> or \<open>AddAlreadyReserved\<close>.\<close>

fun entries_loop ::
    "bool \<Rightarrow> 'z in_ops \<Rightarrow> FieldType \<Rightarrow> (prim \<Rightarrow> prim RepeatedField \<Rightarrow> prim RepeatedField run) \<Rightarrow> nat \<Rightarrow>
     'z CodedInputStream \<Rightarrow> prim RepeatedField \<Rightarrow> 'z parse" where
  "entries_loop little F ft add 0 input values = Inr ((True, values), input)"
| "entries_loop little F ft add (Suc n) input values =
    bnd (ReadPrimitive little F ft input) (\<lambda>((ok, value), input).
      if \<not> ok then Inr ((False, values), input)
      else bnd (add value values) (\<lambda>values. entries_loop little F ft add n input values))"

definition ReadPackedFixedSizePrimitive ::
    "bool \<Rightarrow> 'z in_ops \<Rightarrow> prim element \<Rightarrow> FieldType \<Rightarrow> 'z CodedInputStream \<Rightarrow> prim RepeatedField \<Rightarrow> 'z parse" where
  "ReadPackedFixedSizePrimitive little F el ft input values =
    bnd (ReadVarint32 F input) (\<lambda>((ok, n), input).
      if \<not> ok then Inr ((False, values), input)
      else let old_entries = RF_size values;
               new_entries = uint n div int (wire_width ft);
               new_bytes = new_entries * int (wire_width ft)
           in if new_bytes \<noteq> uint n then Inr ((False, values), input)
      else let total = io_BytesUntilTotalBytesLimit F input;
               bytes_limit = (if total = -1 then io_BytesUntilLimit F input
                              else min total (io_BytesUntilLimit F input))
           in if bytes_limit \<ge> new_bytes
      then if little
           then bnd (RF_Resize el (old_entries + new_entries) (Elsewhere (value_of ft 0)) values) (\<lambda>values.
             case io_ReadRaw F new_bytes input of ((ok, bytes), input) \<Rightarrow>
             if \<not> ok then bnd (RF_Truncate old_entries values) (\<lambda>values. Inr ((False, values), input))
             else if new_entries = 0 then Inr ((True, values), input)
             else bnd (rf_elements values) (\<lambda>xs.
                  bnd (CopyArray xs old_entries (values_of ft (nat new_entries) bytes) new_entries) (\<lambda>ys.
                  Inr ((True, rf_set_elements ys values), input))))
           else bnd (RF_Reserve el (old_entries + new_entries) values) (\<lambda>values.
             entries_loop little F ft RF_AddAlreadyReserved (nat new_entries) input values)
      else entries_loop little F ft (Add_value el) (nat new_entries) input values)"

definition ReadPackedPrimitive ::
    "bool \<Rightarrow> 'z in_ops \<Rightarrow> prim element \<Rightarrow> FieldType \<Rightarrow> nat \<Rightarrow> 'z CodedInputStream \<Rightarrow> prim RepeatedField \<Rightarrow>
     'z parse option" where
  "ReadPackedPrimitive little F el ft fuel input values =
    (if fixed_type ft then Some (ReadPackedFixedSizePrimitive little F el ft input values)
     else ReadPackedVarint little F el ft fuel input values)"

definition ReadPackedPrimitiveNoInline ::
    "bool \<Rightarrow> 'z in_ops \<Rightarrow> prim element \<Rightarrow> FieldType \<Rightarrow> nat \<Rightarrow> 'z CodedInputStream \<Rightarrow> prim RepeatedField \<Rightarrow>
     'z parse option" where
  "ReadPackedPrimitiveNoInline little F el ft fuel input values =
    ReadPackedPrimitive little F el ft fuel input values"

section \<open>Groups and messages\<close>

text \<open>\<open>MergePartialFromCodedStream\<close> of the message is the parameter \<open>merge\<close>; it is given the message
  and the stream and returns whether it succeeded.\<close>

type_synonym ('m, 'z) merge = "'m \<Rightarrow> 'z CodedInputStream \<Rightarrow> (bool \<times> 'm) \<times> 'z CodedInputStream"

definition ReadGroup ::
    "('m, 'z) merge \<Rightarrow> 32 word \<Rightarrow> 'z CodedInputStream \<Rightarrow> 'm \<Rightarrow> (bool \<times> 'm) \<times> 'z CodedInputStream" where
  "ReadGroup merge field_number input value =
    (case IncrementRecursionDepth input of (ok, input) \<Rightarrow>
     if \<not> ok then ((False, value), input)
     else case merge value input of ((ok, value), input) \<Rightarrow>
       if \<not> ok then ((False, value), input)
       else let input = DecrementRecursionDepth input in
            if \<not> LastTagWas (MakeTag field_number WIRETYPE_END_GROUP) input then ((False, value), input)
            else ((True, value), input))"

definition ReadMessage ::
    "'z in_ops \<Rightarrow> ('m, 'z) merge \<Rightarrow> 'z CodedInputStream \<Rightarrow> 'm \<Rightarrow> ((bool \<times> 'm) \<times> 'z CodedInputStream) run" where
  "ReadMessage F merge input value =
    bnd (ReadVarint32 F input) (\<lambda>((ok, n), input).
      if \<not> ok then Inr ((False, value), input)
      else case io_IncrementRecursionDepthAndPushLimit F (sint n) input of ((limit, budget), input) \<Rightarrow>
        if budget < 0 then Inr ((False, value), input)
        else case merge value input of ((ok, value), input) \<Rightarrow>
          if \<not> ok then Inr ((False, value), input)
          else case io_DecrementRecursionDepthAndPopLimit F limit input of (ok, input) \<Rightarrow>
            Inr ((ok, value), input))"

definition ReadGroupNoVirtual ::
    "('m, 'z) merge \<Rightarrow> 32 word \<Rightarrow> 'z CodedInputStream \<Rightarrow> 'm \<Rightarrow> ((bool \<times> 'm) \<times> 'z CodedInputStream) run" where
  "ReadGroupNoVirtual merge field_number input value =
    (case IncrementRecursionDepth input of (ok, input) \<Rightarrow>
     if \<not> ok then Inr ((False, value), input)
     else case merge value input of ((ok, value), input) \<Rightarrow>
       if \<not> ok then Inr ((False, value), input)
       else bnd (UnsafeDecrementRecursionDepth input) (\<lambda>input.
            if \<not> LastTagWas (MakeTag field_number WIRETYPE_END_GROUP) input then Inr ((False, value), input)
            else Inr ((True, value), input)))"

definition ReadGroupNoVirtualNoRecursionDepth ::
    "('m, 'z) merge \<Rightarrow> 32 word \<Rightarrow> 'z CodedInputStream \<Rightarrow> 'm \<Rightarrow> (bool \<times> 'm) \<times> 'z CodedInputStream" where
  "ReadGroupNoVirtualNoRecursionDepth merge field_number input value =
    (case merge value input of ((ok, value), input) \<Rightarrow>
       ((ok \<and> LastTagWas (MakeTag field_number WIRETYPE_END_GROUP) input, value), input))"

definition ReadMessageNoVirtual ::
    "'z in_ops \<Rightarrow> ('m, 'z) merge \<Rightarrow> 'z CodedInputStream \<Rightarrow> 'm \<Rightarrow> ((bool \<times> 'm) \<times> 'z CodedInputStream) run" where
  "ReadMessageNoVirtual F merge input value =
    bnd (ReadVarint32 F input) (\<lambda>((ok, n), input).
      if \<not> ok then Inr ((False, value), input)
      else case io_IncrementRecursionDepthAndPushLimit F (sint n) input of ((limit, budget), input) \<Rightarrow>
        if budget < 0 then Inr ((False, value), input)
        else case merge value input of ((ok, value), input) \<Rightarrow>
          if \<not> ok then Inr ((False, value), input)
          else case io_DecrementRecursionDepthAndPopLimit F limit input of (ok, input) \<Rightarrow>
            Inr ((ok, value), input))"

definition ReadMessageNoVirtualNoRecursionDepth ::
    "'z in_ops \<Rightarrow> ('m, 'z) merge \<Rightarrow> 'z CodedInputStream \<Rightarrow> 'm \<Rightarrow> (bool \<times> 'm) \<times> 'z CodedInputStream" where
  "ReadMessageNoVirtualNoRecursionDepth F merge input value =
    (case io_ReadLengthAndPushLimit F input of (old_limit, input) \<Rightarrow>
     case merge value input of ((ok, value), input) \<Rightarrow>
       if \<not> ok then ((False, value), input)
       else case io_CheckEntireMessageConsumedAndPopLimit F old_limit input of (ok, input) \<Rightarrow>
         ((ok, value), input))"

section \<open>Reading a packed field\<close>

definition encode_all :: "FieldType \<Rightarrow> prim list \<Rightarrow> 8 word list" where
  "encode_all ft vs = concat (map (encode_prim ft) vs)"

lemma encode_all_simps [simp]:
  "encode_all ft [] = []" "encode_all ft (v # vs) = encode_prim ft v @ encode_all ft vs"
  by (simp_all add: encode_all_def)

lemma encode_prim_nonempty: "encode_prim ft v \<noteq> []"
  by (auto simp: encode_prim_def split: WireType.splits)

lemma ReadPrimitive_encoded:
  assumes "in_ok V F" and "wf_in st" and "has_type ft v" and "readable V st = encode_prim ft v @ r"
  shows "\<exists>st'. ReadPrimitive little F ft st = Inr ((True, v), st') \<and> leaves V st st' r"
  using ReadPrimitive_reads[OF assms(1,2) has_type_primitive[OF assms(3)], of little]
    decode_encode_prim[OF assms(3), of r] by (simp add: reads_prim_def assms(4))

lemma ReadVarint32_encoded:
  assumes "in_ok V F" and "wf_in st" and "n < 2 ^ 31" and "readable V st = varint n @ r"
  shows "\<exists>st'. ReadVarint32 F st = Inr ((True, of_nat n), st') \<and> leaves V st st' r"
proof -
  have "n < 2 ^ 64" using assms(3) by simp
  then show ?thesis using ReadVarint32_decodes[OF assms(1,2)] decode_varint_64[of n r]
    by (simp add: reads_varint_def assms(4))
qed

lemma word_of_small: "n < 2 ^ 31 \<Longrightarrow> sint (of_nat n :: 32 word) = int n" "n < 2 ^ 31 \<Longrightarrow> uint (of_nat n :: 32 word) = int n"
proof -
  assume "n < 2 ^ 31"
  then have n: "0 \<le> int n" "int n < 2 ^ 31" by simp_all
  have u: "uint (word_of_int (int n) :: 32 word) = int n mod 2 ^ LENGTH(32)" by (rule uint_word_of_int)
  have "int n mod 2 ^ LENGTH(32) = int n" using small_mod(2)[OF n] by simp
  then show u': "uint (of_nat n :: 32 word) = int n" using u by (simp only: of_int_of_nat_eq)
  have "int n + 2 ^ 31 < 2 ^ 32" using n(2) by simp
  then have "(int n + 2 ^ 31) mod 2 ^ 32 - 2 ^ 31 = int n" using n(1) by (simp add: mod_pos_pos_trivial)
  then show "sint (of_nat n :: 32 word) = int n"
    unfolding sint_uint u' by (simp add: signed_take_bit_eq_take_bit_shift take_bit_eq_mod)
qed

text \<open>Both loops read the values one by one and add each.\<close>

lemma entries_loop_reads:
  assumes "in_ok V F" and "wf_in st" and "list_all (has_type ft) vs"
    and "readable V st = encode_all ft vs @ r" and "for_each add vs rf = Inr rf'"
  shows "\<exists>st'. entries_loop little F ft add (length vs) st rf = Inr ((True, rf'), st') \<and> leaves V st st' r"
  using assms(2-)
proof (induction vs arbitrary: st rf)
  case Nil
  then show ?case by (simp add: leaves_def)
next
  case (Cons v vs)
  obtain st1 where st1: "ReadPrimitive little F ft st = Inr ((True, v), st1)" "leaves V st st1 (encode_all ft vs @ r)"
    using ReadPrimitive_encoded[OF assms(1) Cons.prems(1), of ft v "encode_all ft vs @ r" little] Cons.prems(2,3) by auto
  obtain rf1 where rf1: "add v rf = Inr rf1" "for_each add vs rf1 = Inr rf'"
    using Cons.prems(4) by auto
  have "wf_in st1" "readable V st1 = encode_all ft vs @ r" using st1(2) by (simp_all add: leaves_def)
  then obtain st' where "entries_loop little F ft add (length vs) st1 rf1 = Inr ((True, rf'), st')" "leaves V st1 st' r"
    using Cons.IH[of st1 rf1] Cons.prems(2) rf1(2) by auto
  then show ?case using st1 rf1(1) leaves_trans by fastforce
qed

lemma packed_loop_reads:
  assumes "in_ok V F" and "wf_in st" and "vw_limited V st" and "list_all (has_type ft) vs"
    and "readable V st = encode_all ft vs" and "for_each (Add_value el) vs rf = Inr rf'" and "length vs < fuel"
  shows "\<exists>st'. packed_loop little F el ft fuel st rf = Some (Inr ((True, rf'), st')) \<and> leaves V st st' []"
  using assms(2-)
proof (induction vs arbitrary: st rf fuel)
  case Nil
  then have "io_BytesUntilLimit F st = 0"
    using in_okD(4)[OF assms(1)] by (simp add: limits_ok_def)
  then show ?case using Nil.prems by (cases fuel) (simp_all add: leaves_def)
next
  case (Cons v vs)
  have "io_BytesUntilLimit F st = int (length (readable V st))"
    using in_okD(4)[OF assms(1)] Cons.prems(1,2) by (simp add: limits_ok_def)
  then have more: "io_BytesUntilLimit F st > 0" using Cons.prems(4) encode_prim_nonempty[of ft v]
    by (simp add: add_pos_nonneg)
  obtain k where fuel: "fuel = Suc k" using Cons.prems(6) by (cases fuel) auto
  obtain st1 where st1: "ReadPrimitive little F ft st = Inr ((True, v), st1)" "leaves V st st1 (encode_all ft vs)"
    using ReadPrimitive_encoded[OF assms(1) Cons.prems(1), of ft v "encode_all ft vs" little] Cons.prems(3,4) by auto
  obtain rf1 where rf1: "Add_value el v rf = Inr rf1" "for_each (Add_value el) vs rf1 = Inr rf'"
    using Cons.prems(5) by auto
  have "wf_in st1" "vw_limited V st1" "readable V st1 = encode_all ft vs"
    using st1(2) Cons.prems(2) by (simp_all add: leaves_def)
  then obtain st' where "packed_loop little F el ft k st1 rf1 = Some (Inr ((True, rf'), st'))" "leaves V st1 st' []"
    using Cons.IH[of st1 rf1 k] Cons.prems(3,6) rf1(2) fuel by auto
  then show ?case using st1 rf1(1) more fuel leaves_trans by fastforce
qed

lemma ReadPackedVarint_reads:
  assumes "in_ok V F" and "wf_in st" and "list_all (has_type ft) vs" and "length (encode_all ft vs) < 2 ^ 31"
    and "readable V st = varint (length (encode_all ft vs)) @ encode_all ft vs @ r"
    and "for_each (Add_value el) vs rf = Inr rf'" and "length vs < fuel"
  shows "\<exists>st'. ReadPackedVarint little F el ft fuel st rf = Some (Inr ((True, rf'), st')) \<and>
    wf_in st' \<and> readable V st' = r"
proof -
  obtain st1 where st1: "ReadVarint32 F st = Inr ((True, of_nat (length (encode_all ft vs))), st1)"
      "leaves V st st1 (encode_all ft vs @ r)"
    using ReadVarint32_encoded[OF assms(1,2,4,5)] by blast
  then have wf1: "wf_in st1" "readable V st1 = encode_all ft vs @ r" by (simp_all add: leaves_def)
  have len: "length (encode_all ft vs) \<le> length (readable V st1)" using wf1(2) by simp
  have push: "\<forall>n \<le> length (readable V st1). \<exists>lim st'. io_PushLimit F (int n) st1 = (lim, st') \<and> wf_in st' \<and>
        readable V st' = take n (readable V st1) \<and> vw_hidden V st' lim = drop n (readable V st1) \<and> vw_limited V st'"
    using in_okD(4)[OF assms(1)] wf1(1) unfolding limits_ok_def by blast
  obtain lim st2 where st2: "io_PushLimit F (int (length (encode_all ft vs))) st1 = (lim, st2)" "wf_in st2"
      "readable V st2 = encode_all ft vs" "vw_hidden V st2 lim = r" "vw_limited V st2"
    using push[rule_format, OF len] wf1(2) by auto
  obtain st3 where st3: "packed_loop little F el ft fuel st2 rf = Some (Inr ((True, rf'), st3))" "leaves V st2 st3 []"
    using packed_loop_reads[OF assms(1) st2(2,5) assms(3) st2(3) assms(6,7)] by blast
  have pop: "wf_in (io_PopLimit F lim st3)"
      "readable V (io_PopLimit F lim st3) = readable V st3 @ vw_hidden V st3 lim"
    using in_okD(4)[OF assms(1)] st3(2) unfolding limits_ok_def leaves_def by blast+
  have "readable V (io_PopLimit F lim st3) = r" using pop(2) st3(2) st2(4) by (simp add: leaves_def)
  then show ?thesis using st1(1) st2(1) st3(1) pop(1) word_of_small(1)[OF assms(4)]
    by (simp add: ReadPackedVarint_def)
qed

lemma fixed_length: "fixed_type ft \<Longrightarrow> length (encode_prim ft v) = wire_width ft" "fixed_type ft \<Longrightarrow> 0 < wire_width ft"
  by (auto simp: fixed_type_def encode_prim_def wire_width_def)

lemma fixed_length_all: "fixed_type ft \<Longrightarrow> length (encode_all ft vs) = length vs * wire_width ft"
  by (induction vs) (simp_all add: fixed_length)

lemma values_of_encoded:
  "fixed_type ft \<Longrightarrow> list_all (has_type ft) vs \<Longrightarrow> values_of ft (length vs) (encode_all ft vs) = vs"
proof (induction vs)
  case Nil
  then show ?case by simp
next
  case (Cons v vs)
  have "value_of ft (from_le (take (wire_width ft) (encode_all ft (v # vs)))) = v"
    using decode_encode_prim[of ft v "encode_all ft vs"] Cons.prems
    by (simp add: decode_prim_fixed fixed_length)
  then show ?case using Cons by (simp add: fixed_length)
qed

text \<open>The fast path: resize and let \<open>ReadRaw\<close> fill the new elements.\<close>

lemma resize_and_fill:
  assumes "element_ok el" and "wf_rf rf" and "rf_fits (current_size rf + int (length vs)) rf" and "vs \<noteq> []"
  shows "\<exists>rf1 xs ys. RF_Resize el (current_size rf + int (length vs)) (Elsewhere z) rf = Inr rf1 \<and>
    rf_elements rf1 = Inr xs \<and> CopyArray xs (current_size rf) vs (int (length vs)) = Inr ys \<and>
    wf_rf (rf_set_elements ys rf1) \<and> rf_list (rf_set_elements ys rf1) = rf_list rf @ vs"
proof -
  note wf = wf_rfD[OF assms(2)]
  have "0 \<le> current_size rf + int (length vs)" using wf(1) by simp
  from RF_Resize_pads[OF assms(1,2) this assms(3), of "Elsewhere z"] obtain rf1 where
    rf1: "RF_Resize el (current_size rf + int (length vs)) (Elsewhere z) rf = Inr rf1" "wf_rf rf1"
      "rf_list rf1 = rf_list rf @ replicate (length vs) z"
    using wf(1,5) by (auto simp: nat_add_distrib)
  note wf1 = wf_rfD[OF rf1(2)]
  have "int (length (rf_list rf1)) = current_size rf1" "int (length (rf_list rf)) = current_size rf"
    using wf1(1,5) wf(1,5) by simp_all
  then have cur: "current_size rf1 = current_size rf + int (length vs)" using rf1(3) by simp
  moreover have "0 < int (length vs)" using assms(4) by simp
  ultimately have pos: "0 < total_size rf1" using wf1(2) wf(1) by linarith
  have room: "current_size rf + int (length vs) \<le> int (length (rf_slots rf1))" using cur wf1(6) by simp
  let ?ys = "take (nat (current_size rf)) (rf_slots rf1) @ take (nat (int (length vs))) vs @
      drop (nat (current_size rf + int (length vs))) (rf_slots rf1)"
  have copy: "CopyArray (rf_slots rf1) (current_size rf) vs (int (length vs)) = Inr ?ys"
    by (rule CopyArray_ok) (use wf(1) room in simp_all)
  have len: "length ?ys = length (rf_slots rf1)" using wf(1) room by (simp add: nat_add_distrib)
  have "take (nat (current_size rf)) (rf_slots rf1) = take (nat (current_size rf)) (rf_list rf1)"
    using cur wf(1) by (simp add: rf_list_def nat_add_distrib)
  also have "\<dots> = rf_list rf" using rf1(3) wf(5) by simp
  finally have old: "take (nat (current_size rf)) (rf_slots rf1) = rf_list rf" .
  have "take (nat (current_size rf1)) ?ys = rf_list rf @ vs"
    using cur wf(1,5) unfolding old by (simp add: nat_add_distrib)
  then show ?thesis using rf1(1) rf_elements_slots[OF pos rf1(2)] copy rf_written[OF rf1(2) pos len] by auto
qed

lemma ReadPackedFixedSizePrimitive_reads:
  assumes "in_ok V F" and "wf_in st" and "list_all (has_type ft) vs" and "length (encode_all ft vs) < 2 ^ 31"
    and "readable V st = varint (length (encode_all ft vs)) @ encode_all ft vs @ r"
    and "element_ok el" and "wf_rf rf" and "rf_fits (current_size rf + int (length vs)) rf"
    and "for_each (Add_value el) vs rf = Inr rf'" and "wf_rf rf'" and "rf_list rf' = rf_list rf @ vs"
    and "fixed_type ft"
  shows "\<exists>rf' st'. ReadPackedFixedSizePrimitive little F el ft st rf = Inr ((True, rf'), st') \<and>
    wf_rf rf' \<and> rf_list rf' = rf_list rf @ vs \<and> wf_in st' \<and> readable V st' = r"
proof -
  let ?bytes = "encode_all ft vs"
  obtain st1 where st1: "ReadVarint32 F st = Inr ((True, of_nat (length ?bytes)), st1)"
      "leaves V st st1 (?bytes @ r)"
    using ReadVarint32_encoded[OF assms(1,2,4,5)] by blast
  then have wf1: "wf_in st1" "readable V st1 = ?bytes @ r" by (simp_all add: leaves_def)
  have n: "uint (of_nat (length ?bytes) :: 32 word) = int (length vs) * int (wire_width ft)"
    using word_of_small(2)[OF assms(4)] fixed_length_all[OF assms(12), of vs] by simp
  have div: "int (length vs) * int (wire_width ft) div int (wire_width ft) = int (length vs)"
    using fixed_length(2)[OF assms(12)] by simp
  define fast where "fast \<longleftrightarrow> (let total = io_BytesUntilTotalBytesLimit F st1;
      bytes_limit = (if total = -1 then io_BytesUntilLimit F st1 else min total (io_BytesUntilLimit F st1))
    in bytes_limit \<ge> int (length vs) * int (wire_width ft))"
  define slow where "slow = entries_loop little F ft (Add_value el) (length vs) st1 rf"
  define direct where "direct = bnd (RF_Resize el (current_size rf + int (length vs)) (Elsewhere (value_of ft 0)) rf) (\<lambda>values.
      case io_ReadRaw F (int (length vs) * int (wire_width ft)) st1 of ((ok, bytes), input) \<Rightarrow>
      if \<not> ok then bnd (RF_Truncate (current_size rf) values) (\<lambda>values. Inr ((False, values), input))
      else if int (length vs) = 0 then Inr ((True, values), input)
      else bnd (rf_elements values) (\<lambda>xs.
        bnd (CopyArray xs (current_size rf) (values_of ft (length vs) bytes) (int (length vs))) (\<lambda>ys.
          Inr ((True, rf_set_elements ys values), input))))"
  define portable where "portable = bnd (RF_Reserve el (current_size rf + int (length vs)) rf) (\<lambda>values.
      entries_loop little F ft RF_AddAlreadyReserved (length vs) st1 values)"
  have run: "ReadPackedFixedSizePrimitive little F el ft st rf =
      (if fast then if little then direct else portable else slow)"
    unfolding ReadPackedFixedSizePrimitive_def st1(1) bnd_Inr prod.case n div Let_def RF_size_def nat_int
      fast_def slow_def direct_def portable_def by simp
  have "\<exists>st'. slow = Inr ((True, rf'), st') \<and> leaves V st1 st' r"
    unfolding slow_def by (rule entries_loop_reads[OF assms(1) wf1(1) assms(3) wf1(2) assms(9)])
  moreover have "\<exists>rf' st'. portable = Inr ((True, rf'), st') \<and> wf_rf rf' \<and> rf_list rf' = rf_list rf @ vs \<and> leaves V st1 st' r"
  proof -
    obtain rf1 where rf1: "RF_Reserve el (current_size rf + int (length vs)) rf = Inr rf1" "wf_rf rf1"
        "rf_list rf1 = rf_list rf" "current_size rf1 = current_size rf" "current_size rf + int (length vs) \<le> total_size rf1"
      using RF_Reserve_keeps[OF assms(6,7,8)] by auto
    obtain rf2 where rf2: "for_each RF_AddAlreadyReserved vs rf1 = Inr rf2" "wf_rf rf2" "rf_list rf2 = rf_list rf1 @ vs"
      using push_reserved[OF rf1(2), of vs] rf1(4,5) by auto
    obtain st' where "entries_loop little F ft RF_AddAlreadyReserved (length vs) st1 rf1 = Inr ((True, rf2), st')"
        "leaves V st1 st' r"
      using entries_loop_reads[OF assms(1) wf1(1) assms(3) wf1(2) rf2(1)] by blast
    then show ?thesis using rf1(1,3) rf2(2,3) by (simp add: portable_def)
  qed
  moreover have "\<exists>rf' st'. direct = Inr ((True, rf'), st') \<and> wf_rf rf' \<and> rf_list rf' = rf_list rf @ vs \<and> leaves V st1 st' r"
  proof -
    have "length ?bytes \<le> length (readable V st1)" using wf1(2) by simp
    then have "\<exists>st'. io_ReadRaw F (int (length ?bytes)) st1 = ((True, take (length ?bytes) (readable V st1)), st') \<and>
        leaves V st1 st' (drop (length ?bytes) (readable V st1))"
      using in_okD(5)[OF assms(1)] wf1(1) unfolding raw_ok_def by blast
    then obtain st2 where raw: "io_ReadRaw F (int (length ?bytes)) st1 = ((True, ?bytes), st2)" "leaves V st1 st2 r"
      unfolding wf1(2) by auto
    then have raw': "io_ReadRaw F (int (length vs) * int (wire_width ft)) st1 = ((True, ?bytes), st2)"
      unfolding fixed_length_all[OF assms(12)] by (simp only: of_nat_mult)
    show ?thesis
    proof (cases "vs = []")
      case True
      then obtain rf1 where "RF_Resize el (current_size rf + int (length vs)) (Elsewhere (value_of ft 0)) rf = Inr rf1" "wf_rf rf1"
          "rf_list rf1 = rf_list rf"
        using RF_Resize_pads[OF assms(6,7) _ assms(8), of "Elsewhere (value_of ft 0)"] wf_rfD(1,5)[OF assms(7)] by auto
      then show ?thesis using raw(2) raw' True by (simp add: direct_def)
    next
      case False
      then show ?thesis using resize_and_fill[OF assms(6,7,8) False, of "value_of ft 0"] raw' raw(2)
          values_of_encoded[OF assms(12,3)]
        unfolding direct_def by fastforce
    qed
  qed
  ultimately show ?thesis unfolding run using assms(10,11) by (cases fast; cases little) (auto simp: leaves_def)
qed

text \<open>C29: a packed field is read back on every path of the reader (the general loop under a limit,
  the direct copy into the resized array, the loop with reserved elements, the careful loop when
  the length may be a lie): for every list of values of a primitive type the reader returns true,
  the field has the values appended in order, and the stream stands behind the payload.\<close>

theorem packed_round_trip:
  assumes "in_ok V F" and "wf_in st" and "element_ok el" and "wf_rf rf"
    and "list_all (has_type ft) vs" and "length (encode_all ft vs) < 2 ^ 31"
    and "length (rf_list rf) + length vs \<le> 2 ^ 30" and "length vs < fuel"
    and "readable V st = varint (length (encode_all ft vs)) @ encode_all ft vs @ r"
  shows "\<exists>rf' st'. ReadPackedPrimitive little F el ft fuel st rf = Some (Inr ((True, rf'), st')) \<and>
    wf_rf rf' \<and> rf_list rf' = rf_list rf @ vs \<and> wf_in st' \<and> readable V st' = r"
proof -
  obtain rf' where rf': "for_each (Add_value el) vs rf = Inr rf'" "wf_rf rf'" "rf_list rf' = rf_list rf @ vs"
    using rf.add_all[of rf el vs] assms(3,4,7) by auto
  have len: "current_size rf + int (length vs) = int (length (rf_list rf) + length vs)"
    using wf_rfD(1,5)[OF assms(4)] by simp
  have "int (length (rf_list rf) + length vs) \<le> int (2 ^ 30)" using assms(7) by (simp only: of_nat_le_iff)
  then have "rf_fits (current_size rf + int (length vs)) rf" unfolding len rf_fits_def by auto
  note packed = ReadPackedFixedSizePrimitive_reads[OF assms(1,2,5,6,9,3,4) this rf', of little]
  show ?thesis
    using packed ReadPackedVarint_reads[OF assms(1,2,5,6,9) rf'(1) assms(8), of little] rf'(2,3)
    by (cases "fixed_type ft") (auto simp: ReadPackedPrimitive_def)
qed

definition prim_element :: "prim element" where
  "prim_element = \<lparr>e_zero = P_bool False, e_size = 8, e_header = 8\<rparr>"

lemma prim_element_ok: "element_ok prim_element"
  by (simp add: element_ok_def prim_element_def)

theorem packed_round_trip_witness:
  "\<exists>rf' st'. ReadPackedPrimitive True flat_ops prim_element TYPE_SINT64 5
      (flat_stream (varint (length (encode_all TYPE_SINT64 [P_int64 1, P_int64 (- 300)])) @
        encode_all TYPE_SINT64 [P_int64 1, P_int64 (- 300)] @ [42])) RF_new = Some (Inr ((True, rf'), st')) \<and>
    rf_list rf' = [P_int64 1, P_int64 (- 300)] \<and> window st' = [42]"
proof -
  let ?vs = "[P_int64 1, P_int64 (- 300)]"
  have vs: "list_all (has_type TYPE_SINT64) ?vs" by (simp add: has_type_ok)
  have "length (encode_prim TYPE_SINT64 v) \<le> 10" if "has_type TYPE_SINT64 v" for v
  proof -
    have "number_of TYPE_SINT64 v < 128 ^ 10" using number_less(1)[OF that] by simp
    then show ?thesis using varint_length_le[of "number_of TYPE_SINT64 v" 10] by (simp add: encode_prim_def)
  qed
  from this[of "P_int64 1"] this[of "P_int64 (- 300)"]
  have "length (encode_all TYPE_SINT64 ?vs) \<le> 20" by (simp add: has_type_ok)
  then have len: "length (encode_all TYPE_SINT64 ?vs) < 2 ^ 31" by simp
  have room: "length (rf_list (RF_new :: prim RepeatedField)) + length ?vs \<le> 2 ^ 30" by simp
  have fuel: "length ?vs < 5" by simp
  from packed_round_trip[OF flat_in_ok flat_stream_ok(1) prim_element_ok wf_RF_new(1) vs len room fuel, of _ "[42]" True]
  show ?thesis by auto
qed

section \<open>Embedded messages\<close>

text \<open>What the header documents of the shorthands for nesting, and that the library leaves the
  recursion budget to the inline code.\<close>

definition nesting_ok :: "'z in_view \<Rightarrow> 'z in_ops \<Rightarrow> bool" where
  "nesting_ok V F \<longleftrightarrow>
     (\<forall>st b. readable V (st\<lparr>ci_recursion_budget := b\<rparr>) = readable V st \<and>
        vw_hidden V (st\<lparr>ci_recursion_budget := b\<rparr>) = vw_hidden V st \<and>
        vw_limited V (st\<lparr>ci_recursion_budget := b\<rparr>) = vw_limited V st) \<and>
     (\<forall>n st. io_IncrementRecursionDepthAndPushLimit F n st =
        (case io_PushLimit F n st of (lim, st') \<Rightarrow>
           ((lim, ci_recursion_budget st' - 1), st'\<lparr>ci_recursion_budget := ci_recursion_budget st' - 1\<rparr>))) \<and>
     (\<forall>lim st. io_DecrementRecursionDepthAndPopLimit F lim st =
        (ConsumedEntireMessage st,
         (io_PopLimit F lim st)\<lparr>ci_recursion_budget := ci_recursion_budget (io_PopLimit F lim st) + 1\<rparr>)) \<and>
     (\<forall>n st. ci_recursion_budget (snd (io_PushLimit F n st)) = ci_recursion_budget st) \<and>
     (\<forall>lim st. ci_recursion_budget (io_PopLimit F lim st) = ci_recursion_budget st) \<and>
     (\<forall>v st. ci_recursion_budget (snd (io_ReadVarint32Fallback F v st)) = ci_recursion_budget st)"

text \<open>Popping a limit brings back what was hidden and limited before it was pushed, whatever has been
  read in between.\<close>

definition nested_limits :: "'z in_view \<Rightarrow> 'z in_ops \<Rightarrow> bool" where
  "nested_limits V F \<longleftrightarrow> (\<forall>st n lim st1 st2. wf_in st \<and> n \<le> length (readable V st) \<and>
     io_PushLimit F (int n) st = (lim, st1) \<and> wf_in st2 \<and> vw_hidden V st2 = vw_hidden V st1 \<longrightarrow>
       vw_hidden V (io_PopLimit F lim st2) = vw_hidden V st \<and> vw_limited V (io_PopLimit F lim st2) = vw_limited V st)"

text \<open>A message's parser, given a recursion budget of \<open>need\<close>, reads the payload up to the limit, balances
  its own nesting and notices the end of the message.\<close>

definition parses :: "'z in_view \<Rightarrow> int \<Rightarrow> ('m, 'z) merge \<Rightarrow> 'm \<Rightarrow> 8 word list \<Rightarrow> 'm \<Rightarrow> bool" where
  "parses V need merge m0 payload m \<longleftrightarrow> 0 \<le> need \<and>
    (\<forall>st. wf_in st \<and> vw_limited V st \<and> readable V st = payload \<and> need \<le> ci_recursion_budget st \<longrightarrow>
      (\<exists>st'. merge m0 st = ((True, m), st') \<and> leaves V st st' [] \<and> ConsumedEntireMessage st' \<and>
         ci_recursion_budget st' = ci_recursion_budget st))"

lemma ReadVarint32_budget:
  assumes "nesting_ok V F" and "ReadVarint32 F st = Inr (x, st')"
  shows "ci_recursion_budget st' = ci_recursion_budget st"
proof -
  have "ci_recursion_budget (snd (io_ReadVarint32Fallback F v st)) = ci_recursion_budget st" for v
    using assms(1) by (simp add: nesting_ok_def)
  then show ?thesis using assms(2)
    by (auto simp: ReadVarint32_def Let_def ci_Advance_def bnd_eq_Inr split: if_splits prod.splits)
      (metis snd_conv)+
qed

lemma ReadMessage_NoVirtual: "ReadMessageNoVirtual F merge input value = ReadMessage F merge input value"
  by (simp add: ReadMessageNoVirtual_def ReadMessage_def)

lemma wf_in_budget: "wf_in (st\<lparr>ci_recursion_budget := b\<rparr>) = wf_in st"
  by (simp add: wf_in_def)

lemma ReadMessage_nested:
  assumes "in_ok V F" and "nesting_ok V F" and "wf_in st" and "length payload < 2 ^ 31"
    and "readable V st = varint (length payload) @ payload @ r"
  shows "ci_recursion_budget st \<le> 0 \<Longrightarrow> \<exists>st'. ReadMessage F merge st m0 = Inr ((False, m0), st')"
    and "need < ci_recursion_budget st \<Longrightarrow> parses V need merge m0 payload m \<Longrightarrow>
      \<exists>st'. ReadMessage F merge st m0 = Inr ((True, m), st') \<and> wf_in st' \<and> readable V st' = r \<and>
        ci_recursion_budget st' = ci_recursion_budget st \<and> (nested_limits V F \<longrightarrow> leaves V st st' r)"
proof -
  obtain st1 where st1: "ReadVarint32 F st = Inr ((True, of_nat (length payload)), st1)" "leaves V st st1 (payload @ r)"
    using ReadVarint32_encoded[OF assms(1,3,4,5)] by blast
  then have wf1: "wf_in st1" "readable V st1 = payload @ r" by (simp_all add: leaves_def)
  note n = word_of_small(1)[OF assms(4)]
  have b1: "ci_recursion_budget st1 = ci_recursion_budget st" using ReadVarint32_budget[OF assms(2) st1(1)] .
  have len: "length payload \<le> length (readable V st1)" using wf1(2) by simp
  have push: "\<forall>n \<le> length (readable V st1). \<exists>lim st'. io_PushLimit F (int n) st1 = (lim, st') \<and> wf_in st' \<and>
        readable V st' = take n (readable V st1) \<and> vw_hidden V st' lim = drop n (readable V st1) \<and> vw_limited V st'"
    using in_okD(4)[OF assms(1)] wf1(1) unfolding limits_ok_def by blast
  obtain lim st2 where st2: "io_PushLimit F (int (length payload)) st1 = (lim, st2)" "wf_in st2"
      "readable V st2 = payload" "vw_hidden V st2 lim = r" "vw_limited V st2"
    using push[rule_format, OF len] wf1(2) by auto
  note ok = assms(2)[unfolded nesting_ok_def]
  have b2: "ci_recursion_budget st2 = ci_recursion_budget st" using ok st2(1) b1 by (metis snd_conv)
  let ?st3 = "st2\<lparr>ci_recursion_budget := ci_recursion_budget st - 1\<rparr>"
  have inc: "io_IncrementRecursionDepthAndPushLimit F (int (length payload)) st1 = ((lim, ci_recursion_budget st - 1), ?st3)"
    using ok st2(1) b2 by simp
  have st3: "wf_in ?st3" "vw_limited V ?st3" "readable V ?st3 = payload" "vw_hidden V ?st3 lim = r"
    using ok st2(2-5) by (simp_all add: wf_in_budget)
  show "\<exists>st'. ReadMessage F merge st m0 = Inr ((False, m0), st')" if "ci_recursion_budget st \<le> 0"
    using that st1(1) inc n by (simp add: ReadMessage_def)
  show "\<exists>st'. ReadMessage F merge st m0 = Inr ((True, m), st') \<and> wf_in st' \<and> readable V st' = r \<and>
        ci_recursion_budget st' = ci_recursion_budget st \<and> (nested_limits V F \<longrightarrow> leaves V st st' r)"
    if less: "need < ci_recursion_budget st" and prs: "parses V need merge m0 payload m"
  proof -
    have pos: "0 < ci_recursion_budget st" and left: "need \<le> ci_recursion_budget ?st3"
      using less prs by (simp_all add: parses_def)
    obtain st4 where st4: "merge m0 ?st3 = ((True, m), st4)" "leaves V ?st3 st4 []" "ConsumedEntireMessage st4"
        "ci_recursion_budget st4 = ci_recursion_budget st - 1"
      using prs[unfolded parses_def, THEN conjunct2, rule_format, OF conjI[OF st3(1) conjI[OF st3(2) conjI[OF st3(3) left]]]]
      by auto
    have hid: "readable V st4 = []" "vw_hidden V st4 lim = r" "wf_in st4" using st4(2) st3(4) by (simp_all add: leaves_def)
    have pop: "wf_in (io_PopLimit F lim st4)" "readable V (io_PopLimit F lim st4) = r"
      using in_okD(4)[OF assms(1)] hid by (simp_all add: limits_ok_def)
    have b: "ci_recursion_budget (io_PopLimit F lim st4) = ci_recursion_budget st - 1" using ok st4(4) by simp
    let ?st5 = "(io_PopLimit F lim st4)\<lparr>ci_recursion_budget := ci_recursion_budget st\<rparr>"
    have dec: "io_DecrementRecursionDepthAndPopLimit F lim st4 = (True, ?st5)" using ok st4(3) b by simp
    have "wf_in ?st5" "readable V ?st5 = r" "ci_recursion_budget ?st5 = ci_recursion_budget st"
      using ok pop by (simp_all add: wf_in_budget)
    moreover have "leaves V st ?st5 r" if nest: "nested_limits V F"
    proof -
      have "vw_hidden V st4 = vw_hidden V st2" using st4(2) ok by (simp add: leaves_def)
      then have "vw_hidden V (io_PopLimit F lim st4) = vw_hidden V st1 \<and> vw_limited V (io_PopLimit F lim st4) = vw_limited V st1"
        using nest[unfolded nested_limits_def] wf1(1) len st2(1) hid(3) by blast
      then show ?thesis using st1(2) ok pop by (simp add: leaves_def wf_in_budget)
    qed
    ultimately show ?thesis using pos st1(1) inc n st4(1) dec by (simp add: ReadMessage_def)
  qed
qed

lemma message_writes:
  assumes "writes (mo_SerializeWithCachedSizesToArray M value) payload"
    and "mo_GetCachedSize M value = int (length payload)" and "length payload < 2 ^ 31"
  shows "writes (WriteMessageToArray M k value)
    (varint (unat (MakeTag k WIRETYPE_LENGTH_DELIMITED)) @ varint (length payload) @ payload)"
proof -
  have "unat (of_nat (length payload) :: 32 word) = length payload"
    using word_of_small(2)[OF assms(3)] by (simp add: unat_eq_nat_uint del: nat_uint_eq of_int_of_nat_eq)
  then have size: "writes (WriteVarint32ToArray (word_of_int (mo_GetCachedSize M value))) (varint (length payload))"
    using writes_varint32[of "of_nat (length payload)"] assms(2) by simp
  from writes_seq[OF writes_tag writes_seq[OF size assms(1)]] show ?thesis
    by (rule writes_cong) (simp_all add: WriteMessageToArray_def)
qed

text \<open>An embedded message: the writer puts tag, length and payload, each in its place; the reader,
  given the length and the payload, returns the message, stands behind it and has restored the
  recursion budget; when the budget is used up it refuses the message without parsing it.\<close>

theorem message_round_trip:
  assumes "in_ok V F" and "nesting_ok V F" and "wf_in st" and "length payload < 2 ^ 31"
    and "writes (mo_SerializeWithCachedSizesToArray M value) payload"
    and "mo_GetCachedSize M value = int (length payload)" and "parses V need merge m0 payload m"
    and "readable V st = varint (length payload) @ payload @ r"
  shows "writes (WriteMessageToArray M k value)
      (varint (unat (MakeTag k WIRETYPE_LENGTH_DELIMITED)) @ varint (length payload) @ payload) \<and>
    (need < ci_recursion_budget st \<longrightarrow>
      (\<exists>st'. ReadMessage F merge st m0 = Inr ((True, m), st') \<and> wf_in st' \<and> readable V st' = r \<and>
         ci_recursion_budget st' = ci_recursion_budget st)) \<and>
    (ci_recursion_budget st \<le> 0 \<longrightarrow> (\<exists>st'. ReadMessage F merge st m0 = Inr ((False, m0), st')))"
  using message_writes[OF assms(5,6,4), of k] ReadMessage_nested(1)[OF assms(1-4,8), of merge m0]
    ReadMessage_nested(2)[OF assms(1-4,8) _ assms(7)] by blast

lemma flat_varint_budget: "flat_varint st = Some (n, st') \<Longrightarrow> ci_recursion_budget st' = ci_recursion_budget st"
  by (auto simp: flat_varint_def ci_Advance_def split: option.splits)

lemma flat_budget:
  "window (st\<lparr>ci_recursion_budget := b\<rparr>) = window st"
  "vw_hidden flat_view (st\<lparr>ci_recursion_budget := b\<rparr>) = vw_hidden flat_view st"
  by (simp_all add: flat_view_def window_def BufferSize_def flat_hidden_def fun_eq_iff)

lemma flat_nesting_ok: "nesting_ok flat_view flat_ops"
  unfolding nesting_ok_def
proof (intro conjI allI)
  fix v :: "32 word" and st :: "'z CodedInputStream"
  show "ci_recursion_budget (snd (io_ReadVarint32Fallback flat_ops v st)) = ci_recursion_budget st"
    using flat_varint_budget[of st] by (cases "flat_varint st") (auto simp: flat_ops_def)
qed (simp_all add: flat_budget flat_ops_def flat_push_def flat_pop_def)

text \<open>A message of one byte string, whose parser takes all there is up to the limit.\<close>

definition bytes_merge :: "(8 word list, unit) merge" where
  "bytes_merge m st = ((True, window st), (ci_Advance (BufferSize st) st)\<lparr>ci_legitimate_message_end := True\<rparr>)"

definition bytes_message :: "(8 word list, 8 word list) message_out" where
  "bytes_message = \<lparr>mo_ByteSize = \<lambda>m. int (length m), mo_GetCachedSize = \<lambda>m. int (length m),
     mo_SerializeWithCachedSizes = \<lambda>m st. Inr (sink_put m st),
     mo_SerializeWithCachedSizesToArray = memcpy_to\<rparr>"

lemma bytes_parses: "parses flat_view 0 bytes_merge m0 payload payload"
  unfolding parses_def
proof (intro conjI order_refl allI impI, elim conjE)
  fix st :: "unit CodedInputStream"
  assume wf: "wf_in st" and bytes: "readable flat_view st = payload"
  have "leaves flat_view st (ci_Advance (BufferSize st) st) []"
    using flat_advance[OF wf, of "length (window st)"] length_window[OF wf] by simp
  then have "leaves flat_view st ((ci_Advance (BufferSize st) st)\<lparr>ci_legitimate_message_end := True\<rparr>) []"
    by (rule leaves_message_end[OF flat_frame])
  then show "\<exists>st'. bytes_merge m0 st = ((True, payload), st') \<and> leaves flat_view st st' [] \<and>
      ConsumedEntireMessage st' \<and> ci_recursion_budget st' = ci_recursion_budget st"
    using bytes by (simp add: bytes_merge_def ConsumedEntireMessage_def ci_Advance_def)
qed

theorem message_round_trip_witness:
  "\<exists>st'. ReadMessage flat_ops bytes_merge (flat_stream (varint 3 @ [1, 2, 3] @ [9])) [] = Inr ((True, [1, 2, 3]), st') \<and>
    window st' = [9] \<and> ci_recursion_budget st' = 100"
proof -
  let ?m = "[1, 2, 3] :: 8 word list"
  let ?st = "flat_stream (varint (length ?m) @ ?m @ [9])"
  have len: "length ?m < 2 ^ 31" by simp
  have ser: "writes (mo_SerializeWithCachedSizesToArray bytes_message ?m) ?m"
    using writes_memcpy by (simp add: bytes_message_def)
  have size: "mo_GetCachedSize bytes_message ?m = int (length ?m)" by (simp add: bytes_message_def)
  have rd: "readable flat_view ?st = varint (length ?m) @ ?m @ [9]" by (simp only: flat_readable flat_stream_ok)
  have budget: "ci_recursion_budget ?st = 100" by (simp add: flat_stream_def ci_new_array_def flat_ops_def)
  have three: "varint (length ?m) = varint 3" by (simp add: numeral_3_eq_3)
  from message_round_trip[OF flat_in_ok flat_nesting_ok flat_stream_ok(1) len ser size bytes_parses rd, THEN conjunct2,
      THEN conjunct1] budget
  show ?thesis unfolding three flat_readable by simp blast
qed

text \<open>The flat stream restores its limits.\<close>

lemma flat_hidden_end:
  assumes "wf_in st" and "wf_in st2" and "flat_hidden st2 = flat_hidden st"
  shows "ci_buffer_end st2 = ci_buffer_end st \<and> drop (nat (ci_buffer_end st2)) (ci_memory st2) =
      drop (nat (ci_buffer_end st)) (ci_memory st) \<and> length (ci_memory st2) = length (ci_memory st) \<or>
    ci_buffer_end st2 = int (length (ci_memory st2)) \<and> ci_buffer_end st = int (length (ci_memory st))"
proof -
  define e e2 l l2 where "e = ci_buffer_end st" "e2 = ci_buffer_end st2" "l = int (length (ci_memory st))"
    "l2 = int (length (ci_memory st2))"
  have b: "0 \<le> e" "e \<le> l" "0 \<le> e2" "e2 \<le> l2" using assms(1,2) by (auto simp: wf_in_def e_e2_l_l2_def)
  have len: "length (flat_hidden st lim) = (if e \<le> lim \<and> lim \<le> l then nat (lim - e) else 0)"
    "length (flat_hidden st2 lim) = (if e2 \<le> lim \<and> lim \<le> l2 then nat (lim - e2) else 0)" for lim
    using b by (auto simp: flat_hidden_def e_e2_l_l2_def nat_diff_distrib')
  have eq: "length (flat_hidden st2 lim) = length (flat_hidden st lim)" for lim using assms(3) by simp
  show ?thesis
  proof (cases "e < l \<or> e2 < l2")
    case True
    have "e2 = e \<and> l2 = l"
      using True eq[of l] eq[of l2] eq[of "l + 1"] eq[of "l2 + 1"] b unfolding len by (auto split: if_splits)
    moreover have "drop (nat e2) (ci_memory st2) = drop (nat e) (ci_memory st)"
    proof -
      have "flat_hidden st l = drop (nat e) (ci_memory st)" "flat_hidden st2 l2 = drop (nat e2) (ci_memory st2)"
        using b by (simp_all add: flat_hidden_def e_e2_l_l2_def nat_diff_distrib')
      then show ?thesis using assms(3) calculation by simp
    qed
    ultimately show ?thesis by (simp add: e_e2_l_l2_def)
  next
    case False
    then show ?thesis using b by (auto simp: e_e2_l_l2_def)
  qed
qed

lemma flat_hidden_full: "ci_buffer_end st = int (length (ci_memory st)) \<Longrightarrow> flat_hidden st lim = []"
  by (simp add: flat_hidden_def)

lemma flat_nested_limits: "nested_limits flat_view flat_ops"
  unfolding nested_limits_def
proof (intro allI impI, elim conjE)
  fix st st1 st2 :: "'z CodedInputStream" and n lim
  assume wf: "wf_in st" "wf_in st2" and n: "n \<le> length (readable flat_view st)"
    and push: "io_PushLimit flat_ops (int n) st = (lim, st1)" and hid: "vw_hidden flat_view st2 = vw_hidden flat_view st1"
  have st1: "lim = ci_buffer_end st" "st1 = st\<lparr>ci_buffer_end := ci_buffer st + int n\<rparr>"
    using push by (auto simp: flat_ops_def flat_push_def)
  have nl: "ci_buffer st + int n \<le> ci_buffer_end st" using n length_window[OF wf(1)] by (simp add: BufferSize_def)
  then have wf1: "wf_in st1" using wf(1) st1(2) by (auto simp: wf_in_def)
  have lim: "ci_buffer_end st1 \<le> lim" "lim \<le> int (length (ci_memory st1))" "ci_memory st1 = ci_memory st" "0 \<le> ci_buffer_end st1"
    using st1 nl wf(1) by (auto simp: wf_in_def)
  have "flat_hidden st2 = flat_hidden st1" using hid by (simp add: flat_view_def)
  from flat_hidden_end[OF wf1 wf(2) this] have "flat_hidden (flat_pop lim st2) = flat_hidden st"
  proof (elim disjE)
    assume a: "ci_buffer_end st2 = ci_buffer_end st1 \<and> drop (nat (ci_buffer_end st2)) (ci_memory st2) =
      drop (nat (ci_buffer_end st1)) (ci_memory st1) \<and> length (ci_memory st2) = length (ci_memory st1)"
    have "drop (nat lim) m = drop (nat lim - nat (ci_buffer_end st1)) (drop (nat (ci_buffer_end st1)) m)" for m :: "8 word list"
      using lim by simp
    then have "drop (nat lim) (ci_memory st2) = drop (nat lim) (ci_memory st)" using a lim(3) by metis
    moreover have "flat_pop lim st2 = st2\<lparr>ci_buffer_end := lim\<rparr>" using a lim by (simp add: flat_pop_def)
    ultimately show "flat_hidden (flat_pop lim st2) = flat_hidden st"
      using a lim st1(1) by (simp add: flat_hidden_def fun_eq_iff)
  next
    assume b: "ci_buffer_end st2 = int (length (ci_memory st2)) \<and> ci_buffer_end st1 = int (length (ci_memory st1))"
    then have "ci_buffer_end st = int (length (ci_memory st))" using lim st1(1) by simp
    moreover have "ci_buffer_end (flat_pop lim st2) = int (length (ci_memory (flat_pop lim st2)))"
      using b by (simp add: flat_pop_def)
    ultimately show "flat_hidden (flat_pop lim st2) = flat_hidden st" using flat_hidden_full by (metis ext)
  qed
  then show "vw_hidden flat_view (io_PopLimit flat_ops lim st2) = vw_hidden flat_view st \<and>
      vw_limited flat_view (io_PopLimit flat_ops lim st2) = vw_limited flat_view st"
    by (simp add: flat_ops_def) (simp add: flat_view_def)
qed

section \<open>Groups\<close>

text \<open>A group is refused when the budget is used up; otherwise the budget is restored, whichever of
  the two ways to count it back is compiled, and the tag that ended it is checked.\<close>

lemma ReadGroup_nested:
  assumes "merge m0 (st\<lparr>ci_recursion_budget := ci_recursion_budget st - 1\<rparr>) = ((True, m), st')"
    and "ci_recursion_budget st' = ci_recursion_budget st - 1" and "ci_recursion_limit st' = ci_recursion_limit st"
    and "ci_recursion_budget st \<le> ci_recursion_limit st" and "0 < ci_recursion_budget st"
  shows "ReadGroup merge k st m0 =
      ((LastTagWas (MakeTag k WIRETYPE_END_GROUP) st', m), st'\<lparr>ci_recursion_budget := ci_recursion_budget st\<rparr>)"
    and "ReadGroupNoVirtual merge k st m0 = Inr (ReadGroup merge k st m0)"
  using assms
  by (simp_all add: ReadGroup_def ReadGroupNoVirtual_def IncrementRecursionDepth_def DecrementRecursionDepth_def
      UnsafeDecrementRecursionDepth_def check_def LastTagWas_def Let_def)

end
