(* ===== verification/PbMap.thy ===== *)
theory PbMap
  imports PbHeap "HOL-Library.Multiset"
begin

text \<open>
  \<open>Map\<close> of \<open>include/google/protobuf/map.h\<close>, the container behind map fields: a hash map from keys to
  pointers to the pairs, which it allocates itself, on the heap or on an arena. The hash map belongs to
  the standard library; here it is the list of its nodes in iteration order, and where a new node goes
  is the parameter \<open>place\<close>. Shown: every operation is the one of a finite map, and the pairs are
  neither leaked nor freed twice.
\<close>

section \<open>Representation\<close>

text \<open>\<open>class MapPair\<close>; a value of scalar type can be indeterminate (\<open>None\<close>).\<close>

record ('k, 'v) MapPair =
  mp_first :: 'k
  mp_second :: "'v option"

record 'k Map =
  map_arena :: "nat option"
  map_elements :: "('k \<times> nat option) list"
  map_default_enum_value :: int

type_synonym ('k, 'v) map_state = "'k Map \<times> ('k, 'v) MapPair heap"

text \<open>What the template knows of its value type: \<open>T()\<close>, what \<open>new (ptr) T\<close> leaves in the storage, and
  for a proto enum the conversion from \<open>int\<close>. \<open>place\<close> is where the hash map puts a new node.\<close>

record ('k, 'v) map_traits =
  mt_value :: 'v
  mt_raw :: "'v option"
  mt_enum :: "(int \<Rightarrow> 'v) option"
  mt_place :: "'k \<times> nat option \<Rightarrow> ('k \<times> nat option) list \<Rightarrow> ('k \<times> nat option) list"

text \<open>Iterators stand on a node, named by its key, or at the end.\<close>

type_synonym 'k iter = "'k option"

section \<open>The hash map\<close>

definition hm_lookup :: "('k \<times> nat option) list \<Rightarrow> 'k \<Rightarrow> nat option option" where
  "hm_lookup els k = map_of els k"

definition hm_erase :: "'k \<Rightarrow> ('k \<times> nat option) list \<Rightarrow> ('k \<times> nat option) list" where
  "hm_erase k els = filter (\<lambda>e. fst e \<noteq> k) els"

definition hm_store :: "'k \<Rightarrow> nat option \<Rightarrow> ('k \<times> nat option) list \<Rightarrow> ('k \<times> nat option) list" where
  "hm_store k p els = map (\<lambda>e. if fst e = k then (k, p) else e) els"

text \<open>The node behind the one of key \<open>k\<close>.\<close>

fun hm_next :: "'k \<Rightarrow> ('k \<times> nat option) list \<Rightarrow> 'k iter" where
  "hm_next k [] = None"
| "hm_next k (e # els) = (if fst e = k then (case els of [] \<Rightarrow> None | e' # _ \<Rightarrow> Some (fst e')) else hm_next k els)"

section \<open>Pairs\<close>

definition CreateValueTypeInternal_key :: "('k, 'v) map_traits \<Rightarrow> 'k \<Rightarrow> ('k, 'v) map_state \<Rightarrow> nat option \<times> ('k, 'v) map_state" where
  "CreateValueTypeInternal_key T key = (\<lambda>(m, h).
     case map_arena m of
       None \<Rightarrow> (case hp_new \<lparr>mp_first = key, mp_second = Some (mt_value T)\<rparr> h of (p, h) \<Rightarrow> (Some p, m, h))
     | Some a \<Rightarrow> (case hp_new \<lparr>mp_first = key, mp_second = mt_raw T\<rparr> h of (p, h) \<Rightarrow> (Some p, m, hp_own a p h)))"

text \<open>Copying a value reads it, and an indeterminate one must not be read.\<close>

definition load_second :: "'v option \<Rightarrow> 'v run" where
  "load_second v = (case v of None \<Rightarrow> Inl Uninitialised | Some w \<Rightarrow> Inr w)"

definition CreateValueTypeInternal_value :: "('k, 'v) MapPair \<Rightarrow> ('k, 'v) map_state \<Rightarrow> (nat option \<times> ('k, 'v) map_state) run" where
  "CreateValueTypeInternal_value v = (\<lambda>(m, h).
     bnd (load_second (mp_second v)) (\<lambda>w.
       case hp_new \<lparr>mp_first = mp_first v, mp_second = Some w\<rparr> h of (p, h) \<Rightarrow>
         Inr (Some p, m, own_on (map_arena m) p h)))"

text \<open>\<open>MapValueInitializer::Initialize\<close>: an enum starts at the default of the field.\<close>

definition Initialize :: "('k, 'v) map_traits \<Rightarrow> int \<Rightarrow> nat option \<Rightarrow> ('k, 'v) MapPair heap \<Rightarrow> ('k, 'v) MapPair heap run" where
  "Initialize T default_enum_value p h =
    (case mt_enum T of None \<Rightarrow> Inr h
     | Some cast \<Rightarrow> bnd (hp_read p h) (\<lambda>pair. hp_write p (pair\<lparr>mp_second := Some (cast default_enum_value)\<rparr>) h))"

section \<open>Operations\<close>

definition Map_new :: "nat option \<Rightarrow> 'k Map" where
  "Map_new arena = \<lparr>map_arena = arena, map_elements = [], map_default_enum_value = 0\<rparr>"

definition Map_SetDefaultEnumValue :: "int \<Rightarrow> 'k Map \<Rightarrow> 'k Map" where
  "Map_SetDefaultEnumValue v m = m\<lparr>map_default_enum_value := v\<rparr>"

definition Map_begin :: "'k Map \<Rightarrow> 'k iter" where
  "Map_begin m = (case map_elements m of [] \<Rightarrow> None | e # _ \<Rightarrow> Some (fst e))"

definition Map_end :: "'k Map \<Rightarrow> 'k iter" where
  "Map_end m = None"

definition iter_next :: "'k Map \<Rightarrow> 'k iter \<Rightarrow> 'k iter" where
  "iter_next m it = (case it of None \<Rightarrow> None | Some k \<Rightarrow> hm_next k (map_elements m))"

text \<open>\<open>it_->second\<close>: the pointer in the node; an iterator at the end has none.\<close>

definition iter_ptr :: "'k Map \<Rightarrow> 'k iter \<Rightarrow> nat option run" where
  "iter_ptr m it = (case it of None \<Rightarrow> Inl OutOfBounds
     | Some k \<Rightarrow> (case hm_lookup (map_elements m) k of None \<Rightarrow> Inl OutOfBounds | Some p \<Rightarrow> Inr p))"

definition iter_deref :: "'k iter \<Rightarrow> ('k, 'v) map_state \<Rightarrow> ('k, 'v) MapPair run" where
  "iter_deref it = (\<lambda>(m, h). bnd (iter_ptr m it) (\<lambda>p. hp_read p h))"

definition Map_size :: "'k Map \<Rightarrow> nat" where
  "Map_size m = length (map_elements m)"

definition Map_empty :: "'k Map \<Rightarrow> bool" where
  "Map_empty m \<longleftrightarrow> map_elements m = []"

definition Map_count :: "'k \<Rightarrow> 'k Map \<Rightarrow> nat" where
  "Map_count key m = (if hm_lookup (map_elements m) key = None then 0 else 1)"

definition Map_find :: "'k \<Rightarrow> 'k Map \<Rightarrow> 'k iter" where
  "Map_find key m = (case hm_lookup (map_elements m) key of None \<Rightarrow> Map_end m | Some _ \<Rightarrow> Some key)"

text \<open>\<open>operator[]\<close>: the pointer to the pair whose value is referred to. The hash map makes a node with the
  null pointer for a new key.\<close>

definition Map_subscript :: "('k, 'v) map_traits \<Rightarrow> 'k \<Rightarrow> ('k, 'v) map_state \<Rightarrow> (nat option \<times> ('k, 'v) map_state) run" where
  "Map_subscript T key = (\<lambda>(m, h).
     let m = (if hm_lookup (map_elements m) key = None
              then m\<lparr>map_elements := mt_place T (key, None) (map_elements m)\<rparr> else m);
         value = (case hm_lookup (map_elements m) key of None \<Rightarrow> None | Some p \<Rightarrow> p)
     in if value = None
        then case CreateValueTypeInternal_key T key (m, h) of (p, m, h) \<Rightarrow>
               let m = m\<lparr>map_elements := hm_store key p (map_elements m)\<rparr> in
               bnd (Initialize T (map_default_enum_value m) p h) (\<lambda>h. Inr (p, m, h))
        else Inr (value, m, h))"

text \<open>Reading \<open>p->second\<close>, storing to it, and assigning the value of another pair to it, which reads that
  value.\<close>

definition read_second :: "nat option \<Rightarrow> ('k, 'v) MapPair heap \<Rightarrow> 'v run" where
  "read_second p h = bnd (hp_read p h) (\<lambda>pair. load_second (mp_second pair))"

definition put_second :: "nat option \<Rightarrow> 'v option \<Rightarrow> ('k, 'v) MapPair heap \<Rightarrow> ('k, 'v) MapPair heap run" where
  "put_second p v h = bnd (hp_read p h) (\<lambda>pair. hp_write p (pair\<lparr>mp_second := v\<rparr>) h)"

definition assign_second :: "nat option \<Rightarrow> 'v option \<Rightarrow> ('k, 'v) MapPair heap \<Rightarrow> ('k, 'v) MapPair heap run" where
  "assign_second p v h = bnd (load_second v) (\<lambda>w. put_second p (Some w) h)"

lemma load_second_simps [simp]: "load_second None = Inl Uninitialised" "load_second (Some w) = Inr w"
  by (simp_all add: load_second_def)

lemma assign_second_simps [simp]:
  "assign_second p None h = Inl Uninitialised" "assign_second p (Some w) h = put_second p (Some w) h"
  by (simp_all add: assign_second_def)

definition Map_at :: "'k \<Rightarrow> ('k, 'v) map_state \<Rightarrow> nat option run" where
  "Map_at key = (\<lambda>(m, h). let it = Map_find key m in check (it \<noteq> Map_end m) (iter_ptr m it))"

definition Map_equal_range :: "'k \<Rightarrow> 'k Map \<Rightarrow> 'k iter \<times> 'k iter" where
  "Map_equal_range key m =
    (let it = Map_find key m in if it = Map_end m then (it, it) else (it, iter_next m it))"

definition Map_insert :: "('k, 'v) map_traits \<Rightarrow> ('k, 'v) MapPair \<Rightarrow> ('k, 'v) map_state \<Rightarrow> (('k iter \<times> bool) \<times> ('k, 'v) map_state) run" where
  "Map_insert T v = (\<lambda>(m, h).
     let it = Map_find (mp_first v) m in
     if it \<noteq> Map_end m then Inr ((it, False), m, h)
     else bnd (CreateValueTypeInternal_value v (m, h)) (\<lambda>(p, m, h).
       Inr ((Some (mp_first v), True),
         m\<lparr>map_elements := mt_place T (mp_first v, p) (map_elements m)\<rparr>, h)))"

text \<open>\<open>operator[](it->first) = it->second\<close> for the keys that are not there yet.\<close>

definition insert_item :: "('k, 'v) map_traits \<Rightarrow> ('k, 'v) MapPair \<Rightarrow> ('k, 'v) map_state \<Rightarrow> ('k, 'v) map_state run" where
  "insert_item T v = (\<lambda>(m, h).
     if Map_find (mp_first v) m = Map_end m
     then bnd (Map_subscript T (mp_first v) (m, h)) (\<lambda>(p, m, h).
            bnd (assign_second p (mp_second v) h) (\<lambda>h. Inr (m, h)))
     else Inr (m, h))"

definition Map_insert_range :: "('k, 'v) map_traits \<Rightarrow> ('k, 'v) MapPair list \<Rightarrow> ('k, 'v) map_state \<Rightarrow> ('k, 'v) map_state run" where
  "Map_insert_range T vs = for_each (insert_item T) vs"

text \<open>The pairs from \<open>begin()\<close> to \<open>end()\<close>.\<close>

fun pairs_at :: "('k \<times> nat option) list \<Rightarrow> ('k, 'v) MapPair heap \<Rightarrow> ('k, 'v) MapPair list run" where
  "pairs_at [] h = Inr []"
| "pairs_at (e # els) h = bnd (hp_read (snd e) h) (\<lambda>v. bnd (pairs_at els h) (\<lambda>vs. Inr (v # vs)))"

definition Map_copy :: "('k, 'v) map_traits \<Rightarrow> 'k Map \<Rightarrow> ('k, 'v) MapPair heap \<Rightarrow> ('k, 'v) map_state run" where
  "Map_copy T other h =
    bnd (pairs_at (map_elements other) h) (\<lambda>vs.
      Map_insert_range T vs ((Map_new None)\<lparr>map_default_enum_value := map_default_enum_value other\<rparr>, h))"

definition Map_from_range :: "('k, 'v) map_traits \<Rightarrow> ('k, 'v) MapPair list \<Rightarrow> ('k, 'v) MapPair heap \<Rightarrow> ('k, 'v) map_state run" where
  "Map_from_range T vs h = Map_insert_range T vs (Map_new None, h)"

text \<open>\<open>if (arena_ == NULL) delete it->second\<close>\<close>

definition delete_pair :: "nat option \<Rightarrow> nat option \<Rightarrow> ('k, 'v) MapPair heap \<Rightarrow> ('k, 'v) MapPair heap run" where
  "delete_pair arena p h = (if arena = None then hp_delete p h else Inr h)"

definition Map_erase_key :: "'k \<Rightarrow> ('k, 'v) map_state \<Rightarrow> (nat \<times> ('k, 'v) map_state) run" where
  "Map_erase_key key = (\<lambda>(m, h).
     case hm_lookup (map_elements m) key of
       None \<Rightarrow> Inr (0, m, h)
     | Some p \<Rightarrow> bnd (delete_pair (map_arena m) p h) (\<lambda>h.
         Inr (1, m\<lparr>map_elements := hm_erase key (map_elements m)\<rparr>, h)))"

definition Map_erase :: "'k iter \<Rightarrow> ('k, 'v) map_state \<Rightarrow> ('k, 'v) map_state run" where
  "Map_erase pos = (\<lambda>(m, h).
     bnd (iter_ptr m pos) (\<lambda>p. bnd (delete_pair (map_arena m) p h) (\<lambda>h.
       Inr (m\<lparr>map_elements := (case pos of None \<Rightarrow> map_elements m | Some k \<Rightarrow> hm_erase k (map_elements m))\<rparr>, h))))"

text \<open>\<open>erase(first, last)\<close>: the iterator moves on before its node goes. \<open>fuel\<close> bounds the rounds.\<close>

fun Map_erase_range :: "nat \<Rightarrow> 'k iter \<Rightarrow> 'k iter \<Rightarrow> ('k, 'v) map_state \<Rightarrow> ('k, 'v) map_state run option" where
  "Map_erase_range 0 it last_it st = None"
| "Map_erase_range (Suc fuel) it last_it st =
    (if it = last_it then Some (Inr st)
     else case st of (m, h) \<Rightarrow>
       (case Map_erase it (m, h) of Inl e \<Rightarrow> Some (Inl e)
        | Inr st' \<Rightarrow> Map_erase_range fuel (iter_next m it) last_it st'))"

definition Map_clear :: "('k, 'v) map_state \<Rightarrow> ('k, 'v) map_state run" where
  "Map_clear = (\<lambda>(m, h).
     bnd (for_each (\<lambda>e h. delete_pair (map_arena m) (snd e) h) (map_elements m) h)
       (\<lambda>h. Inr (m\<lparr>map_elements := []\<rparr>, h)))"

definition Map_destruct :: "('k, 'v) map_state \<Rightarrow> ('k, 'v) map_state run" where
  "Map_destruct st = Map_clear st"

text \<open>\<open>operator=\<close>; \<open>other = None\<close> is the map itself.\<close>

definition Map_assign :: "('k, 'v) map_traits \<Rightarrow> 'k Map option \<Rightarrow> ('k, 'v) map_state \<Rightarrow> ('k, 'v) map_state run" where
  "Map_assign T other st = (case other of None \<Rightarrow> Inr st
     | Some oth \<Rightarrow> bnd (Map_clear st) (\<lambda>(m, h).
         bnd (pairs_at (map_elements oth) h) (\<lambda>vs. Map_insert_range T vs (m, h))))"

section \<open>The finite map behind it\<close>

text \<open>The standard library puts a node somewhere.\<close>

definition place_ok :: "('k, 'v) map_traits \<Rightarrow> bool" where
  "place_ok T \<longleftrightarrow> (\<forall>e els. mset (mt_place T e els) = add_mset e (mset els))"

definition pair_ok :: "nat option \<Rightarrow> ('k, 'v) MapPair heap \<Rightarrow> 'k \<Rightarrow> nat option \<Rightarrow> bool" where
  "pair_ok arena h k q \<longleftrightarrow> (\<exists>p pair. q = Some p \<and> hp_cells h p = Some pair \<and> mp_first pair = k \<and>
     held arena h p)"

definition wf_map :: "('k, 'v) map_state \<Rightarrow> bool" where
  "wf_map = (\<lambda>(m, h). wf_heap h \<and> distinct (map fst (map_elements m)) \<and>
     (\<forall>(k, q) \<in> set (map_elements m). pair_ok (map_arena m) h k q))"

definition map_ptrs :: "'k Map \<Rightarrow> nat set" where
  "map_ptrs m = {p. Some p \<in> snd ` set (map_elements m)}"

definition value_at :: "('k, 'v) MapPair heap \<Rightarrow> nat option \<Rightarrow> 'v option option" where
  "value_at h q = (case q of None \<Rightarrow> None | Some p \<Rightarrow> map_option mp_second (hp_cells h p))"

lemma value_at_Some [simp]: "value_at h (Some p) = map_option mp_second (hp_cells h p)"
  by (simp add: value_at_def)

definition map_abs :: "('k, 'v) map_state \<Rightarrow> 'k \<Rightarrow> 'v option option" where
  "map_abs = (\<lambda>(m, h) k. Option.bind (hm_lookup (map_elements m) k) (value_at h))"

text \<open>What belongs neither to the map nor to an arena.\<close>

definition map_loose :: "('k, 'v) map_state \<Rightarrow> nat set" where
  "map_loose = (\<lambda>(m, h). live h - owned h - map_ptrs m)"

text \<open>A step of the map: it is well formed again and stands for \<open>f\<close>; nothing of the rest of the
  program is freed or changed, and nothing is left behind.\<close>

definition map_step :: "('k, 'v) map_state \<Rightarrow> ('k, 'v) map_state \<Rightarrow> ('k \<Rightarrow> 'v option option) \<Rightarrow> bool" where
  "map_step st st' f \<longleftrightarrow> wf_map st' \<and> map_abs st' = f \<and> map_loose st' = map_loose st \<and>
     map_arena (fst st') = map_arena (fst st) \<and>
     map_default_enum_value (fst st') = map_default_enum_value (fst st) \<and>
     set (hp_owned (snd st)) \<subseteq> set (hp_owned (snd st')) \<and>
     (\<forall>p \<in> live (snd st) - map_ptrs (fst st). p \<notin> map_ptrs (fst st') \<and> hp_cells (snd st') p = hp_cells (snd st) p)"

lemma map_step_refl: "wf_map st \<Longrightarrow> map_step st st (map_abs st)"
  by (simp add: map_step_def)

lemma in_map_ptrs: "p \<in> map_ptrs m \<longleftrightarrow> (\<exists>k. (k, Some p) \<in> set (map_elements m))"
  by (force simp: map_ptrs_def)

lemma map_step_trans:
  assumes "map_step st st1 f1" and "map_step st1 st2 f2"
  shows "map_step st st2 f2"
proof -
  have "hp_cells (snd st1) p = hp_cells (snd st) p \<and> p \<notin> map_ptrs (fst st1)"
    if "p \<in> live (snd st) - map_ptrs (fst st)" for p
    using assms(1) that by (simp add: map_step_def)
  moreover from this have "p \<in> live (snd st1) - map_ptrs (fst st1)" if "p \<in> live (snd st) - map_ptrs (fst st)" for p
    using that by (auto simp: in_live)
  ultimately show ?thesis using assms unfolding map_step_def by auto
qed

lemma pair_okD:
  assumes "wf_map (m, h)" and "(k, q) \<in> set (map_elements m)"
  obtains p pair where "q = Some p" and "hp_cells h p = Some pair" and "mp_first pair = k" and "held (map_arena m) h p"
  using assms by (auto simp: wf_map_def pair_ok_def)

lemma wf_mapD:
  assumes "wf_map (m, h)"
  shows "wf_heap h" and "distinct (map fst (map_elements m))" and "map_ptrs m \<subseteq> live h"
proof -
  show "wf_heap h" "distinct (map fst (map_elements m))" using assms by (simp_all add: wf_map_def)
  show "map_ptrs m \<subseteq> live h"
  proof
    fix p
    assume "p \<in> map_ptrs m"
    then obtain k where "(k, Some p) \<in> set (map_elements m)" by (auto simp: in_map_ptrs)
    then show "p \<in> live h" by (rule pair_okD[OF assms]) (simp add: in_live)
  qed
qed

lemma lookup_in: "distinct (map fst els) \<Longrightarrow> hm_lookup els k = Some q \<longleftrightarrow> (k, q) \<in> set els"
  by (simp add: hm_lookup_def)

lemma lookup_none: "hm_lookup els k = None \<longleftrightarrow> k \<notin> fst ` set els"
  by (simp add: hm_lookup_def map_of_eq_None_iff)

text \<open>A pair determines its key, so the pointers of a map are distinct.\<close>

lemma ptr_inj:
  assumes "wf_map (m, h)" and "(k, Some p) \<in> set (map_elements m)" and "(k', Some p) \<in> set (map_elements m)"
  shows "k = k'"
  using pair_okD[OF assms(1,2)] pair_okD[OF assms(1,3)] by (metis option.sel)

lemma map_abs_dom: "wf_map (m, h) \<Longrightarrow> map_abs (m, h) k = None \<longleftrightarrow> hm_lookup (map_elements m) k = None"
proof -
  assume wf: "wf_map (m, h)"
  have "value_at h q \<noteq> None" if "hm_lookup (map_elements m) k = Some q" for q
  proof -
    have "(k, q) \<in> set (map_elements m)" using that lookup_in[OF wf_mapD(2)[OF wf]] by simp
    then show ?thesis by (rule pair_okD[OF wf]) (simp add: value_at_def)
  qed
  then show ?thesis by (cases "hm_lookup (map_elements m) k") (auto simp: map_abs_def)
qed

section \<open>The three changes of a map\<close>

text \<open>A new node.\<close>

lemma new_node_step:
  assumes "wf_map (m, h)" and "hm_lookup (map_elements m) k = None" and "mp_first pair = k"
    and "hp_new pair h = (p, h1)" and "mset els = add_mset (k, Some p) (mset (map_elements m))"
  shows "map_step (m, h) (m\<lparr>map_elements := els\<rparr>, own_on (map_arena m) p h1) ((map_abs (m, h))(k \<mapsto> mp_second pair))"
proof -
  let ?m = "m\<lparr>map_elements := els\<rparr>" and ?h = "own_on (map_arena m) p h1"
  note wf = wf_mapD[OF assms(1)]
  note f = new_on_fresh[OF wf(1) assms(4)]
  have els: "set els = insert (k, Some p) (set (map_elements m))"
    using arg_cong[OF assms(5), of set_mset] by simp
  have "mset (map fst els) = mset (k # map fst (map_elements m))"
    using arg_cong[OF assms(5), of "image_mset fst"] by simp
  then have dist: "distinct (map fst els)"
    using mset_eq_imp_distinct_iff[of "map fst els" "k # map fst (map_elements m)"] wf(2) assms(2)
    by (simp add: lookup_none)
  have "map_of els = map_of ((k, Some p) # map_elements m)"
    using els dist wf(2) assms(2) by (subst map_of_inject_set) (simp_all add: lookup_none)
  then have look: "hm_lookup els x = (if x = k then Some (Some p) else hm_lookup (map_elements m) x)" for x
    by (simp add: hm_lookup_def)
  have old: "pair_ok (map_arena m) ?h k' q \<and> value_at ?h q = value_at h q" if kq: "(k', q) \<in> set (map_elements m)" for k' q
  proof -
    obtain p' pr where p': "q = Some p'" "hp_cells h p' = Some pr" "mp_first pr = k'" "held (map_arena m) h p'"
      using assms(1) kq by (rule pair_okD)
    then have "p' \<noteq> p" using f(1) by (auto simp: in_live)
    then show ?thesis using p' f(3,7) by (auto simp: pair_ok_def value_at_def)
  qed
  have "pair_ok (map_arena m) ?h k (Some p)" using assms(3) f(3,5) by (simp add: pair_ok_def)
  then have "wf_map (?m, ?h)" using dist els old f(4) by (auto simp: wf_map_def)
  moreover have "map_abs (?m, ?h) x = ((map_abs (m, h))(k \<mapsto> mp_second pair)) x" for x
  proof (cases "hm_lookup (map_elements m) x")
    case None
    then show ?thesis using look f(3) by (simp add: map_abs_def value_at_def)
  next
    case (Some q)
    then have "(x, q) \<in> set (map_elements m)" using lookup_in[OF wf(2)] by blast
    then have "value_at ?h q = value_at h q" using old by blast
    moreover have "x \<noteq> k" using Some assms(2) by auto
    ultimately show ?thesis using Some look by (simp add: map_abs_def)
  qed
  moreover have ptrs: "map_ptrs ?m = insert p (map_ptrs m)" using els by (auto simp: map_ptrs_def)
  moreover have "map_loose (?m, ?h) = map_loose (m, h)"
    using f(8) unfolding map_loose_def prod.case ptrs by blast
  ultimately show ?thesis using f(1,3,9) by (auto simp: map_step_def)
qed

text \<open>An assignment to a value.\<close>

lemma write_value_step:
  assumes "wf_map (m, h)" and "hm_lookup (map_elements m) k = Some q"
  shows "\<exists>h'. put_second q v h = Inr h' \<and> map_step (m, h) (m, h') ((map_abs (m, h))(k \<mapsto> v))"
proof -
  note wf = wf_mapD[OF assms(1)]
  have kin: "(k, q) \<in> set (map_elements m)" using assms(2) lookup_in[OF wf(2)] by simp
  obtain p pair where p: "q = Some p" "hp_cells h p = Some pair" "mp_first pair = k"
    using assms(1) kin by (rule pair_okD)
  then have "p \<in> live h" by (simp add: in_live)
  from hp_write_live[OF this, of "pair\<lparr>mp_second := v\<rparr>"]
  obtain h' where h': "hp_write (Some p) (pair\<lparr>mp_second := v\<rparr>) h = Inr h'"
      "hp_cells h' = (hp_cells h)(p := Some (pair\<lparr>mp_second := v\<rparr>))" "live h' = live h"
      "hp_owned h' = hp_owned h" "wf_heap h' = wf_heap h"
    by blast
  have own: "owned h' = owned h" using h'(4) by (simp add: owned_def)
  have ok: "pair_ok (map_arena m) h' k' q'" if kq: "(k', q') \<in> set (map_elements m)" for k' q'
  proof -
    obtain p' pr where p': "q' = Some p'" "hp_cells h p' = Some pr" "mp_first pr = k'" "held (map_arena m) h p'"
      using assms(1) kq by (rule pair_okD)
    then show ?thesis using p(2) h'(2) held_cong[OF h'(4)] by (cases "p' = p") (auto simp: pair_ok_def)
  qed
  have "wf_map (m, h')" using ok wf h'(5) by (auto simp: wf_map_def)
  moreover have "map_abs (m, h') x = ((map_abs (m, h))(k \<mapsto> v)) x" for x
  proof (cases "x = k")
    case True
    then show ?thesis using assms(2) p h'(2) by (simp add: map_abs_def value_at_def)
  next
    case False
    have "q' \<noteq> q" if "hm_lookup (map_elements m) x = Some q'" for q'
      using that False ptr_inj[OF assms(1)] kin p(1) lookup_in[OF wf(2)] by blast
    then show ?thesis using False p h'(2)
      by (auto simp: map_abs_def value_at_def split: option.splits bind_splits)
  qed
  moreover have "p \<in> map_ptrs m" using kin p(1) by (auto simp: in_map_ptrs)
  ultimately have "map_step (m, h) (m, h') ((map_abs (m, h))(k \<mapsto> v))"
    using h'(2-4) own by (auto simp: map_step_def map_loose_def)
  then show ?thesis using p h'(1) by (auto simp: put_second_def)
qed

text \<open>The end of a node.\<close>

lemma erase_node_step:
  assumes "wf_map (m, h)" and "hm_lookup (map_elements m) k = Some q"
  shows "\<exists>h'. delete_pair (map_arena m) q h = Inr h' \<and>
    map_step (m, h) (m\<lparr>map_elements := hm_erase k (map_elements m)\<rparr>, h') ((map_abs (m, h))(k := None))"
proof -
  let ?m = "m\<lparr>map_elements := hm_erase k (map_elements m)\<rparr>"
  note wf = wf_mapD[OF assms(1)]
  have kin: "(k, q) \<in> set (map_elements m)" using assms(2) lookup_in[OF wf(2)] by simp
  obtain p pair where p: "q = Some p" "hp_cells h p = Some pair" "mp_first pair = k" "held (map_arena m) h p"
    using assms(1) kin by (rule pair_okD)
  then have pl: "p \<in> live h" by (simp add: in_live)
  have pm: "p \<in> map_ptrs m" using kin p(1) by (auto simp: in_map_ptrs)
  obtain h' where h': "delete_pair (map_arena m) q h = Inr h'" "hp_owned h' = hp_owned h" "wf_heap h'"
      "\<forall>x. x \<noteq> p \<longrightarrow> hp_cells h' x = hp_cells h x" "live h' - owned h' = live h - owned h - {p}"
  proof (cases "map_arena m")
    case None
    then obtain h' where d: "hp_delete (Some p) h = Inr h'" "hp_cells h' = (hp_cells h)(p := None)" "live h' = live h - {p}"
        "hp_owned h' = hp_owned h" "wf_heap h'"
      using hp_delete_live[OF pl] wf(1) p(4) by auto
    have "owned h' = owned h" using d(4) by (simp add: owned_def)
    then show ?thesis using that[of h'] d None p(1) by (auto simp: delete_pair_def)
  next
    case (Some a)
    then have "p \<in> owned h" using p(4) by (force simp: owned_def)
    then show ?thesis using that[of h] Some wf(1) by (auto simp: delete_pair_def)
  qed
  have own: "owned h' = owned h" using h'(2) by (simp add: owned_def)
  have els: "set (map_elements ?m) = {e \<in> set (map_elements m). fst e \<noteq> k}" by (auto simp: hm_erase_def)
  have old: "pair_ok (map_arena m) h' k' q' \<and> value_at h' q' = value_at h q'"
    if kq: "(k', q') \<in> set (map_elements m)" and ne: "k' \<noteq> k" for k' q'
  proof -
    obtain p' pr where p': "q' = Some p'" "hp_cells h p' = Some pr" "mp_first pr = k'" "held (map_arena m) h p'"
      using assms(1) kq by (rule pair_okD)
    then have "p' \<noteq> p" using p(2,3) ne by auto
    then show ?thesis using p' h'(4) held_cong[OF h'(2)] by (auto simp: pair_ok_def value_at_def)
  qed
  have "wf_map (?m, h')"
    using els old h'(3) distinct_fst_filter[OF wf(2)] by (auto simp: wf_map_def hm_erase_def)
  moreover have "map_abs (?m, h') x = ((map_abs (m, h))(k := None)) x" for x
  proof (cases "hm_lookup (map_elements m) x")
    case None
    then show ?thesis by (simp add: map_abs_def hm_lookup_def hm_erase_def map_of_filter_key)
  next
    case (Some q')
    then have xq: "(x, q') \<in> set (map_elements m)" using lookup_in[OF wf(2)] by blast
    then have "x \<noteq> k \<Longrightarrow> value_at h' q' = value_at h q'" using old by blast
    then show ?thesis using Some by (simp add: map_abs_def hm_lookup_def hm_erase_def map_of_filter_key)
  qed
  moreover have "x \<in> map_ptrs ?m \<longleftrightarrow> x \<in> map_ptrs m - {p}" for x
  proof -
    have "x = p" if "(k, Some x) \<in> set (map_elements m)"
      using eq_key_imp_eq_value[OF wf(2) that kin] p(1) by simp
    moreover have "x \<noteq> p" if "(k', Some x) \<in> set (map_elements m)" "k' \<noteq> k" for k'
      using ptr_inj[OF assms(1) that(1), of k] kin p(1) that(2) by blast
    ultimately show ?thesis using els by (auto simp: in_map_ptrs)
  qed
  then have ptrs: "map_ptrs ?m = map_ptrs m - {p}" by blast
  have "map_loose (?m, h') = map_loose (m, h)"
    using h'(5) pm unfolding map_loose_def prod.case ptrs by blast
  moreover have "hp_cells h' x = hp_cells h x" if "x \<notin> map_ptrs m" for x
    using h'(4) pm that by metis
  ultimately have "map_step (m, h) (?m, h') ((map_abs (m, h))(k := None))"
    using ptrs h'(2) by (auto simp: map_step_def)
  then show ?thesis using h'(1) by blast
qed

section \<open>The operations on a finite map\<close>

definition subscript_value :: "('k, 'v) map_traits \<Rightarrow> 'k Map \<Rightarrow> 'v option" where
  "subscript_value T m =
    (case mt_enum T of Some cast \<Rightarrow> Some (cast (map_default_enum_value m))
     | None \<Rightarrow> if map_arena m = None then Some (mt_value T) else mt_raw T)"

lemma create_key:
  "\<exists>pair p h1. CreateValueTypeInternal_key T k (m, h) = (Some p, m, own_on (map_arena m) p h1) \<and>
     hp_new pair h = (p, h1) \<and> mp_first pair = k \<and>
     mp_second pair = (if map_arena m = None then Some (mt_value T) else mt_raw T)"
  by (cases "map_arena m")
    (auto simp: CreateValueTypeInternal_key_def own_on_def intro!: exI[of _ "\<lparr>mp_first = k, mp_second = _\<rparr>"]
      split: prod.splits)

lemma store_placed:
  assumes "place_ok T" and "k \<notin> fst ` set els"
  shows "mset (hm_store k q (mt_place T (k, None) els)) = add_mset (k, q) (mset els)"
proof -
  have "mset (hm_store k q xs) = image_mset (\<lambda>e. if fst e = k then (k, q) else e) (mset xs)" for xs
    by (simp add: hm_store_def)
  moreover have "image_mset (\<lambda>e. if fst e = k then (k, q) else e) (mset els) = mset els"
    using assms(2) by (intro image_mset_cong[where f = "\<lambda>e. if fst e = k then (k, q) else e" and g = "\<lambda>e. e", simplified]) force
  ultimately show ?thesis using assms(1) by (simp add: place_ok_def)
qed

lemma Map_subscript_step:
  assumes "place_ok T" and "wf_map (m, h)"
  shows "\<exists>p st'. Map_subscript T k (m, h) = Inr (p, st') \<and> hm_lookup (map_elements (fst st')) k = Some p \<and>
    map_step (m, h) st' (case map_abs (m, h) k of None \<Rightarrow> (map_abs (m, h))(k \<mapsto> subscript_value T m)
       | Some _ \<Rightarrow> map_abs (m, h))"
proof (cases "hm_lookup (map_elements m) k")
  case None
  then have ab: "map_abs (m, h) k = None" by (simp add: map_abs_def)
  let ?m1 = "m\<lparr>map_elements := mt_place T (k, None) (map_elements m)\<rparr>"
  obtain pair p h1 where c: "CreateValueTypeInternal_key T k (?m1, h) = (Some p, ?m1, own_on (map_arena m) p h1)"
      "hp_new pair h = (p, h1)" "mp_first pair = k"
      "mp_second pair = (if map_arena m = None then Some (mt_value T) else mt_raw T)"
    using create_key[of T k ?m1 h] by auto
  let ?els = "hm_store k (Some p) (mt_place T (k, None) (map_elements m))"
  let ?m = "m\<lparr>map_elements := ?els\<rparr>" and ?h = "own_on (map_arena m) p h1"
  have kn: "k \<notin> fst ` set (map_elements m)" using None by (simp add: lookup_none)
  note st1 = new_node_step[OF assms(2) None c(3,2) store_placed[OF assms(1) kn]]
  then have wf1: "wf_map (?m, ?h)" by (simp add: map_step_def)
  have "(k, Some p) \<in># mset ?els" using store_placed[OF assms(1) kn] by simp
  then have look: "hm_lookup (map_elements ?m) k = Some (Some p)" using lookup_in[OF wf_mapD(2)[OF wf1]] by simp
  have fresh: "hm_lookup (map_elements ?m1) k = Some None"
  proof -
    have e: "mset (map_elements ?m1) = add_mset (k, None) (mset (map_elements m))"
      using assms(1) by (simp add: place_ok_def)
    have "mset (map fst (map_elements ?m1)) = mset (k # map fst (map_elements m))"
      using arg_cong[OF e, of "image_mset fst"] by simp
    then have "distinct (map fst (map_elements ?m1))"
      using mset_eq_imp_distinct_iff[of "map fst (map_elements ?m1)" "k # map fst (map_elements m)"] kn
        wf_mapD(2)[OF assms(2)] by simp
    moreover have "(k, None) \<in># mset (map_elements ?m1)" using e by simp
    ultimately show ?thesis using lookup_in[of "map_elements ?m1"] by simp
  qed
  obtain h2 where h2: "Initialize T (map_default_enum_value m) (Some p) ?h = Inr h2"
      "map_step (?m, ?h) (?m, h2) ((map_abs (?m, ?h))(k \<mapsto> subscript_value T m))"
  proof (cases "mt_enum T")
    case None
    have "map_abs (?m, ?h) k = Some (subscript_value T m)"
      using st1 c(4) None by (simp add: map_step_def subscript_value_def)
    then have "(map_abs (?m, ?h))(k \<mapsto> subscript_value T m) = map_abs (?m, ?h)" by (simp add: fun_upd_idem)
    then show ?thesis using that[of ?h] None map_step_refl[OF wf1] by (simp add: Initialize_def)
  next
    case (Some cast)
    show ?thesis using write_value_step[OF wf1 look, of "subscript_value T m"] that Some
      by (auto simp: Initialize_def put_second_def subscript_value_def)
  qed
  have "map_step (m, h) (?m, h2) ((map_abs (m, h))(k \<mapsto> subscript_value T m))"
    using map_step_trans[OF st1 h2(2)] st1 by (simp add: map_step_def)
  moreover have "Map_subscript T k (m, h) = Inr (Some p, ?m, h2)"
    using None fresh c(1) h2(1) by (simp add: Map_subscript_def)
  ultimately show ?thesis using ab look by auto
next
  case (Some q)
  then have "(k, q) \<in> set (map_elements m)" using lookup_in[OF wf_mapD(2)[OF assms(2)]] by blast
  then obtain p where "q = Some p" using assms(2) by (auto elim: pair_okD)
  moreover have "map_abs (m, h) k \<noteq> None" using map_abs_dom[OF assms(2)] Some by simp
  ultimately show ?thesis using Some map_step_refl[OF assms(2)] by (auto simp: Map_subscript_def)
qed

lemma Map_find_abs:
  assumes "wf_map (m, h)"
  shows "Map_find k m = (case map_abs (m, h) k of None \<Rightarrow> Map_end m | Some _ \<Rightarrow> Some k)"
    and "Map_count k m = (case map_abs (m, h) k of None \<Rightarrow> 0 | Some _ \<Rightarrow> 1)"
    and "Map_find k m = Map_end m \<longleftrightarrow> map_abs (m, h) k = None"
  using map_abs_dom[OF assms, of k]
  by (auto simp: Map_find_def Map_count_def Map_end_def split: option.splits)

lemma iter_deref_abs:
  assumes "wf_map (m, h)" and "map_abs (m, h) k = Some v"
  shows "iter_deref (Some k) (m, h) = Inr \<lparr>mp_first = k, mp_second = v\<rparr>"
proof -
  obtain q where q: "hm_lookup (map_elements m) k = Some q" using map_abs_dom[OF assms(1), of k] assms(2) by auto
  then have "(k, q) \<in> set (map_elements m)" using lookup_in[OF wf_mapD(2)[OF assms(1)]] by blast
  then show ?thesis using assms q
    by (auto elim!: pair_okD simp: iter_deref_def iter_ptr_def map_abs_def value_at_def)
qed

lemma Map_at_abs:
  assumes "wf_map (m, h)"
  shows "map_abs (m, h) k = None \<Longrightarrow> Map_at k (m, h) = Inl CheckFailed"
    and "map_abs (m, h) k = Some v \<Longrightarrow>
      \<exists>p. Map_at k (m, h) = Inr (Some p) \<and> hp_cells h p = Some \<lparr>mp_first = k, mp_second = v\<rparr>"
proof -
  show "map_abs (m, h) k = None \<Longrightarrow> Map_at k (m, h) = Inl CheckFailed"
    using Map_find_abs(3)[OF assms] by (simp add: Map_at_def check_def)
  assume v: "map_abs (m, h) k = Some v"
  then have f: "Map_find k m = Some k" using Map_find_abs(1)[OF assms] by simp
  show "\<exists>p. Map_at k (m, h) = Inr (Some p) \<and> hp_cells h p = Some \<lparr>mp_first = k, mp_second = v\<rparr>"
    using iter_deref_abs[OF assms v] f
    by (auto simp: Map_at_def check_def Map_end_def iter_deref_def bnd_eq_Inr hp_read_Inr)
qed

lemma Map_size_abs:
  assumes "wf_map (m, h)"
  shows "Map_size m = card (dom (map_abs (m, h)))" and "Map_empty m \<longleftrightarrow> map_abs (m, h) = Map.empty"
proof -
  have "x \<in> dom (map_abs (m, h)) \<longleftrightarrow> x \<in> fst ` set (map_elements m)" for x
    using map_abs_dom[OF assms, of x] lookup_none[of "map_elements m" x] unfolding domIff by simp
  then have dom: "dom (map_abs (m, h)) = fst ` set (map_elements m)" by blast
  then show "Map_size m = card (dom (map_abs (m, h)))"
    using distinct_card[OF wf_mapD(2)[OF assms]] by (simp add: Map_size_def)
  have "map_abs (m, h) = Map.empty \<longleftrightarrow> dom (map_abs (m, h)) = {}" by (simp only: dom_eq_empty_conv)
  then show "Map_empty m \<longleftrightarrow> map_abs (m, h) = Map.empty" using dom by (simp add: Map_empty_def)
qed

text \<open>\<open>m[k] = v\<close>.\<close>

definition Map_put :: "('k, 'v) map_traits \<Rightarrow> 'k \<Rightarrow> 'v option \<Rightarrow> ('k, 'v) map_state \<Rightarrow> ('k, 'v) map_state run" where
  "Map_put T k v st = bnd (Map_subscript T k st) (\<lambda>(p, m, h). bnd (assign_second p v h) (\<lambda>h. Inr (m, h)))"

lemma Map_put_step:
  assumes "place_ok T" and "wf_map st"
  shows "case v of None \<Rightarrow> Map_put T k v st = Inl Uninitialised
    | Some w \<Rightarrow> \<exists>st'. Map_put T k v st = Inr st' \<and> map_step st st' ((map_abs st)(k \<mapsto> v))"
proof -
  obtain m h where st: "st = (m, h)" by (cases st)
  obtain p m1 h1 where s1: "Map_subscript T k (m, h) = Inr (p, m1, h1)" "hm_lookup (map_elements m1) k = Some p"
      "map_step (m, h) (m1, h1) (case map_abs (m, h) k of None \<Rightarrow> (map_abs (m, h))(k \<mapsto> subscript_value T m)
       | Some _ \<Rightarrow> map_abs (m, h))"
    using Map_subscript_step[OF assms(1), of m h k] assms(2) st by auto
  then have wf1: "wf_map (m1, h1)" by (simp add: map_step_def)
  obtain h2 where h2: "put_second p v h1 = Inr h2" "map_step (m1, h1) (m1, h2) ((map_abs (m1, h1))(k \<mapsto> v))"
    using write_value_step[OF wf1 s1(2)] by blast
  have "(map_abs (m1, h1))(k \<mapsto> v) = (map_abs (m, h))(k \<mapsto> v)"
    using s1(3) by (auto simp: map_step_def fun_eq_iff split: option.splits)
  then show ?thesis using map_step_trans[OF s1(3) h2(2)] s1(1) h2(1) st by (auto simp: Map_put_def split: option.split)
qed

text \<open>\<open>insert\<close> copies the value only for a key that is not there.\<close>

lemma Map_insert_step:
  assumes "place_ok T" and "wf_map (m, h)"
  shows "if map_abs (m, h) (mp_first pair) = None \<and> mp_second pair = None
    then Map_insert T pair (m, h) = Inl Uninitialised
    else \<exists>st'. Map_insert T pair (m, h) = Inr ((Some (mp_first pair), map_abs (m, h) (mp_first pair) = None), st') \<and>
      map_step (m, h) st' (case map_abs (m, h) (mp_first pair) of
        None \<Rightarrow> (map_abs (m, h))(mp_first pair \<mapsto> mp_second pair) | Some _ \<Rightarrow> map_abs (m, h))"
proof (cases "map_abs (m, h) (mp_first pair)")
  case None
  show ?thesis
  proof (cases "mp_second pair")
    case sec: None
    then show ?thesis using None Map_find_abs(3)[OF assms(2), of "mp_first pair"]
      by (simp add: Map_insert_def CreateValueTypeInternal_value_def Let_def)
  next
    case (Some w)
    let ?pair = "\<lparr>mp_first = mp_first pair, mp_second = Some w\<rparr>"
    have look: "hm_lookup (map_elements m) (mp_first pair) = None" using None map_abs_dom[OF assms(2)] by simp
    obtain p h1 where n: "hp_new ?pair h = (p, h1)" by (cases "hp_new ?pair h")
    have "mset (mt_place T (mp_first pair, Some p) (map_elements m)) = add_mset (mp_first pair, Some p) (mset (map_elements m))"
      using assms(1) by (simp add: place_ok_def)
    from new_node_step[OF assms(2) look MapPair.select_convs(1) n this] None Some look n show ?thesis
      by (simp add: Map_insert_def Map_find_def Map_end_def CreateValueTypeInternal_value_def)
  qed
next
  case (Some v)
  then show ?thesis using map_step_refl[OF assms(2)] Map_find_abs(1)[OF assms(2), of "mp_first pair"]
    by (simp add: Map_insert_def Map_end_def)
qed

lemma Map_erase_key_step:
  assumes "wf_map (m, h)"
  shows "\<exists>st'. Map_erase_key k (m, h) = Inr (case map_abs (m, h) k of None \<Rightarrow> 0 | Some _ \<Rightarrow> 1, st') \<and>
    map_step (m, h) st' ((map_abs (m, h))(k := None))"
proof (cases "hm_lookup (map_elements m) k")
  case None
  then have "map_abs (m, h) k = None" using map_abs_dom[OF assms] by simp
  then show ?thesis using None map_step_refl[OF assms] by (simp add: Map_erase_key_def fun_upd_idem)
next
  case (Some q)
  then obtain v where "map_abs (m, h) k = Some v" using map_abs_dom[OF assms, of k] by auto
  then show ?thesis using Some erase_node_step[OF assms Some] by (auto simp: Map_erase_key_def)
qed

lemma Map_erase_step:
  assumes "wf_map (m, h)" and "map_abs (m, h) k = Some v"
  shows "\<exists>h'. Map_erase (Some k) (m, h) = Inr (m\<lparr>map_elements := hm_erase k (map_elements m)\<rparr>, h') \<and>
    map_step (m, h) (m\<lparr>map_elements := hm_erase k (map_elements m)\<rparr>, h') ((map_abs (m, h))(k := None))"
proof -
  obtain q where "hm_lookup (map_elements m) k = Some q" using map_abs_dom[OF assms(1), of k] assms(2) by auto
  from erase_node_step[OF assms(1) this] this show ?thesis by (auto simp: Map_erase_def iter_ptr_def)
qed

section \<open>Many nodes at a time\<close>

lemma hm_erase_first: "distinct (map fst (xs @ e # ys)) \<Longrightarrow> hm_erase (fst e) (xs @ e # ys) = xs @ ys"
proof -
  assume d: "distinct (map fst (xs @ e # ys))"
  have keep: "filter (\<lambda>x. fst x \<noteq> fst e) zs = zs" if "fst e \<notin> fst ` set zs" for zs
    unfolding filter_id_conv using that by (metis imageI)
  then show ?thesis using d keep[of xs] keep[of ys] by (simp add: hm_erase_def)
qed

text \<open>The iterator in front of the rest \<open>els\<close> of the nodes.\<close>

definition iter_at :: "('k \<times> nat option) list \<Rightarrow> 'k iter" where
  "iter_at els = (case els of [] \<Rightarrow> None | e # _ \<Rightarrow> Some (fst e))"

lemma hm_next_at: "distinct (map fst (xs @ e # ys)) \<Longrightarrow> hm_next (fst e) (xs @ e # ys) = iter_at ys"
  by (induction xs) (auto simp: iter_at_def split: list.splits)

lemma iter_at_inj:
  assumes "distinct (map fst (ys @ zs))" and "iter_at (ys @ zs) = iter_at zs"
  shows "ys = []"
  using assms by (cases ys; cases zs) (auto simp: iter_at_def)

text \<open>\<open>erase(first, last)\<close> ends, and takes exactly the nodes of the range.\<close>

lemma Map_erase_range_step:
  assumes "wf_map (m, h)" and "map_elements m = xs @ ys @ zs" and "length ys < fuel"
  shows "\<exists>st'. Map_erase_range fuel (iter_at (ys @ zs)) (iter_at zs) (m, h) = Some (Inr st') \<and>
    map_step (m, h) st' ((map_abs (m, h)) |` (- fst ` set ys)) \<and> map_elements (fst st') = xs @ zs"
  using assms
proof (induction ys arbitrary: m h fuel)
  case Nil
  then obtain f where "fuel = Suc f" by (cases fuel) auto
  then show ?case using map_step_refl[OF Nil.prems(1)] Nil.prems(2) by simp
next
  case (Cons e ys)
  then obtain f where f: "fuel = Suc f" "length ys < f" by (cases fuel) auto
  have dist: "distinct (map fst (xs @ e # ys @ zs))" using wf_mapD(2)[OF Cons.prems(1)] Cons.prems(2) by simp
  then have ne: "iter_at ((e # ys) @ zs) \<noteq> iter_at zs" using iter_at_inj[of "e # ys" zs] by auto
  have at: "iter_at (e # ys @ zs) = Some (fst e)" by (simp add: iter_at_def)
  have "hm_lookup (map_elements m) (fst e) \<noteq> None" using Cons.prems(2) by (simp add: lookup_none)
  then obtain v where v: "map_abs (m, h) (fst e) = Some v"
    using map_abs_dom[OF Cons.prems(1), of "fst e"] by auto
  have els: "hm_erase (fst e) (map_elements m) = xs @ ys @ zs" using hm_erase_first[OF dist] Cons.prems(2) by simp
  let ?m = "m\<lparr>map_elements := xs @ ys @ zs\<rparr>"
  obtain h1 where h1: "Map_erase (Some (fst e)) (m, h) = Inr (?m, h1)"
      "map_step (m, h) (?m, h1) ((map_abs (m, h))(fst e := None))"
    using Map_erase_step[OF Cons.prems(1) v] els by auto
  have wf1: "wf_map (?m, h1)" and abs1: "map_abs (?m, h1) = (map_abs (m, h))(fst e := None)"
    using h1(2) by (simp_all add: map_step_def)
  obtain st' where st': "Map_erase_range f (iter_at (ys @ zs)) (iter_at zs) (?m, h1) = Some (Inr st')"
      "map_step (?m, h1) st' ((map_abs (?m, h1)) |` (- fst ` set ys))" "map_elements (fst st') = xs @ zs"
    using Cons.IH[OF wf1 _ f(2)] by auto
  have "iter_next m (Some (fst e)) = iter_at (ys @ zs)"
    using hm_next_at[OF dist] Cons.prems(2) by (simp add: iter_next_def)
  then have "Map_erase_range fuel (iter_at ((e # ys) @ zs)) (iter_at zs) (m, h) = Some (Inr st')"
    using f(1) ne h1(1) st'(1) by (simp add: at)
  moreover have "(map_abs (?m, h1)) |` (- fst ` set ys) = (map_abs (m, h)) |` (- fst ` set (e # ys))"
    using abs1 by (auto simp: restrict_map_def fun_eq_iff)
  ultimately show ?case using map_step_trans[OF h1(2) st'(2)] st'(3) by auto
qed

text \<open>\<open>clear\<close> deletes the pairs first and the nodes then.\<close>

lemma clear_loop_step:
  assumes "wf_map (m, h)"
  shows "\<exists>h'. for_each (\<lambda>e h. delete_pair (map_arena m) (snd e) h) (map_elements m) h = Inr h' \<and>
    map_step (m, h) (m\<lparr>map_elements := []\<rparr>, h') Map.empty"
  using assms
proof (induction "map_elements m" arbitrary: m h)
  case Nil
  then have els: "map_elements m = []" by simp
  then have ab: "map_abs (m, h) = Map.empty" by (simp add: map_abs_def hm_lookup_def fun_eq_iff)
  have same: "m\<lparr>map_elements := []\<rparr> = m" using els by (cases m) simp
  have "map_step (m, h) (m\<lparr>map_elements := []\<rparr>, h) Map.empty"
    unfolding same using map_step_refl[OF Nil.prems] unfolding ab .
  then show ?case using els by auto
next
  case (Cons e els)
  let ?m = "m\<lparr>map_elements := els\<rparr>"
  have dist: "distinct (map fst ([] @ e # els))" using wf_mapD(2)[OF Cons.prems] Cons.hyps(2) by simp
  have "hm_lookup (map_elements m) (fst e) = Some (snd e)" by (simp add: hm_lookup_def flip: Cons.hyps(2))
  from erase_node_step[OF Cons.prems this]
  obtain h1 where h1: "delete_pair (map_arena m) (snd e) h = Inr h1"
      "map_step (m, h) (?m, h1) ((map_abs (m, h))(fst e := None))"
    using hm_erase_first[OF dist] Cons.hyps(2) by auto
  have "wf_map (?m, h1)" using h1(2) by (simp add: map_step_def)
  from Cons.hyps(1)[of ?m h1] this
  obtain h' where h': "for_each (\<lambda>e h. delete_pair (map_arena m) (snd e) h) els h1 = Inr h'"
      "map_step (?m, h1) (m\<lparr>map_elements := []\<rparr>, h') Map.empty"
    by auto
  then show ?case using h1(1) map_step_trans[OF h1(2) h'(2)] by (simp flip: Cons.hyps(2))
qed

lemma Map_clear_step:
  "wf_map (m, h) \<Longrightarrow> \<exists>h'. Map_clear (m, h) = Inr (m\<lparr>map_elements := []\<rparr>, h') \<and>
     map_step (m, h) (m\<lparr>map_elements := []\<rparr>, h') Map.empty"
  using clear_loop_step[of m h] by (auto simp: Map_clear_def)

lemma insert_item_step:
  assumes "place_ok T" and "wf_map st"
  shows "if map_abs st (mp_first v) = None \<and> mp_second v = None then insert_item T v st = Inl Uninitialised
    else \<exists>st'. insert_item T v st = Inr st' \<and>
      map_step st st' (if map_abs st (mp_first v) = None then (map_abs st)(mp_first v \<mapsto> mp_second v) else map_abs st)"
proof -
  obtain m h where st: "st = (m, h)" by (cases st)
  have "insert_item T v (m, h) = (if map_abs (m, h) (mp_first v) = None
      then Map_put T (mp_first v) (mp_second v) (m, h) else Inr (m, h))"
    using Map_find_abs(3)[of m h "mp_first v"] assms(2) st by (simp add: insert_item_def Map_put_def)
  then show ?thesis using Map_put_step[OF assms, of "mp_first v" "mp_second v"] map_step_refl[OF assms(2)] st
    by (auto split: option.splits)
qed

text \<open>Inserting a range: the first pair of a key counts, and a key that is there keeps its value.\<close>

definition pairs_map :: "('k, 'v) MapPair list \<Rightarrow> 'k \<Rightarrow> 'v option option" where
  "pairs_map vs = map_of (map (\<lambda>v. (mp_first v, mp_second v)) vs)"

text \<open>The range is inserted unless it would copy an indeterminate value: that of the first pair of a new
  key.\<close>

definition copies_indeterminate :: "('k, 'v) MapPair list \<Rightarrow> ('k \<Rightarrow> 'v option option) \<Rightarrow> bool" where
  "copies_indeterminate vs F \<longleftrightarrow> (\<exists>k. F k = None \<and> pairs_map vs k = Some None)"

lemma copies_indeterminate_Nil [simp]: "\<not> copies_indeterminate [] F"
  by (simp add: copies_indeterminate_def pairs_map_def)

lemma copies_indeterminate_Cons:
  "copies_indeterminate (v # vs) F \<longleftrightarrow> (if F (mp_first v) = None
     then mp_second v = None \<or> copies_indeterminate vs (F(mp_first v \<mapsto> mp_second v))
     else copies_indeterminate vs F)"
proof (cases "F (mp_first v)")
  case None
  then show ?thesis by (auto simp: copies_indeterminate_def pairs_map_def)
next
  case (Some w)
  then have "(F k = None \<and> pairs_map (v # vs) k = Some None) = (F k = None \<and> pairs_map vs k = Some None)" for k
    by (auto simp: pairs_map_def)
  then show ?thesis using Some by (simp add: copies_indeterminate_def)
qed

lemma Map_insert_range_step:
  assumes "place_ok T" and "wf_map st"
  shows "if copies_indeterminate vs (map_abs st) then Map_insert_range T vs st = Inl Uninitialised
    else \<exists>st'. Map_insert_range T vs st = Inr st' \<and> map_step st st' (pairs_map vs ++ map_abs st)"
  using assms(2)
proof (induction vs arbitrary: st)
  case Nil
  then show ?case using map_step_refl[OF Nil] by (simp add: Map_insert_range_def pairs_map_def)
next
  case (Cons v vs)
  let ?F = "if map_abs st (mp_first v) = None then (map_abs st)(mp_first v \<mapsto> mp_second v) else map_abs st"
  show ?case
  proof (cases "map_abs st (mp_first v) = None \<and> mp_second v = None")
    case True
    then show ?thesis using insert_item_step[OF assms(1) Cons.prems, of v]
      by (simp add: Map_insert_range_def copies_indeterminate_Cons)
  next
    case False
    obtain st1 where st1: "insert_item T v st = Inr st1" "map_step st st1 ?F"
      using insert_item_step[OF assms(1) Cons.prems, of v] False by (auto split: if_splits)
    then have wf1: "wf_map st1" and ab1: "map_abs st1 = ?F" by (simp_all add: map_step_def)
    have ind: "copies_indeterminate (v # vs) (map_abs st) \<longleftrightarrow> copies_indeterminate vs ?F"
      using False by (auto simp: copies_indeterminate_Cons)
    have run: "Map_insert_range T (v # vs) st = Map_insert_range T vs st1"
      using st1(1) by (simp add: Map_insert_range_def)
    have "pairs_map vs ++ ?F = pairs_map (v # vs) ++ map_abs st"
      by (auto simp: pairs_map_def map_add_def fun_eq_iff split: option.splits)
    then have eq: "pairs_map vs ++ map_abs st1 = pairs_map (v # vs) ++ map_abs st" using ab1 by simp
    show ?thesis using Cons.IH[OF wf1] map_step_trans[OF st1(2)]
      unfolding ind run eq ab1[symmetric] by (auto split: if_split_asm)
  qed
qed

section \<open>Two maps\<close>

text \<open>A step of one map leaves another one alone.\<close>

lemma other_map_kept:
  assumes "wf_map (oth, h)" and "map_step (m, h) (m', h') f" and "map_ptrs oth \<inter> map_ptrs m = {}"
  shows "wf_map (oth, h')" and "map_abs (oth, h') = map_abs (oth, h)" and "map_ptrs oth \<inter> map_ptrs m' = {}"
    and "pairs_at (map_elements oth) h' = pairs_at (map_elements oth) h"
proof -
  note st = assms(2)[unfolded map_step_def fst_conv snd_conv]
  have ptr: "p \<notin> map_ptrs m' \<and> hp_cells h' p = hp_cells h p" if "p \<in> map_ptrs oth" for p
    using that assms(3) wf_mapD(3)[OF assms(1)] st by blast
  have kept: "held (map_arena oth) h' p" if p: "p \<in> map_ptrs oth" "held (map_arena oth) h p" for p
  proof (cases "map_arena oth")
    case None
    have "p \<in> live h - owned h - map_ptrs m" using p None assms(3) wf_mapD(3)[OF assms(1)] by auto
    then have "p \<notin> owned h'" using st by (auto simp: map_loose_def)
    then show ?thesis using None by simp
  next
    case (Some a)
    then show ?thesis using p(2) st by auto
  qed
  have ok: "pair_ok (map_arena oth) h' k q" "value_at h' q = value_at h q" "hp_read q h' = hp_read q h"
    if kq: "(k, q) \<in> set (map_elements oth)" for k q
  proof -
    obtain p pr where p: "q = Some p" "hp_cells h p = Some pr" "mp_first pr = k" "held (map_arena oth) h p"
      using assms(1) kq by (rule pair_okD)
    then have pin: "p \<in> map_ptrs oth" using kq by (auto simp: in_map_ptrs)
    then show "pair_ok (map_arena oth) h' k q" using ptr[OF pin] kept[OF pin] p by (simp add: pair_ok_def)
    show "value_at h' q = value_at h q" "hp_read q h' = hp_read q h"
      using ptr[OF pin] p by (simp_all add: value_at_def hp_read_def)
  qed
  show "wf_map (oth, h')" using ok(1) wf_mapD(2)[OF assms(1)] wf_mapD(1) st by (fastforce simp: wf_map_def)
  show "map_ptrs oth \<inter> map_ptrs m' = {}" using ptr by blast
  show "map_abs (oth, h') = map_abs (oth, h)"
  proof
    fix k
    show "map_abs (oth, h') k = map_abs (oth, h) k"
    proof (cases "hm_lookup (map_elements oth) k")
      case (Some q)
      then have "(k, q) \<in> set (map_elements oth)" using lookup_in[OF wf_mapD(2)[OF assms(1)]] by blast
      then show ?thesis using ok(2) Some by (simp add: map_abs_def)
    qed (simp add: map_abs_def)
  qed
  have "pairs_at els h' = pairs_at els h" if "set els \<subseteq> set (map_elements oth)" for els
    using that ok(3) by (induction els) (auto intro!: bnd_cong)
  then show "pairs_at (map_elements oth) h' = pairs_at (map_elements oth) h" by blast
qed

lemma pairs_at_map:
  assumes "wf_map (m, h)"
  shows "\<exists>vs. pairs_at (map_elements m) h = Inr vs \<and> pairs_map vs = map_abs (m, h)"
proof -
  have "\<exists>vs. pairs_at els h = Inr vs \<and> (\<forall>k. pairs_map vs k = Option.bind (hm_lookup els k) (value_at h))"
    if "set els \<subseteq> set (map_elements m)" for els
    using that
  proof (induction els)
    case Nil
    then show ?case by (simp add: pairs_map_def hm_lookup_def)
  next
    case (Cons e els)
    then obtain vs where vs: "pairs_at els h = Inr vs" "\<forall>k. pairs_map vs k = Option.bind (hm_lookup els k) (value_at h)"
      by auto
    have "(fst e, snd e) \<in> set (map_elements m)" using Cons.prems by simp
    then obtain p pr where "snd e = Some p" "hp_cells h p = Some pr" "mp_first pr = fst e"
      using assms by (blast elim: pair_okD)
    then show ?case using vs by (simp add: pairs_map_def hm_lookup_def)
  qed
  from this[of "map_elements m"] show ?thesis by (auto simp: map_abs_def fun_eq_iff)
qed

lemma wf_Map_new: "wf_heap h \<Longrightarrow> wf_map (Map_new arena, h)" and Map_new_abs [simp]: "map_abs (Map_new arena, h) = Map.empty"
  by (simp_all add: wf_map_def Map_new_def map_abs_def hm_lookup_def fun_eq_iff)

lemma map_ptrs_new [simp]: "map_ptrs (Map_new arena) = {}" "map_ptrs ((Map_new arena)\<lparr>map_default_enum_value := v\<rparr>) = {}"
  by (simp_all add: map_ptrs_def Map_new_def)

text \<open>A map with an indeterminate value cannot be copied.\<close>

definition indeterminate :: "('k \<Rightarrow> 'v option option) \<Rightarrow> bool" where
  "indeterminate F \<longleftrightarrow> (\<exists>k. F k = Some None)"

lemma copies_indeterminate_empty [simp]: "copies_indeterminate vs Map.empty \<longleftrightarrow> indeterminate (pairs_map vs)"
  by (simp add: copies_indeterminate_def indeterminate_def)

lemma determinateD: "\<not> indeterminate F \<Longrightarrow> F k = Some v \<Longrightarrow> v \<noteq> None"
  by (cases v) (auto simp: indeterminate_def)

lemma Map_copy_step:
  assumes "place_ok T" and "wf_map (oth, h)"
  shows "if indeterminate (map_abs (oth, h)) then Map_copy T oth h = Inl Uninitialised
    else \<exists>m' h'. Map_copy T oth h = Inr (m', h') \<and> wf_map (m', h') \<and> wf_map (oth, h') \<and>
      map_abs (m', h') = map_abs (oth, h) \<and> map_abs (oth, h') = map_abs (oth, h) \<and> map_ptrs oth \<inter> map_ptrs m' = {} \<and>
      map_default_enum_value m' = map_default_enum_value oth \<and> map_arena m' = None"
proof -
  let ?m = "(Map_new None)\<lparr>map_default_enum_value := map_default_enum_value oth\<rparr>"
  have wf: "wf_map (?m, h)" and ab: "map_abs (?m, h) = Map.empty"
    using wf_mapD(1)[OF assms(2)] by (simp_all add: wf_map_def Map_new_def map_abs_def hm_lookup_def fun_eq_iff)
  obtain vs where vs: "pairs_at (map_elements oth) h = Inr vs" "pairs_map vs = map_abs (oth, h)"
    using pairs_at_map[OF assms(2)] by blast
  note ins = Map_insert_range_step[OF assms(1) wf, of vs, unfolded ab copies_indeterminate_empty]
  show ?thesis
  proof (cases "indeterminate (map_abs (oth, h))")
    case True
    then show ?thesis using ins vs by (simp add: Map_copy_def)
  next
    case False
    then obtain m' h' where st: "Map_insert_range T vs (?m, h) = Inr (m', h')"
        "map_step (?m, h) (m', h') (pairs_map vs ++ Map.empty)"
      using ins vs(2) by auto
    have "map_ptrs oth \<inter> map_ptrs ?m = {}" by simp
    note kept = other_map_kept[OF assms(2) st(2) this]
    show ?thesis
      using False st vs kept by (simp add: Map_copy_def map_step_def) (simp add: Map_new_def)
  qed
qed

lemma Map_assign_step:
  assumes "place_ok T" and "wf_map (m, h)" and "wf_map (oth, h)" and "map_ptrs oth \<inter> map_ptrs m = {}"
  shows "if indeterminate (map_abs (oth, h)) then Map_assign T (Some oth) (m, h) = Inl Uninitialised
    else \<exists>m' h'. Map_assign T (Some oth) (m, h) = Inr (m', h') \<and> map_step (m, h) (m', h') (map_abs (oth, h)) \<and>
      wf_map (oth, h') \<and> map_abs (oth, h') = map_abs (oth, h)"
proof -
  let ?m = "m\<lparr>map_elements := []\<rparr>"
  obtain h1 where c: "Map_clear (m, h) = Inr (?m, h1)" "map_step (m, h) (?m, h1) Map.empty"
    using Map_clear_step[OF assms(2)] by blast
  note k1 = other_map_kept[OF assms(3) c(2) assms(4)]
  obtain vs where vs: "pairs_at (map_elements oth) h1 = Inr vs" "pairs_map vs = map_abs (oth, h1)"
    using pairs_at_map[OF k1(1)] by blast
  have wf1: "wf_map (?m, h1)" and ab1: "map_abs (?m, h1) = Map.empty" using c(2) by (simp_all add: map_step_def)
  note ins = Map_insert_range_step[OF assms(1) wf1, of vs, unfolded ab1 copies_indeterminate_empty]
  show ?thesis
  proof (cases "indeterminate (map_abs (oth, h))")
    case True
    then show ?thesis using ins vs k1(2) c(1) by (simp add: Map_assign_def)
  next
    case False
    then obtain m' h' where st: "Map_insert_range T vs (?m, h1) = Inr (m', h')" "map_step (?m, h1) (m', h') (pairs_map vs)"
      using ins vs(2) k1(2) by auto
    note k2 = other_map_kept[OF k1(1) st(2) k1(3)]
    have "map_step (m, h) (m', h') (map_abs (oth, h))" using map_step_trans[OF c(2) st(2)] vs(2) k1(2) by simp
    then show ?thesis using False c(1) vs(1) st(1) k1 k2 by (simp add: Map_assign_def)
  qed
qed

section \<open>Assigning to a container key by key\<close>

text \<open>What a loop of assignments \<open>m[k] = v\<close> relies on. \<open>rel\<close> is what a step guarantees of the rest of the
  state; only a \<open>legal\<close> value can be assigned.\<close>

locale assignable =
  fixes wf :: "'s \<Rightarrow> bool" and mapping_of :: "'s \<Rightarrow> 'k \<Rightarrow> 'v option" and rel :: "'s \<Rightarrow> 's \<Rightarrow> bool"
    and put :: "'k \<Rightarrow> 'v \<Rightarrow> 's \<Rightarrow> 's run" and legal :: "'v \<Rightarrow> bool"
  assumes rel_refl: "wf s \<Longrightarrow> rel s s"
    and rel_trans: "rel s t \<Longrightarrow> rel t u \<Longrightarrow> rel s u"
    and put_ok: "wf s \<Longrightarrow> legal v \<Longrightarrow> \<exists>t. put k v s = Inr t \<and> wf t \<and> rel s t \<and> mapping_of t = (mapping_of s)(k \<mapsto> v)"
begin

lemma put_all_ok:
  assumes "wf s" and "\<forall>v \<in> snd ` set kvs. legal v"
  shows "\<exists>t. for_each (\<lambda>(k, v). put k v) kvs s = Inr t \<and> wf t \<and> rel s t \<and> mapping_of t = mapping_of s ++ map_of (rev kvs)"
  using assms
proof (induction kvs arbitrary: s)
  case Nil
  then show ?case using rel_refl by auto
next
  case (Cons e kvs)
  obtain k v where e: "e = (k, v)" by (cases e)
  obtain s1 where s1: "put k v s = Inr s1" "wf s1" "rel s s1" "mapping_of s1 = (mapping_of s)(k \<mapsto> v)"
    using put_ok[OF Cons.prems(1), of v k] Cons.prems(2) e by auto
  obtain t where t: "for_each (\<lambda>(k, v). put k v) kvs s1 = Inr t" "wf t" "rel s1 t" "mapping_of t = mapping_of s1 ++ map_of (rev kvs)"
    using Cons.IH[OF s1(2)] Cons.prems(2) by auto
  have "for_each (\<lambda>(k, v). put k v) (e # kvs) s = Inr t" using e s1(1) t(1) by simp
  moreover have "mapping_of t = mapping_of s ++ map_of (rev (e # kvs))" using e s1(4) t(4) by simp
  ultimately show ?case using t(2) rel_trans[OF s1(3) t(3)] by blast
qed

text \<open>Only the last value of a key counts; what is not mentioned stays.\<close>

lemma put_all_last:
  assumes "wf s" and "\<forall>v \<in> snd ` set kvs. legal v" and "for_each (\<lambda>(k, v). put k v) kvs s = Inr t"
  shows "mapping_of t k = (case map_of (rev kvs) k of None \<Rightarrow> mapping_of s k | Some v \<Rightarrow> Some v)"
proof -
  obtain t' where "for_each (\<lambda>(k, v). put k v) kvs s = Inr t'" "mapping_of t' = mapping_of s ++ map_of (rev kvs)"
    using put_all_ok[OF assms(1,2)] by blast
  then show ?thesis using assms(3) by (auto simp: map_add_def)
qed

end

definition kept_rest :: "('k, 'v) map_state \<Rightarrow> ('k, 'v) map_state \<Rightarrow> bool" where
  "kept_rest st st' \<longleftrightarrow> map_step st st' (map_abs st')"

lemma kept_restI: "map_step st st' f \<Longrightarrow> kept_rest st st' \<and> wf_map st' \<and> map_abs st' = f"
  by (simp add: kept_rest_def map_step_def)

interpretation pm: assignable "\<lambda>st. place_ok T \<and> wf_map st" map_abs kept_rest "Map_put T" "\<lambda>v. v \<noteq> None" for T :: "('k, 'v) map_traits"
proof unfold_locales
  fix st t u :: "('k, 'v) map_state" and k and v :: "'v option"
  show "place_ok T \<and> wf_map st \<Longrightarrow> kept_rest st st" using map_step_refl[of st] by (simp add: kept_rest_def)
  show "kept_rest st t \<Longrightarrow> kept_rest t u \<Longrightarrow> kept_rest st u"
    unfolding kept_rest_def by (rule map_step_trans)
  assume "place_ok T \<and> wf_map st" and "v \<noteq> None"
  then obtain w where ok: "place_ok T" "wf_map st" and v: "v = Some w" by blast
  show "\<exists>t. Map_put T k v st = Inr t \<and> (place_ok T \<and> wf_map t) \<and> kept_rest st t \<and> map_abs t = (map_abs st)(k \<mapsto> v)"
    using Map_put_step[OF ok, of k "Some w", unfolded option.case] kept_restI ok(1) unfolding v by blast
qed

lemma Map_put_all:
  assumes "place_ok T" and "wf_map st" and "None \<notin> snd ` set kvs"
  shows "\<exists>t. for_each (\<lambda>(k, v). Map_put T k v) kvs st = Inr t \<and> map_step st t (map_abs st ++ map_of (rev kvs))"
proof -
  have "\<forall>v \<in> snd ` set kvs. v \<noteq> None" using assms(3) by metis
  from pm.put_all_ok[OF conjI[OF assms(1,2)] this] show ?thesis by (auto simp: kept_rest_def)
qed

lemma Map_put_all_fault:
  assumes "place_ok T" and "wf_map st" and "None \<in> snd ` set kvs"
  shows "for_each (\<lambda>(k, v). Map_put T k v) kvs st = Inl Uninitialised"
  using assms(2,3)
proof (induction kvs arbitrary: st)
  case (Cons e kvs)
  obtain k v where e: "e = (k, v)" by (cases e)
  show ?case
  proof (cases v)
    case None
    then show ?thesis using Map_put_step[OF assms(1) Cons.prems(1), of k v] e by simp
  next
    case (Some w)
    then obtain st1 where "Map_put T k v st = Inr st1" "map_step st st1 ((map_abs st)(k \<mapsto> v))"
      using Map_put_step[OF assms(1) Cons.prems(1), of k v] by auto
    then show ?thesis using Cons.IH[of st1] Cons.prems(2) e Some by (simp add: map_step_def)
  qed
qed simp

section \<open>The contract of the map\<close>

text \<open>C32: the map is a finite map. \<open>operator[]\<close> finds the value, and for a new key it makes one: the
  default of the field where the value is an enum, \<open>T()\<close> for any other type where the map has no arena,
  and on an arena what \<open>new (ptr) T\<close> leaves, which for a class is its default object and for a scalar
  is indeterminate. Assigning a value through it, \<open>insert\<close>, \<open>erase\<close>, \<open>clear\<close> and inserting a range change that
  finite map as named, and the two inserts read an indeterminate value, which C++ leaves undefined, exactly
  where they would copy one to a new key. \<open>find\<close>, \<open>count\<close>, \<open>at\<close>, \<open>size\<close> and \<open>empty\<close> answer from it; no
  step touches a pair after its deletion, leaves one behind or changes memory that is not the map's, and
  the destructor leaves none of its pairs.\<close>

theorem Map_refines_finite_map:
  assumes "place_ok T" and "wf_map (m, h)"
  shows "(\<exists>p st'. Map_subscript T k (m, h) = Inr (p, st') \<and> hm_lookup (map_elements (fst st')) k = Some p \<and>
       map_step (m, h) st' (case map_abs (m, h) k of
           None \<Rightarrow> (map_abs (m, h))(k \<mapsto> (case mt_enum T of
               Some cast \<Rightarrow> Some (cast (map_default_enum_value m))
             | None \<Rightarrow> if map_arena m = None then Some (mt_value T) else mt_raw T))
         | Some _ \<Rightarrow> map_abs (m, h))) \<and>
    (\<exists>st'. Map_put T k (Some x) (m, h) = Inr st' \<and> map_step (m, h) st' ((map_abs (m, h))(k \<mapsto> Some x))) \<and>
    (if map_abs (m, h) k = None \<and> v = None
     then Map_insert T \<lparr>mp_first = k, mp_second = v\<rparr> (m, h) = Inl Uninitialised
     else \<exists>st'. Map_insert T \<lparr>mp_first = k, mp_second = v\<rparr> (m, h) = Inr ((Some k, map_abs (m, h) k = None), st') \<and>
       map_step (m, h) st' (case map_abs (m, h) k of None \<Rightarrow> (map_abs (m, h))(k \<mapsto> v) | Some _ \<Rightarrow> map_abs (m, h))) \<and>
    (if \<exists>j. map_abs (m, h) j = None \<and> pairs_map vs j = Some None
     then Map_insert_range T vs (m, h) = Inl Uninitialised
     else \<exists>st'. Map_insert_range T vs (m, h) = Inr st' \<and> map_step (m, h) st' (pairs_map vs ++ map_abs (m, h))) \<and>
    (\<exists>st'. Map_erase_key k (m, h) = Inr (case map_abs (m, h) k of None \<Rightarrow> 0 | Some _ \<Rightarrow> 1, st') \<and>
       map_step (m, h) st' ((map_abs (m, h))(k := None))) \<and>
    (\<exists>m' h'. Map_destruct (m, h) = Inr (m', h') \<and> map_step (m, h) (m', h') Map.empty \<and>
       live h' - owned h' = map_loose (m, h)) \<and>
    Map_find k m = (case map_abs (m, h) k of None \<Rightarrow> Map_end m | Some _ \<Rightarrow> Some k) \<and>
    Map_count k m = (case map_abs (m, h) k of None \<Rightarrow> 0 | Some _ \<Rightarrow> 1) \<and>
    (case map_abs (m, h) k of
       None \<Rightarrow> Map_at k (m, h) = Inl CheckFailed
     | Some w \<Rightarrow> (\<exists>p. Map_at k (m, h) = Inr (Some p) \<and> hp_cells h p = Some \<lparr>mp_first = k, mp_second = w\<rparr>) \<and>
         iter_deref (Some k) (m, h) = Inr \<lparr>mp_first = k, mp_second = w\<rparr>) \<and>
    Map_size m = card (dom (map_abs (m, h))) \<and> (Map_empty m \<longleftrightarrow> map_abs (m, h) = Map.empty)"
proof -
  have "\<exists>m' h'. Map_destruct (m, h) = Inr (m', h') \<and> map_step (m, h) (m', h') Map.empty \<and>
       live h' - owned h' = map_loose (m, h)"
    using Map_clear_step[OF assms(2)] by (auto simp: Map_destruct_def map_step_def map_loose_def map_ptrs_def)
  moreover have "case map_abs (m, h) k of
       None \<Rightarrow> Map_at k (m, h) = Inl CheckFailed
     | Some w \<Rightarrow> (\<exists>p. Map_at k (m, h) = Inr (Some p) \<and> hp_cells h p = Some \<lparr>mp_first = k, mp_second = w\<rparr>) \<and>
         iter_deref (Some k) (m, h) = Inr \<lparr>mp_first = k, mp_second = w\<rparr>"
    using Map_at_abs[OF assms(2)] iter_deref_abs[OF assms(2)] by (auto split: option.splits)
  ultimately show ?thesis
    using Map_insert_step[OF assms, of "\<lparr>mp_first = k, mp_second = v\<rparr>", unfolded MapPair.select_convs]
    by (intro conjI Map_subscript_step[OF assms, unfolded subscript_value_def]
        Map_put_step[OF assms, of k "Some x", unfolded option.case]
        Map_insert_range_step[OF assms, unfolded copies_indeterminate_def] Map_erase_key_step[OF assms(2)] Map_find_abs[OF assms(2)] Map_size_abs[OF assms(2)])
qed

text \<open>A map from numbers to numbers with one pair, and its traits.\<close>

definition nat_traits :: "(nat, nat) map_traits" where
  "nat_traits = \<lparr>mt_value = 0, mt_raw = None, mt_enum = None, mt_place = (#)\<rparr>"

definition one_pair :: "nat Map" where
  "one_pair = \<lparr>map_arena = None, map_elements = [(7, Some 0)], map_default_enum_value = 0\<rparr>"

definition one_heap :: "(nat, nat) MapPair heap" where
  "one_heap = snd (hp_new \<lparr>mp_first = 7, mp_second = Some 5\<rparr> hp_empty)"

lemma one_map_ok: "place_ok nat_traits" "wf_map (one_pair, one_heap)" "map_abs (one_pair, one_heap) = [7 \<mapsto> Some 5]"
  by (simp_all add: place_ok_def nat_traits_def one_pair_def one_heap_def wf_map_def pair_ok_def hp_new_def hp_empty_def
      wf_heap_def live_def owned_def map_abs_def hm_lookup_def fun_eq_iff)

theorem Map_refines_finite_map_witness:
  "\<exists>st'. Map_put nat_traits 8 (Some 1) (one_pair, one_heap) = Inr st' \<and>
     map_step (one_pair, one_heap) st' [7 \<mapsto> Some 5, 8 \<mapsto> Some 1]"
  using Map_refines_finite_map[OF one_map_ok(1,2), of 8 1 None "[]", THEN conjunct2, THEN conjunct1] one_map_ok(3)
  by simp

text \<open>C33: \<open>erase(first, last)\<close> ends, after at most as many rounds as the range has nodes and one more, has
  removed exactly the keys of the range, and the nodes before and behind it are as they were.\<close>

theorem Map_erase_range_ends:
  assumes "wf_map (m, h)" and "map_elements m = xs @ ys @ zs" and "length ys < fuel"
  shows "\<exists>st'. Map_erase_range fuel (iter_at (ys @ zs)) (iter_at zs) (m, h) = Some (Inr st') \<and>
    map_step (m, h) st' ((map_abs (m, h)) |` (- fst ` set ys)) \<and> map_elements (fst st') = xs @ zs"
  by (rule Map_erase_range_step[OF assms])

theorem Map_erase_range_ends_witness:
  "\<exists>st'. Map_erase_range 2 (Some 7) None (one_pair, one_heap) = Some (Inr st') \<and> map_elements (fst st') = []"
proof -
  have els: "map_elements one_pair = [] @ [(7, Some 0)] @ []" by (simp add: one_pair_def)
  show ?thesis using Map_erase_range_ends[OF one_map_ok(2) els, of 2] by (auto simp: iter_at_def)
qed

text \<open>Copying and assigning: the copy stands for the same finite map in pairs of its own, the
  original keeps its own, and the pairs the target had are deleted. Both read every value of the original,
  and so an indeterminate one if it has one.\<close>

theorem Map_copies:
  assumes "place_ok T" and "wf_map (oth, h)"
  shows "(if indeterminate (map_abs (oth, h)) then Map_copy T oth h = Inl Uninitialised
     else \<exists>m' h'. Map_copy T oth h = Inr (m', h') \<and> wf_map (m', h') \<and> wf_map (oth, h') \<and>
      map_abs (m', h') = map_abs (oth, h) \<and> map_abs (oth, h') = map_abs (oth, h) \<and> map_ptrs oth \<inter> map_ptrs m' = {} \<and>
      map_default_enum_value m' = map_default_enum_value oth \<and> map_arena m' = None) \<and>
    (\<forall>m. wf_map (m, h) \<and> map_ptrs oth \<inter> map_ptrs m = {} \<longrightarrow>
      (if indeterminate (map_abs (oth, h)) then Map_assign T (Some oth) (m, h) = Inl Uninitialised
       else \<exists>m' h'. Map_assign T (Some oth) (m, h) = Inr (m', h') \<and> map_step (m, h) (m', h') (map_abs (oth, h)) \<and>
         wf_map (oth, h') \<and> map_abs (oth, h') = map_abs (oth, h)))"
proof (intro conjI allI impI)
  fix m :: "'a Map"
  assume "wf_map (m, h) \<and> map_ptrs oth \<inter> map_ptrs m = {}"
  then show "if indeterminate (map_abs (oth, h)) then Map_assign T (Some oth) (m, h) = Inl Uninitialised
       else \<exists>m' h'. Map_assign T (Some oth) (m, h) = Inr (m', h') \<and> map_step (m, h) (m', h') (map_abs (oth, h)) \<and>
         wf_map (oth, h') \<and> map_abs (oth, h') = map_abs (oth, h)"
    by (intro Map_assign_step[OF assms(1) _ assms(2)]) simp_all
qed (rule Map_copy_step[OF assms])

theorem Map_copies_witness:
  "\<exists>m' h'. Map_copy nat_traits one_pair one_heap = Inr (m', h') \<and> map_abs (m', h') = [7 \<mapsto> Some 5]"
  using Map_copies[OF one_map_ok(1,2), THEN conjunct1] one_map_ok(3) by (auto simp: indeterminate_def split: if_split_asm)

text \<open>On an arena the value of a new key of scalar type is not initialised: \<open>new (ptr) T\<close> leaves the
  storage as it is, where without an arena \<open>second()\<close> makes it zero.\<close>

lemma subscript_on_arena_indeterminate:
  assumes "place_ok T" and "wf_map (m, h)" and "map_arena m = Some a" and "mt_enum T = None" and "mt_raw T = None"
    and "map_abs (m, h) k = None"
  shows "\<exists>p m' h'. Map_subscript T k (m, h) = Inr (p, m', h') \<and> read_second p h' = Inl Uninitialised"
proof -
  obtain p m' h' where s: "Map_subscript T k (m, h) = Inr (p, m', h')" "hm_lookup (map_elements m') k = Some p"
      "map_step (m, h) (m', h') ((map_abs (m, h))(k \<mapsto> subscript_value T m))"
    using Map_subscript_step[OF assms(1,2), of k] assms(6) by auto
  then have "wf_map (m', h')" "map_abs (m', h') k = Some None"
    using assms(3-5) by (simp_all add: map_step_def subscript_value_def)
  from iter_deref_abs[OF this] s show ?thesis
    by (auto simp: iter_deref_def iter_ptr_def read_second_def)
qed

end
