(* ===== verification/PbMapEntry.thy ===== *)
theory PbMapEntry
  imports PbParse PbMap
begin

text \<open>
  Map fields: \<open>MapTypeHandler\<close> of \<open>include/google/protobuf/map_type_handler.h\<close>, what a map knows of its
  key and value types; and \<open>MapEntryLite\<close> of \<open>map_entry_lite.h\<close>, the message of one key and one value that
  carries a pair over the wire. Shown: what a type handler writes it reads back; an entry is parsed
  whatever the order, the repetitions and the unknown fields; and a pair is read back as written.
\<close>

section \<open>The library behind it\<close>

text \<open>Functions that \<open>wire_format_lite.cc\<close> defines: \<open>ReadBytes\<close> into an existing string, \<open>SkipField\<close>,
  and the writers of whole fields to a stream.\<close>

record ('z, 'o) wire_lib =
  wl_ReadBytes :: "'z CodedInputStream \<Rightarrow> 8 word list \<Rightarrow> (bool \<times> 8 word list) \<times> 'z CodedInputStream"
  wl_SkipField :: "'z CodedInputStream \<Rightarrow> 32 word \<Rightarrow> bool \<times> 'z CodedInputStream"
  wl_WriteField :: "FieldType \<Rightarrow> 32 word \<Rightarrow> prim \<Rightarrow> 'o CodedOutputStream \<Rightarrow> 'o CodedOutputStream run"
  wl_WriteString :: "32 word \<Rightarrow> 8 word list \<Rightarrow> 'o CodedOutputStream \<Rightarrow> 'o CodedOutputStream run"
  wl_WriteBytes :: "32 word \<Rightarrow> 8 word list \<Rightarrow> 'o CodedOutputStream \<Rightarrow> 'o CodedOutputStream run"

definition ReadString ::
    "('z, 'o) wire_lib \<Rightarrow> 'z CodedInputStream \<Rightarrow> 8 word list \<Rightarrow> (bool \<times> 8 word list) \<times> 'z CodedInputStream" where
  "ReadString L input value = wl_ReadBytes L input value"

text \<open>The generated class of a message, as far as a map value needs it; the stream writer
  \<open>WriteMessageMaybeToArray\<close> is in \<open>wire_format_lite.cc\<close> as well.\<close>

record ('m, 'z, 'o) message_type =
  mt_out :: "('m, 'o) message_out"
  mt_merge :: "('m, 'z) merge"
  mt_new :: 'm
  mt_default_instance :: 'm
  mt_MergeFrom :: "'m \<Rightarrow> 'm \<Rightarrow> 'm"
  mt_Clear :: "'m \<Rightarrow> 'm"
  mt_IsInitialized :: "'m \<Rightarrow> bool"
  mt_WriteMessageMaybeToArray :: "32 word \<Rightarrow> 'm \<Rightarrow> 'o CodedOutputStream \<Rightarrow> 'o CodedOutputStream run"

section \<open>Type handlers\<close>

text \<open>A slot is what the entry stores: the value itself for a primitive type; for strings and bytes an
  \<open>ArenaStringPtr\<close>, \<open>None\<close> while it points to the empty default string; for messages a pointer, \<open>None\<close>
  while it is null. The objects behind these pointers belong to the entry alone, so they are kept by
  value. \<open>th_assign v\<close> is the slot once \<open>v\<close> has been stored through the pointer that \<open>EnsureMutable\<close>
  returns.\<close>

record ('v, 's, 'z, 'o) type_handler =
  th_kWireType :: WireType
  th_ByteSize :: "'v \<Rightarrow> int"
  th_GetCachedSize :: "'v \<Rightarrow> int"
  th_Read :: "'z CodedInputStream \<Rightarrow> 'v \<Rightarrow> ((bool \<times> 'v) \<times> 'z CodedInputStream) run"
  th_Write :: "32 word \<Rightarrow> 'v \<Rightarrow> 'o CodedOutputStream \<Rightarrow> 'o CodedOutputStream run"
  th_WriteToArray :: "32 word \<Rightarrow> 'v \<Rightarrow> target \<Rightarrow> target run"
  th_GetExternalReference :: "'s \<Rightarrow> 'v run"
  th_Merge :: "'v \<Rightarrow> 's \<Rightarrow> 's run"
  th_Clear :: "'s \<Rightarrow> 's"
  th_ClearMaybeByDefaultEnum :: "int \<Rightarrow> 's \<Rightarrow> 's"
  th_Initialize :: 's
  th_InitializeMaybeByDefaultEnum :: "int \<Rightarrow> 's"
  th_EnsureMutable :: "'s \<Rightarrow> 's"
  th_DefaultIfNotInitialized :: "'s \<Rightarrow> 's option \<Rightarrow> 'v run"
  th_AssignDefaultValue :: "'s \<Rightarrow> 's"
  th_IsInitialized :: "'s \<Rightarrow> bool run"
  th_assign :: "'v \<Rightarrow> 's"

text \<open>Primitive types. \<open>cast\<close> is the conversion of the template's \<open>int default_enum_value\<close> (and of the
  literal \<open>0\<close>) to the stored type.\<close>

fun prim_ByteSize :: "'o out_ops \<Rightarrow> FieldType \<Rightarrow> prim \<Rightarrow> int" where
  "prim_ByteSize W TYPE_FIXED32 v = kFixed32Size"
| "prim_ByteSize W TYPE_FIXED64 v = kFixed64Size"
| "prim_ByteSize W TYPE_SFIXED32 v = kSFixed32Size"
| "prim_ByteSize W TYPE_SFIXED64 v = kSFixed64Size"
| "prim_ByteSize W TYPE_FLOAT v = kFloatSize"
| "prim_ByteSize W TYPE_DOUBLE v = kDoubleSize"
| "prim_ByteSize W TYPE_BOOL v = kBoolSize"
| "prim_ByteSize W ft v = value_size W ft v"

definition prim_GetCachedSize :: "'o out_ops \<Rightarrow> FieldType \<Rightarrow> prim \<Rightarrow> int" where
  "prim_GetCachedSize W ft v = prim_ByteSize W ft v"

text \<open>\<open>ReadPrimitive\<close> stores nothing when it fails.\<close>

definition prim_Read ::
    "bool \<Rightarrow> 'z in_ops \<Rightarrow> FieldType \<Rightarrow> 'z CodedInputStream \<Rightarrow> prim \<Rightarrow> ((bool \<times> prim) \<times> 'z CodedInputStream) run" where
  "prim_Read little F ft input value =
    bnd (ReadPrimitive little F ft input) (\<lambda>((ok, v), input). Inr ((ok, if ok then v else value), input))"

definition prim_handler ::
    "bool \<Rightarrow> 'z in_ops \<Rightarrow> 'o out_ops \<Rightarrow> ('z, 'o) wire_lib \<Rightarrow> (int \<Rightarrow> prim) \<Rightarrow> FieldType \<Rightarrow> (prim, prim, 'z, 'o) type_handler" where
  "prim_handler little F W L cast ft = \<lparr>
     th_kWireType = wire_type ft,
     th_ByteSize = prim_ByteSize W ft,
     th_GetCachedSize = prim_GetCachedSize W ft,
     th_Read = prim_Read little F ft,
     th_Write = wl_WriteField L ft,
     th_WriteToArray = \<lambda>field v. array_field little W field ft v,
     th_GetExternalReference = \<lambda>value. Inr value,
     th_Merge = \<lambda>from to. Inr from,
     th_Clear = \<lambda>value. cast 0,
     th_ClearMaybeByDefaultEnum = \<lambda>default_enum_value value. cast default_enum_value,
     th_Initialize = cast 0,
     th_InitializeMaybeByDefaultEnum = \<lambda>default_enum_value. cast default_enum_value,
     th_EnsureMutable = \<lambda>value. value,
     th_DefaultIfNotInitialized = \<lambda>value default_value. Inr value,
     th_AssignDefaultValue = \<lambda>value. value,
     th_IsInitialized = \<lambda>value. Inr True,
     th_assign = \<lambda>v. v\<rparr>"

text \<open>Strings and bytes, which differ in the writers.\<close>

definition string_or_bytes_handler ::
    "bool \<Rightarrow> 'o out_ops \<Rightarrow> ('z, 'o) wire_lib \<Rightarrow> (8 word list, 8 word list option, 'z, 'o) type_handler" where
  "string_or_bytes_handler is_string W L = \<lparr>
     th_kWireType = WIRETYPE_LENGTH_DELIMITED,
     th_ByteSize = (if is_string then StringSize W else BytesSize W),
     th_GetCachedSize = (if is_string then StringSize W else BytesSize W),
     th_Read = \<lambda>input value. Inr (if is_string then ReadString L input value else wl_ReadBytes L input value),
     th_Write = (if is_string then wl_WriteString L else wl_WriteBytes L),
     th_WriteToArray = (if is_string then WriteStringToArray W else WriteBytesToArray W),
     th_GetExternalReference = \<lambda>value. Inr (case value of None \<Rightarrow> [] | Some s \<Rightarrow> s),
     th_Merge = \<lambda>from to. Inr (Some from),
     th_Clear = map_option (\<lambda>_. []),
     th_ClearMaybeByDefaultEnum = \<lambda>default_enum. map_option (\<lambda>_. []),
     th_Initialize = None,
     th_InitializeMaybeByDefaultEnum = \<lambda>default_enum_value. None,
     th_EnsureMutable = \<lambda>value. Some (case value of None \<Rightarrow> [] | Some s \<Rightarrow> s),
     th_DefaultIfNotInitialized = \<lambda>value default_value. Inr (case value of None \<Rightarrow> [] | Some s \<Rightarrow> s),
     th_AssignDefaultValue = \<lambda>value. value,
     th_IsInitialized = \<lambda>value. Inr True,
     th_assign = Some\<rparr>"

text \<open>Messages. \<open>IsInitialized\<close> follows the pointer without a test.\<close>

definition deref_message :: "'m option \<Rightarrow> 'm run" where
  "deref_message value = (case value of None \<Rightarrow> Inl NullDeref | Some m \<Rightarrow> Inr m)"

definition message_handler ::
    "'z in_ops \<Rightarrow> 'o out_ops \<Rightarrow> ('m, 'z, 'o) message_type \<Rightarrow> ('m, 'm option, 'z, 'o) type_handler" where
  "message_handler F W M = \<lparr>
     th_kWireType = WIRETYPE_LENGTH_DELIMITED,
     th_ByteSize = MessageSizeNoVirtual W (mt_out M),
     th_GetCachedSize = (\<lambda>value. LengthDelimitedSize W (mo_GetCachedSize (mt_out M) value)),
     th_Read = \<lambda>input value. ReadMessageNoVirtual F (mt_merge M) input value,
     th_Write = mt_WriteMessageMaybeToArray M,
     th_WriteToArray = WriteMessageToArray (mt_out M),
     th_GetExternalReference = deref_message,
     th_Merge = \<lambda>from to. bnd (deref_message to) (\<lambda>m. Inr (Some (mt_MergeFrom M m from))),
     th_Clear = map_option (mt_Clear M),
     th_ClearMaybeByDefaultEnum = \<lambda>default_enum_value. map_option (mt_Clear M),
     th_Initialize = None,
     th_InitializeMaybeByDefaultEnum = \<lambda>default_enum_value. None,
     th_EnsureMutable = \<lambda>value. (case value of None \<Rightarrow> Some (mt_new M) | Some m \<Rightarrow> Some m),
     th_DefaultIfNotInitialized = \<lambda>value default_value. (case value of Some m \<Rightarrow> Inr m
        | None \<Rightarrow> (case default_value of None \<Rightarrow> Inl NullDeref | Some d \<Rightarrow> deref_message d)),
     th_AssignDefaultValue = \<lambda>value. Some (mt_default_instance M),
     th_IsInitialized = \<lambda>value. bnd (deref_message value) (\<lambda>m. Inr (mt_IsInitialized M m)),
     th_assign = Some\<rparr>"

section \<open>The entry\<close>

text \<open>\<open>me_default_instance\<close> is the value slot of the default instance, \<open>None\<close> when \<open>default_instance_\<close> is
  null.\<close>

record ('ks, 'vs) MapEntryLite =
  me_default_instance :: "'vs option"
  me_key :: 'ks
  me_value :: 'vs
  me_arena :: "nat option"
  me_has_bits :: "32 word"

definition kKeyFieldNumber :: "32 word" where "kKeyFieldNumber = 1"
definition kValueFieldNumber :: "32 word" where "kValueFieldNumber = 2"

text \<open>\<open>static const uint8\<close>, compared with a 32-bit tag.\<close>

definition kKeyTag :: "('k, 'ks, 'z, 'o) type_handler \<Rightarrow> 32 word" where
  "kKeyTag K = ucast (ucast (MakeTag kKeyFieldNumber (th_kWireType K)) :: 8 word)"

definition kValueTag :: "('v, 'vs, 'z, 'o) type_handler \<Rightarrow> 32 word" where
  "kValueTag H = ucast (ucast (MakeTag kValueFieldNumber (th_kWireType H)) :: 8 word)"

definition kTagSize :: int where "kTagSize = 1"

definition set_has_key :: "('ks, 'vs) MapEntryLite \<Rightarrow> ('ks, 'vs) MapEntryLite" where
  "set_has_key e = e\<lparr>me_has_bits := me_has_bits e OR 1\<rparr>"

definition has_key :: "('ks, 'vs) MapEntryLite \<Rightarrow> bool" where
  "has_key e \<longleftrightarrow> me_has_bits e AND 1 \<noteq> 0"

definition clear_has_key :: "('ks, 'vs) MapEntryLite \<Rightarrow> ('ks, 'vs) MapEntryLite" where
  "clear_has_key e = e\<lparr>me_has_bits := me_has_bits e AND NOT 1\<rparr>"

definition set_has_value :: "('ks, 'vs) MapEntryLite \<Rightarrow> ('ks, 'vs) MapEntryLite" where
  "set_has_value e = e\<lparr>me_has_bits := me_has_bits e OR 2\<rparr>"

definition has_value :: "('ks, 'vs) MapEntryLite \<Rightarrow> bool" where
  "has_value e \<longleftrightarrow> me_has_bits e AND 2 \<noteq> 0"

definition clear_has_value :: "('ks, 'vs) MapEntryLite \<Rightarrow> ('ks, 'vs) MapEntryLite" where
  "clear_has_value e = e\<lparr>me_has_bits := me_has_bits e AND NOT 2\<rparr>"

definition MapEntryLite_new ::
    "('k, 'ks, 'z, 'o) type_handler \<Rightarrow> ('v, 'vs, 'z, 'o) type_handler \<Rightarrow> int \<Rightarrow> nat option \<Rightarrow> ('ks, 'vs) MapEntryLite" where
  "MapEntryLite_new K H default_enum_value arena = \<lparr>me_default_instance = None, me_key = th_Initialize K,
     me_value = th_InitializeMaybeByDefaultEnum H default_enum_value, me_arena = arena, me_has_bits = 0\<rparr>"

definition entry_key :: "('k, 'ks, 'z, 'o) type_handler \<Rightarrow> ('ks, 'vs) MapEntryLite \<Rightarrow> 'k run" where
  "entry_key K e = th_GetExternalReference K (me_key e)"

definition entry_value :: "('v, 'vs, 'z, 'o) type_handler \<Rightarrow> ('ks, 'vs) MapEntryLite \<Rightarrow> 'v run" where
  "entry_value H e =
    check (me_default_instance e \<noteq> None) (th_DefaultIfNotInitialized H (me_value e) (me_default_instance e))"

definition mutable_key :: "('k, 'ks, 'z, 'o) type_handler \<Rightarrow> ('ks, 'vs) MapEntryLite \<Rightarrow> ('ks, 'vs) MapEntryLite" where
  "mutable_key K e = (let e = set_has_key e in e\<lparr>me_key := th_EnsureMutable K (me_key e)\<rparr>)"

definition mutable_value :: "('v, 'vs, 'z, 'o) type_handler \<Rightarrow> ('ks, 'vs) MapEntryLite \<Rightarrow> ('ks, 'vs) MapEntryLite" where
  "mutable_value H e = (let e = set_has_value e in e\<lparr>me_value := th_EnsureMutable H (me_value e)\<rparr>)"

definition entry_New :: "('k, 'ks, 'z, 'o) type_handler \<Rightarrow> ('v, 'vs, 'z, 'o) type_handler \<Rightarrow> int \<Rightarrow> nat option \<Rightarrow>
    ('ks, 'vs) MapEntryLite \<Rightarrow> ('ks, 'vs) MapEntryLite" where
  "entry_New K H default_enum_value arena e =
    (MapEntryLite_new K H default_enum_value arena)\<lparr>me_default_instance := me_default_instance e\<rparr>"

section \<open>Parsing an entry\<close>

text \<open>\<open>KeyTypeHandler::Read(input, mutable_key())\<close>, and the same for the value.\<close>

definition read_key ::
    "('k, 'ks, 'z, 'o) type_handler \<Rightarrow> 'z CodedInputStream \<Rightarrow> ('ks, 'vs) MapEntryLite \<Rightarrow>
     ((bool \<times> ('ks, 'vs) MapEntryLite) \<times> 'z CodedInputStream) run" where
  "read_key K input e =
    (let e = mutable_key K e in
     bnd (th_GetExternalReference K (me_key e)) (\<lambda>v. bnd (th_Read K input v) (\<lambda>((ok, v), input).
       Inr ((ok, e\<lparr>me_key := th_assign K v\<rparr>), input))))"

definition read_value ::
    "('v, 'vs, 'z, 'o) type_handler \<Rightarrow> 'z CodedInputStream \<Rightarrow> ('ks, 'vs) MapEntryLite \<Rightarrow>
     ((bool \<times> ('ks, 'vs) MapEntryLite) \<times> 'z CodedInputStream) run" where
  "read_value H input e =
    (let e = mutable_value H e in
     bnd (th_GetExternalReference H (me_value e)) (\<lambda>v. bnd (th_Read H input v) (\<lambda>((ok, v), input).
       Inr ((ok, e\<lparr>me_value := th_assign H v\<rparr>), input))))"

text \<open>The body of the \<open>for (;;)\<close>: \<open>Some b\<close> when it returns \<open>b\<close>, \<open>None\<close> when it goes round again. The
  branch of the value is also what the branch of the key falls into.\<close>

definition value_branch ::
    "('v, 'vs, 'z, 'o) type_handler \<Rightarrow> 'z CodedInputStream \<Rightarrow> ('ks, 'vs) MapEntryLite \<Rightarrow>
     ((bool option \<times> ('ks, 'vs) MapEntryLite) \<times> 'z CodedInputStream) run" where
  "value_branch H input e =
    bnd (read_value H input e) (\<lambda>((ok, e), input).
      if \<not> ok then Inr ((Some False, e), input)
      else let e = set_has_value e in
        case ExpectAtEnd input of (at_end, input) \<Rightarrow>
          if at_end then Inr ((Some True, e), input) else Inr ((None, e), input))"

definition entry_round ::
    "'z in_ops \<Rightarrow> ('z, 'o) wire_lib \<Rightarrow> ('k, 'ks, 'z, 'o) type_handler \<Rightarrow> ('v, 'vs, 'z, 'o) type_handler \<Rightarrow>
     'z CodedInputStream \<Rightarrow> ('ks, 'vs) MapEntryLite \<Rightarrow> ((bool option \<times> ('ks, 'vs) MapEntryLite) \<times> 'z CodedInputStream) run" where
  "entry_round F L K H input e =
    bnd (ReadTag F input) (\<lambda>(tag, input).
      if tag = kKeyTag K then
        bnd (read_key K input e) (\<lambda>((ok, e), input).
          if \<not> ok then Inr ((Some False, e), input)
          else let e = set_has_key e in
            bnd (ExpectTag (kValueTag H) input) (\<lambda>(found, input).
              if \<not> found then Inr ((None, e), input) else value_branch H input e))
      else if tag = kValueTag H then value_branch H input e
      else if tag = 0 \<or> GetTagWireType tag = wire_number WIRETYPE_END_GROUP then Inr ((Some True, e), input)
      else case wl_SkipField L input tag of (ok, input) \<Rightarrow>
        Inr ((if ok then None else Some False, e), input))"

fun entry_loop ::
    "'z in_ops \<Rightarrow> ('z, 'o) wire_lib \<Rightarrow> ('k, 'ks, 'z, 'o) type_handler \<Rightarrow> ('v, 'vs, 'z, 'o) type_handler \<Rightarrow> nat \<Rightarrow>
     'z CodedInputStream \<Rightarrow> ('ks, 'vs) MapEntryLite \<Rightarrow> ((bool \<times> ('ks, 'vs) MapEntryLite) \<times> 'z CodedInputStream) run option" where
  "entry_loop F L K H 0 input e = None"
| "entry_loop F L K H (Suc fuel) input e =
    (case entry_round F L K H input e of
       Inl f \<Rightarrow> Some (Inl f)
     | Inr ((Some b, e), input) \<Rightarrow> Some (Inr ((b, e), input))
     | Inr ((None, e), input) \<Rightarrow> entry_loop F L K H fuel input e)"

section \<open>Writing an entry, and the rest of the class\<close>

text \<open>Who calls \<open>key()\<close> and \<open>value()\<close>, which are virtual: an entry of its own, or a wrapper around a key
  and a value of the map, which sets both has-bits and refers to them.\<close>

record ('k, 'v) entry_view =
  ev_key :: "'k run"
  ev_value :: "'v run"
  ev_has_key :: bool
  ev_has_value :: bool

definition own_view ::
    "('k, 'ks, 'z, 'o) type_handler \<Rightarrow> ('v, 'vs, 'z, 'o) type_handler \<Rightarrow> ('ks, 'vs) MapEntryLite \<Rightarrow> ('k, 'v) entry_view" where
  "own_view K H e = \<lparr>ev_key = entry_key K e, ev_value = entry_value H e,
     ev_has_key = has_key e, ev_has_value = has_value e\<rparr>"

definition MapEntryWrapper :: "'k \<Rightarrow> 'v \<Rightarrow> ('k, 'v) entry_view" where
  "MapEntryWrapper key value = \<lparr>ev_key = Inr key, ev_value = Inr value, ev_has_key = True, ev_has_value = True\<rparr>"

text \<open>The wrapper for enums stores the value converted to \<open>int\<close>.\<close>

definition MapEnumEntryWrapper :: "('e \<Rightarrow> prim) \<Rightarrow> 'k \<Rightarrow> 'e \<Rightarrow> ('k, prim) entry_view" where
  "MapEnumEntryWrapper to_int key value = MapEntryWrapper key (to_int value)"

text \<open>\<open>ByteSize\<close> and \<open>GetCachedSize\<close> count the fields that are set; the writers write both.\<close>

definition entry_ByteSize ::
    "('k, 'ks, 'z, 'o) type_handler \<Rightarrow> ('v, 'vs, 'z, 'o) type_handler \<Rightarrow> ('k, 'v) entry_view \<Rightarrow> int run" where
  "entry_ByteSize K H e =
    bnd (if ev_has_key e then bnd (ev_key e) (\<lambda>k. Inr (kTagSize + th_ByteSize K k)) else Inr 0) (\<lambda>ks.
    bnd (if ev_has_value e then bnd (ev_value e) (\<lambda>v. Inr (kTagSize + th_ByteSize H v)) else Inr 0) (\<lambda>vs.
      Inr (ks + vs)))"

definition entry_GetCachedSize ::
    "('k, 'ks, 'z, 'o) type_handler \<Rightarrow> ('v, 'vs, 'z, 'o) type_handler \<Rightarrow> ('k, 'v) entry_view \<Rightarrow> int run" where
  "entry_GetCachedSize K H e =
    bnd (if ev_has_key e then bnd (ev_key e) (\<lambda>k. Inr (kTagSize + th_GetCachedSize K k)) else Inr 0) (\<lambda>ks.
    bnd (if ev_has_value e then bnd (ev_value e) (\<lambda>v. Inr (kTagSize + th_GetCachedSize H v)) else Inr 0) (\<lambda>vs.
      Inr (ks + vs)))"

definition entry_SerializeWithCachedSizes ::
    "('k, 'ks, 'z, 'o) type_handler \<Rightarrow> ('v, 'vs, 'z, 'o) type_handler \<Rightarrow> ('k, 'v) entry_view \<Rightarrow>
     'o CodedOutputStream \<Rightarrow> 'o CodedOutputStream run" where
  "entry_SerializeWithCachedSizes K H e output =
    bnd (ev_key e) (\<lambda>k. bnd (th_Write K kKeyFieldNumber k output) (\<lambda>output.
      bnd (ev_value e) (\<lambda>v. th_Write H kValueFieldNumber v output)))"

definition entry_SerializeWithCachedSizesToArray ::
    "('k, 'ks, 'z, 'o) type_handler \<Rightarrow> ('v, 'vs, 'z, 'o) type_handler \<Rightarrow> ('k, 'v) entry_view \<Rightarrow> target \<Rightarrow> target run" where
  "entry_SerializeWithCachedSizesToArray K H e output =
    bnd (ev_key e) (\<lambda>k. bnd (th_WriteToArray K kKeyFieldNumber k output) (\<lambda>output.
      bnd (ev_value e) (\<lambda>v. th_WriteToArray H kValueFieldNumber v output)))"

definition entry_IsInitialized :: "('v, 'vs, 'z, 'o) type_handler \<Rightarrow> ('ks, 'vs) MapEntryLite \<Rightarrow> bool run" where
  "entry_IsInitialized H e = th_IsInitialized H (me_value e)"

definition entry_MergeFrom ::
    "('k, 'ks, 'z, 'o) type_handler \<Rightarrow> ('v, 'vs, 'z, 'o) type_handler \<Rightarrow> ('ks, 'vs) MapEntryLite \<Rightarrow>
     ('ks, 'vs) MapEntryLite \<Rightarrow> ('ks, 'vs) MapEntryLite run" where
  "entry_MergeFrom K H from e =
    (if me_has_bits from \<noteq> 0 then
       bnd (if has_key from
            then bnd (entry_key K from) (\<lambda>k. bnd (th_Merge K k (th_EnsureMutable K (me_key e))) (\<lambda>s.
                   Inr (set_has_key (e\<lparr>me_key := s\<rparr>))))
            else Inr e) (\<lambda>e.
       if has_value from
       then bnd (entry_value H from) (\<lambda>v. bnd (th_Merge H v (th_EnsureMutable H (me_value e))) (\<lambda>s.
              Inr (set_has_value (e\<lparr>me_value := s\<rparr>))))
       else Inr e)
     else Inr e)"

definition entry_Clear ::
    "('k, 'ks, 'z, 'o) type_handler \<Rightarrow> ('v, 'vs, 'z, 'o) type_handler \<Rightarrow> int \<Rightarrow> ('ks, 'vs) MapEntryLite \<Rightarrow> ('ks, 'vs) MapEntryLite" where
  "entry_Clear K H default_enum_value e =
    clear_has_value (clear_has_key (e\<lparr>me_key := th_Clear K (me_key e),
      me_value := th_ClearMaybeByDefaultEnum H default_enum_value (me_value e)\<rparr>))"

definition entry_InitAsDefaultInstance ::
    "('k, 'ks, 'z, 'o) type_handler \<Rightarrow> ('v, 'vs, 'z, 'o) type_handler \<Rightarrow> ('ks, 'vs) MapEntryLite \<Rightarrow> ('ks, 'vs) MapEntryLite" where
  "entry_InitAsDefaultInstance K H e =
    e\<lparr>me_key := th_AssignDefaultValue K (me_key e), me_value := th_AssignDefaultValue H (me_value e)\<rparr>"

section \<open>What a type handler promises\<close>

text \<open>The value that is seen through the pointer of \<open>EnsureMutable\<close>.\<close>

definition current_value :: "('v, 's, 'z, 'o) type_handler \<Rightarrow> 's \<Rightarrow> 'v" where
  "current_value H s = projr (th_GetExternalReference H (th_EnsureMutable H s))"

text \<open>\<open>need\<close> is the recursion budget that reading takes, \<open>join\<close> what reading does to the value that is
  there already: a message merges, everything else is replaced, and in a slot that was just initialised
  it gives the value that was written.\<close>

locale handler_contract =
  fixes H :: "('v, 's, 'z, 'o) type_handler" and V :: "'z in_view" and encode :: "'v \<Rightarrow> 8 word list"
    and fl :: "'o \<Rightarrow> 8 word list" and ok :: "'v \<Rightarrow> bool" and join :: "'v \<Rightarrow> 'v \<Rightarrow> 'v" and need :: int
  assumes load_assign: "th_GetExternalReference H (th_assign H v) = Inr v"
    and mutable_loads: "\<exists>v. th_GetExternalReference H (th_EnsureMutable H s) = Inr v"
    and mutable_assign: "th_EnsureMutable H (th_assign H v) = th_assign H v"
    and default_assign: "th_DefaultIfNotInitialized H (th_assign H v) d = Inr v"
    and writes_field: "ok v \<Longrightarrow> writes (th_WriteToArray H k v) (varint (unat (MakeTag k (th_kWireType H))) @ encode v)"
    and appends_field: "ok v \<Longrightarrow> appends fl (th_Write H k v) (varint (unat (MakeTag k (th_kWireType H))) @ encode v)"
    and sizes: "ok v \<Longrightarrow> th_ByteSize H v = int (length (encode v)) \<and> th_GetCachedSize H v = int (length (encode v))"
    and reads: "ok v \<Longrightarrow> wf_in st \<Longrightarrow> need \<le> ci_recursion_budget st \<Longrightarrow> readable V st = encode v @ r \<Longrightarrow>
      \<exists>st'. th_Read H st v0 = Inr ((True, join v0 v), st') \<and> leaves V st st' r \<and>
        ci_recursion_budget st' = ci_recursion_budget st"
    and joins_fresh: "ok v \<Longrightarrow> join (current_value H (th_Initialize H)) v = v \<and>
      join (current_value H (th_InitializeMaybeByDefaultEnum H dflt)) v = v"
begin

lemma current_loads: "th_GetExternalReference H (th_EnsureMutable H s) = Inr (current_value H s)"
  using mutable_loads[of s] by (auto simp: current_value_def)

lemma current_assign: "current_value H (th_assign H v) = v"
  by (simp add: current_value_def mutable_assign load_assign)

text \<open>A tag that fits one byte.\<close>

lemma field_length:
  assumes "ok v" and "unat (MakeTag k (th_kWireType H)) < 128"
  shows "int (length (varint (unat (MakeTag k (th_kWireType H))) @ encode v)) = kTagSize + th_ByteSize H v"
  using sizes[OF assms(1)] assms(2) by (simp add: varint_byte kTagSize_def)

end

section \<open>The handlers keep it\<close>

text \<open>The library's functions leave the recursion budget to the inline code.\<close>

definition budget_kept :: "'z in_ops \<Rightarrow> bool" where
  "budget_kept F \<longleftrightarrow>
     (\<forall>v st. ci_recursion_budget (snd (io_ReadVarint32Fallback F v st)) = ci_recursion_budget st) \<and>
     (\<forall>st. ci_recursion_budget (snd (io_ReadVarint64Fallback F st)) = ci_recursion_budget st) \<and>
     (\<forall>v st. ci_recursion_budget (snd (io_ReadTagFallback F v st)) = ci_recursion_budget st) \<and>
     (\<forall>st. ci_recursion_budget (snd (io_ReadLittleEndian32Fallback F st)) = ci_recursion_budget st) \<and>
     (\<forall>st. ci_recursion_budget (snd (io_ReadLittleEndian64Fallback F st)) = ci_recursion_budget st)"

lemma snd_budget: "(\<And>x. ci_recursion_budget (snd (f x)) = ci_recursion_budget x) \<Longrightarrow> f st = (a, st') \<Longrightarrow>
    ci_recursion_budget st' = ci_recursion_budget st"
  by (metis snd_conv)

lemma reads_keep_budget:
  assumes "budget_kept F"
  shows "ReadVarint32 F st = Inr (a, st') \<Longrightarrow> ci_recursion_budget st' = ci_recursion_budget st"
    and "ReadVarint64 F st = Inr (b, st') \<Longrightarrow> ci_recursion_budget st' = ci_recursion_budget st"
    and "ReadTag F st = Inr (t, st') \<Longrightarrow> ci_recursion_budget st' = ci_recursion_budget st"
    and "ReadLittleEndian32 little F st = Inr (c, st') \<Longrightarrow> ci_recursion_budget st' = ci_recursion_budget st"
    and "ReadLittleEndian64 little F st = Inr (d, st') \<Longrightarrow> ci_recursion_budget st' = ci_recursion_budget st"
proof -
  have v32: "io_ReadVarint32Fallback F v st = (x, st1) \<Longrightarrow> ci_recursion_budget st1 = ci_recursion_budget st" for v x st1
    using assms unfolding budget_kept_def by (metis snd_conv)
  have v64: "io_ReadVarint64Fallback F st = (x, st1) \<Longrightarrow> ci_recursion_budget st1 = ci_recursion_budget st" for x st1
    using assms unfolding budget_kept_def by (metis snd_conv)
  have tag: "io_ReadTagFallback F v st = (x, st1) \<Longrightarrow> ci_recursion_budget st1 = ci_recursion_budget st" for v x st1
    using assms unfolding budget_kept_def by (metis snd_conv)
  have l32: "io_ReadLittleEndian32Fallback F st = (x, st1) \<Longrightarrow> ci_recursion_budget st1 = ci_recursion_budget st" for x st1
    using assms unfolding budget_kept_def by (metis snd_conv)
  have l64: "io_ReadLittleEndian64Fallback F st = (x, st1) \<Longrightarrow> ci_recursion_budget st1 = ci_recursion_budget st" for x st1
    using assms unfolding budget_kept_def by (metis snd_conv)
  show "ReadVarint32 F st = Inr (a, st') \<Longrightarrow> ci_recursion_budget st' = ci_recursion_budget st"
    by (auto simp: ReadVarint32_def Let_def ci_Advance_def bnd_eq_Inr dest: v32 split: if_splits prod.splits)
  show "ReadVarint64 F st = Inr (b, st') \<Longrightarrow> ci_recursion_budget st' = ci_recursion_budget st"
    by (auto simp: ReadVarint64_def Let_def ci_Advance_def bnd_eq_Inr dest: v64 split: if_splits prod.splits)
  show "ReadTag F st = Inr (t, st') \<Longrightarrow> ci_recursion_budget st' = ci_recursion_budget st"
    by (auto simp: ReadTag_def Let_def ci_Advance_def bnd_eq_Inr dest: tag split: if_splits prod.splits)
  show "ReadLittleEndian32 little F st = Inr (c, st') \<Longrightarrow> ci_recursion_budget st' = ci_recursion_budget st"
    by (auto simp: ReadLittleEndian32_def ci_Advance_def bnd_eq_Inr dest: l32 split: if_splits)
  show "ReadLittleEndian64 little F st = Inr (d, st') \<Longrightarrow> ci_recursion_budget st' = ci_recursion_budget st"
    by (auto simp: ReadLittleEndian64_def ci_Advance_def bnd_eq_Inr dest: l64 split: if_splits)
qed

lemma ReadPrimitive_budget:
  assumes "budget_kept F" and "ReadPrimitive little F ft st = Inr (x, st')"
  shows "ci_recursion_budget st' = ci_recursion_budget st"
  using assms(2) by (cases ft) (auto simp: bnd_eq_Inr dest: reads_keep_budget[OF assms(1)])

text \<open>The writers of \<open>wire_format_lite.cc\<close> write a tag and the value.\<close>

definition fields_ok :: "('o \<Rightarrow> 8 word list) \<Rightarrow> ('z, 'o) wire_lib \<Rightarrow> bool" where
  "fields_ok fl L \<longleftrightarrow>
     (\<forall>ft k v. has_type ft v \<longrightarrow> appends fl (wl_WriteField L ft k v) (encode_field k ft v)) \<and>
     (\<forall>k s. length s < 2 ^ 31 \<longrightarrow>
        appends fl (wl_WriteString L k s) (varint (unat (MakeTag k WIRETYPE_LENGTH_DELIMITED)) @ varint (length s) @ s) \<and>
        appends fl (wl_WriteBytes L k s) (varint (unat (MakeTag k WIRETYPE_LENGTH_DELIMITED)) @ varint (length s) @ s))"

definition prim_ok ::
    "'z in_view \<Rightarrow> 'z in_ops \<Rightarrow> ('o \<Rightarrow> 8 word list) \<Rightarrow> 'o out_ops \<Rightarrow> ('z, 'o) wire_lib \<Rightarrow> FieldType \<Rightarrow> prim \<Rightarrow> bool" where
  "prim_ok V F fl W L ft v \<longleftrightarrow> in_ok V F \<and> budget_kept F \<and> out_ok fl W \<and> fields_ok fl L \<and> has_type ft v"

lemma prim_ByteSize_value: "has_type ft v \<Longrightarrow> prim_ByteSize W ft v = value_size W ft v"
  by (erule has_type_cases) (auto simp: size_defs)

interpretation prim: handler_contract "prim_handler little F W L cast ft" V "encode_prim ft" fl
    "prim_ok V F fl W L ft" "\<lambda>_ v. v" 0
  for little F W L cast ft V fl
proof unfold_locales
  fix v v0 :: prim and s :: prim and k :: "32 word" and st r and d :: "prim option" and dflt :: int
  let ?H = "prim_handler little F W L cast ft"
  show "th_GetExternalReference ?H (th_assign ?H v) = Inr v" "\<exists>v. th_GetExternalReference ?H (th_EnsureMutable ?H s) = Inr v"
    "th_EnsureMutable ?H (th_assign ?H v) = th_assign ?H v" "th_DefaultIfNotInitialized ?H (th_assign ?H v) d = Inr v"
    by (simp_all add: prim_handler_def)
  show "v = v \<and> v = v" by simp
  assume ok: "prim_ok V F fl W L ft v"
  then have t: "has_type ft v" "out_ok fl W" "in_ok V F" "budget_kept F" "fields_ok fl L" by (simp_all add: prim_ok_def)
  show "appends fl (th_Write ?H k v) (varint (unat (MakeTag k (th_kWireType ?H))) @ encode_prim ft v)"
    using t(1,5) by (simp add: prim_handler_def fields_ok_def encode_field_def)
  show "writes (th_WriteToArray ?H k v) (varint (unat (MakeTag k (th_kWireType ?H))) @ encode_prim ft v)"
    using array_field_writes[OF t(2,1), of little k] by (simp add: prim_handler_def encode_field_def)
  show "th_ByteSize ?H v = int (length (encode_prim ft v)) \<and> th_GetCachedSize ?H v = int (length (encode_prim ft v))"
    using value_size_length[OF t(2,1)] by (simp add: prim_handler_def prim_GetCachedSize_def prim_ByteSize_value[OF t(1)])
  assume "wf_in st" and "readable V st = encode_prim ft v @ r"
  from ReadPrimitive_encoded[OF t(3) this(1) t(1) this(2), of little]
  obtain st' where "ReadPrimitive little F ft st = Inr ((True, v), st')" "leaves V st st' r" by blast
  then show "\<exists>st'. th_Read ?H st v0 = Inr ((True, v), st') \<and> leaves V st st' r \<and> ci_recursion_budget st' = ci_recursion_budget st"
    using ReadPrimitive_budget[OF t(4)] by (simp add: prim_handler_def prim_Read_def)
qed

text \<open>\<open>ReadBytes\<close> reads a length and that many bytes.\<close>

definition bytes_ok :: "'z in_view \<Rightarrow> ('z, 'o) wire_lib \<Rightarrow> bool" where
  "bytes_ok V L \<longleftrightarrow> (\<forall>st s r v0. wf_in st \<and> length s < 2 ^ 31 \<and> readable V st = varint (length s) @ s @ r \<longrightarrow>
     (\<exists>st'. wl_ReadBytes L st v0 = ((True, s), st') \<and> leaves V st st' r \<and>
        ci_recursion_budget st' = ci_recursion_budget st))"

definition string_ok ::
    "'z in_view \<Rightarrow> ('z, 'o) wire_lib \<Rightarrow> ('o \<Rightarrow> 8 word list) \<Rightarrow> 'o out_ops \<Rightarrow> 8 word list \<Rightarrow> bool" where
  "string_ok V L fl W s \<longleftrightarrow> bytes_ok V L \<and> fields_ok fl L \<and> out_ok fl W \<and> length s < 2 ^ 31"

lemma StringSize_length:
  assumes "out_ok fl W" and "length s < 2 ^ 31"
  shows "StringSize W s = int (length (varint (length s) @ s))" and "BytesSize W s = int (length (varint (length s) @ s))"
proof -
  have "unat (of_nat (length s) :: 32 word) = length s" using word_of_small(2)[OF assms(2)]
    by (simp add: unat_eq_nat_uint del: nat_uint_eq of_int_of_nat_eq)
  then show "StringSize W s = int (length (varint (length s) @ s))" "BytesSize W s = int (length (varint (length s) @ s))"
    by (simp_all add: StringSize_def BytesSize_def VarintSize32_length[OF assms(1)])
qed

interpretation strg: handler_contract "string_or_bytes_handler is_string W L" V "\<lambda>s. varint (length s) @ s" fl
    "string_ok V L fl W" "\<lambda>_ v. v" 0
  for is_string W L V fl
proof unfold_locales
  fix v v0 :: "8 word list" and s :: "8 word list option" and k :: "32 word" and st r and d :: "8 word list option option" and dflt :: int
  let ?H = "string_or_bytes_handler is_string W L"
  show "th_GetExternalReference ?H (th_assign ?H v) = Inr v" "\<exists>v. th_GetExternalReference ?H (th_EnsureMutable ?H s) = Inr v"
    "th_EnsureMutable ?H (th_assign ?H v) = th_assign ?H v" "th_DefaultIfNotInitialized ?H (th_assign ?H v) d = Inr v"
    by (simp_all add: string_or_bytes_handler_def)
  show "v = v \<and> v = v" by simp
  assume ok: "string_ok V L fl W v"
  then have t: "bytes_ok V L" "out_ok fl W" "length v < 2 ^ 31" "fields_ok fl L" by (simp_all add: string_ok_def)
  show "appends fl (th_Write ?H k v) (varint (unat (MakeTag k (th_kWireType ?H))) @ varint (length v) @ v)"
    using t(3,4) by (simp add: string_or_bytes_handler_def fields_ok_def)
  have "writes (oo_WriteStringWithSizeToArray W v) (varint (length v) @ v)"
    using t(2,3) unfolding out_ok_def by blast
  from writes_seq[OF writes_tag this, of k WIRETYPE_LENGTH_DELIMITED]
  show "writes (th_WriteToArray ?H k v) (varint (unat (MakeTag k (th_kWireType ?H))) @ varint (length v) @ v)"
    by (rule writes_cong) (simp_all add: string_or_bytes_handler_def WriteStringToArray_def WriteBytesToArray_def)
  show "th_ByteSize ?H v = int (length (varint (length v) @ v)) \<and> th_GetCachedSize ?H v = int (length (varint (length v) @ v))"
    using StringSize_length[OF t(2,3)] by (simp add: string_or_bytes_handler_def)
  assume "wf_in st" and "readable V st = (varint (length v) @ v) @ r"
  then show "\<exists>st'. th_Read ?H st v0 = Inr ((True, v), st') \<and> leaves V st st' r \<and> ci_recursion_budget st' = ci_recursion_budget st"
    using t(1,3) by (simp add: bytes_ok_def string_or_bytes_handler_def ReadString_def)
qed

text \<open>A message that is written as the payload \<open>pay m\<close>, and whose parser merges it with the recursion
  budget \<open>need\<close>; merged into a new message it is itself.\<close>

definition message_ok ::
    "'z in_view \<Rightarrow> 'z in_ops \<Rightarrow> ('o \<Rightarrow> 8 word list) \<Rightarrow> 'o out_ops \<Rightarrow> ('m, 'z, 'o) message_type \<Rightarrow> ('m \<Rightarrow> 8 word list) \<Rightarrow>
     ('m \<Rightarrow> 'm \<Rightarrow> 'm) \<Rightarrow> int \<Rightarrow> 'm \<Rightarrow> bool" where
  "message_ok V F fl W M pay join need m \<longleftrightarrow> in_ok V F \<and> nesting_ok V F \<and> nested_limits V F \<and> out_ok fl W \<and>
     length (pay m) < 2 ^ 31 \<and> writes (mo_SerializeWithCachedSizesToArray (mt_out M) m) (pay m) \<and>
     (\<forall>k. appends fl (mt_WriteMessageMaybeToArray M k m)
        (varint (unat (MakeTag k WIRETYPE_LENGTH_DELIMITED)) @ varint (length (pay m)) @ pay m)) \<and>
     mo_GetCachedSize (mt_out M) m = int (length (pay m)) \<and> mo_ByteSize (mt_out M) m = int (length (pay m)) \<and>
     (\<forall>m0. parses V need (mt_merge M) m0 (pay m) (join m0 m)) \<and> join (mt_new M) m = m"

lemma LengthDelimitedSize_length:
  assumes "out_ok fl W" and "n < 2 ^ 31"
  shows "LengthDelimitedSize W (int n) = int (length (varint n) + n)"
proof -
  have "unat (of_nat n :: 32 word) = n" using word_of_small(2)[OF assms(2)]
    by (simp add: unat_eq_nat_uint del: nat_uint_eq of_int_of_nat_eq)
  then show ?thesis by (simp add: LengthDelimitedSize_def VarintSize32_length[OF assms(1)])
qed

interpretation msg: handler_contract "message_handler F W M" V "\<lambda>m. varint (length (pay m)) @ pay m" fl
    "message_ok V F fl W M pay join need" join "need + 1"
  for F W and M :: "('m, 'z, 'o) message_type" and V fl pay join need
proof unfold_locales
  fix v v0 :: 'm and s :: "'m option" and k :: "32 word" and st r and d :: "'m option option" and dflt :: int
  let ?H = "message_handler F W M"
  show "th_GetExternalReference ?H (th_assign ?H v) = Inr v" "\<exists>v. th_GetExternalReference ?H (th_EnsureMutable ?H s) = Inr v"
    "th_EnsureMutable ?H (th_assign ?H v) = th_assign ?H v" "th_DefaultIfNotInitialized ?H (th_assign ?H v) d = Inr v"
    by (simp_all add: message_handler_def deref_message_def split: option.splits)
  assume "message_ok V F fl W M pay join need v"
  note t = this[unfolded message_ok_def]
  show "join (current_value ?H (th_Initialize ?H)) v = v \<and> join (current_value ?H (th_InitializeMaybeByDefaultEnum ?H dflt)) v = v"
    using t by (simp add: current_value_def message_handler_def deref_message_def)
  show "writes (th_WriteToArray ?H k v) (varint (unat (MakeTag k (th_kWireType ?H))) @ varint (length (pay v)) @ pay v)"
    using message_writes[of "mt_out M" v "pay v" k] t by (simp add: message_handler_def)
  show "appends fl (th_Write ?H k v) (varint (unat (MakeTag k (th_kWireType ?H))) @ varint (length (pay v)) @ pay v)"
    using t by (simp add: message_handler_def)
  show "th_ByteSize ?H v = int (length (varint (length (pay v)) @ pay v)) \<and>
      th_GetCachedSize ?H v = int (length (varint (length (pay v)) @ pay v))"
    using t LengthDelimitedSize_length[of fl W "length (pay v)"] by (simp add: message_handler_def MessageSizeNoVirtual_def)
  assume st: "wf_in st" "need + 1 \<le> ci_recursion_budget st" "readable V st = (varint (length (pay v)) @ pay v) @ r"
  have "\<exists>st'. ReadMessage F (mt_merge M) st v0 = Inr ((True, join v0 v), st') \<and> wf_in st' \<and> readable V st' = r \<and>
      ci_recursion_budget st' = ci_recursion_budget st \<and> (nested_limits V F \<longrightarrow> leaves V st st' r)"
    by (rule ReadMessage_nested(2)[where payload = "pay v" and need = need]) (use t st in \<open>simp_all\<close>)
  then show "\<exists>st'. th_Read ?H st v0 = Inr ((True, join v0 v), st') \<and> leaves V st st' r \<and>
      ci_recursion_budget st' = ci_recursion_budget st"
    using t by (simp add: message_handler_def ReadMessage_NoVirtual) blast
qed

section \<open>What an entry on the wire stands for\<close>

text \<open>An entry is a sequence of keys, values and fields it does not know, in any order and any number.\<close>

datatype ('k, 'v) item = Key_item 'k | Value_item 'v | Unknown_item "32 word" "8 word list"

text \<open>The payload of an unknown field, by the wire type of its tag (groups are left out).\<close>

definition skippable :: "32 word \<Rightarrow> 8 word list \<Rightarrow> bool" where
  "skippable tag p \<longleftrightarrow>
     GetTagWireType tag = wire_number WIRETYPE_VARINT \<and> (\<exists>n < 2 ^ 64. p = varint n) \<or>
     GetTagWireType tag = wire_number WIRETYPE_FIXED64 \<and> length p = 8 \<or>
     GetTagWireType tag = wire_number WIRETYPE_LENGTH_DELIMITED \<and> (\<exists>s. length s < 2 ^ 31 \<and> p = varint (length s) @ s) \<or>
     GetTagWireType tag = wire_number WIRETYPE_FIXED32 \<and> length p = 4"

text \<open>What the headers document of \<open>ExpectAtEnd\<close> (never true while bytes can be read), of \<open>ReadTag\<close> at the
  end of the message, and of \<open>SkipField\<close>.\<close>

definition entry_lib_ok :: "'z in_view \<Rightarrow> 'z in_ops \<Rightarrow> ('z, 'o) wire_lib \<Rightarrow> bool" where
  "entry_lib_ok V F L \<longleftrightarrow> in_ok V F \<and> budget_kept F \<and>
     (\<forall>st. wf_in st \<and> fst (ExpectAtEnd st) \<longrightarrow> readable V st = []) \<and>
     (\<forall>st. wf_in st \<and> readable V st = [] \<longrightarrow> (\<exists>st'. io_ReadTagFallback F (first_byte st) st = (0, st') \<and>
        leaves V st st' [] \<and> ConsumedEntireMessage st')) \<and>
     (\<forall>st tag p r. wf_in st \<and> skippable tag p \<and> readable V st = p @ r \<longrightarrow>
        (\<exists>st'. wl_SkipField L st tag = (True, st') \<and> leaves V st st' r \<and>
           ci_recursion_budget st' = ci_recursion_budget st))"

lemma entry_lib_okD:
  assumes "entry_lib_ok V F L"
  shows "in_ok V F" and "budget_kept F"
    and "wf_in st \<Longrightarrow> fst (ExpectAtEnd st) \<Longrightarrow> readable V st = []"
    and "wf_in st \<Longrightarrow> readable V st = [] \<Longrightarrow> \<exists>st'. io_ReadTagFallback F (first_byte st) st = (0, st') \<and>
        leaves V st st' [] \<and> ConsumedEntireMessage st'"
    and "wf_in st \<Longrightarrow> skippable tag p \<Longrightarrow> readable V st = p @ r \<Longrightarrow>
        \<exists>st'. wl_SkipField L st tag = (True, st') \<and> leaves V st st' r \<and> ci_recursion_budget st' = ci_recursion_budget st"
  using assms unfolding entry_lib_ok_def by blast+

definition item_bytes ::
    "('k, 'ks, 'z, 'o) type_handler \<Rightarrow> ('v, 'vs, 'z, 'o) type_handler \<Rightarrow> ('k \<Rightarrow> 8 word list) \<Rightarrow> ('v \<Rightarrow> 8 word list) \<Rightarrow>
     ('k, 'v) item \<Rightarrow> 8 word list" where
  "item_bytes K H ek ev i = (case i of
       Key_item k \<Rightarrow> varint (unat (kKeyTag K)) @ ek k
     | Value_item v \<Rightarrow> varint (unat (kValueTag H)) @ ev v
     | Unknown_item tag p \<Rightarrow> varint (unat tag) @ p)"

definition item_ok ::
    "('k, 'ks, 'z, 'o) type_handler \<Rightarrow> ('v, 'vs, 'z, 'o) type_handler \<Rightarrow> ('k \<Rightarrow> bool) \<Rightarrow> ('v \<Rightarrow> bool) \<Rightarrow> ('k, 'v) item \<Rightarrow> bool" where
  "item_ok K H okk okv i \<longleftrightarrow> (case i of
       Key_item k \<Rightarrow> okk k
     | Value_item v \<Rightarrow> okv v
     | Unknown_item tag p \<Rightarrow> tag \<noteq> 0 \<and> tag \<noteq> kKeyTag K \<and> tag \<noteq> kValueTag H \<and>
         GetTagWireType tag \<noteq> wire_number WIRETYPE_END_GROUP \<and> skippable tag p)"

text \<open>The entry after one item, and after all of them.\<close>

definition after_key :: "('k, 'ks, 'z, 'o) type_handler \<Rightarrow> ('k \<Rightarrow> 'k \<Rightarrow> 'k) \<Rightarrow> 'k \<Rightarrow> ('ks, 'vs) MapEntryLite \<Rightarrow> ('ks, 'vs) MapEntryLite" where
  "after_key K jk k e = set_has_key (e\<lparr>me_key := th_assign K (jk (current_value K (me_key e)) k)\<rparr>)"

definition after_value :: "('v, 'vs, 'z, 'o) type_handler \<Rightarrow> ('v \<Rightarrow> 'v \<Rightarrow> 'v) \<Rightarrow> 'v \<Rightarrow> ('ks, 'vs) MapEntryLite \<Rightarrow> ('ks, 'vs) MapEntryLite" where
  "after_value H jv v e = set_has_value (e\<lparr>me_value := th_assign H (jv (current_value H (me_value e)) v)\<rparr>)"

definition after_item ::
    "('k, 'ks, 'z, 'o) type_handler \<Rightarrow> ('v, 'vs, 'z, 'o) type_handler \<Rightarrow> ('k \<Rightarrow> 'k \<Rightarrow> 'k) \<Rightarrow> ('v \<Rightarrow> 'v \<Rightarrow> 'v) \<Rightarrow>
     ('k, 'v) item \<Rightarrow> ('ks, 'vs) MapEntryLite \<Rightarrow> ('ks, 'vs) MapEntryLite" where
  "after_item K H jk jv i e = (case i of
       Key_item k \<Rightarrow> after_key K jk k e | Value_item v \<Rightarrow> after_value H jv v e | Unknown_item _ _ \<Rightarrow> e)"

section \<open>The parser of an entry\<close>

lemma set_has_twice:
  "set_has_key (set_has_key e) = set_has_key e" "set_has_value (set_has_value e) = set_has_value e"
  by (simp_all add: set_has_key_def set_has_value_def or.assoc)

lemma entry_tags:
  "kKeyTag K = MakeTag 1 (th_kWireType K)" "kValueTag H = MakeTag 2 (th_kWireType H)"
  "kKeyTag K \<noteq> 0" "kValueTag H \<noteq> 0" "kKeyTag K \<noteq> kValueTag H" "unat (kKeyTag K) < 128" "unat (kValueTag H) < 128"
proof -
  have k: "unat (MakeTag 1 t) = 8 + unat (wire_number t)" for t by (cases t) (simp_all add: MakeTag_def kTagTypeBits_def)
  have v: "unat (MakeTag 2 t) = 16 + unat (wire_number t)" for t by (cases t) (simp_all add: MakeTag_def kTagTypeBits_def)
  have w: "unat (wire_number t) < 8" for t by (cases t) simp_all
  have ks: "unat (MakeTag 1 t) < 16" "unat (MakeTag 2 t) < 24" "0 < unat (MakeTag 1 t)" "16 \<le> unat (MakeTag 2 t)" for t
    using k[of t] v[of t] w[of t] by simp_all
  show kt: "kKeyTag K = MakeTag 1 (th_kWireType K)" "kValueTag H = MakeTag 2 (th_kWireType H)"
    by (cases "th_kWireType K"; simp add: kKeyTag_def kKeyFieldNumber_def MakeTag_def kTagTypeBits_def)
      (cases "th_kWireType H"; simp add: kValueTag_def kValueFieldNumber_def MakeTag_def kTagTypeBits_def)
  show "kKeyTag K \<noteq> 0" "kValueTag H \<noteq> 0" "kKeyTag K \<noteq> kValueTag H" "unat (kKeyTag K) < 128" "unat (kValueTag H) < 128"
    unfolding kt using ks[of "th_kWireType K"] ks[of "th_kWireType H"] by (auto simp: unat_gt_0 dest: arg_cong[of _ _ unat])
qed

lemma read_key_item:
  assumes "handler_contract K V ek fl okk jk nk" and "okk k" and "wf_in st" and "nk \<le> ci_recursion_budget st"
    and "readable V st = ek k @ r"
  shows "\<exists>st'. read_key K st e = Inr ((True, after_key K jk k e), st') \<and> leaves V st st' r \<and>
    ci_recursion_budget st' = ci_recursion_budget st"
proof -
  let ?v = "current_value K (me_key e)"
  obtain st' where st': "th_Read K st ?v = Inr ((True, jk ?v k), st')" "leaves V st st' r"
      "ci_recursion_budget st' = ci_recursion_budget st"
    using handler_contract.reads[OF assms] by blast
  then show ?thesis using handler_contract.current_loads[OF assms(1), of "me_key e"]
    by (simp add: read_key_def mutable_key_def after_key_def set_has_key_def)
qed

lemma read_value_item:
  assumes "handler_contract H V ev fl okv jv nv" and "okv v" and "wf_in st" and "nv \<le> ci_recursion_budget st"
    and "readable V st = ev v @ r"
  shows "\<exists>st'. read_value H st e = Inr ((True, after_value H jv v e), st') \<and> leaves V st st' r \<and>
    ci_recursion_budget st' = ci_recursion_budget st"
proof -
  let ?v = "current_value H (me_value e)"
  obtain st' where st': "th_Read H st ?v = Inr ((True, jv ?v v), st')" "leaves V st st' r"
      "ci_recursion_budget st' = ci_recursion_budget st"
    using handler_contract.reads[OF assms] by blast
  then show ?thesis using handler_contract.current_loads[OF assms(1), of "me_value e"]
    by (simp add: read_value_def mutable_value_def after_value_def set_has_value_def)
qed

text \<open>A round of the loop either goes on behind some items, or has dealt with all of them.\<close>

definition went_on ::
    "'z in_view \<Rightarrow> 'z CodedInputStream \<Rightarrow> 8 word list \<Rightarrow> bool option \<Rightarrow> 'z CodedInputStream \<Rightarrow> bool" where
  "went_on V st rest res st' \<longleftrightarrow> leaves V st st' rest \<and> ci_recursion_budget st' = ci_recursion_budget st \<and>
     (res = None \<or> res = Some True \<and> rest = [] \<and> ConsumedEntireMessage st')"

lemma value_branch_item:
  assumes "entry_lib_ok V F L" and "handler_contract H V ev fl okv jv nv" and "okv v" and "wf_in st"
    and "nv \<le> ci_recursion_budget st" and "readable V st = ev v @ r"
  shows "\<exists>res st'. value_branch H st e = Inr ((res, after_value H jv v e), st') \<and> went_on V st r res st'"
proof -
  obtain st1 where st1: "read_value H st e = Inr ((True, after_value H jv v e), st1)" "leaves V st st1 r"
      "ci_recursion_budget st1 = ci_recursion_budget st"
    using read_value_item[OF assms(2-6)] by blast
  have bits: "set_has_value (after_value H jv v e) = after_value H jv v e" by (simp add: after_value_def set_has_twice)
  obtain b st2 where st2: "ExpectAtEnd st1 = (b, st2)" by (cases "ExpectAtEnd st1")
  show ?thesis
  proof (cases b)
    case True
    then have "readable V st1 = []" using entry_lib_okD(3)[OF assms(1), of st1] st1(2) st2 by (simp add: leaves_def)
    then have r: "r = []" using st1(2) by (simp add: leaves_def)
    have "st2 = st1\<lparr>ci_last_tag := 0, ci_legitimate_message_end := True\<rparr>"
      using st2 True by (auto simp: ExpectAtEnd_def split: if_splits)
    then have "leaves V st st2 r" "ci_recursion_budget st2 = ci_recursion_budget st1"
      using leaves_message_end[OF in_okD(1)[OF entry_lib_okD(1)[OF assms(1)]]
          leaves_last_tag[OF in_okD(1)[OF entry_lib_okD(1)[OF assms(1)]] st1(2)]] by simp_all
    then have "went_on V st r (Some True) st2"
      using r st1(3) ExpectAtEnd_answers[OF st2 True] by (simp add: went_on_def)
    then show ?thesis using st1(1) st2 True bits by (simp add: value_branch_def)
  next
    case False
    then have "st2 = st1" using st2 by (auto simp: ExpectAtEnd_def split: if_splits)
    then have "went_on V st r None st2" using st1 by (simp add: went_on_def)
    then show ?thesis using st1(1) st2 False bits by (simp add: value_branch_def)
  qed
qed

definition item_tag :: "('k, 'ks, 'z, 'o) type_handler \<Rightarrow> ('v, 'vs, 'z, 'o) type_handler \<Rightarrow> ('k, 'v) item \<Rightarrow> 32 word" where
  "item_tag K H i = (case i of Key_item k \<Rightarrow> kKeyTag K | Value_item v \<Rightarrow> kValueTag H | Unknown_item tag p \<Rightarrow> tag)"

definition item_payload :: "('k \<Rightarrow> 8 word list) \<Rightarrow> ('v \<Rightarrow> 8 word list) \<Rightarrow> ('k, 'v) item \<Rightarrow> 8 word list" where
  "item_payload ek ev i = (case i of Key_item k \<Rightarrow> ek k | Value_item v \<Rightarrow> ev v | Unknown_item tag p \<Rightarrow> p)"

lemma item_bytes_tag: "item_bytes K H ek ev i = varint (unat (item_tag K H i)) @ item_payload ek ev i"
  by (cases i) (simp_all add: item_bytes_def item_tag_def item_payload_def)

lemma decode_tag: "decode_varint kMaxVarintBytes (varint (unat (t :: 32 word)) @ r) = Some (unat t, r)"
  using unat_less32[of t] by (intro decode_varint_64) simp

lemma ReadTag_encoded:
  assumes "in_ok V F" and "budget_kept F" and "wf_in st" and "readable V st = varint (unat tag) @ r"
  shows "\<exists>st'. ReadTag F st = Inr (tag, st') \<and> leaves V st st' r \<and> ci_recursion_budget st' = ci_recursion_budget st"
proof -
  obtain t st' where "ReadTag F st = Inr (t, st')" "reads_tag V st t st'"
    using ReadTag_reads[OF assms(1,3)] by blast
  then show ?thesis using reads_keep_budget(3)[OF assms(2)] decode_tag[of tag r]
    by (simp add: reads_tag_def assms(4))
qed

lemma ReadTag_at_end:
  assumes "entry_lib_ok V F L" and "wf_in st" and "readable V st = []"
  shows "\<exists>st'. ReadTag F st = Inr (0, st') \<and> leaves V st st' [] \<and> ConsumedEntireMessage st' \<and>
    ci_recursion_budget st' = ci_recursion_budget st"
proof -
  have w: "window st = []" using assms(3) by (simp add: readable_def)
  obtain st' where st': "io_ReadTagFallback F 0 st = (0, st')" "leaves V st st' []" "ConsumedEntireMessage st'"
    using entry_lib_okD(4)[OF assms] w by (auto simp: first_byte_def)
  have r: "ReadTag F st = Inr (0, st'\<lparr>ci_last_tag := 0\<rparr>)"
    using st'(1) w window_empty[OF assms(2)] by (simp add: ReadTag_def)
  then show ?thesis
    using leaves_last_tag[OF in_okD(1)[OF entry_lib_okD(1)[OF assms(1)]] st'(2)] st'(3)
      reads_keep_budget(3)[OF entry_lib_okD(2)[OF assms(1)] r]
    by (simp add: ConsumedEntireMessage_def)
qed

lemma went_on_trans:
  "leaves V st st1 r1 \<Longrightarrow> ci_recursion_budget st1 = ci_recursion_budget st \<Longrightarrow> went_on V st1 r res st2 \<Longrightarrow> went_on V st r res st2"
  by (auto simp: went_on_def leaves_def)

lemma entry_round_item:
  assumes lib: "entry_lib_ok V F L" and KC: "handler_contract K V ek fl okk jk nk" and HC: "handler_contract H V ev fl okv jv nv"
    and oks: "list_all (item_ok K H okk okv) (i # is)" and wf: "wf_in st"
    and b: "nk \<le> ci_recursion_budget st" "nv \<le> ci_recursion_budget st"
    and rd: "readable V st = concat (map (item_bytes K H ek ev) (i # is))"
  shows "\<exists>j res st'. 1 \<le> j \<and> j \<le> length (i # is) \<and>
    entry_round F L K H st e = Inr ((res, fold (after_item K H jk jv) (take j (i # is)) e), st') \<and>
    went_on V st (concat (map (item_bytes K H ek ev) (drop j (i # is)))) res st'"
proof -
  let ?rest = "concat (map (item_bytes K H ek ev) is)"
  obtain st1 where st1: "ReadTag F st = Inr (item_tag K H i, st1)" "leaves V st st1 (item_payload ek ev i @ ?rest)"
      "ci_recursion_budget st1 = ci_recursion_budget st"
    using ReadTag_encoded[OF entry_lib_okD(1,2)[OF lib] wf, of "item_tag K H i"] rd by (auto simp: item_bytes_tag)
  then have wf1: "wf_in st1" and rd1: "readable V st1 = item_payload ek ev i @ ?rest" by (simp_all add: leaves_def)
  show ?thesis
  proof (cases i)
    case (Key_item k)
    have okk: "okk k" using oks Key_item by (simp add: item_ok_def)
    obtain st2 where st2: "read_key K st1 e = Inr ((True, after_key K jk k e), st2)" "leaves V st1 st2 ?rest"
        "ci_recursion_budget st2 = ci_recursion_budget st1"
      using read_key_item[OF KC okk wf1] b(1) st1(3) rd1 Key_item by (auto simp: item_payload_def)
    have bits: "set_has_key (after_key K jk k e) = after_key K jk k e" by (simp add: after_key_def set_has_twice)
    have wf2: "wf_in st2" and rd2: "readable V st2 = ?rest" using st2(2) by (simp_all add: leaves_def)
    obtain found st3 where st3: "ExpectTag (kValueTag H) st2 = Inr (found, st3)" "expect_answer V (kValueTag H) st2 found st3"
      using ExpectTag_answers[OF in_okD(1)[OF entry_lib_okD(1)[OF lib]] wf2] by blast
    have round1: "entry_round F L K H st e = (if \<not> found then Inr ((None, after_key K jk k e), st3)
        else value_branch H st3 (after_key K jk k e))"
      using st1(1) st2(1) st3(1) bits Key_item by (simp add: entry_round_def item_tag_def)
    show ?thesis
    proof (cases found)
      case False
      then have "st3 = st2" using st3(2) by (simp add: expect_answer_def)
      then have "went_on V st ?rest None st3" using st1 st2 by (simp add: went_on_def leaves_def)
      then show ?thesis using round1 False Key_item
        by (intro exI[of _ 1] exI[of _ None] exI[of _ st3]) (simp add: after_item_def)
    next
      case True
      then obtain r where r: "decode_varint kMaxVarintBytes ?rest = Some (unat (kValueTag H), r)" "leaves V st2 st3 r"
        using st3(2) rd2 by (auto simp: expect_answer_def)
      then obtain i2 is2 where is2: "is = i2 # is2" by (cases "is") (auto simp: kMaxVarintBytes_def numeral_eq_Suc)
      let ?rest2 = "concat (map (item_bytes K H ek ev) is2)"
      have "unat (item_tag K H i2) = unat (kValueTag H)" and rr: "r = item_payload ek ev i2 @ ?rest2"
        using r(1) decode_tag[of "item_tag K H i2" "item_payload ek ev i2 @ ?rest2"] by (simp_all add: is2 item_bytes_tag)
      then have "item_tag K H i2 = kValueTag H" by (simp add: word_unat_eq_iff)
      then obtain v where v: "i2 = Value_item v" "okv v"
        using oks is2 entry_tags(5)[of K H] by (cases i2) (auto simp: item_tag_def item_ok_def)
      have wf3: "wf_in st3" and rd3: "readable V st3 = ev v @ ?rest2" and b3: "ci_recursion_budget st3 = ci_recursion_budget st2"
        using r(2) rr v st3(1) by (auto simp: leaves_def item_payload_def ExpectTag_def ci_Advance_def bnd_eq_Inr split: if_splits)
      have b4: "nv \<le> ci_recursion_budget st3" using b(2) st1(3) st2(3) b3 by simp
      obtain res st' where vb: "value_branch H st3 (after_key K jk k e) = Inr ((res, after_value H jv v (after_key K jk k e)), st')"
          "went_on V st3 ?rest2 res st'"
        using value_branch_item[OF lib HC v(2) wf3 b4 rd3] by blast
      have "leaves V st st3 r" using st1(2) st2(2) r(2) by (simp add: leaves_def)
      then have "went_on V st ?rest2 res st'" using went_on_trans vb(2) b3 st1(3) st2(3) by metis
      then show ?thesis using round1 True vb(1) is2 v Key_item
        by (intro exI[of _ 2] exI[of _ res] exI[of _ st']) (simp add: after_item_def numeral_2_eq_2)
    qed
  next
    case (Value_item v)
    have okv: "okv v" using oks Value_item by (simp add: item_ok_def)
    have b1: "nv \<le> ci_recursion_budget st1" "readable V st1 = ev v @ ?rest"
      using b(2) st1(3) rd1 Value_item by (simp_all add: item_payload_def)
    obtain res st' where vb: "value_branch H st1 e = Inr ((res, after_value H jv v e), st')" "went_on V st1 ?rest res st'"
      using value_branch_item[OF lib HC okv wf1 b1] by blast
    moreover have "entry_round F L K H st e = value_branch H st1 e"
      using st1(1) Value_item entry_tags(5)[of K H] by (auto simp: entry_round_def item_tag_def)
    ultimately show ?thesis using went_on_trans[OF st1(2,3)] Value_item
      by (intro exI[of _ 1] exI[of _ res] exI[of _ st']) (simp add: after_item_def)
  next
    case (Unknown_item tag p)
    then have t: "tag \<noteq> 0" "tag \<noteq> kKeyTag K" "tag \<noteq> kValueTag H" "GetTagWireType tag \<noteq> wire_number WIRETYPE_END_GROUP"
        "skippable tag p"
      using oks by (simp_all add: item_ok_def)
    obtain st' where st': "wl_SkipField L st1 tag = (True, st')" "leaves V st1 st' ?rest"
        "ci_recursion_budget st' = ci_recursion_budget st1"
      using entry_lib_okD(5)[OF lib wf1 t(5)] rd1 Unknown_item by (auto simp: item_payload_def)
    have "entry_round F L K H st e = Inr ((None, e), st')"
      using st1(1) st'(1) t Unknown_item by (simp add: entry_round_def item_tag_def)
    moreover have "went_on V st ?rest None st'" using st1 st' by (simp add: went_on_def leaves_def)
    ultimately show ?thesis using Unknown_item
      by (intro exI[of _ 1] exI[of _ None] exI[of _ st']) (simp add: after_item_def)
  qed
qed

lemma entry_loop_items:
  assumes lib: "entry_lib_ok V F L" and KC: "handler_contract K V ek fl okk jk nk" and HC: "handler_contract H V ev fl okv jv nv"
    and "list_all (item_ok K H okk okv) items" and "wf_in st"
    and "nk \<le> ci_recursion_budget st" and "nv \<le> ci_recursion_budget st"
    and "readable V st = concat (map (item_bytes K H ek ev) items)" and "length items < fuel"
  shows "\<exists>st'. entry_loop F L K H fuel st e = Some (Inr ((True, fold (after_item K H jk jv) items e), st')) \<and>
    leaves V st st' [] \<and> ConsumedEntireMessage st' \<and> ci_recursion_budget st' = ci_recursion_budget st"
  using assms(4-)
proof (induction fuel arbitrary: items st e)
  case 0
  then show ?case by simp
next
  case (Suc fuel)
  show ?case
  proof (cases items)
    case Nil
    obtain st' where st': "ReadTag F st = Inr (0, st')" "leaves V st st' []" "ConsumedEntireMessage st'"
        "ci_recursion_budget st' = ci_recursion_budget st"
      using ReadTag_at_end[OF lib Suc.prems(2)] Suc.prems(5) Nil by auto
    then have "entry_round F L K H st e = Inr ((Some True, e), st')"
      using entry_tags(3)[of K] entry_tags(4)[of H] by (auto simp: entry_round_def)
    then show ?thesis using st' Nil by simp
  next
    case (Cons i "is")
    obtain j res st1 where j: "1 \<le> j" "j \<le> length items"
        "entry_round F L K H st e = Inr ((res, fold (after_item K H jk jv) (take j items) e), st1)"
        "went_on V st (concat (map (item_bytes K H ek ev) (drop j items))) res st1"
      using entry_round_item[OF lib KC HC Suc.prems(1)[unfolded Cons] Suc.prems(2-4) Suc.prems(5)[unfolded Cons]] Cons
      by blast
    have all: "fold (after_item K H jk jv) (drop j items) (fold (after_item K H jk jv) (take j items) e) =
        fold (after_item K H jk jv) items e"
      by (metis append_take_drop_id fold_append o_apply)
    show ?thesis
    proof (cases "res = None")
      case True
      have oks: "list_all (item_ok K H okk okv) (drop j items)"
        using Suc.prems(1) set_drop_subset[of j items] by (auto simp: list_all_iff)
      have wf1: "wf_in st1" and rd1: "readable V st1 = concat (map (item_bytes K H ek ev) (drop j items))"
        and b1: "ci_recursion_budget st1 = ci_recursion_budget st"
        using j(4) by (simp_all add: went_on_def leaves_def)
      have "length (drop j items) < fuel" using j(1,2) Suc.prems(6) by simp
      then obtain st' where "entry_loop F L K H fuel st1 (fold (after_item K H jk jv) (take j items) e) =
            Some (Inr ((True, fold (after_item K H jk jv) items e), st'))"
          "leaves V st1 st' []" "ConsumedEntireMessage st'" "ci_recursion_budget st' = ci_recursion_budget st1"
        using Suc.IH[OF oks wf1 _ _ rd1, of "fold (after_item K H jk jv) (take j items) e"] Suc.prems(3,4) b1 all by auto
      then show ?thesis using j(3,4) True b1 by (auto simp: went_on_def leaves_def)
    next
      case False
      then have r: "res = Some True" "concat (map (item_bytes K H ek ev) (drop j items)) = []" "ConsumedEntireMessage st1"
        "ci_recursion_budget st1 = ci_recursion_budget st"
        using j(4) by (auto simp: went_on_def simp del: concat_eq_Nil_conv)
      have lv: "leaves V st st1 []" using j(4) unfolding went_on_def r(2) by simp
      have "varint n \<noteq> []" for n by (subst varint.simps) simp
      then have "item_bytes K H ek ev x \<noteq> []" for x by (simp add: item_bytes_tag)
      then have "drop j items = []" using r(2) by (cases "drop j items") auto
      then have "fold (after_item K H jk jv) (take j items) e = fold (after_item K H jk jv) items e" by simp
      then show ?thesis using j(3) r lv by simp
    qed
  qed
qed

section \<open>The entry after its items\<close>

definition item_keys :: "('k, 'v) item list \<Rightarrow> 'k list" where
  "item_keys items = concat (map (\<lambda>i. case i of Key_item k \<Rightarrow> [k] | _ \<Rightarrow> []) items)"

definition item_values :: "('k, 'v) item list \<Rightarrow> 'v list" where
  "item_values items = concat (map (\<lambda>i. case i of Value_item v \<Rightarrow> [v] | _ \<Rightarrow> []) items)"

lemma item_lists [simp]:
  "item_keys [] = []" "item_keys (Key_item k # is) = k # item_keys is" "item_keys (Value_item v # is) = item_keys is"
  "item_keys (Unknown_item t p # is) = item_keys is"
  "item_values [] = []" "item_values (Key_item k # is) = item_values is" "item_values (Value_item v # is) = v # item_values is"
  "item_values (Unknown_item t p # is) = item_values is"
  by (simp_all add: item_keys_def item_values_def)

lemma after_items [simp]:
  "after_item K H jk jv (Key_item k) e = after_key K jk k e" "after_item K H jk jv (Value_item v) e = after_value H jv v e"
  "after_item K H jk jv (Unknown_item t p) e = e"
  by (simp_all add: after_item_def)

lemma has_updates [simp]:
  "has_key (e\<lparr>me_key := a\<rparr>) = has_key e" "has_value (e\<lparr>me_value := b\<rparr>) = has_value e"
  "has_key (e\<lparr>me_value := b\<rparr>) = has_key e" "has_value (e\<lparr>me_key := a\<rparr>) = has_value e"
  by (simp_all add: has_key_def has_value_def)

lemma has_bits [simp]:
  "has_key (set_has_key e)" "has_value (set_has_value e)" "has_key (set_has_value e) = has_key e"
  "has_value (set_has_key e) = has_value e"
proof -
  have one: "x AND 1 = 0 \<longleftrightarrow> \<not> bit x 0" and two: "x AND 2 = 0 \<longleftrightarrow> \<not> bit x 1" for x :: "32 word"
    using and_exp_eq_0_iff_not_bit[of x 0] and_exp_eq_0_iff_not_bit[of x 1] by simp_all
  show "has_key (set_has_key e)" "has_value (set_has_value e)" "has_key (set_has_value e) = has_key e"
    "has_value (set_has_key e) = has_value e"
    by (simp_all add: has_key_def has_value_def set_has_key_def set_has_value_def one two bit_simps)
qed

lemma after_items_has:
  "has_key (fold (after_item K H jk jv) items e) \<longleftrightarrow> has_key e \<or> item_keys items \<noteq> []"
  "has_value (fold (after_item K H jk jv) items e) \<longleftrightarrow> has_value e \<or> item_values items \<noteq> []"
proof (induction items arbitrary: e)
  case (Cons i "is")
  {
    case 1
    show ?case using Cons.IH(1) by (cases i) (simp_all add: after_key_def after_value_def)
  next
    case 2
    show ?case using Cons.IH(2) by (cases i) (simp_all add: after_key_def after_value_def)
  }
qed simp_all

lemma set_has_fields [simp]: "me_key (set_has_key e) = me_key e" "me_value (set_has_key e) = me_value e"
  "me_key (set_has_value e) = me_key e" "me_value (set_has_value e) = me_value e"
  "me_default_instance (set_has_key e) = me_default_instance e" "me_default_instance (set_has_value e) = me_default_instance e"
  by (simp_all add: set_has_key_def set_has_value_def)

lemma after_items_key:
  assumes "handler_contract K V ek fl okk jk nk"
  shows "item_keys items = [] \<Longrightarrow> me_key (fold (after_item K H jk jv) items e) = me_key e"
    and "item_keys items \<noteq> [] \<Longrightarrow> me_key (fold (after_item K H jk jv) items e) =
      th_assign K (fold (\<lambda>k x. jk x k) (item_keys items) (current_value K (me_key e)))"
proof (induction items arbitrary: e)
  case (Cons i "is")
  {
    case 1
    then show ?case using Cons.IH(1)
      by (cases i) (simp_all add: after_key_def after_value_def)
  next
    case 2
    show ?case
    proof (cases i)
      case (Key_item k)
      let ?e = "after_key K jk k e"
      have "me_key ?e = th_assign K (jk (current_value K (me_key e)) k)" by (simp add: after_key_def)
      then show ?thesis using Cons.IH[of ?e] Key_item handler_contract.current_assign[OF assms]
        by (cases "item_keys is = []") simp_all
    qed (use 2 Cons.IH(2) in \<open>simp_all add: after_value_def\<close>)
  }
qed simp_all

lemma after_items_value:
  assumes "handler_contract H V ev fl okv jv nv"
  shows "item_values items = [] \<Longrightarrow> me_value (fold (after_item K H jk jv) items e) = me_value e"
    and "item_values items \<noteq> [] \<Longrightarrow> me_value (fold (after_item K H jk jv) items e) =
      th_assign H (fold (\<lambda>v x. jv x v) (item_values items) (current_value H (me_value e)))"
proof (induction items arbitrary: e)
  case (Cons i "is")
  {
    case 1
    then show ?case using Cons.IH(1)
      by (cases i) (simp_all add: after_key_def after_value_def)
  next
    case 2
    show ?case
    proof (cases i)
      case (Value_item v)
      let ?e = "after_value H jv v e"
      have "me_value ?e = th_assign H (jv (current_value H (me_value e)) v)" by (simp add: after_value_def)
      then show ?thesis using Cons.IH[of ?e] Value_item handler_contract.current_assign[OF assms]
        by (cases "item_values is = []") simp_all
    qed (use 2 Cons.IH(2) in \<open>simp_all add: after_key_def\<close>)
  }
qed simp_all

text \<open>C31: an entry may carry its key and value in any order, more than once and among unknown fields:
  the parser returns true with the last key and the last value (a message value is merged from all of
  them), has the has-bits of what it saw, leaves a missing key or value as it was, and stands at the end
  of the message; the shortcut from a key to the value behind it and the early return change nothing.\<close>

theorem map_entry_parses:
  assumes "entry_lib_ok V F L" and "handler_contract K V ek fl okk jk nk" and "handler_contract H V ev fl okv jv nv"
    and "list_all (item_ok K H okk okv) items" and "wf_in st"
    and "nk \<le> ci_recursion_budget st" and "nv \<le> ci_recursion_budget st"
    and "readable V st = concat (map (item_bytes K H ek ev) items)" and "length items < fuel"
  shows "\<exists>e' st'. entry_loop F L K H fuel st e = Some (Inr ((True, e'), st')) \<and>
    leaves V st st' [] \<and> ConsumedEntireMessage st' \<and>
    (has_key e' \<longleftrightarrow> has_key e \<or> item_keys items \<noteq> []) \<and> (has_value e' \<longleftrightarrow> has_value e \<or> item_values items \<noteq> []) \<and>
    me_key e' = (if item_keys items = [] then me_key e
      else th_assign K (fold (\<lambda>k x. jk x k) (item_keys items) (current_value K (me_key e)))) \<and>
    me_value e' = (if item_values items = [] then me_value e
      else th_assign H (fold (\<lambda>v x. jv x v) (item_values items) (current_value H (me_value e))))"
  using entry_loop_items[OF assms, of e] after_items_has[of K H jk jv items e]
    after_items_key[OF assms(2), of items H jv e] after_items_value[OF assms(3), of items K jk e]
  by auto

section \<open>The writers of an entry\<close>

definition entry_bytes ::
    "('k, 'ks, 'z, 'o) type_handler \<Rightarrow> ('v, 'vs, 'z, 'o) type_handler \<Rightarrow> ('k \<Rightarrow> 8 word list) \<Rightarrow> ('v \<Rightarrow> 8 word list) \<Rightarrow>
     'k \<Rightarrow> 'v \<Rightarrow> 8 word list" where
  "entry_bytes K H ek ev k v = item_bytes K H ek ev (Key_item k) @ item_bytes K H ek ev (Value_item v)"

lemma entry_bytes_is:
  "entry_bytes K H ek ev k v = (varint (unat (MakeTag 1 (th_kWireType K))) @ ek k) @
    (varint (unat (MakeTag 2 (th_kWireType H))) @ ev v)"
  by (simp add: entry_bytes_def item_bytes_def entry_tags)

lemma entry_writers:
  assumes "handler_contract K V ek fl okk jk nk" and "handler_contract H V ev fl okv jv nv" and "okk k" and "okv v"
    and "ev_key e = Inr k" and "ev_value e = Inr v"
  shows "writes (entry_SerializeWithCachedSizesToArray K H e) (entry_bytes K H ek ev k v)"
    and "appends fl (entry_SerializeWithCachedSizes K H e) (entry_bytes K H ek ev k v)"
proof -
  note w = handler_contract.writes_field[OF assms(1,3), of 1] handler_contract.writes_field[OF assms(2,4), of 2]
  show "writes (entry_SerializeWithCachedSizesToArray K H e) (entry_bytes K H ek ev k v)"
    by (rule writes_cong[OF writes_seq[OF w]])
      (simp_all add: entry_SerializeWithCachedSizesToArray_def assms(5,6) kKeyFieldNumber_def kValueFieldNumber_def entry_bytes_is)
  have stream: "entry_SerializeWithCachedSizes K H e = (\<lambda>st. bnd (th_Write K 1 k st) (th_Write H 2 v))"
    by (rule ext) (simp add: entry_SerializeWithCachedSizes_def assms(5,6) kKeyFieldNumber_def kValueFieldNumber_def)
  note a = handler_contract.appends_field[OF assms(1,3), of 1] handler_contract.appends_field[OF assms(2,4), of 2]
  show "appends fl (entry_SerializeWithCachedSizes K H e) (entry_bytes K H ek ev k v)"
    using appends_seq[OF a] unfolding stream entry_bytes_is .
qed

lemma entry_lengths:
  assumes "handler_contract K V ek fl okk jk nk" and "handler_contract H V ev fl okv jv nv" and "okk k" and "okv v"
  shows "int (length (entry_bytes K H ek ev k v)) = kTagSize + th_ByteSize K k + (kTagSize + th_ByteSize H v)"
    and "0 < kTagSize + th_ByteSize K k" and "0 < kTagSize + th_ByteSize H v"
    and "th_GetCachedSize K k = th_ByteSize K k" and "th_GetCachedSize H v = th_ByteSize H v"
  using handler_contract.field_length[OF assms(1,3), of 1] handler_contract.field_length[OF assms(2,4), of 2]
    handler_contract.sizes[OF assms(1,3)] handler_contract.sizes[OF assms(2,4)]
    entry_tags(6)[of K, unfolded entry_tags(1)] entry_tags(7)[of H, unfolded entry_tags(2)]
  unfolding entry_bytes_is by (simp_all add: kTagSize_def)

text \<open>Writing an entry, to a target or to a stream, produces its key field and its value field; the
  two size functions agree with each other, and with what is written exactly when both has-bits are set:
  the writers do not look at them. A wrapper sets both, an entry that was parsed without a key or value
  does not.\<close>

theorem map_entry_sizes:
  assumes "handler_contract K V ek fl okk jk nk" and "handler_contract H V ev fl okv jv nv" and "okk k" and "okv v"
    and "ev_key e = Inr k" and "ev_value e = Inr v"
  shows "writes (entry_SerializeWithCachedSizesToArray K H e) (entry_bytes K H ek ev k v) \<and>
    appends fl (entry_SerializeWithCachedSizes K H e) (entry_bytes K H ek ev k v) \<and>
    (\<exists>n. entry_ByteSize K H e = Inr n \<and> entry_GetCachedSize K H e = Inr n \<and>
       (n = int (length (entry_bytes K H ek ev k v)) \<longleftrightarrow> ev_has_key e \<and> ev_has_value e))"
  using entry_writers[OF assms] entry_lengths[OF assms(1-4)] assms(5,6)
  by (simp add: entry_ByteSize_def entry_GetCachedSize_def)

text \<open>A message value that was never set: \<open>IsInitialized\<close> follows the null pointer.\<close>

lemma IsInitialized_null_message:
  "entry_IsInitialized (message_handler F W M) (MapEntryLite_new K (message_handler F W M) d arena) = Inl NullDeref"
  by (simp add: entry_IsInitialized_def message_handler_def MapEntryLite_new_def deref_message_def)

section \<open>An entry as an embedded message\<close>

definition entry_message ::
    "('k, 'ks, 'z, 'o) type_handler \<Rightarrow> ('v, 'vs, 'z, 'o) type_handler \<Rightarrow> ('k \<times> 'v, 'o) message_out" where
  "entry_message K H = \<lparr>
     mo_ByteSize = \<lambda>(k, v). projr (entry_ByteSize K H (MapEntryWrapper k v)),
     mo_GetCachedSize = \<lambda>(k, v). projr (entry_GetCachedSize K H (MapEntryWrapper k v)),
     mo_SerializeWithCachedSizes = \<lambda>(k, v). entry_SerializeWithCachedSizes K H (MapEntryWrapper k v),
     mo_SerializeWithCachedSizesToArray = \<lambda>(k, v). entry_SerializeWithCachedSizesToArray K H (MapEntryWrapper k v)\<rparr>"

definition entry_merge ::
    "'z in_ops \<Rightarrow> ('z, 'o) wire_lib \<Rightarrow> ('k, 'ks, 'z, 'o) type_handler \<Rightarrow> ('v, 'vs, 'z, 'o) type_handler \<Rightarrow> nat \<Rightarrow>
     (('ks, 'vs) MapEntryLite, 'z) merge" where
  "entry_merge F L K H fuel e input =
    (case entry_loop F L K H fuel input e of Some (Inr r) \<Rightarrow> r | _ \<Rightarrow> ((False, e), input))"

lemma entry_parses:
  assumes "entry_lib_ok V F L" and "handler_contract K V ek fl okk jk nk" and "handler_contract H V ev fl okv jv nv"
    and "okk k" and "okv v" and "2 < fuel"
  shows "parses V (max 0 (max nk nv)) (entry_merge F L K H fuel) e (entry_bytes K H ek ev k v)
    (after_value H jv v (after_key K jk k e))"
  unfolding parses_def
proof (intro conjI allI impI, simp, elim conjE)
  fix st
  assume st: "wf_in st" "readable V st = entry_bytes K H ek ev k v" "max 0 (max nk nv) \<le> ci_recursion_budget st"
  have "list_all (item_ok K H okk okv) [Key_item k, Value_item v]" using assms(4,5) by (simp add: item_ok_def)
  moreover have "readable V st = concat (map (item_bytes K H ek ev) [Key_item k, Value_item v])"
    using st(2) by (simp add: entry_bytes_def)
  ultimately show "\<exists>st'. entry_merge F L K H fuel e st = ((True, after_value H jv v (after_key K jk k e)), st') \<and>
      leaves V st st' [] \<and> ConsumedEntireMessage st' \<and> ci_recursion_budget st' = ci_recursion_budget st"
    using entry_loop_items[OF assms(1-3) _ st(1), of "[Key_item k, Value_item v]" fuel e] st(3) assms(6)
    by (auto simp: entry_merge_def)
qed

text \<open>A pair, written through the wrapper as an embedded message, is merged into whatever the entry held.\<close>

lemma map_entry_merges:
  assumes "entry_lib_ok V F L" and "nesting_ok V F" and "handler_contract K V ek fl okk jk nk"
    and "handler_contract H V ev fl okv jv nv" and "okk k" and "okv v" and "2 < fuel" and "wf_in st"
    and "max 0 (max nk nv) < ci_recursion_budget st" and "length (entry_bytes K H ek ev k v) < 2 ^ 31"
    and "readable V st = varint (length (entry_bytes K H ek ev k v)) @ entry_bytes K H ek ev k v @ r"
  shows "writes (WriteMessageToArray (entry_message K H) n (k, v))
      (varint (unat (MakeTag n WIRETYPE_LENGTH_DELIMITED)) @ varint (length (entry_bytes K H ek ev k v)) @
       entry_bytes K H ek ev k v) \<and>
    (\<exists>e' st'. ReadMessageNoVirtual F (entry_merge F L K H fuel) st e = Inr ((True, e'), st') \<and>
       wf_in st' \<and> readable V st' = r \<and> ci_recursion_budget st' = ci_recursion_budget st \<and>
       has_key e' \<and> has_value e' \<and> entry_key K e' = Inr (jk (current_value K (me_key e)) k) \<and>
       th_DefaultIfNotInitialized H (me_value e') (me_default_instance e') = Inr (jv (current_value H (me_value e)) v))"
proof -
  let ?e' = "after_value H jv v (after_key K jk k e)"
  have w: "writes (mo_SerializeWithCachedSizesToArray (entry_message K H) (k, v)) (entry_bytes K H ek ev k v)"
    using entry_writers(1)[OF assms(3-6), of "MapEntryWrapper k v"] by (simp add: entry_message_def MapEntryWrapper_def)
  have s: "mo_GetCachedSize (entry_message K H) (k, v) = int (length (entry_bytes K H ek ev k v))"
    using entry_lengths[OF assms(3-6)] by (simp add: entry_message_def entry_GetCachedSize_def MapEntryWrapper_def)
  obtain st' where st': "ReadMessage F (entry_merge F L K H fuel) st e = Inr ((True, ?e'), st')" "wf_in st'"
      "readable V st' = r" "ci_recursion_budget st' = ci_recursion_budget st"
    using ReadMessage_nested(2)[OF entry_lib_okD(1)[OF assms(1)] assms(2,8,10,11,9)
        entry_parses[OF assms(1,3-7)], of e] by blast
  have "has_key ?e'" "has_value ?e'" "entry_key K ?e' = Inr (jk (current_value K (me_key e)) k)"
    "th_DefaultIfNotInitialized H (me_value ?e') (me_default_instance ?e') = Inr (jv (current_value H (me_value e)) v)"
    using handler_contract.load_assign[OF assms(3)] handler_contract.default_assign[OF assms(4)]
    by (simp_all add: after_key_def after_value_def entry_key_def)
  then show ?thesis using message_writes[OF w s assms(10)] st' by (simp add: ReadMessage_NoVirtual)
qed

text \<open>C30: a pair of the map, written through the wrapper as an embedded message, is read back from any
  stream that holds these bytes into an entry whose key and value slots are as the constructor leaves them:
  the entry then has exactly the pair's key and value and both has-bits, and the stream stands behind it
  with its recursion budget restored. Key and value are of any types that keep the contract of a type
  handler: the primitive types, strings and bytes, and messages that parse to themselves in a new message.\<close>

theorem map_entry_round_trip:
  assumes "entry_lib_ok V F L" and "nesting_ok V F" and "handler_contract K V ek fl okk jk nk"
    and "handler_contract H V ev fl okv jv nv" and "okk k" and "okv v" and "2 < fuel" and "wf_in st"
    and "max 0 (max nk nv) < ci_recursion_budget st" and "length (entry_bytes K H ek ev k v) < 2 ^ 31"
    and "readable V st = varint (length (entry_bytes K H ek ev k v)) @ entry_bytes K H ek ev k v @ r"
    and "me_key e = th_Initialize K" and "me_value e = th_InitializeMaybeByDefaultEnum H dflt"
  shows "writes (WriteMessageToArray (entry_message K H) n (k, v))
      (varint (unat (MakeTag n WIRETYPE_LENGTH_DELIMITED)) @ varint (length (entry_bytes K H ek ev k v)) @
       entry_bytes K H ek ev k v) \<and>
    (\<exists>e' st'. ReadMessageNoVirtual F (entry_merge F L K H fuel) st e = Inr ((True, e'), st') \<and>
       wf_in st' \<and> readable V st' = r \<and> ci_recursion_budget st' = ci_recursion_budget st \<and>
       has_key e' \<and> has_value e' \<and> entry_key K e' = Inr k \<and>
       th_DefaultIfNotInitialized H (me_value e') (me_default_instance e') = Inr v)"
  using map_entry_merges[OF assms(1-11), of n e] handler_contract.joins_fresh[OF assms(3,5)]
    handler_contract.joins_fresh[OF assms(4,6)] unfolding assms(12,13) by simp

section \<open>A library over a flat buffer\<close>

definition flat_ReadBytes :: "'z CodedInputStream \<Rightarrow> 8 word list \<Rightarrow> (bool \<times> 8 word list) \<times> 'z CodedInputStream" where
  "flat_ReadBytes st v0 = (case flat_varint st of
       None \<Rightarrow> ((False, v0), st)
     | Some (n, st') \<Rightarrow> if n \<le> length (window st') then ((True, take n (window st')), ci_Advance (int n) st')
         else ((False, v0), st'))"

definition flat_skip :: "nat \<Rightarrow> 'z CodedInputStream \<Rightarrow> bool \<times> 'z CodedInputStream" where
  "flat_skip n st = (if n \<le> length (window st) then (True, ci_Advance (int n) st) else (False, st))"

definition flat_SkipField :: "'z CodedInputStream \<Rightarrow> 32 word \<Rightarrow> bool \<times> 'z CodedInputStream" where
  "flat_SkipField st tag =
    (let t = GetTagWireType tag in
     if t = wire_number WIRETYPE_VARINT then (case flat_varint st of None \<Rightarrow> (False, st) | Some (n, st') \<Rightarrow> (True, st'))
     else if t = wire_number WIRETYPE_FIXED64 then flat_skip 8 st
     else if t = wire_number WIRETYPE_FIXED32 then flat_skip 4 st
     else if t = wire_number WIRETYPE_LENGTH_DELIMITED
       then (case flat_varint st of None \<Rightarrow> (False, st) | Some (n, st') \<Rightarrow> flat_skip n st')
     else (False, st))"

definition flat_lib :: "('z, 8 word list) wire_lib" where
  "flat_lib = \<lparr>wl_ReadBytes = flat_ReadBytes, wl_SkipField = flat_SkipField,
     wl_WriteField = \<lambda>ft k v st. Inr (sink_put (encode_field k ft v) st),
     wl_WriteString = \<lambda>k s st. Inr (sink_put (varint (unat (MakeTag k WIRETYPE_LENGTH_DELIMITED)) @ varint (length s) @ s) st),
     wl_WriteBytes = \<lambda>k s st. Inr (sink_put (varint (unat (MakeTag k WIRETYPE_LENGTH_DELIMITED)) @ varint (length s) @ s) st)\<rparr>"

lemma flat_fields_ok: "fields_ok sink_bytes flat_lib"
  by (simp add: fields_ok_def flat_lib_def sink_put_appends)

lemma flat_budget_kept: "budget_kept flat_ops"
  by (auto simp: budget_kept_def flat_ops_def flat_fixed_def ci_Advance_def flat_varint_budget split: option.splits)

lemma flat_varint_encoded:
  assumes "wf_in st" and "n < 2 ^ 64" and "window st = varint n @ r"
  shows "\<exists>st'. flat_varint st = Some (n, st') \<and> leaves flat_view st st' r \<and> ci_recursion_budget st' = ci_recursion_budget st"
proof -
  have "decode_varint kMaxVarintBytes (window st) = Some (n, r)" unfolding assms(3) by (rule decode_varint_64[OF assms(2)])
  from flat_varint_reads[OF assms(1) this] show ?thesis using flat_varint_budget by blast
qed

lemma flat_skip_bytes:
  assumes "wf_in st" and "window st = p @ r"
  shows "\<exists>st'. flat_skip (length p) st = (True, st') \<and> leaves flat_view st st' r \<and> ci_recursion_budget st' = ci_recursion_budget st"
  using flat_advance[OF assms(1), of "length p"] assms(2) by (simp add: flat_skip_def ci_Advance_def)

lemma flat_bytes_ok: "bytes_ok flat_view flat_lib"
  unfolding bytes_ok_def
proof (intro allI impI, elim conjE)
  fix st :: "'z CodedInputStream" and s r v0 :: "8 word list"
  assume wf: "wf_in st" and len: "length s < 2 ^ 31" and rd: "readable flat_view st = varint (length s) @ s @ r"
  have "length s < 2 ^ 64" using len by simp
  with flat_varint_encoded[OF wf this] rd obtain st1 where st1: "flat_varint st = Some (length s, st1)"
      "leaves flat_view st st1 (s @ r)" "ci_recursion_budget st1 = ci_recursion_budget st" by auto
  then have w1: "wf_in st1" "window st1 = s @ r" by (simp_all add: leaves_def)
  have "leaves flat_view st1 (ci_Advance (int (length s)) st1) r" using flat_advance[OF w1(1), of "length s"] w1(2) by simp
  then have "leaves flat_view st (ci_Advance (int (length s)) st1) r" using st1(2) by (simp add: leaves_def)
  then show "\<exists>st'. wl_ReadBytes flat_lib st v0 = ((True, s), st') \<and> leaves flat_view st st' r \<and>
      ci_recursion_budget st' = ci_recursion_budget st"
    using st1(1,3) w1(2) by (simp add: flat_lib_def flat_ReadBytes_def) (simp add: ci_Advance_def)
qed

lemma flat_skips:
  assumes "wf_in st" and "skippable tag p" and "window st = p @ r"
  shows "\<exists>st'. flat_SkipField st tag = (True, st') \<and> leaves flat_view st st' r \<and>
    ci_recursion_budget st' = ci_recursion_budget st"
proof -
  let ?t = "GetTagWireType tag"
  consider (v) n where "?t = wire_number WIRETYPE_VARINT" "n < 2 ^ 64" "p = varint n"
    | (f64) "?t = wire_number WIRETYPE_FIXED64" "length p = 8"
    | (l) s where "?t = wire_number WIRETYPE_LENGTH_DELIMITED" "length s < 2 ^ 31" "p = varint (length s) @ s"
    | (f32) "?t = wire_number WIRETYPE_FIXED32" "length p = 4"
    using assms(2) unfolding skippable_def by blast
  then show ?thesis
  proof cases
    case v
    then show ?thesis using flat_varint_encoded[OF assms(1) v(2)] assms(3) by (auto simp: flat_SkipField_def)
  next
    case f64
    then show ?thesis using flat_skip_bytes[OF assms(1,3)] by (simp add: flat_SkipField_def)
  next
    case l
    have "length s < 2 ^ 64" using l(2) by simp
    with flat_varint_encoded[OF assms(1) this] assms(3) l(3) obtain st1 where st1: "flat_varint st = Some (length s, st1)"
        "leaves flat_view st st1 (s @ r)" "ci_recursion_budget st1 = ci_recursion_budget st" by auto
    then have "wf_in st1" "window st1 = s @ r" by (simp_all add: leaves_def)
    from flat_skip_bytes[OF this] st1 l(1) show ?thesis by (auto simp: flat_SkipField_def leaves_def)
  next
    case f32
    then show ?thesis using flat_skip_bytes[OF assms(1,3)] by (simp add: flat_SkipField_def)
  qed
qed

lemma flat_entry_lib_ok: "entry_lib_ok flat_view flat_ops flat_lib"
proof -
  have at_end: "window st = []" if "fst (ExpectAtEnd st)" for st :: "'z CodedInputStream"
    using that by (auto simp: ExpectAtEnd_def window_def BufferSize_def split: if_splits)
  have tag: "\<exists>st'. io_ReadTagFallback flat_ops (first_byte st) st = (0, st') \<and> leaves flat_view st st' [] \<and>
      ConsumedEntireMessage st'" if "wf_in st" and "window st = []" for st :: "'z CodedInputStream"
  proof -
    have "flat_varint st = None" using that(2) by (simp add: flat_varint_def kMaxVarintBytes_def numeral_eq_Suc)
    moreover have "leaves flat_view st st []" using that by (simp add: leaves_def)
    from leaves_message_end[OF flat_frame this]
    have "leaves flat_view st (st\<lparr>ci_legitimate_message_end := True\<rparr>) []" .
    ultimately show ?thesis using that(2) by (simp add: flat_ops_def ConsumedEntireMessage_def)
  qed
  show ?thesis unfolding entry_lib_ok_def
    using flat_in_ok flat_budget_kept at_end tag flat_skips by (auto simp: flat_lib_def)
qed

section \<open>A concrete map field: 32-bit keys, strings as values\<close>

definition int_key :: "(prim, prim, unit, 8 word list) type_handler" where
  "int_key = prim_handler True flat_ops sink_ops flat_lib (\<lambda>n. P_int32 (word_of_int n)) TYPE_INT32"

definition text_value :: "(8 word list, 8 word list option, unit, 8 word list) type_handler" where
  "text_value = string_or_bytes_handler True sink_ops flat_lib"

abbreviation int_ok :: "prim \<Rightarrow> bool" where
  "int_ok \<equiv> prim_ok (flat_view :: unit in_view) flat_ops sink_bytes sink_ops flat_lib TYPE_INT32"

abbreviation text_ok :: "8 word list \<Rightarrow> bool" where
  "text_ok \<equiv> string_ok (flat_view :: unit in_view) flat_lib sink_bytes sink_ops"

abbreviation text_bytes :: "8 word list \<Rightarrow> 8 word list" where
  "text_bytes s \<equiv> varint (length s) @ s"

lemma int_key_contract: "handler_contract int_key flat_view (encode_prim TYPE_INT32) sink_bytes int_ok (\<lambda>_ v. v) 0"
  unfolding int_key_def by (rule prim.handler_contract_axioms)

lemma text_value_contract: "handler_contract text_value flat_view text_bytes sink_bytes text_ok (\<lambda>_ v. v) 0"
  unfolding text_value_def by (rule strg.handler_contract_axioms)

lemma concrete_ok: "int_ok (P_int32 i)" "length s < 2 ^ 31 \<Longrightarrow> text_ok s"
  using flat_in_ok flat_budget_kept flat_fields_ok flat_bytes_ok sink_out_ok
  by (simp_all add: prim_ok_def string_ok_def has_type_ok)

text \<open>Message values: the message of one byte string.\<close>

definition bytes_type :: "(8 word list, unit, 8 word list) message_type" where
  "bytes_type = \<lparr>mt_out = bytes_message, mt_merge = bytes_merge, mt_new = [], mt_default_instance = [],
     mt_MergeFrom = \<lambda>m from. from, mt_Clear = \<lambda>m. [], mt_IsInitialized = \<lambda>m. True,
     mt_WriteMessageMaybeToArray = \<lambda>k m st.
       Inr (sink_put (varint (unat (MakeTag k WIRETYPE_LENGTH_DELIMITED)) @ varint (length m) @ m) st)\<rparr>"

lemma bytes_type_contract:
  "handler_contract (message_handler flat_ops sink_ops bytes_type) flat_view text_bytes sink_bytes
     (message_ok flat_view flat_ops sink_bytes sink_ops bytes_type (\<lambda>m. m) (\<lambda>_ m. m) 0) (\<lambda>_ m. m) (0 + 1)"
  by (rule msg.handler_contract_axioms)

lemma bytes_type_ok:
  assumes "length m < 2 ^ 31"
  shows "message_ok flat_view flat_ops sink_bytes sink_ops bytes_type (\<lambda>m. m) (\<lambda>_ m. m) 0 m"
  using assms flat_in_ok flat_nesting_ok flat_nested_limits sink_out_ok writes_memcpy bytes_parses sink_put_appends
  by (simp add: message_ok_def bytes_type_def bytes_message_def)

lemma flat_stream_budget: "ci_recursion_budget (flat_stream bs) = 100"
  by (simp add: flat_stream_def ci_new_array_def flat_ops_def)

theorem map_entry_parses_witness:
  "\<exists>e' st'. entry_loop flat_ops flat_lib int_key text_value 5
      (flat_stream (concat (map (item_bytes int_key text_value (encode_prim TYPE_INT32) text_bytes)
         [Value_item [104], Key_item (P_int32 7), Unknown_item 24 (varint 300), Value_item [105]])))
      (MapEntryLite_new int_key text_value 0 None) = Some (Inr ((True, e'), st')) \<and>
    me_key e' = P_int32 7 \<and> me_value e' = Some [105] \<and> has_key e' \<and> has_value e' \<and> ConsumedEntireMessage st'"
proof -
  let ?items = "[Value_item [104], Key_item (P_int32 7), Unknown_item 24 (varint 300), Value_item [105]]"
  let ?st = "flat_stream (concat (map (item_bytes int_key text_value (encode_prim TYPE_INT32) text_bytes) ?items))"
  let ?e = "MapEntryLite_new int_key text_value 0 None"
  have tags: "kKeyTag int_key = 8" "kValueTag text_value = 18"
    by (simp_all add: entry_tags(1,2) int_key_def text_value_def prim_handler_def string_or_bytes_handler_def MakeTag_def kTagTypeBits_def)
  have "(300 :: nat) < 2 ^ 64" by simp
  then have "skippable 24 (varint 300)"
    unfolding skippable_def by (intro disjI1 conjI) (simp add: GetTagWireType_def kTagTypeMask_def kTagTypeBits_def, blast)
  then have oks: "list_all (item_ok int_key text_value int_ok text_ok) ?items"
    by (simp add: item_ok_def concrete_ok tags GetTagWireType_def kTagTypeMask_def kTagTypeBits_def)
  have b: "0 \<le> ci_recursion_budget ?st" by (simp only: flat_stream_budget)
  have rd: "readable flat_view ?st = concat (map (item_bytes int_key text_value (encode_prim TYPE_INT32) text_bytes) ?items)"
    by (simp only: flat_readable flat_stream_ok)
  have fuel: "length ?items < 5" by simp
  from map_entry_parses[OF flat_entry_lib_ok int_key_contract text_value_contract oks flat_stream_ok(1) b b rd fuel, of ?e]
  show ?thesis by (simp del: list.map concat.simps append.simps add: item_keys_def item_values_def)
     (auto simp: int_key_def text_value_def prim_handler_def string_or_bytes_handler_def)
qed

theorem map_entry_sizes_witness:
  "writes (entry_SerializeWithCachedSizesToArray int_key text_value (MapEntryWrapper (P_int32 7) [104, 105]))
      (entry_bytes int_key text_value (encode_prim TYPE_INT32) text_bytes (P_int32 7) [104, 105]) \<and>
    (\<exists>n. entry_ByteSize int_key text_value (MapEntryWrapper (P_int32 7) [104, 105]) = Inr n \<and>
       n = int (length (entry_bytes int_key text_value (encode_prim TYPE_INT32) text_bytes (P_int32 7) [104, 105])))"
proof -
  let ?e = "MapEntryWrapper (P_int32 7) [104, 105 :: 8 word]"
  have e: "ev_key ?e = Inr (P_int32 7)" "ev_value ?e = Inr [104, 105]" "ev_has_key ?e" "ev_has_value ?e"
    by (simp_all add: MapEntryWrapper_def)
  have "text_ok [104, 105]" by (rule concrete_ok) simp
  from map_entry_sizes[OF int_key_contract text_value_contract concrete_ok(1) this e(1,2)] e(3,4)
  show ?thesis by blast
qed

theorem map_entry_round_trip_witness:
  "\<exists>e' st'. ReadMessageNoVirtual flat_ops (entry_merge flat_ops flat_lib int_key text_value 3)
      (flat_stream (varint (length (entry_bytes int_key text_value (encode_prim TYPE_INT32) text_bytes (P_int32 7) [104, 105])) @
        entry_bytes int_key text_value (encode_prim TYPE_INT32) text_bytes (P_int32 7) [104, 105] @ [9]))
      (MapEntryLite_new int_key text_value 0 None) = Inr ((True, e'), st') \<and>
    window st' = [9] \<and> entry_key int_key e' = Inr (P_int32 7) \<and> me_value e' = Some [104, 105]"
proof -
  let ?bs = "entry_bytes int_key text_value (encode_prim TYPE_INT32) text_bytes (P_int32 7) [104, 105]"
  let ?st = "flat_stream (varint (length ?bs) @ ?bs @ [9])"
  let ?e = "MapEntryLite_new int_key text_value 0 None"
  have ok: "text_ok [104, 105]" by (rule concrete_ok) simp
  have "length (encode_prim TYPE_INT32 (P_int32 7)) = 1"
    by (simp add: encode_prim_def varint_byte)
  then have "length ?bs = 6"
    unfolding entry_bytes_is by (simp add: int_key_def text_value_def prim_handler_def string_or_bytes_handler_def
      MakeTag_def kTagTypeBits_def varint_byte)
  then have len: "length ?bs < 2 ^ 31" by simp
  have b: "max 0 (max 0 0) < ci_recursion_budget ?st" by (simp only: flat_stream_budget)
  have rd: "readable flat_view ?st = varint (length ?bs) @ ?bs @ [9]" by (simp only: flat_readable flat_stream_ok)
  have fuel: "(2 :: nat) < 3" by simp
  have new: "me_key ?e = th_Initialize int_key" "me_value ?e = th_InitializeMaybeByDefaultEnum text_value 0"
    by (simp_all add: MapEntryLite_new_def)
  from map_entry_round_trip[OF flat_entry_lib_ok flat_nesting_ok int_key_contract text_value_contract concrete_ok(1) ok
      fuel flat_stream_ok(1) b len rd new, of 1]
  show ?thesis by (auto simp: text_value_def string_or_bytes_handler_def split: option.splits)
qed

end
