(* ===== verification/PbMapField.thy ===== *)
theory PbMapField
  imports PbMapEntry
begin

text \<open>
  \<open>MapFieldLite\<close> of \<open>include/google/protobuf/map_field_lite.h\<close>, the map field of a generated message: it
  owns a \<open>Map\<close> and makes the entries through which the map travels. Shown: its operations on the finite
  map the field stands for, that merging leaves the other field alone, and that its destruction
  leaves no pair behind.
\<close>

section \<open>The class\<close>

text \<open>The object behind \<open>map_\<close> belongs to the field, or to the arena both lie on, and is kept by value.\<close>

record 'k MapFieldLite =
  mfl_arena :: "nat option"
  mfl_map :: "'k Map"

type_synonym ('k, 'v) field_state = "'k MapFieldLite \<times> ('k, 'v) MapPair heap"

definition SetDefaultEnumValue :: "int \<Rightarrow> 'k MapFieldLite \<Rightarrow> 'k MapFieldLite" where
  "SetDefaultEnumValue default_enum_value f = f\<lparr>mfl_map := Map_SetDefaultEnumValue default_enum_value (mfl_map f)\<rparr>"

definition MapFieldLite_new :: "int \<Rightarrow> nat option \<Rightarrow> 'k MapFieldLite" where
  "MapFieldLite_new default_enum_value arena =
    SetDefaultEnumValue default_enum_value \<lparr>mfl_arena = arena, mfl_map = Map_new arena\<rparr>"

definition MapFieldLite_destruct :: "('k, 'v) field_state \<Rightarrow> ('k, 'v) field_state run" where
  "MapFieldLite_destruct = (\<lambda>(f, h). bnd (Map_destruct (mfl_map f, h)) (\<lambda>(m, h). Inr (f\<lparr>mfl_map := m\<rparr>, h)))"

definition GetMap :: "'k MapFieldLite \<Rightarrow> 'k Map" where
  "GetMap f = mfl_map f"

text \<open>The caller changes the map through the pointer \<open>MutableMap\<close> returns.\<close>

definition on_map :: "(('k, 'v) map_state \<Rightarrow> ('a \<times> ('k, 'v) map_state) run) \<Rightarrow> ('k, 'v) field_state \<Rightarrow>
    ('a \<times> ('k, 'v) field_state) run" where
  "on_map op = (\<lambda>(f, h). bnd (op (mfl_map f, h)) (\<lambda>(x, m, h). Inr (x, f\<lparr>mfl_map := m\<rparr>, h)))"

text \<open>\<open>int size()\<close> converts a \<open>size_t\<close>.\<close>

definition MapFieldLite_size :: "'k MapFieldLite \<Rightarrow> int" where
  "MapFieldLite_size f = wrap32 (int (Map_size (mfl_map f)))"

definition MapFieldLite_Clear :: "('k, 'v) field_state \<Rightarrow> ('k, 'v) field_state run" where
  "MapFieldLite_Clear = (\<lambda>(f, h). bnd (Map_clear (mfl_map f, h)) (\<lambda>(m, h). Inr (f\<lparr>mfl_map := m\<rparr>, h)))"

text \<open>\<open>(*map_)[it->first] = it->second\<close>, with \<open>it\<close> on a node of the other map.\<close>

definition merge_pair :: "('k, 'v) map_traits \<Rightarrow> 'k \<times> nat option \<Rightarrow> ('k, 'v) map_state \<Rightarrow> ('k, 'v) map_state run" where
  "merge_pair T e = (\<lambda>(m, h). bnd (hp_read (snd e) h) (\<lambda>pair.
     bnd (Map_subscript T (mp_first pair) (m, h)) (\<lambda>(p, m, h).
       bnd (assign_second p (mp_second pair) h) (\<lambda>h. Inr (m, h)))))"

definition MapFieldLite_MergeFrom ::
    "('k, 'v) map_traits \<Rightarrow> 'k MapFieldLite \<Rightarrow> ('k, 'v) field_state \<Rightarrow> ('k, 'v) field_state run" where
  "MapFieldLite_MergeFrom T other = (\<lambda>(f, h).
     bnd (for_each (merge_pair T) (map_elements (mfl_map other)) (mfl_map f, h))
       (\<lambda>(m, h). Inr (f\<lparr>mfl_map := m\<rparr>, h)))"

text \<open>\<open>std::swap(map_, other->map_)\<close>\<close>

definition MapFieldLite_Swap :: "'k MapFieldLite \<Rightarrow> 'k MapFieldLite \<Rightarrow> 'k MapFieldLite \<times> 'k MapFieldLite" where
  "MapFieldLite_Swap f other = (f\<lparr>mfl_map := mfl_map other\<rparr>, other\<lparr>mfl_map := mfl_map f\<rparr>)"

definition MapFieldLite_NewEntry ::
    "('k, 'ks, 'z, 'o) type_handler \<Rightarrow> ('v, 'vs, 'z, 'o) type_handler \<Rightarrow> int \<Rightarrow> 'k MapFieldLite \<Rightarrow> ('ks, 'vs) MapEntryLite" where
  "MapFieldLite_NewEntry K H default_enum_value f = MapEntryLite_new K H default_enum_value (mfl_arena f)"

definition NewEntryWrapper :: "'k \<Rightarrow> 'v \<Rightarrow> ('k, 'v) entry_view" where
  "NewEntryWrapper key t = MapEntryWrapper key t"

definition NewEnumEntryWrapper :: "('e \<Rightarrow> prim) \<Rightarrow> 'k \<Rightarrow> 'e \<Rightarrow> ('k, prim) entry_view" where
  "NewEnumEntryWrapper to_int key t = MapEnumEntryWrapper to_int key t"

text \<open>The loop over the values of a map of messages stops at the first that is not initialised.\<close>

primrec all_initialized :: "('v \<Rightarrow> bool) \<Rightarrow> ('k \<times> nat option) list \<Rightarrow> ('k, 'v) MapPair heap \<Rightarrow> bool run" where
  "all_initialized IsInitialized [] h = Inr True"
| "all_initialized IsInitialized (e # es) h = bnd (read_second (snd e) h) (\<lambda>v.
     if \<not> IsInitialized v then Inr False else all_initialized IsInitialized es h)"

definition AllAreInitialized :: "('v \<Rightarrow> bool) \<Rightarrow> ('k, 'v) map_state \<Rightarrow> bool run" where
  "AllAreInitialized IsInitialized = (\<lambda>(t, h). all_initialized IsInitialized (map_elements t) h)"

section \<open>Merging\<close>

lemma merge_pair_put:
  "hp_read (snd e) (snd st) = Inr pair \<Longrightarrow> merge_pair T e st = Map_put T (mp_first pair) (mp_second pair) st"
  by (cases st) (simp add: merge_pair_def Map_put_def)

text \<open>The pairs of another map are not changed while this one is.\<close>

lemma pairs_kept:
  assumes "wf_map (oth, h)" and "map_step (m, h) (m', h') f" and "map_ptrs oth \<inter> map_ptrs m = {}"
    and "(k, q) \<in> set (map_elements oth)"
  shows "hp_read q h' = hp_read q h"
proof -
  obtain p where p: "q = Some p" using assms(1,4) by (auto elim: pair_okD)
  then have "p \<in> map_ptrs oth" using assms(4) in_map_ptrs by fast
  then have "p \<in> live h - map_ptrs m" using wf_mapD(3)[OF assms(1)] assms(3) by blast
  then have "hp_cells h' p = hp_cells h p" using assms(2) by (simp add: map_step_def)
  then show ?thesis by (simp add: p hp_read_def)
qed

lemma pairs_at_cong: "(\<And>k q. (k, q) \<in> set els \<Longrightarrow> hp_read q h' = hp_read q h) \<Longrightarrow> pairs_at els h' = pairs_at els h"
proof (induction els)
  case (Cons e els)
  have "hp_read (snd e) h' = hp_read (snd e) h" using Cons.prems[of "fst e" "snd e"] by simp
  moreover have "pairs_at els h' = pairs_at els h"
    by (rule Cons.IH) (meson Cons.prems list.set_intros(2))
  ultimately show ?case by simp
qed simp

definition put_pairs :: "('k, 'v) MapPair list \<Rightarrow> ('k \<times> 'v option) list" where
  "put_pairs vs = map (\<lambda>v. (mp_first v, mp_second v)) vs"

lemma merge_loop_puts:
  assumes "place_ok T" and "wf_map (m, h)" and "wf_map (oth, h)" and "map_ptrs oth \<inter> map_ptrs m = {}"
    and "set els \<subseteq> set (map_elements oth)" and "pairs_at els h = Inr vs"
  shows "for_each (merge_pair T) els (m, h) = for_each (\<lambda>(k, v). Map_put T k v) (put_pairs vs) (m, h)"
  using assms(2-)
proof (induction els arbitrary: m h vs)
  case Nil
  then show ?case by (simp add: put_pairs_def)
next
  case (Cons e els)
  obtain pair vs1 where vs: "hp_read (snd e) h = Inr pair" "pairs_at els h = Inr vs1" "vs = pair # vs1"
    using Cons.prems(5) by (auto simp: bnd_eq_Inr)
  have head: "merge_pair T e (m, h) = Map_put T (mp_first pair) (mp_second pair) (m, h)"
    using merge_pair_put[of e "(m, h)" pair T] vs(1) by simp
  note put = Map_put_step[OF assms(1) Cons.prems(1), of "mp_first pair" "mp_second pair"]
  show ?case
  proof (cases "mp_second pair")
    case None
    then show ?thesis using put head vs(3) by (simp add: put_pairs_def)
  next
    case (Some w)
    obtain m1 h1 where s1: "Map_put T (mp_first pair) (mp_second pair) (m, h) = Inr (m1, h1)"
        "map_step (m, h) (m1, h1) ((map_abs (m, h))(mp_first pair \<mapsto> mp_second pair))"
      using put Some by auto
    note kept = other_map_kept[OF Cons.prems(2) s1(2) Cons.prems(3)]
    have "pairs_at els h1 = pairs_at els h"
      by (rule pairs_at_cong, rule pairs_kept[OF Cons.prems(2) s1(2) Cons.prems(3)]) (use Cons.prems(4) in auto)
    then have "for_each (merge_pair T) els (m1, h1) = for_each (\<lambda>(k, v). Map_put T k v) (put_pairs vs1) (m1, h1)"
      using Cons.IH[OF _ kept(1,3)] s1(2) Cons.prems(4) vs(2) by (simp add: map_step_def)
    then show ?thesis using head s1(1) vs(3) by (simp add: put_pairs_def)
  qed
qed

lemma pairs_at_firsts:
  assumes "wf_map (m, h)" and "set els \<subseteq> set (map_elements m)" and "pairs_at els h = Inr vs"
  shows "map mp_first vs = map fst els"
  using assms(2,3)
proof (induction els arbitrary: vs)
  case (Cons e els)
  obtain pair vs1 where vs: "hp_read (snd e) h = Inr pair" "pairs_at els h = Inr vs1" "vs = pair # vs1"
    using Cons.prems(2) by (auto simp: bnd_eq_Inr)
  have "(fst e, snd e) \<in> set (map_elements m)" using Cons.prems(1) by simp
  then have "mp_first pair = fst e" by (rule pair_okD[OF assms(1)]) (use vs(1) in simp)
  then show ?case using vs Cons.IH Cons.prems(1) by simp
qed simp

lemma map_of_rev:
  assumes "distinct (map fst xs)"
  shows "map_of (rev xs) = map_of xs"
proof (rule ext)
  fix k
  have d: "distinct (map fst (rev xs))" using assms by (simp add: rev_map[symmetric])
  show "map_of (rev xs) k = map_of xs k"
  proof (cases "map_of xs k")
    case None
    then have "k \<notin> fst ` set (rev xs)" by (simp add: map_of_eq_None_iff)
    then have "map_of (rev xs) k = None" by (simp only: map_of_eq_None_iff not_False_eq_True)
    then show ?thesis using None by (rule trans[OF _ sym])
  next
    case (Some v)
    then have "(k, v) \<in> set (rev xs)" by (simp add: map_of_SomeD)
    then show ?thesis using Some d by simp
  qed
qed

text \<open>Merging reads every value of the other field.\<close>

lemma MapFieldLite_MergeFrom_step:
  assumes "place_ok T" and "wf_map (m, h)" and "wf_map (oth, h)" and "map_ptrs oth \<inter> map_ptrs m = {}"
  shows "if indeterminate (map_abs (oth, h)) then for_each (merge_pair T) (map_elements oth) (m, h) = Inl Uninitialised
    else \<exists>m' h'. for_each (merge_pair T) (map_elements oth) (m, h) = Inr (m', h') \<and>
      map_step (m, h) (m', h') (map_abs (m, h) ++ map_abs (oth, h)) \<and>
      wf_map (oth, h') \<and> map_abs (oth, h') = map_abs (oth, h) \<and> map_ptrs oth \<inter> map_ptrs m' = {}"
proof -
  obtain vs where vs: "pairs_at (map_elements oth) h = Inr vs" "pairs_map vs = map_abs (oth, h)"
    using pairs_at_map[OF assms(3)] by blast
  have "map fst (put_pairs vs) = map fst (map_elements oth)"
    using pairs_at_firsts[OF assms(3) subset_refl vs(1)] by (simp add: put_pairs_def comp_def)
  then have dist: "distinct (map fst (put_pairs vs))" using wf_mapD(2)[OF assms(3)] by simp
  have fwd: "map_of (put_pairs vs) = map_abs (oth, h)" using vs(2) by (simp add: pairs_map_def put_pairs_def)
  have rev: "map_of (rev (put_pairs vs)) = map_abs (oth, h)" using map_of_rev[OF dist] fwd by (rule trans)
  have "(k, None) \<in> set (put_pairs vs) \<longleftrightarrow> map_abs (oth, h) k = Some None" for k
    using dist by (simp flip: fwd)
  then have ind: "indeterminate (map_abs (oth, h)) \<longleftrightarrow> None \<in> snd ` set (put_pairs vs)"
    by (force simp: indeterminate_def)
  note loop = merge_loop_puts[OF assms subset_refl vs(1)]
  show ?thesis
  proof (cases "indeterminate (map_abs (oth, h))")
    case True
    then show ?thesis using Map_put_all_fault[OF assms(1,2), of "put_pairs vs"] loop ind by simp
  next
    case False
    then obtain m' h' where st: "for_each (\<lambda>(k, v). Map_put T k v) (put_pairs vs) (m, h) = Inr (m', h')"
        "map_step (m, h) (m', h') (map_abs (m, h) ++ map_abs (oth, h))"
      using Map_put_all[OF assms(1,2), of "put_pairs vs"] ind rev by auto
    then show ?thesis using False loop other_map_kept[OF assms(3) st(2) assms(4)] by simp
  qed
qed

lemma all_initialized_iff:
  assumes "wf_map (m, h)" and "set es \<subseteq> set (map_elements m)" and "\<not> indeterminate (map_abs (m, h))"
  shows "all_initialized init es h = Inr (\<forall>k \<in> fst ` set es. \<forall>v. map_abs (m, h) k = Some (Some v) \<longrightarrow> init v)"
  using assms(2)
proof (induction es)
  case (Cons e es)
  have e: "(fst e, snd e) \<in> set (map_elements m)" using Cons.prems by simp
  obtain p pair where p: "snd e = Some p" "hp_cells h p = Some pair" by (rule pair_okD[OF assms(1) e])
  have "map_of (map_elements m) (fst e) = Some (snd e)" using wf_mapD(2)[OF assms(1)] e by simp
  then have v: "map_abs (m, h) (fst e) = Some (mp_second pair)"
    using p by (simp add: map_abs_def hm_lookup_def value_at_def)
  then obtain x where "mp_second pair = Some x" using determinateD[OF assms(3)] by blast
  then show ?case using p v Cons by (auto simp: read_second_def)
qed simp

lemma AllAreInitialized_iff:
  assumes "wf_map (m, h)" and "\<not> indeterminate (map_abs (m, h))"
  shows "AllAreInitialized init (m, h) = Inr (\<forall>k v. map_abs (m, h) k = Some (Some v) \<longrightarrow> init v)"
proof -
  have "k \<in> fst ` set (map_elements m)" if "map_abs (m, h) k = Some v" for k v
    using that by (auto simp: map_abs_def hm_lookup_def bind_eq_Some_conv intro: rev_image_eqI dest!: map_of_SomeD)
  then show ?thesis using all_initialized_iff[OF assms(1) subset_refl assms(2), of init]
    by (auto simp: AllAreInitialized_def)
qed

text \<open>A map field stands for a finite map: a new one is empty, with the default of the field for new enum
  values; merging overwrites with the other field's pairs, in pairs of its own, and leaves the other
  field as it was, where none of its values is indeterminate: that one would be read; \<open>Clear\<close> and \<open>Swap\<close> do what they are called, \<open>size\<close> counts, and destroying the field
  deletes every pair and nothing else.\<close>

theorem MapFieldLite_contract:
  assumes "place_ok T" and "wf_map (mfl_map f, h)" and "wf_map (mfl_map oth, h)"
    and "map_ptrs (mfl_map oth) \<inter> map_ptrs (mfl_map f) = {}"
  shows "(if indeterminate (map_abs (mfl_map oth, h)) then MapFieldLite_MergeFrom T oth (f, h) = Inl Uninitialised
     else \<exists>f' h'. MapFieldLite_MergeFrom T oth (f, h) = Inr (f', h') \<and> mfl_arena f' = mfl_arena f \<and>
       map_step (mfl_map f, h) (mfl_map f', h') (map_abs (mfl_map f, h) ++ map_abs (mfl_map oth, h)) \<and>
       wf_map (mfl_map oth, h') \<and> map_abs (mfl_map oth, h') = map_abs (mfl_map oth, h) \<and>
       map_ptrs (mfl_map oth) \<inter> map_ptrs (mfl_map f') = {}) \<and>
    (\<exists>f' h'. MapFieldLite_Clear (f, h) = Inr (f', h') \<and> map_step (mfl_map f, h) (mfl_map f', h') Map.empty) \<and>
    (\<exists>f' h'. MapFieldLite_destruct (f, h) = Inr (f', h') \<and> live h' - owned h' = map_loose (mfl_map f, h) \<and>
       (\<forall>p \<in> live h - map_ptrs (mfl_map f). hp_cells h' p = hp_cells h p)) \<and>
    MapFieldLite_size f = wrap32 (int (card (dom (map_abs (mfl_map f, h))))) \<and>
    (case MapFieldLite_Swap f oth of (f', oth') \<Rightarrow> mfl_map f' = mfl_map oth \<and> mfl_map oth' = mfl_map f) \<and>
    wf_map (mfl_map (MapFieldLite_new d arena), h) \<and> map_abs (mfl_map (MapFieldLite_new d arena), h) = Map.empty \<and>
    (\<forall>cast. mt_enum T = Some cast \<longrightarrow> subscript_value T (mfl_map (MapFieldLite_new d arena)) = Some (cast d))"
proof -
  have destr: "\<exists>h'. Map_clear (mfl_map f, h) = Inr ((mfl_map f)\<lparr>map_elements := []\<rparr>, h') \<and>
      live h' - owned h' = map_loose (mfl_map f, h) \<and> (\<forall>p \<in> live h - map_ptrs (mfl_map f). hp_cells h' p = hp_cells h p)"
    using Map_clear_step[OF assms(2)] by (auto simp: map_step_def map_loose_def map_ptrs_def)
  have new: "wf_map (mfl_map (MapFieldLite_new d arena), h)" "map_abs (mfl_map (MapFieldLite_new d arena), h) = Map.empty"
    using wf_mapD(1)[OF assms(2)]
    by (simp_all add: MapFieldLite_new_def SetDefaultEnumValue_def Map_SetDefaultEnumValue_def Map_new_def wf_map_def
        map_abs_def hm_lookup_def fun_eq_iff)
  have enum: "subscript_value T (mfl_map (MapFieldLite_new d arena)) = Some (cast d)" if "mt_enum T = Some cast" for cast
    using that by (simp add: subscript_value_def MapFieldLite_new_def SetDefaultEnumValue_def Map_SetDefaultEnumValue_def Map_new_def)
  have merge: "if indeterminate (map_abs (mfl_map oth, h)) then MapFieldLite_MergeFrom T oth (f, h) = Inl Uninitialised
     else \<exists>f' h'. MapFieldLite_MergeFrom T oth (f, h) = Inr (f', h') \<and> mfl_arena f' = mfl_arena f \<and>
       map_step (mfl_map f, h) (mfl_map f', h') (map_abs (mfl_map f, h) ++ map_abs (mfl_map oth, h)) \<and>
       wf_map (mfl_map oth, h') \<and> map_abs (mfl_map oth, h') = map_abs (mfl_map oth, h) \<and>
       map_ptrs (mfl_map oth) \<inter> map_ptrs (mfl_map f') = {}"
    using MapFieldLite_MergeFrom_step[OF assms] by (auto simp: MapFieldLite_MergeFrom_def split: if_split_asm)
  have rest: "(\<exists>f' h'. MapFieldLite_Clear (f, h) = Inr (f', h') \<and> map_step (mfl_map f, h) (mfl_map f', h') Map.empty) \<and>
    (\<exists>f' h'. MapFieldLite_destruct (f, h) = Inr (f', h') \<and> live h' - owned h' = map_loose (mfl_map f, h) \<and>
       (\<forall>p \<in> live h - map_ptrs (mfl_map f). hp_cells h' p = hp_cells h p)) \<and>
    MapFieldLite_size f = wrap32 (int (card (dom (map_abs (mfl_map f, h))))) \<and>
    (case MapFieldLite_Swap f oth of (f', oth') \<Rightarrow> mfl_map f' = mfl_map oth \<and> mfl_map oth' = mfl_map f) \<and>
    wf_map (mfl_map (MapFieldLite_new d arena), h) \<and> map_abs (mfl_map (MapFieldLite_new d arena), h) = Map.empty \<and>
    (\<forall>cast. mt_enum T = Some cast \<longrightarrow> subscript_value T (mfl_map (MapFieldLite_new d arena)) = Some (cast d))"
    using Map_clear_step[OF assms(2)] destr new enum Map_size_abs(1)[OF assms(2)]
    by (auto simp: MapFieldLite_Clear_def MapFieldLite_destruct_def Map_destruct_def
        MapFieldLite_size_def MapFieldLite_Swap_def)
  show ?thesis by (rule conjI[OF merge rest])
qed

text \<open>Two fields on one heap, with a key in common.\<close>

definition two_heap :: "(nat, nat) MapPair heap" where
  "two_heap = snd (hp_new \<lparr>mp_first = 8, mp_second = Some 1\<rparr> (snd (hp_new \<lparr>mp_first = 7, mp_second = Some 6\<rparr> one_heap)))"

definition one_field :: "nat MapFieldLite" where
  "one_field = \<lparr>mfl_arena = None, mfl_map = one_pair\<rparr>"

definition other_field :: "nat MapFieldLite" where
  "other_field = \<lparr>mfl_arena = None,
     mfl_map = \<lparr>map_arena = None, map_elements = [(8, Some 2), (7, Some 1)], map_default_enum_value = 0\<rparr>\<rparr>"

lemma two_fields_ok:
  "wf_map (mfl_map one_field, two_heap)" "wf_map (mfl_map other_field, two_heap)"
  "map_ptrs (mfl_map other_field) \<inter> map_ptrs (mfl_map one_field) = {}"
  "map_abs (mfl_map one_field, two_heap) = [7 \<mapsto> Some 5]"
  "map_abs (mfl_map other_field, two_heap) = [7 \<mapsto> Some 6, 8 \<mapsto> Some 1]"
  "\<not> indeterminate (map_abs (mfl_map other_field, two_heap))"
  by (simp_all add: one_field_def other_field_def one_pair_def one_heap_def two_heap_def wf_map_def pair_ok_def
      hp_new_def hp_empty_def wf_heap_def live_def owned_def map_abs_def hm_lookup_def map_ptrs_def
      indeterminate_def fun_eq_iff)

theorem MapFieldLite_contract_witness:
  "\<exists>f' h'. MapFieldLite_MergeFrom nat_traits other_field (one_field, two_heap) = Inr (f', h') \<and>
     map_abs (mfl_map f', h') = [7 \<mapsto> Some 6, 8 \<mapsto> Some 1]"
proof -
  from MapFieldLite_contract[OF one_map_ok(1) two_fields_ok(1-3), THEN conjunct1]
  obtain f' h' where "MapFieldLite_MergeFrom nat_traits other_field (one_field, two_heap) = Inr (f', h')"
      "map_step (mfl_map one_field, two_heap) (mfl_map f', h') ([7 \<mapsto> Some 5] ++ [7 \<mapsto> Some 6, 8 \<mapsto> Some 1])"
    using two_fields_ok(6) unfolding two_fields_ok(4,5) by auto
  moreover have "[7 \<mapsto> Some 5] ++ [7 \<mapsto> Some 6, 8 \<mapsto> Some 1] = [7 \<mapsto> Some 6, 8 \<mapsto> Some (1 :: nat)]"
    by (simp add: fun_eq_iff map_add_def)
  ultimately show ?thesis by (auto simp: map_step_def)
qed

end
