(* ===== verification/PbMapKey.thy ===== *)
theory PbMapKey
  imports PbWire PbHeap
begin

text \<open>
  \<open>MapKey\<close> and \<open>MapValueRef\<close> of \<open>include/google/protobuf/map.h\<close>, through which reflection handles the
  keys and values of a map field without knowing their types: a union with a tag that owns its string,
  and a pointer with a tag that owns nothing. Shown: a key is the value that was last put into it, no
  member of the union but that one is ever read, and its string is neither leaked nor freed twice; a
  reference reads and writes the value it points to at its type only.
\<close>

section \<open>MapKey\<close>

text \<open>The union, by the member that was written last.\<close>

datatype KeyValue =
    no_member
  | string_value "nat option"
  | int64_value "64 word"
  | int32_value "32 word"
  | uint64_value "64 word"
  | uint32_value "32 word"
  | bool_value bool

text \<open>\<open>type_\<close> is 0, here \<open>None\<close>, or a valid \<open>CppType\<close>.\<close>

record MapKey =
  mk_type :: "CppType option"
  mk_val :: KeyValue

type_synonym key_state = "MapKey \<times> 8 word list heap"

definition MapKey_new :: MapKey where
  "MapKey_new = \<lparr>mk_type = None, mk_val = no_member\<rparr>"

definition MapKey_type :: "MapKey \<Rightarrow> CppType run" where
  "MapKey_type k = (case mk_type k of None \<Rightarrow> Inl CheckFailed | Some t \<Rightarrow> Inr t)"

text \<open>A read of another member than the one written last.\<close>

definition string_member :: "MapKey \<Rightarrow> nat option run" where
  "string_member k = (case mk_val k of string_value p \<Rightarrow> Inr p | _ \<Rightarrow> Inl Uninitialised)"

definition int64_member :: "MapKey \<Rightarrow> 64 word run" where
  "int64_member k = (case mk_val k of int64_value v \<Rightarrow> Inr v | _ \<Rightarrow> Inl Uninitialised)"

definition int32_member :: "MapKey \<Rightarrow> 32 word run" where
  "int32_member k = (case mk_val k of int32_value v \<Rightarrow> Inr v | _ \<Rightarrow> Inl Uninitialised)"

definition uint64_member :: "MapKey \<Rightarrow> 64 word run" where
  "uint64_member k = (case mk_val k of uint64_value v \<Rightarrow> Inr v | _ \<Rightarrow> Inl Uninitialised)"

definition uint32_member :: "MapKey \<Rightarrow> 32 word run" where
  "uint32_member k = (case mk_val k of uint32_value v \<Rightarrow> Inr v | _ \<Rightarrow> Inl Uninitialised)"

definition bool_member :: "MapKey \<Rightarrow> bool run" where
  "bool_member k = (case mk_val k of bool_value v \<Rightarrow> Inr v | _ \<Rightarrow> Inl Uninitialised)"

definition MapKey_SetType :: "CppType \<Rightarrow> key_state \<Rightarrow> key_state run" where
  "MapKey_SetType type = (\<lambda>(k, h).
     if mk_type k = Some type then Inr (k, h)
     else bnd (if mk_type k = Some CPPTYPE_STRING then bnd (string_member k) (\<lambda>p. hp_delete p h) else Inr h) (\<lambda>h.
       let k = k\<lparr>mk_type := Some type\<rparr> in
       if type = CPPTYPE_STRING then case hp_new [] h of (p, h) \<Rightarrow> Inr (k\<lparr>mk_val := string_value (Some p)\<rparr>, h)
       else Inr (k, h)))"

definition MapKey_SetInt64Value :: "64 word \<Rightarrow> key_state \<Rightarrow> key_state run" where
  "MapKey_SetInt64Value value st =
    bnd (MapKey_SetType CPPTYPE_INT64 st) (\<lambda>(k, h). Inr (k\<lparr>mk_val := int64_value value\<rparr>, h))"

definition MapKey_SetUInt64Value :: "64 word \<Rightarrow> key_state \<Rightarrow> key_state run" where
  "MapKey_SetUInt64Value value st =
    bnd (MapKey_SetType CPPTYPE_UINT64 st) (\<lambda>(k, h). Inr (k\<lparr>mk_val := uint64_value value\<rparr>, h))"

definition MapKey_SetInt32Value :: "32 word \<Rightarrow> key_state \<Rightarrow> key_state run" where
  "MapKey_SetInt32Value value st =
    bnd (MapKey_SetType CPPTYPE_INT32 st) (\<lambda>(k, h). Inr (k\<lparr>mk_val := int32_value value\<rparr>, h))"

definition MapKey_SetUInt32Value :: "32 word \<Rightarrow> key_state \<Rightarrow> key_state run" where
  "MapKey_SetUInt32Value value st =
    bnd (MapKey_SetType CPPTYPE_UINT32 st) (\<lambda>(k, h). Inr (k\<lparr>mk_val := uint32_value value\<rparr>, h))"

definition MapKey_SetBoolValue :: "bool \<Rightarrow> key_state \<Rightarrow> key_state run" where
  "MapKey_SetBoolValue value st =
    bnd (MapKey_SetType CPPTYPE_BOOL st) (\<lambda>(k, h). Inr (k\<lparr>mk_val := bool_value value\<rparr>, h))"

definition MapKey_SetStringValue :: "8 word list \<Rightarrow> key_state \<Rightarrow> key_state run" where
  "MapKey_SetStringValue val st = bnd (MapKey_SetType CPPTYPE_STRING st) (\<lambda>(k, h).
     bnd (string_member k) (\<lambda>p. bnd (hp_write p val h) (\<lambda>h. Inr (k, h))))"

text \<open>\<open>TYPE_CHECK\<close>, with the type of the object it is used in.\<close>

definition TYPE_CHECK :: "CppType \<Rightarrow> CppType run \<Rightarrow> 'a run \<Rightarrow> 'a run" where
  "TYPE_CHECK expected type cont = bnd type (\<lambda>t. if t \<noteq> expected then Inl CheckFailed else cont)"

definition MapKey_GetInt64Value :: "MapKey \<Rightarrow> 64 word run" where
  "MapKey_GetInt64Value k = TYPE_CHECK CPPTYPE_INT64 (MapKey_type k) (int64_member k)"

definition MapKey_GetUInt64Value :: "MapKey \<Rightarrow> 64 word run" where
  "MapKey_GetUInt64Value k = TYPE_CHECK CPPTYPE_UINT64 (MapKey_type k) (uint64_member k)"

definition MapKey_GetInt32Value :: "MapKey \<Rightarrow> 32 word run" where
  "MapKey_GetInt32Value k = TYPE_CHECK CPPTYPE_INT32 (MapKey_type k) (int32_member k)"

definition MapKey_GetUInt32Value :: "MapKey \<Rightarrow> 32 word run" where
  "MapKey_GetUInt32Value k = TYPE_CHECK CPPTYPE_UINT32 (MapKey_type k) (uint32_member k)"

text \<open>It returns an \<open>int32\<close>.\<close>

definition MapKey_GetBoolValue :: "MapKey \<Rightarrow> 32 word run" where
  "MapKey_GetBoolValue k = TYPE_CHECK CPPTYPE_BOOL (MapKey_type k) (bnd (bool_member k) (\<lambda>b. Inr (of_bool b)))"

definition MapKey_GetStringValue :: "key_state \<Rightarrow> 8 word list run" where
  "MapKey_GetStringValue = (\<lambda>(k, h). TYPE_CHECK CPPTYPE_STRING (MapKey_type k) (bnd (string_member k) (\<lambda>p. hp_read p h)))"

definition MapKey_equal :: "MapKey \<Rightarrow> key_state \<Rightarrow> bool run" where
  "MapKey_equal other = (\<lambda>(k, h).
     if mk_type k \<noteq> mk_type other then Inr False
     else bnd (MapKey_type k) (\<lambda>t. case t of
         CPPTYPE_STRING \<Rightarrow> bnd (string_member k) (\<lambda>p. bnd (hp_read p h) (\<lambda>v.
           bnd (string_member other) (\<lambda>q. bnd (hp_read q h) (\<lambda>w. Inr (v = w)))))
       | CPPTYPE_INT64 \<Rightarrow> bnd (int64_member k) (\<lambda>v. bnd (int64_member other) (\<lambda>w. Inr (v = w)))
       | CPPTYPE_INT32 \<Rightarrow> bnd (int32_member k) (\<lambda>v. bnd (int32_member other) (\<lambda>w. Inr (v = w)))
       | CPPTYPE_UINT64 \<Rightarrow> bnd (uint64_member k) (\<lambda>v. bnd (uint64_member other) (\<lambda>w. Inr (v = w)))
       | CPPTYPE_UINT32 \<Rightarrow> bnd (uint32_member k) (\<lambda>v. bnd (uint32_member other) (\<lambda>w. Inr (v = w)))
       | CPPTYPE_BOOL \<Rightarrow> bnd (bool_member k) (\<lambda>v. bnd (bool_member other) (\<lambda>w. Inr (v = w)))
       | _ \<Rightarrow> Inl CheckFailed))"

definition MapKey_CopyFrom :: "MapKey \<Rightarrow> key_state \<Rightarrow> key_state run" where
  "MapKey_CopyFrom other st = bnd (MapKey_type other) (\<lambda>type. bnd (MapKey_SetType type st) (\<lambda>(k, h).
     case type of
       CPPTYPE_STRING \<Rightarrow> bnd (string_member other) (\<lambda>q. bnd (hp_read q h) (\<lambda>v.
         bnd (string_member k) (\<lambda>p. bnd (hp_write p v h) (\<lambda>h. Inr (k, h)))))
     | CPPTYPE_INT64 \<Rightarrow> bnd (int64_member other) (\<lambda>v. Inr (k\<lparr>mk_val := int64_value v\<rparr>, h))
     | CPPTYPE_INT32 \<Rightarrow> bnd (int32_member other) (\<lambda>v. Inr (k\<lparr>mk_val := int32_value v\<rparr>, h))
     | CPPTYPE_UINT64 \<Rightarrow> bnd (uint64_member other) (\<lambda>v. Inr (k\<lparr>mk_val := uint64_value v\<rparr>, h))
     | CPPTYPE_UINT32 \<Rightarrow> bnd (uint32_member other) (\<lambda>v. Inr (k\<lparr>mk_val := uint32_value v\<rparr>, h))
     | CPPTYPE_BOOL \<Rightarrow> bnd (bool_member other) (\<lambda>v. Inr (k\<lparr>mk_val := bool_value v\<rparr>, h))
     | _ \<Rightarrow> Inl CheckFailed))"

definition MapKey_copy :: "MapKey \<Rightarrow> 8 word list heap \<Rightarrow> key_state run" where
  "MapKey_copy other h = MapKey_CopyFrom other (MapKey_new, h)"

definition MapKey_destruct :: "key_state \<Rightarrow> 8 word list heap run" where
  "MapKey_destruct = (\<lambda>(k, h).
     if mk_type k = Some CPPTYPE_STRING then bnd (string_member k) (\<lambda>p. hp_delete p h) else Inr h)"

section \<open>Keys by their type\<close>

text \<open>\<open>SetMapKey\<close> and \<open>UnwrapMapKey\<close> of \<open>map_field_inl.h\<close>, with the six specialisations.\<close>

datatype key_value =
    K_int32 "32 word" | K_uint32 "32 word" | K_int64 "64 word" | K_uint64 "64 word" | K_bool bool
  | K_string "8 word list"

fun SetMapKey :: "key_value \<Rightarrow> key_state \<Rightarrow> key_state run" where
  "SetMapKey (K_int32 value) map_key = MapKey_SetInt32Value value map_key"
| "SetMapKey (K_uint32 value) map_key = MapKey_SetUInt32Value value map_key"
| "SetMapKey (K_int64 value) map_key = MapKey_SetInt64Value value map_key"
| "SetMapKey (K_uint64 value) map_key = MapKey_SetUInt64Value value map_key"
| "SetMapKey (K_bool value) map_key = MapKey_SetBoolValue value map_key"
| "SetMapKey (K_string value) map_key = MapKey_SetStringValue value map_key"

fun UnwrapMapKey :: "CppType \<Rightarrow> key_state \<Rightarrow> key_value run" where
  "UnwrapMapKey CPPTYPE_INT32 (k, h) = bnd (MapKey_GetInt32Value k) (\<lambda>v. Inr (K_int32 v))"
| "UnwrapMapKey CPPTYPE_UINT32 (k, h) = bnd (MapKey_GetUInt32Value k) (\<lambda>v. Inr (K_uint32 v))"
| "UnwrapMapKey CPPTYPE_INT64 (k, h) = bnd (MapKey_GetInt64Value k) (\<lambda>v. Inr (K_int64 v))"
| "UnwrapMapKey CPPTYPE_UINT64 (k, h) = bnd (MapKey_GetUInt64Value k) (\<lambda>v. Inr (K_uint64 v))"
| "UnwrapMapKey CPPTYPE_BOOL (k, h) = bnd (MapKey_GetBoolValue k) (\<lambda>v. Inr (K_bool (v \<noteq> 0)))"
| "UnwrapMapKey CPPTYPE_STRING (k, h) = bnd (MapKey_GetStringValue (k, h)) (\<lambda>v. Inr (K_string v))"
| "UnwrapMapKey _ (k, h) = Inl CheckFailed"

fun key_type :: "key_value \<Rightarrow> CppType" where
  "key_type (K_int32 v) = CPPTYPE_INT32"
| "key_type (K_uint32 v) = CPPTYPE_UINT32"
| "key_type (K_int64 v) = CPPTYPE_INT64"
| "key_type (K_uint64 v) = CPPTYPE_UINT64"
| "key_type (K_bool v) = CPPTYPE_BOOL"
| "key_type (K_string v) = CPPTYPE_STRING"

section \<open>What a key stands for\<close>

text \<open>A key that holds \<open>v\<close>: the tag, the member of the union, and for a string the object, which nobody else
  has.\<close>

fun holds_key :: "key_state \<Rightarrow> key_value \<Rightarrow> bool" where
  "holds_key (k, h) (K_int32 v) \<longleftrightarrow> mk_type k = Some CPPTYPE_INT32 \<and> mk_val k = int32_value v"
| "holds_key (k, h) (K_uint32 v) \<longleftrightarrow> mk_type k = Some CPPTYPE_UINT32 \<and> mk_val k = uint32_value v"
| "holds_key (k, h) (K_int64 v) \<longleftrightarrow> mk_type k = Some CPPTYPE_INT64 \<and> mk_val k = int64_value v"
| "holds_key (k, h) (K_uint64 v) \<longleftrightarrow> mk_type k = Some CPPTYPE_UINT64 \<and> mk_val k = uint64_value v"
| "holds_key (k, h) (K_bool v) \<longleftrightarrow> mk_type k = Some CPPTYPE_BOOL \<and> mk_val k = bool_value v"
| "holds_key (k, h) (K_string v) \<longleftrightarrow> mk_type k = Some CPPTYPE_STRING \<and>
     (\<exists>p. mk_val k = string_value (Some p) \<and> hp_cells h p = Some v \<and> p \<notin> owned h)"

definition key_is :: "key_state \<Rightarrow> key_value option \<Rightarrow> bool" where
  "key_is st v \<longleftrightarrow> wf_heap (snd st) \<and> (case v of None \<Rightarrow> mk_type (fst st) = None | Some v \<Rightarrow> holds_key st v)"

definition key_ptrs :: "MapKey \<Rightarrow> nat set" where
  "key_ptrs k = (if mk_type k = Some CPPTYPE_STRING then {p. mk_val k = string_value (Some p)} else {})"

named_theorems member_simps
declare string_member_def [member_simps] int64_member_def [member_simps] int32_member_def [member_simps]
  uint64_member_def [member_simps] uint32_member_def [member_simps] bool_member_def [member_simps]
  MapKey_type_def [member_simps] TYPE_CHECK_def [member_simps]

lemma key_isD:
  assumes "key_is (k, h) v"
  shows "wf_heap h" and "key_ptrs k \<subseteq> live h - owned h" and "mk_type k = map_option key_type v"
  using assms by (auto simp: key_is_def key_ptrs_def in_live split: option.splits elim: holds_key.elims)

lemma key_is_SomeD:
  assumes "key_is (k, h) (Some v)"
  shows "mk_type k = Some (key_type v)" and "holds_key (k, h) v"
  using assms by (auto simp: key_is_def elim: holds_key.elims)

text \<open>A key that has become a string: a string of its own, empty or the one it had.\<close>

lemma SetType_step:
  assumes "key_is (k, h) v"
  shows "\<exists>k' h'. MapKey_SetType type (k, h) = Inr (k', h') \<and> mk_type k' = Some type \<and> wf_heap h' \<and>
    keeps_rest (key_ptrs k) h (key_ptrs k') h' \<and>
    (type = CPPTYPE_STRING \<longrightarrow> (\<exists>p. mk_val k' = string_value (Some p) \<and> p \<in> live h' \<and> p \<notin> owned h'))"
proof (cases "mk_type k = Some type")
  case True
  have "\<exists>p. mk_val k = string_value (Some p) \<and> p \<in> live h \<and> p \<notin> owned h" if "type = CPPTYPE_STRING"
    using assms True that by (auto simp: key_is_def in_live split: option.splits elim: holds_key.elims)
  then show ?thesis using True key_isD(1)[OF assms] keeps_rest_refl[of "key_ptrs k" h]
    by (intro exI[of _ k] exI[of _ h]) (simp add: MapKey_SetType_def)
next
  case False
  have freed: "\<exists>h1. (if mk_type k = Some CPPTYPE_STRING then bnd (string_member k) (\<lambda>p. hp_delete p h) else Inr h) = Inr h1 \<and>
      wf_heap h1 \<and> keeps_rest (key_ptrs k) h {} h1"
  proof (cases "mk_type k = Some CPPTYPE_STRING")
    case True
    then obtain p x where p: "mk_val k = string_value (Some p)" "hp_cells h p = Some x" "p \<notin> owned h"
      using assms by (auto simp: key_is_def split: option.splits elim: holds_key.elims)
    then have "p \<in> live h" by (simp add: in_live)
    then obtain h1 where h1: "hp_delete (Some p) h = Inr h1" "hp_cells h1 = (hp_cells h)(p := None)" "live h1 = live h - {p}"
        "hp_owned h1 = hp_owned h" "wf_heap h1"
      using hp_delete_live p(3) key_isD(1)[OF assms] by blast
    have "key_ptrs k = {p}" using True p(1) by (simp add: key_ptrs_def)
    then show ?thesis using True p(1) h1 keeps_rest_delete[OF h1(2-4), of "{p}"] by (simp add: string_member_def)
  next
    case False
    then show ?thesis using key_isD(1)[OF assms] keeps_rest_refl by (simp add: key_ptrs_def)
  qed
  then obtain h1 where h1: "(if mk_type k = Some CPPTYPE_STRING then bnd (string_member k) (\<lambda>p. hp_delete p h) else Inr h) = Inr h1"
      "wf_heap h1" "keeps_rest (key_ptrs k) h {} h1" by blast
  show ?thesis
  proof (cases "type = CPPTYPE_STRING")
    case True
    obtain p h2 where new: "hp_new [] h1 = (p, h2)" by (cases "hp_new [] h1")
    note f = hp_new_fresh[OF h1(2) new]
    have "keeps_rest {} h1 {p} h2" using keeps_rest_new[OF h1(2) new, of "{}" None] by simp
    then have k: "keeps_rest (key_ptrs k) h {p} h2" by (rule keeps_rest_trans[OF h1(3)])
    have "p \<notin> owned h2" using f(1,4) h1(2) by (auto simp: wf_heap_def owned_def)
    then show ?thesis using False True h1(1) new f(2,5) k
      by (simp add: MapKey_SetType_def key_ptrs_def)
  next
    case False
    then show ?thesis using \<open>mk_type k \<noteq> Some type\<close> h1 by (simp add: MapKey_SetType_def key_ptrs_def)
  qed
qed

lemma SetMapKey_step:
  assumes "key_is (k, h) v"
  shows "\<exists>k' h'. SetMapKey w (k, h) = Inr (k', h') \<and> key_is (k', h') (Some w) \<and> keeps_rest (key_ptrs k) h (key_ptrs k') h'"
proof -
  obtain k1 h1 where s: "MapKey_SetType (key_type w) (k, h) = Inr (k1, h1)" "mk_type k1 = Some (key_type w)" "wf_heap h1"
      "keeps_rest (key_ptrs k) h (key_ptrs k1) h1"
      "key_type w = CPPTYPE_STRING \<longrightarrow> (\<exists>p. mk_val k1 = string_value (Some p) \<and> p \<in> live h1 \<and> p \<notin> owned h1)"
    using SetType_step[OF assms] by blast
  show ?thesis
  proof (cases w)
    case (K_string x)
    then obtain p where p: "mk_val k1 = string_value (Some p)" "p \<in> live h1" "p \<notin> owned h1" using s(5) by auto
    obtain h2 where h2: "hp_write (Some p) x h1 = Inr h2" "hp_cells h2 = (hp_cells h1)(p := Some x)" "live h2 = live h1"
        "hp_owned h2 = hp_owned h1" "wf_heap h2 = wf_heap h1"
      using hp_write_live[OF p(2)] by blast
    have kp: "key_ptrs k1 = {p}" using s(2) p(1) K_string by (simp add: key_ptrs_def)
    have "keeps_rest (key_ptrs k1) h1 (key_ptrs k1) h2" by (rule keeps_rest_update[OF h2(2-4)]) (simp add: kp)
    note k = keeps_rest_trans[OF s(4) this]
    have "SetMapKey w (k, h) = Inr (k1, h2)"
      using K_string s(1) p(1) h2(1) by (simp add: MapKey_SetStringValue_def string_member_def)
    moreover have "p \<notin> owned h2" using p(3) h2(4) by (simp add: owned_def)
    ultimately show ?thesis using K_string s(2,3) p(1) h2(2,5) k
      by (intro exI[of _ k1] exI[of _ h2]) (simp add: key_is_def)
  qed (use s in \<open>auto simp: MapKey_SetInt32Value_def MapKey_SetUInt32Value_def MapKey_SetInt64Value_def
        MapKey_SetUInt64Value_def MapKey_SetBoolValue_def key_is_def key_ptrs_def\<close>)
qed

lemma UnwrapMapKey_is:
  assumes "key_is (k, h) v"
  shows "UnwrapMapKey type (k, h) = (case v of None \<Rightarrow> Inl CheckFailed | Some w \<Rightarrow> if key_type w = type then Inr w else Inl CheckFailed)"
proof (cases v)
  case None
  then have "mk_type k = None" using assms by (simp add: key_is_def)
  then show ?thesis using None
    by (cases type) (simp_all add: MapKey_GetInt32Value_def MapKey_GetUInt32Value_def MapKey_GetInt64Value_def
        MapKey_GetUInt64Value_def MapKey_GetBoolValue_def MapKey_GetStringValue_def member_simps)
next
  case (Some w)
  then have "holds_key (k, h) w" using assms by (simp add: key_is_def)
  then show ?thesis using Some
    by (cases type; cases w) (auto simp: MapKey_GetInt32Value_def MapKey_GetUInt32Value_def MapKey_GetInt64Value_def
        MapKey_GetUInt64Value_def MapKey_GetBoolValue_def MapKey_GetStringValue_def member_simps)
qed

text \<open>Copying is setting to the other key's value.\<close>

lemma CopyFrom_as_Set:
  assumes "key_is (k, h) v" and "key_is (other, h) (Some w)" and "key_ptrs other \<inter> key_ptrs k = {}"
  shows "MapKey_CopyFrom other (k, h) = SetMapKey w (k, h)"
proof -
  obtain k1 h1 where s: "MapKey_SetType (key_type w) (k, h) = Inr (k1, h1)" "keeps_rest (key_ptrs k) h (key_ptrs k1) h1"
    using SetType_step[OF assms(1)] by blast
  have t: "MapKey_type other = Inr (key_type w)" using key_is_SomeD(1)[OF assms(2)] by (simp add: MapKey_type_def)
  show ?thesis
  proof (cases w)
    case (K_string x)
    then obtain q where q: "mk_val other = string_value (Some q)" "hp_cells h q = Some x" "key_ptrs other = {q}"
      using assms(2) by (auto simp: key_is_def key_ptrs_def)
    then have "q \<in> live h" "q \<notin> key_ptrs k" using assms(3) by (auto simp: in_live)
    then have "hp_cells h1 q = Some x" using keeps_restD(3)[OF s(2)] q(2) by simp
    then show ?thesis using K_string s(1) t q(1)
      by (simp add: MapKey_CopyFrom_def MapKey_SetStringValue_def string_member_def bnd_assoc)
  qed (use s t assms(2) in \<open>auto simp: MapKey_CopyFrom_def MapKey_SetInt32Value_def MapKey_SetUInt32Value_def
        MapKey_SetInt64Value_def MapKey_SetUInt64Value_def MapKey_SetBoolValue_def key_is_def member_simps\<close>)
qed

lemma MapKey_equal_is:
  assumes "key_is (k, h) v" and "key_is (other, h) w"
  shows "MapKey_equal other (k, h) = (if v = None \<and> w = None then Inl CheckFailed else Inr (v = w))"
proof (cases v)
  case None
  then have "mk_type k = None" "mk_type other = map_option key_type w" using key_isD(3)[OF assms(1)] key_isD(3)[OF assms(2)] by simp_all
  then show ?thesis using None by (cases w) (simp_all add: MapKey_equal_def MapKey_type_def)
next
  case (Some x)
  then have x: "holds_key (k, h) x" using assms(1) by (simp add: key_is_def)
  show ?thesis
  proof (cases w)
    case None
    then show ?thesis using Some key_isD(3)[OF assms(1)] key_isD(3)[OF assms(2)] by (simp add: MapKey_equal_def)
  next
    case (Some y)
    then have "holds_key (other, h) y" using assms(2) by (simp add: key_is_def)
    then show ?thesis using x Some \<open>v = Some x\<close>
      by (cases x; cases y) (auto simp: MapKey_equal_def member_simps)
  qed
qed

lemma MapKey_destruct_step:
  assumes "key_is (k, h) v"
  shows "\<exists>h'. MapKey_destruct (k, h) = Inr h' \<and> wf_heap h' \<and> keeps_rest (key_ptrs k) h {} h'"
proof -
  obtain k' h' where s: "MapKey_SetType CPPTYPE_BOOL (k, h) = Inr (k', h')" "mk_type k' = Some CPPTYPE_BOOL" "wf_heap h'"
      "keeps_rest (key_ptrs k) h (key_ptrs k') h'"
    using SetType_step[OF assms] by blast
  have "key_ptrs k' = {}" using s(2) by (simp add: key_ptrs_def)
  moreover have "MapKey_destruct (k, h) = Inr h'"
    using s(1) by (auto simp: MapKey_SetType_def MapKey_destruct_def Let_def bnd_eq_Inr split: if_splits)
  ultimately show ?thesis using s(3,4) by auto
qed

lemma key_kept:
  assumes "key_is (other, h) (Some w)" and "keeps_rest ps h ps' h'" and "key_ptrs other \<inter> ps = {}" and "wf_heap h'"
  shows "key_is (other, h') (Some w)"
proof (cases w)
  case (K_string x)
  then obtain q where q: "mk_type other = Some CPPTYPE_STRING" "mk_val other = string_value (Some q)" "hp_cells h q = Some x"
      "q \<notin> owned h"
    using assms(1) by (auto simp: key_is_def)
  then have d: "{q} \<inter> ps = {}" "{q} \<subseteq> live h" using assms(3) by (auto simp: key_ptrs_def in_live)
  note b = keeps_rest_beside[OF assms(2) d]
  have "hp_cells h' q = Some x" using b(4) q(3) by simp
  moreover have "q \<notin> owned h'" using b(5)[of q None] q(4) by simp
  ultimately show ?thesis using K_string q(1,2) assms(4) by (simp add: key_is_def)
qed (use assms(1,4) in \<open>auto simp: key_is_def\<close>)

text \<open>A \<open>MapKey\<close> is the value that was last put into it. It can be set to a value of any key type, whatever
  it held before; reading it at its type gives the value, at another type, or before it was set, the
  program stops; a copy holds the same value in a string of its own and leaves the original alone; keys
  are equal when type and value are, except that two keys that were never set cannot be compared. Its
  string is the only object it holds, and goes when the type changes or the key does.\<close>

theorem MapKey_is_a_value:
  assumes "key_is (k, h) v"
  shows "(\<forall>w. \<exists>k' h'. SetMapKey w (k, h) = Inr (k', h') \<and> key_is (k', h') (Some w) \<and>
       keeps_rest (key_ptrs k) h (key_ptrs k') h') \<and>
    (\<forall>t. UnwrapMapKey t (k, h) =
       (case v of None \<Rightarrow> Inl CheckFailed | Some w \<Rightarrow> if key_type w = t then Inr w else Inl CheckFailed)) \<and>
    (\<forall>other w. key_is (other, h) (Some w) \<and> key_ptrs other \<inter> key_ptrs k = {} \<longrightarrow>
       (\<exists>k' h'. MapKey_CopyFrom other (k, h) = Inr (k', h') \<and> key_is (k', h') (Some w) \<and> key_is (other, h') (Some w) \<and>
          key_ptrs other \<inter> key_ptrs k' = {} \<and> keeps_rest (key_ptrs k) h (key_ptrs k') h')) \<and>
    (\<forall>other w. key_is (other, h) w \<longrightarrow>
       MapKey_equal other (k, h) = (if v = None \<and> w = None then Inl CheckFailed else Inr (v = w))) \<and>
    (\<exists>h'. MapKey_destruct (k, h) = Inr h' \<and> wf_heap h' \<and> keeps_rest (key_ptrs k) h {} h') \<and>
    key_is (MapKey_new, h) None"
proof -
  have "\<exists>k' h'. MapKey_CopyFrom other (k, h) = Inr (k', h') \<and> key_is (k', h') (Some w) \<and> key_is (other, h') (Some w) \<and>
      key_ptrs other \<inter> key_ptrs k' = {} \<and> keeps_rest (key_ptrs k) h (key_ptrs k') h'"
    if o: "key_is (other, h) (Some w)" "key_ptrs other \<inter> key_ptrs k = {}" for other w
  proof -
    obtain k' h' where s: "SetMapKey w (k, h) = Inr (k', h')" "key_is (k', h') (Some w)"
        "keeps_rest (key_ptrs k) h (key_ptrs k') h'" using SetMapKey_step[OF assms] by blast
    have "key_ptrs other \<subseteq> live h" using key_isD(2)[OF o(1)] by blast
    from keeps_rest_beside(2)[OF s(3) o(2) this] key_kept[OF o(1) s(3) o(2) key_isD(1)[OF s(2)]]
    show ?thesis using s CopyFrom_as_Set[OF assms o] by auto
  qed
  moreover have "key_is (MapKey_new, h) None" using key_isD(1)[OF assms] by (simp add: key_is_def MapKey_new_def)
  ultimately show ?thesis
    using SetMapKey_step[OF assms] UnwrapMapKey_is[OF assms] MapKey_equal_is[OF assms] MapKey_destruct_step[OF assms] by blast
qed

theorem MapKey_is_a_value_witness:
  "\<exists>k' h'. SetMapKey (K_string [107]) (MapKey_new, hp_empty) = Inr (k', h') \<and> key_is (k', h') (Some (K_string [107]))"
proof -
  have "key_is (MapKey_new, hp_empty) None" by (simp add: key_is_def MapKey_new_def)
  from MapKey_is_a_value[OF this, THEN conjunct1] show ?thesis by blast
qed

section \<open>MapValueRef\<close>

text \<open>The values a map can hold, behind the untyped pointer \<open>data_\<close>.\<close>

datatype 'm map_value = V_prim prim | V_string "8 word list" | V_message 'm

fun value_type :: "'m map_value \<Rightarrow> CppType" where
  "value_type (V_prim v) = prim_type v"
| "value_type (V_string v) = CPPTYPE_STRING"
| "value_type (V_message m) = CPPTYPE_MESSAGE"

record MapValueRef =
  mv_data :: "nat option"
  mv_type :: "CppType option"

type_synonym 'm ref_state = "MapValueRef \<times> 'm map_value heap"

definition MapValueRef_new :: MapValueRef where
  "MapValueRef_new = \<lparr>mv_data = None, mv_type = None\<rparr>"

definition MapValueRef_SetType :: "CppType \<Rightarrow> MapValueRef \<Rightarrow> MapValueRef" where
  "MapValueRef_SetType type r = r\<lparr>mv_type := Some type\<rparr>"

definition MapValueRef_type :: "MapValueRef \<Rightarrow> CppType run" where
  "MapValueRef_type r = (case mv_type r of None \<Rightarrow> Inl CheckFailed
     | Some t \<Rightarrow> if mv_data r = None then Inl CheckFailed else Inr t)"

definition MapValueRef_SetValue :: "nat option \<Rightarrow> MapValueRef \<Rightarrow> MapValueRef" where
  "MapValueRef_SetValue val r = r\<lparr>mv_data := val\<rparr>"

definition MapValueRef_CopyFrom :: "MapValueRef \<Rightarrow> MapValueRef \<Rightarrow> MapValueRef" where
  "MapValueRef_CopyFrom other r = r\<lparr>mv_type := mv_type other, mv_data := mv_data other\<rparr>"

text \<open>\<open>*reinterpret_cast<T*>(data_)\<close>: the object must be a \<open>T\<close>.\<close>

definition load_as :: "CppType \<Rightarrow> 'm ref_state \<Rightarrow> 'm map_value run" where
  "load_as t = (\<lambda>(r, h). bnd (hp_read (mv_data r) h) (\<lambda>x. if value_type x = t then Inr x else Inl Uninitialised))"

definition store_as :: "'m map_value \<Rightarrow> 'm ref_state \<Rightarrow> 'm ref_state run" where
  "store_as v = (\<lambda>(r, h). bnd (load_as (value_type v) (r, h)) (\<lambda>_. bnd (hp_write (mv_data r) v h) (\<lambda>h. Inr (r, h))))"

definition MapValueRef_SetInt64Value :: "64 word \<Rightarrow> 'm ref_state \<Rightarrow> 'm ref_state run" where
  "MapValueRef_SetInt64Value value st = TYPE_CHECK CPPTYPE_INT64 (MapValueRef_type (fst st)) (store_as (V_prim (P_int64 value)) st)"

definition MapValueRef_SetUInt64Value :: "64 word \<Rightarrow> 'm ref_state \<Rightarrow> 'm ref_state run" where
  "MapValueRef_SetUInt64Value value st = TYPE_CHECK CPPTYPE_UINT64 (MapValueRef_type (fst st)) (store_as (V_prim (P_uint64 value)) st)"

definition MapValueRef_SetInt32Value :: "32 word \<Rightarrow> 'm ref_state \<Rightarrow> 'm ref_state run" where
  "MapValueRef_SetInt32Value value st = TYPE_CHECK CPPTYPE_INT32 (MapValueRef_type (fst st)) (store_as (V_prim (P_int32 value)) st)"

text \<open>The parameter is a \<open>uint64\<close>; the assignment keeps its low half.\<close>

definition MapValueRef_SetUInt32Value :: "64 word \<Rightarrow> 'm ref_state \<Rightarrow> 'm ref_state run" where
  "MapValueRef_SetUInt32Value value st =
    TYPE_CHECK CPPTYPE_UINT32 (MapValueRef_type (fst st)) (store_as (V_prim (P_uint32 (ucast value))) st)"

definition MapValueRef_SetBoolValue :: "bool \<Rightarrow> 'm ref_state \<Rightarrow> 'm ref_state run" where
  "MapValueRef_SetBoolValue value st = TYPE_CHECK CPPTYPE_BOOL (MapValueRef_type (fst st)) (store_as (V_prim (P_bool value)) st)"

definition MapValueRef_SetEnumValue :: "32 word \<Rightarrow> 'm ref_state \<Rightarrow> 'm ref_state run" where
  "MapValueRef_SetEnumValue value st = TYPE_CHECK CPPTYPE_ENUM (MapValueRef_type (fst st)) (store_as (V_prim (P_int value)) st)"

definition MapValueRef_SetStringValue :: "8 word list \<Rightarrow> 'm ref_state \<Rightarrow> 'm ref_state run" where
  "MapValueRef_SetStringValue value st = TYPE_CHECK CPPTYPE_STRING (MapValueRef_type (fst st)) (store_as (V_string value) st)"

definition MapValueRef_SetFloatValue :: "32 word \<Rightarrow> 'm ref_state \<Rightarrow> 'm ref_state run" where
  "MapValueRef_SetFloatValue value st = TYPE_CHECK CPPTYPE_FLOAT (MapValueRef_type (fst st)) (store_as (V_prim (P_float value)) st)"

definition MapValueRef_SetDoubleValue :: "64 word \<Rightarrow> 'm ref_state \<Rightarrow> 'm ref_state run" where
  "MapValueRef_SetDoubleValue value st = TYPE_CHECK CPPTYPE_DOUBLE (MapValueRef_type (fst st)) (store_as (V_prim (P_double value)) st)"

text \<open>The ten getters differ in the type only (\<open>GetInt64Value\<close> to \<open>GetMessageValue\<close>).\<close>

definition MapValueRef_GetValue :: "CppType \<Rightarrow> 'm ref_state \<Rightarrow> 'm map_value run" where
  "MapValueRef_GetValue t st = TYPE_CHECK t (MapValueRef_type (fst st)) (load_as t st)"

definition MapValueRef_MutableMessageValue :: "MapValueRef \<Rightarrow> nat option run" where
  "MapValueRef_MutableMessageValue r = TYPE_CHECK CPPTYPE_MESSAGE (MapValueRef_type r) (Inr (mv_data r))"

text \<open>Used for dynamic map fields only; \<open>switch (type_)\<close> has no case for 0.\<close>

definition MapValueRef_DeleteData :: "'m ref_state \<Rightarrow> 'm map_value heap run" where
  "MapValueRef_DeleteData = (\<lambda>(r, h). case mv_type r of None \<Rightarrow> Inr h | Some t \<Rightarrow> hp_delete (mv_data r) h)"

text \<open>The setters by the type of the value.\<close>

fun MapValueRef_Set :: "'m map_value \<Rightarrow> 'm ref_state \<Rightarrow> 'm ref_state run" where
  "MapValueRef_Set (V_prim (P_int64 v)) st = MapValueRef_SetInt64Value v st"
| "MapValueRef_Set (V_prim (P_uint64 v)) st = MapValueRef_SetUInt64Value v st"
| "MapValueRef_Set (V_prim (P_int32 v)) st = MapValueRef_SetInt32Value v st"
| "MapValueRef_Set (V_prim (P_uint32 v)) st = MapValueRef_SetUInt32Value (ucast v) st"
| "MapValueRef_Set (V_prim (P_bool v)) st = MapValueRef_SetBoolValue v st"
| "MapValueRef_Set (V_prim (P_int v)) st = MapValueRef_SetEnumValue v st"
| "MapValueRef_Set (V_prim (P_float v)) st = MapValueRef_SetFloatValue v st"
| "MapValueRef_Set (V_prim (P_double v)) st = MapValueRef_SetDoubleValue v st"
| "MapValueRef_Set (V_string v) st = MapValueRef_SetStringValue v st"
| "MapValueRef_Set (V_message m) st = bnd (MapValueRef_MutableMessageValue (fst st)) (\<lambda>p.
     bnd (hp_write p (V_message m) (snd st)) (\<lambda>h. Inr (fst st, h)))"

lemmas ref_setters = MapValueRef_SetInt64Value_def MapValueRef_SetUInt64Value_def MapValueRef_SetInt32Value_def
  MapValueRef_SetUInt32Value_def MapValueRef_SetBoolValue_def MapValueRef_SetEnumValue_def MapValueRef_SetStringValue_def
  MapValueRef_SetFloatValue_def MapValueRef_SetDoubleValue_def MapValueRef_MutableMessageValue_def

text \<open>A \<open>MapValueRef\<close> whose tag is the type of the value it points to reads that value at that type, and
  replaces it, and only it, by a value of the same type; at another type, or before it points to a value,
  every access stops the program before memory is touched.\<close>

theorem MapValueRef_typed:
  assumes "mv_data r = Some p" and "hp_cells h p = Some old" and "mv_type r = Some (value_type old)"
  shows "(\<forall>v. MapValueRef_Set v (r, h) =
       (if value_type v = value_type old then Inr (r, h\<lparr>hp_cells := (hp_cells h)(p := Some v)\<rparr>) else Inl CheckFailed)) \<and>
    (\<forall>t. MapValueRef_GetValue t (r, h) = (if t = value_type old then Inr old else Inl CheckFailed)) \<and>
    (\<forall>v t. MapValueRef_Set v (MapValueRef_new, h) = Inl CheckFailed \<and> MapValueRef_GetValue t (MapValueRef_new, h) = Inl CheckFailed) \<and>
    MapValueRef_CopyFrom r MapValueRef_new = r"
proof -
  have t: "MapValueRef_type r = Inr (value_type old)" "MapValueRef_type MapValueRef_new = Inl CheckFailed"
    using assms by (simp_all add: MapValueRef_type_def MapValueRef_new_def)
  have rd: "hp_read (Some p) h = Inr old" using assms(2) by simp
  have cast: "ucast (ucast x :: 64 word) = x" for x :: "32 word" by (rule bit_word_eqI) (auto simp: bit_simps)
  have wr: "hp_write (Some p) v h = Inr (h\<lparr>hp_cells := (hp_cells h)(p := Some v)\<rparr>)" for v
    using assms(2) by (simp add: hp_write_def)
  have "MapValueRef_Set v (r, h) =
       (if value_type v = value_type old then Inr (r, h\<lparr>hp_cells := (hp_cells h)(p := Some v)\<rparr>) else Inl CheckFailed)" for v
    using t(1) rd wr assms(1) cast
    by (cases "(v, (r, h))" rule: MapValueRef_Set.cases) (auto simp: ref_setters TYPE_CHECK_def store_as_def load_as_def)
  moreover have "MapValueRef_Set v (MapValueRef_new, h) = Inl CheckFailed" for v
    using t(2) by (cases "(v, (MapValueRef_new, h))" rule: MapValueRef_Set.cases) (simp_all add: ref_setters TYPE_CHECK_def)
  ultimately show ?thesis using t rd assms
    by (simp add: MapValueRef_GetValue_def TYPE_CHECK_def load_as_def MapValueRef_CopyFrom_def MapValueRef_new_def)
qed

theorem MapValueRef_typed_witness:
  "MapValueRef_Set (V_string [98]) (\<lparr>mv_data = Some 0, mv_type = Some CPPTYPE_STRING\<rparr>, snd (hp_new (V_string [97] :: nat map_value) hp_empty)) =
     Inr (\<lparr>mv_data = Some 0, mv_type = Some CPPTYPE_STRING\<rparr>, snd (hp_new (V_string [98]) hp_empty))"
proof -
  let ?r = "\<lparr>mv_data = Some 0, mv_type = Some CPPTYPE_STRING\<rparr>" and ?h = "snd (hp_new (V_string [97] :: nat map_value) hp_empty)"
  have h: "hp_cells ?h 0 = Some (V_string [97])" "mv_data ?r = Some 0" "mv_type ?r = Some (value_type (V_string [97] :: nat map_value))"
    by (simp_all add: hp_new_def hp_empty_def)
  from MapValueRef_typed[OF h(2,1,3), THEN conjunct1] show ?thesis by (simp add: hp_new_def hp_empty_def)
qed

text \<open>\<open>SetUInt32Value\<close> takes a 64 bit number and loses what does not fit.\<close>

lemma SetUInt32Value_truncates:
  assumes "mv_data r = Some p" and "hp_cells h p = Some (V_prim (P_uint32 old))" and "mv_type r = Some CPPTYPE_UINT32"
  shows "\<exists>h'. MapValueRef_SetUInt32Value (2 ^ 32) (r, h) = Inr (r, h') \<and> hp_cells h' p = Some (V_prim (P_uint32 0))"
proof -
  have "ucast (2 ^ 32 :: 64 word) = (0 :: 32 word)" by simp
  then show ?thesis using assms
    by (simp add: MapValueRef_SetUInt32Value_def TYPE_CHECK_def MapValueRef_type_def store_as_def load_as_def hp_write_def)
qed

end
