(* ===== verification/PbRepeatedPtr.thy ===== *)
theory PbRepeatedPtr
  imports PbRepeated PbHeap "HOL-Library.Word"
begin

text \<open>
  \<open>RepeatedPtrField\<close> of \<open>include/google/protobuf/repeated_field.h\<close>, the array behind repeated strings and
  messages: pointers to objects it owns, the first \<open>current_size_\<close> of them the elements, the rest of the
  allocated ones cleared objects that are kept for reuse. Shown: the elements are a list and every
  operation the one of lists; which objects the field owns, hands out and takes over, with and without
  arenas; and that nothing is leaked or deleted twice.
\<close>

section \<open>Representation\<close>

text \<open>An object knows its arena when its type is made for arenas (\<open>GetArenaNoVirtual\<close>).\<close>

record 'a obj =
  ob_arena :: "nat option"
  ob_value :: 'a

text \<open>What a \<open>TypeHandler\<close> knows of the type: \<open>T()\<close>, \<open>Clear\<close>, \<open>Merge(from, to)\<close>, whether the type is arena
  constructable and whether it implements \<open>MergeFrom\<close> (\<open>TypeImplementsMergeBehavior\<close>).\<close>

record 'a ptr_type =
  pt_new :: 'a
  pt_clear :: "'a \<Rightarrow> 'a"
  pt_merge :: "'a \<Rightarrow> 'a \<Rightarrow> 'a"
  pt_on_arena :: bool
  pt_merges :: bool

text \<open>\<open>struct Rep\<close>; a slot that was never written holds no pointer.\<close>

record PtrRep =
  pr_allocated_size :: int
  pr_elements :: "nat option list"

record RepeatedPtrField =
  rp_arena :: "nat option"
  rp_current_size :: int
  rp_total_size :: int
  rp_rep :: "PtrRep option"

type_synonym 'a rp_state = "RepeatedPtrField \<times> 'a obj heap"

text \<open>The functions of \<open>repeated_field.cc\<close>. \<open>InternalExtend\<close> returns a pointer into the array, an offset.\<close>

record rp_lib =
  rl_Reserve :: "int \<Rightarrow> RepeatedPtrField \<Rightarrow> RepeatedPtrField"
  rl_InternalExtend :: "int \<Rightarrow> RepeatedPtrField \<Rightarrow> int \<times> RepeatedPtrField"
  rl_CloseGap :: "int \<Rightarrow> int \<Rightarrow> RepeatedPtrField \<Rightarrow> RepeatedPtrField"

section \<open>Objects\<close>

definition pt_New :: "'a ptr_type \<Rightarrow> nat option \<Rightarrow> 'a obj heap \<Rightarrow> nat \<times> 'a obj heap" where
  "pt_New T arena h =
    (case hp_new \<lparr>ob_arena = (if pt_on_arena T then arena else None), ob_value = pt_new T\<rparr> h of
       (p, h) \<Rightarrow> (p, own_on arena p h))"

definition pt_NewFromPrototype :: "'a ptr_type \<Rightarrow> nat option \<Rightarrow> 'a obj heap \<Rightarrow> nat \<times> 'a obj heap" where
  "pt_NewFromPrototype T arena h = pt_New T arena h"

definition pt_Delete :: "nat option \<Rightarrow> nat option \<Rightarrow> 'a obj heap \<Rightarrow> 'a obj heap run" where
  "pt_Delete p arena h = (if arena = None then hp_delete p h else Inr h)"

definition pt_GetArena :: "'a ptr_type \<Rightarrow> nat option \<Rightarrow> 'a obj heap \<Rightarrow> nat option run" where
  "pt_GetArena T p h = (if pt_on_arena T then bnd (hp_read p h) (\<lambda>x. Inr (ob_arena x)) else Inr None)"

definition pt_Clear :: "'a ptr_type \<Rightarrow> nat option \<Rightarrow> 'a obj heap \<Rightarrow> 'a obj heap run" where
  "pt_Clear T p h = bnd (hp_read p h) (\<lambda>x. hp_write p (x\<lparr>ob_value := pt_clear T (ob_value x)\<rparr>) h)"

definition pt_Merge :: "'a ptr_type \<Rightarrow> nat option \<Rightarrow> nat option \<Rightarrow> 'a obj heap \<Rightarrow> 'a obj heap run" where
  "pt_Merge T from to h = bnd (hp_read from h) (\<lambda>x. bnd (hp_read to h) (\<lambda>y.
     hp_write to (y\<lparr>ob_value := pt_merge T (ob_value x) (ob_value y)\<rparr>) h))"

definition pt_Own :: "nat option \<Rightarrow> nat option \<Rightarrow> 'a obj heap \<Rightarrow> 'a obj heap" where
  "pt_Own arena p h = (case (arena, p) of (Some a, Some q) \<Rightarrow> hp_own a q h | _ \<Rightarrow> h)"

section \<open>Accesses to the array\<close>

definition rp_the_rep :: "RepeatedPtrField \<Rightarrow> PtrRep run" where
  "rp_the_rep st = (case rp_rep st of None \<Rightarrow> Inl NullDeref | Some r \<Rightarrow> Inr r)"

definition rp_slot :: "int \<Rightarrow> RepeatedPtrField \<Rightarrow> nat option run" where
  "rp_slot i st = bnd (rp_the_rep st) (\<lambda>r. read_at (pr_elements r) i)"

definition rp_set_slot :: "int \<Rightarrow> nat option \<Rightarrow> RepeatedPtrField \<Rightarrow> RepeatedPtrField run" where
  "rp_set_slot i p st = bnd (rp_the_rep st) (\<lambda>r. bnd (write_at (pr_elements r) i p) (\<lambda>xs.
     Inr (st\<lparr>rp_rep := Some (r\<lparr>pr_elements := xs\<rparr>)\<rparr>)))"

definition rp_allocated :: "RepeatedPtrField \<Rightarrow> int run" where
  "rp_allocated st = bnd (rp_the_rep st) (\<lambda>r. Inr (pr_allocated_size r))"

definition rp_set_allocated :: "int \<Rightarrow> RepeatedPtrField \<Rightarrow> RepeatedPtrField run" where
  "rp_set_allocated n st = bnd (rp_the_rep st) (\<lambda>r. Inr (st\<lparr>rp_rep := Some (r\<lparr>pr_allocated_size := n\<rparr>)\<rparr>))"

text \<open>\<open>++rep_->allocated_size\<close>, and \<open>current_size_++\<close>.\<close>

definition rp_allocate :: "RepeatedPtrField \<Rightarrow> RepeatedPtrField run" where
  "rp_allocate st = bnd (rp_allocated st) (\<lambda>a. bnd (int_succ a) (\<lambda>a. rp_set_allocated a st))"

definition rp_advance :: "RepeatedPtrField \<Rightarrow> RepeatedPtrField run" where
  "rp_advance st = bnd (int_succ (rp_current_size st)) (\<lambda>n. Inr (st\<lparr>rp_current_size := n\<rparr>))"

text \<open>\<open>rep_ != NULL && current_size_ < rep_->allocated_size\<close>: there is a cleared object.\<close>

definition rp_has_cleared :: "RepeatedPtrField \<Rightarrow> bool" where
  "rp_has_cleared st = (case rp_rep st of None \<Rightarrow> False | Some r \<Rightarrow> rp_current_size st < pr_allocated_size r)"

definition rp_grow :: "rp_lib \<Rightarrow> RepeatedPtrField \<Rightarrow> RepeatedPtrField run" where
  "rp_grow L st = bnd (int_succ (rp_total_size st)) (\<lambda>n. Inr (rl_Reserve L n st))"

text \<open>\<open>!rep_ || rep_->allocated_size == total_size_\<close>\<close>

definition rp_all_allocated :: "RepeatedPtrField \<Rightarrow> bool" where
  "rp_all_allocated st = (case rp_rep st of None \<Rightarrow> True | Some r \<Rightarrow> pr_allocated_size r = rp_total_size st)"

text \<open>\<open>rep_ && rep_->allocated_size < total_size_\<close>: there is room for a pointer.\<close>

definition rp_has_room :: "RepeatedPtrField \<Rightarrow> bool" where
  "rp_has_room st = (case rp_rep st of None \<Rightarrow> False | Some r \<Rightarrow> pr_allocated_size r < rp_total_size st)"

section \<open>Operations\<close>

definition RP_new :: "nat option \<Rightarrow> RepeatedPtrField" where
  "RP_new arena = \<lparr>rp_arena = arena, rp_current_size = 0, rp_total_size = 0, rp_rep = None\<rparr>"

definition RP_Destroy :: "'a rp_state \<Rightarrow> 'a rp_state run" where
  "RP_Destroy = (\<lambda>(st, h).
     bnd (case rp_rep st of None \<Rightarrow> Inr h
          | Some r \<Rightarrow> for_each (\<lambda>i h. bnd (rp_slot i st) (\<lambda>p. pt_Delete p (rp_arena st) h)) [0..pr_allocated_size r - 1] h)
       (\<lambda>h. Inr (st\<lparr>rp_rep := None\<rparr>, h)))"

definition RP_empty :: "RepeatedPtrField \<Rightarrow> bool" where
  "RP_empty st \<longleftrightarrow> rp_current_size st = 0"

definition RP_size :: "RepeatedPtrField \<Rightarrow> int" where
  "RP_size st = rp_current_size st"

definition RP_Capacity :: "RepeatedPtrField \<Rightarrow> int" where
  "RP_Capacity st = rp_total_size st"

text \<open>The array itself, a null pointer while there is none.\<close>

definition RP_data :: "RepeatedPtrField \<Rightarrow> nat option list option" where
  "RP_data st = map_option pr_elements (rp_rep st)"

text \<open>\<open>sizeof(void*)\<close> and \<open>kRepHeaderSize\<close> are 8; the sizes are converted to \<open>int\<close>, the additions in the loop are
  of \<open>int\<close>.\<close>

definition RP_SpaceUsedExcludingSelf :: "('a \<Rightarrow> int) \<Rightarrow> 'a rp_state \<Rightarrow> int run" where
  "RP_SpaceUsedExcludingSelf SpaceUsed = (\<lambda>(st, h). let allocated_bytes = wrap32 (rp_total_size st * 8) in
     case rp_rep st of None \<Rightarrow> Inr allocated_bytes
     | Some r \<Rightarrow> bnd (for_each (\<lambda>i n. bnd (rp_slot i st) (\<lambda>p. bnd (hp_read p h) (\<lambda>x.
           if int32 (n + SpaceUsed (ob_value x)) then Inr (n + SpaceUsed (ob_value x)) else Inl IntOverflow)))
         [0..pr_allocated_size r - 1] allocated_bytes) (\<lambda>n. Inr (wrap32 (n + 8))))"

definition RP_Mutable :: "int \<Rightarrow> RepeatedPtrField \<Rightarrow> nat option run" where
  "RP_Mutable index st = check (0 \<le> index) (check (index < rp_current_size st) (rp_slot index st))"

definition RP_Get :: "int \<Rightarrow> 'a rp_state \<Rightarrow> 'a run" where
  "RP_Get index = (\<lambda>(st, h). check (0 \<le> index) (check (index < rp_current_size st)
     (bnd (rp_slot index st) (\<lambda>p. bnd (hp_read p h) (\<lambda>x. Inr (ob_value x))))))"

definition RP_Delete :: "int \<Rightarrow> 'a rp_state \<Rightarrow> 'a rp_state run" where
  "RP_Delete index = (\<lambda>(st, h). check (0 \<le> index) (check (index < rp_current_size st)
     (bnd (rp_slot index st) (\<lambda>p. bnd (pt_Delete p (rp_arena st) h) (\<lambda>h. Inr (st, h))))))"

text \<open>\<open>Add\<close> takes a cleared object, or makes one.\<close>

definition RP_Add :: "'a ptr_type \<Rightarrow> rp_lib \<Rightarrow> 'a rp_state \<Rightarrow> (nat option \<times> 'a rp_state) run" where
  "RP_Add T L = (\<lambda>(st, h).
     if rp_has_cleared st
     then bnd (rp_slot (rp_current_size st) st) (\<lambda>p. bnd (rp_advance st) (\<lambda>st. Inr (p, st, h)))
     else bnd (if rp_all_allocated st then rp_grow L st else Inr st) (\<lambda>st.
       bnd (rp_allocate st) (\<lambda>st.
       case pt_NewFromPrototype T (rp_arena st) h of (p, h) \<Rightarrow>
         bnd (rp_set_slot (rp_current_size st) (Some p) st) (\<lambda>st. bnd (rp_advance st) (\<lambda>st. Inr (Some p, st, h))))))"

definition RP_RemoveLast :: "'a ptr_type \<Rightarrow> 'a rp_state \<Rightarrow> 'a rp_state run" where
  "RP_RemoveLast T = (\<lambda>(st, h). check (rp_current_size st > 0)
     (let st = st\<lparr>rp_current_size := rp_current_size st - 1\<rparr> in
      bnd (rp_slot (rp_current_size st) st) (\<lambda>p. bnd (pt_Clear T p h) (\<lambda>h. Inr (st, h)))))"

definition RP_Clear :: "'a ptr_type \<Rightarrow> 'a rp_state \<Rightarrow> 'a rp_state run" where
  "RP_Clear T = (\<lambda>(st, h). check (0 \<le> rp_current_size st)
     (if rp_current_size st > 0
      then bnd (for_each (\<lambda>i h. bnd (rp_slot i st) (\<lambda>p. pt_Clear T p h)) [0..rp_current_size st - 1] h)
             (\<lambda>h. Inr (st\<lparr>rp_current_size := 0\<rparr>, h))
      else Inr (st, h)))"

text \<open>\<open>MergeFromInnerLoop\<close>, in its two loops: into objects that are there, then into new ones. \<open>at\<close> is where
  the new elements begin.\<close>

definition merge_reuse :: "'a ptr_type \<Rightarrow> RepeatedPtrField \<Rightarrow> int \<Rightarrow> int \<Rightarrow> 'a rp_state \<Rightarrow> 'a rp_state run" where
  "merge_reuse T other at i = (\<lambda>(st, h).
     bnd (rp_slot i other) (\<lambda>from. bnd (rp_slot (at + i) st) (\<lambda>to. bnd (pt_Merge T from to h) (\<lambda>h. Inr (st, h)))))"

definition merge_fresh :: "'a ptr_type \<Rightarrow> RepeatedPtrField \<Rightarrow> int \<Rightarrow> int \<Rightarrow> 'a rp_state \<Rightarrow> 'a rp_state run" where
  "merge_fresh T other at i = (\<lambda>(st, h).
     bnd (rp_slot i other) (\<lambda>from.
     case pt_NewFromPrototype T (rp_arena st) h of (to, h) \<Rightarrow>
       bnd (pt_Merge T from (Some to) h) (\<lambda>h. bnd (rp_set_slot (at + i) (Some to) st) (\<lambda>st. Inr (st, h)))))"

definition MergeFromInnerLoop ::
    "'a ptr_type \<Rightarrow> RepeatedPtrField \<Rightarrow> int \<Rightarrow> int \<Rightarrow> int \<Rightarrow> 'a rp_state \<Rightarrow> 'a rp_state run" where
  "MergeFromInnerLoop T other at len already_allocated st =
     bnd (for_each (merge_reuse T other at) [0..min already_allocated len - 1] st)
       (for_each (merge_fresh T other at) [already_allocated..len - 1])"

definition MergeFromInternal :: "'a ptr_type \<Rightarrow> rp_lib \<Rightarrow> RepeatedPtrField \<Rightarrow> 'a rp_state \<Rightarrow> 'a rp_state run" where
  "MergeFromInternal T L other = (\<lambda>(st, h).
     let other_size = rp_current_size other in
     bnd (rp_the_rep other) (\<lambda>_.
     case rl_InternalExtend L other_size st of (new_elements, st) \<Rightarrow>
       bnd (rp_allocated st) (\<lambda>a.
       bnd (MergeFromInnerLoop T other new_elements other_size (a - rp_current_size st) (st, h)) (\<lambda>(st, h).
         if \<not> int32 (rp_current_size st + other_size) then Inl IntOverflow
         else let st = st\<lparr>rp_current_size := rp_current_size st + other_size\<rparr> in
           bnd (rp_allocated st) (\<lambda>a.
           bnd (if a < rp_current_size st then rp_set_allocated (rp_current_size st) st else Inr st) (\<lambda>st. Inr (st, h)))))))"

text \<open>\<open>other = None\<close> is the field itself.\<close>

definition RP_MergeFrom :: "'a ptr_type \<Rightarrow> rp_lib \<Rightarrow> RepeatedPtrField option \<Rightarrow> 'a rp_state \<Rightarrow> 'a rp_state run" where
  "RP_MergeFrom T L other st = (case other of None \<Rightarrow> Inl CheckFailed
     | Some oth \<Rightarrow> if rp_current_size oth = 0 then Inr st else MergeFromInternal T L oth st)"

definition RP_CopyFrom :: "'a ptr_type \<Rightarrow> rp_lib \<Rightarrow> RepeatedPtrField option \<Rightarrow> 'a rp_state \<Rightarrow> 'a rp_state run" where
  "RP_CopyFrom T L other st = (if other = None then Inr st
     else bnd (RP_Clear T st) (RP_MergeFrom T L other))"

definition RP_assign :: "'a ptr_type \<Rightarrow> rp_lib \<Rightarrow> RepeatedPtrField option \<Rightarrow> 'a rp_state \<Rightarrow> 'a rp_state run" where
  "RP_assign T L other st = (if other \<noteq> None then RP_CopyFrom T L other st else Inr st)"

definition RP_copy :: "'a ptr_type \<Rightarrow> rp_lib \<Rightarrow> RepeatedPtrField \<Rightarrow> 'a obj heap \<Rightarrow> 'a rp_state run" where
  "RP_copy T L other h = RP_CopyFrom T L (Some other) (RP_new None, h)"

text \<open>The constructor from a range: \<open>*Add() = *begin\<close>.\<close>

definition rp_add_value :: "'a ptr_type \<Rightarrow> rp_lib \<Rightarrow> 'a \<Rightarrow> 'a rp_state \<Rightarrow> 'a rp_state run" where
  "rp_add_value T L v st = bnd (RP_Add T L st) (\<lambda>(p, st, h).
     bnd (hp_read p h) (\<lambda>x. bnd (hp_write p (x\<lparr>ob_value := v\<rparr>) h) (\<lambda>h. Inr (st, h))))"

definition RP_from_range :: "'a ptr_type \<Rightarrow> rp_lib \<Rightarrow> bool \<Rightarrow> 'a list \<Rightarrow> 'a obj heap \<Rightarrow> 'a rp_state run" where
  "RP_from_range T L forward vals h =
    (let reserve = CalculateReserve forward vals;
         st = (if reserve \<noteq> - 1 then rl_Reserve L reserve (RP_new None) else RP_new None)
     in for_each (rp_add_value T L) vals (st, h))"

definition RP_SwapElements :: "int \<Rightarrow> int \<Rightarrow> RepeatedPtrField \<Rightarrow> RepeatedPtrField run" where
  "RP_SwapElements index1 index2 st =
    bnd (rp_slot index1 st) (\<lambda>p. bnd (rp_slot index2 st) (\<lambda>q.
      bnd (rp_set_slot index1 q st) (rp_set_slot index2 p)))"

text \<open>\<open>InternalSwap\<close> exchanges the arrays and their sizes, not the arenas.\<close>

definition RP_InternalSwap :: "RepeatedPtrField \<Rightarrow> RepeatedPtrField \<Rightarrow> RepeatedPtrField \<times> RepeatedPtrField" where
  "RP_InternalSwap st other =
    (st\<lparr>rp_rep := rp_rep other, rp_current_size := rp_current_size other, rp_total_size := rp_total_size other\<rparr>,
     other\<lparr>rp_rep := rp_rep st, rp_current_size := rp_current_size st, rp_total_size := rp_total_size st\<rparr>)"

definition RP_SwapFallback ::
    "'a ptr_type \<Rightarrow> rp_lib \<Rightarrow> RepeatedPtrField \<Rightarrow> RepeatedPtrField \<Rightarrow> 'a obj heap \<Rightarrow>
     (RepeatedPtrField \<times> RepeatedPtrField \<times> 'a obj heap) run" where
  "RP_SwapFallback T L st other h =
    check (rp_arena other \<noteq> rp_arena st)
     (bnd (RP_MergeFrom T L (Some st) (RP_new (rp_arena other), h)) (\<lambda>(temp, h).
      bnd (RP_Clear T (st, h)) (\<lambda>(st, h).
      bnd (RP_MergeFrom T L (Some other) (st, h)) (\<lambda>(st, h).
      bnd (RP_Clear T (other, h)) (\<lambda>(other, h).
      case RP_InternalSwap other temp of (other, temp) \<Rightarrow>
        bnd (RP_Destroy (temp, h)) (\<lambda>(temp, h). Inr (st, other, h)))))))"

definition RP_Swap ::
    "'a ptr_type \<Rightarrow> rp_lib \<Rightarrow> RepeatedPtrField \<Rightarrow> RepeatedPtrField \<Rightarrow> 'a obj heap \<Rightarrow>
     (RepeatedPtrField \<times> RepeatedPtrField \<times> 'a obj heap) run" where
  "RP_Swap T L st other h =
    (if rp_arena other = rp_arena st
     then case RP_InternalSwap st other of (st, other) \<Rightarrow> Inr (st, other, h)
     else RP_SwapFallback T L st other h)"

definition RP_UnsafeArenaSwap :: "RepeatedPtrField \<Rightarrow> RepeatedPtrField \<Rightarrow> (RepeatedPtrField \<times> RepeatedPtrField) run" where
  "RP_UnsafeArenaSwap st other = check (rp_arena st = rp_arena other) (Inr (RP_InternalSwap st other))"

section \<open>Handing objects over\<close>

definition RP_AddFromCleared :: "RepeatedPtrField \<Rightarrow> (nat option \<times> RepeatedPtrField) run" where
  "RP_AddFromCleared st =
    (if rp_has_cleared st
     then bnd (rp_slot (rp_current_size st) st) (\<lambda>p. bnd (rp_advance st) (\<lambda>st. Inr (p, st)))
     else Inr (None, st))"

text \<open>The fast path of both versions of \<open>AddAllocatedInternal\<close>.\<close>

definition rp_add_fast :: "nat option \<Rightarrow> RepeatedPtrField \<Rightarrow> RepeatedPtrField run" where
  "rp_add_fast v st =
    bnd (rp_allocated st) (\<lambda>a.
    bnd (if rp_current_size st < a then bnd (rp_slot (rp_current_size st) st) (\<lambda>p. rp_set_slot a p st) else Inr st) (\<lambda>st.
    bnd (rp_set_slot (rp_current_size st) v st) (\<lambda>st.
    bnd (rp_advance st) rp_allocate)))"

definition UnsafeArenaAddAllocated :: "rp_lib \<Rightarrow> nat option \<Rightarrow> 'a rp_state \<Rightarrow> 'a rp_state run" where
  "UnsafeArenaAddAllocated L v = (\<lambda>(st, h).
     bnd (if rp_rep st = None \<or> rp_current_size st = rp_total_size st
          then bnd (rp_grow L st) (\<lambda>st. bnd (rp_allocate st) (\<lambda>st. Inr (st, h)))
          else bnd (rp_allocated st) (\<lambda>a.
            if a = rp_total_size st
            then bnd (rp_slot (rp_current_size st) st) (\<lambda>p. bnd (pt_Delete p (rp_arena st) h) (\<lambda>h. Inr (st, h)))
            else if rp_current_size st < a
            then bnd (rp_slot (rp_current_size st) st) (\<lambda>p. bnd (rp_set_slot a p st) (\<lambda>st.
                   bnd (rp_allocate st) (\<lambda>st. Inr (st, h))))
            else bnd (rp_allocate st) (\<lambda>st. Inr (st, h)))) (\<lambda>(st, h).
     bnd (rp_set_slot (rp_current_size st) v st) (\<lambda>st. bnd (rp_advance st) (\<lambda>st. Inr (st, h)))))"

definition AddAllocatedSlowWithCopy ::
    "'a ptr_type \<Rightarrow> rp_lib \<Rightarrow> nat option \<Rightarrow> nat option \<Rightarrow> nat option \<Rightarrow> 'a rp_state \<Rightarrow> 'a rp_state run" where
  "AddAllocatedSlowWithCopy T L v value_arena my_arena = (\<lambda>(st, h).
     if my_arena \<noteq> None \<and> value_arena = None then UnsafeArenaAddAllocated L v (st, pt_Own my_arena v h)
     else if my_arena \<noteq> value_arena
     then case pt_NewFromPrototype T my_arena h of (new_value, h) \<Rightarrow>
            bnd (pt_Merge T v (Some new_value) h) (\<lambda>h. bnd (pt_Delete v value_arena h) (\<lambda>h.
              UnsafeArenaAddAllocated L (Some new_value) (st, h)))
     else UnsafeArenaAddAllocated L v (st, h))"

definition RP_AddAllocated :: "'a ptr_type \<Rightarrow> rp_lib \<Rightarrow> nat option \<Rightarrow> 'a rp_state \<Rightarrow> 'a rp_state run" where
  "RP_AddAllocated T L v = (\<lambda>(st, h).
     if pt_merges T
     then bnd (pt_GetArena T v h) (\<lambda>element_arena.
       if rp_arena st = element_arena \<and> rp_has_room st
       then bnd (rp_add_fast v st) (\<lambda>st. Inr (st, h))
       else AddAllocatedSlowWithCopy T L v element_arena (rp_arena st) (st, h))
     else if rp_has_room st
     then bnd (rp_add_fast v st) (\<lambda>st. Inr (st, h))
     else UnsafeArenaAddAllocated L v (st, h))"

definition UnsafeArenaReleaseLast :: "RepeatedPtrField \<Rightarrow> (nat option \<times> RepeatedPtrField) run" where
  "UnsafeArenaReleaseLast st = check (rp_current_size st > 0)
     (let st = st\<lparr>rp_current_size := rp_current_size st - 1\<rparr> in
      bnd (rp_slot (rp_current_size st) st) (\<lambda>result.
      bnd (rp_allocated st) (\<lambda>a. bnd (rp_set_allocated (a - 1) st) (\<lambda>st.
      bnd (if rp_current_size st < a - 1
           then bnd (rp_slot (a - 1) st) (\<lambda>p. rp_set_slot (rp_current_size st) p st) else Inr st) (\<lambda>st.
        Inr (result, st))))))"

definition RP_ReleaseLast :: "'a ptr_type \<Rightarrow> 'a rp_state \<Rightarrow> (nat option \<times> 'a rp_state) run" where
  "RP_ReleaseLast T = (\<lambda>(st, h).
     if pt_merges T
     then bnd (UnsafeArenaReleaseLast st) (\<lambda>(result, st).
       if rp_arena st = None then Inr (result, st, h)
       else case pt_NewFromPrototype T None h of (new_result, h) \<Rightarrow>
         bnd (pt_Merge T result (Some new_result) h) (\<lambda>h. Inr (Some new_result, st, h)))
     else check (rp_arena st = None) (bnd (UnsafeArenaReleaseLast st) (\<lambda>(result, st). Inr (result, st, h))))"

definition RP_ClearedCount :: "RepeatedPtrField \<Rightarrow> int" where
  "RP_ClearedCount st = (case rp_rep st of None \<Rightarrow> 0 | Some r \<Rightarrow> pr_allocated_size r - rp_current_size st)"

definition RP_AddCleared :: "'a ptr_type \<Rightarrow> rp_lib \<Rightarrow> nat option \<Rightarrow> 'a rp_state \<Rightarrow> 'a rp_state run" where
  "RP_AddCleared T L v = (\<lambda>(st, h).
     check (rp_arena st = None) (bnd (pt_GetArena T v h) (\<lambda>a. check (a = None)
       (bnd (if rp_all_allocated st then rp_grow L st else Inr st) (\<lambda>st.
        bnd (rp_allocated st) (\<lambda>a. bnd (rp_set_slot a v st) (\<lambda>st. bnd (rp_allocate st) (\<lambda>st. Inr (st, h)))))))))"

definition RP_ReleaseCleared :: "RepeatedPtrField \<Rightarrow> (nat option \<times> RepeatedPtrField) run" where
  "RP_ReleaseCleared st = check (rp_arena st = None)
     (check (rp_rep st \<noteq> None) (bnd (rp_allocated st) (\<lambda>a. check (a > rp_current_size st)
       (bnd (rp_set_allocated (a - 1) st) (\<lambda>st. bnd (rp_slot (a - 1) st) (\<lambda>p. Inr (p, st)))))))"

text \<open>\<open>elements == NULL\<close> when nothing is wanted.\<close>

definition UnsafeArenaExtractSubrange ::
    "rp_lib \<Rightarrow> int \<Rightarrow> int \<Rightarrow> bool \<Rightarrow> RepeatedPtrField \<Rightarrow> (nat option list \<times> RepeatedPtrField) run" where
  "UnsafeArenaExtractSubrange L start num want st =
    check (0 \<le> start) (check (0 \<le> num) (check (start + num \<le> rp_current_size st)
      (if num > 0
       then bnd (if want then for_each (\<lambda>i out. bnd (RP_Mutable (i + start) st) (\<lambda>p. Inr (out @ [p]))) [0..num - 1] []
                 else Inr []) (\<lambda>out. Inr (out, rl_CloseGap L start num st))
       else Inr ([], st))))"

definition extract_copy :: "'a ptr_type \<Rightarrow> int \<Rightarrow> RepeatedPtrField \<Rightarrow> int \<Rightarrow>
    nat option list \<times> 'a obj heap \<Rightarrow> (nat option list \<times> 'a obj heap) run" where
  "extract_copy T start st i = (\<lambda>(out, h).
     bnd (RP_Mutable (i + start) st) (\<lambda>element.
     case pt_NewFromPrototype T None h of (new_value, h) \<Rightarrow>
       bnd (pt_Merge T element (Some new_value) h) (\<lambda>h. Inr (out @ [Some new_value], h))))"

definition RP_ExtractSubrange ::
    "'a ptr_type \<Rightarrow> rp_lib \<Rightarrow> int \<Rightarrow> int \<Rightarrow> bool \<Rightarrow> 'a rp_state \<Rightarrow> (nat option list \<times> 'a rp_state) run" where
  "RP_ExtractSubrange T L start num want = (\<lambda>(st, h).
     if pt_merges T
     then check (0 \<le> start) (check (0 \<le> num) (check (start + num \<le> rp_current_size st)
       (if num > 0
        then bnd (if want
                  then if rp_arena st \<noteq> None then for_each (extract_copy T start st) [0..num - 1] ([], h)
                       else bnd (for_each (\<lambda>i out. bnd (RP_Mutable (i + start) st) (\<lambda>p. Inr (out @ [p]))) [0..num - 1] [])
                              (\<lambda>out. Inr (out, h))
                  else Inr ([], h)) (\<lambda>(out, h). Inr (out, rl_CloseGap L start num st, h))
        else Inr ([], st, h))))
     else check (rp_arena st = None)
       (bnd (UnsafeArenaExtractSubrange L start num want st) (\<lambda>(out, st). Inr (out, st, h))))"

definition RP_DeleteSubrange :: "'a ptr_type \<Rightarrow> rp_lib \<Rightarrow> int \<Rightarrow> int \<Rightarrow> 'a rp_state \<Rightarrow> 'a rp_state run" where
  "RP_DeleteSubrange T L start num = (\<lambda>(st, h).
     check (0 \<le> start) (check (0 \<le> num) (check (start + num \<le> rp_current_size st)
       (bnd (for_each (\<lambda>i. RP_Delete (start + i)) [0..num - 1] (st, h)) (\<lambda>st.
          bnd (RP_ExtractSubrange T L start num False st) (\<lambda>(out, st). Inr st))))))"

text \<open>Iterators are offsets into the array.\<close>

definition RP_erase_range :: "'a ptr_type \<Rightarrow> rp_lib \<Rightarrow> int \<Rightarrow> int \<Rightarrow> 'a rp_state \<Rightarrow> (int \<times> 'a rp_state) run" where
  "RP_erase_range T L fst_it lst_it st =
    bnd (RP_DeleteSubrange T L fst_it (lst_it - fst_it) st) (\<lambda>st. Inr (fst_it, st))"

definition RP_erase :: "'a ptr_type \<Rightarrow> rp_lib \<Rightarrow> int \<Rightarrow> 'a rp_state \<Rightarrow> (int \<times> 'a rp_state) run" where
  "RP_erase T L position st = RP_erase_range T L position (position + 1) st"

section \<open>The array as two lists of pointers\<close>

text \<open>\<open>as\<close> are the elements, \<open>cs\<close> the cleared objects behind them.\<close>

definition rp_view :: "RepeatedPtrField \<Rightarrow> nat list \<Rightarrow> nat list \<Rightarrow> bool" where
  "rp_view st as cs \<longleftrightarrow> rp_current_size st = int (length as) \<and> rp_total_size st < 2 ^ 31 \<and>
     (case rp_rep st of
        None \<Rightarrow> as = [] \<and> cs = [] \<and> rp_total_size st = 0
      | Some r \<Rightarrow> pr_allocated_size r = int (length (as @ cs)) \<and> int (length (pr_elements r)) = rp_total_size st \<and>
          (\<exists>junk. pr_elements r = map Some (as @ cs) @ junk))"

text \<open>What the header says of the functions that grow and close up the array: \<open>Reserve\<close> and \<open>InternalExtend\<close>
  only resize the array of pointers, \<open>CloseGap\<close> moves the pointers behind the gap down. The size asked for
  is bounded so that doubling a smaller one stays within \<open>int\<close>.\<close>

definition rp_lib_ok :: "rp_lib \<Rightarrow> bool" where
  "rp_lib_ok L \<longleftrightarrow>
     (\<forall>st as cs n. rp_view st as cs \<and> 0 < n \<and> n \<le> 2 ^ 30 \<longrightarrow>
        rp_view (rl_Reserve L n st) as cs \<and> n \<le> rp_total_size (rl_Reserve L n st) \<and>
        rp_arena (rl_Reserve L n st) = rp_arena st \<and> rp_rep (rl_Reserve L n st) \<noteq> None) \<and>
     (\<forall>st as cs n. rp_view st as cs \<and> 0 < n \<and> int (length as) + n \<le> 2 ^ 30 \<longrightarrow>
        (\<exists>st'. rl_InternalExtend L n st = (int (length as), st') \<and> rp_view st' as cs \<and>
           int (length as) + n \<le> rp_total_size st' \<and> rp_arena st' = rp_arena st \<and> rp_rep st' \<noteq> None)) \<and>
     (\<forall>st xs ys zs cs. rp_view st (xs @ ys @ zs) cs \<and> ys \<noteq> [] \<longrightarrow>
        rp_view (rl_CloseGap L (int (length xs)) (int (length ys)) st) (xs @ zs) cs \<and>
        rp_arena (rl_CloseGap L (int (length xs)) (int (length ys)) st) = rp_arena st)"

lemma rp_lib_okD:
  assumes "rp_lib_ok L" and "rp_view st as cs"
  shows "0 < n \<Longrightarrow> n \<le> 2 ^ 30 \<Longrightarrow>
      rp_view (rl_Reserve L n st) as cs \<and> n \<le> rp_total_size (rl_Reserve L n st) \<and>
      rp_arena (rl_Reserve L n st) = rp_arena st \<and> rp_rep (rl_Reserve L n st) \<noteq> None"
    and "0 < n \<Longrightarrow> int (length as) + n \<le> 2 ^ 30 \<Longrightarrow>
      \<exists>st'. rl_InternalExtend L n st = (int (length as), st') \<and> rp_view st' as cs \<and>
           int (length as) + n \<le> rp_total_size st' \<and> rp_arena st' = rp_arena st \<and> rp_rep st' \<noteq> None"
    and "as = xs @ ys @ zs \<Longrightarrow> ys \<noteq> [] \<Longrightarrow>
      rp_view (rl_CloseGap L (int (length xs)) (int (length ys)) st) (xs @ zs) cs \<and>
      rp_arena (rl_CloseGap L (int (length xs)) (int (length ys)) st) = rp_arena st"
  using assms unfolding rp_lib_ok_def by blast+

named_theorems rp_simps
declare rp_the_rep_def [rp_simps] rp_slot_def [rp_simps] rp_set_slot_def [rp_simps] rp_allocated_def [rp_simps]
  rp_set_allocated_def [rp_simps] rp_allocate_def [rp_simps] rp_advance_def [rp_simps] rp_has_cleared_def [rp_simps]
  rp_all_allocated_def [rp_simps] read_at_def [rp_simps] write_at_def [rp_simps] int_succ_def [rp_simps]
  int32_def [rp_simps] nth_append [rp_simps] list_update_append [rp_simps] check_def [rp_simps]

lemma rp_view_arena [simp]: "rp_view (st\<lparr>rp_arena := a\<rparr>) as cs \<longleftrightarrow> rp_view st as cs"
  by (simp add: rp_view_def split: option.splits)

lemma rp_viewE:
  assumes "rp_view st as cs" and "rp_rep st \<noteq> None"
  obtains r junk where "rp_rep st = Some r" and "pr_elements r = map Some (as @ cs) @ junk"
    and "pr_allocated_size r = int (length as) + int (length cs)" and "rp_current_size st = int (length as)"
    and "rp_total_size st = int (length as) + int (length cs) + int (length junk)"
    and "int (length as) + int (length cs) + int (length junk) < 2 ^ 31"
proof -
  obtain r where r: "rp_rep st = Some r" using assms(2) by blast
  then obtain junk where "pr_elements r = map Some (as @ cs) @ junk" using assms(1) by (auto simp: rp_view_def)
  then show ?thesis using that r assms(1) by (auto simp: rp_view_def)
qed

lemma rp_view_rep: "rp_view st as cs \<Longrightarrow> as \<noteq> [] \<or> cs \<noteq> [] \<Longrightarrow> rp_rep st \<noteq> None"
  by (auto simp: rp_view_def split: option.splits)

lemma rp_slot_view:
  assumes "rp_view st as cs" and "i < length as + length cs"
  shows "rp_slot (int i) st = Inr (Some ((as @ cs) ! i))"
proof -
  have "as \<noteq> [] \<or> cs \<noteq> []" using assms(2) by auto
  then have "rp_rep st \<noteq> None" by (rule rp_view_rep[OF assms(1)])
  moreover have "\<not> i < length as \<Longrightarrow> i - length as < length cs" using assms(2) by simp
  moreover obtain r junk where "rp_rep st = Some r" "pr_elements r = map Some (as @ cs) @ junk"
    by (rule rp_viewE[OF assms(1) \<open>rp_rep st \<noteq> None\<close>])
  ultimately show ?thesis using assms(2) by (auto simp: rp_simps)
qed

text \<open>The moves of the boundary between elements and cleared objects.\<close>

lemma view_claim:
  assumes "rp_view st as (c # cs)"
  shows "rp_has_cleared st" and "rp_slot (rp_current_size st) st = Inr (Some c)"
    and "\<exists>st'. rp_advance st = Inr st' \<and> rp_view st' (as @ [c]) cs \<and> rp_arena st' = rp_arena st"
proof -
  have "rp_rep st \<noteq> None" using rp_view_rep[OF assms] by simp
  then obtain r junk where r: "rp_rep st = Some r" "pr_elements r = map Some (as @ c # cs) @ junk"
    "pr_allocated_size r = int (length as) + int (length (c # cs))" "rp_current_size st = int (length as)"
    "rp_total_size st = int (length as) + int (length (c # cs)) + int (length junk)"
    "int (length as) + int (length (c # cs)) + int (length junk) < 2 ^ 31"
    by (rule rp_viewE[OF assms])
  show "rp_has_cleared st" using r by (simp add: rp_simps)
  show "rp_slot (rp_current_size st) st = Inr (Some c)" using r by (simp add: rp_simps)
  show "\<exists>st'. rp_advance st = Inr st' \<and> rp_view st' (as @ [c]) cs \<and> rp_arena st' = rp_arena st"
    using r by (simp add: rp_simps rp_view_def)
qed

lemma view_no_cleared: "rp_view st as [] \<Longrightarrow> \<not> rp_has_cleared st"
  by (auto simp: rp_view_def rp_has_cleared_def split: option.splits)

text \<open>A new pointer behind the elements, when nothing is cleared and there is room.\<close>

lemma view_push:
  assumes "rp_view st as []" and "rp_rep st \<noteq> None" and "int (length as) < rp_total_size st"
  shows "\<exists>st1 st2 st3. rp_allocate st = Inr st1 \<and> rp_current_size st1 = rp_current_size st \<and> rp_arena st1 = rp_arena st \<and>
    rp_set_slot (rp_current_size st) (Some p) st1 = Inr st2 \<and> rp_advance st2 = Inr st3 \<and> rp_view st3 (as @ [p]) [] \<and>
    rp_arena st3 = rp_arena st"
proof -
  obtain r junk where r: "rp_rep st = Some r" "pr_elements r = map Some as @ junk"
    "pr_allocated_size r = int (length as)" "rp_current_size st = int (length as)"
    "rp_total_size st = int (length as) + int (length junk)" "int (length as) + int (length junk) < 2 ^ 31"
    by (rule rp_viewE[OF assms(1,2)]) simp
  then obtain j junk' where "junk = j # junk'" using assms(3) by (cases junk) simp_all
  then show ?thesis using r by (simp add: rp_simps rp_view_def)
qed

text \<open>A new pointer between the elements and the cleared objects; the first of these moves to the end.\<close>

lemma view_insert:
  assumes "rp_view st as (c # cs)" and "int (length as) + int (length (c # cs)) < rp_total_size st"
  shows "\<exists>st1. rp_slot (rp_current_size st) st = Inr (Some c) \<and> rp_allocated st = Inr (int (length as) + int (length (c # cs))) \<and>
    rp_set_slot (int (length as) + int (length (c # cs))) (Some c) st = Inr st1 \<and> rp_current_size st1 = rp_current_size st \<and>
    rp_arena st1 = rp_arena st \<and>
    (\<exists>st2 st3 st4. rp_allocate st1 = Inr st2 \<and> rp_current_size st2 = rp_current_size st \<and> rp_arena st2 = rp_arena st \<and>
      rp_set_slot (rp_current_size st) (Some p) st2 = Inr st3 \<and> rp_advance st3 = Inr st4 \<and> rp_view st4 (as @ [p]) (cs @ [c]) \<and>
      rp_arena st4 = rp_arena st) \<and>
    (\<exists>st2 st3 st4. rp_set_slot (rp_current_size st) (Some p) st1 = Inr st2 \<and> rp_advance st2 = Inr st3 \<and>
      rp_allocate st3 = Inr st4 \<and> rp_view st4 (as @ [p]) (cs @ [c]) \<and> rp_arena st4 = rp_arena st)"
proof -
  have "rp_rep st \<noteq> None" using rp_view_rep[OF assms(1)] by simp
  then obtain r junk where r: "rp_rep st = Some r" "pr_elements r = map Some (as @ c # cs) @ junk"
    "pr_allocated_size r = int (length as) + int (length (c # cs))" "rp_current_size st = int (length as)"
    "rp_total_size st = int (length as) + int (length (c # cs)) + int (length junk)"
    "int (length as) + int (length (c # cs)) + int (length junk) < 2 ^ 31"
    by (rule rp_viewE[OF assms(1)])
  then obtain j junk' where "junk = j # junk'" using assms(2) by (cases junk) simp_all
  then show ?thesis using r by (simp add: rp_simps rp_view_def nat_add_distrib)
qed

lemma view_push_fast:
  assumes "rp_view st as []" and "rp_rep st \<noteq> None" and "int (length as) < rp_total_size st"
  shows "\<exists>st2 st3 st4. rp_allocated st = Inr (rp_current_size st) \<and> rp_set_slot (rp_current_size st) (Some p) st = Inr st2 \<and>
    rp_advance st2 = Inr st3 \<and> rp_allocate st3 = Inr st4 \<and> rp_view st4 (as @ [p]) [] \<and> rp_arena st4 = rp_arena st"
proof -
  obtain r junk where r: "rp_rep st = Some r" "pr_elements r = map Some as @ junk"
    "pr_allocated_size r = int (length as)" "rp_current_size st = int (length as)"
    "rp_total_size st = int (length as) + int (length junk)" "int (length as) + int (length junk) < 2 ^ 31"
    by (rule rp_viewE[OF assms(1,2)]) simp
  then obtain j junk' where "junk = j # junk'" using assms(3) by (cases junk) simp_all
  then show ?thesis using r by (simp add: rp_simps rp_view_def)
qed

text \<open>Every slot taken: the pointer replaces the first cleared one.\<close>

lemma view_replace:
  assumes "rp_view st as (c # cs)"
  shows "\<exists>st1 st2. rp_set_slot (rp_current_size st) (Some p) st = Inr st1 \<and> rp_advance st1 = Inr st2 \<and>
    rp_view st2 (as @ [p]) cs \<and> rp_arena st2 = rp_arena st"
proof -
  have "rp_rep st \<noteq> None" using rp_view_rep[OF assms] by simp
  then obtain r junk where r: "rp_rep st = Some r" "pr_elements r = map Some (as @ c # cs) @ junk"
    "pr_allocated_size r = int (length as) + int (length (c # cs))" "rp_current_size st = int (length as)"
    "rp_total_size st = int (length as) + int (length (c # cs)) + int (length junk)"
    "int (length as) + int (length (c # cs)) + int (length junk) < 2 ^ 31"
    by (rule rp_viewE[OF assms])
  then show ?thesis by (simp add: rp_simps rp_view_def)
qed

text \<open>The last element becomes the first cleared object, or leaves.\<close>

lemma view_pop:
  assumes "rp_view st (as @ [p]) cs"
  shows "rp_view (st\<lparr>rp_current_size := rp_current_size st - 1\<rparr>) as (p # cs)"
    and "0 < rp_current_size st" and "rp_current_size st - 1 = int (length as)"
  using assms by (auto simp: rp_view_def split: option.splits)

definition close_last :: "nat list \<Rightarrow> nat list" where
  "close_last cs = (if cs = [] then [] else last cs # butlast cs)"

lemma view_release:
  assumes "rp_view st (as @ [p]) cs"
  shows "\<exists>st'. UnsafeArenaReleaseLast st = Inr (Some p, st') \<and> rp_view st' as (close_last cs) \<and> rp_arena st' = rp_arena st"
proof -
  have "rp_rep st \<noteq> None" using rp_view_rep[OF assms] by simp
  then obtain r junk where r: "rp_rep st = Some r" "pr_elements r = map Some ((as @ [p]) @ cs) @ junk"
    "pr_allocated_size r = int (length (as @ [p])) + int (length cs)" "rp_current_size st = int (length (as @ [p]))"
    "rp_total_size st = int (length (as @ [p])) + int (length cs) + int (length junk)"
    "int (length (as @ [p])) + int (length cs) + int (length junk) < 2 ^ 31"
    by (rule rp_viewE[OF assms])
  show ?thesis
  proof (cases cs rule: rev_cases)
    case Nil
    then show ?thesis using r by (simp add: UnsafeArenaReleaseLast_def rp_simps rp_view_def close_last_def)
  next
    case (snoc cs' c)
    then show ?thesis using r
      by (simp add: UnsafeArenaReleaseLast_def rp_simps rp_view_def close_last_def nat_add_distrib)
  qed
qed

lemma view_clear: "rp_view st as cs \<Longrightarrow> rp_view (st\<lparr>rp_current_size := 0\<rparr>) [] (as @ cs)"
  by (auto simp: rp_view_def split: option.splits)

lemma view_add_cleared:
  assumes "rp_view st as cs" and "rp_rep st \<noteq> None" and "int (length as) + int (length cs) < rp_total_size st"
  shows "\<exists>st1 st2. rp_allocated st = Inr (int (length as) + int (length cs)) \<and>
    rp_set_slot (int (length as) + int (length cs)) (Some p) st = Inr st1 \<and> rp_allocate st1 = Inr st2 \<and>
    rp_view st2 as (cs @ [p]) \<and> rp_arena st2 = rp_arena st"
proof -
  obtain r junk where r: "rp_rep st = Some r" "pr_elements r = map Some (as @ cs) @ junk"
    "pr_allocated_size r = int (length as) + int (length cs)" "rp_current_size st = int (length as)"
    "rp_total_size st = int (length as) + int (length cs) + int (length junk)"
    "int (length as) + int (length cs) + int (length junk) < 2 ^ 31"
    by (rule rp_viewE[OF assms(1,2)])
  then obtain j junk' where "junk = j # junk'" using assms(3) by (cases junk) simp_all
  then show ?thesis using r by (simp add: rp_simps rp_view_def nat_add_distrib)
qed

lemma view_release_cleared:
  assumes "rp_view st as (cs @ [c])" and "rp_arena st = None"
  shows "\<exists>st'. RP_ReleaseCleared st = Inr (Some c, st') \<and> rp_view st' as cs \<and> rp_arena st' = None"
proof -
  have "rp_rep st \<noteq> None" using rp_view_rep[OF assms(1)] by simp
  then obtain r junk where r: "rp_rep st = Some r" "pr_elements r = map Some (as @ cs @ [c]) @ junk"
    "pr_allocated_size r = int (length as) + int (length (cs @ [c]))" "rp_current_size st = int (length as)"
    "rp_total_size st = int (length as) + int (length (cs @ [c])) + int (length junk)"
    "int (length as) + int (length (cs @ [c])) + int (length junk) < 2 ^ 31"
    by (rule rp_viewE[OF assms(1)])
  then show ?thesis using assms(2) by (simp add: RP_ReleaseCleared_def rp_simps rp_view_def nat_add_distrib)
qed

lemma view_swap_elements:
  assumes "rp_view st as cs" and "i < length as" and "j < length as"
  shows "\<exists>st'. RP_SwapElements (int i) (int j) st = Inr st' \<and> rp_view st' (as[i := as ! j, j := as ! i]) cs \<and>
    rp_arena st' = rp_arena st"
proof -
  have "as \<noteq> [] \<or> cs \<noteq> []" using assms(2) by auto
  then have "rp_rep st \<noteq> None" by (rule rp_view_rep[OF assms(1)])
  then obtain r junk where r: "rp_rep st = Some r" "pr_elements r = map Some (as @ cs) @ junk"
    "pr_allocated_size r = int (length as) + int (length cs)" "rp_current_size st = int (length as)"
    "rp_total_size st = int (length as) + int (length cs) + int (length junk)"
    "int (length as) + int (length cs) + int (length junk) < 2 ^ 31"
    by (rule rp_viewE[OF assms(1)])
  then show ?thesis using assms(2,3) by (simp add: RP_SwapElements_def rp_simps rp_view_def map_update)
qed

lemma view_internal_swap:
  assumes "rp_view st as cs" and "rp_view st2 bs ds" and "RP_InternalSwap st st2 = (st', st2')"
  shows "rp_view st' bs ds" and "rp_view st2' as cs" and "rp_arena st' = rp_arena st" and "rp_arena st2' = rp_arena st2"
  using assms by (auto simp: RP_InternalSwap_def rp_view_def split: option.splits)

section \<open>The objects behind the pointers\<close>

text \<open>\<open>Clear\<close> makes an object what a new one is, and merging into a new one copies. The type handlers of the
  header keep this contract.\<close>

locale clearable =
  fixes T :: "'a ptr_type"
  assumes clear_new: "pt_clear T x = pt_new T"
    and merge_new: "pt_merge T x (pt_new T) = x"

text \<open>\<open>StringTypeHandler\<close>, and \<open>GenericTypeHandler\<close> for a generated class with the given functions.\<close>

definition StringTypeHandler :: "8 word list ptr_type" where
  "StringTypeHandler = \<lparr>pt_new = [], pt_clear = \<lambda>_. [], pt_merge = \<lambda>from to. from, pt_on_arena = False, pt_merges = True\<rparr>"

definition GenericTypeHandler :: "'m \<Rightarrow> ('m \<Rightarrow> 'm) \<Rightarrow> ('m \<Rightarrow> 'm \<Rightarrow> 'm) \<Rightarrow> bool \<Rightarrow> 'm ptr_type" where
  "GenericTypeHandler m Clear MergeFrom on_arena =
    \<lparr>pt_new = m, pt_clear = Clear, pt_merge = \<lambda>from to. MergeFrom to from, pt_on_arena = on_arena, pt_merges = True\<rparr>"

interpretation str: clearable StringTypeHandler
  by unfold_locales (simp_all add: StringTypeHandler_def)

lemma GenericTypeHandler_clearable:
  assumes "\<And>x. Clear x = m" and "\<And>x. MergeFrom m x = x"
  shows "clearable (GenericTypeHandler m Clear MergeFrom on_arena)"
  using assms by (simp add: GenericTypeHandler_def clearable_def)

definition vals :: "'a obj heap \<Rightarrow> nat list \<Rightarrow> 'a list" where
  "vals h ps = map (\<lambda>p. ob_value (the (hp_cells h p))) ps"

text \<open>A cleared object is as \<open>New\<close> or \<open>Clear\<close> leaves it.\<close>

definition cleared :: "'a ptr_type \<Rightarrow> 'a obj heap \<Rightarrow> nat \<Rightarrow> bool" where
  "cleared T h p \<longleftrightarrow> (\<exists>x. hp_cells h p = Some x \<and> (ob_value x = pt_new T \<or> (\<exists>v. ob_value x = pt_clear T v)))"

definition objs_ok :: "'a ptr_type \<Rightarrow> nat option \<Rightarrow> 'a obj heap \<Rightarrow> nat list \<Rightarrow> nat list \<Rightarrow> bool" where
  "objs_ok T arena h as cs \<longleftrightarrow> wf_heap h \<and> distinct (as @ cs) \<and>
     (\<forall>p \<in> set as \<union> set cs. p \<in> live h \<and> held arena h p) \<and> (\<forall>p \<in> set cs. cleared T h p)"

definition rp_holds :: "'a ptr_type \<Rightarrow> RepeatedPtrField \<Rightarrow> 'a obj heap \<Rightarrow> nat list \<Rightarrow> nat list \<Rightarrow> bool" where
  "rp_holds T st h as cs \<longleftrightarrow> rp_view st as cs \<and> objs_ok T (rp_arena st) h as cs"

lemma vals_simps [simp]: "vals h [] = []" "vals h (p # ps) = ob_value (the (hp_cells h p)) # vals h ps"
  "vals h (ps @ qs) = vals h ps @ vals h qs" "length (vals h ps) = length ps"
  by (simp_all add: vals_def)

lemma vals_cong: "(\<And>p. p \<in> set ps \<Longrightarrow> hp_cells h' p = hp_cells h p) \<Longrightarrow> vals h' ps = vals h ps"
  by (simp add: vals_def)

lemma vals_take: "vals h (take n ps) = take n (vals h ps)"
  by (simp add: vals_def take_map)

lemma vals_drop: "vals h (drop n ps) = drop n (vals h ps)"
  by (simp add: vals_def drop_map)

lemma objs_okD:
  assumes "objs_ok T arena h as cs"
  shows "wf_heap h" and "distinct as" and "distinct cs" and "set as \<inter> set cs = {}" and "set as \<union> set cs \<subseteq> live h"
    and "p \<in> set as \<Longrightarrow> held arena h p" and "p \<in> set cs \<Longrightarrow> held arena h p" and "p \<in> set cs \<Longrightarrow> cleared T h p"
  using assms by (auto simp: objs_ok_def)

text \<open>What others do leaves the objects of a field alone.\<close>

lemma objs_frame:
  assumes "objs_ok T arena h as cs" and "keeps_rest ps h ps' h'" and "(set as \<union> set cs) \<inter> ps = {}" and "wf_heap h'"
  shows "objs_ok T arena h' as cs" and "vals h' as = vals h as" and "(set as \<union> set cs) \<inter> ps' = {}"
    and "keeps_rest (set as \<union> set cs \<union> ps) h (set as \<union> set cs \<union> ps') h'"
proof -
  note b = keeps_rest_beside[OF assms(2,3) objs_okD(5)[OF assms(1)]]
  show "vals h' as = vals h as" by (rule vals_cong) (simp add: b(4))
  show "(set as \<union> set cs) \<inter> ps' = {}" by (rule b(2))
  show "keeps_rest (set as \<union> set cs \<union> ps) h (set as \<union> set cs \<union> ps') h'" using b(1) by (simp add: Un_commute)
  have "cleared T h' p" if "p \<in> set cs" for p
    using that objs_okD(8)[OF assms(1) that] b(4)[of p] by (simp add: cleared_def)
  moreover have "p \<in> live h' \<and> held arena h' p" if "p \<in> set as \<union> set cs" for p
    using that b(3) b(5)[OF that] objs_okD(6,7)[OF assms(1), of p] by blast
  ultimately show "objs_ok T arena h' as cs"
    using assms(1,4) unfolding objs_ok_def by blast
qed

lemma holds_frame:
  assumes "rp_holds T st h as cs" and "keeps_rest ps h ps' h'" and "(set as \<union> set cs) \<inter> ps = {}" and "wf_heap h'"
  shows "rp_holds T st h' as cs" and "vals h' as = vals h as" and "(set as \<union> set cs) \<inter> ps' = {}"
    and "keeps_rest (set as \<union> set cs \<union> ps) h (set as \<union> set cs \<union> ps') h'"
proof -
  have o: "objs_ok T (rp_arena st) h as cs" using assms(1) by (simp add: rp_holds_def)
  note f = objs_frame[OF o assms(2-4)]
  show "rp_holds T st h' as cs" using f(1) assms(1) by (simp add: rp_holds_def)
  show "vals h' as = vals h as" by (rule f(2))
  show "(set as \<union> set cs) \<inter> ps' = {}" by (rule f(3))
  show "keeps_rest (set as \<union> set cs \<union> ps) h (set as \<union> set cs \<union> ps') h'" by (rule f(4))
qed

lemma new_object:
  assumes "wf_heap h" and "pt_NewFromPrototype T arena h = (p, h1)"
  shows "p \<notin> live h" and "wf_heap h1" and "p \<in> live h1" and "held arena h1 p" and "cleared T h1 p"
    and "keeps_rest {} h {p} h1" and "arena = None \<Longrightarrow> hp_owned h1 = hp_owned h"
    and "\<exists>x. hp_cells h1 = (hp_cells h)(p := Some x)"
proof -
  obtain h0 where h0: "hp_new \<lparr>ob_arena = (if pt_on_arena T then arena else None), ob_value = pt_new T\<rparr> h = (p, h0)"
      "h1 = own_on arena p h0"
    using assms(2) by (auto simp: pt_NewFromPrototype_def pt_New_def split: prod.splits)
  show "p \<notin> live h" using new_on_fresh(1)[OF assms(1) h0(1)] .
  show "wf_heap h1" using new_on_fresh(4)[OF assms(1) h0(1), of arena] h0(2) by simp
  show "p \<in> live h1" using new_on_fresh(2)[OF assms(1) h0(1), of arena] h0(2) by simp
  show "held arena h1 p" using new_on_fresh(5)[OF assms(1) h0(1), of arena] h0(2) by simp
  have cells: "hp_cells h1 = (hp_cells h)(p := Some \<lparr>ob_arena = (if pt_on_arena T then arena else None), ob_value = pt_new T\<rparr>)"
    using new_on_fresh(3)[OF assms(1) h0(1), of arena] h0(2) by simp
  then show "\<exists>x. hp_cells h1 = (hp_cells h)(p := Some x)" by blast
  show "cleared T h1 p" using cells by (simp add: cleared_def)
  show "keeps_rest {} h {p} h1" using keeps_rest_new[OF assms(1) h0(1), of "{}" arena] h0(2) by simp
  show "arena = None \<Longrightarrow> hp_owned h1 = hp_owned h" using hp_new_fresh(4)[OF assms(1) h0(1)] h0(2) by simp
qed

section \<open>The loops over the objects\<close>

lemma upto_upt: "[int a..int b - 1] = map int [a..<b]"
proof (induction b)
  case (Suc b)
  show ?case
  proof (cases "a \<le> b")
    case True
    then have "[int a..int (Suc b) - 1] = [int a..int b - 1] @ [int b]" using upto_rec2[of "int a" "int b"] by simp
    then show ?thesis using Suc True by simp
  qed simp
qed simp

lemma for_each_map: "for_each f (map g xs) s = for_each (\<lambda>x. f (g x)) xs s"
  by (induction xs arbitrary: s) (auto intro: bnd_cong)

lemma for_each_nth: "for_each (\<lambda>i. f (ps ! i)) [0..<length ps] s = for_each f ps s"
  using for_each_map[of f "\<lambda>i. ps ! i" "[0..<length ps]" s] by (simp add: map_nth)

text \<open>A loop over the first slots is a loop over the pointers in them.\<close>

lemma slots_loop:
  assumes "rp_view st as cs" and "as @ cs = ps @ qs"
  shows "for_each (\<lambda>i s. bnd (rp_slot i st) (\<lambda>p. f p s)) [0..int (length ps) - 1] s = for_each (\<lambda>p. f (Some p)) ps s"
proof -
  have "for_each (\<lambda>i s. bnd (rp_slot i st) (\<lambda>p. f p s)) [0..int (length ps) - 1] s =
      for_each (\<lambda>i s. bnd (rp_slot (int i) st) (\<lambda>p. f p s)) [0..<length ps] s"
    using upto_upt[of 0 "length ps"] by (simp add: for_each_map)
  also have "\<dots> = for_each (\<lambda>i. f (Some (ps ! i))) [0..<length ps] s"
  proof (rule for_each_cong[OF refl refl])
    fix i u
    assume "i \<in> set [0..<length ps]"
    then have i: "i < length ps" by simp
    have "length as + length cs = length ps + length qs" using arg_cong[OF assms(2), of length] by simp
    then have "rp_slot (int i) st = Inr (Some ((as @ cs) ! i))" using rp_slot_view[OF assms(1), of i] i by simp
    then show "bnd (rp_slot (int i) st) (\<lambda>p. f p u) = f (Some (ps ! i)) u"
      using i unfolding assms(2) by (simp add: nth_append)
  qed
  also have "\<dots> = for_each (\<lambda>p. f (Some p)) ps s" using for_each_nth[of "\<lambda>p. f (Some p)" ps s] by simp
  finally show ?thesis .
qed

lemma merge_live:
  assumes "hp_cells h from = Some x" and "hp_cells h to = Some y"
  shows "\<exists>h'. pt_Merge T (Some from) (Some to) h = Inr h' \<and>
    hp_cells h' = (hp_cells h)(to := Some (y\<lparr>ob_value := pt_merge T (ob_value x) (ob_value y)\<rparr>)) \<and> live h' = live h \<and>
    hp_owned h' = hp_owned h \<and> wf_heap h' = wf_heap h"
  using hp_write_live[of to h] assms by (simp add: pt_Merge_def in_live)

lemma clear_objects:
  assumes "set ps \<subseteq> live h"
  shows "\<exists>h'. for_each (\<lambda>p. pt_Clear T (Some p)) ps h = Inr h' \<and> live h' = live h \<and> hp_owned h' = hp_owned h \<and>
    wf_heap h' = wf_heap h \<and> (\<forall>p \<in> set ps. cleared T h' p) \<and> (\<forall>p. p \<notin> set ps \<longrightarrow> hp_cells h' p = hp_cells h p)"
  using assms
proof (induction ps arbitrary: h)
  case (Cons p ps)
  obtain x where x: "hp_cells h p = Some x" using Cons.prems by (auto simp: in_live)
  obtain h1 where h1: "pt_Clear T (Some p) h = Inr h1" "hp_cells h1 = (hp_cells h)(p := Some (x\<lparr>ob_value := pt_clear T (ob_value x)\<rparr>))"
      "live h1 = live h" "hp_owned h1 = hp_owned h" "wf_heap h1 = wf_heap h"
    using hp_write_live[of p h "x\<lparr>ob_value := pt_clear T (ob_value x)\<rparr>"] x by (auto simp: pt_Clear_def in_live)
  obtain h' where h': "for_each (\<lambda>p. pt_Clear T (Some p)) ps h1 = Inr h'" "live h' = live h1" "hp_owned h' = hp_owned h1"
      "wf_heap h' = wf_heap h1" "\<forall>p \<in> set ps. cleared T h' p" "\<forall>p. p \<notin> set ps \<longrightarrow> hp_cells h' p = hp_cells h1 p"
    using Cons.IH[of h1] Cons.prems h1(3) by auto
  have "cleared T h' p" using h'(5,6) h1(2) by (cases "p \<in> set ps") (auto simp: cleared_def)
  then show ?case using h1 h' by auto
qed simp

context clearable
begin

lemma cleared_value: "cleared T h p \<Longrightarrow> \<exists>x. hp_cells h p = Some x \<and> ob_value x = pt_new T"
  by (auto simp: cleared_def clear_new)

text \<open>Merging into a cleared object copies.\<close>

lemma merge_copies:
  assumes "hp_cells h from = Some x" and "cleared T h to"
  shows "\<exists>h' y. pt_Merge T (Some from) (Some to) h = Inr h' \<and> hp_cells h' = (hp_cells h)(to := Some y) \<and>
    ob_value y = ob_value x \<and> live h' = live h \<and> hp_owned h' = hp_owned h \<and> wf_heap h' = wf_heap h"
  using merge_live[OF assms(1), of to _ T] cleared_value[OF assms(2)] by (force simp: merge_new)

lemma reuse_loop:
  assumes "rp_view st as cs" and "rp_view oth bs ds" and "n \<le> length cs" and "n \<le> length bs"
    and "set bs \<subseteq> live h" and "\<forall>p \<in> set cs. cleared T h p" and "set bs \<inter> set cs = {}" and "distinct cs"
  shows "\<exists>h'. for_each (merge_reuse T oth (int (length as))) [0..int n - 1] (st, h) = Inr (st, h') \<and> live h' = live h \<and>
    hp_owned h' = hp_owned h \<and> wf_heap h' = wf_heap h \<and> (\<forall>p. p \<notin> set (take n cs) \<longrightarrow> hp_cells h' p = hp_cells h p) \<and>
    vals h' (take n cs) = vals h (take n bs)"
  using assms(3,4)
proof (induction n)
  case 0
  then show ?case by simp
next
  case (Suc n)
  have n: "n < length cs" "n < length bs" using Suc.prems by simp_all
  obtain h1 where h1: "for_each (merge_reuse T oth (int (length as))) [0..int n - 1] (st, h) = Inr (st, h1)" "live h1 = live h"
      "hp_owned h1 = hp_owned h" "wf_heap h1 = wf_heap h" "\<forall>p. p \<notin> set (take n cs) \<longrightarrow> hp_cells h1 p = hp_cells h p"
      "vals h1 (take n cs) = vals h (take n bs)"
    using Suc.IH n by auto
  have c: "cs ! n \<notin> set (take n cs)" using assms(8) n(1) by (auto simp: in_set_conv_nth distinct_conv_nth)
  have "bs ! n \<in> set bs" "cs ! n \<in> set cs" using n by simp_all
  moreover from this have b: "bs ! n \<notin> set (take n cs)" using assms(7) set_take_subset[of n cs] by blast
  ultimately have "bs ! n \<in> live h" and cl: "cleared T h (cs ! n)" using assms(5,6) by blast+
  then obtain x where x: "hp_cells h (bs ! n) = Some x" by (auto simp: in_live)
  have x1: "hp_cells h1 (bs ! n) = Some x" and cl1: "cleared T h1 (cs ! n)"
    using x cl b c h1(5) by (simp_all add: cleared_def)
  obtain h' y where h': "pt_Merge T (Some (bs ! n)) (Some (cs ! n)) h1 = Inr h'" "hp_cells h' = (hp_cells h1)(cs ! n := Some y)"
      "ob_value y = ob_value x" "live h' = live h1" "hp_owned h' = hp_owned h1" "wf_heap h' = wf_heap h1"
    using merge_copies[OF x1 cl1] by blast
  have slots: "rp_slot (int n) oth = Inr (Some (bs ! n))" "rp_slot (int (length as) + int n) st = Inr (Some (cs ! n))"
    using rp_slot_view[OF assms(2), of n] rp_slot_view[OF assms(1), of "length as + n"] n by (simp_all add: nth_append)
  have step: "merge_reuse T oth (int (length as)) (int n) (st, h1) = Inr (st, h')"
    using slots h'(1) by (simp add: merge_reuse_def)
  have "[0..int (Suc n) - 1] = [0..int n - 1] @ [int n]" using upto_upt[of 0 "Suc n"] upto_upt[of 0 n] by simp
  then have run: "for_each (merge_reuse T oth (int (length as))) [0..int (Suc n) - 1] (st, h) = Inr (st, h')"
    using h1(1) step by (simp add: for_each_append)
  have "vals h' (take n cs) = vals h1 (take n cs)" by (rule vals_cong) (use h'(2) c in auto)
  moreover have "take (Suc n) cs = take n cs @ [cs ! n]" "take (Suc n) bs = take n bs @ [bs ! n]"
    using n by (simp_all add: take_Suc_conv_app_nth)
  ultimately have "vals h' (take (Suc n) cs) = vals h (take (Suc n) bs)" using h'(2,3) h1(6) x by simp
  moreover have "\<forall>p. p \<notin> set (take (Suc n) cs) \<longrightarrow> hp_cells h' p = hp_cells h p"
    using h'(2) h1(5) \<open>take (Suc n) cs = take n cs @ [cs ! n]\<close> by simp
  ultimately show ?case using run h1(2-4) h'(4-6) by (intro exI[of _ h']) simp
qed

text \<open>New objects behind the array's pointers \<open>qs\<close>; \<open>a\<close> elements of the other field were dealt with before.\<close>

lemma fresh_loop:
  assumes "rp_rep st = Some r" and "pr_elements r = map Some qs @ junk" and "length qs = k + a"
    and "rp_view oth bs ds" and "a + m \<le> length bs" and "m \<le> length junk" and "set bs \<subseteq> live h" and "wf_heap h"
  shows "\<exists>news h'. for_each (merge_fresh T oth (int k)) [int a..int (a + m) - 1] (st, h) =
      Inr (st\<lparr>rp_rep := Some (r\<lparr>pr_elements := map Some (qs @ news) @ drop m junk\<rparr>)\<rparr>, h') \<and>
    length news = m \<and> distinct news \<and> set news \<inter> live h = {} \<and> set news \<subseteq> live h' \<and> wf_heap h' \<and>
    (\<forall>p \<in> set news. held (rp_arena st) h' p) \<and> keeps_rest {} h (set news) h' \<and> vals h' news = vals h (take m (drop a bs))"
  using assms(5,6)
proof (induction m)
  case 0
  have "st = st\<lparr>rp_rep := Some (r\<lparr>pr_elements := map Some qs @ junk\<rparr>)\<rparr>"
    using assms(1,2) by (metis PtrRep.surjective PtrRep.update_convs(2) RepeatedPtrField.surjective RepeatedPtrField.update_convs(4))
  then show ?case using assms(8) by (intro exI[of _ "[]"] exI[of _ h]) (simp add: keeps_rest_refl)
next
  case (Suc m)
  have n: "a + m < length bs" "m < length junk" using Suc.prems by simp_all
  obtain news h1 where L1: "for_each (merge_fresh T oth (int k)) [int a..int (a + m) - 1] (st, h) =
        Inr (st\<lparr>rp_rep := Some (r\<lparr>pr_elements := map Some (qs @ news) @ drop m junk\<rparr>)\<rparr>, h1)"
      "length news = m" "distinct news" "set news \<inter> live h = {}" "set news \<subseteq> live h1" "wf_heap h1"
      "\<forall>p \<in> set news. held (rp_arena st) h1 p" "keeps_rest {} h (set news) h1" "vals h1 news = vals h (take m (drop a bs))"
    using Suc.IH n by auto
  let ?st1 = "st\<lparr>rp_rep := Some (r\<lparr>pr_elements := map Some (qs @ news) @ drop m junk\<rparr>)\<rparr>"
  let ?b = "bs ! (a + m)"
  obtain p h2 where new: "pt_NewFromPrototype T (rp_arena st) h1 = (p, h2)" by (cases "pt_NewFromPrototype T (rp_arena st) h1")
  note o = new_object[OF L1(6) new]
  have b: "?b \<in> live h" using assms(7) n(1) by (meson nth_mem subsetD)
  then have b1: "?b \<in> live h1" "hp_cells h1 ?b = hp_cells h ?b" "?b \<notin> set news"
    using keeps_restD(3)[OF L1(8) b] L1(4) by (auto simp: in_live)
  then obtain x where x: "hp_cells h ?b = Some x" "hp_cells h2 ?b = Some x"
    using keeps_restD(3)[OF o(6) b1(1)] by (auto simp: in_live)
  obtain h3 y where m3: "pt_Merge T (Some ?b) (Some p) h2 = Inr h3" "hp_cells h3 = (hp_cells h2)(p := Some y)"
      "ob_value y = ob_value x" "live h3 = live h2" "hp_owned h3 = hp_owned h2" "wf_heap h3 = wf_heap h2"
    using merge_copies[OF x(2) o(5)] by blast
  have k3: "keeps_rest {} h1 {p} h3"
    using keeps_rest_trans[OF o(6) keeps_rest_update[OF m3(2,4,5)]] by simp
  have pn: "p \<notin> set news" using o(1) L1(5) by blast
  have "set news \<inter> {} = {}" by simp
  note beside = keeps_rest_beside[OF k3 this L1(5)]
  have k: "keeps_rest {} h (set (news @ [p])) h3"
    using keeps_rest_trans[OF L1(8)] beside(1) by simp
  have pl: "p \<notin> live h"
  proof
    assume "p \<in> live h"
    then have "p \<in> live h1" using keeps_restD(3)[OF L1(8), of p] by (simp add: in_live)
    then show False using o(1) by simp
  qed
  have slot: "rp_slot (int (a + m)) oth = Inr (Some ?b)" using rp_slot_view[OF assms(4), of "a + m"] n(1) by (simp add: nth_append)
  obtain j rest where j: "drop m junk = j # rest" "drop (Suc m) junk = rest" using n(2) by (metis Cons_nth_drop_Suc)
  have set_slot: "rp_set_slot (int k + int (a + m)) (Some p) ?st1 =
      Inr (st\<lparr>rp_rep := Some (r\<lparr>pr_elements := map Some (qs @ news @ [p]) @ drop (Suc m) junk\<rparr>)\<rparr>)"
    using j L1(2) assms(3) by (simp add: rp_simps nat_add_distrib)
  have step: "merge_fresh T oth (int k) (int (a + m)) (?st1, h1) =
      Inr (st\<lparr>rp_rep := Some (r\<lparr>pr_elements := map Some (qs @ news @ [p]) @ drop (Suc m) junk\<rparr>)\<rparr>, h3)"
    using slot new m3(1) set_slot by (simp add: merge_fresh_def del: of_nat_add)
  have "[int a..int (a + Suc m) - 1] = [int a..int (a + m) - 1] @ [int (a + m)]"
    using upto_upt[of a "a + Suc m"] upto_upt[of a "a + m"] by simp
  then have run: "for_each (merge_fresh T oth (int k)) [int a..int (a + Suc m) - 1] (st, h) =
      Inr (st\<lparr>rp_rep := Some (r\<lparr>pr_elements := map Some (qs @ news @ [p]) @ drop (Suc m) junk\<rparr>)\<rparr>, h3)"
    using L1(1) step by (simp only: for_each_append bnd_Inr for_each.simps)
  have "vals h3 news = vals h1 news" by (rule vals_cong) (rule beside(4))
  moreover have "take (Suc m) (drop a bs) = take m (drop a bs) @ [?b]" using n(1) by (simp add: take_Suc_conv_app_nth)
  ultimately have "vals h3 (news @ [p]) = vals h (take (Suc m) (drop a bs))" using L1(9) m3(2,3) x(1) by simp
  moreover have "\<forall>q \<in> set (news @ [p]). held (rp_arena st) h3 q"
    using beside(5) L1(7) o(4) held_cong[OF m3(5)] by auto
  moreover have "set (news @ [p]) \<subseteq> live h3" using beside(3) o(3) m3(4) by simp
  ultimately show ?case
    using run L1(2-4) pn pl k o(2) m3(6) by (intro exI[of _ "news @ [p]"] exI[of _ h3]) simp
qed

end

section \<open>Merging\<close>

lemma objs_taken:
  assumes "objs_ok T arena h as cs" and "live h1 = live h" and "hp_owned h1 = hp_owned h" and "wf_heap h1 = wf_heap h"
    and "\<forall>p. p \<notin> set (take n cs) \<longrightarrow> hp_cells h1 p = hp_cells h p"
  shows "objs_ok T arena h1 (as @ take n cs) (drop n cs)" and "vals h1 as = vals h as"
    and "keeps_rest (set as \<union> set cs) h (set (as @ take n cs) \<union> set (drop n cs)) h1"
proof -
  note o = objs_okD[OF assms(1)]
  have parts: "set cs = set (take n cs) \<union> set (drop n cs)" by (metis append_take_drop_id set_append)
  have dis: "distinct (take n cs @ drop n cs)" using o(3) by simp
  have "cleared T h1 p" if "p \<in> set (drop n cs)" for p
  proof -
    have "p \<notin> set (take n cs)"
      using that set_take_disj_set_drop_if_distinct[OF o(3) order_refl, of n] by blast
    then have "hp_cells h1 p = hp_cells h p" using assms(5) by simp
    then show ?thesis using o(8)[of p] that parts by (simp add: cleared_def)
  qed
  then show "objs_ok T arena h1 (as @ take n cs) (drop n cs)"
    using assms(1-4) parts held_cong[OF assms(3)] dis o(2,4) unfolding objs_ok_def by auto
  show "vals h1 as = vals h as" by (rule vals_cong) (use assms(5) o(4) parts in blast)
  have "keeps_rest (set as \<union> set cs) h (set as \<union> set cs) h1"
    by (rule keeps_rest_updates) (use assms(2,3,5) parts in auto)
  then show "keeps_rest (set as \<union> set cs) h (set (as @ take n cs) \<union> set (drop n cs)) h1"
    using parts by (simp add: Un_assoc)
qed

lemma objs_added:
  assumes "objs_ok T arena h as []" and "keeps_rest {} h (set news) h'" and "wf_heap h'" and "distinct news"
    and "set news \<inter> live h = {}" and "set news \<subseteq> live h'" and "\<forall>p \<in> set news. held arena h' p"
  shows "objs_ok T arena h' (as @ news) []" and "vals h' as = vals h as" and "keeps_rest (set as) h (set (as @ news)) h'"
proof -
  note f = objs_frame[OF assms(1,2) _ assms(3), simplified]
  show "vals h' as = vals h as" by (rule f(2))
  show "keeps_rest (set as) h (set (as @ news)) h'" using f(4) by simp
  show "objs_ok T arena h' (as @ news) []"
    using f(1,3) assms(4,6,7) unfolding objs_ok_def by auto
qed

context clearable
begin

lemma MergeFrom_step:
  assumes "rp_lib_ok L" and "rp_holds T st h as cs" and "rp_view oth bs ds" and "set bs \<subseteq> live h"
    and "set bs \<inter> (set as \<union> set cs) = {}" and "length as + length bs \<le> 2 ^ 30"
  shows "\<exists>st' h' news cs'. RP_MergeFrom T L (Some oth) (st, h) = Inr (st', h') \<and> rp_holds T st' h' (as @ news) cs' \<and>
    vals h' (as @ news) = vals h as @ vals h bs \<and> rp_arena st' = rp_arena st \<and>
    keeps_rest (set as \<union> set cs) h (set (as @ news) \<union> set cs') h'"
proof (cases "bs = []")
  case True
  then have "rp_current_size oth = 0" using assms(3) by (simp add: rp_view_def)
  then show ?thesis using True assms(2) keeps_rest_refl
    by (intro exI[of _ st] exI[of _ h] exI[of _ "[]"] exI[of _ cs]) (simp add: RP_MergeFrom_def)
next
  case False
  have view: "rp_view st as cs" and objs: "objs_ok T (rp_arena st) h as cs" using assms(2) by (simp_all add: rp_holds_def)
  have sizes: "rp_current_size oth = int (length bs)" "rp_rep oth \<noteq> None"
    using assms(3) False rp_view_rep by (auto simp: rp_view_def split: option.splits)
  obtain ro where ro: "rp_rep oth = Some ro" using sizes(2) by blast
  have "0 < int (length bs)" "int (length as) + int (length bs) \<le> 2 ^ 30" using False assms(6) by simp_all
  from rp_lib_okD(2)[OF assms(1) view this]
  obtain st1 where st1: "rl_InternalExtend L (int (length bs)) st = (int (length as), st1)" "rp_view st1 as cs"
      "int (length as) + int (length bs) \<le> rp_total_size st1" "rp_arena st1 = rp_arena st" "rp_rep st1 \<noteq> None" by blast
  obtain r junk where r: "rp_rep st1 = Some r" "pr_elements r = map Some (as @ cs) @ junk"
      "pr_allocated_size r = int (length as) + int (length cs)" "rp_current_size st1 = int (length as)"
      "rp_total_size st1 = int (length as) + int (length cs) + int (length junk)"
      "int (length as) + int (length cs) + int (length junk) < 2 ^ 31"
    by (rule rp_viewE[OF st1(2,5)])
  have i32: "int32 (int (length as) + int (length bs))" using assms(6) by (simp add: int32_def)
  have cl: "\<forall>p \<in> set cs. cleared T h p" "distinct cs" "set bs \<inter> set cs = {}" using objs_okD[OF objs] assms(5) by blast+
  let ?n = "min (length cs) (length bs)"
  obtain h1 where h1: "for_each (merge_reuse T oth (int (length as))) [0..int ?n - 1] (st1, h) = Inr (st1, h1)" "live h1 = live h"
      "hp_owned h1 = hp_owned h" "wf_heap h1 = wf_heap h" "\<forall>p. p \<notin> set (take ?n cs) \<longrightarrow> hp_cells h1 p = hp_cells h p"
      "vals h1 (take ?n cs) = vals h (take ?n bs)"
    using reuse_loop[OF st1(2) assms(3) _ _ assms(4) cl(1,3,2), of ?n] by auto
  note t = objs_taken[OF objs h1(2-5)]
  have inner: "MergeFromInnerLoop T oth (int (length as)) (int (length bs)) (int (length cs)) (st1, h) =
      for_each (merge_fresh T oth (int (length as))) [int (length cs)..int (length bs) - 1] (st1, h1)"
    using h1(1) by (simp add: MergeFromInnerLoop_def of_nat_min)
  have run: "RP_MergeFrom T L (Some oth) (st, h) =
      bnd (for_each (merge_fresh T oth (int (length as))) [int (length cs)..int (length bs) - 1] (st1, h1)) (\<lambda>(st, h).
         if \<not> int32 (rp_current_size st + int (length bs)) then Inl IntOverflow
         else let st = st\<lparr>rp_current_size := rp_current_size st + int (length bs)\<rparr> in
           bnd (rp_allocated st) (\<lambda>a.
           bnd (if a < rp_current_size st then rp_set_allocated (rp_current_size st) st else Inr st) (\<lambda>st. Inr (st, h))))"
    using sizes(1) ro st1(1) r inner False
    by (simp add: RP_MergeFrom_def MergeFromInternal_def rp_the_rep_def rp_allocated_def Let_def)
  show ?thesis
  proof (cases "length bs \<le> length cs")
    case True
    let ?st = "st1\<lparr>rp_current_size := int (length as) + int (length bs)\<rparr>"
    have "[int (length cs)..int (length bs) - 1] = []" using True by simp
    then have "RP_MergeFrom T L (Some oth) (st, h) = Inr (?st, h1)"
      using run r i32 True by (simp add: rp_allocated_def rp_the_rep_def)
    moreover have "rp_view ?st (as @ take (length bs) cs) (drop (length bs) cs)"
      using r True st1(2) by (simp add: rp_view_def)
    moreover have "vals h1 (take (length bs) cs) = vals h bs" using h1(6) True by simp
    ultimately show ?thesis using t True st1(4)
      by (intro exI[of _ ?st] exI[of _ h1] exI[of _ "take (length bs) cs"] exI[of _ "drop (length bs) cs"])
        (simp add: rp_holds_def)
  next
    case False
    define m where "m = length bs - length cs"
    have m: "length bs = length cs + m" "m \<le> length junk" "0 < m" using False st1(3) r(5) by (simp_all add: m_def)
    have o1: "objs_ok T (rp_arena st1) h1 (as @ cs) []" "vals h1 as = vals h as"
        "keeps_rest (set as \<union> set cs) h (set (as @ cs)) h1"
      using t False st1(4) by simp_all
    have len: "length (as @ cs) = length as + length cs" "length cs + m \<le> length bs" using m(1) by simp_all
    have bl: "set bs \<subseteq> live h1" using assms(4) h1(2) by simp
    obtain news h2 where L: "for_each (merge_fresh T oth (int (length as))) [int (length cs)..int (length cs + m) - 1] (st1, h1) =
          Inr (st1\<lparr>rp_rep := Some (r\<lparr>pr_elements := map Some ((as @ cs) @ news) @ drop m junk\<rparr>)\<rparr>, h2)"
        "length news = m" "distinct news" "set news \<inter> live h1 = {}" "set news \<subseteq> live h2" "wf_heap h2"
        "\<forall>p \<in> set news. held (rp_arena st1) h2 p" "keeps_rest {} h1 (set news) h2"
        "vals h2 news = vals h1 (take m (drop (length cs) bs))"
      using fresh_loop[OF r(1,2) len(1) assms(3) len(2) m(2) bl objs_okD(1)[OF o1(1)]] by blast
    note a = objs_added[OF o1(1) L(8,6,3,4,5,7)]
    let ?st = "st1\<lparr>rp_rep := Some (r\<lparr>pr_elements := map Some ((as @ cs) @ news) @ drop m junk, pr_allocated_size :=
        int (length as) + int (length bs)\<rparr>), rp_current_size := int (length as) + int (length bs)\<rparr>"
    have "int (length as) + int (length cs) < int (length as) + int (length bs)" using m(1,3) by simp
    then have run2: "RP_MergeFrom T L (Some oth) (st, h) = Inr (?st, h2)"
      using run L(1) r i32 unfolding m(1)[symmetric]
      by (simp add: rp_allocated_def rp_set_allocated_def rp_the_rep_def)
    have view2: "rp_view ?st ((as @ cs) @ news) []" using r m L(2) by (simp add: rp_view_def)
    have "vals h1 bs = vals h bs" by (rule vals_cong) (use h1(5) cl(3) set_take_subset[of ?n cs] in blast)
    then have "vals h2 news = drop (length cs) (vals h bs)" using L(9) m(1) by (simp add: vals_drop)
    moreover have "vals h2 cs = take (length cs) (vals h bs)"
      using a(2) h1(6) m(1) by (simp add: vals_take)
    moreover have "vals h2 as = vals h as" using a(2) o1(2) by simp
    ultimately have vals2: "vals h2 (as @ cs @ news) = vals h as @ vals h bs" by simp
    show ?thesis
      by (rule exI[of _ ?st], rule exI[of _ h2], rule exI[of _ "cs @ news"], rule exI[of _ "[]"])
        (use a(1) run2 view2 st1(4) vals2 keeps_rest_trans[OF o1(3) a(3)] in \<open>simp add: rp_holds_def\<close>)
  qed
qed

end

section \<open>Adding and removing\<close>

lemma view_sizes: "rp_view st as cs \<Longrightarrow> rp_rep st = None \<and> as = [] \<and> cs = [] \<and> rp_total_size st = 0 \<or>
    rp_rep st \<noteq> None \<and> int (length as) + int (length cs) \<le> rp_total_size st \<and>
    (rp_all_allocated st \<longleftrightarrow> int (length as) + int (length cs) = rp_total_size st)"
  by (auto simp: rp_view_def rp_all_allocated_def split: option.splits)

lemma rp_grow_view:
  assumes "rp_lib_ok L" and "rp_view st as cs" and "rp_total_size st < 2 ^ 30"
  shows "\<exists>st1. rp_grow L st = Inr st1 \<and> rp_view st1 as cs \<and> rp_rep st1 \<noteq> None \<and> rp_total_size st < rp_total_size st1 \<and>
    rp_arena st1 = rp_arena st"
proof -
  have "0 \<le> rp_total_size st" using view_sizes[OF assms(2)] by auto
  then have "0 < rp_total_size st + 1" "rp_total_size st + 1 \<le> 2 ^ 30" using assms(3) by simp_all
  from rp_lib_okD(1)[OF assms(1,2) this] this show ?thesis by (simp add: rp_grow_def int_succ_def int32_def)
qed

lemma rp_room:
  assumes "rp_lib_ok L" and "rp_view st as cs" and "length as + length cs < 2 ^ 30"
  shows "\<exists>st1. (if rp_all_allocated st then rp_grow L st else Inr st) = Inr st1 \<and> rp_view st1 as cs \<and> rp_rep st1 \<noteq> None \<and>
    int (length as) + int (length cs) < rp_total_size st1 \<and> rp_arena st1 = rp_arena st"
proof (cases "rp_all_allocated st")
  case True
  then have "rp_total_size st < 2 ^ 30" using view_sizes[OF assms(2)] assms(3) by auto
  then show ?thesis using True rp_grow_view[OF assms(1,2)] view_sizes[OF assms(2)] by auto
next
  case False
  then have "rp_rep st \<noteq> None" by (auto simp: rp_all_allocated_def split: option.splits)
  then show ?thesis using False assms(2) view_sizes[OF assms(2)] by auto
qed

lemma objs_claimed: "objs_ok T arena h as (c # cs) \<Longrightarrow> objs_ok T arena h (as @ [c]) cs"
  by (auto simp: objs_ok_def)

lemma objs_cleared:
  assumes "objs_ok T arena h (as @ ps) cs" and "live h1 = live h" and "hp_owned h1 = hp_owned h" and "wf_heap h1 = wf_heap h"
    and "\<forall>p \<in> set ps. cleared T h1 p" and "\<forall>p. p \<notin> set ps \<longrightarrow> hp_cells h1 p = hp_cells h p"
  shows "objs_ok T arena h1 as (ps @ cs)" and "vals h1 as = vals h as"
    and "keeps_rest (set (as @ ps) \<union> set cs) h (set as \<union> set (ps @ cs)) h1"
proof -
  note o = objs_okD[OF assms(1)]
  have "cleared T h1 p" if "p \<in> set cs" for p
  proof -
    have "p \<notin> set ps" using that o(4) by auto
    then show ?thesis using o(8)[OF that] assms(6) by (simp add: cleared_def)
  qed
  then show "objs_ok T arena h1 as (ps @ cs)"
    using assms(1-5) held_cong[OF assms(3)] unfolding objs_ok_def by auto
  show "vals h1 as = vals h as" by (rule vals_cong) (use assms(6) o(2) in auto)
  have "keeps_rest (set (as @ ps) \<union> set cs) h (set (as @ ps) \<union> set cs) h1"
    by (rule keeps_rest_updates) (use assms(2,3,6) in auto)
  then show "keeps_rest (set (as @ ps) \<union> set cs) h (set as \<union> set (ps @ cs)) h1" by (simp add: Un_assoc)
qed

context clearable
begin

lemma Add_step:
  assumes "rp_lib_ok L" and "rp_holds T st h as cs" and "length as + length cs < 2 ^ 30"
  shows "\<exists>p st' h'. RP_Add T L (st, h) = Inr (Some p, st', h') \<and> rp_holds T st' h' (as @ [p]) (tl cs) \<and>
    vals h' (as @ [p]) = vals h as @ [pt_new T] \<and> rp_arena st' = rp_arena st \<and> (cs \<noteq> [] \<longrightarrow> p = hd cs) \<and>
    keeps_rest (set as \<union> set cs) h (set (as @ [p]) \<union> set (tl cs)) h'"
proof -
  have view: "rp_view st as cs" and objs: "objs_ok T (rp_arena st) h as cs" using assms(2) by (simp_all add: rp_holds_def)
  show ?thesis
  proof (cases cs)
    case (Cons c cs')
    note v = view_claim[OF view[unfolded Cons]]
    then obtain st' where st': "rp_advance st = Inr st'" "rp_view st' (as @ [c]) cs'" "rp_arena st' = rp_arena st" by blast
    have "cleared T h c" using objs_okD(8)[OF objs] Cons by simp
    then have "vals h (as @ [c]) = vals h as @ [pt_new T]" using cleared_value by fastforce
    moreover have "RP_Add T L (st, h) = Inr (Some c, st', h)" using v(1,2) st'(1) by (simp add: RP_Add_def)
    moreover have "keeps_rest (set as \<union> set cs) h (set (as @ [c]) \<union> set cs') h"
      using keeps_rest_refl[of "set as \<union> set cs" h] Cons by simp
    ultimately show ?thesis using st' objs_claimed[OF objs[unfolded Cons]] Cons
      by (intro exI[of _ c] exI[of _ st'] exI[of _ h]) (simp add: rp_holds_def)
  next
    case Nil
    obtain st1 where st1: "(if rp_all_allocated st then rp_grow L st else Inr st) = Inr st1" "rp_view st1 as []"
        "rp_rep st1 \<noteq> None" "int (length as) < rp_total_size st1" "rp_arena st1 = rp_arena st"
      using rp_room[OF assms(1) view assms(3)] Nil by auto
    obtain p h1 where new: "pt_NewFromPrototype T (rp_arena st) h = (p, h1)" by (cases "pt_NewFromPrototype T (rp_arena st) h")
    note o = new_object[OF objs_okD(1)[OF objs] new]
    obtain st2 st3 st4 where st4: "rp_allocate st1 = Inr st2" "rp_current_size st2 = rp_current_size st1" "rp_arena st2 = rp_arena st1"
        "rp_set_slot (rp_current_size st1) (Some p) st2 = Inr st3" "rp_advance st3 = Inr st4" "rp_view st4 (as @ [p]) []"
        "rp_arena st4 = rp_arena st1"
      using view_push[OF st1(2-4), of p] by blast
    have "\<not> rp_has_cleared st" using view_no_cleared view Nil by simp
    then have "RP_Add T L (st, h) = Inr (Some p, st4, h1)"
      using st1(1,5) st4 new by (simp add: RP_Add_def)
    moreover have "keeps_rest {} h (set [p]) h1" "set [p] \<inter> live h = {}" "set [p] \<subseteq> live h1"
        "\<forall>q \<in> set [p]. held (rp_arena st) h1 q" "distinct [p]"
      using o by simp_all
    note added = objs_added[OF objs[unfolded Nil] this(1) o(2) this(5,2,3,4)]
    moreover have "vals h1 [p] = [pt_new T]" using cleared_value[OF o(5)] by auto
    ultimately show ?thesis using st4 st1(5) Nil
      by (intro exI[of _ p] exI[of _ st4] exI[of _ h1]) (simp add: rp_holds_def)
  qed
qed

end

lemma RemoveLast_step:
  assumes "rp_holds T st h (as @ [p]) cs"
  shows "\<exists>st' h'. RP_RemoveLast T (st, h) = Inr (st', h') \<and> rp_holds T st' h' as (p # cs) \<and> vals h' as = vals h as \<and>
    rp_arena st' = rp_arena st \<and> keeps_rest (set (as @ [p]) \<union> set cs) h (set as \<union> set (p # cs)) h'"
proof -
  have view: "rp_view st (as @ [p]) cs" and objs: "objs_ok T (rp_arena st) h (as @ [p]) cs"
    using assms by (simp_all add: rp_holds_def)
  let ?st = "st\<lparr>rp_current_size := rp_current_size st - 1\<rparr>"
  note v = view_pop[OF view]
  have "set [p] \<subseteq> live h" using objs_okD(5)[OF objs] by simp
  from clear_objects[OF this, of T] obtain h' where h': "pt_Clear T (Some p) h = Inr h'" "live h' = live h" "hp_owned h' = hp_owned h"
      "wf_heap h' = wf_heap h" "\<forall>q \<in> set [p]. cleared T h' q" "\<forall>q. q \<notin> set [p] \<longrightarrow> hp_cells h' q = hp_cells h q"
    by (auto simp: bnd_eq_Inr)
  have "rp_slot (int (length as)) ?st = Inr (Some p)" using rp_slot_view[OF v(1), of "length as"] by (simp add: nth_append)
  then have "RP_RemoveLast T (st, h) = Inr (?st, h')"
    using h'(1) v(2,3) by (simp add: RP_RemoveLast_def check_def Let_def)
  then show ?thesis using objs_cleared[OF objs h'(2-6)] v(1)
    by (intro exI[of _ ?st] exI[of _ h']) (simp add: rp_holds_def)
qed

lemma Clear_step:
  assumes "rp_holds T st h as cs"
  shows "\<exists>st' h'. RP_Clear T (st, h) = Inr (st', h') \<and> rp_holds T st' h' [] (as @ cs) \<and>
    rp_arena st' = rp_arena st \<and> rp_total_size st' = rp_total_size st \<and> keeps_rest (set as \<union> set cs) h (set (as @ cs)) h'"
proof -
  have view: "rp_view st as cs" and objs: "objs_ok T (rp_arena st) h ([] @ as) cs" using assms by (simp_all add: rp_holds_def)
  have n: "rp_current_size st = int (length as)" using view by (simp add: rp_view_def)
  have "set as \<subseteq> live h" using objs_okD(5)[OF objs] by simp
  from clear_objects[OF this, of T] obtain h' where h': "for_each (\<lambda>p. pt_Clear T (Some p)) as h = Inr h'" "live h' = live h"
      "hp_owned h' = hp_owned h" "wf_heap h' = wf_heap h" "\<forall>q \<in> set as. cleared T h' q"
      "\<forall>q. q \<notin> set as \<longrightarrow> hp_cells h' q = hp_cells h q" by blast
  have loop: "for_each (\<lambda>i h. bnd (rp_slot i st) (\<lambda>p. pt_Clear T p h)) [0..int (length as) - 1] h = Inr h'"
    using slots_loop[OF view refl, of "pt_Clear T" h] h'(1) by simp
  have run: "RP_Clear T (st, h) = Inr (st\<lparr>rp_current_size := 0\<rparr>, h')"
  proof (cases "as = []")
    case True
    then have "rp_current_size st = 0" "h' = h" using n h'(1) by simp_all
    then show ?thesis by (simp add: RP_Clear_def check_def)
  next
    case False
    then show ?thesis using n loop by (simp add: RP_Clear_def check_def)
  qed
  then show ?thesis using objs_cleared[OF objs h'(2-6)] view_clear[OF view]
    by (intro exI[of _ "st\<lparr>rp_current_size := 0\<rparr>"] exI[of _ h']) (simp add: rp_holds_def)
qed

section \<open>Objects that change hands\<close>

lemma pt_Delete_step:
  assumes "p \<in> live h" and "held arena h p" and "wf_heap h"
  shows "\<exists>h'. pt_Delete (Some p) arena h = Inr h' \<and> keeps_rest {p} h {} h' \<and> wf_heap h'"
proof (cases arena)
  case None
  then obtain h' where h': "hp_delete (Some p) h = Inr h'" "hp_cells h' = (hp_cells h)(p := None)" "live h' = live h - {p}"
      "hp_owned h' = hp_owned h" "wf_heap h'"
    using hp_delete_live[OF assms(1)] assms(2,3) by auto
  then show ?thesis using None keeps_rest_delete[OF h'(2-4), of "{p}"] by (simp add: pt_Delete_def)
next
  case (Some a)
  then have "p \<in> owned h" using assms(2) by (force simp: owned_def)
  then show ?thesis using Some keeps_rest_forget[of p h "{p}"] assms(3) by (simp add: pt_Delete_def)
qed

lemma delete_loop:
  assumes "set ps \<subseteq> live h" and "\<forall>p \<in> set ps. held arena h p" and "distinct ps" and "wf_heap h"
  shows "\<exists>h'. for_each (\<lambda>p. pt_Delete (Some p) arena) ps h = Inr h' \<and> keeps_rest (set ps) h {} h' \<and> wf_heap h'"
  using assms
proof (induction ps arbitrary: h)
  case Nil
  then show ?case by (simp add: keeps_rest_refl)
next
  case (Cons p ps)
  obtain h1 where h1: "pt_Delete (Some p) arena h = Inr h1" "keeps_rest {p} h {} h1" "wf_heap h1"
    using pt_Delete_step[of p h arena] Cons.prems by auto
  have d: "set ps \<inter> {p} = {}" "set ps \<subseteq> live h" using Cons.prems by auto
  note b = keeps_rest_beside[OF h1(2) d]
  obtain h' where h': "for_each (\<lambda>p. pt_Delete (Some p) arena) ps h1 = Inr h'" "keeps_rest (set ps) h1 {} h'" "wf_heap h'"
    using Cons.IH[of h1] b(3,5) Cons.prems h1(3) by auto
  have "keeps_rest (set (p # ps)) h {} h'" using keeps_rest_trans[OF b(1)] h'(2) by simp
  then show ?case using h1(1) h' by simp
qed

text \<open>An object that enters a field, between its elements and its cleared objects.\<close>

lemma objs_enter:
  assumes "objs_ok T arena h as cs" and "p \<in> live h" and "held arena h p" and "p \<notin> set as \<union> set cs"
    and "distinct cs'" and "set cs' \<subseteq> set cs"
  shows "objs_ok T arena h (as @ [p]) cs'"
  using assms unfolding objs_ok_def by auto

lemma UnsafeArenaAddAllocated_step:
  assumes "rp_lib_ok L" and "rp_holds T st h as cs" and "length as + length cs < 2 ^ 30"
    and "p \<in> live h" and "held (rp_arena st) h p" and "p \<notin> set as \<union> set cs"
  shows "\<exists>st' h' cs'. UnsafeArenaAddAllocated L (Some p) (st, h) = Inr (st', h') \<and> rp_holds T st' h' (as @ [p]) cs' \<and>
    vals h' (as @ [p]) = vals h (as @ [p]) \<and> rp_arena st' = rp_arena st \<and> hp_cells h' p = hp_cells h p \<and> set cs' \<subseteq> set cs \<and>
    keeps_rest (insert p (set as \<union> set cs)) h (insert p (set as \<union> set cs')) h'"
proof -
  have view: "rp_view st as cs" and objs: "objs_ok T (rp_arena st) h as cs" using assms(2) by (simp_all add: rp_holds_def)
  note o = objs_okD[OF objs]
  have fin: ?thesis if "UnsafeArenaAddAllocated L (Some p) (st, h) = Inr (st', h)" "rp_view st' (as @ [p]) cs'"
      "rp_arena st' = rp_arena st" "distinct cs'" "set cs' = set cs" for st' cs'
  proof -
    have "objs_ok T (rp_arena st) h (as @ [p]) cs'" using objs_enter[OF objs assms(4-6) that(4)] that(5) by simp
    moreover have "keeps_rest (insert p (set as \<union> set cs)) h (insert p (set as \<union> set cs')) h"
      using keeps_rest_refl that(5) by simp
    ultimately show ?thesis using that(1-3) equalityD1[OF that(5)]
      by (intro exI[of _ st'] exI[of _ h] exI[of _ cs']) (simp add: rp_holds_def)
  qed
  consider (grow) "rp_rep st = None \<or> rp_current_size st = rp_total_size st"
    | (room) "rp_rep st \<noteq> None" "rp_current_size st \<noteq> rp_total_size st" "\<not> rp_all_allocated st"
    | (full) "rp_rep st \<noteq> None" "rp_current_size st \<noteq> rp_total_size st" "rp_all_allocated st" by blast
  then show ?thesis
  proof cases
    case grow
    then have cs: "cs = []" and total: "rp_total_size st < 2 ^ 30"
      using view_sizes[OF view] view assms(3) by (auto simp: rp_view_def)
    obtain st1 where st1: "rp_grow L st = Inr st1" "rp_view st1 as []" "rp_rep st1 \<noteq> None" "rp_total_size st < rp_total_size st1"
        "rp_arena st1 = rp_arena st"
      using rp_grow_view[OF assms(1) view total] cs by auto
    have "int (length as) < rp_total_size st1" using st1(4) view_sizes[OF view] by auto
    from view_push[OF st1(2,3) this, of p]
    obtain st2 st3 st4 where st4: "rp_allocate st1 = Inr st2" "rp_current_size st2 = rp_current_size st1" "rp_arena st2 = rp_arena st1"
        "rp_set_slot (rp_current_size st1) (Some p) st2 = Inr st3" "rp_advance st3 = Inr st4" "rp_view st4 (as @ [p]) []"
        "rp_arena st4 = rp_arena st1" by blast
    then have "UnsafeArenaAddAllocated L (Some p) (st, h) = Inr (st4, h)"
      using st1(1) by (simp add: UnsafeArenaAddAllocated_def grow)
    then show ?thesis using fin[of st4 "[]"] st4(6,7) st1(5) cs by simp
  next
    case room
    then obtain r where r: "rp_rep st = Some r" "pr_allocated_size r \<noteq> rp_total_size st"
      by (auto simp: rp_all_allocated_def split: option.splits)
    have a: "rp_allocated st = Inr (int (length as) + int (length cs))" "rp_current_size st = int (length as)"
      "int (length as) + int (length cs) \<noteq> rp_total_size st"
      using r view by (simp_all add: rp_allocated_def rp_the_rep_def rp_view_def)
    show ?thesis
    proof (cases cs)
      case Nil
      have "int (length as) < rp_total_size st" using view_sizes[OF view] room a Nil by auto
      from view_push[OF view[unfolded Nil] room(1) this, of p]
      obtain st2 st3 st4 where st4: "rp_allocate st = Inr st2" "rp_current_size st2 = rp_current_size st" "rp_arena st2 = rp_arena st"
          "rp_set_slot (rp_current_size st) (Some p) st2 = Inr st3" "rp_advance st3 = Inr st4" "rp_view st4 (as @ [p]) []"
          "rp_arena st4 = rp_arena st" by blast
      then have "UnsafeArenaAddAllocated L (Some p) (st, h) = Inr (st4, h)"
        using r(1) room(2) a Nil by (simp add: UnsafeArenaAddAllocated_def)
      then show ?thesis using fin[of st4 "[]"] st4(6,7) Nil by simp
    next
      case (Cons c cs1)
      have "int (length as) + int (length (c # cs1)) < rp_total_size st" using view_sizes[OF view] room a Cons by auto
      from view_insert[OF view[unfolded Cons] this, of p]
      obtain st1 st2 st3 st4 where st4: "rp_slot (rp_current_size st) st = Inr (Some c)"
          "rp_set_slot (int (length as) + int (length (c # cs1))) (Some c) st = Inr st1"
          "rp_allocate st1 = Inr st2" "rp_current_size st2 = rp_current_size st"
          "rp_set_slot (rp_current_size st) (Some p) st2 = Inr st3" "rp_advance st3 = Inr st4" "rp_view st4 (as @ [p]) (cs1 @ [c])"
          "rp_arena st4 = rp_arena st" by blast
      then have "UnsafeArenaAddAllocated L (Some p) (st, h) = Inr (st4, h)"
        using r(1) room(2) a Cons by (simp add: UnsafeArenaAddAllocated_def)
      then show ?thesis using fin[of st4 "cs1 @ [c]"] st4(7,8) Cons o(3) by auto
    qed
  next
    case full
    then obtain r where r: "rp_rep st = Some r" "pr_allocated_size r = rp_total_size st"
      by (auto simp: rp_all_allocated_def split: option.splits)
    have a: "rp_allocated st = Inr (rp_total_size st)" "rp_current_size st = int (length as)"
      "int (length as) + int (length cs) = rp_total_size st"
      using r view by (simp_all add: rp_allocated_def rp_the_rep_def rp_view_def)
    then obtain c cs1 where cs: "cs = c # cs1" using full(2) by (cases cs) simp_all
    have c: "c \<in> live h" "held (rp_arena st) h c" using o(5,7) cs by simp_all
    obtain h1 where h1: "pt_Delete (Some c) (rp_arena st) h = Inr h1" "keeps_rest {c} h {} h1" "wf_heap h1"
      using pt_Delete_step[OF c o(1)] by blast
    obtain st1 st2 where st2: "rp_set_slot (rp_current_size st) (Some p) st = Inr st1" "rp_advance st1 = Inr st2"
        "rp_view st2 (as @ [p]) cs1" "rp_arena st2 = rp_arena st"
      using view_replace[OF view[unfolded cs], of p] by blast
    have run: "UnsafeArenaAddAllocated L (Some p) (st, h) = Inr (st2, h1)"
      using r(1) full(2) a view_claim(2)[OF view[unfolded cs]] h1(1) st2 by (simp add: UnsafeArenaAddAllocated_def)
    have "objs_ok T (rp_arena st) h (as @ [p]) cs1"
      by (rule objs_enter[OF objs assms(4-6)]) (use o(3) cs in auto)
    note f = objs_frame[OF this h1(2) _ h1(3)]
    have dis: "(set (as @ [p]) \<union> set cs1) \<inter> {c} = {}" using o(3,4) cs assms(6) by auto
    have sets: "insert p (set as \<union> set cs) = set (as @ [p]) \<union> set cs1 \<union> {c}" "insert p (set as \<union> set cs1) = set (as @ [p]) \<union> set cs1"
      using cs by auto
    have "keeps_rest (insert p (set as \<union> set cs)) h (insert p (set as \<union> set cs1)) h1"
      using f(4)[OF dis] unfolding sets Un_empty_right .
    moreover have "p \<noteq> c" using dis by auto
    then have "hp_cells h1 p = hp_cells h p" using keeps_restD(3)[OF h1(2) assms(4)] by simp
    moreover have "set cs1 \<subseteq> set cs" using cs by auto
    ultimately show ?thesis using run st2(3,4) f(1,2)[OF dis]
      by (intro exI[of _ st2] exI[of _ h1] exI[of _ cs1]) (simp add: rp_holds_def)
  qed
qed


lemma holds_enter:
  assumes "rp_holds T st h as cs" and "rp_view st' (as @ [p]) cs'" and "rp_arena st' = rp_arena st"
    and "p \<in> live h" and "held (rp_arena st) h p" and "p \<notin> set as \<union> set cs" and "distinct cs'" and "set cs' = set cs"
  shows "rp_holds T st' h (as @ [p]) cs'" and "keeps_rest (insert p (set as \<union> set cs)) h (insert p (set as \<union> set cs')) h"
proof -
  have "objs_ok T (rp_arena st) h as cs" using assms(1) by (simp add: rp_holds_def)
  from objs_enter[OF this assms(4-7)] show "rp_holds T st' h (as @ [p]) cs'" using assms(2,3,8) by (simp add: rp_holds_def)
  show "keeps_rest (insert p (set as \<union> set cs)) h (insert p (set as \<union> set cs')) h" using keeps_rest_refl assms(8) by simp
qed

lemma rp_add_fast_view:
  assumes "rp_view st as cs" and "rp_has_room st" and "distinct cs"
  shows "\<exists>st' cs'. rp_add_fast (Some p) st = Inr st' \<and> rp_view st' (as @ [p]) cs' \<and> rp_arena st' = rp_arena st \<and>
    distinct cs' \<and> set cs' = set cs"
proof -
  have rep: "rp_rep st \<noteq> None" and room: "int (length as) + int (length cs) < rp_total_size st"
    using assms(1,2) by (auto simp: rp_has_room_def rp_view_def split: option.splits)
  have n: "rp_current_size st = int (length as)" using assms(1) by (simp add: rp_view_def)
  show ?thesis
  proof (cases cs)
    case Nil
    have "int (length as) < rp_total_size st" using room Nil by simp
    from view_push_fast[OF assms(1)[unfolded Nil] rep this, of p]
    obtain st2 st3 st4 where st4: "rp_allocated st = Inr (rp_current_size st)" "rp_set_slot (rp_current_size st) (Some p) st = Inr st2"
        "rp_advance st2 = Inr st3" "rp_allocate st3 = Inr st4" "rp_view st4 (as @ [p]) []" "rp_arena st4 = rp_arena st" by blast
    then show ?thesis using Nil by (intro exI[of _ st4] exI[of _ "[]"]) (simp add: rp_add_fast_def)
  next
    case (Cons c cs1)
    have "int (length as) + int (length (c # cs1)) < rp_total_size st" using room Cons by simp
    from view_insert[OF assms(1)[unfolded Cons] this, of p]
    obtain st1 st2 st3 st4 where st4: "rp_slot (rp_current_size st) st = Inr (Some c)"
        "rp_allocated st = Inr (int (length as) + int (length (c # cs1)))"
        "rp_set_slot (int (length as) + int (length (c # cs1))) (Some c) st = Inr st1" "rp_current_size st1 = rp_current_size st"
        "rp_set_slot (rp_current_size st) (Some p) st1 = Inr st2" "rp_advance st2 = Inr st3" "rp_allocate st3 = Inr st4"
        "rp_view st4 (as @ [p]) (cs1 @ [c])" "rp_arena st4 = rp_arena st" by blast
    then have "rp_add_fast (Some p) st = Inr st4" using n by (simp add: rp_add_fast_def)
    then show ?thesis using st4(8,9) Cons assms(3) by (intro exI[of _ st4] exI[of _ "cs1 @ [c]"]) auto
  qed
qed

lemma close_last_set [simp]: "set (close_last cs) = set cs" "distinct (close_last cs) = distinct cs"
  by (cases cs rule: rev_cases; auto simp: close_last_def)+

lemma objs_leave:
  assumes "objs_ok T arena h (as @ [p]) cs"
  shows "objs_ok T arena h as (close_last cs)" and "p \<in> live h" and "held arena h p" and "p \<notin> set as \<union> set (close_last cs)"
  using assms unfolding objs_ok_def by auto

text \<open>On the field's own arena the object itself is added.\<close>

lemma AddAllocated_same:
  assumes "rp_lib_ok L" and "rp_holds T st h as cs" and "length as + length cs < 2 ^ 30" and "pt_merges T"
    and "hp_cells h p = Some x" and hp: "held (rp_arena st) h p" and "p \<notin> set as \<union> set cs" and same: "ob_arena x = rp_arena st"
    and "pt_on_arena T \<or> ob_arena x = None"
  shows "\<exists>st' h' cs'. RP_AddAllocated T L (Some p) (st, h) = Inr (st', h') \<and> rp_holds T st' h' (as @ [p]) cs' \<and>
    vals h' (as @ [p]) = vals h as @ [ob_value x] \<and> rp_arena st' = rp_arena st \<and> hp_cells h' p = Some x \<and> set cs' \<subseteq> set cs \<and>
    keeps_rest (insert p (set as \<union> set cs)) h (insert p (set as \<union> set cs')) h'"
proof -
  have view: "rp_view st as cs" and objs: "objs_ok T (rp_arena st) h as cs" using assms(2) by (simp_all add: rp_holds_def)
  note o = objs_okD[OF objs]
  have pl: "p \<in> live h" using assms(5) by (simp add: in_live)
  have arena: "pt_GetArena T (Some p) h = Inr (ob_arena x)" using assms(5,9) by (auto simp: pt_GetArena_def)
  show ?thesis
  proof (cases "rp_has_room st")
    case True
    obtain st' cs' where st': "rp_add_fast (Some p) st = Inr st'" "rp_view st' (as @ [p]) cs'" "rp_arena st' = rp_arena st"
        "distinct cs'" "set cs' = set cs"
      using rp_add_fast_view[OF view True o(3)] by blast
    have "RP_AddAllocated T L (Some p) (st, h) = Inr (st', h)"
      using arena same True st'(1) assms(4) by (simp add: RP_AddAllocated_def)
    then show ?thesis using holds_enter[OF assms(2) st'(2,3) pl hp assms(7) st'(4,5)] st'(3) assms(5) equalityD1[OF st'(5)]
      by (intro exI[of _ st'] exI[of _ h] exI[of _ cs']) simp
  next
    case False
    then have "RP_AddAllocated T L (Some p) (st, h) = UnsafeArenaAddAllocated L (Some p) (st, h)"
      using arena same assms(4) by (auto simp: RP_AddAllocated_def AddAllocatedSlowWithCopy_def)
    with UnsafeArenaAddAllocated_step[OF assms(1-3) pl hp assms(7)] show ?thesis using assms(5) by simp
  qed
qed

context clearable
begin

lemma AddAllocated_step:
  assumes "rp_lib_ok L" and "rp_holds T st h as cs" and "length as + length cs < 2 ^ 30" and "pt_merges T"
    and "hp_cells h p = Some x" and "held (ob_arena x) h p" and "p \<notin> set as \<union> set cs"
    and "pt_on_arena T \<or> ob_arena x = None"
  shows "\<exists>q st' h' cs'. RP_AddAllocated T L (Some p) (st, h) = Inr (st', h') \<and> rp_holds T st' h' (as @ [q]) cs' \<and>
    vals h' (as @ [q]) = vals h as @ [ob_value x] \<and> rp_arena st' = rp_arena st \<and> hp_cells h' p = Some x \<and>
    (q = p \<longleftrightarrow> ob_arena x = rp_arena st \<or> ob_arena x = None) \<and>
    keeps_rest (insert p (set as \<union> set cs)) h (insert q (set as \<union> set cs')) h'"
proof -
  have view: "rp_view st as cs" and objs: "objs_ok T (rp_arena st) h as cs" using assms(2) by (simp_all add: rp_holds_def)
  note o = objs_okD[OF objs]
  have pl: "p \<in> live h" using assms(5) by (simp add: in_live)
  have arena: "pt_GetArena T (Some p) h = Inr (ob_arena x)" using assms(5,8) by (auto simp: pt_GetArena_def)
  consider (same) "ob_arena x = rp_arena st" | (own) a where "rp_arena st = Some a" "ob_arena x = None"
    | (copy) b where "ob_arena x = Some b" "rp_arena st \<noteq> Some b" by (cases "rp_arena st"; cases "ob_arena x") auto
  then show ?thesis
  proof cases
    case same
    from AddAllocated_same[OF assms(1-5) assms(6)[unfolded same] assms(7) same assms(8)] same assms(5)
    show ?thesis by (intro exI[of _ p]) auto
  next
    case own
    let ?h = "hp_own a p h"
    have wf: "wf_heap ?h" using o(1) pl by simp
    have dis: "(set as \<union> set cs) \<inter> {p} = {}" using assms(7) by simp
    have k: "keeps_rest {p} h {p} ?h" by (rule keeps_rest_own) simp
    note f = holds_frame[OF assms(2) k dis wf]
    have run: "RP_AddAllocated T L (Some p) (st, h) = UnsafeArenaAddAllocated L (Some p) (st, ?h)"
      using arena own assms(4) by (simp add: RP_AddAllocated_def AddAllocatedSlowWithCopy_def pt_Own_def)
    have "p \<in> live ?h" "held (rp_arena st) ?h p" using pl own(1) by simp_all
    from UnsafeArenaAddAllocated_step[OF assms(1) f(1) assms(3) this assms(7)]
    obtain st' h' cs' where s: "UnsafeArenaAddAllocated L (Some p) (st, ?h) = Inr (st', h')" "rp_holds T st' h' (as @ [p]) cs'"
        "vals h' (as @ [p]) = vals ?h (as @ [p])" "rp_arena st' = rp_arena st" "hp_cells h' p = hp_cells ?h p"
        "keeps_rest (insert p (set as \<union> set cs)) ?h (insert p (set as \<union> set cs')) h'" by blast
    have "keeps_rest (insert p (set as \<union> set cs)) h (insert p (set as \<union> set cs)) ?h" using f(4) by simp
    from keeps_rest_trans[OF this s(6)] show ?thesis using run s(1-5) own(2) assms(5) f(2)
      by (intro exI[of _ p] exI[of _ st'] exI[of _ h'] exI[of _ cs']) simp
  next
    case copy
    obtain q h1 where new: "pt_NewFromPrototype T (rp_arena st) h = (q, h1)" by (cases "pt_NewFromPrototype T (rp_arena st) h")
    note n = new_object[OF o(1) new]
    have qp: "q \<noteq> p" "q \<notin> set as \<union> set cs" using n(1) pl o(5) by auto
    have x1: "hp_cells h1 p = Some x" using keeps_restD(3)[OF n(6) pl] assms(5) by simp
    obtain h2 y where m: "pt_Merge T (Some p) (Some q) h1 = Inr h2" "hp_cells h2 = (hp_cells h1)(q := Some y)"
        "ob_value y = ob_value x" "live h2 = live h1" "hp_owned h2 = hp_owned h1" "wf_heap h2 = wf_heap h1"
      using merge_copies[OF x1 n(5)] by blast
    have k: "keeps_rest {} h {q} h2" using keeps_rest_trans[OF n(6) keeps_rest_update[OF m(2,4,5)]] by simp
    have wf: "wf_heap h2" using n(2) m(6) by simp
    have dis: "(set as \<union> set cs) \<inter> {} = {}" by simp
    note f = holds_frame[OF assms(2) k dis wf]
    have run: "RP_AddAllocated T L (Some p) (st, h) = UnsafeArenaAddAllocated L (Some q) (st, h2)"
      using arena copy assms(4) new m(1) by (auto simp: RP_AddAllocated_def AddAllocatedSlowWithCopy_def pt_Delete_def)
    have "q \<in> live h2" "held (rp_arena st) h2 q" using n(3,4) m(4) held_cong[OF m(5)] by simp_all
    from UnsafeArenaAddAllocated_step[OF assms(1) f(1) assms(3) this qp(2)]
    obtain st' h' cs' where s: "UnsafeArenaAddAllocated L (Some q) (st, h2) = Inr (st', h')" "rp_holds T st' h' (as @ [q]) cs'"
        "vals h' (as @ [q]) = vals h2 (as @ [q])" "rp_arena st' = rp_arena st"
        "keeps_rest (insert q (set as \<union> set cs)) h2 (insert q (set as \<union> set cs')) h'" by blast
    have "keeps_rest (set as \<union> set cs) h (insert q (set as \<union> set cs)) h2" using f(4) by simp
    note k' = keeps_rest_trans[OF this s(5)]
    have "p \<in> owned h" using assms(6) copy(1) by (force simp: owned_def)
    from keeps_rest_forget[OF this, of "insert p (set as \<union> set cs)"]
    have "keeps_rest (insert p (set as \<union> set cs)) h (set as \<union> set cs) h" using assms(7) by simp
    note kk = keeps_rest_trans[OF this k']
    have "hp_cells h' p = Some x" using keeps_restD(3)[OF k' pl assms(7)] assms(5) by simp
    moreover have "vals h' (as @ [q]) = vals h as @ [ob_value x]" using s(3) f(2) m(2,3) by simp
    moreover have "\<not> (ob_arena x = rp_arena st \<or> ob_arena x = None)" using copy by auto
    ultimately show ?thesis using run s(1,2,4) kk qp(1)
      by (intro exI[of _ q] exI[of _ st'] exI[of _ h'] exI[of _ cs']) simp
  qed
qed

text \<open>What \<open>ReleaseLast\<close> returns belongs to nobody else: the element itself, or a copy when the element is an
  arena's.\<close>

lemma ReleaseLast_step:
  assumes "rp_holds T st h (as @ [p]) cs" and "pt_merges T"
  shows "\<exists>q st' h'. RP_ReleaseLast T (st, h) = Inr (Some q, st', h') \<and> rp_holds T st' h' as (close_last cs) \<and>
    vals h' as = vals h as \<and> vals h' [q] = vals h [p] \<and> rp_arena st' = rp_arena st \<and> q \<in> live h' - owned h' \<and>
    q \<notin> set as \<union> set cs \<and> (rp_arena st = None \<longrightarrow> q = p) \<and>
    keeps_rest (set (as @ [p]) \<union> set cs) h (insert q (set as \<union> set cs)) h'"
proof -
  have view: "rp_view st (as @ [p]) cs" and objs: "objs_ok T (rp_arena st) h (as @ [p]) cs"
    using assms by (simp_all add: rp_holds_def)
  note l = objs_leave[OF objs] and o = objs_okD[OF objs]
  obtain st' where st': "UnsafeArenaReleaseLast st = Inr (Some p, st')" "rp_view st' as (close_last cs)" "rp_arena st' = rp_arena st"
    using view_release[OF view] by blast
  have holds: "rp_holds T st' h as (close_last cs)" using l(1) st'(2,3) by (simp add: rp_holds_def)
  have sets: "set (as @ [p]) \<union> set cs = insert p (set as \<union> set cs)" by auto
  show ?thesis
  proof (cases "rp_arena st")
    case None
    then have "RP_ReleaseLast T (st, h) = Inr (Some p, st', h)" using st'(1,3) assms(2) by (simp add: RP_ReleaseLast_def)
    moreover have "keeps_rest (set (as @ [p]) \<union> set cs) h (insert p (set as \<union> set cs)) h" using keeps_rest_refl sets by simp
    ultimately show ?thesis using holds l(2-4) None st'(3)
      by (intro exI[of _ p] exI[of _ st'] exI[of _ h]) simp
  next
    case (Some a)
    obtain q h1 where new: "pt_NewFromPrototype T None h = (q, h1)" by (cases "pt_NewFromPrototype T None h")
    note n = new_object[OF o(1) new]
    have qp: "q \<noteq> p" "q \<notin> set as \<union> set cs" using n(1) o(5) by auto
    obtain x where x: "hp_cells h p = Some x" using l(2) by (auto simp: in_live)
    have x1: "hp_cells h1 p = Some x" using keeps_restD(3)[OF n(6) l(2)] x by simp
    obtain h2 y where m: "pt_Merge T (Some p) (Some q) h1 = Inr h2" "hp_cells h2 = (hp_cells h1)(q := Some y)"
        "ob_value y = ob_value x" "live h2 = live h1" "hp_owned h2 = hp_owned h1" "wf_heap h2 = wf_heap h1"
      using merge_copies[OF x1 n(5)] by blast
    have k: "keeps_rest {} h {q} h2" using keeps_rest_trans[OF n(6) keeps_rest_update[OF m(2,4,5)]] by simp
    have wf: "wf_heap h2" using n(2) m(6) by simp
    have dis: "(set as \<union> set (close_last cs)) \<inter> {} = {}" by simp
    note f = holds_frame[OF holds k dis wf]
    have run: "RP_ReleaseLast T (st, h) = Inr (Some q, st', h2)"
      using st'(1,3) Some new m(1) assms(2) by (simp add: RP_ReleaseLast_def)
    have "p \<in> owned h" using l(3) Some by (force simp: owned_def)
    from keeps_rest_forget[OF this, of "insert p (set as \<union> set cs)"]
    have "keeps_rest (insert p (set as \<union> set cs)) h (set as \<union> set cs) h" using l(4) by simp
    moreover have "keeps_rest (set as \<union> set cs) h (insert q (set as \<union> set cs)) h2" using f(4) by simp
    ultimately have kk: "keeps_rest (insert p (set as \<union> set cs)) h (insert q (set as \<union> set cs)) h2" by (rule keeps_rest_trans)
    have "q \<in> live h2 - owned h2" using n(3,4) m(4) held_cong[OF m(5), of None q] by simp
    then show ?thesis using run f(1,2) st'(3) qp(2) m(2,3) x kk sets Some
      by (intro exI[of _ q] exI[of _ st'] exI[of _ h2]) simp
  qed
qed

end

section \<open>Destroying, deleting and exchanging\<close>

lemma RP_Destroy_step:
  assumes "rp_holds T st h as cs"
  shows "\<exists>h'. RP_Destroy (st, h) = Inr (st\<lparr>rp_rep := None\<rparr>, h') \<and> keeps_rest (set as \<union> set cs) h {} h' \<and> wf_heap h'"
proof -
  have view: "rp_view st as cs" and objs: "objs_ok T (rp_arena st) h as cs" using assms by (simp_all add: rp_holds_def)
  note o = objs_okD[OF objs]
  have d: "distinct (as @ cs)" using o(2-4) by simp
  have "set (as @ cs) \<subseteq> live h" "\<forall>p \<in> set (as @ cs). held (rp_arena st) h p" using o(5-7) by auto
  from delete_loop[OF this d o(1)] obtain h' where h': "for_each (\<lambda>p. pt_Delete (Some p) (rp_arena st)) (as @ cs) h = Inr h'"
      "keeps_rest (set (as @ cs)) h {} h'" "wf_heap h'" by blast
  have loop: "for_each (\<lambda>i h. bnd (rp_slot i st) (\<lambda>p. pt_Delete p (rp_arena st) h)) [0..int (length (as @ cs)) - 1] h = Inr h'"
    using slots_loop[OF view, of "as @ cs" "[]" "\<lambda>p. pt_Delete p (rp_arena st)" h] h'(1) by simp
  have "RP_Destroy (st, h) = Inr (st\<lparr>rp_rep := None\<rparr>, h')"
  proof (cases "rp_rep st")
    case None
    then show ?thesis using view h'(1) by (simp add: RP_Destroy_def rp_view_def)
  next
    case (Some r)
    then have "pr_allocated_size r = int (length (as @ cs))" using view by (simp add: rp_view_def)
    then show ?thesis using Some loop by (simp add: RP_Destroy_def)
  qed
  then show ?thesis using h'(2,3) by auto
qed

lemma objs_swapped:
  assumes "objs_ok T arena h as cs" and "i < length as" and "j < length as"
  shows "objs_ok T arena h (as[i := as ! j, j := as ! i]) cs"
  using assms by (simp add: objs_ok_def set_swap distinct_swap)

lemma SwapElements_step:
  assumes "rp_holds T st h as cs" and "i < length as" and "j < length as"
  shows "\<exists>st' as'. RP_SwapElements (int i) (int j) st = Inr st' \<and> rp_holds T st' h as' cs \<and> set as' = set as \<and>
    vals h as' = (vals h as)[i := vals h as ! j, j := vals h as ! i]"
proof -
  have view: "rp_view st as cs" and objs: "objs_ok T (rp_arena st) h as cs" using assms by (simp_all add: rp_holds_def)
  let ?as = "as[i := as ! j, j := as ! i]"
  obtain st' where st': "RP_SwapElements (int i) (int j) st = Inr st'" "rp_view st' ?as cs" "rp_arena st' = rp_arena st"
    using view_swap_elements[OF view assms(2,3)] by blast
  have "rp_holds T st' h ?as cs" using st'(2,3) objs_swapped[OF objs assms(2,3)] by (simp add: rp_holds_def)
  moreover have "vals h ?as = (vals h as)[i := vals h as ! j, j := vals h as ! i]"
    using assms(2,3) by (simp add: vals_def map_update)
  moreover have "set ?as = set as" using assms(2,3) by (simp add: set_swap)
  ultimately show ?thesis using st'(1) by (intro exI[of _ st'] exI[of _ ?as]) simp
qed

lemma slot_middle:
  assumes "rp_view st (xs @ ys @ zs) cs" and "i < length ys"
  shows "rp_slot (int (length xs) + int i) st = Inr (Some (ys ! i))" and "int (length xs) + int i < rp_current_size st"
proof -
  have "rp_slot (int (length xs + i)) st = Inr (Some ((((xs @ ys @ zs) @ cs)) ! (length xs + i)))"
    using rp_slot_view[OF assms(1), of "length xs + i"] assms(2) by simp
  then show "rp_slot (int (length xs) + int i) st = Inr (Some (ys ! i))" using assms(2) by (simp add: nth_append)
  show "int (length xs) + int i < rp_current_size st" using assms by (simp add: rp_view_def)
qed

lemma delete_slots:
  assumes "rp_view st (xs @ ys @ zs) cs" and "n \<le> length ys"
  shows "for_each (\<lambda>i. RP_Delete (int (length xs) + i)) [0..int n - 1] (st, h) =
    bnd (for_each (\<lambda>p. pt_Delete (Some p) (rp_arena st)) (take n ys) h) (\<lambda>h. Inr (st, h))"
  using assms(2)
proof (induction n)
  case (Suc n)
  have "[0..int (Suc n) - 1] = [0..int n - 1] @ [int n]" using upto_upt[of 0 "Suc n"] upto_upt[of 0 n] by simp
  moreover have "RP_Delete (int (length xs) + int n) (st, u) = bnd (pt_Delete (Some (ys ! n)) (rp_arena st) u) (\<lambda>h. Inr (st, h))"
    for u :: "'a obj heap" using slot_middle[OF assms(1), of n] Suc.prems by (simp add: RP_Delete_def check_def)
  ultimately show ?case using Suc
    by (simp add: for_each_append take_Suc_conv_app_nth bnd_assoc split: sum.splits)
qed simp

lemma extract_slots:
  assumes "rp_view st (xs @ ys @ zs) cs" and "n \<le> length ys"
  shows "for_each (\<lambda>i out. bnd (RP_Mutable (i + int (length xs)) st) (\<lambda>p. Inr (out @ [p]))) [0..int n - 1] [] =
    Inr (map Some (take n ys))"
  using assms(2)
proof (induction n)
  case (Suc n)
  have "[0..int (Suc n) - 1] = [0..int n - 1] @ [int n]" using upto_upt[of 0 "Suc n"] upto_upt[of 0 n] by simp
  moreover have "RP_Mutable (int n + int (length xs)) st = Inr (Some (ys ! n))"
    using slot_middle[OF assms(1), of n] Suc.prems by (simp add: RP_Mutable_def check_def add.commute)
  ultimately show ?case using Suc by (simp add: for_each_append take_Suc_conv_app_nth)
qed simp

lemma gap_closed:
  assumes "rp_lib_ok L" and "rp_holds T st h (xs @ ys @ zs) cs" and "ys \<noteq> []"
  shows "rp_holds T (rl_CloseGap L (int (length xs)) (int (length ys)) st) h (xs @ zs) cs"
    and "rp_arena (rl_CloseGap L (int (length xs)) (int (length ys)) st) = rp_arena st"
proof -
  have view: "rp_view st (xs @ ys @ zs) cs" using assms(2) by (simp add: rp_holds_def)
  note g = rp_lib_okD(3)[OF assms(1) view refl assms(3)]
  show "rp_arena (rl_CloseGap L (int (length xs)) (int (length ys)) st) = rp_arena st" using g by blast
  then show "rp_holds T (rl_CloseGap L (int (length xs)) (int (length ys)) st) h (xs @ zs) cs"
    using g assms(2) by (auto simp: rp_holds_def objs_ok_def)
qed

lemma objs_parts:
  assumes "objs_ok T arena h (xs @ ys @ zs) cs"
  shows "objs_ok T arena h (xs @ zs) cs" and "(set (xs @ zs) \<union> set cs) \<inter> set ys = {}"
    and "set (xs @ ys @ zs) \<union> set cs = set (xs @ zs) \<union> set cs \<union> set ys"
  using assms unfolding objs_ok_def by auto

lemma DeleteSubrange_step:
  assumes "rp_lib_ok L" and "rp_holds T st h (xs @ ys @ zs) cs" and "pt_merges T"
  shows "\<exists>st' h'. RP_DeleteSubrange T L (int (length xs)) (int (length ys)) (st, h) = Inr (st', h') \<and>
    rp_holds T st' h' (xs @ zs) cs \<and> vals h' (xs @ zs) = vals h (xs @ zs) \<and> rp_arena st' = rp_arena st \<and>
    keeps_rest (set (xs @ ys @ zs) \<union> set cs) h (set (xs @ zs) \<union> set cs) h'"
proof -
  have view: "rp_view st (xs @ ys @ zs) cs" and objs: "objs_ok T (rp_arena st) h (xs @ ys @ zs) cs"
    using assms by (simp_all add: rp_holds_def)
  note o = objs_okD[OF objs] and parts = objs_parts[OF objs]
  have n: "rp_current_size st = int (length xs) + int (length ys) + int (length zs)" using view by (simp add: rp_view_def)
  have pre: "set ys \<subseteq> live h" "\<forall>p \<in> set ys. held (rp_arena st) h p" "distinct ys" using o(2,5,6) by auto
  obtain h' where h': "for_each (\<lambda>p. pt_Delete (Some p) (rp_arena st)) ys h = Inr h'" "keeps_rest (set ys) h {} h'" "wf_heap h'"
    using delete_loop[OF pre o(1)] by blast
  have loop: "for_each (\<lambda>i. RP_Delete (int (length xs) + i)) [0..int (length ys) - 1] (st, h) = Inr (st, h')"
    using delete_slots[OF view order_refl, of h] h'(1) by simp
  note f = objs_frame[OF parts(1) h'(2) parts(2) h'(3)]
  have k: "keeps_rest (set (xs @ ys @ zs) \<union> set cs) h (set (xs @ zs) \<union> set cs) h'"
    using f(4) unfolding parts(3) Un_empty_right .
  show ?thesis
  proof (cases "ys = []")
    case True
    then show ?thesis using loop n f(1,2) k view assms(3)
      by (intro exI[of _ st] exI[of _ h']) (simp add: RP_DeleteSubrange_def RP_ExtractSubrange_def check_def rp_holds_def)
  next
    case False
    let ?st = "rl_CloseGap L (int (length xs)) (int (length ys)) st"
    have "RP_DeleteSubrange T L (int (length xs)) (int (length ys)) (st, h) = Inr (?st, h')"
      using loop n assms(3) False by (simp add: RP_DeleteSubrange_def RP_ExtractSubrange_def check_def)
    moreover have "rp_view ?st (xs @ zs) cs" "rp_arena ?st = rp_arena st" using gap_closed[OF assms(1,2) False] by (simp_all add: rp_holds_def)
    ultimately show ?thesis using f(1,2) k
      by (intro exI[of _ ?st] exI[of _ h']) (simp add: rp_holds_def)
  qed
qed

text \<open>Without an arena \<open>ExtractSubrange\<close> hands out the elements themselves.\<close>

lemma ExtractSubrange_step:
  assumes "rp_lib_ok L" and "rp_holds T st h (xs @ ys @ zs) cs" and "pt_merges T" and "rp_arena st = None"
  shows "\<exists>st'. RP_ExtractSubrange T L (int (length xs)) (int (length ys)) True (st, h) = Inr (map Some ys, st', h) \<and>
    rp_holds T st' h (xs @ zs) cs \<and> set ys \<subseteq> live h - owned h"
proof -
  have view: "rp_view st (xs @ ys @ zs) cs" and objs: "objs_ok T None h (xs @ ys @ zs) cs"
    using assms by (simp_all add: rp_holds_def)
  have n: "rp_current_size st = int (length xs) + int (length ys) + int (length zs)" using view by (simp add: rp_view_def)
  have out: "set ys \<subseteq> live h - owned h" using objs_okD(5,6)[OF objs] by auto
  show ?thesis
  proof (cases "ys = []")
    case True
    then show ?thesis using n assms(2,3) by (simp add: RP_ExtractSubrange_def check_def)
  next
    case False
    then show ?thesis using n assms(3,4) extract_slots[OF view order_refl] gap_closed[OF assms(1,2) False] out
      by (simp add: RP_ExtractSubrange_def check_def)
  qed
qed

text \<open>The cleared objects are a stack that the caller may fill and empty.\<close>

lemma AddCleared_step:
  assumes "rp_lib_ok L" and "rp_holds T st h as cs" and "length as + length cs < 2 ^ 30" and "rp_arena st = None"
    and "hp_cells h p = Some x" and "ob_value x = pt_new T" and "ob_arena x = None" and "p \<notin> owned h" and "p \<notin> set as \<union> set cs"
  shows "\<exists>st'. RP_AddCleared T L (Some p) (st, h) = Inr (st', h) \<and> rp_holds T st' h as (cs @ [p]) \<and> rp_arena st' = None"
proof -
  have view: "rp_view st as cs" and objs: "objs_ok T None h as cs" using assms by (simp_all add: rp_holds_def)
  obtain st1 where st1: "(if rp_all_allocated st then rp_grow L st else Inr st) = Inr st1" "rp_view st1 as cs"
      "rp_rep st1 \<noteq> None" "int (length as) + int (length cs) < rp_total_size st1" "rp_arena st1 = rp_arena st"
    using rp_room[OF assms(1) view assms(3)] by blast
  obtain st2 st3 where st3: "rp_allocated st1 = Inr (int (length as) + int (length cs))"
      "rp_set_slot (int (length as) + int (length cs)) (Some p) st1 = Inr st2" "rp_allocate st2 = Inr st3"
      "rp_view st3 as (cs @ [p])" "rp_arena st3 = rp_arena st1"
    using view_add_cleared[OF st1(2-4), of p] by blast
  have "pt_GetArena T (Some p) h = Inr None" using assms(5,7) by (simp add: pt_GetArena_def)
  then have "RP_AddCleared T L (Some p) (st, h) = Inr (st3, h)"
    using assms(4) st1(1) st3(1-3) by (simp add: RP_AddCleared_def check_def)
  moreover have "objs_ok T None h as (cs @ [p])"
    using objs assms(5-9) unfolding objs_ok_def by (auto simp: cleared_def in_live)
  ultimately show ?thesis using st3(4,5) st1(5) assms(4) by (simp add: rp_holds_def)
qed

lemma ReleaseCleared_step:
  assumes "rp_holds T st h as (cs @ [c])" and "rp_arena st = None"
  shows "\<exists>st'. RP_ReleaseCleared st = Inr (Some c, st') \<and> rp_holds T st' h as cs \<and> rp_arena st' = None \<and>
    c \<in> live h - owned h \<and> c \<notin> set as \<union> set cs \<and> cleared T h c"
proof -
  have view: "rp_view st as (cs @ [c])" and objs: "objs_ok T None h as (cs @ [c])" using assms by (simp_all add: rp_holds_def)
  have "objs_ok T None h as cs \<and> c \<in> live h - owned h \<and> c \<notin> set as \<union> set cs \<and> cleared T h c"
    using objs unfolding objs_ok_def by auto
  then show ?thesis using view_release_cleared[OF view assms(2)] by (auto simp: rp_holds_def)
qed

lemma new_holds: "wf_heap h \<Longrightarrow> rp_holds T (RP_new arena) h [] []"
  by (simp add: rp_holds_def rp_view_def objs_ok_def RP_new_def)

lemma holdsD:
  assumes "rp_holds T st h as cs"
  shows "rp_view st as cs" and "set as \<subseteq> live h" and "set cs \<subseteq> live h" and "wf_heap h" and "distinct as"
    and "rp_current_size st = int (length as)"
  using assms by (auto simp: rp_holds_def objs_ok_def rp_view_def)

context clearable
begin

lemma CopyFrom_step:
  assumes "rp_lib_ok L" and "rp_holds T st h as cs" and "rp_holds T oth h bs ds"
    and "(set as \<union> set cs) \<inter> (set bs \<union> set ds) = {}" and "length bs \<le> 2 ^ 30"
  shows "\<exists>st' h' as' cs'. RP_CopyFrom T L (Some oth) (st, h) = Inr (st', h') \<and> rp_holds T st' h' as' cs' \<and>
    vals h' as' = vals h bs \<and> rp_arena st' = rp_arena st \<and>
    keeps_rest (set as \<union> set cs) h (set as' \<union> set cs') h'"
proof -
  obtain st1 h1 where c: "RP_Clear T (st, h) = Inr (st1, h1)" "rp_holds T st1 h1 [] (as @ cs)" "rp_arena st1 = rp_arena st"
      "rp_total_size st1 = rp_total_size st" "keeps_rest (set as \<union> set cs) h (set (as @ cs)) h1"
    using Clear_step[OF assms(2)] by blast
  have dis: "(set bs \<union> set ds) \<inter> (set as \<union> set cs) = {}" using assms(4) by blast
  note f = holds_frame[OF assms(3) c(5) dis holdsD(4)[OF c(2)]]
  have dis1: "set bs \<inter> (set [] \<union> set (as @ cs)) = {}" using dis by auto
  have n: "length [] + length bs \<le> 2 ^ 30" using assms(5) by simp
  obtain st2 h2 news cs2 where m: "RP_MergeFrom T L (Some oth) (st1, h1) = Inr (st2, h2)" "rp_holds T st2 h2 ([] @ news) cs2"
      "vals h2 ([] @ news) = vals h1 [] @ vals h1 bs" "rp_arena st2 = rp_arena st1"
      "keeps_rest (set [] \<union> set (as @ cs)) h1 (set ([] @ news) \<union> set cs2) h2"
    using MergeFrom_step[OF assms(1) c(2) holdsD(1,2)[OF f(1)] dis1] n by auto
  have "keeps_rest (set (as @ cs)) h1 (set news \<union> set cs2) h2" using m(5) by simp
  from keeps_rest_trans[OF c(5) this] show ?thesis using c(1,3) m f(2)
    by (intro exI[of _ st2] exI[of _ h2] exI[of _ news] exI[of _ cs2]) (simp add: RP_CopyFrom_def)
qed

text \<open>Between two arenas the elements are copied, through a field that is destroyed again.\<close>

lemma SwapFallback_step:
  assumes "rp_lib_ok L" and "rp_holds T st h as cs" and "rp_holds T oth h bs ds"
    and "(set as \<union> set cs) \<inter> (set bs \<union> set ds) = {}"
    and "length as \<le> 2 ^ 30" and "length bs \<le> 2 ^ 30" and "rp_arena oth \<noteq> rp_arena st"
  shows "\<exists>st' oth' h' as' cs' bs' ds'. RP_SwapFallback T L st oth h = Inr (st', oth', h') \<and>
    rp_holds T st' h' as' cs' \<and> rp_holds T oth' h' bs' ds' \<and> (set as' \<union> set cs') \<inter> (set bs' \<union> set ds') = {} \<and>
    vals h' as' = vals h bs \<and> vals h' bs' = vals h as \<and> rp_arena st' = rp_arena st \<and> rp_arena oth' = rp_arena oth \<and>
    keeps_rest (set as \<union> set cs \<union> (set bs \<union> set ds)) h (set as' \<union> set cs' \<union> (set bs' \<union> set ds')) h'"
proof -
  let ?S = "set as \<union> set cs" and ?O = "set bs \<union> set ds"
  note s = holdsD[OF assms(2)] and o = holdsD[OF assms(3)]
  let ?temp = "RP_new (rp_arena oth)"
  have t0: "length [] + length as \<le> 2 ^ 30" "set as \<inter> (set [] \<union> set []) = {}"
    using assms(5) by simp_all
  obtain temp h1 ts us where t: "RP_MergeFrom T L (Some st) (?temp, h) = Inr (temp, h1)" "rp_holds T temp h1 ts us"
      "vals h1 ts = vals h as" "rp_arena temp = rp_arena oth" "keeps_rest {} h (set ts \<union> set us) h1"
    using MergeFrom_step[OF assms(1) new_holds[OF s(4), where arena = "rp_arena oth"] s(1,2) t0(2)] t0(1) by (auto simp: RP_new_def)
  let ?T = "set ts \<union> set us"
  have d0: "?S \<inter> {} = {}" "?O \<inter> {} = {}" "(?S \<union> ?O) \<inter> {} = {}" by simp_all
  note fs1 = holds_frame[OF assms(2) t(5) d0(1) holdsD(4)[OF t(2)]]
    and fo1 = holds_frame[OF assms(3) t(5) d0(2) holdsD(4)[OF t(2)]]
  have k1: "keeps_rest (?S \<union> ?O) h (?S \<union> (?O \<union> ?T)) h1"
    using keeps_rest_beside(1)[OF t(5) d0(3)] s(2,3) o(2,3) by (simp add: Un_ac)
  obtain st2 h2 where c: "RP_Clear T (st, h1) = Inr (st2, h2)" "rp_holds T st2 h2 [] (as @ cs)" "rp_arena st2 = rp_arena st"
      "rp_total_size st2 = rp_total_size st" "keeps_rest ?S h1 (set (as @ cs)) h2"
    using Clear_step[OF fs1(1)] by blast
  have k2': "keeps_rest ?S h1 ?S h2" using c(5) by simp
  have d1: "?O \<inter> ?S = {}" "?T \<inter> ?S = {}" "(?O \<union> ?T) \<inter> ?S = {}" using assms(4) fs1(3) by blast+
  note fo2 = holds_frame[OF fo1(1) k2' d1(1) holdsD(4)[OF c(2)]]
    and ft2 = holds_frame[OF t(2) k2' d1(2) holdsD(4)[OF c(2)]]
  have k2: "keeps_rest (?S \<union> (?O \<union> ?T)) h1 (?S \<union> (?O \<union> ?T)) h2"
    using keeps_rest_beside(1)[OF k2' d1(3)] holdsD(2,3)[OF fo1(1)] holdsD(2,3)[OF t(2)] by simp
  have d2: "set bs \<inter> (set [] \<union> set (as @ cs)) = {}" using d1(1) by auto
  have n2: "length [] + length bs \<le> 2 ^ 30" using assms(6) by simp
  obtain st3 h3 as3 cs3 where m: "RP_MergeFrom T L (Some oth) (st2, h2) = Inr (st3, h3)" "rp_holds T st3 h3 as3 cs3"
      "vals h3 as3 = vals h2 bs" "rp_arena st3 = rp_arena st2" "keeps_rest ?S h2 (set as3 \<union> set cs3) h3"
    using MergeFrom_step[OF assms(1) c(2) holdsD(1,2)[OF fo2(1)] d2] n2 by auto
  let ?A = "set as3 \<union> set cs3"
  note fo3 = holds_frame[OF fo2(1) m(5) d1(1) holdsD(4)[OF m(2)]]
    and ft3 = holds_frame[OF ft2(1) m(5) d1(2) holdsD(4)[OF m(2)]]
  have k3: "keeps_rest (?S \<union> (?O \<union> ?T)) h2 (?O \<union> (?A \<union> ?T)) h3"
    using keeps_rest_beside(1)[OF m(5) d1(3)] holdsD(2,3)[OF fo2(1)] holdsD(2,3)[OF ft2(1)] by (simp add: Un_ac)
  obtain oth4 h4 where e: "RP_Clear T (oth, h3) = Inr (oth4, h4)" "rp_holds T oth4 h4 [] (bs @ ds)" "rp_arena oth4 = rp_arena oth"
      "keeps_rest ?O h3 (set (bs @ ds)) h4"
    using Clear_step[OF fo3(1)] by blast
  have k4': "keeps_rest ?O h3 ?O h4" using e(4) by simp
  have d3: "?A \<inter> ?O = {}" "?T \<inter> ?O = {}" "(?A \<union> ?T) \<inter> ?O = {}" using fo3(3) fo1(3) by blast+
  note fs4 = holds_frame[OF m(2) k4' d3(1) holdsD(4)[OF e(2)]]
    and ft4 = holds_frame[OF ft3(1) k4' d3(2) holdsD(4)[OF e(2)]]
  have k4: "keeps_rest (?O \<union> (?A \<union> ?T)) h3 (?O \<union> (?A \<union> ?T)) h4"
    using keeps_rest_beside(1)[OF k4' d3(3)] holdsD(2,3)[OF m(2)] holdsD(2,3)[OF ft3(1)] by simp
  obtain oth5 temp5 where sw: "RP_InternalSwap oth4 temp = (oth5, temp5)" by (cases "RP_InternalSwap oth4 temp")
  note v = view_internal_swap[OF holdsD(1)[OF e(2)] holdsD(1)[OF ft4(1)] sw]
  have h5: "rp_holds T oth5 h4 ts us" "rp_holds T temp5 h4 [] (bs @ ds)"
    using v ft4(1) e(2,3) t(4) by (simp_all add: rp_holds_def)
  obtain h6 where x: "RP_Destroy (temp5, h4) = Inr (temp5\<lparr>rp_rep := None\<rparr>, h6)" "keeps_rest (set [] \<union> set (bs @ ds)) h4 {} h6"
      "wf_heap h6" using RP_Destroy_step[OF h5(2)] by blast
  have k6': "keeps_rest ?O h4 {} h6" using x(2) by simp
  note fs6 = holds_frame[OF fs4(1) k6' d3(1) x(3)] and fo6 = holds_frame[OF h5(1) k6' d3(2) x(3)]
  have k6: "keeps_rest (?O \<union> (?A \<union> ?T)) h4 ({} \<union> (?A \<union> ?T)) h6"
    by (rule keeps_rest_beside(1)[OF k6' d3(3)]) (use holdsD(2,3)[OF fs4(1)] holdsD(2,3)[OF h5(1)] in simp)
  note kk = keeps_rest_trans[OF keeps_rest_trans[OF keeps_rest_trans[OF keeps_rest_trans[OF k1 k2] k3] k4] k6]
  have k: "keeps_rest (?S \<union> ?O) h (?A \<union> ?T) h6" using kk by simp
  have run: "RP_SwapFallback T L st oth h = Inr (st3, oth5, h6)"
    using assms(7) t(1) c(1) m(1) e(1) sw x(1) by (simp add: RP_SwapFallback_def check_def)
  have dis: "?A \<inter> ?T = {}" using ft3(3) by blast
  have va: "vals h6 as3 = vals h bs" using fs6(2) fs4(2) m(3) fo2(2) fo1(2) by simp
  have vb: "vals h6 ts = vals h as" using fo6(2) ft4(2) ft3(2) ft2(2) t(3) by simp
  have arenas: "rp_arena st3 = rp_arena st" "rp_arena oth5 = rp_arena oth" using m(4) c(3) v(3) e(3) by simp_all
  show ?thesis
    by (rule exI[of _ st3], rule exI[of _ oth5], rule exI[of _ h6], rule exI[of _ as3], rule exI[of _ cs3],
        rule exI[of _ ts], rule exI[of _ us]) (intro conjI run fs6(1) fo6(1) dis va vb arenas k)
qed

end

section \<open>The field as a list\<close>

definition rp_list :: "'a ptr_type \<Rightarrow> RepeatedPtrField \<Rightarrow> 'a obj heap \<Rightarrow> 'a list \<Rightarrow> bool" where
  "rp_list T st h xs \<longleftrightarrow> (\<exists>as cs. rp_holds T st h as cs \<and> vals h as = xs)"

lemma rp_listI: "rp_holds T st h as cs \<Longrightarrow> vals h as = xs \<Longrightarrow> rp_list T st h xs"
  by (auto simp: rp_list_def)

lemma Get_step:
  assumes "rp_holds T st h as cs" and "i < length as"
  shows "RP_Get (int i) (st, h) = Inr (vals h as ! i)" and "RP_Mutable (int i) st = Inr (Some (as ! i))"
proof -
  have view: "rp_view st as cs" and n: "rp_current_size st = int (length as)" using holdsD[OF assms(1)] by simp_all
  have "rp_slot (int i) st = Inr (Some (as ! i))" using rp_slot_view[OF view, of i] assms(2) by (simp add: nth_append)
  moreover have "as ! i \<in> live h" using holdsD(2)[OF assms(1)] assms(2) by (meson nth_mem subsetD)
  then obtain x where "hp_cells h (as ! i) = Some x" by (auto simp: in_live)
  ultimately show "RP_Get (int i) (st, h) = Inr (vals h as ! i)" "RP_Mutable (int i) st = Inr (Some (as ! i))"
    using n assms(2) by (simp_all add: RP_Get_def RP_Mutable_def check_def vals_def)
qed

lemma split_subrange:
  assumes "i + n \<le> length as"
  obtains xs ys zs where "as = xs @ ys @ zs" and "length xs = i" and "length ys = n"
    and "vals h (xs @ zs) = take i (vals h as) @ drop (i + n) (vals h as)"
proof -
  have "as = take i as @ take n (drop i as) @ drop (i + n) as"
    by (metis add.commute append_take_drop_id drop_drop)
  then show ?thesis using that[of "take i as" "take n (drop i as)" "drop (i + n) as"] assms
    by (simp add: vals_take vals_drop)
qed

text \<open>C35: A \<open>RepeatedPtrField\<close> is a list. Its size and its elements are those of the list; \<open>Add\<close> appends an
  empty object, whether it reuses a cleared one or makes one; \<open>RemoveLast\<close> drops the last, \<open>Clear\<close> all,
  \<open>SwapElements\<close> exchanges two and \<open>DeleteSubrange\<close> cuts a range out; and no access is out of bounds, null
  or to an object that is gone.\<close>

theorem RepeatedPtrField_refines_list:
  assumes "clearable T" and "pt_merges T" and "rp_lib_ok L" and "rp_list T st h xs" and "rp_total_size st < 2 ^ 30"
  shows "RP_size st = int (length xs) \<and> (RP_empty st \<longleftrightarrow> xs = []) \<and>
    (\<forall>i < length xs. RP_Get (int i) (st, h) = Inr (xs ! i)) \<and>
    (\<exists>p st' h'. RP_Add T L (st, h) = Inr (Some p, st', h') \<and> rp_list T st' h' (xs @ [pt_new T])) \<and>
    (xs \<noteq> [] \<longrightarrow> (\<exists>st' h'. RP_RemoveLast T (st, h) = Inr (st', h') \<and> rp_list T st' h' (butlast xs))) \<and>
    (\<exists>st' h'. RP_Clear T (st, h) = Inr (st', h') \<and> rp_list T st' h' []) \<and>
    (\<forall>i j. i < length xs \<longrightarrow> j < length xs \<longrightarrow> (\<exists>st'. RP_SwapElements (int i) (int j) st = Inr st' \<and>
       rp_list T st' h (xs[i := xs ! j, j := xs ! i]))) \<and>
    (\<forall>i n. i + n \<le> length xs \<longrightarrow> (\<exists>st' h'. RP_DeleteSubrange T L (int i) (int n) (st, h) = Inr (st', h') \<and>
       rp_list T st' h' (take i xs @ drop (i + n) xs)))"
proof -
  obtain as cs where a: "rp_holds T st h as cs" "vals h as = xs" using assms(4) by (auto simp: rp_list_def)
  then have n: "length xs = length as" by (metis vals_simps(4))
  have small: "length as + length cs < 2 ^ 30" using view_sizes[OF holdsD(1)[OF a(1)]] assms(5) by auto
  have "RP_size st = int (length xs)" "RP_empty st \<longleftrightarrow> xs = []"
    using holdsD(6)[OF a(1)] n by (auto simp: RP_size_def RP_empty_def)
  moreover have "\<forall>i < length xs. RP_Get (int i) (st, h) = Inr (xs ! i)" using Get_step(1)[OF a(1)] a(2) n by simp
  moreover have "\<exists>p st' h'. RP_Add T L (st, h) = Inr (Some p, st', h') \<and> rp_list T st' h' (xs @ [pt_new T])"
    using clearable.Add_step[OF assms(1,3) a(1) small] a(2) unfolding rp_list_def by blast
  moreover have "\<exists>st' h'. RP_RemoveLast T (st, h) = Inr (st', h') \<and> rp_list T st' h' (butlast xs)" if "xs \<noteq> []"
  proof -
    have "as \<noteq> []" using that n by auto
    then obtain bs p where b: "as = bs @ [p]" by (metis append_butlast_last_id)
    have "vals h bs = butlast xs" using a(2) b by auto
    then show ?thesis using RemoveLast_step[OF a(1)[unfolded b]] unfolding rp_list_def by metis
  qed
  moreover have "\<exists>st' h'. RP_Clear T (st, h) = Inr (st', h') \<and> rp_list T st' h' []"
    using Clear_step[OF a(1)] vals_simps(1) unfolding rp_list_def by metis
  moreover have "\<exists>st'. RP_SwapElements (int i) (int j) st = Inr st' \<and> rp_list T st' h (xs[i := xs ! j, j := xs ! i])"
    if "i < length xs" "j < length xs" for i j
    using SwapElements_step[OF a(1)] that n a(2) unfolding rp_list_def by metis
  moreover have "\<exists>st' h'. RP_DeleteSubrange T L (int i) (int n) (st, h) = Inr (st', h') \<and>
      rp_list T st' h' (take i xs @ drop (i + n) xs)" if le: "i + n \<le> length xs" for i n
  proof -
    obtain us ys zs where u: "as = us @ ys @ zs" "length us = i" "length ys = n"
        "vals h (us @ zs) = take i (vals h as) @ drop (i + n) (vals h as)"
      using split_subrange[of i n as h] le \<open>length xs = length as\<close> by metis
    show ?thesis using DeleteSubrange_step[OF assms(3) a(1)[unfolded u(1)] assms(2)] u(2-4) a(2)
      unfolding rp_list_def by metis
  qed
  ultimately show ?thesis by simp
qed

text \<open>A library that keeps the contract, growing by exactly what is asked for.\<close>

definition grown :: "int \<Rightarrow> RepeatedPtrField \<Rightarrow> RepeatedPtrField" where
  "grown n st = (let r = (case rp_rep st of None \<Rightarrow> \<lparr>pr_allocated_size = 0, pr_elements = []\<rparr> | Some r \<Rightarrow> r) in
     st\<lparr>rp_total_size := max n (rp_total_size st),
        rp_rep := Some (r\<lparr>pr_elements := pr_elements r @ replicate (nat (n - rp_total_size st)) None\<rparr>)\<rparr>)"

definition gap_closed_at :: "int \<Rightarrow> int \<Rightarrow> RepeatedPtrField \<Rightarrow> RepeatedPtrField" where
  "gap_closed_at start num st = (case rp_rep st of None \<Rightarrow> st
     | Some r \<Rightarrow> st\<lparr>rp_current_size := rp_current_size st - num, rp_rep := Some (r\<lparr>
         pr_allocated_size := pr_allocated_size r - num,
         pr_elements := take (nat start) (pr_elements r) @ drop (nat (start + num)) (pr_elements r) @ replicate (nat num) None\<rparr>)\<rparr>)"

definition exact_lib :: rp_lib where
  "exact_lib = \<lparr>rl_Reserve = grown,
     rl_InternalExtend = \<lambda>n st. (rp_current_size st, grown (rp_current_size st + n) st), rl_CloseGap = gap_closed_at\<rparr>"

lemma grown_view:
  assumes "rp_view st as cs" and "n \<le> 2 ^ 30"
  shows "rp_view (grown n st) as cs" and "n \<le> rp_total_size (grown n st)" and "rp_arena (grown n st) = rp_arena st"
    and "rp_rep (grown n st) \<noteq> None"
  using assms by (auto simp: rp_view_def grown_def Let_def split: option.splits)

lemma gap_closed_view:
  assumes "rp_view st (xs @ ys @ zs) cs" and "ys \<noteq> []"
  shows "rp_view (gap_closed_at (int (length xs)) (int (length ys)) st) (xs @ zs) cs"
    and "rp_arena (gap_closed_at (int (length xs)) (int (length ys)) st) = rp_arena st"
proof -
  have "rp_rep st \<noteq> None" using rp_view_rep[OF assms(1)] assms(2) by simp
  then obtain r junk where r: "rp_rep st = Some r" "pr_elements r = map Some ((xs @ ys @ zs) @ cs) @ junk"
    "pr_allocated_size r = int (length (xs @ ys @ zs)) + int (length cs)" "rp_current_size st = int (length (xs @ ys @ zs))"
    "rp_total_size st = int (length (xs @ ys @ zs)) + int (length cs) + int (length junk)"
    "int (length (xs @ ys @ zs)) + int (length cs) + int (length junk) < 2 ^ 31"
    by (rule rp_viewE[OF assms(1)])
  then show "rp_view (gap_closed_at (int (length xs)) (int (length ys)) st) (xs @ zs) cs"
    by (simp add: gap_closed_at_def rp_view_def nat_add_distrib)
  show "rp_arena (gap_closed_at (int (length xs)) (int (length ys)) st) = rp_arena st"
    using r(1) by (simp add: gap_closed_at_def)
qed

lemma exact_lib_ok: "rp_lib_ok exact_lib"
proof -
  have c: "rp_current_size st = int (length as)" if "rp_view st as cs" for st as cs using that by (simp add: rp_view_def)
  show ?thesis
    unfolding rp_lib_ok_def
  proof (intro conjI allI impI; elim conjE)
    fix st as cs and n :: int
    assume v: "rp_view st as cs" "n \<le> 2 ^ 30"
    show "rp_view (rl_Reserve exact_lib n st) as cs" "n \<le> rp_total_size (rl_Reserve exact_lib n st)"
      "rp_arena (rl_Reserve exact_lib n st) = rp_arena st" "rp_rep (rl_Reserve exact_lib n st) \<noteq> None"
      using grown_view[OF v] by (simp_all add: exact_lib_def)
  next
    fix st as cs and n :: int
    assume v: "rp_view st as cs" "int (length as) + n \<le> 2 ^ 30"
    show "\<exists>st'. rl_InternalExtend exact_lib n st = (int (length as), st') \<and> rp_view st' as cs \<and>
        int (length as) + n \<le> rp_total_size st' \<and> rp_arena st' = rp_arena st \<and> rp_rep st' \<noteq> None"
      using grown_view[OF v] c[OF v(1)]
      by (intro exI[of _ "grown (int (length as) + n) st"]) (simp add: exact_lib_def)
  next
    fix st xs ys zs cs
    assume v: "rp_view st (xs @ ys @ zs) cs" "ys \<noteq> []"
    show "rp_view (rl_CloseGap exact_lib (int (length xs)) (int (length ys)) st) (xs @ zs) cs"
      "rp_arena (rl_CloseGap exact_lib (int (length xs)) (int (length ys)) st) = rp_arena st"
      using gap_closed_view[OF v] by (simp_all add: exact_lib_def)
  qed
qed

text \<open>A field without an arena with one element and one cleared object, and one on an arena.\<close>

definition ex_heap :: "8 word list obj heap" where
  "ex_heap = \<lparr>hp_next = 3, hp_cells = [0 \<mapsto> \<lparr>ob_arena = None, ob_value = [97]\<rparr>, 1 \<mapsto> \<lparr>ob_arena = None, ob_value = []\<rparr>,
     2 \<mapsto> \<lparr>ob_arena = None, ob_value = [98]\<rparr>], hp_owned = [(7, 2)]\<rparr>"

definition ex_field :: RepeatedPtrField where
  "ex_field = \<lparr>rp_arena = None, rp_current_size = 1, rp_total_size = 2,
     rp_rep = Some \<lparr>pr_allocated_size = 2, pr_elements = [Some 0, Some 1]\<rparr>\<rparr>"

definition ex_arena_field :: RepeatedPtrField where
  "ex_arena_field = \<lparr>rp_arena = Some 7, rp_current_size = 1, rp_total_size = 1,
     rp_rep = Some \<lparr>pr_allocated_size = 1, pr_elements = [Some 2]\<rparr>\<rparr>"

lemma ex_holds: "rp_holds StringTypeHandler ex_field ex_heap [0] [1]" "rp_holds StringTypeHandler ex_arena_field ex_heap [2] []"
  by (auto simp: rp_holds_def rp_view_def objs_ok_def wf_heap_def live_def owned_def cleared_def
      ex_heap_def ex_field_def ex_arena_field_def StringTypeHandler_def)

lemma ex_vals: "vals ex_heap [0] = [[97]]" "vals ex_heap [2] = [[98]]"
  by (simp_all add: ex_heap_def)

lemma ex_sizes: "rp_total_size ex_field < 2 ^ 30" "pt_merges StringTypeHandler"
  by (simp_all add: ex_field_def StringTypeHandler_def)

lemma RepeatedPtrField_refines_list_witness:
  "RP_size ex_field = 1 \<and> RP_Get 0 (ex_field, ex_heap) = Inr [97] \<and>
   (\<exists>p st' h'. RP_Add StringTypeHandler exact_lib (ex_field, ex_heap) = Inr (Some p, st', h') \<and>
      rp_list StringTypeHandler st' h' [[97], pt_new StringTypeHandler]) \<and>
   (\<exists>st' h'. RP_RemoveLast StringTypeHandler (ex_field, ex_heap) = Inr (st', h') \<and> rp_list StringTypeHandler st' h' [])"
proof -
  have "rp_list StringTypeHandler ex_field ex_heap [[97]]" using ex_holds(1) ex_vals(1) by (auto simp: rp_list_def)
  from RepeatedPtrField_refines_list[OF str.clearable_axioms ex_sizes(2) exact_lib_ok this ex_sizes(1)]
  show ?thesis by fastforce
qed

text \<open>Operations on two fields with objects of their own, on the same arena or on different ones.
  \<open>MergeFrom\<close> appends copies, \<open>CopyFrom\<close> makes the field a copy, both leave the other field alone; merging a
  field with itself is refused. \<open>Swap\<close> exchanges the elements and leaves each field on its arena, by
  exchanging the arrays on one arena and by copying both ways between two.\<close>

theorem RepeatedPtrField_two_fields:
  assumes "clearable T" and "rp_lib_ok L" and "rp_holds T st h as cs" and "rp_holds T oth h bs ds"
    and "(set as \<union> set cs) \<inter> (set bs \<union> set ds) = {}" and "length as + length bs \<le> 2 ^ 30"
  shows "(\<exists>st' h'. RP_MergeFrom T L (Some oth) (st, h) = Inr (st', h') \<and> rp_list T st' h' (vals h as @ vals h bs) \<and>
       rp_list T oth h' (vals h bs)) \<and>
    RP_MergeFrom T L None (st, h) = Inl CheckFailed \<and>
    (\<exists>st' h'. RP_CopyFrom T L (Some oth) (st, h) = Inr (st', h') \<and> rp_list T st' h' (vals h bs) \<and> rp_list T oth h' (vals h bs)) \<and>
    (\<exists>st' oth' h'. RP_Swap T L st oth h = Inr (st', oth', h') \<and> rp_list T st' h' (vals h bs) \<and> rp_list T oth' h' (vals h as) \<and>
       rp_arena st' = rp_arena st \<and> rp_arena oth' = rp_arena oth \<and>
       (rp_arena oth = rp_arena st \<longrightarrow> h' = h \<and> RP_Swap T L st' oth' h' = Inr (st, oth, h)))"
proof -
  note s = holdsD[OF assms(3)] and o = holdsD[OF assms(4)]
  have d: "(set bs \<union> set ds) \<inter> (set as \<union> set cs) = {}" "set bs \<inter> (set as \<union> set cs) = {}" using assms(5) by blast+
  have "\<exists>st' h'. RP_MergeFrom T L (Some oth) (st, h) = Inr (st', h') \<and> rp_list T st' h' (vals h as @ vals h bs) \<and>
      rp_list T oth h' (vals h bs)"
  proof -
    obtain st' h' news cs' where m: "RP_MergeFrom T L (Some oth) (st, h) = Inr (st', h')" "rp_holds T st' h' (as @ news) cs'"
        "vals h' (as @ news) = vals h as @ vals h bs" "keeps_rest (set as \<union> set cs) h (set (as @ news) \<union> set cs') h'"
      using clearable.MergeFrom_step[OF assms(1,2,3) o(1,2) d(2) assms(6)] by blast
    from holds_frame[OF assms(4) m(4) d(1) holdsD(4)[OF m(2)]] m(1-3) show ?thesis unfolding rp_list_def by blast
  qed
  moreover have "\<exists>st' h'. RP_CopyFrom T L (Some oth) (st, h) = Inr (st', h') \<and> rp_list T st' h' (vals h bs) \<and>
      rp_list T oth h' (vals h bs)"
  proof -
    have "length bs \<le> 2 ^ 30" using assms(6) by simp
    from clearable.CopyFrom_step[OF assms(1-5) this]
    obtain st' h' as' cs' where m: "RP_CopyFrom T L (Some oth) (st, h) = Inr (st', h')" "rp_holds T st' h' as' cs'"
        "vals h' as' = vals h bs" "keeps_rest (set as \<union> set cs) h (set as' \<union> set cs') h'" by blast
    from holds_frame[OF assms(4) m(4) d(1) holdsD(4)[OF m(2)]] m(1-3) show ?thesis unfolding rp_list_def by blast
  qed
  moreover have "\<exists>st' oth' h'. RP_Swap T L st oth h = Inr (st', oth', h') \<and> rp_list T st' h' (vals h bs) \<and>
      rp_list T oth' h' (vals h as) \<and> rp_arena st' = rp_arena st \<and> rp_arena oth' = rp_arena oth \<and>
      (rp_arena oth = rp_arena st \<longrightarrow> h' = h \<and> RP_Swap T L st' oth' h' = Inr (st, oth, h))"
  proof (cases "rp_arena oth = rp_arena st")
    case True
    obtain st' oth' where sw: "RP_InternalSwap st oth = (st', oth')" by (cases "RP_InternalSwap st oth")
    note v = view_internal_swap[OF s(1) o(1) sw]
    have "rp_holds T st' h bs ds" "rp_holds T oth' h as cs" using v True assms(3,4) by (simp_all add: rp_holds_def)
    moreover have "RP_InternalSwap st' oth' = (st, oth)" using sw by (auto simp: RP_InternalSwap_def)
    ultimately show ?thesis using v(3,4) True sw
      by (intro exI[of _ st'] exI[of _ oth'] exI[of _ h]) (auto simp: RP_Swap_def rp_list_def)
  next
    case False
    have n: "length as \<le> 2 ^ 30" "length bs \<le> 2 ^ 30" using assms(6) by simp_all
    obtain st' oth' h' as' cs' bs' ds' where w: "RP_SwapFallback T L st oth h = Inr (st', oth', h')" "rp_holds T st' h' as' cs'"
        "rp_holds T oth' h' bs' ds'" "vals h' as' = vals h bs" "vals h' bs' = vals h as" "rp_arena st' = rp_arena st"
        "rp_arena oth' = rp_arena oth"
      using clearable.SwapFallback_step[OF assms(1-5) n False] by blast
    then show ?thesis using False rp_listI[OF w(2,4)] rp_listI[OF w(3,5)]
      by (intro exI[of _ st'] exI[of _ oth'] exI[of _ h']) (simp add: RP_Swap_def)
  qed
  ultimately show ?thesis by (simp add: RP_MergeFrom_def)
qed

lemma RepeatedPtrField_two_fields_witness:
  "\<exists>st' oth' h'. RP_Swap StringTypeHandler exact_lib ex_field ex_arena_field ex_heap = Inr (st', oth', h') \<and>
     rp_list StringTypeHandler st' h' [[98]] \<and> rp_list StringTypeHandler oth' h' [[97]] \<and> rp_arena oth' = Some 7"
proof -
  have "(set [0] \<union> set [1]) \<inter> (set [2] \<union> set []) = ({} :: nat set)" "length [0 :: nat] + length [2 :: nat] \<le> 2 ^ 30" by simp_all
  from RepeatedPtrField_two_fields[OF str.clearable_axioms exact_lib_ok ex_holds(1,2) this(1,2)] ex_vals
  show ?thesis by (auto simp: ex_arena_field_def)
qed

text \<open>C36: Who owns the objects. \<open>AddAllocated\<close> takes the caller's object itself, or, when it belongs to another
  arena, a copy of it, leaving it to that arena; \<open>ReleaseLast\<close> hands out an object that belongs to nobody
  else, the element or, when the element is an arena's, a copy; \<open>Destroy\<close> deletes every object the field
  holds. None of them leaks an object, deletes one twice or touches another's.\<close>

theorem RepeatedPtrField_ownership:
  assumes "clearable T" and "pt_merges T" and "rp_lib_ok L" and "rp_holds T st h as cs" and "length as + length cs < 2 ^ 30"
  shows "(\<forall>p x. hp_cells h p = Some x \<and> held (ob_arena x) h p \<and> p \<notin> set as \<union> set cs \<and> (pt_on_arena T \<or> ob_arena x = None) \<longrightarrow>
       (\<exists>q st' h' cs'. RP_AddAllocated T L (Some p) (st, h) = Inr (st', h') \<and> rp_holds T st' h' (as @ [q]) cs' \<and>
          vals h' (as @ [q]) = vals h as @ [ob_value x] \<and> hp_cells h' p = Some x \<and>
          (q = p \<longleftrightarrow> ob_arena x = rp_arena st \<or> ob_arena x = None) \<and>
          keeps_rest (insert p (set as \<union> set cs)) h (insert q (set as \<union> set cs')) h')) \<and>
    (\<forall>bs p. as = bs @ [p] \<longrightarrow>
       (\<exists>q st' h' cs'. RP_ReleaseLast T (st, h) = Inr (Some q, st', h') \<and> rp_holds T st' h' bs cs' \<and>
          vals h' bs = vals h bs \<and> vals h' [q] = vals h [p] \<and> q \<in> live h' - owned h' \<and> q \<notin> set bs \<union> set cs' \<and>
          (rp_arena st = None \<longrightarrow> q = p) \<and>
          keeps_rest (set as \<union> set cs) h (insert q (set bs \<union> set cs')) h')) \<and>
    (\<exists>st' h'. RP_Destroy (st, h) = Inr (st', h') \<and> rp_rep st' = None \<and> wf_heap h' \<and> keeps_rest (set as \<union> set cs) h {} h')"
proof -
  have "\<exists>q st' h' cs'. RP_AddAllocated T L (Some p) (st, h) = Inr (st', h') \<and> rp_holds T st' h' (as @ [q]) cs' \<and>
      vals h' (as @ [q]) = vals h as @ [ob_value x] \<and> hp_cells h' p = Some x \<and>
      (q = p \<longleftrightarrow> ob_arena x = rp_arena st \<or> ob_arena x = None) \<and>
      keeps_rest (insert p (set as \<union> set cs)) h (insert q (set as \<union> set cs')) h'"
    if pre: "hp_cells h p = Some x" "held (ob_arena x) h p" "p \<notin> set as \<union> set cs" "pt_on_arena T \<or> ob_arena x = None" for p x
  proof -
    from clearable.AddAllocated_step[OF assms(1,3,4,5,2) pre]
    obtain q st' h' cs' where "RP_AddAllocated T L (Some p) (st, h) = Inr (st', h')" "rp_holds T st' h' (as @ [q]) cs'"
        "vals h' (as @ [q]) = vals h as @ [ob_value x]" "hp_cells h' p = Some x"
        "q = p \<longleftrightarrow> ob_arena x = rp_arena st \<or> ob_arena x = None"
        "keeps_rest (insert p (set as \<union> set cs)) h (insert q (set as \<union> set cs')) h'"
      by (elim exE conjE) (rule that)
    then show ?thesis by (intro exI[of _ q] exI[of _ st'] exI[of _ h'] exI[of _ cs'] conjI)
  qed
  moreover have "\<exists>q st' h' cs'. RP_ReleaseLast T (st, h) = Inr (Some q, st', h') \<and> rp_holds T st' h' bs cs' \<and>
      vals h' bs = vals h bs \<and> vals h' [q] = vals h [p] \<and> q \<in> live h' - owned h' \<and> q \<notin> set bs \<union> set cs' \<and>
      (rp_arena st = None \<longrightarrow> q = p) \<and> keeps_rest (set as \<union> set cs) h (insert q (set bs \<union> set cs')) h'"
    if split: "as = bs @ [p]" for bs p
  proof -
    from clearable.ReleaseLast_step[OF assms(1) assms(4)[unfolded split] assms(2)]
    obtain q st' h' where "RP_ReleaseLast T (st, h) = Inr (Some q, st', h')" "rp_holds T st' h' bs (close_last cs)"
        "vals h' bs = vals h bs" "vals h' [q] = vals h [p]" "q \<in> live h' - owned h'" "q \<notin> set bs \<union> set cs"
        "rp_arena st = None \<longrightarrow> q = p" "keeps_rest (set (bs @ [p]) \<union> set cs) h (insert q (set bs \<union> set cs)) h'"
      by (elim exE conjE) (rule that)
    then show ?thesis unfolding split
      by (intro exI[of _ q] exI[of _ st'] exI[of _ h'] exI[of _ "close_last cs"]) simp
  qed
  moreover have "\<exists>st' h'. RP_Destroy (st, h) = Inr (st', h') \<and> rp_rep st' = None \<and> wf_heap h' \<and> keeps_rest (set as \<union> set cs) h {} h'"
    using RP_Destroy_step[OF assms(4)] by fastforce
  ultimately show ?thesis by blast
qed

lemma RepeatedPtrField_ownership_witness:
  "(\<exists>st' h' cs'. RP_AddAllocated StringTypeHandler exact_lib (Some 0) (ex_arena_field, ex_heap) = Inr (st', h') \<and>
      rp_holds StringTypeHandler st' h' [2, 0] cs' \<and> vals h' [2, 0] = [[98], [97]]) \<and>
   (\<exists>q st' h'. RP_ReleaseLast StringTypeHandler (ex_arena_field, ex_heap) = Inr (Some q, st', h') \<and> vals h' [q] = [[98]] \<and>
      q \<in> live h' - owned h')"
proof -
  have "length [2 :: nat] + length ([] :: nat list) < 2 ^ 30" by simp
  note t = RepeatedPtrField_ownership[OF str.clearable_axioms ex_sizes(2) exact_lib_ok ex_holds(2) this]
  have p: "hp_cells ex_heap 0 = Some \<lparr>ob_arena = None, ob_value = [97]\<rparr>" "0 \<notin> owned ex_heap" by (simp_all add: ex_heap_def owned_def)
  have "\<exists>st' h' cs'. RP_AddAllocated StringTypeHandler exact_lib (Some 0) (ex_arena_field, ex_heap) = Inr (st', h') \<and>
      rp_holds StringTypeHandler st' h' [2, 0] cs' \<and> vals h' [2, 0] = [[98], [97]]"
    using conjunct1[OF t, rule_format, OF conjI[OF p(1)]] p(2) ex_vals by auto
  moreover have "\<exists>q st' h'. RP_ReleaseLast StringTypeHandler (ex_arena_field, ex_heap) = Inr (Some q, st', h') \<and>
      vals h' [q] = [[98]] \<and> q \<in> live h' - owned h'"
  proof -
    have "[2 :: nat] = [] @ [2]" by simp
    from conjunct1[OF conjunct2[OF t], rule_format, OF this] ex_vals(2) show ?thesis by metis
  qed
  ultimately show ?thesis by blast
qed

section \<open>Memory used\<close>

lemma space_loop:
  assumes "set ps \<subseteq> live h" and "0 \<le> n" and "\<forall>v. 0 \<le> space v" and "n + sum_list (map space (vals h ps)) < 2 ^ 31"
  shows "for_each (\<lambda>p n. bnd (hp_read (Some p) h) (\<lambda>x.
      if int32 (n + space (ob_value x)) then Inr (n + space (ob_value x)) else Inl IntOverflow)) ps n =
    Inr (n + sum_list (map space (vals h ps)))"
  using assms
proof (induction ps arbitrary: n)
  case (Cons p ps)
  obtain x where x: "hp_cells h p = Some x" using Cons.prems(1) by (auto simp: in_live)
  have "0 \<le> sum_list (map space (vals h ps))" using Cons.prems(3) by (auto intro!: sum_list_nonneg)
  moreover have "0 \<le> space (ob_value x)" using Cons.prems(3) by simp
  ultimately have "int32 (n + space (ob_value x))" using Cons.prems(2,4) x by (simp add: int32_def)
  then show ?case using Cons.IH[of "n + space (ob_value x)"] Cons.prems x \<open>0 \<le> space (ob_value x)\<close> by (simp add: add.assoc)
qed simp

lemma SpaceUsed_counts:
  assumes "rp_holds T st h as cs" and "rp_rep st \<noteq> None" and "\<forall>v. 0 \<le> space v"
    and "rp_total_size st * 8 + sum_list (map space (vals h (as @ cs))) + 8 < 2 ^ 31"
  shows "RP_SpaceUsedExcludingSelf space (st, h) = Inr (rp_total_size st * 8 + sum_list (map space (vals h (as @ cs))) + 8)"
proof -
  note d = holdsD[OF assms(1)]
  obtain r where r: "rp_rep st = Some r" "pr_allocated_size r = int (length (as @ cs))" "0 \<le> rp_total_size st"
    using d(1) assms(2) by (auto simp: rp_view_def split: option.splits)
  have s: "0 \<le> sum_list (map space (vals h (as @ cs)))" using assms(3) by (intro sum_list_nonneg) auto
  let ?f = "\<lambda>p n. bnd (hp_read p h) (\<lambda>x. if int32 (n + space (ob_value x)) then Inr (n + space (ob_value x)) else Inl IntOverflow)"
  have w: "wrap32 (rp_total_size st * 8) = rp_total_size st * 8" using r(3) s assms(4) by (simp add: wrap32_id int32_def)
  have "for_each (\<lambda>i n. bnd (rp_slot i st) (\<lambda>p. ?f p n)) [0..int (length (as @ cs)) - 1] (rp_total_size st * 8) =
      for_each (\<lambda>p. ?f (Some p)) (as @ cs) (rp_total_size st * 8)"
    by (rule slots_loop[OF d(1), of "as @ cs" "[]"]) simp
  also have "\<dots> = Inr (rp_total_size st * 8 + sum_list (map space (vals h (as @ cs))))"
    by (rule space_loop) (use d(2,3) r(3) assms(3,4) in auto)
  finally have run: "for_each (\<lambda>i n. bnd (rp_slot i st) (\<lambda>p. ?f p n)) [0..int (length (as @ cs)) - 1] (rp_total_size st * 8) =
      Inr (rp_total_size st * 8 + sum_list (map space (vals h (as @ cs))))" .
  have w2: "wrap32 (rp_total_size st * 8 + sum_list (map space (vals h (as @ cs))) + 8) =
      rp_total_size st * 8 + sum_list (map space (vals h (as @ cs))) + 8"
    using r(3) s assms(4) by (simp add: wrap32_id int32_def)
  show ?thesis unfolding RP_SpaceUsedExcludingSelf_def prod.case r(1) option.case Let_def w r(2) run bnd_Inr w2 ..
qed

end
