(* ===== verification/PbMapSync.thy ===== *)
theory PbMapSync
  imports PbMapField PbMapKey PbRepeatedPtr
begin

text \<open>
  \<open>MapField\<close> of \<open>include/google/protobuf/map_field.h\<close> and \<open>map_field_inl.h\<close>, the map field of messages with
  reflection. It keeps its pairs twice, as a \<open>Map\<close> for the generated code and as a repeated field of
  entries for reflection, with a state that says which of the two is newer. Shown: whichever side the
  last change was made on, both stand for the same finite map once they have been synchronised, and
  every operation sees and changes that map.
\<close>

section \<open>The class\<close>

datatype State = STATE_MODIFIED_MAP | STATE_MODIFIED_REPEATED | CLEAN

text \<open>\<open>MapFieldBase\<close> and \<open>MapFieldLite\<close> in one object. The repeated field behind \<open>repeated_field_\<close> belongs to
  the map field or to its arena and is kept by value.\<close>

record ('k, 'e) MapField =
  mf_arena :: "nat option"
  mf_repeated :: "RepeatedPtrField option"
  mf_state :: State
  mf_lite :: "'k MapFieldLite"
  mf_default_entry :: "'e option"

type_synonym ('k, 'v, 'e) sync_state = "('k, 'e) MapField \<times> ('k, 'v) MapPair heap \<times> 'e obj heap"

text \<open>The template's arguments: the handlers of the stored key and value, the traits of the map, the type
  handler of the repeated field, the conversions between the type of the map's values and that of the
  entry's (they differ for enums); what the factory of messages has for this field; and the functions
  of \<open>map_field.cc\<close>, which are given the virtual function they call.\<close>

record ('k, 'v, 'ks, 'vs, 'w, 'z, 'o) map_class =
  mc_key :: "('k, 'ks, 'z, 'o) type_handler"
  mc_value :: "('w, 'vs, 'z, 'o) type_handler"
  mc_default_enum :: int
  mc_traits :: "('k, 'v) map_traits"
  mc_element :: "('ks, 'vs) MapEntryLite ptr_type"
  mc_lib :: rp_lib
  mc_cast :: "'w \<Rightarrow> 'v"
  mc_uncast :: "'v \<Rightarrow> 'w"
  mc_key_type :: CppType
  mc_unwrap :: "key_value \<Rightarrow> 'k"
  mc_has_descriptor :: bool
  mc_prototype :: "('ks, 'vs) MapEntryLite option"
  mc_SyncMap :: "(('k, 'v, ('ks, 'vs) MapEntryLite) sync_state \<Rightarrow> ('k, 'v, ('ks, 'vs) MapEntryLite) sync_state run) \<Rightarrow>
    ('k, 'v, ('ks, 'vs) MapEntryLite) sync_state \<Rightarrow> ('k, 'v, ('ks, 'vs) MapEntryLite) sync_state run"
  mc_SyncRepeated :: "(('k, 'v, ('ks, 'vs) MapEntryLite) sync_state \<Rightarrow> ('k, 'v, ('ks, 'vs) MapEntryLite) sync_state run) \<Rightarrow>
    ('k, 'v, ('ks, 'vs) MapEntryLite) sync_state \<Rightarrow> ('k, 'v, ('ks, 'vs) MapEntryLite) sync_state run"
  mc_SetMapDirty :: "('k, ('ks, 'vs) MapEntryLite) MapField \<Rightarrow> ('k, ('ks, 'vs) MapEntryLite) MapField"
  mc_SetRepeatedDirty :: "('k, ('ks, 'vs) MapEntryLite) MapField \<Rightarrow> ('k, ('ks, 'vs) MapEntryLite) MapField"

definition MapField_new :: "int \<Rightarrow> nat option \<Rightarrow> 'e option \<Rightarrow> ('k, 'e) MapField" where
  "MapField_new default_enum_value arena default_entry = \<lparr>mf_arena = arena, mf_repeated = None,
     mf_state = STATE_MODIFIED_MAP, mf_lite = MapFieldLite_new default_enum_value arena, mf_default_entry = default_entry\<rparr>"

definition set_map :: "'k Map \<Rightarrow> ('k, 'e) MapField \<Rightarrow> ('k, 'e) MapField" where
  "set_map m f = f\<lparr>mf_lite := (mf_lite f)\<lparr>mfl_map := m\<rparr>\<rparr>"

definition the_map :: "('k, 'e) MapField \<Rightarrow> 'k Map" where
  "the_map f = mfl_map (mf_lite f)"

section \<open>From the map to the entries\<close>

definition InitDefaultEntryOnce ::
    "('k, 'v, 'ks, 'vs, 'w, 'z, 'o) map_class \<Rightarrow> ('k, ('ks, 'vs) MapEntryLite) MapField \<Rightarrow>
     ('k, ('ks, 'vs) MapEntryLite) MapField run" where
  "InitDefaultEntryOnce C f =
    (if mf_default_entry f = None then check (mc_has_descriptor C) (Inr (f\<lparr>mf_default_entry := mc_prototype C\<rparr>)) else Inr f)"

text \<open>\<open>MapEntry::New\<close> of \<open>map_entry.h\<close>, and the two assignments through the accessors of the new entry.\<close>

definition MapEntry_New ::
    "('k, 'v, 'ks, 'vs, 'w, 'z, 'o) map_class \<Rightarrow> ('ks, 'vs) MapEntryLite \<Rightarrow> nat option \<Rightarrow> ('ks, 'vs) MapEntryLite obj heap \<Rightarrow>
     nat \<times> ('ks, 'vs) MapEntryLite obj heap" where
  "MapEntry_New C default_entry arena g =
    (case hp_new \<lparr>ob_arena = arena, ob_value = entry_New (mc_key C) (mc_value C) (mc_default_enum C) arena default_entry\<rparr> g of
       (p, g) \<Rightarrow> (p, own_on arena p g))"

definition assign_key ::
    "('k, 'v, 'ks, 'vs, 'w, 'z, 'o) map_class \<Rightarrow> 'k \<Rightarrow> nat \<Rightarrow> ('ks, 'vs) MapEntryLite obj heap \<Rightarrow> ('ks, 'vs) MapEntryLite obj heap run" where
  "assign_key C k p g = bnd (hp_read (Some p) g) (\<lambda>x. hp_write (Some p)
     (x\<lparr>ob_value := (mutable_key (mc_key C) (ob_value x))\<lparr>me_key := th_assign (mc_key C) k\<rparr>\<rparr>) g)"

definition assign_value ::
    "('k, 'v, 'ks, 'vs, 'w, 'z, 'o) map_class \<Rightarrow> 'v \<Rightarrow> nat \<Rightarrow> ('ks, 'vs) MapEntryLite obj heap \<Rightarrow> ('ks, 'vs) MapEntryLite obj heap run" where
  "assign_value C v p g = bnd (hp_read (Some p) g) (\<lambda>x. hp_write (Some p)
     (x\<lparr>ob_value := (mutable_value (mc_value C) (ob_value x))\<lparr>me_value := th_assign (mc_value C) (mc_uncast C v)\<rparr>\<rparr>) g)"

definition the_repeated :: "('k, 'e) MapField \<Rightarrow> RepeatedPtrField run" where
  "the_repeated f = (case mf_repeated f of None \<Rightarrow> Inl NullDeref | Some r \<Rightarrow> Inr r)"

text \<open>One round of the loop over the map: an entry for the pair behind a node.\<close>

definition sync_pair ::
    "('k, 'v, 'ks, 'vs, 'w, 'z, 'o) map_class \<Rightarrow> 'k \<times> nat option \<Rightarrow> ('k, 'v, ('ks, 'vs) MapEntryLite) sync_state \<Rightarrow>
     ('k, 'v, ('ks, 'vs) MapEntryLite) sync_state run" where
  "sync_pair C node = (\<lambda>(f, h, g).
     bnd (InitDefaultEntryOnce C f) (\<lambda>f.
     case mf_default_entry f of None \<Rightarrow> Inl CheckFailed
     | Some default_entry \<Rightarrow>
       (case MapEntry_New C default_entry (mf_arena f) g of (new_entry, g) \<Rightarrow>
         bnd (the_repeated f) (\<lambda>r.
         bnd (RP_AddAllocated (mc_element C) (mc_lib C) (Some new_entry) (r, g)) (\<lambda>(r, g).
         bnd (hp_read (snd node) h) (\<lambda>pair. bnd (assign_key C (mp_first pair) new_entry g) (\<lambda>g.
         bnd (read_second (snd node) h) (\<lambda>v. bnd (assign_value C v new_entry g) (\<lambda>g.
           Inr (f\<lparr>mf_repeated := Some r\<rparr>, h, g)))))))))) "

definition SyncRepeatedFieldWithMapNoLock ::
    "('k, 'v, 'ks, 'vs, 'w, 'z, 'o) map_class \<Rightarrow> ('k, 'v, ('ks, 'vs) MapEntryLite) sync_state \<Rightarrow>
     ('k, 'v, ('ks, 'vs) MapEntryLite) sync_state run" where
  "SyncRepeatedFieldWithMapNoLock C = (\<lambda>(f, h, g).
     let f = (if mf_repeated f = None then f\<lparr>mf_repeated := Some (RP_new (mf_arena f))\<rparr> else f) in
     bnd (the_repeated f) (\<lambda>r. bnd (RP_Clear (mc_element C) (r, g)) (\<lambda>(r, g).
       for_each (sync_pair C) (map_elements (the_map f)) (f\<lparr>mf_repeated := Some r\<rparr>, h, g))))"

section \<open>From the entries to the map\<close>

text \<open>\<open>(*map)[it->key()] = static_cast<CastValueType>(it->value())\<close>\<close>

definition sync_entry ::
    "('k, 'v, 'ks, 'vs, 'w, 'z, 'o) map_class \<Rightarrow> ('ks, 'vs) MapEntryLite obj heap \<Rightarrow> nat option \<Rightarrow> ('k, 'v) map_state \<Rightarrow>
     ('k, 'v) map_state run" where
  "sync_entry C g p st = bnd (hp_read p g) (\<lambda>x. bnd (entry_key (mc_key C) (ob_value x)) (\<lambda>k.
     bnd (entry_value (mc_value C) (ob_value x)) (\<lambda>w. Map_put (mc_traits C) k (Some (mc_cast C w)) st)))"

definition SyncMapWithRepeatedFieldNoLock ::
    "('k, 'v, 'ks, 'vs, 'w, 'z, 'o) map_class \<Rightarrow> ('k, 'v, ('ks, 'vs) MapEntryLite) sync_state \<Rightarrow>
     ('k, 'v, ('ks, 'vs) MapEntryLite) sync_state run" where
  "SyncMapWithRepeatedFieldNoLock C = (\<lambda>(f, h, g).
     case mf_repeated f of None \<Rightarrow> Inl CheckFailed
     | Some r \<Rightarrow> bnd (Map_clear (the_map f, h)) (\<lambda>(m, h).
         bnd (for_each (\<lambda>i st. bnd (rp_slot i r) (\<lambda>p. sync_entry C g p st)) [0..rp_current_size r - 1] (m, h)) (\<lambda>(m, h).
           Inr (set_map m f, h, g))))"

section \<open>Operations\<close>

text \<open>The functions of the base class, with this class's virtual functions.\<close>

definition SyncMapWithRepeatedField ::
    "('k, 'v, 'ks, 'vs, 'w, 'z, 'o) map_class \<Rightarrow> ('k, 'v, ('ks, 'vs) MapEntryLite) sync_state \<Rightarrow>
     ('k, 'v, ('ks, 'vs) MapEntryLite) sync_state run" where
  "SyncMapWithRepeatedField C = mc_SyncMap C (SyncMapWithRepeatedFieldNoLock C)"

definition SyncRepeatedFieldWithMap ::
    "('k, 'v, 'ks, 'vs, 'w, 'z, 'o) map_class \<Rightarrow> ('k, 'v, ('ks, 'vs) MapEntryLite) sync_state \<Rightarrow>
     ('k, 'v, ('ks, 'vs) MapEntryLite) sync_state run" where
  "SyncRepeatedFieldWithMap C = mc_SyncRepeated C (SyncRepeatedFieldWithMapNoLock C)"

definition MapField_GetMap ::
    "('k, 'v, 'ks, 'vs, 'w, 'z, 'o) map_class \<Rightarrow> ('k, 'v, ('ks, 'vs) MapEntryLite) sync_state \<Rightarrow>
     ('k Map \<times> ('k, 'v, ('ks, 'vs) MapEntryLite) sync_state) run" where
  "MapField_GetMap C st = bnd (SyncMapWithRepeatedField C st) (\<lambda>(f, h, g). Inr (the_map f, f, h, g))"

text \<open>The caller of \<open>MutableMap\<close> changes the map by \<open>op\<close> through the pointer it gets.\<close>

definition MapField_MutableMap ::
    "('k, 'v, 'ks, 'vs, 'w, 'z, 'o) map_class \<Rightarrow> (('k, 'v) map_state \<Rightarrow> ('a \<times> ('k, 'v) map_state) run) \<Rightarrow>
     ('k, 'v, ('ks, 'vs) MapEntryLite) sync_state \<Rightarrow> ('a \<times> ('k, 'v, ('ks, 'vs) MapEntryLite) sync_state) run" where
  "MapField_MutableMap C op st = bnd (SyncMapWithRepeatedField C st) (\<lambda>(f, h, g).
     let f = mc_SetMapDirty C f in
     bnd (op (the_map f, h)) (\<lambda>(x, m, h). Inr (x, set_map m f, h, g)))"

definition MapField_size ::
    "('k, 'v, 'ks, 'vs, 'w, 'z, 'o) map_class \<Rightarrow> ('k, 'v, ('ks, 'vs) MapEntryLite) sync_state \<Rightarrow>
     (int \<times> ('k, 'v, ('ks, 'vs) MapEntryLite) sync_state) run" where
  "MapField_size C st = bnd (SyncMapWithRepeatedField C st) (\<lambda>(f, h, g). Inr (wrap32 (int (Map_size (the_map f))), f, h, g))"

definition MapField_Clear ::
    "('k, 'v, 'ks, 'vs, 'w, 'z, 'o) map_class \<Rightarrow> ('k, 'v, ('ks, 'vs) MapEntryLite) sync_state \<Rightarrow>
     ('k, 'v, ('ks, 'vs) MapEntryLite) sync_state run" where
  "MapField_Clear C st = bnd (SyncMapWithRepeatedField C st) (\<lambda>(f, h, g).
     bnd (Map_clear (the_map f, h)) (\<lambda>(m, h). Inr (mc_SetMapDirty C (set_map m f), h, g)))"

definition UnwrapKey :: "('k, 'v, 'ks, 'vs, 'w, 'z, 'o) map_class \<Rightarrow> key_state \<Rightarrow> 'k run" where
  "UnwrapKey C map_key = bnd (UnwrapMapKey (mc_key_type C) map_key) (\<lambda>k. Inr (mc_unwrap C k))"

definition MapField_ContainsMapKey ::
    "('k, 'v, 'ks, 'vs, 'w, 'z, 'o) map_class \<Rightarrow> key_state \<Rightarrow> ('k, 'v, ('ks, 'vs) MapEntryLite) sync_state \<Rightarrow>
     (bool \<times> ('k, 'v, ('ks, 'vs) MapEntryLite) sync_state) run" where
  "MapField_ContainsMapKey C map_key st = bnd (MapField_GetMap C st) (\<lambda>(map, st).
     bnd (UnwrapKey C map_key) (\<lambda>key. Inr (Map_find key map \<noteq> Map_end map, st)))"

text \<open>It returns the pointer to the pair too, which \<open>val->SetValue\<close> stores.\<close>

definition MapField_InsertMapValue ::
    "('k, 'v, 'ks, 'vs, 'w, 'z, 'o) map_class \<Rightarrow> key_state \<Rightarrow> ('k, 'v, ('ks, 'vs) MapEntryLite) sync_state \<Rightarrow>
     ((bool \<times> nat option) \<times> ('k, 'v, ('ks, 'vs) MapEntryLite) sync_state) run" where
  "MapField_InsertMapValue C map_key st = MapField_MutableMap C (\<lambda>(map, h).
     bnd (UnwrapKey C map_key) (\<lambda>key. let result = (Map_end map = Map_find key map) in
       bnd (Map_subscript (mc_traits C) key (map, h)) (\<lambda>(p, st). Inr ((result, p), st)))) st"

definition MapField_DeleteMapValue ::
    "('k, 'v, 'ks, 'vs, 'w, 'z, 'o) map_class \<Rightarrow> key_state \<Rightarrow> ('k, 'v, ('ks, 'vs) MapEntryLite) sync_state \<Rightarrow>
     (bool \<times> ('k, 'v, ('ks, 'vs) MapEntryLite) sync_state) run" where
  "MapField_DeleteMapValue C map_key st = bnd (UnwrapKey C map_key) (\<lambda>key.
     bnd (MapField_MutableMap C (Map_erase_key key) st) (\<lambda>(n, st). Inr (n \<noteq> 0, st)))"

text \<open>\<open>MergeFrom\<close> synchronises the other field as well, although it is \<open>const\<close>.\<close>

definition MapField_MergeFrom ::
    "('k, 'v, 'ks, 'vs, 'w, 'z, 'o) map_class \<Rightarrow> ('k, ('ks, 'vs) MapEntryLite) MapField \<Rightarrow>
     ('k, 'v, ('ks, 'vs) MapEntryLite) sync_state \<Rightarrow>
     (('k, ('ks, 'vs) MapEntryLite) MapField \<times> ('k, 'v, ('ks, 'vs) MapEntryLite) sync_state) run" where
  "MapField_MergeFrom C other st = bnd (SyncMapWithRepeatedField C st) (\<lambda>(f, h, g).
     bnd (SyncMapWithRepeatedField C (other, h, g)) (\<lambda>(other, h, g).
     bnd (MapFieldLite_MergeFrom (mc_traits C) (mf_lite other) (mf_lite f, h)) (\<lambda>(lite, h).
       Inr (other, mc_SetMapDirty C (f\<lparr>mf_lite := lite\<rparr>), h, g))))"

definition MapField_Swap :: "('k, 'e) MapField \<Rightarrow> ('k, 'e) MapField \<Rightarrow> ('k, 'e) MapField \<times> ('k, 'e) MapField" where
  "MapField_Swap f other =
    (case MapFieldLite_Swap (mf_lite f) (mf_lite other) of (lite, other_lite) \<Rightarrow>
      (f\<lparr>mf_repeated := mf_repeated other, mf_lite := lite, mf_state := mf_state other\<rparr>,
       other\<lparr>mf_repeated := mf_repeated f, mf_lite := other_lite, mf_state := mf_state f\<rparr>))"

section \<open>What the loops rely on\<close>

text \<open>A slot gives back what was assigned to it.\<close>

locale loads_back =
  fixes H :: "('v, 's, 'z, 'o) type_handler"
  assumes load_assigned: "th_GetExternalReference H (th_assign H v) = Inr v"
    and default_assigned: "th_DefaultIfNotInitialized H (th_assign H v) d = Inr v"
begin

lemma key_read: "entry_key H (e\<lparr>me_key := th_assign H k\<rparr>) = Inr k"
  by (simp add: entry_key_def load_assigned)

lemma value_read: "me_default_instance e \<noteq> None \<Longrightarrow> entry_value H (e\<lparr>me_value := th_assign H v\<rparr>) = Inr v"
  by (simp add: entry_value_def check_def default_assigned)

end

interpretation prim_slot: loads_back "prim_handler little F W L cast ft" for little F W L cast ft
  by unfold_locales (simp_all add: prim_handler_def)

interpretation string_slot: loads_back "string_or_bytes_handler is_string W L" for is_string W L
  by unfold_locales (simp_all add: string_or_bytes_handler_def)

interpretation message_slot: loads_back "message_handler F W M" for F W and M :: "('m, 'z, 'o) message_type"
  by unfold_locales (simp_all add: message_handler_def deref_message_def)

text \<open>The classes the map field is made of keep their contracts.\<close>

definition class_ok :: "('k, 'v, 'ks, 'vs, 'w, 'z, 'o) map_class \<Rightarrow> bool" where
  "class_ok C \<longleftrightarrow> loads_back (mc_key C) \<and> loads_back (mc_value C) \<and> place_ok (mc_traits C) \<and> rp_lib_ok (mc_lib C) \<and>
     pt_merges (mc_element C) \<and> pt_on_arena (mc_element C) \<and> (\<forall>v. mc_cast C (mc_uncast C v) = v) \<and>
     mc_has_descriptor C \<and> (\<exists>e. mc_prototype C = Some e \<and> me_default_instance e \<noteq> None)"

text \<open>What \<open>map_field.h\<close> says of the functions of \<open>map_field.cc\<close>: a side is rewritten, by the virtual function,
  only when the other one has changed since, and both are the same then; the setters say which side has
  changed.\<close>

definition sync_ok :: "('k, 'v, 'ks, 'vs, 'w, 'z, 'o) map_class \<Rightarrow> bool" where
  "sync_ok C \<longleftrightarrow>
     (\<forall>F st. mc_SyncMap C F st = (if mf_state (fst st) = STATE_MODIFIED_REPEATED
        then bnd (F st) (\<lambda>(f, h, g). Inr (f\<lparr>mf_state := CLEAN\<rparr>, h, g)) else Inr st)) \<and>
     (\<forall>F st. mc_SyncRepeated C F st = (if mf_state (fst st) = STATE_MODIFIED_MAP
        then bnd (F st) (\<lambda>(f, h, g). Inr (f\<lparr>mf_state := CLEAN\<rparr>, h, g)) else Inr st)) \<and>
     (\<forall>f. mc_SetMapDirty C f = f\<lparr>mf_state := STATE_MODIFIED_MAP\<rparr>) \<and>
     (\<forall>f. mc_SetRepeatedDirty C f = f\<lparr>mf_state := STATE_MODIFIED_REPEATED\<rparr>)"

lemma class_okD:
  assumes "class_ok C"
  shows "loads_back (mc_key C)" and "loads_back (mc_value C)" and "place_ok (mc_traits C)" and "rp_lib_ok (mc_lib C)"
    and "pt_merges (mc_element C)" and "pt_on_arena (mc_element C)" and "mc_cast C (mc_uncast C v) = v"
    and "mc_has_descriptor C" and "\<exists>e. mc_prototype C = Some e \<and> me_default_instance e \<noteq> None"
  using assms by (simp_all add: class_ok_def)

section \<open>The map a field stands for\<close>

text \<open>The pair an entry holds, and the map a list of entries stands for: the last one counts.\<close>

definition entry_item :: "('k, 'v, 'ks, 'vs, 'w, 'z, 'o) map_class \<Rightarrow> ('ks, 'vs) MapEntryLite \<Rightarrow> ('k \<times> 'v) run" where
  "entry_item C e = bnd (entry_key (mc_key C) e) (\<lambda>k. bnd (entry_value (mc_value C) e) (\<lambda>w. Inr (k, mc_cast C w)))"

definition items_map :: "('k \<times> 'v) list \<Rightarrow> 'k \<Rightarrow> 'v option option" where
  "items_map kvs = map_of (rev (map (\<lambda>(k, v). (k, Some v)) kvs))"

definition rp_items ::
    "('k, 'v, 'ks, 'vs, 'w, 'z, 'o) map_class \<Rightarrow> RepeatedPtrField \<Rightarrow> ('ks, 'vs) MapEntryLite obj heap \<Rightarrow> ('k \<times> 'v) list \<Rightarrow> bool" where
  "rp_items C r g kvs \<longleftrightarrow> (\<exists>as cs. rp_holds (mc_element C) r g as cs \<and> map (entry_item C) (vals g as) = map Inr kvs)"

definition rp_objects :: "RepeatedPtrField option \<Rightarrow> int" where
  "rp_objects r = (case Option.bind r rp_rep of None \<Rightarrow> 0 | Some x \<Rightarrow> pr_allocated_size x)"

lemma rp_objects_holds: "rp_holds T r g as cs \<Longrightarrow> rp_objects (Some r) = int (length as + length cs)"
  by (auto simp: rp_holds_def rp_view_def rp_objects_def split: option.splits)

text \<open>The field stands for the map \<open>F\<close>. The side that is newer has it; when neither is, both have.\<close>

definition mf_holds ::
    "('k, 'v, 'ks, 'vs, 'w, 'z, 'o) map_class \<Rightarrow> ('k, 'v, ('ks, 'vs) MapEntryLite) sync_state \<Rightarrow> ('k \<Rightarrow> 'v option option) \<Rightarrow> bool" where
  "mf_holds C = (\<lambda>(f, h, g) F. wf_map (the_map f, h) \<and> wf_heap g \<and>
     (\<forall>e. mf_default_entry f = Some e \<longrightarrow> me_default_instance e \<noteq> None) \<and>
     (case mf_repeated f of None \<Rightarrow> mf_state f = STATE_MODIFIED_MAP
      | Some r \<Rightarrow> rp_arena r = mf_arena f \<and> (\<exists>as cs. rp_holds (mc_element C) r g as cs) \<and>
          (mf_state f \<noteq> STATE_MODIFIED_MAP \<longrightarrow> (\<exists>kvs. rp_items C r g kvs \<and> items_map kvs = F))) \<and>
     (mf_state f \<noteq> STATE_MODIFIED_REPEATED \<longrightarrow> map_abs (the_map f, h) = F))"

lemma the_map_set [simp]: "the_map (set_map m f) = m" "mf_repeated (set_map m f) = mf_repeated f"
  "mf_state (set_map m f) = mf_state f" "mf_arena (set_map m f) = mf_arena f" "mf_default_entry (set_map m f) = mf_default_entry f"
  "the_map (f\<lparr>mf_repeated := r\<rparr>) = the_map f" "the_map (f\<lparr>mf_state := s\<rparr>) = the_map f"
  "the_map (f\<lparr>mf_default_entry := d\<rparr>) = the_map f"
  by (simp_all add: set_map_def the_map_def)

section \<open>Synchronising the map\<close>

lemma sync_entries:
  assumes "set ps \<subseteq> live g" and "map (entry_item C) (vals g ps) = map Inr kvs"
  shows "for_each (\<lambda>p. sync_entry C g (Some p)) ps st =
    for_each (\<lambda>(k, v). Map_put (mc_traits C) k v) (map (\<lambda>(k, v). (k, Some v)) kvs) st"
  using assms
proof (induction ps arbitrary: kvs st)
  case (Cons p ps)
  obtain x where x: "hp_cells g p = Some x" using Cons.prems(1) by (auto simp: in_live)
  then obtain k v kvs' where kv: "kvs = (k, v) # kvs'" "entry_item C (ob_value x) = Inr (k, v)"
      "map (entry_item C) (vals g ps) = map Inr kvs'"
    using Cons.prems(2) by (cases kvs) auto
  have "sync_entry C g (Some p) s = Map_put (mc_traits C) k (Some v) s" for s
    using kv(2) x by (auto simp: entry_item_def sync_entry_def bnd_eq_Inr)
  moreover have "for_each (\<lambda>p. sync_entry C g (Some p)) ps =
      for_each (\<lambda>(k, v). Map_put (mc_traits C) k v) (map (\<lambda>(k, v). (k, Some v)) kvs')"
    by (rule ext) (use Cons.IH[OF _ kv(3)] Cons.prems(1) in simp)
  ultimately show ?case using kv(1) by simp
qed simp

lemma SyncMap_step:
  assumes "class_ok C" and "sync_ok C" and "mf_holds C (f, h, g) F"
  shows "\<exists>f' h'. SyncMapWithRepeatedField C (f, h, g) = Inr (f', h', g) \<and> mf_holds C (f', h', g) F \<and>
    mf_state f' \<noteq> STATE_MODIFIED_REPEATED \<and> map_step (the_map f, h) (the_map f', h') F \<and> mf_arena f' = mf_arena f \<and>
    mf_repeated f' = mf_repeated f"
proof (cases "mf_state f = STATE_MODIFIED_REPEATED")
  case False
  then have run: "SyncMapWithRepeatedField C (f, h, g) = Inr (f, h, g)"
    using assms(2) by (simp add: SyncMapWithRepeatedField_def sync_ok_def)
  have "wf_map (the_map f, h)" "map_abs (the_map f, h) = F" using assms(3) False by (simp_all add: mf_holds_def)
  then show ?thesis using run False assms(3) map_step_refl[of "(the_map f, h)"] by auto
next
  case True
  then obtain r kvs where r: "mf_repeated f = Some r" "rp_arena r = mf_arena f" "rp_items C r g kvs" "items_map kvs = F"
    using assms(3) by (auto simp: mf_holds_def split: option.splits)
  then obtain as cs where a: "rp_holds (mc_element C) r g as cs" "map (entry_item C) (vals g as) = map Inr kvs"
    by (auto simp: rp_items_def)
  note d = holdsD[OF a(1)]
  have wf: "wf_map (the_map f, h)" using assms(3) by (simp add: mf_holds_def)
  let ?m = "(the_map f)\<lparr>map_elements := []\<rparr>"
  obtain h1 where c: "Map_clear (the_map f, h) = Inr (?m, h1)" "map_step (the_map f, h) (?m, h1) Map.empty"
    using Map_clear_step[OF wf] by blast
  have wf1: "wf_map (?m, h1)" and e1: "map_abs (?m, h1) = Map.empty" using c(2) by (simp_all add: map_step_def)
  obtain m' h' where p: "for_each (\<lambda>(k, v). Map_put (mc_traits C) k v) (map (\<lambda>(k, v). (k, Some v)) kvs) (?m, h1) = Inr (m', h')"
      "map_step (?m, h1) (m', h') (map_abs (?m, h1) ++ items_map kvs)"
    using Map_put_all[OF class_okD(3)[OF assms(1)] wf1, of "map (\<lambda>(k, v). (k, Some v)) kvs"]
    by (force simp: items_map_def)
  have st: "map_step (the_map f, h) (m', h') F" using map_step_trans[OF c(2) p(2)] e1 r(4) by simp
  have "for_each (\<lambda>i st. bnd (rp_slot i r) (\<lambda>p. sync_entry C g p st)) [0..rp_current_size r - 1] (?m, h1) = Inr (m', h')"
    using slots_loop[OF d(1) refl, of "sync_entry C g" "(?m, h1)"] sync_entries[OF d(2) a(2), of "(?m, h1)"] p(1) d(6) by simp
  then have "SyncMapWithRepeatedField C (f, h, g) = Inr ((set_map m' f)\<lparr>mf_state := CLEAN\<rparr>, h', g)"
    using True r(1) c(1) assms(2) by (simp add: SyncMapWithRepeatedField_def sync_ok_def SyncMapWithRepeatedFieldNoLock_def)
  moreover have "mf_holds C ((set_map m' f)\<lparr>mf_state := CLEAN\<rparr>, h', g) F"
    using assms(3) r a(1) st by (auto simp: mf_holds_def map_step_def)
  ultimately show ?thesis using st by auto
qed

section \<open>Synchronising the entries\<close>

text \<open>A write through the pointer of the last element.\<close>

lemma holds_write_last:
  assumes "rp_holds T r g (as @ [p]) cs" and "hp_cells g p = Some y"
  shows "\<exists>g'. hp_write (Some p) x g = Inr g' \<and> rp_holds T r g' (as @ [p]) cs \<and> hp_cells g' p = Some x \<and>
    vals g' as = vals g as"
proof -
  have view: "rp_view r (as @ [p]) cs" and objs: "objs_ok T (rp_arena r) g (as @ [p]) cs"
    using assms(1) by (simp_all add: rp_holds_def)
  note o = objs_okD[OF objs]
  have "p \<in> live g" using o(5) by simp
  then obtain g' where g': "hp_write (Some p) x g = Inr g'" "hp_cells g' = (hp_cells g)(p := Some x)" "live g' = live g"
      "hp_owned g' = hp_owned g" "wf_heap g' = wf_heap g"
    using hp_write_live[of p g x] by auto
  have "cleared T g' q" if "q \<in> set cs" for q
  proof -
    have "q \<noteq> p" using that o(4) by auto
    then show ?thesis using o(8)[OF that] g'(2) by (simp add: cleared_def)
  qed
  then have "objs_ok T (rp_arena r) g' (as @ [p]) cs"
    using objs g'(3-5) held_cong[OF g'(4)] unfolding objs_ok_def by auto
  moreover have "vals g' as = vals g as" by (rule vals_cong) (use g'(2) o(2) in auto)
  ultimately show ?thesis using g'(1,2) view by (auto simp: rp_holds_def)
qed

text \<open>One entry: it is made, added, and filled through the pointer.\<close>

lemma sync_pair_step:
  assumes "class_ok C" and "mf_repeated f = Some r" and "rp_arena r = mf_arena f" and "rp_holds (mc_element C) r g as cs"
    and "length as + length cs < 2 ^ 30" and "map (entry_item C) (vals g as) = map Inr kvs"
    and "\<forall>e. mf_default_entry f = Some e \<longrightarrow> me_default_instance e \<noteq> None"
    and "hp_read q h = Inr \<lparr>mp_first = k, mp_second = Some v\<rparr>"
  shows "\<exists>f' r' g' p cs'. sync_pair C (k, q) (f, h, g) = Inr (f', h, g') \<and> mf_repeated f' = Some r' \<and> rp_arena r' = mf_arena f' \<and>
    rp_holds (mc_element C) r' g' (as @ [p]) cs' \<and> length cs' \<le> length cs \<and>
    map (entry_item C) (vals g' (as @ [p])) = map Inr (kvs @ [(k, v)]) \<and>
    (\<forall>e. mf_default_entry f' = Some e \<longrightarrow> me_default_instance e \<noteq> None) \<and>
    mf_state f' = mf_state f \<and> mf_lite f' = mf_lite f \<and> mf_arena f' = mf_arena f"
proof -
  note c = class_okD[OF assms(1)]
  let ?T = "mc_element C"
  obtain d f1 where d: "InitDefaultEntryOnce C f = Inr f1" "mf_default_entry f1 = Some d" "me_default_instance d \<noteq> None"
      "mf_repeated f1 = mf_repeated f" "mf_state f1 = mf_state f" "mf_lite f1 = mf_lite f" "mf_arena f1 = mf_arena f"
    using c(8,9) assms(7) by (cases "mf_default_entry f") (auto simp: InitDefaultEntryOnce_def check_def)
  let ?x = "\<lparr>ob_arena = mf_arena f, ob_value = entry_New (mc_key C) (mc_value C) (mc_default_enum C) (mf_arena f) d\<rparr>"
  obtain p g0 where n0: "hp_new ?x g = (p, g0)" by (cases "hp_new ?x g")
  let ?g1 = "own_on (mf_arena f) p g0"
  have new: "MapEntry_New C d (mf_arena f1) g = (p, ?g1)" using n0 d(7) by (simp add: MapEntry_New_def)
  have wf: "wf_heap g" using holdsD(4)[OF assms(4)] .
  note n = new_on_fresh(1)[OF wf n0] new_on_fresh(3-5)[OF wf n0, of "mf_arena f"]
  have dis: "(set as \<union> set cs) \<inter> {} = {}" by simp
  note fr = holds_frame[OF assms(4) keeps_rest_new[OF wf n0, of "{}" "mf_arena f"] dis n(3)]
  have x1: "hp_cells ?g1 p = Some ?x" "held (rp_arena r) ?g1 p" "ob_arena ?x = rp_arena r" "pt_on_arena ?T \<or> ob_arena ?x = None"
    using n(2,4) assms(3) c(6) by simp_all
  have pn: "p \<notin> set as \<union> set cs" using n(1) holdsD(2,3)[OF assms(4)] by blast
  from AddAllocated_same[OF c(4) fr(1) assms(5) c(5) x1(1,2) pn x1(3,4)]
  obtain r2 g2 cs2 where a: "RP_AddAllocated ?T (mc_lib C) (Some p) (r, ?g1) = Inr (r2, g2)" "rp_holds ?T r2 g2 (as @ [p]) cs2"
      "vals g2 (as @ [p]) = vals ?g1 as @ [ob_value ?x]" "rp_arena r2 = rp_arena r" "hp_cells g2 p = Some ?x" "set cs2 \<subseteq> set cs"
    by blast
  have "distinct cs2" using a(2) by (simp add: rp_holds_def objs_ok_def)
  then have len: "length cs2 \<le> length cs"
    using a(6) by (metis card_length card_mono distinct_card finite_set order_trans)
  let ?e1 = "(mutable_key (mc_key C) (ob_value ?x))\<lparr>me_key := th_assign (mc_key C) k\<rparr>"
  obtain g3 where g3: "hp_write (Some p) (?x\<lparr>ob_value := ?e1\<rparr>) g2 = Inr g3" "rp_holds ?T r2 g3 (as @ [p]) cs2"
      "hp_cells g3 p = Some (?x\<lparr>ob_value := ?e1\<rparr>)" "vals g3 as = vals g2 as"
    using holds_write_last[OF a(2,5)] by blast
  let ?e2 = "(mutable_value (mc_value C) ?e1)\<lparr>me_value := th_assign (mc_value C) (mc_uncast C v)\<rparr>"
  obtain g4 where g4: "hp_write (Some p) (?x\<lparr>ob_value := ?e2\<rparr>) g3 = Inr g4" "rp_holds ?T r2 g4 (as @ [p]) cs2"
      "hp_cells g4 p = Some (?x\<lparr>ob_value := ?e2\<rparr>)" "vals g4 as = vals g3 as"
    using holds_write_last[OF g3(2,3)] by blast
  have keys: "assign_key C k p g2 = Inr g3" "assign_value C v p g3 = Inr g4"
    using a(5) g3(1,3) g4(1) by (simp_all add: assign_key_def assign_value_def)
  have run: "sync_pair C (k, q) (f, h, g) = Inr (f1\<lparr>mf_repeated := Some r2\<rparr>, h, g4)"
    using d(1,2,4) assms(2,8) new a(1) keys by (simp add: sync_pair_def the_repeated_def read_second_def)
  have "me_default_instance ?e2 \<noteq> None" using d(3) by (simp add: entry_New_def mutable_key_def mutable_value_def set_has_key_def
        set_has_value_def Let_def)
  then have "entry_value (mc_value C) ?e2 = Inr (mc_uncast C v)"
    using loads_back.default_assigned[OF c(2)] by (simp add: entry_value_def check_def)
  moreover have "entry_key (mc_key C) ?e2 = Inr k"
    using loads_back.load_assigned[OF c(1)] by (simp add: entry_key_def mutable_value_def set_has_value_def Let_def)
  ultimately have item: "entry_item C ?e2 = Inr (k, v)" using c(7) by (simp add: entry_item_def)
  have "vals g4 as = vals g as" using g4(4) g3(4) a(3) fr(2) by simp
  then have "map (entry_item C) (vals g4 (as @ [p])) = map Inr (kvs @ [(k, v)])" using assms(6) g4(3) item by simp
  then show ?thesis using run g4(2) len a(4) assms(3) d(2-7)
    by (intro exI[of _ "f1\<lparr>mf_repeated := Some r2\<rparr>"] exI[of _ r2] exI[of _ g4] exI[of _ p] exI[of _ cs2]) simp
qed

lemma sync_pairs_loop:
  assumes "class_ok C" and "mf_repeated f = Some r" and "rp_arena r = mf_arena f" and "rp_holds (mc_element C) r g as cs"
    and "length as + length cs + length els \<le> 2 ^ 30" and "map (entry_item C) (vals g as) = map Inr kvs"
    and "\<forall>e. mf_default_entry f = Some e \<longrightarrow> me_default_instance e \<noteq> None"
    and "list_all2 (\<lambda>e kv. fst e = fst kv \<and> hp_read (snd e) h = Inr \<lparr>mp_first = fst kv, mp_second = Some (snd kv)\<rparr>) els new"
  shows "\<exists>f' r' g' as' cs'. for_each (sync_pair C) els (f, h, g) = Inr (f', h, g') \<and> mf_repeated f' = Some r' \<and>
    rp_arena r' = mf_arena f' \<and> rp_holds (mc_element C) r' g' as' cs' \<and> map (entry_item C) (vals g' as') = map Inr (kvs @ new) \<and>
    (\<forall>e. mf_default_entry f' = Some e \<longrightarrow> me_default_instance e \<noteq> None) \<and>
    mf_state f' = mf_state f \<and> mf_lite f' = mf_lite f \<and> mf_arena f' = mf_arena f"
  using assms(2-)
proof (induction els arbitrary: f r g as cs kvs new)
  case Nil
  then show ?case by auto
next
  case (Cons e els)
  obtain k v new' where nw: "new = (k, v) # new'" "fst e = k" "hp_read (snd e) h = Inr \<lparr>mp_first = k, mp_second = Some v\<rparr>"
      "list_all2 (\<lambda>e kv. fst e = fst kv \<and> hp_read (snd e) h = Inr \<lparr>mp_first = fst kv, mp_second = Some (snd kv)\<rparr>) els new'"
    using Cons.prems(7) by (cases new) auto
  have "length as + length cs < 2 ^ 30" using Cons.prems(4) by simp
  from sync_pair_step[OF assms(1) Cons.prems(1-3) this Cons.prems(5,6) nw(3)]
  obtain f1 r1 g1 p cs1 where s: "sync_pair C (k, snd e) (f, h, g) = Inr (f1, h, g1)" "mf_repeated f1 = Some r1"
      "rp_arena r1 = mf_arena f1" "rp_holds (mc_element C) r1 g1 (as @ [p]) cs1" "length cs1 \<le> length cs"
      "map (entry_item C) (vals g1 (as @ [p])) = map Inr (kvs @ [(k, v)])"
      "\<forall>e. mf_default_entry f1 = Some e \<longrightarrow> me_default_instance e \<noteq> None"
      "mf_state f1 = mf_state f" "mf_lite f1 = mf_lite f" "mf_arena f1 = mf_arena f"
    by blast
  have "length (as @ [p]) + length cs1 + length els \<le> 2 ^ 30" using Cons.prems(4) s(5) by simp
  from Cons.IH[OF s(2-4) this s(6,7) nw(4)]
  obtain f' r' g' as' cs' where t: "for_each (sync_pair C) els (f1, h, g1) = Inr (f', h, g')" "mf_repeated f' = Some r'"
      "rp_arena r' = mf_arena f'" "rp_holds (mc_element C) r' g' as' cs'"
      "map (entry_item C) (vals g' as') = map Inr ((kvs @ [(k, v)]) @ new')"
      "\<forall>e. mf_default_entry f' = Some e \<longrightarrow> me_default_instance e \<noteq> None"
      "mf_state f' = mf_state f1" "mf_lite f' = mf_lite f1" "mf_arena f' = mf_arena f1"
    by blast
  have "sync_pair C e (f, h, g) = Inr (f1, h, g1)" using s(1) nw(2) by (metis prod.collapse)
  then show ?case using t s(8-10) nw(1)
    by (intro exI[of _ f'] exI[of _ r'] exI[of _ g'] exI[of _ as'] exI[of _ cs']) simp
qed

text \<open>The pairs behind the nodes of a map whose values are all determined.\<close>

definition node_items :: "('k, 'v) MapPair heap \<Rightarrow> ('k \<times> nat option) list \<Rightarrow> ('k \<times> 'v) list \<Rightarrow> bool" where
  "node_items h els kvs \<longleftrightarrow>
     list_all2 (\<lambda>e kv. fst e = fst kv \<and> hp_read (snd e) h = Inr \<lparr>mp_first = fst kv, mp_second = Some (snd kv)\<rparr>) els kvs"

lemma node_items_ex:
  assumes "wf_map (m, h)" and "\<not> indeterminate (map_abs (m, h))" and "set els \<subseteq> set (map_elements m)"
  shows "\<exists>kvs. node_items h els kvs"
  using assms(3)
proof (induction els)
  case Nil
  then show ?case by (auto simp: node_items_def)
next
  case (Cons e els)
  then obtain kvs where kvs: "node_items h els kvs" by auto
  have e: "(fst e, snd e) \<in> set (map_elements m)" using Cons.prems by simp
  obtain p pair where p: "snd e = Some p" "hp_cells h p = Some pair" "mp_first pair = fst e" by (rule pair_okD[OF assms(1) e])
  have "map_of (map_elements m) (fst e) = Some (snd e)" using wf_mapD(2)[OF assms(1)] e by simp
  then have "map_abs (m, h) (fst e) = Some (mp_second pair)" using p by (simp add: map_abs_def hm_lookup_def)
  then obtain v where "mp_second pair = Some v" using determinateD[OF assms(2)] by blast
  then have "pair = \<lparr>mp_first = fst e, mp_second = Some v\<rparr>" using p(3) by simp
  then have "node_items h (e # els) ((fst e, v) # kvs)" using p(1,2) kvs by (simp add: node_items_def)
  then show ?case by blast
qed

lemma node_items_lookup:
  "node_items h els kvs \<Longrightarrow> map_of (map (\<lambda>(k, v). (k, Some v)) kvs) k = Option.bind (map_of els k) (value_at h)"
  unfolding node_items_def
  by (induction rule: list_all2_induct) (auto simp: hp_read_Inr)

lemma node_items_keys: "node_items h els kvs \<Longrightarrow> map fst kvs = map fst els"
  unfolding node_items_def by (induction rule: list_all2_induct) auto

lemma items_map_distinct:
  assumes "distinct (map fst kvs)"
  shows "items_map kvs = map_of (map (\<lambda>(k, v). (k, Some v)) kvs)"
proof -
  have "map fst (map (\<lambda>(k, v). (k, Some v)) kvs) = map fst kvs" by (induction kvs) auto
  then have "distinct (map fst (map (\<lambda>(k, v). (k, Some v)) kvs))" using assms by metis
  from map_of_rev[OF this] show ?thesis by (simp add: items_map_def)
qed

lemma SyncRepeated_step:
  assumes "class_ok C" and "sync_ok C" and "mf_holds C (f, h, g) F" and "\<not> indeterminate F"
    and "rp_objects (mf_repeated f) + int (Map_size (the_map f)) \<le> 2 ^ 30"
  shows "\<exists>f' g' r kvs. SyncRepeatedFieldWithMap C (f, h, g) = Inr (f', h, g') \<and> mf_holds C (f', h, g') F \<and>
    mf_state f' \<noteq> STATE_MODIFIED_MAP \<and> mf_repeated f' = Some r \<and> rp_items C r g' kvs \<and> items_map kvs = F \<and>
    (mf_state f = STATE_MODIFIED_MAP \<longrightarrow> distinct (map fst kvs)) \<and> the_map f' = the_map f \<and> mf_arena f' = mf_arena f"
proof (cases "mf_state f = STATE_MODIFIED_MAP")
  case False
  then have "SyncRepeatedFieldWithMap C (f, h, g) = Inr (f, h, g)"
    using assms(2) by (simp add: SyncRepeatedFieldWithMap_def sync_ok_def)
  moreover obtain r kvs where "mf_repeated f = Some r" "rp_items C r g kvs" "items_map kvs = F"
    using assms(3) False by (auto simp: mf_holds_def split: option.splits)
  ultimately show ?thesis using False assms(3) by blast
next
  case True
  have wf: "wf_map (the_map f, h)" "wf_heap g" and F: "map_abs (the_map f, h) = F"
    and def: "\<forall>e. mf_default_entry f = Some e \<longrightarrow> me_default_instance e \<noteq> None"
    using assms(3) True by (simp_all add: mf_holds_def)
  obtain r0 as cs where r0: "mf_repeated (if mf_repeated f = None then f\<lparr>mf_repeated := Some (RP_new (mf_arena f))\<rparr> else f) = Some r0"
      "rp_arena r0 = mf_arena f" "rp_holds (mc_element C) r0 g as cs" "rp_objects (mf_repeated f) = int (length as + length cs)"
  proof (cases "mf_repeated f")
    case None
    then have "rp_objects (mf_repeated f) = int (length ([] :: nat list) + length ([] :: nat list))" by (simp add: rp_objects_def)
    then show ?thesis using that[of "RP_new (mf_arena f)" "[]" "[]"] None new_holds[OF wf(2)] by (simp add: RP_new_def)
  next
    case (Some r)
    then obtain as cs where r: "rp_arena r = mf_arena f" "rp_holds (mc_element C) r g as cs"
      using assms(3) by (auto simp: mf_holds_def)
    then show ?thesis using that[of r as cs] Some rp_objects_holds[OF r(2)] by simp
  qed
  let ?f0 = "if mf_repeated f = None then f\<lparr>mf_repeated := Some (RP_new (mf_arena f))\<rparr> else f"
  have f0: "the_map ?f0 = the_map f" "mf_arena ?f0 = mf_arena f" "mf_state ?f0 = mf_state f" "mf_lite ?f0 = mf_lite f"
      "mf_default_entry ?f0 = mf_default_entry f" by simp_all
  obtain r1 g1 where c: "RP_Clear (mc_element C) (r0, g) = Inr (r1, g1)" "rp_holds (mc_element C) r1 g1 [] (as @ cs)"
      "rp_arena r1 = rp_arena r0"
    using Clear_step[OF r0(3)] by blast
  obtain kvs where kvs: "node_items h (map_elements (the_map f)) kvs"
    using node_items_ex[OF wf(1) _ subset_refl] assms(4) F by auto
  have dist: "distinct (map fst kvs)" using node_items_keys[OF kvs] wf_mapD(2)[OF wf(1)] by simp
  have items: "items_map kvs = F"
    using items_map_distinct[OF dist] node_items_lookup[OF kvs] F by (auto simp: map_abs_def hm_lookup_def fun_eq_iff)
  let ?f1 = "?f0\<lparr>mf_repeated := Some r1\<rparr>"
  have pre: "mf_repeated ?f1 = Some r1" "rp_arena r1 = mf_arena ?f1"
      "length ([] :: nat list) + length (as @ cs) + length (map_elements (the_map f)) \<le> 2 ^ 30"
      "map (entry_item C) (vals g1 []) = map Inr []" "\<forall>e. mf_default_entry ?f1 = Some e \<longrightarrow> me_default_instance e \<noteq> None"
    using c(3) r0(2,4) assms(5) def f0 by (simp_all add: Map_size_def)
  from sync_pairs_loop[OF assms(1) pre(1,2) c(2) pre(3-5) kvs[unfolded node_items_def]]
  obtain f' r' g' as' cs' where l: "for_each (sync_pair C) (map_elements (the_map f)) (?f1, h, g1) = Inr (f', h, g')"
      "mf_repeated f' = Some r'" "rp_arena r' = mf_arena f'" "rp_holds (mc_element C) r' g' as' cs'"
      "map (entry_item C) (vals g' as') = map Inr ([] @ kvs)"
      "\<forall>e. mf_default_entry f' = Some e \<longrightarrow> me_default_instance e \<noteq> None"
      "mf_lite f' = mf_lite ?f1" "mf_arena f' = mf_arena ?f1"
    by blast
  have run: "SyncRepeatedFieldWithMapNoLock C (f, h, g) = Inr (f', h, g')"
    using r0(1) c(1) l(1) f0(1)
    by (cases "mf_repeated f") (simp_all add: SyncRepeatedFieldWithMapNoLock_def the_repeated_def Let_def)
  have it: "rp_items C r' g' kvs" using l(4,5) by (auto simp: rp_items_def)
  have tm: "the_map f' = the_map f" using l(7) f0(4) by (simp add: the_map_def)
  have "SyncRepeatedFieldWithMap C (f, h, g) = Inr (f'\<lparr>mf_state := CLEAN\<rparr>, h, g')"
    using True run assms(2) by (simp add: SyncRepeatedFieldWithMap_def sync_ok_def)
  moreover have "mf_holds C (f'\<lparr>mf_state := CLEAN\<rparr>, h, g') F"
    using l(2-4,6) it items tm wf(1) F holdsD(4)[OF l(4)] by (auto simp: mf_holds_def)
  ultimately show ?thesis using l(2,8) it items dist tm f0(2)
    by (intro exI[of _ "f'\<lparr>mf_state := CLEAN\<rparr>"] exI[of _ g'] exI[of _ r'] exI[of _ kvs]) simp
qed

section \<open>The map's side\<close>

text \<open>A change made through the map: whatever the state was, the field stands for the changed map.\<close>

lemma MutableMap_step:
  assumes "class_ok C" and "sync_ok C" and "mf_holds C (f, h, g) F"
    and "\<And>m h. wf_map (m, h) \<Longrightarrow> map_abs (m, h) = F \<Longrightarrow> map_arena m = map_arena (the_map f) \<Longrightarrow>
      map_default_enum_value m = map_default_enum_value (the_map f) \<Longrightarrow>
      \<exists>x m' h'. op (m, h) = Inr (x, m', h') \<and> map_step (m, h) (m', h') F' \<and> P x m' h'"
  shows "\<exists>x f' h'. MapField_MutableMap C op (f, h, g) = Inr (x, f', h', g) \<and> mf_holds C (f', h', g) F' \<and> P x (the_map f') h' \<and>
    map_step (the_map f, h) (the_map f', h') F'"
proof -
  obtain f1 h1 where s: "SyncMapWithRepeatedField C (f, h, g) = Inr (f1, h1, g)" "mf_holds C (f1, h1, g) F"
      "mf_state f1 \<noteq> STATE_MODIFIED_REPEATED" "map_step (the_map f, h) (the_map f1, h1) F"
    using SyncMap_step[OF assms(1-3)] by blast
  have wf: "wf_map (the_map f1, h1)" and F: "map_abs (the_map f1, h1) = F" using s(4) by (simp_all add: map_step_def)
  obtain x m' h' where o: "op (the_map f1, h1) = Inr (x, m', h')" "map_step (the_map f1, h1) (m', h') F'" "P x m' h'"
    using assms(4)[OF wf F] s(4) by (auto simp: map_step_def)
  let ?f = "set_map m' (f1\<lparr>mf_state := STATE_MODIFIED_MAP\<rparr>)"
  have "MapField_MutableMap C op (f, h, g) = Inr (x, ?f, h', g)"
    using s(1) o(1) assms(2) by (simp add: MapField_MutableMap_def sync_ok_def)
  moreover have "mf_holds C (?f, h', g) F'"
    using s(2) o(2) by (auto simp: mf_holds_def map_step_def split: option.splits)
  ultimately show ?thesis using o(3) map_step_trans[OF s(4) o(2)] by auto
qed

lemma UnwrapKey_is:
  assumes "key_is mk (Some kv)" and "key_type kv = mc_key_type C"
  shows "UnwrapKey C mk = Inr (mc_unwrap C kv)"
  using UnwrapMapKey_is[of "fst mk" "snd mk" "Some kv" "mc_key_type C"] assms by (simp add: UnwrapKey_def)

lemma subscript_value_cong:
  "map_arena m = map_arena m' \<Longrightarrow> map_default_enum_value m = map_default_enum_value m' \<Longrightarrow> subscript_value T m = subscript_value T m'"
  by (auto simp: subscript_value_def split: option.split)

lemma InsertMapValue_step:
  assumes "class_ok C" and "sync_ok C" and "mf_holds C (f, h, g) F" and "key_is mk (Some kv)" and "key_type kv = mc_key_type C"
  shows "\<exists>p f' h'. MapField_InsertMapValue C mk (f, h, g) = Inr ((F (mc_unwrap C kv) = None, p), f', h', g) \<and>
    mf_holds C (f', h', g) (case F (mc_unwrap C kv) of None \<Rightarrow> F(mc_unwrap C kv \<mapsto> subscript_value (mc_traits C) (the_map f)) | Some _ \<Rightarrow> F) \<and>
    hm_lookup (map_elements (the_map f')) (mc_unwrap C kv) = Some p"
proof -
  let ?k = "mc_unwrap C kv" and ?T = "mc_traits C"
  let ?F = "case F ?k of None \<Rightarrow> F(?k \<mapsto> subscript_value ?T (the_map f)) | Some _ \<Rightarrow> F"
  let ?op = "\<lambda>(map, h). bnd (UnwrapKey C mk) (\<lambda>key. let result = (Map_end map = Map_find key map) in
       bnd (Map_subscript ?T key (map, h)) (\<lambda>(p, st). Inr ((result, p), st)))"
  have "\<exists>x m' h'. ?op (m, h) = Inr (x, m', h') \<and> map_step (m, h) (m', h') ?F \<and>
      (fst x = (F ?k = None) \<and> hm_lookup (map_elements m') ?k = Some (snd x))"
    if m: "wf_map (m, h)" "map_abs (m, h) = F" "map_arena m = map_arena (the_map f)"
      "map_default_enum_value m = map_default_enum_value (the_map f)" for m h
  proof -
    obtain p m' h' where s: "Map_subscript ?T ?k (m, h) = Inr (p, m', h')" "hm_lookup (map_elements m') ?k = Some p"
        "map_step (m, h) (m', h') (case F ?k of None \<Rightarrow> F(?k \<mapsto> subscript_value ?T m) | Some _ \<Rightarrow> F)"
      using Map_subscript_step[OF class_okD(3)[OF assms(1)] m(1), of ?k] m(2) by auto
    have "(Map_end m = Map_find ?k m) = (F ?k = None)" using Map_find_abs(3)[OF m(1), of ?k] m(2) by metis
    then show ?thesis using s(1,2) s(3)[unfolded subscript_value_cong[OF m(3,4), of ?T]] UnwrapKey_is[OF assms(4,5)] by simp
  qed
  note st = this
  have "\<exists>x f' h'. MapField_MutableMap C ?op (f, h, g) = Inr (x, f', h', g) \<and> mf_holds C (f', h', g) ?F \<and>
      (fst x = (F ?k = None) \<and> hm_lookup (map_elements (the_map f')) ?k = Some (snd x)) \<and>
      map_step (the_map f, h) (the_map f', h') ?F"
    by (rule MutableMap_step[OF assms(1-3)]) (rule st)
  then obtain x f' h' where r: "MapField_MutableMap C ?op (f, h, g) = Inr (x, f', h', g)" "mf_holds C (f', h', g) ?F"
      "fst x = (F ?k = None)" "hm_lookup (map_elements (the_map f')) ?k = Some (snd x)"
    by (elim exE conjE) (rule that)
  obtain b p where x: "x = (b, p)" by (cases x)
  have "b = (F ?k = None)" using r(3) unfolding x fst_conv .
  then have "MapField_InsertMapValue C mk (f, h, g) = Inr ((F ?k = None, p), f', h', g)"
    using r(1) unfolding MapField_InsertMapValue_def x by (rule subst)
  then show ?thesis using r(2) r(4)[unfolded x snd_conv] by (intro exI[of _ p] exI[of _ f'] exI[of _ h'] conjI)
qed

lemma DeleteMapValue_step:
  assumes "class_ok C" and "sync_ok C" and "mf_holds C (f, h, g) F" and "key_is mk (Some kv)" and "key_type kv = mc_key_type C"
  shows "\<exists>f' h'. MapField_DeleteMapValue C mk (f, h, g) = Inr (F (mc_unwrap C kv) \<noteq> None, f', h', g) \<and>
    mf_holds C (f', h', g) (F(mc_unwrap C kv := None))"
proof -
  let ?k = "mc_unwrap C kv"
  have "\<exists>x m' h'. Map_erase_key ?k (m, h) = Inr (x, m', h') \<and> map_step (m, h) (m', h') (F(?k := None)) \<and> (x \<noteq> 0) = (F ?k \<noteq> None)"
    if m: "wf_map (m, h)" "map_abs (m, h) = F" "map_arena m = map_arena (the_map f)"
      "map_default_enum_value m = map_default_enum_value (the_map f)" for m h
    using Map_erase_key_step[OF m(1), of ?k] m(2) by (cases "F ?k") auto
  note st = this
  have "\<exists>n f' h'. MapField_MutableMap C (Map_erase_key ?k) (f, h, g) = Inr (n, f', h', g) \<and>
      mf_holds C (f', h', g) (F(?k := None)) \<and> (n \<noteq> 0) = (F ?k \<noteq> None) \<and> map_step (the_map f, h) (the_map f', h') (F(?k := None))"
    by (rule MutableMap_step[OF assms(1-3)]) (rule st)
  then obtain n f' h' where r: "MapField_MutableMap C (Map_erase_key ?k) (f, h, g) = Inr (n, f', h', g)"
      "mf_holds C (f', h', g) (F(?k := None))" "(n \<noteq> 0) = (F ?k \<noteq> None)"
    by (elim exE conjE) (rule that)
  have "MapField_DeleteMapValue C mk (f, h, g) = Inr (F ?k \<noteq> None, f', h', g)"
    using UnwrapKey_is[OF assms(4,5)] r(1) by (simp only: MapField_DeleteMapValue_def bnd_Inr prod.case r(3))
  then show ?thesis using r(2) by (intro exI[of _ f'] exI[of _ h'] conjI)
qed

lemma MapField_Clear_step:
  assumes "class_ok C" and "sync_ok C" and "mf_holds C (f, h, g) F"
  shows "\<exists>f' h'. MapField_Clear C (f, h, g) = Inr (f', h', g) \<and> mf_holds C (f', h', g) Map.empty"
proof -
  obtain f1 h1 where s: "SyncMapWithRepeatedField C (f, h, g) = Inr (f1, h1, g)" "mf_holds C (f1, h1, g) F"
    using SyncMap_step[OF assms] by blast
  have "wf_map (the_map f1, h1)" using s(2) by (simp add: mf_holds_def)
  then obtain m' h' where c: "Map_clear (the_map f1, h1) = Inr (m', h')" "map_step (the_map f1, h1) (m', h') Map.empty"
    using Map_clear_step by blast
  let ?f = "(set_map m' f1)\<lparr>mf_state := STATE_MODIFIED_MAP\<rparr>"
  have "MapField_Clear C (f, h, g) = Inr (?f, h', g)" using s(1) c(1) assms(2) by (simp add: MapField_Clear_def sync_ok_def)
  moreover have "mf_holds C (?f, h', g) Map.empty"
    using s(2) c(2) by (auto simp: mf_holds_def map_step_def split: option.splits)
  ultimately show ?thesis by blast
qed

lemma other_field_kept:
  assumes "mf_holds C (oth, h, g) G" and "map_step (m, h) (m', h') F" and "map_ptrs (the_map oth) \<inter> map_ptrs m = {}"
  shows "mf_holds C (oth, h', g) G" and "map_ptrs (the_map oth) \<inter> map_ptrs m' = {}"
proof -
  have "wf_map (the_map oth, h)" using assms(1) by (simp add: mf_holds_def)
  note k = other_map_kept[OF this assms(2,3)]
  show "mf_holds C (oth, h', g) G" using assms(1) k(1,2) by (simp add: mf_holds_def)
  show "map_ptrs (the_map oth) \<inter> map_ptrs m' = {}" by (rule k(3))
qed

lemma MapField_MergeFrom_step:
  assumes "class_ok C" and "sync_ok C" and "mf_holds C (f, h, g) F" and "mf_holds C (oth, h, g) G"
    and "map_ptrs (the_map oth) \<inter> map_ptrs (the_map f) = {}"
  shows "if indeterminate G then MapField_MergeFrom C oth (f, h, g) = Inl Uninitialised
    else \<exists>oth' f' h'. MapField_MergeFrom C oth (f, h, g) = Inr (oth', f', h', g) \<and> mf_holds C (f', h', g) (F ++ G) \<and>
      mf_holds C (oth', h', g) G"
proof -
  obtain f1 h1 where s: "SyncMapWithRepeatedField C (f, h, g) = Inr (f1, h1, g)" "mf_holds C (f1, h1, g) F"
      "mf_state f1 \<noteq> STATE_MODIFIED_REPEATED" "map_step (the_map f, h) (the_map f1, h1) F"
    using SyncMap_step[OF assms(1-3)] by blast
  note k1 = other_field_kept[OF assms(4) s(4) assms(5)]
  obtain o2 h2 where t: "SyncMapWithRepeatedField C (oth, h1, g) = Inr (o2, h2, g)" "mf_holds C (o2, h2, g) G"
      "mf_state o2 \<noteq> STATE_MODIFIED_REPEATED" "map_step (the_map oth, h1) (the_map o2, h2) G"
    using SyncMap_step[OF assms(1,2) k1(1)] by blast
  have "map_ptrs (the_map f1) \<inter> map_ptrs (the_map oth) = {}" using k1(2) by blast
  note k2 = other_field_kept[OF s(2) t(4) this]
  have w: "wf_map (the_map f1, h2)" "wf_map (the_map o2, h2)" "map_abs (the_map f1, h2) = F" "map_abs (the_map o2, h2) = G"
    using k2(1) t(2,3) s(3) by (simp_all add: mf_holds_def)
  have d: "map_ptrs (the_map o2) \<inter> map_ptrs (the_map f1) = {}" using k2(2) by blast
  note merge = MapFieldLite_MergeFrom_step[OF class_okD(3)[OF assms(1)] w(1,2) d, unfolded w(3,4)]
  show ?thesis
  proof (cases "indeterminate G")
    case True
    then show ?thesis using merge s(1) t(1) assms(2)
      by (simp add: MapField_MergeFrom_def MapFieldLite_MergeFrom_def sync_ok_def the_map_def)
  next
    case False
    then obtain m' h' where m: "for_each (merge_pair (mc_traits C)) (map_elements (the_map o2)) (the_map f1, h2) = Inr (m', h')"
        "map_step (the_map f1, h2) (m', h') (F ++ G)"
      using merge by auto
    let ?f = "(f1\<lparr>mf_lite := (mf_lite f1)\<lparr>mfl_map := m'\<rparr>\<rparr>)\<lparr>mf_state := STATE_MODIFIED_MAP\<rparr>"
    have "MapField_MergeFrom C oth (f, h, g) = Inr (o2, ?f, h', g)"
      using s(1) t(1) m(1) assms(2) by (simp add: MapField_MergeFrom_def MapFieldLite_MergeFrom_def sync_ok_def the_map_def)
    moreover have "the_map ?f = m'" by (simp add: the_map_def)
    moreover from this have "mf_holds C (?f, h', g) (F ++ G)"
      using k2(1) m(2) by (auto simp: mf_holds_def map_step_def split: option.splits)
    moreover have "mf_holds C (o2, h', g) G" by (rule other_field_kept(1)[OF t(2) m(2) d])
    ultimately show ?thesis using False by auto
  qed
qed

lemma GetMap_step:
  assumes "class_ok C" and "sync_ok C" and "mf_holds C (f, h, g) F"
  shows "\<exists>f' h'. MapField_GetMap C (f, h, g) = Inr (the_map f', f', h', g) \<and> mf_holds C (f', h', g) F \<and>
    wf_map (the_map f', h') \<and> map_abs (the_map f', h') = F"
  using SyncMap_step[OF assms] by (auto simp: MapField_GetMap_def map_step_def)

section \<open>The contract of the map field\<close>

text \<open>C34: a map field is a finite map, whichever of its two sides was changed last. \<open>GetMap\<close> gives that map
  and \<open>size\<close> its number of pairs, modulo \<open>2^32\<close>; \<open>ContainsMapKey\<close>, \<open>InsertMapValue\<close> and \<open>DeleteMapValue\<close> say
  whether the key of a \<open>MapKey\<close> is bound, and insert, behind the pointer they return, what \<open>operator[]\<close> makes
  for a new key, or remove the pair. What it makes is the default of the field for an enum, \<open>T()\<close> for other
  types without an arena, and on an arena what \<open>new (ptr) T\<close> leaves: the default object of a class, an
  indeterminate scalar. \<open>Clear\<close> empties the field, and \<open>MergeFrom\<close> overrides it with the other field's map,
  which stays; it reads an indeterminate value, undefined in C++, exactly where the other map has one.\<close>

theorem MapField_map_api:
  assumes "class_ok C" and "sync_ok C" and "mf_holds C (f, h, g) F"
    and "key_is mk (Some kv)" and "key_type kv = mc_key_type C"
  shows "(\<exists>f' h'. MapField_GetMap C (f, h, g) = Inr (the_map f', f', h', g) \<and> mf_holds C (f', h', g) F \<and>
       map_abs (the_map f', h') = F) \<and>
    (\<exists>f' h'. MapField_size C (f, h, g) = Inr (wrap32 (int (card (dom F))), f', h', g) \<and> mf_holds C (f', h', g) F) \<and>
    (\<exists>f' h'. MapField_ContainsMapKey C mk (f, h, g) = Inr (F (mc_unwrap C kv) \<noteq> None, f', h', g) \<and>
       mf_holds C (f', h', g) F) \<and>
    (\<exists>p f' h'. MapField_InsertMapValue C mk (f, h, g) = Inr ((F (mc_unwrap C kv) = None, p), f', h', g) \<and>
       mf_holds C (f', h', g) (case F (mc_unwrap C kv) of
          None \<Rightarrow> F(mc_unwrap C kv \<mapsto> (case mt_enum (mc_traits C) of
              Some cast \<Rightarrow> Some (cast (map_default_enum_value (the_map f)))
            | None \<Rightarrow> if map_arena (the_map f) = None then Some (mt_value (mc_traits C)) else mt_raw (mc_traits C)))
        | Some _ \<Rightarrow> F) \<and>
       hm_lookup (map_elements (the_map f')) (mc_unwrap C kv) = Some p) \<and>
    (\<exists>f' h'. MapField_DeleteMapValue C mk (f, h, g) = Inr (F (mc_unwrap C kv) \<noteq> None, f', h', g) \<and>
       mf_holds C (f', h', g) (F(mc_unwrap C kv := None))) \<and>
    (\<exists>f' h'. MapField_Clear C (f, h, g) = Inr (f', h', g) \<and> mf_holds C (f', h', g) Map.empty) \<and>
    (\<forall>oth G. mf_holds C (oth, h, g) G \<and> map_ptrs (the_map oth) \<inter> map_ptrs (the_map f) = {} \<longrightarrow>
       (if indeterminate G then MapField_MergeFrom C oth (f, h, g) = Inl Uninitialised
        else \<exists>oth' f' h'. MapField_MergeFrom C oth (f, h, g) = Inr (oth', f', h', g) \<and>
          mf_holds C (f', h', g) (F ++ G) \<and> mf_holds C (oth', h', g) G))"
proof (intro conjI)
  obtain f' h' where s: "MapField_GetMap C (f, h, g) = Inr (the_map f', f', h', g)" "mf_holds C (f', h', g) F"
      "wf_map (the_map f', h')" "map_abs (the_map f', h') = F"
    using GetMap_step[OF assms(1-3)] by blast
  then show "\<exists>f' h'. MapField_GetMap C (f, h, g) = Inr (the_map f', f', h', g) \<and> mf_holds C (f', h', g) F \<and>
      map_abs (the_map f', h') = F" by blast
  have "SyncMapWithRepeatedField C (f, h, g) = Inr (f', h', g)"
    using s(1) SyncMap_step[OF assms(1-3)] by (auto simp: MapField_GetMap_def)
  then show "\<exists>f' h'. MapField_size C (f, h, g) = Inr (wrap32 (int (card (dom F))), f', h', g) \<and> mf_holds C (f', h', g) F"
    using s(2,4) Map_size_abs(1)[OF s(3)] by (simp add: MapField_size_def)
  have "(Map_find (mc_unwrap C kv) (the_map f') \<noteq> Map_end (the_map f')) = (F (mc_unwrap C kv) \<noteq> None)"
    using Map_find_abs(3)[OF s(3), of "mc_unwrap C kv"] s(4) by simp
  then have "MapField_ContainsMapKey C mk (f, h, g) = Inr (F (mc_unwrap C kv) \<noteq> None, f', h', g)"
    using s(1) UnwrapKey_is[OF assms(4,5)] by (simp only: MapField_ContainsMapKey_def bnd_Inr prod.case)
  then show "\<exists>f' h'. MapField_ContainsMapKey C mk (f, h, g) = Inr (F (mc_unwrap C kv) \<noteq> None, f', h', g) \<and>
      mf_holds C (f', h', g) F" using s(2) by blast
qed (use InsertMapValue_step[OF assms, unfolded subscript_value_def] DeleteMapValue_step[OF assms] MapField_Clear_step[OF assms(1-3)]
      MapField_MergeFrom_step[OF assms(1-3)] in blast)+

lemma holds_after_entries:
  assumes "sync_ok C" and "mf_holds C (f, h, g) F" and "rp_items C r g' kvs" and "rp_arena r = mf_arena f"
  shows "mf_holds C (mc_SetRepeatedDirty C (f\<lparr>mf_repeated := Some r\<rparr>), h, g') (items_map kvs)"
proof -
  have "wf_heap g'" using assms(3) by (auto simp: rp_items_def dest: holdsD(4))
  then show ?thesis using assms by (auto simp: mf_holds_def sync_ok_def rp_items_def)
qed

text \<open>The two sides of a map field agree. \<open>SyncRepeatedFieldWithMap\<close> gives a repeated field whose entries
  stand for the field's map, one for each key when they were made from the map, and leaves the map
  alone; whatever list of entries is then put in their place and marked as newer, also with keys that
  occur twice, the map read next is that of the entries, the last of a key counting; \<open>Swap\<close> exchanges
  what two fields of an arena stand for.\<close>

theorem MapField_views_agree:
  assumes "class_ok C" and "sync_ok C" and "mf_holds C (f, h, g) F" and "\<not> indeterminate F"
    and "rp_objects (mf_repeated f) + int (Map_size (the_map f)) \<le> 2 ^ 30"
  shows "\<exists>f' g' r kvs. SyncRepeatedFieldWithMap C (f, h, g) = Inr (f', h, g') \<and> mf_holds C (f', h, g') F \<and>
    mf_repeated f' = Some r \<and> rp_items C r g' kvs \<and> items_map kvs = F \<and>
    (mf_state f = STATE_MODIFIED_MAP \<longrightarrow> distinct (map fst kvs)) \<and> the_map f' = the_map f \<and>
    (\<forall>r' g'' kvs'. rp_items C r' g'' kvs' \<and> rp_arena r' = rp_arena r \<longrightarrow>
       (\<exists>f'' h''. MapField_GetMap C (mc_SetRepeatedDirty C (f'\<lparr>mf_repeated := Some r'\<rparr>), h, g'') =
            Inr (the_map f'', f'', h'', g'') \<and>
          map_abs (the_map f'', h'') = items_map kvs' \<and> mf_holds C (f'', h'', g'') (items_map kvs'))) \<and>
    (\<forall>oth G. mf_holds C (oth, h, g) G \<and> mf_arena oth = mf_arena f \<longrightarrow>
       (case MapField_Swap f oth of (a, b) \<Rightarrow> mf_holds C (a, h, g) G \<and> mf_holds C (b, h, g) F))"
proof -
  obtain f' g' r kvs where s: "SyncRepeatedFieldWithMap C (f, h, g) = Inr (f', h, g')" "mf_holds C (f', h, g') F"
      "mf_repeated f' = Some r" "rp_items C r g' kvs" "items_map kvs = F"
      "mf_state f = STATE_MODIFIED_MAP \<longrightarrow> distinct (map fst kvs)" "the_map f' = the_map f"
    using SyncRepeated_step[OF assms] by blast
  have arena: "rp_arena r = mf_arena f'" using s(2,3) by (simp add: mf_holds_def)
  have read: "\<exists>f'' h''. MapField_GetMap C (mc_SetRepeatedDirty C (f'\<lparr>mf_repeated := Some r'\<rparr>), h, g'') =
        Inr (the_map f'', f'', h'', g'') \<and>
      map_abs (the_map f'', h'') = items_map kvs' \<and> mf_holds C (f'', h'', g'') (items_map kvs')"
    if r': "rp_items C r' g'' kvs'" "rp_arena r' = rp_arena r" for r' g'' kvs'
    using GetMap_step[OF assms(1,2) holds_after_entries[OF assms(2) s(2) r'(1)]] r'(2) arena by auto
  have swap: "case MapField_Swap f oth of (a, b) \<Rightarrow> mf_holds C (a, h, g) G \<and> mf_holds C (b, h, g) F"
    if o: "mf_holds C (oth, h, g) G" "mf_arena oth = mf_arena f" for oth G
    using assms(3) o by (simp add: mf_holds_def MapField_Swap_def MapFieldLite_Swap_def the_map_def split: option.splits)
  have reads: "\<forall>r' g'' kvs'. rp_items C r' g'' kvs' \<and> rp_arena r' = rp_arena r \<longrightarrow>
       (\<exists>f'' h''. MapField_GetMap C (mc_SetRepeatedDirty C (f'\<lparr>mf_repeated := Some r'\<rparr>), h, g'') =
            Inr (the_map f'', f'', h'', g'') \<and>
          map_abs (the_map f'', h'') = items_map kvs' \<and> mf_holds C (f'', h'', g'') (items_map kvs'))"
    by (intro allI impI; elim conjE) (rule read)
  have swaps: "\<forall>oth G. mf_holds C (oth, h, g) G \<and> mf_arena oth = mf_arena f \<longrightarrow>
       (case MapField_Swap f oth of (a, b) \<Rightarrow> mf_holds C (a, h, g) G \<and> mf_holds C (b, h, g) F)"
    by (intro allI impI; elim conjE) (rule swap)
  show ?thesis
    by (intro exI[of _ f'] exI[of _ g'] exI[of _ r] exI[of _ kvs] conjI s reads swaps)
qed

text \<open>A field of texts by number, with one pair.\<close>

definition unwrap_int :: "key_value \<Rightarrow> prim" where
  "unwrap_int kv = (case kv of K_int32 v \<Rightarrow> P_int32 v | _ \<Rightarrow> P_int32 0)"

definition text_entry :: "(prim, 8 word list option) MapEntryLite" where
  "text_entry = (MapEntryLite_new int_key text_value 0 None)\<lparr>me_default_instance := Some None\<rparr>"

definition sync_when :: "State \<Rightarrow> (('k, 'v, 'e) sync_state \<Rightarrow> ('k, 'v, 'e) sync_state run) \<Rightarrow> ('k, 'v, 'e) sync_state \<Rightarrow>
    ('k, 'v, 'e) sync_state run" where
  "sync_when s F st = (if mf_state (fst st) = s then bnd (F st) (\<lambda>(f, h, g). Inr (f\<lparr>mf_state := CLEAN\<rparr>, h, g)) else Inr st)"

definition text_class :: "(prim, 8 word list, prim, 8 word list option, 8 word list, unit, 8 word list) map_class" where
  "text_class = \<lparr>mc_key = int_key, mc_value = text_value, mc_default_enum = 0,
     mc_traits = \<lparr>mt_value = [], mt_raw = Some [], mt_enum = None, mt_place = (#)\<rparr>,
     mc_element = GenericTypeHandler text_entry (\<lambda>_. text_entry) (\<lambda>to from. from) True, mc_lib = exact_lib,
     mc_cast = id, mc_uncast = id, mc_key_type = CPPTYPE_INT32, mc_unwrap = unwrap_int,
     mc_has_descriptor = True, mc_prototype = Some text_entry,
     mc_SyncMap = sync_when STATE_MODIFIED_REPEATED, mc_SyncRepeated = sync_when STATE_MODIFIED_MAP,
     mc_SetMapDirty = mf_state_update (\<lambda>_. STATE_MODIFIED_MAP),
     mc_SetRepeatedDirty = mf_state_update (\<lambda>_. STATE_MODIFIED_REPEATED)\<rparr>"

definition text_heap :: "(prim, 8 word list) MapPair heap" where
  "text_heap = snd (hp_new \<lparr>mp_first = P_int32 7, mp_second = Some [104]\<rparr> hp_empty)"

definition text_field :: "(prim, (prim, 8 word list option) MapEntryLite) MapField" where
  "text_field = set_map \<lparr>map_arena = None, map_elements = [(P_int32 7, Some 0)], map_default_enum_value = 0\<rparr>
     (MapField_new 0 None None)"

lemma text_class_ok: "class_ok text_class" "sync_ok text_class"
  by (simp_all add: class_ok_def sync_ok_def text_class_def int_key_def text_value_def prim_slot.loads_back_axioms
      string_slot.loads_back_axioms place_ok_def exact_lib_ok GenericTypeHandler_def text_entry_def sync_when_def)

lemma text_field_ok: "mf_holds text_class (text_field, text_heap, hp_empty) [P_int32 7 \<mapsto> Some [104]]"
  by (simp add: mf_holds_def text_field_def MapField_new_def text_heap_def wf_map_def pair_ok_def hp_new_def hp_empty_def
      map_abs_def hm_lookup_def fun_eq_iff wf_heap_def live_def owned_def)

theorem MapField_map_api_witness:
  "\<exists>p f' h'. MapField_InsertMapValue text_class (\<lparr>mk_type = Some CPPTYPE_INT32, mk_val = int32_value 8\<rparr>, hp_empty)
      (text_field, text_heap, hp_empty) = Inr ((True, p), f', h', hp_empty) \<and>
    mf_holds text_class (f', h', hp_empty) [P_int32 7 \<mapsto> Some [104], P_int32 8 \<mapsto> Some []]"
proof -
  have key: "key_is (\<lparr>mk_type = Some CPPTYPE_INT32, mk_val = int32_value 8\<rparr>, hp_empty) (Some (K_int32 8))"
    by (simp add: key_is_def hp_empty_def wf_heap_def live_def owned_def)
  have type: "key_type (K_int32 8) = mc_key_type text_class" by (simp add: text_class_def)
  from MapField_map_api[OF text_class_ok text_field_ok key type, THEN conjunct2, THEN conjunct2, THEN conjunct2, THEN conjunct1]
  show ?thesis
    by (auto simp: text_class_def unwrap_int_def text_field_def)
qed

theorem MapField_views_agree_witness:
  "\<exists>f' g' r kvs. SyncRepeatedFieldWithMap text_class (text_field, text_heap, hp_empty) = Inr (f', text_heap, g') \<and>
    mf_repeated f' = Some r \<and> rp_items text_class r g' kvs \<and> items_map kvs = [P_int32 7 \<mapsto> Some [104]]"
proof -
  have "\<not> indeterminate [P_int32 7 \<mapsto> Some [104 :: 8 word]]" by (simp add: indeterminate_def)
  moreover have "rp_objects (mf_repeated text_field) + int (Map_size (the_map text_field)) \<le> 2 ^ 30"
    by (simp add: text_field_def MapField_new_def rp_objects_def Map_size_def)
  ultimately show ?thesis using MapField_views_agree[OF text_class_ok text_field_ok] by blast
qed

end
