(* ===== verification/GrpcCall.thy ===== *)
theory GrpcCall
  imports GrpcStatus CString PbHeap "HOL-Library.Word"
begin

unbundle bit_operations_syntax

text \<open>
  The call operations of \<open>include/grpc++/impl/call.h\<close>: the classes that describe to the C core what a
  call sends and receives, and the set of up to six of them that is handed over as one batch and
  finished when the batch completes. Every remote call of the program goes through them. Shown: a
  write's options are independent bits; which batch a set of operations becomes; and what finishing it
  frees.
\<close>

section \<open>Write options\<close>

record WriteOptions =
  wo_flags :: "32 word"

definition WriteOptions_new :: WriteOptions where
  "WriteOptions_new = \<lparr>wo_flags = 0\<rparr>"

definition WriteOptions_copy :: "WriteOptions \<Rightarrow> WriteOptions" where
  "WriteOptions_copy other = \<lparr>wo_flags = wo_flags other\<rparr>"

definition WriteOptions_Clear :: "WriteOptions \<Rightarrow> WriteOptions" where
  "WriteOptions_Clear w = w\<lparr>wo_flags := 0\<rparr>"

definition GRPC_WRITE_BUFFER_HINT :: "32 word" where "GRPC_WRITE_BUFFER_HINT = 1"
definition GRPC_WRITE_NO_COMPRESS :: "32 word" where "GRPC_WRITE_NO_COMPRESS = 2"

definition SetBit :: "32 word \<Rightarrow> WriteOptions \<Rightarrow> WriteOptions" where
  "SetBit bits w = w\<lparr>wo_flags := wo_flags w OR bits\<rparr>"

definition ClearBit :: "32 word \<Rightarrow> WriteOptions \<Rightarrow> WriteOptions" where
  "ClearBit bits w = w\<lparr>wo_flags := wo_flags w AND NOT bits\<rparr>"

definition GetBit :: "32 word \<Rightarrow> WriteOptions \<Rightarrow> bool" where
  "GetBit bits w \<longleftrightarrow> wo_flags w AND bits \<noteq> 0"

definition set_no_compression :: "WriteOptions \<Rightarrow> WriteOptions" where
  "set_no_compression w = SetBit GRPC_WRITE_NO_COMPRESS w"

definition clear_no_compression :: "WriteOptions \<Rightarrow> WriteOptions" where
  "clear_no_compression w = ClearBit GRPC_WRITE_NO_COMPRESS w"

definition get_no_compression :: "WriteOptions \<Rightarrow> bool" where
  "get_no_compression w = GetBit GRPC_WRITE_NO_COMPRESS w"

definition set_buffer_hint :: "WriteOptions \<Rightarrow> WriteOptions" where
  "set_buffer_hint w = SetBit GRPC_WRITE_BUFFER_HINT w"

definition clear_buffer_hint :: "WriteOptions \<Rightarrow> WriteOptions" where
  "clear_buffer_hint w = ClearBit GRPC_WRITE_BUFFER_HINT w"

definition get_buffer_hint :: "WriteOptions \<Rightarrow> bool" where
  "get_buffer_hint w = GetBit GRPC_WRITE_BUFFER_HINT w"

section \<open>What a call shares with the core\<close>

text \<open>A multimap of names and values, in its order.\<close>

type_synonym metadata = "(string \<times> string) list"

text \<open>The objects that are allocated for a call: byte buffers, arrays of metadata, the details of a status.
  One that is used after it was destroyed, or destroyed twice, is a fault; destroying the null pointer
  does nothing.\<close>

datatype gobj = Buffer "8 word list" | Metadata metadata | Details string

type_synonym gheap = "gobj heap"

definition grpc_byte_buffer_destroy :: "nat option \<Rightarrow> gheap \<Rightarrow> gheap run" where
  "grpc_byte_buffer_destroy p h = hp_delete p h"

definition gpr_free :: "nat option \<Rightarrow> gheap \<Rightarrow> gheap run" where
  "gpr_free p h = hp_delete p h"

text \<open>\<open>FillMetadataArray\<close> is declared in the header and compiled elsewhere: what its callers rely on is a new
  array with as many elements as the multimap has, which \<open>gpr_free\<close> releases. \<open>gpr_free\<close> and
  \<open>grpc_byte_buffer_destroy\<close> are the core's.\<close>

definition FillMetadataArray :: "metadata \<Rightarrow> gheap \<Rightarrow> nat option \<times> gheap" where
  "FillMetadataArray md h = (case hp_new (Metadata md) h of (p, h) \<Rightarrow> (Some p, h))"

text \<open>\<open>grpc_op\<close>: what an operation puts into the batch. Metadata arrays and buffers are pointers. The
  operations that receive name the place where the core stores what it got; each class has one.\<close>

datatype grpc_op =
    GRPC_OP_SEND_INITIAL_METADATA nat "nat option"
  | GRPC_OP_SEND_MESSAGE "32 word" "nat option"
  | GRPC_OP_SEND_CLOSE_FROM_CLIENT
  | GRPC_OP_SEND_STATUS_FROM_SERVER nat "nat option" StatusCode "string option"
  | GRPC_OP_RECV_INITIAL_METADATA
  | GRPC_OP_RECV_MESSAGE
  | GRPC_OP_RECV_STATUS_ON_CLIENT

text \<open>The same with what is behind the pointers, as the core reads it.\<close>

datatype wire_op =
    Send_initial metadata | Send_message "32 word" "8 word list" | Send_close
  | Send_status metadata StatusCode "string option"
  | Recv_initial | Recv_message | Recv_status

text \<open>What the core stores when a batch completes, and whether the batch succeeded. Metadata is given as the
  multimap that \<open>FillMetadataMap\<close>, which is compiled elsewhere, makes of the array. The codes of
  \<open>grpc_status_code\<close> and \<open>grpc::StatusCode\<close> have the same numbers.\<close>

record core_reply =
  re_success :: bool
  re_message :: "8 word list option"
  re_initial :: metadata
  re_trailing :: metadata
  re_code :: StatusCode
  re_details :: "string option"

text \<open>The core (\<open>grpc_call_start_batch\<close> and \<open>grpc_completion_queue_pluck\<close>) with the two functions of the
  library in front of it: \<open>Call::PerformOps\<close>, which passes on the limit of the call, and
  \<open>CompletionQueue::Pluck\<close>, whose result depends on the event's success and on the status that
  \<open>FinalizeResult\<close> has made of it.\<close>

record 'w core =
  gc_max_message_size :: int
  gc_batch :: "wire_op list \<Rightarrow> 'w \<Rightarrow> core_reply \<times> 'w"
  gc_pluck :: "bool \<Rightarrow> bool \<Rightarrow> bool"

text \<open>The part of \<open>ClientContext\<close> and \<open>ServerContext\<close> that the operations and the handlers touch.\<close>

record ClientContext =
  cc_initial_metadata_received :: bool
  cc_send_initial_metadata :: metadata
  cc_recv_initial_metadata :: metadata
  cc_trailing_metadata :: metadata

record ServerContext =
  sx_sent_initial_metadata :: bool
  sx_initial_metadata :: metadata
  sx_trailing_metadata :: metadata

text \<open>The state of a process during a call: the objects, the core, the context of the call, the caller's
  variables that the pointers \<open>message_\<close> and \<open>recv_status_\<close> of the operations name, and a record of the
  batches performed so far, which no operation reads.\<close>

record ('r, 'w) rpc =
  rc_heap :: gheap
  rc_core :: 'w
  rc_client :: ClientContext
  rc_message :: 'r
  rc_status :: Status
  rc_log :: "wire_op list list"

section \<open>Serialisation\<close>

text \<open>\<open>SerializationTraits\<close> of a protobuf message (\<open>impl/proto_utils.h\<close>), over \<open>SerializeProto\<close> and
  \<open>DeserializeProto\<close> of the library: the bytes of a message or an error, and the message after reading
  bytes into it.\<close>

record 'm serial =
  sr_new :: "'m"
  sr_SerializeProto :: "'m \<Rightarrow> Status \<times> 8 word list"
  sr_DeserializeProto :: "8 word list \<Rightarrow> int \<Rightarrow> 'm \<Rightarrow> Status \<times> 'm"

definition Traits_Serialize :: "'m serial \<Rightarrow> 'm \<Rightarrow> nat option \<Rightarrow> gheap \<Rightarrow> Status \<times> nat option \<times> bool \<times> gheap" where
  "Traits_Serialize S msg buffer h =
    (case sr_SerializeProto S msg of (status, bytes) \<Rightarrow>
      if status_ok status then (case hp_new (Buffer bytes) h of (p, h) \<Rightarrow> (status, Some p, True, h))
      else (status, buffer, True, h))"

definition buffer_bytes :: "nat option \<Rightarrow> gheap \<Rightarrow> 8 word list run" where
  "buffer_bytes p h = bnd (hp_read p h) (\<lambda>x. case x of Buffer bs \<Rightarrow> Inr bs | _ \<Rightarrow> Inl Uninitialised)"

definition Traits_Deserialize :: "'m serial \<Rightarrow> nat option \<Rightarrow> 'm \<Rightarrow> int \<Rightarrow> gheap \<Rightarrow> (Status \<times> 'm \<times> gheap) run" where
  "Traits_Deserialize S buffer msg max_message_size h =
    bnd (buffer_bytes buffer h) (\<lambda>bytes.
    case sr_DeserializeProto S bytes max_message_size msg of (status, msg) \<Rightarrow>
      bnd (grpc_byte_buffer_destroy buffer h) (\<lambda>h. Inr (status, msg, h)))"

section \<open>The operations\<close>

text \<open>Fields the constructors leave alone are \<open>None\<close> until they are written.\<close>

record CallOpSendInitialMetadata =
  si_send :: bool
  si_metadata :: "(nat \<times> nat option) option"

record CallOpSendMessage =
  sm_send_buf :: "nat option"
  sm_write_options :: WriteOptions
  sm_own_buf :: bool

record CallOpRecvMessage =
  rm_got_message :: bool
  rm_message :: bool
  rm_recv_buf :: "nat option option"

record CallOpClientSendClose =
  sc_send :: bool

record CallOpServerSendStatus =
  ss_available :: bool
  ss_status :: "(StatusCode \<times> string) option"
  ss_metadata :: "(nat \<times> nat option) option"

record CallOpRecvInitialMetadata =
  ri_target :: bool
  ri_arr :: "metadata option"

record CallOpClientRecvStatus =
  rs_status :: bool
  rs_arr :: "metadata option"
  rs_code :: "StatusCode option"
  rs_details :: "nat option"

text \<open>The operation classes a set can be made of. \<open>CallOpGenericRecvMessage\<close> does what
  \<open>CallOpRecvMessage\<close> does, with an object in place of the type parameter.\<close>

datatype call_op =
    CallNoOp
  | SendInitial CallOpSendInitialMetadata
  | SendMsg CallOpSendMessage
  | RecvMsg CallOpRecvMessage
  | GenericRecvMsg CallOpRecvMessage
  | SendClose CallOpClientSendClose
  | SendStatus CallOpServerSendStatus
  | RecvInitial CallOpRecvInitialMetadata
  | RecvStatus CallOpClientRecvStatus


text \<open>The constructors of the classes, in the order of \<open>call_op\<close>.\<close>

definition send_initial_op :: call_op where
  "send_initial_op = SendInitial \<lparr>si_send = False, si_metadata = None\<rparr>"

definition send_message_op :: call_op where
  "send_message_op = SendMsg \<lparr>sm_send_buf = None, sm_write_options = WriteOptions_new, sm_own_buf = False\<rparr>"

definition recv_message_op :: call_op where
  "recv_message_op = RecvMsg \<lparr>rm_got_message = False, rm_message = False, rm_recv_buf = None\<rparr>"

definition generic_recv_message_op :: call_op where
  "generic_recv_message_op = GenericRecvMsg \<lparr>rm_got_message = False, rm_message = False, rm_recv_buf = None\<rparr>"

definition send_close_op :: call_op where
  "send_close_op = SendClose \<lparr>sc_send = False\<rparr>"

definition send_status_op :: call_op where
  "send_status_op = SendStatus \<lparr>ss_available = False, ss_status = None, ss_metadata = None\<rparr>"

definition recv_initial_op :: call_op where
  "recv_initial_op = RecvInitial \<lparr>ri_target = False, ri_arr = None\<rparr>"

definition recv_status_op :: call_op where
  "recv_status_op = RecvStatus \<lparr>rs_status = False, rs_arr = None, rs_code = None, rs_details = None\<rparr>"

section \<open>Sets of operations\<close>

text \<open>\<open>CallOpSet<Op1, ..., Op6>\<close>: the operations in the order of the template's arguments.\<close>

record CallOpSet =
  os_max_message_size :: int
  os_return_tag :: nat
  os_ops :: "call_op list"

definition CallOpSet_new :: "nat \<Rightarrow> call_op list \<Rightarrow> CallOpSet" where
  "CallOpSet_new this ops = \<lparr>os_max_message_size = 0, os_return_tag = this, os_ops = ops\<rparr>"

definition set_max_message_size :: "int \<Rightarrow> CallOpSet \<Rightarrow> CallOpSet" where
  "set_max_message_size max_message_size ops = ops\<lparr>os_max_message_size := max_message_size\<rparr>"

definition set_output_tag :: "nat \<Rightarrow> CallOpSet \<Rightarrow> CallOpSet" where
  "set_output_tag return_tag ops = ops\<lparr>os_return_tag := return_tag\<rparr>"

text \<open>A method of one of the classes, called on the set; a set without the class has no such method.\<close>

fun on_op :: "(call_op \<Rightarrow> ('x \<times> call_op) option) \<Rightarrow> call_op list \<Rightarrow> ('x \<times> call_op list) run" where
  "on_op f [] = Inl CheckFailed"
| "on_op f (op # ops) = (case f op of Some (x, op) \<Rightarrow> Inr (x, op # ops)
     | None \<Rightarrow> bnd (on_op f ops) (\<lambda>(x, ops). Inr (x, op # ops)))"

definition on_set :: "(call_op \<Rightarrow> ('x \<times> call_op) option) \<Rightarrow> CallOpSet \<Rightarrow> ('x \<times> CallOpSet) run" where
  "on_set f ops = bnd (on_op f (os_ops ops)) (\<lambda>(x, l). Inr (x, ops\<lparr>os_ops := l\<rparr>))"

definition SendInitialMetadata :: "metadata \<Rightarrow> CallOpSet \<Rightarrow> gheap \<Rightarrow> (CallOpSet \<times> gheap) run" where
  "SendInitialMetadata metadata ops h =
    bnd (on_set (\<lambda>op. case op of
         SendInitial o1 \<Rightarrow> (case FillMetadataArray metadata h of (arr, h) \<Rightarrow>
           Some (h, SendInitial (o1\<lparr>si_send := True, si_metadata := Some (length metadata, arr)\<rparr>)))
       | _ \<Rightarrow> None) ops) (\<lambda>(h, ops). Inr (ops, h))"

definition SendMessage_with ::
    "'m serial \<Rightarrow> 'm \<Rightarrow> WriteOptions \<Rightarrow> CallOpSet \<Rightarrow> gheap \<Rightarrow> (Status \<times> CallOpSet \<times> gheap) run" where
  "SendMessage_with S message options ops h =
    bnd (on_set (\<lambda>op. case op of
         SendMsg o1 \<Rightarrow> (case Traits_Serialize S message (sm_send_buf o1) h of (status, buf, own, h) \<Rightarrow>
           Some ((status, h), SendMsg (o1\<lparr>sm_write_options := options, sm_send_buf := buf, sm_own_buf := own\<rparr>)))
       | _ \<Rightarrow> None) ops) (\<lambda>((status, h), ops). Inr (status, ops, h))"

definition SendMessage :: "'m serial \<Rightarrow> 'm \<Rightarrow> CallOpSet \<Rightarrow> gheap \<Rightarrow> (Status \<times> CallOpSet \<times> gheap) run" where
  "SendMessage S message ops h = SendMessage_with S message WriteOptions_new ops h"

definition RecvMessage :: "CallOpSet \<Rightarrow> CallOpSet run" where
  "RecvMessage ops = bnd (on_set (\<lambda>op. case op of
       RecvMsg o1 \<Rightarrow> Some ((), RecvMsg (o1\<lparr>rm_message := True\<rparr>))
     | GenericRecvMsg o1 \<Rightarrow> Some ((), GenericRecvMsg (o1\<lparr>rm_message := True\<rparr>))
     | _ \<Rightarrow> None) ops) (\<lambda>(_, ops). Inr ops)"

definition ClientSendClose :: "CallOpSet \<Rightarrow> CallOpSet run" where
  "ClientSendClose ops = bnd (on_set (\<lambda>op. case op of
       SendClose o1 \<Rightarrow> Some ((), SendClose (o1\<lparr>sc_send := True\<rparr>)) | _ \<Rightarrow> None) ops) (\<lambda>(_, ops). Inr ops)"

definition ServerSendStatus :: "metadata \<Rightarrow> Status \<Rightarrow> CallOpSet \<Rightarrow> gheap \<Rightarrow> (CallOpSet \<times> gheap) run" where
  "ServerSendStatus trailing_metadata status ops h =
    bnd (on_set (\<lambda>op. case op of
         SendStatus o1 \<Rightarrow> (case FillMetadataArray trailing_metadata h of (arr, h) \<Rightarrow>
           Some (h, SendStatus (o1\<lparr>ss_metadata := Some (length trailing_metadata, arr), ss_available := True,
             ss_status := Some (error_code status, error_message status)\<rparr>)))
       | _ \<Rightarrow> None) ops) (\<lambda>(h, ops). Inr (ops, h))"

definition RecvInitialMetadata :: "CallOpSet \<Rightarrow> ('r, 'w) rpc \<Rightarrow> (CallOpSet \<times> ('r, 'w) rpc) run" where
  "RecvInitialMetadata ops st =
    bnd (on_set (\<lambda>op. case op of RecvInitial o1 \<Rightarrow> Some ((), RecvInitial (o1\<lparr>ri_target := True\<rparr>)) | _ \<Rightarrow> None) ops)
      (\<lambda>(_, ops). Inr (ops, st\<lparr>rc_client := (rc_client st)\<lparr>cc_initial_metadata_received := True\<rparr>\<rparr>))"

definition ClientRecvStatus :: "CallOpSet \<Rightarrow> CallOpSet run" where
  "ClientRecvStatus ops = bnd (on_set (\<lambda>op. case op of
       RecvStatus o1 \<Rightarrow> Some ((), RecvStatus (o1\<lparr>rs_status := True\<rparr>)) | _ \<Rightarrow> None) ops) (\<lambda>(_, ops). Inr ops)"

fun got_message :: "call_op list \<Rightarrow> bool" where
  "got_message [] = False"
| "got_message (RecvMsg o1 # ops) = rm_got_message o1"
| "got_message (GenericRecvMsg o1 # ops) = rm_got_message o1"
| "got_message (op # ops) = got_message ops"

section \<open>Filling a batch\<close>

definition known :: "'a option \<Rightarrow> 'a run" where
  "known x = (case x of None \<Rightarrow> Inl Uninitialised | Some v \<Rightarrow> Inr v)"

fun AddOp :: "call_op \<Rightarrow> grpc_op list \<Rightarrow> (call_op \<times> grpc_op list) run" where
  "AddOp CallNoOp ops = Inr (CallNoOp, ops)"
| "AddOp (SendInitial o1) ops =
    (if \<not> si_send o1 then Inr (SendInitial o1, ops)
     else bnd (known (si_metadata o1)) (\<lambda>(n, arr). Inr (SendInitial o1, ops @ [GRPC_OP_SEND_INITIAL_METADATA n arr])))"
| "AddOp (SendMsg o1) ops =
    (if sm_send_buf o1 = None then Inr (SendMsg o1, ops)
     else Inr (SendMsg (o1\<lparr>sm_write_options := WriteOptions_Clear (sm_write_options o1)\<rparr>),
       ops @ [GRPC_OP_SEND_MESSAGE (wo_flags (sm_write_options o1)) (sm_send_buf o1)]))"
| "AddOp (RecvMsg o1) ops =
    Inr (RecvMsg o1, if rm_message o1 then ops @ [GRPC_OP_RECV_MESSAGE] else ops)"
| "AddOp (GenericRecvMsg o1) ops =
    Inr (GenericRecvMsg o1, if rm_message o1 then ops @ [GRPC_OP_RECV_MESSAGE] else ops)"
| "AddOp (SendClose o1) ops =
    Inr (SendClose o1, if sc_send o1 then ops @ [GRPC_OP_SEND_CLOSE_FROM_CLIENT] else ops)"
| "AddOp (SendStatus o1) ops =
    (if \<not> ss_available o1 then Inr (SendStatus o1, ops)
     else bnd (known (ss_metadata o1)) (\<lambda>(n, arr). bnd (known (ss_status o1)) (\<lambda>(code, details).
       Inr (SendStatus o1, ops @ [GRPC_OP_SEND_STATUS_FROM_SERVER n arr code
         (if details = [] then None else Some (cstr details))]))))"
| "AddOp (RecvInitial o1) ops =
    (if \<not> ri_target o1 then Inr (RecvInitial o1, ops)
     else Inr (RecvInitial (o1\<lparr>ri_arr := Some []\<rparr>), ops @ [GRPC_OP_RECV_INITIAL_METADATA]))"
| "AddOp (RecvStatus o1) ops =
    (if \<not> rs_status o1 then Inr (RecvStatus o1, ops)
     else Inr (RecvStatus (o1\<lparr>rs_arr := Some [], rs_details := None\<rparr>), ops @ [GRPC_OP_RECV_STATUS_ON_CLIENT]))"

fun add_ops :: "call_op list \<Rightarrow> grpc_op list \<Rightarrow> (call_op list \<times> grpc_op list) run" where
  "add_ops [] filled = Inr ([], filled)"
| "add_ops (op # ops) filled = bnd (AddOp op filled) (\<lambda>(op, filled).
     bnd (add_ops ops filled) (\<lambda>(ops, filled). Inr (op # ops, filled)))"

definition FillOps :: "CallOpSet \<Rightarrow> (CallOpSet \<times> grpc_op list) run" where
  "FillOps ops = bnd (add_ops (os_ops ops) []) (\<lambda>(l, filled). Inr (ops\<lparr>os_ops := l\<rparr>, filled))"

section \<open>Finishing a batch\<close>

definition finish_recv ::
    "'r serial \<Rightarrow> int \<Rightarrow> CallOpRecvMessage \<Rightarrow> bool \<Rightarrow> ('r, 'w) rpc \<Rightarrow> (CallOpRecvMessage \<times> bool \<times> ('r, 'w) rpc) run" where
  "finish_recv S max_message_size o1 status st =
    (if \<not> rm_message o1 then Inr (o1, status, st)
     else bnd (known (rm_recv_buf o1)) (\<lambda>recv_buf.
       if recv_buf \<noteq> None then
         if status then
           bnd (Traits_Deserialize S recv_buf (rc_message st) max_message_size (rc_heap st)) (\<lambda>(s, msg, h).
             Inr (o1\<lparr>rm_got_message := True, rm_message := False\<rparr>, status_ok s, st\<lparr>rc_message := msg, rc_heap := h\<rparr>))
         else bnd (grpc_byte_buffer_destroy recv_buf (rc_heap st)) (\<lambda>h.
             Inr (o1\<lparr>rm_got_message := False, rm_message := False\<rparr>, status, st\<lparr>rc_heap := h\<rparr>))
       else Inr (o1\<lparr>rm_got_message := False, rm_message := False\<rparr>, False, st)))"

definition details_text :: "nat option \<Rightarrow> gheap \<Rightarrow> string run" where
  "details_text p h = (if p = None then Inr []
     else bnd (hp_read p h) (\<lambda>x. case x of Details s \<Rightarrow> Inr (cstr s) | _ \<Rightarrow> Inl Uninitialised))"

fun FinishOp ::
    "'r serial \<Rightarrow> int \<Rightarrow> call_op \<Rightarrow> bool \<Rightarrow> ('r, 'w) rpc \<Rightarrow> (call_op \<times> bool \<times> ('r, 'w) rpc) run" where
  "FinishOp S n CallNoOp status st = Inr (CallNoOp, status, st)"
| "FinishOp S n (SendInitial o1) status st =
    (if \<not> si_send o1 then Inr (SendInitial o1, status, st)
     else bnd (known (si_metadata o1)) (\<lambda>(_, arr). bnd (gpr_free arr (rc_heap st)) (\<lambda>h.
       Inr (SendInitial (o1\<lparr>si_send := False\<rparr>), status, st\<lparr>rc_heap := h\<rparr>))))"
| "FinishOp S n (SendMsg o1) status st =
    bnd (if sm_own_buf o1 then grpc_byte_buffer_destroy (sm_send_buf o1) (rc_heap st) else Inr (rc_heap st)) (\<lambda>h.
      Inr (SendMsg (o1\<lparr>sm_send_buf := None\<rparr>), status, st\<lparr>rc_heap := h\<rparr>))"
| "FinishOp S n (RecvMsg o1) status st =
    bnd (finish_recv S n o1 status st) (\<lambda>(o1, status, st). Inr (RecvMsg o1, status, st))"
| "FinishOp S n (GenericRecvMsg o1) status st =
    bnd (finish_recv S n o1 status st) (\<lambda>(o1, status, st). Inr (GenericRecvMsg o1, status, st))"
| "FinishOp S n (SendClose o1) status st = Inr (SendClose (o1\<lparr>sc_send := False\<rparr>), status, st)"
| "FinishOp S n (SendStatus o1) status st =
    (if \<not> ss_available o1 then Inr (SendStatus o1, status, st)
     else bnd (known (ss_metadata o1)) (\<lambda>(_, arr). bnd (gpr_free arr (rc_heap st)) (\<lambda>h.
       Inr (SendStatus (o1\<lparr>ss_available := False\<rparr>), status, st\<lparr>rc_heap := h\<rparr>))))"
| "FinishOp S n (RecvInitial o1) status st =
    (if \<not> ri_target o1 then Inr (RecvInitial o1, status, st)
     else bnd (known (ri_arr o1)) (\<lambda>arr. Inr (RecvInitial (o1\<lparr>ri_target := False\<rparr>), status,
       st\<lparr>rc_client := (rc_client st)\<lparr>cc_recv_initial_metadata := arr\<rparr>\<rparr>)))"
| "FinishOp S n (RecvStatus o1) status st =
    (if \<not> rs_status o1 then Inr (RecvStatus o1, status, st)
     else bnd (known (rs_arr o1)) (\<lambda>arr. bnd (known (rs_code o1)) (\<lambda>code.
       bnd (details_text (rs_details o1) (rc_heap st)) (\<lambda>text. bnd (gpr_free (rs_details o1) (rc_heap st)) (\<lambda>h.
       Inr (RecvStatus (o1\<lparr>rs_status := False\<rparr>), status,
         st\<lparr>rc_client := (rc_client st)\<lparr>cc_trailing_metadata := arr\<rparr>,
            rc_status := \<lparr>s_code = code, s_details = text\<rparr>, rc_heap := h\<rparr>))))))"

fun finish_ops ::
    "'r serial \<Rightarrow> int \<Rightarrow> call_op list \<Rightarrow> bool \<Rightarrow> ('r, 'w) rpc \<Rightarrow> (call_op list \<times> bool \<times> ('r, 'w) rpc) run" where
  "finish_ops S n [] status st = Inr ([], status, st)"
| "finish_ops S n (op # ops) status st = bnd (FinishOp S n op status st) (\<lambda>(op, status, st).
     bnd (finish_ops S n ops status st) (\<lambda>(ops, status, st). Inr (op # ops, status, st)))"

text \<open>It returns whether the tag is passed on, the tag and the status.\<close>

definition FinalizeResult ::
    "'r serial \<Rightarrow> CallOpSet \<Rightarrow> bool \<Rightarrow> ('r, 'w) rpc \<Rightarrow> ((bool \<times> nat \<times> bool) \<times> CallOpSet \<times> ('r, 'w) rpc) run" where
  "FinalizeResult S ops status st =
    bnd (finish_ops S (os_max_message_size ops) (os_ops ops) status st) (\<lambda>(l, status, st).
      Inr ((True, os_return_tag ops, status), ops\<lparr>os_ops := l\<rparr>, st))"

definition Sneaky_FinalizeResult ::
    "'r serial \<Rightarrow> CallOpSet \<Rightarrow> bool \<Rightarrow> ('r, 'w) rpc \<Rightarrow> ((bool \<times> nat \<times> bool) \<times> CallOpSet \<times> ('r, 'w) rpc) run" where
  "Sneaky_FinalizeResult S ops status st =
    bnd (FinalizeResult S ops status st) (\<lambda>((keep, tag, status), ops, st). Inr ((keep \<and> False, tag, status), ops, st))"

section \<open>Performing a batch\<close>

text \<open>What the core reads behind the pointers of a batch.\<close>

definition metadata_behind :: "nat option \<Rightarrow> gheap \<Rightarrow> metadata run" where
  "metadata_behind p h = bnd (hp_read p h) (\<lambda>x. case x of Metadata md \<Rightarrow> Inr md | _ \<Rightarrow> Inl Uninitialised)"

fun read_op :: "gheap \<Rightarrow> grpc_op \<Rightarrow> wire_op run" where
  "read_op h (GRPC_OP_SEND_INITIAL_METADATA n arr) =
    bnd (metadata_behind arr h) (\<lambda>md. if n \<le> length md then Inr (Send_initial (take n md)) else Inl OutOfBounds)"
| "read_op h (GRPC_OP_SEND_MESSAGE f buf) = bnd (buffer_bytes buf h) (\<lambda>bs. Inr (Send_message f bs))"
| "read_op h GRPC_OP_SEND_CLOSE_FROM_CLIENT = Inr Send_close"
| "read_op h (GRPC_OP_SEND_STATUS_FROM_SERVER n arr code details) =
    bnd (metadata_behind arr h) (\<lambda>md. if n \<le> length md then Inr (Send_status (take n md) code details) else Inl OutOfBounds)"
| "read_op h GRPC_OP_RECV_INITIAL_METADATA = Inr Recv_initial"
| "read_op h GRPC_OP_RECV_MESSAGE = Inr Recv_message"
| "read_op h GRPC_OP_RECV_STATUS_ON_CLIENT = Inr Recv_status"

fun read_ops :: "gheap \<Rightarrow> grpc_op list \<Rightarrow> wire_op list run" where
  "read_ops h [] = Inr []"
| "read_ops h (op # ops) = bnd (read_op h op) (\<lambda>x. bnd (read_ops h ops) (\<lambda>xs. Inr (x # xs)))"

text \<open>What it stores in the places that the operations of the batch name.\<close>

definition deliver_message :: "core_reply \<Rightarrow> CallOpRecvMessage \<Rightarrow> gheap \<Rightarrow> CallOpRecvMessage \<times> gheap" where
  "deliver_message re o1 h =
    (if \<not> rm_message o1 then (o1, h)
     else case re_message re of None \<Rightarrow> (o1\<lparr>rm_recv_buf := Some None\<rparr>, h)
       | Some bs \<Rightarrow> (case hp_new (Buffer bs) h of (p, h) \<Rightarrow> (o1\<lparr>rm_recv_buf := Some (Some p)\<rparr>, h)))"

fun deliver :: "core_reply \<Rightarrow> call_op \<Rightarrow> gheap \<Rightarrow> call_op \<times> gheap" where
  "deliver re (RecvMsg o1) h = (case deliver_message re o1 h of (o1, h) \<Rightarrow> (RecvMsg o1, h))"
| "deliver re (GenericRecvMsg o1) h = (case deliver_message re o1 h of (o1, h) \<Rightarrow> (GenericRecvMsg o1, h))"
| "deliver re (RecvInitial o1) h = (RecvInitial (if ri_target o1 then o1\<lparr>ri_arr := Some (re_initial re)\<rparr> else o1), h)"
| "deliver re (RecvStatus o1) h =
    (if \<not> rs_status o1 then (RecvStatus o1, h)
     else case re_details re of
         None \<Rightarrow> (RecvStatus (o1\<lparr>rs_arr := Some (re_trailing re), rs_code := Some (re_code re)\<rparr>), h)
       | Some s \<Rightarrow> (case hp_new (Details s) h of (p, h) \<Rightarrow>
           (RecvStatus (o1\<lparr>rs_arr := Some (re_trailing re), rs_code := Some (re_code re), rs_details := Some p\<rparr>), h)))"
| "deliver re op h = (op, h)"

fun deliver_all :: "core_reply \<Rightarrow> call_op list \<Rightarrow> gheap \<Rightarrow> call_op list \<times> gheap" where
  "deliver_all re [] h = ([], h)"
| "deliver_all re (op # ops) h = (case deliver re op h of (op, h) \<Rightarrow> (case deliver_all re ops h of (ops, h) \<Rightarrow> (op # ops, h)))"

text \<open>\<open>call.PerformOps(&ops)\<close> hands the batch to the core, which completes it; the result is whether the
  event was a success. \<open>cq.Pluck(&ops)\<close> waits for that event.\<close>

definition PerformOps :: "'w core \<Rightarrow> CallOpSet \<Rightarrow> ('r, 'w) rpc \<Rightarrow> (bool \<times> CallOpSet \<times> ('r, 'w) rpc) run" where
  "PerformOps C ops st =
    bnd (FillOps (set_max_message_size (gc_max_message_size C) ops)) (\<lambda>(ops, filled).
    bnd (read_ops (rc_heap st) filled) (\<lambda>wire.
    case gc_batch C wire (rc_core st) of (re, w) \<Rightarrow>
      (case deliver_all re (os_ops ops) (rc_heap st) of (l, h) \<Rightarrow>
        Inr (re_success re, ops\<lparr>os_ops := l\<rparr>, st\<lparr>rc_heap := h, rc_core := w, rc_log := rc_log st @ [wire]\<rparr>))))"

definition Pluck :: "'w core \<Rightarrow> 'r serial \<Rightarrow> bool \<Rightarrow> CallOpSet \<Rightarrow> ('r, 'w) rpc \<Rightarrow> (bool \<times> CallOpSet \<times> ('r, 'w) rpc) run" where
  "Pluck C S event ops st =
    bnd (FinalizeResult S ops event st) (\<lambda>((_, _, status), ops, st). Inr (gc_pluck C event status, ops, st))"

definition perform ::
    "'w core \<Rightarrow> 'r serial \<Rightarrow> CallOpSet \<Rightarrow> ('r, 'w) rpc \<Rightarrow> (bool \<times> CallOpSet \<times> ('r, 'w) rpc) run" where
  "perform C S ops st = bnd (PerformOps C ops st) (\<lambda>(event, ops, st). Pluck C S event ops st)"

section \<open>What a batch does\<close>

text \<open>An operation of a set stands for the wire operations \<open>ws\<close>: none when it is not in use. \<open>ready\<close> is its
  state before the batch, \<open>loaded\<close> when the core has stored its reply; \<open>op_ptrs\<close> are the objects it will
  destroy.\<close>

fun ready :: "gheap \<Rightarrow> call_op \<Rightarrow> wire_op list \<Rightarrow> bool" where
  "ready h CallNoOp ws \<longleftrightarrow> ws = []"
| "ready h (SendInitial o1) ws \<longleftrightarrow> (if si_send o1 then \<exists>p md. si_metadata o1 = Some (length md, Some p) \<and>
     hp_cells h p = Some (Metadata md) \<and> ws = [Send_initial md] else ws = [])"
| "ready h (SendMsg o1) ws \<longleftrightarrow> (case sm_send_buf o1 of None \<Rightarrow> ws = []
     | Some p \<Rightarrow> sm_own_buf o1 \<and> (\<exists>bs. hp_cells h p = Some (Buffer bs) \<and> ws = [Send_message (wo_flags (sm_write_options o1)) bs]))"
| "ready h (RecvMsg o1) ws \<longleftrightarrow> ws = (if rm_message o1 then [Recv_message] else [])"
| "ready h (GenericRecvMsg o1) ws \<longleftrightarrow> ws = (if rm_message o1 then [Recv_message] else [])"
| "ready h (SendClose o1) ws \<longleftrightarrow> ws = (if sc_send o1 then [Send_close] else [])"
| "ready h (SendStatus o1) ws \<longleftrightarrow> (if ss_available o1 then \<exists>p md code details. ss_metadata o1 = Some (length md, Some p) \<and>
     hp_cells h p = Some (Metadata md) \<and> ss_status o1 = Some (code, details) \<and>
     ws = [Send_status md code (if details = [] then None else Some (cstr details))] else ws = [])"
| "ready h (RecvInitial o1) ws \<longleftrightarrow> ws = (if ri_target o1 then [Recv_initial] else [])"
| "ready h (RecvStatus o1) ws \<longleftrightarrow> ws = (if rs_status o1 then [Recv_status] else [])"

definition recv_ptrs :: "CallOpRecvMessage \<Rightarrow> nat list" where
  "recv_ptrs o1 = (if rm_message o1 then (case rm_recv_buf o1 of Some (Some p) \<Rightarrow> [p] | _ \<Rightarrow> []) else [])"

fun send_ptrs :: "call_op \<Rightarrow> nat list" where
  "send_ptrs (SendInitial o1) = (if si_send o1 then (case si_metadata o1 of Some (_, Some p) \<Rightarrow> [p] | _ \<Rightarrow> []) else [])"
| "send_ptrs (SendMsg o1) = (case sm_send_buf o1 of None \<Rightarrow> [] | Some p \<Rightarrow> [p])"
| "send_ptrs (SendStatus o1) = (if ss_available o1 then (case ss_metadata o1 of Some (_, Some p) \<Rightarrow> [p] | _ \<Rightarrow> []) else [])"
| "send_ptrs op = []"

fun op_ptrs :: "call_op \<Rightarrow> nat list" where
  "op_ptrs (RecvMsg o1) = recv_ptrs o1"
| "op_ptrs (GenericRecvMsg o1) = recv_ptrs o1"
| "op_ptrs (RecvStatus o1) = (if rs_status o1 then (case rs_details o1 of None \<Rightarrow> [] | Some p \<Rightarrow> [p]) else [])"
| "op_ptrs op = send_ptrs op"

definition loaded_recv :: "core_reply \<Rightarrow> gheap \<Rightarrow> CallOpRecvMessage \<Rightarrow> wire_op list \<Rightarrow> bool" where
  "loaded_recv re h o1 ws \<longleftrightarrow> (if rm_message o1 then ws = [Recv_message] \<and>
     (case re_message re of None \<Rightarrow> rm_recv_buf o1 = Some None
      | Some bs \<Rightarrow> \<exists>p. rm_recv_buf o1 = Some (Some p) \<and> hp_cells h p = Some (Buffer bs)) else ws = [])"

fun loaded :: "core_reply \<Rightarrow> gheap \<Rightarrow> call_op \<Rightarrow> wire_op list \<Rightarrow> bool" where
  "loaded re h (RecvMsg o1) ws \<longleftrightarrow> loaded_recv re h o1 ws"
| "loaded re h (GenericRecvMsg o1) ws \<longleftrightarrow> loaded_recv re h o1 ws"
| "loaded re h (RecvInitial o1) ws \<longleftrightarrow> (if ri_target o1 then ws = [Recv_initial] \<and> ri_arr o1 = Some (re_initial re) else ws = [])"
| "loaded re h (RecvStatus o1) ws \<longleftrightarrow> (if rs_status o1 then ws = [Recv_status] \<and> rs_arr o1 = Some (re_trailing re) \<and>
     rs_code o1 = Some (re_code re) \<and> (case re_details re of None \<Rightarrow> rs_details o1 = None
      | Some s \<Rightarrow> \<exists>p. rs_details o1 = Some p \<and> hp_cells h p = Some (Details s)) else ws = [])"
| "loaded re h (SendMsg o1) ws \<longleftrightarrow> (case sm_send_buf o1 of None \<Rightarrow> ws = []
     | Some p \<Rightarrow> sm_own_buf o1 \<and> p \<in> live h \<and> (\<exists>f bs. ws = [Send_message f bs]))"
| "loaded re h (SendInitial o1) ws \<longleftrightarrow> (if si_send o1 then \<exists>n p md. si_metadata o1 = Some (n, Some p) \<and> p \<in> live h \<and>
     ws = [Send_initial md] else ws = [])"
| "loaded re h (SendStatus o1) ws \<longleftrightarrow> (if ss_available o1 then \<exists>n p md code details. ss_metadata o1 = Some (n, Some p) \<and>
     p \<in> live h \<and> ws = [Send_status md code details] else ws = [])"
| "loaded re h op ws \<longleftrightarrow> ws = (if op = SendClose \<lparr>sc_send = True\<rparr> then [Send_close] else [])"

text \<open>What the caller sees of a completed batch, wire operation by wire operation.\<close>

fun settle_op ::
    "'r serial \<Rightarrow> int \<Rightarrow> core_reply \<Rightarrow> wire_op \<Rightarrow> bool \<times> ('r, 'w) rpc \<Rightarrow> bool \<times> ('r, 'w) rpc" where
  "settle_op S n re Recv_message (status, st) = (case re_message re of None \<Rightarrow> (False, st)
     | Some bs \<Rightarrow> if status then (case sr_DeserializeProto S bs n (rc_message st) of (s, msg) \<Rightarrow>
           (status_ok s, st\<lparr>rc_message := msg\<rparr>)) else (status, st))"
| "settle_op S n re Recv_initial (status, st) =
     (status, st\<lparr>rc_client := (rc_client st)\<lparr>cc_recv_initial_metadata := re_initial re\<rparr>\<rparr>)"
| "settle_op S n re Recv_status (status, st) = (status, st\<lparr>rc_client := (rc_client st)\<lparr>cc_trailing_metadata := re_trailing re\<rparr>,
     rc_status := \<lparr>s_code = re_code re, s_details = (case re_details re of None \<Rightarrow> [] | Some s \<Rightarrow> cstr s)\<rparr>\<rparr>)"
| "settle_op S n re w x = x"

definition settle ::
    "'r serial \<Rightarrow> int \<Rightarrow> core_reply \<Rightarrow> wire_op list \<Rightarrow> bool \<times> ('r, 'w) rpc \<Rightarrow> bool \<times> ('r, 'w) rpc" where
  "settle S n re ws x = fold (settle_op S n re) ws x"

lemma settle_simps [simp]: "settle S n re [] x = x"
  "settle S n re (w # ws) x = settle S n re ws (settle_op S n re w x)"
  "settle S n re (ws @ vs) x = settle S n re vs (settle S n re ws x)"
  by (simp_all add: settle_def)

text \<open>Objects gone from the heap.\<close>

definition drop_cells :: "nat list \<Rightarrow> gheap \<Rightarrow> gheap" where
  "drop_cells ps h = h\<lparr>hp_cells := \<lambda>p. if p \<in> set ps then None else hp_cells h p\<rparr>"

lemma drop_cells_simps [simp]: "drop_cells [] h = h" "drop_cells qs (drop_cells ps h) = drop_cells (ps @ qs) h"
  "hp_cells (drop_cells ps h) p = (if p \<in> set ps then None else hp_cells h p)"
  by (auto simp: drop_cells_def intro!: heap.equality)

lemma live_drop [simp]: "live (drop_cells ps h) = live h - set ps"
  by (auto simp: live_def split: if_splits)

lemma wf_drop:
  assumes "wf_heap h" and "owned h \<inter> set ps = {}"
  shows "wf_heap (drop_cells ps h)"
proof -
  have "owned (drop_cells ps h) = owned h" "hp_next (drop_cells ps h) = hp_next h" by (simp_all add: drop_cells_def owned_def)
  then show ?thesis using assms unfolding wf_heap_def live_drop by auto
qed

lemma destroy_drop: "p \<in> live h \<Longrightarrow> hp_delete (Some p) h = Inr (drop_cells [p] h)"
  by (auto simp: hp_delete_def drop_cells_def in_live fun_eq_iff intro!: heap.equality)

lemma settle_op_heap:
  "settle_op S n re w (status, st\<lparr>rc_heap := h\<rparr>) = (case settle_op S n re w (status, st) of (s, t) \<Rightarrow> (s, t\<lparr>rc_heap := h\<rparr>))"
  by (cases w) (auto split: option.split prod.split)

lemma settle_heap:
  "settle S n re ws (status, st\<lparr>rc_heap := h\<rparr>) = (case settle S n re ws (status, st) of (s, t) \<Rightarrow> (s, t\<lparr>rc_heap := h\<rparr>))"
proof (induction ws arbitrary: status st)
  case (Cons w ws)
  then show ?case by (cases "settle_op S n re w (status, st)") (simp add: settle_op_heap)
qed simp

text \<open>Finishing one operation.\<close>

lemma finish_recv_is:
  assumes "loaded_recv re h o1 ws"
  shows "\<exists>o2 s t. settle S n re ws (status, st\<lparr>rc_heap := h\<rparr>) = (s, t) \<and>
    finish_recv S n o1 status (st\<lparr>rc_heap := h\<rparr>) = Inr (o2, s, t\<lparr>rc_heap := drop_cells (recv_ptrs o1) h\<rparr>) \<and>
    (rm_message o1 \<longrightarrow> rm_got_message o2 = (status \<and> re_message re \<noteq> None))"
proof (cases "rm_message o1")
  case False
  then show ?thesis using assms by (simp add: loaded_recv_def finish_recv_def recv_ptrs_def)
next
  case True
  show ?thesis
  proof (cases "re_message re")
    case None
    then show ?thesis using True assms by (auto simp: loaded_recv_def finish_recv_def recv_ptrs_def known_def)
  next
    case (Some bs)
    then obtain p where p: "rm_recv_buf o1 = Some (Some p)" "hp_cells h p = Some (Buffer bs)"
      using True assms by (auto simp: loaded_recv_def)
    then have "p \<in> live h" by (simp add: in_live)
    then show ?thesis using True Some assms p
      by (cases "sr_DeserializeProto S bs n (rc_message st)")
        (auto simp: loaded_recv_def finish_recv_def recv_ptrs_def known_def Traits_Deserialize_def buffer_bytes_def
          grpc_byte_buffer_destroy_def destroy_drop)
  qed
qed

definition is_recv :: "call_op \<Rightarrow> bool" where
  "is_recv op = (case op of RecvMsg _ \<Rightarrow> True | GenericRecvMsg _ \<Rightarrow> True | _ \<Rightarrow> False)"

text \<open>Only receiving a message touches the status of the batch and \<open>got_message\<close>.\<close>

definition got_ok :: "core_reply \<Rightarrow> call_op \<Rightarrow> bool \<Rightarrow> call_op \<Rightarrow> bool \<Rightarrow> wire_op list \<Rightarrow> bool" where
  "got_ok re op status op' s ws \<longleftrightarrow> is_recv op' = is_recv op \<and>
     (if is_recv op then ws = [] \<or> (\<forall>ops. got_message (op' # ops) = (status \<and> re_message re \<noteq> None))
      else s = status \<and> Recv_message \<notin> set ws \<and> (\<forall>ops. got_message (op' # ops) = got_message ops))"

lemma FinishOp_is:
  assumes "loaded re h op ws"
  shows "\<exists>op' s t. settle S n re ws (status, st\<lparr>rc_heap := h\<rparr>) = (s, t) \<and>
    FinishOp S n op status (st\<lparr>rc_heap := h\<rparr>) = Inr (op', s, t\<lparr>rc_heap := drop_cells (op_ptrs op) h\<rparr>) \<and>
    got_ok re op status op' s ws"
proof (cases op)
  case (RecvMsg o1)
  then show ?thesis using finish_recv_is[of re h o1 ws S n status st] assms
    by (auto simp: got_ok_def is_recv_def loaded_recv_def split: if_splits)
next
  case (GenericRecvMsg o1)
  then show ?thesis using finish_recv_is[of re h o1 ws S n status st] assms
    by (auto simp: got_ok_def is_recv_def loaded_recv_def split: if_splits)
next
  case (SendMsg o1)
  then show ?thesis using assms
    by (cases "sm_send_buf o1"; cases "sm_own_buf o1")
      (auto simp: grpc_byte_buffer_destroy_def destroy_drop got_ok_def is_recv_def)
next
  case (RecvStatus o1)
  then show ?thesis using assms
    by (cases "rs_status o1"; cases "re_details re")
      (auto simp: known_def details_text_def gpr_free_def destroy_drop in_live got_ok_def is_recv_def)
next
  case (SendClose o1)
  then show ?thesis using assms by (cases o1) (auto simp: got_ok_def is_recv_def split: if_splits)
next
  case (SendInitial o1)
  then show ?thesis using assms
    by (cases "si_send o1") (auto simp: known_def gpr_free_def destroy_drop got_ok_def is_recv_def)
next
  case (SendStatus o1)
  then show ?thesis using assms
    by (cases "ss_available o1") (auto simp: known_def gpr_free_def destroy_drop got_ok_def is_recv_def)
next
  case (RecvInitial o1)
  then show ?thesis using assms
    by (cases "ri_target o1") (auto simp: known_def got_ok_def is_recv_def)
qed (use assms in \<open>simp add: got_ok_def is_recv_def\<close>)

lemma loaded_recv_drop:
  "loaded_recv re h o1 ws \<Longrightarrow> set (recv_ptrs o1) \<inter> set ps = {} \<Longrightarrow> loaded_recv re (drop_cells ps h) o1 ws"
  by (cases "re_message re"; cases "rm_message o1") (auto simp: loaded_recv_def recv_ptrs_def)

lemma loaded_drop:
  assumes "loaded re h op ws" and "set (op_ptrs op) \<inter> set ps = {}"
  shows "loaded re (drop_cells ps h) op ws"
proof (cases op)
  case (RecvMsg o1)
  then show ?thesis using assms loaded_recv_drop by simp
next
  case (GenericRecvMsg o1)
  then show ?thesis using assms loaded_recv_drop by simp
next
  case (SendMsg o1)
  then show ?thesis using assms by (cases "sm_send_buf o1") auto
next
  case (RecvStatus o1)
  then show ?thesis using assms by (cases "rs_status o1"; cases "re_details re") auto
next
  case (SendInitial o1)
  then show ?thesis using assms by (cases "si_send o1") auto
next
  case (SendStatus o1)
  then show ?thesis using assms by (cases "ss_available o1") auto
qed (use assms in simp_all)

definition one_recv :: "call_op list \<Rightarrow> bool" where
  "one_recv ops \<longleftrightarrow> length (filter is_recv ops) \<le> 1"

lemma finish_ops_is:
  assumes "list_all2 (loaded re h) ops wss" and "distinct (concat (map op_ptrs ops))" and "one_recv ops"
  shows "\<exists>ops' s t. settle S n re (concat wss) (status, st\<lparr>rc_heap := h\<rparr>) = (s, t) \<and>
    finish_ops S n ops status (st\<lparr>rc_heap := h\<rparr>) = Inr (ops', s, t\<lparr>rc_heap := drop_cells (concat (map op_ptrs ops)) h\<rparr>) \<and>
    (Recv_message \<in> set (concat wss) \<longrightarrow> got_message ops' = (status \<and> re_message re \<noteq> None))"
  using assms
proof (induction ops arbitrary: wss h status st)
  case Nil
  then show ?case by simp
next
  case (Cons op ops)
  then obtain ws wss' where w: "wss = ws # wss'" "loaded re h op ws" "list_all2 (loaded re h) ops wss'"
    by (cases wss) auto
  obtain op' s t where f: "settle S n re ws (status, st\<lparr>rc_heap := h\<rparr>) = (s, t)"
      "FinishOp S n op status (st\<lparr>rc_heap := h\<rparr>) = Inr (op', s, t\<lparr>rc_heap := drop_cells (op_ptrs op) h\<rparr>)"
      "got_ok re op status op' s ws"
    using FinishOp_is[OF w(2)] by blast
  let ?h = "drop_cells (op_ptrs op) h"
  have "loaded re ?h op2 ws2" if "op2 \<in> set ops" "loaded re h op2 ws2" for op2 ws2
    using Cons.prems(2) that by (intro loaded_drop) auto
  then have "list_all2 (loaded re ?h) ops wss'" using list.rel_mono_strong[OF w(3)] by blast
  moreover have "distinct (concat (map op_ptrs ops))" using Cons.prems(2) by simp
  moreover have "one_recv ops" using Cons.prems(3) by (simp add: one_recv_def split: if_splits)
  ultimately obtain ops' s' t' where g: "settle S n re (concat wss') (s, t\<lparr>rc_heap := ?h\<rparr>) = (s', t')"
      "finish_ops S n ops s (t\<lparr>rc_heap := ?h\<rparr>) = Inr (ops', s', t'\<lparr>rc_heap := drop_cells (concat (map op_ptrs ops)) ?h\<rparr>)"
      "Recv_message \<in> set (concat wss') \<longrightarrow> got_message ops' = (s \<and> re_message re \<noteq> None)"
    using Cons.IH by blast
  obtain s2 t2 where st2: "settle S n re (concat wss') (s, t) = (s2, t2)" by (cases "settle S n re (concat wss') (s, t)")
  then have eq: "s' = s2" "t' = t2\<lparr>rc_heap := ?h\<rparr>" using g(1) by (simp_all add: settle_heap)
  have rest: "Recv_message \<notin> set (concat wss')" if r: "is_recv op"
  proof -
    have "filter is_recv ops = []" using Cons.prems(3) r by (simp add: one_recv_def)
    then have "\<not> is_recv op2" if "op2 \<in> set ops" for op2 using that by (simp add: filter_empty_conv)
    moreover have "Recv_message \<notin> set ws2" if "loaded re h op2 ws2" "\<not> is_recv op2" for op2 ws2
      using that by (cases op2) (auto simp: is_recv_def split: if_splits option.splits)
    ultimately show ?thesis using w(3)
      by (auto simp: list_all2_conv_all_nth in_set_conv_nth) (metis nth_mem)
  qed
  have "got_message (op' # ops') = (status \<and> re_message re \<noteq> None)" if "Recv_message \<in> set (concat wss)"
    using that f(3) g(3) rest w(1) by (cases "is_recv op") (auto simp: got_ok_def)
  then show ?case using f g(2) w(1) st2 eq by simp
qed

section \<open>A batch from start to end\<close>

fun armed :: "gheap \<Rightarrow> call_op \<Rightarrow> wire_op list \<Rightarrow> bool" where
  "armed h (RecvMsg o1) ws \<longleftrightarrow> ws = (if rm_message o1 then [Recv_message] else [])"
| "armed h (GenericRecvMsg o1) ws \<longleftrightarrow> ws = (if rm_message o1 then [Recv_message] else [])"
| "armed h (RecvInitial o1) ws \<longleftrightarrow> ws = (if ri_target o1 then [Recv_initial] else [])"
| "armed h (RecvStatus o1) ws \<longleftrightarrow> (if rs_status o1 then ws = [Recv_status] \<and> rs_arr o1 = Some [] \<and> rs_details o1 = None else ws = [])"
| "armed h op ws \<longleftrightarrow> (\<forall>re. loaded re h op ws)"

lemma AddOp_is:
  assumes "ready h op ws"
  shows "\<exists>op1 gs. AddOp op filled = Inr (op1, filled @ gs) \<and> read_ops h gs = Inr ws \<and> armed h op1 ws \<and>
    send_ptrs op1 = send_ptrs op \<and> is_recv op1 = is_recv op"
proof (cases op)
  case (SendInitial o1)
  then show ?thesis using assms
    by (cases "si_send o1") (auto simp: known_def metadata_behind_def is_recv_def in_live intro: exI[of _ "[]"])
next
  case (SendMsg o1)
  then show ?thesis using assms
    by (cases "sm_send_buf o1") (auto simp: buffer_bytes_def is_recv_def in_live intro: exI[of _ "[]"])
next
  case (SendStatus o1)
  then show ?thesis using assms
    by (cases "ss_available o1") (auto simp: known_def metadata_behind_def is_recv_def in_live intro: exI[of _ "[]"])
next
  case (SendClose o1)
  then show ?thesis using assms by (cases o1) (auto simp: is_recv_def)
qed (use assms in \<open>auto simp: is_recv_def\<close>)

lemma read_ops_append: "read_ops h xs = Inr ws \<Longrightarrow> read_ops h ys = Inr vs \<Longrightarrow> read_ops h (xs @ ys) = Inr (ws @ vs)"
  by (induction xs arbitrary: ws) (auto simp: bnd_eq_Inr)

lemma add_ops_is:
  assumes "list_all2 (ready h) ops wss" and "read_ops h filled = Inr vs"
  shows "\<exists>ops1 gs. add_ops ops filled = Inr (ops1, gs) \<and> read_ops h gs = Inr (vs @ concat wss) \<and>
    list_all2 (armed h) ops1 wss \<and> map send_ptrs ops1 = map send_ptrs ops \<and> map is_recv ops1 = map is_recv ops"
  using assms
proof (induction ops arbitrary: wss filled vs)
  case (Cons op ops)
  then obtain ws wss' where w: "wss = ws # wss'" "ready h op ws" "list_all2 (ready h) ops wss'" by (cases wss) auto
  obtain op1 gs where a: "AddOp op filled = Inr (op1, filled @ gs)" "read_ops h gs = Inr ws" "armed h op1 ws"
      "send_ptrs op1 = send_ptrs op" "is_recv op1 = is_recv op"
    using AddOp_is[OF w(2)] by blast
  from Cons.IH[OF w(3) read_ops_append[OF Cons.prems(2) a(2)]]
  obtain ops1 gs' where "add_ops ops (filled @ gs) = Inr (ops1, gs')" "read_ops h gs' = Inr ((vs @ ws) @ concat wss')"
      "list_all2 (armed h) ops1 wss'" "map send_ptrs ops1 = map send_ptrs ops" "map is_recv ops1 = map is_recv ops"
    by blast
  then show ?case using a w(1) by simp
qed simp

text \<open>The heap after the core has stored its reply: new objects only.\<close>

definition grown_by :: "gheap \<Rightarrow> gheap \<Rightarrow> bool" where
  "grown_by h h' \<longleftrightarrow> wf_heap h' \<and> hp_next h \<le> hp_next h' \<and> hp_owned h' = hp_owned h \<and>
     live h' = live h \<union> {hp_next h..<hp_next h'} \<and> (\<forall>p \<in> live h. hp_cells h' p = hp_cells h p)"

lemma grown_by_refl: "wf_heap h \<Longrightarrow> grown_by h h"
  by (simp add: grown_by_def)

lemma grown_by_new:
  assumes "wf_heap h"
  shows "grown_by h (snd (hp_new x h))" and "hp_next (snd (hp_new x h)) = Suc (hp_next h)" and "fst (hp_new x h) = hp_next h"
    and "hp_cells (snd (hp_new x h)) (hp_next h) = Some x"
proof -
  note f = hp_new_fresh[OF assms, of x "fst (hp_new x h)" "snd (hp_new x h)", simplified]
  show n: "hp_next (snd (hp_new x h)) = Suc (hp_next h)" "fst (hp_new x h) = hp_next h" by (simp_all add: hp_new_def)
  show "hp_cells (snd (hp_new x h)) (hp_next h) = Some x" using f(3) n by simp
  have "hp_next h \<notin> live h" using f(1) n by simp
  then have "\<forall>p \<in> live h. hp_cells (snd (hp_new x h)) p = hp_cells h p" using f(3) n by auto
  then show "grown_by h (snd (hp_new x h))" using f n by (auto simp: grown_by_def)
qed

lemma grown_by_trans: "grown_by h h1 \<Longrightarrow> grown_by h1 h2 \<Longrightarrow> grown_by h h2"
  unfolding grown_by_def by auto

lemma loaded_grown:
  assumes "loaded re h op ws" and "grown_by h h'"
  shows "loaded re h' op ws"
proof -
  have k: "hp_cells h p = Some x \<Longrightarrow> hp_cells h' p = Some x" and l: "p \<in> live h \<Longrightarrow> p \<in> live h'" for p x
    using assms(2) unfolding grown_by_def by (auto simp: in_live)
  have r: "loaded_recv re h o1 ws \<Longrightarrow> loaded_recv re h' o1 ws" for o1
    using k by (auto simp: loaded_recv_def split: option.splits if_splits)
  show ?thesis using assms(1) k l r by (cases op) (auto split: option.splits if_splits)
qed

lemma armed_grown:
  assumes "armed h op ws" and "grown_by h h'"
  shows "armed h' op ws"
proof -
  have l: "p \<in> live h \<Longrightarrow> p \<in> live h'" for p using assms(2) unfolding grown_by_def by auto
  show ?thesis using assms(1) l by (cases op) (auto split: option.splits if_splits)
qed

text \<open>What the core stores is an object behind the operation that asked for it.\<close>

lemma deliver_is:
  assumes "armed h op ws" and "wf_heap h"
  shows "\<exists>op2 h2. deliver re op h = (op2, h2) \<and> loaded re h2 op2 ws \<and> grown_by h h2 \<and>
    set (op_ptrs op2) = set (send_ptrs op) \<union> {hp_next h..<hp_next h2} \<and>
    length (op_ptrs op2) = length (send_ptrs op) + (hp_next h2 - hp_next h) \<and> is_recv op2 = is_recv op"
proof -
  note g = grown_by_new[OF assms(2)] and r = grown_by_refl[OF assms(2)]
  have recv: "\<exists>o2 h2. deliver_message re o1 h = (o2, h2) \<and> loaded_recv re h2 o2 (if rm_message o1 then [Recv_message] else []) \<and>
      grown_by h h2 \<and> set (recv_ptrs o2) = {hp_next h..<hp_next h2} \<and> length (recv_ptrs o2) = hp_next h2 - hp_next h" for o1
  proof (cases "rm_message o1")
    case False
    then have "deliver_message re o1 h = (o1, h)" "loaded_recv re h o1 []" "recv_ptrs o1 = []"
      by (simp_all add: deliver_message_def loaded_recv_def recv_ptrs_def)
    then show ?thesis using r False by (intro exI[of _ o1] exI[of _ h]) simp
  next
    case True
    show ?thesis
    proof (cases "re_message re")
      case None
      let ?o = "o1\<lparr>rm_recv_buf := Some None\<rparr>"
      have "deliver_message re o1 h = (?o, h)" "loaded_recv re h ?o [Recv_message]" "recv_ptrs ?o = []"
        using True None by (simp_all add: deliver_message_def loaded_recv_def recv_ptrs_def)
      then show ?thesis using r True by (intro exI[of _ ?o] exI[of _ h]) simp
    next
      case (Some bs)
      let ?o = "o1\<lparr>rm_recv_buf := Some (Some (hp_next h))\<rparr>"
      obtain h' where n: "hp_new (Buffer bs) h = (hp_next h, h')" "grown_by h h'" "hp_next h' = Suc (hp_next h)"
          "hp_cells h' (hp_next h) = Some (Buffer bs)"
        using g[of "Buffer bs"] by (cases "hp_new (Buffer bs) h") simp
      then have "deliver_message re o1 h = (?o, h')" "loaded_recv re h' ?o [Recv_message]" "recv_ptrs ?o = [hp_next h]"
        using True Some by (simp_all add: deliver_message_def loaded_recv_def recv_ptrs_def)
      then show ?thesis using True n(2,3) by (intro exI[of _ ?o] exI[of _ h']) auto
    qed
  qed
  have plain: ?thesis if "deliver re op h = (op, h)" "op_ptrs op = send_ptrs op" "loaded re h op ws"
    using that r by (intro exI[of _ op] exI[of _ h]) simp
  show ?thesis
  proof (cases op)
    case (RecvMsg o1)
    obtain o2 h2 where "deliver_message re o1 h = (o2, h2)" "loaded_recv re h2 o2 (if rm_message o1 then [Recv_message] else [])"
      "grown_by h h2" "set (recv_ptrs o2) = {hp_next h..<hp_next h2}" "length (recv_ptrs o2) = hp_next h2 - hp_next h"
      using recv by blast
    then show ?thesis using RecvMsg assms(1) by (intro exI[of _ "RecvMsg o2"] exI[of _ h2]) (simp add: is_recv_def)
  next
    case (GenericRecvMsg o1)
    obtain o2 h2 where "deliver_message re o1 h = (o2, h2)" "loaded_recv re h2 o2 (if rm_message o1 then [Recv_message] else [])"
      "grown_by h h2" "set (recv_ptrs o2) = {hp_next h..<hp_next h2}" "length (recv_ptrs o2) = hp_next h2 - hp_next h"
      using recv by blast
    then show ?thesis using GenericRecvMsg assms(1) by (intro exI[of _ "GenericRecvMsg o2"] exI[of _ h2]) (simp add: is_recv_def)
  next
    case (RecvStatus o1)
    show ?thesis
    proof (cases "rs_status o1 \<and> re_details re \<noteq> None")
      case True
      then obtain s where s: "re_details re = Some s" by blast
      let ?o = "o1\<lparr>rs_arr := Some (re_trailing re), rs_code := Some (re_code re), rs_details := Some (hp_next h)\<rparr>"
      obtain h' where n: "hp_new (Details s) h = (hp_next h, h')" "grown_by h h'" "hp_next h' = Suc (hp_next h)"
          "hp_cells h' (hp_next h) = Some (Details s)"
        using g[of "Details s"] by (cases "hp_new (Details s) h") simp
      then have "deliver re op h = (RecvStatus ?o, h')" using True s RecvStatus by simp
      then show ?thesis using RecvStatus True assms(1) s n(2-4)
        by (intro exI[of _ "RecvStatus ?o"] exI[of _ h']) (auto simp: is_recv_def)
    next
      case False
      show ?thesis
      proof (cases "rs_status o1")
        case True
        let ?o = "o1\<lparr>rs_arr := Some (re_trailing re), rs_code := Some (re_code re)\<rparr>"
        have "deliver re op h = (RecvStatus ?o, h)" using True False RecvStatus by simp
        then show ?thesis using True False RecvStatus assms(1) r
          by (intro exI[of _ "RecvStatus ?o"] exI[of _ h]) (simp add: is_recv_def)
      next
        case f: False
        then show ?thesis using RecvStatus assms(1) by (intro plain) simp_all
      qed
    qed
  next
    case (RecvInitial o1)
    show ?thesis
    proof (cases "ri_target o1")
      case True
      let ?o = "o1\<lparr>ri_arr := Some (re_initial re)\<rparr>"
      have "deliver re op h = (RecvInitial ?o, h)" using True RecvInitial by simp
      then show ?thesis using True RecvInitial assms(1) r
        by (intro exI[of _ "RecvInitial ?o"] exI[of _ h]) (simp add: is_recv_def)
    next
      case False
      then show ?thesis using RecvInitial assms(1) by (intro plain) simp_all
    qed
  next
    case CallNoOp
    then have "loaded re h op ws" using assms(1) unfolding CallNoOp armed.simps by blast
    then show ?thesis using CallNoOp by (intro plain) simp_all
  next
    case (SendInitial o1)
    then have "loaded re h op ws" using assms(1) unfolding SendInitial armed.simps by blast
    then show ?thesis using SendInitial by (intro plain) simp_all
  next
    case (SendMsg o1)
    then have "loaded re h op ws" using assms(1) unfolding SendMsg armed.simps by blast
    then show ?thesis using SendMsg by (intro plain) simp_all
  next
    case (SendClose o1)
    then have "loaded re h op ws" using assms(1) unfolding SendClose armed.simps by blast
    then show ?thesis using SendClose by (intro plain) simp_all
  next
    case (SendStatus o1)
    then have "loaded re h op ws" using assms(1) unfolding SendStatus armed.simps by blast
    then show ?thesis using SendStatus by (intro plain) simp_all
  qed
qed

lemma deliver_all_is:
  assumes "list_all2 (armed h) ops wss" and "wf_heap h"
  shows "\<exists>ops2 h2. deliver_all re ops h = (ops2, h2) \<and> list_all2 (loaded re h2) ops2 wss \<and> grown_by h h2 \<and>
    set (concat (map op_ptrs ops2)) = set (concat (map send_ptrs ops)) \<union> {hp_next h..<hp_next h2} \<and>
    length (concat (map op_ptrs ops2)) = length (concat (map send_ptrs ops)) + (hp_next h2 - hp_next h) \<and>
    map is_recv ops2 = map is_recv ops"
  using assms
proof (induction ops arbitrary: wss h)
  case Nil
  then show ?case by (simp add: grown_by_refl)
next
  case (Cons op ops)
  then obtain ws wss' where w: "wss = ws # wss'" "armed h op ws" "list_all2 (armed h) ops wss'" by (cases wss) auto
  obtain op2 h1 where d: "deliver re op h = (op2, h1)" "loaded re h1 op2 ws" "grown_by h h1"
      "set (op_ptrs op2) = set (send_ptrs op) \<union> {hp_next h..<hp_next h1}"
      "length (op_ptrs op2) = length (send_ptrs op) + (hp_next h1 - hp_next h)" "is_recv op2 = is_recv op"
    using deliver_is[OF w(2) Cons.prems(2)] by blast
  have "list_all2 (armed h1) ops wss'" by (rule list.rel_mono_strong[OF w(3)]) (rule armed_grown[OF _ d(3)])
  moreover have "wf_heap h1" using d(3) by (simp add: grown_by_def)
  ultimately obtain ops2 h2 where e: "deliver_all re ops h1 = (ops2, h2)" "list_all2 (loaded re h2) ops2 wss'" "grown_by h1 h2"
      "set (concat (map op_ptrs ops2)) = set (concat (map send_ptrs ops)) \<union> {hp_next h1..<hp_next h2}"
      "length (concat (map op_ptrs ops2)) = length (concat (map send_ptrs ops)) + (hp_next h2 - hp_next h1)"
      "map is_recv ops2 = map is_recv ops"
    using Cons.IH by blast
  have le: "hp_next h \<le> hp_next h1" "hp_next h1 \<le> hp_next h2" using d(3) e(3) by (simp_all add: grown_by_def)
  then have iv: "{hp_next h..<hp_next h2} = {hp_next h..<hp_next h1} \<union> {hp_next h1..<hp_next h2}" by auto
  have "loaded re h2 op2 ws" by (rule loaded_grown[OF d(2) e(3)])
  moreover have "set (concat (map op_ptrs (op2 # ops2))) =
      set (concat (map send_ptrs (op # ops))) \<union> {hp_next h..<hp_next h2}"
    unfolding iv using d(4) e(4) by auto
  ultimately show ?case using d(1,5,6) e(1,2,5,6) w(1) grown_by_trans[OF d(3) e(3)] le by simp
qed

lemma ready_live:
  assumes "ready h op ws"
  shows "set (send_ptrs op) \<subseteq> live h"
proof (cases op)
  case (SendInitial o1)
  then show ?thesis using assms by (cases "si_send o1") (auto simp: in_live)
next
  case (SendMsg o1)
  then show ?thesis using assms by (cases "sm_send_buf o1") (auto simp: in_live)
next
  case (SendStatus o1)
  then show ?thesis using assms by (cases "ss_available o1") (auto simp: in_live)
qed simp_all

text \<open>The batch as a whole: the core gets the wire operations of the set in its order, its reply is settled,
  and of the set's objects nothing is left.\<close>

lemma perform_is:
  assumes "wf_heap (rc_heap st)" and "list_all2 (ready (rc_heap st)) (os_ops ops) wss"
    and "distinct (concat (map send_ptrs (os_ops ops)))" and "set (concat (map send_ptrs (os_ops ops))) \<inter> owned (rc_heap st) = {}"
    and "one_recv (os_ops ops)" and "gc_batch C (concat wss) (rc_core st) = (re, w)"
    and "settle S (gc_max_message_size C) re (concat wss)
      (re_success re, st\<lparr>rc_core := w, rc_log := rc_log st @ [concat wss]\<rparr>) = (status, t)"
  shows "\<exists>ops' h'. perform C S ops st = Inr (gc_pluck C (re_success re) status, ops', t\<lparr>rc_heap := h'\<rparr>) \<and> wf_heap h' \<and>
    hp_cells h' = hp_cells (drop_cells (concat (map send_ptrs (os_ops ops))) (rc_heap st)) \<and>
    hp_owned h' = hp_owned (rc_heap st) \<and> hp_next (rc_heap st) \<le> hp_next h' \<and>
    (Recv_message \<in> set (concat wss) \<longrightarrow> got_message (os_ops ops') = (re_success re \<and> re_message re \<noteq> None))"
proof -
  let ?h = "rc_heap st" and ?n = "gc_max_message_size C" and ?sends = "concat (map send_ptrs (os_ops ops))"
  obtain ops1 gs where a: "add_ops (os_ops ops) [] = Inr (ops1, gs)" "read_ops ?h gs = Inr (concat wss)"
      "list_all2 (armed ?h) ops1 wss" "map send_ptrs ops1 = map send_ptrs (os_ops ops)" "map is_recv ops1 = map is_recv (os_ops ops)"
    using add_ops_is[OF assms(2), of "[]" "[]"] by auto
  obtain ops2 h2 where d: "deliver_all re ops1 ?h = (ops2, h2)" "list_all2 (loaded re h2) ops2 wss" "grown_by ?h h2"
      "set (concat (map op_ptrs ops2)) = set (concat (map send_ptrs ops1)) \<union> {hp_next ?h..<hp_next h2}"
      "length (concat (map op_ptrs ops2)) = length (concat (map send_ptrs ops1)) + (hp_next h2 - hp_next ?h)"
      "map is_recv ops2 = map is_recv ops1"
    using deliver_all_is[OF a(3) assms(1)] by blast
  have sends: "concat (map send_ptrs ops1) = ?sends" using a(4) by simp
  have sl: "set ?sends \<subseteq> live ?h"
  proof -
    have "set (send_ptrs op) \<subseteq> live ?h" if "ready ?h op ws" for op ws
      using that by (rule ready_live)
    then show ?thesis using assms(2) by (fastforce simp: list_all2_conv_all_nth in_set_conv_nth)
  qed
  have lt: "p < hp_next ?h" if "p \<in> live ?h" for p using assms(1) that by (simp add: wf_heap_def)
  have "card (set (concat (map op_ptrs ops2))) = card (set ?sends) + card {hp_next ?h..<hp_next h2}"
    unfolding d(4) sends using sl lt by (intro card_Un_disjoint) (force+)
  also have "\<dots> = length (concat (map op_ptrs ops2))" using d(5) distinct_card[OF assms(3)] sends by simp
  finally have dist: "distinct (concat (map op_ptrs ops2))" by (rule card_distinct)
  have len: "length (filter is_recv l) = length (filter id (map is_recv l))" for l by (simp add: filter_map comp_def)
  have one: "one_recv ops2" using assms(5) a(5) d(6) unfolding one_recv_def len by simp
  let ?st = "st\<lparr>rc_core := w, rc_log := rc_log st @ [concat wss]\<rparr>"
  obtain ops3 s u where f: "settle S ?n re (concat wss) (re_success re, ?st\<lparr>rc_heap := h2\<rparr>) = (s, u)"
      "finish_ops S ?n ops2 (re_success re) (?st\<lparr>rc_heap := h2\<rparr>) =
         Inr (ops3, s, u\<lparr>rc_heap := drop_cells (concat (map op_ptrs ops2)) h2\<rparr>)"
      "Recv_message \<in> set (concat wss) \<longrightarrow> got_message ops3 = (re_success re \<and> re_message re \<noteq> None)"
    using finish_ops_is[OF d(2) dist one] by blast
  then have su: "s = status" "u = t\<lparr>rc_heap := h2\<rparr>" using assms(7) settle_heap[of S ?n re "concat wss" "re_success re" h2 ?st] by auto
  let ?h' = "drop_cells (concat (map op_ptrs ops2)) h2"
  have order: "st\<lparr>rc_core := w, rc_log := rc_log st @ [concat wss], rc_heap := h2\<rparr> =
      st\<lparr>rc_heap := h2, rc_core := w, rc_log := rc_log st @ [concat wss]\<rparr>" by simp
  then have run: "perform C S ops st = Inr (gc_pluck C (re_success re) status,
      ops\<lparr>os_max_message_size := ?n, os_ops := ops3\<rparr>, t\<lparr>rc_heap := ?h'\<rparr>)"
    using a(1,2) d(1) f(2)[unfolded order] su assms(6)
    by (simp add: perform_def PerformOps_def FillOps_def set_max_message_size_def Pluck_def FinalizeResult_def)
  have g: "wf_heap h2" "hp_next ?h \<le> hp_next h2" "hp_owned h2 = hp_owned ?h" "live h2 = live ?h \<union> {hp_next ?h..<hp_next h2}"
      "\<forall>p \<in> live ?h. hp_cells h2 p = hp_cells ?h p"
    using d(3) by (simp_all add: grown_by_def)
  have cells: "hp_cells ?h' p = hp_cells (drop_cells ?sends ?h) p" for p
  proof (cases "p \<in> live ?h")
    case True
    then show ?thesis using g(5) d(4) sends lt[OF True] by auto
  next
    case False
    then have "hp_cells ?h p = None" by (auto simp: in_live)
    moreover have "p \<in> set (concat (map op_ptrs ops2)) \<or> hp_cells h2 p = None"
    proof (cases "p \<in> live h2")
      case True
      then have "p \<in> {hp_next ?h..<hp_next h2}" using False g(4) by blast
      then show ?thesis unfolding d(4) by blast
    next
      case f: False
      then show ?thesis by (auto simp: in_live)
    qed
    ultimately show ?thesis by auto
  qed
  have own: "owned h2 = owned ?h" "owned ?h \<subseteq> live ?h" using g(3) assms(1) by (simp_all add: wf_heap_def owned_def)
  have "owned h2 \<inter> {hp_next ?h..<hp_next h2} = {}" using own lt by fastforce
  then have "owned h2 \<inter> set (concat (map op_ptrs ops2)) = {}"
    unfolding d(4) sends using assms(4) own(1) by blast
  then have "wf_heap ?h'" by (rule wf_drop[OF g(1)])
  moreover have "hp_owned ?h' = hp_owned ?h" "hp_next ?h \<le> hp_next ?h'" using g(2,3) by (simp_all add: drop_cells_def)
  ultimately show ?thesis using run f(3) cells
    by (intro exI[of _ "ops\<lparr>os_max_message_size := ?n, os_ops := ops3\<rparr>"] exI[of _ ?h']) (simp add: fun_eq_iff)
qed

text \<open>A list of objects made one after the other.\<close>

definition alloc :: "gobj list \<Rightarrow> gheap \<Rightarrow> gheap" where
  "alloc xs h = h\<lparr>hp_next := hp_next h + length xs,
     hp_cells := \<lambda>p. if hp_next h \<le> p \<and> p < hp_next h + length xs then Some (xs ! (p - hp_next h)) else hp_cells h p\<rparr>"

lemma alloc_Nil [simp]: "alloc [] h = h"
  by (auto simp: alloc_def fun_eq_iff intro!: heap.equality)

lemma new_alloc [simp]: "hp_new x (alloc xs h) = (hp_next h + length xs, alloc (xs @ [x]) h)"
  by (auto simp: hp_new_def alloc_def fun_eq_iff nth_append less_Suc_eq intro!: heap.equality)

lemma alloc_cell [simp]: "i < length xs \<Longrightarrow> hp_cells (alloc xs h) (hp_next h + i) = Some (xs ! i)"
  "0 < length xs \<Longrightarrow> hp_cells (alloc xs h) (hp_next h) = Some (xs ! 0)"
  "1 < length xs \<Longrightarrow> hp_cells (alloc xs h) (Suc (hp_next h)) = Some (xs ! 1)"
  by (simp_all add: alloc_def)

lemma alloc_wf:
  assumes "wf_heap h"
  shows "wf_heap (alloc xs h)"
proof -
  have "live (alloc xs h) = live h \<union> {hp_next h..<hp_next h + length xs}"
    by (auto simp: live_def alloc_def split: if_splits)
  then show ?thesis using assms by (auto simp: wf_heap_def owned_def alloc_def)
qed

text \<open>The heap holds what it held.\<close>

definition same_heap :: "gheap \<Rightarrow> gheap \<Rightarrow> bool" where
  "same_heap h h' \<longleftrightarrow> wf_heap h' \<and> hp_cells h' = hp_cells h \<and> hp_owned h' = hp_owned h"

lemma same_heap_refl: "wf_heap h \<Longrightarrow> same_heap h h"
  by (simp add: same_heap_def)

lemma same_heap_trans: "same_heap h h1 \<Longrightarrow> same_heap h1 h2 \<Longrightarrow> same_heap h h2"
  by (simp add: same_heap_def)

text \<open>A batch whose objects were all made for it leaves the heap as it found it.\<close>

lemma perform_fresh:
  assumes "wf_heap h" and "rc_heap st = alloc xs h" and "list_all2 (ready (alloc xs h)) (os_ops ops) wss"
    and "set (concat (map send_ptrs (os_ops ops))) = {hp_next h..<hp_next h + length xs}"
    and "length (concat (map send_ptrs (os_ops ops))) = length xs"
    and "one_recv (os_ops ops)" and "gc_batch C (concat wss) (rc_core st) = (re, w)"
    and "settle S (gc_max_message_size C) re (concat wss)
      (re_success re, st\<lparr>rc_core := w, rc_log := rc_log st @ [concat wss]\<rparr>) = (status, t)"
  shows "\<exists>ops' h'. perform C S ops st = Inr (gc_pluck C (re_success re) status, ops', t\<lparr>rc_heap := h'\<rparr>) \<and> same_heap h h' \<and>
    (Recv_message \<in> set (concat wss) \<longrightarrow> got_message (os_ops ops') = (re_success re \<and> re_message re \<noteq> None))"
proof -
  let ?sends = "concat (map send_ptrs (os_ops ops))"
  have "wf_heap (rc_heap st)" "list_all2 (ready (rc_heap st)) (os_ops ops) wss" using alloc_wf[OF assms(1)] assms(2,3) by simp_all
  moreover have "distinct ?sends" using assms(4,5) by (intro card_distinct) simp
  moreover have "owned (rc_heap st) = owned h" using assms(2) by (simp add: alloc_def owned_def)
  then have "set ?sends \<inter> owned (rc_heap st) = {}" using assms(1,4) unfolding wf_heap_def by fastforce
  ultimately obtain ops' h' where p: "perform C S ops st = Inr (gc_pluck C (re_success re) status, ops', t\<lparr>rc_heap := h'\<rparr>)"
      "wf_heap h'" "hp_cells h' = hp_cells (drop_cells ?sends (rc_heap st))" "hp_owned h' = hp_owned (rc_heap st)"
      "Recv_message \<in> set (concat wss) \<longrightarrow> got_message (os_ops ops') = (re_success re \<and> re_message re \<noteq> None)"
    using perform_is[OF _ _ _ _ assms(6-8)] by blast
  have fresh: "hp_cells h p = None" if "hp_next h \<le> p" for p
  proof (rule ccontr)
    assume "hp_cells h p \<noteq> None"
    then have "p \<in> live h" by (auto simp: in_live)
    then show False using assms(1) that by (auto simp: wf_heap_def)
  qed
  have "hp_cells h' p = hp_cells h p" for p
    using p(3) assms(2) fresh[of p] unfolding drop_cells_def assms(4) by (auto simp: alloc_def assms(4))
  then show ?thesis using p assms(2)
    by (intro exI[of _ ops'] exI[of _ h']) (simp add: same_heap_def fun_eq_iff alloc_def)
qed

end
