(* ===== verification/GrpcUnary.thy ===== *)
theory GrpcUnary
  imports GrpcCall
begin

text \<open>
  The two ends of a unary call: \<open>BlockingUnaryCall\<close> of \<open>include/grpc++/impl/client_unary_call.h\<close>, which the
  generated stubs of the program's clients call, and the handlers of \<open>impl/rpc_service_method.h\<close> that the
  server runs for a request. Shown: which batch each end performs, what the caller gets for each answer of
  the core, that neither leaves an object behind, and that a call carried from one end to the other is a
  call of the service's function.
\<close>

section \<open>The client\<close>

definition unary_ops :: CallOpSet where
  "unary_ops = CallOpSet_new 0
     [send_initial_op, send_message_op, recv_initial_op, recv_message_op, send_close_op, recv_status_op]"

text \<open>The local variable \<open>status\<close> is \<open>rc_status\<close>, \<open>*result\<close> is \<open>rc_message\<close>.\<close>

definition BlockingUnaryCall ::
    "'w core \<Rightarrow> 'm serial \<Rightarrow> 'r serial \<Rightarrow> 'm \<Rightarrow> ('r, 'w) rpc \<Rightarrow> (Status \<times> ('r, 'w) rpc) run" where
  "BlockingUnaryCall C M R request st =
    bnd (SendMessage M request unary_ops (rc_heap st)) (\<lambda>(status, ops, h).
      let st = st\<lparr>rc_heap := h, rc_status := status\<rparr> in
      if \<not> status_ok status then Inr (status, st)
      else bnd (SendInitialMetadata (cc_send_initial_metadata (rc_client st)) ops (rc_heap st)) (\<lambda>(ops, h).
        bnd (RecvInitialMetadata ops (st\<lparr>rc_heap := h\<rparr>)) (\<lambda>(ops, st).
        bnd (RecvMessage ops) (\<lambda>ops.
        bnd (ClientSendClose ops) (\<lambda>ops.
        bnd (ClientRecvStatus ops) (\<lambda>ops.
        bnd (perform C R ops st) (\<lambda>(plucked, ops, st).
          if (plucked \<and> got_message (os_ops ops)) \<or> \<not> status_ok (rc_status st) then Inr (rc_status st, st)
          else Inl CheckFailed)))))))"

section \<open>The server\<close>

text \<open>An application's function gets the request and may change the context, the response and the state \<open>'s\<close>
  of the service.\<close>

type_synonym ('q, 'p, 's) service_fn = "'q \<Rightarrow> ServerContext \<times> 'p \<times> 's \<Rightarrow> (Status \<times> ServerContext \<times> 'p \<times> 's) run"

definition unary_reply_ops :: CallOpSet where
  "unary_reply_ops = CallOpSet_new 0 [send_initial_op, send_message_op, send_status_op]"

text \<open>What \<open>RpcMethodHandler\<close> and \<open>ClientStreamingHandler\<close> do with the outcome of the function.\<close>

definition send_outcome ::
    "'w core \<Rightarrow> 'p serial \<Rightarrow> ServerContext \<Rightarrow> 'p \<Rightarrow> Status \<Rightarrow> ('r, 'w) rpc \<Rightarrow> 'r serial \<Rightarrow> ('r, 'w) rpc run" where
  "send_outcome C P ctx rsp status st R =
    (if sx_sent_initial_metadata ctx then Inl CheckFailed
     else bnd (SendInitialMetadata (sx_initial_metadata ctx) unary_reply_ops (rc_heap st)) (\<lambda>(ops, h).
       bnd (if status_ok status then SendMessage P rsp ops h else Inr (status, ops, h)) (\<lambda>(status, ops, h).
       bnd (ServerSendStatus (sx_trailing_metadata ctx) status ops h) (\<lambda>(ops, h).
       bnd (perform C R ops (st\<lparr>rc_heap := h\<rparr>)) (\<lambda>(_, _, st). Inr st)))))"

definition RpcMethodHandler_RunHandler ::
    "'w core \<Rightarrow> 'q serial \<Rightarrow> 'p serial \<Rightarrow> ('q, 'p, 's) service_fn \<Rightarrow> nat option \<Rightarrow> int \<Rightarrow>
     ServerContext \<times> 's \<times> ('q, 'w) rpc \<Rightarrow> (ServerContext \<times> 's \<times> ('q, 'w) rpc) run" where
  "RpcMethodHandler_RunHandler C Q P func request max_message_size = (\<lambda>(ctx, s, st).
    bnd (Traits_Deserialize Q request (sr_new Q) max_message_size (rc_heap st)) (\<lambda>(status, req, h).
    bnd (if status_ok status then func req (ctx, sr_new P, s) else Inr (status, ctx, sr_new P, s)) (\<lambda>(status, ctx, rsp, s).
    bnd (send_outcome C P ctx rsp status (st\<lparr>rc_heap := h\<rparr>) Q) (\<lambda>st. Inr (ctx, s, st)))))"

text \<open>\<open>UnknownMethodHandler\<close>; the set is any that can send initial metadata and a status.\<close>

definition Unknown_FillOps :: "ServerContext \<Rightarrow> CallOpSet \<Rightarrow> gheap \<Rightarrow> (ServerContext \<times> CallOpSet \<times> gheap) run" where
  "Unknown_FillOps ctx ops h =
    (let status = \<lparr>s_code = UNIMPLEMENTED, s_details = []\<rparr> in
     bnd (if \<not> sx_sent_initial_metadata ctx
       then bnd (SendInitialMetadata (sx_initial_metadata ctx) ops h) (\<lambda>(ops, h).
         Inr (ctx\<lparr>sx_sent_initial_metadata := True\<rparr>, ops, h))
       else Inr (ctx, ops, h)) (\<lambda>(ctx, ops, h).
     bnd (ServerSendStatus (sx_trailing_metadata ctx) status ops h) (\<lambda>(ops, h). Inr (ctx, ops, h))))"

definition status_ops :: CallOpSet where
  "status_ops = CallOpSet_new 0 [send_initial_op, send_status_op]"

definition Unknown_RunHandler ::
    "'w core \<Rightarrow> 'r serial \<Rightarrow> ServerContext \<times> ('r, 'w) rpc \<Rightarrow> (ServerContext \<times> ('r, 'w) rpc) run" where
  "Unknown_RunHandler C R = (\<lambda>(ctx, st).
    bnd (Unknown_FillOps ctx status_ops (rc_heap st)) (\<lambda>(ctx, ops, h).
    bnd (perform C R ops (st\<lparr>rc_heap := h\<rparr>)) (\<lambda>(_, _, st). Inr (ctx, st))))"

section \<open>The service's methods\<close>

datatype RpcType = NORMAL_RPC | CLIENT_STREAMING | SERVER_STREAMING | BIDI_STREAMING

record 'h RpcServiceMethod =
  sv_name :: string
  sv_type :: RpcType
  sv_handler :: 'h

definition AddMethod :: "'h RpcServiceMethod \<Rightarrow> 'h RpcServiceMethod list \<Rightarrow> 'h RpcServiceMethod list" where
  "AddMethod m methods = methods @ [m]"

definition GetMethod :: "nat \<Rightarrow> 'h RpcServiceMethod list \<Rightarrow> 'h RpcServiceMethod run" where
  "GetMethod i methods = (if i < length methods then Inr (methods ! i) else Inl OutOfBounds)"

definition GetMethodCount :: "'h RpcServiceMethod list \<Rightarrow> nat" where
  "GetMethodCount methods = length methods"

section \<open>The batches\<close>

lemmas op_set_defs = CallOpSet_new_def send_initial_op_def send_message_op_def recv_initial_op_def recv_message_op_def
  generic_recv_message_op_def send_close_op_def send_status_op_def recv_status_op_def

lemmas arm_defs = SendInitialMetadata_def SendMessage_def SendMessage_with_def RecvInitialMetadata_def RecvMessage_def
  ClientSendClose_def ClientRecvStatus_def ServerSendStatus_def on_set_def FillMetadataArray_def Traits_Serialize_def

definition unary_wire :: "metadata \<Rightarrow> 8 word list \<Rightarrow> wire_op list" where
  "unary_wire md bs = [Send_initial md, Send_message 0 bs, Recv_initial, Recv_message, Send_close, Recv_status]"

definition reply_status :: "core_reply \<Rightarrow> Status" where
  "reply_status re = \<lparr>s_code = re_code re, s_details = (case re_details re of None \<Rightarrow> [] | Some s \<Rightarrow> cstr s)\<rparr>"

text \<open>The message a reply carries: whether it was read without an error, and what is in the caller's variable.\<close>

definition received :: "'r serial \<Rightarrow> int \<Rightarrow> core_reply \<Rightarrow> 'r \<Rightarrow> bool \<times> 'r" where
  "received R n re msg = (case re_message re of None \<Rightarrow> (False, msg)
     | Some bs \<Rightarrow> if re_success re then (case sr_DeserializeProto R bs n msg of (s, msg) \<Rightarrow> (status_ok s, msg)) else (False, msg))"

lemma unary_perform:
  assumes "wf_heap (rc_heap st)" and "sr_SerializeProto M request = (s0, bs)" and "status_ok s0"
    and "gc_batch C (unary_wire (cc_send_initial_metadata (rc_client st)) bs) (rc_core st) = (re, w)"
    and "received R (gc_max_message_size C) re (rc_message st) = (ok, msg)"
  shows "\<exists>h'. BlockingUnaryCall C M R request st =
    (if (gc_pluck C (re_success re) ok \<and> re_success re \<and> re_message re \<noteq> None) \<or> \<not> status_ok (reply_status re)
     then Inr (reply_status re, st\<lparr>rc_heap := h', rc_core := w,
       rc_client := (rc_client st)\<lparr>cc_initial_metadata_received := True, cc_recv_initial_metadata := re_initial re,
         cc_trailing_metadata := re_trailing re\<rparr>, rc_message := msg, rc_status := reply_status re,
       rc_log := rc_log st @ [unary_wire (cc_send_initial_metadata (rc_client st)) bs]\<rparr>)
     else Inl CheckFailed) \<and> same_heap (rc_heap st) h'"
proof -
  let ?h = "rc_heap st" and ?md = "cc_send_initial_metadata (rc_client st)"
  let ?n = "hp_next ?h" and ?wss = "[[Send_initial ?md], [Send_message 0 bs], [Recv_initial], [Recv_message], [Send_close], [Recv_status]]"
  let ?ops = "CallOpSet_new 0 [SendInitial \<lparr>si_send = True, si_metadata = Some (length ?md, Some (Suc ?n))\<rparr>,
    SendMsg \<lparr>sm_send_buf = Some ?n, sm_write_options = WriteOptions_new, sm_own_buf = True\<rparr>,
    RecvInitial \<lparr>ri_target = True, ri_arr = None\<rparr>, RecvMsg \<lparr>rm_got_message = False, rm_message = True, rm_recv_buf = None\<rparr>,
    SendClose \<lparr>sc_send = True\<rparr>, RecvStatus \<lparr>rs_status = True, rs_arr = None, rs_code = None, rs_details = None\<rparr>]"
  let ?xs = "[Buffer bs, Metadata ?md]"
  let ?st = "st\<lparr>rc_status := s0, rc_heap := alloc ?xs ?h, rc_client := (rc_client st)\<lparr>cc_initial_metadata_received := True\<rparr>\<rparr>"
  have run: "BlockingUnaryCall C M R request st = bnd (perform C R ?ops ?st) (\<lambda>(plucked, ops, st).
      if (plucked \<and> got_message (os_ops ops)) \<or> \<not> status_ok (rc_status st) then Inr (rc_status st, st) else Inl CheckFailed)"
    using assms(2,3) new_alloc[of "Buffer bs" "[]" ?h]
    by (simp add: BlockingUnaryCall_def unary_ops_def op_set_defs arm_defs)
  let ?t = "st\<lparr>rc_heap := rc_heap ?st, rc_core := w, rc_client := (rc_client st)\<lparr>cc_initial_metadata_received := True,
      cc_recv_initial_metadata := re_initial re, cc_trailing_metadata := re_trailing re\<rparr>, rc_message := msg,
      rc_status := reply_status re, rc_log := rc_log st @ [concat ?wss]\<rparr>"
  have settled: "settle R (gc_max_message_size C) re (concat ?wss)
      (re_success re, ?st\<lparr>rc_core := w, rc_log := rc_log ?st @ [concat ?wss]\<rparr>) = (ok, ?t)"
    using assms(5) by (auto simp: received_def reply_status_def split: option.splits if_splits prod.splits)
  have wire: "concat ?wss = unary_wire ?md bs" by (simp add: unary_wire_def)
  have "\<exists>ops' h'. perform C R ?ops ?st = Inr (gc_pluck C (re_success re) ok, ops', ?t\<lparr>rc_heap := h'\<rparr>) \<and> same_heap ?h h' \<and>
      (Recv_message \<in> set (concat ?wss) \<longrightarrow> got_message (os_ops ops') = (re_success re \<and> re_message re \<noteq> None))"
    by (rule perform_fresh[OF assms(1) _ _ _ _ _ _ settled])
      (use assms(4) in \<open>auto simp: CallOpSet_new_def WriteOptions_new_def one_recv_def is_recv_def wire[simplified]\<close>)
  then obtain ops' h' where p: "perform C R ?ops ?st = Inr (gc_pluck C (re_success re) ok, ops', ?t\<lparr>rc_heap := h'\<rparr>)"
      "same_heap ?h h'" "got_message (os_ops ops') = (re_success re \<and> re_message re \<noteq> None)"
    by auto
  show ?thesis unfolding run p(1) using p(2,3) wire by (intro exI[of _ h']) (cases "re_success re"; simp add: unary_wire_def)
qed

text \<open>What the server answers: the final status, and the batch.\<close>

definition outcome :: "'p serial \<Rightarrow> Status \<Rightarrow> 'p \<Rightarrow> Status \<times> 8 word list option" where
  "outcome P status rsp = (if status_ok status
     then (case sr_SerializeProto P rsp of (s, bs) \<Rightarrow> (s, if status_ok s then Some bs else None)) else (status, None))"

definition reply_wire :: "ServerContext \<Rightarrow> Status \<times> 8 word list option \<Rightarrow> wire_op list" where
  "reply_wire ctx out = [Send_initial (sx_initial_metadata ctx)] @
     (case snd out of None \<Rightarrow> [] | Some bs \<Rightarrow> [Send_message 0 bs]) @
     [Send_status (sx_trailing_metadata ctx) (s_code (fst out))
       (if s_details (fst out) = [] then None else Some (cstr (s_details (fst out))))]"

lemma send_outcome_is:
  assumes "wf_heap (rc_heap st)" and "\<not> sx_sent_initial_metadata ctx"
    and "gc_batch C (reply_wire ctx (outcome P status rsp)) (rc_core st) = (re, w)"
  shows "\<exists>h'. send_outcome C P ctx rsp status st R = Inr (st\<lparr>rc_heap := h', rc_core := w,
      rc_log := rc_log st @ [reply_wire ctx (outcome P status rsp)]\<rparr>) \<and> same_heap (rc_heap st) h'"
proof -
  obtain s bso where o: "outcome P status rsp = (s, bso)" by (cases "outcome P status rsp")
  let ?h = "rc_heap st" and ?md = "sx_initial_metadata ctx" and ?tr = "sx_trailing_metadata ctx"
  let ?n = "hp_next ?h"
  let ?msg = "case bso of None \<Rightarrow> [] | Some bs \<Rightarrow> [Buffer bs]"
  let ?xs = "Metadata ?md # ?msg @ [Metadata ?tr]"
  let ?det = "if s_details s = [] then None else Some (cstr (s_details s))"
  let ?wss = "[[Send_initial ?md], (case bso of None \<Rightarrow> [] | Some bs \<Rightarrow> [Send_message 0 bs]), [Send_status ?tr (s_code s) ?det]]"
  have wire: "concat ?wss = reply_wire ctx (outcome P status rsp)" by (simp add: reply_wire_def o)
  have "\<exists>own. send_outcome C P ctx rsp status st R = bnd (perform C R (CallOpSet_new 0
      [SendInitial \<lparr>si_send = True, si_metadata = Some (length ?md, Some ?n)\<rparr>,
       SendMsg \<lparr>sm_send_buf = (if bso = None then None else Some (Suc ?n)), sm_write_options = WriteOptions_new, sm_own_buf = own\<rparr>,
       SendStatus \<lparr>ss_available = True, ss_status = Some (s_code s, s_details s),
         ss_metadata = Some (length ?tr, Some (if bso = None then Suc ?n else Suc (Suc ?n)))\<rparr>]) (st\<lparr>rc_heap := alloc ?xs ?h\<rparr>))
      (\<lambda>(_, _, st). Inr st) \<and> (bso \<noteq> None \<longrightarrow> own)"
  proof (cases "status_ok status")
    case False
    then have "s = status" "bso = None" using o by (simp_all add: outcome_def)
    then show ?thesis using assms(2) False new_alloc[of "Metadata ?md" "[]" ?h]
      by (intro exI[of _ False]) (simp add: send_outcome_def unary_reply_ops_def op_set_defs arm_defs error_code_def error_message_def)
  next
    case True
    obtain s2 bs where m: "sr_SerializeProto P rsp = (s2, bs)" by (cases "sr_SerializeProto P rsp")
    then have "s = s2" "bso = (if status_ok s2 then Some bs else None)" using o True by (auto simp: outcome_def split: if_splits)
    then show ?thesis using assms(2) True m new_alloc[of "Metadata ?md" "[]" ?h]
      by (intro exI[of _ True]; cases "status_ok s2")
        (simp_all add: send_outcome_def unary_reply_ops_def op_set_defs arm_defs error_code_def error_message_def)
  qed
  then obtain own where run: "send_outcome C P ctx rsp status st R = bnd (perform C R (CallOpSet_new 0
      [SendInitial \<lparr>si_send = True, si_metadata = Some (length ?md, Some ?n)\<rparr>,
       SendMsg \<lparr>sm_send_buf = (if bso = None then None else Some (Suc ?n)), sm_write_options = WriteOptions_new, sm_own_buf = own\<rparr>,
       SendStatus \<lparr>ss_available = True, ss_status = Some (s_code s, s_details s),
         ss_metadata = Some (length ?tr, Some (if bso = None then Suc ?n else Suc (Suc ?n)))\<rparr>]) (st\<lparr>rc_heap := alloc ?xs ?h\<rparr>))
      (\<lambda>(_, _, st). Inr st)" (is "_ = bnd (perform C R ?ops ?st) _") and own: "bso \<noteq> None \<longrightarrow> own"
    by blast
  let ?t = "?st\<lparr>rc_core := w, rc_log := rc_log ?st @ [concat ?wss]\<rparr>"
  have settled: "settle R (gc_max_message_size C) re (concat ?wss) (re_success re, ?t) = (re_success re, ?t)"
    by (cases bso) simp_all
  have rdy: "list_all2 (ready (alloc ?xs ?h)) (os_ops ?ops) ?wss"
    using own by (cases bso) (simp_all add: CallOpSet_new_def WriteOptions_new_def alloc_def)
  have sends: "set (concat (map send_ptrs (os_ops ?ops))) = {?n..<?n + length ?xs}"
    "length (concat (map send_ptrs (os_ops ?ops))) = length ?xs"
    by (cases bso; auto simp: CallOpSet_new_def)+
  have one: "one_recv (os_ops ?ops)" by (simp add: CallOpSet_new_def one_recv_def is_recv_def)
  have batch: "gc_batch C (concat ?wss) (rc_core ?st) = (re, w)" unfolding wire using assms(3) by simp
  have "\<exists>ops' h'. perform C R ?ops ?st = Inr (gc_pluck C (re_success re) (re_success re), ops', ?t\<lparr>rc_heap := h'\<rparr>) \<and>
      same_heap ?h h' \<and> (Recv_message \<in> set (concat ?wss) \<longrightarrow> got_message (os_ops ops') = (re_success re \<and> re_message re \<noteq> None))"
    by (rule perform_fresh[OF assms(1) _ rdy sends one batch settled]) simp
  then obtain ops' h' where "perform C R ?ops ?st = Inr (gc_pluck C (re_success re) (re_success re), ops', ?t\<lparr>rc_heap := h'\<rparr>)"
      "same_heap ?h h'" by blast
  then show ?thesis unfolding run wire by (intro exI[of _ h']) simp
qed

section \<open>The contracts of the two ends\<close>

lemma serialise_failure:
  "sr_SerializeProto M request = (s0, bs) \<Longrightarrow> \<not> status_ok s0 \<Longrightarrow>
    BlockingUnaryCall C M R request st = Inr (s0, st\<lparr>rc_status := s0\<rparr>)"
  by (simp add: BlockingUnaryCall_def unary_ops_def op_set_defs arm_defs)

text \<open>A blocking unary call. A request that cannot be serialised is answered with the serialiser's status
  and nothing is sent. Otherwise the core gets exactly one batch: initial metadata, the request, the
  receptions, the end of the client's messages and the status; every object made for it is gone in the
  end. The caller gets the status of the answer and the message that came with it; the program aborts
  when the status is OK but there is no message.\<close>

theorem BlockingUnaryCall_contract:
  assumes "wf_heap (rc_heap st)" and "sr_SerializeProto M request = (s0, bs)"
    and "gc_batch C (unary_wire (cc_send_initial_metadata (rc_client st)) bs) (rc_core st) = (re, w)"
    and "received R (gc_max_message_size C) re (rc_message st) = (ok, msg)"
  shows "\<exists>st'. BlockingUnaryCall C M R request st =
      (if \<not> status_ok s0 then Inr (s0, st')
       else if \<not> status_ok (reply_status re) \<or> (re_success re \<and> re_message re \<noteq> None \<and> gc_pluck C True ok)
       then Inr (reply_status re, st') else Inl CheckFailed) \<and>
    same_heap (rc_heap st) (rc_heap st') \<and>
    (if status_ok s0
     then rc_log st' = rc_log st @ [unary_wire (cc_send_initial_metadata (rc_client st)) bs] \<and> rc_core st' = w \<and>
       rc_message st' = msg \<and> cc_initial_metadata_received (rc_client st') \<and>
       cc_recv_initial_metadata (rc_client st') = re_initial re \<and> cc_trailing_metadata (rc_client st') = re_trailing re
     else rc_log st' = rc_log st \<and> rc_core st' = rc_core st \<and> rc_message st' = rc_message st \<and> rc_client st' = rc_client st)"
proof (cases "status_ok s0")
  case False
  then show ?thesis using serialise_failure[OF assms(2) False, of C R st] same_heap_refl[OF assms(1)]
    by (intro exI[of _ "st\<lparr>rc_status := s0\<rparr>"]) simp
next
  case True
  let ?wire = "unary_wire (cc_send_initial_metadata (rc_client st)) bs"
  obtain h' where p: "BlockingUnaryCall C M R request st =
    (if (gc_pluck C (re_success re) ok \<and> re_success re \<and> re_message re \<noteq> None) \<or> \<not> status_ok (reply_status re)
     then Inr (reply_status re, st\<lparr>rc_heap := h', rc_core := w,
       rc_client := (rc_client st)\<lparr>cc_initial_metadata_received := True, cc_recv_initial_metadata := re_initial re,
         cc_trailing_metadata := re_trailing re\<rparr>, rc_message := msg, rc_status := reply_status re, rc_log := rc_log st @ [?wire]\<rparr>)
     else Inl CheckFailed)" "same_heap (rc_heap st) h'"
    using unary_perform[OF assms(1,2) True assms(3,4)] by blast
  show ?thesis
    by (rule exI[of _ "st\<lparr>rc_heap := h', rc_core := w,
       rc_client := (rc_client st)\<lparr>cc_initial_metadata_received := True, cc_recv_initial_metadata := re_initial re,
         cc_trailing_metadata := re_trailing re\<rparr>, rc_message := msg, rc_status := reply_status re,
       rc_log := rc_log st @ [?wire]\<rparr>"], cases "re_success re") (use True p in auto)
qed

text \<open>Two answers the call is not made for.\<close>

lemma unary_ok_without_message_aborts:
  assumes "wf_heap (rc_heap st)" and "sr_SerializeProto M request = (s0, bs)" and "status_ok s0"
    and "gc_batch C (unary_wire (cc_send_initial_metadata (rc_client st)) bs) (rc_core st) = (re, w)"
    and "re_code re = OK" and "re_message re = None"
  shows "BlockingUnaryCall C M R request st = Inl CheckFailed"
proof -
  have "received R (gc_max_message_size C) re (rc_message st) = (False, rc_message st)" using assms(6) by (simp add: received_def)
  from unary_perform[OF assms(1-4) this] show ?thesis using assms(5,6) by (auto simp: reply_status_def status_ok_def)
qed

lemma unary_unreadable_answer:
  assumes "wf_heap (rc_heap st)" and "sr_SerializeProto M request = (s0, bs)" and "status_ok s0"
    and "gc_batch C (unary_wire (cc_send_initial_metadata (rc_client st)) bs) (rc_core st) = (re, w)"
    and "re_code re = OK" and "re_success re" and "re_message re = Some b"
    and "sr_DeserializeProto R b (gc_max_message_size C) (rc_message st) = (s, msg)" and "\<not> status_ok s"
  shows "if gc_pluck C True False then \<exists>status st'. BlockingUnaryCall C M R request st = Inr (status, st') \<and> status_ok status \<and>
      rc_message st' = msg else BlockingUnaryCall C M R request st = Inl CheckFailed"
proof -
  have "received R (gc_max_message_size C) re (rc_message st) = (False, msg)" using assms(6-9) by (simp add: received_def)
  from unary_perform[OF assms(1-4) this] show ?thesis using assms(5-7) by (auto simp: reply_status_def status_ok_def)
qed

lemma RpcMethodHandler_step:
  assumes "wf_heap (rc_heap st)" and "hp_cells (rc_heap st) p = Some (Buffer bs)" and "p \<notin> owned (rc_heap st)"
    and "sr_DeserializeProto Q bs max_message_size (sr_new Q) = (s1, req)"
    and "(if status_ok s1 then func req (ctx, sr_new P, s) else Inr (s1, ctx, sr_new P, s)) = Inr (status, ctx', rsp, s')"
    and "\<not> sx_sent_initial_metadata ctx'"
    and "gc_batch C (reply_wire ctx' (outcome P status rsp)) (rc_core st) = (re, w)"
  shows "\<exists>h'. RpcMethodHandler_RunHandler C Q P func (Some p) max_message_size (ctx, s, st) =
      Inr (ctx', s', st\<lparr>rc_heap := h', rc_core := w, rc_log := rc_log st @ [reply_wire ctx' (outcome P status rsp)]\<rparr>) \<and>
    wf_heap h' \<and> hp_cells h' = (hp_cells (rc_heap st))(p := None) \<and> hp_owned h' = hp_owned (rc_heap st)"
proof -
  let ?h = "drop_cells [p] (rc_heap st)"
  have "p \<in> live (rc_heap st)" using assms(2) by (simp add: in_live)
  then have de: "Traits_Deserialize Q (Some p) (sr_new Q) max_message_size (rc_heap st) = Inr (s1, req, ?h)"
    using assms(2,4) by (simp add: Traits_Deserialize_def buffer_bytes_def grpc_byte_buffer_destroy_def destroy_drop)
  have wf: "wf_heap ?h" by (rule wf_drop[OF assms(1)]) (use assms(3) in simp)
  let ?st = "st\<lparr>rc_heap := ?h\<rparr>"
  have "wf_heap (rc_heap ?st)" "gc_batch C (reply_wire ctx' (outcome P status rsp)) (rc_core ?st) = (re, w)"
    using wf assms(7) by simp_all
  from send_outcome_is[OF this(1) assms(6) this(2), of Q]
  obtain h' where o: "send_outcome C P ctx' rsp status ?st Q = Inr (?st\<lparr>rc_heap := h', rc_core := w,
      rc_log := rc_log ?st @ [reply_wire ctx' (outcome P status rsp)]\<rparr>)" "same_heap (rc_heap ?st) h'"
    by blast
  have "RpcMethodHandler_RunHandler C Q P func (Some p) max_message_size (ctx, s, st) =
      Inr (ctx', s', st\<lparr>rc_heap := h', rc_core := w, rc_log := rc_log st @ [reply_wire ctx' (outcome P status rsp)]\<rparr>)"
    using de assms(5) o(1) by (simp add: RpcMethodHandler_RunHandler_def)
  moreover have "hp_cells ?h = (hp_cells (rc_heap st))(p := None)" by (simp add: fun_eq_iff)
  ultimately show ?thesis using o(2) by (intro exI[of _ h']) (simp add: same_heap_def drop_cells_def)
qed

text \<open>C24: the handler of a unary method. The service's function is called when, and only when, the request can
  be read; its response is serialised when it answers OK. The handler performs one batch: initial
  metadata, the response if there is one, and the status, which is the first error met or OK. The
  request's buffer is destroyed, and nothing else of the heap changes.\<close>

theorem RpcMethodHandler_contract:
  assumes "wf_heap (rc_heap st)" and "hp_cells (rc_heap st) p = Some (Buffer bs)" and "p \<notin> owned (rc_heap st)"
    and "sr_DeserializeProto Q bs max_message_size (sr_new Q) = (s1, req)"
    and "(if status_ok s1 then func req (ctx, sr_new P, s) else Inr (s1, ctx, sr_new P, s)) = Inr (status, ctx', rsp, s')"
    and "\<not> sx_sent_initial_metadata ctx'"
    and "gc_batch C (reply_wire ctx' (outcome P status rsp)) (rc_core st) = (re, w)"
  shows "\<exists>h'. RpcMethodHandler_RunHandler C Q P func (Some p) max_message_size (ctx, s, st) =
      Inr (ctx', s', st\<lparr>rc_heap := h', rc_core := w, rc_log := rc_log st @ [reply_wire ctx' (outcome P status rsp)]\<rparr>) \<and>
    wf_heap h' \<and> hp_cells h' = (hp_cells (rc_heap st))(p := None) \<and> hp_owned h' = hp_owned (rc_heap st)"
  using assms by (rule RpcMethodHandler_step)

section \<open>A call from end to end\<close>

text \<open>What the server's batch looks like to the client's core.\<close>

fun reply_add :: "wire_op \<Rightarrow> core_reply \<Rightarrow> core_reply" where
  "reply_add (Send_initial md) re = re\<lparr>re_initial := md\<rparr>"
| "reply_add (Send_message f bs) re = re\<lparr>re_message := Some bs\<rparr>"
| "reply_add (Send_status md code details) re = re\<lparr>re_trailing := md, re_code := code, re_details := details\<rparr>"
| "reply_add op re = re"

definition reply_of :: "wire_op list \<Rightarrow> core_reply" where
  "reply_of wire = fold reply_add wire
     \<lparr>re_success = True, re_message = None, re_initial = [], re_trailing = [], re_code = UNKNOWN, re_details = None\<rparr>"

text \<open>A server process that gets the bytes of a request: a buffer is made for them, the handler runs, and the
  last batch on its core is the answer.\<close>

definition serve ::
    "'v core \<Rightarrow> 'q serial \<Rightarrow> 'p serial \<Rightarrow> ('q, 'p, 's) service_fn \<Rightarrow> int \<Rightarrow> ServerContext \<Rightarrow> 8 word list \<Rightarrow>
     's \<times> ('q, 'v) rpc \<Rightarrow> (wire_op list \<times> 's \<times> ('q, 'v) rpc) run" where
  "serve C Q P func max_message_size ctx bs = (\<lambda>(s, st).
     case hp_new (Buffer bs) (rc_heap st) of (p, h) \<Rightarrow>
       bnd (RpcMethodHandler_RunHandler C Q P func (Some p) max_message_size (ctx, s, st\<lparr>rc_heap := h\<rparr>)) (\<lambda>(ctx, s, st).
         Inr (last (rc_log st), s, st)))"

text \<open>The client's core carries requests to that process, which is its state \<open>'w\<close>, and answers back.\<close>

definition carries :: "'w core \<Rightarrow> (8 word list \<Rightarrow> 'w \<Rightarrow> (wire_op list \<times> 'w) run) \<Rightarrow> bool" where
  "carries C srv \<longleftrightarrow> (\<forall>md bs w wire w'. srv bs w = Inr (wire, w') \<longrightarrow>
     gc_batch C (unary_wire md bs) w = (reply_of wire, w'))"

text \<open>Messages that are written can be read.\<close>

definition reads_back :: "'m serial \<Rightarrow> int \<Rightarrow> 'm \<Rightarrow> bool" where
  "reads_back S n m \<longleftrightarrow> (case sr_SerializeProto S m of (s, bs) \<Rightarrow> s = Status_OK \<and> (\<forall>m0. sr_DeserializeProto S bs n m0 = (Status_OK, m)))"

lemma reply_of_wire: "reply_of (reply_wire ctx (s, bs)) = \<lparr>re_success = True, re_message = bs, re_initial = sx_initial_metadata ctx,
    re_trailing = sx_trailing_metadata ctx, re_code = s_code s,
    re_details = (if s_details s = [] then None else Some (cstr (s_details s)))\<rparr>"
  by (cases bs) (simp_all add: reply_of_def reply_wire_def)

lemma serve_is:
  assumes "wf_heap (rc_heap st)" and "sr_DeserializeProto Q bs n (sr_new Q) = (Status_OK, req)"
    and "func req (ctx, sr_new P, s) = Inr (status, ctx', rsp, s')" and "\<not> sx_sent_initial_metadata ctx'"
  shows "\<exists>st'. serve C Q P func n ctx bs (s, st) = Inr (reply_wire ctx' (outcome P status rsp), s', st') \<and>
    same_heap (rc_heap st) (rc_heap st')"
proof -
  obtain p h where n: "hp_new (Buffer bs) (rc_heap st) = (p, h)" by (cases "hp_new (Buffer bs) (rc_heap st)")
  note f = hp_new_fresh[OF assms(1) n]
  let ?st = "st\<lparr>rc_heap := h\<rparr>"
  have pre: "wf_heap (rc_heap ?st)" "hp_cells (rc_heap ?st) p = Some (Buffer bs)" using f(3,5) by simp_all
  have "owned (rc_heap ?st) \<subseteq> live (rc_heap st)" using assms(1) f(4) by (simp add: wf_heap_def owned_def)
  then have own: "p \<notin> owned (rc_heap ?st)" using f(1) by blast
  have call: "(if status_ok Status_OK then func req (ctx, sr_new P, s) else Inr (Status_OK, ctx, sr_new P, s)) =
      Inr (status, ctx', rsp, s')" using assms(3) by simp
  obtain re w where b: "gc_batch C (reply_wire ctx' (outcome P status rsp)) (rc_core ?st) = (re, w)"
    by (cases "gc_batch C (reply_wire ctx' (outcome P status rsp)) (rc_core ?st)")
  from RpcMethodHandler_step[where func = func and P = P and ctx = ctx and s = s, OF pre own assms(2) call assms(4) b]
  obtain h' where h': "RpcMethodHandler_RunHandler C Q P func (Some p) n (ctx, s, ?st) = Inr (ctx', s',
      ?st\<lparr>rc_heap := h', rc_core := w, rc_log := rc_log ?st @ [reply_wire ctx' (outcome P status rsp)]\<rparr>)"
      "wf_heap h'" "hp_cells h' = (hp_cells (rc_heap ?st))(p := None)" "hp_owned h' = hp_owned (rc_heap ?st)"
    by blast
  have "hp_cells (rc_heap st) p = None" using f(1) by (auto simp: in_live)
  then have "same_heap (rc_heap st) h'" using h'(2-4) f(3,4) by (auto simp: same_heap_def fun_eq_iff)
  then show ?thesis using n h'(1)
    by (intro exI[of _ "?st\<lparr>rc_heap := h', rc_core := w, rc_log := rc_log ?st @ [reply_wire ctx' (outcome P status rsp)]\<rparr>"])
      (simp add: serve_def)
qed

lemma unary_rpc_step:
  assumes "carries C (serve D Q P func n ctx)" and "wf_heap (rc_heap st)" and "rc_core st = (s, sst)" and "wf_heap (rc_heap sst)"
    and "gc_pluck C True True" and "reads_back Q n req" and "func req (ctx, sr_new P, s) = Inr (status, ctx', rsp, s')"
    and "\<not> sx_sent_initial_metadata ctx'" and "status_ok status \<Longrightarrow> reads_back P (gc_max_message_size C) rsp"
  shows "\<exists>st' sst'. BlockingUnaryCall C Q P req st =
      Inr (if status_ok status then Status_OK else \<lparr>s_code = s_code status, s_details = cstr (s_details status)\<rparr>, st') \<and>
    rc_message st' = (if status_ok status then rsp else rc_message st) \<and> rc_core st' = (s', sst') \<and>
    same_heap (rc_heap st) (rc_heap st') \<and> same_heap (rc_heap sst) (rc_heap sst') \<and>
    rc_client st' = (rc_client st)\<lparr>cc_initial_metadata_received := True, cc_recv_initial_metadata := sx_initial_metadata ctx',
      cc_trailing_metadata := sx_trailing_metadata ctx'\<rparr>"
proof -
  obtain bs where q: "sr_SerializeProto Q req = (Status_OK, bs)" "\<And>m0. sr_DeserializeProto Q bs n m0 = (Status_OK, req)"
    using assms(6) by (auto simp: reads_back_def split: prod.splits)
  obtain sst' where sv: "serve D Q P func n ctx bs (s, sst) = Inr (reply_wire ctx' (outcome P status rsp), s', sst')"
      "same_heap (rc_heap sst) (rc_heap sst')"
    using serve_is[where func = func and P = P and ctx = ctx and s = s, OF assms(4) q(2) assms(7,8)] by blast
  let ?re = "reply_of (reply_wire ctx' (outcome P status rsp))"
  have b: "gc_batch C (unary_wire (cc_send_initial_metadata (rc_client st)) bs) (rc_core st) = (?re, s', sst')"
    using assms(1,3) sv(1) by (simp add: carries_def)
  let ?final = "if status_ok status then Status_OK else status"
  obtain bo where o: "outcome P status rsp = (?final, bo)"
      "if status_ok status then \<exists>b. bo = Some b \<and> (\<forall>m0. sr_DeserializeProto P b (gc_max_message_size C) m0 = (Status_OK, rsp))
       else bo = None"
    using assms(9) by (cases "status_ok status") (auto simp: outcome_def reads_back_def split: prod.splits)
  let ?msg = "if status_ok status then rsp else rc_message st"
  have rec: "received P (gc_max_message_size C) ?re (rc_message st) = (status_ok status, ?msg)"
    using o(2) by (cases "status_ok status") (auto simp: received_def o(1) reply_of_wire)
  have st: "reply_status ?re = (if status_ok status then Status_OK else \<lparr>s_code = s_code status, s_details = cstr (s_details status)\<rparr>)"
    by (simp add: o(1) reply_of_wire reply_status_def Status_OK_def cstr_def)
  have ok: "status_ok (reply_status ?re) = status_ok status" unfolding st by (simp add: status_ok_def Status_OK_def)
  have "re_success ?re" "status_ok status \<Longrightarrow> re_message ?re \<noteq> None" "re_initial ?re = sx_initial_metadata ctx'"
      "re_trailing ?re = sx_trailing_metadata ctx'" using o(2) by (auto simp: o(1) reply_of_wire)
  moreover have "status_ok Status_OK" by simp
  ultimately show ?thesis using unary_perform[OF assms(2) q(1) _ b rec] ok assms(5) sv(2) unfolding st
    by (cases "status_ok status") auto
qed

text \<open>A core that does this.\<close>

fun request_bytes :: "wire_op list \<Rightarrow> 8 word list" where
  "request_bytes [] = []"
| "request_bytes (Send_message f bs # ops) = bs"
| "request_bytes (op # ops) = request_bytes ops"

definition loop_core :: "int \<Rightarrow> (8 word list \<Rightarrow> 'w \<Rightarrow> (wire_op list \<times> 'w) run) \<Rightarrow> 'w core" where
  "loop_core n srv = \<lparr>gc_max_message_size = n,
     gc_batch = \<lambda>wire w. (case srv (request_bytes wire) w of Inr (answer, w') \<Rightarrow> (reply_of answer, w') | Inl _ \<Rightarrow> (reply_of [], w)),
     gc_pluck = \<lambda>event status. event\<rparr>"

lemma loop_carries: "carries (loop_core n srv) srv" "gc_pluck (loop_core n srv) True True" "gc_max_message_size (loop_core n srv) = n"
  by (simp_all add: carries_def loop_core_def unary_wire_def)

text \<open>C23: a unary call from end to end. When the client's core carries requests to a server process and its
  answers back, a blocking call returns what the service's function returns for the request: its status,
  with the text up to the first zero byte, or OK and its response; the service's state is what the
  function left, and neither process keeps an object of the call.\<close>

theorem unary_rpc_end_to_end:
  assumes "carries C (serve D Q P func n ctx)" and "wf_heap (rc_heap st)" and "rc_core st = (s, sst)" and "wf_heap (rc_heap sst)"
    and "gc_pluck C True True" and "reads_back Q n req" and "func req (ctx, sr_new P, s) = Inr (status, ctx', rsp, s')"
    and "\<not> sx_sent_initial_metadata ctx'" and "status_ok status \<Longrightarrow> reads_back P (gc_max_message_size C) rsp"
  shows "\<exists>st' sst'. BlockingUnaryCall C Q P req st =
      Inr (if status_ok status then Status_OK else \<lparr>s_code = s_code status, s_details = cstr (s_details status)\<rparr>, st') \<and>
    rc_message st' = (if status_ok status then rsp else rc_message st) \<and> rc_core st' = (s', sst') \<and>
    same_heap (rc_heap st) (rc_heap st') \<and> same_heap (rc_heap sst) (rc_heap sst')"
  using unary_rpc_step[OF assms] by blast

text \<open>A service that counts its calls, over bytes as messages.\<close>

definition byte_serial :: "8 word list serial" where
  "byte_serial = \<lparr>sr_new = [], sr_SerializeProto = \<lambda>m. (Status_OK, m), sr_DeserializeProto = \<lambda>bs n m. (Status_OK, bs)\<rparr>"

definition count_method :: "(8 word list, 8 word list, nat) service_fn" where
  "count_method req = (\<lambda>(ctx, rsp, s). Inr (Status_OK, ctx, rev req, Suc s))"

definition plain_core :: "unit core" where
  "plain_core = \<lparr>gc_max_message_size = 0, gc_batch = \<lambda>wire w. (reply_of [], w), gc_pluck = \<lambda>event status. event\<rparr>"

definition fresh_client :: ClientContext where
  "fresh_client = \<lparr>cc_initial_metadata_received = False, cc_send_initial_metadata = [], cc_recv_initial_metadata = [],
     cc_trailing_metadata = []\<rparr>"

definition fresh_server :: ServerContext where
  "fresh_server = \<lparr>sx_sent_initial_metadata = False, sx_initial_metadata = [], sx_trailing_metadata = []\<rparr>"

definition process :: "'r \<Rightarrow> 'w \<Rightarrow> ('r, 'w) rpc" where
  "process msg w = \<lparr>rc_heap = hp_empty, rc_core = w, rc_client = fresh_client, rc_message = msg, rc_status = Status_OK, rc_log = []\<rparr>"

theorem unary_rpc_end_to_end_witness:
  "\<exists>st' sst'. BlockingUnaryCall (loop_core 0 (serve plain_core byte_serial byte_serial count_method 0 fresh_server)) byte_serial
      byte_serial [1, 2] (process [] (6, process [] ())) = Inr (Status_OK, st') \<and>
    rc_message st' = [2, 1] \<and> rc_core st' = (7, sst')"
proof -
  let ?srv = "serve plain_core byte_serial byte_serial count_method 0 fresh_server"
  have call: "count_method [1, 2] (fresh_server, sr_new byte_serial, 6) = Inr (Status_OK, fresh_server, [2, 1], 7)"
    by (simp add: count_method_def)
  have rb: "reads_back byte_serial n m" for n m by (simp add: reads_back_def byte_serial_def)
  have st: "rc_core (process [] (6, process [] ())) = (6, process [] ())" by (simp add: process_def)
  have wf: "wf_heap (rc_heap (process m w))" for m :: "8 word list" and w :: "'w" by (simp add: process_def)
  have sent: "\<not> sx_sent_initial_metadata fresh_server" by (simp add: fresh_server_def)
  from unary_rpc_end_to_end[where func = count_method and P = byte_serial and ctx = fresh_server and C = "loop_core 0 ?srv" and n = 0,
      OF loop_carries(1) wf st wf loop_carries(2) rb call sent rb]
  show ?thesis by auto
qed

theorem BlockingUnaryCall_contract_witness:
  "\<exists>st'. BlockingUnaryCall plain_core byte_serial byte_serial [1] (process [] ()) = Inr (\<lparr>s_code = UNKNOWN, s_details = []\<rparr>, st') \<and>
    same_heap hp_empty (rc_heap st')"
proof -
  let ?st = "process [] () :: (8 word list, unit) rpc"
  have "wf_heap (rc_heap ?st)" "sr_SerializeProto byte_serial [1] = (Status_OK, [1])"
    "gc_batch plain_core (unary_wire (cc_send_initial_metadata (rc_client ?st)) [1]) (rc_core ?st) = (reply_of [], ())"
    "received byte_serial (gc_max_message_size plain_core) (reply_of []) (rc_message ?st) = (False, [])"
    by (simp_all add: process_def byte_serial_def plain_core_def received_def reply_of_def)
  from BlockingUnaryCall_contract[OF this] show ?thesis
    by (auto simp: reply_status_def reply_of_def status_ok_def Status_OK_def process_def)
qed

theorem RpcMethodHandler_contract_witness:
  "\<exists>h'. RpcMethodHandler_RunHandler plain_core byte_serial byte_serial count_method (Some 0) 0
      (fresh_server, 6, (process [] ())\<lparr>rc_heap := snd (hp_new (Buffer [1, 2]) hp_empty)\<rparr>) =
    Inr (fresh_server, 7, (process [] ())\<lparr>rc_heap := h',
      rc_log := [[Send_initial [], Send_message 0 [2, 1], Send_status [] OK None]]\<rparr>) \<and> hp_cells h' = hp_cells hp_empty"
proof -
  let ?st = "(process [] () :: (8 word list, unit) rpc)\<lparr>rc_heap := snd (hp_new (Buffer [1, 2]) hp_empty)\<rparr>"
  have pre: "wf_heap (rc_heap ?st)" "hp_cells (rc_heap ?st) 0 = Some (Buffer [1, 2])" "0 \<notin> owned (rc_heap ?st)"
    "sr_DeserializeProto byte_serial [1, 2] 0 (sr_new byte_serial) = (Status_OK, [1, 2])"
    by (simp_all add: hp_new_def hp_empty_def wf_heap_def live_def owned_def byte_serial_def)
  have call: "(if status_ok Status_OK then count_method [1, 2] (fresh_server, sr_new byte_serial, 6)
      else Inr (Status_OK, fresh_server, sr_new byte_serial, 6)) = Inr (Status_OK, fresh_server, [2, 1], 7)"
    by (simp add: count_method_def)
  have sent: "\<not> sx_sent_initial_metadata fresh_server" by (simp add: fresh_server_def)
  have wire: "reply_wire fresh_server (outcome byte_serial Status_OK [2, 1]) =
      [Send_initial [], Send_message 0 [2, 1], Send_status [] OK None]"
    by (simp add: reply_wire_def outcome_def byte_serial_def fresh_server_def Status_OK_def status_ok_def)
  have batch: "gc_batch plain_core (reply_wire fresh_server (outcome byte_serial Status_OK [2, 1])) (rc_core ?st) = (reply_of [], ())"
    by (simp add: plain_core_def process_def)
  from RpcMethodHandler_contract[where func = count_method and P = byte_serial and ctx = fresh_server and s = 6 and C = plain_core,
      OF pre call sent batch]
  show ?thesis unfolding wire by (auto simp: process_def hp_new_def hp_empty_def fun_eq_iff)
qed

end
