(* ===== verification/GrpcTransfer.thy ===== *)
theory GrpcTransfer
  imports GrpcUnary Client
begin

text \<open>
  The main cache's transfer over gRPC: \<open>McMoveClient::afpMove\<close> on one node, \<open>GMServer::Afpmove\<close> on the
  other, and between them \<open>BlockingUnaryCall\<close>, the batches of the two cores and the handler that the server
  runs. Shown: the files of the one directory arrive in the other.
\<close>

text \<open>The service's function: the response is left as it is.\<close>

definition GMServer_method :: "(FingerValue, FingerValue, host) service_fn" where
  "GMServer_method req = (\<lambda>(ctx, rsp, h). bnd (GMServer_Afpmove req h) (\<lambda>(status, h). Inr (status, ctx, rsp, h)))"

text \<open>The wrapper's call, with a fresh context and a fresh response; the generated stub calls
  \<open>BlockingUnaryCall\<close> with its arguments.\<close>

definition fresh_call :: "ClientContext \<Rightarrow> 'm serial \<Rightarrow> ('m, 'w) rpc \<Rightarrow> ('m, 'w) rpc" where
  "fresh_call cx S st = st\<lparr>rc_client := cx, rc_message := sr_new S\<rparr>"

definition stub_calls ::
    "(FingerValue, 'w) rpc net \<Rightarrow> string \<Rightarrow> 'w core \<Rightarrow> FingerValue serial \<Rightarrow> ClientContext \<Rightarrow> bool" where
  "stub_calls net addr C S cx \<longleftrightarrow> (\<forall>req st status st'. BlockingUnaryCall C S S req (fresh_call cx S st) = Inr (status, st') \<longrightarrow>
     net_afpmove net addr req st = (status, rc_message st', st'))"

text \<open>The group server's process behind the client's core, in order.\<close>

definition far_side :: "(FingerValue, host \<times> (FingerValue, 'v) rpc) rpc \<Rightarrow> host \<Rightarrow> bool" where
  "far_side st h \<longleftrightarrow> wf_heap (rc_heap st) \<and> fst (rc_core st) = h \<and> wf_heap (rc_heap (snd (rc_core st)))"

lemma call_arrives:
  assumes "stub_calls net addr C S cx" and "carries C (serve D S S GMServer_method n ctx)" and "gc_pluck C True True"
    and "\<not> sx_sent_initial_metadata ctx" and "reads_back S n req" and "reads_back S (gc_max_message_size C) (sr_new S)"
    and "far_side st h" and "stores (DST_DIR (cfg h)) req (files h)"
  shows "\<exists>st' fs'. CMoveCltWrap_Afpmove net addr req st = (Status_OK, sr_new S, st') \<and> far_side st' (h\<lparr>files := fs'\<rparr>) \<and>
    wrote (DST_DIR (cfg h)) (fv_name req) (fv_val req) (files h) fs'"
proof -
  obtain fs' where g: "GMServer_Afpmove req h = Inr (Status_OK, h\<lparr>files := fs'\<rparr>)"
      "wrote (DST_DIR (cfg h)) (fv_name req) (fv_val req) (files h) fs'"
    using Afpmove_stores[OF assms(8)] by blast
  then have func: "GMServer_method req (ctx, sr_new S, h) = Inr (Status_OK, ctx, sr_new S, h\<lparr>files := fs'\<rparr>)"
    by (simp add: GMServer_method_def)
  let ?st = "fresh_call cx S st"
  have pre: "wf_heap (rc_heap ?st)" "rc_core ?st = (h, snd (rc_core st))" "wf_heap (rc_heap (snd (rc_core st)))"
    using assms(7) by (auto simp: far_side_def fresh_call_def)
  from unary_rpc_step[where func = GMServer_method, OF assms(2) pre assms(3,5) func assms(4,6)]
  obtain st' sst' where c: "BlockingUnaryCall C S S req ?st = Inr (Status_OK, st')" "rc_message st' = sr_new S"
      "rc_core st' = (h\<lparr>files := fs'\<rparr>, sst')" "same_heap (rc_heap ?st) (rc_heap st')"
      "same_heap (rc_heap (snd (rc_core st))) (rc_heap sst')"
    by auto
  then have "net_afpmove net addr req st = (Status_OK, sr_new S, st')" using assms(1) by (simp add: stub_calls_def)
  moreover have "far_side st' (h\<lparr>files := fs'\<rparr>)" using c(3-5) by (simp add: far_side_def same_heap_def)
  ultimately show ?thesis using g(2) by (auto simp: CMoveCltWrap_Afpmove_def)
qed

text \<open>Deleting at the sub caches concerns other nodes.\<close>

definition deletes_elsewhere :: "('r, 'w) rpc net \<Rightarrow> bool" where
  "deletes_elsewhere net \<longleftrightarrow> (\<forall>a req st. rc_heap (snd (net_delafps net a req st)) = rc_heap st \<and>
     rc_core (snd (net_delafps net a req st)) = rc_core st)"

lemma deletes_far_side:
  assumes "deletes_elsewhere net" and "far_side st h"
  shows "far_side (fold (delete_at net n) subs st) h"
  using assms(2)
proof (induction subs arbitrary: st)
  case (Cons a subs)
  have "far_side (delete_at net n a st) h" using assms(1) Cons.prems by (simp add: deletes_elsewhere_def delete_at_def far_side_def)
  then show ?case using Cons.IH by simp
qed simp

text \<open>A file the far side can take.\<close>

definition takes :: "FingerValue serial \<Rightarrow> int \<Rightarrow> fsys \<Rightarrow> string \<Rightarrow> host \<Rightarrow> string \<Rightarrow> bool" where
  "takes S lim fs org h n \<longleftrightarrow> valid_name n \<and> fits_path (DST_DIR (cfg h)) n \<and> can_write (files h) (DST_DIR (cfg h)) n \<and>
     reads_back S lim (request_of fs org n)"

lemma takes_stores: "takes S lim fs org h n \<Longrightarrow> stores (DST_DIR (cfg h)) (request_of fs org n) (files h)"
  by (simp add: takes_def stores_def request_of_def)

lemma takes_wrote:
  assumes "takes S lim fs org h n" and "wrote (DST_DIR (cfg h)) m s (files h) fs'"
  shows "takes S lim fs org (h\<lparr>files := fs'\<rparr>) n"
proof -
  have "can_write fs' (DST_DIR (cfg h)) n"
    using assms wrote_can_write[OF assms(2)] wrote_other(3)[OF assms(2), of "DST_DIR (cfg h)" n]
    by (cases "n = m") (auto simp: takes_def)
  then show ?thesis using assms(1) by (simp add: takes_def)
qed

lemma files_arrive:
  assumes "stub_calls net addr C S cx" and "carries C (serve D S S GMServer_method lim ctx)" and "gc_pluck C True True"
    and "\<not> sx_sent_initial_metadata ctx" and "reads_back S (gc_max_message_size C) (sr_new S)" and "deletes_elsewhere net"
    and "far_side st h" and "\<forall>n \<in> set ns. takes S lim fs org h n"
  shows "\<exists>fs'. far_side (fold (move_and_delete net addr subs fs org) ns st) (h\<lparr>files := fs'\<rparr>) \<and>
    (\<forall>n \<in> set ns. data_of fs' (DST_DIR (cfg h)) n = data_of fs org n) \<and>
    (\<forall>d n. d \<noteq> DST_DIR (cfg h) \<or> n \<notin> set ns \<longrightarrow> file_of fs' d n = file_of (files h) d n)"
  using assms(7,8)
proof (induction ns arbitrary: st h)
  case Nil
  then show ?case by (intro exI[of _ "files h"]) simp
next
  case (Cons n ns)
  let ?d = "DST_DIR (cfg h)"
  have n: "takes S lim fs org h n" using Cons.prems(2) by simp
  then have rb: "reads_back S lim (request_of fs org n)" by (simp add: takes_def)
  obtain st1 fs1 where c: "CMoveCltWrap_Afpmove net addr (request_of fs org n) st = (Status_OK, sr_new S, st1)"
      "far_side st1 (h\<lparr>files := fs1\<rparr>)" "wrote ?d n (data_of fs org n) (files h) fs1"
    using call_arrives[OF assms(1-4) rb assms(5) Cons.prems(1) takes_stores[OF n]] by (auto simp: request_of_def)
  have "move_and_delete net addr subs fs org n st = fold (delete_at net n) subs st1"
    using c(1) by (simp add: move_and_delete_def send_file_def CMoveCltWrap_Afpmove_def)
  moreover have "far_side (fold (delete_at net n) subs st1) (h\<lparr>files := fs1\<rparr>)" by (rule deletes_far_side[OF assms(6) c(2)])
  moreover have "\<forall>m \<in> set ns. takes S lim fs org (h\<lparr>files := fs1\<rparr>) m" using Cons.prems(2) takes_wrote[OF _ c(3)] by simp
  ultimately obtain fs' where f: "far_side (fold (move_and_delete net addr subs fs org) (n # ns) st) (h\<lparr>files := fs'\<rparr>)"
      "\<forall>m \<in> set ns. data_of fs' ?d m = data_of fs org m"
      "\<forall>d m. d \<noteq> ?d \<or> m \<notin> set ns \<longrightarrow> file_of fs' d m = file_of fs1 d m"
    using Cons.IH[of "fold (delete_at net n) subs st1" "h\<lparr>files := fs1\<rparr>"] by auto
  have "data_of fs' ?d n = data_of fs org n"
  proof (cases "n \<in> set ns")
    case False
    then have "data_of fs' ?d n = data_of fs1 ?d n" using f(3) by (simp add: data_of_def)
    then show ?thesis using wrote_data[OF c(3)] by simp
  qed (use f(2) in simp)
  moreover have "file_of fs' d m = file_of (files h) d m" if "d \<noteq> ?d \<or> m \<notin> set (n # ns)" for d m
    using that f(3) wroteD(1)[OF c(3), of d m] by auto
  ultimately show ?case using f(1,2) by (intro exI[of _ fs']) simp
qed

text \<open>C3: the transfer of the main cache, from its directory to the group server's over gRPC: when the
  connection carries requests and answers, every readable file of the transfer directory is in the group
  server's \<open>DST_DIR\<close> afterwards, under its name and with its bytes, every other file there is as it was,
  and on the main cache only the log has changed.\<close>

theorem transfer_over_grpc:
  assumes "stub_calls net addr C S cx" and "carries C (serve D S S GMServer_method lim ctx)" and "gc_pluck C True True"
    and "\<not> sx_sent_initial_metadata ctx" and "reads_back S (gc_max_message_size C) (sr_new S)" and "deletes_elsewhere net"
    and "far_side st g" and "\<forall>n \<in> set (sent_names (files h) org). takes S lim (files h) org g n"
    and "sendable org (files h)" and "length org \<le> 200" and "short_subs (g_sublist h)" and "good_addr a"
  shows "\<exists>h1 a1 st' fs'. McMoveClient_afpMove net addr org (h, a, st) = Inr (0, h1, a1, st') \<and> only_logs h h1 \<and>
    far_side st' (g\<lparr>files := fs'\<rparr>) \<and>
    (\<forall>n \<in> set (sent_names (files h) org). data_of fs' (DST_DIR (cfg g)) n = data_of (files h) org n) \<and>
    (\<forall>d n. d \<noteq> DST_DIR (cfg g) \<or> n \<notin> set (sent_names (files h) org) \<longrightarrow> file_of fs' d n = file_of (files g) d n)"
  using McMoveClient_transfer[OF assms(9-12), of net addr st]
    files_arrive[OF assms(1-8), of "g_sublist h"] by blast

section \<open>A concrete run\<close>

text \<open>A wire format for small files: the length of the name, the name, the contents.\<close>

definition byte_of :: "char \<Rightarrow> 8 word" where
  "byte_of c = word_of_nat (of_char c)"

definition char_at :: "8 word \<Rightarrow> char" where
  "char_at b = char_of (unat b)"

lemma char_at_byte [simp]: "char_at (byte_of c) = c"
proof -
  have "(of_char c :: nat) < 256" by (rule nat_of_char_less_256)
  then show ?thesis by (simp add: char_at_def byte_of_def unat_of_nat)
qed

definition finger_serial :: "FingerValue serial" where
  "finger_serial = \<lparr>sr_new = \<lparr>fv_name = [], fv_val = [], fv_len = 0\<rparr>,
     sr_SerializeProto = \<lambda>m. (Status_OK, word_of_nat (length (fv_name m)) # map byte_of (fv_name m @ fv_val m)),
     sr_DeserializeProto = \<lambda>bs n m. (case bs of [] \<Rightarrow> (Status_CANCELLED, m)
       | b # bs \<Rightarrow> (let cs = map char_at bs; val = drop (unat b) cs in
           (Status_OK, \<lparr>fv_name = take (unat b) cs, fv_val = val, fv_len = int (length val)\<rparr>)))\<rparr>"

lemma finger_reads_back:
  assumes "length (fv_name m) < 256" and "fv_len m = int (length (fv_val m))"
  shows "reads_back finger_serial n m"
proof -
  have "unat (word_of_nat (length (fv_name m)) :: 8 word) = length (fv_name m)" using assms(1) by (simp add: unat_of_nat)
  then show ?thesis using assms(2) by (simp add: reads_back_def finger_serial_def comp_def)
qed

definition group_core :: "(host \<times> (FingerValue, unit) rpc) core" where
  "group_core = loop_core 0 (serve plain_core finger_serial finger_serial GMServer_method 0 fresh_server)"

definition group_net :: "(FingerValue, host \<times> (FingerValue, unit) rpc) rpc net" where
  "group_net = \<lparr>net_afpmove = \<lambda>a req st. (case BlockingUnaryCall group_core finger_serial finger_serial req
         (fresh_call fresh_client finger_serial st) of Inr (status, st') \<Rightarrow> (status, rc_message st', st') | Inl _ \<Rightarrow> (Status_CANCELLED, req, st)),
     net_preconf = \<lambda>a req st. (Status_OK, req, st), net_delafps = \<lambda>a req st. (Status_OK, st), net_addafps = \<lambda>a req st. (Status_OK, st)\<rparr>"

theorem transfer_over_grpc_witness:
  "\<exists>h1 a1 st' fs'. McMoveClient_afpMove group_net ''g1:2'' ''org'' (sample_host\<lparr>files := outbox\<rparr>, ''g1:2'',
      process (sr_new finger_serial) (sample_host, process (sr_new finger_serial) ())) = Inr (0, h1, a1, st') \<and>
    far_side st' (sample_host\<lparr>files := fs'\<rparr>) \<and> data_of fs' ''dst'' ''7.afp'' = ''A'' \<and> data_of fs' ''dst'' ''8.afp'' = ''BB''"
proof -
  let ?h = "sample_host\<lparr>files := outbox\<rparr>"
  let ?st = "process (sr_new finger_serial) (sample_host, process (sr_new finger_serial) ())"
  have net: "stub_calls group_net ''g1:2'' group_core finger_serial fresh_client" "deletes_elsewhere group_net"
    by (simp_all add: stub_calls_def deletes_elsewhere_def group_net_def)
  have core: "carries group_core (serve plain_core finger_serial finger_serial GMServer_method 0 fresh_server)" "gc_pluck group_core True True"
    by (simp_all add: group_core_def loop_carries)
  have empty: "reads_back finger_serial (gc_max_message_size group_core) (sr_new finger_serial)"
    by (rule finger_reads_back) (simp_all add: finger_serial_def)
  have sent: "\<not> sx_sent_initial_metadata fresh_server" by (simp add: fresh_server_def)
  have far: "far_side ?st sample_host" by (simp add: far_side_def process_def)
  have names: "sent_names (files ?h) ''org'' = [''7.afp'', ''8.afp'']" by (simp add: outbox_sent)
  have data: "data_of outbox ''org'' ''7.afp'' = ''A''" "data_of outbox ''org'' ''8.afp'' = ''BB''"
    by (simp_all add: outbox_def fs_eval fs_eval_defs)
  have takes: "\<forall>n \<in> set (sent_names (files ?h) ''org''). takes finger_serial 0 (files ?h) ''org'' sample_host n"
    unfolding names by (auto simp: takes_def request_of_def sample_host_def fs_eval fs_eval_defs intro!: finger_reads_back)
  have main: "sendable ''org'' (files ?h)" "length ''org'' \<le> (200::nat)" "short_subs (g_sublist ?h)" "good_addr ''g1:2''"
    by (simp_all add: outbox_sendable short_subs_def good_addr_def sample_host_def)
  have dst: "DST_DIR (cfg sample_host) = ''dst''" "files ?h = outbox" by (simp_all add: sample_host_def)
  obtain h1 a1 st' fs' where r: "McMoveClient_afpMove group_net ''g1:2'' ''org'' (?h, ''g1:2'', ?st) = Inr (0, h1, a1, st')"
      "far_side st' (sample_host\<lparr>files := fs'\<rparr>)"
      "\<forall>n \<in> set (sent_names (files ?h) ''org''). data_of fs' (DST_DIR (cfg sample_host)) n = data_of (files ?h) ''org'' n"
    using transfer_over_grpc[OF net(1) core(1,2) sent empty net(2) far takes main] by blast
  have "data_of fs' ''dst'' ''7.afp'' = ''A''" "data_of fs' ''dst'' ''8.afp'' = ''BB''"
    using r(3) data by (simp_all add: names dst outbox_sent)
  then show ?thesis using r(1,2) by blast
qed

end
