(* ===== verification/GrpcStream.thy ===== *)
theory GrpcStream
  imports GrpcUnary
begin

text \<open>
  The synchronous streams of \<open>include/grpc++/support/sync_stream.h\<close> and the handlers of streaming methods in
  \<open>impl/rpc_service_method.h\<close>. An application that uses a stream is a tree: what it calls next depends on
  what the calls before gave it. Shown: whatever the application does, each end keeps to the protocol that
  \<open>grpc.h\<close> asks for, initial metadata once and first, one status and last, and frees what it makes.
\<close>

section \<open>The server's ends of a stream\<close>

text \<open>\<open>ServerReader\<close>, \<open>ServerWriter\<close> and \<open>ServerReaderWriter\<close> hold the call and the context and share the text
  of their methods. \<open>Read\<close> stores into \<open>*msg\<close>, which is \<open>rc_message\<close>.\<close>

definition ServerReader_SendInitialMetadata ::
    "'w core \<Rightarrow> 'r serial \<Rightarrow> ServerContext \<times> ('r, 'w) rpc \<Rightarrow> (ServerContext \<times> ('r, 'w) rpc) run" where
  "ServerReader_SendInitialMetadata C R = (\<lambda>(ctx, st).
     if sx_sent_initial_metadata ctx then Inl CheckFailed
     else bnd (SendInitialMetadata (sx_initial_metadata ctx) (CallOpSet_new 0 [send_initial_op]) (rc_heap st)) (\<lambda>(ops, h).
       bnd (perform C R ops (st\<lparr>rc_heap := h\<rparr>)) (\<lambda>(_, _, st). Inr (ctx\<lparr>sx_sent_initial_metadata := True\<rparr>, st))))"

definition ServerReader_Read ::
    "'w core \<Rightarrow> 'r serial \<Rightarrow> ServerContext \<times> ('r, 'w) rpc \<Rightarrow> (bool \<times> ServerContext \<times> ('r, 'w) rpc) run" where
  "ServerReader_Read C R = (\<lambda>(ctx, st).
     bnd (RecvMessage (CallOpSet_new 0 [recv_message_op])) (\<lambda>ops.
     bnd (perform C R ops st) (\<lambda>(ok, ops, st). Inr (ok \<and> got_message (os_ops ops), ctx, st))))"

definition ServerWriter_Write ::
    "'w core \<Rightarrow> 'p serial \<Rightarrow> 'r serial \<Rightarrow> 'p \<Rightarrow> WriteOptions \<Rightarrow> ServerContext \<times> ('r, 'w) rpc \<Rightarrow>
     (bool \<times> ServerContext \<times> ('r, 'w) rpc) run" where
  "ServerWriter_Write C P R msg options = (\<lambda>(ctx, st).
     bnd (SendMessage_with P msg options (CallOpSet_new 0 [send_initial_op, send_message_op]) (rc_heap st)) (\<lambda>(status, ops, h).
       if \<not> status_ok status then Inr (False, ctx, st\<lparr>rc_heap := h\<rparr>)
       else bnd (if \<not> sx_sent_initial_metadata ctx
           then bnd (SendInitialMetadata (sx_initial_metadata ctx) ops h) (\<lambda>(ops, h).
             Inr (ctx\<lparr>sx_sent_initial_metadata := True\<rparr>, ops, h))
           else Inr (ctx, ops, h)) (\<lambda>(ctx, ops, h).
         bnd (perform C R ops (st\<lparr>rc_heap := h\<rparr>)) (\<lambda>(ok, _, st). Inr (ok, ctx, st)))))"

definition ServerWriter_SendInitialMetadata ::
    "'w core \<Rightarrow> 'r serial \<Rightarrow> ServerContext \<times> ('r, 'w) rpc \<Rightarrow> (ServerContext \<times> ('r, 'w) rpc) run" where
  "ServerWriter_SendInitialMetadata = ServerReader_SendInitialMetadata"

definition ServerReaderWriter_SendInitialMetadata ::
    "'w core \<Rightarrow> 'r serial \<Rightarrow> ServerContext \<times> ('r, 'w) rpc \<Rightarrow> (ServerContext \<times> ('r, 'w) rpc) run" where
  "ServerReaderWriter_SendInitialMetadata = ServerReader_SendInitialMetadata"

definition ServerReaderWriter_Read ::
    "'w core \<Rightarrow> 'r serial \<Rightarrow> ServerContext \<times> ('r, 'w) rpc \<Rightarrow> (bool \<times> ServerContext \<times> ('r, 'w) rpc) run" where
  "ServerReaderWriter_Read = ServerReader_Read"

definition ServerReaderWriter_Write ::
    "'w core \<Rightarrow> 'p serial \<Rightarrow> 'r serial \<Rightarrow> 'p \<Rightarrow> WriteOptions \<Rightarrow> ServerContext \<times> ('r, 'w) rpc \<Rightarrow>
     (bool \<times> ServerContext \<times> ('r, 'w) rpc) run" where
  "ServerReaderWriter_Write = ServerWriter_Write"

text \<open>A service's function on a stream, with a result of type \<open>'z\<close>. What a \<open>Read\<close> gives is whether it
  succeeded and the message; a \<open>Write\<close> whether the stream is still open.\<close>

datatype ('q, 'p, 'z) app =
    Return 'z
  | App_SendInitialMetadata "('q, 'p, 'z) app"
  | App_Read 'q "bool \<Rightarrow> 'q \<Rightarrow> ('q, 'p, 'z) app"
  | App_Write 'p WriteOptions "bool \<Rightarrow> ('q, 'p, 'z) app"

text \<open>The run of such a function, with the writes it has handed to the core.\<close>

primrec run_app ::
    "'w core \<Rightarrow> 'p serial \<Rightarrow> 'q serial \<Rightarrow> ('q, 'p, 'z) app \<Rightarrow> ServerContext \<times> ('q, 'w) rpc \<Rightarrow>
     ('z \<times> ('p \<times> WriteOptions) list \<times> ServerContext \<times> ('q, 'w) rpc) run" where
  "run_app C P R (Return z) st = Inr (z, [], st)"
| "run_app C P R (App_SendInitialMetadata k) st =
     bnd (ServerReader_SendInitialMetadata C R st) (\<lambda>st. run_app C P R k st)"
| "run_app C P R (App_Read msg k) st =
     (case st of (ctx, st) \<Rightarrow> bnd (ServerReader_Read C R (ctx, st\<lparr>rc_message := msg\<rparr>)) (\<lambda>(ok, ctx, st).
       run_app C P R (k ok (rc_message st)) (ctx, st)))"
| "run_app C P R (App_Write msg options k) st =
     bnd (ServerWriter_Write C P R msg options st) (\<lambda>(ok, st).
       bnd (run_app C P R (k ok) st) (\<lambda>(z, ws, st).
         Inr (z, if status_ok (fst (sr_SerializeProto P msg)) then (msg, options) # ws else ws, st)))"

section \<open>The handlers\<close>

definition ClientStreaming_RunHandler ::
    "'w core \<Rightarrow> 'q serial \<Rightarrow> 'p serial \<Rightarrow> ('q, 'p, Status \<times> 'p) app \<Rightarrow> ServerContext \<times> ('q, 'w) rpc \<Rightarrow>
     (ServerContext \<times> ('q, 'w) rpc) run" where
  "ClientStreaming_RunHandler C Q P func st =
     bnd (run_app C P Q func st) (\<lambda>((status, rsp), _, ctx, st).
     bnd (send_outcome C P ctx rsp status st Q) (\<lambda>st. Inr (ctx, st)))"

definition finish_stream :: "'w core \<Rightarrow> 'q serial \<Rightarrow> Status \<Rightarrow> ServerContext \<times> ('q, 'w) rpc \<Rightarrow> (ServerContext \<times> ('q, 'w) rpc) run" where
  "finish_stream C Q status = (\<lambda>(ctx, st).
     bnd (if \<not> sx_sent_initial_metadata ctx then SendInitialMetadata (sx_initial_metadata ctx) status_ops (rc_heap st)
       else Inr (status_ops, rc_heap st)) (\<lambda>(ops, h).
     bnd (ServerSendStatus (sx_trailing_metadata ctx) status ops h) (\<lambda>(ops, h).
     bnd (perform C Q ops (st\<lparr>rc_heap := h\<rparr>)) (\<lambda>(_, _, st). Inr (ctx, st)))))"

definition ServerStreaming_RunHandler ::
    "'w core \<Rightarrow> 'q serial \<Rightarrow> 'p serial \<Rightarrow> ('q \<Rightarrow> ('q, 'p, Status) app) \<Rightarrow> nat option \<Rightarrow> int \<Rightarrow> ServerContext \<times> ('q, 'w) rpc \<Rightarrow>
     (('p \<times> WriteOptions) list \<times> ServerContext \<times> ('q, 'w) rpc) run" where
  "ServerStreaming_RunHandler C Q P func request max_message_size = (\<lambda>(ctx, st).
     bnd (Traits_Deserialize Q request (sr_new Q) max_message_size (rc_heap st)) (\<lambda>(status, req, h).
     bnd (if status_ok status then run_app C P Q (func req) (ctx, st\<lparr>rc_heap := h\<rparr>)
       else Inr (status, [], ctx, st\<lparr>rc_heap := h\<rparr>)) (\<lambda>(status, ws, st).
     bnd (finish_stream C Q status st) (\<lambda>st. Inr (ws, st)))))"

definition BidiStreaming_RunHandler ::
    "'w core \<Rightarrow> 'q serial \<Rightarrow> 'p serial \<Rightarrow> ('q, 'p, Status) app \<Rightarrow> ServerContext \<times> ('q, 'w) rpc \<Rightarrow>
     (('p \<times> WriteOptions) list \<times> ServerContext \<times> ('q, 'w) rpc) run" where
  "BidiStreaming_RunHandler C Q P func st =
     bnd (run_app C P Q func st) (\<lambda>(status, ws, st). bnd (finish_stream C Q status st) (\<lambda>st. Inr (ws, st)))"

section \<open>The client's ends of a stream\<close>

text \<open>The first batch of \<open>ClientReader\<close>: it asserts that the request can be serialised.\<close>

definition ClientReader_new :: "'w core \<Rightarrow> 'm serial \<Rightarrow> 'r serial \<Rightarrow> 'm \<Rightarrow> ('r, 'w) rpc \<Rightarrow> ('r, 'w) rpc run" where
  "ClientReader_new C M R request st =
     bnd (SendInitialMetadata (cc_send_initial_metadata (rc_client st))
         (CallOpSet_new 0 [send_initial_op, send_message_op, send_close_op]) (rc_heap st)) (\<lambda>(ops, h).
     bnd (SendMessage M request ops h) (\<lambda>(status, ops, h).
       if \<not> status_ok status then Inl CheckFailed
       else bnd (ClientSendClose ops) (\<lambda>ops.
         bnd (perform C R ops (st\<lparr>rc_heap := h\<rparr>)) (\<lambda>(_, _, st). Inr st))))"

definition ClientReader_WaitForInitialMetadata :: "'w core \<Rightarrow> 'r serial \<Rightarrow> ('r, 'w) rpc \<Rightarrow> ('r, 'w) rpc run" where
  "ClientReader_WaitForInitialMetadata C R st =
     (if cc_initial_metadata_received (rc_client st) then Inl CheckFailed
      else bnd (RecvInitialMetadata (CallOpSet_new 0 [recv_initial_op]) st) (\<lambda>(ops, st).
        bnd (perform C R ops st) (\<lambda>(_, _, st). Inr st)))"

definition ClientReader_Read :: "'w core \<Rightarrow> 'r serial \<Rightarrow> ('r, 'w) rpc \<Rightarrow> (bool \<times> ('r, 'w) rpc) run" where
  "ClientReader_Read C R st =
     bnd (if \<not> cc_initial_metadata_received (rc_client st)
         then RecvInitialMetadata (CallOpSet_new 0 [recv_initial_op, recv_message_op]) st
         else Inr (CallOpSet_new 0 [recv_initial_op, recv_message_op], st)) (\<lambda>(ops, st).
     bnd (RecvMessage ops) (\<lambda>ops.
     bnd (perform C R ops st) (\<lambda>(ok, ops, st). Inr (ok \<and> got_message (os_ops ops), st))))"

definition ClientReader_Finish :: "'w core \<Rightarrow> 'r serial \<Rightarrow> ('r, 'w) rpc \<Rightarrow> (Status \<times> ('r, 'w) rpc) run" where
  "ClientReader_Finish C R st =
     bnd (ClientRecvStatus (CallOpSet_new 0 [recv_status_op])) (\<lambda>ops.
     bnd (perform C R ops (st\<lparr>rc_status := Status_OK\<rparr>)) (\<lambda>(ok, _, st).
       if ok then Inr (rc_status st, st) else Inl CheckFailed))"

text \<open>\<open>ClientWriter\<close> keeps the set of its last batch, which receives the response.\<close>

definition ClientWriter_new :: "'w core \<Rightarrow> 'r serial \<Rightarrow> ('r, 'w) rpc \<Rightarrow> (CallOpSet \<times> ('r, 'w) rpc) run" where
  "ClientWriter_new C R st =
     bnd (RecvMessage (CallOpSet_new 0 [generic_recv_message_op, recv_status_op])) (\<lambda>last_ops.
     bnd (SendInitialMetadata (cc_send_initial_metadata (rc_client st)) (CallOpSet_new 0 [send_initial_op]) (rc_heap st)) (\<lambda>(ops, h).
     bnd (perform C R ops (st\<lparr>rc_heap := h\<rparr>)) (\<lambda>(_, _, st). Inr (last_ops, st))))"

definition ClientWriter_Write ::
    "'w core \<Rightarrow> 'm serial \<Rightarrow> 'r serial \<Rightarrow> 'm \<Rightarrow> WriteOptions \<Rightarrow> ('r, 'w) rpc \<Rightarrow> (bool \<times> ('r, 'w) rpc) run" where
  "ClientWriter_Write C M R msg options st =
     bnd (SendMessage_with M msg options (CallOpSet_new 0 [send_message_op]) (rc_heap st)) (\<lambda>(status, ops, h).
       if \<not> status_ok status then Inr (False, st\<lparr>rc_heap := h\<rparr>)
       else bnd (perform C R ops (st\<lparr>rc_heap := h\<rparr>)) (\<lambda>(ok, _, st). Inr (ok, st)))"

definition ClientWriter_WritesDone :: "'w core \<Rightarrow> 'r serial \<Rightarrow> ('r, 'w) rpc \<Rightarrow> (bool \<times> ('r, 'w) rpc) run" where
  "ClientWriter_WritesDone C R st =
     bnd (ClientSendClose (CallOpSet_new 0 [send_close_op])) (\<lambda>ops.
     bnd (perform C R ops st) (\<lambda>(ok, _, st). Inr (ok, st)))"

definition ClientWriter_Finish :: "'w core \<Rightarrow> 'r serial \<Rightarrow> CallOpSet \<Rightarrow> ('r, 'w) rpc \<Rightarrow> (Status \<times> CallOpSet \<times> ('r, 'w) rpc) run" where
  "ClientWriter_Finish C R last_ops st =
     bnd (ClientRecvStatus last_ops) (\<lambda>ops.
     bnd (perform C R ops (st\<lparr>rc_status := Status_OK\<rparr>)) (\<lambda>(ok, ops, st).
       if ok then Inr (rc_status st, ops, st) else Inl CheckFailed))"

definition ClientReaderWriter_new :: "'w core \<Rightarrow> 'r serial \<Rightarrow> ('r, 'w) rpc \<Rightarrow> ('r, 'w) rpc run" where
  "ClientReaderWriter_new C R st =
     bnd (SendInitialMetadata (cc_send_initial_metadata (rc_client st)) (CallOpSet_new 0 [send_initial_op]) (rc_heap st)) (\<lambda>(ops, h).
     bnd (perform C R ops (st\<lparr>rc_heap := h\<rparr>)) (\<lambda>(_, _, st). Inr st))"

definition ClientReaderWriter_WaitForInitialMetadata :: "'w core \<Rightarrow> 'r serial \<Rightarrow> ('r, 'w) rpc \<Rightarrow> ('r, 'w) rpc run" where
  "ClientReaderWriter_WaitForInitialMetadata = ClientReader_WaitForInitialMetadata"

definition ClientReaderWriter_Read :: "'w core \<Rightarrow> 'r serial \<Rightarrow> ('r, 'w) rpc \<Rightarrow> (bool \<times> ('r, 'w) rpc) run" where
  "ClientReaderWriter_Read = ClientReader_Read"

definition ClientReaderWriter_Write ::
    "'w core \<Rightarrow> 'm serial \<Rightarrow> 'r serial \<Rightarrow> 'm \<Rightarrow> WriteOptions \<Rightarrow> ('r, 'w) rpc \<Rightarrow> (bool \<times> ('r, 'w) rpc) run" where
  "ClientReaderWriter_Write = ClientWriter_Write"

definition ClientReaderWriter_WritesDone :: "'w core \<Rightarrow> 'r serial \<Rightarrow> ('r, 'w) rpc \<Rightarrow> (bool \<times> ('r, 'w) rpc) run" where
  "ClientReaderWriter_WritesDone = ClientWriter_WritesDone"

definition ClientReaderWriter_Finish :: "'w core \<Rightarrow> 'r serial \<Rightarrow> ('r, 'w) rpc \<Rightarrow> (Status \<times> ('r, 'w) rpc) run" where
  "ClientReaderWriter_Finish = ClientReader_Finish"

section \<open>One batch\<close>

text \<open>A call's process goes from one state to another over the batches \<open>bs\<close>: the heap holds the same, the
  record of batches has grown by them.\<close>

definition ran :: "('r, 'w) rpc \<Rightarrow> wire_op list list \<Rightarrow> ('r, 'w) rpc \<Rightarrow> bool" where
  "ran st bs st' \<longleftrightarrow> same_heap (rc_heap st) (rc_heap st') \<and> rc_log st' = rc_log st @ bs \<and>
     cc_send_initial_metadata (rc_client st') = cc_send_initial_metadata (rc_client st)"

lemma ran_refl: "wf_heap (rc_heap st) \<Longrightarrow> ran st [] st"
  by (simp add: ran_def same_heap_refl)

lemma ran_trans: "ran st bs st1 \<Longrightarrow> ran st1 cs st2 \<Longrightarrow> ran st (bs @ cs) st2"
  by (auto simp: ran_def same_heap_def)

lemma ran_wf: "ran st bs st' \<Longrightarrow> wf_heap (rc_heap st')"
  by (simp add: ran_def same_heap_def)

lemma settle_keeps:
  assumes "settle S n re ws (status, st) = (s, t)"
  shows "rc_log t = rc_log st \<and> cc_initial_metadata_received (rc_client t) = cc_initial_metadata_received (rc_client st) \<and>
    cc_send_initial_metadata (rc_client t) = cc_send_initial_metadata (rc_client st)"
  using assms
proof (induction ws arbitrary: status st)
  case (Cons w ws)
  obtain s1 t1 where o: "settle_op S n re w (status, st) = (s1, t1)" by (cases "settle_op S n re w (status, st)")
  have "rc_log t1 = rc_log st \<and> cc_initial_metadata_received (rc_client t1) = cc_initial_metadata_received (rc_client st) \<and>
      cc_send_initial_metadata (rc_client t1) = cc_send_initial_metadata (rc_client st)"
    using o by (cases w) (auto split: option.splits prod.splits if_splits)
  then show ?case using Cons.IH[of s1 t1] Cons.prems o by simp
qed simp

lemma perform_runs:
  assumes "wf_heap (rc_heap st0)" and "rc_heap st = alloc xs (rc_heap st0)" and "list_all2 (ready (alloc xs (rc_heap st0))) (os_ops ops) wss"
    and "set (concat (map send_ptrs (os_ops ops))) = {hp_next (rc_heap st0)..<hp_next (rc_heap st0) + length xs}"
    and "length (concat (map send_ptrs (os_ops ops))) = length xs" and "one_recv (os_ops ops)"
    and "rc_log st = rc_log st0" and "cc_send_initial_metadata (rc_client st) = cc_send_initial_metadata (rc_client st0)"
  shows "\<exists>ok ops' st'. perform C S ops st = Inr (ok, ops', st') \<and> ran st0 [concat wss] st' \<and>
    cc_initial_metadata_received (rc_client st') = cc_initial_metadata_received (rc_client st)"
proof -
  obtain re w where b: "gc_batch C (concat wss) (rc_core st) = (re, w)" by (cases "gc_batch C (concat wss) (rc_core st)")
  obtain s t where t: "settle S (gc_max_message_size C) re (concat wss)
      (re_success re, st\<lparr>rc_core := w, rc_log := rc_log st @ [concat wss]\<rparr>) = (s, t)"
    by (cases "settle S (gc_max_message_size C) re (concat wss) (re_success re, st\<lparr>rc_core := w, rc_log := rc_log st @ [concat wss]\<rparr>)")
  obtain ops' h' where p: "perform C S ops st = Inr (gc_pluck C (re_success re) s, ops', t\<lparr>rc_heap := h'\<rparr>)"
      "same_heap (rc_heap st0) h'"
    using perform_fresh[OF assms(1-6) b t] by blast
  have "ran st0 [concat wss] (t\<lparr>rc_heap := h'\<rparr>)" using settle_keeps[OF t] p(2) assms(7,8) by (simp add: ran_def)
  then show ?thesis using p(1) settle_keeps[OF t] by (intro exI[of _ "gc_pluck C (re_success re) s"] exI[of _ ops'] exI) auto
qed

lemma alloc_new: "hp_new x h = (hp_next h, alloc [x] h)"
  using new_alloc[of x "[]" h] by simp

lemmas batch_simps = CallOpSet_new_def one_recv_def is_recv_def

lemma Server_SendInitialMetadata_step:
  assumes "wf_heap (rc_heap st)"
  shows "if sx_sent_initial_metadata ctx then ServerReader_SendInitialMetadata C R (ctx, st) = Inl CheckFailed
    else \<exists>st'. ServerReader_SendInitialMetadata C R (ctx, st) = Inr (ctx\<lparr>sx_sent_initial_metadata := True\<rparr>, st') \<and>
      ran st [[Send_initial (sx_initial_metadata ctx)]] st'"
proof (cases "sx_sent_initial_metadata ctx")
  case True
  then show ?thesis by (simp add: ServerReader_SendInitialMetadata_def)
next
  case False
  let ?md = "sx_initial_metadata ctx" and ?h = "rc_heap st"
  let ?ops = "CallOpSet_new 0 [SendInitial \<lparr>si_send = True, si_metadata = Some (length ?md, Some (hp_next ?h))\<rparr>]"
  let ?st = "st\<lparr>rc_heap := alloc [Metadata ?md] ?h\<rparr>"
  have "\<exists>ok ops' st'. perform C R ?ops ?st = Inr (ok, ops', st') \<and> ran st [concat [[Send_initial ?md]]] st' \<and>
      cc_initial_metadata_received (rc_client st') = cc_initial_metadata_received (rc_client ?st)"
    by (rule perform_runs[where xs = "[Metadata ?md]", OF assms]) (auto simp: batch_simps)
  then show ?thesis using False
    by (auto simp: ServerReader_SendInitialMetadata_def op_set_defs arm_defs alloc_new[of _ ?h])
qed

lemma Server_Read_step:
  assumes "wf_heap (rc_heap st)"
  shows "\<exists>ok st'. ServerReader_Read C R (ctx, st) = Inr (ok, ctx, st') \<and> ran st [[Recv_message]] st'"
proof -
  let ?ops = "CallOpSet_new 0 [RecvMsg \<lparr>rm_got_message = False, rm_message = True, rm_recv_buf = None\<rparr>]"
  have "\<exists>ok ops' st'. perform C R ?ops st = Inr (ok, ops', st') \<and> ran st [concat [[Recv_message]]] st' \<and>
      cc_initial_metadata_received (rc_client st') = cc_initial_metadata_received (rc_client st)"
    by (rule perform_runs[where xs = "[]", OF assms]) (auto simp: batch_simps)
  then show ?thesis by (auto simp: ServerReader_Read_def op_set_defs arm_defs)
qed

text \<open>What a write sends: initial metadata before the first message.\<close>

definition write_wire :: "ServerContext \<Rightarrow> WriteOptions \<Rightarrow> 8 word list \<Rightarrow> wire_op list" where
  "write_wire ctx options bs = (if sx_sent_initial_metadata ctx then [] else [Send_initial (sx_initial_metadata ctx)]) @
     [Send_message (wo_flags options) bs]"

lemma Server_Write_step:
  assumes "wf_heap (rc_heap st)" and "sr_SerializeProto P msg = (s, bs)"
  shows "if status_ok s
    then \<exists>ok st'. ServerWriter_Write C P R msg options (ctx, st) = Inr (ok, ctx\<lparr>sx_sent_initial_metadata := True\<rparr>, st') \<and>
      ran st [write_wire ctx options bs] st'
    else ServerWriter_Write C P R msg options (ctx, st) = Inr (False, ctx, st)"
proof (cases "status_ok s")
  case False
  then show ?thesis using assms(2) by (simp add: ServerWriter_Write_def op_set_defs arm_defs)
next
  case True
  let ?md = "sx_initial_metadata ctx" and ?h = "rc_heap st"
  let ?msg = "SendMsg \<lparr>sm_send_buf = Some (hp_next ?h), sm_write_options = options, sm_own_buf = True\<rparr>"
  show ?thesis
  proof (cases "sx_sent_initial_metadata ctx")
    case sent: True
    let ?ops = "CallOpSet_new 0 [SendInitial \<lparr>si_send = False, si_metadata = None\<rparr>, ?msg]"
    let ?st = "st\<lparr>rc_heap := alloc [Buffer bs] ?h\<rparr>"
    have "\<exists>ok ops' st'. perform C R ?ops ?st = Inr (ok, ops', st') \<and> ran st [concat [[], [Send_message (wo_flags options) bs]]] st' \<and>
        cc_initial_metadata_received (rc_client st') = cc_initial_metadata_received (rc_client ?st)"
      by (rule perform_runs[where xs = "[Buffer bs]", OF assms(1)]) (auto simp: batch_simps)
    moreover have "ctx\<lparr>sx_sent_initial_metadata := True\<rparr> = ctx" using sent by simp
    ultimately show ?thesis using True sent assms(2)
      by (auto simp: ServerWriter_Write_def op_set_defs arm_defs alloc_new[of _ ?h] write_wire_def)
  next
    case sent: False
    let ?ops = "CallOpSet_new 0 [SendInitial \<lparr>si_send = True, si_metadata = Some (length ?md, Some (Suc (hp_next ?h)))\<rparr>, ?msg]"
    let ?st = "st\<lparr>rc_heap := alloc [Buffer bs, Metadata ?md] ?h\<rparr>"
    have "\<exists>ok ops' st'. perform C R ?ops ?st = Inr (ok, ops', st') \<and>
        ran st [concat [[Send_initial ?md], [Send_message (wo_flags options) bs]]] st' \<and>
        cc_initial_metadata_received (rc_client st') = cc_initial_metadata_received (rc_client ?st)"
      by (rule perform_runs[where xs = "[Buffer bs, Metadata ?md]", OF assms(1)]) (auto simp: batch_simps)
    then show ?thesis using True sent assms(2)
      by (auto simp: ServerWriter_Write_def op_set_defs arm_defs alloc_new[of _ ?h] write_wire_def)
  qed
qed

lemma finish_stream_step:
  assumes "wf_heap (rc_heap st)"
  shows "\<exists>st'. finish_stream C Q status (ctx, st) = Inr (ctx, st') \<and>
    ran st [(if sx_sent_initial_metadata ctx then [] else [Send_initial (sx_initial_metadata ctx)]) @
      [Send_status (sx_trailing_metadata ctx) (s_code status) (if s_details status = [] then None else Some (cstr (s_details status)))]] st'"
proof -
  let ?md = "sx_initial_metadata ctx" and ?tr = "sx_trailing_metadata ctx" and ?h = "rc_heap st"
  let ?w = "Send_status ?tr (s_code status) (if s_details status = [] then None else Some (cstr (s_details status)))"
  let ?stat = "\<lambda>p. SendStatus \<lparr>ss_available = True, ss_status = Some (s_code status, s_details status), ss_metadata = Some (length ?tr, Some p)\<rparr>"
  show ?thesis
  proof (cases "sx_sent_initial_metadata ctx")
    case sent: True
    let ?ops = "CallOpSet_new 0 [SendInitial \<lparr>si_send = False, si_metadata = None\<rparr>, ?stat (hp_next ?h)]"
    let ?st = "st\<lparr>rc_heap := alloc [Metadata ?tr] ?h\<rparr>"
    have "\<exists>ok ops' st'. perform C Q ?ops ?st = Inr (ok, ops', st') \<and> ran st [concat [[], [?w]]] st' \<and>
        cc_initial_metadata_received (rc_client st') = cc_initial_metadata_received (rc_client ?st)"
      by (rule perform_runs[where xs = "[Metadata ?tr]", OF assms]) (auto simp: batch_simps)
    then show ?thesis using sent
      by (auto simp: finish_stream_def status_ops_def op_set_defs arm_defs alloc_new[of _ ?h] error_code_def error_message_def)
  next
    case sent: False
    let ?ops = "CallOpSet_new 0 [SendInitial \<lparr>si_send = True, si_metadata = Some (length ?md, Some (hp_next ?h))\<rparr>, ?stat (Suc (hp_next ?h))]"
    let ?st = "st\<lparr>rc_heap := alloc [Metadata ?md, Metadata ?tr] ?h\<rparr>"
    have "\<exists>ok ops' st'. perform C Q ?ops ?st = Inr (ok, ops', st') \<and> ran st [concat [[Send_initial ?md], [?w]]] st' \<and>
        cc_initial_metadata_received (rc_client st') = cc_initial_metadata_received (rc_client ?st)"
      by (rule perform_runs[where xs = "[Metadata ?md, Metadata ?tr]", OF assms]) (auto simp: batch_simps)
    then show ?thesis using sent
      by (auto simp: finish_stream_def status_ops_def op_set_defs arm_defs alloc_new[of _ ?h] error_code_def error_message_def)
  qed
qed

section \<open>A service's function on a stream\<close>

text \<open>What a run has sent, and that no batch has two operations of a kind.\<close>

fun op_kind :: "wire_op \<Rightarrow> nat" where
  "op_kind (Send_initial _) = 0"
| "op_kind (Send_message _ _) = 1"
| "op_kind Send_close = 2"
| "op_kind (Send_status _ _ _) = 3"
| "op_kind Recv_initial = 4"
| "op_kind Recv_message = 5"
| "op_kind Recv_status = 6"

definition sends :: "wire_op list list \<Rightarrow> wire_op list" where
  "sends bs = filter (\<lambda>w. op_kind w < 4) (concat bs)"

definition kinds_ok :: "wire_op list list \<Rightarrow> bool" where
  "kinds_ok bs \<longleftrightarrow> (\<forall>b \<in> set bs. distinct (map op_kind b))"

lemma sends_simps [simp]: "sends [] = []" "sends (bs @ cs) = sends bs @ sends cs"
  "sends [b] = filter (\<lambda>w. op_kind w < 4) b"
  by (simp_all add: sends_def)

lemma kinds_ok_simps [simp]: "kinds_ok []" "kinds_ok (bs @ cs) \<longleftrightarrow> kinds_ok bs \<and> kinds_ok cs"
  "kinds_ok [b] \<longleftrightarrow> distinct (map op_kind b)"
  by (auto simp: kinds_ok_def)

definition msg_wire :: "'p serial \<Rightarrow> 'p \<times> WriteOptions \<Rightarrow> wire_op" where
  "msg_wire P x = Send_message (wo_flags (snd x)) (snd (sr_SerializeProto P (fst x)))"

primrec no_metadata :: "('q, 'p, 'z) app \<Rightarrow> bool" where
  "no_metadata (Return z) \<longleftrightarrow> True"
| "no_metadata (App_SendInitialMetadata k) \<longleftrightarrow> False"
| "no_metadata (App_Read msg k) \<longleftrightarrow> (\<forall>ok q. no_metadata (k ok q))"
| "no_metadata (App_Write msg options k) \<longleftrightarrow> (\<forall>ok. no_metadata (k ok))"

text \<open>The state of a stream between two calls: initial metadata has gone out, once, before any message.\<close>

definition app_sent ::
    "'p serial \<Rightarrow> ServerContext \<Rightarrow> ('q, 'w) rpc \<Rightarrow> ('p \<times> WriteOptions) list \<Rightarrow> ServerContext \<Rightarrow> ('q, 'w) rpc \<Rightarrow> bool" where
  "app_sent P ctx st ws ctx' st' \<longleftrightarrow> (\<exists>bs. ran st bs st' \<and> kinds_ok bs \<and>
     sends bs = (if \<not> sx_sent_initial_metadata ctx \<and> sx_sent_initial_metadata ctx' then [Send_initial (sx_initial_metadata ctx)] else []) @
       map (msg_wire P) ws \<and>
     (\<not> sx_sent_initial_metadata ctx' \<longrightarrow> ws = []) \<and> (sx_sent_initial_metadata ctx \<longrightarrow> sx_sent_initial_metadata ctx') \<and>
     sx_initial_metadata ctx' = sx_initial_metadata ctx \<and> sx_trailing_metadata ctx' = sx_trailing_metadata ctx)"

lemma app_sent_trans:
  assumes "app_sent P ctx st ws ctx1 st1" and "app_sent P ctx1 st1 vs ctx2 st2"
  shows "app_sent P ctx st (ws @ vs) ctx2 st2"
proof -
  obtain bs where b: "ran st bs st1" "kinds_ok bs" "sends bs = (if \<not> sx_sent_initial_metadata ctx \<and> sx_sent_initial_metadata ctx1
      then [Send_initial (sx_initial_metadata ctx)] else []) @ map (msg_wire P) ws"
      "\<not> sx_sent_initial_metadata ctx1 \<longrightarrow> ws = []" "sx_sent_initial_metadata ctx \<longrightarrow> sx_sent_initial_metadata ctx1"
      "sx_initial_metadata ctx1 = sx_initial_metadata ctx" "sx_trailing_metadata ctx1 = sx_trailing_metadata ctx"
    using assms(1) by (auto simp: app_sent_def)
  obtain cs where c: "ran st1 cs st2" "kinds_ok cs" "sends cs = (if \<not> sx_sent_initial_metadata ctx1 \<and> sx_sent_initial_metadata ctx2
      then [Send_initial (sx_initial_metadata ctx1)] else []) @ map (msg_wire P) vs"
      "\<not> sx_sent_initial_metadata ctx2 \<longrightarrow> vs = []" "sx_sent_initial_metadata ctx1 \<longrightarrow> sx_sent_initial_metadata ctx2"
      "sx_initial_metadata ctx2 = sx_initial_metadata ctx1" "sx_trailing_metadata ctx2 = sx_trailing_metadata ctx1"
    using assms(2) by (auto simp: app_sent_def)
  show ?thesis unfolding app_sent_def
    by (rule exI[of _ "bs @ cs"], cases "sx_sent_initial_metadata ctx1"; cases "sx_sent_initial_metadata ctx2")
      (use b c ran_trans[OF b(1) c(1)] in simp_all)
qed

lemma app_sent_wf: "app_sent P ctx st ws ctx' st' \<Longrightarrow> wf_heap (rc_heap st')"
  using ran_wf by (auto simp: app_sent_def)

text \<open>The calls of a function as steps: what is left of it to run and the state it runs in. A call that
  aborts is no step.\<close>

inductive app_step ::
    "'w core \<Rightarrow> 'p serial \<Rightarrow> 'q serial \<Rightarrow> ('q, 'p, 'z) app \<times> ServerContext \<times> ('q, 'w) rpc \<Rightarrow>
     ('q, 'p, 'z) app \<times> ServerContext \<times> ('q, 'w) rpc \<Rightarrow> bool"
  for C :: "'w core" and P :: "'p serial" and R :: "'q serial" where
  send_step: "ServerReader_SendInitialMetadata C R (ctx, st) = Inr (ctx1, st1) \<Longrightarrow>
    app_step C P R (App_SendInitialMetadata k, ctx, st) (k, ctx1, st1)"
| read_step: "ServerReader_Read C R (ctx, st\<lparr>rc_message := msg\<rparr>) = Inr (ok, ctx1, st1) \<Longrightarrow>
    app_step C P R (App_Read msg k, ctx, st) (k ok (rc_message st1), ctx1, st1)"
| write_step: "ServerWriter_Write C P R msg options (ctx, st) = Inr (ok, ctx1, st1) \<Longrightarrow>
    app_step C P R (App_Write msg options k, ctx, st) (k ok, ctx1, st1)"

inductive_simps app_step_simps [simp]:
  "app_step C P R (Return z, ctx, st) y"
  "app_step C P R (App_SendInitialMetadata k, ctx, st) y"
  "app_step C P R (App_Read msg k, ctx, st) y"
  "app_step C P R (App_Write msg options k, ctx, st) y"

definition app_reaches ::
    "'w core \<Rightarrow> 'p serial \<Rightarrow> 'q serial \<Rightarrow> ('q, 'p, 'z) app \<times> ServerContext \<times> ('q, 'w) rpc \<Rightarrow>
     ('q, 'p, 'z) app \<times> ServerContext \<times> ('q, 'w) rpc \<Rightarrow> bool" where
  "app_reaches C P R = rtranclp (app_step C P R)"

lemma app_step_det: "app_step C P R x y \<Longrightarrow> app_step C P R x z \<Longrightarrow> y = z"
  by (induction rule: app_step.induct) auto

lemma reaches_from_step:
  "app_step C P R x y \<Longrightarrow> app_reaches C P R x z \<longleftrightarrow> z = x \<or> app_reaches C P R y z"
  unfolding app_reaches_def
  by (metis app_step_det converse_rtranclp_into_rtranclp converse_rtranclpE rtranclp.rtrancl_refl)

lemma reaches_stuck: "(\<And>y. \<not> app_step C P R x y) \<Longrightarrow> app_reaches C P R x z \<longleftrightarrow> z = x"
  unfolding app_reaches_def by (metis converse_rtranclpE rtranclp.rtrancl_refl)

text \<open>What a run gives: it is stuck at a call that sends initial metadata after it has gone out, or it never
  comes to one and ends where the steps end.\<close>

definition app_ok ::
    "'w core \<Rightarrow> 'p serial \<Rightarrow> 'q serial \<Rightarrow> ('q, 'p, 'z) app \<Rightarrow> ServerContext \<Rightarrow> ('q, 'w) rpc \<Rightarrow>
     ('z \<times> ('p \<times> WriteOptions) list \<times> ServerContext \<times> ('q, 'w) rpc) run \<Rightarrow> bool" where
  "app_ok C P R app ctx st r \<longleftrightarrow>
    (\<forall>k ctx1 st1. app_reaches C P R (app, ctx, st) (App_SendInitialMetadata k, ctx1, st1) \<longrightarrow>
       (\<exists>ws. app_sent P ctx st ws ctx1 st1)) \<and>
    (case r of
       Inl e \<Rightarrow> e = CheckFailed \<and> (\<exists>k ctx1 st1. app_reaches C P R (app, ctx, st) (App_SendInitialMetadata k, ctx1, st1) \<and>
         sx_sent_initial_metadata ctx1)
     | Inr (z, ws, ctx', st') \<Rightarrow> app_sent P ctx st ws ctx' st' \<and> app_reaches C P R (app, ctx, st) (Return z, ctx', st') \<and>
         (\<forall>k ctx1 st1. app_reaches C P R (app, ctx, st) (App_SendInitialMetadata k, ctx1, st1) \<longrightarrow>
            \<not> sx_sent_initial_metadata ctx1))"

lemma app_sent_refl: "wf_heap (rc_heap st) \<Longrightarrow> app_sent P ctx st [] ctx st"
  using ran_refl[of st] by (auto simp: app_sent_def intro!: exI[of _ "[]"])

lemma app_ok_step:
  assumes s: "app_step C P R (app, ctx, st) (app1, ctx1, st1)" and one: "app_sent P ctx st vs ctx1 st1"
    and wf: "wf_heap (rc_heap st)" and ok: "app_ok C P R app1 ctx1 st1 r"
    and legal: "\<And>k. app = App_SendInitialMetadata k \<Longrightarrow> \<not> sx_sent_initial_metadata ctx"
  shows "app_ok C P R app ctx st (bnd r (\<lambda>(z, ws, st). Inr (z, vs @ ws, st)))"
proof -
  note rch = reaches_from_step[OF s]
  have "\<exists>ws. app_sent P ctx st ws ctx2 st2"
    if "app_reaches C P R (app, ctx, st) (App_SendInitialMetadata k, ctx2, st2)" for k ctx2 st2
  proof (cases "(App_SendInitialMetadata k, ctx2, st2) = (app, ctx, st)")
    case True
    then show ?thesis using app_sent_refl[OF wf, of P ctx] by blast
  next
    case False
    then show ?thesis using that ok rch app_sent_trans[OF one] unfolding app_ok_def by blast
  qed
  moreover have "case bnd r (\<lambda>(z, ws, st). Inr (z, vs @ ws, st)) of
       Inl e \<Rightarrow> e = CheckFailed \<and> (\<exists>k ctx1 st1. app_reaches C P R (app, ctx, st) (App_SendInitialMetadata k, ctx1, st1) \<and>
         sx_sent_initial_metadata ctx1)
     | Inr (z, ws, ctx', st') \<Rightarrow> app_sent P ctx st ws ctx' st' \<and> app_reaches C P R (app, ctx, st) (Return z, ctx', st') \<and>
         (\<forall>k ctx1 st1. app_reaches C P R (app, ctx, st) (App_SendInitialMetadata k, ctx1, st1) \<longrightarrow>
            \<not> sx_sent_initial_metadata ctx1)"
  proof (cases r)
    case (Inl e)
    then show ?thesis using ok by (auto simp: app_ok_def rch)
  next
    case (Inr x)
    obtain z ws ctx' st' where x: "x = (z, ws, ctx', st')" by (cases x)
    have b: "app_sent P ctx1 st1 ws ctx' st'" "app_reaches C P R (app1, ctx1, st1) (Return z, ctx', st')"
      "\<forall>k ctx2 st2. app_reaches C P R (app1, ctx1, st1) (App_SendInitialMetadata k, ctx2, st2) \<longrightarrow>
        \<not> sx_sent_initial_metadata ctx2" using ok unfolding app_ok_def Inr x sum.case prod.case by simp_all
    note never = b(3)[rule_format]
    moreover have "\<not> sx_sent_initial_metadata ctx2"
      if "app_reaches C P R (app, ctx, st) (App_SendInitialMetadata k, ctx2, st2)" for k ctx2 st2
      using that[unfolded rch] never[of k ctx2 st2] legal[of k] by auto
    ultimately show ?thesis using Inr x b app_sent_trans[OF one b(1)] by (simp add: rch)
  qed
  ultimately show ?thesis unfolding app_ok_def by blast
qed

lemma bnd_nothing: "bnd r (\<lambda>(z, ws, st). Inr (z, [] @ ws, st)) = r"
  by (cases r) auto

lemma run_app_step:
  assumes "wf_heap (rc_heap st)"
  shows "app_ok C P R app ctx st (run_app C P R app (ctx, st))"
  using assms
proof (induction app arbitrary: ctx st)
  case (Return z)
  then show ?case using app_sent_refl by (auto simp: app_ok_def reaches_stuck)
next
  case (App_SendInitialMetadata k)
  show ?case
  proof (cases "sx_sent_initial_metadata ctx")
    case True
    then have "ServerReader_SendInitialMetadata C R (ctx, st) = Inl CheckFailed"
      using Server_SendInitialMetadata_step[OF App_SendInitialMetadata.prems, of ctx C R] by simp
    then show ?thesis using True app_sent_refl[OF App_SendInitialMetadata.prems] by (auto simp: app_ok_def reaches_stuck)
  next
    case False
    let ?ctx = "ctx\<lparr>sx_sent_initial_metadata := True\<rparr>"
    obtain st1 where s: "ServerReader_SendInitialMetadata C R (ctx, st) = Inr (?ctx, st1)"
        "ran st [[Send_initial (sx_initial_metadata ctx)]] st1"
      using Server_SendInitialMetadata_step[OF App_SendInitialMetadata.prems, of ctx C R] False by auto
    have one: "app_sent P ctx st [] ?ctx st1" unfolding app_sent_def
      by (rule exI[of _ "[[Send_initial (sx_initial_metadata ctx)]]"]) (use s(2) False in simp)
    from app_ok_step[OF _ one App_SendInitialMetadata.prems App_SendInitialMetadata.IH[OF app_sent_wf[OF one]]] s(1) False
    show ?thesis unfolding bnd_nothing by simp
  qed
next
  case (App_Read msg k)
  have "wf_heap (rc_heap (st\<lparr>rc_message := msg\<rparr>))" using App_Read.prems by simp
  from Server_Read_step[OF this, of C R ctx]
  obtain ok st1 where s: "ServerReader_Read C R (ctx, st\<lparr>rc_message := msg\<rparr>) = Inr (ok, ctx, st1)"
      "ran (st\<lparr>rc_message := msg\<rparr>) [[Recv_message]] st1" by blast
  have one: "app_sent P ctx st [] ctx st1" unfolding app_sent_def
    by (rule exI[of _ "[[Recv_message]]"]) (use s(2) in \<open>simp add: ran_def\<close>)
  from app_ok_step[where app = "App_Read msg k", OF _ one App_Read.prems
      App_Read.IH[of "k ok" "k ok (rc_message st1)", OF _ _ app_sent_wf[OF one]]] s(1)
  show ?case unfolding bnd_nothing by simp
next
  case (App_Write msg options k)
  obtain s bs where m: "sr_SerializeProto P msg = (s, bs)" by (cases "sr_SerializeProto P msg")
  show ?case
  proof (cases "status_ok s")
    case False
    then have w: "ServerWriter_Write C P R msg options (ctx, st) = Inr (False, ctx, st)"
      using Server_Write_step[OF App_Write.prems m, of C R options ctx] by simp
    then have "app_step C P R (App_Write msg options k, ctx, st) (k False, ctx, st)" by (rule write_step)
    from app_ok_step[OF this app_sent_refl[OF App_Write.prems] App_Write.prems
        App_Write.IH[of "k False" st ctx, OF _ App_Write.prems]] w False m
    show ?thesis by (simp add: bnd_nothing[simplified])
  next
    case True
    let ?ctx = "ctx\<lparr>sx_sent_initial_metadata := True\<rparr>"
    obtain ok st1 where w: "ServerWriter_Write C P R msg options (ctx, st) = Inr (ok, ?ctx, st1)"
        "ran st [write_wire ctx options bs] st1"
      using Server_Write_step[OF App_Write.prems m, of C R options ctx] True by auto
    have one: "app_sent P ctx st [(msg, options)] ?ctx st1" unfolding app_sent_def
      by (rule exI[of _ "[write_wire ctx options bs]"]) (use w(2) m in \<open>auto simp: write_wire_def msg_wire_def\<close>)
    from app_ok_step[where app = "App_Write msg options k", OF _ one App_Write.prems
        App_Write.IH[of "k ok", OF _ app_sent_wf[OF one]]] w(1) True m
    show ?thesis by simp
  qed
qed

text \<open>The function comes to a call of \<open>SendInitialMetadata\<close> at a point where initial metadata is among the
  operations handed to the core since the handler started.\<close>

definition sends_again ::
    "'w core \<Rightarrow> 'p serial \<Rightarrow> 'q serial \<Rightarrow> ('q, 'p, 'z) app \<Rightarrow> ServerContext \<Rightarrow> ('q, 'w) rpc \<Rightarrow> bool" where
  "sends_again C P R app ctx st \<longleftrightarrow> (\<exists>k ctx1 st1 bs.
     app_reaches C P R (app, ctx, st) (App_SendInitialMetadata k, ctx1, st1) \<and> ran st bs st1 \<and>
     (\<exists>md. Send_initial md \<in> set (concat bs)))"

definition app_returns ::
    "'w core \<Rightarrow> 'p serial \<Rightarrow> 'q serial \<Rightarrow> ('q, 'p, 'z) app \<Rightarrow> ServerContext \<Rightarrow> ('q, 'w) rpc \<Rightarrow> 'z \<Rightarrow> bool" where
  "app_returns C P R app ctx st z \<longleftrightarrow> (\<exists>ctx1 st1. app_reaches C P R (app, ctx, st) (Return z, ctx1, st1))"

lemma ran_unique: "ran st bs st1 \<Longrightarrow> ran st cs st1 \<Longrightarrow> bs = cs"
  by (simp add: ran_def)

lemma sent_initial_iff:
  assumes "app_sent P ctx st ws ctx1 st1" and "\<not> sx_sent_initial_metadata ctx"
  shows "(\<exists>bs. ran st bs st1 \<and> (\<exists>md. Send_initial md \<in> set (concat bs))) \<longleftrightarrow> sx_sent_initial_metadata ctx1"
proof -
  obtain bs where b: "ran st bs st1" "sends bs = (if sx_sent_initial_metadata ctx1
      then [Send_initial (sx_initial_metadata ctx)] else []) @ map (msg_wire P) ws"
      "\<not> sx_sent_initial_metadata ctx1 \<longrightarrow> ws = []" using assms by (auto simp: app_sent_def)
  have "Send_initial md \<in> set (concat bs) \<longleftrightarrow> Send_initial md \<in> set (sends bs)" for md
    by (simp add: sends_def)
  then have "(\<exists>md. Send_initial md \<in> set (concat bs)) \<longleftrightarrow> sx_sent_initial_metadata ctx1"
    using b(2,3) by (auto simp: msg_wire_def)
  then show ?thesis using b(1) ran_unique by metis
qed

lemma run_app_outcome:
  assumes "wf_heap (rc_heap st)" and "\<not> sx_sent_initial_metadata ctx"
  shows "case run_app C P R app (ctx, st) of
      Inl e \<Rightarrow> e = CheckFailed \<and> sends_again C P R app ctx st
    | Inr (z, ws, ctx', st') \<Rightarrow> app_sent P ctx st ws ctx' st' \<and> app_returns C P R app ctx st z \<and> \<not> sends_again C P R app ctx st"
proof -
  note ok = run_app_step[where app = app and C = C and P = P and R = R and ctx = ctx, OF assms(1)]
  have "(\<exists>bs. ran st bs st1 \<and> (\<exists>md. Send_initial md \<in> set (concat bs))) \<longleftrightarrow> sx_sent_initial_metadata ctx1"
    if "app_reaches C P R (app, ctx, st) (App_SendInitialMetadata k, ctx1, st1)" for k ctx1 st1
  proof -
    from ok[unfolded app_ok_def, THEN conjunct1, rule_format, OF that]
    obtain ws where "app_sent P ctx st ws ctx1 st1" ..
    then show ?thesis by (rule sent_initial_iff[OF _ assms(2)])
  qed
  then have "sends_again C P R app ctx st \<longleftrightarrow> (\<exists>k ctx1 st1.
      app_reaches C P R (app, ctx, st) (App_SendInitialMetadata k, ctx1, st1) \<and> sx_sent_initial_metadata ctx1)"
    unfolding sends_again_def by blast
  moreover have "app_returns C P R app ctx st z" if "app_reaches C P R (app, ctx, st) (Return z, ctx', st')" for z ctx' st'
    using that unfolding app_returns_def by blast
  ultimately show ?thesis using ok unfolding app_ok_def by (cases "run_app C P R app (ctx, st)") fastforce+
qed

text \<open>A function without such calls never gets there.\<close>

lemma no_metadata_reaches:
  "app_reaches C P R x y \<Longrightarrow> no_metadata (fst x) \<Longrightarrow> no_metadata (fst y)"
  unfolding app_reaches_def
proof (induction rule: rtranclp_induct)
  case (step y z)
  from step.hyps(2) step.IH[OF step.prems] show ?case by cases auto
qed simp

lemma no_metadata_sends: "no_metadata app \<Longrightarrow> \<not> sends_again C P R app ctx st"
  using no_metadata_reaches by (fastforce simp: sends_again_def)

text \<open>What the client gets of a stream that the service's function ended with \<open>status\<close>: initial metadata, the
  messages, the status, and nothing else.\<close>

definition stream_wire :: "'p serial \<Rightarrow> ServerContext \<Rightarrow> ('p \<times> WriteOptions) list \<Rightarrow> Status \<Rightarrow> wire_op list" where
  "stream_wire P ctx ws status = Send_initial (sx_initial_metadata ctx) # map (msg_wire P) ws @
     [Send_status (sx_trailing_metadata ctx) (s_code status)
       (if s_details status = [] then None else Some (cstr (s_details status)))]"

lemma stream_finish:
  assumes "app_sent P ctx st ws ctx1 st1" and "\<not> sx_sent_initial_metadata ctx"
  shows "\<exists>st2 bs. finish_stream C Q status (ctx1, st1) = Inr (ctx1, st2) \<and> ran st bs st2 \<and> kinds_ok bs \<and>
    sends bs = stream_wire P ctx ws status"
proof -
  obtain bs where b: "ran st bs st1" "kinds_ok bs" "sends bs = (if sx_sent_initial_metadata ctx1
      then [Send_initial (sx_initial_metadata ctx)] else []) @ map (msg_wire P) ws"
      "\<not> sx_sent_initial_metadata ctx1 \<longrightarrow> ws = []"
      "sx_initial_metadata ctx1 = sx_initial_metadata ctx" "sx_trailing_metadata ctx1 = sx_trailing_metadata ctx"
    using assms by (auto simp: app_sent_def)
  let ?b = "(if sx_sent_initial_metadata ctx1 then [] else [Send_initial (sx_initial_metadata ctx1)]) @
      [Send_status (sx_trailing_metadata ctx1) (s_code status) (if s_details status = [] then None else Some (cstr (s_details status)))]"
  obtain st2 where f: "finish_stream C Q status (ctx1, st1) = Inr (ctx1, st2)" "ran st1 [?b] st2"
    using finish_stream_step[OF ran_wf[OF b(1)], of C Q status ctx1] by blast
  show ?thesis
    by (rule exI[of _ st2], rule exI[of _ "bs @ [?b]"], cases "sx_sent_initial_metadata ctx1")
      (use b f ran_trans[OF b(1) f(2)] in \<open>simp_all add: stream_wire_def\<close>)
qed

lemma BidiStreaming_step:
  assumes "wf_heap (rc_heap st)" and "\<not> sx_sent_initial_metadata ctx"
  shows "case BidiStreaming_RunHandler C Q P func (ctx, st) of
      Inl e \<Rightarrow> e = CheckFailed \<and> sends_again C P Q func ctx st
    | Inr (ws, ctx', st') \<Rightarrow> \<not> sends_again C P Q func ctx st \<and> (\<exists>bs status. app_returns C P Q func ctx st status \<and>
        ran st bs st' \<and> kinds_ok bs \<and> sends bs = stream_wire P ctx ws status)"
proof -
  note out = run_app_outcome[where C = C and P = P and R = Q and app = func, OF assms]
  show ?thesis
  proof (cases "run_app C P Q func (ctx, st)")
    case (Inl e)
    then show ?thesis using out by (simp add: BidiStreaming_RunHandler_def)
  next
    case (Inr r)
    obtain status ws ctx1 st1 where r: "r = (status, ws, ctx1, st1)" by (cases r)
    then have a: "app_sent P ctx st ws ctx1 st1" and ret: "app_returns C P Q func ctx st status"
      and once: "\<not> sends_again C P Q func ctx st" using Inr out by simp_all
    obtain st2 bs where "finish_stream C Q status (ctx1, st1) = Inr (ctx1, st2)" "ran st bs st2" "kinds_ok bs"
        "sends bs = stream_wire P ctx ws status" using stream_finish[OF a assms(2), of C Q status] by blast
    then show ?thesis using Inr r ret once by (auto simp: BidiStreaming_RunHandler_def)
  qed
qed

text \<open>The handler of a server-streaming method: it takes the request out of its buffer and, when that can be
  read, goes on as the one of a bidirectional method.\<close>

lemma ServerStreaming_step:
  assumes "wf_heap (rc_heap st)" and "hp_cells (rc_heap st) p = Some (Buffer bytes)" and "p \<notin> owned (rc_heap st)"
    and "sr_DeserializeProto Q bytes lim (sr_new Q) = (s, req)"
  shows "wf_heap (drop_cells [p] (rc_heap st))"
    and "ServerStreaming_RunHandler C Q P f (Some p) lim (ctx, st) =
      (let st = st\<lparr>rc_heap := drop_cells [p] (rc_heap st)\<rparr> in
       if status_ok s then BidiStreaming_RunHandler C Q P (f req) (ctx, st)
       else bnd (finish_stream C Q s (ctx, st)) (\<lambda>st. Inr ([], st)))"
proof -
  have "p \<in> live (rc_heap st)" using assms(2) by (simp add: in_live)
  then have "Traits_Deserialize Q (Some p) (sr_new Q) lim (rc_heap st) = Inr (s, req, drop_cells [p] (rc_heap st))"
    using assms(2-4) by (simp add: Traits_Deserialize_def buffer_bytes_def grpc_byte_buffer_destroy_def destroy_drop)
  then show "ServerStreaming_RunHandler C Q P f (Some p) lim (ctx, st) =
      (let st = st\<lparr>rc_heap := drop_cells [p] (rc_heap st)\<rparr> in
       if status_ok s then BidiStreaming_RunHandler C Q P (f req) (ctx, st)
       else bnd (finish_stream C Q s (ctx, st)) (\<lambda>st. Inr ([], st)))"
    by (simp add: ServerStreaming_RunHandler_def BidiStreaming_RunHandler_def Let_def)
  show "wf_heap (drop_cells [p] (rc_heap st))" using wf_drop[OF assms(1), of "[p]"] assms(3) by simp
qed

text \<open>C25: the handlers of streaming methods. Whatever the service's function does with the stream, reading,
  writing, sending initial metadata, in any order that depends on what it gets, the handler of a
  bidirectional method aborts exactly when the function comes to a call of \<open>SendInitialMetadata\<close> at a
  point where initial metadata has already gone out, by such a call or with a message. Otherwise it sends
  initial metadata once and first, then the messages the function wrote, in order and with their options,
  then one status, the one the function returned; no batch has two operations of a kind and every object is
  freed. The handler of a server-streaming method frees the request and, when it can read it, does the same
  with the function for that request; for another one it does not call the function, cannot abort and
  sends the error.\<close>

theorem streaming_handlers_keep_protocol:
  assumes "wf_heap (rc_heap st)" and "\<not> sx_sent_initial_metadata ctx"
  shows "(case BidiStreaming_RunHandler C Q P func (ctx, st) of
        Inl e \<Rightarrow> e = CheckFailed \<and> sends_again C P Q func ctx st
      | Inr (ws, ctx', st') \<Rightarrow> \<not> sends_again C P Q func ctx st \<and> (\<exists>bs status. app_returns C P Q func ctx st status \<and>
          ran st bs st' \<and> kinds_ok bs \<and> sends bs = stream_wire P ctx ws status)) \<and>
    (hp_cells (rc_heap st) p = Some (Buffer bytes) \<and> p \<notin> owned (rc_heap st) \<and>
       sr_DeserializeProto Q bytes lim (sr_new Q) = (s, req) \<and> st0 = st\<lparr>rc_heap := drop_cells [p] (rc_heap st)\<rparr> \<longrightarrow>
      (case ServerStreaming_RunHandler C Q P f (Some p) lim (ctx, st) of
         Inl e \<Rightarrow> e = CheckFailed \<and> status_ok s \<and> sends_again C P Q (f req) ctx st0
       | Inr (ws, ctx', st') \<Rightarrow> \<exists>bs status. ran st0 bs st' \<and> kinds_ok bs \<and> sends bs = stream_wire P ctx ws status \<and>
           (if status_ok s then \<not> sends_again C P Q (f req) ctx st0 \<and> app_returns C P Q (f req) ctx st0 status
            else ws = [] \<and> status = s)))"
proof (intro conjI impI)
  show "case BidiStreaming_RunHandler C Q P func (ctx, st) of
        Inl e \<Rightarrow> e = CheckFailed \<and> sends_again C P Q func ctx st
      | Inr (ws, ctx', st') \<Rightarrow> \<not> sends_again C P Q func ctx st \<and> (\<exists>bs status. app_returns C P Q func ctx st status \<and>
          ran st bs st' \<and> kinds_ok bs \<and> sends bs = stream_wire P ctx ws status)"
    by (rule BidiStreaming_step[OF assms])
next
  assume "hp_cells (rc_heap st) p = Some (Buffer bytes) \<and> p \<notin> owned (rc_heap st) \<and>
       sr_DeserializeProto Q bytes lim (sr_new Q) = (s, req) \<and> st0 = st\<lparr>rc_heap := drop_cells [p] (rc_heap st)\<rparr>"
  then have p: "hp_cells (rc_heap st) p = Some (Buffer bytes)" "p \<notin> owned (rc_heap st)"
    and d: "sr_DeserializeProto Q bytes lim (sr_new Q) = (s, req)" and st0: "st0 = st\<lparr>rc_heap := drop_cells [p] (rc_heap st)\<rparr>"
    by auto
  have wf: "wf_heap (rc_heap st0)" using ServerStreaming_step(1)[OF assms(1) p d] st0 by simp
  note run = ServerStreaming_step(2)[where C = C and P = P and f = f and ctx = ctx, OF assms(1) p d, unfolded Let_def, folded st0]
  show "case ServerStreaming_RunHandler C Q P f (Some p) lim (ctx, st) of
         Inl e \<Rightarrow> e = CheckFailed \<and> status_ok s \<and> sends_again C P Q (f req) ctx st0
       | Inr (ws, ctx', st') \<Rightarrow> \<exists>bs status. ran st0 bs st' \<and> kinds_ok bs \<and> sends bs = stream_wire P ctx ws status \<and>
           (if status_ok s then \<not> sends_again C P Q (f req) ctx st0 \<and> app_returns C P Q (f req) ctx st0 status
            else ws = [] \<and> status = s)"
  proof (cases "status_ok s")
    case False
    obtain st2 bs where "finish_stream C Q s (ctx, st0) = Inr (ctx, st2)" "ran st0 bs st2" "kinds_ok bs"
        "sends bs = stream_wire P ctx [] s" using stream_finish[OF app_sent_refl[OF wf] assms(2), of C Q s] by blast
    then show ?thesis using run False by auto
  next
    case True
    then show ?thesis using run BidiStreaming_step[where C = C and P = P and Q = Q and func = "f req", OF wf assms(2)]
      by (auto split: sum.splits)
  qed
qed

text \<open>A reader offers \<open>SendInitialMetadata\<close>, but the handler of a client-streaming method asserts that it was not
  called.\<close>

lemma client_streaming_metadata_aborts:
  assumes "wf_heap (rc_heap st)"
  shows "ClientStreaming_RunHandler C Q P (App_SendInitialMetadata (Return (status, rsp))) (ctx, st) = Inl CheckFailed"
proof (cases "sx_sent_initial_metadata ctx")
  case True
  then show ?thesis using Server_SendInitialMetadata_step[OF assms, of ctx C Q] by (simp add: ClientStreaming_RunHandler_def)
next
  case False
  then obtain st' where "ServerReader_SendInitialMetadata C Q (ctx, st) = Inr (ctx\<lparr>sx_sent_initial_metadata := True\<rparr>, st')"
    using Server_SendInitialMetadata_step[OF assms, of ctx C Q] by auto
  then show ?thesis by (simp add: ClientStreaming_RunHandler_def send_outcome_def)
qed
text \<open>A stream on which the service writes one message, on a heap with one request.\<close>

definition one_write :: "(8 word list, 8 word list, Status) app" where
  "one_write = App_Write [1] WriteOptions_new (\<lambda>ok. Return Status_OK)"

theorem streaming_handlers_keep_protocol_witness:
  "\<exists>st :: (8 word list, unit) rpc. hp_cells (rc_heap st) 0 = Some (Buffer [1, 2]) \<and>
     (\<exists>ws ctx' st' bs status. BidiStreaming_RunHandler plain_core byte_serial byte_serial one_write (fresh_server, st) =
        Inr (ws, ctx', st') \<and> ran st bs st' \<and> kinds_ok bs \<and> sends bs = stream_wire byte_serial fresh_server ws status)"
proof -
  let ?st = "(process [] () :: (8 word list, unit) rpc)\<lparr>rc_heap := snd (hp_new (Buffer [1, 2]) hp_empty)\<rparr>"
  have pre: "wf_heap (rc_heap ?st)" "hp_cells (rc_heap ?st) 0 = Some (Buffer [1, 2])"
    by (simp_all add: hp_new_def hp_empty_def wf_heap_def live_def owned_def)
  have sent: "\<not> sx_sent_initial_metadata fresh_server" by (simp add: fresh_server_def)
  have once: "\<not> sends_again plain_core byte_serial byte_serial one_write fresh_server ?st"
    by (rule no_metadata_sends) (simp add: one_write_def)
  note main = streaming_handlers_keep_protocol[where C = plain_core and Q = byte_serial and P = byte_serial and func = one_write and
      p = 0 and bytes = "[1, 2]" and f = "\<lambda>req. one_write" and lim = 0, OF pre(1) sent, THEN conjunct1]
  then have "\<exists>ws ctx' st' bs status. BidiStreaming_RunHandler plain_core byte_serial byte_serial one_write (fresh_server, ?st) =
      Inr (ws, ctx', st') \<and> ran ?st bs st' \<and> kinds_ok bs \<and> sends bs = stream_wire byte_serial fresh_server ws status"
    using once
    by (cases "BidiStreaming_RunHandler plain_core byte_serial byte_serial one_write (fresh_server, ?st)") (simp, clarsimp, blast)
  then show ?thesis using pre(2) by (intro exI[of _ ?st]) simp
qed

end
