(* ===== verification/GrpcClientStream.thy ===== *)
theory GrpcClientStream
  imports GrpcStream
begin

text \<open>
  The client's side of streaming calls (\<open>include/grpc++/support/sync_stream.h\<close>): whole sessions of
  \<open>ClientReaderWriter\<close>, \<open>ClientReader\<close> and \<open>ClientWriter\<close>, from the constructor to \<open>Finish\<close>, with an
  application in between that may call the other methods in any order. Shown: what a session sends, how
  often it asks for initial metadata and for the status, and that it frees what it makes.
\<close>

section \<open>Sessions\<close>

datatype ('r, 'm, 'z) client_app =
    Client_Return 'z
  | Client_Wait "('r, 'm, 'z) client_app"
  | Client_Read 'r "bool \<Rightarrow> 'r \<Rightarrow> ('r, 'm, 'z) client_app"
  | Client_Write 'm WriteOptions "bool \<Rightarrow> ('r, 'm, 'z) client_app"
  | Client_WritesDone "bool \<Rightarrow> ('r, 'm, 'z) client_app"

text \<open>Its run, with what its calls have sent.\<close>

primrec run_client ::
    "'w core \<Rightarrow> 'm serial \<Rightarrow> 'r serial \<Rightarrow> ('r, 'm, 'z) client_app \<Rightarrow> ('r, 'w) rpc \<Rightarrow>
     ('z \<times> wire_op list \<times> ('r, 'w) rpc) run" where
  "run_client C M R (Client_Return z) st = Inr (z, [], st)"
| "run_client C M R (Client_Wait k) st =
     bnd (ClientReaderWriter_WaitForInitialMetadata C R st) (\<lambda>st. run_client C M R k st)"
| "run_client C M R (Client_Read msg k) st =
     bnd (ClientReaderWriter_Read C R (st\<lparr>rc_message := msg\<rparr>)) (\<lambda>(ok, st). run_client C M R (k ok (rc_message st)) st)"
| "run_client C M R (Client_Write msg options k) st =
     bnd (ClientReaderWriter_Write C M R msg options st) (\<lambda>(ok, st).
     bnd (run_client C M R (k ok) st) (\<lambda>(z, ws, st).
       Inr (z, if status_ok (fst (sr_SerializeProto M msg)) then msg_wire M (msg, options) # ws else ws, st)))"
| "run_client C M R (Client_WritesDone k) st =
     bnd (ClientReaderWriter_WritesDone C R st) (\<lambda>(ok, st).
     bnd (run_client C M R (k ok) st) (\<lambda>(z, ws, st). Inr (z, Send_close # ws, st)))"

definition ReaderWriter_session ::
    "'w core \<Rightarrow> 'm serial \<Rightarrow> 'r serial \<Rightarrow> ('r, 'm, 'z) client_app \<Rightarrow> ('r, 'w) rpc \<Rightarrow>
     ('z \<times> Status \<times> wire_op list \<times> ('r, 'w) rpc) run" where
  "ReaderWriter_session C M R app st =
     bnd (ClientReaderWriter_new C R st) (\<lambda>st.
     bnd (run_client C M R app st) (\<lambda>(z, ws, st).
     bnd (ClientReaderWriter_Finish C R st) (\<lambda>(status, st). Inr (z, status, ws, st))))"

text \<open>\<open>ClientReader\<close> has neither \<open>Write\<close> nor \<open>WritesDone\<close>; its other methods have the text of those of
  \<open>ClientReaderWriter\<close>. \<open>ClientWriter\<close> has only these two.\<close>

primrec only_reads :: "('r, 'm, 'z) client_app \<Rightarrow> bool" where
  "only_reads (Client_Return z) \<longleftrightarrow> True"
| "only_reads (Client_Wait k) \<longleftrightarrow> only_reads k"
| "only_reads (Client_Read msg k) \<longleftrightarrow> (\<forall>ok r. only_reads (k ok r))"
| "only_reads (Client_Write msg options k) \<longleftrightarrow> False"
| "only_reads (Client_WritesDone k) \<longleftrightarrow> False"

primrec only_writes :: "('r, 'm, 'z) client_app \<Rightarrow> bool" where
  "only_writes (Client_Return z) \<longleftrightarrow> True"
| "only_writes (Client_Wait k) \<longleftrightarrow> False"
| "only_writes (Client_Read msg k) \<longleftrightarrow> False"
| "only_writes (Client_Write msg options k) \<longleftrightarrow> (\<forall>ok. only_writes (k ok))"
| "only_writes (Client_WritesDone k) \<longleftrightarrow> (\<forall>ok. only_writes (k ok))"

definition Reader_session ::
    "'w core \<Rightarrow> 'm serial \<Rightarrow> 'r serial \<Rightarrow> 'm \<Rightarrow> ('r, 'm, 'z) client_app \<Rightarrow> ('r, 'w) rpc \<Rightarrow> ('z \<times> Status \<times> ('r, 'w) rpc) run" where
  "Reader_session C M R request app st =
     bnd (ClientReader_new C M R request st) (\<lambda>st.
     bnd (run_client C M R app st) (\<lambda>(z, _, st).
     bnd (ClientReader_Finish C R st) (\<lambda>(status, st). Inr (z, status, st))))"

definition Writer_session ::
    "'w core \<Rightarrow> 'm serial \<Rightarrow> 'r serial \<Rightarrow> ('r, 'm, 'z) client_app \<Rightarrow> ('r, 'w) rpc \<Rightarrow>
     ('z \<times> Status \<times> wire_op list \<times> ('r, 'w) rpc) run" where
  "Writer_session C M R app st =
     bnd (ClientWriter_new C R st) (\<lambda>(last_ops, st).
     bnd (run_client C M R app st) (\<lambda>(z, ws, st).
     bnd (ClientWriter_Finish C R last_ops st) (\<lambda>(status, _, st). Inr (z, status, ws, st))))"

section \<open>One call\<close>

abbreviation asked :: "('r, 'w) rpc \<Rightarrow> bool" where
  "asked st \<equiv> cc_initial_metadata_received (rc_client st)"

lemma ReaderWriter_new_step:
  assumes "wf_heap (rc_heap st)"
  shows "\<exists>st'. ClientReaderWriter_new C R st = Inr st' \<and>
    ran st [[Send_initial (cc_send_initial_metadata (rc_client st))]] st' \<and> asked st' = asked st"
proof -
  let ?md = "cc_send_initial_metadata (rc_client st)" and ?h = "rc_heap st"
  let ?ops = "CallOpSet_new 0 [SendInitial \<lparr>si_send = True, si_metadata = Some (length ?md, Some (hp_next ?h))\<rparr>]"
  let ?st = "st\<lparr>rc_heap := alloc [Metadata ?md] ?h\<rparr>"
  have "\<exists>ok ops' st'. perform C R ?ops ?st = Inr (ok, ops', st') \<and> ran st [concat [[Send_initial ?md]]] st' \<and> asked st' = asked ?st"
    by (rule perform_runs[where xs = "[Metadata ?md]", OF assms]) (auto simp: batch_simps)
  then show ?thesis by (auto simp: ClientReaderWriter_new_def op_set_defs arm_defs alloc_new[of _ ?h])
qed

lemma Reader_new_step:
  assumes "wf_heap (rc_heap st)" and "sr_SerializeProto M request = (s, bs)"
  shows "if status_ok s then \<exists>st'. ClientReader_new C M R request st = Inr st' \<and>
      ran st [[Send_initial (cc_send_initial_metadata (rc_client st)), Send_message 0 bs, Send_close]] st' \<and> asked st' = asked st
    else ClientReader_new C M R request st = Inl CheckFailed"
proof (cases "status_ok s")
  case False
  then show ?thesis using assms(2) by (simp add: ClientReader_new_def op_set_defs arm_defs alloc_new[of _ "rc_heap st"])
next
  case True
  let ?md = "cc_send_initial_metadata (rc_client st)" and ?h = "rc_heap st"
  let ?ops = "CallOpSet_new 0 [SendInitial \<lparr>si_send = True, si_metadata = Some (length ?md, Some (hp_next ?h))\<rparr>,
      SendMsg \<lparr>sm_send_buf = Some (Suc (hp_next ?h)), sm_write_options = WriteOptions_new, sm_own_buf = True\<rparr>,
      SendClose \<lparr>sc_send = True\<rparr>]"
  let ?st = "st\<lparr>rc_heap := alloc [Metadata ?md, Buffer bs] ?h\<rparr>"
  have "\<exists>ok ops' st'. perform C R ?ops ?st = Inr (ok, ops', st') \<and>
      ran st [concat [[Send_initial ?md], [Send_message 0 bs], [Send_close]]] st' \<and> asked st' = asked ?st"
    by (rule perform_runs[where xs = "[Metadata ?md, Buffer bs]", OF assms(1)]) (auto simp: batch_simps WriteOptions_new_def)
  then show ?thesis using True assms(2)
    by (auto simp: ClientReader_new_def op_set_defs arm_defs alloc_new[of _ ?h])
qed

lemma Wait_step:
  assumes "wf_heap (rc_heap st)"
  shows "if asked st then ClientReaderWriter_WaitForInitialMetadata C R st = Inl CheckFailed
    else \<exists>st'. ClientReaderWriter_WaitForInitialMetadata C R st = Inr st' \<and> ran st [[Recv_initial]] st' \<and> asked st'"
proof (cases "asked st")
  case True
  then show ?thesis by (simp add: ClientReaderWriter_WaitForInitialMetadata_def ClientReader_WaitForInitialMetadata_def)
next
  case False
  let ?ops = "CallOpSet_new 0 [RecvInitial \<lparr>ri_target = True, ri_arr = None\<rparr>]"
  let ?st = "st\<lparr>rc_client := (rc_client st)\<lparr>cc_initial_metadata_received := True\<rparr>\<rparr>"
  have "\<exists>ok ops' st'. perform C R ?ops ?st = Inr (ok, ops', st') \<and> ran st [concat [[Recv_initial]]] st' \<and> asked st' = asked ?st"
    by (rule perform_runs[where xs = "[]", OF assms]) (auto simp: batch_simps)
  then show ?thesis using False
    by (auto simp: ClientReaderWriter_WaitForInitialMetadata_def ClientReader_WaitForInitialMetadata_def op_set_defs arm_defs)
qed

lemma Client_Read_step:
  assumes "wf_heap (rc_heap st)"
  shows "\<exists>ok st'. ClientReaderWriter_Read C R st = Inr (ok, st') \<and>
    ran st [(if asked st then [] else [Recv_initial]) @ [Recv_message]] st' \<and> asked st'"
proof -
  let ?msg = "RecvMsg \<lparr>rm_got_message = False, rm_message = True, rm_recv_buf = None\<rparr>"
  show ?thesis
  proof (cases "asked st")
    case True
    let ?ops = "CallOpSet_new 0 [RecvInitial \<lparr>ri_target = False, ri_arr = None\<rparr>, ?msg]"
    have "\<exists>ok ops' st'. perform C R ?ops st = Inr (ok, ops', st') \<and> ran st [concat [[], [Recv_message]]] st' \<and> asked st' = asked st"
      by (rule perform_runs[where xs = "[]", OF assms]) (auto simp: batch_simps)
    then show ?thesis using True by (auto simp: ClientReaderWriter_Read_def ClientReader_Read_def op_set_defs arm_defs)
  next
    case False
    let ?ops = "CallOpSet_new 0 [RecvInitial \<lparr>ri_target = True, ri_arr = None\<rparr>, ?msg]"
    let ?st = "st\<lparr>rc_client := (rc_client st)\<lparr>cc_initial_metadata_received := True\<rparr>\<rparr>"
    have "\<exists>ok ops' st'. perform C R ?ops ?st = Inr (ok, ops', st') \<and> ran st [concat [[Recv_initial], [Recv_message]]] st' \<and>
        asked st' = asked ?st"
      by (rule perform_runs[where xs = "[]", OF assms]) (auto simp: batch_simps)
    then show ?thesis using False by (auto simp: ClientReaderWriter_Read_def ClientReader_Read_def op_set_defs arm_defs)
  qed
qed
lemma Client_Write_step:
  assumes "wf_heap (rc_heap st)" and "sr_SerializeProto M msg = (s, bs)"
  shows "if status_ok s then \<exists>ok st'. ClientReaderWriter_Write C M R msg options st = Inr (ok, st') \<and>
      ran st [[Send_message (wo_flags options) bs]] st' \<and> asked st' = asked st
    else ClientReaderWriter_Write C M R msg options st = Inr (False, st)"
proof (cases "status_ok s")
  case False
  then show ?thesis using assms(2) by (simp add: ClientReaderWriter_Write_def ClientWriter_Write_def op_set_defs arm_defs)
next
  case True
  let ?h = "rc_heap st"
  let ?ops = "CallOpSet_new 0 [SendMsg \<lparr>sm_send_buf = Some (hp_next ?h), sm_write_options = options, sm_own_buf = True\<rparr>]"
  let ?st = "st\<lparr>rc_heap := alloc [Buffer bs] ?h\<rparr>"
  have "\<exists>ok ops' st'. perform C R ?ops ?st = Inr (ok, ops', st') \<and>
      ran st [concat [[Send_message (wo_flags options) bs]]] st' \<and> asked st' = asked ?st"
    by (rule perform_runs[where xs = "[Buffer bs]", OF assms(1)]) (auto simp: batch_simps)
  then show ?thesis using True assms(2)
    by (auto simp: ClientReaderWriter_Write_def ClientWriter_Write_def op_set_defs arm_defs alloc_new[of _ ?h])
qed

lemma WritesDone_step:
  assumes "wf_heap (rc_heap st)"
  shows "\<exists>ok st'. ClientReaderWriter_WritesDone C R st = Inr (ok, st') \<and> ran st [[Send_close]] st' \<and> asked st' = asked st"
proof -
  let ?ops = "CallOpSet_new 0 [SendClose \<lparr>sc_send = True\<rparr>]"
  have "\<exists>ok ops' st'. perform C R ?ops st = Inr (ok, ops', st') \<and> ran st [concat [[Send_close]]] st' \<and> asked st' = asked st"
    by (rule perform_runs[where xs = "[]", OF assms]) (auto simp: batch_simps)
  then show ?thesis by (auto simp: ClientReaderWriter_WritesDone_def ClientWriter_WritesDone_def op_set_defs arm_defs)
qed

text \<open>The last batch of a session comes back from the queue without success.\<close>

definition last_fails :: "'w core \<Rightarrow> 'r serial \<Rightarrow> CallOpSet \<Rightarrow> ('r, 'w) rpc \<Rightarrow> bool" where
  "last_fails C R ops st \<longleftrightarrow> (\<exists>ops1 ops2 st'. ClientRecvStatus ops = Inr ops1 \<and>
     perform C R ops1 (st\<lparr>rc_status := Status_OK\<rparr>) = Inr (False, ops2, st'))"

lemma Finish_step:
  assumes "wf_heap (rc_heap st)"
  shows "case ClientReader_Finish C R st of Inl e \<Rightarrow> e = CheckFailed \<and> last_fails C R (CallOpSet_new 0 [recv_status_op]) st
    | Inr (status, st') \<Rightarrow> \<not> last_fails C R (CallOpSet_new 0 [recv_status_op]) st \<and> ran st [[Recv_status]] st' \<and> asked st' = asked st \<and> status = rc_status st'"
proof -
  let ?ops = "CallOpSet_new 0 [RecvStatus \<lparr>rs_status = True, rs_arr = None, rs_code = None, rs_details = None\<rparr>]"
  let ?st = "st\<lparr>rc_status := Status_OK\<rparr>"
  have "\<exists>ok ops' st'. perform C R ?ops ?st = Inr (ok, ops', st') \<and> ran st [concat [[Recv_status]]] st' \<and> asked st' = asked ?st"
    by (rule perform_runs[where xs = "[]", OF assms]) (auto simp: batch_simps)
  then obtain ok ops' st' where p: "perform C R ?ops ?st = Inr (ok, ops', st')" "ran st [[Recv_status]] st'" "asked st' = asked st"
    by auto
  then show ?thesis by (cases ok) (auto simp: ClientReader_Finish_def last_fails_def op_set_defs arm_defs)
qed

text \<open>The set that the constructor of \<open>ClientWriter\<close> leaves for \<open>Finish\<close>.\<close>

abbreviation writer_last_ops :: CallOpSet where
  "writer_last_ops \<equiv> CallOpSet_new 0 [GenericRecvMsg \<lparr>rm_got_message = False, rm_message = True, rm_recv_buf = None\<rparr>,
        RecvStatus \<lparr>rs_status = False, rs_arr = None, rs_code = None, rs_details = None\<rparr>]"

lemma Writer_new_step:
  assumes "wf_heap (rc_heap st)"
  shows "\<exists>st'. ClientWriter_new C R st =
      Inr (CallOpSet_new 0 [GenericRecvMsg \<lparr>rm_got_message = False, rm_message = True, rm_recv_buf = None\<rparr>,
        RecvStatus \<lparr>rs_status = False, rs_arr = None, rs_code = None, rs_details = None\<rparr>], st') \<and>
    ran st [[Send_initial (cc_send_initial_metadata (rc_client st))]] st' \<and> asked st' = asked st"
proof -
  obtain st' where "ClientReaderWriter_new C R st = Inr st'"
      "ran st [[Send_initial (cc_send_initial_metadata (rc_client st))]] st'" "asked st' = asked st"
    using ReaderWriter_new_step[OF assms] by blast
  moreover have "ClientWriter_new C R st = bnd (ClientReaderWriter_new C R st) (\<lambda>st.
      Inr (CallOpSet_new 0 [GenericRecvMsg \<lparr>rm_got_message = False, rm_message = True, rm_recv_buf = None\<rparr>,
        RecvStatus \<lparr>rs_status = False, rs_arr = None, rs_code = None, rs_details = None\<rparr>], st))"
    by (simp add: ClientWriter_new_def ClientReaderWriter_new_def op_set_defs arm_defs bnd_assoc case_prod_unfold)
  ultimately show ?thesis by simp
qed

lemma Writer_Finish_step:
  assumes "wf_heap (rc_heap st)"
  shows "case ClientWriter_Finish C R writer_last_ops st of
      Inl e \<Rightarrow> e = CheckFailed \<and> last_fails C R writer_last_ops st
    | Inr (status, ops, st') \<Rightarrow> \<not> last_fails C R writer_last_ops st \<and> ran st [[Recv_message, Recv_status]] st' \<and> asked st' = asked st \<and> status = rc_status st'"
proof -
  let ?ops = "CallOpSet_new 0 [GenericRecvMsg \<lparr>rm_got_message = False, rm_message = True, rm_recv_buf = None\<rparr>,
      RecvStatus \<lparr>rs_status = True, rs_arr = None, rs_code = None, rs_details = None\<rparr>]"
  let ?st = "st\<lparr>rc_status := Status_OK\<rparr>"
  have "\<exists>ok ops' st'. perform C R ?ops ?st = Inr (ok, ops', st') \<and> ran st [concat [[Recv_message], [Recv_status]]] st' \<and>
      asked st' = asked ?st"
    by (rule perform_runs[where xs = "[]", OF assms]) (auto simp: batch_simps)
  then obtain ok ops' st' where p: "perform C R ?ops ?st = Inr (ok, ops', st')" "ran st [[Recv_message, Recv_status]] st'"
      "asked st' = asked st" by auto
  then show ?thesis by (cases ok) (auto simp: ClientWriter_Finish_def last_fails_def op_set_defs arm_defs)
qed
section \<open>An application on a stream\<close>

text \<open>From one state of a stream to another the client has sent \<open>ws\<close>; it has asked for initial metadata at
  most once over the whole stream, and not yet for the status.\<close>

definition talked :: "('r, 'w) rpc \<Rightarrow> wire_op list \<Rightarrow> ('r, 'w) rpc \<Rightarrow> bool" where
  "talked st ws st' \<longleftrightarrow> (\<exists>bs. ran st bs st' \<and> kinds_ok bs \<and> sends bs = ws \<and>
     filter ((=) Recv_initial) (concat bs) = (if \<not> asked st \<and> asked st' then [Recv_initial] else []) \<and>
     Recv_status \<notin> set (concat bs) \<and> (asked st \<longrightarrow> asked st'))"

lemma talked_refl: "wf_heap (rc_heap st) \<Longrightarrow> talked st [] st"
  by (auto simp: talked_def intro!: exI[of _ "[]"] ran_refl)

lemma talked_trans:
  assumes "talked st ws st1" and "talked st1 vs st2"
  shows "talked st (ws @ vs) st2"
proof -
  obtain bs where b: "ran st bs st1" "kinds_ok bs" "sends bs = ws"
      "filter ((=) Recv_initial) (concat bs) = (if \<not> asked st \<and> asked st1 then [Recv_initial] else [])"
      "Recv_status \<notin> set (concat bs)" "asked st \<longrightarrow> asked st1" using assms(1) by (auto simp: talked_def)
  obtain cs where c: "ran st1 cs st2" "kinds_ok cs" "sends cs = vs"
      "filter ((=) Recv_initial) (concat cs) = (if \<not> asked st1 \<and> asked st2 then [Recv_initial] else [])"
      "Recv_status \<notin> set (concat cs)" "asked st1 \<longrightarrow> asked st2" using assms(2) by (auto simp: talked_def)
  show ?thesis unfolding talked_def
    by (rule exI[of _ "bs @ cs"], cases "asked st1"; cases "asked st2") (use b c ran_trans[OF b(1) c(1)] in simp_all)
qed

lemma talked_wf: "talked st ws st' \<Longrightarrow> wf_heap (rc_heap st')"
  using ran_wf by (auto simp: talked_def)

lemma talked_one:
  assumes "ran st [b] st'" and "distinct (map op_kind b)" and "Recv_status \<notin> set b"
    and "filter ((=) Recv_initial) b = (if \<not> asked st \<and> asked st' then [Recv_initial] else [])" and "asked st \<longrightarrow> asked st'"
  shows "talked st (filter (\<lambda>w. op_kind w < 4) b) st'"
  using assms by (auto simp: talked_def intro!: exI[of _ "[b]"])

text \<open>The calls of an application as steps: what is left to run and the state it runs in.\<close>

inductive client_step ::
    "'w core \<Rightarrow> 'm serial \<Rightarrow> 'r serial \<Rightarrow> ('r, 'm, 'z) client_app \<times> ('r, 'w) rpc \<Rightarrow>
     ('r, 'm, 'z) client_app \<times> ('r, 'w) rpc \<Rightarrow> bool"
  for C :: "'w core" and M :: "'m serial" and R :: "'r serial" where
  client_wait: "ClientReaderWriter_WaitForInitialMetadata C R st = Inr st1 \<Longrightarrow>
    client_step C M R (Client_Wait k, st) (k, st1)"
| client_read: "ClientReaderWriter_Read C R (st\<lparr>rc_message := msg\<rparr>) = Inr (ok, st1) \<Longrightarrow>
    client_step C M R (Client_Read msg k, st) (k ok (rc_message st1), st1)"
| client_write: "ClientReaderWriter_Write C M R msg options st = Inr (ok, st1) \<Longrightarrow>
    client_step C M R (Client_Write msg options k, st) (k ok, st1)"
| client_done: "ClientReaderWriter_WritesDone C R st = Inr (ok, st1) \<Longrightarrow>
    client_step C M R (Client_WritesDone k, st) (k ok, st1)"

inductive_simps client_step_simps [simp]:
  "client_step C M R (Client_Return z, st) y"
  "client_step C M R (Client_Wait k, st) y"

definition client_reaches ::
    "'w core \<Rightarrow> 'm serial \<Rightarrow> 'r serial \<Rightarrow> ('r, 'm, 'z) client_app \<times> ('r, 'w) rpc \<Rightarrow>
     ('r, 'm, 'z) client_app \<times> ('r, 'w) rpc \<Rightarrow> bool" where
  "client_reaches C M R = rtranclp (client_step C M R)"

lemma client_step_det: "client_step C M R x y \<Longrightarrow> client_step C M R x z \<Longrightarrow> y = z"
  by (induction rule: client_step.induct) (auto elim: client_step.cases)

lemma client_from_step:
  "client_step C M R x y \<Longrightarrow> client_reaches C M R x z \<longleftrightarrow> z = x \<or> client_reaches C M R y z"
  unfolding client_reaches_def
  by (metis client_step_det converse_rtranclp_into_rtranclp converse_rtranclpE rtranclp.rtrancl_refl)

lemma client_stuck: "(\<And>y. \<not> client_step C M R x y) \<Longrightarrow> client_reaches C M R x z \<longleftrightarrow> z = x"
  unfolding client_reaches_def by (metis converse_rtranclpE rtranclp.rtrancl_refl)

text \<open>What a run gives: it is stuck at a wait for metadata it has asked for, or it never comes to one and ends
  where the steps end.\<close>

definition client_ok ::
    "'w core \<Rightarrow> 'm serial \<Rightarrow> 'r serial \<Rightarrow> ('r, 'm, 'z) client_app \<Rightarrow> ('r, 'w) rpc \<Rightarrow>
     ('z \<times> wire_op list \<times> ('r, 'w) rpc) run \<Rightarrow> bool" where
  "client_ok C M R app st r \<longleftrightarrow>
    (\<forall>k st1. client_reaches C M R (app, st) (Client_Wait k, st1) \<longrightarrow> (\<exists>ws. talked st ws st1)) \<and>
    (case r of
       Inl e \<Rightarrow> e = CheckFailed \<and> (\<exists>k st1. client_reaches C M R (app, st) (Client_Wait k, st1) \<and> asked st1) \<and>
         (\<forall>z st1. \<not> client_reaches C M R (app, st) (Client_Return z, st1))
     | Inr (z, ws, st') \<Rightarrow> talked st ws st' \<and> client_reaches C M R (app, st) (Client_Return z, st') \<and>
         (\<forall>z1 st1. client_reaches C M R (app, st) (Client_Return z1, st1) \<longrightarrow> z1 = z \<and> st1 = st') \<and>
         (\<forall>k st1. client_reaches C M R (app, st) (Client_Wait k, st1) \<longrightarrow> \<not> asked st1))"

lemma client_ok_step:
  assumes s: "client_step C M R (app, st) (app1, st1)" and one: "talked st vs st1"
    and wf: "wf_heap (rc_heap st)" and ok: "client_ok C M R app1 st1 r"
    and legal: "\<And>k. app = Client_Wait k \<Longrightarrow> \<not> asked st"
  shows "client_ok C M R app st (bnd r (\<lambda>(z, ws, st). Inr (z, vs @ ws, st)))"
proof -
  note rch = client_from_step[OF s]
  have ret: "client_reaches C M R (app, st) (Client_Return z, st2) \<longleftrightarrow> client_reaches C M R (app1, st1) (Client_Return z, st2)" for z st2
    using s rch by auto
  have "\<exists>ws. talked st ws st2" if "client_reaches C M R (app, st) (Client_Wait k, st2)" for k st2
  proof (cases "(Client_Wait k, st2) = (app, st)")
    case True
    then show ?thesis using talked_refl[OF wf] by blast
  next
    case False
    then have "client_reaches C M R (app1, st1) (Client_Wait k, st2)" using that rch by blast
    from ok[unfolded client_ok_def, THEN conjunct1, rule_format, OF this] show ?thesis using talked_trans[OF one] by blast
  qed
  moreover have "case bnd r (\<lambda>(z, ws, st). Inr (z, vs @ ws, st)) of
       Inl e \<Rightarrow> e = CheckFailed \<and> (\<exists>k st1. client_reaches C M R (app, st) (Client_Wait k, st1) \<and> asked st1) \<and>
         (\<forall>z st1. \<not> client_reaches C M R (app, st) (Client_Return z, st1))
     | Inr (z, ws, st') \<Rightarrow> talked st ws st' \<and> client_reaches C M R (app, st) (Client_Return z, st') \<and>
         (\<forall>z1 st1. client_reaches C M R (app, st) (Client_Return z1, st1) \<longrightarrow> z1 = z \<and> st1 = st') \<and>
         (\<forall>k st1. client_reaches C M R (app, st) (Client_Wait k, st1) \<longrightarrow> \<not> asked st1)"
  proof (cases r)
    case (Inl e)
    then obtain k st2 where "client_reaches C M R (app1, st1) (Client_Wait k, st2)" "asked st2" "e = CheckFailed"
        "\<forall>z st2. \<not> client_reaches C M R (app1, st1) (Client_Return z, st2)"
      using ok unfolding client_ok_def by auto
    moreover from this have "client_reaches C M R (app, st) (Client_Wait k, st2)" by (simp add: rch)
    ultimately show ?thesis using Inl by (auto simp: ret)
  next
    case (Inr x)
    obtain z ws st' where x: "x = (z, ws, st')" by (cases x)
    have b: "talked st1 ws st'" "client_reaches C M R (app1, st1) (Client_Return z, st')"
      "\<forall>z1 st2. client_reaches C M R (app1, st1) (Client_Return z1, st2) \<longrightarrow> z1 = z \<and> st2 = st'"
      "\<forall>k st2. client_reaches C M R (app1, st1) (Client_Wait k, st2) \<longrightarrow> \<not> asked st2"
      using ok unfolding client_ok_def Inr x sum.case prod.case by simp_all
    have "\<not> asked st2" if "client_reaches C M R (app, st) (Client_Wait k, st2)" for k st2
      using that[unfolded rch] b(4)[rule_format, of k st2] legal[of k] by auto
    then have "talked st (vs @ ws) st' \<and> client_reaches C M R (app1, st1) (Client_Return z, st') \<and>
        (\<forall>z1 st1'. client_reaches C M R (app1, st1) (Client_Return z1, st1') \<longrightarrow> z1 = z \<and> st1' = st') \<and>
        (\<forall>k st1. client_reaches C M R (app, st) (Client_Wait k, st1) \<longrightarrow> \<not> asked st1)"
      using b(2,3) talked_trans[OF one b(1)] by blast
    then show ?thesis unfolding Inr x ret bnd_Inr sum.case prod.case .
  qed
  ultimately show ?thesis unfolding client_ok_def by blast
qed

lemma client_nothing: "bnd r Inr = r"
  by (cases r) auto

lemma run_client_step:
  assumes "wf_heap (rc_heap st)"
  shows "client_ok C M R app st (run_client C M R app st)"
  using assms
proof (induction app arbitrary: st)
  case (Client_Return z)
  then show ?case using talked_refl by (auto simp: client_ok_def client_stuck)
next
  case (Client_Wait k)
  show ?case
  proof (cases "asked st")
    case True
    then have "ClientReaderWriter_WaitForInitialMetadata C R st = Inl CheckFailed"
      using Wait_step[OF Client_Wait.prems, of C R] by simp
    then show ?thesis using True talked_refl[OF Client_Wait.prems] by (auto simp: client_ok_def client_stuck)
  next
    case False
    then obtain st1 where s: "ClientReaderWriter_WaitForInitialMetadata C R st = Inr st1" "ran st [[Recv_initial]] st1" "asked st1"
      using Wait_step[OF Client_Wait.prems, of C R] by auto
    have one: "talked st [] st1" using talked_one[OF s(2)] s(3) False by simp
    from client_ok_step[OF client_wait[where k = k and M = M, OF s(1)] one Client_Wait.prems Client_Wait.IH[OF talked_wf[OF one]]] s(1) False
    show ?thesis by (simp add: client_nothing)
  qed
next
  case (Client_Read msg k)
  have "wf_heap (rc_heap (st\<lparr>rc_message := msg\<rparr>))" using Client_Read.prems by simp
  from Client_Read_step[OF this, of C R]
  obtain ok st1 where s: "ClientReaderWriter_Read C R (st\<lparr>rc_message := msg\<rparr>) = Inr (ok, st1)"
      "ran st [(if asked st then [] else [Recv_initial]) @ [Recv_message]] st1" "asked st1"
    by (auto simp: ran_def)
  have one: "talked st [] st1" using talked_one[OF s(2)] s(3) by (cases "asked st") simp_all
  from client_ok_step[OF client_read[where k = k and M = M, OF s(1)] one Client_Read.prems
      Client_Read.IH[of "k ok" "k ok (rc_message st1)", OF _ _ talked_wf[OF one]]] s(1)
  show ?case by (simp add: client_nothing)
next
  case (Client_Write msg options k)
  obtain s bs where m: "sr_SerializeProto M msg = (s, bs)" by (cases "sr_SerializeProto M msg")
  show ?case
  proof (cases "status_ok s")
    case False
    then have w: "ClientReaderWriter_Write C M R msg options st = Inr (False, st)"
      using Client_Write_step[OF Client_Write.prems m, of C R options] by simp
    from client_ok_step[OF client_write[where k = k, OF w] talked_refl[OF Client_Write.prems] Client_Write.prems
        Client_Write.IH[of "k False" st, OF _ Client_Write.prems]] w False m
    show ?thesis by (simp add: client_nothing)
  next
    case True
    obtain ok st1 where s: "ClientReaderWriter_Write C M R msg options st = Inr (ok, st1)"
        "ran st [[Send_message (wo_flags options) bs]] st1" "asked st1 = asked st"
      using Client_Write_step[OF Client_Write.prems m, of C R options] True by auto
    have one: "talked st [msg_wire M (msg, options)] st1" using talked_one[OF s(2)] s(3) m by (simp add: msg_wire_def)
    from client_ok_step[OF client_write[where k = k, OF s(1)] one Client_Write.prems
        Client_Write.IH[of "k ok", OF _ talked_wf[OF one]]] s(1) True m
    show ?thesis by simp
  qed
next
  case (Client_WritesDone k)
  obtain ok st1 where s: "ClientReaderWriter_WritesDone C R st = Inr (ok, st1)" "ran st [[Send_close]] st1" "asked st1 = asked st"
    using WritesDone_step[OF Client_WritesDone.prems, of C R] by auto
  have one: "talked st [Send_close] st1" using talked_one[OF s(2)] s(3) by simp
  from client_ok_step[OF client_done[where k = k and M = M, OF s(1)] one Client_WritesDone.prems
      Client_WritesDone.IH[of "k ok", OF _ talked_wf[OF one]]] s(1)
  show ?case by simp
qed

text \<open>The application comes to a wait for initial metadata after it has been asked for.\<close>

definition waits_again ::
    "'w core \<Rightarrow> 'm serial \<Rightarrow> 'r serial \<Rightarrow> ('r, 'm, 'z) client_app \<Rightarrow> ('r, 'w) rpc \<Rightarrow> bool" where
  "waits_again C M R app st \<longleftrightarrow> (\<exists>k st1 bs. client_reaches C M R (app, st) (Client_Wait k, st1) \<and> ran st bs st1 \<and>
     Recv_initial \<in> set (concat bs))"

definition loses_status ::
    "'w core \<Rightarrow> 'm serial \<Rightarrow> 'r serial \<Rightarrow> CallOpSet \<Rightarrow> ('r, 'm, 'z) client_app \<Rightarrow> ('r, 'w) rpc \<Rightarrow> bool" where
  "loses_status C M R ops app st \<longleftrightarrow>
     (\<exists>z st1. client_reaches C M R (app, st) (Client_Return z, st1) \<and> last_fails C R ops st1)"

lemma asked_iff:
  assumes "talked st ws st1" and "\<not> asked st"
  shows "(\<exists>bs. ran st bs st1 \<and> Recv_initial \<in> set (concat bs)) \<longleftrightarrow> asked st1"
proof -
  obtain bs where b: "ran st bs st1" "filter ((=) Recv_initial) (concat bs) = (if asked st1 then [Recv_initial] else [])"
    using assms by (auto simp: talked_def)
  have "Recv_initial \<in> set (concat bs) \<longleftrightarrow> filter ((=) Recv_initial) (concat bs) \<noteq> []"
    by (simp add: filter_empty_conv)
  then show ?thesis using b ran_unique by (metis list.distinct(1))
qed

lemma run_client_outcome:
  assumes "wf_heap (rc_heap st)" and "\<not> asked st"
  shows "case run_client C M R app st of
      Inl e \<Rightarrow> e = CheckFailed \<and> waits_again C M R app st \<and> (\<forall>z st1. \<not> client_reaches C M R (app, st) (Client_Return z, st1))
    | Inr (z, ws, st') \<Rightarrow> talked st ws st' \<and> \<not> waits_again C M R app st \<and>
        (\<forall>z1 st1. client_reaches C M R (app, st) (Client_Return z1, st1) \<longleftrightarrow> z1 = z \<and> st1 = st')"
proof -
  note ok = run_client_step[where app = app and C = C and M = M and R = R, OF assms(1), unfolded client_ok_def]
  have "(\<exists>bs. ran st bs st1 \<and> Recv_initial \<in> set (concat bs)) \<longleftrightarrow> asked st1"
    if "client_reaches C M R (app, st) (Client_Wait k, st1)" for k st1
  proof -
    from ok[THEN conjunct1, rule_format, OF that] obtain ws where "talked st ws st1" ..
    then show ?thesis by (rule asked_iff[OF _ assms(2)])
  qed
  then have w: "waits_again C M R app st \<longleftrightarrow> (\<exists>k st1. client_reaches C M R (app, st) (Client_Wait k, st1) \<and> asked st1)"
    unfolding waits_again_def by blast
  show ?thesis
  proof (cases "run_client C M R app st")
    case (Inl e)
    then show ?thesis using ok[THEN conjunct2] w by simp
  next
    case (Inr x)
    obtain z ws st' where x: "x = (z, ws, st')" by (cases x)
    show ?thesis using ok[THEN conjunct2] w unfolding Inr x sum.case prod.case by metis
  qed
qed

text \<open>An application without such waits never comes to one.\<close>

primrec no_wait :: "('r, 'm, 'z) client_app \<Rightarrow> bool" where
  "no_wait (Client_Return z) \<longleftrightarrow> True"
| "no_wait (Client_Wait k) \<longleftrightarrow> False"
| "no_wait (Client_Read msg k) \<longleftrightarrow> (\<forall>ok r. no_wait (k ok r))"
| "no_wait (Client_Write msg options k) \<longleftrightarrow> (\<forall>ok. no_wait (k ok))"
| "no_wait (Client_WritesDone k) \<longleftrightarrow> (\<forall>ok. no_wait (k ok))"

lemma no_wait_reaches:
  "client_reaches C M R x y \<Longrightarrow> no_wait (fst x) \<Longrightarrow> no_wait (fst y)"
  unfolding client_reaches_def
proof (induction rule: rtranclp_induct)
  case (step y z)
  from step.hyps(2) step.IH[OF step.prems] show ?case by cases auto
qed simp

lemma no_wait_waits: "no_wait app \<Longrightarrow> \<not> waits_again C M R app st"
  using no_wait_reaches by (fastforce simp: waits_again_def)

lemma only_reads_sends:
  assumes "only_reads app" and "run_client C M R app st = Inr (z, ws, st')"
  shows "ws = []"
  using assms
proof (induction app arbitrary: st)
  case (Client_Read msg k)
  then obtain ok st1 where "run_client C M R (k ok (rc_message st1)) st1 = Inr (z, ws, st')"
    by (auto simp: bnd_eq_Inr split: prod.splits)
  then show ?case using Client_Read.IH[of "k ok" "k ok (rc_message st1)" st1] Client_Read.prems(1) by simp
qed (auto simp: bnd_eq_Inr)

lemma only_writes_no_wait: "only_writes app \<Longrightarrow> no_wait app"
  by (induction app) auto

lemma only_writes_asks:
  assumes "only_writes app" and "wf_heap (rc_heap st)" and "run_client C M R app st = Inr (z, ws, st')"
  shows "asked st' = asked st"
  using assms
proof (induction app arbitrary: st ws)
  case (Client_Write msg options k)
  obtain s bs where m: "sr_SerializeProto M msg = (s, bs)" by (cases "sr_SerializeProto M msg")
  obtain ok st1 vs where w: "ClientReaderWriter_Write C M R msg options st = Inr (ok, st1)"
      "run_client C M R (k ok) st1 = Inr (z, vs, st')"
    using Client_Write.prems(3) by (auto simp: bnd_eq_Inr split: prod.splits)
  have "wf_heap (rc_heap st1) \<and> asked st1 = asked st"
    using Client_Write_step[OF Client_Write.prems(2) m, of C R options] w(1) Client_Write.prems(2) ran_wf
    by (cases "status_ok s") auto
  then show ?case using Client_Write.IH[of "k ok", OF _ _ _ w(2)] Client_Write.prems(1) by auto
next
  case (Client_WritesDone k)
  obtain ok st1 vs where w: "ClientReaderWriter_WritesDone C R st = Inr (ok, st1)"
      "run_client C M R (k ok) st1 = Inr (z, vs, st')"
    using Client_WritesDone.prems(3) by (auto simp: bnd_eq_Inr split: prod.splits)
  have "wf_heap (rc_heap st1) \<and> asked st1 = asked st"
    using WritesDone_step[OF Client_WritesDone.prems(2), of C R] w(1) ran_wf by auto
  then show ?case using Client_WritesDone.IH[of "k ok", OF _ _ _ w(2)] Client_WritesDone.prems(1) by auto
qed auto

section \<open>Whole sessions\<close>

definition session :: "('r, 'w) rpc \<Rightarrow> wire_op list \<Rightarrow> ('r, 'w) rpc \<Rightarrow> bool" where
  "session st ws st' \<longleftrightarrow> (\<exists>bs r. ran st bs st' \<and> kinds_ok bs \<and> sends bs = ws \<and>
     filter ((=) Recv_initial) (concat bs) = (if asked st' then [Recv_initial] else []) \<and>
     concat bs = r @ [Recv_status] \<and> Recv_status \<notin> set r)"

lemma talked_finish:
  assumes "talked st ws st1" and "\<not> asked st" and "ran st1 [b @ [Recv_status]] st2" and "asked st2 = asked st1"
    and "b = [] \<or> b = [Recv_message]"
  shows "session st ws st2"
proof -
  obtain bs where b: "ran st bs st1" "kinds_ok bs" "sends bs = ws"
      "filter ((=) Recv_initial) (concat bs) = (if asked st1 then [Recv_initial] else [])" "Recv_status \<notin> set (concat bs)"
    using assms(1,2) by (auto simp: talked_def)
  show ?thesis unfolding session_def
    by (rule exI[of _ "bs @ [b @ [Recv_status]]"], rule exI[of _ "concat bs @ b"])
      (use b assms(4,5) ran_trans[OF b(1) assms(3)] in auto)
qed

text \<open>From the state \<open>st1\<close> after the constructor, in which \<open>vs\<close> has been sent, to the end.\<close>

lemma session_end:
  assumes "talked st vs st1" and "\<not> asked st" and "\<not> asked st1" and "b = [] \<or> b = [Recv_message]"
    and fin: "\<And>st. wf_heap (rc_heap st) \<Longrightarrow> case fin st of
      Inl e \<Rightarrow> e = CheckFailed \<and> last_fails C R ops st
    | Inr (status, st') \<Rightarrow> \<not> last_fails C R ops st \<and> ran st [b @ [Recv_status]] st' \<and> asked st' = asked st \<and> status = rc_status st'"
  shows "case bnd (run_client C M R app st1) (\<lambda>(z, ws, st). bnd (fin st) (\<lambda>(status, st). Inr (z, status, ws, st))) of
      Inl e \<Rightarrow> e = CheckFailed \<and> (waits_again C M R app st1 \<or> loses_status C M R ops app st1)
    | Inr (z, status, ws, st') \<Rightarrow> \<not> waits_again C M R app st1 \<and> \<not> loses_status C M R ops app st1 \<and>
        session st (vs @ ws) st' \<and> status = rc_status st' \<and>
        (\<exists>st2. run_client C M R app st1 = Inr (z, ws, st2) \<and> asked st' = asked st2)"
proof -
  note out = run_client_outcome[where app = app and C = C and M = M and R = R, OF talked_wf[OF assms(1)] assms(3)]
  show ?thesis
  proof (cases "run_client C M R app st1")
    case (Inl e)
    then show ?thesis using out by simp
  next
    case (Inr x)
    obtain z ws st2 where x: "x = (z, ws, st2)" by (cases x)
    have t: "talked st (vs @ ws) st2" and no: "\<not> waits_again C M R app st1"
      and ret: "\<And>z1 st3. client_reaches C M R (app, st1) (Client_Return z1, st3) \<longleftrightarrow> z1 = z \<and> st3 = st2"
      using out talked_trans[OF assms(1)] unfolding Inr x sum.case prod.case by blast+
    have lost: "loses_status C M R ops app st1 \<longleftrightarrow> last_fails C R ops st2" by (simp add: loses_status_def ret)
    show ?thesis
    proof (cases "fin st2")
      case (Inl e)
      then show ?thesis using fin[OF talked_wf[OF t]] lost Inr x \<open>run_client C M R app st1 = Inr x\<close> by simp
    next
      case (Inr y)
      obtain status st3 where y: "y = (status, st3)" by (cases y)
      have f: "\<not> last_fails C R ops st2" "ran st2 [b @ [Recv_status]] st3" "asked st3 = asked st2" "status = rc_status st3"
        using fin[OF talked_wf[OF t]] unfolding Inr y by simp_all
      show ?thesis using \<open>run_client C M R app st1 = Inr x\<close> Inr x y f lost no talked_finish[OF t assms(2) f(2,3) assms(4)]
        by simp
    qed
  qed
qed

lemma ReaderWriter_step:
  assumes "wf_heap (rc_heap st)" and "\<not> asked st"
  obtains st1 where "ClientReaderWriter_new C R st = Inr st1"
    and "case ReaderWriter_session C M R app st of
      Inl e \<Rightarrow> e = CheckFailed \<and> (waits_again C M R app st1 \<or> loses_status C M R (CallOpSet_new 0 [recv_status_op]) app st1)
    | Inr (z, status, ws, st') \<Rightarrow> \<not> waits_again C M R app st1 \<and> \<not> loses_status C M R (CallOpSet_new 0 [recv_status_op]) app st1 \<and>
        session st (Send_initial (cc_send_initial_metadata (rc_client st)) # ws) st' \<and> status = rc_status st'"
proof -
  let ?md = "cc_send_initial_metadata (rc_client st)"
  obtain st1 where s: "ClientReaderWriter_new C R st = Inr st1" "ran st [[Send_initial ?md]] st1" "asked st1 = asked st"
    using ReaderWriter_new_step[OF assms(1)] by blast
  have one: "talked st [Send_initial ?md] st1" using talked_one[OF s(2)] s(3) by simp
  have fin: "case ClientReaderWriter_Finish C R st of
      Inl e \<Rightarrow> e = CheckFailed \<and> last_fails C R (CallOpSet_new 0 [recv_status_op]) st
    | Inr (status, st') \<Rightarrow> \<not> last_fails C R (CallOpSet_new 0 [recv_status_op]) st \<and> ran st [[] @ [Recv_status]] st' \<and>
        asked st' = asked st \<and> status = rc_status st'" if "wf_heap (rc_heap st)" for st
    using Finish_step[where C = C and R = R, OF that]
    by (cases "ClientReader_Finish C R st") (auto simp: ClientReaderWriter_Finish_def)
  have "\<not> asked st1" using s(3) assms(2) by simp
  from session_end[where M = M and app = app, OF one assms(2) this disjI1[OF refl] fin]
  have "case ReaderWriter_session C M R app st of
      Inl e \<Rightarrow> e = CheckFailed \<and> (waits_again C M R app st1 \<or> loses_status C M R (CallOpSet_new 0 [recv_status_op]) app st1)
    | Inr (z, status, ws, st') \<Rightarrow> \<not> waits_again C M R app st1 \<and> \<not> loses_status C M R (CallOpSet_new 0 [recv_status_op]) app st1 \<and>
        session st (Send_initial ?md # ws) st' \<and> status = rc_status st'"
    by (auto simp: ReaderWriter_session_def s(1) split: sum.splits)
  then show ?thesis using s(1) that by blast
qed

lemma Reader_step:
  assumes "wf_heap (rc_heap st)" and "\<not> asked st" and "only_reads app" and "status_ok (fst (sr_SerializeProto M request))"
  obtains st1 where "ClientReader_new C M R request st = Inr st1"
    and "case Reader_session C M R request app st of
      Inl e \<Rightarrow> e = CheckFailed \<and> (waits_again C M R app st1 \<or> loses_status C M R (CallOpSet_new 0 [recv_status_op]) app st1)
    | Inr (z, status, st') \<Rightarrow> \<not> waits_again C M R app st1 \<and> \<not> loses_status C M R (CallOpSet_new 0 [recv_status_op]) app st1 \<and>
        session st [Send_initial (cc_send_initial_metadata (rc_client st)), msg_wire M (request, WriteOptions_new), Send_close] st' \<and>
        status = rc_status st'"
proof -
  let ?ws = "[Send_initial (cc_send_initial_metadata (rc_client st)), msg_wire M (request, WriteOptions_new), Send_close]"
  obtain s bs where m: "sr_SerializeProto M request = (s, bs)" by (cases "sr_SerializeProto M request")
  have w: "?ws = [Send_initial (cc_send_initial_metadata (rc_client st)), Send_message 0 bs, Send_close]"
    using m by (simp add: msg_wire_def WriteOptions_new_def)
  obtain st1 where s: "ClientReader_new C M R request st = Inr st1" "ran st [?ws] st1" "asked st1 = asked st"
    unfolding w using Reader_new_step[OF assms(1) m, of C R] assms(4) m by auto
  have one: "talked st ?ws st1" using talked_one[OF s(2)] s(3) by (simp add: w)
  have "\<not> asked st1" using s(3) assms(2) by simp
  note fin = session_end[where M = M and app = app and b = "[]" and fin = "ClientReader_Finish C R" and C = C and R = R,
      OF one assms(2) this disjI1[OF refl], unfolded append_Nil, OF Finish_step]
  have none: "ws = []" if "run_client C M R app st1 = Inr (z, ws, st2)" for z ws st2
    using only_reads_sends[OF assms(3) that] .
  have "Reader_session C M R request app st = bnd (bnd (run_client C M R app st1)
      (\<lambda>(z, ws, st). bnd (ClientReader_Finish C R st) (\<lambda>(status, st). Inr (z, status, ws, st)))) (\<lambda>(z, status, ws, st). Inr (z, status, st))"
    by (simp add: Reader_session_def s(1) bnd_assoc case_prod_unfold)
  then have "case Reader_session C M R request app st of
      Inl e \<Rightarrow> e = CheckFailed \<and> (waits_again C M R app st1 \<or> loses_status C M R (CallOpSet_new 0 [recv_status_op]) app st1)
    | Inr (z, status, st') \<Rightarrow> \<not> waits_again C M R app st1 \<and> \<not> loses_status C M R (CallOpSet_new 0 [recv_status_op]) app st1 \<and>
        session st ?ws st' \<and> status = rc_status st'"
    using fin none by (auto split: sum.splits)
  then show ?thesis using s(1) that by blast
qed

lemma Writer_step:
  assumes "wf_heap (rc_heap st)" and "\<not> asked st" and "only_writes app"
  obtains st1 where "ClientWriter_new C R st = Inr (writer_last_ops, st1)"
    and "case Writer_session C M R app st of
      Inl e \<Rightarrow> e = CheckFailed \<and> loses_status C M R writer_last_ops app st1
    | Inr (z, status, ws, st') \<Rightarrow> \<not> loses_status C M R writer_last_ops app st1 \<and>
        session st (Send_initial (cc_send_initial_metadata (rc_client st)) # ws) st' \<and> status = rc_status st' \<and> \<not> asked st'"
proof -
  let ?md = "cc_send_initial_metadata (rc_client st)"
  let ?fin = "\<lambda>st. bnd (ClientWriter_Finish C R writer_last_ops st) (\<lambda>(status, _, st). Inr (status, st))"
  obtain st1 where s: "ClientWriter_new C R st = Inr (writer_last_ops, st1)" "ran st [[Send_initial ?md]] st1" "asked st1 = asked st"
    using Writer_new_step[OF assms(1), of C R] by blast
  have one: "talked st [Send_initial ?md] st1" using talked_one[OF s(2)] s(3) by simp
  have fin: "case ?fin st of Inl e \<Rightarrow> e = CheckFailed \<and> last_fails C R writer_last_ops st
    | Inr (status, st') \<Rightarrow> \<not> last_fails C R writer_last_ops st \<and> ran st [[Recv_message] @ [Recv_status]] st' \<and>
        asked st' = asked st \<and> status = rc_status st'" if "wf_heap (rc_heap st)" for st
    using Writer_Finish_step[OF that, of C R] by (cases "ClientWriter_Finish C R writer_last_ops st") auto
  have not1: "\<not> asked st1" using s(3) assms(2) by simp
  note run = session_end[where M = M and app = app and fin = ?fin, OF one assms(2) not1 disjI2[OF refl] fin]
  have never: "\<not> waits_again C M R app st1" by (rule no_wait_waits[OF only_writes_no_wait[OF assms(3)]])
  have quiet: "\<not> asked st2" if "run_client C M R app st1 = Inr (z, ws, st2)" for z ws st2
    using only_writes_asks[OF assms(3) talked_wf[OF one] that] not1 by simp
  have "Writer_session C M R app st = bnd (run_client C M R app st1) (\<lambda>(z, ws, st). bnd (?fin st) (\<lambda>(status, st). Inr (z, status, ws, st)))"
    by (simp add: Writer_session_def s(1) bnd_assoc case_prod_unfold)
  then have "case Writer_session C M R app st of
      Inl e \<Rightarrow> e = CheckFailed \<and> loses_status C M R writer_last_ops app st1
    | Inr (z, status, ws, st') \<Rightarrow> \<not> loses_status C M R writer_last_ops app st1 \<and>
        session st (Send_initial ?md # ws) st' \<and> status = rc_status st' \<and> \<not> asked st'"
    using run never quiet by (auto split: sum.splits)
  then show ?thesis using s(1) that by blast
qed

text \<open>C26: the client's streams. Whatever the application does between the constructor and \<open>Finish\<close>, with whatever
  the core answers, a session of \<open>ClientReaderWriter\<close> aborts exactly when the application comes to
  \<open>WaitForInitialMetadata\<close> at a point where initial metadata has already been asked for, or when the batch of
  \<open>Finish\<close> comes back from the queue without success. Otherwise it sends initial metadata first and once and
  then what the application wrote, in order; it asks for initial metadata at most once, and exactly when the
  context says so; it asks for the status once and last, and returns it; no batch has two operations of a
  kind and every object is freed. A session of \<open>ClientReader\<close> does the same, with its request and the end of
  the client's messages in the first batch; its constructor aborts when the request cannot be serialised. One
  of \<open>ClientWriter\<close> can only abort at \<open>Finish\<close> and never asks for initial metadata.\<close>

theorem client_sessions_keep_protocol:
  assumes "wf_heap (rc_heap st)" and "\<not> cc_initial_metadata_received (rc_client st)"
  shows "(\<exists>st1. ClientReaderWriter_new C R st = Inr st1 \<and> (case ReaderWriter_session C M R app st of
        Inl e \<Rightarrow> e = CheckFailed \<and> (waits_again C M R app st1 \<or> loses_status C M R (CallOpSet_new 0 [recv_status_op]) app st1)
      | Inr (z, status, ws, st') \<Rightarrow>
          \<not> waits_again C M R app st1 \<and> \<not> loses_status C M R (CallOpSet_new 0 [recv_status_op]) app st1 \<and>
          session st (Send_initial (cc_send_initial_metadata (rc_client st)) # ws) st' \<and> status = rc_status st')) \<and>
    (only_reads appR \<longrightarrow> (if status_ok (fst (sr_SerializeProto M request))
      then \<exists>st1. ClientReader_new C M R request st = Inr st1 \<and> (case Reader_session C M R request appR st of
          Inl e \<Rightarrow> e = CheckFailed \<and> (waits_again C M R appR st1 \<or> loses_status C M R (CallOpSet_new 0 [recv_status_op]) appR st1)
        | Inr (z, status, st') \<Rightarrow>
            \<not> waits_again C M R appR st1 \<and> \<not> loses_status C M R (CallOpSet_new 0 [recv_status_op]) appR st1 \<and>
            session st [Send_initial (cc_send_initial_metadata (rc_client st)),
              msg_wire M (request, WriteOptions_new), Send_close] st' \<and> status = rc_status st')
      else Reader_session C M R request appR st = Inl CheckFailed)) \<and>
    (only_writes appW \<longrightarrow> (\<exists>st1. ClientWriter_new C R st = Inr (writer_last_ops, st1) \<and> (case Writer_session C M R appW st of
        Inl e \<Rightarrow> e = CheckFailed \<and> loses_status C M R writer_last_ops appW st1
      | Inr (z, status, ws, st') \<Rightarrow> \<not> loses_status C M R writer_last_ops appW st1 \<and>
          session st (Send_initial (cc_send_initial_metadata (rc_client st)) # ws) st' \<and>
          status = rc_status st' \<and> \<not> cc_initial_metadata_received (rc_client st'))))"
proof -
  obtain st1 where "ClientReaderWriter_new C R st = Inr st1" "case ReaderWriter_session C M R app st of
        Inl e \<Rightarrow> e = CheckFailed \<and> (waits_again C M R app st1 \<or> loses_status C M R (CallOpSet_new 0 [recv_status_op]) app st1)
      | Inr (z, status, ws, st') \<Rightarrow>
          \<not> waits_again C M R app st1 \<and> \<not> loses_status C M R (CallOpSet_new 0 [recv_status_op]) app st1 \<and>
          session st (Send_initial (cc_send_initial_metadata (rc_client st)) # ws) st' \<and> status = rc_status st'"
    by (rule ReaderWriter_step[OF assms])
  then have rw: "\<exists>st1. ClientReaderWriter_new C R st = Inr st1 \<and> (case ReaderWriter_session C M R app st of
        Inl e \<Rightarrow> e = CheckFailed \<and> (waits_again C M R app st1 \<or> loses_status C M R (CallOpSet_new 0 [recv_status_op]) app st1)
      | Inr (z, status, ws, st') \<Rightarrow>
          \<not> waits_again C M R app st1 \<and> \<not> loses_status C M R (CallOpSet_new 0 [recv_status_op]) app st1 \<and>
          session st (Send_initial (cc_send_initial_metadata (rc_client st)) # ws) st' \<and> status = rc_status st')" by blast
  have no: "Reader_session C M R request appR st = Inl CheckFailed" if "\<not> status_ok (fst (sr_SerializeProto M request))"
    using Reader_new_step[OF assms(1), of M request _ _ C R] that
    by (cases "sr_SerializeProto M request") (simp add: Reader_session_def)
  show ?thesis
    by (intro conjI impI rw)
      (simp add: no, intro impI, erule (1) Reader_step[where C = C and M = M and R = R, OF assms], blast,
       erule Writer_step[where C = C and M = M and R = R, OF assms], blast)
qed

text \<open>A client that writes one message, reads one and ends its side.\<close>

definition echo_client :: "(8 word list, 8 word list, 8 word list) client_app" where
  "echo_client = Client_Write [1] WriteOptions_new (\<lambda>ok. Client_WritesDone (\<lambda>ok. Client_Read [] (\<lambda>ok r. Client_Return r)))"

definition lucky_core :: "unit core" where
  "lucky_core = \<lparr>gc_max_message_size = 0, gc_batch = \<lambda>wire w. (reply_of [Send_message 0 [7]], w), gc_pluck = \<lambda>event status. True\<rparr>"

lemma lucky_succeeds: "\<not> last_fails lucky_core R ops st"
  by (auto simp: last_fails_def perform_def Pluck_def bnd_eq_Inr lucky_core_def split: prod.splits)

theorem client_sessions_keep_protocol_witness:
  "\<exists>z ws st'. ReaderWriter_session lucky_core byte_serial byte_serial echo_client (process [] ()) =
      Inr (z, rc_status st', ws, st') \<and> session (process [] ()) (Send_initial [] # ws) st'"
proof -
  let ?st = "process [] () :: (8 word list, unit) rpc"
  let ?run = "ReaderWriter_session lucky_core byte_serial byte_serial echo_client ?st"
  have pre: "wf_heap (rc_heap ?st)" "\<not> cc_initial_metadata_received (rc_client ?st)" "cc_send_initial_metadata (rc_client ?st) = []"
    by (simp_all add: process_def fresh_client_def)
  have "\<not> waits_again lucky_core byte_serial byte_serial echo_client st1"
    and "\<not> loses_status lucky_core byte_serial byte_serial ops echo_client st1" for st1 :: "(8 word list, unit) rpc" and ops
    by (rule no_wait_waits, simp add: echo_client_def) (simp add: loses_status_def lucky_succeeds)
  moreover note client_sessions_keep_protocol[where C = lucky_core and M = byte_serial and R = byte_serial and app = echo_client and
      request = "[1]" and appR = "Client_Return ()" and appW = "Client_Return ()", OF pre(1,2), THEN conjunct1]
  ultimately have "case ?run of Inl e \<Rightarrow> False
      | Inr (z, status, ws, st') \<Rightarrow> session ?st (Send_initial (cc_send_initial_metadata (rc_client ?st)) # ws) st' \<and>
          status = rc_status st'"
    by (cases ?run) auto
  then show ?thesis using pre(3) by (cases ?run) auto
qed

end
