(* ===== verification/PbMem.thy ===== *)
theory PbMem
  imports PbBytes
begin

unbundle bit_operations_syntax

text \<open>
  Comparing memory (\<open>include/google/protobuf/stubs/fastmem.h\<close>) and strings by reference
  (\<open>stubs/stringpiece.h\<close>). Memory is a list of bytes, a pointer the position of a byte; the regions of a
  comparison may overlap. Shown: \<open>memeq\<close>, which compares eight bytes at a time and some of them twice, is
  equality of the regions and reads nothing outside; what the sign of \<open>fastmemcmp_inlined\<close> is; and
  that a \<open>StringPiece\<close> behaves as the bytes it refers to.
\<close>

section \<open>Memory\<close>

definition region :: "8 word list \<Rightarrow> nat \<Rightarrow> nat \<Rightarrow> 8 word list" where
  "region mem p n = take n (drop p mem)"

definition inside :: "8 word list \<Rightarrow> nat \<Rightarrow> nat \<Rightarrow> bool" where
  "inside mem p n \<longleftrightarrow> p + n \<le> length mem"

text \<open>\<open>memcmp\<close> of the C library, of whose result only the sign is defined.\<close>

fun bytes_cmp :: "8 word list \<Rightarrow> 8 word list \<Rightarrow> int" where
  "bytes_cmp (x # xs) (y # ys) = (if x = y then bytes_cmp xs ys else if x < y then -1 else 1)"
| "bytes_cmp xs ys = 0"

definition memcmp :: "8 word list \<Rightarrow> nat \<Rightarrow> nat \<Rightarrow> nat \<Rightarrow> int run" where
  "memcmp mem a b n = (if n = 0 then Inr 0
     else if inside mem a n \<and> inside mem b n then Inr (bytes_cmp (region mem a n) (region mem b n)) else Inl OutOfBounds)"

text \<open>\<open>GOOGLE_UNALIGNED_LOAD64\<close> and its 32-bit sister.\<close>

definition LOAD64 :: "8 word list \<Rightarrow> nat \<Rightarrow> 64 word run" where
  "LOAD64 mem p = (if inside mem p 8 then Inr (of_nat (from_le (region mem p 8))) else Inl OutOfBounds)"

definition LOAD32 :: "8 word list \<Rightarrow> nat \<Rightarrow> 32 word run" where
  "LOAD32 mem p = (if inside mem p 4 then Inr (of_nat (from_le (region mem p 4))) else Inl OutOfBounds)"

section \<open>The fast routines\<close>

text \<open>The loop of \<open>memeq\<close>, with what follows it; \<open>n\<close> is a multiple of 8 here.\<close>

function memeq_loop :: "8 word list \<Rightarrow> nat \<Rightarrow> nat \<Rightarrow> nat \<Rightarrow> bool run" where
  "memeq_loop mem a b n =
    (if n \<ge> 16 then
       bnd (LOAD64 mem a) (\<lambda>a0. bnd (LOAD64 mem b) (\<lambda>b0.
       bnd (LOAD64 mem (a + 8)) (\<lambda>a1. bnd (LOAD64 mem (b + 8)) (\<lambda>b1.
       let x = a0 XOR b0; y = a1 XOR b1 in
       if x OR y \<noteq> 0 then Inr False else memeq_loop mem (a + 16) (b + 16) (n - 16)))))
     else if n = 0 then Inr True
     else bnd (LOAD64 mem a) (\<lambda>x. bnd (LOAD64 mem b) (\<lambda>y. Inr (x = y))))"
  by pat_completeness auto
termination by (relation "measure (\<lambda>(mem, a, b, n). n)") auto

declare memeq_loop.simps [simp del]

definition memeq :: "8 word list \<Rightarrow> nat \<Rightarrow> nat \<Rightarrow> 64 word \<Rightarrow> bool run" where
  "memeq mem a b n =
    (let n_rounded_down = n AND NOT 7 in
     if n_rounded_down = 0 then bnd (memcmp mem a b (unat n)) (\<lambda>r. Inr (r = 0))
     else
       bnd (LOAD64 mem a) (\<lambda>a0. bnd (LOAD64 mem b) (\<lambda>b0.
       bnd (LOAD64 mem (a + unat (n - 8))) (\<lambda>a1. bnd (LOAD64 mem (b + unat (n - 8))) (\<lambda>b1.
       let u = a0 XOR b0; v = a1 XOR b1 in
       if u OR v \<noteq> 0 then Inr False
       else let a = a + 8; b = b + 8; n = n_rounded_down - 8 in
         if n > 128 then bnd (memcmp mem a b (unat n)) (\<lambda>r. Inr (r = 0))
         else memeq_loop mem a b (unat n))))))"

text \<open>\<open>static_cast<uint32>(char)\<close>, where \<open>char\<close> is signed or not.\<close>

definition char_u32 :: "bool \<Rightarrow> 8 word \<Rightarrow> 32 word" where
  "char_u32 signed_char c = (if signed_char then scast c else ucast c)"

function skip64 :: "8 word list \<Rightarrow> nat \<Rightarrow> nat \<Rightarrow> nat \<Rightarrow> (nat \<times> nat) run" where
  "skip64 mem a b a_limit =
    (if a + 8 \<le> a_limit then
       bnd (LOAD64 mem a) (\<lambda>x. bnd (LOAD64 mem b) (\<lambda>y.
         if x = y then skip64 mem (a + 8) (b + 8) a_limit else Inr (a, b)))
     else Inr (a, b))"
  by pat_completeness auto
termination by (relation "measure (\<lambda>(mem, a, b, a_limit). a_limit - a)") auto

declare skip64.simps [simp del]

function cmp_bytes_loop :: "bool \<Rightarrow> 8 word list \<Rightarrow> nat \<Rightarrow> nat \<Rightarrow> nat \<Rightarrow> int run" where
  "cmp_bytes_loop signed_char mem a b a_limit =
    (if a < a_limit then
       if a < length mem \<and> b < length mem then
         let d = sint (char_u32 signed_char (mem ! a) - char_u32 signed_char (mem ! b)) in
         if d \<noteq> 0 then Inr d else cmp_bytes_loop signed_char mem (a + 1) (b + 1) a_limit
       else Inl OutOfBounds
     else Inr 0)"
  by pat_completeness auto
termination by (relation "measure (\<lambda>(_, mem, a, b, a_limit). a_limit - a)") auto

declare cmp_bytes_loop.simps [simp del]

definition fastmemcmp_inlined :: "bool \<Rightarrow> 8 word list \<Rightarrow> nat \<Rightarrow> nat \<Rightarrow> nat \<Rightarrow> int run" where
  "fastmemcmp_inlined signed_char mem a b n =
    (if n \<ge> 64 then memcmp mem a b n
     else let a_limit = a + n in
       bnd (skip64 mem a b a_limit) (\<lambda>(a, b).
       bnd (if a + 4 \<le> a_limit
            then bnd (LOAD32 mem a) (\<lambda>x. bnd (LOAD32 mem b) (\<lambda>y. Inr (if x = y then (a + 4, b + 4) else (a, b))))
            else Inr (a, b)) (\<lambda>(a, b).
       cmp_bytes_loop signed_char mem a b a_limit)))"

section \<open>Equality\<close>

lemma from_le_less: "from_le bs < 256 ^ length bs"
proof (induction bs)
  case (Cons b bs)
  have "unat b < 2 ^ LENGTH(8)" by (rule unsigned_less)
  then show ?case using Cons by simp
qed simp

lemma digit_eq: "a < 256 \<Longrightarrow> b < 256 \<Longrightarrow> a + 256 * c = b + 256 * d \<longleftrightarrow> a = b \<and> c = (d :: nat)"
proof
  assume r: "a < 256" "b < 256" and e: "a + 256 * c = b + 256 * d"
  have "a = (a + 256 * c) mod 256" "b = (b + 256 * d) mod 256" using r by simp_all
  then show "a = b \<and> c = d" using e by simp
qed simp

lemma from_le_inj: "length xs = length ys \<Longrightarrow> from_le xs = from_le ys \<longleftrightarrow> xs = ys"
proof (induction xs ys rule: list_induct2)
  case (Cons x xs y ys)
  have "unat x < 2 ^ LENGTH(8)" "unat y < 2 ^ LENGTH(8)" by (rule unsigned_less)+
  then have "unat x + 256 * from_le xs = unat y + 256 * from_le ys \<longleftrightarrow> unat x = unat y \<and> from_le xs = from_le ys"
    by (intro digit_eq) simp_all
  then show ?case using Cons by (simp add: word_unat_eq_iff)
qed simp

lemma load64_eq:
  assumes "inside mem a 8" and "inside mem b 8"
  shows "\<exists>x y. LOAD64 mem a = Inr x \<and> LOAD64 mem b = Inr y \<and> (x = y \<longleftrightarrow> region mem a 8 = region mem b 8)"
proof -
  have l: "length (region mem a 8) = 8" "length (region mem b 8) = 8" using assms by (auto simp: region_def inside_def)
  then have "from_le (region mem a 8) < 256 ^ 8" "from_le (region mem b 8) < 256 ^ 8"
    using from_le_less[of "region mem a 8"] from_le_less[of "region mem b 8"] by simp_all
  then have "(of_nat (from_le (region mem a 8)) :: 64 word) = of_nat (from_le (region mem b 8)) \<longleftrightarrow>
      from_le (region mem a 8) = from_le (region mem b 8)"
    by (simp add: word_unat_eq_iff unat_of_nat take_bit_nat_eq_self)
  then show ?thesis using assms l from_le_inj[of "region mem a 8" "region mem b 8"] by (simp add: LOAD64_def)
qed

lemma load32_eq:
  assumes "inside mem a 4" and "inside mem b 4"
  shows "\<exists>x y. LOAD32 mem a = Inr x \<and> LOAD32 mem b = Inr y \<and> (x = y \<longleftrightarrow> region mem a 4 = region mem b 4)"
proof -
  have l: "length (region mem a 4) = 4" "length (region mem b 4) = 4" using assms by (auto simp: region_def inside_def)
  then have "from_le (region mem a 4) < 256 ^ 4" "from_le (region mem b 4) < 256 ^ 4"
    using from_le_less[of "region mem a 4"] from_le_less[of "region mem b 4"] by simp_all
  then have "(of_nat (from_le (region mem a 4)) :: 32 word) = of_nat (from_le (region mem b 4)) \<longleftrightarrow>
      from_le (region mem a 4) = from_le (region mem b 4)"
    by (simp add: word_unat_eq_iff unat_of_nat take_bit_nat_eq_self)
  then show ?thesis using assms l from_le_inj[of "region mem a 4" "region mem b 4"] by (simp add: LOAD32_def)
qed

lemma bytes_cmp_zero: "length xs = length ys \<Longrightarrow> bytes_cmp xs ys = 0 \<longleftrightarrow> xs = ys"
  by (induction xs ys rule: list_induct2) auto

lemma bytes_cmp_sgn: "sgn (bytes_cmp xs ys) = bytes_cmp xs ys"
  by (induction xs ys rule: bytes_cmp.induct) simp_all

lemma memcmp_zero:
  assumes "inside mem a n" and "inside mem b n"
  shows "bnd (memcmp mem a b n) (\<lambda>r. Inr (r = 0)) = Inr (region mem a n = region mem b n)"
proof -
  have "length (region mem a n) = length (region mem b n)" using assms by (simp add: region_def inside_def)
  then show ?thesis using assms bytes_cmp_zero[of "region mem a n"] by (simp add: memcmp_def region_def)
qed

text \<open>Regions that are joined, or that overlap.\<close>

lemma region_nth:
  assumes "inside mem a n" and "inside mem b n"
  shows "region mem a n = region mem b n \<longleftrightarrow> (\<forall>i < n. mem ! (a + i) = mem ! (b + i))"
  using assms by (auto simp: region_def inside_def list_eq_iff_nth_eq)

lemma region_join:
  assumes "inside mem a (m + n)" and "inside mem b (m + n)"
  shows "region mem a (m + n) = region mem b (m + n) \<longleftrightarrow>
    region mem a m = region mem b m \<and> region mem (a + m) n = region mem (b + m) n"
proof -
  have "region mem p (m + n) = region mem p m @ region mem (p + m) n" for p
    by (simp add: region_def take_add add.commute)
  then show ?thesis using assms by (simp add: region_def inside_def)
qed
lemma xor_or_zero: "(x XOR y) OR (u XOR v) = 0 \<longleftrightarrow> x = y \<and> u = (v :: 'a::len word)"
proof -
  have "w XOR z = 0 \<longleftrightarrow> w = z" for w z :: "'a word" by (auto simp: bit_eq_iff bit_xor_iff)
  then show ?thesis by (simp add: or_eq_0_iff)
qed

lemma memeq_loop_is:
  assumes "inside mem a n" and "inside mem b n" and "n mod 8 = 0"
  shows "memeq_loop mem a b n = Inr (region mem a n = region mem b n)"
  using assms
proof (induction mem a b n rule: memeq_loop.induct)
  case (1 mem a b n)
  show ?case
  proof (cases "n \<ge> 16")
    case True
    let ?r = "n - 16"
    have n: "n = 8 + (8 + ?r)" using True by simp
    have i: "inside mem a 8" "inside mem b 8" "inside mem (a + 8) 8" "inside mem (b + 8) 8"
        "inside mem (a + 16) ?r" "inside mem (b + 16) ?r" "inside mem a (8 + (8 + ?r))" "inside mem b (8 + (8 + ?r))"
        "inside mem (a + 8) (8 + ?r)" "inside mem (b + 8) (8 + ?r)"
      using "1.prems"(1,2) True by (simp_all add: inside_def)
    obtain a0 b0 where l0: "LOAD64 mem a = Inr a0" "LOAD64 mem b = Inr b0" "a0 = b0 \<longleftrightarrow> region mem a 8 = region mem b 8"
      using load64_eq[OF i(1,2)] by blast
    obtain a1 b1 where l1: "LOAD64 mem (a + 8) = Inr a1" "LOAD64 mem (b + 8) = Inr b1"
        "a1 = b1 \<longleftrightarrow> region mem (a + 8) 8 = region mem (b + 8) 8"
      using load64_eq[OF i(3,4)] by blast
    have split: "region mem a n = region mem b n \<longleftrightarrow> a0 = b0 \<and> a1 = b1 \<and> region mem (a + 16) ?r = region mem (b + 16) ?r"
      using region_join[OF i(7,8)] region_join[OF i(9,10)] n l0(3) l1(3) by (simp add: add.assoc)
    have m: "(n - 16) mod 8 = 0" using "1.prems"(3) True by presburger
    have run: "memeq_loop mem a b n = (if a0 = b0 \<and> a1 = b1 then memeq_loop mem (a + 16) (b + 16) ?r else Inr False)"
      using True l0 l1 by (subst memeq_loop.simps) (simp add: Let_def xor_or_zero)
    have "memeq_loop mem (a + 16) (b + 16) ?r = Inr (region mem (a + 16) ?r = region mem (b + 16) ?r)" if "a0 = b0 \<and> a1 = b1"
      using "1.IH"[OF True l0(1,2) l1(1,2) refl refl _ i(5,6) m] that by (simp add: xor_or_zero)
    then show ?thesis unfolding run using split by auto
  next
    case False
    then have "n = 0 \<or> n = 8" using "1.prems"(3) by presburger
    then show ?thesis
    proof
      assume "n = 8"
      then show ?thesis using load64_eq[of mem a b] "1.prems"(1,2) by (subst memeq_loop.simps) auto
    qed (subst memeq_loop.simps, simp add: region_def)
  qed
qed

lemma rounded_down: "unat (n AND NOT 7 :: 64 word) = unat n - unat n mod 8"
proof -
  have seven: "(7 :: 64 word) = mask 3" by (simp add: mask_eq_exp_minus_1)
  have "n AND NOT 7 = n AND NOT (take_bit 3 n)" unfolding seven by (rule bit_eqI) (auto simp: bit_simps)
  also have "\<dots> = n - take_bit 3 n" by (rule disjunctive_diff_eq_and_not[symmetric], rule bit_eqI) (auto simp: bit_simps)
  finally have "n AND NOT 7 = n - take_bit 3 n" .
  moreover have "unat (take_bit 3 n) = take_bit 3 (unat n)" by (rule unsigned_take_bit_eq)
  then have "unat (take_bit 3 n) = unat n mod 8" by (simp add: take_bit_eq_mod)
  moreover from this have "take_bit 3 n \<le> n" by (simp add: word_le_nat_alt)
  ultimately show ?thesis by (simp add: unat_sub)
qed
text \<open>The first eight bytes, the whole words after them, and the last eight bytes cover the region.\<close>

lemma region_cover:
  assumes "inside mem a n" and "inside mem b n" and "8 \<le> n" and "r = n - n mod 8"
  shows "region mem a n = region mem b n \<longleftrightarrow> region mem a 8 = region mem b 8 \<and>
    region mem (a + (n - 8)) 8 = region mem (b + (n - 8)) 8 \<and> region mem (a + 8) (r - 8) = region mem (b + 8) (r - 8)"
proof -
  have i: "inside mem a 8" "inside mem b 8" "inside mem (a + (n - 8)) 8" "inside mem (b + (n - 8)) 8"
    "inside mem (a + 8) (r - 8)" "inside mem (b + 8) (r - 8)" using assms by (simp_all add: inside_def)
  have "mem ! (a + i) = mem ! (b + i)" if i: "i < n" and e: "\<forall>i < 8. mem ! (a + i) = mem ! (b + i)"
      "\<forall>i < 8. mem ! (a + (n - 8) + i) = mem ! (b + (n - 8) + i)" "\<forall>i < r - 8. mem ! (a + 8 + i) = mem ! (b + 8 + i)" for i
  proof -
    consider "i < 8" | "8 \<le> i \<and> i < r" | "r \<le> i" by linarith
    then show ?thesis
    proof cases
      case 2
      then have "i - 8 < r - 8" "8 + (i - 8) = i" by linarith+
      then show ?thesis using e(3)[rule_format, of "i - 8"] by (simp add: add.assoc)
    next
      case 3
      then have "n - 8 \<le> i" using assms(3,4) by presburger
      then show ?thesis using e(2)[rule_format, of "i - (n - 8)"] i assms(3) by (simp add: add.assoc)
    qed (use e in simp)
  qed
  moreover have "mem ! (a + (n - 8) + i) = mem ! (b + (n - 8) + i)" if "\<forall>i < n. mem ! (a + i) = mem ! (b + i)" "i < 8" for i
    using that(1)[rule_format, of "n - 8 + i"] that(2) assms(3) by (simp add: add.assoc)
  moreover have "mem ! (a + 8 + i) = mem ! (b + 8 + i)" if "\<forall>i < n. mem ! (a + i) = mem ! (b + i)" "i < r - 8" for i
    using that(1)[rule_format, of "8 + i"] that(2) assms(3,4) by (simp add: add.assoc)
  moreover have "mem ! (a + i) = mem ! (b + i)" if "\<forall>i < n. mem ! (a + i) = mem ! (b + i)" "i < 8" for i
    using that assms(3) by simp
  ultimately show ?thesis
    unfolding region_nth[OF assms(1,2)] region_nth[OF i(1,2)] region_nth[OF i(3,4)] region_nth[OF i(5,6)] by blast
qed

lemma memeq_is:
  assumes "inside mem a (unat n)" and "inside mem b (unat n)"
  shows "memeq mem a b n = Inr (region mem a (unat n) = region mem b (unat n))"
proof -
  let ?n = "unat n" and ?rd = "n AND NOT 7"
  let ?r = "?n - ?n mod 8"
  have r: "unat ?rd = ?r" by (rule rounded_down)
  show ?thesis
  proof (cases "?rd = 0")
    case True
    then show ?thesis using memcmp_zero[OF assms] by (simp add: memeq_def)
  next
    case False
    then have "?r \<noteq> 0" using r by (metis unat_eq_zero)
    then have n8: "8 \<le> ?n" and r8: "8 \<le> ?r" by presburger+
    have un: "unat (n - 8) = ?n - 8" "unat (?rd - 8) = ?r - 8"
      using n8 r8 r by (simp_all add: unat_sub word_le_nat_alt)
    have i: "inside mem a 8" "inside mem b 8" "inside mem (a + (?n - 8)) 8" "inside mem (b + (?n - 8)) 8"
      "inside mem (a + 8) (?r - 8)" "inside mem (b + 8) (?r - 8)" using assms n8 by (simp_all add: inside_def)
    obtain a0 b0 where l0: "LOAD64 mem a = Inr a0" "LOAD64 mem b = Inr b0" "a0 = b0 \<longleftrightarrow> region mem a 8 = region mem b 8"
      using load64_eq[OF i(1,2)] by blast
    obtain a1 b1 where l1: "LOAD64 mem (a + (?n - 8)) = Inr a1" "LOAD64 mem (b + (?n - 8)) = Inr b1"
        "a1 = b1 \<longleftrightarrow> region mem (a + (?n - 8)) 8 = region mem (b + (?n - 8)) 8"
      using load64_eq[OF i(3,4)] by blast
    have "(?r - 8) mod 8 = 0" using r8 by presburger
    then have rest: "(if ?rd - 8 > 128 then bnd (memcmp mem (a + 8) (b + 8) (?r - 8)) (\<lambda>r. Inr (r = 0))
        else memeq_loop mem (a + 8) (b + 8) (?r - 8)) = Inr (region mem (a + 8) (?r - 8) = region mem (b + 8) (?r - 8))"
      using memcmp_zero[OF i(5,6)] memeq_loop_is[OF i(5,6)] by simp
    have "memeq mem a b n = (if a0 = b0 \<and> a1 = b1 then
        (if ?rd - 8 > 128 then bnd (memcmp mem (a + 8) (b + 8) (?r - 8)) (\<lambda>r. Inr (r = 0))
         else memeq_loop mem (a + 8) (b + 8) (?r - 8)) else Inr False)"
      using False l0 l1 un by (simp add: memeq_def Let_def xor_or_zero)
    then show ?thesis unfolding rest using region_cover[OF assms n8 refl] l0(3) l1(3) by auto
  qed
qed
section \<open>Order\<close>

text \<open>The order of two regions by the first difference of their characters.\<close>

fun chars_cmp :: "bool \<Rightarrow> 8 word list \<Rightarrow> 8 word list \<Rightarrow> int" where
  "chars_cmp signed_char (x # xs) (y # ys) =
    (let d = sint (char_u32 signed_char x - char_u32 signed_char y) in if d \<noteq> 0 then d else chars_cmp signed_char xs ys)"
| "chars_cmp signed_char xs ys = 0"

definition char_val :: "bool \<Rightarrow> 8 word \<Rightarrow> int" where
  "char_val signed_char c = (if signed_char then sint c else uint c)"

lemma char_val_range: "- 128 \<le> char_val s c" "char_val s c < 256"
proof -
  have "- (2 ^ 7) \<le> sint c" "sint c < 2 ^ 7" using sint_ge[of c] sint_lt[of c] by simp_all
  moreover have "- 128 \<le> uint c" by (rule order_trans[OF _ uint_ge_0]) simp
  moreover have "uint c < 2 ^ 8" using uint_lt2p[of c] by simp
  ultimately show "- 128 \<le> char_val s c" "char_val s c < 256" by (auto simp: char_val_def)
qed

lemma char_val_inj: "char_val s x = char_val s y \<longleftrightarrow> x = y"
  by (cases s) (simp_all add: char_val_def flip: word_eq_iff_signed word_uint_eq_iff)

lemma char_diff: "sint (char_u32 s x - char_u32 s y) = char_val s x - char_val s y"
proof -
  have u: "char_u32 s c = word_of_int (char_val s c)" for c
    by (cases s) (simp_all only: char_u32_def char_val_def scast_eq ucast_eq if_True if_False)
  have w: "char_u32 s x - char_u32 s y = word_of_int (char_val s x - char_val s y)" by (simp add: u)
  have "sint (char_u32 s x - char_u32 s y) = signed_take_bit (LENGTH(32) - 1) (char_val s x - char_val s y)"
    unfolding w by (rule sint_sbintrunc')
  then have "sint (char_u32 s x - char_u32 s y) = signed_take_bit 31 (char_val s x - char_val s y)" by simp
  also have "\<dots> = char_val s x - char_val s y"
    using char_val_range[of s x] char_val_range[of s y] by (intro signed_take_bit_int_eq_self) simp_all
  finally show ?thesis .
qed

lemma chars_cmp_Cons [simp]: "chars_cmp s (x # xs) (y # ys) = (if x = y then chars_cmp s xs ys else char_val s x - char_val s y)"
  using char_val_inj[of s x y] by (simp add: char_diff Let_def)

declare chars_cmp.simps(1) [simp del]

lemma chars_cmp_same_prefix: "chars_cmp s (zs @ xs) (zs @ ys) = chars_cmp s xs ys"
  by (induction zs) simp_all

lemma chars_cmp_zero: "length xs = length ys \<Longrightarrow> chars_cmp s xs ys = 0 \<longleftrightarrow> xs = ys"
  by (induction xs ys rule: list_induct2) (auto simp: char_val_inj)

lemma chars_cmp_unsigned: "length xs = length ys \<Longrightarrow> sgn (chars_cmp False xs ys) = bytes_cmp xs ys"
  by (induction xs ys rule: list_induct2) (auto simp: char_val_def word_less_def word_uint_eq_iff)

lemma region_Suc: "inside mem a (Suc n) \<Longrightarrow> region mem a (Suc n) = mem ! a # region mem (a + 1) n"
  by (simp add: region_def inside_def Cons_nth_drop_Suc[symmetric])

lemma cmp_bytes_loop_is:
  assumes "inside mem a n" and "inside mem b n"
  shows "cmp_bytes_loop s mem a b (a + n) = Inr (chars_cmp s (region mem a n) (region mem b n))"
  using assms
proof (induction n arbitrary: a b)
  case 0
  then show ?case by (subst cmp_bytes_loop.simps) (simp add: region_def)
next
  case (Suc n)
  have i: "inside mem (a + 1) n" "inside mem (b + 1) n" "a < length mem" "b < length mem" using Suc.prems by (simp_all add: inside_def)
  show ?case using Suc.IH[OF i(1,2)] i(3,4) char_val_inj[of s "mem ! a" "mem ! b"] Suc.prems
    by (subst cmp_bytes_loop.simps) (simp add: Let_def char_diff region_Suc)
qed

lemma skip64_is:
  assumes "inside mem a n" and "inside mem b n"
  shows "\<exists>k \<le> n. skip64 mem a b (a + n) = Inr (a + k, b + k) \<and> region mem a k = region mem b k"
  using assms
proof (induction n arbitrary: a b rule: less_induct)
  case (less n)
  show ?case
  proof (cases "8 \<le> n")
    case True
    have i: "inside mem a 8" "inside mem b 8" "inside mem (a + 8) (n - 8)" "inside mem (b + 8) (n - 8)"
      using less.prems True by (simp_all add: inside_def)
    obtain x y where l: "LOAD64 mem a = Inr x" "LOAD64 mem b = Inr y" "x = y \<longleftrightarrow> region mem a 8 = region mem b 8"
      using load64_eq[OF i(1,2)] by blast
    show ?thesis
    proof (cases "x = y")
      case eq: True
      obtain k where k: "k \<le> n - 8" "skip64 mem (a + 8) (b + 8) (a + 8 + (n - 8)) = Inr (a + 8 + k, b + 8 + k)"
          "region mem (a + 8) k = region mem (b + 8) k"
        using less.IH[of "n - 8", OF _ i(3,4)] True by auto
      have "region mem a (8 + k) = region mem b (8 + k)"
        using region_join[of mem a 8 k b] less.prems k(1,3) l(3) eq True by (simp add: inside_def)
      then show ?thesis using k(1,2) l(1,2) eq True
        by (intro exI[of _ "8 + k"]) (subst skip64.simps, simp add: add.assoc)
    next
      case False
      then show ?thesis using l(1,2) True
        by (intro exI[of _ 0]) (subst skip64.simps, simp add: region_def)
    qed
  next
    case False
    then show ?thesis by (intro exI[of _ 0]) (subst skip64.simps, simp add: region_def)
  qed
qed
lemma fastmemcmp_short:
  assumes "inside mem a n" and "inside mem b n" and "n < 64"
  shows "fastmemcmp_inlined s mem a b n = Inr (chars_cmp s (region mem a n) (region mem b n))"
proof -
  have rest: "chars_cmp s (region mem a n) (region mem b n) = chars_cmp s (region mem (a + k) (n - k)) (region mem (b + k) (n - k))"
    if "k \<le> n" "region mem a k = region mem b k" for k
  proof -
    have "region mem p n = region mem p k @ region mem (p + k) (n - k)" for p
      using take_add[of k "n - k" "drop p mem"] that(1) by (simp add: region_def add.commute)
    then show ?thesis using that(2) chars_cmp_same_prefix by metis
  qed
  obtain k where k: "k \<le> n" "skip64 mem a b (a + n) = Inr (a + k, b + k)" "region mem a k = region mem b k"
    using skip64_is[OF assms(1,2)] by blast
  have bytes: "cmp_bytes_loop s mem (a + j) (b + j) (a + n) = Inr (chars_cmp s (region mem a n) (region mem b n))"
    if j: "j \<le> n" "region mem a j = region mem b j" for j
  proof -
    have "inside mem (a + j) (n - j)" "inside mem (b + j) (n - j)" using assms(1,2) j(1) by (simp_all add: inside_def)
    then show ?thesis using cmp_bytes_loop_is[of mem "a + j" "n - j" "b + j" s] rest[OF j] j(1) by simp
  qed
  show ?thesis
  proof (cases "k + 4 \<le> n")
    case True
    then have i: "inside mem (a + k) 4" "inside mem (b + k) 4" "inside mem a (k + 4)" "inside mem b (k + 4)"
      using assms(1,2) by (simp_all add: inside_def)
    obtain x y where l: "LOAD32 mem (a + k) = Inr x" "LOAD32 mem (b + k) = Inr y" "x = y \<longleftrightarrow> region mem (a + k) 4 = region mem (b + k) 4"
      using load32_eq[OF i(1,2)] by blast
    have "x = y \<longleftrightarrow> region mem a (k + 4) = region mem b (k + 4)" using region_join[OF i(3,4)] l(3) k(3) by simp
    then show ?thesis using k l(1,2) True assms(3) bytes[OF k(1,3)] bytes[OF True]
      by (simp add: fastmemcmp_inlined_def Let_def add.assoc)
  next
    case False
    then show ?thesis using k(2) assms(3) bytes[OF k(1,3)] by (simp add: fastmemcmp_inlined_def Let_def)
  qed
qed

text \<open>C40: the fast comparisons against the ones they replace. For two regions inside memory, which may overlap,
  \<open>memeq\<close> is true exactly when the regions are equal, and reads nothing outside them.
  \<open>fastmemcmp_inlined\<close> is zero exactly then. Its sign is that of \<open>memcmp\<close> where characters are unsigned or
  there are 64 bytes or more; where characters are signed it orders shorter regions by signed
  characters instead.\<close>

theorem fast_comparisons:
  assumes "inside mem a (unat n)" and "inside mem b (unat n)"
  shows "memeq mem a b n = Inr (region mem a (unat n) = region mem b (unat n)) \<and>
    (\<exists>d. fastmemcmp_inlined signed_char mem a b (unat n) = Inr d \<and>
       (d = 0 \<longleftrightarrow> region mem a (unat n) = region mem b (unat n)) \<and>
       (if signed_char \<and> unat n < 64 then d = chars_cmp True (region mem a (unat n)) (region mem b (unat n))
        else memcmp mem a b (unat n) = Inr (sgn d)))"
proof -
  let ?x = "region mem a (unat n)" and ?y = "region mem b (unat n)"
  have l: "length ?x = length ?y" using assms by (simp add: region_def inside_def)
  have m: "memcmp mem a b (unat n) = Inr (bytes_cmp ?x ?y)" using assms by (simp add: memcmp_def region_def)
  have s: "sgn (bytes_cmp ?x ?y) = bytes_cmp ?x ?y" by (rule bytes_cmp_sgn)
  show ?thesis
  proof (cases "unat n < 64")
    case True
    then show ?thesis using memeq_is[OF assms] fastmemcmp_short[OF assms True] chars_cmp_zero[OF l] chars_cmp_unsigned[OF l] m
      by (cases signed_char) simp_all
  next
    case False
    then show ?thesis using memeq_is[OF assms] m s bytes_cmp_zero[OF l] by (simp add: fastmemcmp_inlined_def)
  qed
qed

theorem fast_comparisons_witness:
  "memeq [1, 2, 3, 4, 5, 6, 7, 8, 9, 1, 2, 3, 4, 5, 6, 7, 8, 9] 0 9 9 = Inr True"
proof -
  have "memeq [1, 2, 3, 4, 5, 6, 7, 8, 9, 1, 2, 3, 4, 5, 6, 7, 8, 9] 0 9 9 =
      Inr (region [1, 2, 3, 4, 5, 6, 7, 8, 9, 1, 2, 3, 4, 5, 6, 7, 8, 9] 0 (unat (9 :: 64 word)) =
        region [1, 2, 3, 4, 5, 6, 7, 8, 9, 1, 2, 3, 4, 5, 6, 7, 8, 9] 9 (unat (9 :: 64 word)))"
    by (rule fast_comparisons[THEN conjunct1]) (simp_all add: inside_def)
  then show ?thesis by (simp add: region_def)
qed

text \<open>With signed characters two bytes are ordered one way alone and the other way in a longer region.\<close>

lemma fastmemcmp_inconsistent:
  "memcmp [0x80, 1] 0 1 1 = Inr 1" "fastmemcmp_inlined True [0x80, 1] 0 1 1 = Inr (- 129)"
proof -
  show "memcmp [0x80, 1] 0 1 1 = Inr 1" by (simp add: memcmp_def inside_def region_def)
  have "fastmemcmp_inlined True [0x80, 1] 0 1 1 = Inr (chars_cmp True (region [0x80, 1] 0 1) (region [0x80, 1] 1 1))"
    by (rule fastmemcmp_short) (simp_all add: inside_def)
  then show "fastmemcmp_inlined True [0x80, 1] 0 1 1 = Inr (- 129)" by (simp add: region_def char_val_def)
qed

end
