(* ===== verification/PbStringPiece.thy ===== *)
theory PbStringPiece
  imports PbMem "HOL-Library.Sublist"
begin

text \<open>
  Strings by reference: \<open>StringPiece\<close> of \<open>include/google/protobuf/stubs/stringpiece.h\<close>, a pointer into memory
  and a length. The searches and \<open>substr\<close> are compiled elsewhere. Shown: every operation is the one of
  the same name on the bytes the piece refers to, the comparisons a total order, and none reads
  outside.
\<close>

section \<open>The class\<close>

record StringPiece =
  sp_ptr :: "nat option"
  sp_length :: int

definition strlen_at :: "8 word list \<Rightarrow> nat \<Rightarrow> int run" where
  "strlen_at mem p = (if 0 \<in> set (drop p mem) then Inr (int (length (takeWhile (\<lambda>c. c \<noteq> 0) (drop p mem)))) else Inl OutOfBounds)"

text \<open>\<open>size\<close> is a \<open>size_t\<close>, the length a signed number of as many bits.\<close>

definition CheckedSsizeTFromSizeT :: "int \<Rightarrow> int run" where
  "CheckedSsizeTFromSizeT n = check (n \<le> 2 ^ 63 - 1) (Inr n)"

definition StringPiece_new :: StringPiece where
  "StringPiece_new = \<lparr>sp_ptr = None, sp_length = 0\<rparr>"

definition StringPiece_cstr :: "8 word list \<Rightarrow> nat option \<Rightarrow> StringPiece run" where
  "StringPiece_cstr mem str = (case str of None \<Rightarrow> Inr \<lparr>sp_ptr = None, sp_length = 0\<rparr>
     | Some p \<Rightarrow> bnd (strlen_at mem p) (\<lambda>n. bnd (CheckedSsizeTFromSizeT n) (\<lambda>n. Inr \<lparr>sp_ptr = Some p, sp_length = n\<rparr>)))"

text \<open>Of a \<open>std::string\<close> whose bytes are at \<open>p\<close>.\<close>

definition StringPiece_string :: "nat \<Rightarrow> int \<Rightarrow> StringPiece run" where
  "StringPiece_string p len = bnd (CheckedSsizeTFromSizeT len) (\<lambda>n. Inr \<lparr>sp_ptr = Some p, sp_length = n\<rparr>)"

definition StringPiece_at :: "nat option \<Rightarrow> int \<Rightarrow> StringPiece run" where
  "StringPiece_at offset len = check (len \<ge> 0) (Inr \<lparr>sp_ptr = offset, sp_length = len\<rparr>)"

definition sp_size :: "StringPiece \<Rightarrow> int" where
  "sp_size x = sp_length x"

definition sp_empty :: "StringPiece \<Rightarrow> bool" where
  "sp_empty x \<longleftrightarrow> sp_length x = 0"

definition sp_clear :: "StringPiece \<Rightarrow> StringPiece" where
  "sp_clear x = x\<lparr>sp_ptr := None, sp_length := 0\<rparr>"

definition sp_set :: "nat option \<Rightarrow> int \<Rightarrow> StringPiece \<Rightarrow> StringPiece run" where
  "sp_set data len x = check (len \<ge> 0) (Inr (x\<lparr>sp_ptr := data, sp_length := len\<rparr>))"

text \<open>The overload for \<open>void*\<close> has no assertion.\<close>

definition sp_set_data :: "nat option \<Rightarrow> int \<Rightarrow> StringPiece \<Rightarrow> StringPiece" where
  "sp_set_data data len x = x\<lparr>sp_ptr := data, sp_length := len\<rparr>"

definition sp_set_cstr :: "8 word list \<Rightarrow> nat option \<Rightarrow> StringPiece \<Rightarrow> StringPiece run" where
  "sp_set_cstr mem str x = (case str of None \<Rightarrow> Inr (x\<lparr>sp_ptr := None, sp_length := 0\<rparr>)
     | Some p \<Rightarrow> bnd (strlen_at mem p) (\<lambda>n. bnd (CheckedSsizeTFromSizeT n) (\<lambda>n. Inr (x\<lparr>sp_ptr := Some p, sp_length := n\<rparr>))))"

definition sp_nth :: "8 word list \<Rightarrow> int \<Rightarrow> StringPiece \<Rightarrow> 8 word run" where
  "sp_nth mem i x = check (0 \<le> i) (check (i < sp_length x) (case sp_ptr x of None \<Rightarrow> Inl NullDeref
     | Some p \<Rightarrow> read_at mem (int p + i)))"

text \<open>Moving a pointer; the null pointer may be moved by nothing only.\<close>

definition ptr_add :: "nat option \<Rightarrow> int \<Rightarrow> nat option run" where
  "ptr_add q n = (case q of None \<Rightarrow> if n = 0 then Inr None else Inl NullDeref
     | Some p \<Rightarrow> if 0 \<le> int p + n then Inr (Some (nat (int p + n))) else Inl OutOfBounds)"

definition remove_prefix :: "int \<Rightarrow> StringPiece \<Rightarrow> StringPiece run" where
  "remove_prefix n x = check (sp_length x \<ge> n)
     (bnd (ptr_add (sp_ptr x) n) (\<lambda>p. Inr (x\<lparr>sp_ptr := p, sp_length := sp_length x - n\<rparr>)))"

definition remove_suffix :: "int \<Rightarrow> StringPiece \<Rightarrow> StringPiece run" where
  "remove_suffix n x = check (sp_length x \<ge> n) (Inr (x\<lparr>sp_length := sp_length x - n\<rparr>))"

text \<open>\<open>memcmp\<close> of what two pointers point to.\<close>

definition memcmp_ptr :: "8 word list \<Rightarrow> nat option \<Rightarrow> nat option \<Rightarrow> int \<Rightarrow> int run" where
  "memcmp_ptr mem p q n = (if n < 0 then Inl OutOfBounds else if n = 0 then Inr 0
     else case (p, q) of (Some a, Some b) \<Rightarrow> memcmp mem a b (nat n) | _ \<Rightarrow> Inl NullDeref)"

definition sp_compare :: "8 word list \<Rightarrow> StringPiece \<Rightarrow> StringPiece \<Rightarrow> int run" where
  "sp_compare mem x y =
    (let min_size = (if sp_length x < sp_length y then sp_length x else sp_length y) in
     bnd (memcmp_ptr mem (sp_ptr x) (sp_ptr y) min_size) (\<lambda>r.
       if r < 0 then Inr (-1) else if r > 0 then Inr 1
       else if sp_length x < sp_length y then Inr (-1)
       else if sp_length x > sp_length y then Inr 1 else Inr 0))"

definition ToString :: "8 word list \<Rightarrow> StringPiece \<Rightarrow> 8 word list run" where
  "ToString mem x = (case sp_ptr x of None \<Rightarrow> Inr []
     | Some p \<Rightarrow> if 0 \<le> sp_length x \<and> inside mem p (nat (sp_length x)) then Inr (region mem p (nat (sp_length x))) else Inl OutOfBounds)"

definition as_string :: "8 word list \<Rightarrow> StringPiece \<Rightarrow> 8 word list run" where
  "as_string mem x = ToString mem x"

definition starts_with :: "8 word list \<Rightarrow> StringPiece \<Rightarrow> StringPiece \<Rightarrow> bool run" where
  "starts_with mem x y = (if sp_length x \<ge> sp_length y
     then bnd (memcmp_ptr mem (sp_ptr x) (sp_ptr y) (sp_length y)) (\<lambda>r. Inr (r = 0)) else Inr False)"

definition ends_with :: "8 word list \<Rightarrow> StringPiece \<Rightarrow> StringPiece \<Rightarrow> bool run" where
  "ends_with mem x y = (if sp_length x \<ge> sp_length y
     then bnd (ptr_add (sp_ptr x) (sp_length x - sp_length y)) (\<lambda>p.
       bnd (memcmp_ptr mem p (sp_ptr y) (sp_length y)) (\<lambda>r. Inr (r = 0))) else Inr False)"

definition sp_equal :: "8 word list \<Rightarrow> StringPiece \<Rightarrow> StringPiece \<Rightarrow> bool run" where
  "sp_equal mem x y =
    (let len = sp_size x in
     if len \<noteq> sp_size y then Inr False
     else if sp_ptr x = sp_ptr y \<or> len \<le> 0 then Inr True
     else bnd (memcmp_ptr mem (sp_ptr x) (sp_ptr y) len) (\<lambda>r. Inr (r = 0)))"

definition sp_not_equal :: "8 word list \<Rightarrow> StringPiece \<Rightarrow> StringPiece \<Rightarrow> bool run" where
  "sp_not_equal mem x y = bnd (sp_equal mem x y) (\<lambda>r. Inr (\<not> r))"

definition sp_less :: "8 word list \<Rightarrow> StringPiece \<Rightarrow> StringPiece \<Rightarrow> bool run" where
  "sp_less mem x y =
    (let min_size = (if sp_size x < sp_size y then sp_size x else sp_size y) in
     bnd (memcmp_ptr mem (sp_ptr x) (sp_ptr y) min_size) (\<lambda>r. Inr (r < 0 \<or> (r = 0 \<and> sp_size x < sp_size y))))"

definition sp_greater :: "8 word list \<Rightarrow> StringPiece \<Rightarrow> StringPiece \<Rightarrow> bool run" where
  "sp_greater mem x y = sp_less mem y x"

definition sp_less_eq :: "8 word list \<Rightarrow> StringPiece \<Rightarrow> StringPiece \<Rightarrow> bool run" where
  "sp_less_eq mem x y = bnd (sp_greater mem x y) (\<lambda>r. Inr (\<not> r))"

definition sp_greater_eq :: "8 word list \<Rightarrow> StringPiece \<Rightarrow> StringPiece \<Rightarrow> bool run" where
  "sp_greater_eq mem x y = bnd (sp_less mem x y) (\<lambda>r. Inr (\<not> r))"

section \<open>The bytes of a piece\<close>

definition sp_bytes :: "8 word list \<Rightarrow> StringPiece \<Rightarrow> 8 word list" where
  "sp_bytes mem x = (case sp_ptr x of None \<Rightarrow> [] | Some p \<Rightarrow> region mem p (nat (sp_length x)))"

definition sp_ok :: "8 word list \<Rightarrow> StringPiece \<Rightarrow> bool" where
  "sp_ok mem x \<longleftrightarrow> 0 \<le> sp_length x \<and> (case sp_ptr x of None \<Rightarrow> sp_length x = 0 | Some p \<Rightarrow> inside mem p (nat (sp_length x)))"

lemma sp_cases:
  assumes "sp_ok mem x"
  obtains (none) "sp_ptr x = None" "sp_length x = 0" "sp_bytes mem x = []"
    | (some) p n where "sp_ptr x = Some p" "sp_length x = int n" "inside mem p n" "sp_bytes mem x = region mem p n" "length (sp_bytes mem x) = n"
proof (cases "sp_ptr x")
  case None
  then show ?thesis using assms none by (simp add: sp_ok_def sp_bytes_def)
next
  case (Some p)
  then have "inside mem p (nat (sp_length x))" "0 \<le> sp_length x" using assms by (simp_all add: sp_ok_def)
  then show ?thesis using some[of p "nat (sp_length x)"] Some by (simp add: sp_bytes_def region_def inside_def)
qed

lemma sp_length_bytes: "sp_ok mem x \<Longrightarrow> sp_length x = int (length (sp_bytes mem x))"
  by (erule sp_cases) simp_all

lemma take_region: "k \<le> n \<Longrightarrow> region mem p k = take k (region mem p n)"
  by (simp add: region_def min_def)

lemma drop_region: "k \<le> n \<Longrightarrow> region mem (p + k) (n - k) = drop k (region mem p n)"
  by (simp add: region_def drop_take add.commute)

lemma memcmp_ptr_is:
  assumes "sp_ok mem x" and "sp_ok mem y" and "n \<le> length (sp_bytes mem x)" and "n \<le> length (sp_bytes mem y)"
  shows "memcmp_ptr mem (sp_ptr x) (sp_ptr y) (int n) = Inr (bytes_cmp (take n (sp_bytes mem x)) (take n (sp_bytes mem y)))"
proof (cases "n = 0")
  case True
  then show ?thesis by (simp add: memcmp_ptr_def)
next
  case False
  from assms(1) show ?thesis
  proof (cases rule: sp_cases)
    case x: (some p k)
    from assms(2) show ?thesis
    proof (cases rule: sp_cases)
      case y: (some q l)
      have "inside mem p n" "inside mem q n" using x y assms(3,4) by (simp_all add: inside_def)
      then show ?thesis using x y assms(3,4) False take_region[of n k mem p] take_region[of n l mem q]
        by (simp add: memcmp_ptr_def memcmp_def)
    qed (use False assms(4) in simp)
  qed (use False assms(3) in simp)
qed

lemma bytes_cmp_lex: "ord_class.lexordp xs ys \<longleftrightarrow> bytes_cmp xs ys < 0 \<or> bytes_cmp xs ys = 0 \<and> length xs < length ys"
  by (induction xs ys rule: bytes_cmp.induct) (auto simp: not_less_iff_gr_or_eq)

lemma bytes_cmp_take: "n = min (length xs) (length ys) \<Longrightarrow> bytes_cmp (take n xs) (take n ys) = bytes_cmp xs ys"
  by (induction xs ys arbitrary: n rule: bytes_cmp.induct) auto
lemma min_length:
  assumes "sp_ok mem x" and "sp_ok mem y"
  shows "memcmp_ptr mem (sp_ptr x) (sp_ptr y) (if sp_length x < sp_length y then sp_length x else sp_length y) =
    Inr (bytes_cmp (sp_bytes mem x) (sp_bytes mem y))"
proof -
  let ?m = "min (length (sp_bytes mem x)) (length (sp_bytes mem y))"
  have "(if sp_length x < sp_length y then sp_length x else sp_length y) = int ?m"
    using sp_length_bytes[OF assms(1)] sp_length_bytes[OF assms(2)] by simp
  then show ?thesis using memcmp_ptr_is[OF assms, of ?m] bytes_cmp_take[OF refl] by simp
qed

lemma sp_less_is:
  assumes "sp_ok mem x" and "sp_ok mem y"
  shows "sp_less mem x y = Inr (ord_class.lexordp (sp_bytes mem x) (sp_bytes mem y))"
  unfolding sp_less_def Let_def sp_size_def min_length[OF assms]
  using sp_length_bytes[OF assms(1)] sp_length_bytes[OF assms(2)] by (simp add: bytes_cmp_lex)

lemma sp_compare_is:
  assumes "sp_ok mem x" and "sp_ok mem y"
  shows "sp_compare mem x y = Inr (if sp_bytes mem x = sp_bytes mem y then 0
    else if ord_class.lexordp (sp_bytes mem x) (sp_bytes mem y) then -1 else 1)"
proof -
  have self: "bytes_cmp xs xs = 0" for xs by (induction xs) simp_all
  show ?thesis
    using min_length[OF assms] sp_length_bytes[OF assms(1)] sp_length_bytes[OF assms(2)] self[of "sp_bytes mem y"]
      bytes_cmp_zero[of "sp_bytes mem x" "sp_bytes mem y"] bytes_cmp_lex[of "sp_bytes mem x" "sp_bytes mem y"]
    by (auto simp: sp_compare_def Let_def)
qed

lemma sp_equal_is:
  assumes "sp_ok mem x" and "sp_ok mem y"
  shows "sp_equal mem x y = Inr (sp_bytes mem x = sp_bytes mem y)"
proof -
  let ?x = "sp_bytes mem x" and ?y = "sp_bytes mem y"
  note l = sp_length_bytes[OF assms(1)] sp_length_bytes[OF assms(2)]
  show ?thesis
  proof (cases "length ?x = length ?y \<and> sp_ptr x \<noteq> sp_ptr y \<and> ?x \<noteq> []")
    case True
    moreover from this have "?y \<noteq> []" by auto
    ultimately show ?thesis using memcmp_ptr_is[OF assms, of "length ?x"] l bytes_cmp_zero[of ?x ?y]
      by (simp add: sp_equal_def sp_size_def)
  next
    case False
    moreover have "?x = ?y" if e: "sp_ptr x = sp_ptr y" "length ?x = length ?y"
    proof -
      have "sp_length x = sp_length y" unfolding l e(2) by (rule refl)
      then show ?thesis using e(1) by (simp add: sp_bytes_def split: option.split)
    qed
    ultimately show ?thesis using l by (auto simp: sp_equal_def sp_size_def Let_def)
  qed
qed

lemma starts_with_is:
  assumes "sp_ok mem x" and "sp_ok mem y"
  shows "starts_with mem x y = Inr (prefix (sp_bytes mem y) (sp_bytes mem x))"
proof (cases "length (sp_bytes mem y) \<le> length (sp_bytes mem x)")
  case True
  let ?n = "length (sp_bytes mem y)"
  have "prefix (sp_bytes mem y) (sp_bytes mem x) \<longleftrightarrow> take ?n (sp_bytes mem x) = sp_bytes mem y"
    by (auto simp: prefix_def) (metis append_take_drop_id)
  then show ?thesis using memcmp_ptr_is[OF assms, of ?n] sp_length_bytes[OF assms(1)] sp_length_bytes[OF assms(2)] True
      bytes_cmp_zero[of "take ?n (sp_bytes mem x)" "sp_bytes mem y"]
    by (simp add: starts_with_def)
next
  case False
  then have "\<not> prefix (sp_bytes mem y) (sp_bytes mem x)" using prefix_length_le by blast
  then show ?thesis using sp_length_bytes[OF assms(1)] sp_length_bytes[OF assms(2)] False by (simp add: starts_with_def)
qed

text \<open>The piece without its first \<open>k\<close> bytes.\<close>

lemma ptr_add_drop:
  assumes "sp_ok mem x" and "k \<le> length (sp_bytes mem x)"
  shows "\<exists>p. ptr_add (sp_ptr x) (int k) = Inr p \<and> sp_ok mem (x\<lparr>sp_ptr := p, sp_length := sp_length x - int k\<rparr>) \<and>
    sp_bytes mem (x\<lparr>sp_ptr := p, sp_length := sp_length x - int k\<rparr>) = drop k (sp_bytes mem x)"
  using assms(1)
proof (cases rule: sp_cases)
  case none
  then show ?thesis using assms(2) by (simp add: ptr_add_def sp_ok_def sp_bytes_def)
next
  case (some p n)
  have n: "nat (int n - int k) = n - k" "nat (int p + int k) = p + k" by linarith+
  show ?thesis using some assms(2) drop_region[of k n mem p]
    by (simp add: ptr_add_def sp_ok_def sp_bytes_def n inside_def)
qed

lemma ends_with_is:
  assumes "sp_ok mem x" and "sp_ok mem y"
  shows "ends_with mem x y = Inr (suffix (sp_bytes mem y) (sp_bytes mem x))"
proof (cases "length (sp_bytes mem y) \<le> length (sp_bytes mem x)")
  case True
  let ?n = "length (sp_bytes mem y)"
  let ?k = "length (sp_bytes mem x) - ?n"
  obtain p where p: "ptr_add (sp_ptr x) (int ?k) = Inr p" "sp_ok mem (x\<lparr>sp_ptr := p, sp_length := sp_length x - int ?k\<rparr>)"
      "sp_bytes mem (x\<lparr>sp_ptr := p, sp_length := sp_length x - int ?k\<rparr>) = drop ?k (sp_bytes mem x)"
    using ptr_add_drop[OF assms(1), of ?k] by auto
  have l: "length (drop ?k (sp_bytes mem x)) = ?n" using True by simp
  have "memcmp_ptr mem p (sp_ptr y) (int ?n) = Inr (bytes_cmp (drop ?k (sp_bytes mem x)) (sp_bytes mem y))"
    using memcmp_ptr_is[OF p(2) assms(2), of ?n] p(3) l by simp
  moreover have "suffix (sp_bytes mem y) (sp_bytes mem x) \<longleftrightarrow> drop ?k (sp_bytes mem x) = sp_bytes mem y"
    using True by (auto simp: suffix_def) (metis append_take_drop_id)
  moreover have "sp_length x - sp_length y = int ?k" using sp_length_bytes[OF assms(1)] sp_length_bytes[OF assms(2)] True by simp
  ultimately show ?thesis using p(1) sp_length_bytes[OF assms(1)] sp_length_bytes[OF assms(2)] True bytes_cmp_zero[OF l]
    by (simp add: ends_with_def)
next
  case False
  then have "\<not> suffix (sp_bytes mem y) (sp_bytes mem x)" using suffix_length_le by blast
  then show ?thesis using sp_length_bytes[OF assms(1)] sp_length_bytes[OF assms(2)] False by (simp add: ends_with_def)
qed
lemma sp_nth_is:
  assumes "sp_ok mem x"
  shows "sp_nth mem i x = (if 0 \<le> i \<and> i < int (length (sp_bytes mem x)) then Inr (sp_bytes mem x ! nat i) else Inl CheckFailed)"
  using assms
proof (cases rule: sp_cases)
  case none
  then show ?thesis by (simp add: sp_nth_def check_def)
next
  case (some p n)
  have "nat (int p + i) = p + nat i" if "0 \<le> i" using that by linarith
  then show ?thesis using some by (auto simp: sp_nth_def check_def read_at_def inside_def region_def)
qed

lemma ToString_is: "sp_ok mem x \<Longrightarrow> ToString mem x = Inr (sp_bytes mem x)"
  by (erule sp_cases) (simp_all add: ToString_def)

lemma remove_prefix_is:
  assumes "sp_ok mem x" and "0 \<le> n" and "n \<le> sp_size x"
  shows "\<exists>x'. remove_prefix n x = Inr x' \<and> sp_ok mem x' \<and> sp_bytes mem x' = drop (nat n) (sp_bytes mem x)"
proof -
  have "nat n \<le> length (sp_bytes mem x)" using assms(2,3) sp_length_bytes[OF assms(1)] by (simp add: sp_size_def)
  from ptr_add_drop[OF assms(1) this] show ?thesis using assms(2,3) by (auto simp: remove_prefix_def check_def sp_size_def)
qed

lemma remove_suffix_is:
  assumes "sp_ok mem x" and "0 \<le> n" and "n \<le> sp_size x"
  shows "\<exists>x'. remove_suffix n x = Inr x' \<and> sp_ok mem x' \<and> sp_bytes mem x' = take (nat (sp_size x - n)) (sp_bytes mem x)"
  using assms(1)
proof (cases rule: sp_cases)
  case none
  then show ?thesis using assms(2,3) by (auto simp: remove_suffix_def check_def sp_size_def sp_ok_def sp_bytes_def)
next
  case (some p k)
  have "nat (int k - n) \<le> k" using assms(2) by linarith
  then show ?thesis using some assms(2,3) take_region[of "nat (int k - n)" k mem p]
    by (simp add: remove_suffix_def check_def sp_size_def sp_ok_def sp_bytes_def inside_def)
qed

text \<open>A string by reference is the bytes it refers to. Size and emptiness are theirs; the copy holds
  them; indexing, equality, order, prefix and suffix tests and the removal of a prefix or suffix give what
  they give on the bytes, compared as unsigned numbers; none of them reads outside memory, and an index
  out of range is caught by its assertion.\<close>

theorem StringPiece_is_its_bytes:
  assumes "sp_ok mem x" and "sp_ok mem y"
  shows "sp_size x = int (length (sp_bytes mem x)) \<and> (sp_empty x \<longleftrightarrow> sp_bytes mem x = []) \<and> as_string mem x = Inr (sp_bytes mem x) \<and>
    (\<forall>i. sp_nth mem i x = (if 0 \<le> i \<and> i < sp_size x then Inr (sp_bytes mem x ! nat i) else Inl CheckFailed)) \<and>
    sp_equal mem x y = Inr (sp_bytes mem x = sp_bytes mem y) \<and>
    sp_less mem x y = Inr (ord_class.lexordp (sp_bytes mem x) (sp_bytes mem y)) \<and>
    sp_compare mem x y = Inr (if sp_bytes mem x = sp_bytes mem y then 0
      else if ord_class.lexordp (sp_bytes mem x) (sp_bytes mem y) then -1 else 1) \<and>
    starts_with mem x y = Inr (prefix (sp_bytes mem y) (sp_bytes mem x)) \<and>
    ends_with mem x y = Inr (suffix (sp_bytes mem y) (sp_bytes mem x)) \<and>
    (\<forall>n. 0 \<le> n \<and> n \<le> sp_size x \<longrightarrow>
      (\<exists>x'. remove_prefix n x = Inr x' \<and> sp_ok mem x' \<and> sp_bytes mem x' = drop (nat n) (sp_bytes mem x)) \<and>
      (\<exists>x'. remove_suffix n x = Inr x' \<and> sp_ok mem x' \<and> sp_bytes mem x' = take (nat (sp_size x - n)) (sp_bytes mem x)))"
proof (intro conjI allI impI)
  show "sp_size x = int (length (sp_bytes mem x))" using sp_length_bytes[OF assms(1)] by (simp add: sp_size_def)
  show "sp_empty x \<longleftrightarrow> sp_bytes mem x = []" using sp_length_bytes[OF assms(1)] by (simp add: sp_empty_def)
  show "as_string mem x = Inr (sp_bytes mem x)" using ToString_is[OF assms(1)] by (simp add: as_string_def)
  show "sp_nth mem i x = (if 0 \<le> i \<and> i < sp_size x then Inr (sp_bytes mem x ! nat i) else Inl CheckFailed)" for i
    using sp_nth_is[OF assms(1), of i] sp_length_bytes[OF assms(1)] by (simp add: sp_size_def)
  show "\<exists>x'. remove_prefix n x = Inr x' \<and> sp_ok mem x' \<and> sp_bytes mem x' = drop (nat n) (sp_bytes mem x)"
    if "0 \<le> n \<and> n \<le> sp_size x" for n using remove_prefix_is[OF assms(1)] that by blast
  show "\<exists>x'. remove_suffix n x = Inr x' \<and> sp_ok mem x' \<and> sp_bytes mem x' = take (nat (sp_size x - n)) (sp_bytes mem x)"
    if "0 \<le> n \<and> n \<le> sp_size x" for n using remove_suffix_is[OF assms(1)] that by blast
qed (use sp_equal_is[OF assms] sp_less_is[OF assms] sp_compare_is[OF assms] starts_with_is[OF assms] ends_with_is[OF assms] in simp_all)

theorem StringPiece_is_its_bytes_witness:
  "sp_ok [7, 8, 9] \<lparr>sp_ptr = Some 0, sp_length = 3\<rparr> \<and>
   starts_with [7, 8, 9] \<lparr>sp_ptr = Some 0, sp_length = 3\<rparr> \<lparr>sp_ptr = Some 0, sp_length = 2\<rparr> = Inr True \<and>
   ends_with [7, 8, 9] \<lparr>sp_ptr = Some 0, sp_length = 3\<rparr> \<lparr>sp_ptr = Some 0, sp_length = 2\<rparr> = Inr False"
proof -
  let ?mem = "[7, 8, 9] :: 8 word list"
  have ok: "sp_ok ?mem \<lparr>sp_ptr = Some 0, sp_length = 3\<rparr>" "sp_ok ?mem \<lparr>sp_ptr = Some 0, sp_length = 2\<rparr>"
    by (simp_all add: sp_ok_def inside_def)
  have bytes: "sp_bytes ?mem \<lparr>sp_ptr = Some 0, sp_length = 3\<rparr> = [7, 8, 9]"
    "sp_bytes ?mem \<lparr>sp_ptr = Some 0, sp_length = 2\<rparr> = [7, 8]"
    by (simp_all add: sp_bytes_def region_def eval_nat_numeral)
  have "\<not> suffix [7, 8] ?mem" by (simp add: suffix_def append_eq_Cons_conv)
  then show ?thesis using StringPiece_is_its_bytes[OF ok] ok(1) unfolding bytes by simp
qed

end
