(* ===== verification/PbSharedPtr.thy ===== *)
theory PbSharedPtr
  imports PbHeap "HOL-Library.Word" "HOL-Library.Multiset"
begin

text \<open>
  Reference counting (\<open>include/google/protobuf/stubs/shared_ptr.h\<close>): \<open>shared_ptr\<close>, \<open>weak_ptr\<close> and the control
  block they share. First the operations as they run alone, then any number of pointers used by any number
  of threads at once, as a step relation in which an atomic operation on a counter, a \<open>delete\<close> and the
  read before a compare-and-swap are steps of their own. Shown for every interleaving: no deleted object
  or control block is used or deleted again, an object lives as long as a \<open>shared_ptr\<close> holds it,
  and nothing is left when no pointer is. In the interleavings one pointer object is used by one thread at a
  time (two threads calling the const \<open>lock()\<close> on one \<open>weak_ptr\<close> are left out) and atomic steps are sequentially
  consistent. \<open>enable_shared_from_this\<close> is left out.
\<close>

section \<open>Control blocks\<close>

record cblock =
  cb_refcount :: "32 word"
  cb_weak_count :: "32 word"

record rmem =
  rm_objs :: "unit heap"
  rm_blocks :: "cblock heap"

definition SharedPtrControlBlock_new :: cblock where
  "SharedPtrControlBlock_new = \<lparr>cb_refcount = 1, cb_weak_count = 1\<rparr>"

text \<open>\<open>RefCountInc\<close> and \<open>RefCountDec\<close> on the one counter and on the other: each is one atomic step.\<close>

definition with_block :: "nat option \<Rightarrow> (cblock \<Rightarrow> 'x \<times> cblock) \<Rightarrow> rmem \<Rightarrow> ('x \<times> rmem) run" where
  "with_block p f m = bnd (hp_read p (rm_blocks m)) (\<lambda>c. case f c of (x, c) \<Rightarrow>
     bnd (hp_write p c (rm_blocks m)) (\<lambda>h. Inr (x, m\<lparr>rm_blocks := h\<rparr>)))"

definition RefCountInc_refcount :: "nat option \<Rightarrow> rmem \<Rightarrow> rmem run" where
  "RefCountInc_refcount p m = bnd (with_block p (\<lambda>c. ((), c\<lparr>cb_refcount := cb_refcount c + 1\<rparr>)) m) (\<lambda>(_, m). Inr m)"

definition RefCountInc_weak :: "nat option \<Rightarrow> rmem \<Rightarrow> rmem run" where
  "RefCountInc_weak p m = bnd (with_block p (\<lambda>c. ((), c\<lparr>cb_weak_count := cb_weak_count c + 1\<rparr>)) m) (\<lambda>(_, m). Inr m)"

definition RefCountDec_refcount :: "nat option \<Rightarrow> rmem \<Rightarrow> (bool \<times> rmem) run" where
  "RefCountDec_refcount p m = with_block p (\<lambda>c. (cb_refcount c - 1 \<noteq> 0, c\<lparr>cb_refcount := cb_refcount c - 1\<rparr>)) m"

definition RefCountDec_weak :: "nat option \<Rightarrow> rmem \<Rightarrow> (bool \<times> rmem) run" where
  "RefCountDec_weak p m = with_block p (\<lambda>c. (cb_weak_count c - 1 \<noteq> 0, c\<lparr>cb_weak_count := cb_weak_count c - 1\<rparr>)) m"

definition refcount_of :: "nat option \<Rightarrow> rmem \<Rightarrow> 32 word run" where
  "refcount_of p m = bnd (hp_read p (rm_blocks m)) (\<lambda>c. Inr (cb_refcount c))"

definition delete_object :: "nat option \<Rightarrow> rmem \<Rightarrow> rmem run" where
  "delete_object p m = bnd (hp_delete p (rm_objs m)) (\<lambda>h. Inr (m\<lparr>rm_objs := h\<rparr>))"

definition delete_block :: "nat option \<Rightarrow> rmem \<Rightarrow> rmem run" where
  "delete_block p m = bnd (hp_delete p (rm_blocks m)) (\<lambda>h. Inr (m\<lparr>rm_blocks := h\<rparr>))"

section \<open>The pointers\<close>

record SharedPtr =
  sh_ptr :: "nat option"
  sh_block :: "nat option"

record WeakPtr =
  wk_ptr :: "nat option"
  wk_block :: "nat option"

definition shared_empty :: SharedPtr where
  "shared_empty = \<lparr>sh_ptr = None, sh_block = None\<rparr>"

text \<open>The constructor from a raw pointer.\<close>

definition shared_of :: "nat option \<Rightarrow> rmem \<Rightarrow> SharedPtr \<times> rmem" where
  "shared_of ptr m = (if ptr = None then (\<lparr>sh_ptr = ptr, sh_block = None\<rparr>, m)
     else case hp_new SharedPtrControlBlock_new (rm_blocks m) of (b, h) \<Rightarrow>
       (\<lparr>sh_ptr = ptr, sh_block = Some b\<rparr>, m\<lparr>rm_blocks := h\<rparr>))"

text \<open>\<open>Initialize\<close> and \<open>InitializeWithStaticCast\<close> of an empty pointer: the copy constructors.\<close>

definition shared_copy :: "SharedPtr \<Rightarrow> rmem \<Rightarrow> (SharedPtr \<times> rmem) run" where
  "shared_copy r m = (if sh_block r \<noteq> None
     then bnd (RefCountInc_refcount (sh_block r) m) (\<lambda>m. Inr (\<lparr>sh_ptr = sh_ptr r, sh_block = sh_block r\<rparr>, m))
     else Inr (shared_empty, m))"

definition shared_destroy :: "SharedPtr \<Rightarrow> rmem \<Rightarrow> rmem run" where
  "shared_destroy s m = (if sh_ptr s = None then Inr m
     else bnd (RefCountDec_refcount (sh_block s) m) (\<lambda>(more, m).
       if more then Inr m
       else bnd (delete_object (sh_ptr s) m) (\<lambda>m.
         bnd (RefCountDec_weak (sh_block s) m) (\<lambda>(more, m).
           if more then Inr m else delete_block (sh_block s) m))))"

definition shared_swap :: "SharedPtr \<Rightarrow> SharedPtr \<Rightarrow> SharedPtr \<times> SharedPtr" where
  "shared_swap s r = (\<lparr>sh_ptr = sh_ptr r, sh_block = sh_block r\<rparr>, \<lparr>sh_ptr = sh_ptr s, sh_block = sh_block s\<rparr>)"

definition shared_assign :: "SharedPtr \<Rightarrow> SharedPtr \<Rightarrow> rmem \<Rightarrow> (SharedPtr \<times> rmem) run" where
  "shared_assign s ptr m = (if sh_ptr s \<noteq> sh_ptr ptr
     then bnd (shared_copy ptr m) (\<lambda>(me, m). case shared_swap s me of (s, me) \<Rightarrow>
       bnd (shared_destroy me m) (\<lambda>m. Inr (s, m)))
     else Inr (s, m))"

definition shared_reset :: "SharedPtr \<Rightarrow> nat option \<Rightarrow> rmem \<Rightarrow> (SharedPtr \<times> rmem) run" where
  "shared_reset s p m = (if p \<noteq> sh_ptr s
     then (case shared_of p m of (tmp, m) \<Rightarrow> case shared_swap tmp s of (tmp, s) \<Rightarrow>
       bnd (shared_destroy tmp m) (\<lambda>m. Inr (s, m)))
     else Inr (s, m))"

definition shared_use_count :: "SharedPtr \<Rightarrow> rmem \<Rightarrow> int run" where
  "shared_use_count s m = (if sh_block s \<noteq> None then bnd (refcount_of (sh_block s) m) (\<lambda>n. Inr (sint n)) else Inr 1)"

definition shared_unique :: "SharedPtr \<Rightarrow> rmem \<Rightarrow> bool run" where
  "shared_unique s m = bnd (shared_use_count s m) (\<lambda>n. Inr (n = 1))"

definition weak_empty :: WeakPtr where
  "weak_empty = \<lparr>wk_ptr = None, wk_block = None\<rparr>"

text \<open>\<open>CopyFrom\<close>, and the constructors that call it.\<close>

definition weak_CopyFrom :: "nat option \<Rightarrow> nat option \<Rightarrow> rmem \<Rightarrow> (WeakPtr \<times> rmem) run" where
  "weak_CopyFrom ptr block m =
     bnd (if block \<noteq> None then RefCountInc_weak block m else Inr m) (\<lambda>m. Inr (\<lparr>wk_ptr = ptr, wk_block = block\<rparr>, m))"

definition weak_of :: "SharedPtr \<Rightarrow> rmem \<Rightarrow> (WeakPtr \<times> rmem) run" where
  "weak_of s m = weak_CopyFrom (sh_ptr s) (sh_block s) m"

definition weak_copy :: "WeakPtr \<Rightarrow> rmem \<Rightarrow> (WeakPtr \<times> rmem) run" where
  "weak_copy w m = weak_CopyFrom (wk_ptr w) (wk_block w) m"

definition weak_destroy :: "WeakPtr \<Rightarrow> rmem \<Rightarrow> rmem run" where
  "weak_destroy w m = (if wk_block w \<noteq> None
     then bnd (RefCountDec_weak (wk_block w) m) (\<lambda>(more, m). if \<not> more then delete_block (wk_block w) m else Inr m)
     else Inr m)"

definition weak_swap :: "WeakPtr \<Rightarrow> WeakPtr \<Rightarrow> WeakPtr \<times> WeakPtr" where
  "weak_swap w r = (\<lparr>wk_ptr = wk_ptr r, wk_block = wk_block r\<rparr>, \<lparr>wk_ptr = wk_ptr w, wk_block = wk_block w\<rparr>)"

text \<open>Assignment from another weak pointer, which may be this one, and from a shared one.\<close>

definition weak_assign :: "bool \<Rightarrow> WeakPtr \<Rightarrow> WeakPtr \<Rightarrow> rmem \<Rightarrow> (WeakPtr \<times> rmem) run" where
  "weak_assign this_one w ptr m = (if \<not> this_one
     then bnd (weak_copy ptr m) (\<lambda>(tmp, m). case weak_swap tmp w of (tmp, w) \<Rightarrow>
       bnd (weak_destroy tmp m) (\<lambda>m. Inr (w, m)))
     else Inr (w, m))"

definition weak_assign_shared :: "WeakPtr \<Rightarrow> SharedPtr \<Rightarrow> rmem \<Rightarrow> (WeakPtr \<times> rmem) run" where
  "weak_assign_shared w ptr m = bnd (weak_of ptr m) (\<lambda>(tmp, m). case weak_swap tmp w of (tmp, w) \<Rightarrow>
     bnd (weak_destroy tmp m) (\<lambda>m. Inr (w, m)))"

definition weak_reset :: "WeakPtr \<Rightarrow> rmem \<Rightarrow> (WeakPtr \<times> rmem) run" where
  "weak_reset w m = (case weak_swap weak_empty w of (tmp, w) \<Rightarrow> bnd (weak_destroy tmp m) (\<lambda>m. Inr (w, m)))"

definition weak_use_count :: "WeakPtr \<Rightarrow> rmem \<Rightarrow> int run" where
  "weak_use_count w m = (if wk_block w \<noteq> None then bnd (refcount_of (wk_block w) m) (\<lambda>n. Inr (sint n)) else Inr 0)"

definition weak_expired :: "WeakPtr \<Rightarrow> rmem \<Rightarrow> bool run" where
  "weak_expired w m = bnd (weak_use_count w m) (\<lambda>n. Inr (n = 0))"

text \<open>One turn of the loop of \<open>lock\<close>: reading the counter, and the compare-and-swap, which gives the value it
  found.\<close>

definition CompareAndSwap_refcount :: "nat option \<Rightarrow> 32 word \<Rightarrow> 32 word \<Rightarrow> rmem \<Rightarrow> (32 word \<times> rmem) run" where
  "CompareAndSwap_refcount p old new m =
     with_block p (\<lambda>c. (cb_refcount c, if cb_refcount c = old then c\<lparr>cb_refcount := new\<rparr> else c)) m"

definition lock_result :: "WeakPtr \<Rightarrow> 32 word \<Rightarrow> SharedPtr" where
  "lock_result w old = (if sint old > 0 then \<lparr>sh_ptr = wk_ptr w, sh_block = wk_block w\<rparr> else shared_empty)"

section \<open>Threads\<close>

text \<open>A pointer is at rest or in the middle of an operation: a \<open>shared_ptr\<close> whose destructor has brought the
  reference count to zero and has yet to delete the object, or to give up its share of the weak count; a
  control block that is to be deleted; a \<open>weak_ptr\<close> in the loop of \<open>lock\<close>, before it reads the counter and
  before it swaps. A thread may use any pointer that no other thread is using.\<close>

datatype agent =
    Shared SharedPtr
  | Weak WeakPtr
  | Dying SharedPtr
  | Unobserved SharedPtr
  | LastOf "nat option"
  | Reading WeakPtr
  | Swapping WeakPtr "32 word"

datatype act = Copying | Destroying | Observing | Locking | Going_on

fun act_on :: "act \<Rightarrow> agent \<Rightarrow> rmem \<Rightarrow> (agent list \<times> rmem) run option" where
  "act_on Copying (Shared s) m = Some (bnd (shared_copy s m) (\<lambda>(t, m). Inr ([Shared s, Shared t], m)))"
| "act_on Copying (Weak w) m = Some (bnd (weak_copy w m) (\<lambda>(v, m). Inr ([Weak w, Weak v], m)))"
| "act_on Observing (Shared s) m = Some (bnd (weak_of s m) (\<lambda>(w, m). Inr ([Shared s, Weak w], m)))"
| "act_on Destroying (Shared s) m = Some (if sh_ptr s = None then Inr ([], m)
     else bnd (RefCountDec_refcount (sh_block s) m) (\<lambda>(more, m). Inr (if more then [] else [Dying s], m)))"
| "act_on Going_on (Dying s) m = Some (bnd (delete_object (sh_ptr s) m) (\<lambda>m. Inr ([Unobserved s], m)))"
| "act_on Going_on (Unobserved s) m = Some (bnd (RefCountDec_weak (sh_block s) m) (\<lambda>(more, m).
     Inr (if more then [] else [LastOf (sh_block s)], m)))"
| "act_on Destroying (Weak w) m = Some (if wk_block w \<noteq> None
     then bnd (RefCountDec_weak (wk_block w) m) (\<lambda>(more, m). Inr (if \<not> more then [LastOf (wk_block w)] else [], m))
     else Inr ([], m))"
| "act_on Going_on (LastOf b) m = Some (bnd (delete_block b m) (\<lambda>m. Inr ([], m)))"
| "act_on Locking (Weak w) m = Some (Inr (if wk_block w \<noteq> None then [Reading w] else [Weak w, Shared shared_empty], m))"
| "act_on Going_on (Reading w) m = Some (bnd (refcount_of (wk_block w) m) (\<lambda>old.
     Inr (if old = 0 then [Weak w, Shared (lock_result w old)] else [Swapping w old], m)))"
| "act_on Going_on (Swapping w old) m = Some (bnd (CompareAndSwap_refcount (wk_block w) old (old + 1) m) (\<lambda>(found, m).
     Inr (if old \<noteq> found then [Reading w] else [Weak w, Shared (lock_result w old)], m)))"
| "act_on _ _ m = None"

text \<open>The states that can be reached: a thread makes a new object with its first \<open>shared_ptr\<close> or an empty
  pointer, or one of the pointers takes a step. There are never \<open>2 ^ 31\<close> pointers at once.\<close>

definition new_shared :: "rmem \<Rightarrow> SharedPtr \<times> rmem" where
  "new_shared m = (case hp_new () (rm_objs m) of (p, h) \<Rightarrow> shared_of (Some p) (m\<lparr>rm_objs := h\<rparr>))"

inductive reach :: "agent multiset \<Rightarrow> rmem \<Rightarrow> bool" where
  start: "reach {#} \<lparr>rm_objs = hp_empty, rm_blocks = hp_empty\<rparr>"
| new: "reach A m \<Longrightarrow> new_shared m = (s, m') \<Longrightarrow> size A < 2 ^ 31 - 1 \<Longrightarrow> reach (add_mset (Shared s) A) m'"
| empty_shared: "reach A m \<Longrightarrow> size A < 2 ^ 31 - 1 \<Longrightarrow> reach (add_mset (Shared shared_empty) A) m"
| empty_weak: "reach A m \<Longrightarrow> size A < 2 ^ 31 - 1 \<Longrightarrow> reach (add_mset (Weak weak_empty) A) m"
| act: "reach (add_mset a A) m \<Longrightarrow> act_on x a m = Some (Inr (as, m')) \<Longrightarrow> size A < 2 ^ 31 - 2 \<Longrightarrow> reach (mset as + A) m'"
section \<open>What the counters count\<close>

definition strong :: "nat \<Rightarrow> agent \<Rightarrow> bool" where
  "strong b a \<longleftrightarrow> (case a of Shared s \<Rightarrow> sh_block s = Some b | _ \<Rightarrow> False)"

definition observer :: "nat \<Rightarrow> agent \<Rightarrow> bool" where
  "observer b a \<longleftrightarrow> (case a of Weak w \<Rightarrow> wk_block w = Some b | Reading w \<Rightarrow> wk_block w = Some b
     | Swapping w _ \<Rightarrow> wk_block w = Some b | _ \<Rightarrow> False)"

definition dying :: "nat \<Rightarrow> agent \<Rightarrow> bool" where
  "dying b a \<longleftrightarrow> (case a of Dying s \<Rightarrow> sh_block s = Some b | _ \<Rightarrow> False)"

definition unobserved :: "nat \<Rightarrow> agent \<Rightarrow> bool" where
  "unobserved b a \<longleftrightarrow> (case a of Unobserved s \<Rightarrow> sh_block s = Some b | _ \<Rightarrow> False)"

definition last_of :: "nat \<Rightarrow> agent \<Rightarrow> bool" where
  "last_of b a \<longleftrightarrow> (case a of LastOf p \<Rightarrow> p = Some b | _ \<Rightarrow> False)"

lemmas role_defs = strong_def observer_def dying_def unobserved_def last_of_def

definition number :: "(agent \<Rightarrow> bool) \<Rightarrow> agent multiset \<Rightarrow> nat" where
  "number P A = size (filter_mset P A)"

lemma number_simps [simp]: "number P {#} = 0" "number P (add_mset a A) = of_bool (P a) + number P A"
  "number P (A + B) = number P A + number P B"
  by (simp_all add: number_def)

lemma number_le: "number P A \<le> size A"
  by (simp add: number_def size_filter_mset_lesseq)

text \<open>A control block's counters: the reference count is the number of shared pointers; the weak count the
  number of weak ones, and one more as long as there is a shared one or one that has not given up its
  share. The object is there until the last shared pointer has deleted it.\<close>

definition block_ok :: "nat \<Rightarrow> agent multiset \<Rightarrow> cblock option \<Rightarrow> bool \<Rightarrow> bool" where
  "block_ok b A c alive \<longleftrightarrow>
    (let s = number (strong b) A; w = number (observer b) A; d = number (dying b) A; e = number (unobserved b) A;
         l = number (last_of b) A in
     case c of None \<Rightarrow> s = 0 \<and> w = 0 \<and> d = 0 \<and> e = 0 \<and> l = 0
     | Some c \<Rightarrow> cb_refcount c = of_nat s \<and> cb_weak_count c = of_nat (w + (if 0 < s then 1 else d + e)) \<and>
         (0 < s \<longrightarrow> d = 0 \<and> e = 0) \<and> d + e \<le> 1 \<and> l \<le> 1 \<and> (0 < l \<longrightarrow> s = 0 \<and> w = 0 \<and> d = 0 \<and> e = 0) \<and>
         0 < s + w + d + e + l \<and> (alive \<longleftrightarrow> 0 < s \<or> 0 < d))"

text \<open>\<open>ob\<close> is the object of each block.\<close>

definition shared_ok :: "(nat \<Rightarrow> nat) \<Rightarrow> SharedPtr \<Rightarrow> bool" where
  "shared_ok ob s \<longleftrightarrow> sh_ptr s = map_option ob (sh_block s)"

definition weak_ok :: "(nat \<Rightarrow> nat) \<Rightarrow> WeakPtr \<Rightarrow> bool" where
  "weak_ok ob w \<longleftrightarrow> wk_ptr w = map_option ob (wk_block w)"

fun agent_ok :: "(nat \<Rightarrow> nat) \<Rightarrow> agent \<Rightarrow> bool" where
  "agent_ok ob (Shared s) \<longleftrightarrow> shared_ok ob s"
| "agent_ok ob (Weak w) \<longleftrightarrow> weak_ok ob w"
| "agent_ok ob (Dying s) \<longleftrightarrow> shared_ok ob s \<and> sh_block s \<noteq> None"
| "agent_ok ob (Unobserved s) \<longleftrightarrow> shared_ok ob s \<and> sh_block s \<noteq> None"
| "agent_ok ob (LastOf b) \<longleftrightarrow> b \<noteq> None"
| "agent_ok ob (Reading w) \<longleftrightarrow> weak_ok ob w \<and> wk_block w \<noteq> None"
| "agent_ok ob (Swapping w old) \<longleftrightarrow> weak_ok ob w \<and> wk_block w \<noteq> None \<and> old \<noteq> 0"

definition refs_ok :: "(nat \<Rightarrow> nat) \<Rightarrow> agent multiset \<Rightarrow> rmem \<Rightarrow> bool" where
  "refs_ok ob A m \<longleftrightarrow> (\<forall>b. block_ok b A (hp_cells (rm_blocks m) b) (ob b \<in> live (rm_objs m))) \<and>
     (\<forall>a \<in># A. agent_ok ob a) \<and> inj_on ob (live (rm_blocks m)) \<and> (\<forall>b \<in> live (rm_blocks m). ob b < hp_next (rm_objs m)) \<and>
     live (rm_objs m) \<subseteq> ob ` live (rm_blocks m) \<and> (\<forall>b \<in> live (rm_blocks m). b < hp_next (rm_blocks m)) \<and>
     (\<forall>p \<in> live (rm_objs m). p < hp_next (rm_objs m))"

text \<open>A step that changes one block only.\<close>

lemma refs_ok_block:
  assumes "refs_ok ob A m" and "hp_cells (rm_blocks m) b = Some c" and "\<forall>b'. b' \<noteq> b \<longrightarrow>
      number (strong b') A' = number (strong b') A \<and> number (observer b') A' = number (observer b') A \<and>
      number (dying b') A' = number (dying b') A \<and> number (unobserved b') A' = number (unobserved b') A \<and>
      number (last_of b') A' = number (last_of b') A"
    and "\<forall>a \<in># A'. agent_ok ob a" and "block_ok b A' (Some c') (ob b \<in> live (rm_objs m))"
  shows "refs_ok ob A' (m\<lparr>rm_blocks := (rm_blocks m)\<lparr>hp_cells := (hp_cells (rm_blocks m))(b := Some c')\<rparr>\<rparr>)"
proof -
  have l: "live ((rm_blocks m)\<lparr>hp_cells := (hp_cells (rm_blocks m))(b := Some c')\<rparr>) = live (rm_blocks m)"
    using assms(2) by (auto simp: live_def)
  have "block_ok b' A' (hp_cells (rm_blocks m) b') (ob b' \<in> live (rm_objs m))" if "b' \<noteq> b" for b'
    using assms(1,3) that by (simp add: refs_ok_def block_ok_def)
  then show ?thesis using assms(1,4,5) unfolding refs_ok_def by (simp add: l)
qed

lemma with_block_is:
  "hp_cells (rm_blocks m) b = Some c \<Longrightarrow> f c = (x, c') \<Longrightarrow>
   with_block (Some b) f m = Inr (x, m\<lparr>rm_blocks := (rm_blocks m)\<lparr>hp_cells := (hp_cells (rm_blocks m))(b := Some c')\<rparr>\<rparr>)"
  by (simp add: with_block_def hp_read_def hp_write_def)
lemma refs_ok_same:
  assumes "refs_ok ob A m" and "\<forall>b. number (strong b) A' = number (strong b) A \<and> number (observer b) A' = number (observer b) A \<and>
      number (dying b) A' = number (dying b) A \<and> number (unobserved b) A' = number (unobserved b) A \<and>
      number (last_of b) A' = number (last_of b) A"
    and "\<forall>a \<in># A'. agent_ok ob a"
  shows "refs_ok ob A' m"
  using assms by (simp add: refs_ok_def block_ok_def)

lemma word_pred: "0 < n \<Longrightarrow> (of_nat n :: 32 word) - 1 = of_nat (n - 1)"
  by (simp add: of_nat_diff)

lemma word_zero: "n < 2 ^ 32 \<Longrightarrow> (of_nat n :: 32 word) = 0 \<longleftrightarrow> n = 0"
  by (simp add: word_unat_eq_iff unat_of_nat take_bit_nat_eq_self)

text \<open>A pointer in use keeps its block.\<close>

lemma block_there:
  assumes "refs_ok ob (add_mset a A) m" and "strong b a \<or> observer b a \<or> dying b a \<or> unobserved b a \<or> last_of b a"
  obtains c where "hp_cells (rm_blocks m) b = Some c" "block_ok b (add_mset a A) (Some c) (ob b \<in> live (rm_objs m))"
proof (cases "hp_cells (rm_blocks m) b")
  case None
  then have "block_ok b (add_mset a A) None (ob b \<in> live (rm_objs m))" using assms(1) by (simp add: refs_ok_def) metis
  then show ?thesis using assms(2) by (auto simp: block_ok_def Let_def)
next
  case (Some c)
  then show ?thesis using that[of c] assms(1) by (simp add: refs_ok_def) metis
qed

definition steps_to :: "(nat \<Rightarrow> nat) \<Rightarrow> agent multiset \<Rightarrow> (agent list \<times> rmem) run \<Rightarrow> bool" where
  "steps_to ob A r \<longleftrightarrow> (\<exists>as m'. r = Inr (as, m') \<and> refs_ok ob (mset as + A) m')"

lemma copy_shared_step:
  assumes "refs_ok ob (add_mset (Shared s) A) m"
  shows "steps_to ob A (bnd (shared_copy s m) (\<lambda>(t, m). Inr ([Shared s, Shared t], m)))"
proof (cases "sh_block s")
  case None
  have "refs_ok ob (mset [Shared s, Shared shared_empty] + A) m"
    by (rule refs_ok_same[OF assms])
      (use assms in \<open>auto simp: role_defs shared_empty_def refs_ok_def shared_ok_def\<close>)
  then show ?thesis using None by (simp add: shared_copy_def steps_to_def)
next
  case (Some b)
  obtain c where c: "hp_cells (rm_blocks m) b = Some c" "block_ok b (add_mset (Shared s) A) (Some c) (ob b \<in> live (rm_objs m))"
    using block_there[OF assms, of b] Some by (auto simp: strong_def)
  let ?t = "\<lparr>sh_ptr = sh_ptr s, sh_block = sh_block s\<rparr>"
  let ?c = "c\<lparr>cb_refcount := cb_refcount c + 1\<rparr>"
  have "refs_ok ob (mset [Shared s, Shared ?t] + A) (m\<lparr>rm_blocks := (rm_blocks m)\<lparr>hp_cells := (hp_cells (rm_blocks m))(b := Some ?c)\<rparr>\<rparr>)"
  proof (rule refs_ok_block[OF assms c(1)])
    show "block_ok b (mset [Shared s, Shared ?t] + A) (Some ?c) (ob b \<in> live (rm_objs m))"
      using c(2) Some by (simp add: block_ok_def Let_def role_defs)
  qed (use assms Some in \<open>auto simp: role_defs refs_ok_def shared_ok_def\<close>)
  then show ?thesis using Some c(1)
    by (simp add: shared_copy_def RefCountInc_refcount_def with_block_is steps_to_def)
qed
text \<open>Two more of the same kind: a weak pointer made from a shared or a weak one.\<close>

lemma copy_weak_step:
  assumes "refs_ok ob (add_mset a A) m" and "a = Weak w \<or> a = Shared s \<and> sh_ptr s = wk_ptr w \<and> sh_block s = wk_block w"
  shows "steps_to ob A (bnd (weak_CopyFrom (wk_ptr w) (wk_block w) m) (\<lambda>(v, m). Inr ([a, Weak v], m)))"
proof (cases "wk_block w")
  case None
  have "refs_ok ob (mset [a, Weak \<lparr>wk_ptr = wk_ptr w, wk_block = wk_block w\<rparr>] + A) m"
    by (rule refs_ok_same[OF assms(1)])
      (use assms None in \<open>auto simp: role_defs refs_ok_def shared_ok_def weak_ok_def\<close>)
  then show ?thesis using None by (simp add: weak_CopyFrom_def steps_to_def)
next
  case (Some b)
  have role: "strong b a \<or> observer b a \<or> dying b a \<or> unobserved b a \<or> last_of b a"
    using Some assms(2) by (auto simp: role_defs)
  obtain c where c: "hp_cells (rm_blocks m) b = Some c" "block_ok b (add_mset a A) (Some c) (ob b \<in> live (rm_objs m))"
    by (rule block_there[OF assms(1) role])
  let ?v = "\<lparr>wk_ptr = wk_ptr w, wk_block = wk_block w\<rparr>"
  let ?c = "c\<lparr>cb_weak_count := cb_weak_count c + 1\<rparr>"
  have "refs_ok ob (mset [a, Weak ?v] + A) (m\<lparr>rm_blocks := (rm_blocks m)\<lparr>hp_cells := (hp_cells (rm_blocks m))(b := Some ?c)\<rparr>\<rparr>)"
  proof (rule refs_ok_block[OF assms(1) c(1)])
    show "block_ok b (mset [a, Weak ?v] + A) (Some ?c) (ob b \<in> live (rm_objs m))"
      using assms(2)
    proof (elim disjE conjE)
      assume "a = Weak w"
      then show ?thesis using c(2) Some by (simp add: block_ok_def Let_def role_defs)
    next
      assume "a = Shared s" "sh_block s = wk_block w"
      then show ?thesis using c(2) Some by (simp add: block_ok_def Let_def role_defs)
    qed
  qed (use assms Some in \<open>auto simp: role_defs refs_ok_def shared_ok_def weak_ok_def\<close>)
  then show ?thesis using Some c(1)
    by (simp add: weak_CopyFrom_def RefCountInc_weak_def with_block_is steps_to_def)
qed

lemma destroy_shared_step:
  assumes "refs_ok ob (add_mset (Shared s) A) m" and "size A < 2 ^ 31"
  shows "steps_to ob A (if sh_ptr s = None then Inr ([], m)
     else bnd (RefCountDec_refcount (sh_block s) m) (\<lambda>(more, m). Inr (if more then [] else [Dying s], m)))"
proof (cases "sh_block s")
  case None
  have "sh_ptr s = None" using assms(1) None by (auto simp: refs_ok_def shared_ok_def)
  moreover have "refs_ok ob A m"
    by (rule refs_ok_same[OF assms(1)]) (use assms(1) None in \<open>auto simp: role_defs refs_ok_def\<close>)
  ultimately show ?thesis by (simp add: steps_to_def)
next
  case (Some b)
  obtain c where c: "hp_cells (rm_blocks m) b = Some c" "block_ok b (add_mset (Shared s) A) (Some c) (ob b \<in> live (rm_objs m))"
    using block_there[OF assms(1), of b] Some by (auto simp: strong_def)
  have ptr: "sh_ptr s \<noteq> None" using assms(1) Some by (auto simp: refs_ok_def shared_ok_def)
  let ?n = "number (strong b) A"
  let ?c = "c\<lparr>cb_refcount := cb_refcount c - 1\<rparr>"
  let ?m = "m\<lparr>rm_blocks := (rm_blocks m)\<lparr>hp_cells := (hp_cells (rm_blocks m))(b := Some ?c)\<rparr>\<rparr>"
  have n: "cb_refcount c - 1 = of_nat ?n" using c(2) Some by (simp add: block_ok_def Let_def role_defs)
  have "?n < 2 ^ 32" using number_le[of "strong b" A] assms(2) by simp
  then have zero: "cb_refcount c - 1 = 0 \<longleftrightarrow> ?n = 0" unfolding n by (rule word_zero)
  let ?as = "if ?n = 0 then [Dying s] else []"
  have "refs_ok ob (mset ?as + A) ?m"
  proof (rule refs_ok_block[OF assms(1) c(1)])
    show "block_ok b (mset ?as + A) (Some ?c) (ob b \<in> live (rm_objs m))"
      using c(2) Some n by (cases "?n = 0") (auto simp: block_ok_def Let_def role_defs)
  qed (use assms(1) Some in \<open>auto simp: role_defs refs_ok_def\<close>)
  moreover have "RefCountDec_refcount (sh_block s) m = Inr (?n \<noteq> 0, ?m)"
    using Some c(1) zero by (simp add: RefCountDec_refcount_def with_block_is)
  ultimately show ?thesis using ptr by (auto simp: steps_to_def)
qed

text \<open>A share of the weak count is given up, by a weak pointer or by the last shared one.\<close>

lemma drop_weak_step:
  assumes "refs_ok ob (add_mset a A) m" and "size A < 2 ^ 31"
    and "(\<exists>w. a = Weak w \<and> wk_block w = Some b) \<or> (\<exists>s. a = Unobserved s \<and> sh_block s = Some b)"
  shows "\<exists>more m'. RefCountDec_weak (Some b) m = Inr (more, m') \<and> refs_ok ob (mset (if more then [] else [LastOf (Some b)]) + A) m'"
proof -
  have role: "strong b a \<or> observer b a \<or> dying b a \<or> unobserved b a \<or> last_of b a"
    using assms(3) by (auto simp: role_defs)
  obtain c where c: "hp_cells (rm_blocks m) b = Some c" "block_ok b (add_mset a A) (Some c) (ob b \<in> live (rm_objs m))"
    by (rule block_there[OF assms(1) role])
  let ?n = "number (observer b) A + (if 0 < number (strong b) A then 1 else number (dying b) A + number (unobserved b) A)"
  let ?c = "c\<lparr>cb_weak_count := cb_weak_count c - 1\<rparr>"
  let ?m = "m\<lparr>rm_blocks := (rm_blocks m)\<lparr>hp_cells := (hp_cells (rm_blocks m))(b := Some ?c)\<rparr>\<rparr>"
  have n: "cb_weak_count c - 1 = of_nat ?n" using assms(3)
  proof (elim disjE exE conjE)
    fix w assume "a = Weak w" "wk_block w = Some b"
    then show ?thesis using c(2) by (simp add: block_ok_def Let_def role_defs)
  next
    fix s assume "a = Unobserved s" "sh_block s = Some b"
    then show ?thesis using c(2) by (simp add: block_ok_def Let_def role_defs)
  qed
  have "number (observer b) A + number (dying b) A + number (unobserved b) A \<le> size A + size A + size A"
    using number_le[of _ A] by (intro add_mono) simp_all
  moreover have "number (observer b) A \<le> size A" by (rule number_le)
  moreover have "number (dying b) A + number (unobserved b) A \<le> 1" if "number (strong b) A = 0"
    using c(2) by (simp add: block_ok_def Let_def)
  ultimately have "?n < 2 ^ 32" using assms(2) by auto
  then have zero: "cb_weak_count c - 1 = 0 \<longleftrightarrow> ?n = 0" unfolding n by (rule word_zero)
  let ?as = "if ?n \<noteq> 0 then [] else [LastOf (Some b)]"
  have "refs_ok ob (mset ?as + A) ?m"
  proof (rule refs_ok_block[OF assms(1) c(1)])
    show "block_ok b (mset ?as + A) (Some ?c) (ob b \<in> live (rm_objs m))"
      using assms(3)
    proof (elim disjE exE conjE)
      fix w assume "a = Weak w" "wk_block w = Some b"
      then show ?thesis using c(2) n by (cases "?n = 0") (simp_all add: block_ok_def Let_def role_defs split: if_splits)
    next
      fix s assume "a = Unobserved s" "sh_block s = Some b"
      then show ?thesis using c(2) n by (cases "?n = 0") (simp_all add: block_ok_def Let_def role_defs split: if_splits)
    qed
  qed (use assms(1,3) in \<open>auto simp: role_defs refs_ok_def\<close>)
  moreover have "RefCountDec_weak (Some b) m = Inr (?n \<noteq> 0, ?m)"
    using c(1) zero by (simp add: RefCountDec_weak_def with_block_is)
  ultimately show ?thesis by blast
qed
text \<open>The object is deleted, by the only one that may, and the block.\<close>

lemma delete_object_step:
  assumes "refs_ok ob (add_mset (Dying s) A) m"
  shows "steps_to ob A (bnd (delete_object (sh_ptr s) m) (\<lambda>m. Inr ([Unobserved s], m)))"
proof -
  obtain b where b: "sh_block s = Some b" "sh_ptr s = Some (ob b)" using assms by (auto simp: refs_ok_def shared_ok_def)
  have role: "strong b (Dying s) \<or> observer b (Dying s) \<or> dying b (Dying s) \<or> unobserved b (Dying s) \<or> last_of b (Dying s)"
    using b by (simp add: role_defs)
  obtain c where c: "hp_cells (rm_blocks m) b = Some c" "block_ok b (add_mset (Dying s) A) (Some c) (ob b \<in> live (rm_objs m))"
    by (rule block_there[OF assms role])
  have alive: "ob b \<in> live (rm_objs m)" using c(2) b by (simp add: block_ok_def Let_def role_defs)
  then obtain h where h: "hp_delete (Some (ob b)) (rm_objs m) = Inr h" "live h = live (rm_objs m) - {ob b}" "hp_next h = hp_next (rm_objs m)"
    by (auto simp: in_live hp_delete_def live_def)
  have other: "ob b' \<in> live h \<longleftrightarrow> ob b' \<in> live (rm_objs m)" if "b' \<noteq> b" "b' \<in> live (rm_blocks m)" for b'
  proof -
    have "inj_on ob (live (rm_blocks m))" "b \<in> live (rm_blocks m)" using assms c(1) by (auto simp: refs_ok_def in_live)
    then show ?thesis using that h(2) by (auto dest: inj_onD)
  qed
  have "block_ok b' (add_mset (Unobserved s) A) (hp_cells (rm_blocks m) b') (ob b' \<in> live h)" for b'
  proof (cases "b' = b")
    case True
    then show ?thesis using c b h(2) by (simp add: block_ok_def Let_def role_defs)
  next
    case False
    have "block_ok b' (add_mset (Dying s) A) (hp_cells (rm_blocks m) b') (ob b' \<in> live (rm_objs m))" using assms by (simp add: refs_ok_def)
    then show ?thesis using False b other[OF False]
      by (cases "hp_cells (rm_blocks m) b'") (simp_all add: block_ok_def Let_def role_defs in_live)
  qed
  moreover have "live h \<subseteq> ob ` live (rm_blocks m)" "\<forall>p \<in> live h. p < hp_next h" using assms h by (auto simp: refs_ok_def)
  ultimately have "refs_ok ob (add_mset (Unobserved s) A) (m\<lparr>rm_objs := h\<rparr>)"
    using assms h(3) by (simp add: refs_ok_def)
  then show ?thesis using b h(1) by (simp add: steps_to_def delete_object_def)
qed

lemma delete_block_step:
  assumes "refs_ok ob (add_mset (LastOf p) A) m"
  shows "steps_to ob A (bnd (delete_block p m) (\<lambda>m. Inr ([], m)))"
proof -
  obtain b where b: "p = Some b" using assms by (auto simp: refs_ok_def)
  have role: "strong b (LastOf p) \<or> observer b (LastOf p) \<or> dying b (LastOf p) \<or> unobserved b (LastOf p) \<or> last_of b (LastOf p)"
    using b by (simp add: role_defs)
  obtain c where c: "hp_cells (rm_blocks m) b = Some c" "block_ok b (add_mset (LastOf p) A) (Some c) (ob b \<in> live (rm_objs m))"
    by (rule block_there[OF assms role])
  let ?h = "(rm_blocks m)\<lparr>hp_cells := (hp_cells (rm_blocks m))(b := None)\<rparr>"
  have l: "live ?h = live (rm_blocks m) - {b}" by (auto simp: live_def)
  have dead: "ob b \<notin> live (rm_objs m)" "block_ok b A None x" for x
    using c(2) b by (simp_all add: block_ok_def Let_def role_defs)
  have "block_ok b' A (hp_cells ?h b') (ob b' \<in> live (rm_objs m))" for b'
  proof (cases "b' = b")
    case False
    have "block_ok b' (add_mset (LastOf p) A) (hp_cells (rm_blocks m) b') (ob b' \<in> live (rm_objs m))" using assms by (simp add: refs_ok_def)
    then show ?thesis using False b by (simp add: block_ok_def Let_def role_defs)
  qed (use dead in simp)
  moreover have "live (rm_objs m) \<subseteq> ob ` (live (rm_blocks m) - {b})" using assms dead(1) by (auto simp: refs_ok_def)
  moreover have "inj_on ob (live (rm_blocks m) - {b})" using assms by (auto simp: refs_ok_def inj_on_def)
  ultimately have "refs_ok ob A (m\<lparr>rm_blocks := ?h\<rparr>)" using assms unfolding refs_ok_def by (simp add: l)
  moreover have "delete_block p m = Inr (m\<lparr>rm_blocks := ?h\<rparr>)" using b c(1) by (simp add: delete_block_def hp_delete_def)
  ultimately show ?thesis by (simp add: steps_to_def)
qed

text \<open>The steps of \<open>lock\<close>.\<close>

lemma read_step:
  assumes "refs_ok ob (add_mset (Reading w) A) m" and "size A < 2 ^ 31"
  shows "steps_to ob A (bnd (refcount_of (wk_block w) m) (\<lambda>old.
     Inr (if old = 0 then [Weak w, Shared (lock_result w old)] else [Swapping w old], m)))"
proof -
  obtain b where b: "wk_block w = Some b" using assms(1) by (auto simp: refs_ok_def)
  have role: "strong b (Reading w) \<or> observer b (Reading w) \<or> dying b (Reading w) \<or> unobserved b (Reading w) \<or> last_of b (Reading w)"
    using b by (simp add: role_defs)
  obtain c where c: "hp_cells (rm_blocks m) b = Some c" "block_ok b (add_mset (Reading w) A) (Some c) (ob b \<in> live (rm_objs m))"
    by (rule block_there[OF assms(1) role])
  have "refs_ok ob (mset (if cb_refcount c = 0 then [Weak w, Shared (lock_result w (cb_refcount c))] else [Swapping w (cb_refcount c)]) + A) m"
    by (rule refs_ok_same[OF assms(1)])
      (use assms(1) in \<open>auto simp: role_defs refs_ok_def lock_result_def shared_empty_def shared_ok_def\<close>)
  then show ?thesis using b c(1) by (simp add: steps_to_def refcount_of_def)
qed

lemma swap_step:
  assumes "refs_ok ob (add_mset (Swapping w old) A) m" and "size A < 2 ^ 31 - 1"
  shows "steps_to ob A (bnd (CompareAndSwap_refcount (wk_block w) old (old + 1) m) (\<lambda>(found, m).
     Inr (if old \<noteq> found then [Reading w] else [Weak w, Shared (lock_result w old)], m)))"
proof -
  let ?a = "Swapping w old"
  obtain b where b: "wk_block w = Some b" "wk_ptr w = Some (ob b)" "old \<noteq> 0" using assms(1) by (auto simp: refs_ok_def weak_ok_def)
  have role: "strong b ?a \<or> observer b ?a \<or> dying b ?a \<or> unobserved b ?a \<or> last_of b ?a"
    using b by (simp add: role_defs)
  obtain c where c: "hp_cells (rm_blocks m) b = Some c" "block_ok b (add_mset ?a A) (Some c) (ob b \<in> live (rm_objs m))"
    by (rule block_there[OF assms(1) role])
  show ?thesis
  proof (cases "cb_refcount c = old")
    case False
    have "(hp_cells (rm_blocks m))(b := Some c) = hp_cells (rm_blocks m)" using c(1) by auto
    then have "CompareAndSwap_refcount (wk_block w) old (old + 1) m = Inr (cb_refcount c, m)"
      using b c(1) False by (simp add: CompareAndSwap_refcount_def with_block_is)
    moreover have "refs_ok ob (mset [Reading w] + A) m"
      by (rule refs_ok_same[OF assms(1)]) (use assms(1) in \<open>auto simp: role_defs refs_ok_def\<close>)
    ultimately show ?thesis using False by (simp add: steps_to_def)
  next
    case True
    let ?n = "number (strong b) A"
    let ?c = "c\<lparr>cb_refcount := old + 1\<rparr>"
    let ?m = "m\<lparr>rm_blocks := (rm_blocks m)\<lparr>hp_cells := (hp_cells (rm_blocks m))(b := Some ?c)\<rparr>\<rparr>"
    have n: "old = of_nat ?n" using c(2) True by (simp add: block_ok_def Let_def role_defs)
    then have pos: "0 < ?n" using b(3) by (cases ?n) simp_all
    have "?n < 2 ^ 31" using number_le[of "strong b" A] assms(2) by simp
    then have "sint old = int ?n" unfolding n by (simp add: signed_of_nat signed_take_bit_int_eq_self)
    then have res: "lock_result w old = \<lparr>sh_ptr = wk_ptr w, sh_block = wk_block w\<rparr>" using pos by (simp add: lock_result_def)
    have "refs_ok ob (mset [Weak w, Shared (lock_result w old)] + A) ?m"
    proof (rule refs_ok_block[OF assms(1) c(1)])
      show "block_ok b (mset [Weak w, Shared (lock_result w old)] + A) (Some ?c) (ob b \<in> live (rm_objs m))"
        using c(2) b n pos unfolding res by (simp add: block_ok_def Let_def role_defs)
    qed (use assms(1) b in \<open>auto simp: role_defs refs_ok_def res shared_ok_def\<close>)
    moreover have "CompareAndSwap_refcount (wk_block w) old (old + 1) m = Inr (old, ?m)"
      using b c(1) True by (simp add: CompareAndSwap_refcount_def with_block_is)
    ultimately show ?thesis by (simp add: steps_to_def)
  qed
qed
lemma act_step:
  assumes "refs_ok ob (add_mset a A) m" and "size A < 2 ^ 31 - 1" and "act_on x a m = Some r"
  shows "steps_to ob A r"
proof -
  have sz: "size A < 2 ^ 31" using assms(2) by simp
  show ?thesis
  proof (cases a)
    case (Shared s)
    have r: "refs_ok ob (add_mset (Shared s) A) m" using assms(1) Shared by simp
    note weak = copy_weak_step[where w = "\<lparr>wk_ptr = sh_ptr s, wk_block = sh_block s\<rparr>" and a = "Shared s" and s = s, OF r]
    show ?thesis using assms(3) Shared copy_shared_step[OF r] destroy_shared_step[OF r sz] weak
      by (cases x) (auto simp: weak_of_def)
  next
    case (Weak w)
    have r: "refs_ok ob (add_mset (Weak w) A) m" using assms(1) Weak by simp
    have idle: "refs_ok ob (mset (if wk_block w \<noteq> None then [Reading w] else [Weak w, Shared shared_empty]) + A) m"
      by (rule refs_ok_same[OF r]) (use r in \<open>auto simp: role_defs refs_ok_def shared_empty_def shared_ok_def\<close>)
    have drop: "steps_to ob A (if wk_block w \<noteq> None
       then bnd (RefCountDec_weak (wk_block w) m) (\<lambda>(more, m). Inr (if \<not> more then [LastOf (wk_block w)] else [], m)) else Inr ([], m))"
    proof (cases "wk_block w")
      case None
      have "refs_ok ob A m" by (rule refs_ok_same[OF r]) (use r None in \<open>auto simp: role_defs refs_ok_def\<close>)
      then show ?thesis using None by (simp add: steps_to_def)
    next
      case (Some b)
      then show ?thesis using drop_weak_step[OF r sz, of b] by (auto simp: steps_to_def)
    qed
    show ?thesis using assms(3) Weak idle drop copy_weak_step[where w = w and a = "Weak w", OF r]
      by (cases x) (auto simp: weak_copy_def steps_to_def)
  next
    case (Unobserved s)
    have r: "refs_ok ob (add_mset (Unobserved s) A) m" using assms(1) Unobserved by simp
    then obtain b where b: "sh_block s = Some b" by (auto simp: refs_ok_def)
    show ?thesis using assms(3) Unobserved drop_weak_step[OF r sz, of b] b by (cases x) (auto simp: steps_to_def)
  next
    case (Dying s)
    then show ?thesis using assms delete_object_step[of ob s A m] by (cases x) auto
  next
    case (LastOf b)
    then show ?thesis using assms delete_block_step[of ob b A m] by (cases x) auto
  next
    case (Reading w)
    then show ?thesis using assms read_step[of ob w A m] sz by (cases x) auto
  next
    case (Swapping w old)
    then show ?thesis using assms swap_step[of ob w old A m] by (cases x) auto
  qed
qed

lemma number_none: "number P A = 0 \<Longrightarrow> a \<in># A \<Longrightarrow> \<not> P a"
  by (auto simp: number_def)

text \<open>A new object with its first shared pointer.\<close>

lemma new_step:
  assumes "refs_ok ob A m" and "new_shared m = (s, m')"
  shows "\<exists>ob. refs_ok ob (add_mset (Shared s) A) m'"
proof -
  let ?p = "hp_next (rm_objs m)" and ?b = "hp_next (rm_blocks m)"
  let ?ob = "ob(?b := ?p)"
  have s: "s = \<lparr>sh_ptr = Some ?p, sh_block = Some ?b\<rparr>"
    and m': "hp_cells (rm_blocks m') = (hp_cells (rm_blocks m))(?b := Some SharedPtrControlBlock_new)"
      "live (rm_objs m') = insert ?p (live (rm_objs m))" "hp_next (rm_blocks m') = Suc ?b" "hp_next (rm_objs m') = Suc ?p"
      "live (rm_blocks m') = insert ?b (live (rm_blocks m))"
    using assms(2) by (auto simp: new_shared_def shared_of_def hp_new_def live_def split: if_splits)
  have fresh: "?b \<notin> live (rm_blocks m)" "?p \<notin> live (rm_objs m)" using assms(1) by (auto simp: refs_ok_def)
  then have "hp_cells (rm_blocks m) ?b = None" by (simp add: live_def domIff)
  then have "block_ok ?b A None (ob ?b \<in> live (rm_objs m))" using assms(1) unfolding refs_ok_def by metis
  then have zero: "number (strong ?b) A = 0" "number (observer ?b) A = 0" "number (dying ?b) A = 0"
      "number (unobserved ?b) A = 0" "number (last_of ?b) A = 0" by (simp_all add: block_ok_def Let_def)
  have "block_ok b (add_mset (Shared s) A) (hp_cells (rm_blocks m') b) (?ob b \<in> live (rm_objs m'))" for b
  proof (cases "b = ?b")
    case True
    then show ?thesis using zero by (simp add: block_ok_def Let_def role_defs s m' SharedPtrControlBlock_new_def)
  next
    case False
    have "block_ok b A (hp_cells (rm_blocks m) b) (ob b \<in> live (rm_objs m))" using assms(1) by (simp add: refs_ok_def)
    moreover have "ob b \<noteq> ?p" if "hp_cells (rm_blocks m) b \<noteq> None"
    proof -
      have "b \<in> live (rm_blocks m)" using that by (simp add: live_def domIff)
      then have "ob b < ?p" using assms(1) by (simp add: refs_ok_def)
      then show ?thesis by simp
    qed
    ultimately show ?thesis using False
      by (cases "hp_cells (rm_blocks m) b") (simp_all add: block_ok_def Let_def role_defs s m')
  qed
  moreover have "agent_ok ?ob a" if "a \<in># A" for a
  proof -
    have "\<not> strong ?b a" "\<not> observer ?b a" "\<not> dying ?b a" "\<not> unobserved ?b a"
      using number_none[OF _ that] zero by blast+
    moreover have "agent_ok ob a" using assms(1) that by (simp add: refs_ok_def)
    moreover have "map_option ?ob p = map_option ob p" if "p \<noteq> Some ?b" for p using that by (cases p) auto
    ultimately show ?thesis by (cases a) (simp_all add: role_defs shared_ok_def weak_ok_def)
  qed
  moreover have "agent_ok ?ob (Shared s)" by (simp add: s shared_ok_def)
  moreover have old: "?ob b = ob b" if "b \<in> live (rm_blocks m)" for b using that fresh(1) by auto
  then have img: "?ob ` live (rm_blocks m) = ob ` live (rm_blocks m)" by (rule image_cong[OF refl])
  moreover have "inj_on ?ob (live (rm_blocks m'))"
  proof -
    have "inj_on ob (live (rm_blocks m))" "?p \<notin> ob ` live (rm_blocks m)" using assms(1) by (force simp: refs_ok_def)+
    then show ?thesis unfolding m'(5) inj_on_insert using img old inj_on_cong[of "live (rm_blocks m)" ?ob ob] fresh(1) by simp
  qed
  moreover have "live (rm_objs m') \<subseteq> ?ob ` live (rm_blocks m')"
  proof -
    have "live (rm_objs m) \<subseteq> ?ob ` live (rm_blocks m)" unfolding img using assms(1) by (simp add: refs_ok_def)
    then show ?thesis unfolding m'(2,5) by auto
  qed
  moreover have "\<forall>b \<in> live (rm_blocks m'). ?ob b < hp_next (rm_objs m') \<and> b < hp_next (rm_blocks m')"
    using assms(1) unfolding m'(3-5) by (auto simp: refs_ok_def less_Suc_eq)
  moreover have "\<forall>p \<in> live (rm_objs m'). p < hp_next (rm_objs m')"
    using assms(1) unfolding m'(2,4) by (auto simp: refs_ok_def less_Suc_eq)
  ultimately show ?thesis by (intro exI[of _ ?ob]) (simp add: refs_ok_def)
qed
section \<open>Every interleaving\<close>

lemma size_bound: "reach A m \<Longrightarrow> size A < 2 ^ 31"
proof (induction rule: reach.induct)
  case (act a A m x as m')
  have "length as \<le> 2" if "act_on x a m = Some (Inr (as, m'))" for x and a :: agent and m m' as
    using that by (cases x; cases a) (auto simp: bnd_eq_Inr split: if_splits)
  from this[OF act.hyps(2)] show ?case using act.hyps(3) by simp
qed simp_all

lemma reach_refs: "reach A m \<Longrightarrow> \<exists>ob. refs_ok ob A m"
proof (induction rule: reach.induct)
  case start
  show ?case by (simp add: refs_ok_def block_ok_def hp_empty_def live_def)
next
  case (new A m s m')
  then show ?case using new_step by blast
next
  case (empty_shared A m)
  then obtain ob where r: "refs_ok ob A m" by blast
  have "refs_ok ob (add_mset (Shared shared_empty) A) m"
    by (rule refs_ok_same[OF r]) (use r in \<open>auto simp: role_defs refs_ok_def shared_empty_def shared_ok_def\<close>)
  then show ?case by blast
next
  case (empty_weak A m)
  then obtain ob where r: "refs_ok ob A m" by blast
  have "refs_ok ob (add_mset (Weak weak_empty) A) m"
    by (rule refs_ok_same[OF r]) (use r in \<open>auto simp: role_defs refs_ok_def weak_empty_def weak_ok_def\<close>)
  then show ?case by blast
next
  case (act a A m x as m')
  then obtain ob where "refs_ok ob (add_mset a A) m" by blast
  then have "steps_to ob A (Inr (as, m'))" using act_step[of ob a A m x "Inr (as, m')"] act.hyps(2,3) by simp
  then show ?case by (auto simp: steps_to_def)
qed

text \<open>C39: reference counting under threads. In every state that any interleaving of the pointers' steps can reach:
  no step of any pointer uses or deletes something that is gone; the object that a \<open>shared_ptr\<close> names is
  there, and \<open>use_count\<close> is the number of shared pointers that share it; and when no pointer is left, every
  object and every control block has been deleted.\<close>

theorem shared_ptr_interleavings:
  assumes "reach A m"
  shows "(\<forall>a x r. a \<in># A \<and> act_on x a m = Some r \<longrightarrow> safe r) \<and>
    (\<forall>s. Shared s \<in># A \<and> sh_block s \<noteq> None \<longrightarrow>
       (\<exists>p. sh_ptr s = Some p \<and> p \<in> live (rm_objs m)) \<and>
       shared_use_count s m = Inr (int (size {#a \<in># A. \<exists>t. a = Shared t \<and> sh_block t = sh_block s#}))) \<and>
    (A = {#} \<longrightarrow> live (rm_objs m) = {} \<and> live (rm_blocks m) = {})"
proof (intro conjI allI impI)
  obtain ob where r: "refs_ok ob A m" using reach_refs[OF assms] by blast
  note sz = size_bound[OF assms]
  show "safe r" if h: "a \<in># A \<and> act_on x a m = Some r" for a x r
  proof -
    obtain B where B: "A = add_mset a B" using h by (auto dest: multi_member_split)
    then show ?thesis using act_step[of ob a B m x r] r sz h by (auto simp: steps_to_def)
  qed
  fix s assume s: "Shared s \<in># A \<and> sh_block s \<noteq> None"
  then obtain b B where b: "sh_block s = Some b" "A = add_mset (Shared s) B" by (auto dest: multi_member_split)
  have role: "strong b (Shared s) \<or> observer b (Shared s) \<or> dying b (Shared s) \<or> unobserved b (Shared s) \<or> last_of b (Shared s)"
    using b by (simp add: strong_def)
  obtain c where c: "hp_cells (rm_blocks m) b = Some c" "block_ok b A (Some c) (ob b \<in> live (rm_objs m))"
    using block_there[OF r[unfolded b(2)] role] b(2) by blast
  have pos: "0 < number (strong b) A" using b by (simp add: strong_def)
  show "\<exists>p. sh_ptr s = Some p \<and> p \<in> live (rm_objs m)"
    using c(2) pos r s b by (auto simp: block_ok_def Let_def refs_ok_def shared_ok_def)
  have n: "cb_refcount c = of_nat (number (strong b) A)" using c(2) by (simp add: block_ok_def Let_def)
  have "number (strong b) A < 2 ^ 31" using number_le[of "strong b" A] sz by simp
  then have "sint (cb_refcount c) = int (number (strong b) A)" unfolding n by (simp add: signed_of_nat signed_take_bit_int_eq_self)
  moreover have "strong b = (\<lambda>a. \<exists>t. a = Shared t \<and> sh_block t = sh_block s)"
    using b(1) by (auto simp: strong_def fun_eq_iff split: agent.splits)
  ultimately show "shared_use_count s m = Inr (int (size {#a \<in># A. \<exists>t. a = Shared t \<and> sh_block t = sh_block s#}))"
    using b(1) c(1) by (simp add: shared_use_count_def refcount_of_def number_def)
next
  obtain ob where r: "refs_ok ob A m" using reach_refs[OF assms] by blast
  assume A: "A = {#}"
  have "hp_cells (rm_blocks m) b = None" for b
  proof -
    have "block_ok b {#} (hp_cells (rm_blocks m) b) (ob b \<in> live (rm_objs m))" using r A by (simp add: refs_ok_def)
    then show ?thesis by (cases "hp_cells (rm_blocks m) b") (simp_all add: block_ok_def)
  qed
  then show "live (rm_blocks m) = {}" by (auto simp: live_def)
  then show "live (rm_objs m) = {}" using r by (auto simp: refs_ok_def)
qed
theorem shared_ptr_interleavings_witness:
  "\<exists>s m. reach {#Shared s#} m \<and> sh_block s = Some 0 \<and> shared_use_count s m = Inr 1 \<and>
     (\<exists>r. act_on Destroying (Shared s) m = Some r \<and> safe r)"
proof -
  let ?m0 = "\<lparr>rm_objs = hp_empty, rm_blocks = hp_empty\<rparr>"
  obtain s m where n: "new_shared ?m0 = (s, m)" by fastforce
  have r: "reach {#Shared s#} m" by (rule reach.new[OF reach.start n]) simp
  have b: "sh_block s = Some 0" using n by (auto simp: new_shared_def shared_of_def hp_new_def hp_empty_def)
  have "{#a \<in># {#Shared s#}. \<exists>t. a = Shared t \<and> sh_block t = sh_block s#} = {#Shared s#}" by simp
  then have "shared_use_count s m = Inr 1" using shared_ptr_interleavings[OF r] b by simp
  moreover obtain d where d: "act_on Destroying (Shared s) m = Some d" by simp
  moreover have "safe d" using conjunct1[OF shared_ptr_interleavings[OF r], rule_format, of "Shared s" Destroying d] d by simp
  ultimately show ?thesis using r b by blast
qed

section \<open>The operations alone\<close>

lemma shared_destroy_ok:
  assumes "refs_ok ob (add_mset (Shared s) A) m" and "size A < 2 ^ 31 - 1"
  shows "\<exists>m'. shared_destroy s m = Inr m' \<and> refs_ok ob A m'"
proof -
  have sz: "size A < 2 ^ 31" using assms(2) by simp
  have d: "steps_to ob A (if sh_ptr s = None then Inr ([], m)
     else bnd (RefCountDec_refcount (sh_block s) m) (\<lambda>(more, m). Inr (if more then [] else [Dying s], m)))"
    by (rule destroy_shared_step[OF assms(1) sz])
  show ?thesis
  proof (cases "sh_ptr s")
    case None
    then show ?thesis using d by (simp add: steps_to_def shared_destroy_def)
  next
    case (Some p)
    then obtain more m1 where m1: "RefCountDec_refcount (sh_block s) m = Inr (more, m1)"
        "refs_ok ob (mset (if more then [] else [Dying s]) + A) m1"
      using d by (auto simp: steps_to_def bnd_eq_Inr)
    show ?thesis
    proof (cases more)
      case True
      then show ?thesis using m1 Some by (simp add: shared_destroy_def)
    next
      case False
      then have r1: "refs_ok ob (add_mset (Dying s) A) m1" using m1(2) by simp
      obtain m2 where m2: "delete_object (sh_ptr s) m1 = Inr m2" "refs_ok ob (add_mset (Unobserved s) A) m2"
        using delete_object_step[OF r1] by (auto simp: steps_to_def bnd_eq_Inr)
      obtain b where b: "sh_block s = Some b" using r1 by (auto simp: refs_ok_def)
      obtain more2 m3 where m3: "RefCountDec_weak (sh_block s) m2 = Inr (more2, m3)"
          "refs_ok ob (mset (if more2 then [] else [LastOf (sh_block s)]) + A) m3"
        unfolding b using drop_weak_step[OF m2(2) sz, of b] b by blast
      have "\<exists>m'. (if more2 then Inr m3 else delete_block (sh_block s) m3) = Inr m' \<and> refs_ok ob A m'"
        using m3(2) delete_block_step[of ob "sh_block s" A m3] by (cases more2) (auto simp: steps_to_def bnd_eq_Inr)
      then show ?thesis using m1(1) m2(1) m3(1) Some False by (simp add: shared_destroy_def)
    qed
  qed
qed

lemma weak_destroy_ok:
  assumes "refs_ok ob (add_mset (Weak w) A) m" and "size A < 2 ^ 31"
  shows "\<exists>m'. weak_destroy w m = Inr m' \<and> refs_ok ob A m'"
proof (cases "wk_block w")
  case None
  have "refs_ok ob A m" by (rule refs_ok_same[OF assms(1)]) (use assms(1) None in \<open>auto simp: role_defs refs_ok_def\<close>)
  then show ?thesis using None by (simp add: weak_destroy_def)
next
  case (Some b)
  obtain more m1 where m1: "RefCountDec_weak (Some b) m = Inr (more, m1)"
      "refs_ok ob (mset (if more then [] else [LastOf (Some b)]) + A) m1"
    using drop_weak_step[OF assms, of b] Some by blast
  have "\<exists>m'. (if \<not> more then delete_block (Some b) m1 else Inr m1) = Inr m' \<and> refs_ok ob A m'"
    using m1(2) delete_block_step[of ob "Some b" A m1] by (cases more) (auto simp: steps_to_def bnd_eq_Inr)
  then show ?thesis using m1(1) Some by (cases more) (simp_all add: weak_destroy_def)
qed

text \<open>After an assignment both pointers share the object of the right-hand side; the object of the left-hand
  side is gone if this was its last owner.\<close>

lemma shared_assign_ok:
  assumes "refs_ok ob (add_mset (Shared s) (add_mset (Shared p) A)) m" and "size A < 2 ^ 31 - 4"
  shows "\<exists>s' m'. shared_assign s p m = Inr (s', m') \<and> sh_ptr s' = sh_ptr p \<and>
    refs_ok ob (add_mset (Shared s') (add_mset (Shared p) A)) m'"
proof (cases "sh_ptr s = sh_ptr p")
  case True
  then show ?thesis using assms(1) by (simp add: shared_assign_def)
next
  case False
  have r: "refs_ok ob (add_mset (Shared p) (add_mset (Shared s) A)) m" using assms(1) by (simp add: add_mset_commute)
  obtain t m1 where t: "shared_copy p m = Inr (t, m1)" "refs_ok ob (mset [Shared p, Shared t] + add_mset (Shared s) A) m1"
    using copy_shared_step[OF r] by (auto simp: steps_to_def bnd_eq_Inr)
  have ptr: "sh_ptr t = sh_ptr p"
    using t(1) r by (auto simp: shared_copy_def bnd_eq_Inr shared_empty_def refs_ok_def shared_ok_def split: if_splits)
  have swap: "shared_swap s t = (t, s)" by (simp add: shared_swap_def)
  have "refs_ok ob (add_mset (Shared s) (add_mset (Shared t) (add_mset (Shared p) A))) m1"
    using t(2) by (simp add: add_mset_commute)
  then obtain m2 where "shared_destroy s m1 = Inr m2" "refs_ok ob (add_mset (Shared t) (add_mset (Shared p) A)) m2"
    using shared_destroy_ok[of ob s _ m1] assms(2) by fastforce
  then show ?thesis using t(1) ptr False by (simp add: shared_assign_def swap)
qed
text \<open>An empty pointer counts one owner, and is unique.\<close>

lemma empty_use_count: "shared_use_count shared_empty m = Inr 1" "shared_unique shared_empty m = Inr True"
  by (simp_all add: shared_use_count_def shared_unique_def shared_empty_def)

end
