(* ===== verification/Spec2Isabelle.thy ===== *)
theory Spec2Isabelle
  imports ProDealMove LogMt QueueThreads DailyJob PbArenaString PbMapSync GrpcTransfer GrpcClientStream
    PbStringPiece PbSharedPtr
begin

text \<open>
  \<^bold>\<open>finger_move: moving fingerprint files between the caches of a search service.\<close>

  \<^bold>\<open>The program.\<close> A node runs in one of three modes (\<open>src/service.cc\<close>, options \<open>-g\<close>, \<open>-m\<close>,
  \<open>-s\<close>). Once a day the main cache (\<open>McService::runLoop\<close>) lists its fingerprint files, collects
  and counts the search logs, and selects the files that were searched least (\<open>src/prodeal.cc\<close>).
  It then asks each group server of the group list (\<open>Preconf\<close>, \<open>src/server.cc\<close>) how many files it
  can take; a group server does the same counting on its own logs, selects its popular files and
  sends them to the main cache (\<open>GrMoveClient\<close>, \<open>src/client.cc\<close>), and the main cache answers with
  as many of its unpopular files (\<open>McMoveClient\<close>). Files the main cache receives are stored and
  passed on to the sub caches (\<open>McServer\<close>, \<open>ScServer\<close>). All parts report through a logger
  thread fed by a bounded queue (\<open>src/logmt.cc\<close>, \<open>src/tpqueue.h\<close>) and read their options from a
  polled configuration file (\<open>src/autoconf.cc\<close>). Messages travel as protocol buffers: the repository
  carries the headers of that runtime, whose inline code is the part of it that is present.

  \<^bold>\<open>Conventions.\<close> An operation returns \<open>'a run\<close>, \<open>Inl\<close> of a fault where C++ leaves the access
  undefined or a check aborts, \<open>Inr\<close> of the result otherwise, so a theorem whose conclusion is
  \<open>Inr\<close> also says that no buffer overflows and no null pointer is followed. The state of a
  component is a record passed along; \<open>int\<close> is an \<open>int\<close> in the range of 32 signed bits with the
  conversions written out (\<open>wrap32\<close>, \<open>to_u32\<close>), the integers of the wire format are words. A node's
  state is \<open>host\<close> (configuration, files, log queue, transfers started); the world behind the
  generated RPC stubs is a type parameter with the stubs as functions (\<open>net\<close>).

  \<^bold>\<open>Theories, from the bottom.\<close>
  \<^item> \<open>Prelude\<close>: faults and sequencing, loops, checked array accesses, the C \<open>int\<close>.
    \<open>CString\<close>, \<open>FileSys\<close>, \<open>CTime\<close>: what the program uses of the C library: strings with their
    terminator, \<open>strcmp\<close>, \<open>atoi\<close>, \<open>strtok\<close>, \<open>sprintf\<close> into a buffer of given size; directories and
    files with \<open>opendir\<close>, \<open>fopen\<close>, \<open>fgets\<close>, \<open>rename\<close>, \<open>remove\<close>; \<open>gmtime\<close> and \<open>strftime\<close>.
  \<^item> \<open>AutoConf\<close> (\<open>src/autoconf.cc\<close>): \<open>config\<close> is the static part of \<open>Config\<close>, \<open>dispath\<close> and
    \<open>load_conf\<close> read the file, \<open>routing_fn\<close> is the polling thread. Shown: for every text of
    the file, the last value given for an option wins and unknown names change nothing.
  \<^item> \<open>ProDealCollect\<close>, \<open>ProDealCount\<close>, \<open>ProDealSelect\<close>, \<open>ProDealMove\<close> (\<open>src/prodeal.cc\<close>): one
    definition for each static function of \<open>CProDeal\<close> and its loops. Shown: what each leaves in its
    work file and in the directories, on every early return. The two calls of \<open>sprintf\<close> whose source lies in
    the buffer they write (\<open>prodeal.cc:285\<close> and \<open>344\<close>), undefined in C, are taken to write the text they are
    meant to; the order \<open>std::sort\<close> gives to equal
    counts is the parameter \<open>srt\<close> of the locale \<open>std_sort\<close>.
  \<^item> \<open>TpQueue\<close> (\<open>src/tpqueue.h\<close>): the queue on an explicit heap with \<open>m_tail\<close> as the address it is;
    each turn of \<open>get\<close> and \<open>put\<close> between two waits refines a list. \<open>QueueThreads\<close>: any number of
    threads as a step relation; memory safety, order, no lost wake-up, no deadlock, and the two ways
    in which \<open>logover\<close> and \<open>resetqueue\<close> leave a thread behind. \<open>LogMt\<close> (\<open>src/logmt.cc\<close>): formatting
    and the writer thread with its rotation.
  \<^item> \<open>GrpcStatus\<close>, \<open>GrpcWrap\<close>, \<open>Server\<close>, \<open>Client\<close>, \<open>Service\<close>: the status type, the handlers of the four services,
    the two transfers, the daily loop and \<open>main\<close>. Shown: what a handler stores and answers, when it is
    safe, which requests a transfer makes, how a node starts.
  \<^item> \<open>DailyJob\<close>: the composition: a whole \<open>Preconf\<close> and a whole day of the loop, from the logs and
    directories to the files moved. The code matches songs and files by the number their names start with, so
    what is counted and what is moved can differ; both theorems say where.
  \<^item> \<open>GrpcCall\<close> (\<open>include/grpc++/impl/call.h\<close>): the classes \<open>CallOp...\<close> that describe what a call sends and
    receives, and \<open>CallOpSet\<close>, which hands them to the core as one batch and finishes them. Shown: the
    batch a set becomes, and that finishing it frees what was made for it, once.
    \<open>GrpcUnary\<close> (\<open>impl/client_unary_call.h\<close>, \<open>impl/rpc_service_method.h\<close>): what the generated stubs call
    and what the server runs for a request. Shown: the answer each end gives on every branch, and that
    a call carried from one end to the other is a call of the service's function.
    \<open>GrpcStream\<close> (\<open>support/sync_stream.h\<close>): the ends of streaming calls and their handlers. Shown: a
    handler keeps to the protocol of \<open>grpc.h\<close> whatever the service's function does with the stream, and aborts
    exactly where that function, run step by step (\<open>app_step\<close>), sends initial metadata a second time or late.
    \<open>GrpcClientStream\<close>: whole sessions of the client's ends, with any application between constructor and
    \<open>Finish\<close> (\<open>client_step\<close>); shown: what they send, how often they ask for metadata and status, and exactly
    when they abort.
    \<open>GrpcTransfer\<close>: the composition: the main cache's transfer through these calls, up to the files in the
    group server's directory.
  \<^item> \<open>PbRepeated\<close> (\<open>RepeatedField\<close> of \<open>include/google/protobuf/repeated_field.h\<close>): every operation on
    the representation, with capacity and arena; it refines a list. Arguments by reference can refer into the
    field's own array (\<open>elem_ref\<close>), which growing may have deleted.
  \<^item> \<open>PbBytes\<close>: varints and little-endian integers as functions on numbers, and the specification
    \<open>writes f bs\<close> of a routine that writes at a pointer. \<open>PbOutput\<close>, \<open>PbInput\<close>: the inline
    operations of \<open>CodedOutputStream\<close> and \<open>CodedInputStream\<close> (\<open>io/coded_stream.h\<close>).
    \<open>PbWire\<close>, \<open>PbWireWrite\<close>, \<open>PbParse\<close>: tags, ZigZag, \<open>ReadPrimitive\<close>, the writers, the readers of
    repeated, packed, group and message fields (\<open>wire_format_lite.h\<close>, \<open>wire_format_lite_inl.h\<close>).
    Shown: values and fields are read back as written, array and stream writers agree with the size
    functions, the ways to read a tag agree, a packed field is read back on each path.
    Shown too: an embedded message is read back with the recursion budget restored.
    \<open>PbFlat\<close>: streams over memory that meet the hypotheses about the library.
  \<^item> \<open>PbHeap\<close>: objects behind pointers and the list of what an arena deletes. \<open>PbArenaString\<close>
    (\<open>ArenaStringPtr\<close> of \<open>arenastring.h\<close>): the string fields of messages; shown: who owns which string
    after each operation. \<open>PbMap\<close> (\<open>Map\<close> of \<open>map.h\<close>): the hash map of a map field; it refines a finite map
    and neither leaks a pair nor frees one twice; a value that \<open>new\<close> leaves indeterminate is \<open>None\<close>, and an
    operation that would read it faults. \<open>PbMapEntry\<close> (\<open>map_type_handler.h\<close>,
    \<open>map_entry_lite.h\<close>): how the keys and values of each type are written and read, and the entry that
    carries a pair over the wire; shown: an entry is understood in whatever order it is written, and a
    pair is read back as written. \<open>PbMapField\<close> (\<open>map_field_lite.h\<close>): the map field of a message.
  \<^item> \<open>PbMapKey\<close> (\<open>MapKey\<close> and \<open>MapValueRef\<close> of \<open>map.h\<close>): a key of any type as a tagged union that may
    own a string, a typed reference to a value; shown: a key is a value, and every access is checked.
    \<open>PbMapSync\<close> (\<open>MapField\<close> of \<open>map_field.h\<close> and \<open>map_field_inl.h\<close>): the map field of messages with
    reflection, which keeps its pairs as a map and as a repeated field of entries; shown: both stand
    for one finite map, whichever was changed last, and every operation acts on that map.
  \<^item> \<open>PbRepeatedPtr\<close> (\<open>RepeatedPtrField\<close> of \<open>repeated_field.h\<close>): the array of pointers behind repeated
    strings and messages, with its cleared objects and its arena; it refines a list, merges, copies and
    swaps with other fields, and neither leaks an object nor deletes one twice.
  \<^item> \<open>PbMem\<close> (\<open>stubs/fastmem.h\<close>): comparisons of memory by whole words against \<open>memcmp\<close>. \<open>PbStringPiece\<close>
    (\<open>stubs/stringpiece.h\<close>): strings by reference are the bytes they refer to. \<open>PbSharedPtr\<close>
    (\<open>stubs/shared_ptr.h\<close>): reference counting, with the pointers' operations cut into atomic steps;
    shown for every interleaving: nothing is used or deleted after it is gone, and nothing is left.

  \<^bold>\<open>Interfaces.\<close> \<open>std_sort\<close> (the comparison sort), \<open>growable\<close> (what \<open>Add\<close> promises of a container),
  \<open>assignable\<close> (assignment of readable values to a map key by key), \<open>handler_contract\<close> (what the entry relies
  on of the type handlers of its key and value: primitive types, strings and messages are its three interpretations),
  \<open>clearable\<close> (what a repeated field relies on of the objects it reuses), \<open>loads_back\<close> (what the two sides of a map
  field rely on of a stored key or value)
  and the locales of the queue are interpreted on the model's definitions where these are made.

  \<^bold>\<open>Hypotheses about code that is not here.\<close> The generated stubs (\<open>net\<close>) are arbitrary functions on
  the world. Of \<open>coded_stream.cc\<close> the records \<open>in_ops\<close> and \<open>out_ops\<close> hold the functions the headers
  call, and \<open>in_ok\<close> and \<open>out_ok\<close> state what the headers' comments say of them in terms of the bytes
  that can be read or have been taken; \<open>nesting_ok\<close> and \<open>nested_limits\<close> add the limits of embedded
  messages, \<open>budget_kept\<close> that the library leaves the recursion budget alone. \<open>wire_lib\<close> holds the
  functions of \<open>wire_format_lite.cc\<close>, with \<open>bytes_ok\<close>, \<open>fields_ok\<close> and \<open>entry_lib_ok\<close>. A message's own
  parser and serialiser are parameters. The standard library's hash map puts a node anywhere
  (\<open>place_ok\<close>). \<open>rp_lib\<close> holds the three functions of \<open>repeated_field.cc\<close> that resize the array of pointers
  or close a gap in it, \<open>rp_lib_ok\<close> what the header says of them. \<open>class_ok\<close> states that the parts a map field is made of keep
  their contracts, \<open>sync_ok\<close> what \<open>map_field.h\<close> says of the functions of \<open>map_field.cc\<close>. Every one of these hypotheses is proved of the streams over memory (\<open>PbFlat\<close> and the last
  sections of \<open>PbParse\<close> and \<open>PbMapEntry\<close>) or of a library of its own (\<open>exact_lib\<close>).

  The core below gRPC is a function from a batch to the reply (\<open>core\<close>), with \<open>Call::PerformOps\<close> and
  \<open>CompletionQueue::Pluck\<close> as comments in the headers describe them; \<open>serial\<close> holds \<open>SerializeProto\<close> and
  \<open>DeserializeProto\<close>. \<open>carries\<close> says that a client's core brings requests to a server and its answers
  back, \<open>reads_back\<close> that a message survives its serialisation, \<open>stub_calls\<close> that the generated stub is
  \<open>BlockingUnaryCall\<close>, \<open>deletes_elsewhere\<close> that the sub servers are other processes; \<open>loop_core\<close> and
  \<open>group_net\<close> are instances. \<open>FillMetadataArray\<close> is taken to allocate an array for the multimap, as its
  callers rely on.

  \<^bold>\<open>Bounds and fuel.\<close> Three loops have fuel. \<open>packed_loop\<close> runs until a limit that the
  library reports; each turn reads at least one byte, and one unit of fuel more than there are values
  is enough (\<open>packed_round_trip\<close>). \<open>entry_loop\<close> needs one more than the entry has items
  (\<open>map_entry_parses\<close>), \<open>Map_erase_range\<close> one more than the range has nodes (\<open>Map_erase_range_ends\<close>).
  All other loops are structural or have a measure. A day of the
  daily loop is one function; the endless loop around it is \<open>runLoop\<close> over a given list of days, each
  with its time and what happens to the node until the next. Reference counts have 32 bits: \<open>reach\<close> is
  for fewer than \<open>2 ^ 31\<close> pointers at once.

  \<^bold>\<open>Not modelled.\<close> Standard output; the contents of memory behind a fault; scheduling inside a
  critical section (a turn under the lock is one step); the counters of \<open>CodedInputStream\<close> beyond the
  range of \<open>int\<close>; the iterators of \<open>repeated_field.h\<close>; descriptors,
  reflection, the blocks of an arena, map iterators and \<open>DynamicMapField\<close> (\<open>map_field.h\<close>), extensions; of \<open>include/grpc\<close> and
  \<open>include/grpc++\<close> the channels, credentials, the server and its builder, asynchronous and generic calls:
  declarations of compiled libraries, or code the program does not reach with its own logic. The
  generated message classes are not in the repository.
\<close>

end
